(* ===== verification/Prelude.thy ===== *)
theory Prelude
  imports Main "HOL-Library.Word"
begin

text \<open>
  What the components of the development share: the machine-integer types of the C code, the
  outcome of an operation that may block or hit a failed assertion, loops over a range that
  thread a state through a fallible body, lemmas on single-bit flags and on counters kept in
  words, and the named collections the component theories fill.
\<close>

unbundle bit_operations_syntax

section \<open>Collections\<close>

named_theorems flag_simps \<open>how the status flags of a cache entry are read and written\<close>
named_theorems frame_simps \<open>which part of a state an operation leaves alone\<close>
named_theorems inv_intros \<open>operations that keep an invariant\<close>

section \<open>Machine integers\<close>

type_synonym u8 = "8 word"
type_synonym u16 = "16 word"
type_synonym u32 = "32 word"
type_synonym u64 = "64 word"

lemma unat_u64_lt: "unat (w :: u64) < 2 ^ 64"
  by (rule order_less_le_trans [OF unsigned_less]) simp

lemma unat_u32_lt: "unat (w :: u32) < 2 ^ 32"
  by (rule order_less_le_trans [OF unsigned_less]) simp

section \<open>Outcomes\<close>

text \<open>
  A C function returns, spins or sleeps for ever (\<open>Blocked\<close>), or stops the process in
  a \<open>platform_assert\<close> (\<open>Abort\<close>).
\<close>

datatype fail = Blocked | Abort

type_synonym 'a outcome = "fail + 'a"

text \<open>The error codes that the modelled functions return.\<close>

datatype platform_status =
  STATUS_OK | STATUS_NO_MEMORY | STATUS_BAD_PARAM | STATUS_NOT_FOUND | STATUS_NO_SPACE | STATUS_INVALID_STATE
  | STATUS_LIMIT_EXCEEDED

definition obind :: "'e + 'a \<Rightarrow> ('a \<Rightarrow> 'e + 'b) \<Rightarrow> 'e + 'b" where
  "obind m f = (case m of Inl e \<Rightarrow> Inl e | Inr x \<Rightarrow> f x)"

lemma obind_simps [simp]:
  "obind (Inl e) f = Inl e"
  "obind (Inr x) f = f x"
  by (simp_all add: obind_def)

lemma obind_eq_Inr: "obind m f = Inr y \<longleftrightarrow> (\<exists>x. m = Inr x \<and> f x = Inr y)"
  by (cases m) auto

lemma obind_InrE:
  assumes "obind m f = Inr y"
  obtains x where "m = Inr x" and "f x = Inr y"
  using assms by (auto simp: obind_eq_Inr)

text \<open>A \<open>for\<close> loop whose body may fail stops at the first failure.\<close>

fun iterM :: "('x \<Rightarrow> 's \<Rightarrow> 'e + 's) \<Rightarrow> 'x list \<Rightarrow> 's \<Rightarrow> 'e + 's" where
  "iterM f [] s = Inr s"
| "iterM f (x # xs) s = obind (f x s) (iterM f xs)"

lemma iterM_append: "iterM f (xs @ ys) s = obind (iterM f xs s) (iterM f ys)"
  by (induction xs arbitrary: s) (auto simp: obind_def split: sum.splits)

lemma iterM_invariant:
  assumes "iterM f xs s = Inr s'" and "P s"
    and "\<And>x s s'. x \<in> set xs \<Longrightarrow> P s \<Longrightarrow> f x s = Inr s' \<Longrightarrow> P s'"
  shows "P s'"
  using assms by (induction xs arbitrary: s) (auto elim!: obind_InrE)

text \<open>A loop returns when each turn does.\<close>

lemma iterM_returns:
  assumes "P s" and "\<And>x s. x \<in> set xs \<Longrightarrow> P s \<Longrightarrow> \<exists>s'. f x s = Inr s' \<and> P s'"
  shows "\<exists>s'. iterM f xs s = Inr s' \<and> P s'"
  using assms
proof (induction xs arbitrary: s)
  case (Cons x xs)
  then obtain s1 where "f x s = Inr s1" "P s1" by fastforce
  with Cons show ?case by simp
qed simp

text \<open>A loop over an interval, with an invariant that knows the index.\<close>

lemma iterM_upt_invariant:
  assumes "iterM f [a..<b] s = Inr s'" and "a \<le> b" and "P a s"
    and "\<And>i s s'. a \<le> i \<Longrightarrow> i < b \<Longrightarrow> P i s \<Longrightarrow> f i s = Inr s' \<Longrightarrow> P (Suc i) s'"
  shows "P b s'"
  using assms
proof (induction "b - a" arbitrary: a s)
  case (Suc n)
  then have ab: "a < b" by simp
  with Suc.prems(1) obtain s1 where
    s1: "f a s = Inr s1" "iterM f [Suc a..<b] s1 = Inr s'"
    by (auto simp: upt_conv_Cons elim: obind_InrE)
  have "P (Suc a) s1" using Suc.prems(4) [OF _ ab Suc.prems(3) s1(1)] by simp
  with Suc.hyps Suc.prems(4) ab s1(2) show ?case by (intro Suc.hyps(1)) auto
qed simp

text \<open>A loop whose body cannot fail is a fold; it keeps what its body keeps.\<close>

lemma fold_invariant_set:
  assumes "P s" and "\<And>x s. x \<in> set xs \<Longrightarrow> P s \<Longrightarrow> P (f x s)"
  shows "P (fold f xs s)"
  using assms by (induction xs arbitrary: s) auto

lemma fold_keeps:
  assumes "\<And>x s. g (f x s) = g s"
  shows "g (fold f xs s) = g s"
  using assms by (induction xs arbitrary: s) auto

lemma iterM_keeps:
  assumes "iterM f xs s = Inr s'" and "\<And>x s s'. f x s = Inr s' \<Longrightarrow> g s' = g s"
  shows "g s' = g s"
  using assms(1) by (induction xs arbitrary: s) (auto elim!: obind_InrE dest: assms(2))

section \<open>Logarithm\<close>

text \<open>\<open>63 - __builtin_clzll(n)\<close> of the C code, for \<open>n\<close> not 0.\<close>

fun floor_log2 :: "nat \<Rightarrow> nat" where
  "floor_log2 n = (if n \<le> 1 then 0 else Suc (floor_log2 (n div 2)))"

declare floor_log2.simps [simp del]

section \<open>Single-bit flags\<close>

lemma and_flag_eq_0: "(s::'a::len word) AND push_bit n 1 = 0 \<longleftrightarrow> \<not> bit s n"
  using bit_iff_and_push_bit_not_eq_0 [of s n] by blast

lemma flag_and_eq_0: "push_bit n 1 AND (s::'a::len word) = 0 \<longleftrightarrow> \<not> bit s n"
  using and_flag_eq_0 [of s n] by (metis and.commute)

lemma bit_flag: "bit (push_bit n 1 :: 'a::len word) k \<longleftrightarrow> k = n \<and> n < LENGTH('a)"
  by (auto simp: bit_simps)

text \<open>Adding a multiple of \<open>2 ^ n\<close> leaves the bits below \<open>n\<close> alone.\<close>

lemma bit_add_high:
  fixes s :: "'a::len word"
  assumes "k < n" and "take_bit n c = 0"
  shows "bit (s + c) k = bit s k"
proof (cases "k < LENGTH('a)")
  case True
  let ?m = "min LENGTH('a) n"
  have "take_bit ?m (uint c) = 0"
    using assms(2) by transfer (simp add: min.commute)
  then have "take_bit ?m (take_bit ?m (uint s) + take_bit ?m (uint c)) = take_bit ?m (uint s)"
    by simp
  then have "take_bit ?m (uint s + uint c) = take_bit ?m (uint s)"
    by (simp only: take_bit_add)
  then have "take_bit ?m (uint (s + c)) = take_bit ?m (uint s)"
    by (simp add: uint_word_ariths take_bit_eq_mod [symmetric])
  then have "bit (take_bit ?m (uint (s + c))) k = bit (take_bit ?m (uint s)) k"
    by simp
  then show ?thesis
    using True assms(1) by (simp add: bit_take_bit_iff bit_uint_iff)
next
  case False
  then show ?thesis by (simp add: bit_word.rep_eq)
qed

lemma bit_sub_high:
  fixes s :: "'a::len word"
  assumes "k < n" and "take_bit n c = 0"
  shows "bit (s - c) k = bit s k"
  using bit_add_high [OF assms, of "s - c"] by simp

text \<open>The eviction interval while the cache has none (\<open>cache.h\<close>).\<close>

definition EI_NOT_READY :: u64 where "EI_NOT_READY = 0"

section \<open>Types of pages\<close>

datatype page_type =
    PAGE_TYPE_INVALID | PAGE_TYPE_TRUNK | PAGE_TYPE_BRANCH | PAGE_TYPE_MEMTABLE
  | PAGE_TYPE_FILTER | PAGE_TYPE_LOG | PAGE_TYPE_SUPERBLOCK | PAGE_TYPE_MISC

text \<open>All page types, in the order of the enumeration.\<close>

definition page_types :: "page_type list" where
  "page_types = [PAGE_TYPE_INVALID, PAGE_TYPE_TRUNK, PAGE_TYPE_BRANCH, PAGE_TYPE_MEMTABLE,
     PAGE_TYPE_FILTER, PAGE_TYPE_LOG, PAGE_TYPE_SUPERBLOCK, PAGE_TYPE_MISC]"

lemma page_types_all: "t \<in> set page_types"
  by (cases t) (simp_all add: page_types_def)

instantiation page_type :: enum
begin

definition "enum_page_type = page_types"
definition "enum_all_page_type P \<longleftrightarrow> (\<forall>t\<in>set page_types. P t)"
definition "enum_ex_page_type P \<longleftrightarrow> (\<exists>t\<in>set page_types. P t)"

instance
  by standard (auto simp: enum_page_type_def enum_all_page_type_def enum_ex_page_type_def page_types_all,
    simp add: page_types_def)

end

end
