(* ===== verification/TpState.thy ===== *)
theory TpState
  imports Prelude
begin

text \<open>
  The state of the TreePass cache (\<open>splinterdb/src/treepass.h\<close>, \<open>cache.h\<close>) and the
  operations on one entry's status word: the six state flags, the three-bit clock counter
  above them, the direct map from disk addresses to entries, and the inheritance of a clock
  value from one page to another (the first part of \<open>splinterdb/src/treepass.c\<close>).

  An array of the code is a function of its index; \<open>TpInv\<close> shows that the indices the code
  computes stay below the array's length. Entry numbers are \<open>nat\<close>, status words, clocks,
  reference counts, addresses and timestamps keep their width. A page's contents are of an
  arbitrary type \<open>'d\<close>.

  The fields after \<open>stats\<close> are the environment of the cache: the device, the submitted and
  not yet reaped asynchronous requests, the completions the kernel will report (the index of
  a submitted request and whether it succeeded), whether a synchronous transfer at an
  address succeeds, the readings of the clock, and the counters of callers that wait for an
  \<open>extent_sync\<close>.
\<close>

section \<open>Constants\<close>

definition TP_UNMAPPED_ENTRY :: nat where "TP_UNMAPPED_ENTRY = 4294967295"
definition TP_UNMAPPED_ADDR :: u64 where "TP_UNMAPPED_ADDR = 18446744073709551615"
definition TP_ENTRIES_PER_BATCH :: nat where "TP_ENTRIES_PER_BATCH = 64"
definition TP_CLEANER_GAP :: nat where "TP_CLEANER_GAP = 512"
definition PLATFORM_CACHELINE_SIZE :: nat where "PLATFORM_CACHELINE_SIZE = 64"
definition TP_RC_WIDTH :: nat where "TP_RC_WIDTH = 4"
definition MAX_THREADS :: nat where "MAX_THREADS = 128"

definition TP_FREE :: u32 where "TP_FREE = push_bit 0 1"
definition TP_CLEAN :: u32 where "TP_CLEAN = push_bit 1 1"
definition TP_WRITEBACK :: u32 where "TP_WRITEBACK = push_bit 2 1"
definition TP_LOADING :: u32 where "TP_LOADING = push_bit 3 1"
definition TP_WRITELOCKED :: u32 where "TP_WRITELOCKED = push_bit 4 1"
definition TP_CLAIMED :: u32 where "TP_CLAIMED = push_bit 5 1"

definition TP_CLOCK_SHIFT :: nat where "TP_CLOCK_SHIFT = 6"
definition TP_CLOCK_BITS :: nat where "TP_CLOCK_BITS = 3"
definition TP_CLOCK_MASK :: u32 where
  "TP_CLOCK_MASK = push_bit TP_CLOCK_SHIFT (push_bit TP_CLOCK_BITS 1 - 1)"
definition TP_CLOCK_ONE :: u32 where "TP_CLOCK_ONE = push_bit TP_CLOCK_SHIFT 1"
definition TP_CLOCK_MAX :: u32 where "TP_CLOCK_MAX = push_bit TP_CLOCK_BITS 1 - 1"

definition TP_FREE_STATUS :: u32 where "TP_FREE_STATUS = 0 OR TP_FREE"
definition TP_EVICTABLE_STATUS :: u32 where "TP_EVICTABLE_STATUS = 0 OR TP_CLEAN"
definition TP_LOCKED_EVICTABLE_STATUS :: u32 where
  "TP_LOCKED_EVICTABLE_STATUS = 0 OR TP_CLEAN OR TP_CLAIMED OR TP_WRITELOCKED"
definition TP_ALLOC_STATUS :: u32 where "TP_ALLOC_STATUS = 0 OR TP_WRITELOCKED OR TP_CLAIMED"
definition TP_CLEANABLE_BASE_MASK :: u32 where
  "TP_CLEANABLE_BASE_MASK =
     TP_FREE OR TP_CLEAN OR TP_WRITEBACK OR TP_LOADING OR TP_WRITELOCKED OR TP_CLAIMED"
definition TP_READ_LOADING_STATUS :: u32 where
  "TP_READ_LOADING_STATUS = 0 OR TP_CLEAN OR TP_LOADING"

lemmas tp_consts =
  TP_UNMAPPED_ENTRY_def TP_UNMAPPED_ADDR_def TP_ENTRIES_PER_BATCH_def TP_CLEANER_GAP_def
  PLATFORM_CACHELINE_SIZE_def TP_RC_WIDTH_def MAX_THREADS_def EI_NOT_READY_def
lemmas tp_flags =
  TP_FREE_def TP_CLEAN_def TP_WRITEBACK_def TP_LOADING_def TP_WRITELOCKED_def TP_CLAIMED_def
lemmas tp_clock_consts =
  TP_CLOCK_SHIFT_def TP_CLOCK_BITS_def TP_CLOCK_MASK_def TP_CLOCK_ONE_def TP_CLOCK_MAX_def
lemmas tp_statuses =
  TP_FREE_STATUS_def TP_EVICTABLE_STATUS_def TP_LOCKED_EVICTABLE_STATUS_def
  TP_ALLOC_STATUS_def TP_CLEANABLE_BASE_MASK_def TP_READ_LOADING_STATUS_def

section \<open>Data\<close>

datatype node_class = NODE_CLASS_COLD | NODE_CLASS_WARM | NODE_CLASS_HOT | NODE_CLASS_META

text \<open>
  The EWMA of the eviction interval is computed in C \<open>double\<close>s; the field \<open>ei_ewma\<close>
  stands for that floating-point expression, from the measured sweep time and the old
  interval to the new interval.
\<close>

record tp_config =
  io_page_size :: u64
  io_extent_size :: u64
  capacity :: u64
  use_stats :: bool
  log_page_size :: nat
  page_capacity :: nat
  batch_capacity :: nat
  cacheline_capacity :: nat
  pages_per_extent :: nat
  ei_ewma :: "u64 \<Rightarrow> u64 \<Rightarrow> u64"
  ei_initial_per_gb_ns :: u64
  al_extent_mask :: u64

record 'd tp_entry =
  page_data :: 'd
  disk_addr :: u64
  entry_time :: u64
  status :: u32
  ptype :: page_type
  waiters :: "nat list"

record cache_stats =
  cache_hits :: "page_type \<Rightarrow> u64"
  cache_misses :: "page_type \<Rightarrow> u64"
  page_writes :: "page_type \<Rightarrow> u64"
  page_reads :: "page_type \<Rightarrow> u64"
  discard_clean :: "page_type \<Rightarrow> u64"
  discard_dirty :: "page_type \<Rightarrow> u64"
  discard_uncached :: "page_type \<Rightarrow> u64"
  prefetches_issued :: "page_type \<Rightarrow> u64"
  writes_issued :: u64
  syncs_issued :: u64

datatype io_cmd = IO_PREADV | IO_PWRITEV

record io_req =
  rq_cmd :: io_cmd
  rq_addr :: u64
  rq_iovec :: "nat list"
  rq_num_passes :: u32
  rq_outstanding :: "nat option"

record 'd treepass =
  cfg :: tp_config
  lookup :: "nat \<Rightarrow> nat"
  entry :: "nat \<Rightarrow> 'd tp_entry"
  refcount :: "nat \<Rightarrow> u16"
  pincount :: "nat \<Rightarrow> u8"
  evict_hand :: u32
  batch_busy :: "nat \<Rightarrow> bool"
  cleaner_gap :: nat
  evict_interval_thre :: u64
  last_cycle_ts :: u64
  evict_batches :: u32
  last_ei_check_ts :: u64
  last_ei_check_cycle :: u32
  free_hand :: "nat \<Rightarrow> nat"
  enable_sync_get :: "nat \<Rightarrow> bool"
  stats :: "nat \<Rightarrow> cache_stats"
  disk :: "u64 \<Rightarrow> 'd"
  inflight :: "io_req list"
  reap :: "(nat \<times> bool) list"
  dev_ok :: "u64 \<Rightarrow> bool"
  clock :: "nat \<Rightarrow> u64"
  ticks :: nat
  pages_outstanding :: "nat \<Rightarrow> u64"

definition upd_entry :: "'d treepass \<Rightarrow> nat \<Rightarrow> ('d tp_entry \<Rightarrow> 'd tp_entry) \<Rightarrow> 'd treepass" where
  "upd_entry cc e f = cc\<lparr>entry := (entry cc)(e := f (entry cc e))\<rparr>"

definition upd_stats ::
  "'d treepass \<Rightarrow> nat \<Rightarrow> (cache_stats \<Rightarrow> cache_stats) \<Rightarrow> 'd treepass" where
  "upd_stats cc tid f =
     (if use_stats (cfg cc) then cc\<lparr>stats := (stats cc)(tid := f (stats cc tid))\<rparr> else cc)"

definition bump :: "page_type \<Rightarrow> u64 \<Rightarrow> (page_type \<Rightarrow> u64) \<Rightarrow> page_type \<Rightarrow> u64" where
  "bump t n c = c(t := c t + n)"

definition platform_get_timestamp :: "'d treepass \<Rightarrow> u64 \<times> 'd treepass" where
  "platform_get_timestamp cc = (clock cc (ticks cc), cc\<lparr>ticks := Suc (ticks cc)\<rparr>)"

section \<open>Flags\<close>

definition treepass_trace_node_class :: "page_type \<Rightarrow> u64 \<Rightarrow> node_class" where
  "treepass_trace_node_class t etime =
     (if t = PAGE_TYPE_BRANCH then (if etime \<noteq> 0 then NODE_CLASS_WARM else NODE_CLASS_COLD)
      else if t = PAGE_TYPE_FILTER then NODE_CLASS_META
      else NODE_CLASS_HOT)"

definition treepass_get_status :: "'d treepass \<Rightarrow> nat \<Rightarrow> u32" where
  "treepass_get_status cc e = status (entry cc e)"

definition treepass_set_flag :: "'d treepass \<Rightarrow> nat \<Rightarrow> u32 \<Rightarrow> u32 \<times> 'd treepass" where
  "treepass_set_flag cc e flag =
     (flag AND status (entry cc e), upd_entry cc e (status_update (\<lambda>s. s OR flag)))"

definition treepass_clear_flag :: "'d treepass \<Rightarrow> nat \<Rightarrow> u32 \<Rightarrow> u32 \<times> 'd treepass" where
  "treepass_clear_flag cc e flag =
     (flag AND status (entry cc e), upd_entry cc e (status_update (\<lambda>s. s AND NOT flag)))"

definition treepass_test_flag :: "'d treepass \<Rightarrow> nat \<Rightarrow> u32 \<Rightarrow> u32" where
  "treepass_test_flag cc e flag = flag AND treepass_get_status cc e"

section \<open>The clock counter\<close>

definition status_clock :: "u32 \<Rightarrow> u32" where
  "status_clock s = drop_bit TP_CLOCK_SHIFT s AND TP_CLOCK_MAX"

definition treepass_get_clock :: "'d treepass \<Rightarrow> nat \<Rightarrow> u32" where
  "treepass_get_clock cc e = status_clock (treepass_get_status cc e)"

definition treepass_set_clock :: "'d treepass \<Rightarrow> nat \<Rightarrow> u32 \<Rightarrow> 'd treepass" where
  "treepass_set_clock cc e v =
     (let clamped = (if v > TP_CLOCK_MAX then TP_CLOCK_MAX else v);
          new_clock_bits = push_bit TP_CLOCK_SHIFT clamped
      in upd_entry cc e (status_update (\<lambda>s. s AND NOT TP_CLOCK_MASK OR new_clock_bits)))"

definition treepass_set_clock_accessed :: "'d treepass \<Rightarrow> nat \<Rightarrow> 'd treepass" where
  "treepass_set_clock_accessed cc e =
     (if status_clock (status (entry cc e)) < TP_CLOCK_MAX
      then upd_entry cc e (status_update (\<lambda>s. s + TP_CLOCK_ONE)) else cc)"

definition treepass_try_dec_clock :: "'d treepass \<Rightarrow> nat \<Rightarrow> bool \<times> 'd treepass" where
  "treepass_try_dec_clock cc e =
     (if status_clock (status (entry cc e)) = 0 then (False, cc)
      else (True, upd_entry cc e (status_update (\<lambda>s. s - TP_CLOCK_ONE))))"

definition treepass_has_clock :: "'d treepass \<Rightarrow> nat \<Rightarrow> bool" where
  "treepass_has_clock cc e \<longleftrightarrow> treepass_get_clock cc e > 0"

section \<open>Addresses and entries\<close>

definition treepass_config_page_size :: "tp_config \<Rightarrow> u64" where
  "treepass_config_page_size c = io_page_size c"

definition treepass_config_extent_size :: "tp_config \<Rightarrow> u64" where
  "treepass_config_extent_size c = io_extent_size c"

definition treepass_multiply_by_page_size :: "tp_config \<Rightarrow> u64 \<Rightarrow> u64" where
  "treepass_multiply_by_page_size c a = push_bit (log_page_size c) a"

definition treepass_divide_by_page_size :: "tp_config \<Rightarrow> u64 \<Rightarrow> u64" where
  "treepass_divide_by_page_size c a = drop_bit (log_page_size c) a"

definition lookup_no :: "tp_config \<Rightarrow> u64 \<Rightarrow> nat" where
  "lookup_no c a = unat (treepass_divide_by_page_size c a)"

definition treepass_lookup :: "'d treepass \<Rightarrow> u64 \<Rightarrow> nat" where
  "treepass_lookup cc a = lookup cc (lookup_no (cfg cc) a)"

definition treepass_lookup_entry :: "'d treepass \<Rightarrow> u64 \<Rightarrow> 'd tp_entry" where
  "treepass_lookup_entry cc a = entry cc (treepass_lookup cc a)"

definition set_lookup :: "'d treepass \<Rightarrow> u64 \<Rightarrow> nat \<Rightarrow> 'd treepass" where
  "set_lookup cc a e = cc\<lparr>lookup := (lookup cc)(lookup_no (cfg cc) a := e)\<rparr>"

text \<open>\<open>pages_share_extent\<close> of \<open>allocator.h\<close>: the same extent base address.\<close>

definition allocator_config_pages_share_extent :: "tp_config \<Rightarrow> u64 \<Rightarrow> u64 \<Rightarrow> bool" where
  "allocator_config_pages_share_extent c a1 a2 \<longleftrightarrow>
     a1 AND al_extent_mask c = a2 AND al_extent_mask c"

definition treepass_inherit_clock :: "'d treepass \<Rightarrow> u64 \<Rightarrow> u64 \<Rightarrow> u32 \<Rightarrow> 'd treepass" where
  "treepass_inherit_clock cc old_addr new_addr divisor =
     (let old_entry_no = treepass_lookup cc old_addr;
          old_found = (old_entry_no \<noteq> TP_UNMAPPED_ENTRY);
          old_clock = treepass_get_clock cc old_entry_no;
          clock_val = (if old_found
                       then (if divisor > 1 then old_clock div divisor else old_clock)
                       else 1);
          new_entry_no = treepass_lookup cc new_addr
      in if new_entry_no \<noteq> TP_UNMAPPED_ENTRY
         then (let cc1 = treepass_set_clock cc new_entry_no clock_val
               in if old_found
                  then (let old_entry_time = entry_time (entry cc1 old_entry_no)
                        in if old_entry_time \<noteq> 0
                           then upd_entry cc1 new_entry_no (entry_time_update (\<lambda>_. old_entry_time))
                           else cc1)
                  else cc1)
         else cc)"

definition treepass_set_page_clock :: "'d treepass \<Rightarrow> nat \<Rightarrow> u32 \<Rightarrow> 'd treepass" where
  "treepass_set_page_clock cc e c = treepass_set_clock cc e c"

definition treepass_get_page_clock :: "'d treepass \<Rightarrow> u64 \<Rightarrow> u32 \<times> u64" where
  "treepass_get_page_clock cc a =
     (let e = treepass_lookup cc a
      in if e = TP_UNMAPPED_ENTRY then (0, 0)
         else (treepass_get_clock cc e, entry_time (entry cc e)))"

end
