(* ===== verification/TpFlags.thy ===== *)
theory TpFlags
  imports TpState
begin

text \<open>
  How the six state flags and the clock counter share a status word: a flag operation changes
  its own bit only, a clock operation changes bits 6 to 8 only, the counter saturates at
  \<open>TP_CLOCK_MAX\<close> and at 0, and \<open>treepass_set_clock\<close> clamps.
\<close>

section \<open>Flags are single bits\<close>

definition st_free :: "u32 \<Rightarrow> bool" where "st_free s \<longleftrightarrow> bit s 0"
definition st_clean :: "u32 \<Rightarrow> bool" where "st_clean s \<longleftrightarrow> bit s 1"
definition st_writeback :: "u32 \<Rightarrow> bool" where "st_writeback s \<longleftrightarrow> bit s 2"
definition st_loading :: "u32 \<Rightarrow> bool" where "st_loading s \<longleftrightarrow> bit s 3"
definition st_writelocked :: "u32 \<Rightarrow> bool" where "st_writelocked s \<longleftrightarrow> bit s 4"
definition st_claimed :: "u32 \<Rightarrow> bool" where "st_claimed s \<longleftrightarrow> bit s 5"

lemmas st_defs = st_free_def st_clean_def st_writeback_def st_loading_def st_writelocked_def st_claimed_def

lemma bit_TP_flag:
  "bit TP_FREE k \<longleftrightarrow> k = 0"
  "bit TP_CLEAN k \<longleftrightarrow> k = 1"
  "bit TP_WRITEBACK k \<longleftrightarrow> k = 2"
  "bit TP_LOADING k \<longleftrightarrow> k = 3"
  "bit TP_WRITELOCKED k \<longleftrightarrow> k = 4"
  "bit TP_CLAIMED k \<longleftrightarrow> k = 5"
  unfolding tp_flags bit_flag by auto

lemma st_free_flags [flag_simps]:
  "st_free TP_FREE"
  "\<not> st_free TP_CLEAN"
  "\<not> st_free TP_WRITEBACK"
  "\<not> st_free TP_LOADING"
  "\<not> st_free TP_WRITELOCKED"
  "\<not> st_free TP_CLAIMED"
  "\<not> st_free 0"
  by (simp_all add: st_free_def bit_TP_flag)

lemma st_clean_flags [flag_simps]:
  "\<not> st_clean TP_FREE"
  "st_clean TP_CLEAN"
  "\<not> st_clean TP_WRITEBACK"
  "\<not> st_clean TP_LOADING"
  "\<not> st_clean TP_WRITELOCKED"
  "\<not> st_clean TP_CLAIMED"
  "\<not> st_clean 0"
  by (simp_all add: st_clean_def bit_TP_flag)

lemma st_writeback_flags [flag_simps]:
  "\<not> st_writeback TP_FREE"
  "\<not> st_writeback TP_CLEAN"
  "st_writeback TP_WRITEBACK"
  "\<not> st_writeback TP_LOADING"
  "\<not> st_writeback TP_WRITELOCKED"
  "\<not> st_writeback TP_CLAIMED"
  "\<not> st_writeback 0"
  by (simp_all add: st_writeback_def bit_TP_flag)

lemma st_loading_flags [flag_simps]:
  "\<not> st_loading TP_FREE"
  "\<not> st_loading TP_CLEAN"
  "\<not> st_loading TP_WRITEBACK"
  "st_loading TP_LOADING"
  "\<not> st_loading TP_WRITELOCKED"
  "\<not> st_loading TP_CLAIMED"
  "\<not> st_loading 0"
  by (simp_all add: st_loading_def bit_TP_flag)

lemma st_writelocked_flags [flag_simps]:
  "\<not> st_writelocked TP_FREE"
  "\<not> st_writelocked TP_CLEAN"
  "\<not> st_writelocked TP_WRITEBACK"
  "\<not> st_writelocked TP_LOADING"
  "st_writelocked TP_WRITELOCKED"
  "\<not> st_writelocked TP_CLAIMED"
  "\<not> st_writelocked 0"
  by (simp_all add: st_writelocked_def bit_TP_flag)

lemma st_claimed_flags [flag_simps]:
  "\<not> st_claimed TP_FREE"
  "\<not> st_claimed TP_CLEAN"
  "\<not> st_claimed TP_WRITEBACK"
  "\<not> st_claimed TP_LOADING"
  "\<not> st_claimed TP_WRITELOCKED"
  "st_claimed TP_CLAIMED"
  "\<not> st_claimed 0"
  by (simp_all add: st_claimed_def bit_TP_flag)

lemma st_or [flag_simps]:
  "st_free (s OR f) \<longleftrightarrow> st_free s \<or> st_free f"
  "st_clean (s OR f) \<longleftrightarrow> st_clean s \<or> st_clean f"
  "st_writeback (s OR f) \<longleftrightarrow> st_writeback s \<or> st_writeback f"
  "st_loading (s OR f) \<longleftrightarrow> st_loading s \<or> st_loading f"
  "st_writelocked (s OR f) \<longleftrightarrow> st_writelocked s \<or> st_writelocked f"
  "st_claimed (s OR f) \<longleftrightarrow> st_claimed s \<or> st_claimed f"
  by (simp_all add: st_defs bit_or_iff)

lemma st_and_not [flag_simps]:
  "st_free (s AND NOT f) \<longleftrightarrow> st_free s \<and> \<not> st_free f"
  "st_clean (s AND NOT f) \<longleftrightarrow> st_clean s \<and> \<not> st_clean f"
  "st_writeback (s AND NOT f) \<longleftrightarrow> st_writeback s \<and> \<not> st_writeback f"
  "st_loading (s AND NOT f) \<longleftrightarrow> st_loading s \<and> \<not> st_loading f"
  "st_writelocked (s AND NOT f) \<longleftrightarrow> st_writelocked s \<and> \<not> st_writelocked f"
  "st_claimed (s AND NOT f) \<longleftrightarrow> st_claimed s \<and> \<not> st_claimed f"
  by (simp_all add: st_defs bit_and_iff bit_not_iff)

lemma flag_test [flag_simps]:
  "TP_FREE AND s = 0 \<longleftrightarrow> \<not> st_free s" "s AND TP_FREE = 0 \<longleftrightarrow> \<not> st_free s"
  "TP_CLEAN AND s = 0 \<longleftrightarrow> \<not> st_clean s" "s AND TP_CLEAN = 0 \<longleftrightarrow> \<not> st_clean s"
  "TP_WRITEBACK AND s = 0 \<longleftrightarrow> \<not> st_writeback s" "s AND TP_WRITEBACK = 0 \<longleftrightarrow> \<not> st_writeback s"
  "TP_LOADING AND s = 0 \<longleftrightarrow> \<not> st_loading s" "s AND TP_LOADING = 0 \<longleftrightarrow> \<not> st_loading s"
  "TP_WRITELOCKED AND s = 0 \<longleftrightarrow> \<not> st_writelocked s" "s AND TP_WRITELOCKED = 0 \<longleftrightarrow> \<not> st_writelocked s"
  "TP_CLAIMED AND s = 0 \<longleftrightarrow> \<not> st_claimed s" "s AND TP_CLAIMED = 0 \<longleftrightarrow> \<not> st_claimed s"
  unfolding tp_flags st_defs flag_and_eq_0 and_flag_eq_0 by (rule refl)+

lemma two_flags_test [flag_simps]:
  fixes s f g :: u32
  shows "(f OR g) AND s = 0 \<longleftrightarrow> f AND s = 0 \<and> g AND s = 0"
    and "s AND (f OR g) = 0 \<longleftrightarrow> s AND f = 0 \<and> s AND g = 0"
  by (simp_all add: bit.conj_disj_distrib bit.conj_disj_distrib2 or_eq_0_iff)

lemma st_statuses [flag_simps]:
  "st_free TP_FREE_STATUS"
  "\<not> st_clean TP_FREE_STATUS"
  "\<not> st_writeback TP_FREE_STATUS"
  "\<not> st_loading TP_FREE_STATUS"
  "\<not> st_writelocked TP_FREE_STATUS"
  "\<not> st_claimed TP_FREE_STATUS"
  "\<not> st_free TP_EVICTABLE_STATUS"
  "st_clean TP_EVICTABLE_STATUS"
  "\<not> st_writeback TP_EVICTABLE_STATUS"
  "\<not> st_loading TP_EVICTABLE_STATUS"
  "\<not> st_writelocked TP_EVICTABLE_STATUS"
  "\<not> st_claimed TP_EVICTABLE_STATUS"
  "\<not> st_free TP_LOCKED_EVICTABLE_STATUS"
  "st_clean TP_LOCKED_EVICTABLE_STATUS"
  "\<not> st_writeback TP_LOCKED_EVICTABLE_STATUS"
  "\<not> st_loading TP_LOCKED_EVICTABLE_STATUS"
  "st_writelocked TP_LOCKED_EVICTABLE_STATUS"
  "st_claimed TP_LOCKED_EVICTABLE_STATUS"
  "\<not> st_free TP_ALLOC_STATUS"
  "\<not> st_clean TP_ALLOC_STATUS"
  "\<not> st_writeback TP_ALLOC_STATUS"
  "\<not> st_loading TP_ALLOC_STATUS"
  "st_writelocked TP_ALLOC_STATUS"
  "st_claimed TP_ALLOC_STATUS"
  "\<not> st_free TP_READ_LOADING_STATUS"
  "st_clean TP_READ_LOADING_STATUS"
  "\<not> st_writeback TP_READ_LOADING_STATUS"
  "st_loading TP_READ_LOADING_STATUS"
  "\<not> st_writelocked TP_READ_LOADING_STATUS"
  "\<not> st_claimed TP_READ_LOADING_STATUS"
  by (simp_all add: tp_statuses flag_simps)

lemma cleanable_mask [flag_simps]:
  "s AND TP_CLEANABLE_BASE_MASK = 0 \<longleftrightarrow>
     \<not> st_free s \<and> \<not> st_clean s \<and> \<not> st_writeback s \<and> \<not> st_loading s \<and>
     \<not> st_writelocked s \<and> \<not> st_claimed s"
  by (auto simp: TP_CLEANABLE_BASE_MASK_def flag_simps)

lemma test_flag_simps [flag_simps]:
  "treepass_test_flag cc e f = f AND status (entry cc e)"
  by (simp add: treepass_test_flag_def treepass_get_status_def)

section \<open>The clock counter\<close>

lemma TP_CLOCK_MAX_mask: "TP_CLOCK_MAX = mask 3"
  by (simp add: tp_clock_consts mask_eq_exp_minus_1)

lemma status_clock_take: "status_clock s = take_bit 3 (drop_bit 6 s)"
  by (simp add: status_clock_def TP_CLOCK_MAX_mask TP_CLOCK_SHIFT_def take_bit_eq_mask)

lemma unat_status_clock: "unat (status_clock s) = unat s div 64 mod 8"
proof -
  have "take_bit 32 (unat s) = unat s"
    using unsigned_less [of s] by (simp add: take_bit_nat_eq_self_iff)
  then have "unat (status_clock s) = take_bit 3 (drop_bit 6 (unat s))"
    by (simp only: status_clock_take unsigned_drop_bit_eq unsigned_take_bit_eq) simp
  then show ?thesis by (simp add: take_bit_eq_mod drop_bit_eq_div)
qed

lemma unat_TP_CLOCK_MAX [simp]: "unat TP_CLOCK_MAX = 7"
  by (simp add: tp_clock_consts)

lemma status_clock_le: "status_clock s \<le> TP_CLOCK_MAX"
  by (simp add: word_le_nat_alt unat_status_clock)

lemma bit_status_clock: "bit (status_clock s) k \<longleftrightarrow> k < 3 \<and> bit s (k + 6)"
  by (auto simp: status_clock_take bit_take_bit_iff bit_drop_bit_eq add.commute)

text \<open>Flag operations do not touch the clock, clock operations do not touch the flags.\<close>

lemma status_clock_flag:
  assumes "\<And>k. 6 \<le> k \<Longrightarrow> bit s k = bit t k"
  shows "status_clock s = status_clock t"
  by (rule bit_eqI) (simp add: bit_status_clock assms)

lemma status_clock_set_flag [flag_simps]:
  "status_clock (s OR TP_WRITEBACK) = status_clock s"
  "status_clock (s OR TP_CLEAN) = status_clock s"
  "status_clock (s OR TP_CLAIMED) = status_clock s"
  "status_clock (s OR TP_WRITELOCKED) = status_clock s"
  by (auto intro!: status_clock_flag simp: bit_or_iff bit_TP_flag)

lemma bit_clear_flag:
  fixes s f :: u32 shows "bit (s AND NOT f) k \<longleftrightarrow> bit s k \<and> \<not> bit f k"
  by (auto simp: bit_and_iff bit_not_iff dest: bit_imp_le_length)

lemma status_clock_clear_flag [flag_simps]:
  "status_clock (s AND NOT TP_WRITEBACK) = status_clock s"
  "status_clock (s AND NOT TP_CLEAN) = status_clock s"
  "status_clock (s AND NOT TP_LOADING) = status_clock s"
  "status_clock (s AND NOT TP_CLAIMED) = status_clock s"
  "status_clock (s AND NOT TP_WRITELOCKED) = status_clock s"
  by (auto intro!: status_clock_flag simp: bit_clear_flag bit_TP_flag)

lemma take_bit_clock_one: "take_bit 6 TP_CLOCK_ONE = 0"
  by (simp add: TP_CLOCK_ONE_def TP_CLOCK_SHIFT_def)

lemma st_inc_clock [flag_simps]:
  "st_free (s + TP_CLOCK_ONE) = st_free s"
  "st_clean (s + TP_CLOCK_ONE) = st_clean s"
  "st_writeback (s + TP_CLOCK_ONE) = st_writeback s"
  "st_loading (s + TP_CLOCK_ONE) = st_loading s"
  "st_writelocked (s + TP_CLOCK_ONE) = st_writelocked s"
  "st_claimed (s + TP_CLOCK_ONE) = st_claimed s"
  unfolding st_defs by (rule bit_add_high [OF _ take_bit_clock_one]; simp)+

lemma st_dec_clock [flag_simps]:
  "st_free (s - TP_CLOCK_ONE) = st_free s"
  "st_clean (s - TP_CLOCK_ONE) = st_clean s"
  "st_writeback (s - TP_CLOCK_ONE) = st_writeback s"
  "st_loading (s - TP_CLOCK_ONE) = st_loading s"
  "st_writelocked (s - TP_CLOCK_ONE) = st_writelocked s"
  "st_claimed (s - TP_CLOCK_ONE) = st_claimed s"
  unfolding st_defs by (rule bit_sub_high [OF _ take_bit_clock_one]; simp)+

lemma bit_clock_mask: "bit TP_CLOCK_MASK k \<longleftrightarrow> 6 \<le> k \<and> k < 9"
proof -
  have "TP_CLOCK_MASK = push_bit 6 (mask 3)"
    by (simp add: tp_clock_consts mask_eq_exp_minus_1)
  then have "bit TP_CLOCK_MASK k = bit (push_bit 6 (mask 3) :: u32) k" by simp
  also have "\<dots> \<longleftrightarrow> 6 \<le> k \<and> k < 9"
    by (simp only: bit_push_bit_iff bit_mask_iff) auto
  finally show ?thesis .
qed

lemma st_clock_bits [flag_simps]:
  "\<not> st_free TP_CLOCK_MASK" "\<not> st_free (push_bit TP_CLOCK_SHIFT v)"
  "\<not> st_clean TP_CLOCK_MASK" "\<not> st_clean (push_bit TP_CLOCK_SHIFT v)"
  "\<not> st_writeback TP_CLOCK_MASK" "\<not> st_writeback (push_bit TP_CLOCK_SHIFT v)"
  "\<not> st_loading TP_CLOCK_MASK" "\<not> st_loading (push_bit TP_CLOCK_SHIFT v)"
  "\<not> st_writelocked TP_CLOCK_MASK" "\<not> st_writelocked (push_bit TP_CLOCK_SHIFT v)"
  "\<not> st_claimed TP_CLOCK_MASK" "\<not> st_claimed (push_bit TP_CLOCK_SHIFT v)"
  "\<not> st_free TP_CLOCK_ONE"
  "\<not> st_clean TP_CLOCK_ONE"
  "\<not> st_writeback TP_CLOCK_ONE"
  "\<not> st_loading TP_CLOCK_ONE"
  "\<not> st_writelocked TP_CLOCK_ONE"
  "\<not> st_claimed TP_CLOCK_ONE"
  by (simp_all add: st_defs bit_clock_mask bit_push_bit_iff TP_CLOCK_SHIFT_def TP_CLOCK_ONE_def
      del: push_bit_of_1 bit_0)

lemma unat_CLOCK_ONE: "unat TP_CLOCK_ONE = 64"
  by (simp add: tp_clock_consts)

lemma clock_field_inc:
  assumes "(x::nat) div 64 mod 8 < 7"
  shows "(x + 64) div 64 mod 8 = Suc (x div 64 mod 8)"
proof -
  have "(x + 64) div 64 = Suc (x div 64)" by simp
  then show ?thesis using assms by (simp only: mod_Suc) simp
qed

lemma clock_field_room:
  assumes "(x::nat) div 64 mod 8 < 7" and "x < 4294967296"
  shows "x + 64 < 4294967296"
proof (rule ccontr)
  assume "\<not> ?thesis"
  with assms(2) have "x div 64 = 67108863" by (intro div_nat_eqI) auto
  with assms(1) show False by simp
qed

lemma status_clock_inc:
  assumes "status_clock s < TP_CLOCK_MAX"
  shows "unat (status_clock (s + TP_CLOCK_ONE)) = Suc (unat (status_clock s))"
proof -
  have lt: "unat s div 64 mod 8 < 7"
    using assms by (simp add: word_less_nat_alt unat_status_clock)
  have "unat s < 4294967296" using unsigned_less [of s] by simp
  with lt have "unat s + 64 < 4294967296" by (rule clock_field_room)
  then have "unat (s + TP_CLOCK_ONE) = unat s + 64"
    by (simp add: unat_word_ariths unat_CLOCK_ONE)
  with clock_field_inc [OF lt] show ?thesis by (simp only: unat_status_clock)
qed

lemma status_clock_dec:
  assumes "status_clock s \<noteq> 0"
  shows "Suc (unat (status_clock (s - TP_CLOCK_ONE))) = unat (status_clock s)"
proof -
  have pos: "unat s div 64 mod 8 \<noteq> 0"
    using assms by (metis unat_eq_zero unat_status_clock)
  have "64 \<le> unat s"
  proof (rule ccontr)
    assume "\<not> ?thesis" then have "unat s div 64 = 0" by simp
    with pos show False by simp
  qed
  then obtain y where y: "unat s = y + 64" by (metis add.commute le_Suc_ex)
  then have sub: "unat (s - TP_CLOCK_ONE) = y"
    by (simp add: unat_sub word_le_nat_alt unat_CLOCK_ONE)
  have "y div 64 mod 8 < 7"
  proof (rule ccontr)
    assume "\<not> ?thesis" then have "y div 64 mod 8 = 7"
      using mod_less_divisor [of 8 "y div 64"] by linarith
    moreover have "(y + 64) div 64 = Suc (y div 64)" by simp
    ultimately have "(y + 64) div 64 mod 8 = 0" by (simp only: mod_Suc) simp
    with pos y show False by simp
  qed
  from clock_field_inc [OF this] y sub show ?thesis by (simp only: unat_status_clock)
qed

end
