(* ===== verification/TpRefs.thy ===== *)
theory TpRefs
  imports TpFlags
begin

text \<open>
  The distributed reference counts and the pin counts of the TreePass cache
  (\<open>treepass_get_ref\<close> to \<open>treepass_assert_clean\<close> in \<open>splinterdb/src/treepass.c\<close>). A count
  lives at a striped index: neighbouring entries are on different cache lines and each of
  \<open>TP_RC_WIDTH\<close> groups of threads has its own copy. The lemmas show that the striping is
  injective and in range, so that the array behaves as one counter per entry and group.
\<close>

section \<open>Operations\<close>

definition treepass_get_ref_internal :: "tp_config \<Rightarrow> nat \<Rightarrow> nat" where
  "treepass_get_ref_internal c e =
     e mod cacheline_capacity c * PLATFORM_CACHELINE_SIZE + e div cacheline_capacity c"

definition ref_index :: "tp_config \<Rightarrow> nat \<Rightarrow> nat \<Rightarrow> nat" where
  "ref_index c e counter_no =
     counter_no mod TP_RC_WIDTH * page_capacity c + treepass_get_ref_internal c e"

definition treepass_get_ref :: "'d treepass \<Rightarrow> nat \<Rightarrow> nat \<Rightarrow> u16" where
  "treepass_get_ref cc e counter_no = refcount cc (ref_index (cfg cc) e counter_no)"

definition treepass_inc_ref :: "'d treepass \<Rightarrow> nat \<Rightarrow> nat \<Rightarrow> 'd treepass" where
  "treepass_inc_ref cc e counter_no =
     (let i = ref_index (cfg cc) e counter_no
      in cc\<lparr>refcount := (refcount cc)(i := refcount cc i + 1)\<rparr>)"

definition treepass_dec_ref :: "'d treepass \<Rightarrow> nat \<Rightarrow> nat \<Rightarrow> 'd treepass" where
  "treepass_dec_ref cc e counter_no =
     (let i = ref_index (cfg cc) e counter_no
      in cc\<lparr>refcount := (refcount cc)(i := refcount cc i - 1)\<rparr>)"

definition treepass_get_pin :: "'d treepass \<Rightarrow> nat \<Rightarrow> u8" where
  "treepass_get_pin cc e = pincount cc (treepass_get_ref_internal (cfg cc) e)"

definition treepass_inc_pin :: "'d treepass \<Rightarrow> nat \<Rightarrow> 'd treepass" where
  "treepass_inc_pin cc e =
     (let i = treepass_get_ref_internal (cfg cc) e
      in cc\<lparr>pincount := (pincount cc)(i := pincount cc i + 1)\<rparr>)"

definition treepass_dec_pin :: "'d treepass \<Rightarrow> nat \<Rightarrow> 'd treepass" where
  "treepass_dec_pin cc e =
     (let i = treepass_get_ref_internal (cfg cc) e
      in cc\<lparr>pincount := (pincount cc)(i := pincount cc i - 1)\<rparr>)"

definition treepass_reset_pin :: "'d treepass \<Rightarrow> nat \<Rightarrow> 'd treepass" where
  "treepass_reset_pin cc e =
     (let i = treepass_get_ref_internal (cfg cc) e
      in if pincount cc i \<noteq> 0 then cc\<lparr>pincount := (pincount cc)(i := 0)\<rparr> else cc)"

definition treepass_assert_no_refs :: "'d treepass \<Rightarrow> unit outcome" where
  "treepass_assert_no_refs cc =
     (if \<forall>i\<in>set [0..<MAX_THREADS]. \<forall>j\<in>set [0..<page_capacity (cfg cc)].
           treepass_get_ref cc j i = 0
      then Inr () else Inl Abort)"

definition treepass_assert_no_refs_and_pins :: "'d treepass \<Rightarrow> unit outcome" where
  "treepass_assert_no_refs_and_pins cc =
     (if \<forall>i\<in>set [0..<MAX_THREADS]. \<forall>j\<in>set [0..<page_capacity (cfg cc)].
           treepass_get_ref cc j i = 0
      then Inr () else Inl Abort)"

text \<open>The check of the write-lock bits that follows is a \<open>debug_assert\<close>.\<close>

definition treepass_assert_no_locks_held :: "'d treepass \<Rightarrow> unit outcome" where
  "treepass_assert_no_locks_held cc = treepass_assert_no_refs_and_pins cc"

definition treepass_assert_clean :: "'d treepass \<Rightarrow> bool" where
  "treepass_assert_clean cc \<longleftrightarrow>
     (\<forall>i\<in>set [0..<page_capacity (cfg cc)].
        treepass_test_flag cc i TP_FREE \<noteq> 0 \<or> treepass_test_flag cc i TP_CLEAN \<noteq> 0)"

section \<open>The configuration \<open>treepass_init\<close> accepts\<close>

definition tp_cfg_wf :: "tp_config \<Rightarrow> bool" where
  "tp_cfg_wf c \<longleftrightarrow>
     0 < page_capacity c \<and> page_capacity c < TP_UNMAPPED_ENTRY \<and>
     page_capacity c = batch_capacity c * TP_ENTRIES_PER_BATCH \<and>
     page_capacity c = cacheline_capacity c * PLATFORM_CACHELINE_SIZE \<and>
     0 < log_page_size c \<and> log_page_size c < 64 \<and>
     io_page_size c = push_bit (log_page_size c) 1 \<and>
     page_capacity c * 2 ^ log_page_size c < 2 ^ 64 \<and>
     pages_per_extent c * 2 ^ log_page_size c < 2 ^ 64"

section \<open>The striping is injective and in range\<close>

lemma div_mod_eq_iff: "(a::nat) mod n = b mod n \<Longrightarrow> a div n = b div n \<Longrightarrow> a = b"
  by (metis div_mult_mod_eq)

lemma base64_digits_inj:
  fixes a b a' b' :: nat
  assumes "a * 64 + b = a' * 64 + b'" "b < 64" "b' < 64"
  shows "a = a'" "b = b'"
proof -
  have "(a * 64 + b) div 64 = a" and "(a' * 64 + b') div 64 = a'"
    using assms(2,3) by simp_all
  with assms(1) show "a = a'" by simp
  with assms(1) show "b = b'" by simp
qed

lemma stripe_lt:
  assumes "tp_cfg_wf c" and "e < page_capacity c"
  shows "treepass_get_ref_internal c e < page_capacity c"
proof -
  let ?n = "cacheline_capacity c"
  from assms have n: "0 < ?n" and e: "e < ?n * 64"
    by (auto simp: tp_cfg_wf_def tp_consts)
  have "e mod ?n < ?n" and "e div ?n < 64"
    using n e by (auto simp: less_mult_imp_div_less mult.commute)
  then have "e mod ?n * 64 + e div ?n < Suc (e mod ?n) * 64" by simp
  also have "\<dots> \<le> ?n * 64"
    using \<open>e mod ?n < ?n\<close> by (metis Suc_leI mult_le_mono1)
  finally show ?thesis
    using assms(1) by (simp add: treepass_get_ref_internal_def tp_cfg_wf_def tp_consts)
qed

lemma stripe_inj:
  assumes "tp_cfg_wf c" and "e < page_capacity c" and "e' < page_capacity c"
  shows "treepass_get_ref_internal c e = treepass_get_ref_internal c e' \<longleftrightarrow> e = e'"
proof
  let ?n = "cacheline_capacity c"
  assume eq: "treepass_get_ref_internal c e = treepass_get_ref_internal c e'"
  have "e div ?n < 64" "e' div ?n < 64"
    using assms by (auto simp: tp_cfg_wf_def tp_consts less_mult_imp_div_less mult.commute)
  moreover have "e mod ?n * 64 + e div ?n = e' mod ?n * 64 + e' div ?n"
    using eq by (simp add: treepass_get_ref_internal_def tp_consts)
  ultimately have "e mod ?n = e' mod ?n" and "e div ?n = e' div ?n"
    by (auto dest: base64_digits_inj)
  then show "e = e'" by (rule div_mod_eq_iff)
qed simp

lemma ref_index_inj:
  assumes "tp_cfg_wf c" and "e < page_capacity c" and "e' < page_capacity c"
  shows "ref_index c e t = ref_index c e' t' \<longleftrightarrow> e = e' \<and> t mod TP_RC_WIDTH = t' mod TP_RC_WIDTH"
proof
  let ?P = "page_capacity c" and ?r = "treepass_get_ref_internal c"
  assume eq: "ref_index c e t = ref_index c e' t'"
  have lt: "?r e < ?P" "?r e' < ?P"
    using stripe_lt assms by auto
  from eq have *: "t mod TP_RC_WIDTH * ?P + ?r e = t' mod TP_RC_WIDTH * ?P + ?r e'"
    by (simp add: ref_index_def)
  then have "(t mod TP_RC_WIDTH * ?P + ?r e) mod ?P = (t' mod TP_RC_WIDTH * ?P + ?r e') mod ?P"
    by simp
  then have "?r e = ?r e'" using lt by simp
  with * lt assms have "e = e'" and "t mod TP_RC_WIDTH = t' mod TP_RC_WIDTH"
    by (auto simp: stripe_inj)
  then show "e = e' \<and> t mod TP_RC_WIDTH = t' mod TP_RC_WIDTH" by simp
qed (auto simp: ref_index_def)

lemma ref_index_lt:
  assumes "tp_cfg_wf c" and "e < page_capacity c"
  shows "ref_index c e t < TP_RC_WIDTH * page_capacity c"
proof -
  have "t mod 4 * page_capacity c + treepass_get_ref_internal c e
      < Suc (t mod 4) * page_capacity c"
    using stripe_lt [OF assms] by simp
  also have "\<dots> \<le> 4 * page_capacity c"
    by (intro mult_le_mono1) (simp add: Suc_leI)
  finally show ?thesis by (simp add: ref_index_def TP_RC_WIDTH_def)
qed

section \<open>One counter per entry and group of threads\<close>

lemma get_ref_inc:
  assumes "tp_cfg_wf (cfg cc)" "e < page_capacity (cfg cc)" "e' < page_capacity (cfg cc)"
  shows "treepass_get_ref (treepass_inc_ref cc e t) e' t' =
    (if e' = e \<and> t' mod TP_RC_WIDTH = t mod TP_RC_WIDTH
     then treepass_get_ref cc e' t' + 1 else treepass_get_ref cc e' t')"
  using ref_index_inj [OF assms(1,3,2), of t' t]
  by (auto simp: treepass_get_ref_def treepass_inc_ref_def Let_def)

lemma get_ref_dec:
  assumes "tp_cfg_wf (cfg cc)" "e < page_capacity (cfg cc)" "e' < page_capacity (cfg cc)"
  shows "treepass_get_ref (treepass_dec_ref cc e t) e' t' =
    (if e' = e \<and> t' mod TP_RC_WIDTH = t mod TP_RC_WIDTH
     then treepass_get_ref cc e' t' - 1 else treepass_get_ref cc e' t')"
  using ref_index_inj [OF assms(1,3,2), of t' t]
  by (auto simp: treepass_get_ref_def treepass_dec_ref_def Let_def)

lemma get_pin_inc:
  assumes "tp_cfg_wf (cfg cc)" "e < page_capacity (cfg cc)" "e' < page_capacity (cfg cc)"
  shows "treepass_get_pin (treepass_inc_pin cc e) e' =
    (if e' = e then treepass_get_pin cc e' + 1 else treepass_get_pin cc e')"
  using stripe_inj [OF assms(1,3,2)]
  by (auto simp: treepass_get_pin_def treepass_inc_pin_def Let_def)

lemma dec_inc_ref [simp]: "treepass_dec_ref (treepass_inc_ref cc e t) e t = cc"
  by (simp add: treepass_dec_ref_def treepass_inc_ref_def Let_def)

lemma inc_dec_ref [simp]: "treepass_inc_ref (treepass_dec_ref cc e t) e t = cc"
  by (simp add: treepass_dec_ref_def treepass_inc_ref_def Let_def)

lemma dec_inc_pin [simp]: "treepass_dec_pin (treepass_inc_pin cc e) e = cc"
  by (simp add: treepass_dec_pin_def treepass_inc_pin_def Let_def)

end
