(* ===== verification/TpIo.thy ===== *)
theory TpIo
  imports TpRefs
begin

text \<open>
  Asynchronous I/O as the TreePass cache uses it: a request is submitted to the device, the
  kernel reports its completion some time later, and the completion callback
  (\<open>treepass_write_callback\<close>, \<open>treepass_prefetch_callback\<close>) updates the entries. A thread that
  waits polls one completion at a time (\<open>treepass_wait\<close>); the order of the completions and
  whether they succeed is the environment's choice, the list \<open>reap\<close> of the state.
\<close>

section \<open>The device\<close>

fun io_write_pages :: "u64 \<Rightarrow> nat list \<Rightarrow> 'd treepass \<Rightarrow> 'd treepass" where
  "io_write_pages a [] cc = cc"
| "io_write_pages a (e # es) cc =
     io_write_pages (a + io_page_size (cfg cc)) es
       (cc\<lparr>disk := (disk cc)(a := page_data (entry cc e))\<rparr>)"

fun io_read_pages :: "u64 \<Rightarrow> nat list \<Rightarrow> 'd treepass \<Rightarrow> 'd treepass" where
  "io_read_pages a [] cc = cc"
| "io_read_pages a (e # es) cc =
     io_read_pages (a + io_page_size (cfg cc)) es
       (upd_entry cc e (page_data_update (\<lambda>_. disk cc a)))"

text \<open>Synchronous transfers of one page; the callers assert that they succeed.\<close>

definition io_read :: "'d treepass \<Rightarrow> nat \<Rightarrow> u64 \<Rightarrow> 'd treepass outcome" where
  "io_read cc e a = (if dev_ok cc a then Inr (io_read_pages a [e] cc) else Inl Abort)"

definition io_write :: "'d treepass \<Rightarrow> nat \<Rightarrow> u64 \<Rightarrow> 'd treepass outcome" where
  "io_write cc e a = (if dev_ok cc a then Inr (io_write_pages a [e] cc) else Inl Abort)"

definition io_submit :: "io_req \<Rightarrow> 'd treepass \<Rightarrow> 'd treepass" where
  "io_submit rq cc = cc\<lparr>inflight := inflight cc @ [rq]\<rparr>"

section \<open>Completion callbacks\<close>

definition treepass_finish_load :: "nat \<Rightarrow> 'd treepass \<Rightarrow> 'd treepass" where
  "treepass_finish_load e cc =
     (let cc1 = snd (treepass_clear_flag cc e TP_LOADING)
      in upd_entry cc1 e (waiters_update (\<lambda>_. [])))"

definition write_callback_page :: "u32 \<Rightarrow> nat \<Rightarrow> 'd treepass \<Rightarrow> 'd treepass" where
  "write_callback_page num_passes e cc =
     (let cc1 = snd (treepass_set_flag cc e TP_CLEAN);
          cc2 = snd (treepass_clear_flag cc1 e TP_WRITEBACK)
      in if num_passes > 0 \<and> num_passes < TP_CLOCK_MAX \<and> ptype (entry cc2 e) = PAGE_TYPE_BRANCH
         then treepass_set_clock cc2 e 0 else cc2)"

definition treepass_write_callback :: "io_req \<Rightarrow> 'd treepass \<Rightarrow> 'd treepass outcome" where
  "treepass_write_callback rq cc =
     (let count = length (rq_iovec rq)
      in if \<not> count > 0 \<or> \<not> count \<le> pages_per_extent (cfg cc) then Inl Abort
         else (let cc1 = fold (write_callback_page (rq_num_passes rq)) (rq_iovec rq) cc
               in Inr (case rq_outstanding rq of
                         None \<Rightarrow> cc1
                       | Some p \<Rightarrow> cc1\<lparr>pages_outstanding :=
                           (pages_outstanding cc1)(p := pages_outstanding cc1 p - of_nat count)\<rparr>)))"

definition treepass_prefetch_callback :: "io_req \<Rightarrow> 'd treepass \<Rightarrow> 'd treepass outcome" where
  "treepass_prefetch_callback rq cc =
     (let count = length (rq_iovec rq)
      in if \<not> count > 0 \<or> \<not> count \<le> pages_per_extent (cfg cc) then Inl Abort
         else Inr (fold treepass_finish_load (rq_iovec rq) cc))"

definition io_complete :: "io_req \<Rightarrow> bool \<Rightarrow> 'd treepass \<Rightarrow> 'd treepass outcome" where
  "io_complete rq ok cc =
     (if \<not> ok then Inl Abort
      else case rq_cmd rq of
        IO_PWRITEV \<Rightarrow> treepass_write_callback rq (io_write_pages (rq_addr rq) (rq_iovec rq) cc)
      | IO_PREADV \<Rightarrow> treepass_prefetch_callback rq (io_read_pages (rq_addr rq) (rq_iovec rq) cc))"

section \<open>Waiting\<close>

definition io_reap :: "nat \<times> bool \<Rightarrow> 'd treepass \<Rightarrow> 'd treepass outcome" where
  "io_reap ev cc =
     (let i = fst ev; rqs = inflight cc
      in if i < length rqs
         then io_complete (rqs ! i) (snd ev) (cc\<lparr>inflight := take i rqs @ drop (Suc i) rqs\<rparr>)
         else Inr cc)"

definition treepass_wait :: "'d treepass \<Rightarrow> 'd treepass outcome" where
  "treepass_wait cc =
     (case reap cc of [] \<Rightarrow> Inr cc | ev # evs \<Rightarrow> io_reap ev (cc\<lparr>reap := evs\<rparr>))"

text \<open>
  \<open>while (p) treepass_wait(cc);\<close> for a condition \<open>p\<close> that only a completion can change: when
  the kernel has nothing left to report, the thread spins until another thread acts.
\<close>

fun wait_while_on :: "('d treepass \<Rightarrow> bool) \<Rightarrow> (nat \<times> bool) list \<Rightarrow> 'd treepass \<Rightarrow>
    'd treepass outcome" where
  "wait_while_on p [] cc = (if p cc then Inl Blocked else Inr cc)"
| "wait_while_on p (ev # evs) cc =
     (if p cc then obind (io_reap ev (cc\<lparr>reap := evs\<rparr>)) (wait_while_on p evs) else Inr cc)"

definition wait_while :: "('d treepass \<Rightarrow> bool) \<Rightarrow> 'd treepass \<Rightarrow> 'd treepass outcome" where
  "wait_while p cc = wait_while_on p (reap cc) cc"

definition io_wait_all :: "'d treepass \<Rightarrow> 'd treepass outcome" where
  "io_wait_all cc = wait_while (\<lambda>cc. inflight cc \<noteq> []) cc"

text \<open>\<open>laio_ops\<close> leaves \<open>max_latency_elapsed\<close> unset, so the generic wrapper answers TRUE.\<close>

definition laio_max_latency_elapsed :: "(u64 \<Rightarrow> bool) option" where
  "laio_max_latency_elapsed = None"

definition io_max_latency_elapsed :: "u64 \<Rightarrow> bool" where
  "io_max_latency_elapsed ts =
     (case laio_max_latency_elapsed of Some f \<Rightarrow> f ts | None \<Rightarrow> True)"

end
