(* ===== verification/TpLocks.thy ===== *)
theory TpLocks
  imports TpIo
begin

text \<open>
  The page locks of the TreePass cache (\<open>treepass_try_get_read\<close> to \<open>treepass_try_get_write\<close>,
  and \<open>treepass_unget\<close> to \<open>treepass_unpin\<close>, in \<open>splinterdb/src/treepass.c\<close>): a read lock is
  a reference, a claim is the flag \<open>TP_CLAIMED\<close>, a write lock adds \<open>TP_WRITELOCKED\<close> and waits
  for the other references to go. Each operation is modelled as one thread runs it; a wait
  that only another thread can end is \<open>Blocked\<close>.
\<close>

datatype get_rc = GET_RC_SUCCESS | GET_RC_CONFLICT | GET_RC_EVICTED | GET_RC_FLUSHING

definition treepass_try_get_read ::
  "'d treepass \<Rightarrow> nat \<Rightarrow> nat \<Rightarrow> bool \<Rightarrow> get_rc \<times> 'd treepass" where
  "treepass_try_get_read cc tid e set_access =
     (if treepass_test_flag cc e TP_WRITELOCKED \<noteq> 0 then (GET_RC_CONFLICT, cc)
      else
        let cc1 = treepass_inc_ref cc e tid;
            cc_free = treepass_test_flag cc1 e TP_FREE;
            cc_writing = treepass_test_flag cc1 e TP_WRITELOCKED
        in if cc_free = 0 \<and> cc_writing = 0
           then (GET_RC_SUCCESS,
                 if set_access then treepass_set_clock_accessed cc1 e else cc1)
           else
             let cc2 = treepass_dec_ref cc1 e tid
             in if cc_free \<noteq> 0 then (GET_RC_EVICTED, cc2) else (GET_RC_CONFLICT, cc2))"

text \<open>A conflict is retried until the writer releases its lock.\<close>

definition treepass_get_read ::
  "'d treepass \<Rightarrow> nat \<Rightarrow> nat \<Rightarrow> (get_rc \<times> 'd treepass) outcome" where
  "treepass_get_read cc tid e =
     (let r = treepass_try_get_read cc tid e True
      in if fst r = GET_RC_CONFLICT then Inl Blocked else Inr r)"

definition treepass_try_get_claim :: "'d treepass \<Rightarrow> nat \<Rightarrow> get_rc \<times> 'd treepass" where
  "treepass_try_get_claim cc e =
     (let (old, cc1) = treepass_set_flag cc e TP_CLAIMED
      in if old \<noteq> 0 then (GET_RC_CONFLICT, cc1) else (GET_RC_SUCCESS, cc1))"

definition other_readers :: "'d treepass \<Rightarrow> nat \<Rightarrow> nat \<Rightarrow> bool" where
  "other_readers cc tid e \<longleftrightarrow>
     (\<exists>thr_i\<in>set [0..<TP_RC_WIDTH].
        if tid mod TP_RC_WIDTH \<noteq> thr_i then treepass_get_ref cc e thr_i \<noteq> 0
        else treepass_get_ref cc e thr_i > 1)"

definition treepass_get_write :: "'d treepass \<Rightarrow> nat \<Rightarrow> nat \<Rightarrow> 'd treepass outcome" where
  "treepass_get_write cc tid e =
     (let cc1 = snd (treepass_set_flag cc e TP_WRITELOCKED)
      in obind (wait_while (\<lambda>cc. treepass_test_flag cc e TP_WRITEBACK \<noteq> 0) cc1)
           (\<lambda>cc2. if other_readers cc2 tid e then Inl Blocked else Inr cc2))"

definition treepass_try_get_write :: "'d treepass \<Rightarrow> nat \<Rightarrow> nat \<Rightarrow> get_rc \<times> 'd treepass" where
  "treepass_try_get_write cc tid e =
     (let cc1 = snd (treepass_set_flag cc e TP_WRITELOCKED)
      in if treepass_test_flag cc1 e TP_WRITEBACK \<noteq> 0
         then (GET_RC_FLUSHING, snd (treepass_clear_flag cc1 e TP_WRITELOCKED))
         else if other_readers cc1 tid e
         then (GET_RC_CONFLICT, snd (treepass_clear_flag cc1 e TP_WRITELOCKED))
         else (GET_RC_SUCCESS, cc1))"

section \<open>The operations of the cache interface\<close>

definition treepass_unget :: "'d treepass \<Rightarrow> nat \<Rightarrow> nat \<Rightarrow> 'd treepass" where
  "treepass_unget cc tid e = treepass_dec_ref cc e tid"

definition treepass_unget_cold :: "'d treepass \<Rightarrow> nat \<Rightarrow> nat \<Rightarrow> 'd treepass" where
  "treepass_unget_cold cc tid e = treepass_dec_ref cc e tid"

definition treepass_try_claim :: "'d treepass \<Rightarrow> nat \<Rightarrow> bool \<times> 'd treepass" where
  "treepass_try_claim cc e =
     (let (rc, cc1) = treepass_try_get_claim cc e in (rc = GET_RC_SUCCESS, cc1))"

definition treepass_unclaim :: "'d treepass \<Rightarrow> nat \<Rightarrow> 'd treepass" where
  "treepass_unclaim cc e = snd (treepass_clear_flag cc e TP_CLAIMED)"

definition treepass_lock :: "'d treepass \<Rightarrow> nat \<Rightarrow> nat \<Rightarrow> 'd treepass outcome" where
  "treepass_lock cc tid e = treepass_get_write cc tid e"

definition treepass_unlock :: "'d treepass \<Rightarrow> nat \<Rightarrow> 'd treepass" where
  "treepass_unlock cc e = snd (treepass_clear_flag cc e TP_WRITELOCKED)"

definition treepass_mark_dirty :: "'d treepass \<Rightarrow> nat \<Rightarrow> 'd treepass" where
  "treepass_mark_dirty cc e = snd (treepass_clear_flag cc e TP_CLEAN)"

definition treepass_pin :: "'d treepass \<Rightarrow> nat \<Rightarrow> 'd treepass" where
  "treepass_pin cc e = treepass_inc_pin cc e"

definition treepass_unpin :: "'d treepass \<Rightarrow> nat \<Rightarrow> 'd treepass" where
  "treepass_unpin cc e = treepass_dec_pin cc e"

definition treepass_in_use :: "'d treepass \<Rightarrow> u64 \<Rightarrow> bool" where
  "treepass_in_use cc addr =
     (let e = treepass_lookup cc addr
      in if e = TP_UNMAPPED_ENTRY then False
         else if \<exists>thr_i\<in>set [0..<TP_RC_WIDTH]. treepass_get_ref cc e thr_i > 0 then True
         else treepass_test_flag cc e TP_WRITELOCKED \<noteq> 0)"

definition treepass_get_read_ref :: "'d treepass \<Rightarrow> nat \<Rightarrow> u16" where
  "treepass_get_read_ref cc e = sum_list (map (treepass_get_ref cc e) [0..<TP_RC_WIDTH])"

definition treepass_present :: "'d treepass \<Rightarrow> nat \<Rightarrow> bool" where
  "treepass_present cc e \<longleftrightarrow> treepass_lookup cc (disk_addr (entry cc e)) \<noteq> TP_UNMAPPED_ENTRY"

definition treepass_present_by_addr :: "'d treepass \<Rightarrow> u64 \<Rightarrow> bool" where
  "treepass_present_by_addr cc addr \<longleftrightarrow> treepass_lookup cc addr \<noteq> TP_UNMAPPED_ENTRY"

definition treepass_count_dirty :: "'d treepass \<Rightarrow> nat" where
  "treepass_count_dirty cc =
     length (filter (\<lambda>e. treepass_test_flag cc e TP_CLEAN = 0 \<and> treepass_test_flag cc e TP_FREE = 0)
       [0..<page_capacity (cfg cc)])"

definition treepass_enable_sync_get :: "'d treepass \<Rightarrow> nat \<Rightarrow> bool \<Rightarrow> 'd treepass" where
  "treepass_enable_sync_get cc tid enabled =
     cc\<lparr>enable_sync_get := (enable_sync_get cc)(tid := enabled)\<rparr>"

end
