(* ===== verification/TpWriteback.thy ===== *)
theory TpWriteback
  imports TpLocks
begin

text \<open>
  Writeback (\<open>treepass_ok_to_writeback\<close> to \<open>treepass_batch_start_writeback\<close>,
  \<open>treepass_page_sync\<close>, \<open>treepass_extent_sync\<close> and \<open>treepass_flush\<close> in
  \<open>splinterdb/src/treepass.c\<close>): a dirty page that nobody holds is marked \<open>TP_WRITEBACK\<close> and
  written in one request together with its dirty neighbours of the same extent.
\<close>

definition treepass_ok_to_writeback :: "'d treepass \<Rightarrow> nat \<Rightarrow> u32 \<Rightarrow> bool" where
  "treepass_ok_to_writeback cc e num_passes =
     (let s = treepass_get_status cc e
      in if s AND TP_CLEANABLE_BASE_MASK \<noteq> 0 then False
         else if status_clock s > num_passes then False
         else True)"

definition treepass_try_set_writeback ::
  "'d treepass \<Rightarrow> nat \<Rightarrow> u32 \<Rightarrow> (bool \<times> 'd treepass) outcome" where
  "treepass_try_set_writeback cc e num_passes =
     (if waiters (entry cc e) \<noteq> [] then Inl Abort
      else
        let old_status = status (entry cc e)
        in if old_status AND TP_CLEANABLE_BASE_MASK \<noteq> 0 then Inr (False, cc)
           else if status_clock old_status > num_passes then Inr (False, cc)
           else Inr (True, upd_entry cc e (status_update (\<lambda>_. old_status OR TP_WRITEBACK))))"

text \<open>
  The walks to the first and to the last cleanable neighbour. Each step marks one more entry,
  so one more step than there are entries is enough fuel; \<open>delta\<close> is minus or plus the page
  size and the result is the first address that could not be marked.
\<close>

fun writeback_walk :: "nat \<Rightarrow> u64 \<Rightarrow> u64 \<Rightarrow> u32 \<Rightarrow> u64 \<Rightarrow> 'd treepass \<Rightarrow>
    (u64 \<times> 'd treepass) outcome" where
  "writeback_walk 0 delta addr num_passes a cc = Inl Blocked"
| "writeback_walk (Suc fuel) delta addr num_passes a cc =
     (let a' = a + delta;
          next_entry_no =
            (if allocator_config_pages_share_extent (cfg cc) a' addr
             then treepass_lookup cc a' else TP_UNMAPPED_ENTRY)
      in if next_entry_no = TP_UNMAPPED_ENTRY then Inr (a', cc)
         else obind (treepass_try_set_writeback cc next_entry_no num_passes)
           (\<lambda>(marked, cc1). if marked then writeback_walk fuel delta addr num_passes a' cc1
                            else Inr (a', cc1)))"

text \<open>The request for the pages from \<open>first_addr\<close> to before \<open>end_addr\<close>, all marked.\<close>

definition writeback_submit ::
  "nat \<Rightarrow> u32 \<Rightarrow> page_type \<Rightarrow> u64 \<Rightarrow> u64 \<Rightarrow> 'd treepass \<Rightarrow> 'd treepass" where
  "writeback_submit tid num_passes t first_addr end_addr cc =
     (let req_count = treepass_divide_by_page_size (cfg cc) (end_addr - first_addr);
          cc1 = upd_stats cc tid (\<lambda>st.
            st\<lparr>page_writes := bump t req_count (page_writes st),
               writes_issued := writes_issued st + 1\<rparr>);
          iov = map (\<lambda>i. treepass_lookup cc1
                  (first_addr + treepass_multiply_by_page_size (cfg cc1) (of_nat i)))
                  [0..<unat req_count]
      in io_submit \<lparr>rq_cmd = IO_PWRITEV, rq_addr = first_addr, rq_iovec = iov,
                    rq_num_passes = num_passes, rq_outstanding = None\<rparr> cc1)"

definition start_writeback_entry :: "nat \<Rightarrow> u32 \<Rightarrow> nat \<Rightarrow> 'd treepass \<Rightarrow> 'd treepass outcome" where
  "start_writeback_entry tid num_passes entry_no cc =
     (let is_flush = (num_passes \<ge> TP_CLOCK_MAX);
          ent = entry cc entry_no;
          addr = disk_addr ent;
          page_size = treepass_config_page_size (cfg cc);
          fuel = Suc (page_capacity (cfg cc))
      in if num_passes > 0 \<and> \<not> is_flush \<and> ptype ent \<noteq> PAGE_TYPE_BRANCH then Inr cc
         else if \<not> treepass_ok_to_writeback cc entry_no num_passes then Inr cc
         else obind (treepass_try_set_writeback cc entry_no num_passes) (\<lambda>(marked, cc1).
           if \<not> marked then Inr cc1
           else obind (writeback_walk fuel (- page_size) addr num_passes addr cc1) (\<lambda>(below, cc2).
                obind (writeback_walk fuel page_size addr num_passes addr cc2) (\<lambda>(end_addr, cc3).
                  Inr (writeback_submit tid num_passes (ptype ent) (below + page_size) end_addr cc3)))))"

definition treepass_batch_start_writeback ::
  "'d treepass \<Rightarrow> nat \<Rightarrow> nat \<Rightarrow> u32 \<Rightarrow> 'd treepass outcome" where
  "treepass_batch_start_writeback cc tid batch num_passes =
     (let start_entry_no = batch * TP_ENTRIES_PER_BATCH;
          end_entry_no = start_entry_no + TP_ENTRIES_PER_BATCH
      in iterM (start_writeback_entry tid num_passes) [start_entry_no..<end_entry_no] cc)"

section \<open>Syncing one page, one extent, the whole cache\<close>

definition treepass_page_sync ::
  "'d treepass \<Rightarrow> nat \<Rightarrow> nat \<Rightarrow> bool \<Rightarrow> page_type \<Rightarrow> 'd treepass outcome" where
  "treepass_page_sync cc tid e is_blocking t =
     (let addr = disk_addr (entry cc e)
      in obind (treepass_try_set_writeback cc e TP_CLOCK_MAX) (\<lambda>(marked, cc1).
         if \<not> marked
         then (if treepass_test_flag cc1 e TP_CLEAN \<noteq> 0 then Inr cc1 else Inl Abort)
         else
           let cc2 = upd_stats cc1 tid (\<lambda>st.
                 st\<lparr>page_writes := bump t 1 (page_writes st), syncs_issued := syncs_issued st + 1\<rparr>)
           in if \<not> is_blocking
              then Inr (io_submit \<lparr>rq_cmd = IO_PWRITEV, rq_addr = addr, rq_iovec = [e],
                                   rq_num_passes = 0, rq_outstanding = None\<rparr> cc2)
              else obind (io_write cc2 e addr) (\<lambda>cc3.
                   let cc4 = snd (treepass_set_flag cc3 e TP_CLEAN)
                   in Inr (snd (treepass_clear_flag cc4 e TP_WRITEBACK)))))"

text \<open>
  The loop of \<open>treepass_extent_sync\<close> carries the request under construction: its first
  address and its pages, \<open>None\<close> when there is none. Running it adds its pages to the
  caller's counter.
\<close>

definition extent_sync_issue ::
  "nat \<Rightarrow> (u64 \<times> nat list) option \<Rightarrow> 'd treepass \<Rightarrow> 'd treepass" where
  "extent_sync_issue p st cc =
     (case st of None \<Rightarrow> cc
      | Some (req_addr, iov) \<Rightarrow>
          io_submit \<lparr>rq_cmd = IO_PWRITEV, rq_addr = req_addr, rq_iovec = iov,
                     rq_num_passes = 0, rq_outstanding = Some p\<rparr>
            (cc\<lparr>pages_outstanding :=
               (pages_outstanding cc)(p := pages_outstanding cc p + of_nat (length iov))\<rparr>))"

definition extent_sync_page ::
  "nat \<Rightarrow> u64 \<Rightarrow> nat \<Rightarrow> (u64 \<times> nat list) option \<times> 'd treepass \<Rightarrow>
   ((u64 \<times> nat list) option \<times> 'd treepass) outcome" where
  "extent_sync_page p addr i x =
     (let (st, cc) = x;
          page_addr = addr + treepass_multiply_by_page_size (cfg cc) (of_nat i);
          e = treepass_lookup cc page_addr
      in obind (if e \<noteq> TP_UNMAPPED_ENTRY then treepass_try_set_writeback cc e TP_CLOCK_MAX
                else Inr (False, cc)) (\<lambda>(marked, cc1).
         Inr (if marked
              then ((case st of None \<Rightarrow> Some (page_addr, [e])
                               | Some (ra, iov) \<Rightarrow> Some (ra, iov @ [e])), cc1)
              else (None, extent_sync_issue p st cc1))))"

definition treepass_extent_sync :: "'d treepass \<Rightarrow> u64 \<Rightarrow> nat \<Rightarrow> 'd treepass outcome" where
  "treepass_extent_sync cc addr p =
     obind (iterM (extent_sync_page p addr) [0..<pages_per_extent (cfg cc)] (None, cc))
       (\<lambda>(st, cc1). Inr (extent_sync_issue p st cc1))"

definition treepass_flush :: "'d treepass \<Rightarrow> nat \<Rightarrow> 'd treepass outcome" where
  "treepass_flush cc tid =
     obind (io_wait_all cc) (\<lambda>cc1.
     obind (iterM (\<lambda>flush_hand cc. treepass_batch_start_writeback cc tid flush_hand TP_CLOCK_MAX)
              [0..<page_capacity (cfg cc1) div TP_ENTRIES_PER_BATCH] cc1)
       io_wait_all)"

end
