(* ===== verification/TpEvict.thy ===== *)
theory TpEvict
  imports TpWriteback
begin

text \<open>
  Eviction and allocation of cache entries (\<open>treepass_try_evict\<close> to
  \<open>treepass_extent_discard\<close> in \<open>splinterdb/src/treepass.c\<close>): the two-pass eviction of a batch
  (cold pages first, then by clock), the eviction-interval estimate, the clock hand, the
  search for a free entry, and the discarding of a page or an extent.
\<close>

section \<open>Evicting one entry\<close>

text \<open>Steps 5 and 6 of the eviction and of the discard: unmap the page, free the entry.\<close>

definition unmap_entry :: "nat \<Rightarrow> u64 \<Rightarrow> 'd treepass \<Rightarrow> 'd treepass" where
  "unmap_entry e addr cc =
     upd_entry (set_lookup cc addr TP_UNMAPPED_ENTRY) e
       (\<lambda>ent. ent\<lparr>disk_addr := TP_UNMAPPED_ADDR, entry_time := 0\<rparr>)"

definition free_entry :: "nat \<Rightarrow> 'd treepass \<Rightarrow> 'd treepass" where
  "free_entry e cc = upd_entry cc e (\<lambda>ent. ent\<lparr>ptype := PAGE_TYPE_INVALID, status := TP_FREE_STATUS\<rparr>)"

definition evict_locked :: "nat \<Rightarrow> 'd treepass \<Rightarrow> 'd treepass outcome" where
  "evict_locked e cc =
     (let addr = disk_addr (entry cc e);
          cc1 = (if addr \<noteq> TP_UNMAPPED_ADDR then unmap_entry e addr cc else cc)
      in if waiters (entry cc1 e) \<noteq> [] then Inl Abort else Inr (free_entry e cc1))"

definition treepass_try_evict ::
  "'d treepass \<Rightarrow> nat \<Rightarrow> nat \<Rightarrow> bool \<Rightarrow> (bool \<times> 'd treepass) outcome" where
  "treepass_try_evict cc tid e ee_pass =
     (let (survives, cc0) =
            (if ee_pass then (entry_time (entry cc e) \<noteq> 0, cc) else treepass_try_dec_clock cc e)
      in if survives then Inr (False, cc0)
         else if status (entry cc0 e) \<noteq> TP_EVICTABLE_STATUS \<or> treepass_get_ref cc0 e tid \<noteq> 0
                 \<or> treepass_get_pin cc0 e \<noteq> 0
         then Inr (False, cc0)
         else
           let (rc1, cc1) = treepass_try_get_read cc0 tid e False
           in if rc1 \<noteq> GET_RC_SUCCESS then Inr (False, cc1)
              else
                let (rc2, cc2) = treepass_try_get_claim cc1 e
                in if rc2 \<noteq> GET_RC_SUCCESS then Inr (False, treepass_dec_ref cc2 e tid)
                   else
                     let (rc3, cc3) =
                       (if treepass_test_flag cc2 e TP_LOADING \<noteq> 0 then (GET_RC_CONFLICT, cc2)
                        else treepass_try_get_write cc2 tid e)
                     in if rc3 \<noteq> GET_RC_SUCCESS
                        then Inr (False, treepass_dec_ref (treepass_unclaim cc3 e) e tid)
                        else if status (entry cc3 e) \<noteq> TP_LOCKED_EVICTABLE_STATUS
                                \<or> treepass_get_pin cc3 e \<noteq> 0
                        then Inr (False,
                               treepass_dec_ref (treepass_unclaim (treepass_unlock cc3 e) e) e tid)
                        else obind (evict_locked e cc3)
                               (\<lambda>cc4. Inr (True, treepass_dec_ref cc4 e tid)))"

section \<open>Evicting a batch\<close>

definition evict_ee_entry :: "nat \<Rightarrow> nat \<Rightarrow> nat \<times> 'd treepass \<Rightarrow> (nat \<times> 'd treepass) outcome" where
  "evict_ee_entry tid e x =
     obind (treepass_try_evict (snd x) tid e True)
       (\<lambda>(evicted, cc). Inr (if evicted then Suc (fst x) else fst x, cc))"

definition treepass_evict_batch_ee ::
  "'d treepass \<Rightarrow> nat \<Rightarrow> nat \<Rightarrow> (nat \<times> 'd treepass) outcome" where
  "treepass_evict_batch_ee cc tid batch =
     (let start_entry_no = batch * TP_ENTRIES_PER_BATCH;
          end_entry_no = start_entry_no + TP_ENTRIES_PER_BATCH
      in iterM (evict_ee_entry tid) [start_entry_no..<end_entry_no] (0, cc))"

definition evict_entry :: "nat \<Rightarrow> nat \<Rightarrow> 'd treepass \<Rightarrow> 'd treepass outcome" where
  "evict_entry tid e cc = obind (treepass_try_evict cc tid e False) (\<lambda>(_, cc1). Inr cc1)"

text \<open>
  The update of the eviction interval at the end of a sweep over the whole cache:
  \<open>evict_batches\<close> is a 32-bit counter of evicted batches.
\<close>

definition evict_batch_ei :: "'d treepass \<Rightarrow> 'd treepass" where
  "evict_batch_ei cc =
     (let batches = evict_batches cc + 1;
          cc0 = cc\<lparr>evict_batches := batches\<rparr>;
          batch_cap = (of_nat (batch_capacity (cfg cc0)) :: u32);
          cycle = batches div batch_cap;
          is_cycle_boundary = (batches mod batch_cap = 0)
      in if \<not> (is_cycle_boundary \<and> cycle > 0) then cc0
         else
           let (now, cc1) = platform_get_timestamp cc0;
               expected = last_ei_check_cycle cc1
           in if expected \<ge> cycle then cc1
              else
                let last_ts = last_cycle_ts cc1
                in if now \<le> last_ts then cc1
                   else
                     let ei = evict_interval_thre cc1;
                         num_cycles = (ucast (cycle - expected) :: u64);
                         elapsed = now - last_ts;
                         avg_sweep_time = elapsed div num_cycles;
                         new_ei =
                           (if ei = EI_NOT_READY
                            then drop_bit 30 (capacity (cfg cc1)) * ei_initial_per_gb_ns (cfg cc1)
                            else ei_ewma (cfg cc1) avg_sweep_time ei)
                     in cc1\<lparr>last_ei_check_cycle := cycle, evict_interval_thre := new_ei,
                            last_cycle_ts := now, last_ei_check_ts := now\<rparr>)"

definition treepass_evict_batch ::
  "'d treepass \<Rightarrow> nat \<Rightarrow> nat \<Rightarrow> bool \<Rightarrow> 'd treepass outcome" where
  "treepass_evict_batch cc tid batch first_pass =
     (let start_entry_no = batch * TP_ENTRIES_PER_BATCH;
          end_entry_no = start_entry_no + TP_ENTRIES_PER_BATCH
      in obind (iterM (evict_entry tid) [start_entry_no..<end_entry_no] cc)
           (\<lambda>cc1. Inr (if first_pass then evict_batch_ei cc1 else cc1)))"

definition treepass_evict_all :: "'d treepass \<Rightarrow> nat \<Rightarrow> bool \<Rightarrow> 'd treepass outcome" where
  "treepass_evict_all cc tid ignore_pinned_pages =
     obind (if ignore_pinned_pages then Inr () else treepass_assert_no_locks_held cc) (\<lambda>_.
       iterM (\<lambda>evict_hand.
          iterM (\<lambda>r cc. treepass_evict_batch cc tid evict_hand False) [0..<unat TP_CLOCK_MAX + 1])
         [0..<batch_capacity (cfg cc)] cc)"

section \<open>The clock hand\<close>

text \<open>Cleaning the batch ahead of the hand, unless another thread holds it.\<close>

definition clean_ahead :: "nat \<Rightarrow> u32 \<Rightarrow> nat \<Rightarrow> 'd treepass \<Rightarrow> 'd treepass outcome" where
  "clean_ahead tid num_passes cleaner_hand cc =
     (if batch_busy cc cleaner_hand then Inr cc
      else obind (treepass_batch_start_writeback
                    (cc\<lparr>batch_busy := (batch_busy cc)(cleaner_hand := True)\<rparr>)
                    tid cleaner_hand num_passes)
             (\<lambda>cc1. Inr (cc1\<lparr>batch_busy := (batch_busy cc1)(cleaner_hand := False)\<rparr>)))"

text \<open>
  Advances the hand until it claims a batch nobody holds, cleaning the batch
  \<open>cleaner_gap\<close> ahead on the way. In the C code the loop spins while other threads hold all
  the batches; \<open>fuel\<close> bounds the number of batches tried.
\<close>

fun move_hand_loop :: "nat \<Rightarrow> nat \<Rightarrow> u32 \<Rightarrow> 'd treepass \<Rightarrow> (nat \<times> 'd treepass) outcome" where
  "move_hand_loop 0 tid num_passes cc = Inl Blocked"
| "move_hand_loop (Suc fuel) tid num_passes cc =
     (let cc1 = cc\<lparr>evict_hand := evict_hand cc + 1\<rparr>;
          hand = unat (evict_hand cc1) mod batch_capacity (cfg cc1);
          cleaner_hand = (hand + cleaner_gap cc1) mod batch_capacity (cfg cc1)
      in obind (clean_ahead tid num_passes cleaner_hand cc1)
           (\<lambda>cc2. if batch_busy cc2 hand then move_hand_loop fuel tid num_passes cc2
                  else Inr (hand, cc2\<lparr>batch_busy := (batch_busy cc2)(hand := True)\<rparr>)))"

definition treepass_move_hand ::
  "'d treepass \<Rightarrow> nat \<Rightarrow> nat \<Rightarrow> (nat \<times> 'd treepass) outcome" where
  "treepass_move_hand cc tid num_passes =
     (let evict_hand = free_hand cc tid;
          cc0 = (if evict_hand \<noteq> TP_UNMAPPED_ENTRY
                 then cc\<lparr>batch_busy := (batch_busy cc)(evict_hand := False)\<rparr> else cc)
      in obind (move_hand_loop (2 * Suc (batch_capacity (cfg cc0))) tid (of_nat num_passes) cc0)
         (\<lambda>(hand, cc1).
            let batch_idx = hand mod batch_capacity (cfg cc1)
            in obind (treepass_evict_batch_ee cc1 tid batch_idx) (\<lambda>(n, cc2).
               if n > 0 then Inr (num_passes, cc2\<lparr>free_hand := (free_hand cc2)(tid := batch_idx)\<rparr>)
               else obind (treepass_evict_batch cc2 tid batch_idx (num_passes = 0)) (\<lambda>cc3.
                    Inr (num_passes, cc3\<lparr>free_hand := (free_hand cc3)(tid := batch_idx)\<rparr>)))))"

section \<open>A free entry\<close>

text \<open>
  The scan of the thread's batch: the first entry whose status word is exactly
  \<open>TP_FREE_STATUS\<close> is taken with a compare-and-swap, referenced if asked, and given its
  status and type.
\<close>

fun scan_batch :: "nat list \<Rightarrow> nat \<Rightarrow> u32 \<Rightarrow> page_type \<Rightarrow> bool \<Rightarrow> 'd treepass \<Rightarrow>
    (nat option \<times> 'd treepass) outcome" where
  "scan_batch [] tid st t ref cc = Inr (None, cc)"
| "scan_batch (e # es) tid st t ref cc =
     (if status (entry cc e) = TP_FREE_STATUS
      then
        let cc1 = upd_entry cc e (status_update (\<lambda>_. TP_ALLOC_STATUS));
            cc2 = (if ref then treepass_inc_ref cc1 e tid else cc1)
        in if waiters (entry cc2 e) \<noteq> [] then Inl Abort
           else Inr (Some e, upd_entry cc2 e (\<lambda>ent. ent\<lparr>status := st, ptype := t\<rparr>))
      else scan_batch es tid st t ref cc)"

fun get_free_page_loop :: "nat \<Rightarrow> nat \<Rightarrow> u32 \<Rightarrow> page_type \<Rightarrow> bool \<Rightarrow> bool \<Rightarrow> nat \<Rightarrow> nat \<Rightarrow> u64 \<Rightarrow>
    'd treepass \<Rightarrow> (nat \<times> 'd treepass) outcome" where
  "get_free_page_loop 0 tid st t ref blocking num_passes max_hand wait_start cc = Inl Blocked"
| "get_free_page_loop (Suc fuel) tid st t ref blocking num_passes max_hand wait_start cc =
     (if \<not> (num_passes < 3 \<or> (blocking \<and> \<not> io_max_latency_elapsed wait_start))
      then (if blocking then Inl Abort else Inr (TP_UNMAPPED_ENTRY, cc))
      else
        let start_entry = free_hand cc tid * TP_ENTRIES_PER_BATCH;
            end_entry = start_entry + TP_ENTRIES_PER_BATCH
        in obind (scan_batch [start_entry..<end_entry] tid st t ref cc) (\<lambda>(found, cc1).
           case found of
             Some e \<Rightarrow> Inr (e, cc1)
           | None \<Rightarrow>
               obind (treepass_move_hand cc1 tid num_passes) (\<lambda>(np, cc2).
               if free_hand cc2 tid < max_hand
               then
                 let np' = Suc np;
                     (ws, cc3) = (if np' = 1 then platform_get_timestamp cc2 else (wait_start, cc2))
                 in obind (treepass_wait cc3) (\<lambda>cc4.
                    get_free_page_loop fuel tid st t ref blocking np' (free_hand cc4 tid) ws cc4)
               else get_free_page_loop fuel tid st t ref blocking np (free_hand cc2 tid)
                      wait_start cc2)))"

definition treepass_get_free_page ::
  "'d treepass \<Rightarrow> nat \<Rightarrow> nat \<Rightarrow> u32 \<Rightarrow> page_type \<Rightarrow> bool \<Rightarrow> bool \<Rightarrow> (nat \<times> 'd treepass) outcome" where
  "treepass_get_free_page cc fuel tid st t ref blocking =
     (let max_hand = free_hand cc tid
      in obind (if free_hand cc tid = TP_UNMAPPED_ENTRY
                then obind (treepass_move_hand cc tid 0) (\<lambda>(_, cc1). Inr cc1) else Inr cc)
           (get_free_page_loop fuel tid st t ref blocking 0 max_hand 0))"

section \<open>Allocating a page\<close>

definition treepass_alloc ::
  "'d treepass \<Rightarrow> nat \<Rightarrow> nat \<Rightarrow> u64 \<Rightarrow> u64 \<Rightarrow> page_type \<Rightarrow> (nat \<times> 'd treepass) outcome" where
  "treepass_alloc cc fuel tid current_ts addr t =
     obind (treepass_get_free_page cc fuel tid (TP_ALLOC_STATUS OR TP_CLOCK_ONE) t True True)
       (\<lambda>(e, cc1).
         let cc2 = upd_entry cc1 e (\<lambda>ent. ent\<lparr>disk_addr := addr, ptype := t\<rparr>)
         in if t = PAGE_TYPE_TRUNK \<and> current_ts = 0 then Inl Abort
            else Inr (e, set_lookup (upd_entry cc2 e (entry_time_update (\<lambda>_. current_ts))) addr e))"

definition treepass_alloc_compaction_hot ::
  "'d treepass \<Rightarrow> nat \<Rightarrow> nat \<Rightarrow> u64 \<Rightarrow> page_type \<Rightarrow> (nat \<times> 'd treepass) outcome" where
  "treepass_alloc_compaction_hot cc fuel tid addr t =
     obind (treepass_get_free_page cc fuel tid
              (TP_ALLOC_STATUS OR push_bit TP_CLOCK_SHIFT TP_CLOCK_MAX) t True True)
       (\<lambda>(e, cc1).
         let cc2 = upd_entry cc1 e (\<lambda>ent. ent\<lparr>disk_addr := addr, ptype := t\<rparr>);
             (ts, cc3) = (if t = PAGE_TYPE_BRANCH then platform_get_timestamp cc2 else (0, cc2))
         in Inr (e, set_lookup (upd_entry cc3 e (entry_time_update (\<lambda>_. ts))) addr e))"

section \<open>Discarding pages\<close>

text \<open>
  One round of the \<open>while (TRUE)\<close> loop of \<open>treepass_try_page_discard\<close>: \<open>None\<close> asks for
  another round.
\<close>

definition page_discard_round ::
  "nat \<Rightarrow> u64 \<Rightarrow> 'd treepass \<Rightarrow> (unit option \<times> 'd treepass) outcome" where
  "page_discard_round tid addr cc =
     (let e = treepass_lookup cc addr
      in if e = TP_UNMAPPED_ENTRY then Inr (Some (), cc)
         else obind (treepass_get_read cc tid e) (\<lambda>(rc, cc1).
           if rc = GET_RC_EVICTED then Inr (None, cc1)
           else obind (wait_while (\<lambda>cc. treepass_test_flag cc e TP_LOADING \<noteq> 0) cc1) (\<lambda>cc2.
             if disk_addr (entry cc2 e) \<noteq> addr then Inr (None, treepass_dec_ref cc2 e tid)
             else
               let (rc2, cc3) = treepass_try_get_claim cc2 e
               in if rc2 \<noteq> GET_RC_SUCCESS then Inr (None, treepass_dec_ref cc3 e tid)
                  else obind (treepass_get_write cc3 tid e) (\<lambda>cc4.
                    let t = ptype (entry cc4 e);
                        cc5 = upd_stats cc4 tid (\<lambda>st.
                          if status (entry cc4 e) AND TP_CLEAN \<noteq> 0
                          then st\<lparr>discard_clean := bump t 1 (discard_clean st)\<rparr>
                          else st\<lparr>discard_dirty := bump t 1 (discard_dirty st)\<rparr>);
                        cc6 = unmap_entry e addr cc5
                    in if waiters (entry cc6 e) \<noteq> [] then Inl Abort
                       else
                         let cc7 = treepass_reset_pin (free_entry e cc6) e
                         in Inr (Some (), treepass_dec_ref cc7 e tid)))))"

fun treepass_try_page_discard :: "nat \<Rightarrow> nat \<Rightarrow> u64 \<Rightarrow> 'd treepass \<Rightarrow> 'd treepass outcome" where
  "treepass_try_page_discard 0 tid addr cc = Inl Blocked"
| "treepass_try_page_discard (Suc fuel) tid addr cc =
     obind (page_discard_round tid addr cc) (\<lambda>(r, cc1).
       case r of Some _ \<Rightarrow> Inr cc1 | None \<Rightarrow> treepass_try_page_discard fuel tid addr cc1)"

definition treepass_extent_discard ::
  "'d treepass \<Rightarrow> nat \<Rightarrow> nat \<Rightarrow> u64 \<Rightarrow> page_type \<Rightarrow> 'd treepass outcome" where
  "treepass_extent_discard cc fuel tid addr t =
     iterM (\<lambda>i cc.
        let page_addr = addr + treepass_multiply_by_page_size (cfg cc) (of_nat i);
            e = treepass_lookup cc page_addr;
            cc1 = (if e = TP_UNMAPPED_ENTRY
                   then upd_stats cc tid (\<lambda>st. st\<lparr>discard_uncached := bump t 1 (discard_uncached st)\<rparr>)
                   else cc)
        in treepass_try_page_discard fuel tid page_addr cc1)
       [0..<pages_per_extent (cfg cc)] cc"

end
