(* ===== verification/TpGet.thy ===== *)
theory TpGet
  imports TpEvict
begin

text \<open>
  Getting a page (\<open>treepass_get_in_cache\<close> to \<open>treepass_get_with_miss\<close> in
  \<open>splinterdb/src/treepass.c\<close>), prefetching an extent, and the initial state
  (\<open>treepass_config_init\<close>, \<open>treepass_init\<close>). The out-parameter \<open>page\<close> of the C functions
  is a value of \<open>handle\<close>: never assigned, NULL, or the handle of an entry.
\<close>

datatype handle = HUnset | HNull | HPage nat

section \<open>Hits\<close>

text \<open>The checks after the read lock: wait for the load, re-verify the address and the type.\<close>

definition get_in_cache_locked ::
  "nat \<Rightarrow> u64 \<Rightarrow> u64 \<Rightarrow> page_type \<Rightarrow> bool \<Rightarrow> nat \<Rightarrow> 'd treepass \<Rightarrow>
   (bool \<times> handle \<times> 'd treepass) outcome" where
  "get_in_cache_locked tid current_ts addr t is_warm e cc =
     obind (wait_while (\<lambda>cc. treepass_test_flag cc e TP_LOADING \<noteq> 0) cc) (\<lambda>cc1.
       if disk_addr (entry cc1 e) \<noteq> addr then Inr (True, HUnset, treepass_dec_ref cc1 e tid)
       else if ptype (entry cc1 e) \<noteq> t
       then (if disk_addr (entry cc1 e) \<noteq> addr
             then Inr (True, HUnset, treepass_dec_ref cc1 e tid) else Inl Abort)
       else
         let cc2 = (if is_warm \<and> t = PAGE_TYPE_BRANCH \<and> entry_time (entry cc1 e) = 0
                    then upd_entry cc1 e (entry_time_update (\<lambda>_. current_ts)) else cc1);
             cc3 = upd_stats cc2 tid (\<lambda>st. st\<lparr>cache_hits := bump t 1 (cache_hits st)\<rparr>)
         in Inr (False, HPage e, cc3))"

definition treepass_get_in_cache ::
  "'d treepass \<Rightarrow> nat \<Rightarrow> u64 \<Rightarrow> u64 \<Rightarrow> bool \<Rightarrow> page_type \<Rightarrow> bool \<Rightarrow> nat \<Rightarrow>
   (bool \<times> handle \<times> 'd treepass) outcome" where
  "treepass_get_in_cache cc tid current_ts addr blocking t is_warm e =
     (if blocking
      then obind (treepass_get_read cc tid e) (\<lambda>(rc, cc1).
             if rc \<noteq> GET_RC_SUCCESS then Inr (True, HUnset, cc1)
             else if disk_addr (entry cc1 e) \<noteq> addr
             then Inr (True, HUnset, treepass_dec_ref cc1 e tid)
             else get_in_cache_locked tid current_ts addr t is_warm e cc1)
      else
        let (rc, cc1) = treepass_try_get_read cc tid e True
        in case rc of
             GET_RC_CONFLICT \<Rightarrow> Inr (False, HNull, cc1)
           | GET_RC_EVICTED \<Rightarrow> Inr (True, HUnset, cc1)
           | GET_RC_SUCCESS \<Rightarrow>
               if disk_addr (entry cc1 e) \<noteq> addr
               then Inr (True, HUnset, treepass_dec_ref cc1 e tid)
               else get_in_cache_locked tid current_ts addr t is_warm e cc1
           | GET_RC_FLUSHING \<Rightarrow> Inl Abort)"

section \<open>Misses\<close>

definition treepass_acquire_entry_for_load ::
  "'d treepass \<Rightarrow> nat \<Rightarrow> nat \<Rightarrow> u64 \<Rightarrow> page_type \<Rightarrow> (nat \<times> 'd treepass) outcome" where
  "treepass_acquire_entry_for_load cc fuel tid addr t =
     obind (treepass_get_free_page cc fuel tid TP_READ_LOADING_STATUS t True True) (\<lambda>(e, cc1).
       if treepass_lookup cc1 addr \<noteq> TP_UNMAPPED_ENTRY
       then
         let cc2 = treepass_dec_ref cc1 e tid
         in if waiters (entry cc2 e) \<noteq> [] then Inl Abort
            else Inr (TP_UNMAPPED_ENTRY, free_entry e cc2)
       else Inr (e, upd_entry (set_lookup cc1 addr e) e (disk_addr_update (\<lambda>_. addr))))"

definition treepass_get_from_disk ::
  "'d treepass \<Rightarrow> nat \<Rightarrow> nat \<Rightarrow> u64 \<Rightarrow> u64 \<Rightarrow> page_type \<Rightarrow> bool \<Rightarrow>
   (bool \<times> handle \<times> 'd treepass) outcome" where
  "treepass_get_from_disk cc fuel tid current_ts addr t is_warm =
     obind (treepass_acquire_entry_for_load cc fuel tid addr t) (\<lambda>(e, cc1).
       if e = TP_UNMAPPED_ENTRY then Inr (True, HUnset, cc1)
       else obind (io_read cc1 e addr) (\<lambda>cc2.
         let timed = (t = PAGE_TYPE_BRANCH \<and> is_warm) \<or> t = PAGE_TYPE_TRUNK
         in if timed \<and> current_ts = 0 then Inl Abort
            else
              let cc3 = (if timed then upd_entry cc2 e (entry_time_update (\<lambda>_. current_ts)) else cc2);
                  cc4 = treepass_finish_load e cc3;
                  cc5 = upd_stats cc4 tid (\<lambda>st.
                    st\<lparr>cache_misses := bump t 1 (cache_misses st),
                       page_reads := bump t 1 (page_reads st)\<rparr>)
              in Inr (False, HPage e, cc5)))"

section \<open>Get\<close>

definition treepass_get_internal ::
  "'d treepass \<Rightarrow> nat \<Rightarrow> nat \<Rightarrow> u64 \<Rightarrow> u64 \<Rightarrow> bool \<Rightarrow> page_type \<Rightarrow> bool \<Rightarrow>
   (bool \<times> handle \<times> 'd treepass) outcome" where
  "treepass_get_internal cc fuel tid current_ts addr blocking t is_warm =
     (let e = treepass_lookup cc addr
      in if e \<noteq> TP_UNMAPPED_ENTRY
         then treepass_get_in_cache cc tid current_ts addr blocking t is_warm e
         else if blocking then treepass_get_from_disk cc fuel tid current_ts addr t is_warm
         else Inr (False, HUnset, cc))"

text \<open>\<open>fuel\<close> bounds both the retries and, within each, the search for a free entry.\<close>

fun get_loop :: "nat \<Rightarrow> nat \<Rightarrow> nat \<Rightarrow> u64 \<Rightarrow> u64 \<Rightarrow> bool \<Rightarrow> page_type \<Rightarrow> bool \<Rightarrow> 'd treepass \<Rightarrow>
   (handle \<times> 'd treepass) outcome" where
  "get_loop 0 fuel tid current_ts addr blocking t is_warm cc = Inl Blocked"
| "get_loop (Suc n) fuel tid current_ts addr blocking t is_warm cc =
     obind (treepass_get_internal cc fuel tid current_ts addr blocking t is_warm)
       (\<lambda>(retry, h, cc1).
          if \<not> retry then Inr (h, cc1)
          else get_loop n fuel tid current_ts addr blocking t is_warm cc1)"

definition treepass_get ::
  "'d treepass \<Rightarrow> nat \<Rightarrow> nat \<Rightarrow> u64 \<Rightarrow> u64 \<Rightarrow> bool \<Rightarrow> page_type \<Rightarrow> bool \<Rightarrow>
   (handle \<times> 'd treepass) outcome" where
  "treepass_get cc fuel tid current_ts addr blocking t is_warm =
     get_loop fuel fuel tid current_ts addr blocking t is_warm cc"

definition treepass_get_with_miss ::
  "'d treepass \<Rightarrow> nat \<Rightarrow> nat \<Rightarrow> u64 \<Rightarrow> u64 \<Rightarrow> bool \<Rightarrow> page_type \<Rightarrow> bool \<Rightarrow>
   (bool \<times> handle \<times> 'd treepass) outcome" where
  "treepass_get_with_miss cc fuel tid current_ts addr blocking t is_warm =
     (let was_miss = (treepass_lookup cc addr = TP_UNMAPPED_ENTRY)
      in obind (get_loop fuel fuel tid current_ts addr blocking t is_warm cc)
           (\<lambda>(h, cc1). Inr (was_miss, h, cc1)))"

section \<open>Prefetch\<close>

text \<open>
  The loop over the pages of the extent carries the read request under construction. A page
  that is in the cache ends the request; a page that is not is given an entry, and the loop
  tries the same page again when another thread has mapped it meanwhile.
\<close>

definition prefetch_issue ::
  "nat \<Rightarrow> page_type \<Rightarrow> (u64 \<times> nat list) option \<Rightarrow> 'd treepass \<Rightarrow> 'd treepass" where
  "prefetch_issue tid t st cc =
     (case st of None \<Rightarrow> cc
      | Some (a, iov) \<Rightarrow>
          io_submit \<lparr>rq_cmd = IO_PREADV, rq_addr = a, rq_iovec = iov, rq_num_passes = 0,
                     rq_outstanding = None\<rparr>
            (upd_stats cc tid (\<lambda>s.
               s\<lparr>page_reads := bump t (of_nat (length iov)) (page_reads s),
                 prefetches_issued := bump t 1 (prefetches_issued s)\<rparr>)))"

definition prefetch_page ::
  "nat \<Rightarrow> nat \<Rightarrow> u64 \<Rightarrow> page_type \<Rightarrow> (u64 \<times> nat list) option \<Rightarrow> 'd treepass \<Rightarrow>
   (bool \<times> (u64 \<times> nat list) option \<times> 'd treepass) outcome" where
  "prefetch_page fuel tid addr t st cc =
     (let e = treepass_lookup cc addr;
          (rc, cc1) = (if e \<noteq> TP_UNMAPPED_ENTRY then treepass_try_get_read cc tid e True
                       else (GET_RC_EVICTED, cc))
      in case rc of
           GET_RC_SUCCESS \<Rightarrow> Inr (True, None, prefetch_issue tid t st (treepass_dec_ref cc1 e tid))
         | GET_RC_CONFLICT \<Rightarrow> Inr (True, None, prefetch_issue tid t st cc1)
         | GET_RC_EVICTED \<Rightarrow>
             obind (treepass_get_free_page cc1 fuel tid TP_READ_LOADING_STATUS t False True)
               (\<lambda>(fe, cc2).
                 let cc3 = upd_entry cc2 fe (\<lambda>ent. ent\<lparr>disk_addr := addr, ptype := t\<rparr>)
                 in if treepass_lookup cc3 addr = TP_UNMAPPED_ENTRY
                    then Inr (True,
                           (case st of None \<Rightarrow> Some (addr, [fe]) | Some (a, iov) \<Rightarrow> Some (a, iov @ [fe])),
                           set_lookup cc3 addr fe)
                    else if waiters (entry cc3 fe) \<noteq> [] then Inl Abort
                    else Inr (False, st,
                           free_entry fe (upd_entry cc3 fe
                             (\<lambda>ent. ent\<lparr>disk_addr := TP_UNMAPPED_ADDR, entry_time := 0\<rparr>))))
         | GET_RC_FLUSHING \<Rightarrow> Inl Abort)"

fun prefetch_loop :: "nat \<Rightarrow> nat \<Rightarrow> nat \<Rightarrow> u64 \<Rightarrow> page_type \<Rightarrow> nat \<Rightarrow> (u64 \<times> nat list) option \<Rightarrow>
    'd treepass \<Rightarrow> 'd treepass outcome" where
  "prefetch_loop 0 fuel tid base_addr t page_off st cc = Inl Blocked"
| "prefetch_loop (Suc n) fuel tid base_addr t page_off st cc =
     (if page_off < pages_per_extent (cfg cc)
      then
        let addr = base_addr + treepass_multiply_by_page_size (cfg cc) (of_nat page_off)
        in obind (prefetch_page fuel tid addr t st cc) (\<lambda>(next_page, st', cc1).
             prefetch_loop n fuel tid base_addr t
               (if next_page then Suc page_off else page_off) st' cc1)
      else Inr (prefetch_issue tid t st cc))"

definition treepass_prefetch ::
  "'d treepass \<Rightarrow> nat \<Rightarrow> nat \<Rightarrow> u64 \<Rightarrow> page_type \<Rightarrow> 'd treepass outcome" where
  "treepass_prefetch cc fuel tid base_addr t = prefetch_loop fuel fuel tid base_addr t 0 None cc"

section \<open>Statistics\<close>

definition treepass_io_stats :: "'d treepass \<Rightarrow> u64 \<times> u64" where
  "treepass_io_stats cc =
     (if \<not> use_stats (cfg cc) then (0, 0)
      else
        let total = (\<lambda>f. sum_list (map (\<lambda>i. sum_list (map (f (stats cc i)) page_types))
                          [0..<MAX_THREADS]))
        in (total page_reads * 4 * 1024, total page_writes * 4 * 1024))"

definition treepass_reset_stats :: "'d treepass \<Rightarrow> 'd treepass" where
  "treepass_reset_stats cc =
     cc\<lparr>stats := (\<lambda>i. if i < MAX_THREADS
        then (stats cc i)\<lparr>cache_hits := (\<lambda>_. 0), cache_misses := (\<lambda>_. 0), page_reads := (\<lambda>_. 0),
               page_writes := (\<lambda>_. 0), discard_clean := (\<lambda>_. 0), discard_dirty := (\<lambda>_. 0),
               discard_uncached := (\<lambda>_. 0)\<rparr>
        else stats cc i)\<rparr>"

section \<open>Initial state\<close>

definition treepass_config_init ::
  "u64 \<Rightarrow> u64 \<Rightarrow> u64 \<Rightarrow> u64 \<Rightarrow> bool \<Rightarrow> (u64 \<Rightarrow> u64 \<Rightarrow> u64) \<Rightarrow> tp_config" where
  "treepass_config_init page_size extent_size extent_mask cap stats_on ewma =
     \<lparr>io_page_size = page_size, io_extent_size = extent_size, capacity = cap,
      use_stats = stats_on, log_page_size = floor_log2 (unat page_size),
      page_capacity = unat (ucast (cap div page_size) :: u32),
      batch_capacity = 0, cacheline_capacity = 0, pages_per_extent = 0,
      ei_ewma = ewma, ei_initial_per_gb_ns = 1000000000, al_extent_mask = extent_mask\<rparr>"

definition zero_stats :: cache_stats where
  "zero_stats = \<lparr>cache_hits = (\<lambda>_. 0), cache_misses = (\<lambda>_. 0), page_writes = (\<lambda>_. 0),
     page_reads = (\<lambda>_. 0), discard_clean = (\<lambda>_. 0), discard_dirty = (\<lambda>_. 0),
     discard_uncached = (\<lambda>_. 0), prefetches_issued = (\<lambda>_. 0), writes_issued = 0,
     syncs_issued = 0\<rparr>"

text \<open>
  \<open>mem_ok\<close> says whether the allocations succeed (\<open>None\<close> is \<open>STATUS_NO_MEMORY\<close>), \<open>d0\<close> is
  what a fresh page buffer holds, the last arguments are the environment.
\<close>

definition treepass_init ::
  "tp_config \<Rightarrow> bool \<Rightarrow> 'd \<Rightarrow> (u64 \<Rightarrow> 'd) \<Rightarrow> (nat \<times> bool) list \<Rightarrow> (u64 \<Rightarrow> bool) \<Rightarrow> (nat \<Rightarrow> u64) \<Rightarrow>
   'd treepass option outcome" where
  "treepass_init c mem_ok d0 dsk evs ok clk =
     (let c1 = c\<lparr>batch_capacity := page_capacity c div TP_ENTRIES_PER_BATCH,
                 cacheline_capacity := page_capacity c div PLATFORM_CACHELINE_SIZE,
                 pages_per_extent :=
                   unat (treepass_divide_by_page_size c (treepass_config_extent_size c))\<rparr>;
          debug_capacity = treepass_multiply_by_page_size c1 (of_nat (page_capacity c1))
      in if \<not> page_capacity c1 mod PLATFORM_CACHELINE_SIZE = 0
            \<or> \<not> capacity c1 = debug_capacity
            \<or> \<not> page_capacity c1 mod TP_ENTRIES_PER_BATCH = 0
         then Inl Abort
         else if \<not> mem_ok then Inr None
         else Inr (Some
           \<lparr>cfg = c1, lookup = (\<lambda>_. TP_UNMAPPED_ENTRY),
            entry = (\<lambda>_. \<lparr>page_data = d0, disk_addr = TP_UNMAPPED_ADDR, entry_time = 0,
                         status = TP_FREE_STATUS, ptype = PAGE_TYPE_INVALID, waiters = []\<rparr>),
            refcount = (\<lambda>_. 0), pincount = (\<lambda>_. 0), evict_hand = 1, batch_busy = (\<lambda>_. False),
            cleaner_gap = TP_CLEANER_GAP, evict_interval_thre = EI_NOT_READY,
            last_cycle_ts = clk 0, evict_batches = 0, last_ei_check_ts = 0,
            last_ei_check_cycle = 0, free_hand = (\<lambda>_. TP_UNMAPPED_ENTRY),
            enable_sync_get = (\<lambda>_. True), stats = (\<lambda>_. zero_stats), disk = dsk,
            inflight = [], reap = evs, dev_ok = ok, clock = clk, ticks = 1,
            pages_outstanding = (\<lambda>_. 0)\<rparr>))"

end
