(* ===== verification/TpInv.thy ===== *)
theory TpInv
  imports TpGet
begin

text \<open>
  The invariant of the TreePass cache and the memory it presents to its callers.

  \<open>tp_wf\<close> says that the direct map and the entries' addresses are inverse to each other, that
  a free entry is exactly \<open>TP_FREE_STATUS\<close> with nothing left in it, that a clean page agrees
  with the device, and that the pages of every submitted request are the ones the request
  will write or fill. \<open>page_view\<close> is the contents a caller sees at an address: the cached page
  if there is one, the device otherwise. \<open>tp_pres\<close> relates two states when the second
  satisfies the invariant and presents the same memory.
\<close>

section \<open>Definitions\<close>

definition page_aligned :: "tp_config \<Rightarrow> u64 \<Rightarrow> bool" where
  "page_aligned c a \<longleftrightarrow> push_bit (log_page_size c) (drop_bit (log_page_size c) a) = a"

definition inflight_entries :: "'d treepass \<Rightarrow> nat set" where
  "inflight_entries cc = (\<Union>rq\<in>set (inflight cc). set (rq_iovec rq))"

definition tp_map_ok :: "'d treepass \<Rightarrow> bool" where
  "tp_map_ok cc \<longleftrightarrow> (\<forall>l. lookup cc l \<noteq> TP_UNMAPPED_ENTRY \<longrightarrow>
     lookup cc l < page_capacity (cfg cc) \<and>
     (let ent = entry cc (lookup cc l)
      in \<not> st_free (status ent) \<and> page_aligned (cfg cc) (disk_addr ent)
         \<and> lookup_no (cfg cc) (disk_addr ent) = l))"

definition tp_entry_ok :: "'d treepass \<Rightarrow> nat \<Rightarrow> bool" where
  "tp_entry_ok cc e \<longleftrightarrow>
     (let ent = entry cc e
      in (disk_addr ent \<noteq> TP_UNMAPPED_ADDR \<longrightarrow> treepass_lookup cc (disk_addr ent) = e) \<and>
         (st_free (status ent) \<longrightarrow> status ent = TP_FREE_STATUS \<and> disk_addr ent = TP_UNMAPPED_ADDR
            \<and> ptype ent = PAGE_TYPE_INVALID \<and> entry_time ent = 0 \<and> waiters ent = []) \<and>
         (disk_addr ent \<noteq> TP_UNMAPPED_ADDR \<and> st_clean (status ent) \<and> \<not> st_loading (status ent) \<longrightarrow>
            page_data ent = disk cc (disk_addr ent)) \<and>
         (disk_addr ent = TP_UNMAPPED_ADDR \<longrightarrow>
            st_free (status ent) \<or> st_loading (status ent) \<or> st_writelocked (status ent)))"

definition rq_page_ok :: "io_cmd \<Rightarrow> u64 \<Rightarrow> 'd treepass \<Rightarrow> nat \<Rightarrow> bool" where
  "rq_page_ok cmd a cc e \<longleftrightarrow>
     e < page_capacity (cfg cc) \<and>
     (let ent = entry cc e
      in disk_addr ent = a \<and> a \<noteq> TP_UNMAPPED_ADDR \<and> \<not> st_free (status ent) \<and>
         (case cmd of IO_PWRITEV \<Rightarrow> st_writeback (status ent) \<and> \<not> st_clean (status ent) \<and> \<not> st_loading (status ent)
                    | IO_PREADV \<Rightarrow> st_loading (status ent)))"

fun rq_pages_ok :: "io_cmd \<Rightarrow> u64 \<Rightarrow> nat list \<Rightarrow> 'd treepass \<Rightarrow> bool" where
  "rq_pages_ok cmd a [] cc = True"
| "rq_pages_ok cmd a (e # es) cc =
     (rq_page_ok cmd a cc e \<and> rq_pages_ok cmd (a + io_page_size (cfg cc)) es cc)"

definition tp_inflight_ok :: "'d treepass \<Rightarrow> bool" where
  "tp_inflight_ok cc \<longleftrightarrow>
     (\<forall>rq\<in>set (inflight cc). rq_pages_ok (rq_cmd rq) (rq_addr rq) (rq_iovec rq) cc) \<and>
     distinct (concat (map rq_iovec (inflight cc)))"

definition tp_wf :: "'d treepass \<Rightarrow> bool" where
  "tp_wf cc \<longleftrightarrow> tp_cfg_wf (cfg cc) \<and> tp_map_ok cc \<and>
     (\<forall>e<page_capacity (cfg cc). tp_entry_ok cc e) \<and> tp_inflight_ok cc"

definition page_view :: "'d treepass \<Rightarrow> u64 \<Rightarrow> 'd" where
  "page_view cc a =
     (let e = treepass_lookup cc a
      in if e \<noteq> TP_UNMAPPED_ENTRY \<and> \<not> st_loading (status (entry cc e))
         then page_data (entry cc e) else disk cc a)"

definition tp_same :: "'d treepass \<Rightarrow> 'd treepass \<Rightarrow> bool" where
  "tp_same cc cc' \<longleftrightarrow> cfg cc' = cfg cc \<and>
     (\<forall>a. page_aligned (cfg cc) a \<longrightarrow> page_view cc' a = page_view cc a)"

definition tp_pres :: "'d treepass \<Rightarrow> 'd treepass \<Rightarrow> bool" where
  "tp_pres cc cc' \<longleftrightarrow> tp_wf cc' \<and> tp_same cc cc'"

section \<open>Basic facts\<close>

lemma tp_pres_refl: "tp_wf cc \<Longrightarrow> tp_pres cc cc"
  by (simp add: tp_pres_def tp_same_def)

lemma tp_pres_trans: "tp_pres cc1 cc2 \<Longrightarrow> tp_pres cc2 cc3 \<Longrightarrow> tp_pres cc1 cc3"
  by (simp add: tp_pres_def tp_same_def)

lemma tp_pres_wf: "tp_pres cc cc' \<Longrightarrow> tp_wf cc'"
  by (simp add: tp_pres_def)

lemma tp_pres_cfg: "tp_pres cc cc' \<Longrightarrow> cfg cc' = cfg cc"
  by (simp add: tp_pres_def tp_same_def)

lemma tp_pres_view: "tp_pres cc cc' \<Longrightarrow> page_aligned (cfg cc) a \<Longrightarrow> page_view cc' a = page_view cc a"
  by (simp add: tp_pres_def tp_same_def)

lemma tp_wf_cfg: "tp_wf cc \<Longrightarrow> tp_cfg_wf (cfg cc)"
  by (simp add: tp_wf_def)

lemma capacity_lt_unmapped: "tp_cfg_wf c \<Longrightarrow> page_capacity c < TP_UNMAPPED_ENTRY"
  by (simp add: tp_cfg_wf_def)

lemma aligned_lookup_no_inj:
  assumes "page_aligned c a" and "page_aligned c b" and "lookup_no c a = lookup_no c b"
  shows "a = b"
proof -
  from assms(3) have "drop_bit (log_page_size c) a = drop_bit (log_page_size c) b"
    by (simp add: lookup_no_def treepass_divide_by_page_size_def word_unat_eq_iff)
  then show ?thesis using assms(1,2) by (metis page_aligned_def)
qed

lemma unmapped_not_aligned: "tp_cfg_wf c \<Longrightarrow> \<not> page_aligned c TP_UNMAPPED_ADDR"
proof
  assume c: "tp_cfg_wf c" and "page_aligned c TP_UNMAPPED_ADDR"
  then have "bit (push_bit (log_page_size c) (drop_bit (log_page_size c) TP_UNMAPPED_ADDR)) 0
      = bit TP_UNMAPPED_ADDR 0"
    by (simp add: page_aligned_def)
  with c show False
    by (simp add: tp_cfg_wf_def bit_push_bit_iff TP_UNMAPPED_ADDR_def)
qed

lemma tp_wf_lookupD:
  assumes "tp_wf cc" and "treepass_lookup cc a \<noteq> TP_UNMAPPED_ENTRY"
  shows "treepass_lookup cc a < page_capacity (cfg cc)"
    and "\<not> st_free (status (entry cc (treepass_lookup cc a)))"
    and "page_aligned (cfg cc) (disk_addr (entry cc (treepass_lookup cc a)))"
    and "lookup_no (cfg cc) (disk_addr (entry cc (treepass_lookup cc a))) = lookup_no (cfg cc) a"
    and "disk_addr (entry cc (treepass_lookup cc a)) \<noteq> TP_UNMAPPED_ADDR"
  using assms unmapped_not_aligned [OF tp_wf_cfg [OF assms(1)]]
  by (auto simp: tp_wf_def tp_map_ok_def treepass_lookup_def Let_def)

lemma tp_wf_lookup_addr:
  assumes "tp_wf cc" and "treepass_lookup cc a \<noteq> TP_UNMAPPED_ENTRY" and "page_aligned (cfg cc) a"
  shows "disk_addr (entry cc (treepass_lookup cc a)) = a"
  using tp_wf_lookupD [OF assms(1,2)] assms(3) by (blast intro: aligned_lookup_no_inj)

lemma tp_wf_entryD:
  assumes "tp_wf cc" and "e < page_capacity (cfg cc)"
  shows "disk_addr (entry cc e) \<noteq> TP_UNMAPPED_ADDR \<Longrightarrow> treepass_lookup cc (disk_addr (entry cc e)) = e"
    and "st_free (status (entry cc e)) \<Longrightarrow> status (entry cc e) = TP_FREE_STATUS"
    and "st_free (status (entry cc e)) \<Longrightarrow> disk_addr (entry cc e) = TP_UNMAPPED_ADDR"
    and "st_free (status (entry cc e)) \<Longrightarrow> ptype (entry cc e) = PAGE_TYPE_INVALID"
    and "st_free (status (entry cc e)) \<Longrightarrow> entry_time (entry cc e) = 0"
    and "st_free (status (entry cc e)) \<Longrightarrow> waiters (entry cc e) = []"
    and "disk_addr (entry cc e) \<noteq> TP_UNMAPPED_ADDR \<Longrightarrow> st_clean (status (entry cc e)) \<Longrightarrow>
      \<not> st_loading (status (entry cc e)) \<Longrightarrow> page_data (entry cc e) = disk cc (disk_addr (entry cc e))"
    and "disk_addr (entry cc e) = TP_UNMAPPED_ADDR \<Longrightarrow> \<not> st_free (status (entry cc e)) \<Longrightarrow>
      \<not> st_loading (status (entry cc e)) \<Longrightarrow> st_writelocked (status (entry cc e))"
  using assms by (auto simp: tp_wf_def tp_entry_ok_def Let_def)

lemma tp_wf_mapped_aligned:
  assumes "tp_wf cc" "e < page_capacity (cfg cc)" "disk_addr (entry cc e) \<noteq> TP_UNMAPPED_ADDR"
  shows "page_aligned (cfg cc) (disk_addr (entry cc e))"
    and "\<not> st_free (status (entry cc e))"
proof -
  have l: "treepass_lookup cc (disk_addr (entry cc e)) = e"
    using assms by (rule tp_wf_entryD)
  moreover have "e \<noteq> TP_UNMAPPED_ENTRY"
    using assms capacity_lt_unmapped [OF tp_wf_cfg] by fastforce
  ultimately show "page_aligned (cfg cc) (disk_addr (entry cc e))"
      "\<not> st_free (status (entry cc e))"
    using tp_wf_lookupD [OF assms(1), of "disk_addr (entry cc e)"] by auto
qed

text \<open>A disk page is in at most one entry.\<close>

lemma tp_wf_addr_inj:
  assumes "tp_wf cc" "e < page_capacity (cfg cc)" "e' < page_capacity (cfg cc)"
    and "disk_addr (entry cc e) = disk_addr (entry cc e')"
    and "disk_addr (entry cc e) \<noteq> TP_UNMAPPED_ADDR"
  shows "e = e'"
  using assms tp_wf_entryD(1) by metis

lemma rq_pages_okD: "rq_pages_ok cmd a es cc \<Longrightarrow> e \<in> set es \<Longrightarrow> \<exists>b. rq_page_ok cmd b cc e"
  by (induction es arbitrary: a) auto

lemma inflight_page:
  assumes "tp_wf cc" and "e \<in> inflight_entries cc"
  shows "\<exists>cmd a. rq_page_ok cmd a cc e"
  using assms by (fastforce simp: tp_wf_def tp_inflight_ok_def inflight_entries_def
      dest: rq_pages_okD)

text \<open>An entry that is neither written back nor loaded is in no request.\<close>

lemma not_inflight:
  assumes "tp_wf cc" and "\<not> st_writeback (status (entry cc e))" and "\<not> st_loading (status (entry cc e))"
  shows "e \<notin> inflight_entries cc"
  using inflight_page [OF assms(1)] assms(2,3)
  by (fastforce simp: rq_page_ok_def Let_def split: io_cmd.splits)

lemma free_not_inflight:
  assumes "tp_wf cc" and "st_free (status (entry cc e))"
  shows "e \<notin> inflight_entries cc"
  using inflight_page [OF assms(1)] assms(2) by (fastforce simp: rq_page_ok_def Let_def)

lemma unmapped_not_inflight:
  assumes "tp_wf cc" and "disk_addr (entry cc e) = TP_UNMAPPED_ADDR"
  shows "e \<notin> inflight_entries cc"
  using inflight_page [OF assms(1)] assms(2) by (fastforce simp: rq_page_ok_def Let_def)

section \<open>Changes the invariant does not see\<close>

lemma tp_pres_core:
  assumes "tp_wf cc" and "cfg cc' = cfg cc" and "lookup cc' = lookup cc" and "entry cc' = entry cc"
    and "disk cc' = disk cc" and "inflight cc' = inflight cc"
  shows "tp_pres cc cc'"
proof -
  have l: "treepass_lookup cc' = treepass_lookup cc"
    using assms by (simp add: treepass_lookup_def fun_eq_iff)
  have "rq_pages_ok cmd a es cc' = rq_pages_ok cmd a es cc" for cmd a es
    using assms by (induction es arbitrary: a) (auto simp: rq_page_ok_def)
  with l assms show ?thesis
    by (simp add: Let_def tp_pres_def tp_same_def page_view_def tp_wf_def tp_map_ok_def tp_entry_ok_def
        tp_inflight_ok_def)
qed

section \<open>Changing one entry in place\<close>

lemma rq_pages_ok_cong:
  assumes "rq_pages_ok cmd a es cc" and "cfg cc' = cfg cc"
    and "\<And>e b. e \<in> set es \<Longrightarrow> rq_page_ok cmd b cc e \<Longrightarrow> rq_page_ok cmd b cc' e"
  shows "rq_pages_ok cmd a es cc'"
  using assms by (induction es arbitrary: a) auto

lemma tp_inflight_ok_cong:
  assumes "tp_inflight_ok cc" and "cfg cc' = cfg cc" and "inflight cc' = inflight cc"
    and "\<And>cmd b e. e \<in> inflight_entries cc \<Longrightarrow> rq_page_ok cmd b cc e \<Longrightarrow> rq_page_ok cmd b cc' e"
  shows "tp_inflight_ok cc'"
proof -
  have "rq_pages_ok (rq_cmd rq) (rq_addr rq) (rq_iovec rq) cc'" if rq: "rq \<in> set (inflight cc)" for rq
  proof (rule rq_pages_ok_cong)
    show "rq_pages_ok (rq_cmd rq) (rq_addr rq) (rq_iovec rq) cc"
      using assms(1) rq by (simp add: tp_inflight_ok_def)
    show "cfg cc' = cfg cc" by (rule assms(2))
    show "rq_page_ok (rq_cmd rq) b cc' e"
      if "e \<in> set (rq_iovec rq)" "rq_page_ok (rq_cmd rq) b cc e" for e b
      using that rq by (intro assms(4)) (auto simp: inflight_entries_def)
  qed
  then show ?thesis using assms(1,3) by (simp add: tp_inflight_ok_def)
qed

lemma upd_entry_simps [simp]:
  "cfg (upd_entry cc e f) = cfg cc" "lookup (upd_entry cc e f) = lookup cc"
  "disk (upd_entry cc e f) = disk cc" "inflight (upd_entry cc e f) = inflight cc"
  "refcount (upd_entry cc e f) = refcount cc" "pincount (upd_entry cc e f) = pincount cc"
  "reap (upd_entry cc e f) = reap cc" "free_hand (upd_entry cc e f) = free_hand cc"
  "batch_busy (upd_entry cc e f) = batch_busy cc" "evict_hand (upd_entry cc e f) = evict_hand cc"
  "cleaner_gap (upd_entry cc e f) = cleaner_gap cc" "stats (upd_entry cc e f) = stats cc"
  "entry (upd_entry cc e f) e' = (if e' = e then f (entry cc e) else entry cc e')"
  "treepass_lookup (upd_entry cc e f) = treepass_lookup cc"
  "inflight_entries (upd_entry cc e f) = inflight_entries cc"
  "dev_ok (upd_entry cc e f) = dev_ok cc"
  by (simp_all add: upd_entry_def treepass_lookup_def fun_eq_iff inflight_entries_def)

lemma tp_pres_entry:
  assumes wf: "tp_wf cc" and e: "e < page_capacity (cfg cc)"
    and nf: "\<not> st_free (status (entry cc e))" and nf': "\<not> st_free (status (f (entry cc e)))"
    and addr: "disk_addr (f (entry cc e)) = disk_addr (entry cc e)"
    and infl: "e \<in> inflight_entries cc \<Longrightarrow>
      st_clean (status (f (entry cc e))) = st_clean (status (entry cc e)) \<and>
      st_writeback (status (f (entry cc e))) = st_writeback (status (entry cc e)) \<and>
      st_loading (status (f (entry cc e))) = st_loading (status (entry cc e))"
    and coh: "disk_addr (entry cc e) \<noteq> TP_UNMAPPED_ADDR \<Longrightarrow> st_clean (status (f (entry cc e))) \<Longrightarrow>
      \<not> st_loading (status (f (entry cc e))) \<Longrightarrow>
      page_data (f (entry cc e)) = disk cc (disk_addr (entry cc e))"
    and view: "disk_addr (entry cc e) \<noteq> TP_UNMAPPED_ADDR \<Longrightarrow>
      (if st_loading (status (f (entry cc e))) then disk cc (disk_addr (entry cc e))
       else page_data (f (entry cc e))) =
      (if st_loading (status (entry cc e)) then disk cc (disk_addr (entry cc e))
       else page_data (entry cc e))"
    and unm: "disk_addr (entry cc e) = TP_UNMAPPED_ADDR \<Longrightarrow>
      st_loading (status (f (entry cc e))) \<or> st_writelocked (status (f (entry cc e)))"
  shows "tp_pres cc (upd_entry cc e f)" (is "tp_pres cc ?cc'")
proof -
  have "tp_map_ok ?cc'"
    using wf nf nf' addr by (auto simp: tp_wf_def tp_map_ok_def Let_def)
  moreover have "tp_entry_ok ?cc' i" if "i < page_capacity (cfg cc)" for i
    using tp_wf_entryD [OF wf that] nf' addr coh unm
    by (cases "i = e") (auto simp: tp_entry_ok_def Let_def)
  moreover have "tp_inflight_ok ?cc'"
  proof (rule tp_inflight_ok_cong)
    show "tp_inflight_ok cc" using wf by (simp add: tp_wf_def)
    fix cmd b i assume "i \<in> inflight_entries cc" "rq_page_ok cmd b cc i"
    then show "rq_page_ok cmd b ?cc' i"
      using infl nf' addr by (cases "i = e") (auto simp: rq_page_ok_def Let_def split: io_cmd.splits)
  qed simp_all
  moreover have "page_view ?cc' a = page_view cc a" if "page_aligned (cfg cc) a" for a
  proof (cases "treepass_lookup cc a = e \<and> e \<noteq> TP_UNMAPPED_ENTRY")
    case True
    then have "disk_addr (entry cc e) = a" "disk_addr (entry cc e) \<noteq> TP_UNMAPPED_ADDR"
      using tp_wf_lookup_addr [OF wf, of a] tp_wf_lookupD(5) [OF wf, of a] that by auto
    with view True show ?thesis by (simp add: page_view_def split: if_splits)
  next
    case False
    then show ?thesis by (auto simp: page_view_def Let_def)
  qed
  ultimately show ?thesis
    using wf by (simp add: tp_pres_def tp_same_def tp_wf_def)
qed

text \<open>The usual case: the low bits, the address and the contents stay.\<close>

lemma tp_pres_entry_low:
  assumes "tp_wf cc" and "e < page_capacity (cfg cc)" and "\<not> st_free (status (entry cc e))"
    and "st_free (status (f (entry cc e))) = st_free (status (entry cc e))"
    and "st_clean (status (f (entry cc e))) = st_clean (status (entry cc e))"
    and "st_writeback (status (f (entry cc e))) = st_writeback (status (entry cc e))"
    and "st_loading (status (f (entry cc e))) = st_loading (status (entry cc e))"
    and "disk_addr (f (entry cc e)) = disk_addr (entry cc e)"
    and "page_data (f (entry cc e)) = page_data (entry cc e)"
    and "disk_addr (entry cc e) = TP_UNMAPPED_ADDR \<Longrightarrow> st_writelocked (status (entry cc e)) \<Longrightarrow>
      st_writelocked (status (f (entry cc e)))"
  shows "tp_pres cc (upd_entry cc e f)"
  using assms tp_wf_entryD [OF assms(1,2)] by (intro tp_pres_entry) auto

end
