(* ===== verification/TpPreserve.thy ===== *)
theory TpPreserve
  imports TpInv
begin

text \<open>
  Reference counts, pins, statistics, the hand, locks and clocks leave the invariant and the
  memory the cache presents alone.
\<close>

section \<open>Bookkeeping\<close>

lemma pres_inc_ref [inv_intros]: "tp_wf cc \<Longrightarrow> tp_pres cc (treepass_inc_ref cc e t)"
  by (rule tp_pres_core) (simp_all add: treepass_inc_ref_def Let_def)

lemma pres_dec_ref [inv_intros]: "tp_wf cc \<Longrightarrow> tp_pres cc (treepass_dec_ref cc e t)"
  by (rule tp_pres_core) (simp_all add: treepass_dec_ref_def Let_def)

lemma pres_inc_pin [inv_intros]: "tp_wf cc \<Longrightarrow> tp_pres cc (treepass_inc_pin cc e)"
  by (rule tp_pres_core) (simp_all add: treepass_inc_pin_def Let_def)

lemma pres_dec_pin [inv_intros]: "tp_wf cc \<Longrightarrow> tp_pres cc (treepass_dec_pin cc e)"
  by (rule tp_pres_core) (simp_all add: treepass_dec_pin_def Let_def)

lemma pres_reset_pin [inv_intros]: "tp_wf cc \<Longrightarrow> tp_pres cc (treepass_reset_pin cc e)"
  by (rule tp_pres_core) (simp_all add: treepass_reset_pin_def Let_def)

lemma pres_upd_stats [inv_intros]: "tp_wf cc \<Longrightarrow> tp_pres cc (upd_stats cc tid f)"
  by (rule tp_pres_core) (simp_all add: upd_stats_def)

lemma pres_timestamp [inv_intros]: "tp_wf cc \<Longrightarrow> tp_pres cc (snd (platform_get_timestamp cc))"
  by (rule tp_pres_core) (simp_all add: platform_get_timestamp_def)

lemma pres_fields [inv_intros]:
  assumes "tp_wf cc"
  shows "tp_pres cc (cc\<lparr>batch_busy := bb\<rparr>)" "tp_pres cc (cc\<lparr>evict_hand := h\<rparr>)"
    "tp_pres cc (cc\<lparr>free_hand := fh\<rparr>)" "tp_pres cc (cc\<lparr>reap := r\<rparr>)"
    "tp_pres cc (cc\<lparr>pages_outstanding := po\<rparr>)" "tp_pres cc (cc\<lparr>enable_sync_get := en\<rparr>)"
    "tp_pres cc (cc\<lparr>stats := st\<rparr>)"
  by (rule tp_pres_core [OF assms]; simp)+

lemma pres_evict_batch_ei [inv_intros]: "tp_wf cc \<Longrightarrow> tp_pres cc (evict_batch_ei cc)"
  by (rule tp_pres_core)
     (simp_all add: evict_batch_ei_def platform_get_timestamp_def Let_def)

lemma ref_frame [simp]:
  "cfg (treepass_inc_ref cc e t) = cfg cc" "cfg (treepass_dec_ref cc e t) = cfg cc"
  "entry (treepass_inc_ref cc e t) = entry cc" "entry (treepass_dec_ref cc e t) = entry cc"
  "lookup (treepass_inc_ref cc e t) = lookup cc" "lookup (treepass_dec_ref cc e t) = lookup cc"
  "disk (treepass_inc_ref cc e t) = disk cc" "disk (treepass_dec_ref cc e t) = disk cc"
  "inflight (treepass_inc_ref cc e t) = inflight cc" "inflight (treepass_dec_ref cc e t) = inflight cc"
  "reap (treepass_inc_ref cc e t) = reap cc" "reap (treepass_dec_ref cc e t) = reap cc"
  "pincount (treepass_inc_ref cc e t) = pincount cc" "pincount (treepass_dec_ref cc e t) = pincount cc"
  "free_hand (treepass_inc_ref cc e t) = free_hand cc" "free_hand (treepass_dec_ref cc e t) = free_hand cc"
  "treepass_lookup (treepass_inc_ref cc e t) = treepass_lookup cc"
  "treepass_lookup (treepass_dec_ref cc e t) = treepass_lookup cc"
  "inflight_entries (treepass_inc_ref cc e t) = inflight_entries cc"
  "inflight_entries (treepass_dec_ref cc e t) = inflight_entries cc"
  by (simp_all add: treepass_inc_ref_def treepass_dec_ref_def Let_def treepass_lookup_def
      fun_eq_iff inflight_entries_def)

lemma upd_stats_frame [simp]:
  "cfg (upd_stats cc tid f) = cfg cc" "entry (upd_stats cc tid f) = entry cc"
  "lookup (upd_stats cc tid f) = lookup cc" "disk (upd_stats cc tid f) = disk cc"
  "inflight (upd_stats cc tid f) = inflight cc" "reap (upd_stats cc tid f) = reap cc"
  "refcount (upd_stats cc tid f) = refcount cc" "pincount (upd_stats cc tid f) = pincount cc"
  "free_hand (upd_stats cc tid f) = free_hand cc"
  "treepass_lookup (upd_stats cc tid f) = treepass_lookup cc"
  "inflight_entries (upd_stats cc tid f) = inflight_entries cc"
  by (simp_all add: upd_stats_def treepass_lookup_def fun_eq_iff inflight_entries_def)

lemma reset_pin_frame [simp]:
  "cfg (treepass_reset_pin cc e) = cfg cc" "entry (treepass_reset_pin cc e) = entry cc"
  "lookup (treepass_reset_pin cc e) = lookup cc" "refcount (treepass_reset_pin cc e) = refcount cc"
  "disk (treepass_reset_pin cc e) = disk cc"
  "treepass_lookup (treepass_reset_pin cc e) = treepass_lookup cc"
  by (simp_all add: treepass_reset_pin_def Let_def treepass_lookup_def fun_eq_iff)

section \<open>Flags and clocks\<close>

lemma set_flag_snd: "snd (treepass_set_flag cc e f) = upd_entry cc e (status_update (\<lambda>s. s OR f))"
  by (simp add: treepass_set_flag_def)

lemma clear_flag_snd:
  "snd (treepass_clear_flag cc e f) = upd_entry cc e (status_update (\<lambda>s. s AND NOT f))"
  by (simp add: treepass_clear_flag_def)

lemmas flag_ops = set_flag_snd clear_flag_snd

lemma pres_lock_flags [inv_intros]:
  assumes "tp_wf cc" and "e < page_capacity (cfg cc)" and "\<not> st_free (status (entry cc e))"
  shows "tp_pres cc (snd (treepass_set_flag cc e TP_CLAIMED))"
    and "tp_pres cc (snd (treepass_set_flag cc e TP_WRITELOCKED))"
    and "tp_pres cc (snd (treepass_clear_flag cc e TP_CLAIMED))"
    and "disk_addr (entry cc e) \<noteq> TP_UNMAPPED_ADDR \<Longrightarrow>
      tp_pres cc (snd (treepass_clear_flag cc e TP_WRITELOCKED))"
  using assms by (auto intro!: tp_pres_entry_low simp: flag_ops flag_simps)

lemma pres_mark_dirty:
  assumes "tp_wf cc" and "e < page_capacity (cfg cc)" and "\<not> st_free (status (entry cc e))"
    and "\<not> st_writeback (status (entry cc e))" and "\<not> st_loading (status (entry cc e))"
  shows "tp_pres cc (treepass_mark_dirty cc e)"
  using assms not_inflight [OF assms(1,4,5)] tp_wf_entryD(8) [OF assms(1,2)]
  by (auto intro!: tp_pres_entry simp: treepass_mark_dirty_def flag_ops flag_simps)

lemma pres_set_clock [inv_intros]:
  assumes "tp_wf cc" and "e < page_capacity (cfg cc)" and "\<not> st_free (status (entry cc e))"
  shows "tp_pres cc (treepass_set_clock cc e v)"
  using assms
  by (auto intro!: tp_pres_entry_low simp: treepass_set_clock_def Let_def flag_simps)

lemma pres_set_clock_accessed [inv_intros]:
  assumes "tp_wf cc" and "e < page_capacity (cfg cc)" and "\<not> st_free (status (entry cc e))"
  shows "tp_pres cc (treepass_set_clock_accessed cc e)"
  using assms
  by (auto intro!: tp_pres_entry_low tp_pres_refl
      simp: treepass_set_clock_accessed_def flag_simps)

lemma status_clock_free [simp]: "status_clock TP_FREE_STATUS = 0"
  by (simp add: status_clock_def tp_statuses tp_flags tp_clock_consts)

lemma pres_try_dec_clock [inv_intros]:
  assumes wf: "tp_wf cc" and e: "e < page_capacity (cfg cc)"
  shows "tp_pres cc (snd (treepass_try_dec_clock cc e))"
proof (cases "status_clock (status (entry cc e)) = 0")
  case True
  then show ?thesis using wf by (simp add: treepass_try_dec_clock_def tp_pres_refl)
next
  case False
  then have "\<not> st_free (status (entry cc e))"
    using tp_wf_entryD(2) [OF wf e] by auto
  then show ?thesis
    using wf e False
    by (auto intro!: tp_pres_entry_low simp: treepass_try_dec_clock_def flag_simps)
qed

lemma pres_entry_time [inv_intros]:
  assumes "tp_wf cc" and "e < page_capacity (cfg cc)" and "\<not> st_free (status (entry cc e))"
  shows "tp_pres cc (upd_entry cc e (entry_time_update g))"
  using assms by (auto intro!: tp_pres_entry_low)

section \<open>Locks\<close>

lemma pres_try_get_read [inv_intros]:
  assumes wf: "tp_wf cc" and e: "e < page_capacity (cfg cc)"
  shows "tp_pres cc (snd (treepass_try_get_read cc tid e b))"
proof -
  have inc: "tp_pres cc (treepass_inc_ref cc e tid)" by (rule pres_inc_ref [OF wf])
  have "tp_pres (treepass_inc_ref cc e tid) (treepass_set_clock_accessed (treepass_inc_ref cc e tid) e)"
    if "\<not> st_free (status (entry cc e))"
    using that e by (intro pres_set_clock_accessed tp_pres_wf [OF inc]) simp_all
  with inc wf show ?thesis
    by (auto simp: treepass_try_get_read_def Let_def flag_simps intro: tp_pres_refl tp_pres_trans)
qed

lemma try_get_read_success:
  assumes "treepass_try_get_read cc tid e b = (GET_RC_SUCCESS, cc')"
  shows "\<not> st_free (status (entry cc e))" "\<not> st_writelocked (status (entry cc e))"
    "cc' = (if b then treepass_set_clock_accessed (treepass_inc_ref cc e tid) e
            else treepass_inc_ref cc e tid)"
  using assms by (auto simp: treepass_try_get_read_def Let_def flag_simps split: if_splits)

lemma try_get_read_fail:
  assumes "treepass_try_get_read cc tid e b = (rc, cc')" and "rc \<noteq> GET_RC_SUCCESS"
  shows "cc' = cc"
  using assms by (auto simp: treepass_try_get_read_def Let_def flag_simps split: if_splits)

lemma set_clock_accessed_frame [simp]:
  "cfg (treepass_set_clock_accessed cc e) = cfg cc"
  "disk_addr (entry (treepass_set_clock_accessed cc e) i) = disk_addr (entry cc i)"
  "page_data (entry (treepass_set_clock_accessed cc e) i) = page_data (entry cc i)"
  "ptype (entry (treepass_set_clock_accessed cc e) i) = ptype (entry cc i)"
  "entry_time (entry (treepass_set_clock_accessed cc e) i) = entry_time (entry cc i)"
  "waiters (entry (treepass_set_clock_accessed cc e) i) = waiters (entry cc i)"
  "treepass_lookup (treepass_set_clock_accessed cc e) = treepass_lookup cc"
  "st_free (status (entry (treepass_set_clock_accessed cc e) i)) = st_free (status (entry cc i))"
  "st_clean (status (entry (treepass_set_clock_accessed cc e) i)) = st_clean (status (entry cc i))"
  "st_writeback (status (entry (treepass_set_clock_accessed cc e) i)) = st_writeback (status (entry cc i))"
  "st_loading (status (entry (treepass_set_clock_accessed cc e) i)) = st_loading (status (entry cc i))"
  "disk (treepass_set_clock_accessed cc e) = disk cc"
  "reap (treepass_set_clock_accessed cc e) = reap cc"
  by (auto simp: treepass_set_clock_accessed_def flag_simps)

lemma try_get_claim_snd: "snd (treepass_try_get_claim cc e) = snd (treepass_set_flag cc e TP_CLAIMED)"
  by (simp add: treepass_try_get_claim_def case_prod_beta Let_def)

lemma pres_try_get_claim [inv_intros]:
  assumes "tp_wf cc" and "e < page_capacity (cfg cc)" and "\<not> st_free (status (entry cc e))"
  shows "tp_pres cc (snd (treepass_try_get_claim cc e))"
  using pres_lock_flags(1) [OF assms] by (simp add: try_get_claim_snd)

lemma pres_try_get_write [inv_intros]:
  assumes wf: "tp_wf cc" and e: "e < page_capacity (cfg cc)" and nf: "\<not> st_free (status (entry cc e))"
    and a: "disk_addr (entry cc e) \<noteq> TP_UNMAPPED_ADDR"
  shows "tp_pres cc (snd (treepass_try_get_write cc tid e))"
proof -
  let ?c1 = "snd (treepass_set_flag cc e TP_WRITELOCKED)"
  have s: "tp_pres cc ?c1" by (rule pres_lock_flags(2) [OF wf e nf])
  have "tp_pres ?c1 (snd (treepass_clear_flag ?c1 e TP_WRITELOCKED))"
    using nf e a by (intro pres_lock_flags(4) tp_pres_wf [OF s]) (simp_all add: flag_ops flag_simps)
  with s show ?thesis
    by (auto simp: treepass_try_get_write_def Let_def intro: tp_pres_trans)
qed

lemma pres_inherit_clock:
  assumes wf: "tp_wf cc"
  shows "tp_pres cc (treepass_inherit_clock cc old_addr new_addr divisor)"
proof (cases "treepass_lookup cc new_addr = TP_UNMAPPED_ENTRY")
  case True
  then show ?thesis using wf by (simp add: treepass_inherit_clock_def Let_def tp_pres_refl)
next
  case False
  let ?e = "treepass_lookup cc new_addr"
  note l = tp_wf_lookupD [OF wf False]
  have c: "tp_pres cc (treepass_set_clock cc ?e v)" for v
    by (rule pres_set_clock [OF wf l(1,2)])
  have "tp_pres (treepass_set_clock cc ?e v)
      (upd_entry (treepass_set_clock cc ?e v) ?e (entry_time_update g))" for v g
    using l by (intro pres_entry_time tp_pres_wf [OF c])
      (simp_all add: treepass_set_clock_def Let_def flag_simps)
  with c False show ?thesis
    by (auto simp: treepass_inherit_clock_def Let_def intro: tp_pres_trans)
qed

section \<open>Marking pages for writeback\<close>

lemma status_update_same: "x\<lparr>status := f (status x)\<rparr> = status_update f x"
  by (cases x) simp

lemma try_set_writeback_cases:
  assumes "treepass_try_set_writeback cc e np = Inr (b, cc')"
  shows "(b \<and> cc' = upd_entry cc e (status_update (\<lambda>s. s OR TP_WRITEBACK)) \<and>
          status (entry cc e) AND TP_CLEANABLE_BASE_MASK = 0 \<and>
          status_clock (status (entry cc e)) \<le> np) \<or> (\<not> b \<and> cc' = cc)"
  using assms
  by (auto simp: treepass_try_set_writeback_def Let_def upd_entry_def
      status_update_same [where f = "\<lambda>s. s OR TP_WRITEBACK", symmetric] split: if_splits)

lemma pres_try_set_writeback [inv_intros]:
  assumes wf: "tp_wf cc" and e: "e < page_capacity (cfg cc)"
    and ret: "treepass_try_set_writeback cc e np = Inr (b, cc')"
  shows "tp_pres cc cc'"
  using try_set_writeback_cases [OF ret]
proof (elim disjE conjE)
  assume cc': "cc' = upd_entry cc e (status_update (\<lambda>s. s OR TP_WRITEBACK))"
    and mask: "status (entry cc e) AND TP_CLEANABLE_BASE_MASK = 0"
  then have "e \<notin> inflight_entries cc"
    by (intro not_inflight [OF wf]) (simp_all add: flag_simps)
  with wf e mask tp_wf_entryD(8) [OF wf e] show ?thesis
    unfolding cc' by (intro tp_pres_entry) (simp_all add: flag_simps)
qed (simp add: wf tp_pres_refl)

text \<open>
  Asynchronous I/O is invisible to the callers of the cache: a completed write makes its
  pages clean because the device now holds what the pages hold, a completed read fills its
  pages with what the device holds, and whatever order the completions come in, the memory
  the cache presents stays the same.
\<close>

section \<open>Completed writes\<close>

lemma pres_write_page:
  assumes wf: "tp_wf cc" and pg: "rq_page_ok IO_PWRITEV a cc e"
  shows "tp_pres cc (cc\<lparr>disk := (disk cc)(a := page_data (entry cc e))\<rparr>)" (is "tp_pres cc ?cc'")
proof -
  have e: "e < page_capacity (cfg cc)" "disk_addr (entry cc e) = a" "a \<noteq> TP_UNMAPPED_ADDR"
    "\<not> st_clean (status (entry cc e))" "\<not> st_loading (status (entry cc e))"
    using pg by (auto simp: rq_page_ok_def Let_def)
  have la: "treepass_lookup cc a = e" using tp_wf_entryD(1) [OF wf e(1)] e(2,3) by simp
  have eu: "e \<noteq> TP_UNMAPPED_ENTRY"
    using e(1) capacity_lt_unmapped [OF tp_wf_cfg [OF wf]] by simp
  have l: "treepass_lookup ?cc' = treepass_lookup cc" by (simp add: treepass_lookup_def fun_eq_iff)
  have "tp_entry_ok ?cc' i" if i: "i < page_capacity (cfg cc)" for i
  proof (cases "disk_addr (entry cc i) = a")
    case True
    then have "i = e" using tp_wf_addr_inj [OF wf i e(1)] e by simp
    then show ?thesis using tp_wf_entryD [OF wf i] e l by (auto simp: tp_entry_ok_def Let_def)
  next
    case False
    then show ?thesis using tp_wf_entryD [OF wf i] l by (auto simp: tp_entry_ok_def Let_def)
  qed
  moreover have "tp_map_ok ?cc'" using wf by (simp add: tp_wf_def tp_map_ok_def)
  moreover have "tp_inflight_ok ?cc'"
  proof (rule tp_inflight_ok_cong)
    show "tp_inflight_ok cc" using wf by (simp add: tp_wf_def)
  qed (simp_all add: rq_page_ok_def)
  moreover have "page_view ?cc' b = page_view cc b" for b
    using la e eu by (auto simp: page_view_def l Let_def)
  ultimately show ?thesis using wf by (simp add: tp_pres_def tp_same_def tp_wf_def)
qed

lemma io_write_pages_frame [simp]:
  "cfg (io_write_pages a es cc) = cfg cc" "entry (io_write_pages a es cc) = entry cc"
  "inflight (io_write_pages a es cc) = inflight cc" "reap (io_write_pages a es cc) = reap cc"
  "lookup (io_write_pages a es cc) = lookup cc"
  by (induction es arbitrary: a cc) auto

lemma rq_page_ok_frame:
  "cfg cc' = cfg cc \<Longrightarrow> entry cc' e = entry cc e \<Longrightarrow> rq_page_ok cmd b cc' e = rq_page_ok cmd b cc e"
  by (simp add: rq_page_ok_def)

lemma rq_pages_ok_frame:
  "cfg cc' = cfg cc \<Longrightarrow> entry cc' = entry cc \<Longrightarrow> rq_pages_ok cmd a es cc' = rq_pages_ok cmd a es cc"
  by (induction es arbitrary: a) (auto simp: rq_page_ok_def)

lemma pres_io_write_pages:
  assumes "tp_wf cc" and "rq_pages_ok IO_PWRITEV a es cc"
  shows "tp_pres cc (io_write_pages a es cc)"
  using assms
proof (induction es arbitrary: a cc)
  case Nil
  then show ?case by (simp add: tp_pres_refl)
next
  case (Cons e es)
  let ?c = "cc\<lparr>disk := (disk cc)(a := page_data (entry cc e))\<rparr>"
  have p: "tp_pres cc ?c" using Cons.prems by (intro pres_write_page) auto
  have "tp_pres ?c (io_write_pages (a + io_page_size (cfg cc)) es ?c)"
    using Cons.prems by (intro Cons.IH tp_pres_wf [OF p])
      (simp add: rq_pages_ok_frame [of ?c cc])
  with p show ?case by (auto intro: tp_pres_trans)
qed

text \<open>Afterwards the device holds every page of the request.\<close>

lemma io_write_pages_other:
  assumes "rq_pages_ok IO_PWRITEV a es cc" and "\<forall>i\<in>set es. disk_addr (entry cc i) \<noteq> b"
  shows "disk (io_write_pages a es cc) b = disk cc b"
  using assms
proof (induction es arbitrary: a cc)
  case (Cons e es)
  let ?c = "cc\<lparr>disk := (disk cc)(a := page_data (entry cc e))\<rparr>"
  have "disk (io_write_pages (a + io_page_size (cfg cc)) es ?c) b = disk ?c b"
    using Cons.prems by (intro Cons.IH) (simp_all add: rq_pages_ok_frame [of ?c cc])
  moreover have "b \<noteq> a" using Cons.prems by (auto simp: rq_page_ok_def Let_def)
  ultimately show ?case by simp
qed simp

lemma io_write_pages_disk:
  assumes "tp_wf cc" and "rq_pages_ok IO_PWRITEV a es cc" and "distinct es" and "e \<in> set es"
  shows "disk (io_write_pages a es cc) (disk_addr (entry cc e)) = page_data (entry cc e)"
  using assms
proof (induction es arbitrary: a cc)
  case (Cons x es)
  let ?c = "cc\<lparr>disk := (disk cc)(a := page_data (entry cc x))\<rparr>"
  have p: "tp_pres cc ?c" using Cons.prems by (intro pres_write_page) auto
  have ok: "rq_pages_ok IO_PWRITEV (a + io_page_size (cfg cc)) es ?c"
    using Cons.prems(2) by (simp add: rq_pages_ok_frame [of ?c cc])
  have xa: "disk_addr (entry cc x) = a" "x < page_capacity (cfg cc)" "a \<noteq> TP_UNMAPPED_ADDR"
    using Cons.prems(2) by (auto simp: rq_page_ok_def Let_def)
  show ?case
  proof (cases "e = x")
    case True
    have "disk_addr (entry cc i) \<noteq> a" if i: "i \<in> set es" for i
    proof
      assume "disk_addr (entry cc i) = a"
      moreover have "i < page_capacity (cfg cc)"
        using rq_pages_okD [OF ok i] by (auto simp: rq_page_ok_def)
      ultimately have "i = x" using tp_wf_addr_inj [OF Cons.prems(1), of i x] xa by auto
      with i Cons.prems(3) show False by auto
    qed
    then show ?thesis using io_write_pages_other [OF ok, of a] True xa by simp
  next
    case False
    then show ?thesis
      using Cons.IH [OF tp_pres_wf [OF p] ok] Cons.prems(3,4) by simp
  qed
qed simp

definition written_back :: "'d treepass \<Rightarrow> nat \<Rightarrow> bool" where
  "written_back cc e \<longleftrightarrow>
     (\<exists>b. rq_page_ok IO_PWRITEV b cc e) \<and> e \<notin> inflight_entries cc \<and>
     page_data (entry cc e) = disk cc (disk_addr (entry cc e))"

lemma pres_write_done:
  assumes wf: "tp_wf cc" and w: "written_back cc e"
  shows "tp_pres cc (snd (treepass_clear_flag (snd (treepass_set_flag cc e TP_CLEAN)) e TP_WRITEBACK))"
proof -
  have e: "e < page_capacity (cfg cc)" "\<not> st_free (status (entry cc e))"
    "\<not> st_loading (status (entry cc e))" "e \<notin> inflight_entries cc"
    "page_data (entry cc e) = disk cc (disk_addr (entry cc e))"
    "disk_addr (entry cc e) \<noteq> TP_UNMAPPED_ADDR"
    using w by (auto simp: written_back_def rq_page_ok_def Let_def)
  let ?c1 = "snd (treepass_set_flag cc e TP_CLEAN)"
  have p1: "tp_pres cc ?c1"
    using wf e by (auto intro!: tp_pres_entry simp: flag_ops flag_simps)
  have "tp_pres ?c1 (snd (treepass_clear_flag ?c1 e TP_WRITEBACK))"
    unfolding flag_ops(2) using tp_pres_wf [OF p1] e
    by (intro tp_pres_entry) (auto simp: flag_ops flag_simps)
  with p1 show ?thesis by (rule tp_pres_trans)
qed

lemma pres_write_callback_page:
  assumes wf: "tp_wf cc" and w: "written_back cc e"
  shows "tp_pres cc (write_callback_page np e cc)"
proof -
  have e: "e < page_capacity (cfg cc)" "\<not> st_free (status (entry cc e))"
    using w by (auto simp: written_back_def rq_page_ok_def Let_def)
  note p = pres_write_done [OF wf w]
  let ?c2 = "snd (treepass_clear_flag (snd (treepass_set_flag cc e TP_CLEAN)) e TP_WRITEBACK)"
  have "tp_pres ?c2 (treepass_set_clock ?c2 e 0)"
    using e by (intro pres_set_clock tp_pres_wf [OF p]) (auto simp: flag_ops flag_simps)
  with p show ?thesis
    by (auto simp: write_callback_page_def Let_def intro: tp_pres_trans)
qed

lemma write_callback_page_frame [simp]:
  "cfg (write_callback_page np e cc) = cfg cc" "disk (write_callback_page np e cc) = disk cc"
  "inflight_entries (write_callback_page np e cc) = inflight_entries cc"
  "i \<noteq> e \<Longrightarrow> entry (write_callback_page np e cc) i = entry cc i"
  "reap (write_callback_page np e cc) = reap cc"
  by (simp_all add: write_callback_page_def Let_def flag_ops treepass_set_clock_def)

lemma written_back_frame:
  assumes "written_back cc i" and "cfg cc' = cfg cc" and "entry cc' i = entry cc i"
    and "disk cc' = disk cc" and "inflight_entries cc' = inflight_entries cc"
  shows "written_back cc' i"
  using assms by (auto simp: written_back_def rq_page_ok_frame [of cc' cc])

lemma pres_write_callback_pages:
  assumes "tp_wf cc" and "distinct es" and "\<forall>e\<in>set es. written_back cc e"
  shows "tp_pres cc (fold (write_callback_page np) es cc)"
  using assms
proof (induction es arbitrary: cc)
  case Nil
  then show ?case by (simp add: tp_pres_refl)
next
  case (Cons e es)
  let ?c = "write_callback_page np e cc"
  have p: "tp_pres cc ?c" using Cons.prems by (intro pres_write_callback_page) auto
  have "written_back ?c i" if i: "i \<in> set es" for i
  proof -
    have "i \<noteq> e" using Cons.prems(2) i by auto
    then show ?thesis using Cons.prems(3) i by (intro written_back_frame [of cc i ?c]) simp_all
  qed
  then have "tp_pres ?c (fold (write_callback_page np) es ?c)"
    using Cons.prems by (intro Cons.IH tp_pres_wf [OF p]) auto
  with p show ?case by (auto intro: tp_pres_trans)
qed

section \<open>Completed reads\<close>

definition read_in :: "'d treepass \<Rightarrow> nat \<Rightarrow> bool" where
  "read_in cc e \<longleftrightarrow>
     (\<exists>b. rq_page_ok IO_PREADV b cc e) \<and> e \<notin> inflight_entries cc \<and>
     page_data (entry cc e) = disk cc (disk_addr (entry cc e))"

lemma pres_read_page:
  assumes wf: "tp_wf cc" and pg: "rq_page_ok IO_PREADV a cc e"
  shows "tp_pres cc (upd_entry cc e (page_data_update (\<lambda>_. d)))"
  using pg by (intro tp_pres_entry [OF wf]) (auto simp: rq_page_ok_def Let_def)

lemma rq_page_ok_data [simp]:
  "rq_page_ok cmd b (upd_entry cc e (page_data_update f)) i = rq_page_ok cmd b cc i"
  by (cases cmd) (auto simp: rq_page_ok_def Let_def)

lemma rq_pages_ok_data [simp]:
  "rq_pages_ok cmd a es (upd_entry cc e (page_data_update f)) = rq_pages_ok cmd a es cc"
  by (induction es arbitrary: a) simp_all

lemma io_read_pages_frame [simp]:
  "cfg (io_read_pages a es cc) = cfg cc" "disk (io_read_pages a es cc) = disk cc"
  "inflight (io_read_pages a es cc) = inflight cc" "reap (io_read_pages a es cc) = reap cc"
  "inflight_entries (io_read_pages a es cc) = inflight_entries cc"
  "disk_addr (entry (io_read_pages a es cc) i) = disk_addr (entry cc i)"
  "status (entry (io_read_pages a es cc) i) = status (entry cc i)"
  "rq_page_ok cmd b (io_read_pages a es cc) i = rq_page_ok cmd b cc i"
  by (induction es arbitrary: a cc) auto

lemma pres_io_read_pages:
  assumes "tp_wf cc" and "rq_pages_ok IO_PREADV a es cc"
  shows "tp_pres cc (io_read_pages a es cc)"
  using assms
proof (induction es arbitrary: a cc)
  case Nil
  then show ?case by (simp add: tp_pres_refl)
next
  case (Cons e es)
  let ?c = "upd_entry cc e (page_data_update (\<lambda>_. disk cc a))"
  have p: "tp_pres cc ?c" using Cons.prems by (intro pres_read_page) auto
  have "tp_pres ?c (io_read_pages (a + io_page_size (cfg cc)) es ?c)"
    using Cons.prems by (intro Cons.IH tp_pres_wf [OF p]) simp
  with p show ?case by (auto intro: tp_pres_trans)
qed

lemma io_read_pages_keep:
  assumes "page_data (entry cc e) = disk cc (disk_addr (entry cc e))"
    and "rq_pages_ok IO_PREADV a es cc"
  shows "page_data (entry (io_read_pages a es cc) e) = disk cc (disk_addr (entry cc e))"
  using assms
proof (induction es arbitrary: a cc)
  case (Cons x es)
  let ?c = "upd_entry cc x (page_data_update (\<lambda>_. disk cc a))"
  have "page_data (entry (io_read_pages (a + io_page_size (cfg cc)) es ?c) e)
      = disk ?c (disk_addr (entry ?c e))"
    using Cons.prems by (intro Cons.IH) (auto simp: rq_page_ok_def Let_def)
  then show ?case by (simp split: if_splits)
qed simp

lemma io_read_pages_data:
  assumes "rq_pages_ok IO_PREADV a es cc" and "e \<in> set es"
  shows "page_data (entry (io_read_pages a es cc) e) = disk cc (disk_addr (entry cc e))"
  using assms
proof (induction es arbitrary: a cc)
  case (Cons x es)
  let ?c = "upd_entry cc x (page_data_update (\<lambda>_. disk cc a))"
  have ok: "rq_pages_ok IO_PREADV (a + io_page_size (cfg cc)) es ?c" using Cons.prems(1) by simp
  show ?case
  proof (cases "e \<in> set es")
    case True
    then show ?thesis using Cons.IH [OF ok] by (simp split: if_splits)
  next
    case False
    then have "page_data (entry ?c e) = disk ?c (disk_addr (entry ?c e))"
      using Cons.prems by (auto simp: rq_page_ok_def Let_def)
    then show ?thesis using io_read_pages_keep [OF _ ok] by (simp split: if_splits)
  qed
qed simp

lemma finish_load_upd:
  "treepass_finish_load e cc =
     upd_entry cc e (\<lambda>x. status_update (\<lambda>s. s AND NOT TP_LOADING) x\<lparr>waiters := []\<rparr>)"
  by (simp add: treepass_finish_load_def Let_def flag_ops upd_entry_def)

lemma pres_finish_load:
  assumes wf: "tp_wf cc" and r: "read_in cc e"
  shows "tp_pres cc (treepass_finish_load e cc)"
  using r unfolding finish_load_upd
  by (intro tp_pres_entry [OF wf]) (auto simp: read_in_def rq_page_ok_def Let_def flag_simps)

lemma finish_load_frame [simp]:
  "cfg (treepass_finish_load e cc) = cfg cc" "disk (treepass_finish_load e cc) = disk cc"
  "inflight_entries (treepass_finish_load e cc) = inflight_entries cc"
  "i \<noteq> e \<Longrightarrow> entry (treepass_finish_load e cc) i = entry cc i"
  "reap (treepass_finish_load e cc) = reap cc"
  "treepass_lookup (treepass_finish_load e cc) = treepass_lookup cc"
  by (simp_all add: finish_load_upd)

lemma read_in_frame:
  assumes "read_in cc i" and "cfg cc' = cfg cc" and "entry cc' i = entry cc i"
    and "disk cc' = disk cc" and "inflight_entries cc' = inflight_entries cc"
  shows "read_in cc' i"
  using assms by (auto simp: read_in_def rq_page_ok_frame [of cc' cc])

lemma pres_finish_loads:
  assumes "tp_wf cc" and "distinct es" and "\<forall>e\<in>set es. read_in cc e"
  shows "tp_pres cc (fold treepass_finish_load es cc)"
  using assms
proof (induction es arbitrary: cc)
  case Nil
  then show ?case by (simp add: tp_pres_refl)
next
  case (Cons e es)
  let ?c = "treepass_finish_load e cc"
  have p: "tp_pres cc ?c" using Cons.prems by (intro pres_finish_load) auto
  have "read_in ?c i" if i: "i \<in> set es" for i
  proof -
    have "i \<noteq> e" using Cons.prems(2) i by auto
    then show ?thesis using Cons.prems(3) i by (intro read_in_frame [of cc i ?c]) simp_all
  qed
  then have "tp_pres ?c (fold treepass_finish_load es ?c)"
    using Cons.prems by (intro Cons.IH tp_pres_wf [OF p]) auto
  with p show ?case by (auto intro: tp_pres_trans)
qed

end
