(* ===== verification/TpWritebackPres.thy ===== *)
theory TpWritebackPres
  imports TpPreserve
begin

text \<open>
  Completions, waiting, and the start of writeback keep the invariant. The heart is the
  construction of a write request: the pages between the two ends of the walk are exactly
  consecutive, all marked, in no other request, and as many as the C code computes by
  dividing the address range by the page size.
\<close>

section \<open>Requests\<close>

lemma inflight_remove:
  assumes wf: "tp_wf cc" and i: "i < length (inflight cc)"
    and c1: "cc1 = cc\<lparr>inflight := take i (inflight cc) @ drop (Suc i) (inflight cc)\<rparr>"
    and rq: "rq = inflight cc ! i"
  shows "tp_pres cc cc1" and "rq_pages_ok (rq_cmd rq) (rq_addr rq) (rq_iovec rq) cc1"
    and "distinct (rq_iovec rq)" and "set (rq_iovec rq) \<inter> inflight_entries cc1 = {}"
proof -
  obtain xs ys where split: "inflight cc = xs @ rq # ys" and inf1: "inflight cc1 = xs @ ys"
    using id_take_nth_drop [OF i] rq c1 by auto
  have infl: "tp_inflight_ok cc" using wf by (simp add: tp_wf_def)
  have ok: "rq_pages_ok cmd a es cc1 = rq_pages_ok cmd a es cc" for cmd a es
    using c1 by (intro rq_pages_ok_frame) simp_all
  have l: "treepass_lookup cc1 = treepass_lookup cc"
    using c1 by (simp add: treepass_lookup_def fun_eq_iff)
  have "tp_inflight_ok cc1"
    using infl by (auto simp: tp_inflight_ok_def ok inf1 split)
  then show "tp_pres cc cc1"
    using wf l c1 by (simp add: tp_pres_def tp_same_def tp_wf_def tp_map_ok_def tp_entry_ok_def
        page_view_def Let_def)
  show "rq_pages_ok (rq_cmd rq) (rq_addr rq) (rq_iovec rq) cc1"
    using infl by (auto simp: tp_inflight_ok_def ok split)
  show "distinct (rq_iovec rq)" and "set (rq_iovec rq) \<inter> inflight_entries cc1 = {}"
    using infl by (auto simp: tp_inflight_ok_def split inf1 inflight_entries_def)
qed

lemma pres_io_submit:
  assumes wf: "tp_wf cc" and ok: "rq_pages_ok (rq_cmd rq) (rq_addr rq) (rq_iovec rq) cc"
    and d: "distinct (rq_iovec rq)" and fresh: "set (rq_iovec rq) \<inter> inflight_entries cc = {}"
  shows "tp_pres cc (io_submit rq cc)"
proof -
  let ?c = "io_submit rq cc"
  have f: "rq_pages_ok cmd a es ?c = rq_pages_ok cmd a es cc" for cmd a es
    by (intro rq_pages_ok_frame) (simp_all add: io_submit_def)
  have l: "treepass_lookup ?c = treepass_lookup cc"
    by (simp add: io_submit_def treepass_lookup_def fun_eq_iff)
  have "tp_inflight_ok ?c"
    using wf ok d fresh f
    by (auto simp: tp_wf_def tp_inflight_ok_def io_submit_def inflight_entries_def)
  then show ?thesis
    using wf l by (simp add: tp_pres_def tp_same_def tp_wf_def tp_map_ok_def tp_entry_ok_def
        page_view_def Let_def) (simp add: io_submit_def)
qed

section \<open>Completions and waiting\<close>

lemma pres_io_complete:
  assumes wf: "tp_wf cc" and ok: "rq_pages_ok (rq_cmd rq) (rq_addr rq) (rq_iovec rq) cc"
    and d: "distinct (rq_iovec rq)" and fresh: "set (rq_iovec rq) \<inter> inflight_entries cc = {}"
    and ret: "io_complete rq b cc = Inr cc'"
  shows "tp_pres cc cc'"
proof (cases "rq_cmd rq")
  case IO_PWRITEV
  let ?c = "io_write_pages (rq_addr rq) (rq_iovec rq) cc"
  let ?d = "fold (write_callback_page (rq_num_passes rq)) (rq_iovec rq) ?c"
  have okw: "rq_pages_ok IO_PWRITEV (rq_addr rq) (rq_iovec rq) cc" using ok IO_PWRITEV by simp
  have p: "tp_pres cc ?c" by (rule pres_io_write_pages [OF wf okw])
  have "written_back ?c e" if "e \<in> set (rq_iovec rq)" for e
    using rq_pages_okD [OF okw that] fresh that io_write_pages_disk [OF wf okw d that]
    by (auto simp: written_back_def rq_page_ok_frame [of ?c cc] inflight_entries_def)
  then have q: "tp_pres ?c ?d"
    by (intro pres_write_callback_pages tp_pres_wf [OF p] d) blast
  have "tp_pres ?d cc'"
    using ret IO_PWRITEV pres_fields(5) [OF tp_pres_wf [OF q]] tp_pres_refl [OF tp_pres_wf [OF q]]
    by (auto simp: io_complete_def treepass_write_callback_def Let_def
        split: if_splits option.splits)
  with p q show ?thesis by (blast intro: tp_pres_trans)
next
  case IO_PREADV
  let ?c = "io_read_pages (rq_addr rq) (rq_iovec rq) cc"
  have okr: "rq_pages_ok IO_PREADV (rq_addr rq) (rq_iovec rq) cc" using ok IO_PREADV by simp
  have p: "tp_pres cc ?c" by (rule pres_io_read_pages [OF wf okr])
  have "read_in ?c e" if "e \<in> set (rq_iovec rq)" for e
    using rq_pages_okD [OF okr that] fresh that io_read_pages_data [OF okr that]
    by (auto simp: read_in_def)
  then have "tp_pres ?c (fold treepass_finish_load (rq_iovec rq) ?c)"
    by (intro pres_finish_loads tp_pres_wf [OF p] d) blast
  then have "tp_pres ?c cc'"
    using ret IO_PREADV
    by (auto simp: io_complete_def treepass_prefetch_callback_def Let_def split: if_splits)
  with p show ?thesis by (rule tp_pres_trans)
qed

lemma pres_io_reap:
  assumes wf: "tp_wf cc" and ret: "io_reap ev cc = Inr cc'"
  shows "tp_pres cc cc'"
proof (cases "fst ev < length (inflight cc)")
  case True
  note r = inflight_remove [OF wf True refl refl]
  have "tp_pres (cc\<lparr>inflight := take (fst ev) (inflight cc) @ drop (Suc (fst ev)) (inflight cc)\<rparr>) cc'"
    using ret True by (intro pres_io_complete [OF tp_pres_wf [OF r(1)] r(2,3,4)])
      (simp_all add: io_reap_def Let_def)
  with r(1) show ?thesis by (rule tp_pres_trans)
next
  case False
  then show ?thesis using ret wf by (simp add: io_reap_def Let_def tp_pres_refl)
qed

lemma pres_treepass_wait [inv_intros]:
  assumes wf: "tp_wf cc" and ret: "treepass_wait cc = Inr cc'"
  shows "tp_pres cc cc'"
proof (cases "reap cc")
  case Nil
  then show ?thesis using ret wf by (simp add: treepass_wait_def tp_pres_refl)
next
  case (Cons ev evs)
  have p: "tp_pres cc (cc\<lparr>reap := evs\<rparr>)" by (rule pres_fields(4) [OF wf])
  have "tp_pres (cc\<lparr>reap := evs\<rparr>) cc'"
    using ret Cons by (intro pres_io_reap [OF tp_pres_wf [OF p]]) (simp add: treepass_wait_def)
  with p show ?thesis by (rule tp_pres_trans)
qed

lemma wait_while_on_pres:
  assumes "tp_wf cc" and "wait_while_on p evs cc = Inr cc'"
  shows "tp_pres cc cc' \<and> \<not> p cc'"
  using assms
proof (induction evs arbitrary: cc)
  case Nil
  then show ?case by (auto split: if_splits intro: tp_pres_refl)
next
  case (Cons ev evs)
  show ?case
  proof (cases "p cc")
    case True
    have q: "tp_pres cc (cc\<lparr>reap := evs\<rparr>)" by (rule pres_fields(4) [OF Cons.prems(1)])
    from True Cons.prems(2) obtain cc1 where
      r: "io_reap ev (cc\<lparr>reap := evs\<rparr>) = Inr cc1" and w: "wait_while_on p evs cc1 = Inr cc'"
      by (auto elim: obind_InrE)
    have s: "tp_pres (cc\<lparr>reap := evs\<rparr>) cc1" by (rule pres_io_reap [OF tp_pres_wf [OF q] r])
    from Cons.IH [OF tp_pres_wf [OF s] w] q s show ?thesis by (blast intro: tp_pres_trans)
  qed (use Cons.prems in \<open>auto intro: tp_pres_refl\<close>)
qed

lemma pres_wait_while [inv_intros]:
  "tp_wf cc \<Longrightarrow> wait_while p cc = Inr cc' \<Longrightarrow> tp_pres cc cc'"
  by (simp add: wait_while_def wait_while_on_pres)

lemma wait_while_done: "tp_wf cc \<Longrightarrow> wait_while p cc = Inr cc' \<Longrightarrow> \<not> p cc'"
  by (simp add: wait_while_def wait_while_on_pres)

lemma pres_io_wait_all [inv_intros]: "tp_wf cc \<Longrightarrow> io_wait_all cc = Inr cc' \<Longrightarrow> tp_pres cc cc'"
  unfolding io_wait_all_def by (rule pres_wait_while)

section \<open>Aligned addresses\<close>

lemma page_aligned_take: "page_aligned c a \<longleftrightarrow> take_bit (log_page_size c) a = 0"
  unfolding page_aligned_def by (metis add_cancel_left_right bits_ident)

lemma page_aligned_dvd: "page_aligned c a \<longleftrightarrow> 2 ^ log_page_size c dvd uint a"
proof -
  have "take_bit n a = 0 \<longleftrightarrow> take_bit n (uint a) = 0" for n
    by (metis unsigned_take_bit_eq unsigned_0 word_uint_eq_iff)
  then show ?thesis
    by (simp add: page_aligned_take take_bit_eq_0_iff)
qed

lemma aligned_add:
  assumes c: "tp_cfg_wf c" and "page_aligned c a" and "page_aligned c b"
  shows "page_aligned c (a + b)"
proof -
  have d: "(2::int) ^ log_page_size c dvd 2 ^ 64"
    using c by (intro le_imp_power_dvd) (simp add: tp_cfg_wf_def)
  have "2 ^ log_page_size c dvd uint a + uint b" using assms by (simp add: page_aligned_dvd)
  then show ?thesis using d by (simp add: page_aligned_dvd uint_word_ariths dvd_mod)
qed

lemma aligned_page_size: "tp_cfg_wf c \<Longrightarrow> page_aligned c (io_page_size c)"
  by (simp add: page_aligned_take tp_cfg_wf_def take_bit_push_bit del: push_bit_of_1)

lemma aligned_minus: "tp_cfg_wf c \<Longrightarrow> page_aligned c a \<Longrightarrow> page_aligned c (- a)"
proof -
  assume c: "tp_cfg_wf c" and a: "page_aligned c a"
  have "(2::int) ^ log_page_size c dvd 2 ^ 64"
    using c by (intro le_imp_power_dvd) (simp add: tp_cfg_wf_def)
  with a show ?thesis by (simp add: page_aligned_dvd uint_word_ariths dvd_mod)
qed

lemma aligned_mult:
  assumes c: "tp_cfg_wf c" and "page_aligned c a" shows "page_aligned c (of_nat n * a)"
proof (induction n)
  case 0
  show ?case by (simp add: page_aligned_def)
next
  case (Suc n)
  then show ?case using aligned_add [OF c assms(2) Suc] by (simp add: distrib_right)
qed

section \<open>Walking through an extent\<close>

definition marked_page :: "'d treepass \<Rightarrow> u64 \<Rightarrow> bool" where
  "marked_page cc a \<longleftrightarrow>
     (let e = treepass_lookup cc a; s = status (entry cc e)
      in page_aligned (cfg cc) a \<and> e \<noteq> TP_UNMAPPED_ENTRY \<and> e \<notin> inflight_entries cc \<and>
         st_writeback s \<and> \<not> st_free s \<and> \<not> st_clean s \<and> \<not> st_loading s)"

definition wb_set :: "'d treepass \<Rightarrow> nat set" where
  "wb_set cc = {e. e < page_capacity (cfg cc) \<and> st_writeback (status (entry cc e))}"

lemma wb_set_card: "card (wb_set cc) \<le> page_capacity (cfg cc)"
proof -
  have "card (wb_set cc) \<le> card {..<page_capacity (cfg cc)}"
    by (intro card_mono) (auto simp: wb_set_def)
  then show ?thesis by simp
qed

text \<open>The entries of \<open>S\<close>, and no others, are marked.\<close>

definition wb_marks :: "nat set \<Rightarrow> 'd treepass \<Rightarrow> 'd treepass \<Rightarrow> bool" where
  "wb_marks S cc cc' \<longleftrightarrow>
     (\<forall>i. entry cc' i =
        (if i \<in> S then status_update (\<lambda>s. s OR TP_WRITEBACK) (entry cc i) else entry cc i))"

lemma wb_marks_refl: "wb_marks {} cc cc"
  by (simp add: wb_marks_def)

lemma status_or_idem:
  "status_update (\<lambda>s. s OR f) (status_update (\<lambda>s. s OR f) x) = status_update (\<lambda>s. s OR f) x"
  by (cases x) (simp add: or.assoc)

lemma wb_marks_trans: "wb_marks S cc cc1 \<Longrightarrow> wb_marks T cc1 cc2 \<Longrightarrow> wb_marks (S \<union> T) cc cc2"
  by (auto simp: wb_marks_def status_or_idem)

lemma mark_page:
  assumes wf: "tp_wf cc" and a: "page_aligned (cfg cc) a"
    and l: "treepass_lookup cc a \<noteq> TP_UNMAPPED_ENTRY"
    and ret: "treepass_try_set_writeback cc (treepass_lookup cc a) np = Inr (True, cc')"
  shows "tp_pres cc cc'" and "marked_page cc' a" and "\<And>b. marked_page cc b \<Longrightarrow> marked_page cc' b"
    and "card (wb_set cc') = Suc (card (wb_set cc))"
    and "inflight_entries cc' = inflight_entries cc" and "treepass_lookup cc' = treepass_lookup cc"
    and "wb_marks {treepass_lookup cc a} cc cc'"
proof -
  let ?e = "treepass_lookup cc a"
  note lk = tp_wf_lookupD [OF wf l]
  have cc': "cc' = upd_entry cc ?e (status_update (\<lambda>s. s OR TP_WRITEBACK))"
    and m: "status (entry cc ?e) AND TP_CLEANABLE_BASE_MASK = 0"
    using try_set_writeback_cases [OF ret] by auto
  show "tp_pres cc cc'" by (rule pres_try_set_writeback [OF wf lk(1) ret])
  have ni: "?e \<notin> inflight_entries cc"
    using m by (intro not_inflight [OF wf]) (simp_all add: flag_simps)
  show "marked_page cc' a" and "\<And>b. marked_page cc b \<Longrightarrow> marked_page cc' b"
    using a l m ni by (auto simp: marked_page_def cc' Let_def flag_simps)
  have "wb_set cc' = insert ?e (wb_set cc)" and "?e \<notin> wb_set cc" and "finite (wb_set cc)"
    using m lk(1) by (auto simp: wb_set_def cc' flag_simps)
  then show "card (wb_set cc') = Suc (card (wb_set cc))" by simp
  show "inflight_entries cc' = inflight_entries cc" and "treepass_lookup cc' = treepass_lookup cc"
    by (simp_all add: cc')
  show "wb_marks {?e} cc cc'" by (simp add: wb_marks_def cc')
qed

lemma walk_step:
  assumes "writeback_walk (Suc fuel) delta addr np a cc = Inr (r, cc')"
  shows "(r = a + delta \<and> cc' = cc) \<or>
    (\<exists>cc1. treepass_lookup cc (a + delta) \<noteq> TP_UNMAPPED_ENTRY \<and>
       treepass_try_set_writeback cc (treepass_lookup cc (a + delta)) np = Inr (True, cc1) \<and>
       writeback_walk fuel delta addr np (a + delta) cc1 = Inr (r, cc'))"
  using assms
  by (auto simp: Let_def obind_eq_Inr split: if_splits dest: try_set_writeback_cases)

lemma writeback_walk_result:
  assumes "tp_wf cc" and "page_aligned (cfg cc) a" and "page_aligned (cfg cc) delta"
    and "writeback_walk fuel delta addr np a cc = Inr (r, cc')"
  shows "\<exists>n. r = a + of_nat (Suc n) * delta \<and>
    (\<forall>j\<in>{1..n}. marked_page cc' (a + of_nat j * delta)) \<and>
    (\<forall>b. marked_page cc b \<longrightarrow> marked_page cc' b) \<and>
    card (wb_set cc') = card (wb_set cc) + n \<and> tp_pres cc cc' \<and>
    inflight_entries cc' = inflight_entries cc \<and> treepass_lookup cc' = treepass_lookup cc \<and>
    wb_marks ((\<lambda>j. treepass_lookup cc (a + of_nat j * delta)) ` {1..n}) cc cc'"
  using assms
proof (induction fuel arbitrary: a cc)
  case 0
  then show ?case by simp
next
  case (Suc fuel)
  from walk_step [OF Suc.prems(4)] show ?case
  proof (elim disjE exE conjE)
    assume "r = a + delta" "cc' = cc"
    with Suc.prems(1) show ?thesis by (intro exI [of _ 0]) (simp add: tp_pres_refl wb_marks_refl)
  next
    fix cc1
    assume l: "treepass_lookup cc (a + delta) \<noteq> TP_UNMAPPED_ENTRY"
      and m: "treepass_try_set_writeback cc (treepass_lookup cc (a + delta)) np = Inr (True, cc1)"
      and w: "writeback_walk fuel delta addr np (a + delta) cc1 = Inr (r, cc')"
    have a': "page_aligned (cfg cc) (a + delta)"
      using Suc.prems by (intro aligned_add tp_wf_cfg)
    note mp = mark_page [OF Suc.prems(1) a' l m]
    note c1 = tp_pres_cfg [OF mp(1)]
    obtain n where n: "r = a + delta + of_nat (Suc n) * delta"
        "\<forall>j\<in>{1..n}. marked_page cc' (a + delta + of_nat j * delta)"
        "\<forall>b. marked_page cc1 b \<longrightarrow> marked_page cc' b"
        "card (wb_set cc') = card (wb_set cc1) + n" "tp_pres cc1 cc'"
        "inflight_entries cc' = inflight_entries cc1" "treepass_lookup cc' = treepass_lookup cc1"
        "wb_marks ((\<lambda>j. treepass_lookup cc1 (a + delta + of_nat j * delta)) ` {1..n}) cc1 cc'"
      using Suc.IH [OF tp_pres_wf [OF mp(1)], of "a + delta"] a' Suc.prems(3) w c1 by auto
    have "marked_page cc' (a + of_nat j * delta)" if "j \<in> {1..Suc n}" for j
    proof (cases j)
      case (Suc k)
      then show ?thesis
        using n(2) [rule_format, of k] n(3) mp(2) that
        by (cases "k = 0") (auto simp: algebra_simps)
    qed (use that in simp)
    moreover have "wb_marks ((\<lambda>j. treepass_lookup cc (a + of_nat j * delta)) ` {1..Suc n}) cc cc'"
    proof -
      have "{1..Suc n} = insert 1 (Suc ` {1..n})" by (auto simp: image_Suc_atLeastAtMost)
      then have "(\<lambda>j. treepass_lookup cc (a + of_nat j * delta)) ` {1..Suc n} =
          {treepass_lookup cc (a + delta)} \<union>
          (\<lambda>j. treepass_lookup cc1 (a + delta + of_nat j * delta)) ` {1..n}"
        by (simp add: mp(6) image_image algebra_simps del: image_Suc_atLeastAtMost)
      then show ?thesis using wb_marks_trans [OF mp(7) n(8)] by simp
    qed
    ultimately show ?thesis
      using n(1,3-7) mp(1-6) by (intro exI [of _ "Suc n"]) (auto simp: algebra_simps intro: tp_pres_trans)
  qed
qed

text \<open>One step more than there are entries not yet in writeback is enough fuel.\<close>

lemma writeback_walk_enough:
  assumes "tp_wf cc" and "page_aligned (cfg cc) a" and "page_aligned (cfg cc) delta"
    and "page_capacity (cfg cc) < fuel + card (wb_set cc)"
  shows "writeback_walk fuel delta addr np a cc \<noteq> Inl Blocked"
  using assms
proof (induction fuel arbitrary: a cc)
  case 0
  then show ?case using wb_set_card [of cc] by simp
next
  case (Suc fuel)
  let ?e = "treepass_lookup cc (a + delta)"
  have a': "page_aligned (cfg cc) (a + delta)"
    using Suc.prems by (intro aligned_add tp_wf_cfg)
  show ?case
  proof (cases "?e \<noteq> TP_UNMAPPED_ENTRY \<and> (\<exists>cc1. treepass_try_set_writeback cc ?e np = Inr (True, cc1))")
    case True
    then obtain cc1 where l: "?e \<noteq> TP_UNMAPPED_ENTRY"
      and m: "treepass_try_set_writeback cc ?e np = Inr (True, cc1)" by blast
    note mp = mark_page [OF Suc.prems(1) a' l m]
    have "writeback_walk fuel delta addr np (a + delta) cc1 \<noteq> Inl Blocked"
      using a' Suc.prems mp tp_pres_cfg [OF mp(1)]
      by (intro Suc.IH tp_pres_wf [OF mp(1)]) auto
    with m show ?thesis by (simp add: Let_def)
  next
    case False
    then show ?thesis
      by (auto simp: Let_def treepass_try_set_writeback_def split: if_splits)
  qed
qed

end
