(* ===== verification/TpFlush.thy ===== *)
theory TpFlush
  imports TpWritebackPres
begin

text \<open>
  Starting writeback keeps the invariant and the memory: the request a walk builds covers
  consecutive pages, one marked entry each, none of them in another request. Then the same
  for the sync of a page, of an extent, and for \<open>treepass_flush\<close>, with the proof that the fuel
  of the walks is enough.
\<close>

section \<open>A run of marked pages\<close>

lemma page_size_unat: "tp_cfg_wf c \<Longrightarrow> io_page_size c = 2 ^ log_page_size c"
  by (simp add: tp_cfg_wf_def push_bit_eq_mult)

lemma page_pow_lt: "tp_cfg_wf c \<Longrightarrow> (2::nat) ^ log_page_size c < 2 ^ 64"
  by (intro power_strict_increasing) (simp_all add: tp_cfg_wf_def)

lemma mult_page_size:
  "tp_cfg_wf c \<Longrightarrow> treepass_multiply_by_page_size c x = x * io_page_size c"
  by (simp add: treepass_multiply_by_page_size_def push_bit_eq_mult page_size_unat)

lemma unat_mult_pages:
  assumes c: "tp_cfg_wf c" and n: "n * 2 ^ log_page_size c < 2 ^ 64"
  shows "unat (of_nat n * io_page_size c) = n * 2 ^ log_page_size c"
proof -
  have "of_nat n * io_page_size c = (of_nat (n * 2 ^ log_page_size c) :: u64)"
    by (simp add: page_size_unat [OF c])
  then show ?thesis using n by (simp only: unat_of_nat) (simp add: take_bit_nat_eq_self)
qed

lemma div_mult_pages:
  assumes c: "tp_cfg_wf c" and n: "n * 2 ^ log_page_size c < 2 ^ 64"
  shows "treepass_divide_by_page_size c (of_nat n * io_page_size c) = of_nat n"
    and "unat (of_nat n :: u64) = n"
proof -
  have le: "n \<le> n * 2 ^ log_page_size c" by simp
  with n have n64: "n < 2 ^ 64" by linarith
  then show u: "unat (of_nat n :: u64) = n" by (simp add: unat_of_nat take_bit_nat_eq_self)
  have "unat (treepass_divide_by_page_size c (of_nat n * io_page_size c)) = n"
    unfolding treepass_divide_by_page_size_def unat_drop_bit_eq unat_mult_pages [OF c n]
    by (simp add: drop_bit_eq_div)
  with u show "treepass_divide_by_page_size c (of_nat n * io_page_size c) = of_nat n"
    by (simp add: word_unat_eq_iff)
qed

lemma pages_inj:
  assumes c: "tp_cfg_wf c" and n: "n * 2 ^ log_page_size c < 2 ^ 64" and "i < n" "j < n"
    and eq: "a + of_nat i * io_page_size c = a + of_nat j * io_page_size c"
  shows "i = j"
proof -
  have lt: "k * 2 ^ log_page_size c < 2 ^ 64" if "k < n" for k
    using n that by (meson le_less_trans less_imp_le mult_le_mono1)
  have "unat (of_nat i * io_page_size c) = unat (of_nat j * io_page_size c)" using eq by simp
  then show ?thesis using unat_mult_pages [OF c lt] assms(3,4) by simp
qed

lemma rq_pages_ok_run:
  assumes "\<forall>i<n. rq_page_ok cmd (a + of_nat i * io_page_size (cfg cc)) cc (f i)"
  shows "rq_pages_ok cmd a (map f [0..<n]) cc"
  using assms
proof (induction n arbitrary: a f)
  case (Suc n)
  have "rq_pages_ok cmd (a + io_page_size (cfg cc)) (map (f \<circ> Suc) [0..<n]) cc"
  proof (rule Suc.IH, intro allI impI)
    fix i assume "i < n"
    then have "rq_page_ok cmd (a + of_nat (Suc i) * io_page_size (cfg cc)) cc (f (Suc i))"
      using Suc.prems by blast
    then show "rq_page_ok cmd (a + io_page_size (cfg cc) + of_nat i * io_page_size (cfg cc)) cc ((f \<circ> Suc) i)"
      by (simp add: algebra_simps)
  qed
  then show ?case
    using Suc.prems
    by (auto simp: map_upt_Suc comp_def simp del: upt_Suc dest: spec [of _ "0::nat"])
qed simp

lemma marked_page_ok:
  assumes "tp_wf cc" and "marked_page cc a"
  shows "rq_page_ok IO_PWRITEV a cc (treepass_lookup cc a)"
  using assms tp_wf_lookupD [OF assms(1), of a] tp_wf_lookup_addr [OF assms(1), of a]
  by (auto simp: marked_page_def rq_page_ok_def Let_def)

lemma pres_submit_run:
  assumes wf: "tp_wf cc" and n: "n * 2 ^ log_page_size (cfg cc) < 2 ^ 64"
    and m: "\<forall>i<n. marked_page cc (a + of_nat i * io_page_size (cfg cc))"
    and rq: "rq_cmd rq = IO_PWRITEV" "rq_addr rq = a"
      "rq_iovec rq = map (\<lambda>i. treepass_lookup cc (a + of_nat i * io_page_size (cfg cc))) [0..<n]"
  shows "tp_pres cc (io_submit rq cc)"
proof (rule pres_io_submit [OF wf])
  let ?p = "\<lambda>i. a + of_nat i * io_page_size (cfg cc)"
  show "rq_pages_ok (rq_cmd rq) (rq_addr rq) (rq_iovec rq) cc"
    unfolding rq using m by (intro rq_pages_ok_run) (auto intro: marked_page_ok [OF wf])
  have "disk_addr (entry cc (treepass_lookup cc (?p i))) = ?p i" if "i < n" for i
    using m that by (intro tp_wf_lookup_addr [OF wf]) (auto simp: marked_page_def Let_def)
  then have "inj_on (\<lambda>i. treepass_lookup cc (?p i)) {0..<n}"
    using pages_inj [OF tp_wf_cfg [OF wf] n] by (intro inj_onI) (metis atLeastLessThan_iff)
  then show "distinct (rq_iovec rq)" by (simp add: rq distinct_map)
  show "set (rq_iovec rq) \<inter> inflight_entries cc = {}"
    using m by (auto simp: rq marked_page_def Let_def)
qed

section \<open>Writeback of one entry and of a batch\<close>

lemma marked_entry:
  assumes wf: "tp_wf cc" and e: "e < page_capacity (cfg cc)"
    and ret: "treepass_try_set_writeback cc e np = Inr (True, cc')"
  shows "disk_addr (entry cc e) \<noteq> TP_UNMAPPED_ADDR"
    and "treepass_lookup cc (disk_addr (entry cc e)) = e"
    and "page_aligned (cfg cc) (disk_addr (entry cc e))"
    and "e \<noteq> TP_UNMAPPED_ENTRY"
proof -
  have "status (entry cc e) AND TP_CLEANABLE_BASE_MASK = 0"
    using try_set_writeback_cases [OF ret] by auto
  then show a: "disk_addr (entry cc e) \<noteq> TP_UNMAPPED_ADDR"
    using tp_wf_entryD(8) [OF wf e] by (auto simp: flag_simps)
  show "treepass_lookup cc (disk_addr (entry cc e)) = e" by (rule tp_wf_entryD(1) [OF wf e a])
  show "page_aligned (cfg cc) (disk_addr (entry cc e))" by (rule tp_wf_mapped_aligned [OF wf e a])
  show "e \<noteq> TP_UNMAPPED_ENTRY" using e capacity_lt_unmapped [OF tp_wf_cfg [OF wf]] by simp
qed

text \<open>The two walks leave a run of marked pages around \<open>addr\<close>.\<close>

lemma two_walks:
  assumes wf: "tp_wf cc" and m: "marked_page cc addr"
    and down: "writeback_walk fuel (- io_page_size (cfg cc)) addr np addr cc = Inr (below, cc2)"
    and up: "writeback_walk fuel (io_page_size (cfg cc)) addr np addr cc2 = Inr (end, cc3)"
  shows "\<exists>n S. tp_pres cc cc3 \<and> n * 2 ^ log_page_size (cfg cc) < 2 ^ 64 \<and>
    end - (below + io_page_size (cfg cc)) = of_nat n * io_page_size (cfg cc) \<and>
    (\<forall>i<n. marked_page cc3 (below + io_page_size (cfg cc) + of_nat i * io_page_size (cfg cc))) \<and>
    wb_marks S cc cc3 \<and> insert (treepass_lookup cc addr) S \<subseteq>
       (\<lambda>i. treepass_lookup cc3 (below + io_page_size (cfg cc) + of_nat i * io_page_size (cfg cc))) ` {..<n} \<and>
    inflight_entries cc3 = inflight_entries cc \<and> treepass_lookup cc3 = treepass_lookup cc"
proof -
  let ?ps = "io_page_size (cfg cc)"
  have al: "page_aligned (cfg cc) addr" using m by (simp add: marked_page_def Let_def)
  note c = tp_wf_cfg [OF wf]
  obtain k where k: "below = addr + of_nat (Suc k) * (- ?ps)"
      "\<forall>j\<in>{1..k}. marked_page cc2 (addr + of_nat j * (- ?ps))"
      "\<forall>b. marked_page cc b \<longrightarrow> marked_page cc2 b"
      "card (wb_set cc2) = card (wb_set cc) + k" "tp_pres cc cc2"
      "inflight_entries cc2 = inflight_entries cc" "treepass_lookup cc2 = treepass_lookup cc"
      "wb_marks ((\<lambda>j. treepass_lookup cc (addr + of_nat j * (- ?ps))) ` {1..k}) cc cc2"
    using writeback_walk_result [OF wf al aligned_minus [OF c aligned_page_size [OF c]] down]
    by blast
  note c2 = tp_pres_cfg [OF k(5)]
  obtain l where l: "end = addr + of_nat (Suc l) * ?ps"
      "\<forall>j\<in>{1..l}. marked_page cc3 (addr + of_nat j * ?ps)"
      "\<forall>b. marked_page cc2 b \<longrightarrow> marked_page cc3 b"
      "card (wb_set cc3) = card (wb_set cc2) + l" "tp_pres cc2 cc3"
      "inflight_entries cc3 = inflight_entries cc2" "treepass_lookup cc3 = treepass_lookup cc2"
      "wb_marks ((\<lambda>j. treepass_lookup cc2 (addr + of_nat j * ?ps)) ` {1..l}) cc2 cc3"
    using writeback_walk_result [OF tp_pres_wf [OF k(5)] _ _ up] al aligned_page_size [OF c] c2
    by auto
  have p: "tp_pres cc cc3" using k(5) l(5) by (rule tp_pres_trans)
  have "treepass_lookup cc addr \<in> wb_set cc"
    using m tp_wf_lookupD(1) [OF wf] by (auto simp: wb_set_def marked_page_def Let_def)
  moreover have "finite (wb_set cc)" by (simp add: wb_set_def)
  ultimately have "0 < card (wb_set cc)" by (auto simp: card_gt_0_iff)
  then have "k + l + 1 \<le> page_capacity (cfg cc)"
    using wb_set_card [of cc3] tp_pres_cfg [OF p] k(4) l(4) by simp
  then have "(k + l + 1) * 2 ^ log_page_size (cfg cc) \<le> page_capacity (cfg cc) * 2 ^ log_page_size (cfg cc)"
    by (rule mult_le_mono1)
  moreover have "page_capacity (cfg cc) * 2 ^ log_page_size (cfg cc) < 2 ^ 64"
    using c unfolding tp_cfg_wf_def by blast
  ultimately have n: "(k + l + 1) * 2 ^ log_page_size (cfg cc) < 2 ^ 64" by linarith
  have dn: "marked_page cc3 (addr + of_nat j * (- ?ps))" if "j \<in> {1..k}" for j
    using k(2) l(3) that by blast
  have up: "marked_page cc3 (addr + of_nat j * ?ps)" if "j \<le> l" for j
    using l(2,3) k(3) m that by (cases "j = 0") auto
  have "marked_page cc3 (below + ?ps + of_nat i * ?ps)" if i: "i < k + l + 1" for i
  proof (cases "i < k")
    case True
    then have "marked_page cc3 (addr + of_nat (k - i) * (- ?ps))" by (intro dn) auto
    moreover have "below + ?ps + of_nat i * ?ps = addr + of_nat (k - i) * (- ?ps)"
      using True by (simp add: k(1) of_nat_diff algebra_simps)
    ultimately show ?thesis by simp
  next
    case False
    then have "marked_page cc3 (addr + of_nat (i - k) * ?ps)"
      using i by (intro up) auto
    moreover have "below + ?ps + of_nat i * ?ps = addr + of_nat (i - k) * ?ps"
      using False by (simp add: k(1) of_nat_diff algebra_simps)
    ultimately show ?thesis by simp
  qed
  moreover have "end - (below + ?ps) = of_nat (k + l + 1) * ?ps"
    by (simp add: k(1) l(1) algebra_simps)
  moreover have "\<exists>S. wb_marks S cc cc3 \<and> insert (treepass_lookup cc addr) S \<subseteq>
      (\<lambda>i. treepass_lookup cc3 (below + ?ps + of_nat i * ?ps)) ` {..<k + l + 1}"
  proof (intro exI conjI)
    let ?g = "\<lambda>i. treepass_lookup cc3 (below + ?ps + of_nat i * ?ps)"
    have l3: "treepass_lookup cc3 = treepass_lookup cc" "treepass_lookup cc2 = treepass_lookup cc"
      using k(7) l(7) by simp_all
    show "wb_marks ((\<lambda>j. treepass_lookup cc (addr + of_nat j * (- ?ps))) ` {1..k} \<union>
        (\<lambda>j. treepass_lookup cc2 (addr + of_nat j * ?ps)) ` {1..l}) cc cc3"
      by (rule wb_marks_trans [OF k(8) l(8)])
    have dn: "treepass_lookup cc (addr + of_nat j * (- ?ps)) = ?g (k - j)" if "j \<le> k" for j
      using that by (simp add: l3 k(1) of_nat_diff algebra_simps)
    have up: "treepass_lookup cc (addr + of_nat j * ?ps) = ?g (k + j)" for j
      by (simp add: l3 k(1) algebra_simps)
    have "treepass_lookup cc addr \<in> ?g ` {..<k + l + 1}"
      using up [of 0] by (intro image_eqI [of _ _ k]) simp_all
    moreover have "treepass_lookup cc (addr + of_nat j * (- ?ps)) \<in> ?g ` {..<k + l + 1}"
      if "j \<in> {1..k}" for j
      using that dn [of j] by (intro image_eqI [of _ _ "k - j"]) auto
    moreover have "treepass_lookup cc2 (addr + of_nat j * ?ps) \<in> ?g ` {..<k + l + 1}"
      if "j \<in> {1..l}" for j
      using that up [of j] l3 by (intro image_eqI [of _ _ "k + j"]) auto
    ultimately show "insert (treepass_lookup cc addr)
        ((\<lambda>j. treepass_lookup cc (addr + of_nat j * (- ?ps))) ` {1..k} \<union>
        (\<lambda>j. treepass_lookup cc2 (addr + of_nat j * ?ps)) ` {1..l}) \<subseteq> ?g ` {..<k + l + 1}"
      by blast
  qed
  ultimately show ?thesis using p n k(6,7) l(6,7) by metis
qed


declare writeback_walk.simps [simp del]

lemma pres_writeback_submit:
  assumes wf: "tp_wf cc" and n: "n * 2 ^ log_page_size (cfg cc) < 2 ^ 64"
    and m: "\<forall>i<n. marked_page cc (a + of_nat i * io_page_size (cfg cc))"
    and e: "e - a = of_nat n * io_page_size (cfg cc)"
  shows "tp_pres cc (writeback_submit tid np t a e cc)"
proof -
  note c = tp_wf_cfg [OF wf]
  have pages: "treepass_divide_by_page_size (cfg cc) (e - a) = of_nat n"
    by (simp add: e div_mult_pages(1) [OF c n])
  define cc1 where "cc1 = upd_stats cc tid (\<lambda>st.
    st\<lparr>page_writes := bump t (of_nat n) (page_writes st), writes_issued := writes_issued st + 1\<rparr>)"
  have p: "tp_pres cc cc1" unfolding cc1_def by (rule pres_upd_stats [OF wf])
  have c1: "cfg cc1 = cfg cc" by (rule tp_pres_cfg [OF p])
  have "marked_page cc1 b = marked_page cc b" for b by (simp add: marked_page_def cc1_def)
  then have "tp_pres cc1 (io_submit \<lparr>rq_cmd = IO_PWRITEV, rq_addr = a,
      rq_iovec = map (\<lambda>i. treepass_lookup cc1 (a + of_nat i * io_page_size (cfg cc1))) [0..<n],
      rq_num_passes = np, rq_outstanding = None\<rparr> cc1)"
    using n m c1 by (intro pres_submit_run [OF tp_pres_wf [OF p], of n a]) simp_all
  moreover have "writeback_submit tid np t a e cc = io_submit \<lparr>rq_cmd = IO_PWRITEV, rq_addr = a,
      rq_iovec = map (\<lambda>i. treepass_lookup cc1 (a + of_nat i * io_page_size (cfg cc1))) [0..<n],
      rq_num_passes = np, rq_outstanding = None\<rparr> cc1"
    unfolding writeback_submit_def Let_def pages div_mult_pages(2) [OF c n] cc1_def [symmetric]
    by (simp add: mult_page_size c c1)
  ultimately show ?thesis using p by (metis tp_pres_trans)
qed

lemma start_writeback_entry_cases:
  assumes "start_writeback_entry tid np e cc = Inr cc'"
  shows "cc' = cc \<and> (np > 0 \<and> np < TP_CLOCK_MAX \<and> ptype (entry cc e) \<noteq> PAGE_TYPE_BRANCH \<or>
      status (entry cc e) AND TP_CLEANABLE_BASE_MASK \<noteq> 0 \<or> status_clock (status (entry cc e)) > np) \<or>
    (\<exists>cc1 below cc2 end cc3.
    treepass_try_set_writeback cc e np = Inr (True, cc1) \<and>
    writeback_walk (Suc (page_capacity (cfg cc))) (- io_page_size (cfg cc))
      (disk_addr (entry cc e)) np (disk_addr (entry cc e)) cc1 = Inr (below, cc2) \<and>
    writeback_walk (Suc (page_capacity (cfg cc))) (io_page_size (cfg cc))
      (disk_addr (entry cc e)) np (disk_addr (entry cc e)) cc2 = Inr (end, cc3) \<and>
    cc' = writeback_submit tid np (ptype (entry cc e)) (below + io_page_size (cfg cc)) end cc3)"
  using assms
  by (auto simp: start_writeback_entry_def Let_def treepass_config_page_size_def obind_eq_Inr
      treepass_ok_to_writeback_def treepass_get_status_def treepass_try_set_writeback_def
      not_le split: if_splits)

lemma pres_start_writeback_entry [inv_intros]:
  assumes wf: "tp_wf cc" and e: "e < page_capacity (cfg cc)"
    and ret: "start_writeback_entry tid np e cc = Inr cc'"
  shows "tp_pres cc cc'"
  using start_writeback_entry_cases [OF ret]
proof (elim disjE exE conjE)
  let ?a = "disk_addr (entry cc e)" and ?ps = "io_page_size (cfg cc)"
  fix cc1 below cc2 "end" cc3
  assume m: "treepass_try_set_writeback cc e np = Inr (True, cc1)" and
    down: "writeback_walk (Suc (page_capacity (cfg cc))) (- ?ps) ?a np ?a cc1 = Inr (below, cc2)" and
    up: "writeback_walk (Suc (page_capacity (cfg cc))) ?ps ?a np ?a cc2 = Inr (end, cc3)" and
    cc': "cc' = writeback_submit tid np (ptype (entry cc e)) (below + ?ps) end cc3"
  note me = marked_entry [OF wf e m]
  note mp = mark_page [OF wf me(3), unfolded me(2), OF me(4) m]
  note c1 = tp_pres_cfg [OF mp(1)]
  obtain n where n: "tp_pres cc1 cc3" "n * 2 ^ log_page_size (cfg cc) < 2 ^ 64"
    "end - (below + ?ps) = of_nat n * ?ps"
    "\<forall>i<n. marked_page cc3 (below + ?ps + of_nat i * ?ps)"
    using two_walks [OF tp_pres_wf [OF mp(1)] mp(2) down [folded c1] up [folded c1], unfolded c1]
    by blast
  note c3 = tp_pres_cfg [OF n(1), unfolded c1]
  have "tp_pres cc3 cc'"
    unfolding cc' using n(2,3,4) c3
    by (intro pres_writeback_submit [OF tp_pres_wf [OF n(1)], of n]) simp_all
  with mp(1) n(1) show ?thesis by (blast intro: tp_pres_trans)
qed (use wf in \<open>simp_all add: tp_pres_refl\<close>)


lemma iterM_pres:
  assumes "tp_wf cc" and "iterM f xs cc = Inr cc'"
    and "\<And>x s s'. x \<in> set xs \<Longrightarrow> tp_wf s \<Longrightarrow> cfg s = cfg cc \<Longrightarrow> f x s = Inr s' \<Longrightarrow> tp_pres s s'"
  shows "tp_pres cc cc'"
proof (rule iterM_invariant [OF assms(2), of "tp_pres cc"])
  show "tp_pres cc cc" using assms(1) by (rule tp_pres_refl)
  show "tp_pres cc s'" if "x \<in> set xs" "tp_pres cc s" "f x s = Inr s'" for x s s'
    using that assms(3) [of x s s'] by (metis tp_pres_trans tp_pres_wf tp_pres_cfg)
qed

lemma batch_entry_lt:
  assumes "tp_cfg_wf c" and "b < batch_capacity c"
    and "e \<in> set [b * TP_ENTRIES_PER_BATCH..<b * TP_ENTRIES_PER_BATCH + TP_ENTRIES_PER_BATCH]"
  shows "e < page_capacity c"
proof -
  have "e < Suc b * TP_ENTRIES_PER_BATCH" using assms(3) by simp
  also have "\<dots> \<le> batch_capacity c * TP_ENTRIES_PER_BATCH"
    using assms(2) by (intro mult_le_mono1) simp
  finally show ?thesis using assms(1) by (simp add: tp_cfg_wf_def)
qed

lemma pres_batch_start_writeback [inv_intros]:
  assumes wf: "tp_wf cc" and b: "b < batch_capacity (cfg cc)"
    and ret: "treepass_batch_start_writeback cc tid b np = Inr cc'"
  shows "tp_pres cc cc'"
  using ret unfolding treepass_batch_start_writeback_def Let_def
  by (rule iterM_pres [OF wf])
    (metis pres_start_writeback_entry batch_entry_lt [OF tp_wf_cfg [OF wf] b])

text \<open>The walks have enough fuel, so starting writeback never blocks.\<close>

lemma try_set_writeback_not_Blocked: "treepass_try_set_writeback cc e np \<noteq> Inl Blocked"
  by (auto simp: treepass_try_set_writeback_def Let_def)

lemma obind_not_Blocked:
  assumes "m \<noteq> Inl Blocked" and "\<And>x. m = Inr x \<Longrightarrow> f x \<noteq> Inl Blocked"
  shows "obind m f \<noteq> Inl Blocked"
  using assms by (cases m) auto

lemma start_writeback_not_Blocked:
  assumes wf: "tp_wf cc" and e: "e < page_capacity (cfg cc)"
  shows "start_writeback_entry tid np e cc \<noteq> Inl Blocked"
proof -
  let ?a = "disk_addr (entry cc e)" and ?ps = "io_page_size (cfg cc)"
  let ?fuel = "Suc (page_capacity (cfg cc))"
  have w: "obind (writeback_walk ?fuel (- ?ps) ?a np ?a cc1) (\<lambda>(below, cc2).
      obind (writeback_walk ?fuel ?ps ?a np ?a cc2) (\<lambda>(end_addr, cc3). Inr (g below end_addr cc3)))
      \<noteq> Inl Blocked"
    if m: "treepass_try_set_writeback cc e np = Inr (True, cc1)" for cc1 g
  proof (rule obind_not_Blocked)
    note me = marked_entry [OF wf e m]
    note mp = mark_page [OF wf me(3), unfolded me(2), OF me(4) m]
    note c1 = tp_pres_cfg [OF mp(1)]
    note al = me(3) [folded c1] aligned_page_size [OF tp_wf_cfg [OF wf], folded c1]
    have wf1: "tp_wf cc1" by (rule tp_pres_wf [OF mp(1)])
    note aln = al aligned_minus [OF tp_wf_cfg [OF wf1] al(2)]
    show "writeback_walk ?fuel (- ?ps) ?a np ?a cc1 \<noteq> Inl Blocked"
      using writeback_walk_enough [OF wf1 aln(1,3)] c1 by simp
    fix x assume x: "writeback_walk ?fuel (- ?ps) ?a np ?a cc1 = Inr x"
    obtain below cc2 where xx: "x = (below, cc2)" by (cases x)
    have p2: "tp_pres cc1 cc2"
      using writeback_walk_result [OF wf1 aln(1,3) x [unfolded xx, folded c1]] by blast
    have "writeback_walk ?fuel ?ps ?a np ?a cc2 \<noteq> Inl Blocked"
      using writeback_walk_enough [OF tp_pres_wf [OF p2], of ?a ?ps ?fuel] tp_pres_cfg [OF p2]
        aln c1 by simp
    then show "(case x of (below, cc2) \<Rightarrow>
        obind (writeback_walk ?fuel ?ps ?a np ?a cc2) (\<lambda>(end_addr, cc3). Inr (g below end_addr cc3)))
        \<noteq> Inl Blocked"
      unfolding xx by (auto simp: obind_def split: sum.splits)
  qed
  show ?thesis
    unfolding start_writeback_entry_def Let_def treepass_config_page_size_def
    by (auto intro!: obind_not_Blocked [OF try_set_writeback_not_Blocked] split: if_splits dest: w)
qed

lemma iterM_not_Blocked:
  assumes "P s" and "\<And>x s. x \<in> set xs \<Longrightarrow> P s \<Longrightarrow> f x s \<noteq> Inl Blocked"
    and "\<And>x s s'. x \<in> set xs \<Longrightarrow> P s \<Longrightarrow> f x s = Inr s' \<Longrightarrow> P s'"
  shows "iterM f xs s \<noteq> Inl Blocked"
  using assms
proof (induction xs arbitrary: s)
  case (Cons x xs)
  show ?case
    unfolding iterM.simps
  proof (rule obind_not_Blocked)
    show "f x s \<noteq> Inl Blocked" using Cons.prems(1,2) by simp
    fix y assume y: "f x s = Inr y"
    have "P y" using Cons.prems(3) [of x s y] Cons.prems(1) y by simp
    then show "iterM f xs y \<noteq> Inl Blocked"
      by (rule Cons.IH) (meson Cons.prems list.set_intros(2))+
  qed
qed simp

lemma batch_writeback_not_Blocked:
  assumes wf: "tp_wf cc" and b: "b < batch_capacity (cfg cc)"
  shows "treepass_batch_start_writeback cc tid b np \<noteq> Inl Blocked"
  unfolding treepass_batch_start_writeback_def Let_def
proof (rule iterM_not_Blocked [of "tp_pres cc"])
  show "tp_pres cc cc" by (rule tp_pres_refl [OF wf])
  fix e s assume e: "e \<in> set [b * TP_ENTRIES_PER_BATCH..<b * TP_ENTRIES_PER_BATCH + TP_ENTRIES_PER_BATCH]"
    and p: "tp_pres cc s"
  have "e < page_capacity (cfg s)"
    using batch_entry_lt [OF tp_wf_cfg [OF wf] b e] tp_pres_cfg [OF p] by simp
  note es = tp_pres_wf [OF p] this
  show "start_writeback_entry tid np e s \<noteq> Inl Blocked" by (rule start_writeback_not_Blocked [OF es])
  show "tp_pres cc s'" if "start_writeback_entry tid np e s = Inr s'" for s'
    using pres_start_writeback_entry [OF es that] p by (rule tp_pres_trans [rotated])
qed

section \<open>One page, one extent, the whole cache\<close>

lemma pres_treepass_page_sync:
  assumes wf: "tp_wf cc" and e: "e < page_capacity (cfg cc)"
    and ret: "treepass_page_sync cc tid e bl t = Inr cc'"
  shows "tp_pres cc cc'"
proof -
  let ?a = "disk_addr (entry cc e)"
  from ret obtain b cc1 where m: "treepass_try_set_writeback cc e TP_CLOCK_MAX = Inr (b, cc1)"
    by (auto simp: treepass_page_sync_def Let_def elim!: obind_InrE)
  have p1: "tp_pres cc cc1" by (rule pres_try_set_writeback [OF wf e m])
  show ?thesis
  proof (cases b)
    case False
    then show ?thesis using ret m p1 by (auto simp: treepass_page_sync_def split: if_splits)
  next
    case True
    note me = marked_entry [OF wf e m [unfolded True [THEN eqTrueI]]]
    note mp = mark_page [OF wf me(3), unfolded me(2), OF me(4) m [unfolded True [THEN eqTrueI]]]
    define cc2 where "cc2 = upd_stats cc1 tid (\<lambda>st.
      st\<lparr>page_writes := bump t 1 (page_writes st), syncs_issued := syncs_issued st + 1\<rparr>)"
    have p2: "tp_pres cc1 cc2" unfolding cc2_def by (rule pres_upd_stats [OF tp_pres_wf [OF p1]])
    have mk: "marked_page cc2 ?a" and l2: "treepass_lookup cc2 ?a = e"
      and cfg2: "cfg cc2 = cfg cc"
      using mp(2,6) me(2) tp_pres_cfg [OF p1] by (simp_all add: cc2_def marked_page_def)
    note ok = marked_page_ok [OF tp_pres_wf [OF p2] mk, unfolded l2]
    have "tp_pres cc2 cc'"
    proof (cases bl)
      case False
      have n: "1 * 2 ^ log_page_size (cfg cc2) < (2 ^ 64 :: nat)"
        using page_pow_lt [OF tp_wf_cfg [OF wf]] unfolding cfg2 by simp
      have cc': "cc' = io_submit \<lparr>rq_cmd = IO_PWRITEV, rq_addr = ?a, rq_iovec = [e],
          rq_num_passes = 0, rq_outstanding = None\<rparr> cc2"
        using ret m True False by (simp add: treepass_page_sync_def Let_def cc2_def)
      show ?thesis
        unfolding cc' using mk l2 by (intro pres_submit_run [OF tp_pres_wf [OF p2] n, of ?a]) auto
    next
      case bl: True
      let ?c3 = "io_write_pages ?a [e] cc2"
      have cc': "cc' = snd (treepass_clear_flag (snd (treepass_set_flag ?c3 e TP_CLEAN)) e TP_WRITEBACK)"
        using ret m True bl
        by (auto simp: treepass_page_sync_def Let_def cc2_def [symmetric] io_write_def
            split: if_splits)
      have p3: "tp_pres cc2 ?c3"
        using ok by (intro pres_io_write_pages [OF tp_pres_wf [OF p2]]) simp
      have "written_back ?c3 e"
        using ok mk l2 by (auto simp: written_back_def rq_page_ok_def marked_page_def Let_def
            inflight_entries_def)
      then have "tp_pres ?c3 cc'" unfolding cc' by (rule pres_write_done [OF tp_pres_wf [OF p3]])
      with p3 show ?thesis by (rule tp_pres_trans)
    qed
    with p1 p2 show ?thesis by (blast intro: tp_pres_trans)
  qed
qed


definition sync_run :: "(u64 \<times> nat list) option \<Rightarrow> u64 \<Rightarrow> nat \<Rightarrow> 'd treepass \<Rightarrow> bool" where
  "sync_run st next_addr i cc \<longleftrightarrow>
     (case st of None \<Rightarrow> True
      | Some (ra, iov) \<Rightarrow> \<exists>k\<le>i.
          iov = map (\<lambda>j. treepass_lookup cc (ra + of_nat j * io_page_size (cfg cc))) [0..<k] \<and>
          next_addr = ra + of_nat k * io_page_size (cfg cc) \<and>
          (\<forall>j<k. marked_page cc (ra + of_nat j * io_page_size (cfg cc))))"

lemma pres_extent_sync_issue:
  assumes wf: "tp_wf cc" and r: "sync_run st next_addr i cc" and i: "i \<le> pages_per_extent (cfg cc)"
  shows "tp_pres cc (extent_sync_issue p st cc)"
proof (cases st)
  case None
  then show ?thesis using wf by (simp add: extent_sync_issue_def tp_pres_refl)
next
  case (Some x)
  obtain ra iov where x: "x = (ra, iov)" by (cases x)
  obtain k where k: "k \<le> i"
    "iov = map (\<lambda>j. treepass_lookup cc (ra + of_nat j * io_page_size (cfg cc))) [0..<k]"
    "\<forall>j<k. marked_page cc (ra + of_nat j * io_page_size (cfg cc))"
    using r Some x by (auto simp: sync_run_def)
  have "k * 2 ^ log_page_size (cfg cc) \<le> pages_per_extent (cfg cc) * 2 ^ log_page_size (cfg cc)"
    using k(1) i by (intro mult_le_mono1) simp
  also have "\<dots> < 2 ^ 64" using tp_wf_cfg [OF wf] unfolding tp_cfg_wf_def by blast
  finally have n: "k * 2 ^ log_page_size (cfg cc) < 2 ^ 64" .
  define cc1 where "cc1 = cc\<lparr>pages_outstanding :=
    (pages_outstanding cc)(p := pages_outstanding cc p + of_nat (length iov))\<rparr>"
  have p1: "tp_pres cc cc1" unfolding cc1_def by (rule pres_fields(5) [OF wf])
  have l1: "treepass_lookup cc1 = treepass_lookup cc" "cfg cc1 = cfg cc"
    by (simp_all add: cc1_def treepass_lookup_def fun_eq_iff)
  have "marked_page cc1 b = marked_page cc b" for b
    using l1 by (simp add: marked_page_def cc1_def inflight_entries_def)
  then have "tp_pres cc1 (io_submit \<lparr>rq_cmd = IO_PWRITEV, rq_addr = ra, rq_iovec = iov,
      rq_num_passes = 0, rq_outstanding = Some p\<rparr> cc1)"
    using k n l1 by (intro pres_submit_run [OF tp_pres_wf [OF p1], of k ra]) simp_all
  with p1 show ?thesis by (auto simp: extent_sync_issue_def Some x cc1_def intro: tp_pres_trans)
qed

lemma pres_extent_sync_page:
  assumes wf: "tp_wf cc" and a: "page_aligned (cfg cc) addr"
    and r: "sync_run st (addr + of_nat i * io_page_size (cfg cc)) i cc"
    and i: "i < pages_per_extent (cfg cc)"
    and ret: "extent_sync_page p addr i (st, cc) = Inr (st', cc')"
  shows "tp_pres cc cc'" and "sync_run st' (addr + of_nat (Suc i) * io_page_size (cfg cc)) (Suc i) cc'"
proof -
  let ?pa = "addr + of_nat i * io_page_size (cfg cc)"
  let ?e = "treepass_lookup cc ?pa"
  note c = tp_wf_cfg [OF wf]
  have al: "page_aligned (cfg cc) ?pa"
    by (intro aligned_add [OF c a] aligned_mult [OF c] aligned_page_size [OF c])
  from ret obtain b cc1 where
    m: "(if ?e \<noteq> TP_UNMAPPED_ENTRY then treepass_try_set_writeback cc ?e TP_CLOCK_MAX
         else Inr (False, cc)) = Inr (b, cc1)"
    and st': "st' = (if b then Some (case st of None \<Rightarrow> (?pa, [?e]) | Some (ra, iov) \<Rightarrow> (ra, iov @ [?e]))
                     else None)"
    and cc': "cc' = (if b then cc1 else extent_sync_issue p st cc1)"
    by (auto simp: extent_sync_page_def Let_def mult_page_size [OF c] elim!: obind_InrE
        split: option.splits if_splits)
  show "tp_pres cc cc'" and "sync_run st' (addr + of_nat (Suc i) * io_page_size (cfg cc)) (Suc i) cc'"
  proof (atomize (full), cases b)
    case False
    then have "cc1 = cc" using m try_set_writeback_cases by (fastforce split: if_splits)
    then show "tp_pres cc cc' \<and>
        sync_run st' (addr + of_nat (Suc i) * io_page_size (cfg cc)) (Suc i) cc'"
      using False st' cc' pres_extent_sync_issue [OF wf r] i by (simp add: sync_run_def)
  next
    case True
    then have l: "?e \<noteq> TP_UNMAPPED_ENTRY"
      and m': "treepass_try_set_writeback cc ?e TP_CLOCK_MAX = Inr (True, cc1)"
      using m by (auto split: if_splits)
    note mp = mark_page [OF wf al l m']
    note c1 = tp_pres_cfg [OF mp(1)]
    have "sync_run st' (addr + of_nat (Suc i) * io_page_size (cfg cc)) (Suc i) cc1"
    proof (cases st)
      case None
      then show ?thesis
        using True st' mp c1
        by (auto simp: sync_run_def algebra_simps intro!: exI [of _ "Suc 0"])
    next
      case (Some x)
      obtain ra iov where x: "x = (ra, iov)" by (cases x)
      obtain k where k: "k \<le> i"
        "iov = map (\<lambda>j. treepass_lookup cc (ra + of_nat j * io_page_size (cfg cc))) [0..<k]"
        "?pa = ra + of_nat k * io_page_size (cfg cc)"
        "\<forall>j<k. marked_page cc (ra + of_nat j * io_page_size (cfg cc))"
        using r Some x by (auto simp: sync_run_def)
      have mk: "marked_page cc1 (ra + of_nat j * io_page_size (cfg cc))" if "j < Suc k" for j
        using that k(4) mp(3) mp(2) [unfolded k(3)] by (auto simp: less_Suc_eq)
      have nx: "addr + of_nat (Suc i) * io_page_size (cfg cc)
          = ra + of_nat (Suc k) * io_page_size (cfg cc)"
        using k(3) by (simp add: algebra_simps)
      show ?thesis
        unfolding sync_run_def nx using True st' Some x k(1,2,3) mk mp(6) c1
        by (auto intro!: exI [of _ "Suc k"])
    qed
    with True cc' mp(1) show "tp_pres cc cc' \<and>
        sync_run st' (addr + of_nat (Suc i) * io_page_size (cfg cc)) (Suc i) cc'" by simp
  qed
qed

lemma pres_treepass_extent_sync:
  assumes wf: "tp_wf cc" and a: "page_aligned (cfg cc) addr"
    and ret: "treepass_extent_sync cc addr p = Inr cc'"
  shows "tp_pres cc cc'"
proof -
  let ?n = "pages_per_extent (cfg cc)"
  let ?P = "\<lambda>i (st, s). tp_pres cc s \<and> sync_run st (addr + of_nat i * io_page_size (cfg cc)) i s"
  from ret obtain st cc1 where
    it: "iterM (extent_sync_page p addr) [0..<?n] (None, cc) = Inr (st, cc1)"
    and cc': "cc' = extent_sync_issue p st cc1"
    by (auto simp: treepass_extent_sync_def elim!: obind_InrE)
  have "?P ?n (st, cc1)"
  proof (rule iterM_upt_invariant [OF it, of ?P])
    show "?P 0 (None, cc)" using wf by (simp add: sync_run_def tp_pres_refl)
    fix i x x' assume i: "i < ?n" and p: "?P i x" and r: "extent_sync_page p addr i x = Inr x'"
    obtain st s st' s' where x: "x = (st, s)" "x' = (st', s')" by (cases x, cases x')
    from p x have ps: "tp_pres cc s" by simp
    note cs = tp_pres_cfg [OF ps]
    show "?P (Suc i) x'"
      using pres_extent_sync_page [OF tp_pres_wf [OF ps], of addr st i p st' s'] a i p r x cs
      by (auto intro: tp_pres_trans)
  qed simp
  then have p1: "tp_pres cc cc1" and s: "sync_run st (addr + of_nat ?n * io_page_size (cfg cc)) ?n cc1"
    by auto
  have "tp_pres cc1 cc'"
    unfolding cc' using tp_pres_cfg [OF p1]
    by (intro pres_extent_sync_issue [OF tp_pres_wf [OF p1] s]) simp
  with p1 show ?thesis by (rule tp_pres_trans)
qed

lemma batches_div:
  assumes "tp_cfg_wf c" shows "page_capacity c div TP_ENTRIES_PER_BATCH = batch_capacity c"
  using assms by (simp add: tp_cfg_wf_def TP_ENTRIES_PER_BATCH_def)

lemma pres_treepass_flush:
  assumes wf: "tp_wf cc" and ret: "treepass_flush cc tid = Inr cc'"
  shows "tp_pres cc cc'"
proof -
  from ret obtain cc1 cc2 where w: "io_wait_all cc = Inr cc1"
    and it: "iterM (\<lambda>h cc. treepass_batch_start_writeback cc tid h TP_CLOCK_MAX)
      [0..<page_capacity (cfg cc1) div TP_ENTRIES_PER_BATCH] cc1 = Inr cc2"
    and w2: "io_wait_all cc2 = Inr cc'"
    by (auto simp: treepass_flush_def elim!: obind_InrE)
  have p1: "tp_pres cc cc1" by (rule pres_io_wait_all [OF wf w])
  have p2: "tp_pres cc1 cc2"
    using batches_div [OF tp_wf_cfg [OF tp_pres_wf [OF p1]]]
    by (intro iterM_pres [OF tp_pres_wf [OF p1] it])
      (simp add: pres_batch_start_writeback)
  have "tp_pres cc2 cc'" by (rule pres_io_wait_all [OF tp_pres_wf [OF p2] w2])
  with p1 p2 show ?thesis by (blast intro: tp_pres_trans)
qed

end
