(* ===== verification/TpDurable.thy ===== *)
theory TpDurable
  imports TpFlush
begin

text \<open>
  What a flush guarantees: when \<open>treepass_flush\<close> returns, every page that nobody had claimed or
  write-locked is on the device. An entry is \<open>quiet\<close> when it is not claimed and not
  write-locked and what it does in the background is in a submitted request; it is
  \<open>settled\<close> when it is not an idle dirty page. Each step of a flush keeps quiet entries quiet
  and settled ones settled, and starting writeback settles every quiet entry it visits.
\<close>

definition quiet_entry :: "'d treepass \<Rightarrow> nat \<Rightarrow> bool" where
  "quiet_entry cc e \<longleftrightarrow>
     (let s = status (entry cc e)
      in \<not> st_claimed s \<and> \<not> st_writelocked s \<and>
         (st_writeback s \<longrightarrow> e \<in> inflight_entries cc) \<and>
         (st_loading s \<longrightarrow> st_clean s \<and> \<not> st_writeback s \<and> e \<in> inflight_entries cc))"

definition settled :: "'d treepass \<Rightarrow> nat \<Rightarrow> bool" where
  "settled cc e \<longleftrightarrow>
     (let s = status (entry cc e) in st_free s \<or> st_clean s \<or> st_writeback s \<or> st_loading s)"

definition flush_step :: "'d treepass \<Rightarrow> 'd treepass \<Rightarrow> bool" where
  "flush_step cc cc' \<longleftrightarrow> tp_pres cc cc' \<and> treepass_lookup cc' = treepass_lookup cc \<and>
     (\<forall>e<page_capacity (cfg cc). quiet_entry cc e \<longrightarrow>
        quiet_entry cc' e \<and> (settled cc e \<longrightarrow> settled cc' e))"

lemma flush_step_refl: "tp_wf cc \<Longrightarrow> flush_step cc cc"
  by (simp add: flush_step_def tp_pres_refl)

lemma flush_step_trans: "flush_step cc1 cc2 \<Longrightarrow> flush_step cc2 cc3 \<Longrightarrow> flush_step cc1 cc3"
  unfolding flush_step_def by (metis tp_pres_trans tp_pres_cfg)

lemma flush_step_wf: "flush_step cc cc' \<Longrightarrow> tp_wf cc'"
  unfolding flush_step_def by (blast dest: tp_pres_wf)

lemma flush_step_cfg: "flush_step cc cc' \<Longrightarrow> cfg cc' = cfg cc"
  unfolding flush_step_def by (blast dest: tp_pres_cfg)

section \<open>Completions\<close>

lemma write_callback_status:
  "st_clean (status (entry (write_callback_page np e cc) e))"
  "\<not> st_writeback (status (entry (write_callback_page np e cc) e))"
  "st_free (status (entry (write_callback_page np e cc) e)) = st_free (status (entry cc e))"
  "st_loading (status (entry (write_callback_page np e cc) e)) = st_loading (status (entry cc e))"
  "st_claimed (status (entry (write_callback_page np e cc) e)) = st_claimed (status (entry cc e))"
  "st_writelocked (status (entry (write_callback_page np e cc) e)) = st_writelocked (status (entry cc e))"
  by (auto simp: write_callback_page_def Let_def flag_ops treepass_set_clock_def flag_simps)

lemma fold_other:
  assumes "\<And>x s. x \<noteq> e \<Longrightarrow> entry (f x s) e = entry s e" and "e \<notin> set es"
  shows "entry (fold f es cc) e = entry cc e"
  using assms by (induction es arbitrary: cc) auto

lemma fold_split_last: "e \<in> set es \<Longrightarrow> \<exists>xs ys. es = xs @ e # ys \<and> e \<notin> set ys"
  by (rule split_list_last)

lemma fold_lookup:
  assumes "\<And>x s. treepass_lookup (f x s) = treepass_lookup s"
  shows "treepass_lookup (fold f es cc) = treepass_lookup cc"
  using assms by (induction es arbitrary: cc) auto

lemma fold_write_callback_status:
  assumes "distinct es" and "e \<in> set es"
  shows "st_clean (status (entry (fold (write_callback_page np) es cc) e))"
    "\<not> st_writeback (status (entry (fold (write_callback_page np) es cc) e))"
    "st_loading (status (entry (fold (write_callback_page np) es cc) e)) = st_loading (status (entry cc e))"
    "st_claimed (status (entry (fold (write_callback_page np) es cc) e)) = st_claimed (status (entry cc e))"
    "st_writelocked (status (entry (fold (write_callback_page np) es cc) e))
       = st_writelocked (status (entry cc e))"
proof -
  obtain xs ys where es: "es = xs @ e # ys" "e \<notin> set ys" "e \<notin> set xs"
    using assms by (auto dest: split_list)
  have "entry (fold (write_callback_page np) es cc) e
      = entry (write_callback_page np e (fold (write_callback_page np) xs cc)) e"
    using es(2) by (simp add: es(1) fold_other)
  moreover have "entry (fold (write_callback_page np) xs cc) e = entry cc e"
    using es(3) by (simp add: fold_other)
  ultimately show "st_clean (status (entry (fold (write_callback_page np) es cc) e))"
    "\<not> st_writeback (status (entry (fold (write_callback_page np) es cc) e))"
    "st_loading (status (entry (fold (write_callback_page np) es cc) e)) = st_loading (status (entry cc e))"
    "st_claimed (status (entry (fold (write_callback_page np) es cc) e)) = st_claimed (status (entry cc e))"
    "st_writelocked (status (entry (fold (write_callback_page np) es cc) e))
       = st_writelocked (status (entry cc e))"
    by (simp_all add: write_callback_status)
qed

lemma fold_finish_load_entry:
  assumes "distinct es" and "e \<in> set es"
  shows "entry (fold treepass_finish_load es cc) e
    = (status_update (\<lambda>s. s AND NOT TP_LOADING) (entry cc e))\<lparr>waiters := []\<rparr>"
proof -
  obtain xs ys where es: "es = xs @ e # ys" "e \<notin> set ys" "e \<notin> set xs"
    using assms by (auto dest: split_list)
  have "entry (fold treepass_finish_load es cc) e
      = entry (treepass_finish_load e (fold treepass_finish_load xs cc)) e"
    using es(2) by (simp add: es(1) fold_other)
  moreover have "entry (fold treepass_finish_load xs cc) e = entry cc e"
    using es(3) by (simp add: fold_other)
  ultimately show ?thesis by (simp add: finish_load_upd)
qed

text \<open>
  What a completion does to an entry: nothing unless its request holds the entry; then the
  page of a write is clean and no longer in writeback, the page of a read no longer loading.
\<close>

definition completed :: "io_cmd \<Rightarrow> nat set \<Rightarrow> 'd treepass \<Rightarrow> 'd treepass \<Rightarrow> nat \<Rightarrow> bool" where
  "completed cmd S cc cc' e \<longleftrightarrow>
     (let s = status (entry cc e); s' = status (entry cc' e)
      in if e \<notin> S then s' = s
         else st_claimed s' = st_claimed s \<and> st_writelocked s' = st_writelocked s \<and>
           (case cmd of
              IO_PWRITEV \<Rightarrow> st_clean s' \<and> \<not> st_writeback s' \<and> st_loading s' = st_loading s
            | IO_PREADV \<Rightarrow> \<not> st_loading s' \<and> st_clean s' = st_clean s \<and>
                           st_writeback s' = st_writeback s))"

lemma write_callback_lookup:
  "treepass_lookup (write_callback_page np e cc) = treepass_lookup cc"
  by (simp add: write_callback_page_def Let_def flag_ops treepass_set_clock_def)

lemma io_pages_lookup:
  "treepass_lookup (io_write_pages a es cc) = treepass_lookup cc"
  "treepass_lookup (io_read_pages a es cc) = treepass_lookup cc"
proof -
  show "treepass_lookup (io_write_pages a es cc) = treepass_lookup cc"
    by (simp add: treepass_lookup_def fun_eq_iff)
  show "treepass_lookup (io_read_pages a es cc) = treepass_lookup cc"
    by (induction es arbitrary: a cc) simp_all
qed

lemma io_complete_effect:
  assumes "io_complete rq ok cc = Inr cc'" and "distinct (rq_iovec rq)"
  shows "completed (rq_cmd rq) (set (rq_iovec rq)) cc cc' e"
    and "treepass_lookup cc' = treepass_lookup cc"
    and "inflight_entries cc' = inflight_entries cc"
proof (atomize (full), cases "rq_cmd rq")
  case IO_PWRITEV
  define cc1 where "cc1 = io_write_pages (rq_addr rq) (rq_iovec rq) cc"
  define cc2 where "cc2 = fold (write_callback_page (rq_num_passes rq)) (rq_iovec rq) cc1"
  have e1: "entry cc1 = entry cc" "inflight_entries cc1 = inflight_entries cc"
      "treepass_lookup cc1 = treepass_lookup cc"
    by (simp_all add: cc1_def inflight_entries_def io_pages_lookup)
  have "entry cc' = entry cc2" "inflight cc' = inflight cc2" "treepass_lookup cc' = treepass_lookup cc2"
    using assms(1) IO_PWRITEV
    by (auto simp: io_complete_def treepass_write_callback_def Let_def cc1_def cc2_def
        treepass_lookup_def fun_eq_iff split: if_splits option.splits)
  moreover have "inflight_entries cc2 = inflight_entries cc1"
    unfolding cc2_def by (rule fold_invariant_set) simp_all
  moreover have "treepass_lookup cc2 = treepass_lookup cc1"
    unfolding cc2_def by (rule fold_lookup) (rule write_callback_lookup)
  moreover have "completed IO_PWRITEV (set (rq_iovec rq)) cc1 cc2 e"
    by (cases "e \<in> set (rq_iovec rq)")
      (simp_all add: completed_def cc2_def fold_write_callback_status [OF assms(2)] fold_other)
  ultimately show "completed (rq_cmd rq) (set (rq_iovec rq)) cc cc' e \<and>
      treepass_lookup cc' = treepass_lookup cc \<and> inflight_entries cc' = inflight_entries cc"
    using e1 IO_PWRITEV by (simp add: completed_def Let_def inflight_entries_def)
next
  case IO_PREADV
  define cc1 where "cc1 = io_read_pages (rq_addr rq) (rq_iovec rq) cc"
  have cc': "cc' = fold treepass_finish_load (rq_iovec rq) cc1"
    using assms(1) IO_PREADV
    by (auto simp: io_complete_def treepass_prefetch_callback_def Let_def cc1_def split: if_splits)
  have s1: "status (entry cc1 i) = status (entry cc i)" for i by (simp add: cc1_def)
  have "completed IO_PREADV (set (rq_iovec rq)) cc1 cc' e"
    by (cases "e \<in> set (rq_iovec rq)")
      (simp_all add: completed_def cc' fold_finish_load_entry [OF assms(2)] fold_other flag_simps)
  moreover have "treepass_lookup cc' = treepass_lookup cc1"
    unfolding cc' by (rule fold_lookup) simp
  moreover have "inflight_entries cc' = inflight_entries cc1"
    unfolding cc' by (rule fold_invariant_set) simp_all
  moreover have "treepass_lookup cc1 = treepass_lookup cc" "inflight_entries cc1 = inflight_entries cc"
    by (simp_all add: cc1_def io_pages_lookup)
  ultimately show "completed (rq_cmd rq) (set (rq_iovec rq)) cc cc' e \<and>
      treepass_lookup cc' = treepass_lookup cc \<and> inflight_entries cc' = inflight_entries cc"
    using s1 IO_PREADV by (simp add: completed_def Let_def)
qed


lemma completed_quiet:
  assumes wf: "tp_wf cc" and q: "quiet_entry cc e" and c: "completed cmd S cc cc' e"
    and infl: "inflight_entries cc \<subseteq> S \<union> inflight_entries cc'"
    and S: "\<And>i. i \<in> S \<Longrightarrow> \<exists>b. rq_page_ok cmd b cc i"
  shows "quiet_entry cc' e \<and> (settled cc e \<longrightarrow> settled cc' e)"
proof (cases "e \<in> S")
  case False
  have "st_free (status (entry cc' e)) = st_free (status (entry cc e))"
    using c False by (simp add: completed_def Let_def)
  then show ?thesis
    using False q c infl by (auto simp: completed_def Let_def quiet_entry_def settled_def)
next
  case True
  with S obtain b where "rq_page_ok cmd b cc e" by blast
  then show ?thesis
    using True q c
    by (cases cmd) (auto simp: completed_def Let_def quiet_entry_def settled_def rq_page_ok_def)
qed

lemma flush_step_io_reap:
  assumes wf: "tp_wf cc" and ret: "io_reap ev cc = Inr cc'"
  shows "flush_step cc cc' \<and> (fst ev < length (inflight cc) \<longrightarrow>
    (\<forall>e. completed (rq_cmd (inflight cc ! fst ev)) (set (rq_iovec (inflight cc ! fst ev))) cc cc' e))"
proof (cases "fst ev < length (inflight cc)")
  case True
  let ?rq = "inflight cc ! fst ev"
  define cc1 where "cc1 = cc\<lparr>inflight := take (fst ev) (inflight cc) @ drop (Suc (fst ev)) (inflight cc)\<rparr>"
  note r = inflight_remove [OF wf True cc1_def refl]
  have c: "io_complete ?rq (snd ev) cc1 = Inr cc'"
    using ret True by (simp add: io_reap_def Let_def cc1_def)
  note ef = io_complete_effect [OF c r(3)]
  have e1: "entry cc1 = entry cc" "treepass_lookup cc1 = treepass_lookup cc" "cfg cc1 = cfg cc"
    by (simp_all add: cc1_def treepass_lookup_def fun_eq_iff)
  obtain xs ys where split: "inflight cc = xs @ ?rq # ys" and inf1: "inflight cc1 = xs @ ys"
    using id_take_nth_drop [OF True] by (auto simp: cc1_def)
  have infl: "inflight_entries cc \<subseteq> set (rq_iovec ?rq) \<union> inflight_entries cc'"
  proof -
    have "inflight_entries cc = (\<Union>rq\<in>set (xs @ ?rq # ys). set (rq_iovec rq))"
      unfolding inflight_entries_def using split by (rule arg_cong)
    moreover have "inflight_entries cc' = (\<Union>rq\<in>set (xs @ ys). set (rq_iovec rq))"
      unfolding ef(3) unfolding inflight_entries_def inf1 ..
    ultimately show ?thesis by auto
  qed
  have pg: "\<exists>b. rq_page_ok (rq_cmd ?rq) b cc i" if "i \<in> set (rq_iovec ?rq)" for i
    using rq_pages_okD [OF r(2) that] e1 by (simp add: rq_page_ok_frame [of cc1 cc])
  have "quiet_entry cc' e \<and> (settled cc e \<longrightarrow> settled cc' e)" if "quiet_entry cc e" for e
    using ef(1) [of e] e1(1)
    by (intro completed_quiet [OF wf that _ infl pg]) (simp_all add: completed_def)
  then show ?thesis
    using pres_io_reap [OF wf ret] ef(1,2) e1(1,2) by (simp add: flush_step_def completed_def)
next
  case False
  then show ?thesis using ret wf by (simp add: io_reap_def Let_def flush_step_refl)
qed

lemma flush_step_reap_field: "tp_wf cc \<Longrightarrow> flush_step cc (cc\<lparr>reap := evs\<rparr>)"
  using pres_fields(4) [of cc evs]
  by (simp add: flush_step_def quiet_entry_def settled_def inflight_entries_def treepass_lookup_def
      fun_eq_iff)

lemma flush_step_wait_while_on:
  assumes "tp_wf cc" and "wait_while_on p evs cc = Inr cc'"
  shows "flush_step cc cc'"
  using assms
proof (induction evs arbitrary: cc)
  case Nil
  then show ?case by (auto split: if_splits intro: flush_step_refl)
next
  case (Cons ev evs)
  show ?case
  proof (cases "p cc")
    case True
    then obtain cc1 where r: "io_reap ev (cc\<lparr>reap := evs\<rparr>) = Inr cc1"
      and w: "wait_while_on p evs cc1 = Inr cc'"
      using Cons.prems(2) by (auto elim: obind_InrE)
    have f: "flush_step cc (cc\<lparr>reap := evs\<rparr>)" by (rule flush_step_reap_field [OF Cons.prems(1)])
    have s: "flush_step (cc\<lparr>reap := evs\<rparr>) cc1" using flush_step_io_reap [OF flush_step_wf [OF f] r] ..
    from f s Cons.IH [OF flush_step_wf [OF s] w] show ?thesis by (blast intro: flush_step_trans)
  qed (use Cons.prems in \<open>auto intro: flush_step_refl\<close>)
qed

lemma flush_step_io_wait_all: "tp_wf cc \<Longrightarrow> io_wait_all cc = Inr cc' \<Longrightarrow> flush_step cc cc'"
  unfolding io_wait_all_def wait_while_def by (rule flush_step_wait_while_on)

lemma io_wait_all_empty: "tp_wf cc \<Longrightarrow> io_wait_all cc = Inr cc' \<Longrightarrow> inflight cc' = []"
  unfolding io_wait_all_def using wait_while_done by fastforce

section \<open>Starting writeback\<close>

lemma writeback_submit_frame [simp]:
  "entry (writeback_submit tid np t a e cc) = entry cc"
  "treepass_lookup (writeback_submit tid np t a e cc) = treepass_lookup cc"
  by (simp_all add: writeback_submit_def Let_def io_submit_def treepass_lookup_def fun_eq_iff)

text \<open>
  Starting writeback at an entry either changes nothing or marks a set of entries that
  contains this one, all of them in a submitted request.
\<close>

lemma start_writeback_effect:
  assumes wf: "tp_wf cc" and e: "e < page_capacity (cfg cc)"
    and ret: "start_writeback_entry tid np e cc = Inr cc'"
  shows "cc' = cc \<and> (np > 0 \<and> np < TP_CLOCK_MAX \<and> ptype (entry cc e) \<noteq> PAGE_TYPE_BRANCH \<or>
      status (entry cc e) AND TP_CLEANABLE_BASE_MASK \<noteq> 0 \<or>
      status_clock (status (entry cc e)) > np) \<or> (\<exists>S. e \<in> S \<and> wb_marks S cc cc' \<and> treepass_lookup cc' = treepass_lookup cc \<and>
    S \<union> inflight_entries cc \<subseteq> inflight_entries cc' \<and> (\<forall>i\<in>S. \<not> st_loading (status (entry cc' i))) \<and>
    (\<forall>i\<in>inflight_entries cc'. i \<in> inflight_entries cc \<or> \<not> st_loading (status (entry cc' i))))"
  using start_writeback_entry_cases [OF ret]
proof (elim disjE exE conjE)
  let ?a = "disk_addr (entry cc e)" and ?ps = "io_page_size (cfg cc)"
  fix cc1 below cc2 "end" cc3
  assume m: "treepass_try_set_writeback cc e np = Inr (True, cc1)" and
    down: "writeback_walk (Suc (page_capacity (cfg cc))) (- ?ps) ?a np ?a cc1 = Inr (below, cc2)" and
    up: "writeback_walk (Suc (page_capacity (cfg cc))) ?ps ?a np ?a cc2 = Inr (end, cc3)" and
    cc': "cc' = writeback_submit tid np (ptype (entry cc e)) (below + ?ps) end cc3"
  note me = marked_entry [OF wf e m]
  note mp = mark_page [OF wf me(3), unfolded me(2), OF me(4) m]
  note c1 = tp_pres_cfg [OF mp(1)]
  obtain n S where n: "tp_pres cc1 cc3" "n * 2 ^ log_page_size (cfg cc) < 2 ^ 64"
    "end - (below + ?ps) = of_nat n * ?ps"
    "\<forall>i<n. marked_page cc3 (below + ?ps + of_nat i * ?ps)"
    "wb_marks S cc1 cc3"
    "insert e S \<subseteq> (\<lambda>i. treepass_lookup cc3 (below + ?ps + of_nat i * ?ps)) ` {..<n}"
    "inflight_entries cc3 = inflight_entries cc1" "treepass_lookup cc3 = treepass_lookup cc1"
    using two_walks [OF tp_pres_wf [OF mp(1)] mp(2) down [folded c1] up [folded c1],
        unfolded c1 mp(6) me(2)] mp(6) by auto
  note c3 = tp_pres_cfg [OF n(1), unfolded c1]
  have marks: "wb_marks ({e} \<union> S) cc cc3" by (rule wb_marks_trans [OF mp(7) n(5)])
  have iov: "inflight_entries cc' = inflight_entries cc3 \<union>
      (\<lambda>i. treepass_lookup cc3 (below + ?ps + of_nat i * ?ps)) ` {..<n}"
    using n(3) c3 div_mult_pages [OF tp_wf_cfg [OF wf] n(2)]
    by (auto simp: cc' writeback_submit_def Let_def io_submit_def inflight_entries_def
        mult_page_size [OF tp_wf_cfg [OF wf]])
  have "\<not> st_loading (status (entry cc' i))" if "i \<in> insert e S" for i
    using that n(4,6) by (auto simp: cc' marked_page_def Let_def)
  moreover have "i \<in> inflight_entries cc \<or> \<not> st_loading (status (entry cc' i))"
    if "i \<in> inflight_entries cc'" for i
    using that n(4,7) mp(5) unfolding iov by (auto simp: cc' marked_page_def Let_def)
  ultimately show ?thesis
    using marks iov n(6,7,8) mp(5,6)
    by (intro disjI2 exI [of _ "insert e S"]) (auto simp: cc' wb_marks_def)
qed auto

lemma flush_step_start_writeback:
  assumes wf: "tp_wf cc" and e: "e < page_capacity (cfg cc)"
    and ret: "start_writeback_entry tid TP_CLOCK_MAX e cc = Inr cc'"
  shows "flush_step cc cc' \<and> (quiet_entry cc e \<longrightarrow> settled cc' e)"
  using start_writeback_effect [OF wf e ret]
proof (elim disjE exE conjE)
  assume "cc' = cc" "status (entry cc e) AND TP_CLEANABLE_BASE_MASK \<noteq> 0"
  then show ?thesis using wf by (auto simp: flush_step_refl settled_def quiet_entry_def Let_def flag_simps)
next
  fix S assume S: "e \<in> S" "wb_marks S cc cc'" "treepass_lookup cc' = treepass_lookup cc"
    "S \<union> inflight_entries cc \<subseteq> inflight_entries cc'"
    "\<forall>i\<in>S. \<not> st_loading (status (entry cc' i))"
  have "quiet_entry cc' i \<and> (settled cc i \<longrightarrow> settled cc' i)" if "quiet_entry cc i" for i
    using that S
    by (cases "i \<in> S") (auto simp: quiet_entry_def settled_def wb_marks_def Let_def flag_simps)
  moreover have "settled cc' e" using S by (simp add: settled_def wb_marks_def Let_def flag_simps)
  ultimately show ?thesis
    using S(3) pres_start_writeback_entry [OF wf e ret] by (simp add: flush_step_def)
qed (use status_clock_le [of "status (entry cc e)"] in auto)

text \<open>
  Writeback of a batch with any number of passes: every entry that may be written is marked
  and in a request, and an entry that changes has got the mark and is in a request.
\<close>

definition writable :: "'d treepass \<Rightarrow> u32 \<Rightarrow> nat \<Rightarrow> bool" where
  "writable cc np e \<longleftrightarrow>
     status (entry cc e) AND TP_CLEANABLE_BASE_MASK = 0 \<and> status_clock (status (entry cc e)) \<le> np \<and>
     (np = 0 \<or> TP_CLOCK_MAX \<le> np \<or> ptype (entry cc e) = PAGE_TYPE_BRANCH)"

definition writing :: "'d treepass \<Rightarrow> nat \<Rightarrow> bool" where
  "writing cc e \<longleftrightarrow> st_writeback (status (entry cc e)) \<and> e \<in> inflight_entries cc"

definition write_step :: "'d treepass \<Rightarrow> 'd treepass \<Rightarrow> bool" where
  "write_step cc cc' \<longleftrightarrow> tp_pres cc cc' \<and> inflight_entries cc \<subseteq> inflight_entries cc' \<and>
     (\<forall>i. entry cc' i = entry cc i \<or>
        entry cc' i = status_update (\<lambda>s. s OR TP_WRITEBACK) (entry cc i) \<and> writing cc' i)"

lemma write_step_refl: "tp_wf cc \<Longrightarrow> write_step cc cc"
  by (simp add: write_step_def tp_pres_refl)

lemma write_step_writing: "write_step cc cc' \<Longrightarrow> writing cc i \<Longrightarrow> writing cc' i"
  unfolding write_step_def writing_def by (metis subsetD)

lemma write_step_trans:
  assumes "write_step a b" and "write_step b c"
  shows "write_step a c"
proof -
  have "entry c i = entry a i \<or>
      entry c i = status_update (\<lambda>s. s OR TP_WRITEBACK) (entry a i) \<and> writing c i" for i
    using assms write_step_writing [OF assms(2), of i] unfolding write_step_def
    by (metis status_or_idem)
  then show ?thesis using assms by (auto simp: write_step_def intro: tp_pres_trans)
qed

lemma write_step_start:
  assumes wf: "tp_wf cc" and e: "e < page_capacity (cfg cc)"
    and ret: "start_writeback_entry tid np e cc = Inr cc'"
  shows "write_step cc cc' \<and> (writable cc np e \<longrightarrow> writing cc' e)"
  using start_writeback_effect [OF wf e ret]
proof (elim disjE exE conjE)
  fix S assume S: "e \<in> S" "wb_marks S cc cc'" "S \<union> inflight_entries cc \<subseteq> inflight_entries cc'"
  have "writing cc' i" if "i \<in> S" for i
    using S that by (auto simp: writing_def wb_marks_def flag_simps)
  then show ?thesis
    using S pres_start_writeback_entry [OF wf e ret] by (auto simp: write_step_def wb_marks_def)
qed (use wf in \<open>auto simp: write_step_refl writable_def\<close>)

lemma batch_writeback_effect:
  assumes wf: "tp_wf cc" and b: "b < batch_capacity (cfg cc)"
    and ret: "treepass_batch_start_writeback cc tid b np = Inr cc'"
  shows "write_step cc cc'"
    and "e div TP_ENTRIES_PER_BATCH = b \<Longrightarrow> writable cc np e \<Longrightarrow> writing cc' e"
proof -
  let ?lo = "b * TP_ENTRIES_PER_BATCH"
  have "write_step cc cc' \<and> (\<forall>e. ?lo \<le> e \<and> e < ?lo + TP_ENTRIES_PER_BATCH \<and> writable cc np e \<longrightarrow> writing cc' e)"
  proof (rule iterM_upt_invariant [OF ret [unfolded treepass_batch_start_writeback_def Let_def]])
    fix i s s' assume i: "?lo \<le> i" "i < ?lo + TP_ENTRIES_PER_BATCH"
      and p: "write_step cc s \<and> (\<forall>e. ?lo \<le> e \<and> e < i \<and> writable cc np e \<longrightarrow> writing s e)"
      and r: "start_writeback_entry tid np i s = Inr s'"
    have ps: "tp_pres cc s" using p by (simp add: write_step_def)
    have "i < page_capacity (cfg cc)"
      using batch_entry_lt [OF tp_wf_cfg [OF wf] b, of i] i by simp
    then have i': "i < page_capacity (cfg s)" using tp_pres_cfg [OF ps] by simp
    note f = write_step_start [OF tp_pres_wf [OF ps] i' r]
    have "writing s' i" if "writable cc np i"
    proof (cases "entry s i = entry cc i")
      case True
      then show ?thesis using that f by (simp add: writable_def)
    next
      case False
      then show ?thesis using p f unfolding write_step_def by (metis write_step_writing f)
    qed
    then show "write_step cc s' \<and> (\<forall>e. ?lo \<le> e \<and> e < Suc i \<and> writable cc np e \<longrightarrow> writing s' e)"
      using p f write_step_writing write_step_trans by (metis less_Suc_eq)
  qed (use wf in \<open>auto simp: write_step_refl\<close>)
  then show "write_step cc cc'" "e div TP_ENTRIES_PER_BATCH = b \<Longrightarrow> writable cc np e \<Longrightarrow> writing cc' e"
    by (auto simp: TP_ENTRIES_PER_BATCH_def)
qed

text \<open>After writeback of the batches below \<open>n\<close>, their quiet entries are settled.\<close>

lemma flush_step_entries:
  assumes wf: "tp_wf cc" and b: "b \<le> page_capacity (cfg cc)" and ab: "a \<le> b"
    and ret: "iterM (start_writeback_entry tid TP_CLOCK_MAX) [a..<b] cc = Inr cc'"
  shows "flush_step cc cc' \<and> (\<forall>e. a \<le> e \<and> e < b \<and> quiet_entry cc e \<longrightarrow> settled cc' e)"
proof (rule iterM_upt_invariant [OF ret ab])
  show "flush_step cc cc \<and> (\<forall>e. a \<le> e \<and> e < a \<and> quiet_entry cc e \<longrightarrow> settled cc e)"
    using wf by (auto simp: flush_step_refl)
  fix i s s' assume i: "i < b" and r: "start_writeback_entry tid TP_CLOCK_MAX i s = Inr s'"
    and p: "flush_step cc s \<and> (\<forall>e. a \<le> e \<and> e < i \<and> quiet_entry cc e \<longrightarrow> settled s e)"
  have i': "i < page_capacity (cfg s)" using i b p flush_step_cfg by fastforce
  note f = flush_step_start_writeback [OF flush_step_wf [OF p [THEN conjunct1]] i' r]
  have "settled s' e" if e: "a \<le> e" "e < Suc i" "quiet_entry cc e" for e
  proof -
    have ec: "e < page_capacity (cfg cc)" using e i b by simp
    then have qe: "quiet_entry s e" using p e by (simp add: flush_step_def)
    show ?thesis
    proof (cases "e = i")
      case True
      then show ?thesis using f qe by simp
    next
      case False
      then have "settled s e" using p e by simp
      moreover have "e < page_capacity (cfg s)" using ec p flush_step_cfg by fastforce
      ultimately show ?thesis using f qe by (simp add: flush_step_def)
    qed
  qed
  then show "flush_step cc s' \<and> (\<forall>e. a \<le> e \<and> e < Suc i \<and> quiet_entry cc e \<longrightarrow> settled s' e)"
    using p f by (blast intro: flush_step_trans)
qed

lemma flush_step_batches:
  assumes wf: "tp_wf cc" and n: "n \<le> batch_capacity (cfg cc)"
    and ret: "iterM (\<lambda>h cc. treepass_batch_start_writeback cc tid h TP_CLOCK_MAX) [0..<n] cc = Inr cc'"
  shows "flush_step cc cc' \<and>
    (\<forall>e. e < n * TP_ENTRIES_PER_BATCH \<and> quiet_entry cc e \<longrightarrow> settled cc' e)"
proof -
  let ?B = TP_ENTRIES_PER_BATCH
  let ?P = "\<lambda>i s. flush_step cc s \<and> (\<forall>e. e < i * ?B \<and> quiet_entry cc e \<longrightarrow> settled s e)"
  have cap: "batch_capacity (cfg cc) * ?B = page_capacity (cfg cc)"
    using tp_wf_cfg [OF wf] by (simp add: tp_cfg_wf_def)
  show ?thesis
  proof (rule iterM_upt_invariant [OF ret, of ?P])
    show "?P 0 cc" using wf by (simp add: flush_step_refl)
    fix i s s' assume i: "i < n" and p: "?P i s"
      and r: "treepass_batch_start_writeback s tid i TP_CLOCK_MAX = Inr s'"
    note cs = flush_step_cfg [OF p [THEN conjunct1]]
    have hi: "i * ?B + ?B \<le> page_capacity (cfg cc)"
      using i n cap mult_le_mono1 [of "Suc i" "batch_capacity (cfg cc)" ?B] by simp
    have f: "flush_step s s' \<and> (\<forall>e. i * ?B \<le> e \<and> e < i * ?B + ?B \<and> quiet_entry s e \<longrightarrow> settled s' e)"
      using r hi cs by (intro flush_step_entries [OF flush_step_wf [OF p [THEN conjunct1]]])
        (simp_all add: treepass_batch_start_writeback_def Let_def)
    have "settled s' e" if e: "e < Suc i * ?B" "quiet_entry cc e" for e
    proof -
      have ec: "e < page_capacity (cfg cc)" using e hi by simp
      then have qe: "quiet_entry s e" using p e by (simp add: flush_step_def)
      show ?thesis
        using e f p qe ec cs by (cases "e < i * ?B") (auto simp: flush_step_def)
    qed
    then show "?P (Suc i) s'" using p f by (blast intro: flush_step_trans)
  qed simp
qed

section \<open>Flush\<close>

lemma flush_settles:
  assumes wf: "tp_wf cc" and ret: "treepass_flush cc tid = Inr cc'"
  shows "flush_step cc cc'" and "inflight cc' = []"
    and "e < page_capacity (cfg cc) \<Longrightarrow> quiet_entry cc e \<Longrightarrow> quiet_entry cc' e \<and> settled cc' e"
proof -
  from ret obtain cc1 cc2 where w: "io_wait_all cc = Inr cc1"
    and it: "iterM (\<lambda>h cc. treepass_batch_start_writeback cc tid h TP_CLOCK_MAX)
      [0..<page_capacity (cfg cc1) div TP_ENTRIES_PER_BATCH] cc1 = Inr cc2"
    and w2: "io_wait_all cc2 = Inr cc'"
    by (auto simp: treepass_flush_def elim!: obind_InrE)
  have f1: "flush_step cc cc1" by (rule flush_step_io_wait_all [OF wf w])
  note wf1 = flush_step_wf [OF f1] and c1 = flush_step_cfg [OF f1]
  note b = batches_div [OF tp_wf_cfg [OF wf1]]
  note f2 = flush_step_batches [OF wf1 _ it [unfolded b], OF order_refl]
  note wf2 = flush_step_wf [OF f2 [THEN conjunct1]] and c2 = flush_step_cfg [OF f2 [THEN conjunct1]]
  have f3: "flush_step cc2 cc'" by (rule flush_step_io_wait_all [OF wf2 w2])
  show "flush_step cc cc'" using f1 f2 f3 by (blast intro: flush_step_trans)
  show "inflight cc' = []" by (rule io_wait_all_empty [OF wf2 w2])
  assume e: "e < page_capacity (cfg cc)" and q: "quiet_entry cc e"
  have cap: "batch_capacity (cfg cc1) * TP_ENTRIES_PER_BATCH = page_capacity (cfg cc)"
    using tp_wf_cfg [OF wf1] c1 by (simp add: tp_cfg_wf_def)
  have q1: "quiet_entry cc1 e" using f1 e q by (simp add: flush_step_def)
  then have "settled cc2 e" "quiet_entry cc2 e"
    using f2 e cap c1 by (auto simp: flush_step_def)
  then show "quiet_entry cc' e \<and> settled cc' e"
    using f3 e c1 c2 by (simp add: flush_step_def)
qed

lemma flush_entry_clean:
  assumes wf: "tp_wf cc" and ret: "treepass_flush cc tid = Inr cc'"
    and e: "e < page_capacity (cfg cc)" and q: "quiet_entry cc e"
  shows "st_free (status (entry cc' e)) \<or> st_clean (status (entry cc' e))"
    and "\<not> st_loading (status (entry cc' e))"
  using flush_settles(2) [OF wf ret] flush_settles(3) [OF wf ret e q]
  by (auto simp: quiet_entry_def settled_def inflight_entries_def Let_def)

lemma flush_page_durable:
  assumes wf: "tp_wf cc" and ret: "treepass_flush cc tid = Inr cc'" and a: "page_aligned (cfg cc) a"
    and q: "treepass_lookup cc a \<noteq> TP_UNMAPPED_ENTRY \<Longrightarrow> quiet_entry cc (treepass_lookup cc a)"
  shows "disk cc' a = page_view cc a"
proof -
  let ?e = "treepass_lookup cc a"
  note f = flush_settles(1) [OF wf ret]
  note wf' = flush_step_wf [OF f]
  have l: "treepass_lookup cc' = treepass_lookup cc" and v: "page_view cc' a = page_view cc a"
    using f a by (auto simp: flush_step_def tp_pres_view)
  show ?thesis
  proof (cases "?e = TP_UNMAPPED_ENTRY")
    case True
    then show ?thesis using v l by (simp add: page_view_def Let_def)
  next
    case False
    have e: "?e < page_capacity (cfg cc)" by (rule tp_wf_lookupD(1) [OF wf False])
    note c = flush_entry_clean [OF wf ret e q [OF False]]
    have "\<not> st_free (status (entry cc' ?e))" and da: "disk_addr (entry cc' ?e) = a"
        "disk_addr (entry cc' ?e) \<noteq> TP_UNMAPPED_ADDR"
      using tp_wf_lookupD [OF wf', of a] tp_wf_lookup_addr [OF wf', of a] False l a
        flush_step_cfg [OF f] by auto
    then have "page_data (entry cc' ?e) = disk cc' a"
      using tp_wf_entryD(7) [OF wf', of ?e] c e flush_step_cfg [OF f] by auto
    then show ?thesis using v l False c(2) by (simp add: page_view_def Let_def)
  qed
qed


section \<open>Pages being loaded that are in no request\<close>

text \<open>
  While a prefetch builds its request, the pages it has mapped so far are loading and in no
  request yet; nothing the thread does meanwhile touches them.
\<close>

definition unsubmitted :: "'d treepass \<Rightarrow> nat \<Rightarrow> u64 \<Rightarrow> bool" where
  "unsubmitted cc e a \<longleftrightarrow> rq_page_ok IO_PREADV a cc e \<and> e \<notin> inflight_entries cc"

definition loads_kept :: "'d treepass \<Rightarrow> 'd treepass \<Rightarrow> bool" where
  "loads_kept cc cc' \<longleftrightarrow> (\<forall>e a. unsubmitted cc e a \<longrightarrow> unsubmitted cc' e a)"

lemma loads_kept_refl: "loads_kept cc cc"
  by (simp add: loads_kept_def)

lemma loads_kept_trans: "loads_kept a b \<Longrightarrow> loads_kept b c \<Longrightarrow> loads_kept a c"
  by (simp add: loads_kept_def)

lemma unsubmitted_cong:
  assumes "unsubmitted cc e a" and "cfg cc' = cfg cc" and "e \<notin> inflight_entries cc'"
    and "disk_addr (entry cc' e) = disk_addr (entry cc e)"
    and "st_free (status (entry cc' e)) = st_free (status (entry cc e))"
    and "st_loading (status (entry cc' e)) = st_loading (status (entry cc e))"
  shows "unsubmitted cc' e a"
  using assms by (simp add: unsubmitted_def rq_page_ok_def Let_def)

lemma loads_kept_core:
  "entry cc' = entry cc \<Longrightarrow> inflight cc' = inflight cc \<Longrightarrow> cfg cc' = cfg cc \<Longrightarrow> loads_kept cc cc'"
  unfolding loads_kept_def
  by (intro allI impI, rule unsubmitted_cong) (auto simp: unsubmitted_def inflight_entries_def)

lemma wb_marks_disk_addr: "wb_marks S cc cc' \<Longrightarrow> disk_addr (entry cc' i) = disk_addr (entry cc i)"
  by (simp add: wb_marks_def)

lemma loads_kept_start_writeback:
  assumes wf: "tp_wf cc" and e: "e < page_capacity (cfg cc)"
    and ret: "start_writeback_entry tid np e cc = Inr cc'"
  shows "loads_kept cc cc'"
  using start_writeback_effect [OF wf e ret]
proof (elim disjE exE conjE)
  fix S assume S: "e \<in> S" "wb_marks S cc cc'" "\<forall>i\<in>S. \<not> st_loading (status (entry cc' i))"
    "\<forall>i\<in>inflight_entries cc'. i \<in> inflight_entries cc \<or> \<not> st_loading (status (entry cc' i))"
  have c: "cfg cc' = cfg cc" by (rule tp_pres_cfg [OF pres_start_writeback_entry [OF wf e ret]])
  have "unsubmitted cc' i a" if u: "unsubmitted cc i a" for i a
  proof (rule unsubmitted_cong [OF u c])
    have ld: "st_loading (status (entry cc i))" "i \<notin> inflight_entries cc"
      using u by (auto simp: unsubmitted_def rq_page_ok_def Let_def)
    have l': "st_loading (status (entry cc' i)) = st_loading (status (entry cc i))"
      using S(2) by (simp add: wb_marks_def flag_simps)
    then show "st_loading (status (entry cc' i)) = st_loading (status (entry cc i))" .
    show "i \<notin> inflight_entries cc'" using S(4) ld l' by auto
    show "disk_addr (entry cc' i) = disk_addr (entry cc i)" by (rule wb_marks_disk_addr [OF S(2)])
    show "st_free (status (entry cc' i)) = st_free (status (entry cc i))"
      using S(2) by (simp add: wb_marks_def flag_simps)
  qed
  then show ?thesis by (simp add: loads_kept_def)
qed (auto simp: loads_kept_refl)

lemma loads_kept_iterM:
  assumes "tp_wf cc" and "iterM f xs cc = Inr cc'"
    and "\<And>x s s'. x \<in> set xs \<Longrightarrow> tp_wf s \<Longrightarrow> cfg s = cfg cc \<Longrightarrow> f x s = Inr s' \<Longrightarrow>
      tp_pres s s' \<and> loads_kept s s'"
  shows "loads_kept cc cc'"
proof -
  have "tp_pres cc cc' \<and> loads_kept cc cc'"
  proof (rule iterM_invariant [OF assms(2)])
    show "tp_pres cc cc \<and> loads_kept cc cc"
      using assms(1) by (simp add: tp_pres_refl loads_kept_refl)
    show "tp_pres cc s' \<and> loads_kept cc s'"
      if "x \<in> set xs" "tp_pres cc s \<and> loads_kept cc s" "f x s = Inr s'" for x s s'
      using that assms(3) [of x s s'] tp_pres_wf tp_pres_cfg
      by (blast intro: tp_pres_trans loads_kept_trans)
  qed
  then show ?thesis by blast
qed

lemma loads_kept_batch_writeback:
  assumes wf: "tp_wf cc" and b: "b < batch_capacity (cfg cc)"
    and ret: "treepass_batch_start_writeback cc tid b np = Inr cc'"
  shows "loads_kept cc cc'"
proof (rule loads_kept_iterM [OF wf ret [unfolded treepass_batch_start_writeback_def Let_def]])
  fix e s s' assume e: "e \<in> set [b * TP_ENTRIES_PER_BATCH..<b * TP_ENTRIES_PER_BATCH + TP_ENTRIES_PER_BATCH]"
    and s: "tp_wf s" "cfg s = cfg cc" and r: "start_writeback_entry tid np e s = Inr s'"
  have ec: "e < page_capacity (cfg s)" using batch_entry_lt [OF tp_wf_cfg [OF wf] b e] s by simp
  show "tp_pres s s' \<and> loads_kept s s'"
    using pres_start_writeback_entry [OF s(1) ec r] loads_kept_start_writeback [OF s(1) ec r] ..
qed

lemma io_complete_disk_addr:
  assumes "io_complete rq ok cc = Inr cc'"
  shows "disk_addr (entry cc' i) = disk_addr (entry cc i)" and "i \<notin> set (rq_iovec rq) \<Longrightarrow>
    st_free (status (entry cc' i)) = st_free (status (entry cc i))"
proof -
  have w: "disk_addr (entry (fold (write_callback_page np) es c) i) = disk_addr (entry c i)" for np es and c :: "'a treepass"
    by (rule fold_keeps) (simp add: write_callback_page_def Let_def flag_ops treepass_set_clock_def)
  have r: "disk_addr (entry (fold treepass_finish_load es c) i) = disk_addr (entry c i)" for es and c :: "'a treepass"
    by (rule fold_keeps) (simp add: finish_load_upd)
  show "disk_addr (entry cc' i) = disk_addr (entry cc i)"
    using assms w r
    by (auto simp: io_complete_def treepass_write_callback_def treepass_prefetch_callback_def Let_def
        split: if_splits io_cmd.splits option.splits)
  show "i \<notin> set (rq_iovec rq) \<Longrightarrow> st_free (status (entry cc' i)) = st_free (status (entry cc i))"
    using assms
    by (auto simp: io_complete_def treepass_write_callback_def treepass_prefetch_callback_def Let_def
        fold_other split: if_splits io_cmd.splits option.splits)
qed

lemma loads_kept_reap:
  assumes wf: "tp_wf cc" and ret: "io_reap ev cc = Inr cc'"
  shows "loads_kept cc cc'"
proof (cases "fst ev < length (inflight cc)")
  case True
  let ?rq = "inflight cc ! fst ev"
  define cc1 where "cc1 = cc\<lparr>inflight := take (fst ev) (inflight cc) @ drop (Suc (fst ev)) (inflight cc)\<rparr>"
  note r = inflight_remove [OF wf True cc1_def refl]
  have c: "io_complete ?rq (snd ev) cc1 = Inr cc'"
    using ret True by (simp add: io_reap_def Let_def cc1_def)
  note ef = io_complete_effect [OF c r(3)] and da = io_complete_disk_addr [OF c]
  have in_rq: "set (rq_iovec ?rq) \<subseteq> inflight_entries cc"
    using nth_mem [OF True] by (auto simp: inflight_entries_def)
  have sub: "inflight_entries cc1 \<subseteq> inflight_entries cc"
    by (auto simp: inflight_entries_def cc1_def dest: in_set_takeD in_set_dropD)
  have cf: "cfg cc' = cfg cc" by (rule tp_pres_cfg [OF pres_io_reap [OF wf ret]])
  have "unsubmitted cc' i a" if u: "unsubmitted cc i a" for i a
  proof -
    have i: "i \<notin> set (rq_iovec ?rq)" "i \<notin> inflight_entries cc'"
      using u in_rq sub ef(3) by (auto simp: unsubmitted_def)
    then show ?thesis
      using ef(1) [of i] da [of i]
      by (intro unsubmitted_cong [OF u cf]) (simp_all add: completed_def Let_def cc1_def)
  qed
  then show ?thesis by (simp add: loads_kept_def)
next
  case False
  then show ?thesis using ret by (simp add: io_reap_def Let_def loads_kept_refl)
qed

lemma loads_kept_wait:
  assumes wf: "tp_wf cc" and ret: "treepass_wait cc = Inr cc'"
  shows "loads_kept cc cc'"
proof (cases "reap cc")
  case Nil
  then show ?thesis using ret by (simp add: treepass_wait_def loads_kept_refl)
next
  case (Cons ev evs)
  have p: "tp_wf (cc\<lparr>reap := evs\<rparr>)" by (rule tp_pres_wf [OF pres_fields(4) [OF wf]])
  have "loads_kept cc (cc\<lparr>reap := evs\<rparr>)" by (rule loads_kept_core) simp_all
  moreover have "loads_kept (cc\<lparr>reap := evs\<rparr>) cc'"
    using ret Cons by (intro loads_kept_reap [OF p]) (simp add: treepass_wait_def)
  ultimately show ?thesis by (rule loads_kept_trans)
qed

end
