(* ===== verification/TpEvictPres.thy ===== *)
theory TpEvictPres
  imports TpDurable
begin

text \<open>
  Eviction. Run by one thread, \<open>treepass_try_evict\<close> comes down to a decision
  (\<open>try_evict_eq\<close>): a page that survives the sweep loses a clock tick or nothing, a page
  whose status word is exactly \<open>TP_EVICTABLE_STATUS\<close> with no reference and no pin is unmapped
  and freed, and any other page is left exactly as it was, the lock attempt undone. Since an
  evictable page agrees with the device, eviction does not change the memory.
\<close>

section \<open>Unmapping and freeing an entry\<close>

lemma upd_entry_upd_entry [simp]:
  "upd_entry (upd_entry cc e f) e g = upd_entry cc e (\<lambda>x. g (f x))"
  by (simp add: upd_entry_def)

lemma upd_entry_id: "f (entry cc e) = entry cc e \<Longrightarrow> upd_entry cc e f = cc"
  by (simp add: upd_entry_def)

lemma set_lookup_frame [simp]:
  "cfg (set_lookup cc a v) = cfg cc" "entry (set_lookup cc a v) = entry cc"
  "disk (set_lookup cc a v) = disk cc" "inflight (set_lookup cc a v) = inflight cc"
  "refcount (set_lookup cc a v) = refcount cc" "pincount (set_lookup cc a v) = pincount cc"
  "free_hand (set_lookup cc a v) = free_hand cc" "reap (set_lookup cc a v) = reap cc"
  "batch_busy (set_lookup cc a v) = batch_busy cc"
  "inflight_entries (set_lookup cc a v) = inflight_entries cc"
  "lookup (set_lookup cc a v) l = (if l = lookup_no (cfg cc) a then v else lookup cc l)"
  "treepass_lookup (set_lookup cc a v) b =
     (if lookup_no (cfg cc) b = lookup_no (cfg cc) a then v else treepass_lookup cc b)"
  by (simp_all add: set_lookup_def treepass_lookup_def inflight_entries_def)

lemma unmap_free_frame [simp]:
  "cfg (unmap_entry e a cc) = cfg cc" "cfg (free_entry e cc) = cfg cc"
  "disk (unmap_entry e a cc) = disk cc" "disk (free_entry e cc) = disk cc"
  "inflight (unmap_entry e a cc) = inflight cc" "inflight (free_entry e cc) = inflight cc"
  "refcount (unmap_entry e a cc) = refcount cc" "refcount (free_entry e cc) = refcount cc"
  "pincount (unmap_entry e a cc) = pincount cc" "pincount (free_entry e cc) = pincount cc"
  "free_hand (unmap_entry e a cc) = free_hand cc" "free_hand (free_entry e cc) = free_hand cc"
  "batch_busy (unmap_entry e a cc) = batch_busy cc" "batch_busy (free_entry e cc) = batch_busy cc"
  "inflight_entries (unmap_entry e a cc) = inflight_entries cc"
  "inflight_entries (free_entry e cc) = inflight_entries cc"
  "treepass_lookup (free_entry e cc) = treepass_lookup cc"
  "treepass_lookup (unmap_entry e a cc) b =
     (if lookup_no (cfg cc) b = lookup_no (cfg cc) a then TP_UNMAPPED_ENTRY else treepass_lookup cc b)"
  by (simp_all add: unmap_entry_def free_entry_def)

definition release_entry :: "nat \<Rightarrow> 'd treepass \<Rightarrow> 'd treepass" where
  "release_entry e cc = free_entry e (unmap_entry e (disk_addr (entry cc e)) cc)"

lemma release_entry_entry [simp]:
  "entry (release_entry e cc) i =
     (if i = e then (entry cc e)\<lparr>disk_addr := TP_UNMAPPED_ADDR, entry_time := 0,
                      ptype := PAGE_TYPE_INVALID, status := TP_FREE_STATUS\<rparr>
      else entry cc i)"
  by (simp add: release_entry_def free_entry_def unmap_entry_def)

lemma release_entry_frame [simp]:
  "cfg (release_entry e cc) = cfg cc" "disk (release_entry e cc) = disk cc"
  "inflight (release_entry e cc) = inflight cc" "refcount (release_entry e cc) = refcount cc"
  "pincount (release_entry e cc) = pincount cc"
  "inflight_entries (release_entry e cc) = inflight_entries cc"
  "free_hand (release_entry e cc) = free_hand cc" "batch_busy (release_entry e cc) = batch_busy cc"
  "treepass_lookup (release_entry e cc) b =
     (if lookup_no (cfg cc) b = lookup_no (cfg cc) (disk_addr (entry cc e)) then TP_UNMAPPED_ENTRY
      else treepass_lookup cc b)"
  by (simp_all add: release_entry_def)

lemma release_entry_wf:
  assumes wf: "tp_wf cc" and e: "e < page_capacity (cfg cc)"
    and a: "disk_addr (entry cc e) \<noteq> TP_UNMAPPED_ADDR" and w: "waiters (entry cc e) = []"
    and infl: "e \<notin> inflight_entries cc"
  shows "tp_wf (release_entry e cc)"
    and "page_aligned (cfg cc) b \<Longrightarrow> page_view (release_entry e cc) b =
      (if b = disk_addr (entry cc e) then disk cc b else page_view cc b)"
proof -
  let ?c = "release_entry e cc" and ?a = "disk_addr (entry cc e)"
  have la: "treepass_lookup cc ?a = e" by (rule tp_wf_entryD(1) [OF wf e a])
  have al: "page_aligned (cfg cc) ?a" by (rule tp_wf_mapped_aligned(1) [OF wf e a])
  have eu: "e \<noteq> TP_UNMAPPED_ENTRY" using e capacity_lt_unmapped [OF tp_wf_cfg [OF wf]] by simp
  have lk: "lookup ?c l = (if l = lookup_no (cfg cc) ?a then TP_UNMAPPED_ENTRY else lookup cc l)" for l
    by (simp add: release_entry_def free_entry_def unmap_entry_def set_lookup_def)
  have only: "l = lookup_no (cfg cc) ?a" if "lookup cc l = e" for l
    using wf that eu by (auto simp: tp_wf_def tp_map_ok_def Let_def)
  have "tp_map_ok ?c"
    using wf only by (auto simp: tp_wf_def tp_map_ok_def lk Let_def)
  moreover have "tp_entry_ok ?c i" if i: "i < page_capacity (cfg cc)" for i
  proof (cases "i = e")
    case True
    then show ?thesis using w by (simp add: tp_entry_ok_def flag_simps)
  next
    case False
    have "lookup_no (cfg cc) (disk_addr (entry cc i)) \<noteq> lookup_no (cfg cc) ?a"
      if "disk_addr (entry cc i) \<noteq> TP_UNMAPPED_ADDR"
      using tp_wf_entryD(1) [OF wf i that] la False by (auto simp: treepass_lookup_def)
    then show ?thesis using False tp_wf_entryD [OF wf i] by (auto simp: tp_entry_ok_def Let_def)
  qed
  moreover have "tp_inflight_ok ?c"
  proof (rule tp_inflight_ok_cong)
    show "tp_inflight_ok cc" using wf by (simp add: tp_wf_def)
    show "rq_page_ok cmd b ?c i" if "i \<in> inflight_entries cc" "rq_page_ok cmd b cc i" for cmd b i
      using that infl by (auto simp: rq_page_ok_def)
  qed simp_all
  ultimately show "tp_wf ?c" using wf by (simp add: tp_wf_def)
  assume b: "page_aligned (cfg cc) b"
  show "page_view ?c b = (if b = ?a then disk cc b else page_view cc b)"
  proof (cases "b = ?a")
    case False
    then have "lookup_no (cfg cc) b \<noteq> lookup_no (cfg cc) ?a"
      using aligned_lookup_no_inj [OF b al] by blast
    moreover have "treepass_lookup cc b \<noteq> e"
      using only [of "lookup_no (cfg cc) b"] calculation by (auto simp: treepass_lookup_def)
    ultimately show ?thesis using False by (simp add: page_view_def Let_def)
  qed (simp add: page_view_def)
qed

lemma pres_release_entry:
  assumes wf: "tp_wf cc" and e: "e < page_capacity (cfg cc)"
    and a: "disk_addr (entry cc e) \<noteq> TP_UNMAPPED_ADDR" and w: "waiters (entry cc e) = []"
    and c: "st_clean (status (entry cc e))" "\<not> st_loading (status (entry cc e))"
      "\<not> st_writeback (status (entry cc e))"
  shows "tp_pres cc (release_entry e cc)"
proof -
  note r = release_entry_wf [OF wf e a w not_inflight [OF wf c(3,2)]]
  have eu: "e \<noteq> TP_UNMAPPED_ENTRY" using e capacity_lt_unmapped [OF tp_wf_cfg [OF wf]] by simp
  have "page_view cc (disk_addr (entry cc e)) = disk cc (disk_addr (entry cc e))"
    using tp_wf_entryD(1,7) [OF wf e a] c eu by (simp add: page_view_def)
  then show ?thesis using r by (simp add: tp_pres_def tp_same_def)
qed

section \<open>One entry\<close>

definition unreferenced :: "'d treepass \<Rightarrow> nat \<Rightarrow> bool" where
  "unreferenced cc e \<longleftrightarrow> (\<forall>thr_i<TP_RC_WIDTH. treepass_get_ref cc e thr_i = 0)"

definition evictable :: "'d treepass \<Rightarrow> nat \<Rightarrow> bool" where
  "evictable cc e \<longleftrightarrow>
     status (entry cc e) = TP_EVICTABLE_STATUS \<and> treepass_get_pin cc e = 0 \<and> unreferenced cc e"

lemma get_ref_mod: "treepass_get_ref cc e (t mod TP_RC_WIDTH) = treepass_get_ref cc e t"
  by (simp add: treepass_get_ref_def ref_index_def)

lemma get_ref_frame [simp]:
  "treepass_get_ref (upd_entry cc i f) e t = treepass_get_ref cc e t"
  "treepass_get_pin (upd_entry cc i f) e = treepass_get_pin cc e"
  "treepass_get_pin (treepass_inc_ref cc i t') e = treepass_get_pin cc e"
  "treepass_get_pin (treepass_dec_ref cc i t') e = treepass_get_pin cc e"
  by (simp_all add: treepass_get_ref_def treepass_get_pin_def)

lemma ref_upd_commute:
  "treepass_dec_ref (upd_entry cc e f) i t = upd_entry (treepass_dec_ref cc i t) e f"
  "treepass_dec_ref (set_lookup cc a v) i t = set_lookup (treepass_dec_ref cc i t) a v"
  by (simp_all add: treepass_dec_ref_def upd_entry_def set_lookup_def Let_def)

lemma set_lookup_upd_commute:
  "set_lookup (upd_entry cc e f) a v = upd_entry (set_lookup cc a v) e f"
  by (simp add: set_lookup_def upd_entry_def)

text \<open>The own reference of the evicting thread is the only one allowed.\<close>

lemma other_readers_inc:
  assumes "tp_cfg_wf (cfg cc)" and "e < page_capacity (cfg cc)" and "treepass_get_ref cc e tid = 0"
  shows "other_readers (treepass_inc_ref cc e tid) tid e \<longleftrightarrow> \<not> unreferenced cc e"
proof -
  have "treepass_get_ref (treepass_inc_ref cc e tid) e t =
      (if t = tid mod TP_RC_WIDTH then 1 else treepass_get_ref cc e t)"
    if "t < TP_RC_WIDTH" for t
    using that assms(3) get_ref_mod [of cc e tid] by (auto simp: get_ref_inc [OF assms(1,2,2)])
  moreover have "treepass_get_ref cc e (tid mod TP_RC_WIDTH) = 0"
    using assms(3) by (simp add: get_ref_mod)
  ultimately show ?thesis
    by (auto simp: other_readers_def unreferenced_def)
qed

lemma other_readers_upd [simp]: "other_readers (upd_entry cc i f) tid e = other_readers cc tid e"
  by (simp add: other_readers_def)

lemma locked_status:
  "(TP_EVICTABLE_STATUS OR TP_CLAIMED) OR TP_WRITELOCKED = TP_LOCKED_EVICTABLE_STATUS"
  by (simp add: tp_statuses or.assoc)

lemma unlocked_status:
  "(((TP_EVICTABLE_STATUS OR TP_CLAIMED) OR TP_WRITELOCKED) AND NOT TP_WRITELOCKED) AND NOT TP_CLAIMED
     = TP_EVICTABLE_STATUS"
  by (simp add: tp_statuses tp_flags)

lemma lock_evictable:
  assumes c: "tp_cfg_wf (cfg cc)" and e: "e < page_capacity (cfg cc)"
    and s: "status (entry cc e) = TP_EVICTABLE_STATUS" and r: "treepass_get_ref cc e tid = 0"
  shows "treepass_try_get_read cc tid e False = (GET_RC_SUCCESS, treepass_inc_ref cc e tid)"
    and "treepass_try_get_claim (treepass_inc_ref cc e tid) e = (GET_RC_SUCCESS,
      upd_entry (treepass_inc_ref cc e tid) e (status_update (\<lambda>s. s OR TP_CLAIMED)))"
  using s by (simp_all add: treepass_try_get_read_def treepass_try_get_claim_def
      treepass_set_flag_def Let_def flag_simps)

lemma status_update_fix: "f (status x) = status x \<Longrightarrow> status_update f x = x"
  by (cases x) simp

lemma try_evict_eq:
  assumes wf: "tp_wf cc" and e: "e < page_capacity (cfg cc)"
  shows "treepass_try_evict cc tid e ee_pass =
    (if ee_pass \<and> entry_time (entry cc e) \<noteq> 0 then Inr (False, cc)
     else if \<not> ee_pass \<and> status_clock (status (entry cc e)) \<noteq> 0
     then Inr (False, upd_entry cc e (status_update (\<lambda>s. s - TP_CLOCK_ONE)))
     else if evictable cc e
     then (if waiters (entry cc e) \<noteq> [] then Inl Abort else Inr (True, release_entry e cc))
     else Inr (False, cc))"
proof -
  note c = tp_wf_cfg [OF wf]
  let ?survives = "ee_pass \<and> entry_time (entry cc e) \<noteq> 0 \<or>
      \<not> ee_pass \<and> status_clock (status (entry cc e)) \<noteq> 0"
  let ?pre = "status (entry cc e) = TP_EVICTABLE_STATUS \<and> treepass_get_ref cc e tid = 0
      \<and> treepass_get_pin cc e = 0"
  show ?thesis
  proof (cases "?survives \<or> \<not> ?pre")
    case True
    have "unreferenced cc e \<Longrightarrow> treepass_get_ref cc e tid = 0"
      using get_ref_mod [of cc e tid]
      by (metis unreferenced_def mod_less_divisor TP_RC_WIDTH_def zero_less_numeral)
    then have "\<not> ?pre \<Longrightarrow> \<not> evictable cc e" by (auto simp: evictable_def)
    with True show ?thesis
      by (auto simp: treepass_try_evict_def treepass_try_dec_clock_def Let_def)
  next
    case False
    then have s: "status (entry cc e) = TP_EVICTABLE_STATUS" and r: "treepass_get_ref cc e tid = 0"
      and p: "treepass_get_pin cc e = 0" and ns: "\<not> ?survives" by auto
    define c1 where "c1 = treepass_inc_ref cc e tid"
    define c2 where "c2 = upd_entry c1 e (status_update (\<lambda>s. s OR TP_CLAIMED))"
    define c3 where "c3 = upd_entry c2 e (status_update (\<lambda>s. s OR TP_WRITELOCKED))"
    have ev: "evictable cc e \<longleftrightarrow> \<not> other_readers c1 tid e"
      using s p other_readers_inc [OF c e r] by (simp add: evictable_def c1_def)
    have s1: "entry c1 = entry cc" by (simp add: c1_def)
    have s2: "status (entry c2 e) = TP_EVICTABLE_STATUS OR TP_CLAIMED" by (simp add: c2_def s1 s)
    have s3: "status (entry c3 e) = TP_LOCKED_EVICTABLE_STATUS"
      by (simp add: c3_def s2 locked_status)
    have w: "treepass_try_get_write c2 tid e = (if other_readers c1 tid e
        then (GET_RC_CONFLICT, snd (treepass_clear_flag c3 e TP_WRITELOCKED)) else (GET_RC_SUCCESS, c3))"
      using s3 by (simp add: treepass_try_get_write_def flag_ops c3_def [symmetric] Let_def flag_simps)
        (simp add: c3_def c2_def)
    have ld: "treepass_test_flag c2 e TP_LOADING = 0" by (simp add: flag_simps s2)
    have same: "upd_entry cc e (status_update f) = cc"
      if "f TP_EVICTABLE_STATUS = TP_EVICTABLE_STATUS" for f
      using that s by (intro upd_entry_id status_update_fix) simp
    have undo: "treepass_dec_ref (treepass_unclaim (snd (treepass_clear_flag c3 e TP_WRITELOCKED)) e) e tid = cc"
      by (simp add: treepass_unclaim_def flag_ops ref_upd_commute c3_def c2_def)
        (simp add: c1_def same unlocked_status)
    have a: "disk_addr (entry cc e) \<noteq> TP_UNMAPPED_ADDR"
      using tp_wf_entryD(8) [OF wf e] s by (auto simp: flag_simps)
    have evl: "obind (evict_locked e c3) (\<lambda>cc4. Inr (True, treepass_dec_ref cc4 e tid)) =
        (if waiters (entry cc e) \<noteq> [] then Inl Abort else Inr (True, release_entry e cc))"
      using a by (simp add: evict_locked_def Let_def c3_def c2_def s1 unmap_entry_def free_entry_def
          release_entry_def set_lookup_upd_commute ref_upd_commute) (simp add: c1_def)
    note lk = lock_evictable [OF c e s r, folded c1_def, folded c2_def]
    have clk: "status_clock TP_EVICTABLE_STATUS = 0"
      by (simp add: status_clock_def tp_statuses tp_flags tp_clock_consts)
    have pins: "treepass_get_pin c3 e = 0" using p by (simp add: c3_def c2_def c1_def)
    show ?thesis
      using ns s r p
      by (simp add: treepass_try_evict_def treepass_try_dec_clock_def lk clk ld w undo ev s3 evl pins
          Let_def)
  qed
qed

text \<open>
  Evicting batches: the invariant and the memory are kept, the pages that nobody uses are all
  gone after \<open>treepass_evict_all\<close>, and the clock hand finds a free batch whenever there is one.
\<close>

section \<open>The invariant\<close>

lemma evictable_flags:
  assumes "tp_wf cc" and "e < page_capacity (cfg cc)" and "evictable cc e"
  shows "disk_addr (entry cc e) \<noteq> TP_UNMAPPED_ADDR" "st_clean (status (entry cc e))"
    "\<not> st_loading (status (entry cc e))" "\<not> st_writeback (status (entry cc e))"
  using assms tp_wf_entryD(8) [OF assms(1,2)] by (auto simp: evictable_def flag_simps)

lemma pres_try_evict [inv_intros]:
  assumes wf: "tp_wf cc" and e: "e < page_capacity (cfg cc)"
    and ret: "treepass_try_evict cc tid e ee = Inr (b, cc')"
  shows "tp_pres cc cc'"
  using ret pres_try_dec_clock [OF wf e] tp_pres_refl [OF wf] evictable_flags [OF wf e]
  by (auto simp: try_evict_eq [OF wf e] treepass_try_dec_clock_def split: if_splits
      intro: pres_release_entry [OF wf e])

lemma lookup_release:
  "lookup (release_entry e cc) l =
     (if l = lookup_no (cfg cc) (disk_addr (entry cc e)) then TP_UNMAPPED_ENTRY else lookup cc l)"
  by (simp add: release_entry_def free_entry_def unmap_entry_def set_lookup_def)

lemma try_evict_fields:
  assumes wf: "tp_wf cc" and e: "e < page_capacity (cfg cc)"
    and ret: "treepass_try_evict cc tid e ee = Inr (b, cc')"
  shows "free_hand cc' = free_hand cc" "batch_busy cc' = batch_busy cc"
    "refcount cc' = refcount cc" "pincount cc' = pincount cc" "cfg cc' = cfg cc"
    "i \<noteq> e \<Longrightarrow> entry cc' i = entry cc i"
    "lookup cc l = TP_UNMAPPED_ENTRY \<Longrightarrow> lookup cc' l = TP_UNMAPPED_ENTRY"
  using ret by (auto simp: try_evict_eq [OF wf e] lookup_release split: if_splits)

lemma loads_kept_try_evict:
  assumes wf: "tp_wf cc" and e: "e < page_capacity (cfg cc)"
    and ret: "treepass_try_evict cc tid e ee = Inr (b, cc')"
  shows "loads_kept cc cc'"
proof -
  have "unsubmitted cc' i a" if u: "unsubmitted cc i a" for i a
  proof -
    have s: "st_loading (status (entry cc i))" "i \<notin> inflight_entries cc"
      using u by (auto simp: unsubmitted_def rq_page_ok_def Let_def)
    have "i \<noteq> e \<or> \<not> evictable cc e" using s by (auto simp: evictable_def flag_simps)
    then show ?thesis
      using ret s by (intro unsubmitted_cong [OF u])
        (auto simp: try_evict_eq [OF wf e] flag_simps split: if_splits)
  qed
  then show ?thesis by (simp add: loads_kept_def)
qed

text \<open>What the passes over a batch keep: the memory and everything but entries and the map.\<close>

definition evict_rel :: "'d treepass \<Rightarrow> 'd treepass \<Rightarrow> bool" where
  "evict_rel cc cc' \<longleftrightarrow> tp_pres cc cc' \<and> free_hand cc' = free_hand cc \<and>
     batch_busy cc' = batch_busy cc \<and> refcount cc' = refcount cc \<and> pincount cc' = pincount cc \<and>
     (\<forall>l. lookup cc l = TP_UNMAPPED_ENTRY \<longrightarrow> lookup cc' l = TP_UNMAPPED_ENTRY) \<and>
     loads_kept cc cc'"

lemma evict_rel_refl: "tp_wf cc \<Longrightarrow> evict_rel cc cc"
  by (simp add: evict_rel_def tp_pres_refl loads_kept_refl)

lemma evict_rel_trans: "evict_rel a b \<Longrightarrow> evict_rel b c \<Longrightarrow> evict_rel a c"
  unfolding evict_rel_def by (metis tp_pres_trans loads_kept_trans)

lemma evict_relD:
  assumes "evict_rel cc cc'"
  shows "tp_wf cc'" "cfg cc' = cfg cc" "tp_pres cc cc'"
  using assms by (auto simp: evict_rel_def dest: tp_pres_wf tp_pres_cfg)

lemma evict_rel_try_evict:
  assumes "tp_wf cc" and "e < page_capacity (cfg cc)"
    and "treepass_try_evict cc tid e ee = Inr (b, cc')"
  shows "evict_rel cc cc'"
  using pres_try_evict [OF assms] try_evict_fields [OF assms] loads_kept_try_evict [OF assms]
  by (simp add: evict_rel_def)

lemma evict_rel_iterM:
  assumes "tp_wf cc" and "iterM f xs cc = Inr cc'"
    and "\<And>x s s'. x \<in> set xs \<Longrightarrow> tp_wf s \<Longrightarrow> cfg s = cfg cc \<Longrightarrow> f x s = Inr s' \<Longrightarrow> evict_rel s s'"
  shows "evict_rel cc cc'"
proof (rule iterM_invariant [OF assms(2), of "evict_rel cc"])
  show "evict_rel cc cc" using assms(1) by (rule evict_rel_refl)
  show "evict_rel cc s'" if "x \<in> set xs" "evict_rel cc s" "f x s = Inr s'" for x s s'
    using that assms(3) [of x s s'] evict_relD [OF that(2)] by (blast intro: evict_rel_trans)
qed

lemma evict_rel_batch_ee:
  assumes wf: "tp_wf cc" and b: "b < batch_capacity (cfg cc)"
    and ret: "treepass_evict_batch_ee cc tid b = Inr (n, cc')"
  shows "evict_rel cc cc'"
proof -
  have "evict_rel cc (snd (n, cc'))"
  proof (rule iterM_invariant [OF ret [unfolded treepass_evict_batch_ee_def Let_def]])
    show "evict_rel cc (snd (0, cc))" using wf by (simp add: evict_rel_refl)
    fix e x x' assume e: "e \<in> set [b * TP_ENTRIES_PER_BATCH..<b * TP_ENTRIES_PER_BATCH + TP_ENTRIES_PER_BATCH]"
      and p: "evict_rel cc (snd x)" and r: "evict_ee_entry tid e x = Inr x'"
    note d = evict_relD [OF p]
    obtain bb c where "treepass_try_evict (snd x) tid e True = Inr (bb, c)" "snd x' = c"
      using r by (auto simp: evict_ee_entry_def elim!: obind_InrE)
    then have "evict_rel (snd x) (snd x')"
      using batch_entry_lt [OF tp_wf_cfg [OF wf] b e] d by (auto intro: evict_rel_try_evict)
    with p show "evict_rel cc (snd x')" by (rule evict_rel_trans)
  qed
  then show ?thesis by simp
qed

lemma evict_rel_batch_ei: "tp_wf cc \<Longrightarrow> evict_rel cc (evict_batch_ei cc)"
  using pres_evict_batch_ei [of cc]
  by (auto simp: evict_rel_def evict_batch_ei_def platform_get_timestamp_def Let_def
      intro: loads_kept_core)

lemma evict_entries_rel:
  assumes "tp_wf cc" and "b < batch_capacity (cfg cc)"
    and "iterM (evict_entry tid)
      [b * TP_ENTRIES_PER_BATCH..<b * TP_ENTRIES_PER_BATCH + TP_ENTRIES_PER_BATCH] cc = Inr cc'"
  shows "evict_rel cc cc'"
proof (rule evict_rel_iterM [OF assms(1,3)])
  fix e s s' assume e: "e \<in> set [b * TP_ENTRIES_PER_BATCH..<b * TP_ENTRIES_PER_BATCH + TP_ENTRIES_PER_BATCH]"
    and s: "tp_wf s" "cfg s = cfg cc" and r: "evict_entry tid e s = Inr s'"
  show "evict_rel s s'"
    using batch_entry_lt [OF tp_wf_cfg [OF assms(1)] assms(2) e] s r
    by (auto simp: evict_entry_def elim!: obind_InrE intro: evict_rel_try_evict)
qed

lemma evict_rel_batch:
  assumes wf: "tp_wf cc" and b: "b < batch_capacity (cfg cc)"
    and ret: "treepass_evict_batch cc tid b fp = Inr cc'"
  shows "evict_rel cc cc'"
proof -
  from ret obtain cc1 where it: "iterM (evict_entry tid)
      [b * TP_ENTRIES_PER_BATCH..<b * TP_ENTRIES_PER_BATCH + TP_ENTRIES_PER_BATCH] cc = Inr cc1"
    and cc': "cc' = (if fp then evict_batch_ei cc1 else cc1)"
    by (auto simp: treepass_evict_batch_def Let_def elim!: obind_InrE)
  have p: "evict_rel cc cc1" by (rule evict_entries_rel [OF wf b it])
  then show ?thesis
    using evict_rel_batch_ei [OF evict_relD(1) [OF p]] by (auto simp: cc' intro: evict_rel_trans)
qed

section \<open>Evicting everything\<close>

text \<open>A clean page that nobody uses, its clock at \<open>k\<close>.\<close>

definition idle_clean :: "'d treepass \<Rightarrow> nat \<Rightarrow> nat \<Rightarrow> bool" where
  "idle_clean cc e k \<longleftrightarrow> k < 8 \<and>
     status (entry cc e) = TP_EVICTABLE_STATUS + of_nat k * TP_CLOCK_ONE \<and>
     treepass_get_pin cc e = 0 \<and> unreferenced cc e"

lemma idle_status:
  assumes "k < 8"
  shows "unat (status_clock (TP_EVICTABLE_STATUS + of_nat k * TP_CLOCK_ONE)) = k"
proof -
  have "k \<in> {0,1,2,3,4,5,6,7}" using assms by auto
  then show ?thesis
    by (elim insertE) (simp_all add: status_clock_def tp_statuses tp_flags tp_clock_consts)
qed

lemma idle_try_evict:
  assumes wf: "tp_wf cc" and e: "e < page_capacity (cfg cc)" and k: "idle_clean cc e k"
    and ret: "treepass_try_evict cc tid e False = Inr (b, cc')"
  shows "(0 < k \<and> idle_clean cc' e (k - 1)) \<or> st_free (status (entry cc' e))"
proof (cases k)
  case 0
  then have "evictable cc e" "status_clock (status (entry cc e)) = 0"
    using k idle_status [of 0] by (auto simp: idle_clean_def evictable_def unat_eq_zero)
  then show ?thesis
    using ret by (auto simp: try_evict_eq [OF wf e] flag_simps split: if_splits)
next
  case (Suc j)
  have "unat (status_clock (status (entry cc e))) = k"
    using k idle_status [of k] by (simp add: idle_clean_def)
  then have "status_clock (status (entry cc e)) \<noteq> 0" using Suc by auto
  then have "cc' = upd_entry cc e (status_update (\<lambda>s. s - TP_CLOCK_ONE))"
    using ret by (simp add: try_evict_eq [OF wf e])
  then show ?thesis
    using k Suc by (simp add: idle_clean_def unreferenced_def algebra_simps)
qed

lemma free_try_evict:
  assumes wf: "tp_wf cc" and e: "e < page_capacity (cfg cc)" and k: "st_free (status (entry cc e))"
    and ret: "treepass_try_evict cc tid e ee = Inr (b, cc')"
  shows "st_free (status (entry cc' e))"
  using ret k tp_wf_entryD(2) [OF wf e k]
  by (auto simp: try_evict_eq [OF wf e] flag_simps split: if_splits)

text \<open>\<open>fading cc e r\<close>: free, or idle with at most \<open>7 - r\<close> ticks left.\<close>

definition fading :: "'d treepass \<Rightarrow> nat \<Rightarrow> nat \<Rightarrow> bool" where
  "fading cc e r \<longleftrightarrow> st_free (status (entry cc e)) \<or> (\<exists>k. idle_clean cc e k \<and> k + r < 8)"

lemma fading_other:
  assumes "fading cc i r" and "entry cc' i = entry cc i" and "refcount cc' = refcount cc"
    and "pincount cc' = pincount cc" and "cfg cc' = cfg cc"
  shows "fading cc' i r"
  using assms by (simp add: fading_def idle_clean_def unreferenced_def treepass_get_ref_def
      treepass_get_pin_def)

lemma fading_weaken: "fading cc e (Suc r) \<Longrightarrow> fading cc e r"
  by (fastforce simp: fading_def)

lemma fading_try_evict:
  assumes wf: "tp_wf cc" and e: "e < page_capacity (cfg cc)" and f: "fading cc e r"
    and ret: "treepass_try_evict cc tid e False = Inr (b, cc')"
  shows "fading cc' e (Suc r)"
  using f unfolding fading_def
proof (elim disjE exE conjE)
  assume "st_free (status (entry cc e))"
  from free_try_evict [OF wf e this ret]
  show "st_free (status (entry cc' e)) \<or> (\<exists>k. idle_clean cc' e k \<and> k + Suc r < 8)" ..
next
  fix k assume "idle_clean cc e k" "k + r < 8"
  with idle_try_evict [OF wf e _ ret, of k]
  show "st_free (status (entry cc' e)) \<or> (\<exists>k. idle_clean cc' e k \<and> k + Suc r < 8)"
    by (cases k) auto
qed

lemma fading_batch:
  assumes wf: "tp_wf cc" and b: "b < batch_capacity (cfg cc)"
    and ret: "treepass_evict_batch cc tid b False = Inr cc'"
    and f: "fading cc e r" and e: "e < page_capacity (cfg cc)"
  shows "fading cc' e (if e div TP_ENTRIES_PER_BATCH = b then Suc r else r)"
proof -
  let ?lo = "b * TP_ENTRIES_PER_BATCH"
  have it: "iterM (evict_entry tid) [?lo..<?lo + TP_ENTRIES_PER_BATCH] cc = Inr cc'"
    using ret by (auto simp: treepass_evict_batch_def Let_def elim!: obind_InrE)
  let ?P = "\<lambda>i s. evict_rel cc s \<and> fading s e (if ?lo \<le> e \<and> e < i then Suc r else r)"
  have "?P (?lo + TP_ENTRIES_PER_BATCH) cc'"
  proof (rule iterM_upt_invariant [OF it])
    show "?P ?lo cc" using f wf by (auto simp: evict_rel_refl)
    fix i s s' assume i: "?lo \<le> i" "i < ?lo + TP_ENTRIES_PER_BATCH" and p: "?P i s"
      and r: "evict_entry tid i s = Inr s'"
    note d = evict_relD [OF p [THEN conjunct1]]
    obtain bb where t: "treepass_try_evict s tid i False = Inr (bb, s')"
      using r by (auto simp: evict_entry_def elim!: obind_InrE)
    have ic: "i < page_capacity (cfg s)"
      using batch_entry_lt [OF tp_wf_cfg [OF wf] b, of i] i d by simp
    note fl = try_evict_fields [OF d(1) ic t]
    have "fading s' e (if ?lo \<le> e \<and> e < Suc i then Suc r else r)"
    proof (cases "e = i")
      case True
      then show ?thesis using p i fading_try_evict [OF d(1) ic _ t] by auto
    next
      case False
      then show ?thesis using p i fl fading_other [of s e _ s'] by (auto simp: less_Suc_eq)
    qed
    then show "?P (Suc i) s'"
      using p evict_rel_try_evict [OF d(1) ic t] by (blast intro: evict_rel_trans)
  qed simp
  moreover have "e div TP_ENTRIES_PER_BATCH = b \<longleftrightarrow> ?lo \<le> e \<and> e < ?lo + TP_ENTRIES_PER_BATCH"
    by (auto simp: TP_ENTRIES_PER_BATCH_def)
  ultimately show ?thesis by simp
qed

lemma fading_rounds:
  assumes wf: "tp_wf cc" and b: "b < batch_capacity (cfg cc)"
    and ret: "iterM (\<lambda>r cc. treepass_evict_batch cc tid b False) [0..<n] cc = Inr cc'"
    and f: "fading cc e m" and e: "e < page_capacity (cfg cc)"
  shows "evict_rel cc cc' \<and> fading cc' e (if e div TP_ENTRIES_PER_BATCH = b then m + n else m)"
proof -
  let ?r = "\<lambda>i. if e div TP_ENTRIES_PER_BATCH = b then m + i else m"
  let ?P = "\<lambda>i s. evict_rel cc s \<and> fading s e (?r i)"
  show ?thesis
  proof (rule iterM_upt_invariant [OF ret, of ?P])
    show "?P 0 cc" using f wf by (simp add: evict_rel_refl)
    fix i s s' assume p: "?P i s" and r: "treepass_evict_batch s tid b False = Inr s'"
    note d = evict_relD [OF p [THEN conjunct1]]
    have "evict_rel s s'" using b d by (intro evict_rel_batch [OF d(1) _ r]) simp
    moreover have "fading s' e (if e div TP_ENTRIES_PER_BATCH = b then Suc (?r i) else ?r i)"
      using b d e p by (intro fading_batch [OF d(1) _ r]) simp_all
    ultimately show "?P (Suc i) s'" using p by (auto intro: evict_rel_trans)
  qed simp
qed

lemma fading_8: "fading cc e 8 \<Longrightarrow> st_free (status (entry cc e))"
  by (auto simp: fading_def)

lemma evict_all_effect:
  assumes wf: "tp_wf cc" and ret: "treepass_evict_all cc tid ign = Inr cc'"
  shows "evict_rel cc cc'"
    and "idle_clean cc e k \<Longrightarrow> e < page_capacity (cfg cc) \<Longrightarrow> st_free (status (entry cc' e))"
proof -
  let ?n = "unat TP_CLOCK_MAX + 1"
  have it: "iterM (\<lambda>h. iterM (\<lambda>r cc. treepass_evict_batch cc tid h False) [0..<?n])
      [0..<batch_capacity (cfg cc)] cc = Inr cc'"
    using ret by (auto simp: treepass_evict_all_def elim!: obind_InrE)
  show "evict_rel cc cc'"
  proof (rule evict_rel_iterM [OF wf it])
    fix h s s' assume h: "h \<in> set [0..<batch_capacity (cfg cc)]" and s: "tp_wf s" "cfg s = cfg cc"
      and r: "iterM (\<lambda>r cc. treepass_evict_batch cc tid h False) [0..<?n] s = Inr s'"
    show "evict_rel s s'"
      by (rule evict_rel_iterM [OF s(1) r]) (use h s in \<open>auto intro: evict_rel_batch\<close>)
  qed
  let ?b = "e div TP_ENTRIES_PER_BATCH"
  let ?P = "\<lambda>i s. evict_rel cc s \<and> fading s e (if ?b < i then 8 else 0)"
  assume k: "idle_clean cc e k" and e: "e < page_capacity (cfg cc)"
  have bc: "?b < batch_capacity (cfg cc)"
    using e tp_wf_cfg [OF wf]
    by (simp add: tp_cfg_wf_def TP_ENTRIES_PER_BATCH_def less_mult_imp_div_less)
  have "?P (batch_capacity (cfg cc)) cc'"
  proof (rule iterM_upt_invariant [OF it, of ?P])
    show "?P 0 cc" using k wf by (auto simp: evict_rel_refl fading_def idle_clean_def)
    fix h s s' assume h: "h < batch_capacity (cfg cc)" and p: "?P h s"
      and r: "iterM (\<lambda>r cc. treepass_evict_batch cc tid h False) [0..<?n] s = Inr s'"
    note d = evict_relD [OF p [THEN conjunct1]]
    have q: "evict_rel s s' \<and> fading s' e
        (if ?b = h then (if ?b < h then 8 else 0) + ?n else (if ?b < h then 8 else 0))"
      using h d e p by (intro fading_rounds [OF d(1) _ r]) simp_all
    then show "?P (Suc h) s'"
      using p by (auto simp: less_Suc_eq intro: evict_rel_trans split: if_splits)
  qed simp
  then show "st_free (status (entry cc' e))" using bc fading_8 [of cc' e] by simp
qed

end
