(* ===== verification/TpHand.thy ===== *)
theory TpHand
  imports TpEvictPres
begin

text \<open>
  The clock hand. Advancing it keeps the invariant and the memory, leaves the thread on a
  batch of the cache, and, when some batch is held by nobody, does not spin for ever.
\<close>

section \<open>What I/O leaves alone\<close>

definition hand_state ::
  "'d treepass \<Rightarrow> (nat \<Rightarrow> nat) \<times> (nat \<Rightarrow> bool) \<times> u32 \<times> (nat \<Rightarrow> u16) \<times> (nat \<Rightarrow> u8) \<times> nat \<times>
     (nat \<Rightarrow> nat)" where
  "hand_state cc =
     (free_hand cc, batch_busy cc, evict_hand cc, refcount cc, pincount cc, cleaner_gap cc, lookup cc)"

lemma hand_state_basic [simp]:
  "hand_state (upd_entry cc e f) = hand_state cc"
  "hand_state (upd_stats cc tid g) = hand_state cc"
  "hand_state (io_submit rq cc) = hand_state cc"
  "hand_state (cc\<lparr>disk := dsk\<rparr>) = hand_state cc"
  "hand_state (cc\<lparr>inflight := rqs\<rparr>) = hand_state cc"
  "hand_state (cc\<lparr>reap := evs\<rparr>) = hand_state cc"
  "hand_state (cc\<lparr>pages_outstanding := po\<rparr>) = hand_state cc"
  "hand_state (cc\<lparr>ticks := n\<rparr>) = hand_state cc"
  by (simp_all add: hand_state_def upd_entry_def upd_stats_def io_submit_def)

lemma hand_state_walk:
  "writeback_walk fuel delta addr np a cc = Inr (r, cc') \<Longrightarrow> hand_state cc' = hand_state cc"
proof (induction fuel arbitrary: a cc)
  case (Suc fuel)
  from walk_step [OF Suc.prems] show ?case
    using Suc.IH by (auto dest!: try_set_writeback_cases)
qed (simp add: writeback_walk.simps)

lemma hand_state_start_writeback:
  "start_writeback_entry tid np e cc = Inr cc' \<Longrightarrow> hand_state cc' = hand_state cc"
  by (drule start_writeback_entry_cases)
    (auto simp: writeback_submit_def Let_def dest!: try_set_writeback_cases hand_state_walk)

lemma hand_state_batch_writeback:
  assumes "treepass_batch_start_writeback cc tid b np = Inr cc'"
  shows "hand_state cc' = hand_state cc"
  using assms unfolding treepass_batch_start_writeback_def Let_def
  by (rule iterM_keeps) (rule hand_state_start_writeback)

lemma hand_state_io [simp]:
  "hand_state (io_write_pages a es cc) = hand_state cc"
  "hand_state (io_read_pages a es cc) = hand_state cc"
  "hand_state (write_callback_page np e cc) = hand_state cc"
  "hand_state (treepass_finish_load e cc) = hand_state cc"
proof -
  show "hand_state (io_write_pages a es cc) = hand_state cc"
    by (induction es arbitrary: a cc) auto
  show "hand_state (io_read_pages a es cc) = hand_state cc"
    by (induction es arbitrary: a cc) auto
qed (simp_all add: write_callback_page_def Let_def flag_ops treepass_set_clock_def finish_load_upd)

lemma hand_state_complete:
  "io_complete rq ok cc = Inr cc' \<Longrightarrow> hand_state cc' = hand_state cc"
  by (auto simp: fold_keeps [where g = hand_state] io_complete_def treepass_write_callback_def treepass_prefetch_callback_def Let_def
      split: if_splits io_cmd.splits option.splits)

lemma hand_state_reap: "io_reap ev cc = Inr cc' \<Longrightarrow> hand_state cc' = hand_state cc"
  by (auto simp: io_reap_def Let_def split: if_splits dest: hand_state_complete)

lemma hand_state_wait: "treepass_wait cc = Inr cc' \<Longrightarrow> hand_state cc' = hand_state cc"
  by (auto simp: treepass_wait_def split: list.splits dest: hand_state_reap)

lemma hand_state_wait_while:
  assumes "wait_while p cc = Inr cc'" shows "hand_state cc' = hand_state cc"
proof -
  have "wait_while_on p evs cc = Inr cc' \<Longrightarrow> hand_state cc' = hand_state cc" for evs
    by (induction evs arbitrary: cc)
      (auto split: if_splits elim!: obind_InrE dest!: hand_state_reap)
  with assms show ?thesis by (simp add: wait_while_def)
qed

lemma hand_stateD:
  assumes "hand_state cc' = hand_state cc"
  shows "free_hand cc' = free_hand cc" "batch_busy cc' = batch_busy cc" "evict_hand cc' = evict_hand cc"
    "refcount cc' = refcount cc" "pincount cc' = pincount cc" "lookup cc' = lookup cc"
  using assms by (simp_all add: hand_state_def)

section \<open>The loop\<close>

lemma hand_cleaner:
  assumes wf: "tp_wf cc" and ch: "ch < batch_capacity (cfg cc)"
    and ret: "clean_ahead tid np ch cc = Inr cc'"
  shows "tp_pres cc cc'" and "hand_state cc' = hand_state cc" and "loads_kept cc cc'"
proof (atomize (full), cases "batch_busy cc ch")
  case True
  then show "tp_pres cc cc' \<and> hand_state cc' = hand_state cc \<and> loads_kept cc cc'"
    using ret wf by (simp add: clean_ahead_def tp_pres_refl loads_kept_refl)
next
  case False
  let ?c1 = "cc\<lparr>batch_busy := (batch_busy cc)(ch := True)\<rparr>"
  from False ret obtain c2 where r: "treepass_batch_start_writeback ?c1 tid ch np = Inr c2"
    and cc': "cc' = c2\<lparr>batch_busy := (batch_busy c2)(ch := False)\<rparr>"
    by (auto simp: clean_ahead_def elim!: obind_InrE)
  have p1: "tp_pres cc ?c1" by (rule pres_fields(1) [OF wf])
  have p2: "tp_pres ?c1 c2"
    using ch by (intro pres_batch_start_writeback [OF tp_pres_wf [OF p1] _ r]) simp
  have p3: "tp_pres c2 cc'" unfolding cc' by (rule pres_fields(1) [OF tp_pres_wf [OF p2]])
  have "hand_state c2 = hand_state ?c1" by (rule hand_state_batch_writeback [OF r])
  then have "hand_state cc' = hand_state cc"
    using False by (auto simp: cc' hand_state_def fun_eq_iff)
  moreover have "loads_kept ?c1 c2"
    using ch by (intro loads_kept_batch_writeback [OF tp_pres_wf [OF p1] _ r]) simp
  then have "loads_kept cc cc'"
    using loads_kept_core [of ?c1 cc] loads_kept_core [of cc' c2]
    by (auto simp: cc' intro: loads_kept_trans)
  ultimately show "tp_pres cc cc' \<and> hand_state cc' = hand_state cc \<and> loads_kept cc cc'"
    using p1 p2 p3 by (blast intro: tp_pres_trans)
qed

lemma move_hand_step:
  assumes wf: "tp_wf cc" and ret: "move_hand_loop (Suc fuel) tid np cc = Inr (h, cc')"
  obtains cc3 where "tp_pres cc cc3" and "free_hand cc3 = free_hand cc"
    and "evict_hand cc3 = evict_hand cc + 1" and "batch_busy cc3 = batch_busy cc"
    and "refcount cc3 = refcount cc" and "pincount cc3 = pincount cc" and "lookup cc3 = lookup cc"
    and "loads_kept cc cc3"
    and "(let hand = unat (evict_hand cc + 1) mod batch_capacity (cfg cc)
      in if batch_busy cc hand then move_hand_loop fuel tid np cc3
         else Inr (hand, cc3\<lparr>batch_busy := (batch_busy cc3)(hand := True)\<rparr>)) = Inr (h, cc')"
proof -
  let ?c1 = "cc\<lparr>evict_hand := evict_hand cc + 1\<rparr>"
  let ?hand = "unat (evict_hand cc + 1) mod batch_capacity (cfg cc)"
  let ?ch = "(?hand + cleaner_gap cc) mod batch_capacity (cfg cc)"
  have bc: "0 < batch_capacity (cfg cc)"
    using tp_wf_cfg [OF wf] by (auto simp: tp_cfg_wf_def intro: Nat.gr0I)
  have p1: "tp_pres cc ?c1" by (rule pres_fields(2) [OF wf])
  from ret obtain cc3 where c: "clean_ahead tid np ?ch ?c1 = Inr cc3"
    and rest: "(if batch_busy cc3 ?hand then move_hand_loop fuel tid np cc3
         else Inr (?hand, cc3\<lparr>batch_busy := (batch_busy cc3)(?hand := True)\<rparr>)) = Inr (h, cc')"
    by (auto simp: Let_def move_hand_loop.simps elim!: obind_InrE split: if_splits)
  have q: "tp_pres ?c1 cc3" and s: "hand_state cc3 = hand_state ?c1" and lk: "loads_kept ?c1 cc3"
    using hand_cleaner [OF tp_pres_wf [OF p1] _ c] bc by simp_all
  have "loads_kept cc cc3" using loads_kept_core [of ?c1 cc] lk by (auto intro: loads_kept_trans)
  then show thesis
    using that [of cc3] tp_pres_trans [OF p1 q] hand_stateD [OF s] rest by (simp add: Let_def)
qed

declare move_hand_loop.simps [simp del]

lemma move_hand_loop_effect:
  assumes "tp_wf cc" and "move_hand_loop fuel tid np cc = Inr (h, cc')"
  shows "tp_pres cc cc' \<and> free_hand cc' = free_hand cc \<and> refcount cc' = refcount cc \<and>
    pincount cc' = pincount cc \<and> h < batch_capacity (cfg cc) \<and> \<not> batch_busy cc h \<and>
    batch_busy cc' = (batch_busy cc)(h := True) \<and> lookup cc' = lookup cc \<and>
    loads_kept cc cc'"
  using assms
proof (induction fuel arbitrary: cc)
  case 0
  then show ?case by (simp add: move_hand_loop.simps)
next
  case (Suc fuel)
  have bc: "0 < batch_capacity (cfg cc)"
    using tp_wf_cfg [OF Suc.prems(1)] by (auto simp: tp_cfg_wf_def intro: Nat.gr0I)
  let ?hand = "unat (evict_hand cc + 1) mod batch_capacity (cfg cc)"
  obtain cc3 where c3: "tp_pres cc cc3" "free_hand cc3 = free_hand cc" "batch_busy cc3 = batch_busy cc"
    "refcount cc3 = refcount cc" "pincount cc3 = pincount cc" "lookup cc3 = lookup cc" "loads_kept cc cc3"
    "(if batch_busy cc ?hand then move_hand_loop fuel tid np cc3
         else Inr (?hand, cc3\<lparr>batch_busy := (batch_busy cc3)(?hand := True)\<rparr>)) = Inr (h, cc')"
    by (rule move_hand_step [OF Suc.prems]) (simp add: Let_def)
  note wf3 = tp_pres_wf [OF c3(1)] and cfg3 = tp_pres_cfg [OF c3(1)]
  show ?case
  proof (cases "batch_busy cc ?hand")
    case True
    then show ?thesis
      using Suc.IH [OF wf3] c3 cfg3 by (auto intro: tp_pres_trans loads_kept_trans)
  next
    case False
    then show ?thesis
      using c3 bc pres_fields(1) [OF wf3] loads_kept_trans [OF c3(7) loads_kept_core]
      by (auto intro: tp_pres_trans)
  qed
qed

section \<open>The hand visits every batch\<close>

lemma residue_reach:
  fixes r :: nat
  assumes "r < n" and "b < n"
  shows "\<exists>i<n. r + i = b \<or> r + i = b + n"
proof (cases "r \<le> b")
  case True
  then show ?thesis using assms by (intro exI [of _ "b - r"]) simp
next
  case False
  then show ?thesis using assms by (intro exI [of _ "b + n - r"]) simp
qed

lemma hand_hits_nat:
  fixes x :: nat
  assumes "0 < n" and "b < n"
  shows "\<exists>i\<in>{1..n}. (x + i) mod n = b"
proof -
  obtain i where i: "i < n" "(x + 1) mod n + i = b \<or> (x + 1) mod n + i = b + n"
    using residue_reach [of "(x + 1) mod n" n b] assms by auto
  then have "((x + 1) mod n + i) mod n = b" using assms by auto
  then have "(x + Suc i) mod n = b" by (simp add: mod_add_left_eq)
  with i(1) show ?thesis by (intro bexI [of _ "Suc i"]) auto
qed

lemma hand_hits:
  fixes h :: u32
  assumes n: "0 < n" "n < 2 ^ 32" and b: "b < n"
  shows "\<exists>i\<in>{1..2 * n}. unat (h + of_nat i) mod n = b"
proof (cases "unat h + n < 2 ^ 32")
  case True
  obtain i where i: "i \<in> {1..n}" "(unat h + i) mod n = b"
    using hand_hits_nat [OF n(1) b] by blast
  have "unat (of_nat i :: u32) = i"
    using i(1) n(2) by (simp add: unat_of_nat take_bit_nat_eq_self)
  then have "unat (h + of_nat i) = unat h + i"
    using True i(1) by (subst unat_word_ariths(1)) auto
  with i show ?thesis by (intro bexI [of _ i]) auto
next
  case False
  define w where "w = 2 ^ 32 - unat h"
  have lt: "unat h < 2 ^ 32" by (rule order_less_le_trans [OF unsigned_less]) simp
  then have hw: "unat h + w = 2 ^ 32" by (simp add: w_def)
  with False lt have w: "1 \<le> w" "w \<le> n" by (auto simp: w_def)
  have "h + of_nat w = of_nat (unat h + w)" by simp
  also have "\<dots> = 0" unfolding hw by simp
  finally have zero: "h + of_nat w = 0" .
  have hb: "h + of_nat (w + b) = of_nat b"
    using zero by (simp only: of_nat_add add.assoc [symmetric]) simp
  have "unat (of_nat b :: u32) = b"
    using b n(2) by (simp add: unat_of_nat take_bit_nat_eq_self)
  then have "unat (h + of_nat (w + b)) mod n = b" using b by (simp only: hb) simp
  then show ?thesis using w b by (intro bexI [of _ "w + b"]) auto
qed


lemma hand_cleaner_not_Blocked:
  assumes wf: "tp_wf cc" and ch: "ch < batch_capacity (cfg cc)"
  shows "clean_ahead tid np ch cc \<noteq> Inl Blocked"
  unfolding clean_ahead_def
  using batch_writeback_not_Blocked [OF tp_pres_wf [OF pres_fields(1) [OF wf]]] ch
  by (cases "batch_busy cc ch") (auto simp: obind_def split: sum.splits)

text \<open>If the hand meets a batch that nobody holds within \<open>fuel\<close> steps, the loop ends.\<close>

lemma move_hand_loop_live:
  assumes "tp_wf cc"
    and "\<exists>i\<in>{1..fuel}. \<not> batch_busy cc (unat (evict_hand cc + of_nat i) mod batch_capacity (cfg cc))"
  shows "move_hand_loop fuel tid np cc \<noteq> Inl Blocked"
  using assms
proof (induction fuel arbitrary: cc)
  case 0
  then show ?case by simp
next
  case (Suc fuel)
  let ?c1 = "cc\<lparr>evict_hand := evict_hand cc + 1\<rparr>"
  let ?hand = "unat (evict_hand cc + 1) mod batch_capacity (cfg cc)"
  let ?ch = "(?hand + cleaner_gap cc) mod batch_capacity (cfg cc)"
  have bc: "0 < batch_capacity (cfg cc)"
    using tp_wf_cfg [OF Suc.prems(1)] by (auto simp: tp_cfg_wf_def intro: Nat.gr0I)
  have p1: "tp_pres cc ?c1" by (rule pres_fields(2) [OF Suc.prems(1)])
  have rest: "(if batch_busy cc3 ?hand then move_hand_loop fuel tid np cc3
      else Inr (?hand, cc3\<lparr>batch_busy := (batch_busy cc3)(?hand := True)\<rparr>)) \<noteq> Inl Blocked"
    if c: "clean_ahead tid np ?ch ?c1 = Inr cc3" for cc3
  proof -
    have q: "tp_pres ?c1 cc3" and s: "hand_state cc3 = hand_state ?c1"
      using hand_cleaner [OF tp_pres_wf [OF p1] _ c] bc by simp_all
    note d = hand_stateD [OF s] and c3 = tp_pres_cfg [OF q]
    show ?thesis
    proof (cases "batch_busy cc ?hand")
      case True
      from Suc.prems(2) obtain i where i: "i \<in> {1..Suc fuel}"
        "\<not> batch_busy cc (unat (evict_hand cc + of_nat i) mod batch_capacity (cfg cc))" by blast
      with True have "i \<noteq> 1" by auto
      with i(1) obtain j where j: "i = Suc j" "j \<in> {1..fuel}" by (cases i) auto
      then have "\<not> batch_busy cc3 (unat (evict_hand cc3 + of_nat j) mod batch_capacity (cfg cc3))"
        using i(2) d c3 by (simp add: algebra_simps)
      then have "move_hand_loop fuel tid np cc3 \<noteq> Inl Blocked"
        using j(2) by (intro Suc.IH [OF tp_pres_wf [OF q]]) blast
      then show ?thesis using True d by simp
    qed (simp add: d)
  qed
  show ?case
    unfolding move_hand_loop.simps Let_def
    using hand_cleaner_not_Blocked [OF tp_pres_wf [OF p1], of ?ch tid np] bc rest
    by (intro obind_not_Blocked) auto
qed


section \<open>Moving the hand\<close>

definition release_batch :: "'d treepass \<Rightarrow> nat \<Rightarrow> 'd treepass" where
  "release_batch cc tid =
     (if free_hand cc tid \<noteq> TP_UNMAPPED_ENTRY
      then cc\<lparr>batch_busy := (batch_busy cc)(free_hand cc tid := False)\<rparr> else cc)"

lemma release_batch_frame [simp]:
  "cfg (release_batch cc tid) = cfg cc" "free_hand (release_batch cc tid) = free_hand cc"
  "evict_hand (release_batch cc tid) = evict_hand cc"
  "refcount (release_batch cc tid) = refcount cc" "pincount (release_batch cc tid) = pincount cc"
  "lookup (release_batch cc tid) = lookup cc"
  by (simp_all add: release_batch_def)

lemma pres_release_batch: "tp_wf cc \<Longrightarrow> tp_pres cc (release_batch cc tid)"
  by (auto simp: release_batch_def intro: pres_fields tp_pres_refl)

lemma move_hand_parts:
  assumes "treepass_move_hand cc tid np = Inr (np', cc')"
  obtains h cc1 n cc2 cc3 where
    "move_hand_loop (2 * Suc (batch_capacity (cfg cc))) tid (of_nat np) (release_batch cc tid) = Inr (h, cc1)"
    and "treepass_evict_batch_ee cc1 tid (h mod batch_capacity (cfg cc1)) = Inr (n, cc2)"
    and "(if n > 0 then Inr cc2
          else treepass_evict_batch cc2 tid (h mod batch_capacity (cfg cc1)) (np = 0)) = Inr cc3"
    and "cc' = cc3\<lparr>free_hand := (free_hand cc3)(tid := h mod batch_capacity (cfg cc1))\<rparr>" and "np' = np"
  using assms unfolding treepass_move_hand_def Let_def release_batch_def [symmetric]
  by (auto elim!: obind_InrE split: if_splits)

lemma move_hand_effect:
  assumes wf: "tp_wf cc" and ret: "treepass_move_hand cc tid np = Inr (np', cc')"
  shows "tp_pres cc cc'" and "free_hand cc' tid < batch_capacity (cfg cc)"
    and "t \<noteq> tid \<Longrightarrow> free_hand cc' t = free_hand cc t"
    and "refcount cc' = refcount cc" and "pincount cc' = pincount cc"
    and "lookup cc l = TP_UNMAPPED_ENTRY \<Longrightarrow> lookup cc' l = TP_UNMAPPED_ENTRY"
    and "loads_kept cc cc'"
    and "\<not> batch_busy (release_batch cc tid) (free_hand cc' tid)"
    and "batch_busy cc' = (batch_busy (release_batch cc tid))(free_hand cc' tid := True)"
proof -
  let ?c0 = "release_batch cc tid"
  have p0: "tp_pres cc ?c0" by (rule pres_release_batch [OF wf])
  obtain h cc1 n cc2 cc3 where
    l: "move_hand_loop (2 * Suc (batch_capacity (cfg cc))) tid (of_nat np) ?c0 = Inr (h, cc1)" and
    ee: "treepass_evict_batch_ee cc1 tid (h mod batch_capacity (cfg cc1)) = Inr (n, cc2)" and
    eb: "(if n > 0 then Inr cc2
          else treepass_evict_batch cc2 tid (h mod batch_capacity (cfg cc1)) (np = 0)) = Inr cc3" and
    cc': "cc' = cc3\<lparr>free_hand := (free_hand cc3)(tid := h mod batch_capacity (cfg cc1))\<rparr>"
    by (rule move_hand_parts [OF ret])
  note le = move_hand_loop_effect [OF tp_pres_wf [OF p0] l]
  then have p1: "tp_pres ?c0 cc1" by blast
  note wf1 = tp_pres_wf [OF p1] and c1 = tp_pres_cfg [OF p1]
  have h: "h mod batch_capacity (cfg cc1) = h" "h < batch_capacity (cfg cc1)" using le c1 by simp_all
  have r2: "evict_rel cc1 cc2" using h ee by (intro evict_rel_batch_ee [OF wf1 h(2)]) simp
  note d2 = evict_relD [OF r2]
  have r3: "evict_rel cc2 cc3"
    using eb h d2 by (auto intro: evict_rel_refl evict_rel_batch split: if_splits)
  note r = evict_rel_trans [OF r2 r3]
  have p4: "tp_pres cc3 cc'" unfolding cc' by (rule pres_fields(3) [OF evict_relD(1) [OF r]])
  show "tp_pres cc cc'"
    using p0 p1 evict_relD(3) [OF r] p4 by (blast intro: tp_pres_trans)
  show "free_hand cc' tid < batch_capacity (cfg cc)" using h c1 by (simp add: cc')
  show "t \<noteq> tid \<Longrightarrow> free_hand cc' t = free_hand cc t" "refcount cc' = refcount cc"
    "pincount cc' = pincount cc" "lookup cc l = TP_UNMAPPED_ENTRY \<Longrightarrow> lookup cc' l = TP_UNMAPPED_ENTRY"
    using r le by (simp_all add: cc' evict_rel_def)
  have "loads_kept cc ?c0" "loads_kept cc3 cc'"
    by (rule loads_kept_core; simp add: release_batch_def cc')+
  moreover have "loads_kept ?c0 cc1" "loads_kept cc1 cc3" using le r by (simp_all add: evict_rel_def)
  ultimately show "loads_kept cc cc'" by (blast intro: loads_kept_trans)
  show "\<not> batch_busy ?c0 (free_hand cc' tid)"
    "batch_busy cc' = (batch_busy ?c0)(free_hand cc' tid := True)"
    using le r h by (simp_all add: cc' evict_rel_def)
qed

text \<open>The hand is never stuck when some batch is held by nobody.\<close>

lemma batch_capacity_lt: "tp_cfg_wf c \<Longrightarrow> batch_capacity c < 2 ^ 32"
  by (simp add: tp_cfg_wf_def tp_consts)

lemma try_evict_not_Blocked:
  "tp_wf cc \<Longrightarrow> e < page_capacity (cfg cc) \<Longrightarrow> treepass_try_evict cc tid e ee \<noteq> Inl Blocked"
  by (simp add: try_evict_eq)

lemma evict_batch_ee_not_Blocked:
  assumes wf: "tp_wf cc" and b: "b < batch_capacity (cfg cc)"
  shows "treepass_evict_batch_ee cc tid b \<noteq> Inl Blocked"
  unfolding treepass_evict_batch_ee_def Let_def
proof (rule iterM_not_Blocked [of "\<lambda>x. tp_pres cc (snd x)"])
  show "tp_pres cc (snd (0, cc))" by (simp add: tp_pres_refl [OF wf])
  fix e and x :: "nat \<times> 'a treepass" assume e: "e \<in> set [b * TP_ENTRIES_PER_BATCH..<b * TP_ENTRIES_PER_BATCH + TP_ENTRIES_PER_BATCH]"
    and p: "tp_pres cc (snd x)"
  have "e < page_capacity (cfg (snd x))"
    using batch_entry_lt [OF tp_wf_cfg [OF wf] b e] tp_pres_cfg [OF p] by simp
  note es = tp_pres_wf [OF p] this
  show "evict_ee_entry tid e x \<noteq> Inl Blocked"
    unfolding evict_ee_entry_def using try_evict_not_Blocked [OF es]
    by (auto simp: obind_def split: sum.splits)
  show "tp_pres cc (snd x')" if "evict_ee_entry tid e x = Inr x'" for x'
    using that p pres_try_evict [OF es] by (auto simp: evict_ee_entry_def elim!: obind_InrE intro: tp_pres_trans)
qed

lemma evict_batch_not_Blocked:
  assumes wf: "tp_wf cc" and b: "b < batch_capacity (cfg cc)"
  shows "treepass_evict_batch cc tid b fp \<noteq> Inl Blocked"
  unfolding treepass_evict_batch_def Let_def
proof (rule obind_not_Blocked)
  show "iterM (evict_entry tid) [b * TP_ENTRIES_PER_BATCH..<b * TP_ENTRIES_PER_BATCH + TP_ENTRIES_PER_BATCH] cc
      \<noteq> Inl Blocked"
  proof (rule iterM_not_Blocked [of "tp_pres cc"])
    show "tp_pres cc cc" by (rule tp_pres_refl [OF wf])
    fix e s assume e: "e \<in> set [b * TP_ENTRIES_PER_BATCH..<b * TP_ENTRIES_PER_BATCH + TP_ENTRIES_PER_BATCH]"
      and p: "tp_pres cc s"
    have "e < page_capacity (cfg s)"
      using batch_entry_lt [OF tp_wf_cfg [OF wf] b e] tp_pres_cfg [OF p] by simp
    note es = tp_pres_wf [OF p] this
    show "evict_entry tid e s \<noteq> Inl Blocked"
      unfolding evict_entry_def using try_evict_not_Blocked [OF es]
      by (auto simp: obind_def split: sum.splits)
    show "tp_pres cc s'" if "evict_entry tid e s = Inr s'" for s'
      using that p pres_try_evict [OF es] by (auto simp: evict_entry_def elim!: obind_InrE intro: tp_pres_trans)
  qed
qed simp

lemma move_hand_live:
  assumes wf: "tp_wf cc" and b: "b < batch_capacity (cfg cc)" "\<not> batch_busy (release_batch cc tid) b"
  shows "treepass_move_hand cc tid np \<noteq> Inl Blocked"
proof -
  let ?c0 = "release_batch cc tid" and ?n = "batch_capacity (cfg cc)"
  have p0: "tp_pres cc ?c0" by (rule pres_release_batch [OF wf])
  have "\<exists>i\<in>{1..2 * ?n}. unat (evict_hand cc + of_nat i) mod ?n = b"
    using b batch_capacity_lt [OF tp_wf_cfg [OF wf]] by (intro hand_hits) auto
  then obtain i where i: "i \<in> {1..2 * Suc ?n}" "unat (evict_hand cc + of_nat i) mod ?n = b" by force
  have loop: "move_hand_loop (2 * Suc ?n) tid (of_nat np) ?c0 \<noteq> Inl Blocked"
    using i b by (intro move_hand_loop_live [OF tp_pres_wf [OF p0]]) auto
  have rest: "obind (treepass_evict_batch_ee cc1 tid (h mod batch_capacity (cfg cc1))) (\<lambda>(n, cc2).
      if n > 0 then Inr (np, cc2\<lparr>free_hand := (free_hand cc2)(tid := h mod batch_capacity (cfg cc1))\<rparr>)
      else obind (treepass_evict_batch cc2 tid (h mod batch_capacity (cfg cc1)) (np = 0)) (\<lambda>cc3.
        Inr (np, cc3\<lparr>free_hand := (free_hand cc3)(tid := h mod batch_capacity (cfg cc1))\<rparr>)))
      \<noteq> Inl Blocked"
    if l: "move_hand_loop (2 * Suc ?n) tid (of_nat np) ?c0 = Inr (h, cc1)" for h cc1
  proof (rule obind_not_Blocked)
    have p1: "tp_pres ?c0 cc1" and h: "h < ?n"
      using move_hand_loop_effect [OF tp_pres_wf [OF p0] l] by auto
    note wf1 = tp_pres_wf [OF p1]
    have hm: "h mod batch_capacity (cfg cc1) < batch_capacity (cfg cc1)"
      using tp_pres_cfg [OF p1] h by simp
    show "treepass_evict_batch_ee cc1 tid (h mod batch_capacity (cfg cc1)) \<noteq> Inl Blocked"
      by (rule evict_batch_ee_not_Blocked [OF wf1 hm])
    fix x assume x: "treepass_evict_batch_ee cc1 tid (h mod batch_capacity (cfg cc1)) = Inr x"
    obtain n cc2 where xx: "x = (n, cc2)" by (cases x)
    note d = evict_relD [OF evict_rel_batch_ee [OF wf1 hm x [unfolded xx]]]
    show "(case x of (n, cc2) \<Rightarrow>
      if n > 0 then Inr (np, cc2\<lparr>free_hand := (free_hand cc2)(tid := h mod batch_capacity (cfg cc1))\<rparr>)
      else obind (treepass_evict_batch cc2 tid (h mod batch_capacity (cfg cc1)) (np = 0)) (\<lambda>cc3.
        Inr (np, cc3\<lparr>free_hand := (free_hand cc3)(tid := h mod batch_capacity (cfg cc1))\<rparr>)))
      \<noteq> Inl Blocked"
      using evict_batch_not_Blocked [OF d(1), of "h mod batch_capacity (cfg cc1)" tid "np = 0"] hm d(2)
      by (auto simp: xx obind_def split: sum.splits)
  qed
  show ?thesis
    unfolding treepass_move_hand_def Let_def release_batch_def [symmetric]
    using loop rest by (intro obind_not_Blocked) auto
qed

end
