(* ===== verification/TpAlloc.thy ===== *)
theory TpAlloc
  imports TpHand
begin

text \<open>
  Free entries and what is built on them: the search for a free entry returns an entry that
  maps no page, is in no request and carries the status asked for; allocation maps it at a
  page that was not cached and changes the memory at no other page; discarding a page makes
  the device's copy visible again.
\<close>

section \<open>Taking a free entry\<close>

definition fresh_entry :: "'d treepass \<Rightarrow> nat \<Rightarrow> u32 \<Rightarrow> page_type \<Rightarrow> bool" where
  "fresh_entry cc e st t \<longleftrightarrow>
     e < page_capacity (cfg cc) \<and>
     (let ent = entry cc e
      in disk_addr ent = TP_UNMAPPED_ADDR \<and> entry_time ent = 0 \<and> status ent = st \<and> ptype ent = t
         \<and> waiters ent = [])"

definition loadable :: "u32 \<Rightarrow> bool" where
  "loadable st \<longleftrightarrow> \<not> st_free st \<and> (st_loading st \<or> st_writelocked st)"

lemma mapped_not_free:
  assumes "tp_wf cc" and "treepass_lookup cc a = e" and "e \<noteq> TP_UNMAPPED_ENTRY"
  shows "\<not> st_free (status (entry cc e))"
  using tp_wf_lookupD(2) [OF assms(1)] assms(2,3) by blast

lemma mapped_not_unmapped:
  assumes "tp_wf cc" and "treepass_lookup cc a = e" and "e \<noteq> TP_UNMAPPED_ENTRY"
  shows "disk_addr (entry cc e) \<noteq> TP_UNMAPPED_ADDR"
  using tp_wf_lookupD(5) [OF assms(1)] assms(2,3) by blast

text \<open>An entry that no address leads to may change as long as it stays unmapped.\<close>

lemma pres_unmapped_entry:
  assumes wf: "tp_wf cc" and e: "e < page_capacity (cfg cc)"
    and a: "disk_addr (entry cc e) = TP_UNMAPPED_ADDR" "disk_addr (f (entry cc e)) = TP_UNMAPPED_ADDR"
    and s: "loadable (status (f (entry cc e))) \<or>
      st_free (status (f (entry cc e))) \<and> status (f (entry cc e)) = TP_FREE_STATUS \<and>
      ptype (f (entry cc e)) = PAGE_TYPE_INVALID \<and> entry_time (f (entry cc e)) = 0 \<and>
      waiters (f (entry cc e)) = []"
  shows "tp_pres cc (upd_entry cc e f)" (is "tp_pres cc ?c")
proof -
  have eu: "e \<noteq> TP_UNMAPPED_ENTRY" using e capacity_lt_unmapped [OF tp_wf_cfg [OF wf]] by simp
  have lk: "lookup cc l \<noteq> e" for l
    using wf a(1) eu unmapped_not_aligned [OF tp_wf_cfg [OF wf]]
    by (auto simp: tp_wf_def tp_map_ok_def Let_def)
  have "tp_map_ok ?c" using wf lk by (auto simp: tp_wf_def tp_map_ok_def Let_def)
  moreover have "tp_entry_ok ?c i" if "i < page_capacity (cfg cc)" for i
    using tp_wf_entryD [OF wf that] a s
    by (cases "i = e") (auto simp: tp_entry_ok_def Let_def loadable_def)
  moreover have "tp_inflight_ok ?c"
  proof (rule tp_inflight_ok_cong)
    show "tp_inflight_ok cc" using wf by (simp add: tp_wf_def)
    show "rq_page_ok cmd b ?c i" if "i \<in> inflight_entries cc" "rq_page_ok cmd b cc i" for cmd b i
      using that unmapped_not_inflight [OF wf a(1)] by (auto simp: rq_page_ok_def)
  qed simp_all
  moreover have "page_view ?c b = page_view cc b" for b
    using lk [of "lookup_no (cfg cc) b"] by (auto simp: page_view_def Let_def treepass_lookup_def)
  ultimately show ?thesis using wf by (simp add: tp_pres_def tp_same_def tp_wf_def)
qed

lemma free_status_free: "status (entry cc e) = TP_FREE_STATUS \<Longrightarrow> st_free (status (entry cc e))"
  by (simp add: flag_simps)

text \<open>The references the search leaves behind.\<close>

definition ref_if :: "bool \<Rightarrow> nat \<Rightarrow> nat \<Rightarrow> 'd treepass \<Rightarrow> 'd treepass" where
  "ref_if ref e tid cc = (if ref then treepass_inc_ref cc e tid else cc)"

lemma ref_if_frame [simp]:
  "cfg (ref_if r e tid cc) = cfg cc" "entry (ref_if r e tid cc) = entry cc"
  "free_hand (ref_if r e tid cc) = free_hand cc" "pincount (ref_if r e tid cc) = pincount cc"
  "lookup (ref_if r e tid cc) = lookup cc"
  by (simp_all add: ref_if_def)

lemma ref_if_cong:
  "refcount cc' = refcount cc \<Longrightarrow> cfg cc' = cfg cc \<Longrightarrow>
   refcount (ref_if r e tid cc') = refcount (ref_if r e tid cc)"
  by (simp add: ref_if_def treepass_inc_ref_def Let_def)

lemma scan_batch_effect:
  assumes wf: "tp_wf cc" and es: "\<forall>e\<in>set es. e < page_capacity (cfg cc)" and st: "loadable st"
    and ret: "scan_batch es tid st t ref cc = Inr (r, cc')"
  shows "case r of None \<Rightarrow> cc' = cc \<and> (\<forall>e\<in>set es. status (entry cc e) \<noteq> TP_FREE_STATUS)
    | Some e \<Rightarrow> tp_pres cc cc' \<and> fresh_entry cc' e st t \<and> free_hand cc' = free_hand cc \<and>
        refcount cc' = refcount (ref_if ref e tid cc) \<and> pincount cc' = pincount cc \<and>
        lookup cc' = lookup cc \<and> loads_kept cc cc'"
  using es ret
proof (induction es)
  case (Cons x xs)
  show ?case
  proof (cases "status (entry cc x) = TP_FREE_STATUS")
    case False
    then show ?thesis using Cons by (auto split: option.splits)
  next
    case True
    have x: "x < page_capacity (cfg cc)" using Cons.prems(1) by simp
    have f: "st_free (status (entry cc x))" by (rule free_status_free [OF True])
    note d = tp_wf_entryD [OF wf x]
    let ?c1 = "upd_entry cc x (status_update (\<lambda>_. TP_ALLOC_STATUS))"
    let ?c2 = "ref_if ref x tid ?c1"
    have p1: "tp_pres cc ?c1"
      using f d(3) by (intro pres_unmapped_entry [OF wf x]) (simp_all add: loadable_def flag_simps)
    have p2: "tp_pres ?c1 ?c2"
      using tp_pres_wf [OF p1] by (simp add: ref_if_def pres_inc_ref tp_pres_refl)
    have r: "r = Some x" and cc': "cc' = upd_entry ?c2 x (\<lambda>ent. ent\<lparr>status := st, ptype := t\<rparr>)"
      using Cons.prems(2) True f d(6) by (auto simp: Let_def ref_if_def split: if_splits)
    have p3: "tp_pres ?c2 cc'"
      unfolding cc' using f d(3) x st
      by (intro pres_unmapped_entry [OF tp_pres_wf [OF p2]]) simp_all
    have "fresh_entry cc' x st t" using x f d(3,5,6) by (simp add: fresh_entry_def cc')
    moreover have "refcount cc' = refcount (ref_if ref x tid cc)"
      by (simp add: cc' ref_if_def treepass_inc_ref_def Let_def)
    moreover have "unsubmitted cc' i b" if u: "unsubmitted cc i b" for i b
    proof -
      have "i \<noteq> x" "i \<notin> inflight_entries cc"
        using u f by (auto simp: unsubmitted_def rq_page_ok_def Let_def)
      then show ?thesis by (intro unsubmitted_cong [OF u]) (simp_all add: cc' ref_if_def)
    qed
    then have "loads_kept cc cc'" by (simp add: loads_kept_def)
    ultimately show ?thesis
      using p1 p2 p3 by (auto simp: r cc' intro: tp_pres_trans)
  qed
qed simp

section \<open>The search\<close>

lemma get_free_page_loop_effect:
  assumes "tp_wf cc" and "free_hand cc tid < batch_capacity (cfg cc)" and st: "loadable st"
    and "get_free_page_loop fuel tid st t ref blocking np mh ws cc = Inr (e, cc')"
    and eb: "blocking \<or> e \<noteq> TP_UNMAPPED_ENTRY"
  shows "tp_pres cc cc' \<and> fresh_entry cc' e st t \<and> free_hand cc' tid < batch_capacity (cfg cc) \<and>
    (\<forall>u. u \<noteq> tid \<longrightarrow> free_hand cc' u = free_hand cc u) \<and>
    refcount cc' = refcount (ref_if ref e tid cc) \<and> pincount cc' = pincount cc \<and>
    (\<forall>l. lookup cc l = TP_UNMAPPED_ENTRY \<longrightarrow> lookup cc' l = TP_UNMAPPED_ENTRY) \<and> loads_kept cc cc'"
  using assms(1,2,4)
proof (induction fuel arbitrary: np mh ws cc)
  case (Suc fuel)
  let ?es = "[free_hand cc tid * TP_ENTRIES_PER_BATCH..<
    free_hand cc tid * TP_ENTRIES_PER_BATCH + TP_ENTRIES_PER_BATCH]"
  have es: "\<forall>e\<in>set ?es. e < page_capacity (cfg cc)"
    using batch_entry_lt [OF tp_wf_cfg [OF Suc.prems(1)] Suc.prems(2)] by blast
  from Suc.prems(3) eb obtain r cc1 where sc: "scan_batch ?es tid st t ref cc = Inr (r, cc1)"
    and rest: "(case r of Some e \<Rightarrow> Inr (e, cc1)
      | None \<Rightarrow> obind (treepass_move_hand cc1 tid np) (\<lambda>(np, cc2).
          if free_hand cc2 tid < mh
          then let np' = Suc np;
                   (ws, cc3) = (if np' = 1 then platform_get_timestamp cc2 else (ws, cc2))
               in obind (treepass_wait cc3) (\<lambda>cc4.
                  get_free_page_loop fuel tid st t ref blocking np' (free_hand cc4 tid) ws cc4)
          else get_free_page_loop fuel tid st t ref blocking np (free_hand cc2 tid) ws cc2)) = Inr (e, cc')"
    by (auto simp: Let_def elim!: obind_InrE split: if_splits)
  note sb = scan_batch_effect [OF Suc.prems(1) es st sc]
  show ?case
  proof (cases r)
    case (Some i)
    then show ?thesis using sb rest Suc.prems(2) by auto
  next
    case None
    then have c1: "cc1 = cc" using sb by simp
    from rest None obtain np2 cc2 where mh: "treepass_move_hand cc tid np = Inr (np2, cc2)"
      and rest2: "(if free_hand cc2 tid < mh
          then let np' = Suc np2;
                   (ws, cc3) = (if np' = 1 then platform_get_timestamp cc2 else (ws, cc2))
               in obind (treepass_wait cc3) (\<lambda>cc4.
                  get_free_page_loop fuel tid st t ref blocking np' (free_hand cc4 tid) ws cc4)
          else get_free_page_loop fuel tid st t ref blocking np2 (free_hand cc2 tid) ws cc2) = Inr (e, cc')"
      by (auto simp: c1 elim!: obind_InrE)
    note m = move_hand_effect [OF Suc.prems(1) mh]
    note wf2 = tp_pres_wf [OF m(1)] and cf2 = tp_pres_cfg [OF m(1)]
    have main: "tp_pres cc cc' \<and> fresh_entry cc' e st t \<and> free_hand cc' tid < batch_capacity (cfg cc) \<and>
        (\<forall>u. u \<noteq> tid \<longrightarrow> free_hand cc' u = free_hand cc u) \<and>
        refcount cc' = refcount (ref_if ref e tid cc) \<and> pincount cc' = pincount cc \<and>
    (\<forall>l. lookup cc l = TP_UNMAPPED_ENTRY \<longrightarrow> lookup cc' l = TP_UNMAPPED_ENTRY) \<and> loads_kept cc cc'"
      if p: "tp_pres cc2 cc4" and h: "hand_state cc4 = hand_state cc2" and lk: "loads_kept cc2 cc4"
        and l: "get_free_page_loop fuel tid st t ref blocking np' mh' ws' cc4 = Inr (e, cc')"
      for cc4 np' mh' ws'
    proof -
      note d = hand_stateD [OF h] and c4 = tp_pres_cfg [OF p]
      have "free_hand cc4 tid < batch_capacity (cfg cc4)" using m(2) d c4 cf2 by simp
      from Suc.IH [OF tp_pres_wf [OF p] this l]
      show ?thesis
        using m p d c4 cf2 lk ref_if_cong [of cc4 cc ref e tid]
        by (auto intro: tp_pres_trans loads_kept_trans)
    qed
    show ?thesis
    proof (cases "free_hand cc2 tid < mh")
      case False
      then show ?thesis using rest2 by (intro main [OF tp_pres_refl [OF wf2] refl loads_kept_refl]) simp
    next
      case True
      define cc3 where "cc3 = (if Suc np2 = 1 then snd (platform_get_timestamp cc2) else cc2)"
      from rest2 True obtain ws' cc4 where w: "treepass_wait cc3 = Inr cc4"
        and l: "get_free_page_loop fuel tid st t ref blocking (Suc np2) (free_hand cc4 tid) ws' cc4 = Inr (e, cc')"
        by (auto simp: Let_def cc3_def case_prod_beta elim!: obind_InrE split: if_splits)
      have p3: "tp_pres cc2 cc3" and h3: "hand_state cc3 = hand_state cc2"
        using pres_timestamp [OF wf2] tp_pres_refl [OF wf2]
        by (auto simp: cc3_def platform_get_timestamp_def)
      have "tp_pres cc3 cc4" by (rule pres_treepass_wait [OF tp_pres_wf [OF p3] w])
      moreover have "loads_kept cc2 cc3"
        by (rule loads_kept_core) (simp_all add: cc3_def platform_get_timestamp_def)
      moreover have "loads_kept cc3 cc4" by (rule loads_kept_wait [OF tp_pres_wf [OF p3] w])
      ultimately show ?thesis
        using p3 hand_state_wait [OF w] h3 l
        by (intro main) (auto intro: tp_pres_trans loads_kept_trans)
    qed
  qed
qed simp

definition hands_ok :: "'d treepass \<Rightarrow> bool" where
  "hands_ok cc \<longleftrightarrow>
     (\<forall>u. free_hand cc u = TP_UNMAPPED_ENTRY \<or> free_hand cc u < batch_capacity (cfg cc))"

lemma get_free_page_effect:
  assumes wf: "tp_wf cc" and h: "hands_ok cc" and st: "loadable st"
    and ret: "treepass_get_free_page cc fuel tid st t ref blocking = Inr (e, cc')"
    and eb: "blocking \<or> e \<noteq> TP_UNMAPPED_ENTRY"
  shows "tp_pres cc cc'" and "fresh_entry cc' e st t" and "hands_ok cc'"
    and "refcount cc' = refcount (ref_if ref e tid cc)" and "pincount cc' = pincount cc"
    and "treepass_lookup cc a = TP_UNMAPPED_ENTRY \<Longrightarrow> treepass_lookup cc' a = TP_UNMAPPED_ENTRY"
    and "loads_kept cc cc'"
proof -
  from ret obtain cc1 where f: "(if free_hand cc tid = TP_UNMAPPED_ENTRY
      then obind (treepass_move_hand cc tid 0) (\<lambda>(_, cc1). Inr cc1) else Inr cc) = Inr cc1"
    and l: "get_free_page_loop fuel tid st t ref blocking 0 (free_hand cc tid) 0 cc1 = Inr (e, cc')"
    by (auto simp: treepass_get_free_page_def Let_def elim!: obind_InrE)
  have c1: "tp_pres cc cc1 \<and> free_hand cc1 tid < batch_capacity (cfg cc) \<and>
      (\<forall>u. u \<noteq> tid \<longrightarrow> free_hand cc1 u = free_hand cc u) \<and>
      refcount cc1 = refcount cc \<and> pincount cc1 = pincount cc \<and>
      (\<forall>l. lookup cc l = TP_UNMAPPED_ENTRY \<longrightarrow> lookup cc1 l = TP_UNMAPPED_ENTRY) \<and> loads_kept cc cc1"
  proof (cases "free_hand cc tid = TP_UNMAPPED_ENTRY")
    case True
    then show ?thesis using f move_hand_effect [OF wf] by (auto elim!: obind_InrE)
  next
    case False
    then show ?thesis using f h tp_pres_refl [OF wf] by (auto simp: hands_ok_def loads_kept_refl)
  qed
  then have p1: "tp_pres cc cc1" and fh: "free_hand cc1 tid < batch_capacity (cfg cc1)"
    using tp_pres_cfg by fastforce+
  note e = get_free_page_loop_effect [OF tp_pres_wf [OF p1] fh st l eb]
  show "tp_pres cc cc'" using p1 e by (blast intro: tp_pres_trans)
  show "loads_kept cc cc'" using c1 e by (blast intro: loads_kept_trans)
  show "fresh_entry cc' e st t" using e by blast
  have "cfg cc' = cfg cc1" using e tp_pres_cfg by blast
  then show "hands_ok cc'"
    using e c1 h tp_pres_cfg [OF p1] by (auto simp: hands_ok_def) (metis)+
  show "refcount cc' = refcount (ref_if ref e tid cc)" and "pincount cc' = pincount cc"
    using e c1 ref_if_cong [of cc1 cc] tp_pres_cfg [OF p1] by auto
  show "treepass_lookup cc a = TP_UNMAPPED_ENTRY \<Longrightarrow> treepass_lookup cc' a = TP_UNMAPPED_ENTRY"
    using e c1 tp_pres_cfg [OF p1] \<open>cfg cc' = cfg cc1\<close> by (simp add: treepass_lookup_def)
qed

text \<open>A thread whose batch has a free entry gets the first one at once.\<close>

definition taken :: "nat \<Rightarrow> nat \<Rightarrow> u32 \<Rightarrow> page_type \<Rightarrow> bool \<Rightarrow> 'd treepass \<Rightarrow> 'd treepass" where
  "taken e tid st t ref cc = upd_entry (ref_if ref e tid cc) e (\<lambda>ent. ent\<lparr>status := st, ptype := t\<rparr>)"

lemma scan_batch_finds:
  assumes "\<exists>e\<in>set es. status (entry cc e) = TP_FREE_STATUS" and "sorted es"
    and "\<forall>e\<in>set es. status (entry cc e) = TP_FREE_STATUS \<longrightarrow> waiters (entry cc e) = []"
  shows "\<exists>e. e \<in> set es \<and> status (entry cc e) = TP_FREE_STATUS \<and>
    (\<forall>j\<in>set es. j < e \<longrightarrow> status (entry cc j) \<noteq> TP_FREE_STATUS) \<and>
    scan_batch es tid st t ref cc = Inr (Some e, taken e tid st t ref cc)"
  using assms
proof (induction es)
  case (Cons x xs)
  show ?case
  proof (cases "status (entry cc x) = TP_FREE_STATUS")
    case True
    have "upd_entry (ref_if ref x tid (upd_entry cc x (status_update (\<lambda>_. TP_ALLOC_STATUS)))) x
        (\<lambda>ent. ent\<lparr>status := st, ptype := t\<rparr>) = taken x tid st t ref cc"
      by (simp add: taken_def ref_if_def treepass_inc_ref_def upd_entry_def Let_def)
    then show ?thesis
      using True Cons.prems(2,3) by (intro exI [of _ x]) (auto simp: Let_def ref_if_def)
  next
    case False
    then show ?thesis using Cons by (auto 0 3)
  qed
qed simp

lemma get_free_page_now:
  assumes wf: "tp_wf cc" and h: "free_hand cc tid < batch_capacity (cfg cc)"
    and e: "e < page_capacity (cfg cc)" "e div TP_ENTRIES_PER_BATCH = free_hand cc tid"
      "status (entry cc e) = TP_FREE_STATUS"
  shows "\<exists>i. i < page_capacity (cfg cc) \<and> i div TP_ENTRIES_PER_BATCH = free_hand cc tid \<and>
    status (entry cc i) = TP_FREE_STATUS \<and>
    (\<forall>j<i. j div TP_ENTRIES_PER_BATCH = free_hand cc tid \<longrightarrow> status (entry cc j) \<noteq> TP_FREE_STATUS) \<and>
    treepass_get_free_page cc (Suc fuel) tid st t ref blocking = Inr (i, taken i tid st t ref cc)"
proof -
  let ?lo = "free_hand cc tid * TP_ENTRIES_PER_BATCH"
  let ?es = "[?lo..<?lo + TP_ENTRIES_PER_BATCH]"
  have lt: "i < page_capacity (cfg cc)" if "i \<in> set ?es" for i
    using batch_entry_lt [OF tp_wf_cfg [OF wf] h that] .
  have mem: "j \<in> set ?es \<longleftrightarrow> j div TP_ENTRIES_PER_BATCH = free_hand cc tid" for j
    by (auto simp: TP_ENTRIES_PER_BATCH_def)
  have "waiters (entry cc i) = []" if "i \<in> set ?es" "status (entry cc i) = TP_FREE_STATUS" for i
    using tp_wf_entryD(6) [OF wf lt [OF that(1)]] that(2) by (simp add: flag_simps)
  then obtain i where i: "i \<in> set ?es" "status (entry cc i) = TP_FREE_STATUS"
    "\<forall>j\<in>set ?es. j < i \<longrightarrow> status (entry cc j) \<noteq> TP_FREE_STATUS"
    and s: "scan_batch ?es tid st t ref cc = Inr (Some i, taken i tid st t ref cc)"
    using scan_batch_finds [of ?es cc tid st t ref] e mem by (auto simp del: set_upt)
  have "batch_capacity (cfg cc) < TP_UNMAPPED_ENTRY"
    using tp_wf_cfg [OF wf] by (simp add: tp_cfg_wf_def tp_consts)
  then have "free_hand cc tid \<noteq> TP_UNMAPPED_ENTRY" using h by simp
  then have "treepass_get_free_page cc (Suc fuel) tid st t ref blocking = Inr (i, taken i tid st t ref cc)"
    using s by (simp add: treepass_get_free_page_def Let_def)
  then show ?thesis using i lt mem by blast
qed

end
