(* ===== verification/TpMap.thy ===== *)
theory TpMap
  imports TpAlloc
begin

text \<open>
  Mapping a page: allocation and loading give a fresh entry an address; discarding takes the
  address away. Allocation changes what the memory shows at its own page only, loading
  changes it nowhere, and discarding makes the device's copy of its own page visible.
\<close>

section \<open>Giving an entry an address\<close>

lemma map_entry_wf:
  assumes wf: "tp_wf cc" and e: "e < page_capacity (cfg cc)"
    and u: "disk_addr (entry cc e) = TP_UNMAPPED_ADDR"
    and a: "page_aligned (cfg cc) addr" and l: "treepass_lookup cc addr = TP_UNMAPPED_ENTRY"
    and f: "disk_addr (f (entry cc e)) = addr" "\<not> st_free (status (f (entry cc e)))"
    and coh: "st_clean (status (f (entry cc e))) \<Longrightarrow> \<not> st_loading (status (f (entry cc e))) \<Longrightarrow>
      page_data (f (entry cc e)) = disk cc addr"
  shows "tp_wf (upd_entry (set_lookup cc addr e) e f)"
    and "page_aligned (cfg cc) b \<Longrightarrow> page_view (upd_entry (set_lookup cc addr e) e f) b =
      (if b = addr then (if st_loading (status (f (entry cc e))) then disk cc addr
                         else page_data (f (entry cc e)))
       else page_view cc b)"
proof -
  let ?c = "upd_entry (set_lookup cc addr e) e f"
  note c = tp_wf_cfg [OF wf]
  have eu: "e \<noteq> TP_UNMAPPED_ENTRY" using e capacity_lt_unmapped [OF c] by simp
  have au: "addr \<noteq> TP_UNMAPPED_ADDR" using a unmapped_not_aligned [OF c] by auto
  have lk: "lookup ?c n = (if n = lookup_no (cfg cc) addr then e else lookup cc n)" for n
    by (simp add: set_lookup_def)
  have ne: "lookup cc n \<noteq> e" for n
    using wf u eu unmapped_not_aligned [OF c] by (auto simp: tp_wf_def tp_map_ok_def Let_def)
  have "tp_map_ok ?c"
    using wf ne f a e by (auto simp: tp_wf_def tp_map_ok_def lk Let_def)
  moreover have "tp_entry_ok ?c i" if i: "i < page_capacity (cfg cc)" for i
  proof (cases "i = e")
    case True
    then show ?thesis using f coh au by (auto simp: tp_entry_ok_def Let_def)
  next
    case False
    have "lookup_no (cfg cc) (disk_addr (entry cc i)) \<noteq> lookup_no (cfg cc) addr"
      if m: "disk_addr (entry cc i) \<noteq> TP_UNMAPPED_ADDR"
    proof
      assume "lookup_no (cfg cc) (disk_addr (entry cc i)) = lookup_no (cfg cc) addr"
      then have "treepass_lookup cc addr = i"
        using tp_wf_entryD(1) [OF wf i m] by (simp add: treepass_lookup_def)
      with l i capacity_lt_unmapped [OF c] show False by simp
    qed
    then show ?thesis using False tp_wf_entryD [OF wf i] by (auto simp: tp_entry_ok_def Let_def)
  qed
  moreover have "tp_inflight_ok ?c"
  proof (rule tp_inflight_ok_cong)
    show "tp_inflight_ok cc" using wf by (simp add: tp_wf_def)
    show "rq_page_ok cmd b ?c i" if "i \<in> inflight_entries cc" "rq_page_ok cmd b cc i" for cmd b i
      using that unmapped_not_inflight [OF wf u] by (auto simp: rq_page_ok_def)
  qed simp_all
  ultimately show "tp_wf ?c" using wf by (simp add: tp_wf_def)
  assume b: "page_aligned (cfg cc) b"
  show "page_view ?c b = (if b = addr then (if st_loading (status (f (entry cc e))) then disk cc addr
                         else page_data (f (entry cc e))) else page_view cc b)"
  proof (cases "b = addr")
    case True
    then show ?thesis using eu by (simp add: page_view_def Let_def)
  next
    case False
    then have "lookup_no (cfg cc) b \<noteq> lookup_no (cfg cc) addr"
      using aligned_lookup_no_inj [OF b a] by blast
    then show ?thesis using False ne [of "lookup_no (cfg cc) b"]
      by (simp add: page_view_def Let_def treepass_lookup_def)
  qed
qed

lemma unmapped_view: "treepass_lookup cc a = TP_UNMAPPED_ENTRY \<Longrightarrow> page_view cc a = disk cc a"
  by (simp add: page_view_def)

section \<open>Allocation\<close>

text \<open>What a successful allocation of \<open>addr\<close> gives its caller.\<close>

definition allocated :: "'d treepass \<Rightarrow> nat \<Rightarrow> u64 \<Rightarrow> page_type \<Rightarrow> u32 \<Rightarrow> nat \<Rightarrow> 'd treepass \<Rightarrow> bool" where
  "allocated cc tid addr t st e cc' \<longleftrightarrow>
     tp_wf cc' \<and> cfg cc' = cfg cc \<and> hands_ok cc' \<and> e < page_capacity (cfg cc) \<and>
     treepass_lookup cc' addr = e \<and> disk_addr (entry cc' e) = addr \<and> ptype (entry cc' e) = t \<and>
     status (entry cc' e) = st \<and> refcount cc' = refcount (treepass_inc_ref cc e tid) \<and>
     (\<forall>b. page_aligned (cfg cc) b \<and> b \<noteq> addr \<longrightarrow> page_view cc' b = page_view cc b)"

lemma allocate_effect:
  assumes wf: "tp_wf cc" and h: "hands_ok cc" and a: "page_aligned (cfg cc) addr"
    and l: "treepass_lookup cc addr = TP_UNMAPPED_ENTRY"
    and st: "loadable st" "\<not> st_clean st"
    and g: "treepass_get_free_page cc fuel tid st t True True = Inr (e, cc1)"
    and c2: "tp_pres cc1 cc2" "entry cc2 = entry cc1" "lookup cc2 = lookup cc1"
      "refcount cc2 = refcount cc1" "free_hand cc2 = free_hand cc1"
    and f: "disk_addr (f (entry cc1 e)) = addr" "status (f (entry cc1 e)) = st" "ptype (f (entry cc1 e)) = t"
  shows "allocated cc tid addr t st e (upd_entry (set_lookup cc2 addr e) e f)"
proof -
  note ge = get_free_page_effect [OF wf h st(1) g disjI1 [OF TrueI]]
  note fr = ge(2) [unfolded fresh_entry_def Let_def]
  note c1 = tp_pres_cfg [OF ge(1)] and cc2 = tp_pres_cfg [OF c2(1)]
  note wf2 = tp_pres_wf [OF c2(1)]
  have l2: "treepass_lookup cc2 addr = TP_UNMAPPED_ENTRY"
    using ge(6) [OF l] c2(3) cc2 by (simp add: treepass_lookup_def)
  have u2: "disk_addr (entry cc2 e) = TP_UNMAPPED_ADDR" and e2: "e < page_capacity (cfg cc2)"
    and a2: "page_aligned (cfg cc2) addr"
    using fr c2(2) cc2 c1 a by simp_all
  note m = map_entry_wf [OF wf2 e2 u2 a2 l2, of f]
  have m1: "tp_wf (upd_entry (set_lookup cc2 addr e) e f)"
    using f c2(2) st by (intro m(1)) (simp_all add: loadable_def)
  have "page_view (upd_entry (set_lookup cc2 addr e) e f) b = page_view cc b"
    if b: "page_aligned (cfg cc) b" "b \<noteq> addr" for b
  proof -
    have "page_view (upd_entry (set_lookup cc2 addr e) e f) b = page_view cc2 b"
      using b f c2(2) st c1 cc2 by (subst m(2)) (simp_all add: loadable_def)
    also have "\<dots> = page_view cc b"
      using b tp_pres_view [OF tp_pres_trans [OF ge(1) c2(1)]] by simp
    finally show ?thesis .
  qed
  then show ?thesis
    using m1 fr ge(3,4) c1 cc2 c2 f
    by (simp add: allocated_def hands_ok_def ref_if_def)
qed

lemma alloc_effect:
  assumes wf: "tp_wf cc" and h: "hands_ok cc" and a: "page_aligned (cfg cc) addr"
    and l: "treepass_lookup cc addr = TP_UNMAPPED_ENTRY"
    and ret: "treepass_alloc cc fuel tid ts addr t = Inr (e, cc')"
  shows "allocated cc tid addr t (TP_ALLOC_STATUS OR TP_CLOCK_ONE) e cc' \<and> entry_time (entry cc' e) = ts"
proof -
  from ret obtain cc1 where
    g: "treepass_get_free_page cc fuel tid (TP_ALLOC_STATUS OR TP_CLOCK_ONE) t True True = Inr (e, cc1)"
    and cc': "cc' = upd_entry (set_lookup cc1 addr e) e (\<lambda>x. (entry_time_update (\<lambda>_. ts))
       (x\<lparr>disk_addr := addr, ptype := t\<rparr>))"
    by (auto simp: treepass_alloc_def Let_def set_lookup_upd_commute elim!: obind_InrE split: if_splits)
  have st: "loadable (TP_ALLOC_STATUS OR TP_CLOCK_ONE)" "\<not> st_clean (TP_ALLOC_STATUS OR TP_CLOCK_ONE)"
    by (simp_all add: loadable_def flag_simps)
  note ge = get_free_page_effect [OF wf h st(1) g disjI1 [OF TrueI]]
  have s1: "status (entry cc1 e) = TP_ALLOC_STATUS OR TP_CLOCK_ONE"
    using ge(2) by (simp add: fresh_entry_def Let_def)
  show ?thesis
    unfolding cc' using s1
    by (intro conjI allocate_effect [OF wf h a l st g tp_pres_refl [OF tp_pres_wf [OF ge(1)]]])
      simp_all
qed

lemma timestamp_upd_commute:
  "platform_get_timestamp (upd_entry cc e f) =
     (fst (platform_get_timestamp cc), upd_entry (snd (platform_get_timestamp cc)) e f)"
  by (simp add: platform_get_timestamp_def upd_entry_def)

lemma alloc_hot_effect:
  assumes wf: "tp_wf cc" and h: "hands_ok cc" and a: "page_aligned (cfg cc) addr"
    and l: "treepass_lookup cc addr = TP_UNMAPPED_ENTRY"
    and ret: "treepass_alloc_compaction_hot cc fuel tid addr t = Inr (e, cc')"
  shows "allocated cc tid addr t (TP_ALLOC_STATUS OR push_bit TP_CLOCK_SHIFT TP_CLOCK_MAX) e cc'"
proof -
  let ?st = "TP_ALLOC_STATUS OR push_bit TP_CLOCK_SHIFT TP_CLOCK_MAX"
  from ret obtain cc1 where
    g: "treepass_get_free_page cc fuel tid ?st t True True = Inr (e, cc1)"
    by (auto simp: treepass_alloc_compaction_hot_def Let_def elim!: obind_InrE split: prod.splits)
  have st: "loadable ?st" "\<not> st_clean ?st" by (simp_all add: loadable_def flag_simps)
  note ge = get_free_page_effect [OF wf h st(1) g disjI1 [OF TrueI]]
  define cc2 where "cc2 = (if t = PAGE_TYPE_BRANCH then snd (platform_get_timestamp cc1) else cc1)"
  obtain ts where cc': "cc' = upd_entry (set_lookup cc2 addr e) e (\<lambda>x. (entry_time_update (\<lambda>_. ts))
       (x\<lparr>disk_addr := addr, ptype := t\<rparr>))"
    using ret g by (auto simp: treepass_alloc_compaction_hot_def Let_def cc2_def set_lookup_upd_commute
        timestamp_upd_commute split: if_splits)
  have s1: "status (entry cc1 e) = ?st" using ge(2) by (simp add: fresh_entry_def Let_def)
  have "tp_pres cc1 cc2"
    using pres_timestamp [OF tp_pres_wf [OF ge(1)]] tp_pres_refl [OF tp_pres_wf [OF ge(1)]]
    by (simp add: cc2_def)
  then show ?thesis
    unfolding cc' using s1
    by (intro allocate_effect [OF wf h a l st g]) (simp_all add: cc2_def platform_get_timestamp_def)
qed

section \<open>Loading\<close>

lemma read_loading_status:
  "loadable TP_READ_LOADING_STATUS" "st_loading TP_READ_LOADING_STATUS" "\<not> st_free TP_READ_LOADING_STATUS"
  by (simp_all add: loadable_def flag_simps)

text \<open>An entry that holds a page being loaded, in no request and referenced by the loader.\<close>

definition loading_entry :: "'d treepass \<Rightarrow> nat \<Rightarrow> u64 \<Rightarrow> page_type \<Rightarrow> bool" where
  "loading_entry cc e addr t \<longleftrightarrow>
     e < page_capacity (cfg cc) \<and> e \<notin> inflight_entries cc \<and> treepass_lookup cc addr = e \<and>
     disk_addr (entry cc e) = addr \<and> ptype (entry cc e) = t \<and>
     status (entry cc e) = TP_READ_LOADING_STATUS \<and> waiters (entry cc e) = []"

lemma load_map_effect:
  assumes wf: "tp_wf cc" and a: "page_aligned (cfg cc) addr"
    and l: "treepass_lookup cc addr = TP_UNMAPPED_ENTRY"
    and fr: "fresh_entry cc e TP_READ_LOADING_STATUS t"
    and f: "disk_addr (f (entry cc e)) = addr" "status (f (entry cc e)) = status (entry cc e)"
      "ptype (f (entry cc e)) = t" "waiters (f (entry cc e)) = waiters (entry cc e)"
  shows "tp_pres cc (upd_entry (set_lookup cc addr e) e f)"
    and "loading_entry (upd_entry (set_lookup cc addr e) e f) e addr t"
proof -
  note fr' = fr [unfolded fresh_entry_def Let_def]
  note m = map_entry_wf [OF wf _ _ a l, of e f]
  have nl: "e \<notin> inflight_entries cc" using fr' by (intro unmapped_not_inflight [OF wf]) simp
  have w: "tp_wf (upd_entry (set_lookup cc addr e) e f)"
    using fr' f read_loading_status by (intro m(1)) simp_all
  have "page_view (upd_entry (set_lookup cc addr e) e f) b = page_view cc b"
    if "page_aligned (cfg cc) b" for b
    using fr' f read_loading_status that unmapped_view [OF l] by (subst m(2)) simp_all
  with w show "tp_pres cc (upd_entry (set_lookup cc addr e) e f)"
    by (simp add: tp_pres_def tp_same_def)
  show "loading_entry (upd_entry (set_lookup cc addr e) e f) e addr t"
    using fr' f nl by (simp add: loading_entry_def)
qed

lemma refcount_dec:
  "refcount cc1 = refcount (treepass_inc_ref cc e t) \<Longrightarrow> cfg cc1 = cfg cc \<Longrightarrow>
   refcount (treepass_dec_ref cc1 e t) = refcount cc"
  by (simp add: treepass_dec_ref_def treepass_inc_ref_def Let_def)

lemma acquire_effect:
  assumes wf: "tp_wf cc" and h: "hands_ok cc" and a: "page_aligned (cfg cc) addr"
    and l: "treepass_lookup cc addr = TP_UNMAPPED_ENTRY"
    and ret: "treepass_acquire_entry_for_load cc fuel tid addr t = Inr (e, cc')"
  shows "tp_pres cc cc'" "loading_entry cc' e addr t" "hands_ok cc'"
    "refcount cc' = refcount (treepass_inc_ref cc e tid)"
proof -
  from ret obtain i cc1 where
    g: "treepass_get_free_page cc fuel tid TP_READ_LOADING_STATUS t True True = Inr (i, cc1)" and
    r: "(if treepass_lookup cc1 addr \<noteq> TP_UNMAPPED_ENTRY
       then let cc2 = treepass_dec_ref cc1 i tid
         in if waiters (entry cc2 i) \<noteq> [] then Inl Abort
            else Inr (TP_UNMAPPED_ENTRY, free_entry i cc2)
       else Inr (i, upd_entry (set_lookup cc1 addr i) i (disk_addr_update (\<lambda>_. addr)))) = Inr (e, cc')"
    by (auto simp: treepass_acquire_entry_for_load_def elim!: obind_InrE)
  note gi = get_free_page_effect [OF wf h read_loading_status(1) g disjI1 [OF TrueI]]
  from r gi(6) [OF l] have i: "i = e" and l1: "treepass_lookup cc1 addr = TP_UNMAPPED_ENTRY"
    and cc': "cc' = upd_entry (set_lookup cc1 addr e) e (disk_addr_update (\<lambda>_. addr))"
    by (auto simp: Let_def split: if_splits)
  note ge = get_free_page_effect [OF wf h read_loading_status(1) g [unfolded i] disjI1 [OF TrueI]]
  have a1: "page_aligned (cfg cc1) addr" using a tp_pres_cfg [OF ge(1)] by simp
  have pt: "ptype (entry cc1 e) = t" using ge(2) by (simp add: fresh_entry_def Let_def)
  note m = load_map_effect [OF tp_pres_wf [OF ge(1)] a1 l1 ge(2), of "disk_addr_update (\<lambda>_. addr)"]
  show "tp_pres cc cc'" unfolding cc' using ge(1) m(1) pt by (auto intro: tp_pres_trans)
  show "loading_entry cc' e addr t" unfolding cc' using m(2) pt by simp
  show "hands_ok cc'" using ge(3) by (simp add: cc' hands_ok_def)
  show "refcount cc' = refcount (treepass_inc_ref cc e tid)" using ge(4) by (simp add: cc' ref_if_def)
qed

end
