(* ===== verification/TpGetPres.thy ===== *)
theory TpGetPres
  imports TpMap
begin

text \<open>
  What \<open>treepass_get\<close> returns: the handle of an entry that maps the page asked for, loaded,
  whose contents are what the memory shows at that address, with one reference of the caller
  on it; or, for a non-blocking caller, no handle. Reading never changes the memory.
\<close>

definition got_page :: "'d treepass \<Rightarrow> nat \<Rightarrow> u64 \<Rightarrow> page_type \<Rightarrow> nat \<Rightarrow> 'd treepass \<Rightarrow> bool" where
  "got_page cc tid addr t e cc' \<longleftrightarrow>
     e < page_capacity (cfg cc) \<and> treepass_lookup cc' addr = e \<and> disk_addr (entry cc' e) = addr \<and>
     ptype (entry cc' e) = t \<and> \<not> st_loading (status (entry cc' e)) \<and>
     page_data (entry cc' e) = page_view cc addr \<and>
     refcount cc' = refcount (treepass_inc_ref cc e tid)"

section \<open>Hits\<close>

lemma mapped_view:
  assumes wf: "tp_wf cc" and e: "e < page_capacity (cfg cc)"
    and a: "disk_addr (entry cc e) = addr" "addr \<noteq> TP_UNMAPPED_ADDR"
    and l: "\<not> st_loading (status (entry cc e))"
  shows "treepass_lookup cc addr = e" and "page_data (entry cc e) = page_view cc addr"
proof -
  show le: "treepass_lookup cc addr = e" using tp_wf_entryD(1) [OF wf e] a by simp
  have "e \<noteq> TP_UNMAPPED_ENTRY" using e capacity_lt_unmapped [OF tp_wf_cfg [OF wf]] by simp
  then show "page_data (entry cc e) = page_view cc addr" using le l by (simp add: page_view_def)
qed

lemma hit_effect:
  assumes wf: "tp_wf cc" and e: "e < page_capacity (cfg cc)" and a: "page_aligned (cfg cc) addr"
    and h: "hands_ok cc"
    and ret: "get_in_cache_locked tid ts addr t wm e cc = Inr (retry, hnd, cc')"
  shows "tp_pres cc cc' \<and> hands_ok cc' \<and>
    (if retry then hnd = HUnset \<and> refcount cc' = refcount (treepass_dec_ref cc e tid)
     else hnd = HPage e \<and> treepass_lookup cc' addr = e \<and> disk_addr (entry cc' e) = addr \<and>
       ptype (entry cc' e) = t \<and> \<not> st_loading (status (entry cc' e)) \<and>
       page_data (entry cc' e) = page_view cc addr \<and> refcount cc' = refcount cc)"
proof -
  have au: "addr \<noteq> TP_UNMAPPED_ADDR" using a unmapped_not_aligned [OF tp_wf_cfg [OF wf]] by auto
  from ret obtain cc1 where w: "wait_while (\<lambda>cc. treepass_test_flag cc e TP_LOADING \<noteq> 0) cc = Inr cc1"
    and r: "(if disk_addr (entry cc1 e) \<noteq> addr then Inr (True, HUnset, treepass_dec_ref cc1 e tid)
       else if ptype (entry cc1 e) \<noteq> t
       then (if disk_addr (entry cc1 e) \<noteq> addr
             then Inr (True, HUnset, treepass_dec_ref cc1 e tid) else Inl Abort)
       else
         let cc2 = (if wm \<and> t = PAGE_TYPE_BRANCH \<and> entry_time (entry cc1 e) = 0
                    then upd_entry cc1 e (entry_time_update (\<lambda>_. ts)) else cc1);
             cc3 = upd_stats cc2 tid (\<lambda>st. st\<lparr>cache_hits := bump t 1 (cache_hits st)\<rparr>)
         in Inr (False, HPage e, cc3)) = Inr (retry, hnd, cc')"
    by (auto simp: get_in_cache_locked_def elim!: obind_InrE)
  have p1: "tp_pres cc cc1" by (rule pres_wait_while [OF wf w])
  note hs = hand_stateD [OF hand_state_wait_while [OF w]] and c1 = tp_pres_cfg [OF p1]
  have nl: "\<not> st_loading (status (entry cc1 e))"
    using wait_while_done [OF wf w] by (simp add: flag_simps)
  show ?thesis
  proof (cases "disk_addr (entry cc1 e) = addr \<and> ptype (entry cc1 e) = t")
    case False
    then have "retry" "hnd = HUnset" "cc' = treepass_dec_ref cc1 e tid"
      using r by (auto split: if_splits)
    then show ?thesis
      using p1 pres_dec_ref [OF tp_pres_wf [OF p1]] hs c1 h
      by (auto simp: hands_ok_def treepass_dec_ref_def Let_def intro: tp_pres_trans)
  next
    case True
    define cc2 where "cc2 = (if wm \<and> t = PAGE_TYPE_BRANCH \<and> entry_time (entry cc1 e) = 0
                    then upd_entry cc1 e (entry_time_update (\<lambda>_. ts)) else cc1)"
    have cc': "cc' = upd_stats cc2 tid (\<lambda>st. st\<lparr>cache_hits := bump t 1 (cache_hits st)\<rparr>)"
      and rr: "\<not> retry" "hnd = HPage e" using r True by (auto simp: cc2_def Let_def)
    have ec: "e < page_capacity (cfg cc1)" using e c1 by simp
    note mv = mapped_view [OF tp_pres_wf [OF p1] ec _ au nl]
    have nf: "\<not> st_free (status (entry cc1 e))"
      using tp_wf_mapped_aligned(2) [OF tp_pres_wf [OF p1] ec] True au by simp
    have p2: "tp_pres cc1 cc2"
      using pres_entry_time [OF tp_pres_wf [OF p1] ec nf] tp_pres_refl [OF tp_pres_wf [OF p1]]
      by (simp add: cc2_def)
    have p3: "tp_pres cc2 cc'" unfolding cc' by (rule pres_upd_stats [OF tp_pres_wf [OF p2]])
    have "page_view cc1 addr = page_view cc addr" by (rule tp_pres_view [OF p1 a])
    then show ?thesis
      using p1 p2 p3 True mv hs c1 h nl rr
      by (auto simp: cc' cc2_def hands_ok_def intro: tp_pres_trans)
  qed
qed

lemma get_read_effect:
  assumes wf: "tp_wf cc" and e: "e < page_capacity (cfg cc)"
    and ret: "treepass_try_get_read cc tid e b = (rc, cc')"
  shows "tp_pres cc cc'" and "free_hand cc' = free_hand cc"
    and "refcount cc' = (if rc = GET_RC_SUCCESS then refcount (treepass_inc_ref cc e tid) else refcount cc)"
    and "rc \<noteq> GET_RC_SUCCESS \<Longrightarrow> cc' = cc" and "rc \<noteq> GET_RC_FLUSHING"
    and "cfg cc' = cfg cc"
proof -
  show p: "tp_pres cc cc'" using pres_try_get_read [OF wf e, of tid b] ret by simp
  show "rc \<noteq> GET_RC_SUCCESS \<Longrightarrow> cc' = cc" by (rule try_get_read_fail [OF ret])
  show "free_hand cc' = free_hand cc"
    and "refcount cc' = (if rc = GET_RC_SUCCESS then refcount (treepass_inc_ref cc e tid) else refcount cc)"
    and "rc \<noteq> GET_RC_FLUSHING"
    using ret by (auto simp: treepass_try_get_read_def Let_def treepass_set_clock_accessed_def
        split: if_splits)
  show "cfg cc' = cfg cc" by (rule tp_pres_cfg [OF p])
qed

text \<open>The outcome of one attempt.\<close>

definition attempt_ok ::
  "'d treepass \<Rightarrow> nat \<Rightarrow> u64 \<Rightarrow> bool \<Rightarrow> page_type \<Rightarrow> bool \<Rightarrow> handle \<Rightarrow> 'd treepass \<Rightarrow> bool" where
  "attempt_ok cc tid addr blocking t retry hnd cc' \<longleftrightarrow>
     tp_pres cc cc' \<and> hands_ok cc' \<and>
     (if retry then hnd = HUnset \<and> refcount cc' = refcount cc
      else case hnd of
        HPage e \<Rightarrow> got_page cc tid addr t e cc'
      | HNull \<Rightarrow> \<not> blocking \<and> refcount cc' = refcount cc
      | HUnset \<Rightarrow> \<not> blocking \<and> cc' = cc \<and> treepass_lookup cc addr = TP_UNMAPPED_ENTRY)"

lemma hit_attempt:
  assumes wf: "tp_wf cc" and e: "e < page_capacity (cfg cc)" and a: "page_aligned (cfg cc) addr"
    and h: "hands_ok cc" and rd: "treepass_try_get_read cc tid e True = (GET_RC_SUCCESS, cc1)"
    and ret: "get_in_cache_locked tid ts addr t wm e cc1 = Inr (retry, hnd, cc')"
  shows "attempt_ok cc tid addr bl t retry hnd cc'"
proof -
  note g = get_read_effect [OF wf e rd]
  have h1: "hands_ok cc1" using h g by (simp add: hands_ok_def)
  have ec: "e < page_capacity (cfg cc1)" "page_aligned (cfg cc1) addr" using e a g(6) by simp_all
  note he = hit_effect [OF tp_pres_wf [OF g(1)] ec h1 ret]
  have v: "page_view cc1 addr = page_view cc addr" by (rule tp_pres_view [OF g(1) a])
  have d: "refcount (treepass_dec_ref cc1 e tid) = refcount cc"
    using g(3) g(6) by (intro refcount_dec) simp_all
  show ?thesis
    using he g v d e
    by (auto simp: attempt_ok_def got_page_def intro: tp_pres_trans split: if_splits)
qed

lemma moved_attempt:
  assumes wf: "tp_wf cc" and e: "e < page_capacity (cfg cc)" and h: "hands_ok cc"
    and rd: "treepass_try_get_read cc tid e True = (GET_RC_SUCCESS, cc1)"
  shows "attempt_ok cc tid addr bl t True HUnset (treepass_dec_ref cc1 e tid)"
proof -
  note g = get_read_effect [OF wf e rd]
  have d: "refcount (treepass_dec_ref cc1 e tid) = refcount cc"
    using g(3) g(6) by (intro refcount_dec) simp_all
  show ?thesis
    using pres_dec_ref [OF tp_pres_wf [OF g(1)], of e tid] g h d
    by (auto simp: attempt_ok_def hands_ok_def intro: tp_pres_trans)
qed

lemma get_in_cache_effect:
  assumes wf: "tp_wf cc" and e: "e < page_capacity (cfg cc)" and a: "page_aligned (cfg cc) addr"
    and h: "hands_ok cc"
    and ret: "treepass_get_in_cache cc tid ts addr bl t wm e = Inr (retry, hnd, cc')"
  shows "attempt_ok cc tid addr bl t retry hnd cc'"
proof -
  obtain rc cc1 where rd: "treepass_try_get_read cc tid e True = (rc, cc1)" by (cases "treepass_try_get_read cc tid e True")
  note g = get_read_effect [OF wf e rd]
  show ?thesis
  proof (cases rc)
    case GET_RC_SUCCESS
    then have "(if disk_addr (entry cc1 e) \<noteq> addr then Inr (True, HUnset, treepass_dec_ref cc1 e tid)
        else get_in_cache_locked tid ts addr t wm e cc1) = Inr (retry, hnd, cc')"
      using ret rd by (auto simp: treepass_get_in_cache_def treepass_get_read_def Let_def split: if_splits)
    then show ?thesis
      using hit_attempt [OF wf e a h] moved_attempt [OF wf e h] rd GET_RC_SUCCESS
      by (auto split: if_splits)
  qed (use ret rd g h tp_pres_refl [OF wf] in
    \<open>auto simp: treepass_get_in_cache_def treepass_get_read_def Let_def attempt_ok_def split: if_splits\<close>)
qed

section \<open>Misses\<close>

lemma get_from_disk_effect:
  assumes wf: "tp_wf cc" and a: "page_aligned (cfg cc) addr" and h: "hands_ok cc"
    and l: "treepass_lookup cc addr = TP_UNMAPPED_ENTRY"
    and ret: "treepass_get_from_disk cc fuel tid ts addr t wm = Inr (retry, hnd, cc')"
  shows "attempt_ok cc tid addr bl t retry hnd cc'" and "\<exists>e. \<not> retry \<and> hnd = HPage e"
proof -
  from ret obtain e cc1 where aq: "treepass_acquire_entry_for_load cc fuel tid addr t = Inr (e, cc1)"
    by (auto simp: treepass_get_from_disk_def elim!: obind_InrE)
  note q = acquire_effect [OF wf h a l aq]
  note ld = q(2) [unfolded loading_entry_def]
  note c1 = tp_pres_cfg [OF q(1)] and wf1 = tp_pres_wf [OF q(1)]
  have eu: "e \<noteq> TP_UNMAPPED_ENTRY" using ld capacity_lt_unmapped [OF tp_wf_cfg [OF wf1]] by auto
  have au: "addr \<noteq> TP_UNMAPPED_ADDR" using a unmapped_not_aligned [OF tp_wf_cfg [OF wf]] by auto
  define cc2 where "cc2 = upd_entry cc1 e (page_data_update (\<lambda>_. disk cc1 addr))"
  let ?timed = "(t = PAGE_TYPE_BRANCH \<and> wm) \<or> t = PAGE_TYPE_TRUNK"
  define cc3 where "cc3 = (if ?timed then upd_entry cc2 e (entry_time_update (\<lambda>_. ts)) else cc2)"
  define cc4 where "cc4 = treepass_finish_load e cc3"
  have r: "\<not> retry" "hnd = HPage e" and cc': "cc' = upd_stats cc4 tid (\<lambda>st.
      st\<lparr>cache_misses := bump t 1 (cache_misses st), page_reads := bump t 1 (page_reads st)\<rparr>)"
    using ret aq eu by (auto simp: treepass_get_from_disk_def io_read_def cc2_def cc3_def cc4_def Let_def
        elim!: obind_InrE split: if_splits)
  have pg: "rq_page_ok IO_PREADV addr cc1 e"
    using ld au read_loading_status by (simp add: rq_page_ok_def Let_def)
  have p2: "tp_pres cc1 cc2" unfolding cc2_def by (rule pres_read_page [OF wf1 pg])
  have p3: "tp_pres cc2 cc3"
    using pres_entry_time [OF tp_pres_wf [OF p2], of e] tp_pres_refl [OF tp_pres_wf [OF p2]] ld
      read_loading_status by (auto simp: cc3_def cc2_def)
  have ri: "read_in cc3 e"
    using pg ld by (auto simp: read_in_def cc3_def cc2_def rq_page_ok_def Let_def)
  have p4: "tp_pres cc3 cc4" unfolding cc4_def by (rule pres_finish_load [OF tp_pres_wf [OF p3] ri])
  have p5: "tp_pres cc4 cc'" unfolding cc' by (rule pres_upd_stats [OF tp_pres_wf [OF p4]])
  have p: "tp_pres cc cc'" using q(1) p2 p3 p4 p5 by (blast intro: tp_pres_trans)
  have f4: "disk_addr (entry cc4 e) = addr" "\<not> st_loading (status (entry cc4 e))" "ptype (entry cc4 e) = t"
    "treepass_lookup cc4 = treepass_lookup cc1" "refcount cc4 = refcount cc1" "free_hand cc4 = free_hand cc1"
    "e < page_capacity (cfg cc4)"
    using ld tp_pres_cfg [OF p2] tp_pres_cfg [OF p3]
    by (auto simp: cc4_def cc3_def cc2_def finish_load_upd flag_simps)
  have "page_view cc4 addr = page_view cc addr"
    using a by (intro tp_pres_view [of cc cc4]) (use q(1) p2 p3 p4 in \<open>blast intro: tp_pres_trans\<close>, simp)
  then have "page_data (entry cc4 e) = page_view cc addr"
    using mapped_view(2) [OF tp_pres_wf [OF p4] f4(7,1) au f4(2)] by simp
  then have "got_page cc tid addr t e cc'"
    using f4 ld q(4) c1 by (simp add: got_page_def cc')
  moreover have "hands_ok cc'" using q(3) f4(6) tp_pres_cfg [OF p] c1 by (simp add: hands_ok_def cc')
  ultimately show "attempt_ok cc tid addr bl t retry hnd cc'" using p r by (simp add: attempt_ok_def)
  show "\<exists>e. \<not> retry \<and> hnd = HPage e" using r by blast
qed

section \<open>Get\<close>

lemma get_internal_effect:
  assumes wf: "tp_wf cc" and a: "page_aligned (cfg cc) addr" and h: "hands_ok cc"
    and ret: "treepass_get_internal cc fuel tid ts addr bl t wm = Inr (retry, hnd, cc')"
  shows "attempt_ok cc tid addr bl t retry hnd cc'"
proof (cases "treepass_lookup cc addr = TP_UNMAPPED_ENTRY")
  case True
  then show ?thesis
    using ret get_from_disk_effect(1) [OF wf a h True] h tp_pres_refl [OF wf]
    by (auto simp: treepass_get_internal_def attempt_ok_def split: if_splits)
next
  case False
  then show ?thesis
    using ret tp_wf_lookupD(1) [OF wf False]
    by (auto simp: treepass_get_internal_def intro: get_in_cache_effect [OF wf _ a h])
qed

lemma get_loop_effect:
  assumes "tp_wf cc" and "page_aligned (cfg cc) addr" and "hands_ok cc"
    and "get_loop n fuel tid ts addr bl t wm cc = Inr (hnd, cc')"
  shows "tp_pres cc cc' \<and> hands_ok cc' \<and>
    (case hnd of HPage e \<Rightarrow> got_page cc tid addr t e cc'
      | HNull \<Rightarrow> \<not> bl \<and> refcount cc' = refcount cc | HUnset \<Rightarrow> \<not> bl \<and> refcount cc' = refcount cc)"
  using assms
proof (induction n arbitrary: cc)
  case (Suc n)
  from Suc.prems(4) obtain retry hnd1 cc1 where
    i: "treepass_get_internal cc fuel tid ts addr bl t wm = Inr (retry, hnd1, cc1)"
    and r: "(if \<not> retry then Inr (hnd1, cc1) else get_loop n fuel tid ts addr bl t wm cc1) = Inr (hnd, cc')"
    by (auto elim!: obind_InrE)
  note at = get_internal_effect [OF Suc.prems(1-3) i]
  show ?case
  proof (cases retry)
    case False
    then show ?thesis using at r by (auto simp: attempt_ok_def split: handle.splits)
  next
    case True
    then have at1: "tp_pres cc cc1" "hands_ok cc1" "refcount cc1 = refcount cc"
      using at by (simp_all add: attempt_ok_def)
    have a1: "page_aligned (cfg cc1) addr" using Suc.prems(2) tp_pres_cfg [OF at1(1)] by simp
    have "get_loop n fuel tid ts addr bl t wm cc1 = Inr (hnd, cc')" using r True by simp
    note IH = Suc.IH [OF tp_pres_wf [OF at1(1)] a1 at1(2) this]
    have "refcount (treepass_inc_ref cc1 e tid) = refcount (treepass_inc_ref cc e tid)" for e
      using at1(3) tp_pres_cfg [OF at1(1)] by (simp add: treepass_inc_ref_def Let_def)
    then show ?thesis
      using IH at1 tp_pres_cfg [OF at1(1)] tp_pres_view [OF at1(1) Suc.prems(2)]
      by (auto simp: got_page_def intro: tp_pres_trans split: handle.splits)
  qed
qed simp

end
