(* ===== verification/TpPrefetch.thy ===== *)
theory TpPrefetch
  imports TpGetPres
begin

text \<open>
  Prefetching an extent submits read requests for runs of pages that were not cached. Each
  request covers consecutive pages, one loading entry each; when a page of the extent is
  already cached the request built so far is issued and a new one is begun. The memory the
  cache presents is unchanged, during the prefetch and when its reads complete.
\<close>

definition load_run :: "(u64 \<times> nat list) option \<Rightarrow> u64 \<Rightarrow> nat \<Rightarrow> 'd treepass \<Rightarrow> bool" where
  "load_run st next_addr n cc \<longleftrightarrow>
     (case st of None \<Rightarrow> True
      | Some (ra, iov) \<Rightarrow> length iov \<le> n \<and>
          next_addr = ra + of_nat (length iov) * io_page_size (cfg cc) \<and>
          (\<forall>j<length iov. unsubmitted cc (iov ! j) (ra + of_nat j * io_page_size (cfg cc))))"

lemma load_run_kept:
  "load_run st a n cc \<Longrightarrow> loads_kept cc cc' \<Longrightarrow> cfg cc' = cfg cc \<Longrightarrow> load_run st a n cc'"
  by (auto simp: load_run_def loads_kept_def split: option.splits)

lemma pres_prefetch_issue:
  assumes wf: "tp_wf cc" and r: "load_run st a n cc" and n: "n \<le> pages_per_extent (cfg cc)"
  shows "tp_pres cc (prefetch_issue tid t st cc)" and "free_hand (prefetch_issue tid t st cc) = free_hand cc"
    and "refcount (prefetch_issue tid t st cc) = refcount cc"
proof (atomize (full), cases st)
  case None
  then show "tp_pres cc (prefetch_issue tid t st cc) \<and>
      free_hand (prefetch_issue tid t st cc) = free_hand cc \<and>
      refcount (prefetch_issue tid t st cc) = refcount cc"
    using wf by (simp add: prefetch_issue_def tp_pres_refl)
next
  case (Some x)
  obtain ra iov where x: "x = (ra, iov)" by (cases x)
  let ?p = "\<lambda>j. ra + of_nat j * io_page_size (cfg cc)" and ?k = "length iov"
  have k: "?k \<le> n" and u: "\<forall>j<?k. unsubmitted cc (iov ! j) (?p j)"
    using r Some x by (auto simp: load_run_def)
  have "?k * 2 ^ log_page_size (cfg cc) \<le> pages_per_extent (cfg cc) * 2 ^ log_page_size (cfg cc)"
    using k n by (intro mult_le_mono1) simp
  also have "\<dots> < 2 ^ 64" using tp_wf_cfg [OF wf] unfolding tp_cfg_wf_def by blast
  finally have lt: "?k * 2 ^ log_page_size (cfg cc) < 2 ^ 64" .
  define cc1 where "cc1 = upd_stats cc tid (\<lambda>s.
    s\<lparr>page_reads := bump t (of_nat ?k) (page_reads s), prefetches_issued := bump t 1 (prefetches_issued s)\<rparr>)"
  define rq where "rq = \<lparr>rq_cmd = IO_PREADV, rq_addr = ra, rq_iovec = iov, rq_num_passes = (0::u32),
    rq_outstanding = (None :: nat option)\<rparr>"
  have p1: "tp_pres cc cc1" unfolding cc1_def by (rule pres_upd_stats [OF wf])
  have "rq_pages_ok IO_PREADV ra (map ((!) iov) [0..<?k]) cc1"
    using u by (intro rq_pages_ok_run) (auto simp: unsubmitted_def cc1_def rq_page_ok_def)
  then have ok: "rq_pages_ok IO_PREADV ra iov cc1" by (simp add: map_nth)
  have "inj_on ((!) iov) {0..<?k}"
  proof (rule inj_onI)
    fix i j assume "i \<in> {0..<?k}" "j \<in> {0..<?k}" "iov ! i = iov ! j"
    moreover have "disk_addr (entry cc (iov ! m)) = ?p m" if "m < ?k" for m
      using u that by (simp add: unsubmitted_def rq_page_ok_def Let_def)
    ultimately have "i < ?k" "j < ?k" "?p i = ?p j" by (simp, simp, metis atLeastLessThan_iff)
    then show "i = j" using pages_inj [OF tp_wf_cfg [OF wf] lt] by blast
  qed
  then have d: "distinct iov" by (auto simp: distinct_conv_nth inj_on_def)
  have "tp_pres cc1 (io_submit rq cc1)"
  proof (rule pres_io_submit [OF tp_pres_wf [OF p1]])
    show "set (rq_iovec rq) \<inter> inflight_entries cc1 = {}"
      using u by (auto simp: rq_def cc1_def unsubmitted_def in_set_conv_nth)
  qed (simp_all add: rq_def ok d)
  then show "tp_pres cc (prefetch_issue tid t st cc) \<and>
      free_hand (prefetch_issue tid t st cc) = free_hand cc \<and>
      refcount (prefetch_issue tid t st cc) = refcount cc"
    using p1 by (auto simp: prefetch_issue_def Some x cc1_def rq_def io_submit_def intro: tp_pres_trans)
qed

lemma loads_kept_get_read:
  assumes "treepass_try_get_read cc tid e b = (rc, cc')" shows "loads_kept cc cc'"
proof -
  have "unsubmitted cc' i a" if u: "unsubmitted cc i a" for i a
    using assms u by (intro unsubmitted_cong [OF u])
      (auto simp: treepass_try_get_read_def Let_def treepass_set_clock_accessed_def unsubmitted_def
        flag_simps split: if_splits)
  then show ?thesis by (simp add: loads_kept_def)
qed

lemma loads_kept_dec_ref: "loads_kept cc (treepass_dec_ref cc e tid)"
  by (rule loads_kept_core) simp_all

lemma loads_kept_map:
  assumes "disk_addr (entry cc e) = TP_UNMAPPED_ADDR"
  shows "loads_kept cc (upd_entry (set_lookup cc a v) e f)"
proof -
  have "unsubmitted (upd_entry (set_lookup cc a v) e f) i b" if u: "unsubmitted cc i b" for i b
  proof -
    have "i \<noteq> e" using u assms by (auto simp: unsubmitted_def rq_page_ok_def Let_def)
    then show ?thesis using u by (intro unsubmitted_cong [OF u]) (auto simp: unsubmitted_def)
  qed
  then show ?thesis by (simp add: loads_kept_def)
qed

definition prefetch_ok ::
  "'d treepass \<Rightarrow> nat \<Rightarrow> (u64 \<times> nat list) option \<Rightarrow> u64 \<Rightarrow> nat \<Rightarrow> 'd treepass \<Rightarrow> bool" where
  "prefetch_ok cc tid st next_addr n cc' \<longleftrightarrow>
     tp_pres cc cc' \<and> hands_ok cc' \<and> refcount cc' = refcount cc \<and> load_run st next_addr n cc'"

lemma prefetch_cached:
  assumes wf: "tp_wf cc" and h: "hands_ok cc" and n: "n < pages_per_extent (cfg cc)"
    and r: "load_run st addr n cc" and p: "tp_pres cc cc1" and k: "loads_kept cc cc1"
    and f: "free_hand cc1 = free_hand cc" "refcount cc1 = refcount cc"
  shows "prefetch_ok cc tid None a' m (prefetch_issue tid t st cc1)"
proof -
  note c1 = tp_pres_cfg [OF p]
  have "load_run st addr n cc1" by (rule load_run_kept [OF r k c1])
  note i = pres_prefetch_issue [OF tp_pres_wf [OF p] this]
  have p2: "tp_pres cc1 (prefetch_issue tid t st cc1)" using i(1) n c1 by simp
  show ?thesis
    using tp_pres_trans [OF p p2] i(2,3) n c1 f h tp_pres_cfg [OF p2]
    by (simp add: prefetch_ok_def load_run_def hands_ok_def)
qed

lemma prefetch_page_effect:
  assumes wf: "tp_wf cc" and h: "hands_ok cc" and a: "page_aligned (cfg cc) addr"
    and r: "load_run st addr n cc" and n: "n < pages_per_extent (cfg cc)"
    and ret: "prefetch_page fuel tid addr t st cc = Inr (nxt, st', cc')"
  shows "nxt \<and> prefetch_ok cc tid st' (addr + io_page_size (cfg cc)) (Suc n) cc'"
proof (cases "treepass_lookup cc addr = TP_UNMAPPED_ENTRY")
  case False
  let ?e = "treepass_lookup cc addr"
  obtain rc cc1 where rd: "treepass_try_get_read cc tid ?e True = (rc, cc1)"
    by (cases "treepass_try_get_read cc tid ?e True")
  note e = tp_wf_lookupD(1,2) [OF wf False]
  note g = get_read_effect [OF wf e(1) rd] and lk = loads_kept_get_read [OF rd]
  have "rc \<noteq> GET_RC_EVICTED"
    using rd e(2) by (auto simp: treepass_try_get_read_def Let_def flag_simps split: if_splits)
  then consider "rc = GET_RC_SUCCESS" | "rc = GET_RC_CONFLICT" using g(5) by (cases rc) auto
  then show ?thesis
  proof cases
    case 1
    have d: "refcount (treepass_dec_ref cc1 ?e tid) = refcount cc"
      using g(3) g(6) 1 by (intro refcount_dec) simp_all
    have "prefetch_ok cc tid None (addr + io_page_size (cfg cc)) (Suc n)
        (prefetch_issue tid t st (treepass_dec_ref cc1 ?e tid))"
      using tp_pres_trans [OF g(1) pres_dec_ref [OF tp_pres_wf [OF g(1)]]]
        loads_kept_trans [OF lk loads_kept_dec_ref] d g(2)
      by (intro prefetch_cached [OF wf h n r]) simp_all
    then show ?thesis using ret rd False 1 by (simp add: prefetch_page_def Let_def)
  next
    case 2
    have "prefetch_ok cc tid None (addr + io_page_size (cfg cc)) (Suc n) (prefetch_issue tid t st cc1)"
      using g 2 lk by (intro prefetch_cached [OF wf h n r]) simp_all
    then show ?thesis using ret rd False 2 by (simp add: prefetch_page_def Let_def)
  qed
next
  case True
  let ?f = "\<lambda>ent. ent\<lparr>disk_addr := addr, ptype := t\<rparr>"
  from ret True obtain fe cc2 where
    gf: "treepass_get_free_page cc fuel tid TP_READ_LOADING_STATUS t False True = Inr (fe, cc2)"
    by (auto simp: prefetch_page_def Let_def elim!: obind_InrE)
  note ge = get_free_page_effect [OF wf h read_loading_status(1) gf disjI1 [OF TrueI]]
  note c2 = tp_pres_cfg [OF ge(1)] and wf2 = tp_pres_wf [OF ge(1)]
  note fr = ge(2) [unfolded fresh_entry_def Let_def]
  have l2: "treepass_lookup cc2 addr = TP_UNMAPPED_ENTRY" by (rule ge(6) [OF True])
  have a2: "page_aligned (cfg cc2) addr" using a c2 by simp
  have rr: "nxt" "st' = (case st of None \<Rightarrow> Some (addr, [fe]) | Some (ra, iov) \<Rightarrow> Some (ra, iov @ [fe]))"
    and cc': "cc' = upd_entry (set_lookup cc2 addr fe) fe ?f"
    using ret True gf l2 by (auto simp: prefetch_page_def Let_def set_lookup_upd_commute)
  note lm = load_map_effect [OF wf2 a2 l2 ge(2), of ?f]
  have p: "tp_pres cc2 cc'" and le: "loading_entry cc' fe addr t"
    unfolding cc' using lm by simp_all
  have lk: "loads_kept cc cc'"
    unfolding cc' using loads_kept_trans [OF ge(7) loads_kept_map] fr by blast
  have cc: "cfg cc' = cfg cc" using c2 tp_pres_cfg [OF p] by simp
  have au: "addr \<noteq> TP_UNMAPPED_ADDR" using a unmapped_not_aligned [OF tp_wf_cfg [OF wf]] by auto
  have un: "unsubmitted cc' fe addr"
    using le au read_loading_status by (simp add: loading_entry_def unsubmitted_def rq_page_ok_def)
  have "load_run st' (addr + io_page_size (cfg cc)) (Suc n) cc'"
  proof (cases st)
    case None
    then show ?thesis using un cc by (simp add: rr load_run_def)
  next
    case (Some x)
    obtain ra iov where x: "x = (ra, iov)" by (cases x)
    have run: "load_run (Some (ra, iov)) addr n cc'"
      using load_run_kept [OF r lk cc] Some x by simp
    then show ?thesis
      using un by (auto simp: rr Some x load_run_def nth_append less_Suc_eq cc algebra_simps)
  qed
  then show ?thesis
    using tp_pres_trans [OF ge(1) p] rr(1) ge(3,4) cc c2
    by (simp add: prefetch_ok_def hands_ok_def cc' ref_if_def)
qed

lemma prefetch_loop_effect:
  assumes "tp_wf cc" and "hands_ok cc" and "page_aligned (cfg cc) base"
    and "load_run st (base + of_nat off * io_page_size (cfg cc)) off cc"
    and "off \<le> pages_per_extent (cfg cc)"
    and "prefetch_loop m fuel tid base t off st cc = Inr cc'"
  shows "tp_pres cc cc' \<and> hands_ok cc' \<and> refcount cc' = refcount cc"
  using assms
proof (induction m arbitrary: off st cc)
  case (Suc m)
  note c = tp_wf_cfg [OF Suc.prems(1)]
  show ?case
  proof (cases "off < pages_per_extent (cfg cc)")
    case False
    then show ?thesis
      using pres_prefetch_issue [OF Suc.prems(1,4,5), of tid t] Suc.prems(2,6)
        tp_pres_cfg [OF pres_prefetch_issue(1) [OF Suc.prems(1,4,5), of tid t]]
      by (simp add: hands_ok_def)
  next
    case True
    let ?addr = "base + of_nat off * io_page_size (cfg cc)"
    have al: "page_aligned (cfg cc) ?addr"
      by (intro aligned_add [OF c Suc.prems(3)] aligned_mult [OF c] aligned_page_size [OF c])
    from Suc.prems(6) True obtain nxt st1 cc1 where
      pg: "prefetch_page fuel tid ?addr t st cc = Inr (nxt, st1, cc1)" and
      lp: "prefetch_loop m fuel tid base t (if nxt then Suc off else off) st1 cc1 = Inr cc'"
      by (auto simp: Let_def mult_page_size [OF c] elim!: obind_InrE)
    note e = prefetch_page_effect [OF Suc.prems(1,2) al Suc.prems(4) True pg]
    then have p: "tp_pres cc cc1" by (simp add: prefetch_ok_def)
    note c1 = tp_pres_cfg [OF p]
    have nx: "?addr + io_page_size (cfg cc) = base + of_nat (Suc off) * io_page_size (cfg cc)"
      by (simp add: algebra_simps)
    have "load_run st1 (base + of_nat (Suc off) * io_page_size (cfg cc1)) (Suc off) cc1"
      using e unfolding c1 nx [symmetric] by (simp add: prefetch_ok_def)
    then have "tp_pres cc1 cc' \<and> hands_ok cc' \<and> refcount cc' = refcount cc1"
      using e lp Suc.prems(3) True c1
      by (intro Suc.IH [OF tp_pres_wf [OF p], where off = "Suc off" and st = st1]) (simp_all add: prefetch_ok_def)
    then show ?thesis using p e by (auto simp: prefetch_ok_def intro: tp_pres_trans)
  qed
qed simp

lemma prefetch_effect:
  assumes "tp_wf cc" and "hands_ok cc" and "page_aligned (cfg cc) base"
    and "treepass_prefetch cc fuel tid base t = Inr cc'"
  shows "tp_pres cc cc' \<and> hands_ok cc' \<and> refcount cc' = refcount cc"
  using assms unfolding treepass_prefetch_def
  by (intro prefetch_loop_effect [where st = None and off = 0]) (simp_all add: load_run_def)

end
