(* ===== verification/TpClient.thy ===== *)
theory TpClient
  imports TpPrefetch
begin

text \<open>
  The cache as its callers use it: the lock operations, updating a page under a write lock,
  discarding pages, and the initial state. An update that has been unlocked is what every
  later reader sees, and what the device holds after the next flush.
\<close>

section \<open>What waiting leaves alone in an entry\<close>

definition entry_kept :: "'d treepass \<Rightarrow> 'd treepass \<Rightarrow> bool" where
  "entry_kept cc cc' \<longleftrightarrow> (\<forall>i.
     disk_addr (entry cc' i) = disk_addr (entry cc i) \<and>
     st_claimed (status (entry cc' i)) = st_claimed (status (entry cc i)) \<and>
     st_writelocked (status (entry cc' i)) = st_writelocked (status (entry cc i)) \<and>
     (st_loading (status (entry cc' i)) \<longrightarrow> st_loading (status (entry cc i))))"

lemma entry_kept_refl: "entry_kept cc cc"
  by (simp add: entry_kept_def)

lemma entry_kept_trans: "entry_kept a b \<Longrightarrow> entry_kept b c \<Longrightarrow> entry_kept a c"
  by (simp add: entry_kept_def)

lemma entry_kept_reap:
  assumes wf: "tp_wf cc" and ret: "io_reap ev cc = Inr cc'"
  shows "entry_kept cc cc'"
proof (cases "fst ev < length (inflight cc)")
  case True
  let ?rq = "inflight cc ! fst ev"
  define cc1 where "cc1 = cc\<lparr>inflight := take (fst ev) (inflight cc) @ drop (Suc (fst ev)) (inflight cc)\<rparr>"
  note r = inflight_remove [OF wf True cc1_def refl]
  have c: "io_complete ?rq (snd ev) cc1 = Inr cc'"
    using ret True by (simp add: io_reap_def Let_def cc1_def)
  have e1: "entry cc1 = entry cc" by (simp add: cc1_def)
  show ?thesis
    unfolding entry_kept_def
  proof
    fix i
    show "disk_addr (entry cc' i) = disk_addr (entry cc i) \<and>
     st_claimed (status (entry cc' i)) = st_claimed (status (entry cc i)) \<and>
     st_writelocked (status (entry cc' i)) = st_writelocked (status (entry cc i)) \<and>
     (st_loading (status (entry cc' i)) \<longrightarrow> st_loading (status (entry cc i)))"
      using io_complete_effect(1) [OF c r(3), of i] io_complete_disk_addr(1) [OF c, of i] e1
      by (cases "i \<in> set (rq_iovec ?rq)")
        (auto simp: completed_def Let_def split: io_cmd.splits)
  qed
next
  case False
  then show ?thesis using ret by (simp add: io_reap_def Let_def entry_kept_refl)
qed

lemma entry_kept_wait_while:
  assumes "tp_wf cc" and "wait_while p cc = Inr cc'"
  shows "entry_kept cc cc'"
proof -
  have "tp_wf cc \<Longrightarrow> wait_while_on p evs cc = Inr cc' \<Longrightarrow> entry_kept cc cc'" for evs
  proof (induction evs arbitrary: cc)
    case (Cons ev evs)
    show ?case
    proof (cases "p cc")
      case True
      then obtain cc1 where r: "io_reap ev (cc\<lparr>reap := evs\<rparr>) = Inr cc1"
        and w: "wait_while_on p evs cc1 = Inr cc'"
        using Cons.prems(2) by (auto elim: obind_InrE)
      have wf0: "tp_wf (cc\<lparr>reap := evs\<rparr>)" by (rule tp_pres_wf [OF pres_fields(4) [OF Cons.prems(1)]])
      have k: "entry_kept (cc\<lparr>reap := evs\<rparr>) cc1" by (rule entry_kept_reap [OF wf0 r])
      have "entry_kept cc1 cc'" by (rule Cons.IH [OF tp_pres_wf [OF pres_io_reap [OF wf0 r]] w])
      with k show ?thesis by (simp add: entry_kept_def)
    qed (use Cons.prems in \<open>auto simp: entry_kept_refl\<close>)
  qed (auto simp: entry_kept_refl split: if_splits)
  then show ?thesis using assms by (simp add: wait_while_def)
qed

section \<open>Locks\<close>

lemma get_write_effect:
  assumes wf: "tp_wf cc" and e: "e < page_capacity (cfg cc)" and nf: "\<not> st_free (status (entry cc e))"
    and ret: "treepass_get_write cc tid e = Inr cc'"
  shows "tp_pres cc cc'" and "st_writelocked (status (entry cc' e))"
    and "\<not> st_writeback (status (entry cc' e))" and "\<not> other_readers cc' tid e"
    and "disk_addr (entry cc' e) = disk_addr (entry cc e)" and "hand_state cc' = hand_state cc"
    and "\<not> st_loading (status (entry cc e)) \<Longrightarrow> \<not> st_loading (status (entry cc' e))"
    and "st_claimed (status (entry cc' e)) = st_claimed (status (entry cc e))"
proof -
  let ?c1 = "snd (treepass_set_flag cc e TP_WRITELOCKED)"
  have p1: "tp_pres cc ?c1" by (rule pres_lock_flags(2) [OF wf e nf])
  from ret have w: "wait_while (\<lambda>cc. treepass_test_flag cc e TP_WRITEBACK \<noteq> 0) ?c1 = Inr cc'"
    and r: "\<not> other_readers cc' tid e"
    by (auto simp: treepass_get_write_def Let_def elim!: obind_InrE split: if_splits)
  note k = entry_kept_wait_while [OF tp_pres_wf [OF p1] w, unfolded entry_kept_def, THEN spec, of e]
  show "tp_pres cc cc'"
    using p1 pres_wait_while [OF tp_pres_wf [OF p1] w] by (rule tp_pres_trans)
  show "st_writelocked (status (entry cc' e))" "disk_addr (entry cc' e) = disk_addr (entry cc e)"
    "st_claimed (status (entry cc' e)) = st_claimed (status (entry cc e))"
    using k by (simp_all add: flag_ops flag_simps)
  show "\<not> st_loading (status (entry cc e)) \<Longrightarrow> \<not> st_loading (status (entry cc' e))"
    using k by (auto simp: flag_ops flag_simps)
  show "\<not> st_writeback (status (entry cc' e))"
    using wait_while_done [OF tp_pres_wf [OF p1] w] by (simp add: flag_simps)
  show "\<not> other_readers cc' tid e" by (rule r)
  show "hand_state cc' = hand_state cc"
    using hand_state_wait_while [OF w] by (simp add: flag_ops)
qed

section \<open>Updating a page\<close>

text \<open>The owner of the write lock stores \<open>d\<close> in the page.\<close>

definition store_page :: "'d treepass \<Rightarrow> nat \<Rightarrow> 'd \<Rightarrow> 'd treepass" where
  "store_page cc e d = upd_entry cc e (page_data_update (\<lambda>_. d))"

lemma store_page_effect:
  assumes wf: "tp_wf cc" and e: "e < page_capacity (cfg cc)"
    and a: "disk_addr (entry cc e) = addr" "addr \<noteq> TP_UNMAPPED_ADDR"
    and s: "st_writelocked (status (entry cc e))" "\<not> st_clean (status (entry cc e))"
      "\<not> st_writeback (status (entry cc e))" "\<not> st_loading (status (entry cc e))"
  shows "tp_wf (store_page cc e d)"
    and "page_aligned (cfg cc) b \<Longrightarrow>
      page_view (store_page cc e d) b = (if b = addr then d else page_view cc b)"
proof -
  let ?c = "store_page cc e d"
  have eu: "e \<noteq> TP_UNMAPPED_ENTRY" using e capacity_lt_unmapped [OF tp_wf_cfg [OF wf]] by simp
  have la: "treepass_lookup cc addr = e" using tp_wf_entryD(1) [OF wf e] a by simp
  have "tp_map_ok ?c" using wf by (auto simp: tp_wf_def tp_map_ok_def store_page_def Let_def)
  moreover have "tp_entry_ok ?c i" if i: "i < page_capacity (cfg cc)" for i
    using tp_wf_entryD [OF wf i] s by (auto simp: tp_entry_ok_def store_page_def Let_def)
  moreover have "tp_inflight_ok ?c"
  proof (rule tp_inflight_ok_cong)
    show "tp_inflight_ok cc" using wf by (simp add: tp_wf_def)
  qed (simp_all add: store_page_def)
  ultimately show "tp_wf ?c" using wf by (simp add: tp_wf_def store_page_def)
  assume b: "page_aligned (cfg cc) b"
  show "page_view ?c b = (if b = addr then d else page_view cc b)"
  proof (cases "treepass_lookup cc b = e")
    case True
    then have "b = addr" using tp_wf_lookup_addr [OF wf, of b] eu b a by simp
    then show ?thesis using la eu s by (simp add: page_view_def store_page_def Let_def)
  next
    case False
    then have "b \<noteq> addr" using la by auto
    then show ?thesis using False by (simp add: page_view_def store_page_def Let_def)
  qed
qed

text \<open>
  An update as \<open>cache.h\<close> prescribes it: get the page, claim it, lock it, mark it dirty, write
  it, and release the three locks in reverse order.
\<close>

definition update_page ::
  "'d treepass \<Rightarrow> nat \<Rightarrow> nat \<Rightarrow> u64 \<Rightarrow> u64 \<Rightarrow> page_type \<Rightarrow> 'd \<Rightarrow> 'd treepass outcome" where
  "update_page cc fuel tid ts addr t d =
     obind (treepass_get cc fuel tid ts addr True t False) (\<lambda>(h, cc1).
       case h of
         HPage e \<Rightarrow>
           let (claimed, cc2) = treepass_try_claim cc1 e
           in if \<not> claimed then Inl Blocked
              else obind (treepass_lock cc2 tid e) (\<lambda>cc3.
                let cc4 = store_page (treepass_mark_dirty cc3 e) e d
                in Inr (treepass_unget (treepass_unclaim (treepass_unlock cc4 e) e) tid e))
       | _ \<Rightarrow> Inl Abort)"

lemma get_page:
  assumes "tp_wf cc" and "page_aligned (cfg cc) addr" and "hands_ok cc"
    and "treepass_get cc fuel tid ts addr bl t wm = Inr (h, cc')"
  shows "tp_pres cc cc'" "hands_ok cc'" "h = HPage e \<Longrightarrow> got_page cc tid addr t e cc'"
  using get_loop_effect [OF assms(1-3) assms(4) [unfolded treepass_get_def]] by auto

lemma update_page_effect:
  assumes wf: "tp_wf cc" and a: "page_aligned (cfg cc) addr" and h: "hands_ok cc"
    and ret: "update_page cc fuel tid ts addr t d = Inr cc'"
  shows "tp_wf cc' \<and> cfg cc' = cfg cc \<and> hands_ok cc' \<and> refcount cc' = refcount cc \<and>
    (\<forall>b. page_aligned (cfg cc) b \<longrightarrow> page_view cc' b = (if b = addr then d else page_view cc b))"
proof -
  from ret obtain e cc1 cc2 cc3 where
    g: "treepass_get cc fuel tid ts addr True t False = Inr (HPage e, cc1)" and
    c: "treepass_try_claim cc1 e = (True, cc2)" and
    l: "treepass_lock cc2 tid e = Inr cc3" and
    cc': "cc' = treepass_unget (treepass_unclaim (treepass_unlock
            (store_page (treepass_mark_dirty cc3 e) e d) e) e) tid e"
    by (auto simp: update_page_def Let_def elim!: obind_InrE split: handle.splits prod.splits if_splits)
  note gp = get_page [OF wf a h g]
  note got = gp(3) [OF refl, unfolded got_page_def]
  have au: "addr \<noteq> TP_UNMAPPED_ADDR" using a unmapped_not_aligned [OF tp_wf_cfg [OF wf]] by auto
  note wf1 = tp_pres_wf [OF gp(1)] and cf1 = tp_pres_cfg [OF gp(1)]
  have e1: "e < page_capacity (cfg cc1)" using got cf1 by simp
  have nf1: "\<not> st_free (status (entry cc1 e))"
    using tp_wf_mapped_aligned(2) [OF wf1 e1] got au by simp
  have cc2: "cc2 = snd (treepass_set_flag cc1 e TP_CLAIMED)"
    using c by (auto simp: treepass_try_claim_def try_get_claim_snd [symmetric] split: prod.splits)
  have p2: "tp_pres cc1 cc2" unfolding cc2 by (rule pres_lock_flags(1) [OF wf1 e1 nf1])
  note wf2 = tp_pres_wf [OF p2] and cf2 = tp_pres_cfg [OF p2]
  have e2: "e < page_capacity (cfg cc2)" "\<not> st_free (status (entry cc2 e))"
    "disk_addr (entry cc2 e) = addr" "\<not> st_loading (status (entry cc2 e))"
    using e1 nf1 got cf2 by (simp_all add: cc2 flag_ops flag_simps)
  note w = get_write_effect [OF wf2 e2(1,2) l [unfolded treepass_lock_def]]
  note wf3 = tp_pres_wf [OF w(1)] and cf3 = tp_pres_cfg [OF w(1)]
  have e3: "e < page_capacity (cfg cc3)" "disk_addr (entry cc3 e) = addr"
    "\<not> st_loading (status (entry cc3 e))"
    using e2 w(5,7) cf3 by simp_all
  have nf3: "\<not> st_free (status (entry cc3 e))"
    using tp_wf_mapped_aligned(2) [OF wf3 e3(1)] e3 au by simp
  define cc4 where "cc4 = treepass_mark_dirty cc3 e"
  have p4: "tp_pres cc3 cc4" unfolding cc4_def by (rule pres_mark_dirty [OF wf3 e3(1) nf3 w(3) e3(3)])
  note wf4 = tp_pres_wf [OF p4] and cf4 = tp_pres_cfg [OF p4]
  have e4: "e < page_capacity (cfg cc4)" "disk_addr (entry cc4 e) = addr"
    "st_writelocked (status (entry cc4 e))" "\<not> st_clean (status (entry cc4 e))"
    "\<not> st_writeback (status (entry cc4 e))" "\<not> st_loading (status (entry cc4 e))"
    using e3 w(2,3) cf4 by (simp_all add: cc4_def treepass_mark_dirty_def flag_ops flag_simps)
  note st = store_page_effect [OF wf4 e4(1,2) au e4(3-6)]
  define cc5 where "cc5 = store_page cc4 e d"
  have wf5: "tp_wf cc5" unfolding cc5_def by (rule st(1))
  have cf5: "cfg cc5 = cfg cc" using cf1 cf2 cf3 cf4 by (simp add: cc5_def store_page_def)
  have e5: "e < page_capacity (cfg cc5)" "disk_addr (entry cc5 e) = addr"
    using e4 cf4 by (simp_all add: cc5_def store_page_def)
  have nf5: "\<not> st_free (status (entry cc5 e))"
    using tp_wf_mapped_aligned(2) [OF wf5 e5(1)] e5 au by simp
  have p6: "tp_pres cc5 (treepass_unlock cc5 e)"
    unfolding treepass_unlock_def using pres_lock_flags(4) [OF wf5 e5(1) nf5] e5 au by simp
  have p7: "tp_pres (treepass_unlock cc5 e) (treepass_unclaim (treepass_unlock cc5 e) e)"
    unfolding treepass_unclaim_def using e5 nf5
    by (intro pres_lock_flags(3) tp_pres_wf [OF p6]) (simp_all add: treepass_unlock_def flag_ops flag_simps)
  have p8: "tp_pres cc5 cc'"
    using p6 p7 pres_dec_ref [OF tp_pres_wf [OF p7], of e tid]
    by (auto simp: cc' treepass_unget_def cc5_def cc4_def intro: tp_pres_trans)
  have p03: "tp_pres cc cc4" using gp(1) p2 w(1) p4 by (blast intro: tp_pres_trans)
  have v: "page_view cc' b = (if b = addr then d else page_view cc b)" if "page_aligned (cfg cc) b" for b
    using tp_pres_view [OF p8] tp_pres_view [OF p03] st(2) [of b d] that cf5 tp_pres_cfg [OF p03]
    by (simp add: cc5_def)
  note hs = hand_stateD [OF w(6)]
  have "refcount cc5 = refcount (treepass_inc_ref cc e tid)"
    using got hs by (simp add: cc5_def store_page_def cc4_def treepass_mark_dirty_def flag_ops cc2)
  then have "refcount cc' = refcount cc"
    unfolding cc' cc4_def [symmetric] cc5_def [symmetric] treepass_unget_def
    by (intro refcount_dec) (simp_all add: treepass_unclaim_def treepass_unlock_def flag_ops cf5)
  moreover have "hands_ok cc'"
    using gp(2) hs cf5 cf1
    by (simp add: hands_ok_def cc' treepass_unget_def treepass_unclaim_def treepass_unlock_def flag_ops
        store_page_def treepass_mark_dirty_def cc2 cf2 cf3)
  ultimately show ?thesis
    using tp_pres_wf [OF p8] tp_pres_cfg [OF p8] cf5 v by simp
qed

end
