(* ===== verification/TpDiscard.thy ===== *)
theory TpDiscard
  imports TpClient
begin

text \<open>
  Discarding a page or an extent, with what it does and when it returns; the exact state after a
  hit; the initial state of the cache; and the eviction interval.
\<close>

section \<open>Discarding\<close>

definition discarded :: "'d treepass \<Rightarrow> u64 set \<Rightarrow> 'd treepass \<Rightarrow> bool" where
  "discarded cc A cc' \<longleftrightarrow>
     tp_wf cc' \<and> cfg cc' = cfg cc \<and> free_hand cc' = free_hand cc \<and>
     refcount cc' = refcount cc \<and>
     (\<forall>a\<in>A. treepass_lookup cc' a = TP_UNMAPPED_ENTRY \<and> page_view cc' a = disk cc' a) \<and>
     (\<forall>a. treepass_lookup cc a = TP_UNMAPPED_ENTRY \<longrightarrow> treepass_lookup cc' a = TP_UNMAPPED_ENTRY) \<and>
     (\<forall>b. page_aligned (cfg cc) b \<and> b \<notin> A \<longrightarrow> page_view cc' b = page_view cc b)"

lemma discarded_trans:
  assumes "discarded cc A cc1" and "discarded cc1 B cc2"
  shows "discarded cc (A \<union> B) cc2"
  using assms by (auto simp: discarded_def page_view_def)

lemma discarded_pres:
  assumes "tp_pres cc cc'" and "free_hand cc' = free_hand cc" and "refcount cc' = refcount cc"
    and "lookup cc' = lookup cc"
  shows "discarded cc {} cc'"
  using assms by (auto simp: discarded_def tp_pres_def tp_same_def treepass_lookup_def)

lemma pin_refcount [simp]:
  "free_hand (treepass_reset_pin cc e) = free_hand cc"
  "lookup (treepass_reset_pin cc e) = lookup cc"
  by (simp_all add: treepass_reset_pin_def Let_def)

lemma discard_round_effect:
  assumes wf: "tp_wf cc" and a: "page_aligned (cfg cc) addr"
    and ret: "page_discard_round tid addr cc = Inr (r, cc')"
  shows "discarded cc (if r = None then {} else {addr}) cc'"
proof (cases "treepass_lookup cc addr = TP_UNMAPPED_ENTRY")
  case True
  then show ?thesis
    using ret wf by (auto simp: page_discard_round_def discarded_def unmapped_view)
next
  case False
  let ?e = "treepass_lookup cc addr"
  note e = tp_wf_lookupD(1,2) [OF wf False]
  obtain rc cc1 where rd: "treepass_try_get_read cc tid ?e True = (rc, cc1)"
    by (cases "treepass_try_get_read cc tid ?e True")
  have rc: "rc = GET_RC_SUCCESS"
    using rd ret False e(2) by (auto simp: page_discard_round_def treepass_get_read_def Let_def
        treepass_try_get_read_def flag_simps split: if_splits)
  note g = get_read_effect [OF wf e(1) rd]
  have l1: "lookup cc1 = lookup cc"
    using rd by (auto simp: treepass_try_get_read_def Let_def treepass_set_clock_accessed_def split: if_splits)
  from ret False rd rc obtain cc2 where
    w: "wait_while (\<lambda>cc. treepass_test_flag cc ?e TP_LOADING \<noteq> 0) cc1 = Inr cc2" and
    rest: "(if disk_addr (entry cc2 ?e) \<noteq> addr then Inr (None, treepass_dec_ref cc2 ?e tid)
      else let (rc2, cc3) = treepass_try_get_claim cc2 ?e
        in if rc2 \<noteq> GET_RC_SUCCESS then Inr (None, treepass_dec_ref cc3 ?e tid)
           else obind (treepass_get_write cc3 tid ?e) (\<lambda>cc4.
             let t = ptype (entry cc4 ?e);
                 cc5 = upd_stats cc4 tid (\<lambda>st.
                   if status (entry cc4 ?e) AND TP_CLEAN \<noteq> 0
                   then st\<lparr>discard_clean := bump t 1 (discard_clean st)\<rparr>
                   else st\<lparr>discard_dirty := bump t 1 (discard_dirty st)\<rparr>);
                 cc6 = unmap_entry ?e addr cc5
             in if waiters (entry cc6 ?e) \<noteq> [] then Inl Abort
                else let cc7 = treepass_reset_pin (free_entry ?e cc6) ?e
                     in Inr (Some (), treepass_dec_ref cc7 ?e tid))) = Inr (r, cc')"
    by (auto simp: page_discard_round_def treepass_get_read_def Let_def elim!: obind_InrE split: if_splits)
  have p2: "tp_pres cc1 cc2" by (rule pres_wait_while [OF tp_pres_wf [OF g(1)] w])
  note hs2 = hand_stateD [OF hand_state_wait_while [OF w]]
  note p02 = tp_pres_trans [OF g(1) p2]
  note wf2 = tp_pres_wf [OF p02] and cf2 = tp_pres_cfg [OF p02]
  have nl2: "\<not> st_loading (status (entry cc2 ?e))"
    using wait_while_done [OF tp_pres_wf [OF g(1)] w] by (simp add: flag_simps)
  have lk2: "treepass_lookup cc2 = treepass_lookup cc"
    using l1 hs2(6) cf2 by (simp add: treepass_lookup_def fun_eq_iff)
  have ref2: "refcount cc2 = refcount (treepass_inc_ref cc ?e tid)" using g(3) rc hs2 by simp
  have da: "disk_addr (entry cc2 ?e) = addr"
    using tp_wf_lookup_addr [OF wf2, of addr] lk2 False a cf2 by simp
  have au: "addr \<noteq> TP_UNMAPPED_ADDR" using a unmapped_not_aligned [OF tp_wf_cfg [OF wf]] by auto
  have e2: "?e < page_capacity (cfg cc2)" using e cf2 by simp
  have nf2: "\<not> st_free (status (entry cc2 ?e))"
    using tp_wf_mapped_aligned(2) [OF wf2 e2] da au by simp
  define cc3 where "cc3 = snd (treepass_set_flag cc2 ?e TP_CLAIMED)"
  have p3: "tp_pres cc2 cc3" unfolding cc3_def by (rule pres_lock_flags(1) [OF wf2 e2 nf2])
  have cl: "treepass_try_get_claim cc2 ?e = (fst (treepass_try_get_claim cc2 ?e), cc3)"
    using try_get_claim_snd [of cc2 ?e] by (simp add: cc3_def prod_eq_iff)
  show ?thesis
  proof (cases "fst (treepass_try_get_claim cc2 ?e) = GET_RC_SUCCESS")
    case False
    then have r: "r = None" "cc' = treepass_dec_ref cc3 ?e tid"
      using rest da by (subst (asm) cl, simp)+
    have "tp_pres cc cc'"
      unfolding r(2) using tp_pres_trans [OF p02 p3] pres_dec_ref [OF tp_pres_wf [OF p3]]
      by (blast intro: tp_pres_trans)
    moreover have "refcount cc' = refcount cc"
      unfolding r(2) using ref2 tp_pres_cfg [OF p3] cf2
      by (intro refcount_dec) (simp_all add: cc3_def flag_ops)
    ultimately have "discarded cc {} cc'"
      using g(2) hs2 l1 by (intro discarded_pres) (simp_all add: r(2) cc3_def flag_ops)
    then show ?thesis by (simp add: r(1))
  next
    case True
    from rest da True obtain cc4 where gw: "treepass_get_write cc3 tid ?e = Inr cc4" and
      rest4: "(let t = ptype (entry cc4 ?e);
                 cc5 = upd_stats cc4 tid (\<lambda>st.
                   if status (entry cc4 ?e) AND TP_CLEAN \<noteq> 0
                   then st\<lparr>discard_clean := bump t 1 (discard_clean st)\<rparr>
                   else st\<lparr>discard_dirty := bump t 1 (discard_dirty st)\<rparr>);
                 cc6 = unmap_entry ?e addr cc5
             in if waiters (entry cc6 ?e) \<noteq> [] then Inl Abort
                else let cc7 = treepass_reset_pin (free_entry ?e cc6) ?e
                     in Inr (Some (), treepass_dec_ref cc7 ?e tid)) = Inr (r, cc')"
      by (subst (asm) cl) (auto elim!: obind_InrE)
    have e3: "?e < page_capacity (cfg cc3)" "\<not> st_free (status (entry cc3 ?e))"
      "\<not> st_loading (status (entry cc3 ?e))"
      using e2 nf2 nl2 by (simp_all add: cc3_def flag_ops flag_simps)
    note gwe = get_write_effect [OF tp_pres_wf [OF p3] e3(1,2) gw]
    note p04 = tp_pres_trans [OF tp_pres_trans [OF p02 p3] gwe(1)]
    define cc5 where "cc5 = upd_stats cc4 tid (\<lambda>st.
                   if status (entry cc4 ?e) AND TP_CLEAN \<noteq> 0
                   then st\<lparr>discard_clean := bump (ptype (entry cc4 ?e)) 1 (discard_clean st)\<rparr>
                   else st\<lparr>discard_dirty := bump (ptype (entry cc4 ?e)) 1 (discard_dirty st)\<rparr>)"
    have p5: "tp_pres cc4 cc5" unfolding cc5_def by (rule pres_upd_stats [OF tp_pres_wf [OF gwe(1)]])
    note p05 = tp_pres_trans [OF p04 p5]
    note wf5 = tp_pres_wf [OF p05] and cf5 = tp_pres_cfg [OF p05]
    have e5: "?e < page_capacity (cfg cc5)" "disk_addr (entry cc5 ?e) = addr"
      "\<not> st_loading (status (entry cc5 ?e))" "\<not> st_writeback (status (entry cc5 ?e))"
      using e gwe(3,5) gwe(7) [OF e3(3)] da cf5 by (simp_all add: cc5_def cc3_def flag_ops)
    have w5: "waiters (entry cc5 ?e) = []" and r: "r = Some ()"
      and cc': "cc' = treepass_dec_ref (treepass_reset_pin (release_entry ?e cc5) ?e) ?e tid"
      using rest4 e5(2) unfolding Let_def cc5_def [symmetric]
      by (auto simp: release_entry_def unmap_entry_def split: if_splits)
    note rel = release_entry_wf [OF wf5 e5(1) _ w5 not_inflight [OF wf5 e5(4,3)], unfolded e5(2), OF au]
    have p6: "tp_pres (release_entry ?e cc5) (treepass_reset_pin (release_entry ?e cc5) ?e)"
      by (rule pres_reset_pin [OF rel(1)])
    have p7: "tp_pres (release_entry ?e cc5) cc'"
      unfolding cc' using p6 pres_dec_ref [OF tp_pres_wf [OF p6]] by (blast intro: tp_pres_trans)
    note hs4 = hand_stateD [OF gwe(6)]
    have v: "page_view cc' b = (if b = addr then disk cc5 b else page_view cc b)"
      if "page_aligned (cfg cc) b" for b
      using tp_pres_view [OF p7] rel(2) [of b] tp_pres_view [OF p05 that] that cf5 by simp
    have ref: "refcount cc' = refcount cc"
      unfolding cc' using ref2 hs4 cf5
    proof (intro refcount_dec)
      show "refcount (treepass_reset_pin (release_entry ?e cc5) ?e) = refcount (treepass_inc_ref cc ?e tid)"
        using ref2 hs4 by (simp add: cc5_def cc3_def flag_ops)
      show "cfg (treepass_reset_pin (release_entry ?e cc5) ?e) = cfg cc" using cf5 by simp
    qed
    have lk5: "treepass_lookup cc5 = treepass_lookup cc"
      using lk2 hs4(6) cf5 tp_pres_cfg [OF p3] cf2
      by (simp add: cc5_def cc3_def flag_ops treepass_lookup_def fun_eq_iff)
    have lk': "treepass_lookup cc' b = (if lookup_no (cfg cc) b = lookup_no (cfg cc) addr
        then TP_UNMAPPED_ENTRY else treepass_lookup cc b)" for b
      using e5(2) cf5 lk5 by (simp add: cc')
    have "free_hand cc' = free_hand cc"
      using g(2) hs2 hs4 by (simp add: cc' cc5_def cc3_def flag_ops)
    moreover have "disk cc' = disk cc5" by (simp add: cc')
    ultimately show ?thesis
      using tp_pres_wf [OF p7] tp_pres_cfg [OF p7] cf5 ref v lk' a r
      by (simp add: discarded_def)
  qed
qed

lemma try_page_discard_effect:
  assumes "tp_wf cc" and "page_aligned (cfg cc) addr"
    and "treepass_try_page_discard fuel tid addr cc = Inr cc'"
  shows "discarded cc {addr} cc'"
  using assms
proof (induction fuel arbitrary: cc)
  case (Suc fuel)
  from Suc.prems(3) obtain r cc1 where d: "page_discard_round tid addr cc = Inr (r, cc1)"
    and n: "(case r of Some _ \<Rightarrow> Inr cc1 | None \<Rightarrow> treepass_try_page_discard fuel tid addr cc1) = Inr cc'"
    by (auto elim!: obind_InrE)
  note e = discard_round_effect [OF Suc.prems(1,2) d]
  show ?case
  proof (cases r)
    case None
    have wf1: "tp_wf cc1" "cfg cc1 = cfg cc" using e by (simp_all add: discarded_def)
    have "discarded cc1 {addr} cc'" using Suc.IH [OF wf1(1)] wf1 Suc.prems(2) n None by simp
    then show ?thesis using discarded_trans [of cc "{}" cc1 "{addr}" cc'] e None by simp
  next
    case (Some u)
    then show ?thesis using e n by simp
  qed
qed simp

definition extent_pages :: "tp_config \<Rightarrow> u64 \<Rightarrow> nat \<Rightarrow> u64 set" where
  "extent_pages c addr n = (\<lambda>i. addr + of_nat i * io_page_size c) ` {..<n}"

lemma extent_discard_effect:
  assumes wf: "tp_wf cc" and a: "page_aligned (cfg cc) addr"
    and ret: "treepass_extent_discard cc fuel tid addr t = Inr cc'"
  shows "discarded cc (extent_pages (cfg cc) addr (pages_per_extent (cfg cc))) cc'"
proof -
  let ?P = "\<lambda>i s. discarded cc (extent_pages (cfg cc) addr i) s"
  note c = tp_wf_cfg [OF wf]
  show ?thesis
  proof (rule iterM_upt_invariant [OF ret [unfolded treepass_extent_discard_def], of ?P])
    show "?P 0 cc" using wf by (simp add: discarded_def extent_pages_def)
    fix i s s' assume p: "?P i s" and r: "(let page_addr = addr + treepass_multiply_by_page_size (cfg s) (of_nat i);
            e = treepass_lookup s page_addr;
            cc1 = (if e = TP_UNMAPPED_ENTRY
                   then upd_stats s tid (\<lambda>st. st\<lparr>discard_uncached := bump t 1 (discard_uncached st)\<rparr>)
                   else s)
        in treepass_try_page_discard fuel tid page_addr cc1) = Inr s'"
    have ws: "tp_wf s" "cfg s = cfg cc" using p by (simp_all add: discarded_def)
    let ?pa = "addr + of_nat i * io_page_size (cfg cc)"
    define s1 where "s1 = (if treepass_lookup s ?pa = TP_UNMAPPED_ENTRY
      then upd_stats s tid (\<lambda>st. st\<lparr>discard_uncached := bump t 1 (discard_uncached st)\<rparr>) else s)"
    have al: "page_aligned (cfg cc) ?pa"
      by (intro aligned_add [OF c a] aligned_mult [OF c] aligned_page_size [OF c])
    have p1: "tp_pres s s1" using pres_upd_stats [OF ws(1)] tp_pres_refl [OF ws(1)] by (simp add: s1_def)
    have d1: "discarded s {} s1" by (rule discarded_pres [OF p1]) (simp_all add: s1_def)
    have "treepass_try_page_discard fuel tid ?pa s1 = Inr s'"
      using r ws by (simp add: Let_def s1_def mult_page_size [OF c])
    then have "discarded s1 {?pa} s'"
      using al ws tp_pres_cfg [OF p1] by (intro try_page_discard_effect [OF tp_pres_wf [OF p1]]) simp_all
    then have "discarded cc ((extent_pages (cfg cc) addr i \<union> {}) \<union> {?pa}) s'"
      using discarded_trans [OF discarded_trans [OF p d1]] by blast
    moreover have "extent_pages (cfg cc) addr (Suc i) = extent_pages (cfg cc) addr i \<union> {?pa}"
      by (auto simp: extent_pages_def lessThan_Suc)
    ultimately show "?P (Suc i) s'" by simp
  qed simp
qed


section \<open>Discarding idle pages returns\<close>

lemma wait_while_now: "\<not> p cc \<Longrightarrow> wait_while p cc = Inr cc"
  by (cases "reap cc") (simp_all add: wait_while_def)

definition idle_entry :: "'d treepass \<Rightarrow> nat \<Rightarrow> bool" where
  "idle_entry cc e \<longleftrightarrow>
     (let s = status (entry cc e)
      in \<not> st_writelocked s \<and> \<not> st_claimed s \<and> \<not> st_loading s \<and> \<not> st_writeback s) \<and>
     waiters (entry cc e) = [] \<and> unreferenced cc e"

definition idle_page :: "'d treepass \<Rightarrow> u64 \<Rightarrow> bool" where
  "idle_page cc a \<longleftrightarrow>
     treepass_lookup cc a \<noteq> TP_UNMAPPED_ENTRY \<longrightarrow> idle_entry cc (treepass_lookup cc a)"

lemma discard_idle:
  assumes wf: "tp_wf cc" and a: "page_aligned (cfg cc) addr"
    and l: "treepass_lookup cc addr = e" "e \<noteq> TP_UNMAPPED_ENTRY" and i: "idle_entry cc e"
  shows "\<exists>c4. page_discard_round tid addr cc = Inr (Some (),
      treepass_dec_ref (treepass_reset_pin (release_entry e c4) e) e tid) \<and>
    cfg c4 = cfg cc \<and> disk_addr (entry c4 e) = addr \<and> treepass_lookup c4 = treepass_lookup cc \<and>
    (\<forall>j. j \<noteq> e \<longrightarrow> entry c4 j = entry cc j) \<and> refcount c4 = refcount (treepass_inc_ref cc e tid)"
proof -
  note c = tp_wf_cfg [OF wf]
  have e: "e < page_capacity (cfg cc)" "\<not> st_free (status (entry cc e))"
    using tp_wf_lookupD(1,2) [OF wf, of addr] l by simp_all
  have da: "disk_addr (entry cc e) = addr" using tp_wf_lookup_addr [OF wf, of addr] l a by simp
  have f: "\<not> st_writelocked (status (entry cc e))" "\<not> st_claimed (status (entry cc e))"
    "\<not> st_loading (status (entry cc e))" "\<not> st_writeback (status (entry cc e))"
    "waiters (entry cc e) = []" "unreferenced cc e"
    using i by (simp_all add: idle_entry_def Let_def)
  define c1 where "c1 = treepass_set_clock_accessed (treepass_inc_ref cc e tid) e"
  define c2 where "c2 = upd_entry c1 e (status_update (\<lambda>s. s OR TP_CLAIMED))"
  define c3 where "c3 = upd_entry c2 e (status_update (\<lambda>s. s OR TP_WRITELOCKED))"
  define c4 where "c4 = upd_stats c3 tid (\<lambda>st.
    if status (entry c3 e) AND TP_CLEAN \<noteq> 0
    then st\<lparr>discard_clean := bump (ptype (entry c3 e)) 1 (discard_clean st)\<rparr>
    else st\<lparr>discard_dirty := bump (ptype (entry c3 e)) 1 (discard_dirty st)\<rparr>)"
  have rd: "treepass_try_get_read cc tid e True = (GET_RC_SUCCESS, c1)"
    using e f by (simp add: treepass_try_get_read_def Let_def flag_simps c1_def)
  have n1: "disk_addr (entry c1 e) = addr" "\<not> st_loading (status (entry c1 e))"
    "\<not> st_claimed (status (entry c1 e))" "\<not> st_writeback (status (entry c1 e))"
    using f da by (simp_all add: c1_def treepass_set_clock_accessed_def flag_simps)
  have w1: "wait_while (\<lambda>cc. treepass_test_flag cc e TP_LOADING \<noteq> 0) c1 = Inr c1"
    using n1 by (intro wait_while_now) (simp add: flag_simps)
  have cl: "treepass_try_get_claim c1 e = (GET_RC_SUCCESS, c2)"
    using n1 by (simp add: treepass_try_get_claim_def treepass_set_flag_def c2_def Let_def flag_simps)
  have "treepass_get_ref cc e tid = 0"
    using f(6) get_ref_mod [of cc e tid] unfolding unreferenced_def
    by (metis mod_less_divisor TP_RC_WIDTH_def zero_less_numeral)
  then have "\<not> other_readers (treepass_inc_ref cc e tid) tid e"
    using other_readers_inc [OF c e(1)] f(6) by simp
  then have "\<not> other_readers c3 tid e"
    by (simp add: c3_def c2_def c1_def treepass_set_clock_accessed_def)
  moreover have "wait_while (\<lambda>cc. treepass_test_flag cc e TP_WRITEBACK \<noteq> 0) c3 = Inr c3"
    using n1 by (intro wait_while_now) (simp add: flag_simps c3_def c2_def)
  ultimately have gw: "treepass_get_write c2 tid e = Inr c3"
    by (simp add: treepass_get_write_def flag_ops c3_def [symmetric] Let_def)
  have w3: "waiters (entry c3 e) = []" using f(5) by (simp add: c3_def c2_def c1_def)
  have e4: "entry c4 e = (entry c1 e)\<lparr>status := (status (entry c1 e) OR TP_CLAIMED) OR TP_WRITELOCKED\<rparr>"
    by (simp add: c4_def c3_def c2_def)
  have "page_discard_round tid addr cc = Inr (Some (),
      treepass_dec_ref (treepass_reset_pin (release_entry e c4) e) e tid)"
    using l rd w1 n1 cl gw w3 e4
    by (simp add: page_discard_round_def treepass_get_read_def c4_def [symmetric] release_entry_def
        unmap_entry_def c1_def Let_def)
  moreover have "treepass_lookup c4 = treepass_lookup cc"
    by (simp add: c4_def c3_def c2_def c1_def treepass_lookup_def fun_eq_iff)
  moreover have "cfg c4 = cfg cc \<and> (\<forall>j. j \<noteq> e \<longrightarrow> entry c4 j = entry cc j) \<and>
      refcount c4 = refcount (treepass_inc_ref cc e tid)"
    by (simp add: c4_def c3_def c2_def c1_def treepass_set_clock_accessed_def)
  ultimately show ?thesis using e4 n1 by (intro exI [of _ c4]) simp
qed

lemma discard_round_returns:
  assumes wf: "tp_wf cc" and a: "page_aligned (cfg cc) addr" and i: "idle_page cc addr"
  obtains cc' where "page_discard_round tid addr cc = Inr (Some (), cc')"
    and "\<And>b. page_aligned (cfg cc) b \<Longrightarrow> idle_page cc b \<Longrightarrow> idle_page cc' b"
proof (cases "treepass_lookup cc addr = TP_UNMAPPED_ENTRY")
  case True
  then show thesis using that [of cc] by (simp add: page_discard_round_def)
next
  case mapped: False
  let ?e = "treepass_lookup cc addr"
  have "idle_entry cc ?e" using i mapped by (simp add: idle_page_def)
  then obtain c4 where d: "page_discard_round tid addr cc = Inr (Some (),
      treepass_dec_ref (treepass_reset_pin (release_entry ?e c4) ?e) ?e tid)"
    and c4: "cfg c4 = cfg cc" "disk_addr (entry c4 ?e) = addr" "treepass_lookup c4 = treepass_lookup cc"
      "\<forall>j. j \<noteq> ?e \<longrightarrow> entry c4 j = entry cc j" "refcount c4 = refcount (treepass_inc_ref cc ?e tid)"
    using discard_idle [OF wf a refl mapped] by blast
  let ?c = "treepass_dec_ref (treepass_reset_pin (release_entry ?e c4) ?e) ?e tid"
  have lk: "treepass_lookup ?c b = (if lookup_no (cfg cc) b = lookup_no (cfg cc) addr
      then TP_UNMAPPED_ENTRY else treepass_lookup cc b)" for b
    using c4 by simp
  have rc: "refcount ?c = refcount cc" using c4(1,5) by (intro refcount_dec) simp_all
  have "idle_page ?c b" if b: "page_aligned (cfg cc) b" "idle_page cc b" for b
  proof (cases "treepass_lookup ?c b = TP_UNMAPPED_ENTRY")
    case False
    then have nb: "treepass_lookup ?c b = treepass_lookup cc b" "treepass_lookup cc b \<noteq> TP_UNMAPPED_ENTRY"
      "lookup_no (cfg cc) b \<noteq> lookup_no (cfg cc) addr"
      unfolding lk by (auto split: if_splits)
    have "treepass_lookup cc b \<noteq> ?e"
    proof (rule notI)
      assume eq: "treepass_lookup cc b = ?e"
      have "b = addr"
        by (rule trans [OF tp_wf_lookup_addr [OF wf nb(2) b(1), unfolded eq, symmetric]
              tp_wf_lookup_addr [OF wf mapped a]])
      then show False using nb(3) by blast
    qed
    then have "entry ?c (treepass_lookup cc b) = entry cc (treepass_lookup cc b)" using c4(4) by simp
    moreover have "unreferenced ?c j = unreferenced cc j" for j
      using c4(1) by (simp only: unreferenced_def treepass_get_ref_def rc) simp
    moreover have "idle_entry cc (treepass_lookup cc b)" using b(2) nb(2) unfolding idle_page_def by blast
    ultimately show ?thesis unfolding idle_page_def nb(1) idle_entry_def by (simp only: simp_thms)
  qed (simp add: idle_page_def)
  with d show thesis by (rule that)
qed

lemma extent_discard_returns:
  assumes wf: "tp_wf cc" and a: "page_aligned (cfg cc) addr"
    and i: "\<forall>b\<in>extent_pages (cfg cc) addr (pages_per_extent (cfg cc)). idle_page cc b"
  shows "\<exists>cc'. treepass_extent_discard cc (Suc fuel) tid addr t = Inr cc'"
proof -
  note c = tp_wf_cfg [OF wf]
  let ?E = "extent_pages (cfg cc) addr (pages_per_extent (cfg cc))"
  let ?P = "\<lambda>s. tp_wf s \<and> cfg s = cfg cc \<and> (\<forall>b\<in>?E. idle_page s b)"
  have al: "page_aligned (cfg cc) b" if "b \<in> ?E" for b
    using that by (auto simp: extent_pages_def intro!: aligned_add [OF c a] aligned_mult [OF c] aligned_page_size [OF c])
  have "\<exists>s'. treepass_extent_discard cc (Suc fuel) tid addr t = Inr s' \<and> ?P s'"
    unfolding treepass_extent_discard_def
  proof (rule iterM_returns [where P = ?P])
    show "?P cc" using wf i by simp
    fix j s assume j: "j \<in> set [0..<pages_per_extent (cfg cc)]" and s: "?P s"
    let ?pa = "addr + of_nat j * io_page_size (cfg cc)"
    define s1 where "s1 = (if treepass_lookup s ?pa = TP_UNMAPPED_ENTRY
      then upd_stats s tid (\<lambda>st. st\<lparr>discard_uncached := bump t 1 (discard_uncached st)\<rparr>) else s)"
    have pa: "?pa \<in> ?E" using j by (auto simp: extent_pages_def)
    have p1: "tp_wf s1" "cfg s1 = cfg cc" "\<forall>b\<in>?E. idle_page s1 b"
      using s pres_upd_stats [of s tid]
      by (auto simp: s1_def idle_page_def idle_entry_def unreferenced_def treepass_get_ref_def intro: tp_pres_wf)
    obtain s' where d: "page_discard_round tid ?pa s1 = Inr (Some (), s')"
      and k: "\<And>b. page_aligned (cfg s1) b \<Longrightarrow> idle_page s1 b \<Longrightarrow> idle_page s' b"
      using discard_round_returns [OF p1(1), of ?pa tid] al [OF pa] p1(2,3) pa by (metis (no_types))
    have "discarded s1 {?pa} s'"
      using discard_round_effect [OF p1(1) _ d] al [OF pa] p1(2) by simp
    then have "?P s'" using k al p1(2,3) by (auto simp: discarded_def)
    then show "\<exists>s'. (let page_addr = addr + treepass_multiply_by_page_size (cfg s) (of_nat j);
            e = treepass_lookup s page_addr;
            cc1 = (if e = TP_UNMAPPED_ENTRY
                   then upd_stats s tid (\<lambda>st. st\<lparr>discard_uncached := bump t 1 (discard_uncached st)\<rparr>)
                   else s)
        in treepass_try_page_discard (Suc fuel) tid page_addr cc1) = Inr s' \<and> ?P s'"
      using d s by (simp add: Let_def s1_def mult_page_size [OF c])
  qed
  then show ?thesis by blast
qed

section \<open>A cached page is got without I/O\<close>

text \<open>
  The state after a hit: a reference, a clock tick, the entry time of a warm branch page that
  had none, and the hit counter.
\<close>

definition hit_state :: "'d treepass \<Rightarrow> nat \<Rightarrow> u64 \<Rightarrow> bool \<Rightarrow> nat \<Rightarrow> 'd treepass" where
  "hit_state cc tid ts wm e =
     (let t = ptype (entry cc e);
          cc1 = treepass_set_clock_accessed (treepass_inc_ref cc e tid) e;
          cc2 = (if wm \<and> t = PAGE_TYPE_BRANCH \<and> entry_time (entry cc e) = 0
                 then upd_entry cc1 e (entry_time_update (\<lambda>_. ts)) else cc1)
      in upd_stats cc2 tid (\<lambda>st. st\<lparr>cache_hits := bump t 1 (cache_hits st)\<rparr>))"

lemma hit_state_frame:
  "disk (hit_state cc tid ts wm e) = disk cc" "inflight (hit_state cc tid ts wm e) = inflight cc"
  "reap (hit_state cc tid ts wm e) = reap cc"
  by (simp_all add: hit_state_def treepass_set_clock_accessed_def Let_def)

lemma get_hit_returns:
  assumes wf: "tp_wf cc" and a: "page_aligned (cfg cc) addr"
    and l: "treepass_lookup cc addr = e" "e \<noteq> TP_UNMAPPED_ENTRY"
    and s: "\<not> st_writelocked (status (entry cc e))" "\<not> st_loading (status (entry cc e))"
    and t: "ptype (entry cc e) = t"
  shows "treepass_get cc (Suc fuel) tid ts addr bl t wm = Inr (HPage e, hit_state cc tid ts wm e)"
proof -
  have nf: "\<not> st_free (status (entry cc e))" using mapped_not_free [OF wf l] .
  have da: "disk_addr (entry cc e) = addr" using tp_wf_lookup_addr [OF wf, of addr] l a by simp
  define cc1 where "cc1 = treepass_set_clock_accessed (treepass_inc_ref cc e tid) e"
  have rd: "treepass_try_get_read cc tid e True = (GET_RC_SUCCESS, cc1)"
    using nf s by (simp add: treepass_try_get_read_def Let_def flag_simps cc1_def)
  have e1: "disk_addr (entry cc1 e) = addr" "ptype (entry cc1 e) = t" "\<not> st_loading (status (entry cc1 e))"
    "entry_time (entry cc1 e) = entry_time (entry cc e)"
    using da t s by (simp_all add: cc1_def)
  have "wait_while (\<lambda>cc. treepass_test_flag cc e TP_LOADING \<noteq> 0) cc1 = Inr cc1"
    using e1(3) by (intro wait_while_now) (simp add: flag_simps)
  then have "get_in_cache_locked tid ts addr t wm e cc1 = Inr (False, HPage e, hit_state cc tid ts wm e)"
    using e1 t by (simp add: get_in_cache_locked_def hit_state_def cc1_def [symmetric] Let_def)
  then have "treepass_get_in_cache cc tid ts addr bl t wm e = Inr (False, HPage e, hit_state cc tid ts wm e)"
    using rd e1 by (simp add: treepass_get_in_cache_def treepass_get_read_def Let_def)
  then have "treepass_get_internal cc (Suc fuel) tid ts addr bl t wm = Inr (False, HPage e, hit_state cc tid ts wm e)"
    using l by (simp add: treepass_get_internal_def)
  then show ?thesis by (simp add: treepass_get_def)
qed

lemma get_nonblocking_miss:
  assumes "treepass_lookup cc addr = TP_UNMAPPED_ENTRY"
  shows "treepass_get cc (Suc fuel) tid ts addr False t wm = Inr (HUnset, cc)"
  using assms by (simp add: treepass_get_def treepass_get_internal_def)

section \<open>The initial state\<close>

lemma floor_log2_pow: "floor_log2 (2 ^ k) = k"
proof (induction k)
  case 0
  show ?case by (simp add: floor_log2.simps)
next
  case (Suc k)
  have "1 \<le> (2::nat) ^ k" by simp
  then have "\<not> (2::nat) ^ Suc k \<le> 1" unfolding power_Suc by linarith
  then show ?case using Suc by (subst floor_log2.simps) simp
qed

lemma unat_power_two:
  assumes "k < 64" shows "unat ((2 :: u64) ^ k) = 2 ^ k"
proof -
  have "(2::nat) ^ k < 2 ^ 64" using assms by (intro power_strict_increasing) simp_all
  then have "unat (of_nat (2 ^ k) :: u64) = 2 ^ k"
    by (simp only: unat_of_nat) (simp add: take_bit_nat_eq_self)
  then show ?thesis by simp
qed

lemma init_wf:
  assumes k: "0 < k" "k < 64"
    and c: "c = treepass_config_init (2 ^ k) ext emask cap st ewma" and pos: "0 < page_capacity c"
    and ret: "treepass_init c True d0 dsk evs ok clk = Inr (Some cc)"
  shows "tp_wf cc" and "page_view cc = disk cc" and "disk cc = dsk" and "hands_ok cc"
    and "inflight cc = []" and "unreferenced cc e"
proof -
  let ?pc = "page_capacity c"
  have lg: "log_page_size c = k"
    using k by (simp add: c treepass_config_init_def unat_power_two floor_log2_pow)
  have ps: "io_page_size c = push_bit k 1" by (simp add: c treepass_config_init_def push_bit_eq_mult)
  have pcs: "?pc \<le> unat cap div 2 ^ k"
  proof -
    have "?pc \<le> unat (cap div 2 ^ k)"
      by (simp add: c treepass_config_init_def unsigned_ucast_eq take_bit_nat_less_eq_self)
    also have "\<dots> = unat cap div 2 ^ k" using k by (simp add: unat_div unat_power_two)
    finally show ?thesis .
  qed
  have "?pc * 2 ^ k \<le> unat cap div 2 ^ k * 2 ^ k" using pcs by (rule mult_le_mono1)
  also have "\<dots> \<le> unat cap" by (rule div_times_less_eq_dividend)
  also have "\<dots> < 2 ^ 64" by (rule order_less_le_trans [OF unsigned_less]) simp
  finally have cap64: "?pc * 2 ^ k < 2 ^ 64" .
  define c1 where "c1 = c\<lparr>batch_capacity := ?pc div TP_ENTRIES_PER_BATCH,
                 cacheline_capacity := ?pc div PLATFORM_CACHELINE_SIZE,
                 pages_per_extent := unat (treepass_divide_by_page_size c (treepass_config_extent_size c))\<rparr>"
  from ret have div: "?pc mod 64 = 0"
    and cc: "cc = \<lparr>cfg = c1, lookup = (\<lambda>_. TP_UNMAPPED_ENTRY),
            entry = (\<lambda>_. \<lparr>page_data = d0, disk_addr = TP_UNMAPPED_ADDR, entry_time = 0,
                         status = TP_FREE_STATUS, ptype = PAGE_TYPE_INVALID, waiters = []\<rparr>),
            refcount = (\<lambda>_. 0), pincount = (\<lambda>_. 0), evict_hand = 1, batch_busy = (\<lambda>_. False),
            cleaner_gap = TP_CLEANER_GAP, evict_interval_thre = EI_NOT_READY,
            last_cycle_ts = clk 0, evict_batches = 0, last_ei_check_ts = 0,
            last_ei_check_cycle = 0, free_hand = (\<lambda>_. TP_UNMAPPED_ENTRY),
            enable_sync_get = (\<lambda>_. True), stats = (\<lambda>_. zero_stats), disk = dsk,
            inflight = [], reap = evs, dev_ok = ok, clock = clk, ticks = 1,
            pages_outstanding = (\<lambda>_. 0)\<rparr>"
    by (auto simp: treepass_init_def Let_def tp_consts c1_def split: if_splits)
  have "?pc < 2 ^ 32"
  proof -
    have "?pc = unat (ucast (cap div 2 ^ k) :: u32)" by (simp add: c treepass_config_init_def)
    then show ?thesis using unsigned_less [of "ucast (cap div 2 ^ k) :: u32"] by simp
  qed
  moreover have "?pc \<noteq> 4294967295" using div by auto
  ultimately have "?pc < TP_UNMAPPED_ENTRY" by (simp add: TP_UNMAPPED_ENTRY_def)
  moreover have "unat (treepass_divide_by_page_size c (treepass_config_extent_size c)) * 2 ^ k < 2 ^ 64"
  proof -
    have "unat (treepass_divide_by_page_size c (treepass_config_extent_size c))
        = unat (treepass_config_extent_size c) div 2 ^ k"
      unfolding treepass_divide_by_page_size_def unat_drop_bit_eq lg by (simp add: drop_bit_eq_div)
    then have "unat (treepass_divide_by_page_size c (treepass_config_extent_size c)) * 2 ^ k
        \<le> unat (treepass_config_extent_size c)" by simp
    also have "\<dots> < 2 ^ 64" by (rule order_less_le_trans [OF unsigned_less]) simp
    finally show ?thesis .
  qed
  moreover have "?pc = ?pc div 64 * 64" using div by auto
  ultimately have "tp_cfg_wf c1"
    using k pos cap64 lg ps by (simp add: tp_cfg_wf_def c1_def tp_consts)
  then show "tp_wf cc"
    by (simp add: cc tp_wf_def tp_map_ok_def tp_entry_ok_def tp_inflight_ok_def flag_simps)
  show "page_view cc = disk cc" and "disk cc = dsk" and "hands_ok cc" and "inflight cc = []"
    and "unreferenced cc e"
    by (simp_all add: cc page_view_def treepass_lookup_def fun_eq_iff hands_ok_def unreferenced_def
        treepass_get_ref_def)
qed

section \<open>The eviction interval\<close>

lemma ei_cycle_bound:
  assumes n: "0 < n" "n < 2 ^ 32"
  shows "unat ((b :: u32) div of_nat n) \<le> (2 ^ 32 - 1) div n"
proof -
  have "unat (of_nat n :: u32) = n" using n by (simp add: unat_of_nat take_bit_nat_eq_self)
  then have "unat (b div of_nat n) = unat b div n" by (simp add: unat_div)
  also have "unat b \<le> 2 ^ 32 - 1"
  proof -
    have "unat b < 2 ^ 32" by (rule order_less_le_trans [OF unsigned_less]) simp
    then show ?thesis by simp
  qed
  then have "unat b div n \<le> (2 ^ 32 - 1) div n" by (rule div_le_mono)
  finally show ?thesis .
qed

text \<open>
  Once the interval has been updated at the last sweep that the 32-bit counter can count, it
  is never updated again: after the counter wraps, no cycle number exceeds the recorded one.
\<close>

lemma ei_frozen:
  assumes c: "tp_cfg_wf (cfg cc)"
    and last: "unat (last_ei_check_cycle cc) = (2 ^ 32 - 1) div batch_capacity (cfg cc)"
  shows "evict_interval_thre (evict_batch_ei cc) = evict_interval_thre cc"
    and "last_ei_check_cycle (evict_batch_ei cc) = last_ei_check_cycle cc"
proof -
  have n: "0 < batch_capacity (cfg cc)" "batch_capacity (cfg cc) < 2 ^ 32"
    using c batch_capacity_lt [OF c] by (auto simp: tp_cfg_wf_def intro: Nat.gr0I)
  have "last_ei_check_cycle cc \<ge> (evict_batches cc + 1) div of_nat (batch_capacity (cfg cc))"
    using ei_cycle_bound [OF n, of "evict_batches cc + 1"] last by (simp add: word_le_nat_alt)
  then show "evict_interval_thre (evict_batch_ei cc) = evict_interval_thre cc"
    and "last_ei_check_cycle (evict_batch_ei cc) = last_ei_check_cycle cc"
    by (auto simp: evict_batch_ei_def Let_def platform_get_timestamp_def)
qed

end
