(* ===== verification/Refinement.thy ===== *)
theory Refinement
  imports Prelude
begin

text \<open>
  The contract between a component and its clients, once for all components: operations that
  may fail, an invariant they keep, and an abstract value they transform in a known way. A
  client then reasons about any sequence of operations on the abstract value alone.
\<close>

locale data_refinement =
  fixes inv :: "'s \<Rightarrow> bool"
    and ok :: "'o \<Rightarrow> bool"
    and exec :: "'o \<Rightarrow> 's \<Rightarrow> 'e + 's"
    and abs :: "'s \<Rightarrow> 'm"
    and spec :: "'o \<Rightarrow> 'm \<Rightarrow> 'm"
  assumes inv_step: "inv s \<Longrightarrow> ok p \<Longrightarrow> exec p s = Inr s' \<Longrightarrow> inv s'"
    and abs_step: "inv s \<Longrightarrow> ok p \<Longrightarrow> exec p s = Inr s' \<Longrightarrow> abs s' = spec p (abs s)"
begin

lemma run_inv:
  assumes "iterM exec ps s = Inr s'" and "inv s" and "\<forall>p\<in>set ps. ok p"
  shows "inv s'"
  using assms by (induction ps arbitrary: s) (auto elim!: obind_InrE dest: inv_step)

lemma run_abs:
  assumes "iterM exec ps s = Inr s'" and "inv s" and "\<forall>p\<in>set ps. ok p"
  shows "abs s' = fold spec ps (abs s)"
  using assms
proof (induction ps arbitrary: s)
  case (Cons p ps)
  from Cons.prems(1) obtain s1 where s1: "exec p s = Inr s1" "iterM exec ps s1 = Inr s'"
    by (auto elim: obind_InrE)
  have "ok p" "\<forall>q\<in>set ps. ok q" using Cons.prems(3) by auto
  then show ?case
    using Cons.IH [OF s1(2) inv_step [OF Cons.prems(2) _ s1(1)]] abs_step [OF Cons.prems(2) _ s1(1)]
    by simp
qed simp

text \<open>Operations that are invisible in the abstract value stay invisible in any number.\<close>

lemma run_invisible:
  assumes "iterM exec ps s = Inr s'" and "inv s" and "\<forall>p\<in>set ps. ok p"
    and "\<And>p m. p \<in> set ps \<Longrightarrow> spec p m = m"
  shows "abs s' = abs s"
proof -
  have "fold spec qs m = m" if "set qs \<subseteq> set ps" for qs m
    using that assms(4) by (induction qs arbitrary: m) auto
  then show ?thesis using run_abs [OF assms(1-3)] by simp
qed

end

end
