(* ===== verification/TpStore.thy ===== *)
theory TpStore
  imports TpDiscard Refinement
begin

text \<open>
  The cache as a memory of pages. \<open>cache_op\<close> lists what callers and the background work of the
  cache do; \<open>cache_exec\<close> runs one of them with the operations of the code; \<open>cache_spec\<close> says
  what it does to the memory: an update or the creation of a page stores at its address,
  everything else, reading, prefetching, writeback, eviction, completions, does nothing. Any
  sequence of operations by any threads refines the memory (\<open>cache\<close>, an interpretation of
  \<open>data_refinement\<close>).
\<close>

datatype 'd cache_op =
    CacheRead nat u64 u64 page_type bool
  | CacheUpdate nat u64 u64 page_type 'd
  | CacheCreate nat u64 u64 page_type 'd
  | CachePrefetch nat u64 page_type
  | CachePageSync nat nat bool page_type
  | CacheExtentSync u64 nat
  | CacheFlush nat
  | CacheEvictAll nat bool
  | CacheWait
  | CacheInheritClock u64 u64 u32
  | CachePin nat
  | CacheUnpin nat

definition read_page ::
  "'d treepass \<Rightarrow> nat \<Rightarrow> nat \<Rightarrow> u64 \<Rightarrow> u64 \<Rightarrow> page_type \<Rightarrow> bool \<Rightarrow> ('d option \<times> 'd treepass) outcome" where
  "read_page cc fuel tid ts addr t blocking =
     obind (treepass_get cc fuel tid ts addr blocking t True) (\<lambda>(h, cc1).
       case h of
         HPage e \<Rightarrow> Inr (Some (page_data (entry cc1 e)), treepass_unget cc1 tid e)
       | _ \<Rightarrow> Inr (None, cc1))"

definition create_page ::
  "'d treepass \<Rightarrow> nat \<Rightarrow> nat \<Rightarrow> u64 \<Rightarrow> u64 \<Rightarrow> page_type \<Rightarrow> 'd \<Rightarrow> 'd treepass outcome" where
  "create_page cc fuel tid ts addr t d =
     (if treepass_lookup cc addr \<noteq> TP_UNMAPPED_ENTRY then Inl Abort
      else obind (treepass_alloc cc fuel tid ts addr t) (\<lambda>(e, cc1).
        Inr (treepass_unget (treepass_unclaim (treepass_unlock (store_page cc1 e d) e) e) tid e)))"

definition cache_exec :: "nat \<Rightarrow> 'd cache_op \<Rightarrow> 'd treepass \<Rightarrow> 'd treepass outcome" where
  "cache_exec fuel p cc =
     (case p of
        CacheRead tid ts addr t bl \<Rightarrow> obind (read_page cc fuel tid ts addr t bl) (\<lambda>(_, cc1). Inr cc1)
      | CacheUpdate tid ts addr t d \<Rightarrow> update_page cc fuel tid ts addr t d
      | CacheCreate tid ts addr t d \<Rightarrow> create_page cc fuel tid ts addr t d
      | CachePrefetch tid addr t \<Rightarrow> treepass_prefetch cc fuel tid addr t
      | CachePageSync tid e bl t \<Rightarrow>
          if e < page_capacity (cfg cc) then treepass_page_sync cc tid e bl t else Inl Abort
      | CacheExtentSync addr q \<Rightarrow> treepass_extent_sync cc addr q
      | CacheFlush tid \<Rightarrow> treepass_flush cc tid
      | CacheEvictAll tid ign \<Rightarrow> treepass_evict_all cc tid ign
      | CacheWait \<Rightarrow> treepass_wait cc
      | CacheInheritClock a b n \<Rightarrow> Inr (treepass_inherit_clock cc a b n)
      | CachePin e \<Rightarrow> Inr (treepass_pin cc e)
      | CacheUnpin e \<Rightarrow> Inr (treepass_unpin cc e))"

fun cache_spec :: "'d cache_op \<Rightarrow> (u64 \<Rightarrow> 'd option) \<Rightarrow> u64 \<Rightarrow> 'd option" where
  "cache_spec (CacheUpdate tid ts addr t d) m = m(addr := Some d)"
| "cache_spec (CacheCreate tid ts addr t d) m = m(addr := Some d)"
| "cache_spec _ m = m"

fun cache_op_ok :: "tp_config \<Rightarrow> 'd cache_op \<Rightarrow> bool" where
  "cache_op_ok c (CacheRead tid ts addr t bl) = page_aligned c addr"
| "cache_op_ok c (CacheUpdate tid ts addr t d) = page_aligned c addr"
| "cache_op_ok c (CacheCreate tid ts addr t d) = page_aligned c addr"
| "cache_op_ok c (CachePrefetch tid addr t) = page_aligned c addr"
| "cache_op_ok c (CacheExtentSync addr q) = page_aligned c addr"
| "cache_op_ok c _ = True"

definition cache_inv :: "tp_config \<Rightarrow> 'd treepass \<Rightarrow> bool" where
  "cache_inv c cc \<longleftrightarrow> tp_wf cc \<and> cfg cc = c \<and> hands_ok cc"

definition cache_abs :: "'d treepass \<Rightarrow> u64 \<Rightarrow> 'd option" where
  "cache_abs cc a = (if page_aligned (cfg cc) a then Some (page_view cc a) else None)"

section \<open>Operations that change nothing\<close>

lemma same_memory:
  assumes "tp_pres cc cc'" and "hands_ok cc'" and "cache_inv c cc"
  shows "cache_inv c cc' \<and> cache_abs cc' = cache_abs cc"
  using assms tp_pres_wf [OF assms(1)] tp_pres_cfg [OF assms(1)] tp_pres_view [OF assms(1)]
  by (auto simp: cache_inv_def cache_abs_def fun_eq_iff)

lemma hands_ok_same:
  "hands_ok cc \<Longrightarrow> free_hand cc' = free_hand cc \<Longrightarrow> cfg cc' = cfg cc \<Longrightarrow> hands_ok cc'"
  by (simp add: hands_ok_def)

lemma read_page_effect:
  assumes inv: "cache_inv c cc" and a: "page_aligned c addr"
    and ret: "read_page cc fuel tid ts addr t bl = Inr (r, cc')"
  shows "tp_pres cc cc'" and "hands_ok cc'" and "refcount cc' = refcount cc"
    and "r = Some d \<Longrightarrow> d = page_view cc addr" and "bl \<Longrightarrow> r \<noteq> None"
proof -
  have wf: "tp_wf cc" and a': "page_aligned (cfg cc) addr" and h: "hands_ok cc"
    using inv a by (simp_all add: cache_inv_def)
  from ret obtain hnd cc1 where g: "treepass_get cc fuel tid ts addr bl t True = Inr (hnd, cc1)"
    and rest: "(case hnd of HPage e \<Rightarrow> (Some (page_data (entry cc1 e)), treepass_unget cc1 tid e)
       | _ \<Rightarrow> (None, cc1)) = (r, cc')"
    by (auto simp: read_page_def elim!: obind_InrE split: handle.splits)
  note ge = get_loop_effect [OF wf a' h g [unfolded treepass_get_def]]
  have "tp_pres cc cc' \<and> hands_ok cc' \<and> refcount cc' = refcount cc \<and>
      (r = Some d \<longrightarrow> d = page_view cc addr) \<and> (bl \<longrightarrow> r \<noteq> None)"
  proof (cases hnd)
    case (HPage e)
    then have gp: "got_page cc tid addr t e cc1" and p: "tp_pres cc cc1" and h1: "hands_ok cc1"
      using ge by auto
    have cc': "cc' = treepass_dec_ref cc1 e tid" "r = Some (page_data (entry cc1 e))"
      using rest HPage by (simp_all add: treepass_unget_def)
    have "refcount cc' = refcount cc"
      unfolding cc' using gp tp_pres_cfg [OF p] by (intro refcount_dec) (simp_all add: got_page_def)
    then show ?thesis
      using gp tp_pres_trans [OF p pres_dec_ref [OF tp_pres_wf [OF p]]] h1
      by (simp add: cc' got_page_def hands_ok_def)
  qed (use rest ge in auto)
  then show "tp_pres cc cc'" "hands_ok cc'" "refcount cc' = refcount cc"
    "r = Some d \<Longrightarrow> d = page_view cc addr" "bl \<Longrightarrow> r \<noteq> None" by auto
qed

lemma hand_state_sync_issue [simp]: "hand_state (extent_sync_issue p st cc) = hand_state cc"
  by (auto simp: extent_sync_issue_def split: option.splits)

lemma hand_state_extent_sync:
  assumes "treepass_extent_sync cc addr p = Inr cc'" shows "hand_state cc' = hand_state cc"
proof -
  from assms obtain st cc1 where
    it: "iterM (extent_sync_page p addr) [0..<pages_per_extent (cfg cc)] (None, cc) = Inr (st, cc1)"
    and cc': "cc' = extent_sync_issue p st cc1"
    by (auto simp: treepass_extent_sync_def elim!: obind_InrE)
  have "hand_state (snd (st, cc1)) = hand_state (snd (None :: (u64 \<times> nat list) option, cc))"
    using it by (rule iterM_keeps)
      (auto simp: extent_sync_page_def Let_def elim!: obind_InrE split: if_splits prod.splits
        dest!: try_set_writeback_cases)
  then show ?thesis by (simp add: cc')
qed

lemma hand_state_page_sync:
  "treepass_page_sync cc tid e bl t = Inr cc' \<Longrightarrow> hand_state cc' = hand_state cc"
  by (auto simp: treepass_page_sync_def Let_def io_write_def flag_ops elim!: obind_InrE
      split: if_splits dest!: try_set_writeback_cases)

lemma hand_state_flush:
  "treepass_flush cc tid = Inr cc' \<Longrightarrow> hand_state cc' = hand_state cc"
  by (auto simp: treepass_flush_def io_wait_all_def elim!: obind_InrE
      dest!: hand_state_wait_while iterM_keeps [where g = hand_state] intro: hand_state_batch_writeback)

lemma free_hand_inherit [simp]: "free_hand (treepass_inherit_clock cc a b n) = free_hand cc"
  by (simp add: treepass_inherit_clock_def treepass_set_clock_def Let_def)

lemma free_hand_pin [simp]:
  "free_hand (treepass_pin cc e) = free_hand cc" "free_hand (treepass_unpin cc e) = free_hand cc"
  by (simp_all add: treepass_pin_def treepass_unpin_def treepass_inc_pin_def treepass_dec_pin_def Let_def)

section \<open>Creating a page\<close>

lemma create_page_effect:
  assumes wf: "tp_wf cc" and h: "hands_ok cc" and a: "page_aligned (cfg cc) addr"
    and ret: "create_page cc fuel tid ts addr t d = Inr cc'"
  shows "tp_wf cc' \<and> cfg cc' = cfg cc \<and> hands_ok cc' \<and>
    (\<forall>b. page_aligned (cfg cc) b \<longrightarrow> page_view cc' b = (if b = addr then d else page_view cc b))"
proof -
  from ret obtain e cc1 where l: "treepass_lookup cc addr = TP_UNMAPPED_ENTRY"
    and al: "treepass_alloc cc fuel tid ts addr t = Inr (e, cc1)"
    and cc': "cc' = treepass_unget (treepass_unclaim (treepass_unlock (store_page cc1 e d) e) e) tid e"
    by (auto simp: create_page_def elim!: obind_InrE split: if_splits)
  note ae = alloc_effect [OF wf h a l al, THEN conjunct1, unfolded allocated_def]
  have au: "addr \<noteq> TP_UNMAPPED_ADDR" using a unmapped_not_aligned [OF tp_wf_cfg [OF wf]] by auto
  have wf1: "tp_wf cc1" and cf1: "cfg cc1 = cfg cc" using ae by simp_all
  have e1: "e < page_capacity (cfg cc1)" "disk_addr (entry cc1 e) = addr"
    "st_writelocked (status (entry cc1 e))" "\<not> st_clean (status (entry cc1 e))"
    "\<not> st_writeback (status (entry cc1 e))" "\<not> st_loading (status (entry cc1 e))"
    "\<not> st_free (status (entry cc1 e))"
    using ae by (simp_all add: flag_simps)
  note st = store_page_effect [OF wf1 e1(1,2) au e1(3-6)]
  define cc5 where "cc5 = store_page cc1 e d"
  have wf5: "tp_wf cc5" unfolding cc5_def by (rule st(1))
  have e5: "e < page_capacity (cfg cc5)" "disk_addr (entry cc5 e) \<noteq> TP_UNMAPPED_ADDR"
    "\<not> st_free (status (entry cc5 e))" and cf5: "cfg cc5 = cfg cc"
    using e1 cf1 au by (simp_all add: cc5_def store_page_def)
  have p6: "tp_pres cc5 (treepass_unlock cc5 e)"
    unfolding treepass_unlock_def by (rule pres_lock_flags(4) [OF wf5 e5(1,3,2)])
  have p7: "tp_pres (treepass_unlock cc5 e) (treepass_unclaim (treepass_unlock cc5 e) e)"
    unfolding treepass_unclaim_def using e5
    by (intro pres_lock_flags(3) tp_pres_wf [OF p6]) (simp_all add: treepass_unlock_def flag_ops flag_simps)
  have p8: "tp_pres cc5 cc'"
    using p6 p7 pres_dec_ref [OF tp_pres_wf [OF p7], of e tid]
    by (auto simp: cc' treepass_unget_def cc5_def intro: tp_pres_trans)
  have "page_view cc' b = (if b = addr then d else page_view cc b)" if "page_aligned (cfg cc) b" for b
    using tp_pres_view [OF p8] st(2) [of b d] that cf5 cf1 ae by (simp add: cc5_def)
  moreover have "free_hand cc' = free_hand cc1"
    by (simp add: cc' treepass_unget_def treepass_unclaim_def treepass_unlock_def flag_ops store_page_def)
  then have "hands_ok cc'"
    using hands_ok_same [of cc1 cc'] ae tp_pres_cfg [OF p8] cf5 cf1 by simp
  ultimately show ?thesis
    using tp_pres_wf [OF p8] tp_pres_cfg [OF p8] cf5 by simp
qed

section \<open>The cache refines a memory\<close>

lemma cache_step:
  assumes inv: "cache_inv c cc" and ok: "cache_op_ok c p" and ret: "cache_exec fuel p cc = Inr cc'"
  shows "cache_inv c cc' \<and> cache_abs cc' = cache_spec p (cache_abs cc)"
proof -
  have wf: "tp_wf cc" and cf: "cfg cc = c" and h: "hands_ok cc" using inv by (simp_all add: cache_inv_def)
  note hs = hand_stateD(1)
  show ?thesis
  proof (cases p)
    case (CacheRead tid ts addr t bl)
    then show ?thesis
      using ret ok read_page_effect(1,2) [OF inv] same_memory [OF _ _ inv]
      by (fastforce simp: cache_exec_def elim!: obind_InrE)
  next
    case (CacheUpdate tid ts addr t d)
    then show ?thesis
      using update_page_effect [OF wf _ h, of addr fuel tid ts t d cc'] ret ok cf
      by (auto simp: cache_exec_def cache_inv_def cache_abs_def fun_eq_iff)
  next
    case (CacheCreate tid ts addr t d)
    then show ?thesis
      using create_page_effect [OF wf h, of addr fuel tid ts t d cc'] ret ok cf
      by (auto simp: cache_exec_def cache_inv_def cache_abs_def fun_eq_iff)
  next
    case (CachePrefetch tid addr t)
    then show ?thesis
      using prefetch_effect [OF wf h, of addr fuel tid t cc'] ret ok cf same_memory [OF _ _ inv]
      by (simp add: cache_exec_def)
  next
    case (CachePageSync tid e bl t)
    then have r: "treepass_page_sync cc tid e bl t = Inr cc'" and e: "e < page_capacity (cfg cc)"
      using ret by (auto simp: cache_exec_def split: if_splits)
    have p: "tp_pres cc cc'" by (rule pres_treepass_page_sync [OF wf e r])
    show ?thesis
      using same_memory [OF p hands_ok_same [OF h hs [OF hand_state_page_sync [OF r]] tp_pres_cfg [OF p]] inv]
      by (simp add: CachePageSync)
  next
    case (CacheExtentSync addr q)
    then have r: "treepass_extent_sync cc addr q = Inr cc'" and al: "page_aligned (cfg cc) addr"
      using ret ok cf by (auto simp: cache_exec_def)
    have p: "tp_pres cc cc'" by (rule pres_treepass_extent_sync [OF wf al r])
    show ?thesis
      using same_memory [OF p hands_ok_same [OF h hs [OF hand_state_extent_sync [OF r]] tp_pres_cfg [OF p]] inv]
      by (simp add: CacheExtentSync)
  next
    case (CacheFlush tid)
    then have r: "treepass_flush cc tid = Inr cc'" using ret by (simp add: cache_exec_def)
    have p: "tp_pres cc cc'" by (rule pres_treepass_flush [OF wf r])
    show ?thesis
      using same_memory [OF p hands_ok_same [OF h hs [OF hand_state_flush [OF r]] tp_pres_cfg [OF p]] inv]
      by (simp add: CacheFlush)
  next
    case (CacheEvictAll tid ign)
    then have r: "evict_rel cc cc'" using ret evict_all_effect(1) [OF wf] by (simp add: cache_exec_def)
    then have "free_hand cc' = free_hand cc" by (simp add: evict_rel_def)
    then show ?thesis
      using same_memory [OF evict_relD(3) [OF r] hands_ok_same [OF h _ evict_relD(2) [OF r]] inv]
      by (simp add: CacheEvictAll)
  next
    case CacheWait
    then have r: "treepass_wait cc = Inr cc'" using ret by (simp add: cache_exec_def)
    have p: "tp_pres cc cc'" by (rule pres_treepass_wait [OF wf r])
    show ?thesis
      using same_memory [OF p hands_ok_same [OF h hs [OF hand_state_wait [OF r]] tp_pres_cfg [OF p]] inv]
      by (simp add: CacheWait)
  next
    case (CacheInheritClock a b n)
    have p: "tp_pres cc (treepass_inherit_clock cc a b n)" by (rule pres_inherit_clock [OF wf])
    then show ?thesis
      using same_memory [OF p hands_ok_same [OF h _ tp_pres_cfg [OF p]] inv] ret CacheInheritClock
      by (simp add: cache_exec_def)
  next
    case (CachePin e)
    have p: "tp_pres cc (treepass_pin cc e)" unfolding treepass_pin_def by (rule pres_inc_pin [OF wf])
    then show ?thesis
      using same_memory [OF p hands_ok_same [OF h _ tp_pres_cfg [OF p]] inv] ret CachePin
      by (simp add: cache_exec_def)
  next
    case (CacheUnpin e)
    have p: "tp_pres cc (treepass_unpin cc e)" unfolding treepass_unpin_def by (rule pres_dec_pin [OF wf])
    then show ?thesis
      using same_memory [OF p hands_ok_same [OF h _ tp_pres_cfg [OF p]] inv] ret CacheUnpin
      by (simp add: cache_exec_def)
  qed
qed

interpretation cache: data_refinement "cache_inv c" "cache_op_ok c" "cache_exec fuel" cache_abs cache_spec
  for c fuel
  by unfold_locales (blast dest: cache_step)+

end
