(* ===== verification/TpDemo.thy ===== *)
theory TpDemo
  imports TpStore
begin

text \<open>
  A small cache on which the properties are exercised: one batch of 64 entries of 4096 bytes,
  two pages per extent. Entry 0 holds the clean page at address 0 with three clock ticks,
  entry 1 the dirty page at address 4096, the rest is free. The device holds 7 at address 0
  and its address divided by the page size elsewhere; page 4096 has been changed to 99. The
  kernel will report the completion of the first two submitted requests.
\<close>

definition demo_cfg :: tp_config where
  "demo_cfg = \<lparr>io_page_size = 4096, io_extent_size = 8192, capacity = 262144, use_stats = True,
     log_page_size = 12, page_capacity = 64, batch_capacity = 1, cacheline_capacity = 1,
     pages_per_extent = 2, ei_ewma = (\<lambda>sweep old. (sweep + old) div 2),
     ei_initial_per_gb_ns = 1000000000, al_extent_mask = NOT 8191\<rparr>"

definition demo_disk :: "u64 \<Rightarrow> nat" where
  "demo_disk a = (if a = 0 then 7 else unat (a div 4096))"

definition demo_entry :: "nat \<Rightarrow> nat tp_entry" where
  "demo_entry e =
     (if e = 0 then \<lparr>page_data = 7, disk_addr = 0, entry_time = 5,
         status = TP_EVICTABLE_STATUS + of_nat 3 * TP_CLOCK_ONE, ptype = PAGE_TYPE_TRUNK, waiters = []\<rparr>
      else if e = 1 then \<lparr>page_data = 99, disk_addr = 4096, entry_time = 0, status = TP_CLOCK_ONE,
         ptype = PAGE_TYPE_BRANCH, waiters = []\<rparr>
      else \<lparr>page_data = 0, disk_addr = TP_UNMAPPED_ADDR, entry_time = 0, status = TP_FREE_STATUS,
         ptype = PAGE_TYPE_INVALID, waiters = []\<rparr>)"

definition demo :: "nat treepass" where
  "demo = \<lparr>cfg = demo_cfg,
     lookup = (\<lambda>l. if l = 0 then 0 else if l = 1 then 1 else TP_UNMAPPED_ENTRY),
     entry = demo_entry, refcount = (\<lambda>_. 0), pincount = (\<lambda>_. 0), evict_hand = 1,
     batch_busy = (\<lambda>_. False), cleaner_gap = TP_CLEANER_GAP, evict_interval_thre = EI_NOT_READY,
     last_cycle_ts = 0, evict_batches = 0, last_ei_check_ts = 0, last_ei_check_cycle = 0,
     free_hand = (\<lambda>_. TP_UNMAPPED_ENTRY)(0 := 0), enable_sync_get = (\<lambda>_. True),
     stats = (\<lambda>_. zero_stats), disk = demo_disk, inflight = [], reap = [(0, True), (0, True)],
     dev_ok = (\<lambda>_. True), clock = of_nat, ticks = 1, pages_outstanding = (\<lambda>_. 0)\<rparr>"

lemma demo_cfg_simps [simp]:
  "io_page_size demo_cfg = 4096" "log_page_size demo_cfg = 12" "page_capacity demo_cfg = 64"
  "batch_capacity demo_cfg = 1" "cacheline_capacity demo_cfg = 1" "pages_per_extent demo_cfg = 2"
  "use_stats demo_cfg" "al_extent_mask demo_cfg = NOT 8191"
  by (simp_all add: demo_cfg_def)

lemma demo_simps [simp]:
  "cfg demo = demo_cfg" "entry demo = demo_entry" "disk demo = demo_disk" "inflight demo = []"
  "refcount demo = (\<lambda>_. 0)" "pincount demo = (\<lambda>_. 0)" "reap demo = [(0, True), (0, True)]"
  "free_hand demo = (\<lambda>_. TP_UNMAPPED_ENTRY)(0 := 0)" "dev_ok demo = (\<lambda>_. True)"
  "lookup demo = (\<lambda>l. if l = 0 then 0 else if l = 1 then 1 else TP_UNMAPPED_ENTRY)"
  "inflight_entries demo = {}" "batch_busy demo = (\<lambda>_. False)"
  by (simp_all add: demo_def inflight_entries_def)

lemma demo_cfg_wf: "tp_cfg_wf demo_cfg"
  by (simp add: tp_cfg_wf_def demo_cfg_def tp_consts)

lemma demo_lookup_no [simp]: "lookup_no demo_cfg a = unat a div 4096"
  unfolding lookup_no_def treepass_divide_by_page_size_def unat_drop_bit_eq
  by (simp add: drop_bit_eq_div)

lemma demo_aligned: "page_aligned demo_cfg a \<longleftrightarrow> 4096 dvd uint a"
  by (simp add: page_aligned_dvd)

lemma demo_status [simp]:
  "st_clean (status (demo_entry 0))" "\<not> st_free (status (demo_entry 0))"
  "\<not> st_writeback (status (demo_entry 0))" "\<not> st_loading (status (demo_entry 0))"
  "\<not> st_writelocked (status (demo_entry 0))" "\<not> st_claimed (status (demo_entry 0))"
  "\<not> st_clean (status (demo_entry (Suc 0)))" "\<not> st_free (status (demo_entry (Suc 0)))"
  "\<not> st_writeback (status (demo_entry (Suc 0)))" "\<not> st_loading (status (demo_entry (Suc 0)))"
  "\<not> st_writelocked (status (demo_entry (Suc 0)))" "\<not> st_claimed (status (demo_entry (Suc 0)))"
  by (simp_all add: demo_entry_def flag_simps tp_statuses tp_flags tp_clock_consts st_defs bit_simps)

lemma demo_addr [simp]:
  "disk_addr (demo_entry 0) = 0" "disk_addr (demo_entry (Suc 0)) = 4096"
  "page_data (demo_entry 0) = 7" "page_data (demo_entry (Suc 0)) = 99"
  "ptype (demo_entry 0) = PAGE_TYPE_TRUNK" "ptype (demo_entry (Suc 0)) = PAGE_TYPE_BRANCH"
  "waiters (demo_entry e) = []"
  by (simp_all add: demo_entry_def)

lemma demo_entry_free:
  "e \<noteq> 0 \<Longrightarrow> e \<noteq> Suc 0 \<Longrightarrow> demo_entry e = \<lparr>page_data = 0, disk_addr = TP_UNMAPPED_ADDR, entry_time = 0,
     status = TP_FREE_STATUS, ptype = PAGE_TYPE_INVALID, waiters = []\<rparr>"
  by (simp add: demo_entry_def)

lemma unmapped_consts [simp]: "TP_UNMAPPED_ENTRY = 4294967295" "TP_UNMAPPED_ADDR = 18446744073709551615"
  by (simp_all add: tp_consts)

lemma demo_wf: "tp_wf demo"
proof -
  have "tp_map_ok demo"
    by (auto simp: tp_map_ok_def demo_aligned Let_def)
  moreover have "tp_entry_ok demo e" for e
  proof -
    consider "e = 0" | "e = Suc 0" | "e \<noteq> 0" "e \<noteq> Suc 0" by blast
    then show ?thesis
      by cases (auto simp: tp_entry_ok_def treepass_lookup_def demo_disk_def demo_entry_free flag_simps)
  qed
  ultimately show ?thesis by (simp add: tp_wf_def tp_inflight_ok_def demo_cfg_wf)
qed

lemma demo_hands: "hands_ok demo"
  by (simp add: hands_ok_def)

lemma demo_inv: "cache_inv demo_cfg demo"
  by (simp add: cache_inv_def demo_wf demo_hands)

lemma demo_al [simp]: "page_aligned demo_cfg 0" "page_aligned demo_cfg 4096" "page_aligned demo_cfg 8192"
  by (simp_all add: demo_aligned)

lemma demo_lookup [simp]:
  "treepass_lookup demo a = (if unat a div 4096 = 0 then 0 else if unat a div 4096 = 1 then 1 else 4294967295)"
  by (simp add: treepass_lookup_def)

section \<open>What the operations do on it\<close>

lemma demo_get: "\<exists>cc'. treepass_get demo (Suc n) 1 9 0 bl PAGE_TYPE_TRUNK True = Inr (HPage 0, cc')"
  using get_hit_returns [OF demo_wf, of 0 0 PAGE_TYPE_TRUNK] by simp

lemma demo_read: "\<exists>cc'. read_page demo (Suc n) 1 9 0 PAGE_TYPE_TRUNK bl = Inr (Some 7, cc')"
proof -
  obtain cc' where g: "treepass_get demo (Suc n) 1 9 0 bl PAGE_TYPE_TRUNK True = Inr (HPage 0, cc')"
    using demo_get by blast
  have "got_page demo 1 0 PAGE_TYPE_TRUNK 0 cc'"
    using get_page(3) [OF demo_wf _ demo_hands g] by simp
  then show ?thesis
    using g by (simp add: read_page_def got_page_def page_view_def)
qed


lemma demo_ref_index [simp]: "treepass_get_ref_internal demo_cfg e = e mod 1 * 64 + e"
  by (simp add: treepass_get_ref_internal_def)

lemma demo_update: "\<exists>cc'. update_page demo (Suc n) 1 9 4096 PAGE_TYPE_BRANCH 42 = Inr cc'"
proof -
  define cc1 where "cc1 = hit_state demo 1 9 False 1"
  have g: "treepass_get demo (Suc n) 1 9 4096 True PAGE_TYPE_BRANCH False = Inr (HPage 1, cc1)"
    unfolding cc1_def by (rule get_hit_returns [OF demo_wf]) simp_all
  have cc1: "cc1 = upd_stats (treepass_set_clock_accessed (treepass_inc_ref demo 1 1) 1) 1
      (\<lambda>st. st\<lparr>cache_hits := bump PAGE_TYPE_BRANCH 1 (cache_hits st)\<rparr>)"
    by (simp add: cc1_def hit_state_def)
  show ?thesis
    using g
    by (simp add: update_page_def cc1 treepass_try_claim_def treepass_try_get_claim_def treepass_set_flag_def
        treepass_lock_def treepass_get_write_def wait_while_now flag_simps Let_def)
      (simp add: other_readers_def TP_RC_WIDTH_def upt_rec treepass_get_ref_def ref_index_def treepass_inc_ref_def
        treepass_set_clock_accessed_def Let_def flag_simps)
qed

lemma demo_lock: "\<exists>cc'. treepass_get_write (treepass_inc_ref demo 0 1) 1 0 = Inr cc'"
  by (simp add: treepass_get_write_def wait_while_now flag_simps flag_ops Let_def)
    (simp add: other_readers_def TP_RC_WIDTH_def upt_rec treepass_get_ref_def ref_index_def treepass_inc_ref_def
      Let_def)

lemma demo_init:
  "\<exists>cc. treepass_init (treepass_config_init 4096 8192 (NOT 8191) 262144 True (\<lambda>sweep old. sweep)) True (0::nat)
     demo_disk [] (\<lambda>_. True) of_nat = Inr (Some cc)"
  by (simp add: treepass_init_def treepass_config_init_def Let_def tp_consts
      treepass_multiply_by_page_size_def floor_log2.simps)

lemma upt_64: "[0..<64] = [0, Suc 0] @ [2..<64]"
  by (simp add: upt_rec)

lemma iterM_noop: "(\<And>x. x \<in> set xs \<Longrightarrow> f x s = Inr s) \<Longrightarrow> iterM f xs s = Inr s"
  by (induction xs) auto

lemma free_not_evictable: "TP_FREE_STATUS \<noteq> TP_EVICTABLE_STATUS"
  by (simp add: tp_statuses tp_flags)

lemma evict_free_noop:
  assumes "tp_wf cc" and "e < page_capacity (cfg cc)" and "st_free (status (entry cc e))"
  shows "treepass_try_evict cc tid e ee = Inr (False, cc)"
  using tp_wf_entryD(2,5) [OF assms] by (simp add: try_evict_eq [OF assms(1,2)] evictable_def free_not_evictable)


text \<open>Evicting: with nobody waiting for a page, the passes always return.\<close>

definition no_waiters :: "'d treepass \<Rightarrow> bool" where
  "no_waiters cc \<longleftrightarrow> tp_wf cc \<and> (\<forall>e. waiters (entry cc e) = [])"

lemma evict_entry_returns:
  assumes "no_waiters cc" and "e < page_capacity (cfg cc)"
  shows "\<exists>cc'. evict_entry tid e cc = Inr cc' \<and> no_waiters cc' \<and> cfg cc' = cfg cc"
proof -
  have wf: "tp_wf cc" using assms by (simp add: no_waiters_def)
  obtain b cc' where t: "treepass_try_evict cc tid e False = Inr (b, cc')"
  proof -
    have "\<exists>b cc'. treepass_try_evict cc tid e False = Inr (b, cc')"
      using assms(1) by (auto simp: try_evict_eq [OF wf assms(2)] no_waiters_def)
    then show thesis using that by blast
  qed
  have "waiters (entry cc' i) = waiters (entry cc i)" for i
    using t by (auto simp: try_evict_eq [OF wf assms(2)] split: if_splits)
  then show ?thesis
    using t assms(1) pres_try_evict [OF wf assms(2) t] try_evict_fields(5) [OF wf assms(2) t]
    by (simp add: evict_entry_def no_waiters_def tp_pres_wf)
qed

lemma evict_ee_entry_returns:
  fixes x :: "nat \<times> 'd treepass"
  assumes "no_waiters (snd x)" and "e < page_capacity (cfg (snd x))"
  shows "\<exists>x'. evict_ee_entry tid e x = Inr x' \<and> no_waiters (snd x') \<and> cfg (snd x') = cfg (snd x)"
proof -
  let ?cc = "snd x"
  have wf: "tp_wf ?cc" using assms by (simp add: no_waiters_def)
  obtain b cc' where t: "treepass_try_evict ?cc tid e True = Inr (b, cc')"
  proof -
    have "\<exists>b cc'. treepass_try_evict ?cc tid e True = Inr (b, cc')"
      using assms(1) by (auto simp: try_evict_eq [OF wf assms(2)] no_waiters_def)
    then show thesis using that by blast
  qed
  have "waiters (entry cc' i) = waiters (entry ?cc i)" for i
    using t by (auto simp: try_evict_eq [OF wf assms(2)] split: if_splits)
  then show ?thesis
    using t assms(1) pres_try_evict [OF wf assms(2) t] try_evict_fields(5) [OF wf assms(2) t]
    by (simp add: evict_ee_entry_def no_waiters_def tp_pres_wf)
qed

lemma evict_batch_returns:
  assumes "no_waiters cc" and b: "b < batch_capacity (cfg cc)"
  shows "\<exists>cc'. treepass_evict_batch cc tid b fp = Inr cc' \<and> (\<not> fp \<longrightarrow> no_waiters cc' \<and> cfg cc' = cfg cc)"
proof -
  let ?P = "\<lambda>s. no_waiters s \<and> cfg s = cfg cc"
  have c: "tp_cfg_wf (cfg cc)" using assms by (simp add: no_waiters_def tp_wf_cfg)
  have "\<exists>s'. iterM (evict_entry tid)
      [b * TP_ENTRIES_PER_BATCH..<b * TP_ENTRIES_PER_BATCH + TP_ENTRIES_PER_BATCH] cc = Inr s' \<and> ?P s'"
  proof (rule iterM_returns [where P = ?P])
    show "?P cc" using assms by simp
    fix e s assume e: "e \<in> set [b * TP_ENTRIES_PER_BATCH..<b * TP_ENTRIES_PER_BATCH + TP_ENTRIES_PER_BATCH]"
      and s: "?P s"
    then show "\<exists>s'. evict_entry tid e s = Inr s' \<and> ?P s'"
      using evict_entry_returns [of s e tid] batch_entry_lt [OF c b e] by auto
  qed
  then show ?thesis by (auto simp: treepass_evict_batch_def Let_def)
qed

lemma evict_batch_ee_returns:
  assumes "no_waiters cc" and b: "b < batch_capacity (cfg cc)"
  shows "\<exists>n cc'. treepass_evict_batch_ee cc tid b = Inr (n, cc') \<and> no_waiters cc' \<and> cfg cc' = cfg cc"
proof -
  let ?P = "\<lambda>x :: nat \<times> 'a treepass. no_waiters (snd x) \<and> cfg (snd x) = cfg cc"
  have c: "tp_cfg_wf (cfg cc)" using assms by (simp add: no_waiters_def tp_wf_cfg)
  have "\<exists>x'. treepass_evict_batch_ee cc tid b = Inr x' \<and> ?P x'"
    unfolding treepass_evict_batch_ee_def Let_def
  proof (rule iterM_returns [where P = ?P])
    show "?P (0, cc)" using assms by simp
    fix e x assume e: "e \<in> set [b * TP_ENTRIES_PER_BATCH..<b * TP_ENTRIES_PER_BATCH + TP_ENTRIES_PER_BATCH]"
      and x: "?P x"
    then show "\<exists>x'. evict_ee_entry tid e x = Inr x' \<and> ?P x'"
      using evict_ee_entry_returns [of x e tid] batch_entry_lt [OF c b e] by auto
  qed
  then show ?thesis by auto
qed

lemma evict_all_returns:
  assumes "no_waiters cc"
  shows "\<exists>cc'. treepass_evict_all cc tid True = Inr cc'"
proof -
  let ?P = "\<lambda>s. no_waiters s \<and> cfg s = cfg cc"
  have "\<exists>s'. iterM (\<lambda>h. iterM (\<lambda>r cc. treepass_evict_batch cc tid h False) [0..<unat TP_CLOCK_MAX + 1])
      [0..<batch_capacity (cfg cc)] cc = Inr s' \<and> ?P s'"
  proof (rule iterM_returns [where P = ?P])
    show "?P cc" using assms by simp
    fix h s assume h: "h \<in> set [0..<batch_capacity (cfg cc)]" and s: "?P s"
    have "\<exists>s'. treepass_evict_batch s tid h False = Inr s' \<and> ?P s'" if "?P s" for s
      using evict_batch_returns [of s h tid False] that h by auto
    then show "\<exists>s'. iterM (\<lambda>r cc. treepass_evict_batch cc tid h False) [0..<unat TP_CLOCK_MAX + 1] s = Inr s' \<and> ?P s'"
      by (intro iterM_returns [where P = ?P]) (use s in auto)
  qed
  then show ?thesis by (auto simp: treepass_evict_all_def)
qed

lemma demo_evict_all: "\<exists>cc'. treepass_evict_all demo tid True = Inr cc'"
  by (rule evict_all_returns) (simp add: no_waiters_def demo_wf)

text \<open>A free page: entry 2 is the first free entry of the batch of thread 0.\<close>

lemma demo_not_free: "status (demo_entry 0) \<noteq> TP_FREE_STATUS" "status (demo_entry (Suc 0)) \<noteq> TP_FREE_STATUS"
  by (simp_all add: demo_entry_def tp_statuses tp_flags tp_clock_consts)

lemma demo_free_page:
  "treepass_get_free_page demo (Suc n) 0 st t ref True = Inr (2, taken 2 0 st t ref demo)"
proof -
  obtain i where i: "i < 64" "i div 64 = 0" "status (demo_entry i) = TP_FREE_STATUS"
      "\<forall>j<i. j div 64 = 0 \<longrightarrow> status (demo_entry j) \<noteq> TP_FREE_STATUS"
    and g: "treepass_get_free_page demo (Suc n) 0 st t ref True = Inr (i, taken i 0 st t ref demo)"
    using get_free_page_now [OF demo_wf, of 0 2 n st t ref True]
    by (auto simp: TP_ENTRIES_PER_BATCH_def demo_entry_free)
  have "\<not> 2 < i" using i(4) by (auto simp: demo_entry_free)
  moreover have "i \<noteq> 0" "i \<noteq> 1" using i(3) demo_not_free by (metis One_nat_def)+
  ultimately have "i = 2" by simp
  with g show ?thesis by simp
qed

lemma demo_alloc: "\<exists>e cc'. treepass_alloc demo (Suc n) 0 9 8192 PAGE_TYPE_TRUNK = Inr (e, cc')"
  by (simp add: treepass_alloc_def demo_free_page taken_def ref_if_def Let_def)

lemma demo_create: "\<exists>cc'. create_page demo (Suc n) 0 9 8192 PAGE_TYPE_TRUNK 5 = Inr cc'"
  by (simp add: create_page_def treepass_alloc_def demo_free_page taken_def ref_if_def Let_def)

lemma dev_ok_frame [simp]:
  "dev_ok (set_lookup cc a v) = dev_ok cc" "dev_ok (treepass_inc_ref cc e t) = dev_ok cc"
  by (simp_all add: set_lookup_def treepass_inc_ref_def Let_def)

lemma demo_miss: "\<exists>e cc'. treepass_get demo (Suc n) 0 9 8192 True PAGE_TYPE_TRUNK False = Inr (HPage e, cc')"
  by (simp add: treepass_get_def treepass_get_internal_def treepass_get_from_disk_def
      treepass_acquire_entry_for_load_def demo_free_page io_read_def taken_def ref_if_def Let_def)


text \<open>A flush writes entry 1 to address 4096.\<close>

lemma free_start_writeback:
  "st_free (status (entry cc e)) \<Longrightarrow> start_writeback_entry tid np e cc = Inr cc"
  by (simp add: start_writeback_entry_def treepass_ok_to_writeback_def treepass_get_status_def Let_def
      flag_simps)

lemma clean_start_writeback:
  "st_clean (status (entry cc e)) \<Longrightarrow> start_writeback_entry tid np e cc = Inr cc"
  by (simp add: start_writeback_entry_def treepass_ok_to_writeback_def treepass_get_status_def Let_def
      flag_simps)

definition demo_marked :: "nat treepass" where
  "demo_marked = upd_entry demo 1 (status_update (\<lambda>_. status (demo_entry 1) OR TP_WRITEBACK))"

lemma demo_mark: "treepass_try_set_writeback demo 1 TP_CLOCK_MAX = Inr (True, demo_marked)"
proof -
  have "\<not> status_clock (status (demo_entry 1)) > TP_CLOCK_MAX"
    using status_clock_le [of "status (demo_entry 1)"] by simp
  then show ?thesis
    by (simp add: treepass_try_set_writeback_def demo_marked_def Let_def flag_simps)
qed

lemma demo_marked_simps [simp]:
  "cfg demo_marked = demo_cfg" "treepass_lookup demo_marked = treepass_lookup demo"
  "inflight demo_marked = []" "reap demo_marked = reap demo" "disk demo_marked = demo_disk"
  "entry demo_marked 0 = demo_entry 0" "e \<noteq> Suc 0 \<Longrightarrow> entry demo_marked e = demo_entry e"
  "page_data (entry demo_marked (Suc 0)) = 99"
  by (simp_all add: demo_marked_def)

lemma demo_walks:
  "writeback_walk (Suc n) (- 4096) 4096 TP_CLOCK_MAX 4096 demo_marked = Inr (0, demo_marked)"
  "writeback_walk (Suc n) 4096 4096 TP_CLOCK_MAX 4096 demo_marked = Inr (8192, demo_marked)"
  by (simp_all add: writeback_walk.simps(2) allocator_config_pages_share_extent_def
      treepass_try_set_writeback_def flag_simps Let_def)

definition demo_rq :: io_req where
  "demo_rq = \<lparr>rq_cmd = IO_PWRITEV, rq_addr = 4096, rq_iovec = [1], rq_num_passes = TP_CLOCK_MAX,
     rq_outstanding = None\<rparr>"

lemma demo_start:
  "\<exists>s. start_writeback_entry tid TP_CLOCK_MAX (Suc 0) demo =
     Inr (io_submit demo_rq (upd_stats demo_marked tid s))"
proof -
  have ok: "treepass_ok_to_writeback demo (Suc 0) TP_CLOCK_MAX"
    using status_clock_le [of "status (demo_entry 1)"]
    by (simp add: treepass_ok_to_writeback_def treepass_get_status_def Let_def flag_simps)
  have d: "treepass_divide_by_page_size demo_cfg 4096 = 1" "treepass_multiply_by_page_size demo_cfg 0 = 0"
    by (simp_all add: treepass_divide_by_page_size_def treepass_multiply_by_page_size_def drop_bit_eq_div)
  show ?thesis
    using ok demo_mark demo_walks [of 64, simplified]
    by (auto simp: start_writeback_entry_def treepass_config_page_size_def writeback_submit_def Let_def d
        demo_rq_def)
qed

text \<open>The state with that request in flight, and what its completion does.\<close>

lemma demo_written:
  obtains c2 where "treepass_batch_start_writeback demo tid 0 TP_CLOCK_MAX = Inr c2"
    and "tp_pres demo c2" and "inflight c2 = [demo_rq]" and "reap c2 = [(0, True), (0, True)]"
    and "disk c2 = demo_disk"
    and "\<exists>cc'. treepass_wait c2 = Inr cc' \<and> inflight cc' = [] \<and> disk cc' 4096 = 99"
proof -
  obtain s where s: "start_writeback_entry tid TP_CLOCK_MAX (Suc 0) demo =
      Inr (io_submit demo_rq (upd_stats demo_marked tid s))" using demo_start by blast
  define c2 where "c2 = io_submit demo_rq (upd_stats demo_marked tid s)"
  have fr: "st_free (status (entry c2 e))" if "e \<in> set [2..<64]" for e
  proof -
    have "2 \<le> e" using that by (simp only: set_upt atLeastLessThan_iff)
    then show ?thesis by (simp add: c2_def io_submit_def demo_entry_free flag_simps)
  qed
  have "iterM (start_writeback_entry tid TP_CLOCK_MAX) [2..<64] c2 = Inr c2"
    by (intro iterM_noop free_start_writeback fr)
  then have it: "treepass_batch_start_writeback demo tid 0 TP_CLOCK_MAX = Inr c2"
    by (simp add: treepass_batch_start_writeback_def TP_ENTRIES_PER_BATCH_def upt_64 s c2_def
        clean_start_writeback del: upt_Suc)
  have c2: "inflight c2 = [demo_rq]" "reap c2 = [(0, True), (0, True)]" "disk c2 = demo_disk"
    by (simp_all add: c2_def io_submit_def)
  have "\<exists>cc'. treepass_wait c2 = Inr cc' \<and> inflight cc' = [] \<and> disk cc' 4096 = 99"
    by (simp add: treepass_wait_def c2 io_reap_def)
      (simp add: c2_def io_submit_def demo_rq_def io_complete_def treepass_write_callback_def
        write_callback_page_def flag_ops treepass_set_clock_def Let_def)
  moreover have "tp_pres demo c2" by (rule pres_batch_start_writeback [OF demo_wf _ it]) simp
  ultimately show thesis using that it c2 by blast
qed

lemma demo_flush: "\<exists>cc'. treepass_flush demo tid = Inr cc'"
proof (rule demo_written)
  fix c2 assume it: "treepass_batch_start_writeback demo tid 0 TP_CLOCK_MAX = Inr c2"
    and c2: "inflight c2 = [demo_rq]" "reap c2 = [(0, True), (0, True)]"
    and w: "\<exists>cc'. treepass_wait c2 = Inr cc' \<and> inflight cc' = [] \<and> disk cc' 4096 = 99"
  have w1: "io_wait_all demo = Inr demo" by (simp add: io_wait_all_def wait_while_now)
  have "\<exists>cc'. io_wait_all c2 = Inr cc'"
    using w c2 by (auto simp: io_wait_all_def wait_while_def treepass_wait_def)
  then show ?thesis using it w1 by (simp add: treepass_flush_def TP_ENTRIES_PER_BATCH_def)
qed

lemma demo_quiet: "quiet_entry demo 0" "quiet_entry demo (Suc 0)"
  by (simp_all add: quiet_entry_def Let_def)

lemma demo_idle: "idle_clean demo 0 3"
  by (simp add: idle_clean_def demo_entry_def treepass_get_pin_def unreferenced_def treepass_get_ref_def)

text \<open>Syncing and discarding the first extent, prefetching the second.\<close>

lemma demo_page_sync: "\<exists>cc'. treepass_page_sync demo tid (Suc 0) True PAGE_TYPE_BRANCH = Inr cc'"
  using demo_mark
  by (simp add: treepass_page_sync_def io_write_def Let_def) (simp add: demo_marked_def upd_stats_def upd_entry_def)

lemma demo_prefetch: "\<exists>cc'. prefetch_page (Suc n) 0 8192 PAGE_TYPE_BRANCH None demo = Inr (True, Some (8192, [2]), cc')"
  by (simp add: prefetch_page_def demo_free_page taken_def ref_if_def Let_def)

text \<open>Moving the hand of thread 0, which holds the only batch of the cache.\<close>

definition demo_held :: "nat treepass" where
  "demo_held = demo\<lparr>batch_busy := (\<lambda>_. False)(0 := True)\<rparr>"

lemma demo_held_wf: "tp_wf demo_held"
  unfolding demo_held_def by (rule tp_pres_wf [OF pres_fields(1) [OF demo_wf]])

lemma demo_held_simps [simp]:
  "cfg demo_held = demo_cfg" "free_hand demo_held = free_hand demo" "batch_busy demo_held = (\<lambda>_. False)(0 := True)"
  by (simp_all add: demo_held_def)

lemma demo_move_hand: "\<exists>np cc'. treepass_move_hand demo_held 0 0 = Inr (np, cc')"
proof -
  have r: "release_batch demo_held 0 = demo"
    by (simp add: release_batch_def demo_held_def fun_upd_idem)
  define c0 where "c0 = demo\<lparr>evict_hand := evict_hand demo + 1\<rparr>"
  define c1 where "c1 = c0\<lparr>batch_busy := (\<lambda>_. False)(0 := True)\<rparr>"
  have c0 [simp]: "cfg c0 = demo_cfg" "batch_busy c0 = (\<lambda>_. False)" "entry c0 = demo_entry"
    by (simp_all add: c0_def)
  have c1 [simp]: "cfg c1 = demo_cfg" "batch_busy c1 = (\<lambda>_. False)(0 := True)" "entry c1 = demo_entry"
    by (simp_all add: c1_def)
  have "start_writeback_entry 0 0 e c1 = Inr c1" for e
  proof -
    have "st_free (status (demo_entry e))" if "e \<noteq> 0" "e \<noteq> Suc 0"
      using demo_entry_free [OF that] by (simp add: flag_simps)
    then consider "e = 0" | "e = Suc 0" | "st_free (status (demo_entry e))" by blast
    then show ?thesis
    proof cases
      case 2
      then show ?thesis
        by (simp add: start_writeback_entry_def c1_def treepass_ok_to_writeback_def
            treepass_get_status_def demo_entry_def status_clock_def tp_clock_consts Let_def)
    qed (simp_all add: clean_start_writeback free_start_writeback)
  qed
  then have "treepass_batch_start_writeback c1 0 0 0 = Inr c1"
    unfolding treepass_batch_start_writeback_def Let_def by (intro iterM_noop)
  then have "clean_ahead 0 0 0 c0 = Inr (c1\<lparr>batch_busy := (batch_busy c1)(0 := False)\<rparr>)"
    by (simp add: clean_ahead_def c1_def)
  also have "c1\<lparr>batch_busy := (batch_busy c1)(0 := False)\<rparr> = c0"
    by (simp add: c1_def fun_upd_idem)
  finally have l: "move_hand_loop (Suc 3) 0 0 demo = Inr (0, c1)"
    by (simp only: move_hand_loop.simps(2) Let_def c0_def [symmetric]) (simp add: c1_def)
  have "tp_wf c0" unfolding c0_def by (rule tp_pres_wf [OF pres_fields(2) [OF demo_wf]])
  then have "tp_wf c1" unfolding c1_def by (rule tp_pres_wf [OF pres_fields(1)])
  then have n1: "no_waiters c1" by (simp add: no_waiters_def)
  obtain n cc2 where ee: "treepass_evict_batch_ee c1 0 0 = Inr (n, cc2)" "no_waiters cc2" "cfg cc2 = cfg c1"
    using evict_batch_ee_returns [OF n1, of 0 0] by auto
  obtain cc3 where "treepass_evict_batch cc2 0 0 True = Inr cc3"
    using evict_batch_returns [OF ee(2), of 0 0 True] ee(3) by auto
  then show ?thesis
    using l ee unfolding treepass_move_hand_def Let_def release_batch_def [symmetric] r by simp
qed

end
