(* ===== verification/TpProperties.thy ===== *)
theory TpProperties
  imports TpDemo
begin

text \<open>
  The properties of the TreePass cache, each with a concrete instance on the cache of
  \<open>TpDemo\<close> where its hypotheses hold.
\<close>

section \<open>The cache is a memory\<close>

text \<open>
  C1. Whatever sequence of operations callers and background work perform, reads, updates under
  the lock protocol, creation of pages, prefetches, syncs, flushes, evictions, completions, the
  cache keeps its invariant and presents the memory that results from its updates and
  creations alone.
\<close>

theorem cache_refines_memory:
  assumes "cache_inv c cc" and "\<forall>p\<in>set ps. cache_op_ok c p"
    and "iterM (cache_exec fuel) ps cc = Inr cc'"
  shows "cache_inv c cc' \<and> cache_abs cc' = fold cache_spec ps (cache_abs cc)"
  using cache.run_inv [OF assms(3,1,2)] cache.run_abs [OF assms(3,1,2)] by simp

theorem cache_refines_memory_witness:
  "\<exists>cc'. iterM (cache_exec 1) [CacheUpdate 1 9 4096 PAGE_TYPE_BRANCH 42, CachePin 0] demo = Inr cc' \<and>
     cache_abs cc' 4096 = Some 42 \<and> cache_abs cc' 0 = Some 7"
proof -
  obtain cc1 where u: "update_page demo (Suc 0) 1 9 4096 PAGE_TYPE_BRANCH 42 = Inr cc1"
    using demo_update by blast
  let ?ps = "[CacheUpdate 1 9 4096 PAGE_TYPE_BRANCH 42, CachePin 0]"
  have run: "iterM (cache_exec 1) ?ps demo = Inr (treepass_pin cc1 0)"
    using u by (simp add: cache_exec_def)
  have ok: "\<forall>p\<in>set ?ps. cache_op_ok demo_cfg p" by simp
  have "cache_abs demo 0 = Some 7" by (simp add: cache_abs_def page_view_def)
  moreover have "cache_abs (treepass_pin cc1 0) = fold cache_spec ?ps (cache_abs demo)"
    using cache_refines_memory [OF demo_inv ok run] by blast
  ultimately have "cache_abs (treepass_pin cc1 0) 4096 = Some 42"
    and "cache_abs (treepass_pin cc1 0) 0 = Some 7" by simp_all
  with run show ?thesis by blast
qed

text \<open>
  C4. A blocking read after any sequence of operations returns the contents last stored at its
  address, leaves the memory as it is, and gives back the reference it took.
\<close>

theorem read_returns_last_write:
  assumes "cache_inv c cc" and "\<forall>p\<in>set ps. cache_op_ok c p" and "page_aligned c addr"
    and "iterM (cache_exec fuel) ps cc = Inr cc1"
    and "read_page cc1 fuel' tid ts addr t True = Inr (r, cc')"
  shows "r = fold cache_spec ps (cache_abs cc) addr \<and> cache_abs cc' = cache_abs cc1 \<and>
    refcount cc' = refcount cc1"
proof -
  have inv1: "cache_inv c cc1" and abs1: "cache_abs cc1 = fold cache_spec ps (cache_abs cc)"
    using cache.run_inv [OF assms(4,1,2)] cache.run_abs [OF assms(4,1,2)] by simp_all
  note e = read_page_effect [OF inv1 assms(3,5)]
  obtain d where d: "r = Some d" using e(5) by auto
  then have "r = cache_abs cc1 addr"
    using e(4) [OF d] assms(3) inv1 by (simp add: cache_abs_def cache_inv_def)
  then show ?thesis
    using same_memory [OF e(1,2) inv1] e(3) abs1 by simp
qed

theorem read_returns_last_write_witness:
  "\<exists>cc'. read_page demo 1 1 9 0 PAGE_TYPE_TRUNK True = Inr (Some 7, cc') \<and>
     cache_abs cc' = cache_abs demo"
proof -
  obtain cc' where r: "read_page demo 1 1 9 0 PAGE_TYPE_TRUNK True = Inr (Some 7, cc')"
    using demo_read [of 0 True] by auto
  have "cache_abs cc' = cache_abs demo"
    using read_returns_last_write [OF demo_inv, of "[]" 0 1 demo 1 1 9 PAGE_TYPE_TRUNK "Some 7" cc'] r
    by simp
  with r show ?thesis by blast
qed

section \<open>Durability\<close>

text \<open>
  C10. When \<open>treepass_flush\<close> returns, the device holds the memory's contents of every page that nobody had
  claimed or write-locked, cached or not, no request is outstanding and the entry of such a page is free
  or clean. An entry that was being written or loaded when the flush began must have a request in flight
  (\<open>quiet_entry\<close>).
\<close>

theorem flush_makes_durable:
  assumes "tp_wf cc" and "treepass_flush cc tid = Inr cc'" and "page_aligned (cfg cc) a"
    and "treepass_lookup cc a \<noteq> TP_UNMAPPED_ENTRY \<Longrightarrow> quiet_entry cc (treepass_lookup cc a)"
  shows "disk cc' a = page_view cc a \<and> inflight cc' = [] \<and>
    (treepass_lookup cc a \<noteq> TP_UNMAPPED_ENTRY \<longrightarrow>
       treepass_test_flag cc' (treepass_lookup cc a) TP_FREE \<noteq> 0 \<or>
       treepass_test_flag cc' (treepass_lookup cc a) TP_CLEAN \<noteq> 0)"
  using flush_page_durable [OF assms] flush_settles(2) [OF assms(1,2)]
    flush_entry_clean(1) [OF assms(1,2) tp_wf_lookupD(1) [OF assms(1)] assms(4)]
  by (auto simp: flag_simps)

theorem flush_makes_durable_witness:
  "\<exists>cc'. treepass_flush demo 1 = Inr cc' \<and> disk cc' 4096 = 99 \<and> disk demo 4096 = 1"
proof -
  obtain cc' where f: "treepass_flush demo 1 = Inr cc'" using demo_flush by blast
  have "disk cc' 4096 = page_view demo 4096"
    using flush_makes_durable [OF demo_wf f, of 4096] demo_quiet by simp
  then show ?thesis using f by (simp add: page_view_def demo_disk_def)
qed

text \<open>
  C11. After a flush with no lock held anywhere, the whole cache is clean: the check
  \<open>treepass_assert_clean\<close> that \<open>treepass_flush\<close> ends with in debug builds succeeds.
\<close>

theorem flush_leaves_cache_clean:
  assumes "tp_wf cc" and "treepass_flush cc tid = Inr cc'"
    and "\<forall>e<page_capacity (cfg cc). quiet_entry cc e"
  shows "treepass_assert_clean cc'"
  using flush_entry_clean(1) [OF assms(1,2)] assms(3) flush_step_cfg [OF flush_settles(1) [OF assms(1,2)]]
  by (auto simp: treepass_assert_clean_def flag_simps)

theorem flush_leaves_cache_clean_witness:
  "\<exists>cc'. treepass_flush demo 1 = Inr cc' \<and> treepass_assert_clean cc' \<and> \<not> treepass_assert_clean demo"
proof -
  obtain cc' where f: "treepass_flush demo 1 = Inr cc'" using demo_flush by blast
  have q: "quiet_entry demo e" for e
    using demo_quiet by (cases "e = 0 \<or> e = Suc 0") (auto simp: quiet_entry_def demo_entry_free flag_simps Let_def)
  have "\<not> treepass_assert_clean demo"
    by (auto simp: treepass_assert_clean_def flag_simps intro!: bexI [of _ 1])
  with f flush_leaves_cache_clean [OF demo_wf f] q show ?thesis by blast
qed

section \<open>Getting a page\<close>

text \<open>
  C12. A blocking \<open>treepass_get\<close> that returns gives the handle of an entry that maps the page
  asked for, with the right type, loaded, holding what the memory shows at that address, and
  adds exactly one reference, the caller's; the memory is unchanged.
\<close>

theorem get_returns_page:
  assumes "tp_wf cc" and "hands_ok cc" and "page_aligned (cfg cc) addr"
    and "treepass_get cc fuel tid ts addr True t wm = Inr (h, cc')"
  shows "\<exists>e<page_capacity (cfg cc). h = HPage e \<and> treepass_lookup cc' addr = e \<and>
    disk_addr (entry cc' e) = addr \<and> ptype (entry cc' e) = t \<and>
    treepass_test_flag cc' e TP_LOADING = 0 \<and> page_data (entry cc' e) = page_view cc addr \<and>
    refcount cc' = refcount (treepass_inc_ref cc e tid) \<and> tp_pres cc cc'"
  using get_loop_effect [OF assms(1,3,2) assms(4) [unfolded treepass_get_def]]
  by (auto simp: got_page_def flag_simps split: handle.splits)

theorem get_returns_page_witness:
  "\<exists>e cc'. treepass_get demo 1 0 9 8192 True PAGE_TYPE_TRUNK False = Inr (HPage e, cc') \<and>
     page_data (entry cc' e) = 2"
proof -
  obtain e cc' where g: "treepass_get demo 1 0 9 8192 True PAGE_TYPE_TRUNK False = Inr (HPage e, cc')"
    using demo_miss [of 0] by auto
  have "page_data (entry cc' e) = page_view demo 8192"
    using get_returns_page [OF demo_wf demo_hands _ g] by auto
  then show ?thesis using g by (simp add: page_view_def demo_disk_def)
qed

text \<open>
  C24. A cached page that is neither write-locked nor being loaded is got at once, whatever the
  fuel, and without I/O: device, requests and completions stay as they are. The state changes
  only by the reader's reference, a clock tick of the entry, the entry time of a branch page got
  warm that had none, and the thread's hit counter.
\<close>

theorem get_of_cached_page_returns:
  assumes "tp_wf cc" and "page_aligned (cfg cc) addr"
    and "treepass_lookup cc addr = e" and "e \<noteq> TP_UNMAPPED_ENTRY"
    and "treepass_test_flag cc e TP_WRITELOCKED = 0" and "treepass_test_flag cc e TP_LOADING = 0"
    and "t = ptype (entry cc e)"
  shows "\<exists>cc'. treepass_get cc (Suc fuel) tid ts addr blocking t wm = Inr (HPage e, cc') \<and>
    disk cc' = disk cc \<and> inflight cc' = inflight cc \<and> reap cc' = reap cc \<and>
    cc' = (let cc1 = treepass_set_clock_accessed (treepass_inc_ref cc e tid) e;
               cc2 = (if wm \<and> t = PAGE_TYPE_BRANCH \<and> entry_time (entry cc e) = 0
                      then upd_entry cc1 e (entry_time_update (\<lambda>_. ts)) else cc1)
           in upd_stats cc2 tid (\<lambda>st. st\<lparr>cache_hits := bump t 1 (cache_hits st)\<rparr>))"
proof -
  have "treepass_get cc (Suc fuel) tid ts addr blocking t wm = Inr (HPage e, hit_state cc tid ts wm e)"
    using assms by (intro get_hit_returns) (simp_all add: flag_simps)
  then show ?thesis
    by (intro exI [of _ "hit_state cc tid ts wm e"] conjI, simp_all only: hit_state_frame)
      (simp only: hit_state_def assms(7) Let_def)
qed

theorem get_of_cached_page_returns_witness:
  "\<exists>cc'. treepass_get demo (Suc 0) 3 9 4096 False PAGE_TYPE_BRANCH True = Inr (HPage 1, cc') \<and>
     disk cc' = demo_disk \<and> entry_time (entry cc' 1) = 9 \<and> page_data (entry cc' 1) = 99 \<and>
     treepass_get_ref cc' 1 3 = 1"
proof -
  obtain cc' where g: "treepass_get demo (Suc 0) 3 9 4096 False PAGE_TYPE_BRANCH True = Inr (HPage 1, cc')"
    "disk cc' = disk demo" and cc': "cc' = (let cc1 = treepass_set_clock_accessed (treepass_inc_ref demo 1 3) 1;
               cc2 = (if True \<and> PAGE_TYPE_BRANCH = PAGE_TYPE_BRANCH \<and> entry_time (entry demo 1) = 0
                      then upd_entry cc1 1 (entry_time_update (\<lambda>_. 9)) else cc1)
           in upd_stats cc2 3 (\<lambda>st. st\<lparr>cache_hits := bump PAGE_TYPE_BRANCH 1 (cache_hits st)\<rparr>))"
    using get_of_cached_page_returns [OF demo_wf, of 4096 1 PAGE_TYPE_BRANCH 0 3 9 False True]
    by (auto simp: flag_simps)
  have "entry_time (entry cc' 1) = 9" "page_data (entry cc' 1) = 99" "treepass_get_ref cc' 1 3 = 1"
    using get_ref_inc [of demo 1 1 3 3] demo_cfg_wf
    by (simp_all add: cc' treepass_get_ref_def treepass_set_clock_accessed_def demo_entry_def Let_def)
  with g show ?thesis by auto
qed

text \<open>
  A non-blocking \<open>treepass_get\<close> of a page that is not cached returns without having assigned
  the page handle: the caller receives an uninitialised pointer instead of NULL.
\<close>

theorem nonblocking_miss_leaves_handle_unset:
  assumes "treepass_lookup cc addr = TP_UNMAPPED_ENTRY"
  shows "treepass_get cc (Suc fuel) tid ts addr False t wm = Inr (HUnset, cc)"
  by (rule get_nonblocking_miss [OF assms])

theorem nonblocking_miss_leaves_handle_unset_witness:
  "treepass_get demo (Suc 0) 1 9 8192 False PAGE_TYPE_TRUNK False = Inr (HUnset, demo)"
  by (rule nonblocking_miss_leaves_handle_unset) simp

section \<open>Updating, allocating, discarding\<close>

text \<open>
  C25. An update under the lock protocol (get, claim, lock, mark dirty, store, unlock, unclaim,
  unget) stores the new contents at its page, changes no other page, and leaves every
  reference count as it found it.
\<close>

theorem update_stores_one_page:
  assumes "tp_wf cc" and "page_aligned (cfg cc) addr" and "hands_ok cc"
    and "update_page cc fuel tid ts addr t d = Inr cc'"
  shows "tp_wf cc' \<and> refcount cc' = refcount cc \<and>
    (\<forall>b. page_aligned (cfg cc) b \<longrightarrow> page_view cc' b = (if b = addr then d else page_view cc b))"
  using update_page_effect [OF assms] by simp

theorem update_stores_one_page_witness:
  "\<exists>cc'. update_page demo 1 1 9 4096 PAGE_TYPE_BRANCH 42 = Inr cc' \<and> page_view cc' 4096 = 42 \<and>
     page_view cc' 0 = 7"
proof -
  obtain cc' where u: "update_page demo 1 1 9 4096 PAGE_TYPE_BRANCH 42 = Inr cc'"
    using demo_update [of 0] by auto
  show ?thesis
    using update_stores_one_page [OF demo_wf _ demo_hands u] u by (auto simp: page_view_def)
qed

text \<open>
  C13. The holder of a write lock has the page to itself: when \<open>treepass_lock\<close> returns, no other
  thread group has a reference, no writeback of the page is under way, and the lock flag is set.
\<close>

theorem lock_is_exclusive:
  assumes "tp_wf cc" and "e < page_capacity (cfg cc)" and "treepass_test_flag cc e TP_FREE = 0"
    and "treepass_lock cc tid e = Inr cc'"
  shows "treepass_test_flag cc' e TP_WRITELOCKED \<noteq> 0 \<and> treepass_test_flag cc' e TP_WRITEBACK = 0 \<and>
    (\<forall>u<TP_RC_WIDTH. u \<noteq> tid mod TP_RC_WIDTH \<longrightarrow> treepass_get_ref cc' e u = 0) \<and>
    treepass_get_ref cc' e tid \<le> 1 \<and> tp_pres cc cc'"
proof -
  have nf: "\<not> st_free (status (entry cc e))" using assms(3) by (simp add: flag_simps)
  note w = get_write_effect [OF assms(1,2) nf assms(4) [unfolded treepass_lock_def]]
  have "tid mod TP_RC_WIDTH \<in> set [0..<TP_RC_WIDTH]" by (simp add: TP_RC_WIDTH_def)
  then have "\<not> treepass_get_ref cc' e (tid mod TP_RC_WIDTH) > 1"
    using w(4) unfolding other_readers_def by force
  moreover have "treepass_get_ref cc' e u = 0" if "u < TP_RC_WIDTH" "u \<noteq> tid mod TP_RC_WIDTH" for u
    using w(4) that unfolding other_readers_def by force
  ultimately show ?thesis using w(1-3) by (simp add: flag_simps get_ref_mod not_less)
qed

theorem lock_is_exclusive_witness:
  "\<exists>cc'. treepass_lock (treepass_inc_ref demo 0 1) 1 0 = Inr cc' \<and>
     treepass_test_flag cc' 0 TP_WRITELOCKED \<noteq> 0"
proof -
  obtain cc' where l: "treepass_lock (treepass_inc_ref demo 0 1) 1 0 = Inr cc'"
    using demo_lock by (auto simp: treepass_lock_def)
  have "tp_wf (treepass_inc_ref demo 0 1)" by (rule tp_pres_wf [OF pres_inc_ref [OF demo_wf]])
  then show ?thesis using lock_is_exclusive [OF _ _ _ l] l by (simp add: flag_simps)
qed

text \<open>
  C18. Allocating a page that is not cached gives the caller an entry mapped at that page,
  write-locked, claimed and with one more reference; no other page changes.
\<close>

theorem alloc_gives_locked_page:
  assumes "tp_wf cc" and "hands_ok cc" and "page_aligned (cfg cc) addr"
    and "treepass_lookup cc addr = TP_UNMAPPED_ENTRY"
    and "treepass_alloc cc fuel tid ts addr t = Inr (e, cc')"
  shows "tp_wf cc' \<and> e < page_capacity (cfg cc) \<and> treepass_lookup cc' addr = e \<and>
    disk_addr (entry cc' e) = addr \<and> ptype (entry cc' e) = t \<and> entry_time (entry cc' e) = ts \<and>
    status (entry cc' e) = TP_ALLOC_STATUS OR TP_CLOCK_ONE \<and>
    refcount cc' = refcount (treepass_inc_ref cc e tid) \<and>
    (\<forall>b. page_aligned (cfg cc) b \<and> b \<noteq> addr \<longrightarrow> page_view cc' b = page_view cc b)"
  using alloc_effect [OF assms] by (simp add: allocated_def)

theorem alloc_gives_locked_page_witness:
  "\<exists>e cc'. treepass_alloc demo 1 0 9 8192 PAGE_TYPE_TRUNK = Inr (e, cc') \<and>
     treepass_lookup cc' 8192 = e \<and> page_view cc' 4096 = 99"
proof -
  obtain e cc' where al: "treepass_alloc demo 1 0 9 8192 PAGE_TYPE_TRUNK = Inr (e, cc')"
    using demo_alloc [of 0] by auto
  show ?thesis
    using alloc_gives_locked_page [OF demo_wf demo_hands _ _ al] al by (auto simp: page_view_def)
qed

text \<open>
  C23. When the discard of an extent returns, all its pages are out of the cache, dirty ones
  included, and reading one gives the device's copy; no page outside the extent and no reference
  count has changed. It returns at once when every cached page of the extent is idle: not
  claimed, not locked, not being loaded or written, unreferenced, with nobody waiting for it.
\<close>

theorem extent_discard_uncaches:
  assumes "tp_wf cc" and "page_aligned (cfg cc) addr"
    and "pages = (\<lambda>i. addr + of_nat i * io_page_size (cfg cc)) ` {..<pages_per_extent (cfg cc)}"
  shows "(\<forall>cc'. treepass_extent_discard cc fuel tid addr t = Inr cc' \<longrightarrow>
      tp_wf cc' \<and> refcount cc' = refcount cc \<and>
      (\<forall>a\<in>pages. treepass_lookup cc' a = TP_UNMAPPED_ENTRY \<and> page_view cc' a = disk cc' a) \<and>
      (\<forall>b. page_aligned (cfg cc) b \<and> b \<notin> pages \<longrightarrow> page_view cc' b = page_view cc b)) \<and>
    (fuel > 0 \<and> (\<forall>a\<in>pages. \<forall>e. treepass_lookup cc a = e \<and> e \<noteq> TP_UNMAPPED_ENTRY \<longrightarrow>
        treepass_test_flag cc e TP_CLAIMED = 0 \<and> treepass_test_flag cc e TP_WRITELOCKED = 0 \<and>
        treepass_test_flag cc e TP_LOADING = 0 \<and> treepass_test_flag cc e TP_WRITEBACK = 0 \<and>
        waiters (entry cc e) = [] \<and> (\<forall>thr<TP_RC_WIDTH. treepass_get_ref cc e thr = 0)) \<longrightarrow>
      (\<exists>cc'. treepass_extent_discard cc fuel tid addr t = Inr cc'))"
proof -
  have p: "pages = extent_pages (cfg cc) addr (pages_per_extent (cfg cc))"
    by (simp add: assms(3) extent_pages_def)
  have "\<exists>cc'. treepass_extent_discard cc fuel tid addr t = Inr cc'"
    if "fuel > 0" "\<forall>a\<in>pages. idle_page cc a"
    using extent_discard_returns [OF assms(1,2), of "fuel - 1" tid t] that by (simp add: p)
  then show ?thesis
    using extent_discard_effect [OF assms(1,2), of fuel tid t]
    unfolding idle_page_def idle_entry_def unreferenced_def flag_simps discarded_def p [symmetric] Let_def
    by blast
qed

theorem extent_discard_uncaches_witness:
  "\<exists>cc'. treepass_extent_discard demo 1 0 0 PAGE_TYPE_TRUNK = Inr cc' \<and>
     treepass_lookup cc' 0 = TP_UNMAPPED_ENTRY \<and> treepass_lookup cc' 4096 = TP_UNMAPPED_ENTRY \<and>
     page_view demo 4096 = 99 \<and> page_view cc' 4096 = disk cc' 4096"
proof -
  have pg: "(\<lambda>i. 0 + of_nat i * io_page_size (cfg demo)) ` {..<pages_per_extent (cfg demo)} = {0, 4096}"
    by (auto simp: lessThan_nat_numeral)
  note d = extent_discard_uncaches [OF demo_wf _ pg [symmetric], of 1 0 PAGE_TYPE_TRUNK]
  obtain cc' where c: "treepass_extent_discard demo 1 0 0 PAGE_TYPE_TRUNK = Inr cc'"
    using d by (auto simp: treepass_get_ref_def flag_simps)
  show ?thesis using d c by (auto simp: page_view_def)
qed

end
