(* ===== verification/TpPolicy.thy ===== *)
theory TpPolicy
  imports TpProperties
begin

text \<open>
  The properties of the cache's replacement policy and of its background work: which pages are
  evicted, the clock and the eviction interval, the hand, free pages, writeback, prefetch, the
  reference counters, and the initial state.
\<close>

section \<open>Clock arithmetic\<close>

lemma inc_clock_value:
  assumes "unat (status_clock s) < 7"
  shows "unat (status_clock (s + TP_CLOCK_ONE)) = Suc (unat (status_clock s))"
proof -
  have "unat (s + TP_CLOCK_ONE) = (unat s + 64) mod 2 ^ 32"
    by (simp add: unat_word_ariths tp_clock_consts)
  moreover have "x mod 2 ^ 32 div 64 mod 8 = x div 64 mod (8::nat)" for x
  proof -
    have "x mod (64 * 67108864) div 64 = x div 64 mod 67108864" by (simp only: mod_mult2_eq)
    then show ?thesis by (simp add: mod_mod_cancel)
  qed
  moreover have "(unat s + 64) div 64 = Suc (unat s div 64)" by simp
  ultimately have "unat (s + TP_CLOCK_ONE) div 64 mod 8 = Suc (unat s div 64) mod 8" by simp
  then show ?thesis using assms unfolding unat_status_clock by (simp add: mod_Suc)
qed

lemma inc_clock_flags:
  "(s + TP_CLOCK_ONE) AND TP_CLEANABLE_BASE_MASK = s AND TP_CLEANABLE_BASE_MASK"
proof -
  have m: "TP_CLEANABLE_BASE_MASK = mask 6"
    by (simp add: TP_CLEANABLE_BASE_MASK_def tp_flags mask_eq_exp_minus_1)
  show ?thesis
    by (rule bit_eqI) (auto simp: m bit_and_iff bit_mask_iff bit_add_high [OF _ take_bit_clock_one])
qed

lemma get_set_clock:
  assumes "v \<le> TP_CLOCK_MAX"
  shows "treepass_get_clock (treepass_set_clock cc e v) e = v"
proof -
  have v: "take_bit 3 v = v" using assms
    by (simp add: word_unat_eq_iff unsigned_take_bit_eq word_le_nat_alt) (simp add: take_bit_eq_mod)
  have "status_clock (s AND NOT TP_CLOCK_MASK OR push_bit TP_CLOCK_SHIFT v) = v" for s
  proof (rule bit_eqI)
    fix n show "bit (status_clock (s AND NOT TP_CLOCK_MASK OR push_bit TP_CLOCK_SHIFT v)) n = bit v n"
      using arg_cong [OF v, of "\<lambda>w. bit w n"]
      by (auto simp: bit_status_clock bit_or_iff bit_clear_flag bit_clock_mask bit_push_bit_iff
          TP_CLOCK_SHIFT_def bit_take_bit_iff dest: bit_imp_le_length)
  qed
  then show ?thesis
    using assms by (auto simp: treepass_set_clock_def treepass_get_clock_def treepass_get_status_def Let_def)
qed

lemma get_clock_entry_time [simp]:
  "treepass_get_clock (upd_entry cc e (entry_time_update f)) i = treepass_get_clock cc i"
  by (simp add: treepass_get_clock_def treepass_get_status_def)

lemma evict_batch_ei_cfg: "cfg (evict_batch_ei cc) = cfg cc"
  by (simp add: evict_batch_ei_def platform_get_timestamp_def Let_def)

section \<open>Eviction\<close>

text \<open>
  C22. What \<open>treepass_try_evict\<close> decides, with nothing running in between: an early-eviction pass
  spares pages with an entry time, a normal pass takes one tick from a page whose clock is not
  zero, and otherwise the page is evicted exactly when it is clean, idle, unpinned and
  unreferenced by every group of threads; it is then unmapped and its entry free. The memory
  and all reference counts stay as they are.
\<close>

theorem try_evict_decision:
  assumes "tp_wf cc" and "e < page_capacity (cfg cc)"
    and "treepass_try_evict cc tid e ee_pass = Inr (evicted, cc')"
  shows "tp_pres cc cc' \<and> refcount cc' = refcount cc \<and>
    (if ee_pass \<and> entry_time (entry cc e) \<noteq> 0 then \<not> evicted \<and> cc' = cc
     else if \<not> ee_pass \<and> treepass_get_clock cc e \<noteq> 0
     then \<not> evicted \<and> cc' = upd_entry cc e (status_update (\<lambda>s. s - TP_CLOCK_ONE))
     else if status (entry cc e) = TP_EVICTABLE_STATUS \<and> treepass_get_pin cc e = 0 \<and>
             (\<forall>thr<TP_RC_WIDTH. treepass_get_ref cc e thr = 0)
     then evicted \<and> status (entry cc' e) = TP_FREE_STATUS \<and>
          treepass_lookup cc' (disk_addr (entry cc e)) = TP_UNMAPPED_ENTRY
     else \<not> evicted \<and> cc' = cc)"
proof -
  have clk: "treepass_get_clock cc e = status_clock (status (entry cc e))"
    by (simp add: treepass_get_clock_def treepass_get_status_def)
  have ev: "evictable cc e \<longleftrightarrow> status (entry cc e) = TP_EVICTABLE_STATUS \<and> treepass_get_pin cc e = 0 \<and>
      (\<forall>thr<TP_RC_WIDTH. treepass_get_ref cc e thr = 0)"
    by (simp add: evictable_def unreferenced_def)
  show ?thesis
    using assms(3) pres_try_evict [OF assms] try_evict_fields(4) [OF assms]
    unfolding clk ev [symmetric] try_evict_eq [OF assms(1,2)]
    by (auto split: if_splits)
qed

theorem try_evict_decision_witness:
  "\<exists>cc'. treepass_try_evict demo 2 0 True = Inr (False, cc') \<and> cc' = demo"
proof -
  have e: "entry_time (entry demo 0) \<noteq> 0" by (simp add: demo_entry_def)
  then have t: "treepass_try_evict demo 2 0 True = Inr (False, demo)"
    by (simp add: try_evict_eq [OF demo_wf])
  show ?thesis using try_evict_decision [OF demo_wf _ t] t e by simp
qed

text \<open>
  C30. \<open>treepass_evict_all\<close> frees every entry that is clean, idle, unpinned and unreferenced,
  whatever its clock, and keeps the memory, all references and all pins.
\<close>

theorem evict_all_frees_idle:
  assumes "tp_wf cc" and "treepass_evict_all cc tid ignore_pinned = Inr cc'"
  shows "tp_pres cc cc' \<and> refcount cc' = refcount cc \<and> pincount cc' = pincount cc \<and>
    (\<forall>e<page_capacity (cfg cc). \<forall>k<8.
       status (entry cc e) = TP_EVICTABLE_STATUS + of_nat k * TP_CLOCK_ONE \<and>
       treepass_get_pin cc e = 0 \<and> (\<forall>thr<TP_RC_WIDTH. treepass_get_ref cc e thr = 0) \<longrightarrow>
       treepass_test_flag cc' e TP_FREE \<noteq> 0)"
  using evict_all_effect(1) [OF assms] evict_all_effect(2) [OF assms]
  by (auto simp: evict_rel_def idle_clean_def unreferenced_def flag_simps)

theorem evict_all_frees_idle_witness:
  "\<exists>cc'. treepass_evict_all demo 1 True = Inr cc' \<and> treepass_test_flag cc' 0 TP_FREE \<noteq> 0 \<and>
     page_view cc' 0 = 7"
proof -
  obtain cc' where ev: "treepass_evict_all demo 1 True = Inr cc'" using demo_evict_all by blast
  note f = evict_all_frees_idle [OF demo_wf ev]
  have "treepass_test_flag cc' 0 TP_FREE \<noteq> 0"
    by (rule f [THEN conjunct2, THEN conjunct2, THEN conjunct2, rule_format, of 0 3])
      (use demo_idle in \<open>auto simp: idle_clean_def unreferenced_def\<close>)
  moreover have "page_view cc' 0 = page_view demo 0"
    using f by (intro tp_pres_view) auto
  ultimately show ?thesis using ev by (simp add: page_view_def)
qed

text \<open>
  C31. \<open>treepass_move_hand\<close> does not spin as long as one batch is held by no other thread: two
  turns of the hand reach one. When it returns, the thread has released the batch it held and
  holds exactly one batch, which nobody held; the batches of the other threads are as before,
  and so are the memory and all reference counts.
\<close>

theorem move_hand_finds_batch:
  assumes "tp_wf cc" and "b < batch_capacity (cfg cc)" and "\<not> released b"
    and "released = (if free_hand cc tid = TP_UNMAPPED_ENTRY then batch_busy cc
      else (batch_busy cc)(free_hand cc tid := False))"
  shows "treepass_move_hand cc tid num_passes \<noteq> Inl Blocked \<and>
    (\<forall>np cc'. treepass_move_hand cc tid num_passes = Inr (np, cc') \<longrightarrow>
       free_hand cc' tid < batch_capacity (cfg cc) \<and> \<not> released (free_hand cc' tid) \<and>
       batch_busy cc' = released(free_hand cc' tid := True) \<and>
       (\<forall>u. u \<noteq> tid \<longrightarrow> free_hand cc' u = free_hand cc u) \<and>
       tp_pres cc cc' \<and> refcount cc' = refcount cc)"
proof -
  have r: "released = batch_busy (release_batch cc tid)" by (simp add: assms(4) release_batch_def)
  show ?thesis
    using move_hand_live [OF assms(1,2) assms(3) [unfolded r]] move_hand_effect [OF assms(1)]
    unfolding r by auto
qed

theorem move_hand_finds_batch_witness:
  "\<exists>cc'. treepass_move_hand demo_held 0 0 = Inr (0, cc') \<and> free_hand cc' 0 = 0 \<and> batch_busy cc' 0"
proof -
  obtain np cc' where m: "treepass_move_hand demo_held 0 0 = Inr (np, cc')" using demo_move_hand by blast
  have "free_hand cc' 0 = 0 \<and> batch_busy cc' 0"
    using move_hand_finds_batch [OF demo_held_wf, of 0 _ 0 0, OF _ _ refl] m by auto
  moreover have "np = 0" using m by (rule move_hand_parts)
  ultimately show ?thesis using m by simp
qed

text \<open>
  C32. A thread whose batch holds a free entry gets the first free entry of that batch at once,
  without moving the hand, waiting or I/O: the entry gets the status and the page type asked
  for and, when asked, one reference of the thread; nothing else in the cache changes.
\<close>

theorem free_page_from_own_batch:
  assumes "tp_wf cc" and "free_hand cc tid < batch_capacity (cfg cc)"
    and "e < page_capacity (cfg cc)" and "e div TP_ENTRIES_PER_BATCH = free_hand cc tid"
    and "status (entry cc e) = TP_FREE_STATUS"
  shows "\<exists>i<page_capacity (cfg cc). i div TP_ENTRIES_PER_BATCH = free_hand cc tid \<and>
    status (entry cc i) = TP_FREE_STATUS \<and>
    (\<forall>j<i. j div TP_ENTRIES_PER_BATCH = free_hand cc tid \<longrightarrow> status (entry cc j) \<noteq> TP_FREE_STATUS) \<and>
    treepass_get_free_page cc (Suc fuel) tid st t ref blocking =
      Inr (i, upd_entry (if ref then treepass_inc_ref cc i tid else cc) i
                (\<lambda>ent. ent\<lparr>status := st, ptype := t\<rparr>))"
  using get_free_page_now [OF assms] unfolding taken_def ref_if_def by blast

theorem free_page_from_own_batch_witness:
  "\<exists>cc'. treepass_get_free_page demo (Suc 0) 0 TP_ALLOC_STATUS PAGE_TYPE_TRUNK True True = Inr (2, cc') \<and>
     status (entry cc' 2) = TP_ALLOC_STATUS \<and> ptype (entry cc' 2) = PAGE_TYPE_TRUNK \<and>
     treepass_get_ref cc' 2 0 = 1 \<and> entry cc' 1 = entry demo 1"
proof -
  have "status (demo_entry 2) = TP_FREE_STATUS" by (simp add: demo_entry_free)
  then obtain i where i: "i < 64" "i div 64 = 0" "status (demo_entry i) = TP_FREE_STATUS"
      "\<forall>j<i. j div 64 = 0 \<longrightarrow> status (demo_entry j) \<noteq> TP_FREE_STATUS"
    and g: "treepass_get_free_page demo (Suc 0) 0 TP_ALLOC_STATUS PAGE_TYPE_TRUNK True True =
      Inr (i, upd_entry (treepass_inc_ref demo i 0) i
        (\<lambda>ent. ent\<lparr>status := TP_ALLOC_STATUS, ptype := PAGE_TYPE_TRUNK\<rparr>))"
    using free_page_from_own_batch [OF demo_wf, of 0 2 0 TP_ALLOC_STATUS PAGE_TYPE_TRUNK True True]
    by (auto simp: TP_ENTRIES_PER_BATCH_def)
  have "\<not> 2 < i" using i(4) \<open>status (demo_entry 2) = TP_FREE_STATUS\<close> by auto
  moreover have "i \<noteq> 0" "i \<noteq> 1" using i(3) demo_not_free by (metis One_nat_def)+
  ultimately have "i = 2" by simp
  then show ?thesis
    using g get_ref_inc [of demo 2 2 0 0] demo_cfg_wf by (simp add: treepass_get_ref_def)
qed

section \<open>Clock and eviction interval\<close>

text \<open>
  C39. An access raises the clock by one up to its maximum 7 and never touches the six state
  flags, however often it happens.
\<close>

theorem clock_saturates:
  "unat (treepass_get_clock (treepass_set_clock_accessed cc e) e) =
     min 7 (Suc (unat (treepass_get_clock cc e))) \<and>
   treepass_get_status (treepass_set_clock_accessed cc e) e AND TP_CLEANABLE_BASE_MASK =
     treepass_get_status cc e AND TP_CLEANABLE_BASE_MASK"
proof (cases "status_clock (status (entry cc e)) < TP_CLOCK_MAX")
  case True
  then have "unat (status_clock (status (entry cc e))) < 7" by (simp add: word_less_nat_alt)
  then show ?thesis
    using True inc_clock_value [of "status (entry cc e)"] inc_clock_flags [of "status (entry cc e)"]
    by (simp add: treepass_set_clock_accessed_def treepass_get_clock_def treepass_get_status_def)
next
  case False
  then have "unat (status_clock (status (entry cc e))) = 7"
    using status_clock_le [of "status (entry cc e)"] by (simp add: word_less_nat_alt word_le_nat_alt)
  then show ?thesis
    using False by (simp add: treepass_set_clock_accessed_def treepass_get_clock_def treepass_get_status_def)
qed

text \<open>
  Inheriting a clock gives the new page the old page's clock divided by the divisor, or 1
  when the old page is not cached, and the old page's entry time; the memory stays as it is.
\<close>

theorem inherit_clock_value:
  assumes "tp_wf cc" and "treepass_lookup cc new_addr \<noteq> TP_UNMAPPED_ENTRY"
  shows "treepass_get_clock (treepass_inherit_clock cc old_addr new_addr divisor) (treepass_lookup cc new_addr) =
     (if treepass_lookup cc old_addr = TP_UNMAPPED_ENTRY then 1
      else if divisor > 1 then treepass_get_clock cc (treepass_lookup cc old_addr) div divisor
      else treepass_get_clock cc (treepass_lookup cc old_addr)) \<and>
    tp_pres cc (treepass_inherit_clock cc old_addr new_addr divisor)"
proof -
  let ?old = "treepass_get_clock cc (treepass_lookup cc old_addr)"
  have le: "?old \<le> TP_CLOCK_MAX" by (simp add: treepass_get_clock_def status_clock_le)
  moreover have "?old div divisor \<le> ?old" by (simp add: word_le_nat_alt unat_div)
  ultimately have "?old div divisor \<le> TP_CLOCK_MAX" by order
  moreover have "1 \<le> TP_CLOCK_MAX" by (simp add: word_le_nat_alt)
  ultimately have "treepass_get_clock (treepass_inherit_clock cc old_addr new_addr divisor)
      (treepass_lookup cc new_addr) =
     (if treepass_lookup cc old_addr = TP_UNMAPPED_ENTRY then 1
      else if divisor > 1 then ?old div divisor else ?old)"
    using le assms(2) by (simp add: treepass_inherit_clock_def get_set_clock Let_def)
  then show ?thesis using pres_inherit_clock [OF assms(1)] by blast
qed

theorem inherit_clock_value_witness:
  "treepass_get_clock (treepass_inherit_clock demo 0 4096 2) 1 = 1"
proof -
  have "treepass_get_clock demo 0 = 3"
    by (simp add: treepass_get_clock_def treepass_get_status_def demo_entry_def status_clock_def
        tp_statuses tp_flags tp_clock_consts)
  then show ?thesis using inherit_clock_value [OF demo_wf, of 4096 0 2] by simp
qed

text \<open>
  C38. The eviction interval stops adapting: once it has been updated at the last sweep that the
  32-bit batch counter can count, no later sweep ever updates it, because after the counter
  wraps every sweep number is at most the recorded one.
\<close>

theorem eviction_interval_freezes:
  assumes "tp_cfg_wf (cfg cc)"
    and "unat (last_ei_check_cycle cc) = (2 ^ 32 - 1) div batch_capacity (cfg cc)"
  shows "evict_interval_thre ((evict_batch_ei ^^ n) cc) = evict_interval_thre cc"
proof -
  have "cfg ((evict_batch_ei ^^ n) cc) = cfg cc \<and>
    last_ei_check_cycle ((evict_batch_ei ^^ n) cc) = last_ei_check_cycle cc \<and>
    evict_interval_thre ((evict_batch_ei ^^ n) cc) = evict_interval_thre cc"
  proof (induction n)
    case (Suc n)
    then show ?case using ei_frozen [of "(evict_batch_ei ^^ n) cc"] assms by (simp add: evict_batch_ei_cfg)
  qed simp
  then show ?thesis by simp
qed

theorem eviction_interval_freezes_witness:
  "evict_interval_thre ((evict_batch_ei ^^ 5) (demo\<lparr>last_ei_check_cycle := 4294967295\<rparr>)) = EI_NOT_READY"
  by (subst eviction_interval_freezes) (simp_all add: demo_cfg_wf, simp add: demo_def)

section \<open>Background writes and reads\<close>

text \<open>
  C33. Starting the writeback of a batch does not get stuck walking over neighbouring pages.
  When it returns, every entry of the batch that was dirty, idle, cold enough for this pass and
  (in the passes that clean branch pages only) a branch page is marked \<open>TP_WRITEBACK\<close> and is in
  a submitted request; any entry that changed only got that mark and is in a request; and no
  entry is in two places of the requests, so each page is written once. The memory is kept.
\<close>

theorem writeback_terminates:
  assumes "tp_wf cc" and "b < batch_capacity (cfg cc)"
  shows "treepass_batch_start_writeback cc tid b num_passes \<noteq> Inl Blocked \<and>
    (\<forall>cc'. treepass_batch_start_writeback cc tid b num_passes = Inr cc' \<longrightarrow>
       tp_pres cc cc' \<and> distinct (concat (map rq_iovec (inflight cc'))) \<and>
       (\<forall>e. e div TP_ENTRIES_PER_BATCH = b \<and> status (entry cc e) AND TP_CLEANABLE_BASE_MASK = 0 \<and>
          treepass_get_clock cc e \<le> num_passes \<and>
          (num_passes = 0 \<or> TP_CLOCK_MAX \<le> num_passes \<or> ptype (entry cc e) = PAGE_TYPE_BRANCH) \<longrightarrow>
          treepass_test_flag cc' e TP_WRITEBACK \<noteq> 0 \<and> e \<in> inflight_entries cc') \<and>
       (\<forall>e. entry cc' e = entry cc e \<or>
          entry cc' e = status_update (\<lambda>s. s OR TP_WRITEBACK) (entry cc e) \<and> e \<in> inflight_entries cc'))"
proof -
  have "tp_pres cc cc' \<and> distinct (concat (map rq_iovec (inflight cc'))) \<and>
       (\<forall>e. e div TP_ENTRIES_PER_BATCH = b \<and> writable cc num_passes e \<longrightarrow> writing cc' e) \<and>
       (\<forall>e. entry cc' e = entry cc e \<or>
          entry cc' e = status_update (\<lambda>s. s OR TP_WRITEBACK) (entry cc e) \<and> writing cc' e)"
    if r: "treepass_batch_start_writeback cc tid b num_passes = Inr cc'" for cc'
  proof -
    note w = batch_writeback_effect [OF assms r]
    have "tp_wf cc'" using w(1) by (auto simp: write_step_def dest: tp_pres_wf)
    then show ?thesis using w by (simp add: write_step_def tp_wf_def tp_inflight_ok_def)
  qed
  then show ?thesis
    using batch_writeback_not_Blocked [OF assms]
    by (auto simp: writable_def writing_def treepass_get_clock_def treepass_get_status_def flag_simps)
qed

theorem writeback_terminates_witness:
  "\<exists>cc'. treepass_batch_start_writeback demo 3 0 TP_CLOCK_MAX = Inr cc' \<and>
     treepass_test_flag cc' 1 TP_WRITEBACK \<noteq> 0 \<and> 1 \<in> inflight_entries cc'"
proof -
  obtain cc' where w: "treepass_batch_start_writeback demo 3 0 TP_CLOCK_MAX = Inr cc'"
    using demo_written by blast
  have "treepass_test_flag cc' 1 TP_WRITEBACK \<noteq> 0 \<and> 1 \<in> inflight_entries cc'"
    by (rule writeback_terminates [OF demo_wf, of 0 3 TP_CLOCK_MAX, THEN conjunct2, rule_format, OF _ w,
          THEN conjunct2, THEN conjunct2, THEN conjunct1, rule_format])
      (simp_all add: TP_ENTRIES_PER_BATCH_def treepass_get_clock_def status_clock_le flag_simps)
  then show ?thesis using w by blast
qed

text \<open>
  C34. A blocking \<open>treepass_page_sync\<close> of a loaded page that returns has put the page's contents
  on the device, and the entry is clean.
\<close>

theorem page_sync_writes_page:
  assumes "tp_wf cc" and "e < page_capacity (cfg cc)" and "disk_addr (entry cc e) \<noteq> TP_UNMAPPED_ADDR"
    and "treepass_test_flag cc e TP_LOADING = 0"
    and "treepass_page_sync cc tid e True t = Inr cc'"
  shows "disk cc' (disk_addr (entry cc e)) = page_data (entry cc e) \<and>
    treepass_test_flag cc' e TP_CLEAN \<noteq> 0 \<and> tp_pres cc cc'"
proof -
  let ?a = "disk_addr (entry cc e)"
  have ld: "\<not> st_loading (status (entry cc e))" using assms(4) by (simp add: flag_simps)
  obtain b cc1 where m: "treepass_try_set_writeback cc e TP_CLOCK_MAX = Inr (b, cc1)"
    using assms(5) by (auto simp: treepass_page_sync_def Let_def elim!: obind_InrE)
  have "disk cc' ?a = page_data (entry cc e) \<and> st_clean (status (entry cc' e))"
  proof (cases b)
    case True
    then have "cc1 = upd_entry cc e (status_update (\<lambda>s. s OR TP_WRITEBACK))"
      using try_set_writeback_cases [OF m] by simp
    then show ?thesis
      using assms(5) m True
      by (auto simp: treepass_page_sync_def io_write_def flag_ops flag_simps Let_def split: if_splits)
  next
    case False
    then have "cc1 = cc" using try_set_writeback_cases [OF m] by simp
    then show ?thesis
      using assms(5) m False tp_wf_entryD(7) [OF assms(1-3)] ld
      by (auto simp: treepass_page_sync_def flag_simps Let_def split: if_splits)
  qed
  then show ?thesis
    using pres_treepass_page_sync [OF assms(1,2,5)] by (simp add: flag_simps)
qed

theorem page_sync_writes_page_witness:
  "\<exists>cc'. treepass_page_sync demo 1 (Suc 0) True PAGE_TYPE_BRANCH = Inr cc' \<and> disk cc' 4096 = 99"
proof -
  obtain cc' where s: "treepass_page_sync demo 1 (Suc 0) True PAGE_TYPE_BRANCH = Inr cc'"
    using demo_page_sync by blast
  show ?thesis using page_sync_writes_page [OF demo_wf _ _ _ s] s by (simp add: flag_simps)
qed

text \<open>
  C35. Completions may arrive at any time and in any order: processing one, whichever request it
  is for, keeps the invariant and the memory. The pages of a completed write are clean and no
  longer in writeback, those of a completed read no longer loading, and the status of every
  other entry is as before.
\<close>

theorem completion_keeps_memory:
  assumes "tp_wf cc" and "treepass_wait (cc\<lparr>reap := ev # evs\<rparr>) = Inr cc'" and "page_aligned (cfg cc) a"
  shows "tp_wf cc' \<and> page_view cc' a = page_view cc a \<and>
    (fst ev < length (inflight cc) \<longrightarrow>
      (\<forall>e. if e \<notin> set (rq_iovec (inflight cc ! fst ev)) then status (entry cc' e) = status (entry cc e)
        else case rq_cmd (inflight cc ! fst ev) of
          IO_PWRITEV \<Rightarrow> treepass_test_flag cc' e TP_CLEAN \<noteq> 0 \<and> treepass_test_flag cc' e TP_WRITEBACK = 0
        | IO_PREADV \<Rightarrow> treepass_test_flag cc' e TP_LOADING = 0))"
proof -
  have p: "tp_pres cc (cc\<lparr>reap := evs\<rparr>)" by (rule pres_fields(4) [OF assms(1)])
  have r: "io_reap ev (cc\<lparr>reap := evs\<rparr>) = Inr cc'" using assms(2) by (simp add: treepass_wait_def)
  note f = flush_step_io_reap [OF tp_pres_wf [OF p] r]
  then have "tp_pres cc cc'" using p by (auto simp: flush_step_def intro: tp_pres_trans)
  then show ?thesis
    using f assms(3)
    by (auto simp: tp_pres_wf tp_pres_view completed_def flag_simps Let_def split: io_cmd.splits)
qed

theorem completion_keeps_memory_witness:
  "\<exists>cc cc'. treepass_batch_start_writeback demo 3 0 TP_CLOCK_MAX = Inr cc \<and> inflight cc = [demo_rq] \<and>
     disk cc 4096 = 1 \<and> treepass_wait cc = Inr cc' \<and> inflight cc' = [] \<and> disk cc' 4096 = 99 \<and>
     page_view cc' 4096 = 99 \<and> treepass_test_flag cc' 1 TP_CLEAN \<noteq> 0"
proof (rule demo_written)
  fix cc assume s: "treepass_batch_start_writeback demo 3 0 TP_CLOCK_MAX = Inr cc" and p: "tp_pres demo cc"
    and c: "inflight cc = [demo_rq]" "reap cc = [(0, True), (0, True)]" "disk cc = demo_disk"
    and "\<exists>cc'. treepass_wait cc = Inr cc' \<and> inflight cc' = [] \<and> disk cc' 4096 = 99"
  then obtain cc' where w: "treepass_wait cc = Inr cc'" "inflight cc' = []" "disk cc' 4096 = 99" by blast
  have w': "treepass_wait (cc\<lparr>reap := [(0, True), (0, True)]\<rparr>) = Inr cc'"
    using w(1) by (simp add: c(2) [symmetric])
  have al: "page_aligned (cfg cc) 4096" using tp_pres_cfg [OF p] by simp
  note k = completion_keeps_memory [OF tp_pres_wf [OF p] w' al]
  have "page_view cc 4096 = 99" using tp_pres_view [OF p, of 4096] by (simp add: page_view_def)
  then have v: "page_view cc' 4096 = 99" using k by simp
  have "treepass_test_flag cc' 1 TP_CLEAN \<noteq> 0"
    using k [THEN conjunct2, THEN conjunct2, rule_format, of 1] by (simp add: c(1) demo_rq_def)
  with v show ?thesis using s c w by (auto simp: demo_disk_def)
qed

text \<open>
  A prefetch of an extent changes neither the memory nor any reference count.
\<close>

theorem prefetch_keeps_memory:
  assumes "tp_wf cc" and "hands_ok cc" and "page_aligned (cfg cc) base"
    and "treepass_prefetch cc fuel tid base t = Inr cc'" and "page_aligned (cfg cc) a"
  shows "tp_wf cc' \<and> page_view cc' a = page_view cc a \<and> refcount cc' = refcount cc"
  using prefetch_effect [OF assms(1-4)] assms(5) by (auto dest: tp_pres_wf tp_pres_view)

theorem prefetch_keeps_memory_witness:
  "\<exists>cc'. treepass_prefetch demo 3 0 0 PAGE_TYPE_TRUNK = Inr cc' \<and> page_view cc' 4096 = 99"
proof -
  have "\<exists>cc'. treepass_prefetch demo 3 0 0 PAGE_TYPE_TRUNK = Inr cc'"
    by (simp add: treepass_prefetch_def numeral_3_eq_3 prefetch_page_def treepass_try_get_read_def
        treepass_multiply_by_page_size_def treepass_lookup_def prefetch_issue_def Let_def flag_simps)
  then obtain cc' where p: "treepass_prefetch demo 3 0 0 PAGE_TYPE_TRUNK = Inr cc'" by blast
  have "page_view cc' 4096 = page_view demo 4096"
    using prefetch_keeps_memory [OF demo_wf demo_hands _ p] by simp
  then show ?thesis using p by (simp add: page_view_def)
qed

section \<open>Reference counts and the initial state\<close>

text \<open>
  The striped reference counters do not interfere: taking a reference changes the counter
  of that entry and that group of threads, and no other, whatever the cache's geometry.
\<close>

theorem refcounts_independent:
  assumes "tp_cfg_wf (cfg cc)" and "e < page_capacity (cfg cc)" and "e' < page_capacity (cfg cc)"
  shows "treepass_get_ref (treepass_inc_ref cc e t) e' t' =
    (if e' = e \<and> t' mod TP_RC_WIDTH = t mod TP_RC_WIDTH
     then treepass_get_ref cc e' t' + 1 else treepass_get_ref cc e' t')"
  by (rule get_ref_inc [OF assms])

theorem refcounts_independent_witness:
  "treepass_get_ref (treepass_inc_ref demo 1 6) 1 2 = 1 \<and> treepass_get_ref (treepass_inc_ref demo 1 6) 2 2 = 0"
  using refcounts_independent [of demo 1 1 6 2] refcounts_independent [of demo 1 2 6 2] demo_cfg_wf
  by (simp add: TP_RC_WIDTH_def treepass_get_ref_def)

text \<open>
  C37. \<open>treepass_init\<close> gives a cache that satisfies the invariant, shows the device's contents,
  and has no reference to any page.
\<close>

theorem init_establishes_invariant:
  assumes "0 < k" and "k < 64"
    and "c = treepass_config_init (2 ^ k) ext emask cap stats_on ewma" and "0 < page_capacity c"
    and "treepass_init c True d0 dsk evs ok clk = Inr (Some cc)"
  shows "tp_wf cc \<and> hands_ok cc \<and> page_view cc = dsk \<and> inflight cc = [] \<and>
    (\<forall>e. \<forall>thr<TP_RC_WIDTH. treepass_get_ref cc e thr = 0)"
  using init_wf [OF assms] by (simp add: unreferenced_def)

theorem init_establishes_invariant_witness:
  "\<exists>cc. treepass_init (treepass_config_init 4096 8192 (NOT 8191) 262144 True (\<lambda>sweep old. sweep)) True (0::nat)
     demo_disk [] (\<lambda>_. True) of_nat = Inr (Some cc) \<and> page_view cc 0 = 7"
proof -
  let ?c = "treepass_config_init 4096 8192 (NOT 8191) 262144 True (\<lambda>sweep old. sweep)"
  obtain cc where i: "treepass_init ?c True (0::nat) demo_disk [] (\<lambda>_. True) of_nat = Inr (Some cc)"
    using demo_init by blast
  have "page_view cc = demo_disk"
    using init_establishes_invariant [OF _ _ _ _ i, of 12 8192 "NOT 8191" 262144 True "\<lambda>sweep old. sweep"]
    by (simp add: treepass_config_init_def)
  with i show ?thesis by (simp add: demo_disk_def)
qed

end
