(* ===== verification/BtData.thy ===== *)
theory BtData
  imports Prelude
begin

text \<open>
  Keys, messages and their form on disk (\<open>splinterdb/src/data_internal.h\<close>, \<open>data_internal.c\<close>,
  \<open>util.h\<close>, \<open>default_data_config.c\<close>, \<open>include/splinterdb/data.h\<close>).

  A slice is the list of its bytes, so lengths are naturals: the length of an object in memory
  is below \<open>2 ^ 64\<close>. A page is a function from byte offsets to bytes; the fields of a structure
  in it are read and written little-endian, as on the machines the program is built for. A
  negative, zero or positive \<open>int\<close> is an \<open>int\<close>. The user's callbacks for merging are fields of
  \<open>data_config\<close>; \<open>None\<close> is the null pointer, which stops the process when it is called.
\<close>

section \<open>Bytes of a page\<close>

type_synonym bytes = "nat \<Rightarrow> u8"

definition get_bytes :: "bytes \<Rightarrow> nat \<Rightarrow> nat \<Rightarrow> u8 list" where
  "get_bytes m p n = map (\<lambda>i. m (p + i)) [0..<n]"

definition put_bytes :: "bytes \<Rightarrow> nat \<Rightarrow> u8 list \<Rightarrow> bytes" where
  "put_bytes m p bs = (\<lambda>i. if p \<le> i \<and> i < p + length bs then bs ! (i - p) else m i)"

definition le_bytes :: "nat \<Rightarrow> 'a::len word \<Rightarrow> u8 list" where
  "le_bytes n v = map (\<lambda>i. ucast (drop_bit (8 * i) v)) [0..<n]"

fun of_le :: "u8 list \<Rightarrow> 'a::len word" where
  "of_le [] = 0"
| "of_le (b # bs) = ucast b OR push_bit 8 (of_le bs)"

definition get16 :: "bytes \<Rightarrow> nat \<Rightarrow> u16" where "get16 m p = of_le (get_bytes m p 2)"
definition put16 :: "bytes \<Rightarrow> nat \<Rightarrow> u16 \<Rightarrow> bytes" where "put16 m p v = put_bytes m p (le_bytes 2 v)"
definition get32 :: "bytes \<Rightarrow> nat \<Rightarrow> u32" where "get32 m p = of_le (get_bytes m p 4)"
definition put32 :: "bytes \<Rightarrow> nat \<Rightarrow> u32 \<Rightarrow> bytes" where "put32 m p v = put_bytes m p (le_bytes 4 v)"
definition get64 :: "bytes \<Rightarrow> nat \<Rightarrow> u64" where "get64 m p = of_le (get_bytes m p 8)"
definition put64 :: "bytes \<Rightarrow> nat \<Rightarrow> u64 \<Rightarrow> bytes" where "put64 m p v = put_bytes m p (le_bytes 8 v)"

section \<open>Slices\<close>

fun memcmp :: "u8 list \<Rightarrow> u8 list \<Rightarrow> int" where
  "memcmp (x # xs) (y # ys) = (if x = y then memcmp xs ys else uint x - uint y)"
| "memcmp _ _ = 0"

text \<open>The difference of the lengths is an \<open>uint64\<close> and becomes an \<open>int\<close> of 32 bits.\<close>

definition slice_lex_cmp :: "u8 list \<Rightarrow> u8 list \<Rightarrow> int" where
  "slice_lex_cmp a b =
     (let len1 = length a; len2 = length b; minlen = (if len1 < len2 then len1 else len2);
          c = memcmp (take minlen a) (take minlen b)
      in if c \<noteq> 0 then c
         else if len1 < len2 then - 1
         else sint (word_of_int (int len1 - int len2) :: 32 word))"

section \<open>Keys and messages\<close>

datatype key = NEGATIVE_INFINITY_KEY | User_Key "u8 list" | POSITIVE_INFINITY_KEY

fun key_kind :: "key \<Rightarrow> int" where
  "key_kind NEGATIVE_INFINITY_KEY = 1"
| "key_kind (User_Key _) = 2"
| "key_kind POSITIVE_INFINITY_KEY = 3"

definition key_is_user_key :: "key \<Rightarrow> bool" where
  "key_is_user_key k \<longleftrightarrow> key_kind k = 2"

fun key_data :: "key \<Rightarrow> u8 list" where
  "key_data (User_Key bs) = bs"
| "key_data _ = []"

definition key_length :: "key \<Rightarrow> nat" where
  "key_length k = (if key_is_user_key k then length (key_data k) else 0)"

datatype message_type =
  MESSAGE_TYPE_INVALID | MESSAGE_TYPE_INSERT | MESSAGE_TYPE_UPDATE | MESSAGE_TYPE_DELETE
  | MESSAGE_TYPE_PIVOT_DATA

fun message_type_code :: "message_type \<Rightarrow> u32" where
  "message_type_code MESSAGE_TYPE_INVALID = 0"
| "message_type_code MESSAGE_TYPE_INSERT = 1"
| "message_type_code MESSAGE_TYPE_UPDATE = 2"
| "message_type_code MESSAGE_TYPE_DELETE = 3"
| "message_type_code MESSAGE_TYPE_PIVOT_DATA = 1000"

definition message_type_of :: "u8 \<Rightarrow> message_type" where
  "message_type_of c = (if c = 1 then MESSAGE_TYPE_INSERT else if c = 2 then MESSAGE_TYPE_UPDATE
     else if c = 3 then MESSAGE_TYPE_DELETE else MESSAGE_TYPE_INVALID)"

record message =
  msg_type :: message_type
  msg_data :: "u8 list"

definition message_length :: "message \<Rightarrow> nat" where
  "message_length m = length (msg_data m)"

definition message_is_definitive :: "message \<Rightarrow> bool" where
  "message_is_definitive m \<longleftrightarrow> msg_type m = MESSAGE_TYPE_INSERT \<or> msg_type m = MESSAGE_TYPE_DELETE"

section \<open>The user's callbacks\<close>

text \<open>A merge answers 0 on success; the accumulator is a message that it updates.\<close>

record data_config =
  dc_key_compare :: "u8 list \<Rightarrow> u8 list \<Rightarrow> int"
  dc_merge_tuples :: "(u8 list \<Rightarrow> message \<Rightarrow> message \<Rightarrow> int \<times> message) option"
  dc_merge_tuples_final :: "(u8 list \<Rightarrow> message \<Rightarrow> int \<times> message) option"

definition default_data_config :: data_config where
  "default_data_config =
     \<lparr>dc_key_compare = slice_lex_cmp, dc_merge_tuples = None, dc_merge_tuples_final = None\<rparr>"

definition data_key_compare :: "data_config \<Rightarrow> key \<Rightarrow> key \<Rightarrow> int" where
  "data_key_compare cfg k1 k2 =
     (if key_is_user_key k1 \<and> key_is_user_key k2 then dc_key_compare cfg (key_data k1) (key_data k2)
      else key_kind k1 - key_kind k2)"

definition data_merge_tuples :: "data_config \<Rightarrow> key \<Rightarrow> message \<Rightarrow> message \<Rightarrow> (int \<times> message) outcome" where
  "data_merge_tuples cfg tuple_key old new =
     (if message_is_definitive new then Inr (0, new)
      else if msg_type old = MESSAGE_TYPE_DELETE
      then (case dc_merge_tuples_final cfg of None \<Rightarrow> Inl Abort
            | Some f \<Rightarrow> Inr (f (key_data tuple_key) new))
      else (case dc_merge_tuples cfg of None \<Rightarrow> Inl Abort
            | Some f \<Rightarrow>
                let (result, m) = f (key_data tuple_key) old new
                in Inr (result, if result \<noteq> 0 \<and> msg_type m = MESSAGE_TYPE_DELETE then m\<lparr>msg_data := []\<rparr> else m)))"

definition data_merge_tuples_final :: "data_config \<Rightarrow> key \<Rightarrow> message \<Rightarrow> (int \<times> message) outcome" where
  "data_merge_tuples_final cfg tuple_key oldest =
     (if message_is_definitive oldest then Inr (0, oldest)
      else (case dc_merge_tuples_final cfg of None \<Rightarrow> Inl Abort
            | Some f \<Rightarrow>
                let (result, m) = f (key_data tuple_key) oldest
                in Inr (result, if result \<noteq> 0 \<and> msg_type m = MESSAGE_TYPE_DELETE then m\<lparr>msg_data := []\<rparr> else m)))"

section \<open>Keys on disk\<close>

text \<open>\<open>ondisk_key\<close>: the length (2 bytes), the flags (1 byte), the bytes.\<close>

definition ONDISK_KEY_NEGATIVE_INFINITY :: u16 where "ONDISK_KEY_NEGATIVE_INFINITY = 65535"
definition ONDISK_KEY_POSITIVE_INFINITY :: u16 where "ONDISK_KEY_POSITIVE_INFINITY = 65534"
definition sizeof_ondisk_key :: nat where "sizeof_ondisk_key = 3"

definition sizeof_ondisk_key_data :: "bytes \<Rightarrow> nat \<Rightarrow> nat" where
  "sizeof_ondisk_key_data m p =
     (if get16 m p = ONDISK_KEY_NEGATIVE_INFINITY \<or> get16 m p = ONDISK_KEY_POSITIVE_INFINITY then 0
      else unat (get16 m p))"

definition ondisk_key_to_key :: "bytes \<Rightarrow> nat \<Rightarrow> key" where
  "ondisk_key_to_key m p =
     (if get16 m p = ONDISK_KEY_NEGATIVE_INFINITY then NEGATIVE_INFINITY_KEY
      else if get16 m p = ONDISK_KEY_POSITIVE_INFINITY then POSITIVE_INFINITY_KEY
      else User_Key (get_bytes m (p + sizeof_ondisk_key) (unat (get16 m p))))"

definition copy_key_to_ondisk_key :: "bytes \<Rightarrow> nat \<Rightarrow> key \<Rightarrow> bytes" where
  "copy_key_to_ondisk_key m p k =
     (let m1 = put_bytes m (p + 2) [0]
      in case k of
           User_Key bs \<Rightarrow> put_bytes (put16 m1 p (of_nat (length bs))) (p + sizeof_ondisk_key) bs
         | NEGATIVE_INFINITY_KEY \<Rightarrow> put16 m1 p ONDISK_KEY_NEGATIVE_INFINITY
         | POSITIVE_INFINITY_KEY \<Rightarrow> put16 m1 p ONDISK_KEY_POSITIVE_INFINITY)"

section \<open>Tuples on disk\<close>

text \<open>
  \<open>ondisk_tuple\<close>: the key's length (2 bytes), its flags (1), the message's length (2), the
  flags (1), the key, the message. \<open>copy_tuple_to_ondisk_tuple\<close> clears \<open>flags\<close>, which
  \<open>copy_message_to_ondisk_tuple\<close> sets again, and not \<open>key_flags\<close>.
\<close>

definition sizeof_ondisk_tuple :: nat where "sizeof_ondisk_tuple = 6"

definition odt_key_length :: "bytes \<Rightarrow> nat \<Rightarrow> nat" where "odt_key_length m p = unat (get16 m p)"
definition odt_message_length :: "bytes \<Rightarrow> nat \<Rightarrow> nat" where "odt_message_length m p = unat (get16 m (p + 3))"

definition sizeof_ondisk_tuple_data :: "bytes \<Rightarrow> nat \<Rightarrow> nat" where
  "sizeof_ondisk_tuple_data m p = odt_key_length m p + odt_message_length m p"

definition ondisk_tuple_key :: "bytes \<Rightarrow> nat \<Rightarrow> key" where
  "ondisk_tuple_key m p = User_Key (get_bytes m (p + sizeof_ondisk_tuple) (odt_key_length m p))"

definition ondisk_tuple_message_class :: "bytes \<Rightarrow> nat \<Rightarrow> message_type" where
  "ondisk_tuple_message_class m p = message_type_of (m (p + 5) AND 3)"

definition ondisk_tuple_message :: "bytes \<Rightarrow> nat \<Rightarrow> message" where
  "ondisk_tuple_message m p =
     \<lparr>msg_type = ondisk_tuple_message_class m p,
      msg_data = get_bytes m (p + sizeof_ondisk_tuple + odt_key_length m p) (odt_message_length m p)\<rparr>"

definition copy_message_to_ondisk_tuple :: "bytes \<Rightarrow> nat \<Rightarrow> message \<Rightarrow> bytes" where
  "copy_message_to_ondisk_tuple m p msg =
     (let m1 = put16 m (p + 3) (of_nat (message_length msg));
          m2 = put_bytes m1 (p + 5) [ucast (message_type_code (msg_type msg))]
      in put_bytes m2 (p + sizeof_ondisk_tuple + odt_key_length m2 p) (msg_data msg))"

definition copy_tuple_to_ondisk_tuple :: "bytes \<Rightarrow> nat \<Rightarrow> key \<Rightarrow> message \<Rightarrow> bytes" where
  "copy_tuple_to_ondisk_tuple m p k msg =
     (let m1 = put16 m p (of_nat (key_length k));
          m2 = put_bytes m1 (p + 5) [0];
          m3 = put_bytes m2 (p + sizeof_ondisk_tuple) (key_data k)
      in copy_message_to_ondisk_tuple m3 p msg)"

end
