(* ===== verification/BtLeaf.thy ===== *)
theory BtLeaf
  imports BtData
begin

text \<open>
  The leaves of a B-tree (\<open>splinterdb/src/btree.c\<close>, \<open>btree_private.h\<close>): a header with a table of
  offsets in the order of the keys, and the entries, which grow down from the end of the page.

  \<open>node_bytes\<close> are the bytes of the page at the entries, \<open>offsets\<close> the table. Both are parts of
  one page in the code: that they do not meet is the first part of the invariant
  \<open>leaf_wf\<close> of \<open>BtLeafProofs\<close>, which every operation keeps. Sizes that the code keeps in a
  \<open>uint64\<close> are naturals, what it stores in the node has the width of the field. The checks of
  \<open>debug_assert\<close> are not in the release build.
\<close>

section \<open>Nodes\<close>

record btree_hdr =
  prev_addr :: u64
  next_addr :: u64
  next_extent_addr :: u64
  generation :: u64
  height :: u8
  next_entry :: u16
  num_entries :: u16
  offsets :: "nat \<Rightarrow> u16"
  node_bytes :: bytes

record btree_config =
  bt_page_size :: nat
  bt_data_cfg :: data_config

definition sizeof_btree_hdr :: nat where "sizeof_btree_hdr = 37"
definition sizeof_table_entry :: nat where "sizeof_table_entry = 2"

definition btree_height :: "btree_hdr \<Rightarrow> u8" where
  "btree_height hdr = height hdr"

definition btree_num_entries :: "btree_hdr \<Rightarrow> nat" where
  "btree_num_entries hdr = unat (num_entries hdr)"

definition btree_get_table_entry :: "btree_hdr \<Rightarrow> nat \<Rightarrow> nat" where
  "btree_get_table_entry hdr i = unat (offsets hdr i)"

definition btree_increment_height :: "btree_hdr \<Rightarrow> btree_hdr" where
  "btree_increment_height hdr = hdr\<lparr>height := height hdr + 1\<rparr>"

definition btree_reset_node_entries :: "btree_config \<Rightarrow> btree_hdr \<Rightarrow> btree_hdr" where
  "btree_reset_node_entries cfg hdr = hdr\<lparr>num_entries := 0, next_entry := of_nat (bt_page_size cfg)\<rparr>"

definition btree_init_hdr :: "btree_config \<Rightarrow> btree_hdr \<Rightarrow> btree_hdr" where
  "btree_init_hdr cfg hdr =
     hdr\<lparr>prev_addr := 0, next_addr := 0, next_extent_addr := 0, generation := 0, height := 0,
         num_entries := 0, next_entry := of_nat (bt_page_size cfg)\<rparr>"

text \<open>The offset of \<open>&hdr->offsets[n]\<close> in the page.\<close>

definition table_end :: "nat \<Rightarrow> nat" where
  "table_end n = sizeof_btree_hdr + n * sizeof_table_entry"

definition btree_key_compare :: "btree_config \<Rightarrow> key \<Rightarrow> key \<Rightarrow> int" where
  "btree_key_compare cfg k1 k2 = data_key_compare (bt_data_cfg cfg) k1 k2"

text \<open>The bounds on keys and messages, and what the configuration of a tree checks of its page size.\<close>

definition MAX_INLINE_KEY_SIZE :: "nat \<Rightarrow> nat" where "MAX_INLINE_KEY_SIZE page_size = page_size div 8"
definition MAX_INLINE_MESSAGE_SIZE :: "nat \<Rightarrow> nat" where "MAX_INLINE_MESSAGE_SIZE page_size = 35 * page_size div 100"

definition btree_config_init :: "nat \<Rightarrow> data_config \<Rightarrow> btree_config outcome" where
  "btree_config_init page_size data_cfg =
     (let max_inline_key_size = MAX_INLINE_KEY_SIZE page_size;
          max_inline_msg_size = MAX_INLINE_MESSAGE_SIZE page_size;
          max_entry_space = sizeof_ondisk_tuple + max_inline_key_size + max_inline_msg_size + sizeof_table_entry
      in if \<not> max_entry_space < (page_size - sizeof_btree_hdr) div 2 then Inl Abort
         else Inr \<lparr>bt_page_size = page_size, bt_data_cfg = data_cfg\<rparr>)"

section \<open>Leaf entries\<close>

definition leaf_entry_required_capacity :: "key \<Rightarrow> message \<Rightarrow> nat" where
  "leaf_entry_required_capacity k msg = sizeof_ondisk_tuple + key_length k + message_length msg"

definition sizeof_leaf_entry :: "btree_hdr \<Rightarrow> nat \<Rightarrow> nat" where
  "sizeof_leaf_entry hdr p = sizeof_ondisk_tuple + sizeof_ondisk_tuple_data (node_bytes hdr) p"

definition leaf_entry_key :: "btree_hdr \<Rightarrow> nat \<Rightarrow> key" where
  "leaf_entry_key hdr p = ondisk_tuple_key (node_bytes hdr) p"

definition leaf_entry_message :: "btree_hdr \<Rightarrow> nat \<Rightarrow> message" where
  "leaf_entry_message hdr p = ondisk_tuple_message (node_bytes hdr) p"

definition btree_get_leaf_entry :: "btree_hdr \<Rightarrow> nat \<Rightarrow> nat" where
  "btree_get_leaf_entry hdr k = unat (offsets hdr k)"

definition btree_get_tuple_key :: "btree_hdr \<Rightarrow> nat \<Rightarrow> key" where
  "btree_get_tuple_key hdr k = leaf_entry_key hdr (btree_get_leaf_entry hdr k)"

definition btree_get_tuple_message :: "btree_hdr \<Rightarrow> nat \<Rightarrow> message" where
  "btree_get_tuple_message hdr k = leaf_entry_message hdr (btree_get_leaf_entry hdr k)"

definition btree_fill_leaf_entry :: "btree_hdr \<Rightarrow> nat \<Rightarrow> key \<Rightarrow> message \<Rightarrow> btree_hdr" where
  "btree_fill_leaf_entry hdr p k msg =
     hdr\<lparr>node_bytes := copy_tuple_to_ondisk_tuple (node_bytes hdr) p k msg\<rparr>"

definition btree_can_set_leaf_entry :: "btree_hdr \<Rightarrow> nat \<Rightarrow> key \<Rightarrow> message \<Rightarrow> bool" where
  "btree_can_set_leaf_entry hdr k new_key new_message =
     (let n = btree_num_entries hdr;
          new_num_entries = (if k < n then n else k + 1)
      in if n < k then False
         else if k < n \<and> leaf_entry_required_capacity new_key new_message
                           \<le> sizeof_leaf_entry hdr (btree_get_leaf_entry hdr k)
         then True
         else \<not> unat (next_entry hdr)
                 < table_end new_num_entries + leaf_entry_required_capacity new_key new_message)"

text \<open>The Boolean is the answer of the code; on FALSE the node has not changed.\<close>

definition btree_set_leaf_entry ::
  "btree_hdr \<Rightarrow> nat \<Rightarrow> key \<Rightarrow> message \<Rightarrow> (bool \<times> btree_hdr) outcome" where
  "btree_set_leaf_entry hdr k new_key new_message =
     (let n = btree_num_entries hdr;
          req = leaf_entry_required_capacity new_key new_message
      in if k < n \<and> req \<le> sizeof_leaf_entry hdr (btree_get_leaf_entry hdr k)
         then Inr (True, btree_fill_leaf_entry hdr (btree_get_leaf_entry hdr k) new_key new_message)
         else if \<not> k \<le> n then Inl Abort
         else
           let new_num_entries = (if k < n then n else k + 1)
           in if unat (next_entry hdr) < table_end new_num_entries + req then Inr (False, hdr)
              else
                let new_entry = unat (next_entry hdr) - req
                in if \<not> table_end new_num_entries \<le> new_entry then Inl Abort
                   else
                     let hdr1 = btree_fill_leaf_entry hdr new_entry new_key new_message;
                         hdr2 = hdr1\<lparr>offsets := (offsets hdr1)(k := of_nat new_entry),
                                     num_entries := of_nat new_num_entries,
                                     next_entry := of_nat new_entry\<rparr>
                     in if \<not> 0 < num_entries hdr2 then Inl Abort else Inr (True, hdr2))"

text \<open>Moving the last offset of the table to place \<open>k\<close>.\<close>

definition rotate_offsets :: "btree_hdr \<Rightarrow> nat \<Rightarrow> btree_hdr" where
  "rotate_offsets hdr k =
     (let n = btree_num_entries hdr; this_entry_offset = offsets hdr (n - 1);
          moved = (\<lambda>i. if k + 1 \<le> i \<and> i < k + 1 + (n - k - 1) then offsets hdr (i - 1) else offsets hdr i)
      in hdr\<lparr>offsets := moved(k := this_entry_offset)\<rparr>)"

definition btree_insert_leaf_entry ::
  "btree_hdr \<Rightarrow> nat \<Rightarrow> key \<Rightarrow> message \<Rightarrow> (bool \<times> btree_hdr) outcome" where
  "btree_insert_leaf_entry hdr k new_key new_message =
     obind (btree_set_leaf_entry hdr (btree_num_entries hdr) new_key new_message) (\<lambda>(succeeded, hdr1).
       Inr (succeeded, if succeeded then rotate_offsets hdr1 k else hdr1))"

section \<open>Search\<close>

text \<open>
  The loop of \<open>btree_find_tuple\<close> and of \<open>btree_find_pivot\<close>, which differ in the key they read:
  \<open>cmp mid\<close> compares the key at \<open>mid\<close> with the target.
\<close>

function find_loop :: "(nat \<Rightarrow> int) \<Rightarrow> nat \<Rightarrow> nat \<Rightarrow> int \<times> bool" where
  "find_loop c lo hi =
     (if lo < hi
      then
        let mid = (lo + hi) div 2
        in if c mid = 0 then (int mid, True)
           else if c mid < 0 then find_loop c (mid + 1) hi
           else find_loop c lo mid
      else (int lo - 1, False))"
  by pat_completeness auto

termination
  by (relation "measure (\<lambda>(_, lo, hi). hi - lo)") auto

declare find_loop.simps [simp del]

definition btree_find_tuple :: "btree_config \<Rightarrow> btree_hdr \<Rightarrow> key \<Rightarrow> int \<times> bool" where
  "btree_find_tuple cfg hdr target =
     find_loop (\<lambda>mid. btree_key_compare cfg (btree_get_tuple_key hdr mid) target) 0 (btree_num_entries hdr)"

section \<open>Incorporating a tuple\<close>

datatype old_entry_state = ENTRY_DID_NOT_EXIST | ENTRY_STILL_EXISTS | ENTRY_HAS_BEEN_REMOVED

text \<open>\<open>spec_msg\<close> is the union of the new and the merged message, \<open>old_entry_state\<close> its tag.\<close>

record leaf_incorporate_spec =
  spec_key :: key
  spec_idx :: int
  spec_state :: old_entry_state
  spec_msg :: message

definition spec_message :: "leaf_incorporate_spec \<Rightarrow> message" where
  "spec_message spec = spec_msg spec"

text \<open>An index of type \<open>int64\<close> or \<open>uint64\<close> becomes a \<open>table_index\<close> of 16 bits.\<close>

definition table_index :: "int \<Rightarrow> nat" where
  "table_index i = unat (word_of_int i :: u16)"

definition btree_create_leaf_incorporate_spec ::
  "btree_config \<Rightarrow> bool \<Rightarrow> btree_hdr \<Rightarrow> key \<Rightarrow> message \<Rightarrow> (platform_status + leaf_incorporate_spec) outcome" where
  "btree_create_leaf_incorporate_spec cfg mem_ok hdr tuple_key msg =
     (let (idx, found) = btree_find_tuple cfg hdr tuple_key
      in if \<not> found
         then Inr (Inr \<lparr>spec_key = tuple_key, spec_idx = idx + 1, spec_state = ENTRY_DID_NOT_EXIST, spec_msg = msg\<rparr>)
         else if \<not> mem_ok then Inr (Inl STATUS_NO_MEMORY)
         else
           let oldmessage = leaf_entry_message hdr (btree_get_leaf_entry hdr (table_index idx))
           in obind (data_merge_tuples (bt_data_cfg cfg) tuple_key oldmessage msg) (\<lambda>(result, merged).
                if result \<noteq> 0 then Inr (Inl STATUS_NO_MEMORY)
                else Inr (Inr \<lparr>spec_key = tuple_key, spec_idx = idx, spec_state = ENTRY_STILL_EXISTS,
                               spec_msg = merged\<rparr>)))"

definition btree_can_perform_leaf_incorporate_spec :: "btree_hdr \<Rightarrow> leaf_incorporate_spec \<Rightarrow> bool" where
  "btree_can_perform_leaf_incorporate_spec hdr spec =
     (case spec_state spec of
        ENTRY_DID_NOT_EXIST \<Rightarrow>
          btree_can_set_leaf_entry hdr (btree_num_entries hdr) (spec_key spec) (spec_msg spec)
      | ENTRY_STILL_EXISTS \<Rightarrow>
          btree_can_set_leaf_entry hdr (table_index (spec_idx spec)) (spec_key spec) (spec_msg spec)
      | ENTRY_HAS_BEEN_REMOVED \<Rightarrow>
          btree_can_set_leaf_entry hdr (btree_num_entries hdr) (spec_key spec) (spec_msg spec))"

text \<open>The second component of the result is the generation that is reported on success.\<close>

definition btree_try_perform_leaf_incorporate_spec ::
  "btree_hdr \<Rightarrow> leaf_incorporate_spec \<Rightarrow> (bool \<times> u64 option \<times> btree_hdr) outcome" where
  "btree_try_perform_leaf_incorporate_spec hdr spec =
     obind
       (case spec_state spec of
          ENTRY_DID_NOT_EXIST \<Rightarrow>
            btree_insert_leaf_entry hdr (table_index (spec_idx spec)) (spec_key spec) (spec_msg spec)
        | ENTRY_STILL_EXISTS \<Rightarrow>
            btree_set_leaf_entry hdr (table_index (spec_idx spec)) (spec_key spec) (spec_msg spec)
        | ENTRY_HAS_BEEN_REMOVED \<Rightarrow>
            btree_insert_leaf_entry hdr (table_index (spec_idx spec)) (spec_key spec) (spec_msg spec))
       (\<lambda>(success, hdr1).
          if success then Inr (True, Some (generation hdr1), hdr1\<lparr>generation := generation hdr1 + 1\<rparr>)
          else Inr (False, None, hdr1))"

section \<open>Defragmenting and truncating\<close>

text \<open>
  One round of the loops that copy the entries of \<open>src\<close> to a node: the entry that the
  incorporation replaces is left out. What \<open>btree_set_leaf_entry\<close> answers is not looked at.
\<close>

definition copy_leaf_entry ::
  "btree_hdr \<Rightarrow> nat \<Rightarrow> btree_hdr \<times> nat \<times> leaf_incorporate_spec option \<Rightarrow>
   (btree_hdr \<times> nat \<times> leaf_incorporate_spec option) outcome" where
  "copy_leaf_entry src i x =
     (let (dst, dst_idx, spec) = x
      in case spec of
           Some s \<Rightarrow>
             if spec_state s = ENTRY_STILL_EXISTS \<and> spec_idx s = int i
             then Inr (dst, dst_idx, Some (s\<lparr>spec_state := ENTRY_HAS_BEEN_REMOVED\<rparr>))
             else
               let p = btree_get_leaf_entry src i
               in obind (btree_set_leaf_entry dst (table_index (int dst_idx)) (leaf_entry_key src p) (leaf_entry_message src p))
                    (\<lambda>(_, dst1). Inr (dst1, dst_idx + 1, spec))
         | None \<Rightarrow>
             let p = btree_get_leaf_entry src i
             in obind (btree_set_leaf_entry dst (table_index (int dst_idx)) (leaf_entry_key src p) (leaf_entry_message src p))
                  (\<lambda>(_, dst1). Inr (dst1, dst_idx + 1, spec)))"

definition btree_defragment_leaf ::
  "btree_config \<Rightarrow> btree_hdr \<Rightarrow> leaf_incorporate_spec option \<Rightarrow> (btree_hdr \<times> leaf_incorporate_spec option) outcome" where
  "btree_defragment_leaf cfg hdr spec =
     obind (iterM (copy_leaf_entry hdr) [0..<btree_num_entries hdr] (btree_reset_node_entries cfg hdr, 0, spec))
       (\<lambda>(hdr1, _, spec1). Inr (hdr1, spec1))"

definition truncate_next_entry :: "btree_config \<Rightarrow> btree_hdr \<Rightarrow> nat \<Rightarrow> nat" where
  "truncate_next_entry cfg hdr target_entries =
     fold (\<lambda>i m. if unat (offsets hdr i) < m then unat (offsets hdr i) else m) [0..<target_entries] (bt_page_size cfg)"

definition btree_truncate_leaf :: "btree_config \<Rightarrow> btree_hdr \<Rightarrow> nat \<Rightarrow> btree_hdr" where
  "btree_truncate_leaf cfg hdr target_entries =
     hdr\<lparr>num_entries := of_nat target_entries, next_entry := of_nat (truncate_next_entry cfg hdr target_entries)\<rparr>"

section \<open>Splitting\<close>

record leaf_splitting_plan =
  split_idx :: nat
  insertion_goes_left :: bool

definition most_of_entry_is_on_left_side :: "nat \<Rightarrow> nat \<Rightarrow> nat \<Rightarrow> bool" where
  "most_of_entry_is_on_left_side total_bytes left_bytes entry_size \<longleftrightarrow>
     left_bytes + sizeof_table_entry + entry_size < (total_bytes + sizeof_table_entry + entry_size) div 2"

function plan_move_more_entries_to_left :: "btree_hdr \<Rightarrow> nat \<Rightarrow> nat \<Rightarrow> nat \<Rightarrow> nat \<Rightarrow> nat \<times> nat" where
  "plan_move_more_entries_to_left hdr max_entries total_bytes left_bytes idx =
     (if idx < max_entries \<and>
         most_of_entry_is_on_left_side total_bytes left_bytes (sizeof_leaf_entry hdr (btree_get_leaf_entry hdr idx))
      then plan_move_more_entries_to_left hdr max_entries total_bytes
             (left_bytes + sizeof_table_entry + sizeof_leaf_entry hdr (btree_get_leaf_entry hdr idx)) (idx + 1)
      else (left_bytes, idx))"
  by pat_completeness auto

termination
  by (relation "measure (\<lambda>(_, m, _, _, idx). m - idx)") auto

declare plan_move_more_entries_to_left.simps [simp del]

definition plan_total_bytes :: "btree_hdr \<Rightarrow> leaf_incorporate_spec \<Rightarrow> nat" where
  "plan_total_bytes hdr spec =
     (let n = btree_num_entries hdr;
          bytes = fold (\<lambda>i total. if int i \<noteq> spec_idx spec \<or> spec_state spec \<noteq> ENTRY_STILL_EXISTS
                        then total + sizeof_leaf_entry hdr (btree_get_leaf_entry hdr i) else total)
                    [0..<n] (leaf_entry_required_capacity (spec_key spec) (spec_message spec));
          new_num_entries = n + (if spec_state spec = ENTRY_STILL_EXISTS then 0 else 1)
      in bytes + new_num_entries * sizeof_table_entry)"

definition btree_build_leaf_splitting_plan :: "btree_hdr \<Rightarrow> leaf_incorporate_spec \<Rightarrow> leaf_splitting_plan" where
  "btree_build_leaf_splitting_plan hdr spec =
     (let n = btree_num_entries hdr;
          entry_size = leaf_entry_required_capacity (spec_key spec) (spec_message spec);
          total_bytes = plan_total_bytes hdr spec;
          (left_bytes, idx) = plan_move_more_entries_to_left hdr (nat (spec_idx spec)) total_bytes 0 0
      in if int idx = spec_idx spec \<and> most_of_entry_is_on_left_side total_bytes left_bytes entry_size
         then
           let left_bytes1 = left_bytes + sizeof_table_entry + entry_size;
               idx1 = (if spec_state spec = ENTRY_STILL_EXISTS then idx + 1 else idx);
               (_, idx2) = plan_move_more_entries_to_left hdr n total_bytes left_bytes1 idx1
           in \<lparr>split_idx = idx2, insertion_goes_left = True\<rparr>
         else \<lparr>split_idx = idx, insertion_goes_left = False\<rparr>)"

definition btree_splitting_pivot :: "btree_hdr \<Rightarrow> leaf_incorporate_spec \<Rightarrow> leaf_splitting_plan \<Rightarrow> key" where
  "btree_splitting_pivot hdr spec plan =
     (if int (split_idx plan) = spec_idx spec \<and> spec_state spec \<noteq> ENTRY_STILL_EXISTS
         \<and> \<not> insertion_goes_left plan
      then spec_key spec
      else btree_get_tuple_key hdr (table_index (int (split_idx plan))))"

text \<open>\<open>memmove\<close> of the header leaves the table and the entries of the right page.\<close>

definition btree_split_leaf_build_right_node ::
  "btree_config \<Rightarrow> btree_hdr \<Rightarrow> u64 \<Rightarrow> leaf_incorporate_spec \<Rightarrow> leaf_splitting_plan \<Rightarrow> btree_hdr \<Rightarrow>
   (u64 option \<times> leaf_incorporate_spec \<times> btree_hdr) outcome" where
  "btree_split_leaf_build_right_node cfg left_hdr left_addr spec plan right_hdr =
     (let r0 = left_hdr\<lparr>offsets := offsets right_hdr, node_bytes := node_bytes right_hdr\<rparr>;
          r1 = btree_reset_node_entries cfg (r0\<lparr>generation := generation r0 + 1, prev_addr := left_addr\<rparr>)
      in obind (iterM (copy_leaf_entry left_hdr) [split_idx plan..<btree_num_entries left_hdr] (r1, 0, Some spec))
           (\<lambda>(r2, _, spec1).
              let s = the spec1
              in if insertion_goes_left plan then Inr (None, s, r2)
                 else
                   let s1 = s\<lparr>spec_idx := spec_idx s - int (split_idx plan)\<rparr>
                   in obind (btree_try_perform_leaf_incorporate_spec r2 s1) (\<lambda>(incorporated, gen, r3).
                        if \<not> incorporated then Inl Abort else Inr (gen, s1, r3))))"

definition btree_split_leaf_cleanup_left_node ::
  "btree_config \<Rightarrow> btree_hdr \<Rightarrow> leaf_incorporate_spec \<Rightarrow> leaf_splitting_plan \<Rightarrow> u64 \<Rightarrow>
   (btree_hdr \<times> leaf_incorporate_spec) outcome" where
  "btree_split_leaf_cleanup_left_node cfg left_hdr spec plan right_addr =
     (let l1 = btree_truncate_leaf cfg (left_hdr\<lparr>next_addr := right_addr\<rparr>) (split_idx plan);
          l2 = l1\<lparr>generation := generation l1 + 1\<rparr>
      in if insertion_goes_left plan \<and> \<not> btree_can_perform_leaf_incorporate_spec l2 spec
         then obind (btree_defragment_leaf cfg l2 (Some spec)) (\<lambda>(l3, s). Inr (l3, the s))
         else Inr (l2, spec))"

end
