(* ===== verification/BtIndex.thy ===== *)
theory BtIndex
  imports BtLeaf
begin

unbundle bit_operations_syntax

text \<open>
  The index nodes of a B-tree (\<open>splinterdb/src/btree.c\<close>, \<open>btree_private.h\<close>), and the operations
  on a parent and its children: splitting or defragmenting a child, adding a root.

  The lowest byte of the address of a child counts the visits to the pivot and marks special
  pivots: addresses are multiples of 4 KiB. Waiting, locking and releasing pages is left out here: a node
  is its header, the operations on several nodes get the pages they hold and return them.
  \<open>btree_alloc\<close> is a parameter: the address and the contents of the page that it returns.
\<close>

section \<open>Index entries\<close>

record btree_pivot_stats =
  num_kvs :: u32
  key_bytes :: u32
  message_bytes :: u32

definition BTREE_UNKNOWN_COUNTER :: u32 where "BTREE_UNKNOWN_COUNTER = 0x7fffffff"

definition BTREE_PIVOT_STATS_UNKNOWN :: btree_pivot_stats where
  "BTREE_PIVOT_STATS_UNKNOWN = \<lparr>num_kvs = BTREE_UNKNOWN_COUNTER, key_bytes = BTREE_UNKNOWN_COUNTER,
     message_bytes = BTREE_UNKNOWN_COUNTER\<rparr>"

text \<open>\<open>index_entry\<close>: the address (8 bytes), the statistics (3 times 4), the pivot.\<close>

definition sizeof_index_entry_struct :: nat where "sizeof_index_entry_struct = 20 + sizeof_ondisk_key"

definition index_entry_required_capacity :: "key \<Rightarrow> nat" where
  "index_entry_required_capacity pivot = sizeof_index_entry_struct + key_length pivot"

definition sizeof_index_entry :: "btree_hdr \<Rightarrow> nat \<Rightarrow> nat" where
  "sizeof_index_entry hdr p = sizeof_index_entry_struct + sizeof_ondisk_key_data (node_bytes hdr) (p + 20)"

definition index_entry_key :: "btree_hdr \<Rightarrow> nat \<Rightarrow> key" where
  "index_entry_key hdr p = ondisk_key_to_key (node_bytes hdr) (p + 20)"

definition index_entry_child_addr :: "btree_hdr \<Rightarrow> nat \<Rightarrow> u64" where
  "index_entry_child_addr hdr p = get64 (node_bytes hdr) p AND NOT 0xFFF"

definition index_entry_stats :: "btree_hdr \<Rightarrow> nat \<Rightarrow> btree_pivot_stats" where
  "index_entry_stats hdr p = \<lparr>num_kvs = get32 (node_bytes hdr) (p + 8), key_bytes = get32 (node_bytes hdr) (p + 12),
     message_bytes = get32 (node_bytes hdr) (p + 16)\<rparr>"

definition btree_get_index_entry :: "btree_hdr \<Rightarrow> nat \<Rightarrow> nat" where
  "btree_get_index_entry hdr k = unat (offsets hdr k)"

definition btree_get_pivot :: "btree_hdr \<Rightarrow> nat \<Rightarrow> key" where
  "btree_get_pivot hdr k = index_entry_key hdr (btree_get_index_entry hdr k)"

definition btree_get_child_addr :: "btree_hdr \<Rightarrow> nat \<Rightarrow> u64" where
  "btree_get_child_addr hdr k = index_entry_child_addr hdr (btree_get_index_entry hdr k)"

definition btree_fill_index_entry ::
  "btree_hdr \<Rightarrow> nat \<Rightarrow> key \<Rightarrow> u64 \<Rightarrow> btree_pivot_stats \<Rightarrow> btree_hdr" where
  "btree_fill_index_entry hdr p new_pivot_key new_addr stats =
     (let m1 = copy_key_to_ondisk_key (node_bytes hdr) (p + 20) new_pivot_key;
          m2 = put64 m1 p new_addr;
          m3 = put32 (put32 (put32 m2 (p + 8) (num_kvs stats)) (p + 12) (key_bytes stats)) (p + 16) (message_bytes stats)
      in hdr\<lparr>node_bytes := m3\<rparr>)"

text \<open>
  When the entry that is replaced is the lowest one, \<open>next_entry\<close> first moves up over it.
  The Boolean is the answer of the code.
\<close>

definition btree_set_index_entry ::
  "btree_hdr \<Rightarrow> nat \<Rightarrow> key \<Rightarrow> u64 \<Rightarrow> btree_pivot_stats \<Rightarrow> (bool \<times> btree_hdr) outcome" where
  "btree_set_index_entry hdr k new_pivot_key new_addr stats =
     (let n = btree_num_entries hdr; req = index_entry_required_capacity new_pivot_key;
          new_num_entries = (if k < n then n else k + 1);
          old_entry = btree_get_index_entry hdr k;
          lowest = k < n \<and> unat (next_entry hdr) = old_entry \<and>
            table_end new_num_entries + req \<le> unat (next_entry hdr) + sizeof_index_entry hdr old_entry
      in if \<not> k \<le> n then Inl Abort
         else if k < n \<and> \<not> lowest \<and> req \<le> sizeof_index_entry hdr old_entry
         then Inr (True, btree_fill_index_entry hdr old_entry new_pivot_key new_addr stats)
         else
           let hdr1 = (if lowest then hdr\<lparr>next_entry := next_entry hdr + of_nat (sizeof_index_entry hdr old_entry)\<rparr> else hdr)
           in if unat (next_entry hdr1) < table_end new_num_entries + req then Inr (False, hdr1)
              else
                let new_entry = unat (next_entry hdr1) - req;
                    hdr2 = btree_fill_index_entry hdr1 new_entry new_pivot_key new_addr stats
                in Inr (True, hdr2\<lparr>offsets := (offsets hdr2)(k := of_nat new_entry),
                                   num_entries := of_nat new_num_entries, next_entry := of_nat new_entry\<rparr>))"

definition btree_insert_index_entry ::
  "btree_hdr \<Rightarrow> nat \<Rightarrow> key \<Rightarrow> u64 \<Rightarrow> btree_pivot_stats \<Rightarrow> (bool \<times> btree_hdr) outcome" where
  "btree_insert_index_entry hdr k new_pivot_key new_addr stats =
     obind (btree_set_index_entry hdr (btree_num_entries hdr) new_pivot_key new_addr stats) (\<lambda>(succeeded, hdr1).
       Inr (succeeded, if succeeded then rotate_offsets hdr1 k else hdr1))"

definition btree_find_pivot :: "btree_config \<Rightarrow> btree_hdr \<Rightarrow> key \<Rightarrow> int \<times> bool" where
  "btree_find_pivot cfg hdr target =
     find_loop (\<lambda>mid. btree_key_compare cfg (btree_get_pivot hdr mid) target) 0 (btree_num_entries hdr)"

section \<open>Splitting an index node\<close>

definition BTREE_SPLIT_THRESHOLD :: "nat \<Rightarrow> nat" where "BTREE_SPLIT_THRESHOLD page_size = page_size div 2"
definition BTREE_DEFRAGMENT_THRESHOLD :: "nat \<Rightarrow> nat" where "BTREE_DEFRAGMENT_THRESHOLD page_size = page_size div 4"

definition btree_index_is_full :: "btree_config \<Rightarrow> btree_hdr \<Rightarrow> bool" where
  "btree_index_is_full cfg hdr \<longleftrightarrow>
     unat (next_entry hdr) < table_end (btree_num_entries hdr + 2) + sizeof_index_entry_struct + MAX_INLINE_KEY_SIZE (bt_page_size cfg)"

function choose_split_loop :: "btree_hdr \<Rightarrow> nat \<Rightarrow> nat \<Rightarrow> nat \<Rightarrow> nat" where
  "choose_split_loop hdr total_entry_bytes new_left_entry_bytes target_left_entries =
     (if new_left_entry_bytes < total_entry_bytes div 2
      then choose_split_loop hdr total_entry_bytes
             (new_left_entry_bytes + sizeof_index_entry hdr (btree_get_index_entry hdr target_left_entries))
             (target_left_entries + 1)
      else target_left_entries)"
  by pat_completeness auto

termination
  by (relation "measure (\<lambda>(_, total, left, _). total div 2 - left)")
    (auto simp: sizeof_index_entry_def sizeof_index_entry_struct_def)

declare choose_split_loop.simps [simp del]

definition index_entry_bytes :: "btree_hdr \<Rightarrow> nat" where
  "index_entry_bytes hdr =
     fold (\<lambda>i total. total + sizeof_index_entry hdr (btree_get_index_entry hdr i)) [0..<btree_num_entries hdr] 0"

definition btree_choose_index_split :: "btree_hdr \<Rightarrow> nat" where
  "btree_choose_index_split hdr = choose_split_loop hdr (index_entry_bytes hdr) 0 0"

text \<open>The round of the loops that copy index entries: entry \<open>from + i\<close> of \<open>src\<close> becomes entry \<open>i\<close>.\<close>

definition copy_index_entry :: "btree_hdr \<Rightarrow> nat \<Rightarrow> nat \<Rightarrow> btree_hdr \<Rightarrow> btree_hdr outcome" where
  "copy_index_entry src from i dst =
     (let entry = btree_get_index_entry src (from + i)
      in obind (btree_set_index_entry dst i (index_entry_key src entry) (index_entry_child_addr src entry)
                 (index_entry_stats src entry))
           (\<lambda>(succeeded, dst1). if \<not> succeeded then Inl Abort else Inr dst1))"

definition btree_split_index_build_right_node ::
  "btree_config \<Rightarrow> btree_hdr \<Rightarrow> nat \<Rightarrow> btree_hdr \<Rightarrow> btree_hdr outcome" where
  "btree_split_index_build_right_node cfg left_hdr target_left_entries right_hdr =
     (let target_right_entries = btree_num_entries left_hdr - target_left_entries;
          r0 = left_hdr\<lparr>offsets := offsets right_hdr, node_bytes := node_bytes right_hdr\<rparr>;
          r1 = btree_reset_node_entries cfg (r0\<lparr>generation := generation r0 + 1\<rparr>)
      in iterM (copy_index_entry left_hdr target_left_entries) [0..<target_right_entries] r1)"

definition btree_defragment_index :: "btree_config \<Rightarrow> btree_hdr \<Rightarrow> btree_hdr outcome" where
  "btree_defragment_index cfg hdr =
     iterM (copy_index_entry hdr 0) [0..<btree_num_entries hdr] (btree_reset_node_entries cfg hdr)"

definition btree_truncate_index :: "btree_config \<Rightarrow> btree_hdr \<Rightarrow> nat \<Rightarrow> btree_hdr outcome" where
  "btree_truncate_index cfg hdr target_entries =
     (let new_next_entry = truncate_next_entry cfg hdr target_entries;
          hdr1 = hdr\<lparr>num_entries := of_nat target_entries, next_entry := of_nat new_next_entry\<rparr>;
          hdr2 = hdr1\<lparr>generation := generation hdr1 + 1\<rparr>
      in if new_next_entry < BTREE_DEFRAGMENT_THRESHOLD (bt_page_size cfg) then btree_defragment_index cfg hdr2
         else Inr hdr2)"

end
