(* ===== verification/BtNodes.thy ===== *)
theory BtNodes
  imports BtIndex
begin

unbundle bit_operations_syntax

text \<open>
  The operations of \<open>splinterdb/src/btree.c\<close> on a parent and its children, on the header of every
  page they hold: splitting or defragmenting a child before an insertion, adding a root, the ranks
  of tuples, and the counters of visits in the pivots. What is in a page that \<open>btree_alloc\<close>
  returns, its address, and whether the next leaf could be claimed, are arguments.
\<close>

section \<open>Splitting a child\<close>

text \<open>The pages of a split: \<open>fam_right\<close> is the new page, \<open>fam_next\<close> the leaf after the child, if any.\<close>

record node_family =
  fam_parent :: btree_hdr
  fam_child :: btree_hdr
  fam_right :: btree_hdr
  fam_next :: "btree_hdr option"

text \<open>The result is the answer of the code and the generation it reports.\<close>

definition btree_split_child_leaf ::
  "btree_config \<Rightarrow> bool \<Rightarrow> nat \<Rightarrow> u64 \<Rightarrow> u64 \<Rightarrow> leaf_incorporate_spec \<Rightarrow> node_family \<Rightarrow>
   (int \<times> u64 option \<times> node_family) outcome" where
  "btree_split_child_leaf cfg next_claimed index_of_child_in_parent child_addr right_addr spec f =
     (let child = fam_child f; plan = btree_build_leaf_splitting_plan child spec
      in if next_addr child \<noteq> 0 \<and> \<not> next_claimed then Inr (- 1, None, f)
         else
           let pivot_key = btree_splitting_pivot child spec plan
           in obind (btree_insert_index_entry (fam_parent f) (index_of_child_in_parent + 1) pivot_key right_addr
                       BTREE_PIVOT_STATS_UNKNOWN) (\<lambda>(success, parent1).
              if \<not> success then Inl Abort
              else
                let next1 = (if next_addr child \<noteq> 0 then map_option (\<lambda>n. n\<lparr>prev_addr := right_addr\<rparr>) (fam_next f)
                             else fam_next f)
                in obind (btree_split_leaf_build_right_node cfg child child_addr spec plan (fam_right f)) (\<lambda>(gen, spec1, right1).
                   obind (btree_split_leaf_cleanup_left_node cfg child spec1 plan right_addr) (\<lambda>(child1, spec2).
                   if insertion_goes_left plan
                   then obind (btree_try_perform_leaf_incorporate_spec child1 spec2) (\<lambda>(incorporated, gen1, child2).
                          if \<not> incorporated then Inl Abort
                          else Inr (0, gen1, \<lparr>fam_parent = parent1, fam_child = child2, fam_right = right1, fam_next = next1\<rparr>))
                   else Inr (0, gen, \<lparr>fam_parent = parent1, fam_child = child1, fam_right = right1, fam_next = next1\<rparr>)))))"

text \<open>
  In the code \<open>nentries + spec->old_entry_state == ENTRY_STILL_EXISTS ? 0 : 1\<close> compares the sum, so
  at most one entry of the table is counted, with the size of an index entry.
\<close>

fun old_entry_state_code :: "old_entry_state \<Rightarrow> nat" where
  "old_entry_state_code ENTRY_DID_NOT_EXIST = 0"
| "old_entry_state_code ENTRY_STILL_EXISTS = 1"
| "old_entry_state_code ENTRY_HAS_BEEN_REMOVED = 2"

definition leaf_total_space_required :: "btree_hdr \<Rightarrow> leaf_incorporate_spec \<Rightarrow> nat" where
  "leaf_total_space_required hdr spec =
     (let nentries = btree_num_entries hdr;
          live_bytes = fold (\<lambda>i total. if spec_state spec \<noteq> ENTRY_STILL_EXISTS \<or> int i \<noteq> spec_idx spec
                         then total + sizeof_leaf_entry hdr (btree_get_leaf_entry hdr i) else total) [0..<nentries] 0
      in live_bytes + leaf_entry_required_capacity (spec_key spec) (spec_message spec) +
         (if nentries + old_entry_state_code (spec_state spec) = old_entry_state_code ENTRY_STILL_EXISTS then 0 else 1)
           * sizeof_index_entry_struct)"

definition btree_defragment_or_split_child_leaf ::
  "btree_config \<Rightarrow> bool \<Rightarrow> nat \<Rightarrow> u64 \<Rightarrow> u64 \<Rightarrow> leaf_incorporate_spec \<Rightarrow> node_family \<Rightarrow>
   (int \<times> u64 option \<times> node_family) outcome" where
  "btree_defragment_or_split_child_leaf cfg next_claimed index_of_child_in_parent child_addr right_addr spec f =
     (if leaf_total_space_required (fam_child f) spec < BTREE_SPLIT_THRESHOLD (bt_page_size cfg)
      then obind (btree_defragment_leaf cfg (fam_child f) (Some spec)) (\<lambda>(child1, spec1).
           obind (btree_try_perform_leaf_incorporate_spec child1 (the spec1)) (\<lambda>(incorporated, gen, child2).
             if \<not> incorporated then Inl Abort else Inr (0, gen, f\<lparr>fam_child := child2\<rparr>)))
      else btree_split_child_leaf cfg next_claimed index_of_child_in_parent child_addr right_addr spec f)"

text \<open>
  The result is whether the new child is the right one, the index in it, and the pages. The answer
  of the insertion into the parent is not looked at. The index is an \<open>int64\<close>, compared with a \<open>uint64\<close>
  as one.
\<close>

definition btree_split_child_index ::
  "btree_config \<Rightarrow> nat \<Rightarrow> u64 \<Rightarrow> int \<Rightarrow> node_family \<Rightarrow> (bool \<times> int \<times> node_family) outcome" where
  "btree_split_child_index cfg index_of_child_in_parent right_addr next_child_idx f =
     (let child = fam_child f; idx = btree_choose_index_split child; pivot_key = btree_get_pivot child (table_index (int idx))
      in obind (btree_insert_index_entry (fam_parent f) (index_of_child_in_parent + 1) pivot_key right_addr
                  BTREE_PIVOT_STATS_UNKNOWN) (\<lambda>(_, parent1).
         obind (btree_split_index_build_right_node cfg child idx (fam_right f)) (\<lambda>right1.
         obind (btree_truncate_index cfg child idx) (\<lambda>child1.
           let f1 = f\<lparr>fam_parent := parent1, fam_child := child1, fam_right := right1\<rparr>
           in if next_child_idx mod 2 ^ 64 < int idx then Inr (False, next_child_idx, f1)
              else Inr (True, next_child_idx - int idx, f1)))))"

definition btree_defragment_or_split_child_index ::
  "btree_config \<Rightarrow> nat \<Rightarrow> u64 \<Rightarrow> int \<Rightarrow> node_family \<Rightarrow> (bool \<times> int \<times> node_family) outcome" where
  "btree_defragment_or_split_child_index cfg index_of_child_in_parent right_addr next_child_idx f =
     (let child = fam_child f; nentries = btree_num_entries child;
          total_space_required = index_entry_bytes child + nentries * sizeof_index_entry_struct
      in if total_space_required < BTREE_SPLIT_THRESHOLD (bt_page_size cfg)
         then obind (btree_defragment_index cfg child) (\<lambda>child1. Inr (False, next_child_idx, f\<lparr>fam_child := child1\<rparr>))
         else btree_split_child_index cfg index_of_child_in_parent right_addr next_child_idx f)"

text \<open>The old root moves to the page at \<open>child_addr\<close>. The result is the root and that child.\<close>

definition btree_grow_root :: "btree_config \<Rightarrow> u64 \<Rightarrow> btree_hdr \<Rightarrow> (btree_hdr \<times> btree_hdr) outcome" where
  "btree_grow_root cfg child_addr root =
     (let child = root;
          root1 = btree_increment_height (btree_reset_node_entries cfg root);
          new_pivot = (if btree_height child = 0 then btree_get_tuple_key child 0 else btree_get_pivot child 0)
      in obind (btree_set_index_entry root1 0 new_pivot child_addr BTREE_PIVOT_STATS_UNKNOWN) (\<lambda>(succeeded, root2).
           if \<not> succeeded then Inl Abort else Inr (root2, child)))"

section \<open>Ranks\<close>

definition add_unknown :: "u32 \<Rightarrow> u32 \<Rightarrow> u32" where
  "add_unknown a b = (if a \<noteq> BTREE_UNKNOWN_COUNTER \<and> b \<noteq> BTREE_UNKNOWN_COUNTER then a + b else BTREE_UNKNOWN_COUNTER)"

definition btree_accumulate_pivot_stats :: "btree_pivot_stats \<Rightarrow> btree_pivot_stats \<Rightarrow> btree_pivot_stats" where
  "btree_accumulate_pivot_stats dest src =
     \<lparr>num_kvs = add_unknown (num_kvs dest) (num_kvs src), key_bytes = add_unknown (key_bytes dest) (key_bytes src),
      message_bytes = add_unknown (message_bytes dest) (message_bytes src)\<rparr>"

definition leaf_entry_key_size :: "btree_hdr \<Rightarrow> nat \<Rightarrow> nat" where
  "leaf_entry_key_size hdr p = odt_key_length (node_bytes hdr) p"

definition leaf_entry_message_size :: "btree_hdr \<Rightarrow> nat \<Rightarrow> nat" where
  "leaf_entry_message_size hdr p = odt_message_length (node_bytes hdr) p"

definition accumulate_node_ranks :: "btree_hdr \<Rightarrow> nat \<Rightarrow> nat \<Rightarrow> btree_pivot_stats \<Rightarrow> btree_pivot_stats" where
  "accumulate_node_ranks hdr from to stats =
     (if btree_height hdr = 0
      then
        let stats1 = fold (\<lambda>i st. let entry = btree_get_leaf_entry hdr i
                 in st\<lparr>key_bytes := add_unknown (key_bytes st) (of_nat (leaf_entry_key_size hdr entry)),
                       message_bytes := add_unknown (message_bytes st) (of_nat (leaf_entry_message_size hdr entry))\<rparr>)
               [from..<to] stats
        in stats1\<lparr>num_kvs := num_kvs stats1 + of_nat (to - from)\<rparr>
      else fold (\<lambda>i st. btree_accumulate_pivot_stats st (index_entry_stats hdr (btree_get_index_entry hdr i))) [from..<to] stats)"

section \<open>The counters of the pivots\<close>

text \<open>The lowest byte of the address in the entry at \<open>p\<close>: one bit SPECIAL, seven bits of count.\<close>

definition PIVOT_META_SPECIAL :: u8 where "PIVOT_META_SPECIAL = 0x80"
definition PIVOT_META_CNT_MASK :: u8 where "PIVOT_META_CNT_MASK = 0x7F"
definition PIVOT_CNT_OVERFLOW_THRESHOLD :: u8 where "PIVOT_CNT_OVERFLOW_THRESHOLD = PIVOT_META_CNT_MASK"

definition btree_pivot_meta_load :: "btree_hdr \<Rightarrow> nat \<Rightarrow> u8" where
  "btree_pivot_meta_load hdr p = node_bytes hdr p"

definition store_meta :: "btree_hdr \<Rightarrow> nat \<Rightarrow> u8 \<Rightarrow> btree_hdr" where
  "store_meta hdr p v = hdr\<lparr>node_bytes := put_bytes (node_bytes hdr) p [v]\<rparr>"

definition btree_pivot_meta_cnt7 :: "btree_hdr \<Rightarrow> nat \<Rightarrow> u8" where
  "btree_pivot_meta_cnt7 hdr p = btree_pivot_meta_load hdr p AND PIVOT_META_CNT_MASK"

definition btree_pivot_meta_mark_special :: "btree_hdr \<Rightarrow> nat \<Rightarrow> btree_hdr" where
  "btree_pivot_meta_mark_special hdr p = store_meta hdr p (btree_pivot_meta_load hdr p OR PIVOT_META_SPECIAL)"

definition btree_pivot_meta_clear_special :: "btree_hdr \<Rightarrow> nat \<Rightarrow> btree_hdr" where
  "btree_pivot_meta_clear_special hdr p = store_meta hdr p (btree_pivot_meta_load hdr p AND NOT PIVOT_META_SPECIAL)"

definition btree_pivot_meta_set_count :: "btree_hdr \<Rightarrow> nat \<Rightarrow> u8 \<Rightarrow> btree_hdr" where
  "btree_pivot_meta_set_count hdr p count =
     (let old = btree_pivot_meta_load hdr p;
          count1 = (if count > PIVOT_META_CNT_MASK then PIVOT_META_CNT_MASK else count)
      in store_meta hdr p ((old AND PIVOT_META_SPECIAL) OR count1))"

definition btree_pivot_meta_cnt7_inc_atomic :: "btree_hdr \<Rightarrow> nat \<Rightarrow> u8 \<times> btree_hdr" where
  "btree_pivot_meta_cnt7_inc_atomic hdr p =
     (let old = btree_pivot_meta_load hdr p; cnt = old AND PIVOT_META_CNT_MASK
      in if old AND PIVOT_META_SPECIAL \<noteq> 0 then (old, hdr)
         else if cnt \<ge> PIVOT_META_CNT_MASK then (old, hdr)
         else
           let newv = (old AND PIVOT_META_SPECIAL) OR (cnt + 1)
           in (newv, store_meta hdr p newv))"

definition pivot_is_special :: "btree_hdr \<Rightarrow> nat \<Rightarrow> bool" where
  "pivot_is_special hdr p \<longleftrightarrow> btree_pivot_meta_load hdr p AND PIVOT_META_SPECIAL \<noteq> 0"

definition pivot_hits_u64 :: "btree_hdr \<Rightarrow> nat \<Rightarrow> u64" where
  "pivot_hits_u64 hdr p = ucast (btree_pivot_meta_cnt7 hdr p)"

definition pivot_cnt_inc_relaxed :: "btree_hdr \<Rightarrow> nat \<Rightarrow> btree_hdr" where
  "pivot_cnt_inc_relaxed hdr p = snd (btree_pivot_meta_cnt7_inc_atomic hdr p)"

text \<open>
  The floating-point arithmetic of the decision, of the compiler and the machine: whether the
  multiplier is positive, \<open>(uint64)(ei * mult_d)\<close>, and the comparison of \<open>elapsed\<close> with
  \<open>ei * hits * mult_d\<close>.
\<close>

record warm_arith =
  mult_positive :: bool
  ei_times_mult :: "u64 \<Rightarrow> u64"
  elapsed_within :: "u64 \<Rightarrow> u64 \<Rightarrow> u64 \<Rightarrow> bool"

text \<open>
  \<open>now\<close> and \<open>now2\<close> are the two readings of the clock, \<open>entry_time\<close> is a field of the page; the result
  has the node and the field after the call.
\<close>

definition compensate_hits :: "warm_arith \<Rightarrow> u64 \<Rightarrow> u64 \<Rightarrow> btree_hdr \<Rightarrow> nat \<Rightarrow> u64 \<Rightarrow> u64 \<times> btree_hdr" where
  "compensate_hits A ei elapsed hdr p hits =
     (let ei_mult = ei_times_mult A ei
      in if ei_mult > 0
         then
           let threshold_hits = elapsed div ei_mult;
               max_hits = (if threshold_hits > 0 then threshold_hits - 1 else 0)
           in if max_hits > hits
              then (max_hits, btree_pivot_meta_set_count hdr p (if max_hits > 127 then 127 else ucast max_hits))
              else (hits, hdr)
         else (hits, hdr))"

definition btree_update_pivot_cnt_and_is_warm ::
  "warm_arith \<Rightarrow> u64 \<Rightarrow> u64 \<Rightarrow> u64 \<Rightarrow> btree_hdr \<Rightarrow> u64 \<Rightarrow> nat \<Rightarrow> bool \<times> btree_hdr \<times> u64" where
  "btree_update_pivot_cnt_and_is_warm A ei now now2 hdr entry_time p =
     (let was_cached = pivot_is_special hdr p;
          hdr1 = (if was_cached then btree_pivot_meta_clear_special hdr p else hdr)
      in if ei = EI_NOT_READY then (True, btree_pivot_meta_mark_special hdr1 p, entry_time)
         else if entry_time = 0 then (False, hdr1, entry_time)
         else
           let elapsed = now - entry_time;
               (hits, hdr2) = (if was_cached \<and> ei > 0 \<and> mult_positive A
                 then compensate_hits A ei elapsed hdr1 p (pivot_hits_u64 hdr1 p) else (pivot_hits_u64 hdr1 p, hdr1))
           in if hits = 0 then (False, pivot_cnt_inc_relaxed hdr2 p, entry_time)
              else if ei = 0 then (True, hdr2, entry_time)
              else if elapsed_within A elapsed ei hits then (True, btree_pivot_meta_mark_special hdr2 p, entry_time)
              else if hits \<ge> ucast PIVOT_CNT_OVERFLOW_THRESHOLD
              then (False, fold (\<lambda>j h. btree_pivot_meta_set_count h (btree_get_index_entry h j) 0)
                             [0..<btree_num_entries hdr2] hdr2, now2)
              else (False, pivot_cnt_inc_relaxed hdr2 p, entry_time))"

end
