(* ===== verification/BtTree.thy ===== *)
theory BtTree
  imports BtNodes
begin

text \<open>
  The dynamic tree of \<open>splinterdb/src/btree.c\<close>: \<open>btree_insert\<close> with the descent that makes room on
  the way, \<open>btree_lookup\<close> and the ranks of tuples.

  A tree lives in the pages of the cache; \<open>bt_nodes\<close> is the page at an address, \<open>bt_mini\<close> the state
  of the allocator of pages, an argument of the operations (\<open>BtMini\<close> instantiates it with the mini
  allocator). One thread runs; of the others it sees claims that are refused and memory that is
  not there: \<open>bt_claims\<close> and \<open>bt_mem\<close> are the answers to come, and when they are used up every
  claim and every allocation of memory succeeds. Locks and the giving back of pages leave the
  pages alone.
\<close>

section \<open>Pages\<close>

definition BTREE_MAX_HEIGHT :: nat where "BTREE_MAX_HEIGHT = 8"

record 'a bt_state =
  bt_nodes :: "u64 \<Rightarrow> btree_hdr"
  bt_mini :: 'a
  bt_claims :: "bool list"
  bt_mem :: "bool list"

text \<open>The answer has the address of the page, what is in its buffer, and the new state.\<close>

type_synonym 'a page_alloc = "nat \<Rightarrow> 'a \<Rightarrow> (u64 \<times> btree_hdr \<times> 'a) outcome"

definition set_node :: "u64 \<Rightarrow> btree_hdr \<Rightarrow> 'a bt_state \<Rightarrow> 'a bt_state" where
  "set_node addr hdr st = st\<lparr>bt_nodes := (bt_nodes st)(addr := hdr)\<rparr>"

text \<open>A height beyond the batches of the allocator would be read outside of its arrays.\<close>

definition btree_alloc :: "'a page_alloc \<Rightarrow> nat \<Rightarrow> 'a bt_state \<Rightarrow> (u64 \<times> 'a bt_state) outcome" where
  "btree_alloc al h st =
     (if \<not> h < BTREE_MAX_HEIGHT then Inl Abort
      else obind (al h (bt_mini st)) (\<lambda>(addr, page, mini). Inr (addr, set_node addr page (st\<lparr>bt_mini := mini\<rparr>))))"

definition btree_node_claim :: "'a bt_state \<Rightarrow> bool \<times> 'a bt_state" where
  "btree_node_claim st = (case bt_claims st of [] \<Rightarrow> (True, st) | b # bs \<Rightarrow> (b, st\<lparr>bt_claims := bs\<rparr>))"

text \<open>\<open>while (!btree_node_claim(...))\<close>: whether it had to wait. And the loop that gives up after 101 refusals.\<close>

definition claim_wait :: "'a bt_state \<Rightarrow> bool \<times> 'a bt_state" where
  "claim_wait st = (takeWhile Not (bt_claims st) \<noteq> [], st\<lparr>bt_claims := drop 1 (dropWhile Not (bt_claims st))\<rparr>)"

primrec claim_retry :: "nat \<Rightarrow> 'a bt_state \<Rightarrow> bool \<times> 'a bt_state" where
  "claim_retry 0 st = (False, st)"
| "claim_retry (Suc n) st =
     (let (c, st1) = btree_node_claim st in if c then (True, st1) else claim_retry n st1)"

definition create_spec ::
  "btree_config \<Rightarrow> u64 \<Rightarrow> key \<Rightarrow> message \<Rightarrow> 'a bt_state \<Rightarrow>
   ((platform_status + leaf_incorporate_spec) \<times> 'a bt_state) outcome" where
  "create_spec cfg addr k msg st =
     (let (mem_ok, st1) = (case bt_mem st of [] \<Rightarrow> (True, st) | b # bs \<Rightarrow> (b, st\<lparr>bt_mem := bs\<rparr>))
      in obind (btree_create_leaf_incorporate_spec cfg mem_ok (bt_nodes st addr) k msg) (\<lambda>r. Inr (r, st1)))"

section \<open>Operations on nodes at their addresses\<close>

definition grow_root :: "btree_config \<Rightarrow> 'a page_alloc \<Rightarrow> u64 \<Rightarrow> 'a bt_state \<Rightarrow> 'a bt_state outcome" where
  "grow_root cfg al root st =
     obind (btree_alloc al (unat (btree_height (bt_nodes st root))) st) (\<lambda>(child, st1).
     obind (btree_grow_root cfg child (bt_nodes st1 root)) (\<lambda>(root_hdr, child_hdr).
       Inr (set_node root root_hdr (set_node child child_hdr st1))))"

text \<open>The first pivot becomes the key. When there is no room for it, that is done after the node has got some.\<close>

definition set_min_key :: "btree_hdr \<Rightarrow> key \<Rightarrow> (bool \<times> btree_hdr) outcome" where
  "set_min_key hdr k =
     (let entry = btree_get_index_entry hdr 0
      in btree_set_index_entry hdr 0 k (index_entry_child_addr hdr entry) (index_entry_stats hdr entry))"

definition lower_min_key :: "btree_hdr \<Rightarrow> key \<Rightarrow> int \<Rightarrow> (nat \<times> bool \<times> btree_hdr) outcome" where
  "lower_min_key hdr k idx =
     (if idx < 0 then obind (set_min_key hdr k) (\<lambda>(ok, hdr1). Inr (0, \<not> ok, hdr1)) else Inr (nat idx, False, hdr))"

definition finish_min_key :: "bool \<Rightarrow> btree_hdr \<Rightarrow> key \<Rightarrow> btree_hdr outcome" where
  "finish_min_key need_to_set_min_key hdr k =
     (if need_to_set_min_key
      then obind (set_min_key hdr k) (\<lambda>(success, hdr1). if \<not> success then Inl Abort else Inr hdr1)
      else Inr hdr)"

definition put_family :: "u64 \<Rightarrow> u64 \<Rightarrow> u64 \<Rightarrow> u64 \<Rightarrow> node_family \<Rightarrow> 'a bt_state \<Rightarrow> 'a bt_state" where
  "put_family parent child right nxt f st =
     (let nodes = (bt_nodes st)(parent := fam_parent f, child := fam_child f, right := fam_right f)
      in st\<lparr>bt_nodes := (case fam_next f of None \<Rightarrow> nodes | Some n \<Rightarrow> nodes(nxt := n))\<rparr>)"

text \<open>The page of a right node is allocated when the child is split; \<open>right\<close> is 0 when it is not.\<close>

definition make_room_index ::
  "btree_config \<Rightarrow> 'a page_alloc \<Rightarrow> u64 \<Rightarrow> nat \<Rightarrow> u64 \<Rightarrow> nat \<Rightarrow> 'a bt_state \<Rightarrow> (u64 \<times> nat \<times> 'a bt_state) outcome" where
  "make_room_index cfg al parent i child next_idx st =
     (let hdr = bt_nodes st child;
          room = index_entry_bytes hdr + btree_num_entries hdr * sizeof_index_entry_struct < BTREE_SPLIT_THRESHOLD (bt_page_size cfg)
      in obind (if room then Inr (0, st) else btree_alloc al (unat (btree_height hdr)) st) (\<lambda>(right, st1).
         obind (btree_defragment_or_split_child_index cfg i right (int next_idx)
                  \<lparr>fam_parent = bt_nodes st1 parent, fam_child = bt_nodes st1 child, fam_right = bt_nodes st1 right, fam_next = None\<rparr>)
           (\<lambda>(goes_right, idx, f). Inr (if goes_right then right else child, nat idx, put_family parent child right 0 f st1))))"

section \<open>Insertion\<close>

text \<open>What an attempt comes to: \<open>goto start_over\<close>, or a return with the generation and \<open>was_unique\<close>.\<close>

datatype 'a bt_attempt =
  Start_over "'a bt_state"
| Return platform_status "u64 option" "bool option" "'a bt_state"

definition spec_is_new :: "leaf_incorporate_spec \<Rightarrow> bool" where
  "spec_is_new spec \<longleftrightarrow> spec_state spec = ENTRY_DID_NOT_EXIST"

definition make_room_leaf ::
  "btree_config \<Rightarrow> 'a page_alloc \<Rightarrow> u64 \<Rightarrow> nat \<Rightarrow> u64 \<Rightarrow> leaf_incorporate_spec \<Rightarrow> 'a bt_state \<Rightarrow> 'a bt_attempt outcome" where
  "make_room_leaf cfg al parent i child spec st =
     (let hdr = bt_nodes st child; nxt = next_addr hdr;
          room = leaf_total_space_required hdr spec < BTREE_SPLIT_THRESHOLD (bt_page_size cfg)
      in obind (if room then Inr (0, True, st)
                else obind (btree_alloc al (unat (btree_height hdr)) st) (\<lambda>(right, st1).
                  let (claimed, st2) = (if nxt \<noteq> 0 then claim_retry 101 st1 else (True, st1)) in Inr (right, claimed, st2)))
           (\<lambda>(right, claimed, st1).
         obind (btree_defragment_or_split_child_leaf cfg claimed i child right spec
                  \<lparr>fam_parent = bt_nodes st1 parent, fam_child = bt_nodes st1 child, fam_right = bt_nodes st1 right,
                   fam_next = (if nxt \<noteq> 0 then Some (bt_nodes st1 nxt) else None)\<rparr>)
           (\<lambda>(result, gen, f).
              if result < 0 then Inr (Start_over st1)
              else Inr (Return STATUS_OK gen (Some (spec_is_new spec)) (put_family parent child right nxt f st1)))))"

text \<open>From the parent of a leaf, at \<open>height == 1\<close>.\<close>

definition btree_insert_leaf ::
  "btree_config \<Rightarrow> 'a page_alloc \<Rightarrow> key \<Rightarrow> message \<Rightarrow> u64 \<Rightarrow> nat \<Rightarrow> u64 \<Rightarrow> 'a bt_state \<Rightarrow> 'a bt_attempt outcome" where
  "btree_insert_leaf cfg al k msg parent i child st =
     obind (create_spec cfg child k msg st) (\<lambda>(r, st0).
       case r of Inl rc \<Rightarrow> Inr (Return rc None None st0)
       | Inr spec \<Rightarrow>
         let (claimed, st1) = btree_node_claim st0
         in if btree_can_perform_leaf_incorporate_spec (bt_nodes st0 child) spec
            then if \<not> claimed then Inr (Start_over st1)
                 else obind (btree_try_perform_leaf_incorporate_spec (bt_nodes st1 child) spec) (\<lambda>(incorporated, gen, hdr).
                        if \<not> incorporated then Inl Abort
                        else Inr (Return STATUS_OK gen (Some (spec_is_new spec)) (set_node child hdr st1)))
            else if \<not> claimed then Inr (Start_over st1)
            else
              let (need_to_rebuild_spec, st2) = claim_wait st1
              in obind (if need_to_rebuild_spec then create_spec cfg child k msg st2 else Inr (Inr spec, st2)) (\<lambda>(r, st3).
                   case r of Inl rc \<Rightarrow> Inr (Return rc None None st3)
                   | Inr spec \<Rightarrow> make_room_leaf cfg al parent i child spec st3))"

text \<open>
  One round of the loop: \<open>Inl\<close> starts over, \<open>Inr\<close> has the next parent and the index of the next
  child in it.
\<close>

definition btree_insert_step ::
  "btree_config \<Rightarrow> 'a page_alloc \<Rightarrow> key \<Rightarrow> u64 \<Rightarrow> nat \<Rightarrow> u64 \<Rightarrow> 'a bt_state \<Rightarrow>
   ('a bt_state + u64 \<times> nat \<times> 'a bt_state) outcome" where
  "btree_insert_step cfg al k parent i child st =
     (let hdr = bt_nodes st child; idx = fst (btree_find_pivot cfg hdr k)
      in if idx < 0 \<or> btree_index_is_full cfg hdr
         then
           let (parent_claimed, st1) = btree_node_claim st
           in if \<not> parent_claimed then Inr (Inl st1)
              else
                let (child_claimed, st2) = btree_node_claim st1
                in if \<not> child_claimed then Inr (Inl st2)
                   else
                     obind (lower_min_key hdr k idx) (\<lambda>(next_idx, need, hdr1).
                       let st3 = set_node child hdr1 st2
                       in obind (if btree_index_is_full cfg hdr1 then make_room_index cfg al parent i child next_idx st3
                                 else Inr (child, next_idx, st3)) (\<lambda>(new_parent, next_idx, st4).
                          obind (finish_min_key need (bt_nodes st4 new_parent) k) (\<lambda>hdr2.
                            Inr (Inr (new_parent, next_idx, set_node new_parent hdr2 st4)))))
         else Inr (Inr (child, nat idx, st)))"

fun btree_insert_descend ::
  "btree_config \<Rightarrow> 'a page_alloc \<Rightarrow> key \<Rightarrow> message \<Rightarrow> nat \<Rightarrow> u64 \<Rightarrow> nat \<Rightarrow> 'a bt_state \<Rightarrow> 'a bt_attempt outcome" where
  "btree_insert_descend cfg al k msg (Suc (Suc h)) parent i st =
     obind (btree_insert_step cfg al k parent i (btree_get_child_addr (bt_nodes st parent) i) st) (\<lambda>r.
       case r of Inl st1 \<Rightarrow> Inr (Start_over st1)
       | Inr (parent1, i1, st1) \<Rightarrow> btree_insert_descend cfg al k msg (Suc h) parent1 i1 st1)"
| "btree_insert_descend cfg al k msg _ parent i st =
     btree_insert_leaf cfg al k msg parent i (btree_get_child_addr (bt_nodes st parent) i) st"

definition btree_insert_index ::
  "btree_config \<Rightarrow> 'a page_alloc \<Rightarrow> key \<Rightarrow> message \<Rightarrow> u64 \<Rightarrow> 'a bt_state \<Rightarrow> 'a bt_attempt outcome" where
  "btree_insert_index cfg al k msg root st =
     (let hdr = bt_nodes st root; idx = fst (btree_find_pivot cfg hdr k)
      in if idx < 0 \<or> btree_index_is_full cfg hdr
         then
           let (claimed, st1) = btree_node_claim st
           in if \<not> claimed then Inr (Start_over st1)
              else
                obind (lower_min_key hdr k idx) (\<lambda>(child_idx, need, hdr1).
                  let st2 = set_node root hdr1 st1
                  in obind (if btree_index_is_full cfg hdr1 then obind (grow_root cfg al root st2) (\<lambda>st. Inr (0, st))
                            else Inr (child_idx, st2)) (\<lambda>(child_idx, st3).
                     obind (finish_min_key need (bt_nodes st3 root) k) (\<lambda>hdr2.
                       let st4 = set_node root hdr2 st3
                       in btree_insert_descend cfg al k msg (unat (btree_height (bt_nodes st4 root))) root child_idx st4)))
         else btree_insert_descend cfg al k msg (unat (btree_height hdr)) root (nat idx) st)"

definition btree_insert_attempt ::
  "btree_config \<Rightarrow> 'a page_alloc \<Rightarrow> key \<Rightarrow> message \<Rightarrow> u64 \<Rightarrow> 'a bt_state \<Rightarrow> 'a bt_attempt outcome" where
  "btree_insert_attempt cfg al k msg root st =
     (if btree_height (bt_nodes st root) = 0
      then
        obind (create_spec cfg root k msg st) (\<lambda>(r, st0).
          case r of Inl rc \<Rightarrow> Inr (Return rc None None st0)
          | Inr spec \<Rightarrow>
            let (claimed, st1) = btree_node_claim st0
            in if \<not> claimed then Inr (Start_over st1)
               else obind (btree_try_perform_leaf_incorporate_spec (bt_nodes st1 root) spec) (\<lambda>(incorporated, gen, hdr).
                 let st2 = set_node root hdr st1
                 in if incorporated then Inr (Return STATUS_OK gen (Some (spec_is_new spec)) st2)
                    else obind (grow_root cfg al root st2) (btree_insert_index cfg al k msg root)))
      else btree_insert_index cfg al k msg root st)"

text \<open>An attempt that starts over has used up a refusal, so the number of answers bounds the attempts.\<close>

primrec btree_insert_loop ::
  "nat \<Rightarrow> btree_config \<Rightarrow> 'a page_alloc \<Rightarrow> key \<Rightarrow> message \<Rightarrow> u64 \<Rightarrow> 'a bt_state \<Rightarrow>
   (platform_status \<times> u64 option \<times> bool option \<times> 'a bt_state) outcome" where
  "btree_insert_loop 0 cfg al k msg root st = Inl Blocked"
| "btree_insert_loop (Suc n) cfg al k msg root st =
     obind (btree_insert_attempt cfg al k msg root st) (\<lambda>r.
       case r of Start_over st1 \<Rightarrow> btree_insert_loop n cfg al k msg root st1
       | Return rc gen unique st1 \<Rightarrow> Inr (rc, gen, unique, st1))"

definition message_is_invalid_user_type :: "message \<Rightarrow> bool" where
  "message_is_invalid_user_type msg \<longleftrightarrow>
     msg_type msg = MESSAGE_TYPE_INVALID \<or> message_type_code (msg_type msg) > message_type_code MESSAGE_TYPE_DELETE"

definition btree_insert ::
  "btree_config \<Rightarrow> 'a page_alloc \<Rightarrow> u64 \<Rightarrow> key \<Rightarrow> message \<Rightarrow> 'a bt_state \<Rightarrow>
   (platform_status \<times> u64 option \<times> bool option \<times> 'a bt_state) outcome" where
  "btree_insert cfg al root k msg st =
     (if MAX_INLINE_KEY_SIZE (bt_page_size cfg) < key_length k then Inr (STATUS_BAD_PARAM, None, None, st)
      else if MAX_INLINE_MESSAGE_SIZE (bt_page_size cfg) < message_length msg then Inr (STATUS_BAD_PARAM, None, None, st)
      else if message_is_invalid_user_type msg then Inr (STATUS_BAD_PARAM, None, None, st)
      else btree_insert_loop (Suc (length (bt_claims st))) cfg al k msg root st)"

section \<open>Lookup\<close>

text \<open>
  A lookup of a tree of type \<open>PAGE_TYPE_BRANCH\<close> counts the visits in the pages it passes. What it
  asks the cache and the clock is an argument: which pages are present, the eviction interval, the
  readings of the clock at each height. The entry times are fields of the pages.
\<close>

record lookup_env =
  le_present :: "u64 \<Rightarrow> bool"
  le_ei :: u64
  le_arith :: warm_arith
  le_now :: "nat \<Rightarrow> u64"
  le_now2 :: "nat \<Rightarrow> u64"

record lookup_pages =
  lk_nodes :: "u64 \<Rightarrow> btree_hdr"
  lk_time :: "u64 \<Rightarrow> u64"

definition lookup_child_idx :: "btree_config \<Rightarrow> btree_hdr \<Rightarrow> key \<Rightarrow> nat" where
  "lookup_child_idx cfg hdr target =
     (let idx = (if target = POSITIVE_INFINITY_KEY then int (btree_num_entries hdr) - 1
                 else fst (btree_find_pivot cfg hdr target))
      in if idx < 0 then 0 else nat idx)"

definition reset_pivot_counts :: "btree_hdr \<Rightarrow> btree_hdr" where
  "reset_pivot_counts hdr =
     fold (\<lambda>j h. btree_pivot_meta_set_count h (btree_get_index_entry h j) 0) [0..<btree_num_entries hdr] hdr"

text \<open>The warmth of the path below, whether the child was seen in the cache, and the pages.\<close>

definition track_pivot ::
  "lookup_env \<Rightarrow> page_type \<Rightarrow> nat \<Rightarrow> u64 \<Rightarrow> nat \<Rightarrow> u64 \<Rightarrow> bool \<Rightarrow> lookup_pages \<Rightarrow> bool \<times> bool \<times> lookup_pages" where
  "track_pivot E type h addr entry child is_warm P =
     (if type = PAGE_TYPE_BRANCH
      then
        let child_in_cache = is_warm \<and> le_present E child
        in if child_in_cache \<or> \<not> is_warm then (is_warm, child_in_cache, P)
           else
             let (warm, hdr, t) = btree_update_pivot_cnt_and_is_warm (le_arith E) (le_ei E) (le_now E h) (le_now2 E h)
                   (lk_nodes P addr) (lk_time P addr) entry
             in (warm, child_in_cache, P\<lparr>lk_nodes := (lk_nodes P)(addr := hdr), lk_time := (lk_time P)(addr := t)\<rparr>)
      else (is_warm, False, P))"

text \<open>The rounds that are left are counted down; \<open>stop_at_height + d\<close> is the height of the node.\<close>

primrec lookup_node_loop ::
  "btree_config \<Rightarrow> lookup_env \<Rightarrow> page_type \<Rightarrow> key \<Rightarrow> nat \<Rightarrow> nat \<Rightarrow> u64 \<Rightarrow> btree_pivot_stats \<Rightarrow> bool \<Rightarrow> lookup_pages \<Rightarrow>
   u64 \<times> btree_pivot_stats \<times> bool \<times> lookup_pages" where
  "lookup_node_loop cfg E type target stop 0 addr stats is_warm P = (addr, stats, is_warm, P)"
| "lookup_node_loop cfg E type target stop (Suc d) addr stats is_warm P =
     (let hdr = lk_nodes P addr; child_idx = lookup_child_idx cfg hdr target;
          entry = btree_get_index_entry hdr child_idx; child = index_entry_child_addr hdr entry;
          stats1 = accumulate_node_ranks hdr 0 child_idx stats;
          (is_warm1, child_in_cache, P1) = track_pivot E type (stop + Suc d) addr entry child is_warm P;
          P2 = (if \<not> child_in_cache \<and> 0 < d \<and> type = PAGE_TYPE_BRANCH
                then P1\<lparr>lk_nodes := (lk_nodes P1)(child := reset_pivot_counts (lk_nodes P1 child))\<rparr> else P1)
      in lookup_node_loop cfg E type target stop d child stats1 is_warm1 P2)"

definition zero_stats :: btree_pivot_stats where
  "zero_stats = \<lparr>num_kvs = 0, key_bytes = 0, message_bytes = 0\<rparr>"

definition btree_lookup_node ::
  "btree_config \<Rightarrow> lookup_env \<Rightarrow> u64 \<Rightarrow> key \<Rightarrow> nat \<Rightarrow> page_type \<Rightarrow> lookup_pages \<Rightarrow>
   u64 \<times> btree_pivot_stats \<times> bool \<times> lookup_pages" where
  "btree_lookup_node cfg E root target stop_at_height type P =
     lookup_node_loop cfg E type target stop_at_height (unat (btree_height (lk_nodes P root)) - stop_at_height)
       root zero_stats True P"

definition btree_lookup_with_ref ::
  "btree_config \<Rightarrow> lookup_env \<Rightarrow> u64 \<Rightarrow> page_type \<Rightarrow> key \<Rightarrow> lookup_pages \<Rightarrow> message option \<times> lookup_pages" where
  "btree_lookup_with_ref cfg E root type target P =
     (let (addr, _, _, P1) = btree_lookup_node cfg E root target 0 type P; hdr = lk_nodes P1 addr;
          (idx, found) = btree_find_tuple cfg hdr target
      in (if found then Some (leaf_entry_message hdr (btree_get_leaf_entry hdr (table_index idx))) else None, P1))"

text \<open>
  A merge accumulator is a message, or null; \<open>mem_ok\<close> is whether there is memory for its data.
\<close>

definition btree_lookup ::
  "btree_config \<Rightarrow> lookup_env \<Rightarrow> bool \<Rightarrow> u64 \<Rightarrow> page_type \<Rightarrow> key \<Rightarrow> message option \<Rightarrow> lookup_pages \<Rightarrow>
   platform_status \<times> message option \<times> lookup_pages" where
  "btree_lookup cfg E mem_ok root type target result P =
     (case btree_lookup_with_ref cfg E root type target P of
        (None, P1) \<Rightarrow> (STATUS_OK, result, P1)
      | (Some data, P1) \<Rightarrow> if mem_ok then (STATUS_OK, Some data, P1) else (STATUS_NO_MEMORY, result, P1))"

definition btree_lookup_and_merge ::
  "btree_config \<Rightarrow> lookup_env \<Rightarrow> bool \<Rightarrow> u64 \<Rightarrow> page_type \<Rightarrow> key \<Rightarrow> message option \<Rightarrow> lookup_pages \<Rightarrow>
   (platform_status \<times> message option \<times> bool \<times> lookup_pages) outcome" where
  "btree_lookup_and_merge cfg E mem_ok root type target data P =
     (case btree_lookup_with_ref cfg E root type target P of
        (None, P1) \<Rightarrow> Inr (STATUS_OK, data, False, P1)
      | (Some local_data, P1) \<Rightarrow>
          (case data of
             None \<Rightarrow> Inr (if mem_ok then (STATUS_OK, Some local_data, True, P1) else (STATUS_NO_MEMORY, None, True, P1))
           | Some new \<Rightarrow> obind (data_merge_tuples (bt_data_cfg cfg) target local_data new) (\<lambda>(result, merged).
               Inr (if result \<noteq> 0 then STATUS_NO_MEMORY else STATUS_OK, Some merged, True, P1))))"

section \<open>Ranks\<close>

definition btree_get_rank :: "btree_config \<Rightarrow> lookup_env \<Rightarrow> u64 \<Rightarrow> key \<Rightarrow> lookup_pages \<Rightarrow> btree_pivot_stats \<times> lookup_pages" where
  "btree_get_rank cfg E root target P =
     (let (leaf, stats, _, P1) = btree_lookup_node cfg E root target 0 PAGE_TYPE_BRANCH P; hdr = lk_nodes P1 leaf;
          (idx, found) = btree_find_tuple cfg hdr target
      in (accumulate_node_ranks hdr 0 (nat (if found then idx else idx + 1)) stats, P1))"

text \<open>The two lookups have environments of their own.\<close>

definition btree_count_in_range ::
  "btree_config \<Rightarrow> lookup_env \<Rightarrow> lookup_env \<Rightarrow> u64 \<Rightarrow> key \<Rightarrow> key \<Rightarrow> lookup_pages \<Rightarrow> btree_pivot_stats \<times> lookup_pages" where
  "btree_count_in_range cfg E1 E2 root min_key max_key P =
     (let (min_stats, P1) = btree_get_rank cfg E1 root min_key P; (stats, P2) = btree_get_rank cfg E2 root max_key P1
      in (if num_kvs min_stats < num_kvs stats
          then \<lparr>num_kvs = num_kvs stats - num_kvs min_stats, key_bytes = key_bytes stats - key_bytes min_stats,
                message_bytes = message_bytes stats - message_bytes min_stats\<rparr>
          else zero_stats, P2))"

end
