(* ===== verification/Iterator.thy ===== *)
theory Iterator
  imports BtData
begin

text \<open>
  The interface of iterators (\<open>splinterdb/src/iterator.h\<close>): a table of operations, and the contract that
  its clients rely on. An iterator is a cursor in a list of tuples: it stands at a tuple, before the
  first one, or behind the last one. Of an iterator that has no tuple only this is asked: that it does
  not claim to stand at one.
\<close>

section \<open>The table of operations\<close>

datatype comparison = less_than | less_than_or_equal | greater_than | greater_than_or_equal

text \<open>The operations act on an iterator and on the state that the iterators share.\<close>

record ('i, 's) iterator_ops =
  op_curr :: "'i \<Rightarrow> 's \<Rightarrow> key \<times> message"
  op_can_prev :: "'i \<Rightarrow> 's \<Rightarrow> bool"
  op_can_next :: "'i \<Rightarrow> 's \<Rightarrow> bool"
  op_next :: "'i \<Rightarrow> 's \<Rightarrow> (platform_status \<times> 'i \<times> 's) outcome"
  op_prev :: "'i \<Rightarrow> 's \<Rightarrow> (platform_status \<times> 'i \<times> 's) outcome"

definition iterator_can_curr :: "('i, 's) iterator_ops \<Rightarrow> 'i \<Rightarrow> 's \<Rightarrow> bool" where
  "iterator_can_curr ops i s \<longleftrightarrow> op_can_next ops i s \<and> op_can_prev ops i s"

text \<open>What a client does that reads: as long as there is a tuple, and at most \<open>n\<close> times, look at it and take a step.\<close>

primrec iterator_read ::
  "nat \<Rightarrow> ('i, 's) iterator_ops \<Rightarrow> bool \<Rightarrow> 'i \<Rightarrow> 's \<Rightarrow> (platform_status \<times> (key \<times> message) list \<times> 'i \<times> 's) outcome" where
  "iterator_read 0 ops forwards i s = Inr (STATUS_OK, [], i, s)"
| "iterator_read (Suc n) ops forwards i s =
     (if \<not> iterator_can_curr ops i s then Inr (STATUS_OK, [], i, s)
      else obind (if forwards then op_next ops i s else op_prev ops i s) (\<lambda>(rc, i1, s1).
        if rc \<noteq> STATUS_OK then Inr (rc, [op_curr ops i s], i1, s1)
        else obind (iterator_read n ops forwards i1 s1) (\<lambda>(rc, l, i2, s2). Inr (rc, op_curr ops i s # l, i2, s2))))"

section \<open>The contract\<close>

type_synonym cursor = "(key \<times> message) list \<times> int"

text \<open>What is left to visit in a direction: nothing, when the cursor does not stand at a tuple.\<close>

definition ahead :: "bool \<Rightarrow> cursor \<Rightarrow> (key \<times> message) list" where
  "ahead forwards c =
     (let (xs, n) = c
      in if n < 0 \<or> int (length xs) \<le> n then []
         else if forwards then drop (nat n) xs else rev (take (nat n + 1) xs))"

text \<open>\<open>undisturbed\<close>: what a step leaves as it was, on which the other iterators rely.\<close>

locale list_cursor =
  fixes ops :: "('i, 's) iterator_ops" and ok :: "'i \<Rightarrow> 's \<Rightarrow> bool" and view :: "'i \<Rightarrow> 's \<Rightarrow> cursor"
    and undisturbed :: "'s \<Rightarrow> 's \<Rightarrow> bool"
  assumes undisturbed_refl: "undisturbed s s"
    and undisturbed_trans: "undisturbed s s1 \<Longrightarrow> undisturbed s1 s2 \<Longrightarrow> undisturbed s s2"
    and undisturbed_ok: "undisturbed s s' \<Longrightarrow> ok i s \<Longrightarrow> ok i s' \<and> view i s' = view i s"
    and can_next: "ok i s \<Longrightarrow> fst (view i s) \<noteq> [] \<Longrightarrow>
      op_can_next ops i s \<longleftrightarrow> snd (view i s) < int (length (fst (view i s)))"
    and can_prev: "ok i s \<Longrightarrow> fst (view i s) \<noteq> [] \<Longrightarrow> op_can_prev ops i s \<longleftrightarrow> 0 \<le> snd (view i s)"
    and none_there: "ok i s \<Longrightarrow> fst (view i s) = [] \<Longrightarrow> \<not> iterator_can_curr ops i s"
    and curr: "ok i s \<Longrightarrow> 0 \<le> snd (view i s) \<Longrightarrow> snd (view i s) < int (length (fst (view i s))) \<Longrightarrow>
      op_curr ops i s = fst (view i s) ! nat (snd (view i s))"
    and next_ok: "ok i s \<Longrightarrow> fst (view i s) \<noteq> [] \<Longrightarrow> op_can_next ops i s \<Longrightarrow>
      \<exists>i' s'. op_next ops i s = Inr (STATUS_OK, i', s') \<and> ok i' s' \<and>
        view i' s' = (fst (view i s), snd (view i s) + 1) \<and> undisturbed s s'"
    and prev_ok: "ok i s \<Longrightarrow> fst (view i s) \<noteq> [] \<Longrightarrow> op_can_prev ops i s \<Longrightarrow>
      \<exists>i' s'. op_prev ops i s = Inr (STATUS_OK, i', s') \<and> ok i' s' \<and>
        view i' s' = (fst (view i s), snd (view i s) - 1) \<and> undisturbed s s'"
begin

lemma can_curr_iff:
  assumes ok: "ok i s"
  shows "iterator_can_curr ops i s \<longleftrightarrow> ahead d (view i s) \<noteq> []"
proof (cases "fst (view i s) = []")
  case True
  have "\<not> iterator_can_curr ops i s" by (rule none_there [OF ok True])
  moreover have "ahead d (view i s) = []" using True by (simp add: ahead_def split_beta)
  ultimately show ?thesis by simp
next
  case False
  show ?thesis unfolding iterator_can_curr_def can_next [OF ok False] can_prev [OF ok False]
    using False by (auto simp: ahead_def split_beta)
qed

lemma curr_is_next:
  assumes "ok i s" and "ahead d (view i s) \<noteq> []"
  shows "op_curr ops i s = hd (ahead d (view i s))"
proof -
  obtain xs n where v: "view i s = (xs, n)" by (cases "view i s")
  have n: "0 \<le> n" "n < int (length xs)" using assms(2) by (auto simp: ahead_def v split: if_splits)
  then have "ahead d (xs, n) = (if d then drop (nat n) xs else xs ! nat n # rev (take (nat n) xs))"
    by (simp add: ahead_def take_Suc_conv_app_nth)
  then show ?thesis using curr [OF assms(1)] n v by (simp add: hd_drop_conv_nth)
qed

text \<open>A step in a direction takes the next tuple off what is ahead, and disturbs no other iterator.\<close>

lemma step_ok:
  assumes "ok i s" and "ahead d (view i s) \<noteq> []"
  shows "\<exists>i' s'. (if d then op_next ops i s else op_prev ops i s) = Inr (STATUS_OK, i', s') \<and> ok i' s' \<and>
    ahead d (view i' s') = tl (ahead d (view i s)) \<and> undisturbed s s' \<and> (\<forall>j. ok j s \<longrightarrow> ok j s' \<and> view j s' = view j s)"
proof -
  obtain xs n where v: "view i s = (xs, n)" by (cases "view i s")
  have n: "0 \<le> n" "n < int (length xs)" using assms(2) by (auto simp: ahead_def v split: if_splits)
  have ne: "fst (view i s) \<noteq> []" using n v by auto
  have can: "op_can_next ops i s" "op_can_prev ops i s" using can_next [OF assms(1) ne] can_prev [OF assms(1) ne] n v by simp_all
  show ?thesis
  proof (cases d)
    case True
    obtain i' s' where r: "op_next ops i s = Inr (STATUS_OK, i', s')" "ok i' s'" "view i' s' = (xs, n + 1)"
      "undisturbed s s'" using next_ok [OF assms(1) ne can(1)] v by auto
    moreover have "ahead d (xs, n + 1) = tl (ahead d (xs, n))"
      using n True by (auto simp: ahead_def drop_Suc [symmetric] nat_add_distrib tl_drop)
    ultimately show ?thesis using True v undisturbed_ok [OF r(4)] by auto
  next
    case False
    obtain i' s' where r: "op_prev ops i s = Inr (STATUS_OK, i', s')" "ok i' s'" "view i' s' = (xs, n - 1)"
      "undisturbed s s'" using prev_ok [OF assms(1) ne can(2)] v by auto
    moreover have "ahead d (xs, n - 1) = tl (ahead d (xs, n))"
    proof (cases "n = 0")
      case True then show ?thesis using \<open>\<not> d\<close> n by (auto simp: ahead_def take_Suc neq_Nil_conv split: list.splits)
    next
      case False
      then have e: "nat n = Suc (nat (n - 1))" using n by simp
      show ?thesis using \<open>\<not> d\<close> n False by (simp add: ahead_def e take_Suc_conv_app_nth)
    qed
    ultimately show ?thesis using False v undisturbed_ok [OF r(4)] by auto
  qed
qed

text \<open>Reading gives what is ahead.\<close>

lemma read_ahead:
  "ok i s \<Longrightarrow> \<exists>i' s'. iterator_read n ops d i s = Inr (STATUS_OK, take n (ahead d (view i s)), i', s') \<and>
     ok i' s' \<and> ahead d (view i' s') = drop n (ahead d (view i s)) \<and> undisturbed s s'"
proof (induction n arbitrary: i s)
  case 0
  then show ?case using undisturbed_refl by simp
next
  case (Suc n)
  show ?case
  proof (cases "ahead d (view i s) = []")
    case True
    then show ?thesis using can_curr_iff [OF Suc.prems, of d] Suc.prems undisturbed_refl by simp
  next
    case False
    obtain x xs where x: "ahead d (view i s) = x # xs" using False by (cases "ahead d (view i s)") simp_all
    obtain i1 s1 where r: "(if d then op_next ops i s else op_prev ops i s) = Inr (STATUS_OK, i1, s1)" "ok i1 s1"
      "ahead d (view i1 s1) = xs" "undisturbed s s1" using step_ok [OF Suc.prems False] x by auto
    obtain i2 s2 where "iterator_read n ops d i1 s1 = Inr (STATUS_OK, take n xs, i2, s2)" "ok i2 s2"
      "ahead d (view i2 s2) = drop n xs" "undisturbed s1 s2" using Suc.IH [OF r(2)] r(3) by auto
    then show ?thesis
      using can_curr_iff [OF Suc.prems, of d] curr_is_next [OF Suc.prems False] False r(1) undisturbed_trans [OF r(4)] x by simp
  qed
qed

end

end
