(* ===== verification/RcAllocator.thy ===== *)
theory RcAllocator
  imports TpState
begin

text \<open>
  The extent allocator (\<open>splinterdb/src/allocator.h\<close>, \<open>allocator.c\<close>, \<open>rc_allocator.h\<close>,
  \<open>rc_allocator.c\<close>): one 32-bit reference count per extent, a hand that goes round the extents
  to find a free one, a meta page that maps root ids to super-block pages, and the
  persistence of both at unmount and mount.

  An extent is free at 0; an allocation gives it 2 (\<open>AL_ONE_REF\<close>), so that the holder of the
  last reference can decrement to 1 (\<open>AL_NO_REFS\<close>), discard the extent's cached pages and
  only then free it. The \<open>int64\<close> statistics are \<open>int\<close>s: none of them exceeds the number of
  allocations made. The checksum function of the meta page (XXH128, a third-party library) is
  the parameter \<open>csum\<close>; the device's copy of the meta page and of the counts are fields of the
  state.
\<close>

section \<open>Configuration\<close>

definition AL_ONE_REF :: u32 where "AL_ONE_REF = 2"
definition AL_NO_REFS :: u32 where "AL_NO_REFS = 1"
definition AL_FREE :: u32 where "AL_FREE = 0"
definition INVALID_ALLOCATOR_ROOT_ID :: u64 where "INVALID_ALLOCATOR_ROOT_ID = 0"
definition RC_ALLOCATOR_MAX_ROOT_IDS :: nat where "RC_ALLOCATOR_MAX_ROOT_IDS = 30"
definition RC_ALLOCATOR_BASE_OFFSET :: u64 where "RC_ALLOCATOR_BASE_OFFSET = 0"
definition LAIO_DEFAULT_PAGE_SIZE :: u64 where "LAIO_DEFAULT_PAGE_SIZE = 4096"
definition LAIO_DEFAULT_EXTENT_SIZE :: u64 where
  "LAIO_DEFAULT_EXTENT_SIZE = 32 * LAIO_DEFAULT_PAGE_SIZE"

lemmas al_consts =
  AL_ONE_REF_def AL_NO_REFS_def AL_FREE_def INVALID_ALLOCATOR_ROOT_ID_def
  RC_ALLOCATOR_MAX_ROOT_IDS_def RC_ALLOCATOR_BASE_OFFSET_def LAIO_DEFAULT_PAGE_SIZE_def
  LAIO_DEFAULT_EXTENT_SIZE_def

record io_config =
  ioc_page_size :: u64
  ioc_extent_size :: u64

record allocator_config =
  ac_io :: io_config
  ac_capacity :: u64
  ac_page_capacity :: u64
  ac_extent_capacity :: u64
  ac_extent_mask :: u64

definition laio_config_valid :: "io_config \<Rightarrow> platform_status" where
  "laio_config_valid io =
     (if ioc_page_size io \<noteq> LAIO_DEFAULT_PAGE_SIZE then STATUS_BAD_PARAM
      else if ioc_extent_size io \<noteq> LAIO_DEFAULT_EXTENT_SIZE then STATUS_BAD_PARAM
      else STATUS_OK)"

definition allocator_config_init :: "io_config \<Rightarrow> u64 \<Rightarrow> allocator_config" where
  "allocator_config_init io cap =
     \<lparr>ac_io = io, ac_capacity = cap, ac_page_capacity = cap div ioc_page_size io,
      ac_extent_capacity = cap div ioc_extent_size io,
      ac_extent_mask = NOT (push_bit (floor_log2 (unat (ioc_extent_size io))) 1 - 1)\<rparr>"

definition allocator_config_extent_base_addr :: "allocator_config \<Rightarrow> u64 \<Rightarrow> u64" where
  "allocator_config_extent_base_addr c addr = addr AND ac_extent_mask c"

definition rc_allocator_valid_config :: "allocator_config \<Rightarrow> platform_status" where
  "rc_allocator_valid_config c =
     (if laio_config_valid (ac_io c) \<noteq> STATUS_OK then laio_config_valid (ac_io c)
      else if ac_capacity c = 0 then STATUS_BAD_PARAM
      else if ac_extent_capacity c = 0 then STATUS_BAD_PARAM
      else if ac_capacity c \<noteq> ioc_page_size (ac_io c) * ac_page_capacity c then STATUS_BAD_PARAM
      else if ac_capacity c \<noteq> ioc_extent_size (ac_io c) * ac_extent_capacity c then STATUS_BAD_PARAM
      else STATUS_OK)"

section \<open>State\<close>

record 'c rc_allocator =
  rc_cfg :: allocator_config
  rc_ref_count :: "nat \<Rightarrow> u32"
  rc_hand :: u64
  rc_splinters :: "u64 list"
  rc_checksum :: 'c
  curr_allocated :: int
  max_allocated :: int
  extent_allocs :: "page_type \<Rightarrow> int"
  extent_deallocs :: "page_type \<Rightarrow> int"
  disk_meta :: "u64 list \<times> 'c"
  disk_refs :: "nat \<Rightarrow> u32"

definition rc_allocator_extent_size :: "'c rc_allocator \<Rightarrow> u64" where
  "rc_allocator_extent_size al = ioc_extent_size (ac_io (rc_cfg al))"

definition rc_allocator_page_size :: "'c rc_allocator \<Rightarrow> u64" where
  "rc_allocator_page_size al = ioc_page_size (ac_io (rc_cfg al))"

definition rc_allocator_get_config :: "'c rc_allocator \<Rightarrow> allocator_config" where
  "rc_allocator_get_config al = rc_cfg al"

definition rc_allocator_get_capacity :: "'c rc_allocator \<Rightarrow> u64" where
  "rc_allocator_get_capacity al = ac_capacity (rc_cfg al)"

definition rc_allocator_in_use :: "'c rc_allocator \<Rightarrow> int" where
  "rc_allocator_in_use al = curr_allocated al"

definition rc_allocator_valid_extent_addr :: "'c rc_allocator \<Rightarrow> u64 \<Rightarrow> bool" where
  "rc_allocator_valid_extent_addr al a \<longleftrightarrow> a mod rc_allocator_extent_size al = 0"

definition rc_allocator_extent_number :: "'c rc_allocator \<Rightarrow> u64 \<Rightarrow> u64" where
  "rc_allocator_extent_number al a = a div rc_allocator_extent_size al"

definition set_ref :: "'c rc_allocator \<Rightarrow> nat \<Rightarrow> u32 \<Rightarrow> 'c rc_allocator" where
  "set_ref al i r = al\<lparr>rc_ref_count := (rc_ref_count al)(i := r)\<rparr>"

section \<open>Reference counts\<close>

definition rc_allocator_inc_ref :: "'c rc_allocator \<Rightarrow> u64 \<Rightarrow> (u32 \<times> 'c rc_allocator) outcome" where
  "rc_allocator_inc_ref al a =
     (let extent_no = unat (a div rc_allocator_extent_size al);
          r = rc_ref_count al extent_no + 1
      in if \<not> (r \<noteq> 1 \<and> r \<noteq> 0) then Inl Abort else Inr (r, set_ref al extent_no r))"

definition rc_allocator_dec_ref ::
  "'c rc_allocator \<Rightarrow> u64 \<Rightarrow> page_type \<Rightarrow> (u32 \<times> 'c rc_allocator) outcome" where
  "rc_allocator_dec_ref al a t =
     (let extent_no = unat (a div rc_allocator_extent_size al);
          r = rc_ref_count al extent_no - 1;
          al1 = set_ref al extent_no r
      in if r = - 1 then Inl Abort
         else if r = 0
         then (if t = PAGE_TYPE_INVALID then Inl Abort
               else Inr (r, al1\<lparr>curr_allocated := curr_allocated al1 - 1,
                                extent_deallocs := (extent_deallocs al1)(t := extent_deallocs al1 t + 1)\<rparr>))
         else Inr (r, al1))"

definition rc_allocator_get_ref :: "'c rc_allocator \<Rightarrow> u64 \<Rightarrow> u32" where
  "rc_allocator_get_ref al a = rc_ref_count al (unat (rc_allocator_extent_number al a))"

section \<open>Allocation\<close>

text \<open>
  The \<open>do ... while\<close> loop of \<open>rc_allocator_alloc\<close>. The hand is a 64-bit counter; twice the
  number of extents bounds the turns of the loop even where the counter wraps.
\<close>

fun alloc_scan :: "nat \<Rightarrow> u64 \<Rightarrow> 'c rc_allocator \<Rightarrow> (u64 option \<times> 'c rc_allocator) outcome" where
  "alloc_scan 0 first_hand al = Inl Blocked"
| "alloc_scan (Suc fuel) first_hand al =
     (let cap = ac_extent_capacity (rc_cfg al);
          h = rc_hand al mod cap;
          al1 = al\<lparr>rc_hand := rc_hand al + 1\<rparr>
      in if rc_ref_count al1 (unat h) = 0 then Inr (Some h, set_ref al1 (unat h) 2)
         else if (h + 1) mod cap \<noteq> first_hand then alloc_scan fuel first_hand al1
         else Inr (None, al1))"

definition rc_allocator_alloc ::
  "'c rc_allocator \<Rightarrow> page_type \<Rightarrow> (platform_status \<times> u64 option \<times> 'c rc_allocator) outcome" where
  "rc_allocator_alloc al t =
     (let cap = ac_extent_capacity (rc_cfg al);
          first_hand = rc_hand al mod cap
      in obind (alloc_scan (Suc (2 * unat cap)) first_hand al) (\<lambda>(found, al1).
         case found of
           None \<Rightarrow> Inr (STATUS_NO_SPACE, None, al1)
         | Some h \<Rightarrow>
             let curr = curr_allocated al1 + 1
             in Inr (STATUS_OK, Some (h * rc_allocator_extent_size al1),
                  al1\<lparr>curr_allocated := curr, max_allocated := max (max_allocated al1) curr,
                      extent_allocs := (extent_allocs al1)(t := extent_allocs al1 t + 1)\<rparr>)))"

section \<open>Super blocks\<close>

fun find_root :: "u64 \<Rightarrow> u64 list \<Rightarrow> nat option" where
  "find_root root [] = None"
| "find_root root (x # xs) = (if x = root then Some 0 else map_option Suc (find_root root xs))"

definition super_page :: "'c rc_allocator \<Rightarrow> nat \<Rightarrow> u64" where
  "super_page al idx = (1 + of_nat idx) * rc_allocator_page_size al"

definition rc_allocator_get_super_addr :: "'c rc_allocator \<Rightarrow> u64 \<Rightarrow> platform_status \<times> u64 option" where
  "rc_allocator_get_super_addr al root =
     (case find_root root (rc_splinters al) of
        Some idx \<Rightarrow> (STATUS_OK, Some (super_page al idx))
      | None \<Rightarrow> (STATUS_NOT_FOUND, None))"

text \<open>Changing a slot of the meta page, with its checksum, and writing the page to the device.\<close>

definition write_slot ::
  "(u64 list \<Rightarrow> 'c) \<Rightarrow> bool \<Rightarrow> 'c rc_allocator \<Rightarrow> nat \<Rightarrow> u64 \<Rightarrow> 'c rc_allocator outcome" where
  "write_slot csum io_ok al idx root =
     (let sp = (rc_splinters al)[idx := root]
      in if \<not> io_ok then Inl Abort
         else Inr (al\<lparr>rc_splinters := sp, rc_checksum := csum sp, disk_meta := (sp, csum sp)\<rparr>))"

definition rc_allocator_alloc_super_addr ::
  "(u64 list \<Rightarrow> 'c) \<Rightarrow> bool \<Rightarrow> 'c rc_allocator \<Rightarrow> u64 \<Rightarrow>
   (platform_status \<times> u64 option \<times> 'c rc_allocator) outcome" where
  "rc_allocator_alloc_super_addr csum io_ok al root =
     (case find_root INVALID_ALLOCATOR_ROOT_ID (rc_splinters al) of
        Some idx \<Rightarrow> obind (write_slot csum io_ok al idx root)
                      (\<lambda>al1. Inr (STATUS_OK, Some (super_page al idx), al1))
      | None \<Rightarrow> Inr (STATUS_NOT_FOUND, None, al))"

definition rc_allocator_remove_super_addr ::
  "(u64 list \<Rightarrow> 'c) \<Rightarrow> bool \<Rightarrow> 'c rc_allocator \<Rightarrow> u64 \<Rightarrow> 'c rc_allocator outcome" where
  "rc_allocator_remove_super_addr csum io_ok al root =
     (case find_root root (rc_splinters al) of
        Some idx \<Rightarrow> write_slot csum io_ok al idx INVALID_ALLOCATOR_ROOT_ID
      | None \<Rightarrow> Inl Abort)"

section \<open>Creation, mount and unmount\<close>

definition roundup :: "u64 \<Rightarrow> u64 \<Rightarrow> u64" where
  "roundup x y = (x + y - 1) div y * y"

definition ref_buffer_size :: "allocator_config \<Rightarrow> u64" where
  "ref_buffer_size c = roundup (ac_extent_capacity c * 4) (ioc_page_size (ac_io c))"

text \<open>\<open>None\<close> stands for a failed allocation of the meta page.\<close>

definition rc_allocator_init_meta_page :: "io_config \<Rightarrow> bool \<Rightarrow> u64 list option outcome" where
  "rc_allocator_init_meta_page io mem_ok =
     (if \<not> 256 \<le> ioc_page_size io then Inl Abort
      else if \<not> (1 + of_nat RC_ALLOCATOR_MAX_ROOT_IDS) * ioc_page_size io \<le> ioc_extent_size io then Inl Abort
      else if \<not> mem_ok then Inr None
      else Inr (Some (replicate RC_ALLOCATOR_MAX_ROOT_IDS INVALID_ALLOCATOR_ROOT_ID)))"

text \<open>
  The state after the fields have been zeroed and the buffers allocated: \<open>c0\<close> is the zeroed
  checksum, \<open>dm\<close> and \<open>dr\<close> what the device holds.
\<close>

definition rc_fresh ::
  "allocator_config \<Rightarrow> 'c \<Rightarrow> u64 list \<Rightarrow> (nat \<Rightarrow> u32) \<Rightarrow> u64 list \<times> 'c \<Rightarrow> (nat \<Rightarrow> u32) \<Rightarrow> 'c rc_allocator" where
  "rc_fresh c c0 sp refs dm dr =
     \<lparr>rc_cfg = c, rc_ref_count = refs, rc_hand = 0, rc_splinters = sp, rc_checksum = c0,
      curr_allocated = 0, max_allocated = 0, extent_allocs = (\<lambda>_. 0), extent_deallocs = (\<lambda>_. 0),
      disk_meta = dm, disk_refs = dr\<rparr>"

text \<open>One call of \<open>allocator_alloc\<close> in \<open>rc_allocator_init\<close>, whose status is not looked at.\<close>

definition init_alloc :: "u64 \<Rightarrow> u64 \<times> 'c rc_allocator \<Rightarrow> (u64 \<times> 'c rc_allocator) outcome" where
  "init_alloc expected x =
     obind (rc_allocator_alloc (snd x) PAGE_TYPE_SUPERBLOCK) (\<lambda>(st, r, al).
       let addr = (case r of None \<Rightarrow> fst x | Some a \<Rightarrow> a)
       in if addr \<noteq> expected then Inl Abort else Inr (addr, al))"

definition rc_allocator_init ::
  "allocator_config \<Rightarrow> bool \<Rightarrow> bool \<Rightarrow> bool \<Rightarrow> 'c \<Rightarrow> u64 \<Rightarrow> u64 list \<times> 'c \<Rightarrow> (nat \<Rightarrow> u32) \<Rightarrow>
   (platform_status + 'c rc_allocator) outcome" where
  "rc_allocator_init c mutex_ok mem_ok buf_ok c0 addr0 dm dr =
     (if rc_allocator_valid_config c \<noteq> STATUS_OK then Inr (Inl (rc_allocator_valid_config c))
      else if \<not> mutex_ok then Inr (Inl STATUS_NO_MEMORY)
      else obind (rc_allocator_init_meta_page (ac_io c) mem_ok) (\<lambda>meta.
        case meta of None \<Rightarrow> Inr (Inl STATUS_NO_MEMORY)
        | Some sp \<Rightarrow>
            if \<not> buf_ok then Inr (Inl STATUS_NO_MEMORY)
            else
              let al = rc_fresh c c0 sp (\<lambda>_. 0) dm dr;
                  ext = ioc_extent_size (ac_io c);
                  rc_extent_count = (ref_buffer_size c + ext - 1) div ext
              in obind (init_alloc RC_ALLOCATOR_BASE_OFFSET (addr0, al)) (\<lambda>x.
                 obind (iterM (\<lambda>i. init_alloc (ext * (of_nat i + 1))) [0..<unat rc_extent_count] x)
                   (\<lambda>y. Inr (Inr (snd y))))))"

definition rc_allocator_mount ::
  "(u64 list \<Rightarrow> 'c) \<Rightarrow> allocator_config \<Rightarrow> bool \<Rightarrow> bool \<Rightarrow> bool \<Rightarrow> bool \<Rightarrow> u64 list \<times> 'c \<Rightarrow> (nat \<Rightarrow> u32) \<Rightarrow>
   (platform_status + 'c rc_allocator) outcome" where
  "rc_allocator_mount csum c mutex_ok mem_ok buf_ok io_ok dm dr =
     (if \<not> mutex_ok then Inr (Inl STATUS_NO_MEMORY)
      else obind (rc_allocator_init_meta_page (ac_io c) mem_ok) (\<lambda>meta.
        case meta of None \<Rightarrow> Inr (Inl STATUS_NO_MEMORY)
        | Some sp \<Rightarrow>
            if \<not> ioc_page_size (ac_io c) mod 4096 = 0 then Inl Abort
            else if \<not> ac_capacity c = ioc_extent_size (ac_io c) * ac_extent_capacity c then Inl Abort
            else if \<not> ac_capacity c = ioc_page_size (ac_io c) * ac_page_capacity c then Inl Abort
            else if \<not> buf_ok then Inr (Inl STATUS_NO_MEMORY)
            else if \<not> io_ok then Inl Abort
            else if \<not> snd dm = csum (fst dm) then Inl Abort
            else
              let al = rc_fresh c (snd dm) (fst dm) dr dm dr
              in Inr (Inr (al\<lparr>curr_allocated :=
                   int (length (filter (\<lambda>i. rc_ref_count al i \<noteq> 0) [0..<unat (ac_extent_capacity c)]))\<rparr>))))"

text \<open>
  \<open>rc_allocator_unmount\<close> keeps the size of the write in a \<open>uint32\<close>. The result is what the
  device holds; the allocator's memory is released.
\<close>

definition rc_allocator_unmount :: "bool \<Rightarrow> 'c rc_allocator \<Rightarrow> ((u64 list \<times> 'c) \<times> (nat \<Rightarrow> u32)) outcome" where
  "rc_allocator_unmount io_ok al =
     (let io_size = (ucast (ref_buffer_size (rc_cfg al)) :: u32)
      in if \<not> io_ok then Inl Abort
         else Inr (disk_meta al,
                   \<lambda>i. if i < unat io_size div 4 then rc_ref_count al i else disk_refs al i))"

definition rc_allocator_assert_noleaks :: "'c rc_allocator \<Rightarrow> unit outcome" where
  "rc_allocator_assert_noleaks al =
     (if \<forall>t\<in>set [PAGE_TYPE_TRUNK, PAGE_TYPE_BRANCH, PAGE_TYPE_MEMTABLE, PAGE_TYPE_FILTER, PAGE_TYPE_MISC].
           extent_allocs al t = extent_deallocs al t
      then Inr () else Inl Abort)"

section \<open>The table of operations\<close>

record ('a, 'c) allocator_ops =
  op_get_config :: "'a \<Rightarrow> allocator_config"
  op_alloc :: "'a \<Rightarrow> page_type \<Rightarrow> (platform_status \<times> u64 option \<times> 'a) outcome"
  op_inc_ref :: "'a \<Rightarrow> u64 \<Rightarrow> (u32 \<times> 'a) outcome"
  op_dec_ref :: "'a \<Rightarrow> u64 \<Rightarrow> page_type \<Rightarrow> (u32 \<times> 'a) outcome"
  op_get_ref :: "'a \<Rightarrow> u64 \<Rightarrow> u32"
  op_get_super_addr :: "'a \<Rightarrow> u64 \<Rightarrow> platform_status \<times> u64 option"
  op_alloc_super_addr :: "(u64 list \<Rightarrow> 'c) \<Rightarrow> bool \<Rightarrow> 'a \<Rightarrow> u64 \<Rightarrow> (platform_status \<times> u64 option \<times> 'a) outcome"
  op_remove_super_addr :: "(u64 list \<Rightarrow> 'c) \<Rightarrow> bool \<Rightarrow> 'a \<Rightarrow> u64 \<Rightarrow> 'a outcome"
  op_in_use :: "'a \<Rightarrow> int"
  op_get_capacity :: "'a \<Rightarrow> u64"
  op_assert_noleaks :: "'a \<Rightarrow> unit outcome"

definition rc_allocator_ops :: "('c rc_allocator, 'c) allocator_ops" where
  "rc_allocator_ops =
     \<lparr>op_get_config = rc_allocator_get_config, op_alloc = rc_allocator_alloc,
      op_inc_ref = rc_allocator_inc_ref, op_dec_ref = rc_allocator_dec_ref,
      op_get_ref = rc_allocator_get_ref, op_get_super_addr = rc_allocator_get_super_addr,
      op_alloc_super_addr = rc_allocator_alloc_super_addr,
      op_remove_super_addr = rc_allocator_remove_super_addr, op_in_use = rc_allocator_in_use,
      op_get_capacity = rc_allocator_get_capacity, op_assert_noleaks = rc_allocator_assert_noleaks\<rparr>"

text \<open>\<open>allocator_page_valid\<close> works on any allocator.\<close>

definition allocator_page_valid :: "('a, 'c) allocator_ops \<Rightarrow> 'a \<Rightarrow> u64 \<Rightarrow> bool" where
  "allocator_page_valid ops al addr =
     (let c = op_get_config ops al
      in if addr mod ioc_page_size (ac_io c) \<noteq> 0 then False
         else
           let base_addr = allocator_config_extent_base_addr c addr
           in if base_addr \<noteq> 0 \<and> addr < ac_capacity c then op_get_ref ops al base_addr \<noteq> 0
              else False)"

end
