(* ===== verification/BtIter.thy ===== *)
theory BtIter
  imports BtTree Iterator RcAllocator
begin

unbundle bit_operations_syntax

text \<open>
  The iterators of \<open>splinterdb/src/btree.c\<close>: a position in a node, the end that was looked up when the
  iterator was set up, and the list of the nodes of one height. The accumulation of clock values for
  compactions, which an iterator does only after \<open>btree_iterator_setup_clock_accum\<close>, is left out.
\<close>

section \<open>The state\<close>

record btree_iterator =
  it_do_prefetch :: bool
  it_height :: u32
  it_page_type :: page_type
  it_min_key :: key
  it_max_key :: key
  it_root_addr :: u64
  it_curr :: u64
  it_idx :: int
  it_curr_min_idx :: int
  it_end_addr :: u64
  it_end_idx :: int
  it_end_generation :: u64
  it_is_warm :: bool

text \<open>
  What the iterators share: the pages, what the lookups ask the cache and the clock - one environment
  for each lookup -, whether claims are granted, and the extents that are prefetched.
\<close>

record iter_state =
  is_pages :: lookup_pages
  is_env :: "nat \<Rightarrow> lookup_env"
  is_lookups :: nat
  is_claims :: "bool list"
  is_prefetched :: "u64 list"

abbreviation iter_node :: "iter_state \<Rightarrow> u64 \<Rightarrow> btree_hdr" where "iter_node st a \<equiv> lk_nodes (is_pages st) a"

text \<open>
  The node that a lookup comes to, and the warmth of its path. \<open>btree_lookup_node\<close> takes the height to
  stop at as a \<open>uint16\<close>.
\<close>

definition iter_lookup ::
  "btree_config \<Rightarrow> btree_iterator \<Rightarrow> key \<Rightarrow> iter_state \<Rightarrow> u64 \<times> bool \<times> iter_state" where
  "iter_lookup tc it target st =
     (let (addr, _, warm, P) = btree_lookup_node tc (is_env st (is_lookups st)) (it_root_addr it) target
            (unat (ucast (it_height it) :: u16)) (it_page_type it) (is_pages st)
      in (addr, warm, st\<lparr>is_pages := P, is_lookups := is_lookups st + 1\<rparr>))"

definition btree_addrs_share_extent :: "allocator_config \<Rightarrow> u64 \<Rightarrow> u64 \<Rightarrow> bool" where
  "btree_addrs_share_extent ac left_addr right_addr \<longleftrightarrow>
     allocator_config_extent_base_addr ac right_addr = allocator_config_extent_base_addr ac left_addr"

section \<open>Bounds and tuples\<close>

definition btree_iterator_can_prev :: "btree_iterator \<Rightarrow> iter_state \<Rightarrow> bool" where
  "btree_iterator_can_prev it st \<longleftrightarrow>
     it_curr_min_idx it \<le> it_idx it \<and> (it_curr_min_idx it \<noteq> it_end_idx it \<or> it_curr it \<noteq> it_end_addr it)"

definition btree_iterator_can_next :: "btree_iterator \<Rightarrow> iter_state \<Rightarrow> bool" where
  "btree_iterator_can_next it st \<longleftrightarrow>
     it_curr it \<noteq> it_end_addr it \<or> (it_idx it < it_end_idx it \<and> it_curr_min_idx it \<noteq> it_end_idx it)"

definition btree_iterator_curr :: "btree_iterator \<Rightarrow> iter_state \<Rightarrow> key \<times> message" where
  "btree_iterator_curr it st =
     (let hdr = iter_node st (it_curr it); i = table_index (it_idx it)
      in if height hdr = 0 then (btree_get_tuple_key hdr i, btree_get_tuple_message hdr i)
         else
           let entry = btree_get_index_entry hdr i
           in (index_entry_key hdr entry, \<lparr>msg_type = MESSAGE_TYPE_PIVOT_DATA, msg_data = get_bytes (node_bytes hdr) entry 20\<rparr>))"

text \<open>
  In a node above the leaves the search is for the lower bound, whatever the target. An iterator above
  the root becomes one that is above every node.
\<close>

definition find_key_in_node ::
  "btree_config \<Rightarrow> btree_iterator \<Rightarrow> btree_hdr \<Rightarrow> key \<Rightarrow> comparison \<Rightarrow> int \<times> bool \<times> btree_iterator" where
  "find_key_in_node tc it hdr target position_rule =
     (if it_height it \<noteq> 0 \<and> unat (height hdr) < unat (it_height it) then (0, False, it\<lparr>it_height := - 1\<rparr>)
      else
        let (tmp, found) = (if it_height it = 0 then btree_find_tuple tc hdr target
                            else btree_find_pivot tc hdr (it_min_key it))
        in (case position_rule of
              less_than \<Rightarrow> if found then tmp - 1 else tmp
            | less_than_or_equal \<Rightarrow> tmp
            | greater_than_or_equal \<Rightarrow> if found then tmp else tmp + 1
            | greater_than \<Rightarrow> tmp + 1, found, it))"

definition btree_iterator_find_end :: "btree_config \<Rightarrow> btree_iterator \<Rightarrow> iter_state \<Rightarrow> btree_iterator \<times> iter_state" where
  "btree_iterator_find_end tc it st =
     (let (addr, _, st1) = iter_lookup tc it (it_max_key it) st; hdr = iter_node st1 addr;
          it1 = it\<lparr>it_end_addr := addr, it_end_generation := generation hdr\<rparr>
      in if it_max_key it = POSITIVE_INFINITY_KEY then (it1\<lparr>it_end_idx := int (btree_num_entries hdr)\<rparr>, st1)
         else
           let (idx, _, it2) = find_key_in_node tc it1 hdr (it_max_key it) greater_than_or_equal
           in (it2\<lparr>it_end_idx := idx\<rparr>, st1))"

section \<open>From leaf to leaf\<close>

definition prefetch_next ::
  "allocator_config \<Rightarrow> btree_iterator \<Rightarrow> iter_state \<Rightarrow> iter_state" where
  "prefetch_next ac it st =
     (let hdr = iter_node st (it_curr it)
      in if it_do_prefetch it \<and> next_extent_addr hdr \<noteq> 0 \<and> \<not> btree_addrs_share_extent ac (it_curr it) (it_end_addr it)
         then st\<lparr>is_prefetched := is_prefetched st @ [next_extent_addr hdr]\<rparr> else st)"

text \<open>
  When the end node has changed since the end was looked up, the end is looked up again. The loop of
  the code does so once: then the generation is that of the node.
\<close>

definition btree_iterator_next_leaf ::
  "allocator_config \<Rightarrow> btree_config \<Rightarrow> btree_iterator \<Rightarrow> iter_state \<Rightarrow> btree_iterator \<times> iter_state" where
  "btree_iterator_next_leaf ac tc it st =
     (let last_addr = it_curr it;
          it1 = it\<lparr>it_curr := next_addr (iter_node st last_addr), it_idx := 0, it_curr_min_idx := - 1\<rparr>;
          (it2, st1) = (if it_curr it1 = it_end_addr it1 \<and> generation (iter_node st (it_curr it1)) \<noteq> it_end_generation it1
                        then btree_iterator_find_end tc it1 st else (it1, st))
      in (it2, if \<not> btree_addrs_share_extent ac last_addr (it_curr it2) then prefetch_next ac it2 st1 else st1))"

text \<open>The walk to the leaf before the old one; \<open>n\<close> bounds its steps.\<close>

primrec walk_to_prev :: "nat \<Rightarrow> u64 \<Rightarrow> u64 \<Rightarrow> iter_state \<Rightarrow> u64 outcome" where
  "walk_to_prev 0 curr_addr a st = Inl Blocked"
| "walk_to_prev (Suc n) curr_addr a st =
     (if next_addr (iter_node st a) \<noteq> curr_addr then walk_to_prev n curr_addr (next_addr (iter_node st a)) st else Inr a)"

definition btree_iterator_prev_leaf ::
  "nat \<Rightarrow> btree_config \<Rightarrow> btree_iterator \<Rightarrow> iter_state \<Rightarrow> btree_iterator outcome" where
  "btree_iterator_prev_leaf n tc it st =
     obind (walk_to_prev n (it_curr it) (prev_addr (iter_node st (it_curr it))) st) (\<lambda>a.
       let hdr = iter_node st a;
           first_key = (if it_height it \<noteq> 0 then btree_get_pivot hdr 0 else btree_get_tuple_key hdr 0);
           min_idx = (if btree_key_compare tc (it_min_key it) first_key < 0 then - 1
                      else
                        let (i, found) = (if it_height it \<noteq> 0 then btree_find_pivot tc hdr (it_min_key it)
                                          else btree_find_tuple tc hdr (it_min_key it))
                        in if found then i else i + 1)
       in Inr (it\<lparr>it_curr := a, it_idx := int (btree_num_entries hdr) - 1,
                  it_curr_min_idx := (if prev_addr hdr = 0 \<and> min_idx = - 1 then 0 else min_idx)\<rparr>))"

section \<open>The operations\<close>

definition btree_iterator_next ::
  "allocator_config \<Rightarrow> btree_config \<Rightarrow> btree_iterator \<Rightarrow> iter_state \<Rightarrow> (platform_status \<times> btree_iterator \<times> iter_state) outcome" where
  "btree_iterator_next ac tc it st =
     (let it1 = it\<lparr>it_idx := it_idx it + 1\<rparr>;
          (it2, st1) = (if it_idx it1 = int (btree_num_entries (iter_node st (it_curr it1))) \<and> btree_iterator_can_next it1 st
                        then btree_iterator_next_leaf ac tc it1 st else (it1, st))
      in Inr (STATUS_OK, it2, st1))"

definition btree_iterator_prev ::
  "nat \<Rightarrow> btree_config \<Rightarrow> btree_iterator \<Rightarrow> iter_state \<Rightarrow> (platform_status \<times> btree_iterator \<times> iter_state) outcome" where
  "btree_iterator_prev n tc it st =
     (let it1 = it\<lparr>it_idx := it_idx it - 1\<rparr>
      in obind (if it_curr_min_idx it1 = - 1 \<and> it_idx it1 = - 1 then btree_iterator_prev_leaf n tc it1 st else Inr it1)
           (\<lambda>it2. Inr (STATUS_OK, it2, st)))"

text \<open>A refused claim on the node is followed by another lookup; \<open>bs\<close> are the answers.\<close>

primrec lookup_and_claim ::
  "bool list \<Rightarrow> btree_config \<Rightarrow> btree_iterator \<Rightarrow> key \<Rightarrow> iter_state \<Rightarrow> btree_iterator \<times> iter_state" where
  "lookup_and_claim [] tc it target st =
     (let (addr, warm, st1) = iter_lookup tc it target st
      in (it\<lparr>it_curr := addr, it_is_warm := warm\<rparr>, st1\<lparr>is_claims := []\<rparr>))"
| "lookup_and_claim (b # bs) tc it target st =
     (let (addr, warm, st1) = iter_lookup tc it target st; it1 = it\<lparr>it_curr := addr, it_is_warm := warm\<rparr>
      in if b then (it1, st1\<lparr>is_claims := bs\<rparr>) else lookup_and_claim bs tc it1 target st1)"

text \<open>Behind the last entry of a node, or before the first one, the iterator moves to the neighbour.\<close>

definition settle ::
  "nat \<Rightarrow> allocator_config \<Rightarrow> btree_config \<Rightarrow> btree_iterator \<Rightarrow> iter_state \<Rightarrow> (btree_iterator \<times> iter_state) outcome" where
  "settle n ac tc it st =
     (let (it1, st1) = (if it_curr it \<noteq> it_end_addr it \<and> it_idx it = int (btree_num_entries (iter_node st (it_curr it)))
                        then (let (i, s) = btree_iterator_next_leaf ac tc it st in (i\<lparr>it_curr_min_idx := 0\<rparr>, s))
                        else (it, st))
      in obind (if it_curr_min_idx it1 = - 1 \<and> it_idx it1 = - 1 then btree_iterator_prev_leaf n tc it1 st1 else Inr it1)
           (\<lambda>it2. Inr (it2, st1)))"

definition find_btree_node_and_get_idx_bounds ::
  "nat \<Rightarrow> allocator_config \<Rightarrow> btree_config \<Rightarrow> btree_iterator \<Rightarrow> key \<Rightarrow> comparison \<Rightarrow> iter_state \<Rightarrow>
   (btree_iterator \<times> iter_state) outcome" where
  "find_btree_node_and_get_idx_bounds n ac tc it target position_rule st =
     (let (it1, st1) = lookup_and_claim (is_claims st) tc it target st;
          (it2, st2) = btree_iterator_find_end tc it1 st1;
          hdr = iter_node st2 (it_curr it2);
          (tmp, found, it3) = find_key_in_node tc it2 hdr (it_min_key it2) greater_than_or_equal;
          min_idx = (if \<not> found \<and> tmp = 0 then tmp - 1 else tmp);
          min_idx = (if min_idx = - 1 \<and> prev_addr hdr = 0 then 0 else min_idx);
          (idx, _, it4) = find_key_in_node tc it3 hdr target position_rule;
          it5 = it4\<lparr>it_curr_min_idx := min_idx, it_idx := idx\<rparr>
      in settle n ac tc it5 st2)"

definition btree_iterator_seek ::
  "nat \<Rightarrow> allocator_config \<Rightarrow> btree_config \<Rightarrow> btree_iterator \<Rightarrow> key \<Rightarrow> comparison \<Rightarrow> iter_state \<Rightarrow>
   (platform_status \<times> btree_iterator \<times> iter_state) outcome" where
  "btree_iterator_seek n ac tc it seek_key seek_type st =
     (if btree_key_compare tc seek_key (it_min_key it) < 0 \<or> btree_key_compare tc seek_key (it_max_key it) > 0
      then Inr (STATUS_BAD_PARAM, it, st)
      else
        let hdr = iter_node st (it_curr it);
            key_at = (\<lambda>i. if it_height it \<noteq> 0 then btree_get_pivot hdr (table_index i) else btree_get_tuple_key hdr (table_index i))
        in if btree_key_compare tc seek_key (key_at 0) \<ge> 0 \<and> btree_key_compare tc seek_key (key_at (it_end_idx it - 1)) \<le> 0
           then
             let (idx, _, it1) = find_key_in_node tc it hdr seek_key seek_type
             in if idx < 0 then Inl Abort else Inr (STATUS_OK, it1\<lparr>it_idx := idx\<rparr>, st)
           else obind (find_btree_node_and_get_idx_bounds n ac tc it seek_key seek_type st)
                  (\<lambda>(it1, st1). Inr (STATUS_OK, it1, st1)))"

definition btree_iterator_init ::
  "nat \<Rightarrow> allocator_config \<Rightarrow> btree_config \<Rightarrow> u64 \<Rightarrow> page_type \<Rightarrow> key \<Rightarrow> key \<Rightarrow> key \<Rightarrow> comparison \<Rightarrow> bool \<Rightarrow> u32 \<Rightarrow> iter_state \<Rightarrow>
   (btree_iterator \<times> iter_state) outcome" where
  "btree_iterator_init n ac tc root type min_key max_key start_key start_type do_prefetch h st =
     (if root = 0 then Inl Abort
      else
        let max_key = (if btree_key_compare tc min_key max_key > 0 then min_key else max_key);
            start_key = (if btree_key_compare tc start_key min_key < 0 then min_key else start_key);
            start_key = (if btree_key_compare tc start_key max_key > 0 then max_key else start_key);
            it = \<lparr>it_do_prefetch = do_prefetch, it_height = h, it_page_type = type, it_min_key = min_key,
                  it_max_key = max_key, it_root_addr = root, it_curr = 0, it_idx = 0, it_curr_min_idx = 0, it_end_addr = 0,
                  it_end_idx = 0, it_end_generation = 0, it_is_warm = False\<rparr>
        in obind (find_btree_node_and_get_idx_bounds n ac tc it start_key start_type st)
             (\<lambda>(it1, st1). Inr (it1, prefetch_next ac it1 st1)))"

definition btree_iterator_ops :: "nat \<Rightarrow> allocator_config \<Rightarrow> btree_config \<Rightarrow> (btree_iterator, iter_state) iterator_ops" where
  "btree_iterator_ops n ac tc =
     \<lparr>op_curr = btree_iterator_curr, op_can_prev = btree_iterator_can_prev, op_can_next = btree_iterator_can_next,
      op_next = btree_iterator_next ac tc, op_prev = btree_iterator_prev n tc\<rparr>"

end
