(* ===== verification/BtDataProofs.thy ===== *)
theory BtDataProofs
  imports BtData
begin

text \<open>
  What is written to the bytes of a page is read back, and the rest of the page stays; keys
  and tuples survive their form on disk; the order of the default configuration.
\<close>

section \<open>Bytes\<close>

lemma length_get_bytes [simp]: "length (get_bytes m p n) = n"
  by (simp add: get_bytes_def)

lemma length_le_bytes [simp]: "length (le_bytes n v) = n"
  by (simp add: le_bytes_def)

lemma get_put_same [simp]: "n = length bs \<Longrightarrow> get_bytes (put_bytes m p bs) p n = bs"
  by (rule nth_equalityI) (simp_all add: get_bytes_def put_bytes_def)

lemma get_put_other [simp]: "p + n \<le> q \<or> q + length bs \<le> p \<Longrightarrow> get_bytes (put_bytes m q bs) p n = get_bytes m p n"
  by (auto simp: get_bytes_def put_bytes_def)

lemma put_bytes_other [simp]: "i < p \<or> p + length bs \<le> i \<Longrightarrow> put_bytes m p bs i = m i"
  by (auto simp: put_bytes_def)

lemma put_bytes_at [simp]: "put_bytes m p [b] p = b"
  by (simp add: put_bytes_def)

lemma bit_of_le:
  "bit (of_le bs :: 'a::len word) k \<longleftrightarrow> k < LENGTH('a) \<and> k div 8 < length bs \<and> bit (bs ! (k div 8)) (k mod 8)"
proof (induction bs arbitrary: k)
  case (Cons b bs)
  show ?case
  proof (cases "k < 8")
    case True
    then show ?thesis by (auto simp: bit_or_iff bit_ucast_iff bit_push_bit_iff dest: bit_imp_le_length)
  next
    case False
    then have "k div 8 = Suc ((k - 8) div 8)" "k mod 8 = (k - 8) mod 8" by (simp_all add: le_div_geq le_mod_geq)
    moreover have "\<not> bit b k" using False bit_imp_le_length [of b k] by auto
    ultimately show ?thesis
      using False Cons.IH [of "k - 8"] by (auto simp: bit_or_iff bit_ucast_iff bit_push_bit_iff)
  qed
qed simp

lemma of_le_bytes:
  fixes v :: "'a::len word"
  assumes "LENGTH('a) = 8 * n"
  shows "of_le (le_bytes n v) = v"
proof (rule bit_word_eqI)
  fix k assume k: "k < LENGTH('a)"
  then have "k div 8 < n" using assms by (simp add: less_mult_imp_div_less mult.commute)
  moreover have "8 * (k div 8) + k mod 8 = k" by simp
  moreover have "k mod 8 < Suc (Suc (Suc (Suc (Suc (Suc (Suc (Suc 0)))))))"
    by (rule order_less_le_trans [OF mod_less_divisor]) simp_all
  ultimately show "bit (of_le (le_bytes n v) :: 'a word) k = bit v k"
    using k by (simp add: bit_of_le le_bytes_def bit_ucast_iff bit_drop_bit_eq add.commute)
qed

lemma get_put_words [simp]:
  "get16 (put16 m p v) p = v" "get32 (put32 m p w) p = w" "get64 (put64 m p x) p = x"
  by (simp_all add: get16_def put16_def get32_def put32_def get64_def put64_def of_le_bytes)

lemma get_words_other [simp]:
  "p + 2 \<le> q \<or> q + length bs \<le> p \<Longrightarrow> get16 (put_bytes m q bs) p = get16 m p"
  "p + 4 \<le> q \<or> q + length bs \<le> p \<Longrightarrow> get32 (put_bytes m q bs) p = get32 m p"
  "p + 8 \<le> q \<or> q + length bs \<le> p \<Longrightarrow> get64 (put_bytes m q bs) p = get64 m p"
  by (simp_all add: get16_def get32_def get64_def)

lemma get16_put16_other [simp]: "p + 2 \<le> q \<or> q + 2 \<le> p \<Longrightarrow> get16 (put16 m q v) p = get16 m p"
  by (simp add: put16_def)

lemma get_bytes_put16 [simp]: "p + n \<le> q \<or> q + 2 \<le> p \<Longrightarrow> get_bytes (put16 m q v) p n = get_bytes m p n"
  by (simp add: put16_def)

lemma put16_at [simp]: "i < q \<or> q + 2 \<le> i \<Longrightarrow> put16 m q v i = m i"
  by (simp add: put16_def)

lemma unat_of_nat_u16: "n < 65536 \<Longrightarrow> unat (of_nat n :: u16) = n"
  by (simp add: unat_of_nat take_bit_nat_eq_self)

section \<open>Tuples\<close>

text \<open>A message whose class has two bits.\<close>

definition message_ok :: "message \<Rightarrow> bool" where
  "message_ok msg \<longleftrightarrow> msg_type msg \<noteq> MESSAGE_TYPE_PIVOT_DATA \<and> message_length msg < 65536"

definition tuple_key_ok :: "key \<Rightarrow> bool" where
  "tuple_key_ok k \<longleftrightarrow> key_is_user_key k \<and> key_length k < 65536"

lemma message_class_code:
  "t \<noteq> MESSAGE_TYPE_PIVOT_DATA \<Longrightarrow> message_type_of (ucast (message_type_code t) AND 3) = t"
  by (cases t) (simp_all add: message_type_of_def)

lemma user_keyD: "key_is_user_key k \<Longrightarrow> k = User_Key (key_data k)"
  by (cases k) (simp_all add: key_is_user_key_def)

text \<open>The tuple is the bytes of its fields, in order.\<close>

lemma copy_tuple_fields:
  assumes k: "tuple_key_ok k" and msg: "message_ok msg"
  shows "get16 (copy_tuple_to_ondisk_tuple m p k msg) p = of_nat (key_length k)"
    and "get16 (copy_tuple_to_ondisk_tuple m p k msg) (p + 3) = of_nat (message_length msg)"
    and "copy_tuple_to_ondisk_tuple m p k msg (p + 5) = ucast (message_type_code (msg_type msg))"
    and "get_bytes (copy_tuple_to_ondisk_tuple m p k msg) (p + 6) (key_length k) = key_data k"
    and "get_bytes (copy_tuple_to_ondisk_tuple m p k msg) (p + 6 + key_length k) (message_length msg) = msg_data msg"
    and "q + n \<le> p \<or> p + 6 + key_length k + message_length msg \<le> q \<Longrightarrow>
      get_bytes (copy_tuple_to_ondisk_tuple m p k msg) q n = get_bytes m q n"
    and "q < p \<or> p + 6 + key_length k + message_length msg \<le> q \<Longrightarrow>
      copy_tuple_to_ondisk_tuple m p k msg q = m q"
proof -
  let ?kl = "key_length k" and ?ml = "message_length msg"
  have kd: "length (key_data k) = ?kl" using k by (simp add: tuple_key_ok_def key_length_def)
  have md: "length (msg_data msg) = ?ml" by (simp add: message_length_def)
  define m3 where "m3 = put_bytes (put_bytes (put16 m p (of_nat ?kl)) (p + 5) [0]) (p + 6) (key_data k)"
  define m4 where "m4 = put_bytes (put16 m3 (p + 3) (of_nat ?ml)) (p + 5) [ucast (message_type_code (msg_type msg))]"
  have l: "odt_key_length m4 p = ?kl"
    using k by (simp add: odt_key_length_def m4_def m3_def unat_of_nat_u16 tuple_key_ok_def)
  have c: "copy_tuple_to_ondisk_tuple m p k msg = put_bytes m4 (p + 6 + ?kl) (msg_data msg)"
    using l by (simp add: copy_tuple_to_ondisk_tuple_def copy_message_to_ondisk_tuple_def Let_def
        sizeof_ondisk_tuple_def m3_def m4_def)
  show "get16 (copy_tuple_to_ondisk_tuple m p k msg) p = of_nat ?kl" by (simp add: c m4_def m3_def)
  show "get16 (copy_tuple_to_ondisk_tuple m p k msg) (p + 3) = of_nat ?ml" by (simp add: c m4_def m3_def)
  show "copy_tuple_to_ondisk_tuple m p k msg (p + 5) = ucast (message_type_code (msg_type msg))"
    by (simp add: c m4_def)
  show "get_bytes (copy_tuple_to_ondisk_tuple m p k msg) (p + 6) ?kl = key_data k"
    by (simp add: c m4_def m3_def kd)
  show "get_bytes (copy_tuple_to_ondisk_tuple m p k msg) (p + 6 + ?kl) ?ml = msg_data msg"
    by (simp add: c md)
  show "get_bytes (copy_tuple_to_ondisk_tuple m p k msg) q n = get_bytes m q n"
    if "q + n \<le> p \<or> p + 6 + ?kl + ?ml \<le> q"
    using that by (auto simp: c m4_def m3_def kd md)
  show "copy_tuple_to_ondisk_tuple m p k msg q = m q" if "q < p \<or> p + 6 + ?kl + ?ml \<le> q"
    using that by (auto simp: c m4_def m3_def kd md)
qed

lemma copy_tuple_read:
  assumes k: "tuple_key_ok k" and msg: "message_ok msg"
  shows "ondisk_tuple_key (copy_tuple_to_ondisk_tuple m p k msg) p = k"
    and "ondisk_tuple_message (copy_tuple_to_ondisk_tuple m p k msg) p = msg"
    and "sizeof_ondisk_tuple_data (copy_tuple_to_ondisk_tuple m p k msg) p = key_length k + message_length msg"
proof -
  note f = copy_tuple_fields [where m = m and p = p, OF assms]
  have l: "odt_key_length (copy_tuple_to_ondisk_tuple m p k msg) p = key_length k"
    "odt_message_length (copy_tuple_to_ondisk_tuple m p k msg) p = message_length msg"
    using k msg by (simp_all add: odt_key_length_def odt_message_length_def f unat_of_nat_u16 tuple_key_ok_def message_ok_def)
  show "ondisk_tuple_key (copy_tuple_to_ondisk_tuple m p k msg) p = k"
    using k user_keyD [of k] by (simp add: ondisk_tuple_key_def sizeof_ondisk_tuple_def l f tuple_key_ok_def)
  show "ondisk_tuple_message (copy_tuple_to_ondisk_tuple m p k msg) p = msg"
    using msg by (simp add: ondisk_tuple_message_def sizeof_ondisk_tuple_def ondisk_tuple_message_class_def l f
        message_ok_def message_class_code)
  show "sizeof_ondisk_tuple_data (copy_tuple_to_ondisk_tuple m p k msg) p = key_length k + message_length msg"
    by (simp add: sizeof_ondisk_tuple_data_def l)
qed

text \<open>Reading a tuple depends on its bytes only.\<close>

lemma get_bytes_cong: "(\<And>i. p \<le> i \<Longrightarrow> i < p + n \<Longrightarrow> m i = m' i) \<Longrightarrow> get_bytes m p n = get_bytes m' p n"
  by (simp add: get_bytes_def)

lemma tuple_cong:
  assumes "\<And>i. p \<le> i \<Longrightarrow> i < p + 6 + sizeof_ondisk_tuple_data m p \<Longrightarrow> m' i = m i"
  shows "ondisk_tuple_key m' p = ondisk_tuple_key m p"
    and "ondisk_tuple_message m' p = ondisk_tuple_message m p"
    and "sizeof_ondisk_tuple_data m' p = sizeof_ondisk_tuple_data m p"
proof -
  have b: "get_bytes m' q n = get_bytes m q n" if "p \<le> q" "q + n \<le> p + 6 + sizeof_ondisk_tuple_data m p" for q n
    using that assms by (intro get_bytes_cong) simp
  have l: "odt_key_length m' p = odt_key_length m p" "odt_message_length m' p = odt_message_length m p"
    by (simp_all add: odt_key_length_def odt_message_length_def get16_def b)
  show "ondisk_tuple_key m' p = ondisk_tuple_key m p"
    by (simp add: ondisk_tuple_key_def l sizeof_ondisk_tuple_def b sizeof_ondisk_tuple_data_def)
  show "ondisk_tuple_message m' p = ondisk_tuple_message m p"
    using assms [of "p + 5"]
    by (simp add: ondisk_tuple_message_def ondisk_tuple_message_class_def l sizeof_ondisk_tuple_def b
        sizeof_ondisk_tuple_data_def)
  show "sizeof_ondisk_tuple_data m' p = sizeof_ondisk_tuple_data m p"
    by (simp add: sizeof_ondisk_tuple_data_def l)
qed

section \<open>Keys\<close>

lemma ondisk_key_roundtrip:
  assumes "key_length k < 65534"
  shows "ondisk_key_to_key (copy_key_to_ondisk_key m p k) p = k"
    and "sizeof_ondisk_key_data (copy_key_to_ondisk_key m p k) p = key_length k"
    and "q + n \<le> p \<or> p + 3 + key_length k \<le> q \<Longrightarrow>
      get_bytes (copy_key_to_ondisk_key m p k) q n = get_bytes m q n"
proof -
  have ni: "of_nat (key_length k) \<noteq> (65535 :: u16)" "of_nat (key_length k) \<noteq> (65534 :: u16)"
    using assms unat_of_nat_u16 [of "key_length k"] by auto
  show "ondisk_key_to_key (copy_key_to_ondisk_key m p k) p = k"
    and "sizeof_ondisk_key_data (copy_key_to_ondisk_key m p k) p = key_length k"
    using assms ni
    by (cases k; simp add: ondisk_key_to_key_def sizeof_ondisk_key_data_def copy_key_to_ondisk_key_def Let_def
        sizeof_ondisk_key_def ONDISK_KEY_NEGATIVE_INFINITY_def ONDISK_KEY_POSITIVE_INFINITY_def unat_of_nat_u16
        key_length_def key_is_user_key_def)+
  show "get_bytes (copy_key_to_ondisk_key m p k) q n = get_bytes m q n" if "q + n \<le> p \<or> p + 3 + key_length k \<le> q"
    using that by (cases k) (auto simp: copy_key_to_ondisk_key_def Let_def sizeof_ondisk_key_def key_length_def
        key_is_user_key_def)
qed

end
