(* ===== verification/SlottedPage.thy ===== *)
theory SlottedPage
  imports BtLeaf BtDataProofs
begin

text \<open>
  What leaves and index nodes share: a page with a table of offsets and entries that grow down
  from its end. The locale \<open>slotted_page\<close> is the interface to the form of the entries - how one is
  read, how many bytes it takes, and that writing one leaves the others - and its lemmas are
  proved once for the leaves (\<open>BtLeafProofs\<close>) and the index nodes (\<open>BtIndexProofs\<close>).
\<close>

section \<open>Pages\<close>

definition slot_off :: "btree_hdr \<Rightarrow> nat \<Rightarrow> nat" where
  "slot_off hdr i = unat (offsets hdr i)"

definition slots :: "(bytes \<Rightarrow> nat \<Rightarrow> 'e) \<Rightarrow> btree_hdr \<Rightarrow> 'e list" where
  "slots entry hdr = map (\<lambda>i. entry (node_bytes hdr) (slot_off hdr i)) [0..<btree_num_entries hdr]"

lemma length_slots [simp]: "length (slots entry hdr) = btree_num_entries hdr"
  by (simp add: slots_def)

lemma nth_slots [simp]: "i < btree_num_entries hdr \<Longrightarrow> slots entry hdr ! i = entry (node_bytes hdr) (slot_off hdr i)"
  by (simp add: slots_def)

lemma num_slots: "slots entry hdr' = xs \<Longrightarrow> btree_num_entries hdr' = length xs"
  using length_slots [of entry hdr'] by simp

text \<open>The table ends before the entries begin, they are inside the page and do not overlap.\<close>

definition page_wf :: "(bytes \<Rightarrow> nat \<Rightarrow> nat) \<Rightarrow> nat \<Rightarrow> btree_hdr \<Rightarrow> bool" where
  "page_wf esize P hdr \<longleftrightarrow> P < 65536 \<and> unat (next_entry hdr) \<le> P \<and>
     table_end (btree_num_entries hdr) \<le> unat (next_entry hdr) \<and>
     (\<forall>i<btree_num_entries hdr. unat (next_entry hdr) \<le> slot_off hdr i \<and>
        slot_off hdr i + esize (node_bytes hdr) (slot_off hdr i) \<le> P) \<and>
     (\<forall>i<btree_num_entries hdr. \<forall>j<btree_num_entries hdr. i \<noteq> j \<longrightarrow>
        slot_off hdr i + esize (node_bytes hdr) (slot_off hdr i) \<le> slot_off hdr j \<or>
        slot_off hdr j + esize (node_bytes hdr) (slot_off hdr j) \<le> slot_off hdr i)"

lemma page_wfD:
  assumes "page_wf esize P hdr"
  shows "P < 65536" and "unat (next_entry hdr) \<le> P"
    and "table_end (btree_num_entries hdr) \<le> unat (next_entry hdr)"
    and "i < btree_num_entries hdr \<Longrightarrow> unat (next_entry hdr) \<le> slot_off hdr i"
    and "i < btree_num_entries hdr \<Longrightarrow> slot_off hdr i + esize (node_bytes hdr) (slot_off hdr i) \<le> P"
    and "i < btree_num_entries hdr \<Longrightarrow> j < btree_num_entries hdr \<Longrightarrow> i \<noteq> j \<Longrightarrow>
      slot_off hdr i + esize (node_bytes hdr) (slot_off hdr i) \<le> slot_off hdr j \<or>
      slot_off hdr j + esize (node_bytes hdr) (slot_off hdr j) \<le> slot_off hdr i"
  using assms by (simp_all add: page_wf_def)

lemma table_end_Suc: "table_end (Suc n) = table_end n + 2"
  by (simp add: table_end_def sizeof_table_entry_def)

lemma table_end_eq: "table_end n = 37 + 2 * n"
  by (simp add: table_end_def sizeof_table_entry_def sizeof_btree_hdr_def)

lemma table_end_lt: "n < table_end n"
  by (simp add: table_end_eq)

lemma num_entries_small: "page_wf esize P hdr \<Longrightarrow> btree_num_entries hdr < 65536"
  using page_wfD(1,2,3) [of esize P hdr] table_end_lt [of "btree_num_entries hdr"] by simp

text \<open>The fields of the header that say where the node is in the tree.\<close>

definition hdr_links :: "btree_hdr \<Rightarrow> u64 \<times> u64 \<times> u64 \<times> u64 \<times> u8" where
  "hdr_links hdr = (prev_addr hdr, next_addr hdr, next_extent_addr hdr, generation hdr, height hdr)"

lemma page_fields:
  assumes "num_entries hdr' = num_entries hdr" "next_entry hdr' = next_entry hdr"
    "offsets hdr' = offsets hdr" "node_bytes hdr' = node_bytes hdr"
  shows "page_wf esize P hdr' = page_wf esize P hdr" and "slots entry hdr' = slots entry hdr"
  by (simp_all add: page_wf_def slots_def btree_num_entries_def slot_off_def assms)

lemma reset_page:
  assumes "bt_page_size cfg < 65536" and "37 \<le> bt_page_size cfg"
  shows "page_wf esize (bt_page_size cfg) (btree_reset_node_entries cfg hdr)"
    and "slots entry (btree_reset_node_entries cfg hdr) = []"
    and "btree_num_entries (btree_reset_node_entries cfg hdr) = 0"
    and "unat (next_entry (btree_reset_node_entries cfg hdr)) = bt_page_size cfg"
    and "hdr_links (btree_reset_node_entries cfg hdr) = hdr_links hdr"
  using assms by (simp_all add: page_wf_def slots_def btree_reset_node_entries_def btree_num_entries_def
      table_end_eq unat_of_nat_u16 hdr_links_def)

section \<open>Moving offsets\<close>

lemma permuted_offsets:
  assumes wf: "page_wf esize P hdr" and n: "num_entries hdr' = num_entries hdr"
    and same: "next_entry hdr' = next_entry hdr" "node_bytes hdr' = node_bytes hdr"
    and perm: "\<And>i. i < btree_num_entries hdr \<Longrightarrow> offsets hdr' i = offsets hdr (s i)"
      "\<And>i. i < btree_num_entries hdr \<Longrightarrow> s i < btree_num_entries hdr"
      "\<And>i j. i < btree_num_entries hdr \<Longrightarrow> j < btree_num_entries hdr \<Longrightarrow> i \<noteq> j \<Longrightarrow> s i \<noteq> s j"
  shows "page_wf esize P hdr'" and "i < btree_num_entries hdr \<Longrightarrow> slots entry hdr' ! i = slots entry hdr ! s i"
proof -
  note w = page_wfD [OF wf]
  have n': "btree_num_entries hdr' = btree_num_entries hdr" by (simp add: btree_num_entries_def n)
  have o: "slot_off hdr' i = slot_off hdr (s i)" if "i < btree_num_entries hdr" for i
    using perm(1) [OF that] by (simp add: slot_off_def)
  show "page_wf esize P hdr'" using w perm(2,3) by (auto simp: page_wf_def n' same o)
  show "slots entry hdr' ! i = slots entry hdr ! s i" if "i < btree_num_entries hdr"
    using o [OF that] perm(2) [OF that] that by (simp add: same n')
qed

lemma rotate_effect:
  assumes wf: "page_wf esize P hdr" and s: "slots entry hdr = ts @ [x]" and k: "k \<le> length ts"
  shows "page_wf esize P (rotate_offsets hdr k)"
    and "slots entry (rotate_offsets hdr k) = take k ts @ [x] @ drop k ts"
    and "hdr_links (rotate_offsets hdr k) = hdr_links hdr"
    and "next_entry (rotate_offsets hdr k) = next_entry hdr"
proof -
  let ?h = "rotate_offsets hdr k" and ?m = "length ts" and ?s = "\<lambda>i. if i = k then length ts else if k < i then i - 1 else i"
  have n: "btree_num_entries hdr = Suc ?m" using num_slots [OF s] by simp
  have h: "num_entries ?h = num_entries hdr" "next_entry ?h = next_entry hdr" "node_bytes ?h = node_bytes hdr"
    by (simp_all add: rotate_offsets_def Let_def)
  have o: "offsets ?h i = offsets hdr (?s i)" if "i < Suc ?m" for i
    using that n k by (auto simp: rotate_offsets_def Let_def)
  have r: "?s i < Suc ?m" if "i < Suc ?m" for i using that k by auto
  have d: "?s i \<noteq> ?s j" if "i < Suc ?m" "j < Suc ?m" "i \<noteq> j" for i j using that by auto
  have p: "page_wf esize P ?h" "i < Suc ?m \<Longrightarrow> slots entry ?h ! i = slots entry hdr ! ?s i" for i
    by (rule permuted_offsets [where s = ?s, OF wf h]; use n o r d in simp)+
  show "page_wf esize P ?h" by (rule p(1))
  have n': "btree_num_entries ?h = Suc ?m" using h(1) n by (simp add: btree_num_entries_def)
  show "slots entry ?h = take k ts @ [x] @ drop k ts"
  proof (rule nth_equalityI)
    fix i assume "i < length (slots entry ?h)"
    then have i: "i < Suc ?m" by (simp add: n')
    have len: "length (take k ts) = k" using k by simp
    show "slots entry ?h ! i = (take k ts @ [x] @ drop k ts) ! i"
      using i k p(2) [OF i] len s
      by (cases i k rule: linorder_cases) (auto simp: nth_append nth_Cons' le_add_diff_inverse)
  qed (use n' k in simp)
  show "hdr_links ?h = hdr_links hdr" "next_entry ?h = next_entry hdr"
    by (simp_all add: hdr_links_def rotate_offsets_def Let_def)
qed

section \<open>The interface to the entries\<close>

locale slotted_page =
  fixes esize :: "bytes \<Rightarrow> nat \<Rightarrow> nat" and entry :: "bytes \<Rightarrow> nat \<Rightarrow> 'e" and need :: "'e \<Rightarrow> nat"
    and good :: "'e \<Rightarrow> bool" and fill :: "bytes \<Rightarrow> nat \<Rightarrow> 'e \<Rightarrow> bytes"
  assumes esize_need: "esize m p = need (entry m p)"
    and need_pos: "0 < need x"
    and read_back: "good x \<Longrightarrow> need x < 65536 \<Longrightarrow> entry (fill m p x) p = x"
    and read_other: "good x \<Longrightarrow> need x < 65536 \<Longrightarrow> q + esize m q \<le> p \<or> p + need x \<le> q \<Longrightarrow>
      entry (fill m p x) q = entry m q"
begin

definition used_by :: "'e list \<Rightarrow> nat" where
  "used_by es = sum_list (map need es)"

lemma used_by_simps [simp]:
  "used_by [] = 0" "used_by (x # es) = need x + used_by es" "used_by (es @ es') = used_by es + used_by es'"
  by (simp_all add: used_by_def)

text \<open>What an operation that stores \<open>x\<close> at place \<open>k\<close> achieves.\<close>

definition stored :: "nat \<Rightarrow> btree_hdr \<Rightarrow> nat \<Rightarrow> 'e \<Rightarrow> btree_hdr \<Rightarrow> bool" where
  "stored P hdr k x hdr' \<longleftrightarrow> page_wf esize P hdr' \<and> hdr_links hdr' = hdr_links hdr \<and>
     slots entry hdr' = (if k < btree_num_entries hdr then (slots entry hdr)[k := x] else slots entry hdr @ [x])"

lemma stored_in_place:
  assumes wf: "page_wf esize P hdr" and k: "k < btree_num_entries hdr" and x: "good x"
    and fits: "need x \<le> esize (node_bytes hdr) (slot_off hdr k)"
    and hdr': "hdr' = hdr\<lparr>node_bytes := fill (node_bytes hdr) (slot_off hdr k) x\<rparr>"
  shows "stored P hdr k x hdr'"
proof -
  let ?n = "btree_num_entries hdr" and ?e = "\<lambda>i. entry (node_bytes hdr) (slot_off hdr i)"
  note w = page_wfD [OF wf]
  have b: "need x < 65536" using fits w(1) w(5) [OF k] by simp
  have n': "btree_num_entries hdr' = ?n" "\<And>i. slot_off hdr' i = slot_off hdr i" "next_entry hdr' = next_entry hdr"
    by (simp_all add: btree_num_entries_def slot_off_def hdr')
  have t: "entry (node_bytes hdr') (slot_off hdr i) = (if i = k then x else ?e i)" if "i < ?n" for i
    using read_back [OF x b, of "node_bytes hdr" "slot_off hdr k"]
      read_other [OF x b, of "slot_off hdr i" "node_bytes hdr" "slot_off hdr k"] w(6) [of i k] that fits k
    by (auto simp: hdr')
  have "page_wf esize P hdr'"
    unfolding page_wf_def
  proof (intro conjI allI impI)
    fix i j assume ij: "i < btree_num_entries hdr'" "j < btree_num_entries hdr'" "i \<noteq> j"
    then show "slot_off hdr' i + esize (node_bytes hdr') (slot_off hdr' i) \<le> slot_off hdr' j \<or>
        slot_off hdr' j + esize (node_bytes hdr') (slot_off hdr' j) \<le> slot_off hdr' i"
      using w(6) [of i j] fits unfolding n' by (cases "i = k"; cases "j = k") (auto simp: esize_need t)
  next
    fix i assume i: "i < btree_num_entries hdr'"
    then show "unat (next_entry hdr') \<le> slot_off hdr' i"
      and "slot_off hdr' i + esize (node_bytes hdr') (slot_off hdr' i) \<le> P"
      using w(4,5) [of i] w(5) [OF k] fits unfolding n' by (cases "i = k"; simp add: esize_need t)+
  qed (use w n' in simp_all)
  moreover have "slots entry hdr' = (slots entry hdr)[k := x]"
    by (rule nth_equalityI) (use n' t in \<open>auto simp: nth_list_update\<close>)
  ultimately show ?thesis using k by (simp add: stored_def hdr' hdr_links_def)
qed

text \<open>
  A new entry below \<open>lim\<close>, when the others are above it: \<open>lim\<close> is \<open>next_entry\<close>, or the end of the
  entry that is replaced if that was the lowest one.
\<close>

lemma stored_below:
  assumes wf: "page_wf esize P hdr" and k: "k \<le> btree_num_entries hdr" and x: "good x"
    and nn: "nn = (if k < btree_num_entries hdr then btree_num_entries hdr else k + 1)"
    and lim: "lim \<le> P" "\<And>i. i < btree_num_entries hdr \<Longrightarrow> i \<noteq> k \<Longrightarrow> lim \<le> slot_off hdr i"
    and room: "table_end nn + need x \<le> lim" and p: "p = lim - need x"
    and hdr': "hdr' = hdr\<lparr>offsets := (offsets hdr)(k := of_nat p), num_entries := of_nat nn, next_entry := of_nat p,
      node_bytes := fill (node_bytes hdr) p x\<rparr>"
  shows "stored P hdr k x hdr'" and "unat (next_entry hdr') + need x = lim"
proof -
  let ?n = "btree_num_entries hdr" and ?e = "\<lambda>i. entry (node_bytes hdr) (slot_off hdr i)"
  note w = page_wfD [OF wf]
  have pn: "p + need x = lim" "p < 65536" "nn < 65536" "need x < 65536" "table_end nn \<le> p" "k < nn"
    using room w(1) lim(1) table_end_lt [of nn] k by (auto simp: p nn)
  have n': "btree_num_entries hdr' = nn" "unat (next_entry hdr') = p"
    using pn unat_of_nat_u16 [of nn] unat_of_nat_u16 [of p] by (simp_all add: btree_num_entries_def hdr')
  then show "unat (next_entry hdr') + need x = lim" using pn(1) by simp
  have o': "slot_off hdr' i = (if i = k then p else slot_off hdr i)" for i
    using unat_of_nat_u16 [OF pn(2)] by (simp add: slot_off_def hdr')
  have nb: "node_bytes hdr' = fill (node_bytes hdr) p x" by (simp add: hdr')
  have in_old: "i < ?n" if "i < nn" "i \<noteq> k" for i using that k by (auto simp: nn split: if_splits)
  have t: "entry (node_bytes hdr') (slot_off hdr' i) = (if i = k then x else ?e i)" if "i < nn" for i
    using read_back [OF x pn(4), of "node_bytes hdr" p]
      read_other [OF x pn(4), of "slot_off hdr i" "node_bytes hdr" p] lim(2) [OF in_old, of i] that pn(1)
    unfolding o' nb by (cases "i = k") simp_all
  have s: "esize (node_bytes hdr') (slot_off hdr' i) = (if i = k then need x else need (?e i))" if "i < nn" for i
    using that by (simp add: esize_need t)
  have "page_wf esize P hdr'"
    unfolding page_wf_def n'
  proof (intro conjI allI impI)
    fix i j assume ij: "i < nn" "j < nn" "i \<noteq> j"
    then show "slot_off hdr' i + esize (node_bytes hdr') (slot_off hdr' i) \<le> slot_off hdr' j \<or>
        slot_off hdr' j + esize (node_bytes hdr') (slot_off hdr' j) \<le> slot_off hdr' i"
      using w(6) [OF in_old in_old, of i j] lim(2) [OF in_old, of i] lim(2) [OF in_old, of j] pn(1)
      unfolding s [OF ij(1)] s [OF ij(2)] unfolding o' by (cases "i = k"; cases "j = k") (auto simp: esize_need)
  next
    fix i assume i: "i < nn"
    show "p \<le> slot_off hdr' i" and "slot_off hdr' i + esize (node_bytes hdr') (slot_off hdr' i) \<le> P"
      using w(5) [OF in_old, of i] lim(2) [OF in_old, of i] pn(1) lim(1) i unfolding s [OF i] unfolding o'
      by (cases "i = k"; simp add: esize_need)+
  qed (use w pn lim in auto)
  moreover have "slots entry hdr' = (if k < ?n then (slots entry hdr)[k := x] else slots entry hdr @ [x])"
  proof (rule nth_equalityI)
    fix i assume "i < length (slots entry hdr')"
    then have i: "i < nn" by (simp add: n')
    then show "slots entry hdr' ! i = (if k < ?n then (slots entry hdr)[k := x] else slots entry hdr @ [x]) ! i"
      using k t [OF i] by (auto simp: n' nn nth_list_update nth_append split: if_splits)
  qed (use k n' nn in auto)
  ultimately show "stored P hdr k x hdr'" by (simp add: stored_def hdr_links_def) (simp add: hdr')
qed

section \<open>Space\<close>

text \<open>Entries that do not overlap fit between \<open>next_entry\<close> and the end of the page.\<close>

lemma packed:
  assumes wf: "page_wf esize P hdr"
  shows "used_by (slots entry hdr) + unat (next_entry hdr) \<le> P"
proof -
  note w = page_wfD [OF wf]
  let ?n = "btree_num_entries hdr" and ?z = "\<lambda>i. esize (node_bytes hdr) (slot_off hdr i)"
  let ?span = "\<lambda>i. {slot_off hdr i..<slot_off hdr i + ?z i}"
  have "used_by (slots entry hdr) = (\<Sum>i\<in>{0..<?n}. ?z i)"
    by (simp add: used_by_def slots_def comp_def esize_need interv_sum_list_conv_sum_set_nat)
  also have "\<dots> = (\<Sum>i\<in>{0..<?n}. card (?span i))" by simp
  also have "\<dots> = card (\<Union>i\<in>{0..<?n}. ?span i)"
  proof (rule card_UN_disjoint [symmetric])
    show "\<forall>i\<in>{0..<?n}. \<forall>j\<in>{0..<?n}. i \<noteq> j \<longrightarrow> ?span i \<inter> ?span j = {}"
    proof (intro ballI impI)
      fix i j assume "i \<in> {0..<?n}" "j \<in> {0..<?n}" "i \<noteq> j"
      then show "?span i \<inter> ?span j = {}" using w(6) [of i j] by auto
    qed
  qed simp_all
  also have "\<dots> \<le> card {unat (next_entry hdr)..<P}"
  proof (rule card_mono)
    show "(\<Union>i\<in>{0..<?n}. ?span i) \<subseteq> {unat (next_entry hdr)..<P}"
      using w(4,5) by fastforce
  qed simp
  finally show ?thesis using w(2) by simp
qed

lemma packed_table:
  assumes wf: "page_wf esize P hdr"
  shows "37 + used_by (slots entry hdr) + 2 * btree_num_entries hdr \<le> P"
  using packed [OF wf] page_wfD(3) [OF wf] by (simp add: table_end_eq)

text \<open>A node without dead space.\<close>

definition compact :: "nat \<Rightarrow> btree_hdr \<Rightarrow> bool" where
  "compact P hdr \<longleftrightarrow> page_wf esize P hdr \<and> unat (next_entry hdr) + used_by (slots entry hdr) = P"

end

section \<open>Truncation\<close>

lemma fold_min_le:
  fixes f :: "nat \<Rightarrow> nat"
  shows "fold (\<lambda>i m. if f i < m then f i else m) xs a \<le> a"
    and "x \<in> set xs \<Longrightarrow> fold (\<lambda>i m. if f i < m then f i else m) xs a \<le> f x"
    and "b \<le> a \<Longrightarrow> (\<And>x. x \<in> set xs \<Longrightarrow> b \<le> f x) \<Longrightarrow> b \<le> fold (\<lambda>i m. if f i < m then f i else m) xs a"
proof -
  show l: "fold (\<lambda>i m. if f i < m then f i else m) xs a \<le> a" for xs a
  proof (induction xs arbitrary: a)
    case (Cons y ys)
    show ?case using Cons.IH [of "if f y < a then f y else a"] by (auto split: if_splits)
  qed simp
  show "fold (\<lambda>i m. if f i < m then f i else m) xs a \<le> f x" if "x \<in> set xs"
    using that
  proof (induction xs arbitrary: a)
    case (Cons y ys)
    then show ?case using l [of ys "if f y < a then f y else a"] by (auto split: if_splits intro: order.trans)
  qed simp
  show "b \<le> fold (\<lambda>i m. if f i < m then f i else m) xs a" if "b \<le> a" "\<And>x. x \<in> set xs \<Longrightarrow> b \<le> f x"
    using that by (induction xs arbitrary: a) auto
qed

lemma truncate_page:
  assumes wf: "page_wf esize (bt_page_size cfg) hdr" and t: "t \<le> btree_num_entries hdr"
    and hdr': "hdr' = hdr\<lparr>num_entries := of_nat t, next_entry := of_nat (truncate_next_entry cfg hdr t)\<rparr>"
  shows "page_wf esize (bt_page_size cfg) hdr'" and "slots entry hdr' = take t (slots entry hdr)"
    and "hdr_links hdr' = hdr_links hdr" and "unat (next_entry hdr') = truncate_next_entry cfg hdr t"
proof -
  let ?ne = "truncate_next_entry cfg hdr t"
  note w = page_wfD [OF wf]
  have ne: "?ne \<le> bt_page_size cfg" "i < t \<Longrightarrow> ?ne \<le> slot_off hdr i" "unat (next_entry hdr) \<le> ?ne" for i
  proof -
    show "?ne \<le> bt_page_size cfg" unfolding truncate_next_entry_def by (rule fold_min_le(1))
    show "?ne \<le> slot_off hdr i" if "i < t"
      using that unfolding truncate_next_entry_def slot_off_def by (intro fold_min_le(2)) simp
    show "unat (next_entry hdr) \<le> ?ne"
      unfolding truncate_next_entry_def
      by (rule fold_min_le(3)) (use w(2,4) t in \<open>auto simp: slot_off_def\<close>)
  qed
  have u: "unat (next_entry hdr') = ?ne" "btree_num_entries hdr' = t"
    using ne(1) w(1) t num_entries_small [OF wf]
    by (simp_all add: hdr' btree_num_entries_def unat_of_nat_u16)
  then show "unat (next_entry hdr') = ?ne" by simp
  have s: "slot_off hdr' i = slot_off hdr i" "node_bytes hdr' = node_bytes hdr" for i
    by (simp_all add: hdr' slot_off_def)
  have te: "table_end t \<le> table_end (btree_num_entries hdr)" using t by (simp add: table_end_eq)
  show "page_wf esize (bt_page_size cfg) hdr'"
    using w ne t te by (auto simp: page_wf_def u s)
  show "slots entry hdr' = take t (slots entry hdr)"
    using t by (simp add: slots_def u s take_map)
  show "hdr_links hdr' = hdr_links hdr" by (simp add: hdr' hdr_links_def)
qed

end
