(* ===== verification/KeyOrder.thy ===== *)
theory KeyOrder
  imports BtDataProofs BtLeaf
begin

text \<open>
  The contract of a comparison function, as the search in a node uses it: a total order on the
  keys it accepts, with equal keys interchangeable. The lexicographic order of the default
  configuration provides it on slices shorter than 2 GiB; a comparison of user keys gives one
  on keys with infinities.
\<close>

section \<open>The contract\<close>

locale total_compare =
  fixes cmp :: "'k \<Rightarrow> 'k \<Rightarrow> int" and dom :: "'k \<Rightarrow> bool"
  assumes cmp_self: "dom a \<Longrightarrow> cmp a a = 0"
    and cmp_swap: "dom a \<Longrightarrow> dom b \<Longrightarrow> cmp a b < 0 \<longleftrightarrow> 0 < cmp b a"
    and cmp_trans: "dom a \<Longrightarrow> dom b \<Longrightarrow> dom d \<Longrightarrow> cmp a b \<le> 0 \<Longrightarrow> cmp b d \<le> 0 \<Longrightarrow> cmp a d \<le> 0"
begin

lemma cmp_less_trans:
  assumes "dom a" "dom b" "dom d" and "cmp a b < 0" and "cmp b d \<le> 0"
  shows "cmp a d < 0"
proof (rule ccontr)
  assume "\<not> cmp a d < 0"
  then have "cmp d a \<le> 0" using cmp_swap [of d a] cmp_swap [of a d] assms(1,3) by linarith
  then have "cmp b a \<le> 0" using cmp_trans [of b d a] assms by simp
  then show False using cmp_swap [of a b] assms by simp
qed

lemma cmp_le_less_trans:
  assumes "dom a" "dom b" "dom d" and "cmp a b \<le> 0" and "cmp b d < 0"
  shows "cmp a d < 0"
proof (rule ccontr)
  assume "\<not> cmp a d < 0"
  then have "cmp d a \<le> 0" using cmp_swap [of d a] cmp_swap [of a d] assms(1,3) by linarith
  then have "cmp d b \<le> 0" using cmp_trans [of d a b] assms by simp
  then show False using cmp_swap [of b d] assms by simp
qed

text \<open>Strictly ascending lists.\<close>

definition ascending :: "'k list \<Rightarrow> bool" where
  "ascending ks \<longleftrightarrow> (\<forall>k\<in>set ks. dom k) \<and> (\<forall>i j. i < j \<longrightarrow> j < length ks \<longrightarrow> cmp (ks ! i) (ks ! j) < 0)"

lemma ascending_sign:
  assumes "ascending ks" and "dom t" and "i < j" and "j < length ks" and "cmp (ks ! j) t \<le> 0"
  shows "cmp (ks ! i) t < 0"
  using assms by (intro cmp_less_trans [of "ks ! i" "ks ! j" t]) (simp_all add: ascending_def)

end

section \<open>The search\<close>

lemma find_loop_result:
  assumes "find_loop c lo hi = (idx, found)" and "lo \<le> hi" and "hi \<le> n"
    and "\<And>i j. i < j \<Longrightarrow> j < n \<Longrightarrow> c j \<le> 0 \<Longrightarrow> c i < 0"
    and "\<And>i. i < lo \<Longrightarrow> c i < 0" and "\<And>i. hi \<le> i \<Longrightarrow> i < n \<Longrightarrow> 0 < c i"
  shows "- 1 \<le> idx \<and> idx < int n \<and> (\<forall>i<n. int i \<le> idx \<longleftrightarrow> c i \<le> 0) \<and>
    (found \<longleftrightarrow> 0 \<le> idx \<and> c (nat idx) = 0)"
  using assms
proof (induction c lo hi rule: find_loop.induct)
  case (1 c lo hi)
  let ?mid = "(lo + hi) div 2"
  note r = "1.prems"(1) [unfolded find_loop.simps [of c lo hi] Let_def]
  show ?case
  proof (cases "lo < hi")
    case False
    then have "idx = int lo - 1" "\<not> found" using r by auto
    moreover have "(c i \<le> 0) = (i < lo)" if "i < n" for i
      using "1.prems"(5) [of i] "1.prems"(6) [of i] False that by (cases "i < lo") force+
    moreover have "c (lo - 1) < 0" if "0 < lo" using "1.prems"(5) [of "lo - 1"] that by simp
    ultimately show ?thesis using "1.prems"(2,3) False by (auto simp: nat_diff_distrib')
  next
    case True
    then have mid: "lo \<le> ?mid" "?mid < hi" by auto
    show ?thesis
    proof (cases "c ?mid = 0")
      case eq: True
      then have ix: "idx = int ?mid" "found" using r True by auto
      have lt: "i < ?mid \<Longrightarrow> c i < 0" for i using "1.prems"(4) [of i ?mid] eq mid "1.prems"(3) by simp
      have gt: "?mid < i \<Longrightarrow> i < n \<Longrightarrow> 0 < c i" for i using "1.prems"(4) [of ?mid i] eq by force
      have "(int i \<le> idx) = (c i \<le> 0)" if "i < n" for i
        using lt [of i] gt [of i] that eq ix(1) by (cases i ?mid rule: linorder_cases) auto
      then show ?thesis using ix eq mid "1.prems"(3) by simp
    next
      case ne: False
      show ?thesis
      proof (cases "c ?mid < 0")
        case lt: True
        have "c i < 0" if "i < ?mid + 1" for i
        proof (cases "i = ?mid")
          case False
          then show ?thesis using "1.prems"(4) [of i ?mid] lt mid "1.prems"(3) that by simp
        qed (use lt in simp)
        then show ?thesis
          using "1.IH"(1) [OF True refl ne lt] r True ne lt mid "1.prems"(3,4,6) by simp
      next
        case gt: False
        have "0 < c i" if "?mid \<le> i" "i < n" for i
        proof (rule ccontr)
          assume "\<not> 0 < c i"
          then have "i \<noteq> ?mid" "c i \<le> 0" using gt ne by auto
          then have "c ?mid < 0" using "1.prems"(4) [of ?mid i] that by simp
          then show False using gt by simp
        qed
        then show ?thesis
          using "1.IH"(2) [OF True refl ne gt] r True ne gt mid "1.prems"(3,4,5) by simp
      qed
    qed
  qed
qed

text \<open>The reference: the position before the first greater key.\<close>

definition upper_position :: "('k \<Rightarrow> int) \<Rightarrow> 'k list \<Rightarrow> int" where
  "upper_position c ks = int (length (takeWhile (\<lambda>k. c k \<le> 0) ks)) - 1"

lemma upper_position_unique:
  assumes "\<forall>i<length ks. int i \<le> idx \<longleftrightarrow> c (ks ! i) \<le> 0" and "- 1 \<le> idx" and "idx < int (length ks)"
  shows "idx = upper_position c ks"
proof -
  have "takeWhile (\<lambda>k. c k \<le> 0) ks = take (nat (idx + 1)) ks"
  proof (rule takeWhile_eq_take_P_nth)
    show "c (ks ! i) \<le> 0" if "i < nat (idx + 1)" "i < length ks" for i using assms(1) that by auto
    show "\<not> c (ks ! nat (idx + 1)) \<le> 0" if "nat (idx + 1) < length ks"
      using assms(1) [rule_format, OF that] assms(2) by simp
  qed
  then show ?thesis using assms(2,3) by (simp add: upper_position_def)
qed

context total_compare
begin

lemma search_ascending:
  assumes a: "ascending ks" and t: "dom t"
    and r: "find_loop (\<lambda>mid. cmp (ks ! mid) t) 0 (length ks) = (idx, found)"
  shows "- 1 \<le> idx" and "idx < int (length ks)" and "i < length ks \<Longrightarrow> int i \<le> idx \<longleftrightarrow> cmp (ks ! i) t \<le> 0"
    and "found \<longleftrightarrow> 0 \<le> idx \<and> cmp (ks ! nat idx) t = 0"
    and "idx = upper_position (\<lambda>k. cmp k t) ks"
proof -
  have "- 1 \<le> idx \<and> idx < int (length ks) \<and> (\<forall>i<length ks. int i \<le> idx \<longleftrightarrow> cmp (ks ! i) t \<le> 0) \<and>
      (found \<longleftrightarrow> 0 \<le> idx \<and> cmp (ks ! nat idx) t = 0)"
    by (rule find_loop_result [OF r]) (simp_all add: ascending_sign [OF a t])
  then show "- 1 \<le> idx" and "idx < int (length ks)" and "i < length ks \<Longrightarrow> int i \<le> idx \<longleftrightarrow> cmp (ks ! i) t \<le> 0"
    and "found \<longleftrightarrow> 0 \<le> idx \<and> cmp (ks ! nat idx) t = 0"
    and "idx = upper_position (\<lambda>k. cmp k t) ks"
    by (blast, blast, blast, blast, blast intro: upper_position_unique)
qed

text \<open>Putting a key where the search found its place keeps the list ascending.\<close>

lemma ascending_insert:
  assumes a: "ascending ks" and t: "dom t" and n: "n \<le> length ks"
    and below: "\<And>i. i < n \<Longrightarrow> cmp (ks ! i) t < 0" and above: "\<And>i. n \<le> i \<Longrightarrow> i < length ks \<Longrightarrow> 0 < cmp (ks ! i) t"
  shows "ascending (take n ks @ [t] @ drop n ks)"
proof -
  let ?l = "take n ks @ [t] @ drop n ks"
  have at: "?l ! i = (if i < n then ks ! i else if i = n then t else ks ! (i - 1))" if "i < length ?l" for i
    using that n by (auto simp: nth_append min_def nth_Cons split: nat.splits intro!: arg_cong [of _ _ "(!) ks"])
  have d: "dom (ks ! i)" if "i < length ks" for i using a that by (simp add: ascending_def)
  have "cmp (?l ! i) (?l ! j) < 0" if ij: "i < j" "j < length ?l" for i j
  proof -
    have asc: "cmp (ks ! i') (ks ! j') < 0" if "i' < j'" "j' < length ks" for i' j'
      using a that by (simp add: ascending_def)
    have up: "cmp t (ks ! i') < 0" if "n \<le> i'" "i' < length ks" for i'
      using above [OF that] cmp_swap [OF t d [OF that(2)]] by simp
    have len: "length ?l = Suc (length ks)" using n by simp
    have "i < length ?l" using ij by simp
    then show ?thesis
      unfolding at [OF ij(2)] at [OF \<open>i < length ?l\<close>]
      using ij len n below [of i] asc [of i j] asc [of i "j - 1"] asc [of "i - 1" "j - 1"] up [of "j - 1"]
      by (auto split: if_splits)
  qed
  moreover have "\<forall>k\<in>set ?l. dom k" using a t by (auto simp: ascending_def dest: in_set_takeD in_set_dropD)
  ultimately show ?thesis unfolding ascending_def by blast
qed

lemma ascending_replace:
  assumes a: "ascending ks" and t: "dom t" and n: "n < length ks" and eq: "cmp (ks ! n) t = 0"
  shows "ascending (ks[n := t])"
proof -
  have d: "dom (ks ! i)" if "i < length ks" for i using a that by (simp add: ascending_def)
  have eq': "cmp t (ks ! n) \<le> 0" "cmp (ks ! n) t \<le> 0" using eq cmp_swap [OF d [OF n] t] by auto
  have "cmp (ks[n := t] ! i) (ks[n := t] ! j) < 0" if ij: "i < j" "j < length ks" for i j
  proof -
    have asc: "cmp (ks ! i) (ks ! j) < 0" using a ij by (simp add: ascending_def)
    have "i < length ks" using ij by simp
    then show ?thesis
      using asc cmp_less_trans [of "ks ! i" "ks ! n" t] cmp_le_less_trans [of t "ks ! n" "ks ! j"] d n t eq' ij
      by (auto simp: nth_list_update)
  qed
  moreover have "\<forall>k\<in>set (ks[n := t]). dom k"
    using a t set_update_subset_insert [of ks n t] by (auto simp: ascending_def)
  ultimately show ?thesis by (simp add: ascending_def)
qed

lemma ascending_append:
  "ascending (xs @ ys) \<Longrightarrow> ascending xs" "ascending (xs @ ys) \<Longrightarrow> ascending ys"
proof -
  assume a: "ascending (xs @ ys)"
  then have asc: "cmp ((xs @ ys) ! i) ((xs @ ys) ! j) < 0" if "i < j" "j < length (xs @ ys)" for i j
    using that by (simp add: ascending_def)
  have "cmp (xs ! i) (xs ! j) < 0" if "i < j" "j < length xs" for i j
    using asc [of i j] that by (simp add: nth_append)
  then show "ascending xs" using a by (simp add: ascending_def)
  have "cmp (ys ! i) (ys ! j) < 0" if "i < j" "j < length ys" for i j
    using asc [of "length xs + i" "length xs + j"] that by (simp add: nth_append)
  then show "ascending ys" using a by (simp add: ascending_def)
qed

end

section \<open>Keys with infinities\<close>

locale user_compare = total_compare "dc_key_compare dc" valid
  for dc :: data_config and valid :: "u8 list \<Rightarrow> bool"

definition key_dom :: "(u8 list \<Rightarrow> bool) \<Rightarrow> key \<Rightarrow> bool" where
  "key_dom valid k \<longleftrightarrow> (key_is_user_key k \<longrightarrow> valid (key_data k))"

sublocale user_compare \<subseteq> keys: total_compare "data_key_compare dc" "key_dom valid"
proof
  fix a b d :: key
  assume a: "key_dom valid a"
  show "data_key_compare dc a a = 0"
    using a by (cases a) (simp_all add: data_key_compare_def key_dom_def key_is_user_key_def cmp_self)
  assume b: "key_dom valid b"
  show "data_key_compare dc a b < 0 \<longleftrightarrow> 0 < data_key_compare dc b a"
    using a b by (cases a; cases b) (simp_all add: data_key_compare_def key_dom_def key_is_user_key_def cmp_swap)
  assume d: "key_dom valid d" and "data_key_compare dc a b \<le> 0" "data_key_compare dc b d \<le> 0"
  then show "data_key_compare dc a d \<le> 0"
    using a b by (cases a; cases b; cases d)
      (simp_all add: data_key_compare_def key_dom_def key_is_user_key_def cmp_trans [of "key_data a" "key_data b" "key_data d"],
       auto intro: cmp_trans)
qed

section \<open>The default order\<close>

text \<open>The lexicographic order by recursion.\<close>

fun lex_sign :: "u8 list \<Rightarrow> u8 list \<Rightarrow> int" where
  "lex_sign [] [] = 0"
| "lex_sign [] (y # ys) = - 1"
| "lex_sign (x # xs) [] = 1"
| "lex_sign (x # xs) (y # ys) = (if x = y then lex_sign xs ys else if x < y then - 1 else 1)"

lemma lex_sign_self: "lex_sign a a = 0"
  by (induction a) simp_all

lemma lex_sign_swap: "lex_sign b a = - lex_sign a b"
  by (induction a b rule: lex_sign.induct) auto

lemma lex_sign_Nil: "lex_sign [] d \<le> 0"
  by (cases d) simp_all

lemma lex_sign_trans: "lex_sign a b \<le> 0 \<Longrightarrow> lex_sign b d \<le> 0 \<Longrightarrow> lex_sign a d \<le> 0"
proof (induction a b arbitrary: d rule: lex_sign.induct)
  case (4 x xs y ys)
  then show ?case by (cases d) (auto split: if_splits)
qed (simp_all add: lex_sign_Nil)

lemma memcmp_take: "memcmp (take (min (length a) (length b)) a) (take (min (length a) (length b)) b) = memcmp a b"
  by (induction a b rule: memcmp.induct) simp_all

lemma memcmp_sign:
  "sgn (lex_sign a b) = (if memcmp a b \<noteq> 0 then sgn (memcmp a b) else sgn (int (length a) - int (length b)))"
proof (induction a b rule: lex_sign.induct)
  case (4 x xs y ys)
  show ?case
  proof (cases "x = y")
    case False
    then have "uint x < uint y \<or> uint y < uint x" by (auto simp: word_uint_eq_iff)
    then show ?thesis using False by (auto simp: word_less_def sgn_if)
  qed (use 4 in simp)
qed (simp_all add: sgn_if)

lemma slice_lex_cmp_sign:
  assumes "length a < 2147483648" and "length b < 2147483648"
  shows "sgn (slice_lex_cmp a b) = sgn (lex_sign a b)"
proof -
  have m: "take (if length a < length b then length a else length b) a = take (min (length a) (length b)) a"
    "take (if length a < length b then length a else length b) b = take (min (length a) (length b)) b"
    by (simp_all add: min_def)
  have d: "sint (word_of_int (int (length a) - int (length b)) :: 32 word) = int (length a) - int (length b)"
    using assms by (simp only: signed_of_int) (simp add: signed_take_bit_int_eq_self)
  show ?thesis
    unfolding memcmp_sign slice_lex_cmp_def Let_def m memcmp_take d by (auto simp: sgn_if)
qed

lemma slice_cmp_iff:
  assumes "length a < 2147483648" and "length b < 2147483648"
  shows "slice_lex_cmp a b < 0 \<longleftrightarrow> lex_sign a b < 0" and "slice_lex_cmp a b \<le> 0 \<longleftrightarrow> lex_sign a b \<le> 0"
    and "slice_lex_cmp a b = 0 \<longleftrightarrow> lex_sign a b = 0" and "0 < slice_lex_cmp a b \<longleftrightarrow> 0 < lex_sign a b"
  using slice_lex_cmp_sign [OF assms] by (auto simp: sgn_if split: if_splits)

interpretation lex: user_compare default_data_config "\<lambda>k. length k < 2147483648"
proof
  fix a b d :: "u8 list"
  assume a: "length a < 2147483648"
  show "dc_key_compare default_data_config a a = 0"
    using a by (simp add: default_data_config_def slice_cmp_iff lex_sign_self)
  assume b: "length b < 2147483648"
  show "dc_key_compare default_data_config a b < 0 \<longleftrightarrow> 0 < dc_key_compare default_data_config b a"
    using a b lex_sign_swap [of a b] by (simp add: default_data_config_def slice_cmp_iff)
  assume "length d < 2147483648" "dc_key_compare default_data_config a b \<le> 0" "dc_key_compare default_data_config b d \<le> 0"
  then show "dc_key_compare default_data_config a d \<le> 0"
    using a b lex_sign_trans [of a b d] by (simp add: default_data_config_def slice_cmp_iff)
qed

end
