(* ===== verification/BtIndexProofs.thy ===== *)
theory BtIndexProofs
  imports BtNodes SlottedPage KeyOrder
begin

unbundle bit_operations_syntax

text \<open>
  The index nodes as slotted pages: storing, inserting and copying pivots, defragmenting,
  truncating and splitting, on the list of the pivots of a node.
\<close>

section \<open>Pivots\<close>

type_synonym pivot = "key \<times> u64 \<times> btree_pivot_stats"

definition index_size :: "bytes \<Rightarrow> nat \<Rightarrow> nat" where
  "index_size m p = sizeof_index_entry_struct + sizeof_ondisk_key_data m (p + 20)"

definition pivot_at :: "bytes \<Rightarrow> nat \<Rightarrow> pivot" where
  "pivot_at m p = (ondisk_key_to_key m (p + 20), get64 m p AND NOT 0xFFF,
     \<lparr>num_kvs = get32 m (p + 8), key_bytes = get32 m (p + 12), message_bytes = get32 m (p + 16)\<rparr>)"

definition pivot_size :: "pivot \<Rightarrow> nat" where
  "pivot_size x = index_entry_required_capacity (fst x)"

text \<open>The address of a page: the low bits are free for the counter.\<close>

definition pivot_ok :: "pivot \<Rightarrow> bool" where
  "pivot_ok x \<longleftrightarrow> fst (snd x) AND NOT 0xFFF = fst (snd x)"

definition put_pivot :: "bytes \<Rightarrow> nat \<Rightarrow> pivot \<Rightarrow> bytes" where
  "put_pivot m p x = (case x of (k, addr, stats) \<Rightarrow>
     put32 (put32 (put32 (put64 (copy_key_to_ondisk_key m (p + 20) k) p addr)
       (p + 8) (num_kvs stats)) (p + 12) (key_bytes stats)) (p + 16) (message_bytes stats))"

lemma key_data_size: "sizeof_ondisk_key_data m p = key_length (ondisk_key_to_key m p)"
  by (simp add: sizeof_ondisk_key_data_def ondisk_key_to_key_def key_length_def key_is_user_key_def)

lemma get_words_cong:
  "(\<And>i. p \<le> i \<Longrightarrow> i < p + 2 \<Longrightarrow> m i = m' i) \<Longrightarrow> get16 m p = get16 m' p"
  "(\<And>i. p \<le> i \<Longrightarrow> i < p + 4 \<Longrightarrow> m i = m' i) \<Longrightarrow> get32 m p = get32 m' p"
  "(\<And>i. p \<le> i \<Longrightarrow> i < p + 8 \<Longrightarrow> m i = m' i) \<Longrightarrow> get64 m p = get64 m' p"
  unfolding get16_def get32_def get64_def by (auto intro!: arg_cong [of _ _ of_le] get_bytes_cong)

lemma key_cong:
  assumes "\<And>i. p \<le> i \<Longrightarrow> i < p + 3 + sizeof_ondisk_key_data m p \<Longrightarrow> m' i = m i"
  shows "ondisk_key_to_key m' p = ondisk_key_to_key m p"
proof -
  have l: "get16 m' p = get16 m p" using assms by (intro get_words_cong) simp
  show ?thesis
  proof (cases "get16 m p = ONDISK_KEY_NEGATIVE_INFINITY \<or> get16 m p = ONDISK_KEY_POSITIVE_INFINITY")
    case False
    have "get_bytes m' (p + 3) (unat (get16 m p)) = get_bytes m (p + 3) (unat (get16 m p))"
      using assms False by (intro get_bytes_cong) (simp add: sizeof_ondisk_key_data_def)
    then show ?thesis by (simp add: ondisk_key_to_key_def l sizeof_ondisk_key_def)
  qed (auto simp: ondisk_key_to_key_def l)
qed

lemma copy_key_other:
  assumes "i < p \<or> p + 3 + key_length k \<le> i"
  shows "copy_key_to_ondisk_key m p k i = m i"
  using assms by (cases k) (auto simp: copy_key_to_ondisk_key_def Let_def sizeof_ondisk_key_def key_length_def
      key_is_user_key_def)

lemma put_words_other [simp]:
  "i < q \<or> q + 4 \<le> i \<Longrightarrow> put32 m q v i = m i" "i < q \<or> q + 8 \<le> i \<Longrightarrow> put64 m q w i = m i"
  by (simp_all add: put32_def put64_def)

lemma get32_put32_other [simp]: "p + 4 \<le> q \<or> q + 4 \<le> p \<Longrightarrow> get32 (put32 m q v) p = get32 m p"
  by (simp add: put32_def)

lemma put_pivot_other: "i < p \<or> p + pivot_size x \<le> i \<Longrightarrow> put_pivot m p x i = m i"
  by (auto simp: put_pivot_def pivot_size_def index_entry_required_capacity_def sizeof_index_entry_struct_def
      sizeof_ondisk_key_def copy_key_other split: prod.splits)

lemma put_pivot_read:
  assumes ok: "pivot_ok x" and b: "pivot_size x < 65536"
  shows "pivot_at (put_pivot m p x) p = x"
proof -
  obtain k addr st where x: "x = (k, addr, st)" by (cases x)
  have k: "key_length k < 65534"
    using b by (simp add: x pivot_size_def index_entry_required_capacity_def sizeof_index_entry_struct_def)
  let ?m1 = "copy_key_to_ondisk_key m (p + 20) k"
  have "ondisk_key_to_key (put_pivot m p x) (p + 20) = ondisk_key_to_key ?m1 (p + 20)"
    by (rule key_cong) (simp add: put_pivot_def x)
  moreover have "get64 (put_pivot m p x) p = addr"
    by (simp add: put_pivot_def x put32_def)
  moreover have "get32 (put_pivot m p x) (p + 8) = num_kvs st" "get32 (put_pivot m p x) (p + 12) = key_bytes st"
    "get32 (put_pivot m p x) (p + 16) = message_bytes st"
    by (simp_all add: put_pivot_def x)
  ultimately show ?thesis
    using ondisk_key_roundtrip(1) [OF k, of m "p + 20"] ok by (simp add: pivot_at_def x pivot_ok_def)
qed

interpretation index: slotted_page index_size pivot_at pivot_size pivot_ok put_pivot
proof unfold_locales
  show "index_size m p = pivot_size (pivot_at m p)" for m p
    by (simp add: index_size_def pivot_size_def pivot_at_def index_entry_required_capacity_def key_data_size)
  show "0 < pivot_size x" for x
    by (simp add: pivot_size_def index_entry_required_capacity_def sizeof_index_entry_struct_def)
  fix x m p q assume x: "pivot_ok x" and b: "pivot_size x < 65536"
  show "pivot_at (put_pivot m p x) p = x" by (rule put_pivot_read [OF x b])
  show "pivot_at (put_pivot m p x) q = pivot_at m q" if d: "q + index_size m q \<le> p \<or> p + pivot_size x \<le> q"
  proof -
    have o: "put_pivot m p x i = m i" if "q \<le> i" "i < q + 23 + sizeof_ondisk_key_data m (q + 20)" for i
      using that d by (intro put_pivot_other) (auto simp: index_size_def sizeof_index_entry_struct_def sizeof_ondisk_key_def)
    have "ondisk_key_to_key (put_pivot m p x) (q + 20) = ondisk_key_to_key m (q + 20)"
      by (rule key_cong) (simp add: o)
    moreover have "get64 (put_pivot m p x) q = get64 m q" by (rule get_words_cong) (simp add: o)
    moreover have "get32 (put_pivot m p x) (q + 8) = get32 m (q + 8)" "get32 (put_pivot m p x) (q + 12) = get32 m (q + 12)"
      "get32 (put_pivot m p x) (q + 16) = get32 m (q + 16)"
      by (rule get_words_cong; simp add: o)+
    ultimately show ?thesis by (simp add: pivot_at_def)
  qed
qed

definition node_pivots :: "btree_hdr \<Rightarrow> pivot list" where
  "node_pivots hdr = slots pivot_at hdr"

definition index_wf :: "btree_config \<Rightarrow> btree_hdr \<Rightarrow> bool" where
  "index_wf cfg hdr \<longleftrightarrow> page_wf index_size (bt_page_size cfg) hdr"

lemma length_node_pivots [simp]: "length (node_pivots hdr) = btree_num_entries hdr"
  by (simp add: node_pivots_def)

lemma num_pivots: "node_pivots hdr = xs \<Longrightarrow> btree_num_entries hdr = length xs"
  using length_node_pivots [of hdr] by simp

lemma index_page_small: "index_wf cfg hdr \<Longrightarrow> bt_page_size cfg < 65536"
  unfolding index_wf_def by (rule page_wfD(1))

lemma index_packed:
  "index_wf cfg hdr \<Longrightarrow> 37 + index.used_by (node_pivots hdr) + 2 * btree_num_entries hdr \<le> bt_page_size cfg"
  unfolding index_wf_def node_pivots_def by (rule index.packed_table)

lemma get_index_entry_off: "btree_get_index_entry hdr i = slot_off hdr i"
  by (simp add: btree_get_index_entry_def slot_off_def)

lemma index_entry_reads:
  "index_entry_key hdr p = fst (pivot_at (node_bytes hdr) p)"
  "index_entry_child_addr hdr p = fst (snd (pivot_at (node_bytes hdr) p))"
  "index_entry_stats hdr p = snd (snd (pivot_at (node_bytes hdr) p))"
  "sizeof_index_entry hdr p = pivot_size (pivot_at (node_bytes hdr) p)"
  by (simp_all add: index_entry_key_def index_entry_child_addr_def index_entry_stats_def pivot_at_def
      sizeof_index_entry_def pivot_size_def index_entry_required_capacity_def key_data_size)

lemma nth_node_pivots:
  "i < btree_num_entries hdr \<Longrightarrow> node_pivots hdr ! i = pivot_at (node_bytes hdr) (btree_get_index_entry hdr i)"
  by (simp add: node_pivots_def get_index_entry_off)

lemma get_pivot_nth: "i < btree_num_entries hdr \<Longrightarrow> btree_get_pivot hdr i = fst (node_pivots hdr ! i)"
  by (simp add: btree_get_pivot_def nth_node_pivots index_entry_reads)

lemma pivot_at_ok: "pivot_ok (pivot_at m p)"
  by (simp add: pivot_ok_def pivot_at_def and.assoc)

lemma fill_index_entry: "btree_fill_index_entry hdr p k a st = hdr\<lparr>node_bytes := put_pivot (node_bytes hdr) p (k, a, st)\<rparr>"
  by (simp add: btree_fill_index_entry_def put_pivot_def Let_def)

section \<open>Setting and inserting\<close>

text \<open>There is room in the free space, or the new pivot is not longer than the old one.\<close>

definition index_room :: "btree_hdr \<Rightarrow> nat \<Rightarrow> pivot \<Rightarrow> bool" where
  "index_room hdr k x \<longleftrightarrow>
     table_end (if k < btree_num_entries hdr then btree_num_entries hdr else k + 1) + pivot_size x \<le> unat (next_entry hdr) \<or>
     (k < btree_num_entries hdr \<and> pivot_size x \<le> pivot_size (node_pivots hdr ! k))"

lemma set_index_entry_lowest:
  assumes wf: "index_wf cfg hdr" and k: "k < btree_num_entries hdr" and x: "pivot_ok x"
    and lowest: "unat (next_entry hdr) = slot_off hdr k"
    and room: "table_end (btree_num_entries hdr) + pivot_size x \<le> unat (next_entry hdr) + pivot_size (node_pivots hdr ! k)"
  shows "\<exists>hdr'. btree_set_index_entry hdr k (fst x) (fst (snd x)) (snd (snd x)) = Inr (True, hdr') \<and>
    index.stored (bt_page_size cfg) hdr k x hdr'"
proof -
  let ?n = "btree_num_entries hdr" and ?z = "pivot_size (node_pivots hdr ! k)"
  note w = page_wfD [OF wf [unfolded index_wf_def], unfolded index.esize_need]
  have z: "sizeof_index_entry hdr (slot_off hdr k) = ?z"
    using k by (simp add: index_entry_reads nth_node_pivots get_index_entry_off)
  let ?lim = "unat (next_entry hdr) + ?z"
  have lim: "?lim \<le> bt_page_size cfg" using w(5) [OF k] lowest k by (simp add: nth_node_pivots get_index_entry_off)
  have above: "?lim \<le> slot_off hdr i" if "i < ?n" "i \<noteq> k" for i
    using w(4) [OF that(1)] w(6) [OF that(1) k that(2)] lowest k index.need_pos [of "pivot_at (node_bytes hdr) (slot_off hdr i)"]
    by (simp add: nth_node_pivots get_index_entry_off)
  let ?p = "?lim - pivot_size x" and ?ne = "next_entry hdr + of_nat ?z"
  have ne: "unat ?ne = ?lim"
    using lim w(1) by (subst unat_plus_if') (simp add: unat_of_nat_u16)
  define hdr' where "hdr' = hdr\<lparr>offsets := (offsets hdr)(k := of_nat ?p), num_entries := of_nat ?n, next_entry := of_nat ?p,
      node_bytes := put_pivot (node_bytes hdr) ?p x\<rparr>"
  have "btree_set_index_entry hdr k (fst x) (fst (snd x)) (snd (snd x)) = Inr (True, hdr')"
    using k lowest room ne
    by (simp add: btree_set_index_entry_def Let_def z get_index_entry_off fill_index_entry pivot_size_def [symmetric]
        hdr'_def linorder_not_less)
  moreover have "index.stored (bt_page_size cfg) hdr k x hdr'"
    by (rule index.stored_below(1) [OF wf [unfolded index_wf_def] _ x _ lim above room refl])
      (use k in \<open>simp_all add: hdr'_def\<close>)
  ultimately show ?thesis by blast
qed

lemma set_index_entry_effect:
  assumes wf: "index_wf cfg hdr" and k: "k \<le> btree_num_entries hdr" and x: "pivot_ok x"
    and room: "index_room hdr k x"
  shows "\<exists>hdr'. btree_set_index_entry hdr k (fst x) (fst (snd x)) (snd (snd x)) = Inr (True, hdr') \<and>
    index.stored (bt_page_size cfg) hdr k x hdr' \<and>
    (k = btree_num_entries hdr \<longrightarrow> unat (next_entry hdr') + pivot_size x = unat (next_entry hdr))"
proof -
  let ?n = "btree_num_entries hdr" and ?z = "pivot_size (node_pivots hdr ! k)"
  let ?nn = "if k < ?n then ?n else k + 1"
  note w = page_wfD [OF wf [unfolded index_wf_def], unfolded index.esize_need]
  have z: "k < ?n \<Longrightarrow> sizeof_index_entry hdr (slot_off hdr k) = ?z"
    by (simp add: index_entry_reads nth_node_pivots get_index_entry_off)
  consider (lowest) "k < ?n" "unat (next_entry hdr) = slot_off hdr k" "table_end ?n + pivot_size x \<le> unat (next_entry hdr) + ?z"
    | (in_place) "k < ?n" "\<not> (unat (next_entry hdr) = slot_off hdr k \<and> table_end ?n + pivot_size x \<le> unat (next_entry hdr) + ?z)"
        "pivot_size x \<le> ?z"
    | (below) "\<not> (k < ?n \<and> (unat (next_entry hdr) = slot_off hdr k \<and> table_end ?n + pivot_size x \<le> unat (next_entry hdr) + ?z \<or>
        pivot_size x \<le> ?z))" "table_end ?nn + pivot_size x \<le> unat (next_entry hdr)"
    using room by (auto simp: index_room_def)
  then show ?thesis
  proof cases
    case lowest
    then show ?thesis using set_index_entry_lowest [OF wf lowest(1) x lowest(2,3)] by auto
  next
    case in_place
    let ?h = "hdr\<lparr>node_bytes := put_pivot (node_bytes hdr) (slot_off hdr k) x\<rparr>"
    have "btree_set_index_entry hdr k (fst x) (fst (snd x)) (snd (snd x)) = Inr (True, ?h)"
      using in_place z by (simp add: btree_set_index_entry_def Let_def get_index_entry_off fill_index_entry
          pivot_size_def [symmetric])
    moreover have "index.stored (bt_page_size cfg) hdr k x ?h"
      by (rule index.stored_in_place [OF wf [unfolded index_wf_def] in_place(1) x _ refl])
        (use in_place in \<open>simp add: index.esize_need nth_node_pivots get_index_entry_off\<close>)
    ultimately show ?thesis using in_place(1) by auto
  next
    case below
    let ?p = "unat (next_entry hdr) - pivot_size x"
    define h where "h = hdr\<lparr>offsets := (offsets hdr)(k := of_nat ?p), num_entries := of_nat ?nn, next_entry := of_nat ?p,
        node_bytes := put_pivot (node_bytes hdr) ?p x\<rparr>"
    have "btree_set_index_entry hdr k (fst x) (fst (snd x)) (snd (snd x)) = Inr (True, h)"
      using below z k by (auto simp: btree_set_index_entry_def Let_def get_index_entry_off fill_index_entry
          pivot_size_def [symmetric] h_def)
    then show ?thesis
      using index.stored_below [OF wf [unfolded index_wf_def] k x refl w(2) w(4) below(2) refl h_def] by blast
  qed
qed

lemma set_pivot_stored:
  assumes "index.stored (bt_page_size cfg) hdr k x hdr'"
  shows "index_wf cfg hdr'" and "hdr_links hdr' = hdr_links hdr"
    and "node_pivots hdr' = (if k < btree_num_entries hdr then (node_pivots hdr)[k := x] else node_pivots hdr @ [x])"
  using assms by (simp_all add: index.stored_def index_wf_def node_pivots_def)

lemma insert_index_entry_effect:
  assumes wf: "index_wf cfg hdr" and k: "k \<le> btree_num_entries hdr" and x: "pivot_ok x"
    and room: "table_end (btree_num_entries hdr + 1) + pivot_size x \<le> unat (next_entry hdr)"
  shows "\<exists>hdr'. btree_insert_index_entry hdr k (fst x) (fst (snd x)) (snd (snd x)) = Inr (True, hdr') \<and>
    index_wf cfg hdr' \<and> node_pivots hdr' = take k (node_pivots hdr) @ [x] @ drop k (node_pivots hdr) \<and>
    hdr_links hdr' = hdr_links hdr"
proof -
  have "index_room hdr (btree_num_entries hdr) x" using room by (simp add: index_room_def)
  then obtain h where h: "btree_set_index_entry hdr (btree_num_entries hdr) (fst x) (fst (snd x)) (snd (snd x)) = Inr (True, h)"
    "index.stored (bt_page_size cfg) hdr (btree_num_entries hdr) x h"
    using set_index_entry_effect [OF wf order.refl x] by blast
  note s = set_pivot_stored [OF h(2)]
  have p: "slots pivot_at h = node_pivots hdr @ [x]" using s(3) by (simp add: node_pivots_def)
  note r = rotate_effect [OF s(1) [unfolded index_wf_def] p, of k]
  show ?thesis
    by (rule exI [of _ "rotate_offsets h k"])
      (use h(1) r k s(2) in \<open>simp add: btree_insert_index_entry_def index_wf_def node_pivots_def\<close>)
qed

text \<open>A node that is not full takes one more pivot of the largest size, and a new smallest key.\<close>

lemma not_full_room:
  assumes "\<not> btree_index_is_full cfg hdr" and "key_length (fst x) \<le> MAX_INLINE_KEY_SIZE (bt_page_size cfg)"
  shows "table_end (btree_num_entries hdr + 1) + pivot_size x \<le> unat (next_entry hdr)"
  using assms by (simp add: btree_index_is_full_def pivot_size_def index_entry_required_capacity_def table_end_eq)

section \<open>Copying pivots\<close>

abbreviation index_compact :: "btree_config \<Rightarrow> btree_hdr \<Rightarrow> bool" where
  "index_compact cfg hdr \<equiv> index.compact (bt_page_size cfg) hdr"

lemma copy_index_entry_effect:
  assumes c: "index_compact cfg dst"
    and i: "fr + btree_num_entries dst < btree_num_entries src"
    and room: "37 + index.used_by (node_pivots dst) + 2 * Suc (btree_num_entries dst) +
      pivot_size (node_pivots src ! (fr + btree_num_entries dst)) \<le> bt_page_size cfg"
  shows "\<exists>dst'. copy_index_entry src fr (btree_num_entries dst) dst = Inr dst' \<and> index_compact cfg dst' \<and>
    node_pivots dst' = node_pivots dst @ [node_pivots src ! (fr + btree_num_entries dst)] \<and> hdr_links dst' = hdr_links dst"
proof -
  let ?n = "btree_num_entries dst"
  let ?x = "node_pivots src ! (fr + ?n)"
  have wf: "index_wf cfg dst" and space: "unat (next_entry dst) + index.used_by (node_pivots dst) = bt_page_size cfg"
    using c by (simp_all add: index.compact_def index_wf_def node_pivots_def)
  have x: "pivot_ok ?x" using i by (simp add: nth_node_pivots pivot_at_ok)
  have "index_room dst ?n ?x" using room space by (simp add: index_room_def table_end_eq)
  then obtain h where h: "btree_set_index_entry dst ?n (fst ?x) (fst (snd ?x)) (snd (snd ?x)) = Inr (True, h)"
    "index.stored (bt_page_size cfg) dst ?n ?x h" "unat (next_entry h) + pivot_size ?x = unat (next_entry dst)"
    using set_index_entry_effect [OF wf order.refl x] by blast
  note s = set_pivot_stored [OF h(2)]
  have "index_compact cfg h"
    using s(1,3) h(3) space by (simp add: index.compact_def index_wf_def node_pivots_def)
  moreover have "copy_index_entry src fr ?n dst = Inr h"
    using h(1) i by (simp add: copy_index_entry_def Let_def index_entry_reads nth_node_pivots [symmetric])
  ultimately show ?thesis using s by auto
qed

lemma copy_index_loop:
  assumes "index_compact cfg dst" and "fr + btree_num_entries dst + c \<le> btree_num_entries src"
    and "37 + index.used_by (node_pivots dst) + index.used_by (take c (drop (fr + btree_num_entries dst) (node_pivots src))) +
      2 * (btree_num_entries dst + c) \<le> bt_page_size cfg"
  shows "\<exists>dst'. iterM (copy_index_entry src fr) [btree_num_entries dst..<btree_num_entries dst + c] dst = Inr dst' \<and>
    index_compact cfg dst' \<and>
    node_pivots dst' = node_pivots dst @ take c (drop (fr + btree_num_entries dst) (node_pivots src)) \<and>
    hdr_links dst' = hdr_links dst"
  using assms
proof (induction c arbitrary: dst)
  case (Suc c)
  let ?n = "btree_num_entries dst"
  let ?x = "node_pivots src ! (fr + ?n)"
  have d: "take (Suc c) (drop (fr + ?n) (node_pivots src)) = ?x # take c (drop (fr + Suc ?n) (node_pivots src))"
    using Suc.prems(2) by (subst Cons_nth_drop_Suc [symmetric]) auto
  have i: "fr + ?n < btree_num_entries src" using Suc.prems(2) by simp
  obtain h where h: "copy_index_entry src fr ?n dst = Inr h" "index_compact cfg h"
    "node_pivots h = node_pivots dst @ [?x]" "hdr_links h = hdr_links dst"
    using copy_index_entry_effect [OF Suc.prems(1) i] Suc.prems(3) unfolding d by auto
  have n: "btree_num_entries h = Suc ?n" using num_pivots [OF h(3)] by simp
  have u: "[?n..<?n + Suc c] = ?n # [Suc ?n..<Suc ?n + c]" by (simp add: upt_conv_Cons)
  show ?case
    using Suc.IH [OF h(2)] Suc.prems(2,3) h unfolding n u d by simp
qed simp

lemma reset_index:
  assumes "bt_page_size cfg < 65536" and "37 \<le> bt_page_size cfg"
  shows "index_compact cfg (btree_reset_node_entries cfg hdr)"
    and "node_pivots (btree_reset_node_entries cfg hdr) = []"
    and "btree_num_entries (btree_reset_node_entries cfg hdr) = 0"
    and "hdr_links (btree_reset_node_entries cfg hdr) = hdr_links hdr"
  using reset_page [OF assms] reset_page(2) [OF assms, of pivot_at]
  by (simp_all add: index.compact_def node_pivots_def)

lemma copy_index_all:
  assumes wf: "index_wf cfg src" and fr: "fr \<le> btree_num_entries src"
    and dst: "dst = btree_reset_node_entries cfg h"
  shows "\<exists>dst'. iterM (copy_index_entry src fr) [0..<btree_num_entries src - fr] dst = Inr dst' \<and>
    index_compact cfg dst' \<and> node_pivots dst' = drop fr (node_pivots src) \<and> hdr_links dst' = hdr_links h"
proof -
  note w = index_packed [OF wf]
  note r = reset_index [of cfg h, OF index_page_small [OF wf], folded dst]
  have "index.used_by (drop fr (node_pivots src)) \<le> index.used_by (node_pivots src)"
    by (metis append_take_drop_id index.used_by_simps(3) le_add2)
  then show ?thesis
    using copy_index_loop [OF r(1), of "fr" "btree_num_entries src - fr" src] w fr r by simp
qed

section \<open>Defragmenting, truncating, the right node\<close>

lemma defragment_index_effect:
  assumes wf: "index_wf cfg hdr"
  shows "\<exists>hdr'. btree_defragment_index cfg hdr = Inr hdr' \<and> index_compact cfg hdr' \<and>
    node_pivots hdr' = node_pivots hdr \<and> hdr_links hdr' = hdr_links hdr"
  using copy_index_all [OF wf le0 refl] by (simp add: btree_defragment_index_def)

lemma compact_index_wf: "index_compact cfg hdr \<Longrightarrow> index_wf cfg hdr"
  by (simp add: index.compact_def index_wf_def)

lemma index_fields:
  assumes "num_entries hdr' = num_entries hdr" "next_entry hdr' = next_entry hdr"
    "offsets hdr' = offsets hdr" "node_bytes hdr' = node_bytes hdr"
  shows "index_wf cfg hdr' = index_wf cfg hdr" and "node_pivots hdr' = node_pivots hdr"
  by (simp_all add: index_wf_def node_pivots_def page_fields [OF assms])

lemma truncate_index_effect:
  assumes wf: "index_wf cfg hdr" and t: "t \<le> btree_num_entries hdr"
  shows "\<exists>hdr'. btree_truncate_index cfg hdr t = Inr hdr' \<and> index_wf cfg hdr' \<and>
    node_pivots hdr' = take t (node_pivots hdr) \<and>
    hdr_links hdr' = (prev_addr hdr, next_addr hdr, next_extent_addr hdr, generation hdr + 1, height hdr) \<and>
    (index_compact cfg hdr' \<or> bt_page_size cfg div 4 \<le> unat (next_entry hdr'))"
proof -
  let ?ne = "truncate_next_entry cfg hdr t"
  let ?h1 = "hdr\<lparr>num_entries := of_nat t, next_entry := of_nat ?ne\<rparr>"
  let ?h2 = "?h1\<lparr>generation := generation ?h1 + 1\<rparr>"
  note h1 = truncate_page [OF wf [unfolded index_wf_def] t refl]
  have h2: "index_wf cfg ?h2" "node_pivots ?h2 = take t (node_pivots hdr)"
    using index_fields(1) [of ?h2 ?h1 cfg] index_fields(2) [of ?h2 ?h1] h1 by (simp_all add: index_wf_def node_pivots_def)
  have l: "hdr_links ?h2 = (prev_addr hdr, next_addr hdr, next_extent_addr hdr, generation hdr + 1, height hdr)"
    by (simp add: hdr_links_def)
  show ?thesis
  proof (cases "?ne < BTREE_DEFRAGMENT_THRESHOLD (bt_page_size cfg)")
    case True
    then show ?thesis
      using defragment_index_effect [OF h2(1)] h2(2) l by (auto simp: btree_truncate_index_def Let_def compact_index_wf)
  next
    case False
    then have "bt_page_size cfg div 4 \<le> unat (next_entry ?h2)"
      using h1(4) by (simp add: BTREE_DEFRAGMENT_THRESHOLD_def)
    then show ?thesis using False h2 l by (auto simp: btree_truncate_index_def Let_def)
  qed
qed

lemma split_index_right_effect:
  assumes wf: "index_wf cfg hdr" and t: "t \<le> btree_num_entries hdr"
  shows "\<exists>right. btree_split_index_build_right_node cfg hdr t right0 = Inr right \<and> index_compact cfg right \<and>
    node_pivots right = drop t (node_pivots hdr) \<and>
    hdr_links right = (prev_addr hdr, next_addr hdr, next_extent_addr hdr, generation hdr + 1, height hdr)"
proof -
  let ?r0 = "hdr\<lparr>offsets := offsets right0, node_bytes := node_bytes right0\<rparr>"
  show ?thesis
    using copy_index_all [OF wf t refl, of "?r0\<lparr>generation := generation ?r0 + 1\<rparr>"]
    by (auto simp: btree_split_index_build_right_node_def Let_def hdr_links_def compact_index_wf)
qed

end
