(* ===== verification/BtLeafProofs.thy ===== *)
theory BtLeafProofs
  imports KeyOrder SlottedPage
begin

text \<open>
  The leaves as slotted pages: the invariant of a leaf, the list of its tuples, and what storing a
  tuple does to them.
\<close>

section \<open>The tuples of a leaf\<close>

definition leaf_size :: "bytes \<Rightarrow> nat \<Rightarrow> nat" where
  "leaf_size m p = sizeof_ondisk_tuple + sizeof_ondisk_tuple_data m p"

definition tuple_at :: "bytes \<Rightarrow> nat \<Rightarrow> key \<times> message" where
  "tuple_at m p = (ondisk_tuple_key m p, ondisk_tuple_message m p)"

definition tuple_size :: "key \<times> message \<Rightarrow> nat" where
  "tuple_size x = leaf_entry_required_capacity (fst x) (snd x)"

text \<open>A tuple that can be stored.\<close>

definition tuple_ok :: "key \<times> message \<Rightarrow> bool" where
  "tuple_ok x \<longleftrightarrow> key_is_user_key (fst x) \<and> msg_type (snd x) \<noteq> MESSAGE_TYPE_PIVOT_DATA"

definition put_tuple :: "bytes \<Rightarrow> nat \<Rightarrow> key \<times> message \<Rightarrow> bytes" where
  "put_tuple m p x = copy_tuple_to_ondisk_tuple m p (fst x) (snd x)"

interpretation leaf: slotted_page leaf_size tuple_at tuple_size tuple_ok put_tuple
proof unfold_locales
  show "leaf_size m p = tuple_size (tuple_at m p)" for m p
    by (simp add: leaf_size_def tuple_size_def tuple_at_def leaf_entry_required_capacity_def ondisk_tuple_key_def
        ondisk_tuple_message_def message_length_def key_length_def key_is_user_key_def sizeof_ondisk_tuple_data_def)
  show "0 < tuple_size x" for x
    by (simp add: tuple_size_def leaf_entry_required_capacity_def sizeof_ondisk_tuple_def)
  fix x m p q assume x: "tuple_ok x" and b: "tuple_size x < 65536"
  have k: "tuple_key_ok (fst x)" "message_ok (snd x)"
    using x b by (simp_all add: tuple_key_ok_def tuple_ok_def message_ok_def tuple_size_def leaf_entry_required_capacity_def)
  show "tuple_at (put_tuple m p x) p = x"
    using copy_tuple_read [OF k] by (simp add: tuple_at_def put_tuple_def)
  show "tuple_at (put_tuple m p x) q = tuple_at m q" if d: "q + leaf_size m q \<le> p \<or> p + tuple_size x \<le> q"
  proof -
    have "put_tuple m p x i = m i" if "q \<le> i" "i < q + 6 + sizeof_ondisk_tuple_data m q" for i
      using that d unfolding put_tuple_def by (intro copy_tuple_fields(7) [OF k])
        (auto simp: leaf_size_def tuple_size_def leaf_entry_required_capacity_def sizeof_ondisk_tuple_def)
    then have "ondisk_tuple_key (put_tuple m p x) q = ondisk_tuple_key m q"
      and "ondisk_tuple_message (put_tuple m p x) q = ondisk_tuple_message m q"
      by (rule tuple_cong; simp)+
    then show ?thesis by (simp add: tuple_at_def)
  qed
qed

definition leaf_tuple :: "btree_hdr \<Rightarrow> nat \<Rightarrow> key \<times> message" where
  "leaf_tuple hdr i = (btree_get_tuple_key hdr i, btree_get_tuple_message hdr i)"

definition leaf_tuples :: "btree_hdr \<Rightarrow> (key \<times> message) list" where
  "leaf_tuples hdr = map (leaf_tuple hdr) [0..<btree_num_entries hdr]"

lemma get_leaf_entry_off: "btree_get_leaf_entry hdr i = slot_off hdr i"
  by (simp add: btree_get_leaf_entry_def slot_off_def)

lemma leaf_tuple_eq: "leaf_tuple hdr i = tuple_at (node_bytes hdr) (slot_off hdr i)"
  by (simp add: leaf_tuple_def btree_get_tuple_key_def btree_get_tuple_message_def leaf_entry_key_def
      leaf_entry_message_def get_leaf_entry_off tuple_at_def)

lemma leaf_tuples_slots: "leaf_tuples hdr = slots tuple_at hdr"
  by (simp add: leaf_tuples_def slots_def leaf_tuple_eq)

lemma leaf_entry_size: "sizeof_leaf_entry hdr (btree_get_leaf_entry hdr i) = tuple_size (leaf_tuple hdr i)"
  by (simp add: leaf_tuple_eq sizeof_leaf_entry_def get_leaf_entry_off leaf.esize_need [symmetric] leaf_size_def)

lemma leaf_tuple_ok: "tuple_ok (leaf_tuple hdr i)"
  by (simp add: tuple_ok_def leaf_tuple_eq tuple_at_def ondisk_tuple_key_def key_is_user_key_def ondisk_tuple_message_def
      ondisk_tuple_message_class_def message_type_of_def)

lemma length_leaf_tuples [simp]: "length (leaf_tuples hdr) = btree_num_entries hdr"
  by (simp add: leaf_tuples_def)

lemma nth_leaf_tuples [simp]: "i < btree_num_entries hdr \<Longrightarrow> leaf_tuples hdr ! i = leaf_tuple hdr i"
  by (simp add: leaf_tuples_def)

lemma num_leaf_tuples: "leaf_tuples hdr = xs \<Longrightarrow> btree_num_entries hdr = length xs"
  using length_leaf_tuples [of hdr] by simp

abbreviation used :: "(key \<times> message) list \<Rightarrow> nat" where "used \<equiv> leaf.used_by"

section \<open>The invariant\<close>

definition leaf_wf :: "btree_config \<Rightarrow> btree_hdr \<Rightarrow> bool" where
  "leaf_wf cfg hdr \<longleftrightarrow> page_wf leaf_size (bt_page_size cfg) hdr"

abbreviation compact :: "btree_config \<Rightarrow> btree_hdr \<Rightarrow> bool" where
  "compact cfg hdr \<equiv> leaf.compact (bt_page_size cfg) hdr"

lemma compact_wf: "compact cfg hdr \<Longrightarrow> leaf_wf cfg hdr"
  by (simp add: leaf.compact_def leaf_wf_def)

lemma compact_space: "compact cfg hdr \<Longrightarrow> unat (next_entry hdr) + used (leaf_tuples hdr) = bt_page_size cfg"
  by (simp add: leaf.compact_def leaf_tuples_slots)

lemma compactI:
  "leaf_wf cfg hdr \<Longrightarrow> unat (next_entry hdr) + used (leaf_tuples hdr) = bt_page_size cfg \<Longrightarrow> compact cfg hdr"
  by (simp add: leaf.compact_def leaf_tuples_slots leaf_wf_def)

lemma leaf_page_small: "leaf_wf cfg hdr \<Longrightarrow> bt_page_size cfg < 65536"
  unfolding leaf_wf_def by (rule page_wfD(1))

lemma num_entries_lt: "leaf_wf cfg hdr \<Longrightarrow> btree_num_entries hdr < 65536"
  unfolding leaf_wf_def by (rule num_entries_small)

lemma leaf_packed:
  "leaf_wf cfg hdr \<Longrightarrow> 37 + used (leaf_tuples hdr) + 2 * btree_num_entries hdr \<le> bt_page_size cfg"
  unfolding leaf_wf_def leaf_tuples_slots by (rule leaf.packed_table)

section \<open>Setting an entry\<close>

lemma set_leaf_entry_returns:
  assumes wf: "leaf_wf cfg hdr" and k: "k \<le> btree_num_entries hdr"
  shows "\<exists>hdr'. btree_set_leaf_entry hdr k key msg = Inr (btree_can_set_leaf_entry hdr k key msg, hdr')"
proof -
  let ?n = "btree_num_entries hdr" and ?req = "leaf_entry_required_capacity key msg"
  let ?nn = "if k < ?n then ?n else k + 1"
  show ?thesis
  proof (cases "unat (next_entry hdr) < table_end ?nn + ?req")
    case True
    then show ?thesis using k by (auto simp: btree_set_leaf_entry_def btree_can_set_leaf_entry_def Let_def)
  next
    case False
    have "table_end ?nn < 65536" using False page_wfD(1,2) [OF wf [unfolded leaf_wf_def]] by simp
    then have "?nn < 65536" using table_end_lt [of ?nn] by simp
    then have "unat (of_nat ?nn :: u16) = ?nn" by (rule unat_of_nat_u16)
    moreover have "0 < ?nn" by simp
    ultimately have "0 < (of_nat ?nn :: u16)" by (simp only: word_less_nat_alt) simp
    then show ?thesis using False k
      by (auto simp: btree_set_leaf_entry_def btree_can_set_leaf_entry_def Let_def btree_fill_leaf_entry_def)
  qed
qed

lemma set_leaf_entry_fails:
  assumes "btree_set_leaf_entry hdr k key msg = Inr (False, hdr')"
  shows "hdr' = hdr" and "\<not> btree_can_set_leaf_entry hdr k key msg"
  using assms by (auto simp: btree_set_leaf_entry_def btree_can_set_leaf_entry_def Let_def split: if_splits)

lemma set_leaf_entry_effect:
  assumes wf: "leaf_wf cfg hdr" and k: "k \<le> btree_num_entries hdr" and x: "tuple_ok x"
    and ret: "btree_set_leaf_entry hdr k (fst x) (snd x) = Inr (True, hdr')"
  shows "leaf_wf cfg hdr'"
    and "leaf_tuples hdr' = (if k < btree_num_entries hdr then (leaf_tuples hdr)[k := x] else leaf_tuples hdr @ [x])"
    and "hdr_links hdr' = hdr_links hdr"
    and "k = btree_num_entries hdr \<Longrightarrow> unat (next_entry hdr') + tuple_size x = unat (next_entry hdr)"
proof -
  let ?n = "btree_num_entries hdr" and ?P = "bt_page_size cfg"
  note w = page_wfD [OF wf [unfolded leaf_wf_def]]
  have "leaf.stored ?P hdr k x hdr' \<and> (k = ?n \<longrightarrow> unat (next_entry hdr') + tuple_size x = unat (next_entry hdr))"
  proof (cases "k < ?n \<and> tuple_size x \<le> sizeof_leaf_entry hdr (btree_get_leaf_entry hdr k)")
    case True
    then have "hdr' = hdr\<lparr>node_bytes := put_tuple (node_bytes hdr) (slot_off hdr k) x\<rparr>"
      and "tuple_size x \<le> leaf_size (node_bytes hdr) (slot_off hdr k)"
      using ret by (simp_all add: btree_set_leaf_entry_def Let_def get_leaf_entry_off tuple_size_def
          btree_fill_leaf_entry_def put_tuple_def sizeof_leaf_entry_def leaf_size_def)
    then show ?thesis
      using leaf.stored_in_place [OF wf [unfolded leaf_wf_def] _ x, of k hdr'] True by blast
  next
    case False
    let ?nn = "if k < ?n then ?n else k + 1"
    have room: "table_end ?nn + tuple_size x \<le> unat (next_entry hdr)"
      and hdr': "hdr' = hdr\<lparr>offsets := (offsets hdr)(k := of_nat (unat (next_entry hdr) - tuple_size x)),
        num_entries := of_nat ?nn, next_entry := of_nat (unat (next_entry hdr) - tuple_size x),
        node_bytes := put_tuple (node_bytes hdr) (unat (next_entry hdr) - tuple_size x) x\<rparr>"
      using ret False k by (auto simp: btree_set_leaf_entry_def Let_def tuple_size_def
          btree_fill_leaf_entry_def put_tuple_def split: if_splits)
    show ?thesis
      using leaf.stored_below [OF wf [unfolded leaf_wf_def] k x refl w(2) w(4) room refl hdr'] by blast
  qed
  then show "leaf_wf cfg hdr'"
    and "leaf_tuples hdr' = (if k < btree_num_entries hdr then (leaf_tuples hdr)[k := x] else leaf_tuples hdr @ [x])"
    and "hdr_links hdr' = hdr_links hdr"
    and "k = btree_num_entries hdr \<Longrightarrow> unat (next_entry hdr') + tuple_size x = unat (next_entry hdr)"
    unfolding leaf.stored_def leaf_wf_def leaf_tuples_slots by blast+
qed

text \<open>
  Insertion, the incorporation of a tuple, defragmentation and truncation of a leaf, on the
  list of its tuples.
\<close>

section \<open>Insertion\<close>

lemma insert_leaf_entry_returns:
  assumes wf: "leaf_wf cfg hdr"
  shows "\<exists>hdr'. btree_insert_leaf_entry hdr k key msg =
    Inr (btree_can_set_leaf_entry hdr (btree_num_entries hdr) key msg, hdr')"
  using set_leaf_entry_returns [OF wf order.refl, of key msg] by (auto simp: btree_insert_leaf_entry_def)

lemma insert_leaf_entry_effect:
  assumes wf: "leaf_wf cfg hdr" and k: "k \<le> btree_num_entries hdr" and x: "tuple_ok x"
    and ret: "btree_insert_leaf_entry hdr k (fst x) (snd x) = Inr (True, hdr')"
  shows "leaf_wf cfg hdr'" and "leaf_tuples hdr' = take k (leaf_tuples hdr) @ [x] @ drop k (leaf_tuples hdr)"
    and "hdr_links hdr' = hdr_links hdr"
proof -
  obtain h1 where h1: "btree_set_leaf_entry hdr (btree_num_entries hdr) (fst x) (snd x) = Inr (True, h1)"
      "hdr' = rotate_offsets h1 k"
    using ret by (auto simp: btree_insert_leaf_entry_def elim!: obind_InrE split: if_splits)
  note e = set_leaf_entry_effect [OF wf order.refl x h1(1)]
  have t: "slots tuple_at h1 = leaf_tuples hdr @ [x]" using e(2) by (simp add: leaf_tuples_slots)
  show "leaf_wf cfg hdr'" and "leaf_tuples hdr' = take k (leaf_tuples hdr) @ [x] @ drop k (leaf_tuples hdr)"
    and "hdr_links hdr' = hdr_links hdr"
    using rotate_effect [OF e(1) [unfolded leaf_wf_def] t] k e(3)
    by (simp_all add: h1(2) leaf_wf_def) (simp add: leaf_tuples_slots)
qed

lemma insert_leaf_entry_fails:
  "btree_insert_leaf_entry hdr k key msg = Inr (False, hdr') \<Longrightarrow> hdr' = hdr"
  by (auto simp: btree_insert_leaf_entry_def elim!: obind_InrE dest: set_leaf_entry_fails)

section \<open>Incorporation\<close>

lemma table_index_small: "0 \<le> i \<Longrightarrow> i < 65536 \<Longrightarrow> table_index i = nat i"
  by (simp add: table_index_def unsigned_of_int take_bit_int_eq_self)

text \<open>The links and the generation of a node do not matter for its contents.\<close>

lemma header_fields:
  assumes "num_entries hdr' = num_entries hdr" "next_entry hdr' = next_entry hdr"
    "offsets hdr' = offsets hdr" "node_bytes hdr' = node_bytes hdr"
  shows "leaf_wf cfg hdr' = leaf_wf cfg hdr" and "leaf_tuples hdr' = leaf_tuples hdr"
    and "btree_can_perform_leaf_incorporate_spec hdr' spec = btree_can_perform_leaf_incorporate_spec hdr spec"
proof -
  show "leaf_wf cfg hdr' = leaf_wf cfg hdr" "leaf_tuples hdr' = leaf_tuples hdr"
    by (simp_all add: leaf_wf_def leaf_tuples_slots page_fields [OF assms])
  have "btree_num_entries hdr' = btree_num_entries hdr" "\<And>p. sizeof_leaf_entry hdr' p = sizeof_leaf_entry hdr p"
    "\<And>i. btree_get_leaf_entry hdr' i = btree_get_leaf_entry hdr i"
    by (simp_all add: btree_num_entries_def sizeof_leaf_entry_def btree_get_leaf_entry_def assms)
  then show "btree_can_perform_leaf_incorporate_spec hdr' spec = btree_can_perform_leaf_incorporate_spec hdr spec"
    by (simp add: btree_can_perform_leaf_incorporate_spec_def btree_can_set_leaf_entry_def
        assms(2) split: old_entry_state.split)
qed

definition spec_tuple :: "leaf_incorporate_spec \<Rightarrow> key \<times> message" where
  "spec_tuple spec = (spec_key spec, spec_msg spec)"

text \<open>The tuples after the incorporation, on the tuples of the node.\<close>

definition spec_target :: "leaf_incorporate_spec \<Rightarrow> (key \<times> message) list \<Rightarrow> (key \<times> message) list" where
  "spec_target spec ts =
     (let i = nat (spec_idx spec)
      in if spec_state spec = ENTRY_STILL_EXISTS then ts[i := spec_tuple spec]
         else take i ts @ [spec_tuple spec] @ drop i ts)"

definition spec_ok :: "leaf_incorporate_spec \<Rightarrow> nat \<Rightarrow> bool" where
  "spec_ok spec n \<longleftrightarrow> tuple_ok (spec_tuple spec) \<and> 0 \<le> spec_idx spec \<and> spec_idx spec \<le> int n \<and>
     (spec_state spec = ENTRY_STILL_EXISTS \<longrightarrow> spec_idx spec < int n)"

lemma perform_returns:
  assumes wf: "leaf_wf cfg hdr" and ok: "spec_ok spec (btree_num_entries hdr)"
  shows "\<exists>g hdr'. btree_try_perform_leaf_incorporate_spec hdr spec =
    Inr (btree_can_perform_leaf_incorporate_spec hdr spec, g, hdr')"
proof -
  have ix: "table_index (spec_idx spec) \<le> btree_num_entries hdr"
    using ok num_entries_lt [OF wf] by (simp add: spec_ok_def table_index_small nat_le_iff)
  show ?thesis
    using insert_leaf_entry_returns [OF wf, of "table_index (spec_idx spec)" "spec_key spec" "spec_msg spec"]
      set_leaf_entry_returns [OF wf ix, of "spec_key spec" "spec_msg spec"]
    by (cases "spec_state spec")
      (auto simp: btree_try_perform_leaf_incorporate_spec_def btree_can_perform_leaf_incorporate_spec_def)
qed

lemma perform_fails:
  assumes "btree_try_perform_leaf_incorporate_spec hdr spec = Inr (False, g, hdr')"
  shows "hdr' = hdr" and "g = None"
  using assms insert_leaf_entry_fails set_leaf_entry_fails(1)
  by (auto simp: btree_try_perform_leaf_incorporate_spec_def elim!: obind_InrE
      split: if_splits old_entry_state.splits; blast)+

lemma perform_effect:
  assumes wf: "leaf_wf cfg hdr" and ok: "spec_ok spec (btree_num_entries hdr)"
    and ret: "btree_try_perform_leaf_incorporate_spec hdr spec = Inr (True, g, hdr')"
  shows "leaf_wf cfg hdr'" and "leaf_tuples hdr' = spec_target spec (leaf_tuples hdr)"
    and "g = Some (generation hdr)"
    and "hdr_links hdr' = (prev_addr hdr, next_addr hdr, next_extent_addr hdr, generation hdr + 1, height hdr)"
proof -
  let ?i = "nat (spec_idx spec)"
  have ti: "table_index (spec_idx spec) = ?i"
    using ok num_entries_lt [OF wf] by (simp add: spec_ok_def table_index_small)
  have i: "?i \<le> btree_num_entries hdr" "spec_state spec = ENTRY_STILL_EXISTS \<Longrightarrow> ?i < btree_num_entries hdr"
    and x: "tuple_ok (spec_tuple spec)" using ok by (auto simp: spec_ok_def)
  obtain h1 where h1: "if spec_state spec = ENTRY_STILL_EXISTS
      then btree_set_leaf_entry hdr ?i (fst (spec_tuple spec)) (snd (spec_tuple spec)) = Inr (True, h1)
      else btree_insert_leaf_entry hdr ?i (fst (spec_tuple spec)) (snd (spec_tuple spec)) = Inr (True, h1)"
    and r: "g = Some (generation h1)" "hdr' = h1\<lparr>generation := generation h1 + 1\<rparr>"
    using ret ti by (cases "spec_state spec")
      (auto simp: btree_try_perform_leaf_incorporate_spec_def spec_tuple_def elim!: obind_InrE split: if_splits)
  have e: "leaf_wf cfg h1 \<and> leaf_tuples h1 = spec_target spec (leaf_tuples hdr) \<and> hdr_links h1 = hdr_links hdr"
  proof (cases "spec_state spec = ENTRY_STILL_EXISTS")
    case True
    then show ?thesis
      using set_leaf_entry_effect [OF wf i(1) x, of h1] h1 i(2) by (simp add: spec_target_def Let_def)
  next
    case False
    then show ?thesis
      using insert_leaf_entry_effect [OF wf i(1) x, of h1] h1 by (simp add: spec_target_def Let_def)
  qed
  show "leaf_wf cfg hdr'" and "leaf_tuples hdr' = spec_target spec (leaf_tuples hdr)"
    using e header_fields(1,2) [of hdr' h1] r(2) by simp_all
  show "g = Some (generation hdr)"
    and "hdr_links hdr' = (prev_addr hdr, next_addr hdr, next_extent_addr hdr, generation hdr + 1, height hdr)"
    using e r by (simp_all add: hdr_links_def)
qed

section \<open>Copying entries\<close>

definition removed :: "leaf_incorporate_spec option \<Rightarrow> nat \<Rightarrow> bool" where
  "removed spec i \<longleftrightarrow> (case spec of None \<Rightarrow> False
     | Some s \<Rightarrow> spec_state s = ENTRY_STILL_EXISTS \<and> spec_idx s = int i)"

definition spec_after :: "nat list \<Rightarrow> leaf_incorporate_spec option \<Rightarrow> leaf_incorporate_spec option" where
  "spec_after xs spec = (if \<exists>i\<in>set xs. removed spec i
     then map_option (\<lambda>s. s\<lparr>spec_state := ENTRY_HAS_BEEN_REMOVED\<rparr>) spec else spec)"

lemma compact_append:
  assumes c: "compact cfg dst" and x: "tuple_ok x"
    and room: "table_end (Suc (btree_num_entries dst)) + used (leaf_tuples dst) + tuple_size x \<le> bt_page_size cfg"
  shows "\<exists>dst'. btree_set_leaf_entry dst (table_index (int (btree_num_entries dst))) (fst x) (snd x) = Inr (True, dst') \<and>
    compact cfg dst' \<and> leaf_tuples dst' = leaf_tuples dst @ [x] \<and> hdr_links dst' = hdr_links dst"
proof -
  let ?n = "btree_num_entries dst"
  note wf = compact_wf [OF c] and next' = compact_space [OF c]
  have ti: "table_index (int ?n) = ?n" using num_entries_lt [OF wf] by (simp add: table_index_small)
  have "btree_can_set_leaf_entry dst ?n (fst x) (snd x)"
    using room next' by (simp add: btree_can_set_leaf_entry_def Let_def tuple_size_def)
  then obtain dst' where r: "btree_set_leaf_entry dst ?n (fst x) (snd x) = Inr (True, dst')"
    using set_leaf_entry_returns [OF wf order.refl, of "fst x" "snd x"] by auto
  note e = set_leaf_entry_effect [OF wf order.refl x r]
  then show ?thesis using r ti next' by (auto intro!: compactI)
qed

lemma copy_removed:
  "removed spec i \<Longrightarrow> copy_leaf_entry src i (dst, d, spec) = Inr (dst, d, spec_after [i] spec)"
  by (auto simp: copy_leaf_entry_def removed_def spec_after_def split: option.splits)

lemma copy_kept:
  "\<not> removed spec i \<Longrightarrow> copy_leaf_entry src i (dst, d, spec) =
     obind (btree_set_leaf_entry dst (table_index (int d)) (fst (leaf_tuple src i)) (snd (leaf_tuple src i)))
       (\<lambda>(_, dst'). Inr (dst', d + 1, spec))"
  by (auto simp: copy_leaf_entry_def removed_def leaf_tuple_def btree_get_tuple_key_def btree_get_tuple_message_def
      Let_def split: option.splits)

lemma copy_loop:
  assumes "compact cfg dst" and "distinct xs"
    and "table_end (btree_num_entries dst + length (filter (\<lambda>i. \<not> removed spec i) xs)) + used (leaf_tuples dst) +
      used (map (leaf_tuple src) (filter (\<lambda>i. \<not> removed spec i) xs)) \<le> bt_page_size cfg"
  shows "\<exists>dst'. iterM (copy_leaf_entry src) xs (dst, btree_num_entries dst, spec) =
      Inr (dst', btree_num_entries dst', spec_after xs spec) \<and> compact cfg dst' \<and>
    leaf_tuples dst' = leaf_tuples dst @ map (leaf_tuple src) (filter (\<lambda>i. \<not> removed spec i) xs) \<and>
    hdr_links dst' = hdr_links dst"
  using assms
proof (induction xs arbitrary: dst spec)
  case Nil
  then show ?case by (simp add: spec_after_def)
next
  case (Cons i xs)
  show ?case
  proof (cases "removed spec i")
    case True
    have nr: "\<not> removed (spec_after [i] spec) j" for j
      using True by (auto simp: removed_def spec_after_def split: option.splits)
    have f: "filter (\<lambda>j. \<not> removed spec j) xs = xs"
      using True Cons.prems(2) by (auto simp: filter_id_conv removed_def split: option.splits)
    have sp: "spec_after xs (spec_after [i] spec) = spec_after [i] spec" "spec_after (i # xs) spec = spec_after [i] spec"
      using nr True by (auto simp: spec_after_def)
    show ?thesis
      using Cons.IH [of dst "spec_after [i] spec"] Cons.prems True f nr by (simp add: copy_removed sp)
  next
    case False
    let ?x = "leaf_tuple src i"
    have te: "table_end (Suc (btree_num_entries dst)) \<le>
        table_end (btree_num_entries dst + Suc (length (filter (\<lambda>i. \<not> removed spec i) xs)))"
      by (simp add: table_end_def)
    have "table_end (Suc (btree_num_entries dst)) + used (leaf_tuples dst) + tuple_size ?x \<le> bt_page_size cfg"
      using Cons.prems(3) False te by simp
    then obtain d1 where d1:
      "btree_set_leaf_entry dst (table_index (int (btree_num_entries dst))) (fst ?x) (snd ?x) = Inr (True, d1)"
      "compact cfg d1" "leaf_tuples d1 = leaf_tuples dst @ [?x]" "hdr_links d1 = hdr_links dst"
      using compact_append [OF Cons.prems(1) leaf_tuple_ok] by blast
    have n1: "btree_num_entries d1 = Suc (btree_num_entries dst)" using num_leaf_tuples [OF d1(3)] by simp
    have "spec_after (i # xs) spec = spec_after xs spec" using False by (simp add: spec_after_def)
    then show ?thesis
      using Cons.IH [of d1 spec] d1 Cons.prems(2,3) False n1 by (simp add: copy_kept)
  qed
qed

lemma reset_compact:
  assumes "bt_page_size cfg < 65536" and "37 \<le> bt_page_size cfg"
  shows "compact cfg (btree_reset_node_entries cfg hdr)" and "leaf_tuples (btree_reset_node_entries cfg hdr) = []"
    and "btree_num_entries (btree_reset_node_entries cfg hdr) = 0"
    and "hdr_links (btree_reset_node_entries cfg hdr) = hdr_links hdr"
  using reset_page [OF assms] reset_page(2) [OF assms, of tuple_at]
  by (simp_all add: leaf.compact_def leaf_tuples_slots)

section \<open>Defragmentation\<close>

text \<open>The tuples that stay when a node is defragmented for an incorporation.\<close>

definition kept_tuples :: "leaf_incorporate_spec option \<Rightarrow> btree_hdr \<Rightarrow> (key \<times> message) list" where
  "kept_tuples spec hdr = map (leaf_tuple hdr) (filter (\<lambda>i. \<not> removed spec i) [0..<btree_num_entries hdr])"

lemma used_map_filter: "used (map f (filter P xs)) \<le> used (map f xs)"
  by (induction xs) auto

lemma defragment_effect:
  assumes wf: "leaf_wf cfg hdr"
  shows "\<exists>hdr'. btree_defragment_leaf cfg hdr spec = Inr (hdr', spec_after [0..<btree_num_entries hdr] spec) \<and>
    compact cfg hdr' \<and> leaf_tuples hdr' = kept_tuples spec hdr \<and> hdr_links hdr' = hdr_links hdr"
proof -
  let ?xs = "[0..<btree_num_entries hdr]"
  note w = leaf_packed [OF wf]
  note r = reset_compact [of cfg hdr, OF leaf_page_small [OF wf]]
  have "used (map (leaf_tuple hdr) (filter (\<lambda>i. \<not> removed spec i) ?xs)) \<le> used (leaf_tuples hdr)"
    unfolding leaf_tuples_def by (rule used_map_filter)
  moreover have "length (filter (\<lambda>i. \<not> removed spec i) ?xs) \<le> btree_num_entries hdr"
    using length_filter_le [of "\<lambda>i. \<not> removed spec i" ?xs] by simp
  ultimately have "table_end (length (filter (\<lambda>i. \<not> removed spec i) ?xs)) +
      used (map (leaf_tuple hdr) (filter (\<lambda>i. \<not> removed spec i) ?xs)) \<le> bt_page_size cfg"
    using w by (simp add: table_end_eq)
  then show ?thesis
    using copy_loop [OF r(1), of ?xs spec hdr] r w by (auto simp: btree_defragment_leaf_def kept_tuples_def)
qed

section \<open>Truncation\<close>

lemma truncate_effect:
  assumes wf: "leaf_wf cfg hdr" and t: "t \<le> btree_num_entries hdr"
  shows "leaf_wf cfg (btree_truncate_leaf cfg hdr t)"
    and "leaf_tuples (btree_truncate_leaf cfg hdr t) = take t (leaf_tuples hdr)"
    and "hdr_links (btree_truncate_leaf cfg hdr t) = hdr_links hdr"
  using truncate_page [OF wf [unfolded leaf_wf_def] t btree_truncate_leaf_def]
  by (simp_all add: leaf_wf_def leaf_tuples_slots)

end
