(* ===== verification/BtSplit.thy ===== *)
theory BtSplit
  imports BtLeafProofs
begin

text \<open>
  The splitting of a leaf: what the plan takes to the left, that both halves then have room for
  their entries and for the new one, and what the two nodes hold.
\<close>

section \<open>Weight\<close>

text \<open>The bytes that tuples take in a page, with their places in the table of offsets.\<close>

definition weight :: "(key \<times> message) list \<Rightarrow> nat" where
  "weight ts = used ts + 2 * length ts"

lemma weight_simps [simp]:
  "weight [] = 0" "weight (x # ts) = tuple_size x + 2 + weight ts" "weight (ts @ us) = weight ts + weight us"
  by (simp_all add: weight_def)

lemma weight_take_drop: "weight (take k ts) + weight (drop k ts) = weight ts"
  by (metis append_take_drop_id weight_simps(3))

lemma room_weight: "table_end (length ts) + used ts = 37 + weight ts"
  by (simp add: table_end_def sizeof_btree_hdr_def sizeof_table_entry_def weight_def)

lemma packed_weight:
  assumes wf: "leaf_wf cfg hdr"
  shows "37 + weight (leaf_tuples hdr) \<le> bt_page_size cfg"
  using leaf_packed [OF wf] by (simp add: weight_def)

lemma required_size: "leaf_entry_required_capacity k m = tuple_size (k, m)"
  by (simp add: tuple_size_def)

text \<open>The bound of \<open>btree_config_init\<close> on what one entry takes.\<close>

definition entry_fits :: "btree_config \<Rightarrow> key \<times> message \<Rightarrow> bool" where
  "entry_fits cfg t \<longleftrightarrow> tuple_size t + 2 < (bt_page_size cfg - 37) div 2"

lemma config_entry_fits:
  assumes "btree_config_init page_size dc = Inr cfg"
    and "key_length (fst t) \<le> MAX_INLINE_KEY_SIZE page_size"
    and "message_length (snd t) \<le> MAX_INLINE_MESSAGE_SIZE page_size"
  shows "entry_fits cfg t"
  using assms by (auto simp: btree_config_init_def Let_def entry_fits_def tuple_size_def
      leaf_entry_required_capacity_def sizeof_table_entry_def sizeof_btree_hdr_def split: if_splits)

section \<open>The plan\<close>

text \<open>How many tuples the plan takes to the left, on the list of the tuples after the incorporation.\<close>

fun left_count :: "nat \<Rightarrow> nat \<Rightarrow> (key \<times> message) list \<Rightarrow> nat" where
  "left_count tot left [] = 0"
| "left_count tot left (x # xs) =
     (if most_of_entry_is_on_left_side tot left (tuple_size x)
      then Suc (left_count tot (left + (tuple_size x + 2)) xs) else 0)"

lemma left_count_le: "left_count tot left ts \<le> length ts"
  by (induction ts arbitrary: left) auto

lemma left_count_append:
  "left_count tot left (xs @ ys) =
     (if left_count tot left xs = length xs then length xs + left_count tot (left + weight xs) ys
      else left_count tot left xs)"
  by (induction xs arbitrary: left) (auto simp: add.assoc)

text \<open>Every tuple on the left ends before the middle, the first one on the right does not.\<close>

lemma left_count_bounds:
  assumes "\<forall>t \<in> set ts. tuple_size t + 2 \<le> b"
  shows "0 < left_count tot left ts \<Longrightarrow> 2 * (left + weight (take (left_count tot left ts) ts)) < tot + b"
    and "left_count tot left ts < length ts \<Longrightarrow>
      tot \<le> 2 * (left + weight (take (left_count tot left ts) ts)) + b + 1"
proof -
  show "0 < left_count tot left ts \<Longrightarrow> 2 * (left + weight (take (left_count tot left ts) ts)) < tot + b"
    using assms
  proof (induction ts arbitrary: left)
    case (Cons x xs)
    have m: "left + 2 + tuple_size x < (tot + 2 + tuple_size x) div 2"
      using Cons.prems(1) by (auto simp: most_of_entry_is_on_left_side_def sizeof_table_entry_def split: if_splits)
    show ?case
    proof (cases "left_count tot (left + (tuple_size x + 2)) xs")
      case 0
      then show ?thesis using m Cons.prems by (auto simp: most_of_entry_is_on_left_side_def sizeof_table_entry_def)
    next
      case (Suc k)
      then show ?thesis
        using Cons.IH [of "left + (tuple_size x + 2)"] Cons.prems by (auto simp: add.assoc split: if_splits)
    qed
  qed simp
  show "left_count tot left ts < length ts \<Longrightarrow>
      tot \<le> 2 * (left + weight (take (left_count tot left ts) ts)) + b + 1"
    using assms
  proof (induction ts arbitrary: left)
    case (Cons x xs)
    show ?case
    proof (cases "most_of_entry_is_on_left_side tot left (tuple_size x)")
      case True
      then show ?thesis
        using Cons.IH [of "left + (tuple_size x + 2)"] Cons.prems by (auto simp: add.assoc)
    next
      case False
      then show ?thesis
        using Cons.prems by (auto simp: most_of_entry_is_on_left_side_def sizeof_table_entry_def)
    qed
  qed simp
qed

lemma left_count_last:
  assumes "left + weight ts = tot" and "ts \<noteq> []"
  shows "left_count tot left ts < length ts"
  using assms
proof (induction ts arbitrary: left)
  case (Cons x xs)
  show ?case
  proof (cases "xs = []")
    case True
    then show ?thesis
      using Cons.prems by (auto simp: most_of_entry_is_on_left_side_def sizeof_table_entry_def)
  next
    case False
    then show ?thesis using Cons.IH [of "left + (tuple_size x + 2)"] Cons.prems by auto
  qed
qed simp

lemma halves_fit:
  assumes fits: "\<forall>t \<in> set ts. entry_fits cfg t" and tot: "37 + weight ts < bt_page_size cfg + (bt_page_size cfg - 37) div 2"
    and P: "37 \<le> bt_page_size cfg" and ne: "ts \<noteq> []"
  shows "37 + weight (take (left_count (weight ts) 0 ts) ts) \<le> bt_page_size cfg"
    and "37 + weight (drop (left_count (weight ts) 0 ts) ts) \<le> bt_page_size cfg"
proof -
  let ?b = "(bt_page_size cfg - 37) div 2 - 1" and ?k = "left_count (weight ts) 0 ts"
  have b: "\<forall>t \<in> set ts. tuple_size t + 2 \<le> ?b" using fits by (auto simp: entry_fits_def)
  have k: "?k < length ts" using left_count_last [of 0 ts "weight ts"] ne by simp
  note l = left_count_bounds [OF b, of "weight ts" 0]
  show "37 + weight (take ?k ts) \<le> bt_page_size cfg"
    using l(1) tot P by (cases "?k") auto
  show "37 + weight (drop ?k ts) \<le> bt_page_size cfg"
    using l(2) [OF k] tot P weight_take_drop [of ?k ts] by simp
qed

lemma plan_move:
  assumes "idx \<le> mx" and "mx \<le> btree_num_entries hdr"
  shows "plan_move_more_entries_to_left hdr mx tot left idx =
    (let k = left_count tot left (drop idx (take mx (leaf_tuples hdr)))
     in (left + weight (take k (drop idx (take mx (leaf_tuples hdr)))), idx + k))"
  using assms
proof (induction "mx - idx" arbitrary: idx left)
  case 0
  then show ?case by (simp add: plan_move_more_entries_to_left.simps)
next
  case (Suc d)
  let ?ts = "take mx (leaf_tuples hdr)"
  have d: "drop idx ?ts = leaf_tuple hdr idx # drop (Suc idx) ?ts"
    using Suc.hyps(2) Suc.prems by (subst Cons_nth_drop_Suc [symmetric]) auto
  have z: "sizeof_leaf_entry hdr (btree_get_leaf_entry hdr idx) = tuple_size (leaf_tuple hdr idx)"
    by (rule leaf_entry_size)
  have t: "sizeof_table_entry = 2" by (simp add: sizeof_table_entry_def)
  show ?case
    using Suc.hyps(1) [of "Suc idx" "left + (tuple_size (leaf_tuple hdr idx) + 2)"] Suc.hyps(2) Suc.prems
    by (subst plan_move_more_entries_to_left.simps) (auto simp: d z t Let_def ac_simps)
qed


lemma fold_sum_filter:
  "fold (\<lambda>i tot. if P i then tot + f i else tot) xs (a::nat) = a + sum_list (map f (filter P xs))"
  by (induction xs arbitrary: a) auto

text \<open>The tuples of a node around the place of the incorporation.\<close>

lemma target_around:
  assumes "spec_ok spec (length ts)"
  shows "spec_target spec ts = take (nat (spec_idx spec)) ts @ spec_tuple spec #
      drop (nat (spec_idx spec) + (if spec_state spec = ENTRY_STILL_EXISTS then 1 else 0)) ts"
proof (cases "spec_state spec = ENTRY_STILL_EXISTS")
  case True
  then have "nat (spec_idx spec) < length ts" using assms by (auto simp: spec_ok_def)
  then show ?thesis using True by (simp add: spec_target_def Let_def upd_conv_take_nth_drop)
next
  case False
  then show ?thesis by (simp add: spec_target_def Let_def)
qed

lemma leaf_tuples_range: "b \<le> btree_num_entries hdr \<Longrightarrow> map (leaf_tuple hdr) [a..<b] = drop a (take b (leaf_tuples hdr))"
  by (simp add: leaf_tuples_def take_map drop_map)

lemma kept_range:
  assumes ok: "spec_ok spec (btree_num_entries hdr)"
  shows "map (leaf_tuple hdr) (filter (\<lambda>j. \<not> removed (Some spec) j) [m..<btree_num_entries hdr]) =
    (if spec_state spec = ENTRY_STILL_EXISTS \<and> m \<le> nat (spec_idx spec)
     then drop m (take (nat (spec_idx spec)) (leaf_tuples hdr)) @ drop (Suc (nat (spec_idx spec))) (leaf_tuples hdr)
     else drop m (leaf_tuples hdr))"
proof (cases "spec_state spec = ENTRY_STILL_EXISTS \<and> m \<le> nat (spec_idx spec)")
  case True
  let ?i = "nat (spec_idx spec)" and ?n = "btree_num_entries hdr"
  have r: "removed (Some spec) j \<longleftrightarrow> j = ?i" for j using True ok by (auto simp: removed_def spec_ok_def)
  have i: "?i < ?n" "m \<le> ?i" using True ok by (auto simp: spec_ok_def)
  have "[m..<?n] = [m..<?i] @ ?i # [Suc ?i..<?n]"
    using i by (metis le_add_diff_inverse less_imp_le upt_add_eq_append upt_conv_Cons)
  moreover have "filter (\<lambda>j. j \<noteq> ?i) [m..<?i] = [m..<?i]" "filter (\<lambda>j. j \<noteq> ?i) [Suc ?i..<?n] = [Suc ?i..<?n]"
    by (simp_all add: filter_id_conv)
  ultimately show ?thesis using True i by (simp add: r leaf_tuples_range)
next
  case False
  then have "filter (\<lambda>j. \<not> removed (Some spec) j) [m..<btree_num_entries hdr] = [m..<btree_num_entries hdr]"
    using ok by (auto simp: filter_id_conv removed_def spec_ok_def)
  then show ?thesis using False by (auto simp: leaf_tuples_range)
qed

lemma plan_total:
  assumes ok: "spec_ok spec (btree_num_entries hdr)"
  shows "plan_total_bytes hdr spec = weight (spec_target spec (leaf_tuples hdr))"
proof -
  let ?n = "btree_num_entries hdr" and ?i = "nat (spec_idx spec)"
  let ?kept = "filter (\<lambda>j. \<not> removed (Some spec) j) [0..<?n]"
  have c: "(int j = spec_idx spec \<longrightarrow> spec_state spec \<noteq> ENTRY_STILL_EXISTS) = (\<not> removed (Some spec) j)" for j
    by (auto simp: removed_def)
  have z: "sizeof_leaf_entry hdr (btree_get_leaf_entry hdr j) = tuple_size (leaf_tuple hdr j)" for j
    by (rule leaf_entry_size)
  have "plan_total_bytes hdr spec = tuple_size (spec_tuple spec) + used (map (leaf_tuple hdr) ?kept) +
      2 * (?n + (if spec_state spec = ENTRY_STILL_EXISTS then 0 else 1))"
    by (simp add: plan_total_bytes_def Let_def disj_not1 c fold_sum_filter z leaf.used_by_def comp_def required_size
        spec_tuple_def spec_message_def sizeof_table_entry_def)
  moreover have "tot = x + kept + 2 * N \<Longrightarrow> kept = ua + ub \<Longrightarrow> la + lb + 1 = N \<Longrightarrow>
      tot = (ua + 2 * la) + (x + 2 + (ub + 2 * lb))" for tot x kept N ua ub la lb :: nat by simp
  moreover have "used (map (leaf_tuple hdr) ?kept) = used (take ?i (leaf_tuples hdr)) +
      used (drop (?i + (if spec_state spec = ENTRY_STILL_EXISTS then 1 else 0)) (leaf_tuples hdr))"
    unfolding kept_range [OF ok, of 0]
    by (simp add: leaf.used_by_simps(3) [symmetric] del: leaf.used_by_simps(3))
  moreover have "length (take ?i (leaf_tuples hdr)) +
      length (drop (?i + (if spec_state spec = ENTRY_STILL_EXISTS then 1 else 0)) (leaf_tuples hdr)) + 1 =
      ?n + (if spec_state spec = ENTRY_STILL_EXISTS then 0 else 1)"
    using ok by (auto simp: spec_ok_def)
  ultimately show ?thesis
    unfolding target_around [OF ok [folded length_leaf_tuples]] weight_simps
    unfolding weight_def by blast
qed

lemma split_plan:
  assumes ok: "spec_ok spec (btree_num_entries hdr)"
  defines "tgt \<equiv> spec_target spec (leaf_tuples hdr)"
  defines "m \<equiv> left_count (weight tgt) 0 tgt"
  shows "insertion_goes_left (btree_build_leaf_splitting_plan hdr spec) \<longleftrightarrow> nat (spec_idx spec) < m"
    and "split_idx (btree_build_leaf_splitting_plan hdr spec) =
      (if nat (spec_idx spec) < m \<and> spec_state spec \<noteq> ENTRY_STILL_EXISTS then m - 1 else m)"
proof -
  let ?n = "btree_num_entries hdr" and ?i = "nat (spec_idx spec)" and ?ts = "leaf_tuples hdr" and ?W = "weight tgt"
  let ?j = "?i + (if spec_state spec = ENTRY_STILL_EXISTS then 1 else 0)"
  let ?c = "left_count ?W 0 (take ?i ?ts)" and ?x = "spec_tuple spec" and ?rest = "drop ?j ?ts"
  have i: "?i \<le> ?n" "?j \<le> ?n" "0 \<le> spec_idx spec" using ok by (auto simp: spec_ok_def)
  have tgt: "tgt = take ?i ?ts @ ?x # ?rest" unfolding tgt_def by (rule target_around) (use ok in simp)
  have W: "plan_total_bytes hdr spec = ?W" unfolding tgt_def by (rule plan_total [OF ok])
  have p1: "plan_move_more_entries_to_left hdr ?i ?W 0 0 = (weight (take ?c (take ?i ?ts)), ?c)"
    using i(1) by (subst plan_move) (simp_all add: Let_def)
  have p2: "snd (plan_move_more_entries_to_left hdr ?n ?W l ?j) = ?j + left_count ?W l ?rest" for l
    using i(2) by (subst plan_move) (simp_all add: Let_def)
  have cl: "?c \<le> ?i" using left_count_le [of ?W 0 "take ?i ?ts"] by simp
  have sz: "leaf_entry_required_capacity (spec_key spec) (spec_message spec) = tuple_size ?x"
    by (simp add: required_size spec_tuple_def spec_message_def)
  let ?go = "?c = ?i \<and> most_of_entry_is_on_left_side ?W (weight (take ?i ?ts)) (tuple_size ?x)"
  have m: "m = (if ?go then Suc ?i + left_count ?W (weight (take ?i ?ts) + (tuple_size ?x + 2)) ?rest else ?c)"
    unfolding m_def using i(1) by (subst tgt) (simp add: left_count_append)
  have plan: "btree_build_leaf_splitting_plan hdr spec =
      (if ?go then \<lparr>split_idx = ?j + left_count ?W (weight (take ?i ?ts) + (tuple_size ?x + 2)) ?rest,
                    insertion_goes_left = True\<rparr>
       else \<lparr>split_idx = ?c, insertion_goes_left = False\<rparr>)"
  proof -
    have go: "int ?c = spec_idx spec \<and> most_of_entry_is_on_left_side ?W (weight (take ?c (take ?i ?ts))) (tuple_size ?x) \<longleftrightarrow> ?go"
    proof -
      have "int ?c = spec_idx spec \<longleftrightarrow> ?c = ?i" using i(3) by auto
      moreover have "?c = ?i \<Longrightarrow> take ?c (take ?i ?ts) = take ?i ?ts" by simp
      ultimately show ?thesis by metis
    qed
    have w: "?go \<Longrightarrow> weight (take ?c (take ?i ?ts)) + sizeof_table_entry + tuple_size ?x = weight (take ?i ?ts) + (tuple_size ?x + 2)"
      by (simp add: sizeof_table_entry_def)
    have j: "?go \<Longrightarrow> (if spec_state spec = ENTRY_STILL_EXISTS then ?c + 1 else ?c) = ?j" by simp
    show ?thesis
    proof (cases ?go)
      case True
      show ?thesis
        unfolding btree_build_leaf_splitting_plan_def Let_def W p1 sz prod.case go if_P [OF True] w [OF True] j [OF True]
        using p2 [of "weight (take ?i ?ts) + (tuple_size ?x + 2)"] by (simp only: case_prod_unfold)
    next
      case False
      show ?thesis
        unfolding btree_build_leaf_splitting_plan_def Let_def W p1 sz prod.case go if_not_P [OF False] ..
    qed
  qed
  show "insertion_goes_left (btree_build_leaf_splitting_plan hdr spec) \<longleftrightarrow> ?i < m"
    unfolding plan m using cl by simp
  show "split_idx (btree_build_leaf_splitting_plan hdr spec) =
      (if ?i < m \<and> spec_state spec \<noteq> ENTRY_STILL_EXISTS then m - 1 else m)"
    unfolding plan m using cl by simp
qed

text \<open>The halves of the target, from the halves of the node.\<close>

lemma target_left:
  assumes ok: "spec_ok spec (length ts)" and m: "nat (spec_idx spec) < m" "m \<le> length (spec_target spec ts)"
  defines "s \<equiv> if spec_state spec = ENTRY_STILL_EXISTS then m else m - 1"
  shows "s \<le> length ts" and "spec_ok spec s" and "spec_target spec (take s ts) = take m (spec_target spec ts)"
    and "drop s ts = drop m (spec_target spec ts)"
proof -
  let ?i = "nat (spec_idx spec)" and ?d = "if spec_state spec = ENTRY_STILL_EXISTS then 1 else 0 :: nat"
  note t = target_around [OF ok]
  have len: "length (spec_target spec ts) = length ts + (1 - ?d)"
    unfolding t using ok by (auto simp: spec_ok_def)
  show s: "s \<le> length ts" and ok': "spec_ok spec s"
    using m ok unfolding len by (auto simp: s_def spec_ok_def)
  have i: "?i \<le> length ts" using ok by (auto simp: spec_ok_def)
  have sm: "s = m - 1 + ?d" "?i + ?d \<le> s" using m(1) by (auto simp: s_def)
  obtain q where q: "m = Suc (?i + q)" using m(1) less_iff_Suc_add by auto
  have "spec_target spec (take s ts) = take ?i ts @ spec_tuple spec # take q (drop (?i + ?d) ts)"
    using target_around [of spec "take s ts"] ok' s sm q by (simp add: drop_take min_def)
  then show "spec_target spec (take s ts) = take m (spec_target spec ts)"
    unfolding t using i q by simp
  show "drop s ts = drop m (spec_target spec ts)"
    unfolding t using i q sm by (simp add: ac_simps)
qed

lemma target_right:
  assumes ok: "spec_ok spec (length ts)" and m: "m \<le> nat (spec_idx spec)"
  defines "kept \<equiv> if spec_state spec = ENTRY_STILL_EXISTS
    then drop m (take (nat (spec_idx spec)) ts) @ drop (Suc (nat (spec_idx spec))) ts else drop m ts"
  defines "st \<equiv> if spec_state spec = ENTRY_STILL_EXISTS then ENTRY_HAS_BEEN_REMOVED else spec_state spec"
  defines "spec' \<equiv> spec\<lparr>spec_state := st, spec_idx := spec_idx spec - int m\<rparr>"
  shows "take m ts = take m (spec_target spec ts)" and "spec_ok spec' (length kept)"
    and "spec_target spec' kept = drop m (spec_target spec ts)"
proof -
  let ?i = "nat (spec_idx spec)"
  note t = target_around [OF ok]
  have i: "?i \<le> length ts" "spec_state spec = ENTRY_STILL_EXISTS \<Longrightarrow> ?i < length ts" "0 \<le> spec_idx spec"
    using ok by (auto simp: spec_ok_def)
  have st: "spec_state spec' \<noteq> ENTRY_STILL_EXISTS" "nat (spec_idx spec') = ?i - m" "spec_tuple spec' = spec_tuple spec"
    using m i(3) by (simp_all add: spec'_def st_def spec_tuple_def nat_diff_distrib)
  show "take m ts = take m (spec_target spec ts)" unfolding t using i m by simp
  have len: "?i - m \<le> length kept" using i m by (auto simp: kept_def)
  have i0: "0 \<le> spec_idx spec'" using m i(3) by (simp add: spec'_def)
  show ok': "spec_ok spec' (length kept)"
    using ok len i0 st by (simp add: spec_ok_def nat_le_iff)
  show "spec_target spec' kept = drop m (spec_target spec ts)"
    unfolding t target_around [OF ok'] using st i m by (simp add: kept_def drop_take)
qed

section \<open>The two nodes\<close>

text \<open>A node whose entries leave room lets the incorporation succeed.\<close>

lemma perform_compact:
  assumes c: "compact cfg hdr" and ok: "spec_ok spec (btree_num_entries hdr)"
    and st: "spec_state spec \<noteq> ENTRY_STILL_EXISTS"
    and room: "37 + weight (spec_target spec (leaf_tuples hdr)) \<le> bt_page_size cfg"
  shows "btree_can_perform_leaf_incorporate_spec hdr spec"
proof -
  have "weight (spec_target spec (leaf_tuples hdr)) = weight (leaf_tuples hdr) + tuple_size (spec_tuple spec) + 2"
    using st weight_take_drop [of "nat (spec_idx spec)" "leaf_tuples hdr"] by (simp add: spec_target_def Let_def)
  moreover have "unat (next_entry hdr) + used (leaf_tuples hdr) = bt_page_size cfg"
    by (rule compact_space [OF c])
  ultimately have "btree_can_set_leaf_entry hdr (btree_num_entries hdr) (spec_key spec) (spec_msg spec)"
    using room by (simp add: btree_can_set_leaf_entry_def Let_def required_size spec_tuple_def weight_def
        table_end_def sizeof_btree_hdr_def sizeof_table_entry_def)
  then show ?thesis using st by (cases "spec_state spec") (simp_all add: btree_can_perform_leaf_incorporate_spec_def)
qed

lemma perform_succeeds:
  assumes wf: "leaf_wf cfg hdr" and ok: "spec_ok spec (btree_num_entries hdr)"
    and can: "btree_can_perform_leaf_incorporate_spec hdr spec"
  shows "\<exists>hdr'. btree_try_perform_leaf_incorporate_spec hdr spec = Inr (True, Some (generation hdr), hdr') \<and>
    leaf_wf cfg hdr' \<and> leaf_tuples hdr' = spec_target spec (leaf_tuples hdr) \<and>
    hdr_links hdr' = (prev_addr hdr, next_addr hdr, next_extent_addr hdr, generation hdr + 1, height hdr)"
proof -
  obtain g hdr' where r: "btree_try_perform_leaf_incorporate_spec hdr spec = Inr (True, g, hdr')"
    using perform_returns [OF wf ok] can by auto
  then show ?thesis using perform_effect [OF wf ok r] by simp
qed

lemma target_weight:
  assumes "spec_ok spec (length ts)"
  shows "weight (spec_target spec ts) \<le> weight ts + tuple_size (spec_tuple spec) + 2"
proof -
  let ?i = "nat (spec_idx spec)"
  have "weight (drop (Suc ?i) ts) \<le> weight (drop ?i ts)"
    using weight_take_drop [of 1 "drop ?i ts"] by simp
  then show ?thesis
    unfolding target_around [OF assms] using weight_take_drop [of ?i ts] by simp
qed

lemma target_set:
  assumes "spec_ok spec (length ts)"
  shows "set (spec_target spec ts) \<subseteq> insert (spec_tuple spec) (set ts)"
  unfolding target_around [OF assms] by (auto dest: in_set_takeD in_set_dropD)

text \<open>The hypotheses under which a leaf is split, and the two halves of its new contents.\<close>

definition splittable :: "btree_config \<Rightarrow> btree_hdr \<Rightarrow> leaf_incorporate_spec \<Rightarrow> bool" where
  "splittable cfg hdr spec \<longleftrightarrow> leaf_wf cfg hdr \<and> spec_ok spec (btree_num_entries hdr) \<and>
     (\<forall>t \<in> insert (spec_tuple spec) (set (leaf_tuples hdr)). entry_fits cfg t)"

definition split_left :: "btree_hdr \<Rightarrow> leaf_incorporate_spec \<Rightarrow> (key \<times> message) list" where
  "split_left hdr spec = (let tgt = spec_target spec (leaf_tuples hdr) in take (left_count (weight tgt) 0 tgt) tgt)"

definition split_right :: "btree_hdr \<Rightarrow> leaf_incorporate_spec \<Rightarrow> (key \<times> message) list" where
  "split_right hdr spec = (let tgt = spec_target spec (leaf_tuples hdr) in drop (left_count (weight tgt) 0 tgt) tgt)"

lemma split_halves:
  assumes s: "splittable cfg hdr spec"
  shows "split_left hdr spec @ split_right hdr spec = spec_target spec (leaf_tuples hdr)"
    and "37 + weight (split_left hdr spec) \<le> bt_page_size cfg"
    and "37 + weight (split_right hdr spec) \<le> bt_page_size cfg"
    and "split_right hdr spec \<noteq> []"
proof -
  let ?tgt = "spec_target spec (leaf_tuples hdr)"
  have wf: "leaf_wf cfg hdr" and ok: "spec_ok spec (length (leaf_tuples hdr))"
    and fits: "\<forall>t \<in> set ?tgt. entry_fits cfg t" and x: "entry_fits cfg (spec_tuple spec)"
    using s target_set [of spec "leaf_tuples hdr"] by (auto simp: splittable_def)
  have tot: "37 + weight ?tgt < bt_page_size cfg + (bt_page_size cfg - 37) div 2"
    using target_weight [OF ok] packed_weight [OF wf] x by (simp add: entry_fits_def)
  have P: "37 \<le> bt_page_size cfg" using packed_weight [OF wf] by simp
  have ne: "?tgt \<noteq> []" unfolding target_around [OF ok] by simp
  show "split_left hdr spec @ split_right hdr spec = ?tgt"
    by (simp add: split_left_def split_right_def Let_def)
  show "37 + weight (split_left hdr spec) \<le> bt_page_size cfg" "37 + weight (split_right hdr spec) \<le> bt_page_size cfg"
    using halves_fit [OF fits tot P ne] by (simp_all add: split_left_def split_right_def Let_def)
  show "split_right hdr spec \<noteq> []"
    using left_count_last [of 0 ?tgt "weight ?tgt"] ne by (simp add: split_right_def Let_def)
qed

text \<open>The copy of the entries that go right, and of the state that it leaves in the specification.\<close>

lemma copy_right:
  assumes wf: "leaf_wf cfg hdr" and ok: "spec_ok spec (btree_num_entries hdr)" and s': "k \<le> btree_num_entries hdr"
    and kept: "kept = map (leaf_tuple hdr) (filter (\<lambda>j. \<not> removed (Some spec) j) [k..<btree_num_entries hdr])"
    and room: "37 + weight kept \<le> bt_page_size cfg"
  shows "\<exists>dst. iterM (copy_leaf_entry hdr) [k..<btree_num_entries hdr]
        (btree_reset_node_entries cfg right, 0, Some spec) =
      Inr (dst, length kept, Some (spec\<lparr>spec_state :=
        (if spec_state spec = ENTRY_STILL_EXISTS \<and> k \<le> nat (spec_idx spec) then ENTRY_HAS_BEEN_REMOVED
         else spec_state spec)\<rparr>)) \<and>
    compact cfg dst \<and> leaf_tuples dst = kept \<and> hdr_links dst = hdr_links right"
proof -
  let ?xs = "[k..<btree_num_entries hdr]"
  have P: "37 \<le> bt_page_size cfg" using packed_weight [OF wf] by simp
  note r = reset_compact [OF leaf_page_small [OF wf] P, of right]
  have sp: "spec_after ?xs (Some spec) = Some (spec\<lparr>spec_state :=
        (if spec_state spec = ENTRY_STILL_EXISTS \<and> k \<le> nat (spec_idx spec) then ENTRY_HAS_BEEN_REMOVED
         else spec_state spec)\<rparr>)"
  proof (cases "spec_state spec = ENTRY_STILL_EXISTS \<and> k \<le> nat (spec_idx spec)")
    case True
    then have "removed (Some spec) (nat (spec_idx spec))" "nat (spec_idx spec) \<in> set ?xs"
      using ok by (auto simp: removed_def spec_ok_def)
    then show ?thesis using True by (auto simp: spec_after_def)
  next
    case False
    then have "\<forall>j \<in> set ?xs. \<not> removed (Some spec) j" by (auto simp: removed_def)
    then show ?thesis using False by (auto simp: spec_after_def)
  qed
  have "table_end (length kept) + used kept \<le> bt_page_size cfg" using room room_weight [of kept] by simp
  then obtain dst where d: "iterM (copy_leaf_entry hdr) ?xs (btree_reset_node_entries cfg right, 0, Some spec) =
      Inr (dst, btree_num_entries dst, spec_after ?xs (Some spec))" "compact cfg dst"
      "leaf_tuples dst = kept" "hdr_links dst = hdr_links right"
    using copy_loop [OF r(1), of ?xs "Some spec" hdr] r kept by auto
  have n: "btree_num_entries dst = length kept" using num_leaf_tuples [OF d(3)] .
  show ?thesis by (rule exI [of _ dst]) (use d n sp in simp)
qed

text \<open>What \<open>btree_split_leaf_build_right_node\<close> returns, for the two answers of the plan.\<close>

definition right_built ::
  "btree_config \<Rightarrow> btree_hdr \<Rightarrow> u64 \<Rightarrow> leaf_incorporate_spec \<Rightarrow> u64 option \<times> leaf_incorporate_spec \<times> btree_hdr \<Rightarrow> bool" where
  "right_built cfg hdr left_addr spec r \<longleftrightarrow>
     (case r of (gen, spec', right) \<Rightarrow>
        leaf_wf cfg right \<and> leaf_tuples right = split_right hdr spec \<and>
        prev_addr right = left_addr \<and> next_addr right = next_addr hdr \<and> height right = height hdr \<and>
        (if insertion_goes_left (btree_build_leaf_splitting_plan hdr spec)
         then spec' = spec \<and> gen = None else gen = Some (generation hdr + 1)))"

lemma split_right_copied:
  assumes s: "splittable cfg hdr spec"
  defines "plan \<equiv> btree_build_leaf_splitting_plan hdr spec"
  assumes left: "insertion_goes_left plan"
  shows "\<exists>r. btree_split_leaf_build_right_node cfg hdr left_addr spec plan right0 = Inr r \<and> right_built cfg hdr left_addr spec r"
proof -
  let ?ts = "leaf_tuples hdr" and ?n = "btree_num_entries hdr" and ?i = "nat (spec_idx spec)" and ?k = "split_idx plan"
  let ?tgt = "spec_target spec ?ts"
  let ?m = "left_count (weight ?tgt) 0 ?tgt" and ?r0 = "hdr\<lparr>offsets := offsets right0, node_bytes := node_bytes right0\<rparr>"
  let ?r = "?r0\<lparr>generation := generation ?r0 + 1, prev_addr := left_addr\<rparr>"
  have wf: "leaf_wf cfg hdr" and ok: "spec_ok spec ?n" using s by (simp_all add: splittable_def)
  note pl = split_plan [OF ok, folded plan_def]
  have m: "?i < ?m" using left pl(1) by simp
  note tl = target_left [OF _ m left_count_le, unfolded length_leaf_tuples, OF ok]
  have k: "?k = (if spec_state spec = ENTRY_STILL_EXISTS then ?m else ?m - 1)" using pl(2) m by simp
  have st: "\<not> (spec_state spec = ENTRY_STILL_EXISTS \<and> ?k \<le> ?i)" using m k by auto
  have kept: "split_right hdr spec = map (leaf_tuple hdr) (filter (\<lambda>j. \<not> removed (Some spec) j) [?k..<?n])"
    unfolding kept_range [OF ok] if_not_P [OF st] split_right_def Let_def using tl(4) unfolding k by simp
  have sp: "spec\<lparr>spec_state := (if spec_state spec = ENTRY_STILL_EXISTS \<and> ?k \<le> ?i
      then ENTRY_HAS_BEEN_REMOVED else spec_state spec)\<rparr> = spec" unfolding if_not_P [OF st] by simp
  have kn: "?k \<le> ?n" using tl(1) unfolding k .
  show ?thesis
    using copy_right [OF wf ok kn kept split_halves(3) [OF s], of ?r] left unfolding sp
    by (auto simp: btree_split_leaf_build_right_node_def Let_def hdr_links_def right_built_def
        plan_def [symmetric] intro: compact_wf)
qed

lemma split_right_incorporated:
  assumes s: "splittable cfg hdr spec"
  defines "plan \<equiv> btree_build_leaf_splitting_plan hdr spec"
  assumes right: "\<not> insertion_goes_left plan"
  shows "\<exists>r. btree_split_leaf_build_right_node cfg hdr left_addr spec plan right0 = Inr r \<and> right_built cfg hdr left_addr spec r"
proof -
  let ?ts = "leaf_tuples hdr" and ?n = "btree_num_entries hdr" and ?i = "nat (spec_idx spec)" and ?k = "split_idx plan"
  let ?r0 = "hdr\<lparr>offsets := offsets right0, node_bytes := node_bytes right0\<rparr>"
  let ?r = "?r0\<lparr>generation := generation ?r0 + 1, prev_addr := left_addr\<rparr>"
  have wf: "leaf_wf cfg hdr" and ok: "spec_ok spec ?n" using s by (simp_all add: splittable_def)
  note pl = split_plan [OF ok, folded plan_def] and h = split_halves [OF s]
  have k: "?k = left_count (weight (spec_target spec ?ts)) 0 (spec_target spec ?ts)" "?k \<le> ?i"
    using right pl by simp_all
  note tr = target_right [OF ok [folded length_leaf_tuples] k(2)]
  have kn: "?k \<le> ?n" using k(2) ok by (auto simp: spec_ok_def)
  let ?kept = "map (leaf_tuple hdr) (filter (\<lambda>j. \<not> removed (Some spec) j) [?k..<?n])"
  let ?s = "spec\<lparr>spec_state := if spec_state spec = ENTRY_STILL_EXISTS then ENTRY_HAS_BEEN_REMOVED else spec_state spec\<rparr>"
  let ?s' = "?s\<lparr>spec_idx := spec_idx spec - int ?k\<rparr>"
  have tgt': "spec_target ?s' ?kept = split_right hdr spec" "spec_ok ?s' (length ?kept)"
    unfolding kept_range [OF ok] split_right_def Let_def k(1) [symmetric] using tr(2,3) k(2) by simp_all
  have st': "spec_state ?s' \<noteq> ENTRY_STILL_EXISTS" by simp
  have w: "37 + weight ?kept \<le> bt_page_size cfg"
    using h(3) target_around [OF tgt'(2)] tgt'(1) st' weight_take_drop [of "nat (spec_idx ?s')" ?kept] by simp
  obtain dst where d: "iterM (copy_leaf_entry hdr) [?k..<?n] (btree_reset_node_entries cfg ?r, 0, Some spec) =
      Inr (dst, length ?kept, Some ?s)" "compact cfg dst" "leaf_tuples dst = ?kept" "hdr_links dst = hdr_links ?r"
    using copy_right [OF wf ok kn refl w, of ?r] k(2) by auto
  have n: "btree_num_entries dst = length ?kept" using num_leaf_tuples [OF d(3)] .
  have "btree_can_perform_leaf_incorporate_spec dst ?s'"
    by (rule perform_compact [OF d(2)]) (use n tgt' st' d(3) h(3) in simp_all)
  then obtain r' where "btree_try_perform_leaf_incorporate_spec dst ?s' = Inr (True, Some (generation dst), r')"
    "leaf_wf cfg r'" "leaf_tuples r' = split_right hdr spec"
    "hdr_links r' = (prev_addr dst, next_addr dst, next_extent_addr dst, generation dst + 1, height dst)"
    using perform_succeeds [of cfg dst ?s'] d(2,3) n tgt' compact_wf by auto
  then show ?thesis
    using d(1,4) right
    by (auto simp: btree_split_leaf_build_right_node_def Let_def hdr_links_def right_built_def plan_def [symmetric])
qed

lemma split_right_node:
  assumes s: "splittable cfg hdr spec"
  shows "\<exists>r. btree_split_leaf_build_right_node cfg hdr left_addr spec (btree_build_leaf_splitting_plan hdr spec) right0 = Inr r \<and>
    right_built cfg hdr left_addr spec r"
  using split_right_copied [OF s] split_right_incorporated [OF s] by blast

text \<open>After defragmenting, a tuple that fits at all is incorporated.\<close>

lemma defragment_incorporates:
  assumes wf: "leaf_wf cfg hdr" and ok: "spec_ok spec (btree_num_entries hdr)"
    and room: "37 + weight (spec_target spec (leaf_tuples hdr)) \<le> bt_page_size cfg"
  shows "\<exists>h s h'. btree_defragment_leaf cfg hdr (Some spec) = Inr (h, Some s) \<and>
    btree_try_perform_leaf_incorporate_spec h s = Inr (True, Some (generation hdr), h') \<and>
    leaf_wf cfg h' \<and> leaf_tuples h' = spec_target spec (leaf_tuples hdr) \<and>
    hdr_links h' = (prev_addr hdr, next_addr hdr, next_extent_addr hdr, generation hdr + 1, height hdr)"
proof -
  let ?n = "btree_num_entries hdr"
  let ?kept = "map (leaf_tuple hdr) (filter (\<lambda>j. \<not> removed (Some spec) j) [0..<?n])"
  let ?s = "spec\<lparr>spec_state := if spec_state spec = ENTRY_STILL_EXISTS then ENTRY_HAS_BEEN_REMOVED else spec_state spec\<rparr>"
  note tr = target_right [OF ok [folded length_leaf_tuples] le0]
  have tgt': "spec_target ?s ?kept = spec_target spec (leaf_tuples hdr)" "spec_ok ?s (length ?kept)"
    unfolding kept_range [OF ok] using tr(2,3) by simp_all
  have st': "spec_state ?s \<noteq> ENTRY_STILL_EXISTS" by simp
  have w: "37 + weight ?kept \<le> bt_page_size cfg"
    using room target_around [OF tgt'(2)] tgt'(1) st' weight_take_drop [of "nat (spec_idx ?s)" ?kept] by simp
  obtain h where h: "iterM (copy_leaf_entry hdr) [0..<?n] (btree_reset_node_entries cfg hdr, 0, Some spec) =
      Inr (h, length ?kept, Some ?s)" "compact cfg h" "leaf_tuples h = ?kept" "hdr_links h = hdr_links hdr"
    using copy_right [OF wf ok le0 refl w, of hdr] by auto
  have n: "btree_num_entries h = length ?kept" using num_leaf_tuples [OF h(3)] .
  have "btree_can_perform_leaf_incorporate_spec h ?s"
    by (rule perform_compact [OF h(2)]) (use n tgt' st' h(3) room in simp_all)
  then obtain h' where "btree_try_perform_leaf_incorporate_spec h ?s = Inr (True, Some (generation h), h')"
    "leaf_wf cfg h'" "leaf_tuples h' = spec_target spec (leaf_tuples hdr)"
    "hdr_links h' = (prev_addr h, next_addr h, next_extent_addr h, generation h + 1, height h)"
    using perform_succeeds [of cfg h ?s] h(2,3) n tgt' compact_wf by auto
  moreover have "btree_defragment_leaf cfg hdr (Some spec) = Inr (h, Some ?s)"
    using h(1) by (simp add: btree_defragment_leaf_def)
  ultimately show ?thesis using h(4) by (auto simp: hdr_links_def)
qed

text \<open>The node that stays.\<close>

lemma left_truncated:
  fixes right_addr :: u64
  assumes s: "splittable cfg hdr spec"
  defines "plan \<equiv> btree_build_leaf_splitting_plan hdr spec"
  defines "l \<equiv> btree_truncate_leaf cfg (hdr\<lparr>next_addr := right_addr\<rparr>) (split_idx plan)"
  defines "l2 \<equiv> l\<lparr>generation := generation l + 1\<rparr>"
  shows "leaf_wf cfg l2" and "hdr_links l2 = (prev_addr hdr, right_addr, next_extent_addr hdr, generation hdr + 1, height hdr)"
    and "insertion_goes_left plan \<Longrightarrow> spec_ok spec (btree_num_entries l2) \<and> spec_target spec (leaf_tuples l2) = split_left hdr spec"
    and "\<not> insertion_goes_left plan \<Longrightarrow> leaf_tuples l2 = split_left hdr spec"
proof -
  let ?ts = "leaf_tuples hdr" and ?i = "nat (spec_idx spec)" and ?k = "split_idx plan"
  let ?tgt = "spec_target spec ?ts"
  let ?m = "left_count (weight ?tgt) 0 ?tgt"
  have wf: "leaf_wf cfg hdr" and ok: "spec_ok spec (btree_num_entries hdr)" using s by (simp_all add: splittable_def)
  note okt = ok [folded length_leaf_tuples] and pl = split_plan [OF ok, folded plan_def]
  note hf = header_fields [of "hdr\<lparr>next_addr := right_addr\<rparr>" hdr, simplified]
  have n: "btree_num_entries (hdr\<lparr>next_addr := right_addr\<rparr>) = btree_num_entries hdr" by (simp add: btree_num_entries_def)
  have k: "?k \<le> btree_num_entries hdr"
  proof (cases "?i < ?m")
    case True
    then show ?thesis using target_left(1) [OF okt True left_count_le] pl(2) by (auto split: if_splits)
  next
    case False
    then show ?thesis using pl(2) ok by (auto simp: spec_ok_def)
  qed
  note t = truncate_effect [of cfg "hdr\<lparr>next_addr := right_addr\<rparr>" ?k, folded l_def, unfolded hf n, OF wf k]
  have l2: "leaf_wf cfg l2 = leaf_wf cfg l" "leaf_tuples l2 = leaf_tuples l"
    using header_fields(1,2) [of l2 l] by (simp_all add: l2_def)
  show "leaf_wf cfg l2" using t(1) l2(1) by simp
  show "hdr_links l2 = (prev_addr hdr, right_addr, next_extent_addr hdr, generation hdr + 1, height hdr)"
    using t(3) by (simp add: l2_def hdr_links_def)
  have nl: "btree_num_entries l2 = ?k" using num_leaf_tuples [OF l2(2)] t(2) k by simp
  show "spec_ok spec (btree_num_entries l2) \<and> spec_target spec (leaf_tuples l2) = split_left hdr spec" if "insertion_goes_left plan"
  proof -
    have m: "?i < ?m" using that pl(1) by simp
    show ?thesis
      using target_left(2,3) [OF okt m left_count_le] m pl(2) t(2) l2(2) nl by (auto simp: split_left_def Let_def)
  qed
  show "leaf_tuples l2 = split_left hdr spec" if "\<not> insertion_goes_left plan"
  proof -
    have m: "?m \<le> ?i" using that pl(1) by simp
    show ?thesis using target_right(1) [OF okt m] m pl(2) t(2) l2(2) by (simp add: split_left_def Let_def)
  qed
qed

lemma split_left_node:
  assumes s: "splittable cfg hdr spec"
  defines "plan \<equiv> btree_build_leaf_splitting_plan hdr spec"
  shows "insertion_goes_left plan \<Longrightarrow>
      \<exists>l s' l'. btree_split_leaf_cleanup_left_node cfg hdr spec plan right_addr = Inr (l, s') \<and>
        btree_try_perform_leaf_incorporate_spec l s' = Inr (True, Some (generation hdr + 1), l') \<and>
        leaf_wf cfg l' \<and> leaf_tuples l' = split_left hdr spec \<and>
        hdr_links l' = (prev_addr hdr, right_addr, next_extent_addr hdr, generation hdr + 2, height hdr)"
    and "\<not> insertion_goes_left plan \<Longrightarrow>
      \<exists>l. btree_split_leaf_cleanup_left_node cfg hdr s' plan right_addr = Inr (l, s') \<and>
        leaf_wf cfg l \<and> leaf_tuples l = split_left hdr spec \<and>
        hdr_links l = (prev_addr hdr, right_addr, next_extent_addr hdr, generation hdr + 1, height hdr)"
proof -
  let ?l = "btree_truncate_leaf cfg (hdr\<lparr>next_addr := right_addr\<rparr>) (split_idx plan)"
  let ?l2 = "?l\<lparr>generation := generation ?l + 1\<rparr>"
  note t = left_truncated [OF s, of right_addr, folded plan_def]
  have g: "generation ?l2 = generation hdr + 1" "prev_addr ?l2 = prev_addr hdr" "next_addr ?l2 = right_addr"
    "next_extent_addr ?l2 = next_extent_addr hdr" "height ?l2 = height hdr"
    using t(2) by (simp_all add: hdr_links_def)
  have g2: "generation hdr + 1 + 1 = generation hdr + 2" by simp
  show "\<exists>l s' l'. btree_split_leaf_cleanup_left_node cfg hdr spec plan right_addr = Inr (l, s') \<and>
        btree_try_perform_leaf_incorporate_spec l s' = Inr (True, Some (generation hdr + 1), l') \<and>
        leaf_wf cfg l' \<and> leaf_tuples l' = split_left hdr spec \<and>
        hdr_links l' = (prev_addr hdr, right_addr, next_extent_addr hdr, generation hdr + 2, height hdr)"
    if left: "insertion_goes_left plan"
  proof (cases "btree_can_perform_leaf_incorporate_spec ?l2 spec")
    case True
    then show ?thesis
      using left t(3) [OF left] perform_succeeds [OF t(1) _ True] unfolding g g2
      by (auto simp: btree_split_leaf_cleanup_left_node_def Let_def)
  next
    case False
    have room: "37 + weight (spec_target spec (leaf_tuples ?l2)) \<le> bt_page_size cfg"
      using split_halves(2) [OF s] t(3) [OF left] by simp
    show ?thesis
      using left False defragment_incorporates [OF t(1) conjunct1 [OF t(3) [OF left]] room]
        conjunct2 [OF t(3) [OF left]] unfolding g g2
      by (auto simp: btree_split_leaf_cleanup_left_node_def Let_def)
  qed
  show "\<exists>l. btree_split_leaf_cleanup_left_node cfg hdr s' plan right_addr = Inr (l, s') \<and>
        leaf_wf cfg l \<and> leaf_tuples l = split_left hdr spec \<and>
        hdr_links l = (prev_addr hdr, right_addr, next_extent_addr hdr, generation hdr + 1, height hdr)"
    if "\<not> insertion_goes_left plan"
    using that t by (simp add: btree_split_leaf_cleanup_left_node_def Let_def)
qed

end
