(* ===== verification/BtNodeProofs.thy ===== *)
theory BtNodeProofs
  imports BtIndexProofs BtSplit
begin

unbundle bit_operations_syntax

text \<open>
  The operations on a parent and its children: where an index node is split, that splitting and
  defragmenting a child never aborts, and what the nodes hold afterwards.
\<close>

section \<open>Where an index node is split\<close>

lemma index_entry_bytes_used: "index_entry_bytes hdr = index.used_by (node_pivots hdr)"
proof -
  have f: "fold (\<lambda>i tot. tot + f i) xs (a::nat) = a + sum_list (map f xs)" for f :: "nat \<Rightarrow> nat" and xs a
    by (induction xs arbitrary: a) auto
  show ?thesis
    by (simp add: index_entry_bytes_def f index.used_by_def node_pivots_def slots_def comp_def index_entry_reads
        get_index_entry_off)
qed

text \<open>The first prefix that has half of the bytes.\<close>

lemma choose_split_loop_result:
  assumes "left = index.used_by (take k (node_pivots hdr))" and "k \<le> m" and "m \<le> btree_num_entries hdr"
    and "tot div 2 \<le> index.used_by (take m (node_pivots hdr))"
    and "\<And>j. j < k \<Longrightarrow> index.used_by (take j (node_pivots hdr)) < tot div 2"
  shows "choose_split_loop hdr tot left k \<le> m"
    and "tot div 2 \<le> index.used_by (take (choose_split_loop hdr tot left k) (node_pivots hdr))"
    and "j < choose_split_loop hdr tot left k \<Longrightarrow> index.used_by (take j (node_pivots hdr)) < tot div 2"
proof -
  let ?r = "choose_split_loop hdr tot left k"
  have "?r \<le> m \<and> tot div 2 \<le> index.used_by (take ?r (node_pivots hdr)) \<and>
      (\<forall>j<?r. index.used_by (take j (node_pivots hdr)) < tot div 2)"
    using assms
  proof (induction "m - k" arbitrary: k left)
    case 0
    then show ?case by (subst (1 2 3) choose_split_loop.simps) auto
  next
    case (Suc d)
    show ?case
    proof (cases "left < tot div 2")
      case True
      have k: "k < btree_num_entries hdr" using Suc.hyps(2) Suc.prems(3) by simp
      let ?z = "sizeof_index_entry hdr (btree_get_index_entry hdr k)"
      have z: "left + ?z = index.used_by (take (Suc k) (node_pivots hdr))"
        using k Suc.prems(1) by (simp add: take_Suc_conv_app_nth nth_node_pivots index_entry_reads)
      have "choose_split_loop hdr tot left k = choose_split_loop hdr tot (left + ?z) (Suc k)"
        using True by (subst choose_split_loop.simps) simp
      moreover have "index.used_by (take j (node_pivots hdr)) < tot div 2" if "j < Suc k" for j
        using that Suc.prems(1,5) True by (auto simp: less_Suc_eq)
      moreover have "d = m - Suc k" "Suc k \<le> m" using Suc.hyps(2) by simp_all
      ultimately show ?thesis
        using Suc.hyps(1) [OF _ z _ Suc.prems(3,4)] by simp
    next
      case False
      then show ?thesis using Suc.prems Suc.hyps(2) by (subst (1 2 3) choose_split_loop.simps) auto
    qed
  qed
  then show "?r \<le> m" and "tot div 2 \<le> index.used_by (take ?r (node_pivots hdr))"
    and "j < ?r \<Longrightarrow> index.used_by (take j (node_pivots hdr)) < tot div 2" by blast+
qed

lemma pivot_size_eq: "pivot_size y = 23 + key_length (fst y)"
  by (simp add: pivot_size_def index_entry_required_capacity_def sizeof_index_entry_struct_def sizeof_ondisk_key_def)

lemma used_by_length: "23 * length ps \<le> index.used_by ps"
proof (induction ps)
  case (Cons y ps)
  then show ?case using pivot_size_eq [of y] by simp
qed simp

lemma used_by_member: "x \<in> set ps \<Longrightarrow> 23 * length ps + key_length (fst x) \<le> index.used_by ps"
proof (induction ps)
  case (Cons y ps)
  then show ?case using pivot_size_eq [of y] used_by_length [of ps] by auto
qed simp

text \<open>Keys of the allowed size in a page that has to be split: both halves get a pivot.\<close>

lemma choose_index_split_range:
  assumes keys: "\<forall>x \<in> set (node_pivots hdr). key_length (fst x) \<le> MAX_INLINE_KEY_SIZE P"
    and big: "P div 2 \<le> index_entry_bytes hdr + btree_num_entries hdr * sizeof_index_entry_struct" and P: "1024 \<le> P"
  shows "0 < btree_choose_index_split hdr" and "btree_choose_index_split hdr < btree_num_entries hdr"
proof -
  let ?ps = "node_pivots hdr" and ?n = "btree_num_entries hdr"
  let ?tot = "index.used_by ?ps"
  have tot: "P div 2 \<le> ?tot + 23 * ?n"
    using big by (simp add: index_entry_bytes_used sizeof_index_entry_struct_def sizeof_ondisk_key_def)
  have "?n = 0 \<Longrightarrow> ?ps = []" by (simp flip: length_0_conv)
  then have n: "0 < ?n" using tot P by (cases "?n = 0") auto
  let ?l = "?ps ! (?n - 1)"
  have l: "?l \<in> set ?ps" using n by simp
  have split: "?ps = take (?n - 1) ?ps @ [?l]"
    using n take_Suc_conv_app_nth [of "?n - 1" ?ps] by simp
  then have "?tot = index.used_by (take (?n - 1) ?ps) + pivot_size ?l"
    by (metis index.used_by_simps(1,2,3) add_0_right)
  moreover have "2 * pivot_size ?l \<le> ?tot"
    using tot used_by_member [OF l] bspec [OF keys l] P
    by (simp add: pivot_size_eq MAX_INLINE_KEY_SIZE_def)
  ultimately have half: "?tot div 2 \<le> index.used_by (take (?n - 1) ?ps)" by simp
  note c = choose_split_loop_result [of 0 0 hdr "?n - 1" ?tot, OF _ _ _ half]
  have "choose_split_loop hdr ?tot 0 0 \<le> ?n - 1" by (rule c(1)) simp_all
  then show "btree_choose_index_split hdr < ?n" using n by (simp add: btree_choose_index_split_def index_entry_bytes_used)
  have "?tot div 2 \<le> index.used_by (take (choose_split_loop hdr ?tot 0 0) ?ps)" by (rule c(2)) simp_all
  moreover have "0 < ?tot div 2" using tot P used_by_member [OF l] n by simp
  ultimately have "choose_split_loop hdr ?tot 0 0 \<noteq> 0" by (intro notI) simp
  then show "0 < btree_choose_index_split hdr" by (simp add: btree_choose_index_split_def index_entry_bytes_used)
qed

section \<open>Splitting a child index\<close>

text \<open>An index node whose pivots are short enough.\<close>

definition index_ok :: "btree_config \<Rightarrow> btree_hdr \<Rightarrow> bool" where
  "index_ok cfg hdr \<longleftrightarrow> index_wf cfg hdr \<and>
     (\<forall>x \<in> set (node_pivots hdr). key_length (fst x) \<le> MAX_INLINE_KEY_SIZE (bt_page_size cfg))"

lemma index_okD:
  assumes "index_ok cfg hdr"
  shows "index_wf cfg hdr" and "x \<in> set (node_pivots hdr) \<Longrightarrow> key_length (fst x) \<le> MAX_INLINE_KEY_SIZE (bt_page_size cfg)"
  using assms by (simp_all add: index_ok_def)

lemma unknown_pivot_ok: "a AND NOT 0xFFF = a \<Longrightarrow> pivot_ok (k, a, st)"
  by (simp add: pivot_ok_def)

text \<open>There is room for one more pivot with a key of at most \<open>M\<close> bytes.\<close>

definition takes_pivot :: "nat \<Rightarrow> btree_hdr \<Rightarrow> bool" where
  "takes_pivot M hdr \<longleftrightarrow> table_end (btree_num_entries hdr + 1) + sizeof_index_entry_struct + M \<le> unat (next_entry hdr)"

lemma not_full_takes: "\<not> btree_index_is_full cfg hdr \<Longrightarrow> M \<le> MAX_INLINE_KEY_SIZE (bt_page_size cfg) \<Longrightarrow> takes_pivot M hdr"
  by (simp add: takes_pivot_def btree_index_is_full_def table_end_eq)

lemma parent_gets_pivot:
  assumes p: "index_ok cfg parent" and full: "takes_pivot M parent" and k: "k \<le> btree_num_entries parent"
    and a: "addr AND NOT 0xFFF = addr" and key: "key_length key \<le> M" "M \<le> MAX_INLINE_KEY_SIZE (bt_page_size cfg)"
  shows "\<exists>parent'. btree_insert_index_entry parent k key addr st = Inr (True, parent') \<and> index_ok cfg parent' \<and>
    node_pivots parent' = take k (node_pivots parent) @ [(key, addr, st)] @ drop k (node_pivots parent) \<and>
    hdr_links parent' = hdr_links parent"
proof -
  have room: "table_end (btree_num_entries parent + 1) + pivot_size (key, addr, st) \<le> unat (next_entry parent)"
    using full key(1) by (simp add: takes_pivot_def pivot_size_def index_entry_required_capacity_def)
  obtain h where h: "btree_insert_index_entry parent k key addr st = Inr (True, h)" "index_wf cfg h"
    "node_pivots h = take k (node_pivots parent) @ [(key, addr, st)] @ drop k (node_pivots parent)"
    "hdr_links h = hdr_links parent"
    using insert_index_entry_effect [OF index_okD(1) [OF p] k unknown_pivot_ok [OF a] room] by auto
  moreover have "index_ok cfg h"
    using h(2,3) key index_okD(2) [OF p] by (auto simp: index_ok_def dest: in_set_takeD in_set_dropD)
  ultimately show ?thesis by blast
qed

text \<open>What a split of an index node makes of the parent, the child and the new page.\<close>

definition index_was_split ::
  "btree_config \<Rightarrow> nat \<Rightarrow> u64 \<Rightarrow> node_family \<Rightarrow> nat \<Rightarrow> node_family \<Rightarrow> bool" where
  "index_was_split cfg k right_addr f idx f' \<longleftrightarrow>
     (let ps = node_pivots (fam_child f); qs = node_pivots (fam_parent f) in
       0 < idx \<and> idx < length ps \<and> index_ok cfg (fam_parent f') \<and> index_ok cfg (fam_child f') \<and> index_ok cfg (fam_right f') \<and>
       node_pivots (fam_child f') = take idx ps \<and> node_pivots (fam_right f') = drop idx ps \<and>
       node_pivots (fam_parent f') = take (k + 1) qs @ [(fst (ps ! idx), right_addr, BTREE_PIVOT_STATS_UNKNOWN)] @ drop (k + 1) qs \<and>
       height (fam_child f') = height (fam_child f) \<and> height (fam_right f') = height (fam_child f) \<and>
       fam_next f' = fam_next f \<and> hdr_links (fam_parent f') = hdr_links (fam_parent f) \<and>
       index_compact cfg (fam_right f') \<and>
       (index_compact cfg (fam_child f') \<or> bt_page_size cfg div 4 \<le> unat (next_entry (fam_child f'))))"

lemma split_child_index_effect:
  assumes child: "index_ok cfg (fam_child f)" and parent: "index_ok cfg (fam_parent f)"
    and full: "takes_pivot M (fam_parent f)" and k: "k < btree_num_entries (fam_parent f)"
    and a: "right_addr AND NOT 0xFFF = right_addr" and P: "1024 \<le> bt_page_size cfg"
    and M: "\<forall>x \<in> set (node_pivots (fam_child f)). key_length (fst x) \<le> M" "M \<le> MAX_INLINE_KEY_SIZE (bt_page_size cfg)"
    and big: "bt_page_size cfg div 2 \<le> index_entry_bytes (fam_child f) + btree_num_entries (fam_child f) * sizeof_index_entry_struct"
  defines "idx \<equiv> btree_choose_index_split (fam_child f)"
  shows "\<exists>f'. btree_split_child_index cfg k right_addr next f =
      Inr (\<not> next mod 2 ^ 64 < int idx, if next mod 2 ^ 64 < int idx then next else next - int idx, f') \<and>
    index_was_split cfg k right_addr f idx f'"
proof -
  let ?c = "fam_child f" and ?q = "fam_parent f"
  note wf = index_okD(1) [OF child]
  have r: "0 < idx" "idx < btree_num_entries ?c"
    using choose_index_split_range [OF _ big P] child by (simp_all add: index_ok_def idx_def)
  have ti: "table_index (int idx) = idx"
    using r(2) num_entries_small [OF wf [unfolded index_wf_def]] by (simp add: table_index_small)
  let ?key = "fst (node_pivots ?c ! idx)"
  have key: "key_length ?key \<le> M" using M(1) r(2) by simp
  obtain p' where p': "btree_insert_index_entry ?q (k + 1) ?key right_addr BTREE_PIVOT_STATS_UNKNOWN = Inr (True, p')"
    "index_ok cfg p'" "node_pivots p' = take (k + 1) (node_pivots ?q) @ [(?key, right_addr, BTREE_PIVOT_STATS_UNKNOWN)] @
      drop (k + 1) (node_pivots ?q)" "hdr_links p' = hdr_links ?q"
    using parent_gets_pivot [OF parent full _ a key M(2), of "k + 1" BTREE_PIVOT_STATS_UNKNOWN] k by (simp del: fst_conv) blast
  obtain r' where r': "btree_split_index_build_right_node cfg ?c idx (fam_right f) = Inr r'" "index_compact cfg r'"
    "node_pivots r' = drop idx (node_pivots ?c)" "height r' = height ?c"
    using split_index_right_effect [OF wf, of idx "fam_right f"] r(2) by (auto simp: hdr_links_def)
  obtain c' where c': "btree_truncate_index cfg ?c idx = Inr c'" "index_wf cfg c'"
    "node_pivots c' = take idx (node_pivots ?c)" "height c' = height ?c"
    "index_compact cfg c' \<or> bt_page_size cfg div 4 \<le> unat (next_entry c')"
    using truncate_index_effect [OF wf, of idx] r(2) by (auto simp: hdr_links_def)
  have ok: "index_ok cfg c'" "index_ok cfg r'"
    using c' r' index_okD(2) [OF child] by (auto simp: index_ok_def compact_index_wf dest: in_set_takeD in_set_dropD)
  let ?f' = "f\<lparr>fam_parent := p', fam_child := c', fam_right := r'\<rparr>"
  have "index_was_split cfg k right_addr f idx ?f'"
    using r ok p' c' r' by (simp add: index_was_split_def Let_def)
  moreover have "btree_split_child_index cfg k right_addr next f =
      Inr (\<not> next mod 2 ^ 64 < int idx, if next mod 2 ^ 64 < int idx then next else next - int idx, ?f')"
    using p'(1) r'(1) c'(1) r(2)
    by (simp add: btree_split_child_index_def Let_def idx_def [symmetric] ti get_pivot_nth)
  ultimately show ?thesis by blast
qed

lemma defragment_or_split_child_index_effect:
  assumes child: "index_ok cfg (fam_child f)" and parent: "index_ok cfg (fam_parent f)"
    and full: "takes_pivot M (fam_parent f)" and k: "k < btree_num_entries (fam_parent f)"
    and a: "right_addr AND NOT 0xFFF = right_addr" and P: "1024 \<le> bt_page_size cfg"
    and M: "\<forall>x \<in> set (node_pivots (fam_child f)). key_length (fst x) \<le> M" "M \<le> MAX_INLINE_KEY_SIZE (bt_page_size cfg)"
  shows "\<exists>right i f'. btree_defragment_or_split_child_index cfg k right_addr next f = Inr (right, i, f') \<and>
    (index_was_split cfg k right_addr f (btree_choose_index_split (fam_child f)) f' \<or>
     \<not> right \<and> i = next \<and> (\<exists>c'. f' = f\<lparr>fam_child := c'\<rparr> \<and> index_compact cfg c' \<and> node_pivots c' = node_pivots (fam_child f) \<and>
       hdr_links c' = hdr_links (fam_child f)))"
proof (cases "index_entry_bytes (fam_child f) + btree_num_entries (fam_child f) * sizeof_index_entry_struct
    < BTREE_SPLIT_THRESHOLD (bt_page_size cfg)")
  case True
  obtain c' where "btree_defragment_index cfg (fam_child f) = Inr c'" "index_compact cfg c'"
    "node_pivots c' = node_pivots (fam_child f)" "hdr_links c' = hdr_links (fam_child f)"
    using defragment_index_effect [OF index_okD(1) [OF child]] by blast
  then show ?thesis
    using True by (intro exI [of _ False] exI [of _ "next"] exI [of _ "f\<lparr>fam_child := c'\<rparr>"])
      (auto simp: btree_defragment_or_split_child_index_def Let_def)
next
  case False
  then have "bt_page_size cfg div 2 \<le> index_entry_bytes (fam_child f) + btree_num_entries (fam_child f) * sizeof_index_entry_struct"
    by (simp add: BTREE_SPLIT_THRESHOLD_def)
  then show ?thesis
    using split_child_index_effect [OF child parent full k a P M, of "next"] False
    by (auto simp: btree_defragment_or_split_child_index_def Let_def simp del: split_paired_Ex)
qed

section \<open>A new root\<close>

text \<open>The smallest key of a node.\<close>

definition first_key :: "btree_hdr \<Rightarrow> key" where
  "first_key hdr = (if height hdr = 0 then fst (leaf_tuples hdr ! 0) else fst (node_pivots hdr ! 0))"

lemma grow_root_effect:
  assumes n: "0 < btree_num_entries root" and P: "bt_page_size cfg < 65536" "1024 \<le> bt_page_size cfg"
    and key: "key_length (first_key root) \<le> MAX_INLINE_KEY_SIZE (bt_page_size cfg)"
    and a: "child_addr AND NOT 0xFFF = child_addr"
  shows "\<exists>root'. btree_grow_root cfg child_addr root = Inr (root', root) \<and> index_ok cfg root' \<and>
    node_pivots root' = [(first_key root, child_addr, BTREE_PIVOT_STATS_UNKNOWN)] \<and> height root' = height root + 1 \<and>
    unat (next_entry root') + 23 + key_length (first_key root) = bt_page_size cfg"
proof -
  let ?r = "btree_reset_node_entries cfg root"
  let ?x = "(first_key root, child_addr, BTREE_PIVOT_STATS_UNKNOWN)"
  have "37 \<le> bt_page_size cfg" using P(2) by simp
  note r = reset_index [OF P(1) this, of root]
  have s: "index_compact cfg (btree_increment_height ?r)" "node_pivots (btree_increment_height ?r) = []"
    "btree_num_entries (btree_increment_height ?r) = 0"
    using r index_fields(1) [of "btree_increment_height ?r" ?r cfg] index_fields(2) [of "btree_increment_height ?r" ?r]
    by (simp_all add: index.compact_def btree_increment_height_def index_wf_def node_pivots_def btree_num_entries_def)
  have pv: "(if btree_height root = 0 then btree_get_tuple_key root 0 else btree_get_pivot root 0) = first_key root"
    using n by (simp add: first_key_def btree_height_def get_pivot_nth leaf_tuple_def)
  have ne: "unat (next_entry (btree_increment_height ?r)) = bt_page_size cfg"
    using s by (simp add: index.compact_def node_pivots_def)
  then have "index_room (btree_increment_height ?r) 0 ?x"
    using s(3) key P(2) by (simp add: index_room_def table_end_eq pivot_size_eq MAX_INLINE_KEY_SIZE_def)
  then obtain h where h: "btree_set_index_entry (btree_increment_height ?r) 0 (first_key root) child_addr BTREE_PIVOT_STATS_UNKNOWN
      = Inr (True, h)" "index.stored (bt_page_size cfg) (btree_increment_height ?r) 0 ?x h"
    "unat (next_entry h) + pivot_size ?x = unat (next_entry (btree_increment_height ?r))"
    using set_index_entry_effect [OF compact_index_wf [OF s(1)] _ unknown_pivot_ok [OF a], of 0 "first_key root"] s(3) by auto
  note st = set_pivot_stored [OF h(2)]
  have "height (btree_increment_height ?r) = height root + 1"
    by (simp add: btree_increment_height_def btree_reset_node_entries_def)
  then have "height h = height root + 1" using st(2) by (simp add: hdr_links_def)
  moreover have "index_ok cfg h" using st(1,3) s key by (simp add: index_ok_def)
  moreover have "btree_grow_root cfg child_addr root = Inr (h, root)"
    using h(1) unfolding btree_grow_root_def Let_def pv by simp
  moreover have "unat (next_entry h) + 23 + key_length (first_key root) = bt_page_size cfg"
    using h(3) ne by (simp add: pivot_size_eq)
  ultimately show ?thesis using st(3) s by auto
qed

section \<open>Splitting a child leaf\<close>

text \<open>The bounds that \<open>btree_insert\<close> checks.\<close>

definition tuple_bounded :: "btree_config \<Rightarrow> key \<times> message \<Rightarrow> bool" where
  "tuple_bounded cfg t \<longleftrightarrow> key_length (fst t) \<le> MAX_INLINE_KEY_SIZE (bt_page_size cfg) \<and>
     message_length (snd t) \<le> MAX_INLINE_MESSAGE_SIZE (bt_page_size cfg)"

definition config_ok :: "btree_config \<Rightarrow> bool" where
  "config_ok cfg \<longleftrightarrow> btree_config_init (bt_page_size cfg) (bt_data_cfg cfg) = Inr cfg"

lemma config_page_size: "config_ok cfg \<Longrightarrow> 1024 \<le> bt_page_size cfg"
  by (simp add: config_ok_def btree_config_init_def Let_def sizeof_ondisk_tuple_def MAX_INLINE_KEY_SIZE_def
      MAX_INLINE_MESSAGE_SIZE_def sizeof_table_entry_def sizeof_btree_hdr_def split: if_splits)

lemma bounded_fits: "config_ok cfg \<Longrightarrow> tuple_bounded cfg t \<Longrightarrow> entry_fits cfg t"
  using config_entry_fits [of "bt_page_size cfg" "bt_data_cfg cfg" cfg t] by (simp add: config_ok_def tuple_bounded_def)

lemma splitting_pivot:
  assumes s: "splittable cfg hdr spec"
  shows "btree_splitting_pivot hdr spec (btree_build_leaf_splitting_plan hdr spec) = fst (split_right hdr spec ! 0) \<or>
    spec_state spec = ENTRY_STILL_EXISTS \<and> split_right hdr spec ! 0 = spec_tuple spec \<and>
    btree_splitting_pivot hdr spec (btree_build_leaf_splitting_plan hdr spec) = fst (leaf_tuples hdr ! nat (spec_idx spec))"
proof -
  let ?ts = "leaf_tuples hdr" and ?i = "nat (spec_idx spec)"
  let ?tgt = "spec_target spec ?ts" and ?plan = "btree_build_leaf_splitting_plan hdr spec"
  let ?m = "left_count (weight ?tgt) 0 ?tgt" and ?k = "split_idx ?plan"
  have wf: "leaf_wf cfg hdr" and ok: "spec_ok spec (btree_num_entries hdr)" using s by (simp_all add: splittable_def)
  note okt = ok [folded length_leaf_tuples] and pl = split_plan [OF ok] and ne = split_halves(4) [OF s]
  have i: "?i \<le> length ?ts" "int ?k = spec_idx spec \<longleftrightarrow> ?k = ?i" "spec_state spec = ENTRY_STILL_EXISTS \<Longrightarrow> ?i < length ?ts"
    using ok by (auto simp: spec_ok_def)
  have right: "split_right hdr spec = drop ?m ?tgt" by (simp add: split_right_def Let_def)
  have get: "j < length ?ts \<Longrightarrow> btree_get_tuple_key hdr (table_index (int j)) = fst (?ts ! j)" for j
    using num_entries_lt [OF wf] by (simp add: table_index_small leaf_tuple_def)
  show ?thesis
  proof (cases "?i < ?m")
    case True
    have d: "drop ?k ?ts = split_right hdr spec"
      using target_left(4) [OF okt True left_count_le] pl(2) right True by (auto split: if_splits)
    have "?k < length ?ts" using ne d by (metis drop_all linorder_not_less)
    moreover from this have "?ts ! ?k = split_right hdr spec ! 0" unfolding d [symmetric] by simp
    ultimately show ?thesis using True pl get [of ?k] by (simp add: btree_splitting_pivot_def)
  next
    case False
    then have k: "?k = ?m" "?m \<le> ?i" "\<not> insertion_goes_left ?plan" using pl by auto
    have t: "?m < ?i \<Longrightarrow> ?tgt ! ?m = ?ts ! ?m" "?tgt ! ?i = spec_tuple spec"
      unfolding target_around [OF okt] using i(1) by (simp_all add: nth_append)
    have r0: "split_right hdr spec ! 0 = ?tgt ! ?m"
      using ne unfolding right by (metis add_0_right drop_all linorder_not_less nat_le_linear nth_drop)
    consider "?m < ?i" | "?m = ?i" "spec_state spec \<noteq> ENTRY_STILL_EXISTS" | "?m = ?i" "spec_state spec = ENTRY_STILL_EXISTS"
      using k(2) by linarith
    then show ?thesis
      using t r0 get [of ?m] i k by cases (auto simp: btree_splitting_pivot_def spec_tuple_def)
  qed
qed

lemma splitting_pivot_member:
  assumes s: "splittable cfg hdr spec"
  shows "btree_splitting_pivot hdr spec (btree_build_leaf_splitting_plan hdr spec) \<in>
    fst ` insert (spec_tuple spec) (set (leaf_tuples hdr))"
proof -
  have ok: "spec_ok spec (length (leaf_tuples hdr))" using s by (simp add: splittable_def)
  have "split_right hdr spec ! 0 \<in> set (split_right hdr spec)" using split_halves(4) [OF s] by simp
  then have "split_right hdr spec ! 0 \<in> set (spec_target spec (leaf_tuples hdr))"
    unfolding split_halves(1) [OF s, symmetric] by simp
  then have "split_right hdr spec ! 0 \<in> insert (spec_tuple spec) (set (leaf_tuples hdr))"
    using target_set [OF ok] by blast
  moreover have "spec_state spec = ENTRY_STILL_EXISTS \<Longrightarrow> leaf_tuples hdr ! nat (spec_idx spec) \<in> set (leaf_tuples hdr)"
    using ok by (intro nth_mem) (auto simp: spec_ok_def)
  ultimately show ?thesis using splitting_pivot [OF s] by (metis image_eqI insertCI)
qed

text \<open>What a split of a leaf makes of the pages.\<close>

definition leaf_was_split ::
  "btree_config \<Rightarrow> nat \<Rightarrow> u64 \<Rightarrow> u64 \<Rightarrow> leaf_incorporate_spec \<Rightarrow> node_family \<Rightarrow> node_family \<Rightarrow> bool" where
  "leaf_was_split cfg k child_addr right_addr spec f f' \<longleftrightarrow>
     (let child = fam_child f; qs = node_pivots (fam_parent f);
          pivot = btree_splitting_pivot child spec (btree_build_leaf_splitting_plan child spec) in
       leaf_wf cfg (fam_child f') \<and> leaf_wf cfg (fam_right f') \<and>
       leaf_tuples (fam_child f') = split_left child spec \<and> leaf_tuples (fam_right f') = split_right child spec \<and>
       prev_addr (fam_child f') = prev_addr child \<and> next_addr (fam_child f') = right_addr \<and>
       prev_addr (fam_right f') = child_addr \<and> next_addr (fam_right f') = next_addr child \<and>
       height (fam_child f') = height child \<and> height (fam_right f') = height child \<and>
       fam_next f' = (if next_addr child \<noteq> 0 then map_option (\<lambda>n. n\<lparr>prev_addr := right_addr\<rparr>) (fam_next f) else fam_next f) \<and>
       index_ok cfg (fam_parent f') \<and> hdr_links (fam_parent f') = hdr_links (fam_parent f) \<and>
       node_pivots (fam_parent f') = take (k + 1) qs @ [(pivot, right_addr, BTREE_PIVOT_STATS_UNKNOWN)] @ drop (k + 1) qs)"

text \<open>A leaf and a specification for it within the bounds of the configuration.\<close>

definition insertable :: "btree_config \<Rightarrow> btree_hdr \<Rightarrow> leaf_incorporate_spec \<Rightarrow> bool" where
  "insertable cfg hdr spec \<longleftrightarrow> leaf_wf cfg hdr \<and> spec_ok spec (btree_num_entries hdr) \<and>
     (\<forall>t \<in> insert (spec_tuple spec) (set (leaf_tuples hdr)). tuple_bounded cfg t)"

lemma insertable_splittable: "config_ok cfg \<Longrightarrow> insertable cfg hdr spec \<Longrightarrow> splittable cfg hdr spec"
  using bounded_fits by (auto simp: insertable_def splittable_def)

lemma split_child_leaf_effect:
  assumes cfg: "config_ok cfg" and ins: "insertable cfg (fam_child f) spec"
    and parent: "index_ok cfg (fam_parent f)" and full: "takes_pivot M (fam_parent f)"
    and k: "k < btree_num_entries (fam_parent f)" and a: "right_addr AND NOT 0xFFF = right_addr"
    and claimed: "next_addr (fam_child f) \<noteq> 0 \<Longrightarrow> claimed"
    and M: "\<forall>t \<in> insert (spec_tuple spec) (set (leaf_tuples (fam_child f))). key_length (fst t) \<le> M"
      "M \<le> MAX_INLINE_KEY_SIZE (bt_page_size cfg)"
  shows "\<exists>f'. btree_split_child_leaf cfg claimed k child_addr right_addr spec f =
      Inr (0, Some (generation (fam_child f) + 1), f') \<and> leaf_was_split cfg k child_addr right_addr spec f f'"
proof -
  let ?c = "fam_child f" and ?q = "fam_parent f"
  let ?plan = "btree_build_leaf_splitting_plan ?c spec"
  let ?pivot = "btree_splitting_pivot ?c spec ?plan"
  let ?next = "if next_addr ?c \<noteq> 0 then map_option (\<lambda>n. n\<lparr>prev_addr := right_addr\<rparr>) (fam_next f) else fam_next f"
  note s = insertable_splittable [OF cfg ins]
  have "?pivot \<in> fst ` insert (spec_tuple spec) (set (leaf_tuples ?c))" by (rule splitting_pivot_member [OF s])
  then have key: "key_length ?pivot \<le> M" using M(1) by (metis imageE)
  obtain p' where p': "btree_insert_index_entry ?q (k + 1) ?pivot right_addr BTREE_PIVOT_STATS_UNKNOWN = Inr (True, p')"
    "index_ok cfg p'" "node_pivots p' = take (k + 1) (node_pivots ?q) @ [(?pivot, right_addr, BTREE_PIVOT_STATS_UNKNOWN)] @
      drop (k + 1) (node_pivots ?q)" "hdr_links p' = hdr_links ?q"
    using parent_gets_pivot [OF parent full _ a key M(2), of "k + 1" BTREE_PIVOT_STATS_UNKNOWN] k by auto
  obtain gen s' r' where r: "btree_split_leaf_build_right_node cfg ?c child_addr spec ?plan (fam_right f) = Inr (gen, s', r')"
    "right_built cfg ?c child_addr spec (gen, s', r')"
    using split_right_node [OF s, of child_addr "fam_right f"] by auto
  note call = btree_split_child_leaf_def Let_def
  show ?thesis
  proof (cases "insertion_goes_left ?plan")
    case True
    obtain l s2 l' where l: "btree_split_leaf_cleanup_left_node cfg ?c spec ?plan right_addr = Inr (l, s2)"
      "btree_try_perform_leaf_incorporate_spec l s2 = Inr (True, Some (generation ?c + 1), l')"
      "leaf_wf cfg l'" "leaf_tuples l' = split_left ?c spec"
      "hdr_links l' = (prev_addr ?c, right_addr, next_extent_addr ?c, generation ?c + 2, height ?c)"
      using split_left_node(1) [OF s True, of right_addr] by blast
    let ?f' = "\<lparr>fam_parent = p', fam_child = l', fam_right = r', fam_next = ?next\<rparr>"
    have "btree_split_child_leaf cfg claimed k child_addr right_addr spec f = Inr (0, Some (generation ?c + 1), ?f')"
      using claimed p'(1) r True l(1,2) by (auto simp: call right_built_def)
    moreover have "leaf_was_split cfg k child_addr right_addr spec f ?f'"
      using p' r(2) l by (simp add: leaf_was_split_def Let_def right_built_def hdr_links_def)
    ultimately show ?thesis by blast
  next
    case False
    obtain l where l: "btree_split_leaf_cleanup_left_node cfg ?c s' ?plan right_addr = Inr (l, s')"
      "leaf_wf cfg l" "leaf_tuples l = split_left ?c spec"
      "hdr_links l = (prev_addr ?c, right_addr, next_extent_addr ?c, generation ?c + 1, height ?c)"
      using split_left_node(2) [OF s False, of s' right_addr] by blast
    let ?f' = "\<lparr>fam_parent = p', fam_child = l, fam_right = r', fam_next = ?next\<rparr>"
    have "btree_split_child_leaf cfg claimed k child_addr right_addr spec f = Inr (0, Some (generation ?c + 1), ?f')"
      using claimed p'(1) r False l(1) by (auto simp: call right_built_def)
    moreover have "leaf_was_split cfg k child_addr right_addr spec f ?f'"
      using p' r(2) l by (simp add: leaf_was_split_def Let_def right_built_def hdr_links_def)
    ultimately show ?thesis by blast
  qed
qed

section \<open>Defragmenting or splitting a child leaf\<close>

lemma tuple_size_ge: "6 \<le> tuple_size t"
  by (simp add: tuple_size_def leaf_entry_required_capacity_def sizeof_ondisk_tuple_def)

lemma used_ge: "6 * length ts \<le> used ts"
proof (induction ts)
  case (Cons t ts)
  then show ?case using tuple_size_ge [of t] by simp
qed simp

lemma leaf_total_space:
  assumes ok: "spec_ok spec (btree_num_entries hdr)"
  shows "used (spec_target spec (leaf_tuples hdr)) \<le> leaf_total_space_required hdr spec"
    and "leaf_total_space_required hdr spec \<le> used (spec_target spec (leaf_tuples hdr)) + 23"
proof -
  let ?n = "btree_num_entries hdr" and ?c = "\<lambda>i. spec_state spec \<noteq> ENTRY_STILL_EXISTS \<or> int i \<noteq> spec_idx spec"
  let ?live = "sum_list (map (\<lambda>i. sizeof_leaf_entry hdr (btree_get_leaf_entry hdr i)) (filter ?c [0..<?n]))"
  let ?req = "leaf_entry_required_capacity (spec_key spec) (spec_message spec)"
  have c: "(int i \<noteq> spec_idx spec \<or> spec_state spec \<noteq> ENTRY_STILL_EXISTS) = ?c i" for i by blast
  have "plan_total_bytes hdr spec = ?req + ?live + 2 * (?n + (if spec_state spec = ENTRY_STILL_EXISTS then 0 else 1))"
    unfolding plan_total_bytes_def Let_def c fold_sum_filter sizeof_table_entry_def by simp
  moreover have "length (spec_target spec (leaf_tuples hdr)) = ?n + (if spec_state spec = ENTRY_STILL_EXISTS then 0 else 1)"
    using ok by (auto simp: spec_target_def Let_def spec_ok_def min_def)
  ultimately have "used (spec_target spec (leaf_tuples hdr)) = ?req + ?live"
    unfolding plan_total [OF ok] weight_def by simp
  moreover have "?req + ?live \<le> leaf_total_space_required hdr spec" "leaf_total_space_required hdr spec \<le> ?req + ?live + 23"
    unfolding leaf_total_space_required_def Let_def fold_sum_filter
    by (simp_all add: sizeof_index_entry_struct_def sizeof_ondisk_key_def)
  ultimately show "used (spec_target spec (leaf_tuples hdr)) \<le> leaf_total_space_required hdr spec"
    and "leaf_total_space_required hdr spec \<le> used (spec_target spec (leaf_tuples hdr)) + 23" by simp_all
qed

lemma defragment_or_split_child_leaf_effect:
  assumes cfg: "config_ok cfg" and ins: "insertable cfg (fam_child f) spec"
    and parent: "index_ok cfg (fam_parent f)" and full: "takes_pivot M (fam_parent f)"
    and k: "k < btree_num_entries (fam_parent f)" and a: "right_addr AND NOT 0xFFF = right_addr"
    and claimed: "next_addr (fam_child f) \<noteq> 0 \<Longrightarrow> claimed"
    and M: "\<forall>t \<in> insert (spec_tuple spec) (set (leaf_tuples (fam_child f))). key_length (fst t) \<le> M"
      "M \<le> MAX_INLINE_KEY_SIZE (bt_page_size cfg)"
  shows "\<exists>gen f'. btree_defragment_or_split_child_leaf cfg claimed k child_addr right_addr spec f = Inr (0, Some gen, f') \<and>
    (leaf_was_split cfg k child_addr right_addr spec f f' \<and>
       BTREE_SPLIT_THRESHOLD (bt_page_size cfg) \<le> leaf_total_space_required (fam_child f) spec \<or>
     (\<exists>c'. f' = f\<lparr>fam_child := c'\<rparr> \<and> leaf_wf cfg c' \<and> leaf_tuples c' = spec_target spec (leaf_tuples (fam_child f)) \<and>
       hdr_links c' = (prev_addr (fam_child f), next_addr (fam_child f), next_extent_addr (fam_child f),
         generation (fam_child f) + 1, height (fam_child f))))"
proof (cases "leaf_total_space_required (fam_child f) spec < BTREE_SPLIT_THRESHOLD (bt_page_size cfg)")
  case True
  let ?c = "fam_child f"
  let ?tgt = "spec_target spec (leaf_tuples ?c)"
  have wf: "leaf_wf cfg ?c" and ok: "spec_ok spec (btree_num_entries ?c)" using ins by (simp_all add: insertable_def)
  have "37 + weight ?tgt \<le> bt_page_size cfg"
    using True leaf_total_space(1) [OF ok] used_ge [of ?tgt] config_page_size [OF cfg]
    by (simp add: weight_def BTREE_SPLIT_THRESHOLD_def)
  then obtain h s h' where h: "btree_defragment_leaf cfg ?c (Some spec) = Inr (h, Some s)"
    "btree_try_perform_leaf_incorporate_spec h s = Inr (True, Some (generation ?c), h')"
    "leaf_wf cfg h'" "leaf_tuples h' = ?tgt"
    "hdr_links h' = (prev_addr ?c, next_addr ?c, next_extent_addr ?c, generation ?c + 1, height ?c)"
    using defragment_incorporates [OF wf ok] by blast
  have "btree_defragment_or_split_child_leaf cfg claimed k child_addr right_addr spec f =
      Inr (0, Some (generation ?c), f\<lparr>fam_child := h'\<rparr>)"
    using True h(1,2) by (simp add: btree_defragment_or_split_child_leaf_def)
  then show ?thesis using h(3-5) by blast
next
  case False
  then show ?thesis
    using split_child_leaf_effect [OF assms, of child_addr] by (auto simp: btree_defragment_or_split_child_leaf_def)
qed

end
