(* ===== verification/BtOrdered.thy ===== *)
theory BtOrdered
  imports BtNodeProofs
begin

text \<open>
  The nodes as ordered lists: the search in leaves and index nodes is the reference search, the
  incorporation of a tuple is an insertion into an ordered association list.
\<close>

section \<open>Insertion into an ordered list\<close>

fun upsert :: "('k \<Rightarrow> 'k \<Rightarrow> int) \<Rightarrow> ('m \<Rightarrow> 'm) \<Rightarrow> 'k \<Rightarrow> 'm \<Rightarrow> ('k \<times> 'm) list \<Rightarrow> ('k \<times> 'm) list" where
  "upsert c f k m [] = [(k, m)]"
| "upsert c f k m (t # ts) =
     (if c (fst t) k < 0 then t # upsert c f k m ts
      else if c (fst t) k = 0 then (k, f (snd t)) # ts
      else (k, m) # t # ts)"

lemma upsert_below:
  "\<forall>t \<in> set ts. c (fst t) k < 0 \<Longrightarrow> upsert c f k m (ts @ us) = ts @ upsert c f k m us"
  by (induction ts) auto

lemma below_take: "(\<And>i. i < n \<Longrightarrow> i < length ts \<Longrightarrow> P (ts ! i)) \<Longrightarrow> \<forall>t \<in> set (take n ts). P t"
  by (auto simp: in_set_conv_nth)

context total_compare
begin

lemma upsert_insert:
  assumes n: "n \<le> length ts" and below: "\<And>i. i < n \<Longrightarrow> cmp (fst (ts ! i)) k < 0"
    and above: "n < length ts \<Longrightarrow> 0 < cmp (fst (ts ! n)) k"
  shows "upsert cmp f k m ts = take n ts @ [(k, m)] @ drop n ts"
proof -
  have "upsert cmp f k m (take n ts @ drop n ts) = take n ts @ upsert cmp f k m (drop n ts)"
    by (rule upsert_below, rule below_take) (rule below)
  moreover have "upsert cmp f k m (drop n ts) = (k, m) # drop n ts"
    using above by (cases "n < length ts") (auto simp: Cons_nth_drop_Suc [symmetric])
  ultimately show ?thesis by simp
qed

lemma upsert_replace:
  assumes n: "n < length ts" and below: "\<And>i. i < n \<Longrightarrow> cmp (fst (ts ! i)) k < 0" and at: "cmp (fst (ts ! n)) k = 0"
  shows "upsert cmp f k m ts = ts[n := (k, f (snd (ts ! n)))]"
proof -
  have "upsert cmp f k m (take n ts @ drop n ts) = take n ts @ upsert cmp f k m (drop n ts)"
    by (rule upsert_below, rule below_take) (rule below)
  moreover have "upsert cmp f k m (drop n ts) = (k, f (snd (ts ! n))) # drop (Suc n) ts"
    using at n by (simp add: Cons_nth_drop_Suc [symmetric])
  ultimately show ?thesis using n by (simp add: upd_conv_take_nth_drop)
qed

text \<open>The place that the search finds.\<close>

lemma search_place:
  assumes a: "ascending ks" and t: "dom t" and r: "find_loop (\<lambda>mid. cmp (ks ! mid) t) 0 (length ks) = (idx, found)"
  shows "found \<Longrightarrow> 0 \<le> idx \<and> nat idx < length ks \<and> cmp (ks ! nat idx) t = 0 \<and> (\<forall>i<nat idx. cmp (ks ! i) t < 0)"
    and "\<not> found \<Longrightarrow> nat (idx + 1) \<le> length ks \<and> (\<forall>i<nat (idx + 1). cmp (ks ! i) t < 0) \<and>
      (\<forall>i<length ks. nat (idx + 1) \<le> i \<longrightarrow> 0 < cmp (ks ! i) t)"
proof -
  note s = search_ascending [OF a t r]
  show "0 \<le> idx \<and> nat idx < length ks \<and> cmp (ks ! nat idx) t = 0 \<and> (\<forall>i<nat idx. cmp (ks ! i) t < 0)" if found
    using that s(1,2,4) ascending_sign [OF a t] by auto
  show "nat (idx + 1) \<le> length ks \<and> (\<forall>i<nat (idx + 1). cmp (ks ! i) t < 0) \<and>
      (\<forall>i<length ks. nat (idx + 1) \<le> i \<longrightarrow> 0 < cmp (ks ! i) t)" if nf: "\<not> found"
  proof (intro conjI allI impI)
    show "nat (idx + 1) \<le> length ks" using s(2) by simp
    fix i
    show "cmp (ks ! i) t < 0" if "i < nat (idx + 1)"
    proof (cases "int i = idx")
      case True
      then have "cmp (ks ! i) t \<noteq> 0" using s(4) nf by (metis int_nat_eq nat_int of_nat_0_le_iff)
      then show ?thesis using s(2) s(3) [of i] True by simp
    next
      case False
      then have "int i < idx" using that by linarith
      then show ?thesis using s(2) s(3) [of "nat idx"] ascending_sign [OF a t, of i "nat idx"] by simp
    qed
    show "0 < cmp (ks ! i) t" if "i < length ks" "nat (idx + 1) \<le> i" using s(3) [OF that(1)] that(2) by linarith
  qed
qed

lemma upsert_ascending:
  assumes a: "ascending (map fst ts)" and k: "dom k"
  shows "ascending (map fst (upsert cmp f k m ts))"
proof -
  let ?ks = "map fst ts"
  obtain idx found where r: "find_loop (\<lambda>mid. cmp (?ks ! mid) k) 0 (length ?ks) = (idx, found)" by fastforce
  note p = search_place [OF a k r]
  show ?thesis
  proof (cases found)
    case True
    note p = p(1) [OF True]
    have "upsert cmp f k m ts = ts[nat idx := (k, f (snd (ts ! nat idx)))]"
      using p by (intro upsert_replace) auto
    moreover have "ascending (?ks[nat idx := k])" using p by (intro ascending_replace [OF a k]) auto
    ultimately show ?thesis by (simp add: map_update)
  next
    case False
    note p = p(2) [OF False]
    have "upsert cmp f k m ts = take (nat (idx + 1)) ts @ [(k, m)] @ drop (nat (idx + 1)) ts"
      using p by (intro upsert_insert) auto
    moreover have "ascending (take (nat (idx + 1)) ?ks @ [k] @ drop (nat (idx + 1)) ?ks)"
      using p by (intro ascending_insert [OF a k]) auto
    ultimately show ?thesis by (simp add: take_map drop_map)
  qed
qed

end

section \<open>Lexicographic trees\<close>

text \<open>The keys of the tree are compared as the default configuration does, whatever the merging is.\<close>

definition lexical :: "btree_config \<Rightarrow> bool" where
  "lexical cfg \<longleftrightarrow> (\<forall>a b. dc_key_compare (bt_data_cfg cfg) a b = slice_lex_cmp a b)"

definition key_short :: "key \<Rightarrow> bool" where
  "key_short k \<longleftrightarrow> key_length k < 2147483648"

lemma lexical_compare:
  assumes "lexical cfg"
  shows "total_compare (btree_key_compare cfg) key_short"
proof -
  have "btree_key_compare cfg = data_key_compare default_data_config"
    using assms by (intro ext) (simp add: btree_key_compare_def data_key_compare_def lexical_def default_data_config_def)
  moreover have "key_short = key_dom (\<lambda>k. length k < 2147483648)"
    by (intro ext) (simp add: key_short_def key_dom_def key_length_def)
  ultimately show ?thesis using lex.keys.total_compare_axioms by simp
qed

definition keys_sorted :: "btree_config \<Rightarrow> key list \<Rightarrow> bool" where
  "keys_sorted cfg ks \<longleftrightarrow> sorted_wrt (\<lambda>a b. btree_key_compare cfg a b < 0) ks"

lemma keys_sorted_ascending:
  assumes "total_compare (btree_key_compare cfg) key_short" and "\<forall>k \<in> set ks. key_short k"
  shows "total_compare.ascending (btree_key_compare cfg) key_short ks \<longleftrightarrow> keys_sorted cfg ks"
  using assms(2) by (simp add: total_compare.ascending_def [OF assms(1)] keys_sorted_def sorted_wrt_iff_nth_less)

lemma unat_u16_short: "unat (w :: u16) < 2147483648"
  by (rule order_less_trans [OF unsigned_less]) simp

lemma leaf_keys_short: "k \<in> set (map fst (leaf_tuples hdr)) \<Longrightarrow> key_short k"
  by (auto simp: leaf_tuples_slots slots_def tuple_at_def ondisk_tuple_key_def key_short_def key_length_def
      key_is_user_key_def odt_key_length_def unat_u16_short)

lemma pivot_keys_short: "k \<in> set (map fst (node_pivots hdr)) \<Longrightarrow> key_short k"
  by (auto simp: node_pivots_def slots_def pivot_at_def ondisk_key_to_key_def key_short_def key_length_def
      key_is_user_key_def unat_u16_short)

definition leaf_sorted :: "btree_config \<Rightarrow> btree_hdr \<Rightarrow> bool" where
  "leaf_sorted cfg hdr \<longleftrightarrow> keys_sorted cfg (map fst (leaf_tuples hdr))"

definition index_sorted :: "btree_config \<Rightarrow> btree_hdr \<Rightarrow> bool" where
  "index_sorted cfg hdr \<longleftrightarrow> keys_sorted cfg (map fst (node_pivots hdr))"

lemma find_loop_cong:
  assumes "\<And>i. i < hi \<Longrightarrow> c i = c' i"
  shows "find_loop c lo hi = find_loop c' lo hi"
  using assms
proof (induction c lo hi rule: find_loop.induct)
  case (1 c lo hi)
  have "lo < hi \<Longrightarrow> c ((lo + hi) div 2) = c' ((lo + hi) div 2)" using "1.prems" by simp
  then show ?case
    using "1.IH" "1.prems" by (subst (1 2) find_loop.simps) (auto simp: Let_def)
qed

text \<open>The search of a node is the search of the list of its keys.\<close>

lemma find_tuple_list:
  "btree_find_tuple cfg hdr k =
     find_loop (\<lambda>mid. btree_key_compare cfg (map fst (leaf_tuples hdr) ! mid) k) 0 (length (map fst (leaf_tuples hdr)))"
  unfolding btree_find_tuple_def by (simp, rule find_loop_cong) (simp add: leaf_tuple_def)

lemma find_pivot_list:
  "btree_find_pivot cfg hdr k =
     find_loop (\<lambda>mid. btree_key_compare cfg (map fst (node_pivots hdr) ! mid) k) 0 (length (map fst (node_pivots hdr)))"
  unfolding btree_find_pivot_def by (simp, rule find_loop_cong) (simp add: get_pivot_nth)

lemma leaf_ascending:
  assumes "lexical cfg" and "leaf_sorted cfg hdr"
  shows "total_compare.ascending (btree_key_compare cfg) key_short (map fst (leaf_tuples hdr))"
  using keys_sorted_ascending [OF lexical_compare [OF assms(1)], of "map fst (leaf_tuples hdr)"] leaf_keys_short assms(2)
  by (simp add: leaf_sorted_def)

lemma index_ascending:
  assumes "lexical cfg" and "index_sorted cfg hdr"
  shows "total_compare.ascending (btree_key_compare cfg) key_short (map fst (node_pivots hdr))"
  using keys_sorted_ascending [OF lexical_compare [OF assms(1)], of "map fst (node_pivots hdr)"] pivot_keys_short assms(2)
  by (simp add: index_sorted_def)

section \<open>Incorporating a tuple\<close>

text \<open>What the user's callback makes of the old message.\<close>

definition merged :: "btree_config \<Rightarrow> key \<Rightarrow> message \<Rightarrow> message \<Rightarrow> message" where
  "merged cfg k new old = (case data_merge_tuples (bt_data_cfg cfg) k old new of Inl _ \<Rightarrow> old | Inr r \<Rightarrow> snd r)"

lemma create_spec_found:
  assumes lex: "lexical cfg" and wf: "leaf_wf cfg hdr" and sorted: "leaf_sorted cfg hdr" and k: "key_short k"
    and f: "btree_find_tuple cfg hdr k = (idx, True)"
    and r: "btree_create_leaf_incorporate_spec cfg mem_ok hdr k msg = Inr (Inr spec)"
  shows "0 \<le> idx" and "nat idx < btree_num_entries hdr" and "btree_key_compare cfg (fst (leaf_tuples hdr ! nat idx)) k = 0"
    and "spec = \<lparr>spec_key = k, spec_idx = idx, spec_state = ENTRY_STILL_EXISTS,
      spec_msg = merged cfg k msg (snd (leaf_tuples hdr ! nat idx))\<rparr>"
    and "upsert (btree_key_compare cfg) h k m (leaf_tuples hdr) =
      (leaf_tuples hdr)[nat idx := (k, h (snd (leaf_tuples hdr ! nat idx)))]"
proof -
  let ?ts = "leaf_tuples hdr"
  note c = lexical_compare [OF lex]
  note p = total_compare.search_place(1) [OF c leaf_ascending [OF lex sorted] k f [unfolded find_tuple_list] TrueI]
  show "0 \<le> idx" and i: "nat idx < btree_num_entries hdr" and "btree_key_compare cfg (fst (?ts ! nat idx)) k = 0"
    using p by auto
  have "0 \<le> idx" "idx < 65536" using p num_entries_lt [OF wf] by auto
  then have "table_index idx = nat idx" by (rule table_index_small)
  then have "leaf_entry_message hdr (btree_get_leaf_entry hdr (table_index idx)) = snd (?ts ! nat idx)"
    using i by (simp add: leaf_tuple_def btree_get_tuple_message_def)
  then show "spec = \<lparr>spec_key = k, spec_idx = idx, spec_state = ENTRY_STILL_EXISTS, spec_msg = merged cfg k msg (snd (?ts ! nat idx))\<rparr>"
    using r f by (auto simp: btree_create_leaf_incorporate_spec_def merged_def elim!: obind_InrE split: if_splits)
  show "upsert (btree_key_compare cfg) h k m ?ts = ?ts[nat idx := (k, h (snd (?ts ! nat idx)))]"
    using p by (intro total_compare.upsert_replace [OF c]) auto
qed

lemma create_spec_absent:
  assumes lex: "lexical cfg" and sorted: "leaf_sorted cfg hdr" and k: "key_short k"
    and f: "btree_find_tuple cfg hdr k = (idx, False)"
    and r: "btree_create_leaf_incorporate_spec cfg mem_ok hdr k msg = Inr (Inr spec)"
  shows "- 1 \<le> idx" and "nat (idx + 1) \<le> btree_num_entries hdr"
    and "spec = \<lparr>spec_key = k, spec_idx = idx + 1, spec_state = ENTRY_DID_NOT_EXIST, spec_msg = msg\<rparr>"
    and "upsert (btree_key_compare cfg) h k m (leaf_tuples hdr) =
      take (nat (idx + 1)) (leaf_tuples hdr) @ [(k, m)] @ drop (nat (idx + 1)) (leaf_tuples hdr)"
    and "\<not> (\<exists>t \<in> set (leaf_tuples hdr). btree_key_compare cfg (fst t) k = 0)"
proof -
  let ?ts = "leaf_tuples hdr"
  note c = lexical_compare [OF lex]
  note f' = f [unfolded find_tuple_list] and a = leaf_ascending [OF lex sorted]
  have p: "nat (idx + 1) \<le> length ?ts" "\<And>i. i < nat (idx + 1) \<Longrightarrow> btree_key_compare cfg (fst (?ts ! i)) k < 0"
    "\<And>i. i < length ?ts \<Longrightarrow> nat (idx + 1) \<le> i \<Longrightarrow> 0 < btree_key_compare cfg (fst (?ts ! i)) k"
    using total_compare.search_place(2) [OF c a k f'] by (auto simp del: length_leaf_tuples)
  show "- 1 \<le> idx" by (rule total_compare.search_ascending(1) [OF c a k f'])
  show "nat (idx + 1) \<le> btree_num_entries hdr" using p(1) by simp
  show "spec = \<lparr>spec_key = k, spec_idx = idx + 1, spec_state = ENTRY_DID_NOT_EXIST, spec_msg = msg\<rparr>"
    using r f by (simp add: btree_create_leaf_incorporate_spec_def)
  show "upsert (btree_key_compare cfg) h k m ?ts = take (nat (idx + 1)) ?ts @ [(k, m)] @ drop (nat (idx + 1)) ?ts"
    by (rule total_compare.upsert_insert [OF c]) (use p in auto)
  show "\<not> (\<exists>t \<in> set ?ts. btree_key_compare cfg (fst t) k = 0)"
  proof
    assume "\<exists>t \<in> set ?ts. btree_key_compare cfg (fst t) k = 0"
    then obtain i where "i < length ?ts" "btree_key_compare cfg (fst (?ts ! i)) k = 0" by (auto simp: in_set_conv_nth)
    then show False using p(2) [of i] p(3) [of i] by (cases "i < nat (idx + 1)") auto
  qed
qed

lemma create_spec_result:
  assumes lex: "lexical cfg" and wf: "leaf_wf cfg hdr" and sorted: "leaf_sorted cfg hdr"
    and k: "key_short k" "key_is_user_key k"
    and r: "btree_create_leaf_incorporate_spec cfg mem_ok hdr k msg = Inr (Inr spec)"
    and types: "msg_type (spec_msg spec) \<noteq> MESSAGE_TYPE_PIVOT_DATA"
  shows "spec_ok spec (btree_num_entries hdr)" and "spec_key spec = k"
    and "spec_target spec (leaf_tuples hdr) = upsert (btree_key_compare cfg) (merged cfg k msg) k msg (leaf_tuples hdr)"
    and "spec_state spec = ENTRY_STILL_EXISTS \<Longrightarrow>
      btree_key_compare cfg (fst (leaf_tuples hdr ! nat (spec_idx spec))) k = 0"
    and "spec_state spec = (if \<exists>t \<in> set (leaf_tuples hdr). btree_key_compare cfg (fst t) k = 0
      then ENTRY_STILL_EXISTS else ENTRY_DID_NOT_EXIST)"
proof -
  let ?ts = "leaf_tuples hdr"
  obtain idx found where f: "btree_find_tuple cfg hdr k = (idx, found)" by fastforce
  have "spec_ok spec (btree_num_entries hdr) \<and> spec_key spec = k \<and>
    spec_target spec ?ts = upsert (btree_key_compare cfg) (merged cfg k msg) k msg ?ts \<and>
    (spec_state spec = ENTRY_STILL_EXISTS \<longrightarrow> btree_key_compare cfg (fst (?ts ! nat (spec_idx spec))) k = 0) \<and>
    spec_state spec = (if \<exists>t \<in> set ?ts. btree_key_compare cfg (fst t) k = 0 then ENTRY_STILL_EXISTS else ENTRY_DID_NOT_EXIST)"
  proof (cases found)
    case True
    then have "btree_find_tuple cfg hdr k = (idx, True)" using f by simp
    note p = create_spec_found [OF lex wf sorted k(1) this r]
    have "?ts ! nat idx \<in> set ?ts" using p(2) by (intro nth_mem) simp
    then have "\<exists>t \<in> set ?ts. btree_key_compare cfg (fst t) k = 0" using p(3) by blast
    moreover have "idx < int (btree_num_entries hdr)" using p(1,2) by linarith
    ultimately show ?thesis
      using p(1-3) k(2) types unfolding p(4) p(5)
      by (simp add: spec_ok_def spec_tuple_def tuple_ok_def spec_target_def del: nth_leaf_tuples)
  next
    case False
    then have "btree_find_tuple cfg hdr k = (idx, False)" using f by simp
    note p = create_spec_absent [OF lex sorted k(1) this r]
    show ?thesis
      using p(1,2,5) k(2) types unfolding p(3) p(4)
      by (simp add: spec_ok_def spec_tuple_def tuple_ok_def spec_target_def Let_def nat_le_iff)
  qed
  then show "spec_ok spec (btree_num_entries hdr)" and "spec_key spec = k"
    and "spec_target spec ?ts = upsert (btree_key_compare cfg) (merged cfg k msg) k msg ?ts"
    and "spec_state spec = ENTRY_STILL_EXISTS \<Longrightarrow> btree_key_compare cfg (fst (?ts ! nat (spec_idx spec))) k = 0"
    and "spec_state spec = (if \<exists>t \<in> set ?ts. btree_key_compare cfg (fst t) k = 0 then ENTRY_STILL_EXISTS else ENTRY_DID_NOT_EXIST)"
    by blast+
qed

lemma upsert_sorted:
  assumes lex: "lexical cfg" and k: "key_short k" and s: "leaf_sorted cfg hdr"
  shows "keys_sorted cfg (map fst (upsert (btree_key_compare cfg) h k m (leaf_tuples hdr)))"
proof -
  note c = lexical_compare [OF lex]
  have a: "total_compare.ascending (btree_key_compare cfg) key_short (map fst (upsert (btree_key_compare cfg) h k m (leaf_tuples hdr)))"
    by (rule total_compare.upsert_ascending [OF c leaf_ascending [OF lex s] k])
  then have "\<forall>x \<in> set (map fst (upsert (btree_key_compare cfg) h k m (leaf_tuples hdr))). key_short x"
    by (simp add: total_compare.ascending_def [OF c])
  then show ?thesis using a keys_sorted_ascending [OF c] by blast
qed

text \<open>Two parts of a sorted list, and a separator that compares equal to the first key of the second.\<close>

lemma sorted_parts:
  assumes lex: "lexical cfg" and s: "keys_sorted cfg (xs @ ys)" and short: "\<forall>x \<in> set (xs @ ys). key_short x"
    and sep: "ys \<noteq> []" "key_short p" "btree_key_compare cfg p (ys ! 0) = 0"
  shows "keys_sorted cfg xs" and "keys_sorted cfg ys"
    and "x \<in> set xs \<Longrightarrow> btree_key_compare cfg x p < 0" and "y \<in> set ys \<Longrightarrow> btree_key_compare cfg p y \<le> 0"
proof -
  note c = lexical_compare [OF lex]
  show "keys_sorted cfg xs" "keys_sorted cfg ys" using s by (simp_all add: keys_sorted_def sorted_wrt_append)
  have y0: "ys ! 0 \<in> set ys" "key_short (ys ! 0)" using sep(1) short by auto
  have eq: "btree_key_compare cfg (ys ! 0) p \<le> 0"
    using sep(3) total_compare.cmp_swap [OF c sep(2) y0(2)] by linarith
  show "btree_key_compare cfg x p < 0" if "x \<in> set xs"
  proof -
    have "btree_key_compare cfg x (ys ! 0) < 0" using s that y0(1) by (simp add: keys_sorted_def sorted_wrt_append)
    then show ?thesis using total_compare.cmp_less_trans [OF c _ y0(2) sep(2) _ eq] that short by simp
  qed
  show "btree_key_compare cfg p y \<le> 0" if y: "y \<in> set ys"
  proof -
    have "btree_key_compare cfg (ys ! 0) y \<le> 0"
    proof (cases "y = ys ! 0")
      case True
      then show ?thesis using total_compare.cmp_self [OF c y0(2)] by simp
    next
      case False
      then obtain i where "0 < i" "i < length ys" "y = ys ! i" using y by (metis gr0I in_set_conv_nth)
      then show ?thesis
        using \<open>keys_sorted cfg ys\<close> by (simp add: keys_sorted_def sorted_wrt_iff_nth_less order.strict_implies_order)
    qed
    then show ?thesis using total_compare.cmp_trans [OF c sep(2) y0(2)] sep(3) y short by simp
  qed
qed

end
