(* ===== verification/BtRoom.thy ===== *)
theory BtRoom
  imports BtTree BtOrdered
begin

text \<open>
  The room that a descent needs. \<open>btree_insert\<close> relies on the parent having room for one more pivot
  when it splits a child. A node that is not full has it, and so have the nodes of a split -
  unless the smallest key of the child had to be lowered and found no room: then the new pivot
  goes into the left node after the split, where it may take the space that the next split
  needs. Keys of up to \<open>safe_key_size\<close> leave enough in every case, 384 bytes in a page of 4096;
  the largest key that \<open>btree_insert\<close> accepts has 512.
\<close>

definition safe_key_size :: "btree_config \<Rightarrow> nat" where
  "safe_key_size cfg = (bt_page_size cfg div 4 - 86 - bt_page_size cfg div 24) div 2"

lemma safe_key_size:
  assumes "1024 \<le> bt_page_size cfg"
  shows "2 * safe_key_size cfg + 86 + bt_page_size cfg div 24 \<le> bt_page_size cfg div 4"
    and "safe_key_size cfg \<le> MAX_INLINE_KEY_SIZE (bt_page_size cfg)"
proof -
  have d: "86 + bt_page_size cfg div 24 \<le> bt_page_size cfg div 4" using assms by linarith
  then show s: "2 * safe_key_size cfg + 86 + bt_page_size cfg div 24 \<le> bt_page_size cfg div 4"
    by (simp add: safe_key_size_def)
  show "safe_key_size cfg \<le> MAX_INLINE_KEY_SIZE (bt_page_size cfg)"
    using s by (simp add: MAX_INLINE_KEY_SIZE_def)
qed

section \<open>Lowering the smallest key\<close>

text \<open>Setting an entry that exists: it is stored, or there was no room and nothing has changed.\<close>

lemma set_index_returns:
  assumes "k \<le> btree_num_entries hdr"
  obtains ok hdr' where "btree_set_index_entry hdr k key addr st = Inr (ok, hdr')"
proof (cases "btree_set_index_entry hdr k key addr st")
  case (Inl e)
  then show ?thesis using assms by (auto simp: btree_set_index_entry_def Let_def split: if_splits)
next
  case (Inr r)
  then show ?thesis using that by (cases r) simp
qed

lemma set_index_entry_space:
  assumes wf: "index_wf cfg hdr" and k: "k < btree_num_entries hdr"
    and r: "btree_set_index_entry hdr k key addr st = Inr (ok, hdr')"
  shows "ok \<Longrightarrow> unat (next_entry hdr) \<le> unat (next_entry hdr') + index_entry_required_capacity key"
    and "\<not> ok \<Longrightarrow> hdr' = hdr"
proof -
  let ?e = "btree_get_index_entry hdr k" and ?req = "index_entry_required_capacity key"
  let ?n = "btree_num_entries hdr" and ?ne = "unat (next_entry hdr)"
  let ?low = "?ne = ?e \<and> table_end ?n + ?req \<le> ?ne + sizeof_index_entry hdr ?e"
  note w = page_wfD [OF wf [unfolded index_wf_def]]
  have up: "unat (next_entry hdr + of_nat (sizeof_index_entry hdr ?e)) = ?ne + sizeof_index_entry hdr ?e" if "?ne = ?e"
    using that w(1) w(5) [OF k] k
    by (subst unat_plus_if') (simp add: unat_of_nat_u16 index_entry_reads get_index_entry_off index.esize_need)
  have small: "unat (of_nat (?ne - a) :: u16) = ?ne - a" for a
    using w(1,2) by (simp add: unat_of_nat_u16)
  have up_small: "unat (of_nat (?ne + sizeof_index_entry hdr ?e - a) :: u16) = ?ne + sizeof_index_entry hdr ?e - a"
    if "?ne = ?e" for a
    using that w(1) w(5) [OF k] k
    by (simp add: unat_of_nat_u16 index_entry_reads get_index_entry_off index.esize_need)
  show "?ne \<le> unat (next_entry hdr') + ?req" if ok
    using r k that up up_small small
    by (cases ?low) (auto simp: btree_set_index_entry_def Let_def btree_fill_index_entry_def
        simp del: of_nat_diff of_nat_add split: if_splits)
  show "hdr' = hdr" if "\<not> ok"
    using r k that up
    by (cases ?low) (auto simp: btree_set_index_entry_def Let_def split: if_splits)
qed

text \<open>The first pivot has been replaced by \<open>k\<close>, for the same child.\<close>

definition min_lowered :: "btree_config \<Rightarrow> key \<Rightarrow> btree_hdr \<Rightarrow> btree_hdr \<Rightarrow> bool" where
  "min_lowered cfg k hdr hdr' \<longleftrightarrow> index_wf cfg hdr' \<and> hdr_links hdr' = hdr_links hdr \<and>
     node_pivots hdr' = (node_pivots hdr)[0 := (k, snd (node_pivots hdr ! 0))] \<and>
     unat (next_entry hdr) \<le> unat (next_entry hdr') + (23 + key_length k)"

lemma set_min_key_result:
  assumes wf: "index_wf cfg hdr" and n: "0 < btree_num_entries hdr"
  shows "\<exists>ok hdr'. set_min_key hdr k = Inr (ok, hdr') \<and> (if ok then min_lowered cfg k hdr hdr' else hdr' = hdr) \<and>
    (table_end (btree_num_entries hdr) + (23 + key_length k) \<le> unat (next_entry hdr) \<longrightarrow> ok)"
proof -
  let ?x = "(k, snd (node_pivots hdr ! 0))"
  have e: "set_min_key hdr k = btree_set_index_entry hdr 0 (fst ?x) (fst (snd ?x)) (snd (snd ?x))"
    using n by (simp add: set_min_key_def index_entry_reads nth_node_pivots Let_def)
  have req: "index_entry_required_capacity k = 23 + key_length k"
    by (simp add: index_entry_required_capacity_def sizeof_index_entry_struct_def sizeof_ondisk_key_def)
  have x: "pivot_ok ?x" using n pivot_at_ok by (simp add: nth_node_pivots pivot_ok_def)
  obtain ok hdr' where r: "set_min_key hdr k = Inr (ok, hdr')"
    unfolding e by (rule set_index_returns [OF less_imp_le [OF n]])
  note sp = set_index_entry_space [OF wf n r [unfolded e], unfolded fst_conv req]
  have st: "min_lowered cfg k hdr hdr'" if "ok" "index.stored (bt_page_size cfg) hdr 0 ?x hdr'"
    using set_pivot_stored [OF that(2)] n sp(1) [OF that(1)] by (simp add: min_lowered_def)
  have room: "ok \<and> index.stored (bt_page_size cfg) hdr 0 ?x hdr'" if "index_room hdr 0 ?x"
    using set_index_entry_effect [OF wf _ x that] r unfolding e by auto
  show ?thesis
  proof (cases "index_room hdr 0 ?x")
    case True
    then show ?thesis using r room [OF True] st by auto
  next
    case False
    have small: "\<not> table_end (btree_num_entries hdr) + (23 + key_length k) \<le> unat (next_entry hdr)"
      using False n by (simp add: index_room_def pivot_size_eq)
    have "index.stored (bt_page_size cfg) hdr 0 ?x hdr'" if ok
    proof -
      have "unat (next_entry hdr) = slot_off hdr 0 \<and> table_end (btree_num_entries hdr) + pivot_size ?x \<le>
          unat (next_entry hdr) + pivot_size (node_pivots hdr ! 0)"
        using r False n that unfolding e
        by (auto simp: btree_set_index_entry_def Let_def index_room_def pivot_size_eq req index_entry_reads
            nth_node_pivots get_index_entry_off split: if_splits)
      then show ?thesis using set_index_entry_lowest [OF wf n x] r unfolding e by auto
    qed
    then show ?thesis using r st sp(2) small by auto
  qed
qed

section \<open>The nodes of a split\<close>

text \<open>There is room for a new smallest key and one more pivot.\<close>

definition roomy :: "btree_config \<Rightarrow> btree_hdr \<Rightarrow> bool" where
  "roomy cfg hdr \<longleftrightarrow> table_end (btree_num_entries hdr + 1) + 2 * (23 + safe_key_size cfg) \<le> unat (next_entry hdr)"

lemma roomy_takes: "roomy cfg hdr \<Longrightarrow> takes_pivot (safe_key_size cfg) hdr"
  by (simp add: roomy_def takes_pivot_def sizeof_index_entry_struct_def sizeof_ondisk_key_def)

lemma roomy_lowered:
  assumes "roomy cfg hdr" and "min_lowered cfg k hdr hdr'" and "key_length k \<le> safe_key_size cfg"
  shows "takes_pivot (safe_key_size cfg) hdr'"
proof -
  have "btree_num_entries hdr' = btree_num_entries hdr"
    using assms(2) num_pivots [of hdr'] by (simp add: min_lowered_def)
  then show ?thesis
    using assms by (simp add: roomy_def takes_pivot_def min_lowered_def sizeof_index_entry_struct_def sizeof_ondisk_key_def)
qed

lemma compact_roomy:
  assumes "index_compact cfg hdr"
    and "table_end (btree_num_entries hdr + 1) + 2 * (23 + safe_key_size cfg) + index.used_by (node_pivots hdr) \<le> bt_page_size cfg"
  shows "roomy cfg hdr"
  using assms by (simp add: roomy_def index.compact_def node_pivots_def)

lemma choose_split_place:
  assumes "0 < btree_num_entries hdr"
  defines "idx \<equiv> btree_choose_index_split hdr" and "tot \<equiv> index.used_by (node_pivots hdr)"
  shows "tot div 2 \<le> index.used_by (take idx (node_pivots hdr))" and "idx \<le> btree_num_entries hdr"
    and "j < idx \<Longrightarrow> index.used_by (take j (node_pivots hdr)) < tot div 2"
proof -
  have d: "idx = choose_split_loop hdr tot 0 0"
    by (simp add: idx_def tot_def btree_choose_index_split_def index_entry_bytes_used)
  have "take (btree_num_entries hdr) (node_pivots hdr) = node_pivots hdr" by simp
  then have m: "tot div 2 \<le> index.used_by (take (btree_num_entries hdr) (node_pivots hdr))" by (simp add: tot_def)
  have z: "0 = index.used_by (take 0 (node_pivots hdr))" by simp
  note c = choose_split_loop_result [OF z le0 order.refl m, folded d]
  show "tot div 2 \<le> index.used_by (take idx (node_pivots hdr))" "idx \<le> btree_num_entries hdr"
    and "j < idx \<Longrightarrow> index.used_by (take j (node_pivots hdr)) < tot div 2"
    using c by simp_all
qed

lemma used_take_Suc:
  assumes "\<forall>x \<in> set ps. key_length (fst x) \<le> M" and "0 < i" and "i \<le> length ps"
  shows "index.used_by (take i ps) \<le> index.used_by (take (i - 1) ps) + (23 + M)"
proof -
  obtain j where i: "i = Suc j" using assms(2) by (cases i) simp_all
  have "pivot_size (ps ! j) \<le> 23 + M" using assms(1,3) i by (simp add: pivot_size_eq)
  then show ?thesis using assms(3) i by (simp add: take_Suc_conv_app_nth)
qed

text \<open>The sizes of the halves, for keys of at most \<open>safe_key_size\<close>.\<close>

lemma split_sizes:
  assumes wf: "index_wf cfg hdr" and keys: "\<forall>x \<in> set (node_pivots hdr). key_length (fst x) \<le> safe_key_size cfg"
    and i: "0 < btree_choose_index_split hdr" "btree_choose_index_split hdr < btree_num_entries hdr"
  defines "idx \<equiv> btree_choose_index_split hdr" and "P \<equiv> bt_page_size cfg"
  shows "2 * index.used_by (take idx (node_pivots hdr)) + 37 + 2 * btree_num_entries hdr \<le> P + 2 * (23 + safe_key_size cfg)"
    and "2 * index.used_by (drop idx (node_pivots hdr)) + 36 + 2 * btree_num_entries hdr \<le> P"
    and "48 * idx \<le> P + 7" and "25 * btree_num_entries hdr \<le> P"
proof -
  let ?ps = "node_pivots hdr" and ?n = "btree_num_entries hdr"
  let ?tot = "index.used_by ?ps"
  have n: "0 < ?n" using i by simp
  note c = choose_split_place [OF n, folded idx_def]
  have p: "37 + ?tot + 2 * ?n \<le> P" using index_packed [OF wf] by (simp add: P_def)
  obtain q where q: "q = ?tot div 2" by simp
  have half: "2 * q \<le> ?tot" "?tot \<le> 2 * q + 1" unfolding q by simp_all
  obtain b where b: "b = index.used_by (take (idx - 1) ?ps)" by simp
  have l: "b < q" unfolding b q using c(3) [of "idx - 1"] i(1) by (simp add: idx_def)
  have "index.used_by (take idx ?ps) \<le> b + (23 + safe_key_size cfg)"
    unfolding b by (rule used_take_Suc [OF keys]) (use i c(2) in \<open>simp_all add: idx_def\<close>)
  then show "2 * index.used_by (take idx ?ps) + 37 + 2 * ?n \<le> P + 2 * (23 + safe_key_size cfg)" using l p half(1) by simp
  have "index.used_by (take idx ?ps) + index.used_by (drop idx ?ps) = ?tot"
    by (metis append_take_drop_id index.used_by_simps(3))
  then show "2 * index.used_by (drop idx ?ps) + 36 + 2 * ?n \<le> P" using c(1) [folded q] p half by linarith
  have "23 * length (take (idx - 1) ?ps) \<le> b" unfolding b by (rule used_by_length)
  then have "23 * (idx - 1) \<le> b" using c(2) by simp
  then show "48 * idx \<le> P + 7" using l p half i unfolding idx_def [symmetric] by linarith
  have "23 * length ?ps \<le> ?tot" by (rule used_by_length)
  then show "25 * ?n \<le> P" using p by simp
qed

lemma split_rooms:
  assumes wf: "index_wf cfg (fam_child f)" and P: "1024 \<le> bt_page_size cfg"
    and keys: "\<forall>x \<in> set (node_pivots (fam_child f)). key_length (fst x) \<le> safe_key_size cfg"
    and split: "index_was_split cfg k right f (btree_choose_index_split (fam_child f)) f'"
  shows "roomy cfg (fam_child f')" and "roomy cfg (fam_right f')"
proof -
  let ?c = "fam_child f" and ?i = "btree_choose_index_split (fam_child f)"
  note d = split [unfolded index_was_split_def Let_def]
  have i: "0 < ?i" "?i < btree_num_entries ?c" using d by simp_all
  note s = split_sizes [OF wf keys i] and k = safe_key_size [OF P]
  have n: "btree_num_entries (fam_child f') = ?i" "btree_num_entries (fam_right f') = btree_num_entries ?c - ?i"
    using num_pivots [of "fam_child f'"] num_pivots [of "fam_right f'"] d i by auto
  show "roomy cfg (fam_right f')"
    by (rule compact_roomy) (use d n s(2,4) k i P in \<open>simp_all add: table_end_eq\<close>)
  have t: "table_end (?i + 1) + 2 * (23 + safe_key_size cfg) \<le> bt_page_size cfg div 4"
    using k s(3) P by (simp add: table_end_eq)
  from d have "index_compact cfg (fam_child f') \<or> bt_page_size cfg div 4 \<le> unat (next_entry (fam_child f'))" by blast
  then show "roomy cfg (fam_child f')"
  proof
    assume c: "index_compact cfg (fam_child f')"
    show ?thesis by (rule compact_roomy [OF c]) (use d n s(1) t k P in \<open>simp add: table_end_eq\<close>)
  next
    assume "bt_page_size cfg div 4 \<le> unat (next_entry (fam_child f'))"
    then show ?thesis using t n by (simp add: roomy_def)
  qed
qed

text \<open>And a child that was defragmented.\<close>

lemma defragmented_roomy:
  assumes c: "index_compact cfg c'" and same: "node_pivots c' = node_pivots c" and P: "1024 \<le> bt_page_size cfg"
    and small: "index_entry_bytes c + btree_num_entries c * sizeof_index_entry_struct < BTREE_SPLIT_THRESHOLD (bt_page_size cfg)"
  shows "roomy cfg c'"
proof -
  have "btree_num_entries c' = btree_num_entries c" using num_pivots [OF same] by simp
  then show ?thesis
    using small safe_key_size [OF P] P
    by (intro compact_roomy [OF c]) (simp add: index_entry_bytes_used same BTREE_SPLIT_THRESHOLD_def table_end_eq
        sizeof_index_entry_struct_def sizeof_ondisk_key_def)
qed

end
