(* ===== verification/BtPivotProofs.thy ===== *)
theory BtPivotProofs
  imports BtIndexProofs
begin

unbundle bit_operations_syntax

text \<open>
  The counters in the low byte of the children's addresses: they do not touch the pivots, count
  up to 127 and are reset together.
\<close>

section \<open>The counter byte and the pivots\<close>

lemma low_byte_masked:
  assumes "\<And>i. 0 < i \<Longrightarrow> i < 8 \<Longrightarrow> m' (p + i) = m (p + i)"
  shows "get64 m' p AND NOT 0xFFF = (get64 m p AND NOT 0xFFF :: u64)"
proof (rule bit_word_eqI)
  fix k assume k: "k < LENGTH(64)"
  have h: "bit (NOT 0xFFF :: u64) k \<longleftrightarrow> 12 \<le> k"
  proof -
    have eq: "(NOT 0xFFF :: u64) = NOT (mask 12)" by (simp add: mask_eq_exp_minus_1)
    show ?thesis unfolding eq using k by (auto simp: bit_not_iff bit_mask_iff simp del: bit_minus_iff)
  qed
  show "bit (get64 m' p AND NOT 0xFFF) k = bit (get64 m p AND NOT (0xFFF :: u64)) k"
  proof (cases "12 \<le> k")
    case True
    have "k div 8 < 8" using k by simp
    moreover have "0 < k div 8" using True by (simp add: div_greater_zero_iff)
    ultimately show ?thesis
      using assms [of "k div 8"] by (simp add: bit_and_iff get64_def bit_of_le get_bytes_def)
  qed (simp only: bit_and_iff h simp_thms)
qed

lemma store_meta_pivot:
  assumes d: "q = p \<or> p < q \<or> q + index_size m q \<le> p"
  shows "pivot_at (put_bytes m p [v]) q = pivot_at m q"
proof -
  have o: "put_bytes m p [v] i = m i" if "q < i \<or> (q = i \<and> q \<noteq> p)" "i < q + 23 + sizeof_ondisk_key_data m (q + 20)" for i
    using that d by (intro put_bytes_other) (auto simp: index_size_def sizeof_index_entry_struct_def sizeof_ondisk_key_def)
  have "ondisk_key_to_key (put_bytes m p [v]) (q + 20) = ondisk_key_to_key m (q + 20)"
    by (rule key_cong) (simp add: o)
  moreover have "get64 (put_bytes m p [v]) q AND NOT 0xFFF = get64 m q AND NOT 0xFFF"
    by (rule low_byte_masked) (simp add: o)
  moreover have "get32 (put_bytes m p [v]) (q + 8) = get32 m (q + 8)" "get32 (put_bytes m p [v]) (q + 12) = get32 m (q + 12)"
    "get32 (put_bytes m p [v]) (q + 16) = get32 m (q + 16)"
    by (rule get_words_cong; simp add: o)+
  ultimately show ?thesis by (simp add: pivot_at_def)
qed

text \<open>What a change of a counter keeps of a node.\<close>

definition same_pivots :: "btree_config \<Rightarrow> btree_hdr \<Rightarrow> btree_hdr \<Rightarrow> bool" where
  "same_pivots cfg hdr hdr' \<longleftrightarrow> index_wf cfg hdr' \<and> node_pivots hdr' = node_pivots hdr \<and>
     num_entries hdr' = num_entries hdr \<and> next_entry hdr' = next_entry hdr \<and> offsets hdr' = offsets hdr \<and>
     hdr_links hdr' = hdr_links hdr"

lemma same_pivots_refl: "index_wf cfg hdr \<Longrightarrow> same_pivots cfg hdr hdr"
  by (simp add: same_pivots_def)

lemma same_pivots_trans: "same_pivots cfg a b \<Longrightarrow> same_pivots cfg b c \<Longrightarrow> same_pivots cfg a c"
  by (simp add: same_pivots_def)

lemma store_meta_same:
  assumes wf: "index_wf cfg hdr" and j: "j < btree_num_entries hdr"
  shows "same_pivots cfg hdr (store_meta hdr (btree_get_index_entry hdr j) v)"
proof -
  let ?h = "store_meta hdr (btree_get_index_entry hdr j) v"
  note w = page_wfD [OF wf [unfolded index_wf_def]]
  have f: "btree_num_entries ?h = btree_num_entries hdr" "slot_off ?h i = slot_off hdr i" "next_entry ?h = next_entry hdr" for i
    by (simp_all add: store_meta_def btree_num_entries_def slot_off_def)
  have pv: "pivot_at (node_bytes ?h) (slot_off hdr i) = pivot_at (node_bytes hdr) (slot_off hdr i)" if "i < btree_num_entries hdr" for i
  proof -
    have "slot_off hdr i = slot_off hdr j \<or> slot_off hdr j < slot_off hdr i \<or>
        slot_off hdr i + index_size (node_bytes hdr) (slot_off hdr i) \<le> slot_off hdr j"
      using w(6) [OF that j] index.need_pos [of "pivot_at (node_bytes hdr) (slot_off hdr j)"]
      by (cases "i = j") (auto simp: index.esize_need)
    then show ?thesis
      by (simp add: store_meta_def get_index_entry_off store_meta_pivot)
  qed
  have "index_wf cfg ?h" using w by (auto simp: index_wf_def page_wf_def f index.esize_need pv)
  moreover have "node_pivots ?h = node_pivots hdr"
    unfolding node_pivots_def slots_def f using pv by (intro map_cong) simp_all
  ultimately show ?thesis by (simp add: same_pivots_def store_meta_def hdr_links_def)
qed

lemma meta_ops_same:
  assumes "index_wf cfg hdr" and "j < btree_num_entries hdr" and "p = btree_get_index_entry hdr j"
  shows "same_pivots cfg hdr (btree_pivot_meta_mark_special hdr p)"
    and "same_pivots cfg hdr (btree_pivot_meta_clear_special hdr p)"
    and "same_pivots cfg hdr (btree_pivot_meta_set_count hdr p c)"
    and "same_pivots cfg hdr (pivot_cnt_inc_relaxed hdr p)"
  using store_meta_same [OF assms(1,2)] same_pivots_refl [OF assms(1)] assms(3)
  by (simp_all add: btree_pivot_meta_mark_special_def btree_pivot_meta_clear_special_def
      btree_pivot_meta_set_count_def pivot_cnt_inc_relaxed_def btree_pivot_meta_cnt7_inc_atomic_def Let_def)

lemma same_pivotsD:
  assumes "same_pivots cfg hdr hdr'"
  shows "index_wf cfg hdr'" and "btree_num_entries hdr' = btree_num_entries hdr"
    and "btree_get_index_entry hdr' j = btree_get_index_entry hdr j"
  using assms by (simp_all add: same_pivots_def btree_num_entries_def btree_get_index_entry_def)

section \<open>The counter\<close>

lemma store_meta_load [simp]: "btree_pivot_meta_load (store_meta hdr p v) p = v"
  by (simp add: btree_pivot_meta_load_def store_meta_def)

text \<open>SPECIAL is bit 7, the count the lower seven.\<close>

lemma special_bit: "pivot_is_special hdr p \<longleftrightarrow> bit (btree_pivot_meta_load hdr p) 7"
proof -
  have s: "PIVOT_META_SPECIAL = 2 ^ 7" by (simp add: PIVOT_META_SPECIAL_def)
  show ?thesis unfolding pivot_is_special_def s by (simp only: and_exp_eq_0_iff_not_bit not_not)
qed

lemma count_bits: "btree_pivot_meta_cnt7 hdr p = take_bit 7 (btree_pivot_meta_load hdr p)"
  by (simp add: btree_pivot_meta_cnt7_def PIVOT_META_CNT_MASK_def take_bit_eq_mask mask_eq_exp_minus_1)

lemma small_count:
  assumes "c \<le> 127"
  shows "take_bit 7 c = (c :: u8)" and "\<not> bit c 7"
proof -
  have c: "unat c < 2 ^ 7" using assms by (simp add: word_le_nat_alt)
  then have "unat (take_bit 7 c) = unat c" by (simp only: unsigned_take_bit_eq take_bit_nat_eq_self)
  then show t: "take_bit 7 c = c" by (simp only: word_unat_eq_iff)
  show "\<not> bit c 7" by (subst t [symmetric]) (simp only: bit_take_bit_iff less_irrefl simp_thms)
qed

lemma count_le: "btree_pivot_meta_cnt7 hdr p \<le> 127"
  by (simp add: btree_pivot_meta_cnt7_def PIVOT_META_CNT_MASK_def word_and_le1)

text \<open>Counting one visit: SPECIAL pivots do not count, the count stops at 127.\<close>

lemma count_visit:
  shows "pivot_is_special (pivot_cnt_inc_relaxed hdr p) p = pivot_is_special hdr p"
    and "btree_pivot_meta_cnt7 (pivot_cnt_inc_relaxed hdr p) p =
      (if pivot_is_special hdr p then btree_pivot_meta_cnt7 hdr p
       else if btree_pivot_meta_cnt7 hdr p = 127 then 127 else btree_pivot_meta_cnt7 hdr p + 1)"
proof -
  let ?b = "btree_pivot_meta_load hdr p" and ?c = "btree_pivot_meta_cnt7 hdr p"
  have r: "pivot_cnt_inc_relaxed hdr p =
      (if pivot_is_special hdr p \<or> 127 \<le> ?c then hdr else store_meta hdr p (?c + 1))"
    by (auto simp: pivot_cnt_inc_relaxed_def btree_pivot_meta_cnt7_inc_atomic_def Let_def pivot_is_special_def
        btree_pivot_meta_cnt7_def PIVOT_META_CNT_MASK_def)
  have eq: "127 \<le> ?c \<longleftrightarrow> ?c = 127" using count_le [of hdr p] by (auto intro: antisym)
  show "pivot_is_special (pivot_cnt_inc_relaxed hdr p) p = pivot_is_special hdr p"
    and "btree_pivot_meta_cnt7 (pivot_cnt_inc_relaxed hdr p) p =
      (if pivot_is_special hdr p then ?c else if ?c = 127 then 127 else ?c + 1)"
  proof (atomize (full), cases "pivot_is_special hdr p \<or> ?c = 127")
    case True
    then show "pivot_is_special (pivot_cnt_inc_relaxed hdr p) p = pivot_is_special hdr p \<and>
      btree_pivot_meta_cnt7 (pivot_cnt_inc_relaxed hdr p) p =
        (if pivot_is_special hdr p then ?c else if ?c = 127 then 127 else ?c + 1)"
      unfolding r eq by auto
  next
    case False
    then have lt: "unat ?c < 127" using eq by (simp add: word_le_nat_alt not_le)
    then have "unat (?c + 1) = unat ?c + 1" by (simp add: unat_word_ariths)
    then have "?c + 1 \<le> 127" using lt by (simp add: word_le_nat_alt)
    note s = small_count [OF this]
    have "pivot_cnt_inc_relaxed hdr p = store_meta hdr p (?c + 1)" unfolding r eq using False by simp
    then show "pivot_is_special (pivot_cnt_inc_relaxed hdr p) p = pivot_is_special hdr p \<and>
      btree_pivot_meta_cnt7 (pivot_cnt_inc_relaxed hdr p) p =
        (if pivot_is_special hdr p then ?c else if ?c = 127 then 127 else ?c + 1)"
      using False s by (metis count_bits special_bit store_meta_load)
  qed
qed

lemma set_count_bits:
  shows "pivot_is_special (btree_pivot_meta_set_count hdr p c) p = pivot_is_special hdr p"
    and "btree_pivot_meta_cnt7 (btree_pivot_meta_set_count hdr p c) p = (if 127 < c then 127 else c)"
proof -
  let ?b = "btree_pivot_meta_load hdr p" and ?c = "if 127 < c then 127 else c"
  have c: "?c \<le> 127" by (simp add: linorder_not_less)
  have r: "btree_pivot_meta_set_count hdr p c = store_meta hdr p ((?b AND PIVOT_META_SPECIAL) OR ?c)"
    by (simp add: btree_pivot_meta_set_count_def Let_def PIVOT_META_CNT_MASK_def)
  have sp: "PIVOT_META_SPECIAL = 2 ^ 7" by (simp add: PIVOT_META_SPECIAL_def)
  have b7: "bit (?b AND PIVOT_META_SPECIAL) k \<longleftrightarrow> bit ?b 7 \<and> k = 7" for k
    unfolding sp by (simp only: bit_and_iff bit_exp_iff possible_bit_word, auto)
  show "pivot_is_special (btree_pivot_meta_set_count hdr p c) p = pivot_is_special hdr p"
    unfolding r special_bit store_meta_load bit_or_iff b7 using small_count(2) [OF c] by (simp only: simp_thms)
  have "take_bit 7 (?b AND PIVOT_META_SPECIAL) = 0"
    by (rule bit_word_eqI) (simp only: bit_take_bit_iff b7, auto)
  then show "btree_pivot_meta_cnt7 (btree_pivot_meta_set_count hdr p c) p = ?c"
    unfolding r count_bits store_meta_load take_bit_or using small_count(1) [OF c] by (simp only: or.left_neutral)
qed

section \<open>The decision\<close>

lemma compensate_same:
  assumes "index_wf cfg hdr" and "j < btree_num_entries hdr" and "p = btree_get_index_entry hdr j"
    and "compensate_hits A ei elapsed hdr p hits = (h, hdr')"
  shows "same_pivots cfg hdr hdr'"
  using assms(4) meta_ops_same(3) [OF assms(1-3)] same_pivots_refl [OF assms(1)]
  by (auto simp: compensate_hits_def Let_def split: if_splits)

lemma reset_counts_same:
  assumes "index_wf cfg hdr" and "\<forall>j \<in> set js. j < btree_num_entries hdr"
  shows "same_pivots cfg hdr (fold (\<lambda>j h. btree_pivot_meta_set_count h (btree_get_index_entry h j) 0) js hdr)"
  using assms
proof (induction js arbitrary: hdr)
  case (Cons j js)
  let ?h = "btree_pivot_meta_set_count hdr (btree_get_index_entry hdr j) 0"
  have s: "same_pivots cfg hdr ?h" using Cons.prems by (intro meta_ops_same(3)) auto
  then show ?case
    using Cons.IH [of ?h] Cons.prems same_pivotsD [OF s] by (auto intro: same_pivots_trans)
qed (simp add: same_pivots_refl)

text \<open>Two entries start at different bytes.\<close>

lemma entries_apart:
  assumes wf: "index_wf cfg hdr" and "i < btree_num_entries hdr" "j < btree_num_entries hdr" "i \<noteq> j"
  shows "btree_get_index_entry hdr i \<noteq> btree_get_index_entry hdr j"
  using page_wfD(6) [OF wf [unfolded index_wf_def] assms(2-4)]
    index.need_pos [of "pivot_at (node_bytes hdr) (slot_off hdr i)"] index.need_pos [of "pivot_at (node_bytes hdr) (slot_off hdr j)"]
  by (auto simp: index.esize_need get_index_entry_off)

lemma reset_counts_zero:
  assumes "index_wf cfg hdr" and "\<forall>j \<in> set js. j < btree_num_entries hdr" and "i < btree_num_entries hdr"
    and "i \<in> set js \<or> btree_pivot_meta_cnt7 hdr (btree_get_index_entry hdr i) = 0"
  shows "btree_pivot_meta_cnt7 (fold (\<lambda>j h. btree_pivot_meta_set_count h (btree_get_index_entry h j) 0) js hdr)
    (btree_get_index_entry hdr i) = 0"
  using assms
proof (induction js arbitrary: hdr)
  case (Cons j js)
  let ?h = "btree_pivot_meta_set_count hdr (btree_get_index_entry hdr j) 0"
  have s: "same_pivots cfg hdr ?h" using Cons.prems by (intro meta_ops_same(3)) auto
  note d = same_pivotsD [OF s]
  have "btree_pivot_meta_cnt7 ?h (btree_get_index_entry hdr i) = 0" if "i \<notin> set js"
  proof (cases "i = j")
    case True
    then show ?thesis using set_count_bits(2) [of hdr "btree_get_index_entry hdr j" 0] by simp
  next
    case False
    then have "btree_get_index_entry hdr i \<noteq> btree_get_index_entry hdr j"
      using entries_apart Cons.prems(1-3) by auto
    then show ?thesis
      using Cons.prems(4) that False by (auto simp: btree_pivot_meta_cnt7_def btree_pivot_meta_load_def
          btree_pivot_meta_set_count_def Let_def store_meta_def put_bytes_def)
  qed
  then show ?case using Cons.IH [of ?h] Cons.prems d by auto
qed simp

lemma update_same:
  assumes wf: "index_wf cfg hdr" and j: "j < btree_num_entries hdr" and p: "p = btree_get_index_entry hdr j"
    and r: "btree_update_pivot_cnt_and_is_warm A ei now now2 hdr entry_time p = (warm, hdr', entry_time')"
  shows "same_pivots cfg hdr hdr'"
proof -
  define h1 where "h1 = (if pivot_is_special hdr p then btree_pivot_meta_clear_special hdr p else hdr)"
  have s1: "same_pivots cfg hdr h1" using meta_ops_same(2) [OF wf j p] same_pivots_refl [OF wf] by (simp add: h1_def)
  note d1 = same_pivotsD [OF s1]
  obtain hits h2 where c: "(if pivot_is_special hdr p \<and> ei > 0 \<and> mult_positive A
      then compensate_hits A ei (now - entry_time) h1 p (pivot_hits_u64 h1 p) else (pivot_hits_u64 h1 p, h1)) = (hits, h2)"
    by fastforce
  have "same_pivots cfg h1 h2"
    using c compensate_same [OF d1(1) _ _, of j p] d1 j p same_pivots_refl [OF d1(1)] by (auto split: if_splits)
  then have s2: "same_pivots cfg hdr h2" by (rule same_pivots_trans [OF s1])
  note d2 = same_pivotsD [OF s2]
  have "hdr' \<in> {btree_pivot_meta_mark_special h1 p, h1, pivot_cnt_inc_relaxed h2 p, h2, btree_pivot_meta_mark_special h2 p,
      fold (\<lambda>j h. btree_pivot_meta_set_count h (btree_get_index_entry h j) 0) [0..<btree_num_entries h2] h2}"
    using r unfolding btree_update_pivot_cnt_and_is_warm_def Let_def h1_def [symmetric] c prod.case
    by (auto split: if_splits)
  moreover have "same_pivots cfg hdr (btree_pivot_meta_mark_special h1 p)"
    using meta_ops_same(1) [OF d1(1), of j p] d1 j p same_pivots_trans [OF s1] by simp
  moreover have "same_pivots cfg hdr (pivot_cnt_inc_relaxed h2 p)" "same_pivots cfg hdr (btree_pivot_meta_mark_special h2 p)"
    using meta_ops_same(1,4) [OF d2(1), of j p] d2 j p same_pivots_trans [OF s2] by simp_all
  moreover have "same_pivots cfg hdr (fold (\<lambda>j h. btree_pivot_meta_set_count h (btree_get_index_entry h j) 0) [0..<btree_num_entries h2] h2)"
    using same_pivots_trans [OF s2 reset_counts_same [OF d2(1), of "[0..<btree_num_entries h2]"]] by simp
  ultimately show ?thesis using s1 s2 by blast
qed

end
