(* ===== verification/BtShape.thy ===== *)
theory BtShape
  imports BtRoom BtPivotProofs
begin

text \<open>
  What a tree in the pages represents. A \<open>shape\<close> has the addresses of the nodes; \<open>subtree\<close> says that
  the pages at these addresses are the nodes of a tree whose keys are in an interval and whose
  pivots separate the children; \<open>linked\<close> that its leaves form a list. \<open>tree_tuples\<close> is the
  ordered association list that the tree stands for.
\<close>

section \<open>Shapes\<close>

datatype shape = Leaf_at u64 | Index_at u64 "shape list"

fun node_addr :: "shape \<Rightarrow> u64" where
  "node_addr (Leaf_at a) = a"
| "node_addr (Index_at a _) = a"

fun leaf_addrs :: "shape \<Rightarrow> u64 list" where
  "leaf_addrs (Leaf_at a) = [a]"
| "leaf_addrs (Index_at _ ts) = concat (map leaf_addrs ts)"

fun addrs :: "shape \<Rightarrow> u64 list" where
  "addrs (Leaf_at a) = [a]"
| "addrs (Index_at a ts) = a # concat (map addrs ts)"

fun tree_tuples :: "(u64 \<Rightarrow> btree_hdr) \<Rightarrow> shape \<Rightarrow> (key \<times> message) list" where
  "tree_tuples N (Leaf_at a) = leaf_tuples (N a)"
| "tree_tuples N (Index_at _ ts) = concat (map (tree_tuples N) ts)"

lemma leaf_addrs_subset: "set (leaf_addrs t) \<subseteq> set (addrs t)"
  by (induction t rule: leaf_addrs.induct) auto

lemma node_addr_in: "node_addr t \<in> set (addrs t)"
  by (cases t) simp_all

section \<open>Nodes\<close>

definition within :: "btree_config \<Rightarrow> key \<Rightarrow> key \<Rightarrow> key \<Rightarrow> bool" where
  "within cfg lo hi k \<longleftrightarrow> btree_key_compare cfg lo k \<le> 0 \<and> btree_key_compare cfg k hi < 0"

text \<open>
  The bounds of \<open>btree_insert\<close>, with keys that are safe in every split. A leaf without tuples is the
  only one of its tree and has all of its space free.
\<close>

definition tuple_small :: "btree_config \<Rightarrow> key \<times> message \<Rightarrow> bool" where
  "tuple_small cfg t \<longleftrightarrow> key_is_user_key (fst t) \<and> key_length (fst t) \<le> safe_key_size cfg \<and>
     message_length (snd t) \<le> MAX_INLINE_MESSAGE_SIZE (bt_page_size cfg)"

definition leaf_node :: "btree_config \<Rightarrow> btree_hdr \<Rightarrow> bool" where
  "leaf_node cfg hdr \<longleftrightarrow> height hdr = 0 \<and> leaf_wf cfg hdr \<and> leaf_sorted cfg hdr \<and>
     (\<forall>t \<in> set (leaf_tuples hdr). tuple_small cfg t) \<and>
     (leaf_tuples hdr = [] \<longrightarrow> compact cfg hdr \<and> prev_addr hdr = 0 \<and> next_addr hdr = 0)"

definition index_node :: "btree_config \<Rightarrow> nat \<Rightarrow> btree_hdr \<Rightarrow> bool" where
  "index_node cfg h hdr \<longleftrightarrow> unat (height hdr) = h \<and> 0 < h \<and> index_wf cfg hdr \<and>
     (\<forall>x \<in> set (node_pivots hdr). key_length (fst x) \<le> safe_key_size cfg)"

abbreviation pivot_keys :: "btree_hdr \<Rightarrow> key list" where "pivot_keys hdr \<equiv> map fst (node_pivots hdr)"
abbreviation child_addrs :: "btree_hdr \<Rightarrow> u64 list" where "child_addrs hdr \<equiv> map (\<lambda>x. fst (snd x)) (node_pivots hdr)"

definition next_key :: "key list \<Rightarrow> key \<Rightarrow> key" where
  "next_key ks hi = (case ks of [] \<Rightarrow> hi | k # _ \<Rightarrow> k)"

lemma next_key_simps [simp]: "next_key [] hi = hi" "next_key (k # ks) hi = k"
  "next_key (ks @ ls) hi = next_key ks (next_key ls hi)"
  by (simp_all add: next_key_def split: list.split)

section \<open>Trees in the pages\<close>

text \<open>\<open>segment\<close>: consecutive children, each from its pivot to the next one, the last one to \<open>hi\<close>.\<close>

fun subtree :: "btree_config \<Rightarrow> (u64 \<Rightarrow> btree_hdr) \<Rightarrow> nat \<Rightarrow> shape \<Rightarrow> key \<Rightarrow> key \<Rightarrow> bool"
  and segment :: "btree_config \<Rightarrow> (u64 \<Rightarrow> btree_hdr) \<Rightarrow> nat \<Rightarrow> key list \<Rightarrow> shape list \<Rightarrow> key \<Rightarrow> bool" where
  "subtree cfg N h (Leaf_at a) lo hi \<longleftrightarrow> h = 0 \<and> leaf_node cfg (N a) \<and> (\<forall>t \<in> set (leaf_tuples (N a)). within cfg lo hi (fst t))"
| "subtree cfg N h (Index_at a ts) lo hi \<longleftrightarrow> index_node cfg h (N a) \<and> ts \<noteq> [] \<and> child_addrs (N a) = map node_addr ts \<and>
     btree_key_compare cfg lo (next_key (pivot_keys (N a)) hi) \<le> 0 \<and> segment cfg N (h - 1) (pivot_keys (N a)) ts hi"
| "segment cfg N h (k # ks) (t # ts) hi \<longleftrightarrow> btree_key_compare cfg k (next_key ks hi) < 0 \<and>
     subtree cfg N h t k (next_key ks hi) \<and> segment cfg N h ks ts hi"
| "segment cfg N h [] [] hi = True"
| "segment cfg N h _ _ hi = False"

lemma segment_append:
  "length ks = length ts \<Longrightarrow> segment cfg N h (ks @ ls) (ts @ us) hi \<longleftrightarrow>
     segment cfg N h ks ts (next_key ls hi) \<and> segment cfg N h ls us hi"
  by (induction ks ts rule: list_induct2) auto

lemma segment_length: "segment cfg N h ks ts hi \<Longrightarrow> length ks = length ts"
  by (induction ks arbitrary: ts) (case_tac ts; auto)+

text \<open>The list of the leaves, between \<open>p\<close> and \<open>n\<close>.\<close>

fun linked :: "(u64 \<Rightarrow> btree_hdr) \<Rightarrow> u64 \<Rightarrow> u64 list \<Rightarrow> u64 \<Rightarrow> bool" where
  "linked N p [] n = True"
| "linked N p (a # as) n \<longleftrightarrow> prev_addr (N a) = p \<and> next_addr (N a) = (case as of [] \<Rightarrow> n | b # _ \<Rightarrow> b) \<and> linked N a as n"

definition next_leaf :: "u64 list \<Rightarrow> u64 \<Rightarrow> u64" where
  "next_leaf as n = (case as of [] \<Rightarrow> n | b # _ \<Rightarrow> b)"

definition last_leaf :: "u64 \<Rightarrow> u64 list \<Rightarrow> u64" where
  "last_leaf p as = (if as = [] then p else last as)"

lemma linked_append: "linked N p (as @ bs) n \<longleftrightarrow> linked N p as (next_leaf bs n) \<and> linked N (last_leaf p as) bs n"
proof (induction as arbitrary: p)
  case (Cons a as)
  show ?case unfolding append_Cons linked.simps Cons.IH by (auto simp: next_leaf_def last_leaf_def split: list.splits)
qed (simp add: last_leaf_def)

text \<open>A tree: the whole of its keys, its leaves from end to end, no page twice.\<close>

definition btree_at :: "btree_config \<Rightarrow> (u64 \<Rightarrow> btree_hdr) \<Rightarrow> u64 \<Rightarrow> shape \<Rightarrow> bool" where
  "btree_at cfg N root t \<longleftrightarrow> node_addr t = root \<and> distinct (addrs t) \<and> 0 \<notin> set (addrs t) \<and>
     subtree cfg N (unat (height (N root))) t NEGATIVE_INFINITY_KEY POSITIVE_INFINITY_KEY \<and> linked N 0 (leaf_addrs t) 0"

section \<open>Changes elsewhere\<close>

text \<open>
  Two pages that are the same node to a search: leaves with the same tuples, index nodes with the
  same pivots. The address of the leaf before and the counters of the pivots may differ.
\<close>

definition same_content :: "btree_config \<Rightarrow> btree_hdr \<Rightarrow> btree_hdr \<Rightarrow> bool" where
  "same_content cfg hdr hdr' \<longleftrightarrow>
     (leaf_node cfg hdr \<longrightarrow> leaf_node cfg hdr' \<and> leaf_tuples hdr' = leaf_tuples hdr) \<and>
     (\<forall>h. index_node cfg h hdr \<longrightarrow> index_node cfg h hdr' \<and> node_pivots hdr' = node_pivots hdr)"

lemma same_content_refl [simp, intro]: "same_content cfg hdr hdr"
  by (simp add: same_content_def)

lemma same_content_trans: "same_content cfg a b \<Longrightarrow> same_content cfg b c \<Longrightarrow> same_content cfg a c"
  by (auto simp: same_content_def)

lemma same_content_links [intro]: "prev_addr hdr \<noteq> 0 \<Longrightarrow> same_content cfg hdr (hdr\<lparr>prev_addr := a\<rparr>)"
proof -
  assume p: "prev_addr hdr \<noteq> 0"
  let ?h = "hdr\<lparr>prev_addr := a\<rparr>"
  have l: "leaf_tuples ?h = leaf_tuples hdr" "leaf_wf cfg ?h = leaf_wf cfg hdr" "node_pivots ?h = node_pivots hdr"
    "compact cfg ?h = compact cfg hdr" "index_wf cfg ?h = index_wf cfg hdr"
    using page_fields [of ?h hdr] page_fields(2) [of ?h hdr tuple_at] page_fields(2) [of ?h hdr pivot_at]
    by (simp_all add: leaf_tuples_slots leaf_wf_def index_wf_def node_pivots_def leaf.compact_def)
  then show ?thesis using p by (simp add: same_content_def leaf_node_def index_node_def leaf_sorted_def)
qed

lemma same_content_pivots: "same_pivots cfg hdr hdr' \<Longrightarrow> 0 < height hdr \<Longrightarrow> same_content cfg hdr hdr'"
  by (auto simp: same_content_def same_pivots_def leaf_node_def index_node_def hdr_links_def)

lemma subtree_same:
  "(\<And>a. a \<in> set (addrs t) \<Longrightarrow> same_content cfg (N a) (N' a)) \<Longrightarrow> subtree cfg N h t lo hi \<Longrightarrow>
     subtree cfg N' h t lo hi \<and> tree_tuples N' t = tree_tuples N t"
  "(\<And>a t. t \<in> set ts \<Longrightarrow> a \<in> set (addrs t) \<Longrightarrow> same_content cfg (N a) (N' a)) \<Longrightarrow> segment cfg N h ks ts hi \<Longrightarrow>
     segment cfg N' h ks ts hi \<and> map (tree_tuples N') ts = map (tree_tuples N) ts"
proof (induction cfg N h t lo hi and cfg N h ks ts hi rule: subtree_segment.induct)
  case (1 cfg N h a lo hi)
  then have "same_content cfg (N a) (N' a)" by simp
  then show ?case using 1 by (simp add: same_content_def)
next
  case (2 cfg N h a ts lo hi)
  have s: "same_content cfg (N a) (N' a)" using 2 by simp
  have "segment cfg N' (h - 1) (pivot_keys (N a)) ts hi \<and> map (tree_tuples N') ts = map (tree_tuples N) ts" using 2 by auto
  then show ?case using 2 s by (auto simp: same_content_def simp del: map_eq_conv)
qed auto

lemma linked_same:
  "(\<And>a. a \<in> set as \<Longrightarrow> prev_addr (N' a) = prev_addr (N a) \<and> next_addr (N' a) = next_addr (N a)) \<Longrightarrow>
   linked N' p as n = linked N p as n"
  by (induction as arbitrary: p) (auto split: list.splits)

text \<open>
  Searching a tree: the keys of a subtree are in order and in its interval, the child that a
  search follows is the one whose interval has the key, and a lookup finds what the ordered
  list has. A lookup changes counters of pivots only.
\<close>

section \<open>Order\<close>

lemmas lex_less_trans = total_compare.cmp_less_trans [OF lexical_compare]
lemmas lex_le_less_trans = total_compare.cmp_le_less_trans [OF lexical_compare]
lemmas lex_trans = total_compare.cmp_trans [OF lexical_compare]
lemmas lex_swap = total_compare.cmp_swap [OF lexical_compare]
lemmas lex_self = total_compare.cmp_self [OF lexical_compare]

text \<open>All keys in the pages are short.\<close>

lemma tuples_short: "x \<in> set (tree_tuples N t) \<Longrightarrow> key_short (fst x)"
proof (induction t rule: addrs.induct)
  case (1 a)
  then show ?case using leaf_keys_short [of "fst x" "N a"] by auto
qed auto

lemma pivots_short: "\<forall>k \<in> set (pivot_keys hdr). key_short k"
  using pivot_keys_short by blast

lemma infinity_short [simp]: "key_short NEGATIVE_INFINITY_KEY" "key_short POSITIVE_INFINITY_KEY"
  by (simp_all add: key_short_def key_length_def key_is_user_key_def)

lemma next_key_short: "\<forall>k \<in> set ks. key_short k \<Longrightarrow> key_short hi \<Longrightarrow> key_short (next_key ks hi)"
  by (cases ks) simp_all

lemma segment_key_bounds:
  assumes lex: "lexical cfg"
  shows "segment cfg N h ks ts hi \<Longrightarrow> \<forall>k \<in> set ks. key_short k \<Longrightarrow> key_short hi \<Longrightarrow>
    keys_sorted cfg ks \<and> (\<forall>k \<in> set ks. btree_key_compare cfg k hi < 0 \<and> btree_key_compare cfg (next_key ks hi) k \<le> 0)"
proof (induction ks arbitrary: ts)
  case Nil
  then show ?case by (simp add: keys_sorted_def)
next
  case (Cons p ks)
  from Cons.prems(1) obtain t us where ts: "ts = t # us" by (cases ts) auto
  have IH: "keys_sorted cfg ks" "\<And>k. k \<in> set ks \<Longrightarrow> btree_key_compare cfg k hi < 0"
    "\<And>k. k \<in> set ks \<Longrightarrow> btree_key_compare cfg (next_key ks hi) k \<le> 0"
    using Cons.IH [of us] Cons.prems by (auto simp: ts)
  have p: "btree_key_compare cfg p (next_key ks hi) < 0" "key_short p" using Cons.prems by (simp_all add: ts)
  have s: "key_short (next_key ks hi)" using Cons.prems(2,3) by (intro next_key_short) simp_all
  have below: "btree_key_compare cfg p k < 0" if "k \<in> set ks" for k
    using lex_less_trans [OF lex p(2) s _ p(1) IH(3) [OF that]] Cons.prems(2) that by simp
  moreover have "btree_key_compare cfg p hi < 0"
  proof (cases ks)
    case (Cons q qs)
    then have "btree_key_compare cfg q hi \<le> 0" using IH(2) [of q] by simp
    then show ?thesis using lex_less_trans [OF lex p(2) s, of hi] p(1) Cons Cons.prems(3) by simp
  qed (use p in simp)
  ultimately show ?case using IH p(2) lex_self [OF lex, of p] by (auto simp: keys_sorted_def intro: less_imp_le)
qed

text \<open>Intervals with other bounds.\<close>

lemma within_hi:
  assumes "lexical cfg" and "within cfg lo m k" and "btree_key_compare cfg m hi \<le> 0" and "key_short k" "key_short m" "key_short hi"
  shows "within cfg lo hi k"
  using assms lex_less_trans [OF assms(1), of k m hi] by (simp add: within_def)

lemma within_lo:
  assumes "lexical cfg" and "within cfg m hi k" and "btree_key_compare cfg lo m \<le> 0" and "key_short k" "key_short m" "key_short lo"
  shows "within cfg lo hi k"
  using assms lex_trans [OF assms(1), of lo m k] by (simp add: within_def)

lemma within_sorted:
  assumes "lexical cfg" and "within cfg lo m x" and "within cfg m hi y" and "key_short x" "key_short y" "key_short m"
  shows "btree_key_compare cfg x y < 0"
  using assms lex_less_trans [OF assms(1), of x m y] by (simp add: within_def)

definition sorted_within :: "btree_config \<Rightarrow> key \<Rightarrow> key \<Rightarrow> (key \<times> message) list \<Rightarrow> bool" where
  "sorted_within cfg lo hi ts \<longleftrightarrow> keys_sorted cfg (map fst ts) \<and> (\<forall>x \<in> set ts. key_short (fst x) \<and> within cfg lo hi (fst x))"

lemma sorted_within_append:
  assumes lex: "lexical cfg" and m: "key_short m" and xs: "sorted_within cfg lo m xs" and ys: "sorted_within cfg m hi ys"
    and le: "btree_key_compare cfg lo m \<le> 0" "btree_key_compare cfg m hi \<le> 0" and s: "key_short lo" "key_short hi"
  shows "sorted_within cfg lo hi (xs @ ys)"
proof -
  have "btree_key_compare cfg (fst x) (fst y) < 0" if "x \<in> set xs" "y \<in> set ys" for x y
    by (rule within_sorted [OF lex, where m = m and lo = lo and hi = hi]) (use that xs ys m in \<open>simp_all add: sorted_within_def\<close>)
  moreover have "within cfg lo hi (fst x)" if "x \<in> set xs" for x
    by (rule within_hi [OF lex _ le(2)]) (use that xs m s in \<open>simp_all add: sorted_within_def\<close>)
  moreover have "within cfg lo hi (fst y)" if "y \<in> set ys" for y
    by (rule within_lo [OF lex _ le(1)]) (use that ys m s in \<open>simp_all add: sorted_within_def\<close>)
  ultimately show ?thesis
    using xs ys by (auto simp: sorted_within_def keys_sorted_def sorted_wrt_append)
qed

lemma subtree_sorted_within:
  "subtree cfg N h t lo hi \<Longrightarrow> lexical cfg \<Longrightarrow> key_short lo \<Longrightarrow> key_short hi \<Longrightarrow> sorted_within cfg lo hi (tree_tuples N t)"
  "segment cfg N h ks ts hi \<Longrightarrow> lexical cfg \<Longrightarrow> (\<forall>k \<in> set ks. key_short k) \<Longrightarrow> key_short hi \<Longrightarrow>
     sorted_within cfg (next_key ks hi) hi (concat (map (tree_tuples N) ts))"
proof (induction cfg N h t lo hi and cfg N h ks ts hi rule: subtree_segment.induct)
  case (1 cfg N h a lo hi)
  then show ?case using tuples_short [of _ N "Leaf_at a"] by (simp add: sorted_within_def leaf_node_def leaf_sorted_def)
next
  case (2 cfg N h a ts lo hi)
  let ?m = "next_key (pivot_keys (N a)) hi"
  have w: "sorted_within cfg ?m hi (concat (map (tree_tuples N) ts))" using 2 pivots_short by auto
  have m: "key_short ?m" using next_key_short [OF pivots_short] 2 by blast
  have "within cfg lo hi (fst x)" if "x \<in> set (concat (map (tree_tuples N) ts))" for x
  proof -
    have "key_short (fst x)" "within cfg ?m hi (fst x)" using that w unfolding sorted_within_def by blast+
    then show ?thesis using 2 m within_lo [of cfg ?m hi "fst x" lo] by simp
  qed
  then show ?case using w by (simp add: sorted_within_def)
next
  case (3 cfg N h k ks t ts hi)
  let ?m = "next_key ks hi"
  have s: "key_short ?m" "key_short k" using 3 next_key_short by auto
  have "btree_key_compare cfg ?m hi \<le> 0"
  proof (cases ks)
    case Nil
    then show ?thesis using lex_self [of cfg hi] 3 by simp
  next
    case (Cons q qs)
    then show ?thesis using segment_key_bounds [of cfg N h ks ts hi] 3 by force
  qed
  moreover have "sorted_within cfg k ?m (tree_tuples N t)" "sorted_within cfg ?m hi (concat (map (tree_tuples N) ts))"
    using 3 s by auto
  ultimately show ?case using sorted_within_append [of cfg ?m k "tree_tuples N t" hi] 3 s by simp
qed (auto simp: sorted_within_def keys_sorted_def)

text \<open>
  A key between two pivots: the child of the first one is the only one whose tuples can have the
  key, what is before is smaller, what comes after is greater.
\<close>

lemma segment_child:
  assumes lex: "lexical cfg" and seg: "segment cfg N h ks ts hi" and short: "\<forall>k \<in> set ks. key_short k" "key_short hi" "key_short k"
    and i: "i < length ks" "0 < i \<Longrightarrow> btree_key_compare cfg (ks ! i) k \<le> 0"
    and up: "btree_key_compare cfg k (next_key (drop (Suc i) ks) hi) < 0"
  shows "subtree cfg N h (ts ! i) (ks ! i) (next_key (drop (Suc i) ks) hi)" and "i < length ts"
    and "\<forall>x \<in> set (concat (map (tree_tuples N) (take i ts))). btree_key_compare cfg (fst x) k < 0"
    and "\<forall>x \<in> set (concat (map (tree_tuples N) (drop (Suc i) ts))). 0 < btree_key_compare cfg (fst x) k"
proof -
  have len: "length ks = length ts" by (rule segment_length [OF seg])
  let ?ts = "take i ts @ ts ! i # drop (Suc i) ts" and ?ks = "take i ks @ ks ! i # drop (Suc i) ks"
  have "segment cfg N h ?ks ?ts hi" using seg i(1) len by (simp add: id_take_nth_drop [symmetric])
  then have s: "segment cfg N h (take i ks) (take i ts) (ks ! i)" "subtree cfg N h (ts ! i) (ks ! i) (next_key (drop (Suc i) ks) hi)"
    "segment cfg N h (drop (Suc i) ks) (drop (Suc i) ts) hi"
    using len by (simp_all add: segment_append)
  then show "subtree cfg N h (ts ! i) (ks ! i) (next_key (drop (Suc i) ks) hi)" and "i < length ts" using i(1) len by simp_all
  have k: "key_short (ks ! i)" "\<forall>k \<in> set (take i ks). key_short k" "\<forall>k \<in> set (drop (Suc i) ks). key_short k"
    using short i(1) by (auto dest: in_set_takeD in_set_dropD)
  have n: "key_short (next_key (drop (Suc i) ks) hi)" by (rule next_key_short [OF k(3) short(2)])
  note l = subtree_sorted_within(2) [OF s(1) lex k(2,1)] and r = subtree_sorted_within(2) [OF s(3) lex k(3) short(2)]
  have "btree_key_compare cfg (fst x) k < 0" if "x \<in> set (concat (map (tree_tuples N) (take i ts)))" for x
  proof -
    have "0 < i" using that by (cases i) simp_all
    moreover have "key_short (fst x)" "btree_key_compare cfg (fst x) (ks ! i) < 0"
      using that l unfolding sorted_within_def within_def by blast+
    ultimately show ?thesis using lex_less_trans [OF lex _ k(1) short(3)] i(2) by blast
  qed
  then show "\<forall>x \<in> set (concat (map (tree_tuples N) (take i ts))). btree_key_compare cfg (fst x) k < 0" by blast
  have "0 < btree_key_compare cfg (fst x) k" if "x \<in> set (concat (map (tree_tuples N) (drop (Suc i) ts)))" for x
  proof -
    have x: "key_short (fst x)" "btree_key_compare cfg (next_key (drop (Suc i) ks) hi) (fst x) \<le> 0"
      using that r unfolding sorted_within_def within_def by blast+
    then have "btree_key_compare cfg k (fst x) < 0" using lex_less_trans [OF lex short(3) n x(1) up] by blast
    then show ?thesis using lex_swap [OF lex short(3) x(1)] by simp
  qed
  then show "\<forall>x \<in> set (concat (map (tree_tuples N) (drop (Suc i) ts))). 0 < btree_key_compare cfg (fst x) k" by blast
qed

section \<open>The child that is followed\<close>

lemma index_node_sorted:
  assumes "lexical cfg" and "subtree cfg N h (Index_at a ts) lo hi" and "key_short hi"
  shows "index_sorted cfg (N a)" and "length ts = btree_num_entries (N a)" and "0 < btree_num_entries (N a)"
proof -
  have seg: "segment cfg N (h - 1) (pivot_keys (N a)) ts hi" "ts \<noteq> []" using assms(2) by simp_all
  show "index_sorted cfg (N a)"
    using segment_key_bounds [OF assms(1) seg(1) pivots_short assms(3)] by (simp add: index_sorted_def)
  show l: "length ts = btree_num_entries (N a)" using segment_length [OF seg(1)] by simp
  show "0 < btree_num_entries (N a)" using seg(2) l by (metis length_greater_0_conv)
qed

text \<open>The position of the binary search: the pivots up to it are not greater, those after it are.\<close>

lemma find_pivot_place:
  assumes "lexical cfg" and "index_sorted cfg hdr" and "key_short k"
  defines "idx \<equiv> fst (btree_find_pivot cfg hdr k)"
  shows "- 1 \<le> idx" and "idx < int (btree_num_entries hdr)"
    and "i < btree_num_entries hdr \<Longrightarrow> int i \<le> idx \<longleftrightarrow> btree_key_compare cfg (pivot_keys hdr ! i) k \<le> 0"
proof -
  obtain found where f: "btree_find_pivot cfg hdr k = (idx, found)" by (metis idx_def prod.collapse)
  note s = total_compare.search_ascending [OF lexical_compare [OF assms(1)] index_ascending [OF assms(1,2)] assms(3)
      f [unfolded find_pivot_list]]
  show "- 1 \<le> idx" "idx < int (btree_num_entries hdr)" using s(1,2) by simp_all
  show "i < btree_num_entries hdr \<Longrightarrow> int i \<le> idx \<longleftrightarrow> btree_key_compare cfg (pivot_keys hdr ! i) k \<le> 0"
    using s(3) [of i] by simp
qed

lemma followed_child:
  assumes lex: "lexical cfg" and sub: "subtree cfg N h (Index_at a ts) lo hi" and short: "key_short hi" "key_short k"
    and hi: "btree_key_compare cfg k hi < 0"
  defines "idx \<equiv> fst (btree_find_pivot cfg (N a) k)" and "ks \<equiv> pivot_keys (N a)"
  shows "nat idx < length ks" and "0 \<le> idx \<Longrightarrow> btree_key_compare cfg (ks ! nat idx) k \<le> 0"
    and "idx < 0 \<Longrightarrow> btree_key_compare cfg k (ks ! 0) < 0"
    and "btree_key_compare cfg k (next_key (drop (Suc (nat idx)) ks) hi) < 0"
proof -
  note n = index_node_sorted [OF lex sub short(1)]
  note p = find_pivot_place [OF lex n(1) short(2), folded idx_def ks_def]
  show i: "nat idx < length ks" using p(2) n(3) by (auto simp: ks_def)
  show "0 \<le> idx \<Longrightarrow> btree_key_compare cfg (ks ! nat idx) k \<le> 0" using p(3) [of "nat idx"] i by (simp add: ks_def)
  have gt: "btree_key_compare cfg k (ks ! j) < 0" if "j < length ks" "idx < int j" for j
  proof -
    have "key_short (ks ! j)" using that(1) pivots_short by (metis ks_def nth_mem)
    then show ?thesis using p(3) [of j] that lex_swap [OF lex short(2)] by (simp add: ks_def)
  qed
  show "idx < 0 \<Longrightarrow> btree_key_compare cfg k (ks ! 0) < 0" using gt [of 0] n(3) by (simp add: ks_def)
  show "btree_key_compare cfg k (next_key (drop (Suc (nat idx)) ks) hi) < 0"
  proof (cases "Suc (nat idx) < length ks")
    case True
    then show ?thesis using gt [of "Suc (nat idx)"] by (simp add: Cons_nth_drop_Suc [symmetric])
  qed (use hi in simp)
qed

end
