(* ===== verification/BtLookup.thy ===== *)
theory BtLookup
  imports BtShape
begin

text \<open>
  \<open>btree_lookup\<close> of a tree answers what the ordered list of its tuples has for the key. The pages
  it leaves are the same tree: the visits change the counters of pivots only, whatever the cache
  and the clock answer.
\<close>

section \<open>The list\<close>

definition list_lookup :: "('k \<Rightarrow> 'k \<Rightarrow> int) \<Rightarrow> 'k \<Rightarrow> ('k \<times> 'm) list \<Rightarrow> 'm option" where
  "list_lookup c k ts = map_option snd (find (\<lambda>t. c (fst t) k = 0) ts)"

lemma find_append: "find P (xs @ ys) = (case find P xs of None \<Rightarrow> find P ys | Some x \<Rightarrow> Some x)"
  by (induction xs) auto

lemma list_lookup_middle:
  assumes "\<forall>t \<in> set xs. c (fst t) k < 0" and "\<forall>t \<in> set zs. 0 < c (fst t) k"
  shows "list_lookup c k (xs @ ys @ zs) = list_lookup c k ys"
proof -
  have "find (\<lambda>t. c (fst t) k = 0) xs = None" "find (\<lambda>t. c (fst t) k = 0) zs = None"
    using assms by (force simp: find_None_iff)+
  then show ?thesis by (simp add: list_lookup_def find_append split: option.split)
qed

lemma leaf_lookup:
  assumes lex: "lexical cfg" and leaf: "leaf_node cfg hdr" and k: "key_short k"
  shows "(case btree_find_tuple cfg hdr k of (idx, found) \<Rightarrow>
      if found then Some (leaf_entry_message hdr (btree_get_leaf_entry hdr (table_index idx))) else None) =
    list_lookup (btree_key_compare cfg) k (leaf_tuples hdr)"
proof -
  obtain idx found where f: "btree_find_tuple cfg hdr k = (idx, found)" by fastforce
  have wf: "leaf_wf cfg hdr" "leaf_sorted cfg hdr" using leaf by (simp_all add: leaf_node_def)
  note p = total_compare.search_place [OF lexical_compare [OF lex] leaf_ascending [OF lex wf(2)] k f [unfolded find_tuple_list]]
  let ?ts = "leaf_tuples hdr" and ?P = "\<lambda>t. btree_key_compare cfg (fst t) k = 0"
  show ?thesis
  proof (cases found)
    case True
    note p = p(1) [OF True]
    have i: "nat idx < btree_num_entries hdr" using p by simp
    have "table_index idx = nat idx" using p num_entries_lt [OF wf(1)] by (intro table_index_small) auto
    then have m: "leaf_entry_message hdr (btree_get_leaf_entry hdr (table_index idx)) = snd (?ts ! nat idx)"
      using i by (simp add: leaf_tuple_def btree_get_tuple_message_def)
    have "\<not> ?P (?ts ! j)" if "j < nat idx" for j using p i that by (auto simp del: nth_leaf_tuples)
    moreover have "?P (?ts ! nat idx)" using p i by (auto simp del: nth_leaf_tuples)
    ultimately have "find ?P ?ts = Some (?ts ! nat idx)"
      using i by (auto simp: find_Some_iff simp del: nth_leaf_tuples)
    then show ?thesis using f True m by (simp add: list_lookup_def del: nth_leaf_tuples)
  next
    case False
    note p = p(2) [OF False]
    have below: "btree_key_compare cfg (map fst ?ts ! i) k < 0" if "i < nat (idx + 1)" for i using p that by blast
    have above: "0 < btree_key_compare cfg (map fst ?ts ! i) k" if "i < length (map fst ?ts)" "nat (idx + 1) \<le> i" for i
      using p that by blast
    have "\<not> ?P (?ts ! i)" if i: "i < length ?ts" for i
    proof (cases "i < nat (idx + 1)")
      case True
      then show ?thesis using below [OF True] unfolding nth_map [OF i] by simp
    next
      case False
      then show ?thesis using above [of i] i unfolding nth_map [OF i] by simp
    qed
    then have "find ?P ?ts = None" unfolding find_None_iff in_set_conv_nth by blast
    then show ?thesis using f False by (simp add: list_lookup_def)
  qed
qed

section \<open>Counting visits\<close>

text \<open>Two memories whose pages are the same nodes, with the same links.\<close>

definition same_pages :: "btree_config \<Rightarrow> (u64 \<Rightarrow> btree_hdr) \<Rightarrow> (u64 \<Rightarrow> btree_hdr) \<Rightarrow> bool" where
  "same_pages cfg N N' \<longleftrightarrow> (\<forall>a. same_content cfg (N a) (N' a) \<and> hdr_links (N' a) = hdr_links (N a))"

lemma same_pages_refl: "same_pages cfg N N"
  by (simp add: same_pages_def)

lemma same_pages_trans: "same_pages cfg N N' \<Longrightarrow> same_pages cfg N' N'' \<Longrightarrow> same_pages cfg N N''"
  unfolding same_pages_def using same_content_trans by metis

lemma same_pages_pivots:
  assumes "index_node cfg h (N a)" and "same_pivots cfg (N a) hdr"
  shows "same_pages cfg N (N(a := hdr))"
proof -
  have "0 < height (N a)" using assms(1) by (auto simp: index_node_def word_gt_0 simp flip: word_neq_0_conv)
  then show ?thesis
    using assms(2) same_content_pivots by (auto simp: same_pages_def same_pivots_def)
qed

lemma same_pages_tree:
  assumes "same_pages cfg N N'"
  shows "subtree cfg N h t lo hi \<Longrightarrow> subtree cfg N' h t lo hi" and "subtree cfg N h t lo hi \<Longrightarrow> tree_tuples N' t = tree_tuples N t"
    and "btree_at cfg N root t \<Longrightarrow> btree_at cfg N' root t"
proof -
  have c: "same_content cfg (N a) (N' a)" and l: "hdr_links (N' a) = hdr_links (N a)" for a
    using assms by (simp_all add: same_pages_def)
  show "subtree cfg N h t lo hi \<Longrightarrow> tree_tuples N' t = tree_tuples N t" and s: "subtree cfg N h t lo hi \<Longrightarrow> subtree cfg N' h t lo hi"
    for h t lo hi using subtree_same(1) [of t cfg N N'] c by blast+
  have "linked N' 0 (leaf_addrs t) 0 = linked N 0 (leaf_addrs t) 0" by (rule linked_same) (use l in \<open>simp add: hdr_links_def\<close>)
  moreover have "height (N' root) = height (N root)" using l [of root] by (simp add: hdr_links_def)
  ultimately show "btree_at cfg N root t \<Longrightarrow> btree_at cfg N' root t" using s by (auto simp: btree_at_def)
qed

lemma index_node_wf: "index_node cfg h hdr \<Longrightarrow> index_wf cfg hdr"
  by (simp add: index_node_def)

lemma track_pivot_pages:
  assumes idx: "index_node cfg h' (lk_nodes P addr)" and j: "j < btree_num_entries (lk_nodes P addr)"
    and p: "p = btree_get_index_entry (lk_nodes P addr) j"
    and r: "track_pivot E type h addr p child w P = (w1, cached, P1)"
  shows "same_pages cfg (lk_nodes P) (lk_nodes P1)"
proof (cases "lk_nodes P1 = lk_nodes P")
  case False
  obtain warm hdr t where u: "btree_update_pivot_cnt_and_is_warm (le_arith E) (le_ei E) (le_now E h) (le_now2 E h)
      (lk_nodes P addr) (lk_time P addr) p = (warm, hdr, t)" by (metis prod_cases3)
  have "lk_nodes P1 = (lk_nodes P)(addr := hdr)"
    using False r u by (auto simp: track_pivot_def Let_def split: if_splits)
  then show ?thesis using same_pages_pivots [of cfg h' "lk_nodes P" addr hdr, OF idx update_same [OF index_node_wf [OF idx] j p u]] by simp
qed (simp add: same_pages_refl)

lemma reset_pages:
  assumes "index_node cfg h (N a)"
  shows "same_pages cfg N (N(a := reset_pivot_counts (N a)))"
  unfolding reset_pivot_counts_def
  by (intro same_pages_pivots [of cfg h N a, OF assms] reset_counts_same [OF index_node_wf [OF assms]]) simp

section \<open>The descent\<close>

lemma user_key_below [simp]: "key_is_user_key k \<Longrightarrow> btree_key_compare cfg k POSITIVE_INFINITY_KEY < 0"
  "key_is_user_key k \<Longrightarrow> btree_key_compare cfg NEGATIVE_INFINITY_KEY k < 0"
  by (cases k; simp add: btree_key_compare_def data_key_compare_def key_is_user_key_def)+

text \<open>The tuples of a list of leaves.\<close>

definition leaf_list :: "(u64 \<Rightarrow> btree_hdr) \<Rightarrow> u64 list \<Rightarrow> (key \<times> message) list" where
  "leaf_list N as = concat (map (\<lambda>a. leaf_tuples (N a)) as)"

lemma leaf_list_simps [simp]: "leaf_list N [] = []" "leaf_list N (a # as) = leaf_tuples (N a) @ leaf_list N as"
  "leaf_list N (as @ bs) = leaf_list N as @ leaf_list N bs"
  by (simp_all add: leaf_list_def)

lemma tree_leaf_list: "tree_tuples N t = leaf_list N (leaf_addrs t)"
proof (induction t rule: leaf_addrs.induct)
  case (2 a ts)
  have "concat (map (tree_tuples N) us) = leaf_list N (concat (map leaf_addrs us))" if "set us \<subseteq> set ts" for us
    using that 2 by (induction us) auto
  then show ?case by simp
qed simp

lemma trees_leaf_list: "concat (map (tree_tuples N) ts) = leaf_list N (concat (map leaf_addrs ts))"
  using tree_leaf_list [of N "Index_at 0 ts"] by simp

lemma leaf_nodes:
  "subtree cfg N h t lo hi \<Longrightarrow> \<forall>a \<in> set (leaf_addrs t). leaf_node cfg (N a)"
  "segment cfg N h ks ts hi \<Longrightarrow> \<forall>a \<in> set (concat (map leaf_addrs ts)). leaf_node cfg (N a)"
  by (induction cfg N h t lo hi and cfg N h ks ts hi rule: subtree_segment.induct) auto

lemma leaf_list_user: "\<forall>a \<in> set as. leaf_node cfg (N a) \<Longrightarrow> x \<in> set (leaf_list N as) \<Longrightarrow> key_is_user_key (fst x)"
  by (force simp: leaf_list_def leaf_node_def tuple_small_def)

text \<open>
  The child that a lookup follows, for a key below the interval's end or for the infinite key: what is
  before that child is smaller, what comes after it is greater.
\<close>

definition below_end :: "btree_config \<Rightarrow> key \<Rightarrow> key \<Rightarrow> bool" where
  "below_end cfg k hi \<longleftrightarrow> btree_key_compare cfg k hi < 0 \<or> k = POSITIVE_INFINITY_KEY"

lemma below_infinity: "below_end cfg k POSITIVE_INFINITY_KEY"
  by (cases k) (simp_all add: below_end_def btree_key_compare_def data_key_compare_def key_is_user_key_def)

lemma lookup_child:
  assumes lex: "lexical cfg" and sub: "subtree cfg N (Suc d) (Index_at a ts) lo hi" and short: "key_short hi" "key_short k"
    and hi: "below_end cfg k hi"
  defines "i \<equiv> lookup_child_idx cfg (N a) k" and "ks \<equiv> pivot_keys (N a)"
  shows "i < length ts" and "i < length ks" and "subtree cfg N d (ts ! i) (ks ! i) (next_key (drop (Suc i) ks) hi)"
    and "below_end cfg k (next_key (drop (Suc i) ks) hi)"
    and "\<forall>x \<in> set (concat (map (tree_tuples N) (take i ts))). btree_key_compare cfg (fst x) k < 0"
    and "\<forall>x \<in> set (concat (map (tree_tuples N) (drop (Suc i) ts))). 0 < btree_key_compare cfg (fst x) k"
proof -
  have seg: "segment cfg N d ks ts hi" using sub by (simp add: ks_def)
  have len: "length ks = length ts" "0 < length ks" using segment_length [OF seg] index_node_sorted(2,3) [OF lex sub short(1)] by simp_all
  have "i < length ts \<and> i < length ks \<and> subtree cfg N d (ts ! i) (ks ! i) (next_key (drop (Suc i) ks) hi) \<and>
    below_end cfg k (next_key (drop (Suc i) ks) hi) \<and>
    (\<forall>x \<in> set (concat (map (tree_tuples N) (take i ts))). btree_key_compare cfg (fst x) k < 0) \<and>
    (\<forall>x \<in> set (concat (map (tree_tuples N) (drop (Suc i) ts))). 0 < btree_key_compare cfg (fst x) k)"
  proof (cases "k = POSITIVE_INFINITY_KEY")
    case True
    have i: "i = length ks - 1" using True len by (simp add: i_def lookup_child_idx_def ks_def)
    have "btree_key_compare cfg (fst x) k < 0" if "x \<in> set (concat (map (tree_tuples N) (take i ts)))" for x
    proof -
      have "x \<in> set (concat (map (tree_tuples N) ts))" using that by (auto dest: in_set_takeD)
      then show ?thesis using leaf_list_user [OF leaf_nodes(2) [OF seg]] True unfolding trees_leaf_list by simp
    qed
    moreover have "segment cfg N d (take i ks @ [ks ! i]) (take i ts @ [ts ! i]) hi"
      using seg i len by (simp add: take_Suc_conv_app_nth [symmetric])
    then have "subtree cfg N d (ts ! i) (ks ! i) hi" using len i by (simp add: segment_append)
    ultimately show ?thesis using i len True by (simp add: below_end_def)
  next
    case False
    then have lt: "btree_key_compare cfg k hi < 0" using hi by (simp add: below_end_def)
    note f = followed_child [OF lex sub short lt, folded ks_def]
    have idx: "i = nat (fst (btree_find_pivot cfg (N a) k))" using False by (auto simp: i_def lookup_child_idx_def Let_def)
    have "0 < i \<Longrightarrow> btree_key_compare cfg (ks ! i) k \<le> 0" using f(2) unfolding idx by simp
    note c = segment_child [OF lex seg _ short f(1) [folded idx] this f(4) [folded idx]]
    show ?thesis using c f(1,4) pivots_short by (simp add: idx [symmetric] below_end_def ks_def)
  qed
  then show "i < length ts" "i < length ks" "subtree cfg N d (ts ! i) (ks ! i) (next_key (drop (Suc i) ks) hi)"
    "below_end cfg k (next_key (drop (Suc i) ks) hi)"
    "\<forall>x \<in> set (concat (map (tree_tuples N) (take i ts))). btree_key_compare cfg (fst x) k < 0"
    "\<forall>x \<in> set (concat (map (tree_tuples N) (drop (Suc i) ts))). 0 < btree_key_compare cfg (fst x) k" by blast+
qed

text \<open>The leaf that a lookup comes to: the key's place is in it.\<close>

definition splits_at :: "btree_config \<Rightarrow> (u64 \<Rightarrow> btree_hdr) \<Rightarrow> shape \<Rightarrow> key \<Rightarrow> u64 \<Rightarrow> bool" where
  "splits_at cfg N t k addr \<longleftrightarrow> (\<exists>as bs. leaf_addrs t = as @ addr # bs \<and>
     (\<forall>x \<in> set (leaf_list N as). btree_key_compare cfg (fst x) k < 0) \<and>
     (\<forall>x \<in> set (leaf_list N bs). 0 < btree_key_compare cfg (fst x) k))"

text \<open>The leaf itself, as the pivots have it. It depends on the tree only, and a greater key is not before a smaller one.\<close>

primrec route_leaf :: "btree_config \<Rightarrow> (u64 \<Rightarrow> btree_hdr) \<Rightarrow> key \<Rightarrow> nat \<Rightarrow> shape \<Rightarrow> u64" where
  "route_leaf cfg N k 0 t = node_addr t"
| "route_leaf cfg N k (Suc d) t =
     (case t of Leaf_at a \<Rightarrow> a | Index_at a ts \<Rightarrow> route_leaf cfg N k d (ts ! lookup_child_idx cfg (N a) k))"

lemma route_leaf_same:
  assumes lex: "lexical cfg" and k: "key_short k" and same: "same_pages cfg N N'"
  shows "subtree cfg N d t lo hi \<Longrightarrow> key_short hi \<Longrightarrow> below_end cfg k hi \<Longrightarrow>
    route_leaf cfg N' k d t = route_leaf cfg N k d t \<and> route_leaf cfg N k d t \<in> set (leaf_addrs t)"
proof (induction d arbitrary: t lo hi)
  case 0
  then show ?case by (cases t) (auto simp: index_node_def)
next
  case (Suc d)
  then obtain a ts where t: "t = Index_at a ts" by (cases t) auto
  note c = lookup_child [OF lex Suc.prems(1) [unfolded t] Suc.prems(2) k Suc.prems(3)]
  have "index_node cfg (Suc d) (N a)" using Suc.prems(1) by (simp add: t)
  then have pv: "node_pivots (N' a) = node_pivots (N a)" using same by (simp add: same_pages_def same_content_def)
  then have "btree_num_entries (N' a) = btree_num_entries (N a)" by (metis num_pivots)
  then have "lookup_child_idx cfg (N' a) k = lookup_child_idx cfg (N a) k"
    using pv by (simp add: lookup_child_idx_def find_pivot_list)
  moreover have "key_short (next_key (drop (Suc (lookup_child_idx cfg (N a) k)) (pivot_keys (N a))) hi)"
    using pivots_short next_key_short [OF _ Suc.prems(2)] by (metis in_set_dropD)
  note Suc.IH [OF c(3) this c(4)]
  ultimately show ?case using c(1) by (auto simp: t)
qed

definition not_after :: "'a list \<Rightarrow> 'a \<Rightarrow> 'a \<Rightarrow> bool" where
  "not_after xs a b \<longleftrightarrow> a = b \<or> (\<exists>us vs. xs = us @ vs \<and> a \<in> set us \<and> b \<in> set vs)"

lemma not_after_middle:
  assumes "not_after ys a b"
  shows "not_after (xs @ ys @ zs) a b"
proof (cases "a = b")
  case False
  then obtain us vs where "ys = us @ vs" "a \<in> set us" "b \<in> set vs" using assms by (auto simp: not_after_def)
  then have "xs @ ys @ zs = (xs @ us) @ (vs @ zs)" "a \<in> set (xs @ us)" "b \<in> set (vs @ zs)" by simp_all
  then show ?thesis unfolding not_after_def by blast
qed (simp add: not_after_def)

lemma lookup_child_mono:
  assumes lex: "lexical cfg" and sub: "subtree cfg N (Suc d) (Index_at a ts) lo hi" and short: "key_short hi" "key_short k" "key_short l"
    and "below_end cfg k hi" "below_end cfg l hi" and le: "btree_key_compare cfg k l \<le> 0"
  shows "lookup_child_idx cfg (N a) k \<le> lookup_child_idx cfg (N a) l"
proof (cases "l = POSITIVE_INFINITY_KEY")
  case True
  have "lookup_child_idx cfg (N a) k < btree_num_entries (N a)" using lookup_child(2) [OF lex sub short(1,2) assms(6)] by simp
  then show ?thesis unfolding True lookup_child_idx_def [of cfg "N a" POSITIVE_INFINITY_KEY] by simp
next
  case False
  have k: "k \<noteq> POSITIVE_INFINITY_KEY"
    using le False by (cases l) (auto simp: btree_key_compare_def data_key_compare_def key_is_user_key_def)
  have lt: "btree_key_compare cfg k hi < 0" "btree_key_compare cfg l hi < 0" using assms(6,7) k False by (simp_all add: below_end_def)
  note n = index_node_sorted [OF lex sub short(1)]
  note pk = find_pivot_place [OF lex n(1) short(2)] and pl = find_pivot_place [OF lex n(1) short(3)]
  let ?i = "fst (btree_find_pivot cfg (N a) k)" and ?j = "fst (btree_find_pivot cfg (N a) l)"
  have "?i \<le> ?j" if "0 \<le> ?i"
  proof -
    have i: "nat ?i < btree_num_entries (N a)" using pk(2) n(3) that by auto
    then have "btree_key_compare cfg (pivot_keys (N a) ! nat ?i) k \<le> 0" using pk(3) [of "nat ?i"] that by simp
    moreover have "key_short (pivot_keys (N a) ! nat ?i)" using pivots_short i by (metis length_map nth_mem num_pivots)
    ultimately have "btree_key_compare cfg (pivot_keys (N a) ! nat ?i) l \<le> 0"
      using total_compare.cmp_trans [OF lexical_compare [OF lex]] short(2,3) le by blast
    then show ?thesis using pl(3) [of "nat ?i"] i that by simp
  qed
  then show ?thesis using False k by (auto simp: lookup_child_idx_def Let_def)
qed

lemma route_leaf_mono:
  assumes lex: "lexical cfg" and k: "key_short k" "key_short l" "btree_key_compare cfg k l \<le> 0"
  shows "subtree cfg N d t lo hi \<Longrightarrow> key_short hi \<Longrightarrow> below_end cfg k hi \<Longrightarrow> below_end cfg l hi \<Longrightarrow>
    not_after (leaf_addrs t) (route_leaf cfg N k d t) (route_leaf cfg N l d t)"
proof (induction d arbitrary: t lo hi)
  case 0
  then show ?case by (simp add: not_after_def)
next
  case (Suc d)
  then obtain a ts where t: "t = Index_at a ts" by (cases t) auto
  note sub = Suc.prems(1) [unfolded t]
  note c = lookup_child [OF lex sub Suc.prems(2) k(1) Suc.prems(3)]
  note cl = lookup_child [OF lex sub Suc.prems(2) k(2) Suc.prems(4)]
  let ?i = "lookup_child_idx cfg (N a) k" and ?j = "lookup_child_idx cfg (N a) l"
  let ?nx = "\<lambda>i. next_key (drop (Suc i) (pivot_keys (N a))) hi"
  have sh: "key_short (?nx i)" for i using pivots_short next_key_short [OF _ Suc.prems(2)] by (metis in_set_dropD)
  have split: "leaf_addrs t = concat (map leaf_addrs (take i ts)) @ leaf_addrs (ts ! i) @ concat (map leaf_addrs (drop (Suc i) ts))"
    if "i < length ts" for i
  proof -
    have "leaf_addrs t = concat (map leaf_addrs (take i ts @ ts ! i # drop (Suc i) ts))" using id_take_nth_drop [OF that] by (simp add: t)
    then show ?thesis by simp
  qed
  show ?case
  proof (cases "?i = ?j")
    case True
    have "not_after (leaf_addrs (ts ! ?i)) (route_leaf cfg N k d (ts ! ?i)) (route_leaf cfg N l d (ts ! ?i))"
      using Suc.IH [OF c(3) sh c(4)] cl(4) True by simp
    then show ?thesis using True not_after_middle by (simp add: split [OF c(1)]) (simp add: t)
  next
    case False
    then have lt: "?i < ?j" using lookup_child_mono [OF lex sub Suc.prems(2) k(1,2) Suc.prems(3,4) k(3)] by simp
    have "route_leaf cfg N k d (ts ! ?i) \<in> set (leaf_addrs (ts ! ?i))" "route_leaf cfg N l d (ts ! ?j) \<in> set (leaf_addrs (ts ! ?j))"
      using route_leaf_same [OF lex k(1) same_pages_refl c(3) sh c(4)] route_leaf_same [OF lex k(2) same_pages_refl cl(3) sh cl(4)] by simp_all
    moreover have "ts ! ?i \<in> set (take ?j ts)" using lt cl(1) by (auto simp: in_set_conv_nth)
    ultimately have "route_leaf cfg N k d (ts ! ?i) \<in> set (concat (map leaf_addrs (take ?j ts)))"
      "route_leaf cfg N l d (ts ! ?j) \<in> set (leaf_addrs (ts ! ?j) @ concat (map leaf_addrs (drop (Suc ?j) ts)))" by auto
    then have "not_after (leaf_addrs t) (route_leaf cfg N k d (ts ! ?i)) (route_leaf cfg N l d (ts ! ?j))"
      unfolding not_after_def split [OF cl(1)] by blast
    then show ?thesis by (simp add: t)
  qed
qed

lemma lookup_loop_splits:
  assumes lex: "lexical cfg" and k: "key_short k"
  shows "subtree cfg (lk_nodes P) d t lo hi \<Longrightarrow> key_short lo \<Longrightarrow> key_short hi \<Longrightarrow> below_end cfg k hi \<Longrightarrow>
    lookup_node_loop cfg E type k 0 d (node_addr t) stats w P = (addr, stats', w', P') \<Longrightarrow>
    same_pages cfg (lk_nodes P) (lk_nodes P') \<and> splits_at cfg (lk_nodes P) t k addr \<and>
    addr = route_leaf cfg (lk_nodes P) k d t"
proof (induction d arbitrary: t lo hi stats w P)
  case 0
  then obtain a where "t = Leaf_at a" by (cases t) (auto simp: index_node_def)
  have "splits_at cfg (lk_nodes P) (Leaf_at a) k a"
    by (auto simp: splits_at_def leaf_list_def intro!: exI [of _ "[]"])
  then show ?case using "0.prems" \<open>t = Leaf_at a\<close> by (auto simp: same_pages_refl)
next
  case (Suc d)
  then obtain a ts where t: "t = Index_at a ts" by (cases t) auto
  let ?N = "lk_nodes P" and ?k = "lookup_child_idx cfg (lk_nodes P a) k"
  note sub = Suc.prems(1) [unfolded t]
  note c = lookup_child [OF lex sub Suc.prems(3) k Suc.prems(4)]
  let ?t = "ts ! ?k" and ?hi = "next_key (drop (Suc ?k) (pivot_keys (?N a))) hi"
  have node: "index_node cfg (Suc d) (?N a)" using sub by simp
  have j: "?k < btree_num_entries (?N a)" using c(2) by simp
  have "map node_addr ts = child_addrs (?N a)" using sub by simp
  then have child: "index_entry_child_addr (?N a) (btree_get_index_entry (?N a) ?k) = node_addr ?t"
    using j c(1) by (metis (no_types, lifting) index_entry_reads(2) length_map nth_map nth_node_pivots num_pivots)
  obtain w1 cached P1 where tp: "track_pivot E type (Suc d) a (btree_get_index_entry (?N a) ?k) (node_addr ?t) w P = (w1, cached, P1)"
    by (metis prod_cases3)
  define P2 where "P2 = (if \<not> cached \<and> 0 < d \<and> type = PAGE_TYPE_BRANCH
    then P1\<lparr>lk_nodes := (lk_nodes P1)(node_addr ?t := reset_pivot_counts (lk_nodes P1 (node_addr ?t)))\<rparr> else P1)"
  have s1: "same_pages cfg ?N (lk_nodes P1)" by (rule track_pivot_pages [OF node j refl tp])
  have sub1: "subtree cfg (lk_nodes P1) d ?t (pivot_keys (?N a) ! ?k) ?hi" by (rule same_pages_tree(1) [OF s1 c(3)])
  have "same_pages cfg (lk_nodes P1) (lk_nodes P2)"
  proof (cases "0 < d")
    case True
    then have "index_node cfg d (lk_nodes P1 (node_addr ?t))" using sub1 by (cases ?t) simp_all
    then show ?thesis using reset_pages by (simp add: P2_def same_pages_refl)
  qed (simp add: P2_def same_pages_refl)
  then have s2: "same_pages cfg ?N (lk_nodes P2)" by (rule same_pages_trans [OF s1])
  have sh: "key_short (pivot_keys (?N a) ! ?k)" "key_short ?hi"
    using pivots_short c(2) next_key_short [OF _ Suc.prems(3)] by (metis nth_mem, metis in_set_dropD)
  have "lookup_node_loop cfg E type k 0 d (node_addr ?t) (accumulate_node_ranks (?N a) 0 ?k stats) w1 P2 = (addr, stats', w', P')"
    using Suc.prems(5) by (simp only: t lookup_node_loop.simps node_addr.simps Let_def child tp P2_def prod.case add_0)
  note ih = Suc.IH [OF same_pages_tree(1) [OF s2 c(3)] sh c(4) this]
  obtain as bs where l: "leaf_addrs ?t = as @ addr # bs" "\<forall>x \<in> set (leaf_list (lk_nodes P2) as). btree_key_compare cfg (fst x) k < 0"
    "\<forall>x \<in> set (leaf_list (lk_nodes P2) bs). 0 < btree_key_compare cfg (fst x) k" using ih by (auto simp: splits_at_def)
  have same: "leaf_tuples (lk_nodes P2 b) = leaf_tuples (?N b)" if "b \<in> set (leaf_addrs ?t)" for b
    using s2 leaf_nodes(1) [OF c(3)] that by (auto simp: same_pages_def same_content_def)
  have eq: "leaf_list (lk_nodes P2) bs' = leaf_list ?N bs'" if "set bs' \<subseteq> set (leaf_addrs ?t)" for bs'
    unfolding leaf_list_def by (intro arg_cong [of _ _ concat] map_cong refl same) (use that in blast)
  have eqs: "leaf_list (lk_nodes P2) as = leaf_list ?N as" "leaf_list (lk_nodes P2) bs = leaf_list ?N bs" using l(1) by (auto intro!: eq)
  let ?as = "concat (map leaf_addrs (take ?k ts)) @ as" and ?bs = "bs @ concat (map leaf_addrs (drop (Suc ?k) ts))"
  have "leaf_addrs t = concat (map leaf_addrs (take ?k ts @ ?t # drop (Suc ?k) ts))"
    using id_take_nth_drop [OF c(1)] by (simp add: t)
  then have "leaf_addrs t = ?as @ addr # ?bs" using l(1) by simp
  moreover have "\<forall>x \<in> set (leaf_list ?N ?as). btree_key_compare cfg (fst x) k < 0"
    using c(5) l(2) eqs(1) unfolding trees_leaf_list by auto
  moreover have "\<forall>x \<in> set (leaf_list ?N ?bs). 0 < btree_key_compare cfg (fst x) k"
    using c(6) l(3) eqs(2) unfolding trees_leaf_list by auto
  ultimately have "splits_at cfg ?N t k addr" unfolding splits_at_def by blast
  moreover have "addr = route_leaf cfg ?N k (Suc d) t" using ih route_leaf_same [OF lex k s2 c(3) sh(2) c(4)] by (simp add: t)
  ultimately show ?case using ih same_pages_trans [OF s2] by blast
qed

text \<open>\<open>btree_lookup_node\<close> of a whole tree, down to the leaves.\<close>

lemma lookup_node_splits:
  assumes lex: "lexical cfg" and k: "key_short k" and t: "btree_at cfg (lk_nodes P) root t"
    and r: "btree_lookup_node cfg E root k 0 type P = (addr, stats, w, P')"
  shows "same_pages cfg (lk_nodes P) (lk_nodes P')" and "splits_at cfg (lk_nodes P) t k addr"
    and "addr = route_leaf cfg (lk_nodes P) k (unat (height (lk_nodes P root))) t"
proof -
  let ?h = "unat (height (lk_nodes P root))"
  have s: "subtree cfg (lk_nodes P) ?h t NEGATIVE_INFINITY_KEY POSITIVE_INFINITY_KEY" "node_addr t = root"
    using t by (simp_all add: btree_at_def)
  have l: "lookup_node_loop cfg E type k 0 ?h (node_addr t) zero_stats True P = (addr, stats, w, P')"
    using r s(2) by (simp add: btree_lookup_node_def btree_height_def)
  show "same_pages cfg (lk_nodes P) (lk_nodes P')" "splits_at cfg (lk_nodes P) t k addr"
    "addr = route_leaf cfg (lk_nodes P) k ?h t"
    using lookup_loop_splits [OF lex k s(1) _ _ below_infinity l] by auto
qed

lemma lookup_finds:
  assumes lex: "lexical cfg" and k: "key_is_user_key k" "key_short k" and t: "btree_at cfg (lk_nodes P) root t"
    and r: "btree_lookup_with_ref cfg E root type k P = (res, P')"
  shows "res = list_lookup (btree_key_compare cfg) k (tree_tuples (lk_nodes P) t)" and "same_pages cfg (lk_nodes P) (lk_nodes P')"
proof -
  obtain addr stats w P1 where l: "btree_lookup_node cfg E root k 0 type P = (addr, stats, w, P1)" by (metis prod_cases4)
  note sp = lookup_node_splits [OF lex k(2) t l]
  obtain as bs where as: "leaf_addrs t = as @ addr # bs" "\<forall>x \<in> set (leaf_list (lk_nodes P) as). btree_key_compare cfg (fst x) k < 0"
    "\<forall>x \<in> set (leaf_list (lk_nodes P) bs). 0 < btree_key_compare cfg (fst x) k" using sp(2) by (auto simp: splits_at_def)
  have "leaf_node cfg (lk_nodes P addr)" using t as(1) leaf_nodes(1) by (auto simp: btree_at_def)
  then have leaf: "leaf_node cfg (lk_nodes P1 addr)" "leaf_tuples (lk_nodes P1 addr) = leaf_tuples (lk_nodes P addr)"
    using sp(1) by (simp_all add: same_pages_def same_content_def)
  have "list_lookup (btree_key_compare cfg) k (tree_tuples (lk_nodes P) t) = list_lookup (btree_key_compare cfg) k (leaf_tuples (lk_nodes P addr))"
    using list_lookup_middle [of _ "btree_key_compare cfg" k, OF as(2,3)] by (simp add: tree_leaf_list as(1))
  moreover have "P' = P1" "res = list_lookup (btree_key_compare cfg) k (leaf_tuples (lk_nodes P1 addr))"
    using r l leaf_lookup [OF lex leaf(1) k(2)] by (auto simp: btree_lookup_with_ref_def Let_def split: prod.splits)
  ultimately show "res = list_lookup (btree_key_compare cfg) k (tree_tuples (lk_nodes P) t)"
    and "same_pages cfg (lk_nodes P) (lk_nodes P')" using sp(1) leaf(2) by simp_all
qed

end
