(* ===== verification/BtCursor.thy ===== *)
theory BtCursor
  imports BtIter BtLookup
begin

text \<open>
  The positions of an iterator over the leaves of a tree. The tuples of the tree are one ordered list;
  a leaf and an index in it are a position in this list, and the search of a leaf for a key counts the
  smaller keys. From this: where the iterator stands at its beginning, and what a step does.
\<close>

section \<open>Counting the smaller keys\<close>

definition key_count :: "btree_config \<Rightarrow> key \<Rightarrow> (key \<times> message) list \<Rightarrow> nat" where
  "key_count tc k ts = length (filter (\<lambda>x. btree_key_compare tc (fst x) k < 0) ts)"

abbreviation tuples_sorted :: "btree_config \<Rightarrow> (key \<times> message) list \<Rightarrow> bool" where
  "tuples_sorted tc ts \<equiv> sorted_wrt (\<lambda>x y. btree_key_compare tc (fst x) (fst y) < 0) ts \<and> (\<forall>x \<in> set ts. key_short (fst x))"

lemma key_count_simps [simp]: "key_count tc k [] = 0" "key_count tc k (xs @ ys) = key_count tc k xs + key_count tc k ys"
  by (simp_all add: key_count_def)

lemma key_count_le: "key_count tc k ts \<le> length ts"
  unfolding key_count_def by (rule length_filter_le)

lemma key_count_all: "\<forall>x \<in> set ts. btree_key_compare tc (fst x) k < 0 \<Longrightarrow> key_count tc k ts = length ts"
  by (simp add: key_count_def)

lemma key_count_none: "\<forall>x \<in> set ts. 0 < btree_key_compare tc (fst x) k \<Longrightarrow> key_count tc k ts = 0"
  by (auto simp: key_count_def filter_empty_conv dest!: bspec)

lemma key_count_nth:
  assumes lex: "lexical tc" and s: "tuples_sorted tc ts" and k: "key_short k" and i: "i < length ts"
  shows "i < key_count tc k ts \<longleftrightarrow> btree_key_compare tc (fst (ts ! i)) k < 0"
  using s i
proof (induction ts arbitrary: i)
  case (Cons x xs)
  note less = total_compare.cmp_less_trans [OF lexical_compare [OF lex]]
  show ?case
  proof (cases "btree_key_compare tc (fst x) k < 0")
    case True
    then show ?thesis using Cons by (cases i) (auto simp: key_count_def)
  next
    case False
    have "\<not> btree_key_compare tc (fst y) k < 0" if "y \<in> set xs" for y
      using less [of "fst x" "fst y" k] Cons.prems(1) that False k by auto
    then have "key_count tc k (x # xs) = 0" "\<not> btree_key_compare tc (fst ((x # xs) ! i)) k < 0"
      using False Cons.prems(2) by (auto simp: key_count_def nth_Cons split: nat.split)
    then show ?thesis by simp
  qed
qed simp

text \<open>Where a list is cut in two.\<close>

lemma key_count_cut:
  assumes lex: "lexical tc" and s: "tuples_sorted tc (xs @ ys)" and k: "key_short k"
  shows "0 < key_count tc k ys \<Longrightarrow> key_count tc k xs = length xs" and "key_count tc k xs < length xs \<Longrightarrow> key_count tc k ys = 0"
proof -
  note n = key_count_nth [OF lex s k]
  show a: "key_count tc k xs = length xs" if p: "0 < key_count tc k ys"
  proof (rule key_count_all, rule ballI)
    fix x assume "x \<in> set xs"
    obtain y where y: "y \<in> set ys" "btree_key_compare tc (fst y) k < 0"
      using p by (force simp: key_count_def filter_empty_conv)
    have "btree_key_compare tc (fst x) (fst y) < 0" using s \<open>x \<in> set xs\<close> y(1) by (simp add: sorted_wrt_append)
    then show "btree_key_compare tc (fst x) k < 0"
      using total_compare.cmp_less_trans [OF lexical_compare [OF lex], of "fst x" "fst y" k] s k y \<open>x \<in> set xs\<close> by auto
  qed
  show "key_count tc k ys = 0" if "key_count tc k xs < length xs" using a that by (cases "key_count tc k ys") auto
qed

lemma key_count_mono:
  assumes lex: "lexical tc" and "\<forall>x \<in> set ts. key_short (fst x)" "key_short k" "key_short l" "btree_key_compare tc k l \<le> 0"
  shows "key_count tc k ts \<le> key_count tc l ts"
  using assms(2)
proof (induction ts)
  case (Cons x xs)
  have "btree_key_compare tc (fst x) k < 0 \<Longrightarrow> btree_key_compare tc (fst x) l < 0"
    using total_compare.cmp_less_trans [OF lexical_compare [OF lex], of "fst x" k l] assms(3-) Cons.prems by auto
  then show ?case using Cons by (auto simp: key_count_def)
qed simp

text \<open>The tuples from one key up to another one.\<close>

definition key_range :: "btree_config \<Rightarrow> key \<Rightarrow> key \<Rightarrow> (key \<times> message) list \<Rightarrow> (key \<times> message) list" where
  "key_range tc lo hi ts = filter (\<lambda>x. 0 \<le> btree_key_compare tc (fst x) lo \<and> btree_key_compare tc (fst x) hi < 0) ts"

lemma filter_slice:
  "(\<And>i. i < length ts \<Longrightarrow> P (ts ! i) \<longleftrightarrow> a \<le> i \<and> i < b) \<Longrightarrow> filter P ts = drop a (take b ts)"
proof (induction ts arbitrary: a b)
  case (Cons x xs)
  have "filter P xs = drop (a - 1) (take (b - 1) xs)"
    using Cons.prems [of "Suc i" for i] by (intro Cons.IH) (simp; linarith)
  moreover have "P x \<longleftrightarrow> a = 0 \<and> 0 < b" using Cons.prems [of 0] by simp
  ultimately show ?case by (cases a; cases b) auto
qed simp

lemma key_range_slice:
  assumes "lexical tc" and "tuples_sorted tc ts" and "key_short lo" and "key_short hi"
  shows "key_range tc lo hi ts = drop (key_count tc lo ts) (take (key_count tc hi ts) ts)"
  unfolding key_range_def
  by (rule filter_slice) (use key_count_nth [OF assms(1,2)] assms(3,4) in \<open>simp add: linorder_not_less [symmetric]\<close>)

lemma key_count_eq:
  assumes "\<And>i. i < length ts \<Longrightarrow> btree_key_compare tc (fst (ts ! i)) k < 0 \<longleftrightarrow> i < c" and "c \<le> length ts"
  shows "key_count tc k ts = c"
  using filter_slice [of ts "\<lambda>x. btree_key_compare tc (fst x) k < 0" 0 c] assms by (simp add: key_count_def)

text \<open>The search of a leaf.\<close>

lemma find_tuple_count:
  assumes lex: "lexical tc" and leaf: "leaf_node tc hdr" and k: "key_short k" and f: "btree_find_tuple tc hdr k = (i, found)"
  shows "int (key_count tc k (leaf_tuples hdr)) = (if found then i else i + 1)"
    and "found \<Longrightarrow> 0 \<le> i \<and> i < int (length (leaf_tuples hdr)) \<and> btree_key_compare tc (fst (leaf_tuples hdr ! nat i)) k = 0"
    and "\<not> found \<Longrightarrow> - 1 \<le> i"
    and "\<not> found \<Longrightarrow> j < length (leaf_tuples hdr) \<Longrightarrow> btree_key_compare tc (fst (leaf_tuples hdr ! j)) k \<noteq> 0"
proof -
  let ?ts = "leaf_tuples hdr"
  have asc: "total_compare.ascending (btree_key_compare tc) key_short (map fst ?ts)"
    using leaf by (intro leaf_ascending [OF lex]) (simp add: leaf_node_def)
  note r = f [unfolded find_tuple_list]
  note p = total_compare.search_place [OF lexical_compare [OF lex] asc k r]
    and q = total_compare.search_ascending [OF lexical_compare [OF lex] asc k r]
  have at: "btree_key_compare tc (map fst ?ts ! j) k = btree_key_compare tc (fst (?ts ! j)) k" if "j < length ?ts" for j
    using that by (simp del: nth_leaf_tuples)
  show t: "0 \<le> i \<and> i < int (length ?ts) \<and> btree_key_compare tc (fst (?ts ! nat i)) k = 0" if found
    using p(1) [OF that] at [of "nat i"] by auto
  show "- 1 \<le> i" using q(1) .
  show ne: "btree_key_compare tc (fst (?ts ! j)) k \<noteq> 0" if "\<not> found" "j < length ?ts" for j
  proof (cases "j < nat (i + 1)")
    case True
    then show ?thesis using p(2) [OF that(1)] at [OF that(2)] by auto
  next
    case False
    then show ?thesis using p(2) [OF that(1)] at [OF that(2)] that(2) by auto
  qed
  have "key_count tc k ?ts = nat (if found then i else i + 1)"
  proof (rule key_count_eq)
    show "btree_key_compare tc (fst (?ts ! j)) k < 0 \<longleftrightarrow> j < nat (if found then i else i + 1)" if j: "j < length ?ts" for j
    proof (cases found)
      case True
      note t = t [OF True] and lt = p(1) [OF True]
      have "int j \<le> i \<longleftrightarrow> btree_key_compare tc (fst (?ts ! j)) k \<le> 0" using q(3) [of j] at [OF j] j by simp
      then show ?thesis using True t lt at [OF j] by (cases "int j = i") auto
    next
      case False
      have "int j \<le> i \<longleftrightarrow> btree_key_compare tc (fst (?ts ! j)) k \<le> 0" using q(3) [of j] at [OF j] j by simp
      then show ?thesis using ne [OF False j] False by auto
    qed
    show "nat (if found then i else i + 1) \<le> length ?ts" using q(2) by auto
  qed
  then show "int (key_count tc k ?ts) = (if found then i else i + 1)" using q(1) t by auto
qed

section \<open>The list of the leaves\<close>

text \<open>
  The leaves of a tree in order; a leaf is empty only when it is the only one. \<open>first_pos\<close> is the place of
  a leaf's first tuple in the whole list.
\<close>

definition leaf_chain :: "btree_config \<Rightarrow> (u64 \<Rightarrow> btree_hdr) \<Rightarrow> u64 list \<Rightarrow> bool" where
  "leaf_chain tc N L \<longleftrightarrow> distinct L \<and> 0 \<notin> set L \<and> linked N 0 L 0 \<and> (\<forall>a \<in> set L. leaf_node tc (N a)) \<and>
     tuples_sorted tc (leaf_list N L) \<and> (length L = 1 \<or> (\<forall>a \<in> set L. leaf_tuples (N a) \<noteq> []))"

definition first_pos :: "(u64 \<Rightarrow> btree_hdr) \<Rightarrow> u64 list \<Rightarrow> nat \<Rightarrow> nat" where
  "first_pos N L j = length (leaf_list N (take j L))"

abbreviation leaf_size_at :: "(u64 \<Rightarrow> btree_hdr) \<Rightarrow> u64 list \<Rightarrow> nat \<Rightarrow> nat" where
  "leaf_size_at N L j \<equiv> btree_num_entries (N (L ! j))"

lemma leaf_list_cut:
  "j < length L \<Longrightarrow> leaf_list N L = leaf_list N (take j L) @ leaf_tuples (N (L ! j)) @ leaf_list N (drop (Suc j) L)"
  by (subst id_take_nth_drop [of j L]) simp_all

lemma first_pos_0 [simp]: "first_pos N L 0 = 0"
  by (simp add: first_pos_def)

lemma first_pos_Suc: "j < length L \<Longrightarrow> first_pos N L (Suc j) = first_pos N L j + leaf_size_at N L j"
  by (simp add: first_pos_def take_Suc_conv_app_nth)

lemma first_pos_mono: "i \<le> j \<Longrightarrow> first_pos N L i \<le> first_pos N L j"
proof -
  assume "i \<le> j"
  then have "take j L = take i L @ take (j - i) (drop i L)" by (metis le_add_diff_inverse take_add)
  then show ?thesis by (simp add: first_pos_def)
qed

lemma first_pos_less: "i < j \<Longrightarrow> i < length L \<Longrightarrow> first_pos N L i + leaf_size_at N L i \<le> first_pos N L j"
  using first_pos_mono [of "Suc i" j N L] by (simp add: first_pos_Suc)

lemma leaf_list_nth:
  assumes "j < length L" and "i < leaf_size_at N L j"
  shows "first_pos N L j + i < length (leaf_list N L)" and "leaf_list N L ! (first_pos N L j + i) = leaf_tuples (N (L ! j)) ! i"
  using assms by (simp_all add: leaf_list_cut [OF assms(1)] first_pos_def nth_append)

lemma linked_nth:
  "linked N p L n \<Longrightarrow> j < length L \<Longrightarrow> prev_addr (N (L ! j)) = (if j = 0 then p else L ! (j - 1)) \<and>
     next_addr (N (L ! j)) = (if Suc j < length L then L ! Suc j else n)"
proof (induction L arbitrary: p j)
  case (Cons a L)
  then show ?case by (cases j; cases L) auto
qed simp

lemma chain_links:
  assumes "leaf_chain tc N L" and "j < length L"
  shows "prev_addr (N (L ! j)) = (if j = 0 then 0 else L ! (j - 1))" and "prev_addr (N (L ! j)) = 0 \<longleftrightarrow> j = 0"
    and "Suc j < length L \<Longrightarrow> next_addr (N (L ! j)) = L ! Suc j"
proof -
  have l: "linked N 0 L 0" "0 \<notin> set L" using assms(1) by (simp_all add: leaf_chain_def)
  note n = linked_nth [OF l(1) assms(2)]
  show p: "prev_addr (N (L ! j)) = (if j = 0 then 0 else L ! (j - 1))" using n by simp
  have "L ! (j - 1) \<in> set L" using assms(2) by simp
  then show "prev_addr (N (L ! j)) = 0 \<longleftrightarrow> j = 0" using l(2) unfolding p by auto
  show "Suc j < length L \<Longrightarrow> next_addr (N (L ! j)) = L ! Suc j" using n by simp
qed

lemma chain_leaf: "leaf_chain tc N L \<Longrightarrow> j < length L \<Longrightarrow> leaf_node tc (N (L ! j))"
  by (simp add: leaf_chain_def)

lemma chain_full: "leaf_chain tc N L \<Longrightarrow> i < length L \<Longrightarrow> j < length L \<Longrightarrow> i \<noteq> j \<Longrightarrow> 0 < leaf_size_at N L i"
  by (fastforce simp: leaf_chain_def simp flip: length_leaf_tuples)

lemma chain_nth_eq: "leaf_chain tc N L \<Longrightarrow> i < length L \<Longrightarrow> j < length L \<Longrightarrow> L ! i = L ! j \<longleftrightarrow> i = j"
  by (simp add: leaf_chain_def nth_eq_iff_index_eq)

text \<open>What a leaf says of a key's place in the whole list.\<close>

lemma chain_count:
  assumes lex: "lexical tc" and ch: "leaf_chain tc N L" and k: "key_short k" and j: "j < length L"
    and le: "key_count tc k (leaf_list N L) \<le> first_pos N L j + leaf_size_at N L j"
  shows "0 < key_count tc k (leaf_tuples (N (L ! j))) \<Longrightarrow>
      key_count tc k (leaf_list N L) = first_pos N L j + key_count tc k (leaf_tuples (N (L ! j)))"
    and "x \<in> set (leaf_tuples (N (L ! j))) \<Longrightarrow> btree_key_compare tc (fst x) k = 0 \<Longrightarrow>
      key_count tc k (leaf_list N L) = first_pos N L j + key_count tc k (leaf_tuples (N (L ! j)))"
    and "key_count tc k (leaf_tuples (N (L ! j))) = 0 \<Longrightarrow> key_count tc k (leaf_list N L) \<le> first_pos N L j"
proof -
  let ?X = "leaf_list N (take j L)" and ?Y = "leaf_tuples (N (L ! j))" and ?Z = "leaf_list N (drop (Suc j) L)"
  have cut: "leaf_list N L = ?X @ ?Y @ ?Z" by (rule leaf_list_cut [OF j])
  have srt: "tuples_sorted tc ((?X @ ?Y) @ ?Z)" "tuples_sorted tc (?X @ ?Y)" "tuples_sorted tc (?X @ ?Y @ ?Z)"
    using ch cut by (auto simp: leaf_chain_def sorted_wrt_append)
  have z: "key_count tc k ?Z = 0"
  proof (rule ccontr)
    assume z: "key_count tc k ?Z \<noteq> 0"
    then have "key_count tc k (?X @ ?Y) = length (?X @ ?Y)" using key_count_cut(1) [OF lex srt(1) k] by simp
    then show False using le z cut by (simp add: first_pos_def)
  qed
  have t: "key_count tc k (leaf_list N L) = key_count tc k ?X + key_count tc k ?Y" using cut z by simp
  show "key_count tc k (leaf_list N L) = first_pos N L j + key_count tc k ?Y" if "0 < key_count tc k ?Y"
    using key_count_cut(1) [OF lex srt(2) k that] t by (simp add: first_pos_def)
  show "key_count tc k (leaf_list N L) = first_pos N L j + key_count tc k ?Y"
    if x: "x \<in> set ?Y" "btree_key_compare tc (fst x) k = 0"
  proof -
    have "btree_key_compare tc (fst y) k < 0" if "y \<in> set ?X" for y
    proof -
      have "btree_key_compare tc (fst y) (fst x) < 0" "key_short (fst y)" "key_short (fst x)"
        using srt(2) that x(1) by (auto simp: sorted_wrt_append)
      then show ?thesis using total_compare.cmp_less_trans [OF lexical_compare [OF lex], of "fst y" "fst x" k] k x(2) by simp
    qed
    then show ?thesis using key_count_all [of ?X tc k] t by (simp add: first_pos_def)
  qed
  show "key_count tc k (leaf_list N L) \<le> first_pos N L j" if "key_count tc k ?Y = 0"
    using t that key_count_le [of tc k ?X] by (simp add: first_pos_def)
qed

section \<open>Where an iterator stands\<close>

text \<open>
  \<open>curr_min_idx\<close> is the place of the first tuple of the range, when that is in the leaf, or -1, when
  all of the leaf is behind it.
\<close>

definition min_place :: "(u64 \<Rightarrow> btree_hdr) \<Rightarrow> u64 list \<Rightarrow> nat \<Rightarrow> int \<Rightarrow> nat \<Rightarrow> bool" where
  "min_place N L j min_idx lo \<longleftrightarrow> 0 \<le> min_idx \<and> int (first_pos N L j) + min_idx = int lo \<or>
     min_idx = - 1 \<and> 0 < j \<and> lo \<le> first_pos N L j"

lemma find_min_place:
  assumes lex: "lexical tc" and ch: "leaf_chain tc N L" and k: "key_short k" and j: "j < length L"
    and le: "key_count tc k (leaf_list N L) \<le> first_pos N L j + leaf_size_at N L j"
    and f: "btree_find_tuple tc (N (L ! j)) k = (i, found)" and m: "m = (if found then i else i + 1)"
    and r: "r = (if \<not> found \<and> m = 0 then - 1 else m)"
  shows "min_place N L j (if r = - 1 \<and> prev_addr (N (L ! j)) = 0 then 0 else r) (key_count tc k (leaf_list N L))"
    and "m \<le> int (leaf_size_at N L j)" and "0 \<le> m" and "m = int (key_count tc k (leaf_tuples (N (L ! j))))"
proof -
  let ?ts = "leaf_tuples (N (L ! j))"
  note c = find_tuple_count [OF lex chain_leaf [OF ch j] k f]
  note cc = chain_count [OF lex ch k j le]
  show mc: "m = int (key_count tc k ?ts)" using c(1) m by simp
  then show "0 \<le> m" "m \<le> int (leaf_size_at N L j)" using key_count_le [of tc k ?ts] by simp_all
  show "min_place N L j (if r = - 1 \<and> prev_addr (N (L ! j)) = 0 then 0 else r) (key_count tc k (leaf_list N L))"
  proof (cases "\<not> found \<and> m = 0")
    case True
    then have "key_count tc k (leaf_list N L) \<le> first_pos N L j" using cc(3) mc by simp
    then show ?thesis using True r chain_links(2) [OF ch j] by (auto simp: min_place_def)
  next
    case False
    have "key_count tc k (leaf_list N L) = first_pos N L j + key_count tc k ?ts"
    proof (cases found)
      case True
      note t = c(2) [OF True]
      then have "?ts ! nat i \<in> set ?ts" by (intro nth_mem) auto
      then show ?thesis using cc(2) t by blast
    qed (use False mc cc(1) in simp)
    then show ?thesis using False r mc by (auto simp: min_place_def)
  qed
qed

definition it_key_count :: "btree_config \<Rightarrow> (u64 \<Rightarrow> btree_hdr) \<Rightarrow> u64 list \<Rightarrow> key \<Rightarrow> nat" where
  "it_key_count tc N L k = key_count tc k (leaf_list N L)"

text \<open>The end that was looked up.\<close>

definition end_known :: "btree_config \<Rightarrow> (u64 \<Rightarrow> btree_hdr) \<Rightarrow> u64 list \<Rightarrow> btree_iterator \<Rightarrow> nat \<Rightarrow> bool" where
  "end_known tc N L it e \<longleftrightarrow> it_height it = 0 \<and> key_short (it_min_key it) \<and> key_short (it_max_key it) \<and>
     e < length L \<and> it_end_addr it = L ! e \<and> it_end_generation it = generation (N (L ! e)) \<and>
     0 \<le> it_end_idx it \<and> it_end_idx it \<le> int (leaf_size_at N L e) \<and>
     int (first_pos N L e) + it_end_idx it = int (it_key_count tc N L (it_max_key it))"

definition standing :: "btree_config \<Rightarrow> (u64 \<Rightarrow> btree_hdr) \<Rightarrow> u64 list \<Rightarrow> btree_iterator \<Rightarrow> nat \<Rightarrow> nat \<Rightarrow> bool" where
  "standing tc N L it j e \<longleftrightarrow> end_known tc N L it e \<and>
     it_key_count tc N L (it_min_key it) < it_key_count tc N L (it_max_key it) \<and>
     it_curr it = L ! j \<and> j \<le> e \<and> (j < e \<longrightarrow> it_idx it < int (leaf_size_at N L j)) \<and>
     int (it_key_count tc N L (it_min_key it)) - 1 \<le> int (first_pos N L j) + it_idx it \<and>
     int (first_pos N L j) + it_idx it \<le> int (it_key_count tc N L (it_max_key it)) \<and>
     min_place N L j (it_curr_min_idx it) (it_key_count tc N L (it_min_key it)) \<and>
     (it_curr_min_idx it = - 1 \<longrightarrow> 0 \<le> it_idx it)"

lemma standing_bounds:
  assumes ch: "leaf_chain tc N L" and s: "standing tc N L it j e"
  shows "btree_iterator_can_next it st \<longleftrightarrow> int (first_pos N L j) + it_idx it < int (it_key_count tc N L (it_max_key it))"
    and "btree_iterator_can_prev it st \<longleftrightarrow> int (it_key_count tc N L (it_min_key it)) \<le> int (first_pos N L j) + it_idx it"
    and "j < length L" and "e < length L"
proof -
  have k: "end_known tc N L it e" "it_curr it = L ! j" "j \<le> e" "it_end_addr it = L ! e" "e < length L"
    using s by (simp_all add: standing_def end_known_def)
  then show l: "j < length L" "e < length L" by simp_all
  have same: "it_curr it = it_end_addr it \<longleftrightarrow> j = e" using chain_nth_eq [OF ch l] k by simp
  have before: "int (first_pos N L j) + it_idx it < int (it_key_count tc N L (it_max_key it))" if "j < e"
    using first_pos_less [of j e L N] s k l that by (simp add: standing_def end_known_def)
  have at_end: "it_curr_min_idx it \<noteq> it_end_idx it" if "j = e"
    using s k that by (auto simp: standing_def end_known_def min_place_def)
  show "btree_iterator_can_next it st \<longleftrightarrow> int (first_pos N L j) + it_idx it < int (it_key_count tc N L (it_max_key it))"
  proof (cases "j = e")
    case True
    then show ?thesis using at_end same k by (auto simp: btree_iterator_can_next_def end_known_def)
  next
    case False
    then show ?thesis using before same k by (simp add: btree_iterator_can_next_def)
  qed
  have other: "it_curr_min_idx it \<noteq> it_end_idx it \<or> it_curr it \<noteq> it_end_addr it" using at_end same by blast
  have "it_curr_min_idx it \<le> it_idx it \<longleftrightarrow> int (it_key_count tc N L (it_min_key it)) \<le> int (first_pos N L j) + it_idx it"
    using s by (auto simp: standing_def min_place_def)
  then show "btree_iterator_can_prev it st \<longleftrightarrow> int (it_key_count tc N L (it_min_key it)) \<le> int (first_pos N L j) + it_idx it"
    using other by (simp add: btree_iterator_can_prev_def)
qed

section \<open>Steps\<close>

lemma end_known_cong:
  assumes "it_height it' = it_height it" "it_min_key it' = it_min_key it" "it_max_key it' = it_max_key it"
    "it_end_addr it' = it_end_addr it" "it_end_generation it' = it_end_generation it" "it_end_idx it' = it_end_idx it"
  shows "end_known tc N L it' e = end_known tc N L it e"
  by (simp add: end_known_def assms)

lemma next_leaf_eq:
  assumes ch: "leaf_chain tc (iter_node st) L" and k: "end_known tc (iter_node st) L it e"
    and c: "it_curr it = L ! j" "Suc j < length L"
  shows "\<exists>ps. btree_iterator_next_leaf ac tc it st =
    (it\<lparr>it_curr := L ! Suc j, it_idx := 0, it_curr_min_idx := - 1\<rparr>, st\<lparr>is_prefetched := ps\<rparr>)"
proof -
  have nx: "next_addr (iter_node st (L ! j)) = L ! Suc j" using chain_links(3) [OF ch _ c(2)] c(2) by simp
  have "\<not> (L ! Suc j = it_end_addr it \<and> generation (iter_node st (L ! Suc j)) \<noteq> it_end_generation it)"
    using k chain_nth_eq [OF ch c(2), of e] by (auto simp: end_known_def)
  moreover have "\<exists>ps. prefetch_next ac it' st = st\<lparr>is_prefetched := ps\<rparr>" for it'
    by (auto simp: prefetch_next_def Let_def intro: exI [of _ "is_prefetched st"])
  ultimately show ?thesis
    by (auto simp: btree_iterator_next_leaf_def Let_def c(1) nx intro: exI [of _ "is_prefetched st"])
qed

lemma next_standing:
  assumes ch: "leaf_chain tc (iter_node st) L" and s: "standing tc (iter_node st) L it j e"
    and can: "btree_iterator_can_next it st"
  shows "\<exists>it' j' ps. btree_iterator_next ac tc it st = Inr (STATUS_OK, it', st\<lparr>is_prefetched := ps\<rparr>) \<and>
    standing tc (iter_node st) L it' j' e \<and> it_root_addr it' = it_root_addr it \<and>
    it_min_key it' = it_min_key it \<and> it_max_key it' = it_max_key it \<and>
    int (first_pos (iter_node st) L j') + it_idx it' = int (first_pos (iter_node st) L j) + it_idx it + 1"
proof -
  let ?N = "iter_node st" and ?it = "it\<lparr>it_idx := it_idx it + 1\<rparr>"
  note b = standing_bounds [OF ch s]
  have k: "end_known tc ?N L it e" "it_curr it = L ! j" "j \<le> e" using s by (simp_all add: standing_def)
  have k': "end_known tc ?N L ?it e" using k(1) by (simp add: end_known_def)
  have lt: "int (first_pos ?N L j) + it_idx it < int (it_key_count tc ?N L (it_max_key it))" using can b(1) by simp
  show ?thesis
  proof (cases "j < e \<and> it_idx it + 1 = int (leaf_size_at ?N L j)")
    case True
    obtain ps where ps: "btree_iterator_next_leaf ac tc ?it st =
        (?it\<lparr>it_curr := L ! Suc j, it_idx := 0, it_curr_min_idx := - 1\<rparr>, st\<lparr>is_prefetched := ps\<rparr>)"
      using next_leaf_eq [of tc st L ?it e j ac, OF ch k'] k(2) True b(4) by auto
    let ?it' = "?it\<lparr>it_curr := L ! Suc j, it_idx := 0, it_curr_min_idx := - 1\<rparr>"
    have "it_curr ?it \<noteq> it_end_addr ?it" using True chain_nth_eq [OF ch b(3,4)] k by (auto simp: end_known_def)
    then have go: "btree_iterator_can_next ?it st" by (simp add: btree_iterator_can_next_def)
    have f: "int (first_pos ?N L (Suc j)) = int (first_pos ?N L j) + it_idx it + 1" using True first_pos_Suc [OF b(3)] by simp
    have "Suc j < e \<Longrightarrow> 0 < leaf_size_at ?N L (Suc j)" using chain_full [OF ch _ b(4), of "Suc j"] b(4) by simp
    then have "standing tc ?N L ?it' (Suc j) e"
      using s True lt f k' by (auto simp: standing_def end_known_def min_place_def)
    then show ?thesis using True k(2) ps go f
      by (intro exI [of _ ?it'] exI [of _ "Suc j"] exI [of _ ps]) (simp add: btree_iterator_next_def Let_def)
  next
    case False
    have "it_idx ?it = int (leaf_size_at ?N L j) \<Longrightarrow> \<not> btree_iterator_can_next ?it st"
      using False k lt by (auto simp: btree_iterator_can_next_def end_known_def)
    then have "btree_iterator_next ac tc it st = Inr (STATUS_OK, ?it, st\<lparr>is_prefetched := is_prefetched st\<rparr>)"
      using k(2) by (auto simp: btree_iterator_next_def Let_def)
    moreover have "standing tc ?N L ?it j e"
      using s False lt k' by (auto simp: standing_def end_known_def)
    ultimately show ?thesis
      by (intro exI [of _ ?it] exI [of _ j] exI [of _ "is_prefetched st"]) simp
  qed
qed

lemma first_key_less:
  assumes lex: "lexical tc" and leaf: "leaf_node tc hdr" and k: "key_short k" and ne: "0 < btree_num_entries hdr"
    and f: "btree_find_tuple tc hdr k = (i, found)"
  shows "btree_key_compare tc k (btree_get_tuple_key hdr 0) < 0 \<longleftrightarrow> \<not> found \<and> (if found then i else i + 1) = 0"
proof -
  let ?ts = "leaf_tuples hdr"
  have first: "btree_get_tuple_key hdr 0 = fst (?ts ! 0)" "?ts ! 0 \<in> set ?ts"
    using ne nth_mem [of 0 ?ts] by (simp_all add: leaf_tuple_def)
  have srt: "tuples_sorted tc ?ts"
    using leaf leaf_keys_short [of _ hdr] by (auto simp: leaf_node_def leaf_sorted_def keys_sorted_def sorted_wrt_map)
  have sh: "key_short (fst (?ts ! 0))" using srt first(2) by blast
  note c = find_tuple_count [OF lex leaf k f]
  have zero: "0 < key_count tc k ?ts \<longleftrightarrow> btree_key_compare tc (fst (?ts ! 0)) k < 0"
    using key_count_nth [OF lex srt k, of 0] ne by simp
  have swap: "btree_key_compare tc k (fst (?ts ! 0)) < 0 \<longleftrightarrow> 0 < btree_key_compare tc (fst (?ts ! 0)) k"
    using total_compare.cmp_swap [OF lexical_compare [OF lex]] k sh by blast
  have at0: "btree_key_compare tc (fst (?ts ! 0)) k = 0 \<Longrightarrow> found"
    using c(4) [of 0] ne by (cases found) auto
  have "found \<Longrightarrow> i = 0 \<Longrightarrow> btree_key_compare tc (fst (?ts ! 0)) k = 0" using c(2) by (auto simp del: nth_leaf_tuples)
  then show ?thesis unfolding first(1) swap using zero c(1) at0
    by (cases "btree_key_compare tc (fst (?ts ! 0)) k" "0 :: int" rule: linorder_cases)
      (auto simp del: nth_leaf_tuples split: if_splits)
qed

lemma prev_leaf_eq:
  assumes lex: "lexical tc" and ch: "leaf_chain tc (iter_node st) L" and k: "end_known tc (iter_node st) L it e"
    and c: "it_curr it = L ! j" "0 < j" "j < length L"
    and lo: "it_key_count tc (iter_node st) L (it_min_key it) \<le> first_pos (iter_node st) L j"
  shows "\<exists>m. btree_iterator_prev_leaf (Suc n) tc it st =
      Inr (it\<lparr>it_curr := L ! (j - 1), it_idx := int (leaf_size_at (iter_node st) L (j - 1)) - 1, it_curr_min_idx := m\<rparr>) \<and>
    min_place (iter_node st) L (j - 1) m (it_key_count tc (iter_node st) L (it_min_key it)) \<and>
    m \<le> int (leaf_size_at (iter_node st) L (j - 1))"
proof -
  let ?N = "iter_node st" and ?a = "L ! (j - 1)"
  let ?hdr = "iter_node st ?a"
  have j: "j - 1 < length L" "Suc (j - 1) = j" using c by simp_all
  have walk: "walk_to_prev (Suc n) (it_curr it) (prev_addr (?N (it_curr it))) st = Inr ?a"
    using chain_links(1) [OF ch c(3)] chain_links(3) [OF ch j(1)] c by simp
  have key: "key_short (it_min_key it)" "it_height it = 0" using k by (simp_all add: end_known_def)
  have ne: "0 < leaf_size_at ?N L (j - 1)" by (rule chain_full [OF ch j(1) c(3)]) (use c(2) in simp)
  obtain i found where f: "btree_find_tuple tc ?hdr (it_min_key it) = (i, found)" by fastforce
  let ?m = "if found then i else i + 1"
  let ?r = "if \<not> found \<and> ?m = 0 then - 1 else ?m"
  have le: "key_count tc (it_min_key it) (leaf_list ?N L) \<le> first_pos ?N L (j - 1) + leaf_size_at ?N L (j - 1)"
    using lo first_pos_Suc [OF j(1), of ?N] j(2) by (simp add: it_key_count_def)
  note mp = find_min_place [OF lex ch key(1) j(1) le f refl refl]
  note less = first_key_less [OF lex chain_leaf [OF ch j(1)] key(1) ne f]
  have r: "(if btree_key_compare tc (it_min_key it) (if it_height it \<noteq> 0 then btree_get_pivot ?hdr 0 else btree_get_tuple_key ?hdr 0) < 0
      then - 1
      else case if it_height it \<noteq> 0 then btree_find_pivot tc ?hdr (it_min_key it) else btree_find_tuple tc ?hdr (it_min_key it) of
        (i, found) \<Rightarrow> if found then i else i + 1) = ?r"
    using less unfolding f by (simp add: key(2))
  have "btree_iterator_prev_leaf (Suc n) tc it st = Inr (it\<lparr>it_curr := ?a, it_idx := int (leaf_size_at ?N L (j - 1)) - 1,
      it_curr_min_idx := (if ?r = - 1 \<and> prev_addr ?hdr = 0 then 0 else ?r)\<rparr>)"
    unfolding btree_iterator_prev_leaf_def walk obind_simps Let_def r by (simp only: conj_commute)
  then show ?thesis using mp by (auto simp: it_key_count_def)
qed

lemma prev_standing:
  assumes lex: "lexical tc" and ch: "leaf_chain tc (iter_node st) L" and s: "standing tc (iter_node st) L it j e"
    and can: "btree_iterator_can_prev it st"
  shows "\<exists>it' j'. btree_iterator_prev (Suc n) tc it st = Inr (STATUS_OK, it', st) \<and>
    standing tc (iter_node st) L it' j' e \<and> it_root_addr it' = it_root_addr it \<and>
    it_min_key it' = it_min_key it \<and> it_max_key it' = it_max_key it \<and>
    int (first_pos (iter_node st) L j') + it_idx it' = int (first_pos (iter_node st) L j) + it_idx it - 1"
proof -
  let ?N = "iter_node st" and ?it = "it\<lparr>it_idx := it_idx it - 1\<rparr>"
  note b = standing_bounds [OF ch s]
  have k: "end_known tc ?N L it e" "it_curr it = L ! j" "j \<le> e" using s by (simp_all add: standing_def)
  have k': "end_known tc ?N L ?it e" using k(1) by (simp add: end_known_def)
  have ge: "int (it_key_count tc ?N L (it_min_key it)) \<le> int (first_pos ?N L j) + it_idx it" using can b(2) by simp
  show ?thesis
  proof (cases "it_curr_min_idx it = - 1 \<and> it_idx it = 0")
    case True
    have j: "0 < j" "it_key_count tc ?N L (it_min_key ?it) \<le> first_pos ?N L j" "Suc (j - 1) = j" "j - 1 < length L"
      using s True b(3) by (auto simp: standing_def min_place_def)
    obtain m where m: "btree_iterator_prev_leaf (Suc n) tc ?it st =
        Inr (?it\<lparr>it_curr := L ! (j - 1), it_idx := int (leaf_size_at ?N L (j - 1)) - 1, it_curr_min_idx := m\<rparr>)"
      "min_place ?N L (j - 1) m (it_key_count tc ?N L (it_min_key ?it))"
      using prev_leaf_eq [of tc st L ?it e j n, OF lex ch k'] k(2) j(1,2) b(3) by auto
    let ?it' = "?it\<lparr>it_curr := L ! (j - 1), it_idx := int (leaf_size_at ?N L (j - 1)) - 1, it_curr_min_idx := m\<rparr>"
    have f: "int (first_pos ?N L j) = int (first_pos ?N L (j - 1)) + int (leaf_size_at ?N L (j - 1))"
      using first_pos_Suc [OF j(4), of ?N] j(3) by simp
    have ne: "0 < leaf_size_at ?N L (j - 1)" by (rule chain_full [OF ch j(4) b(3)]) (use j(1) in simp)
    have "standing tc ?N L ?it' (j - 1) e"
      using s True ge f ne m(2) k' j(1) by (auto simp: standing_def end_known_def)
    then show ?thesis using True m(1) f by (intro exI [of _ ?it'] exI [of _ "j - 1"]) (simp add: btree_iterator_prev_def)
  next
    case False
    then have "btree_iterator_prev (Suc n) tc it st = Inr (STATUS_OK, ?it, st)"
      by (auto simp: btree_iterator_prev_def simp del: walk_to_prev.simps)
    moreover have "standing tc ?N L ?it j e" using s False ge k' by (auto simp: standing_def end_known_def)
    ultimately show ?thesis by (intro exI [of _ ?it] exI [of _ j]) simp
  qed
qed

end
