(* ===== verification/BtPages.thy ===== *)
theory BtPages
  imports BtShape
begin

unbundle bit_operations_syntax

text \<open>
  The contract of the allocator of pages, and what the operations of an insertion do to the pages
  at their addresses: \<open>btree_insert_step\<close> on an index node and its parent, and making room in a
  leaf. The only failures are those of the allocator.
\<close>

section \<open>Results\<close>

text \<open>A result that satisfies \<open>Q\<close>, or a failure out of \<open>F\<close>.\<close>

definition sat :: "(fail \<Rightarrow> bool) \<Rightarrow> ('x \<Rightarrow> bool) \<Rightarrow> 'x outcome \<Rightarrow> bool" where
  "sat F Q r \<longleftrightarrow> (case r of Inl e \<Rightarrow> F e | Inr x \<Rightarrow> Q x)"

lemma sat_simps [simp]: "sat F Q (Inl e) \<longleftrightarrow> F e" "sat F Q (Inr x) \<longleftrightarrow> Q x"
  by (simp_all add: sat_def)

lemma sat_obind: "sat F P r \<Longrightarrow> (\<And>x. P x \<Longrightarrow> sat F Q (g x)) \<Longrightarrow> sat F Q (obind r g)"
  by (cases r) simp_all

lemma sat_mono: "sat F P r \<Longrightarrow> (\<And>x. P x \<Longrightarrow> Q x) \<Longrightarrow> sat F Q r"
  by (cases r) simp_all

section \<open>The allocator of pages\<close>

text \<open>There is a batch for the height; or there is none, and stopping the process is among the failures.\<close>

definition fits :: "(fail \<Rightarrow> bool) \<Rightarrow> nat \<Rightarrow> bool" where
  "fits F h \<longleftrightarrow> h < BTREE_MAX_HEIGHT \<or> F Abort"

lemma fits_mono: "fits F h \<Longrightarrow> h' \<le> h \<Longrightarrow> fits F h'"
  by (auto simp: fits_def)

locale page_source =
  fixes al :: "'a page_alloc" and ok :: "'a \<Rightarrow> u64 set \<Rightarrow> bool" and fails :: "fail \<Rightarrow> bool"
  assumes alloc: "ok m A \<Longrightarrow> h < BTREE_MAX_HEIGHT \<Longrightarrow>
      sat fails (\<lambda>(a, page, m'). a \<notin> A \<and> a \<noteq> 0 \<and> a AND NOT 0xFFF = a \<and> ok m' (insert a A)) (al h m)"

text \<open>Of the refusals to come, some have been used up.\<close>

definition refusals :: "'a bt_state \<Rightarrow> nat" where
  "refusals st = length (filter Not (bt_claims st))"

definition later :: "'a bt_state \<Rightarrow> 'a bt_state \<Rightarrow> bool" where
  "later st st' \<longleftrightarrow> refusals st' \<le> refusals st"

definition refused :: "'a bt_state \<Rightarrow> 'a bt_state \<Rightarrow> bool" where
  "refused st st' \<longleftrightarrow> refusals st' < refusals st"

definition only_answers :: "'a bt_state \<Rightarrow> 'a bt_state \<Rightarrow> bool" where
  "only_answers st st' \<longleftrightarrow> bt_nodes st' = bt_nodes st \<and> bt_mini st' = bt_mini st \<and> later st st'"

lemma later_refl [simp]: "later st st" "only_answers st st"
  by (simp_all add: later_def only_answers_def)

lemma later_trans: "later a b \<Longrightarrow> later b c \<Longrightarrow> later a c"
  by (simp add: later_def)

lemma later_refused: "later a b \<Longrightarrow> refused b c \<Longrightarrow> refused a c" "refused a b \<Longrightarrow> later b c \<Longrightarrow> refused a c"
  by (simp_all add: later_def refused_def)

lemma only_answers_trans: "only_answers a b \<Longrightarrow> only_answers b c \<Longrightarrow> only_answers a c"
  by (simp add: only_answers_def later_def)

lemma node_claim:
  assumes "btree_node_claim st = (claimed, st')"
  shows "only_answers st st'" and "\<not> claimed \<Longrightarrow> refused st st'"
  using assms by (auto simp: btree_node_claim_def only_answers_def later_def refused_def refusals_def split: list.splits)

lemma claim_wait: "claim_wait st = (waited, st') \<Longrightarrow> only_answers st st'"
proof -
  have "length (filter Not (drop 1 (dropWhile Not bs))) \<le> length (filter Not bs)" for bs by (induction bs) auto
  then show "claim_wait st = (waited, st') \<Longrightarrow> only_answers st st'"
    by (auto simp: claim_wait_def only_answers_def later_def refusals_def)
qed

lemma claim_retry:
  "claim_retry n st = (claimed, st') \<Longrightarrow> only_answers st st' \<and> (\<not> claimed \<longrightarrow> 0 < n \<longrightarrow> refused st st')"
proof (induction n arbitrary: st)
  case (Suc n)
  obtain c st1 where c: "btree_node_claim st = (c, st1)" by fastforce
  note s = node_claim [OF c]
  show ?case
  proof (cases c)
    case True
    then show ?thesis using Suc.prems c s by simp
  next
    case False
    then have "claim_retry n st1 = (claimed, st')" using Suc.prems c by simp
    then show ?thesis
      using Suc.IH [of st1] s(1) s(2) [OF False] only_answers_trans [OF s(1)] later_refused(2) only_answers_def by metis
  qed
qed simp

section \<open>Lowering the smallest key of a node\<close>

definition lowered_pivots :: "key \<Rightarrow> int \<Rightarrow> pivot list \<Rightarrow> pivot list" where
  "lowered_pivots k idx ps = (if idx < 0 then ps[0 := (k, snd (ps ! 0))] else ps)"

lemma lowered_pivots_simps [simp]:
  "length (lowered_pivots k idx ps) = length ps"
  "map (\<lambda>x. fst (snd x)) (lowered_pivots k idx ps) = map (\<lambda>x. fst (snd x)) ps"
proof -
  show "length (lowered_pivots k idx ps) = length ps" by (simp add: lowered_pivots_def)
  show "map (\<lambda>x. fst (snd x)) (lowered_pivots k idx ps) = map (\<lambda>x. fst (snd x)) ps"
    by (cases ps) (simp_all add: lowered_pivots_def)
qed

lemma lowered_small:
  assumes "\<forall>x \<in> set ps. key_length (fst x) \<le> M" and "key_length k \<le> M"
  shows "\<forall>x \<in> set (lowered_pivots k idx ps). key_length (fst x) \<le> M"
  using assms by (cases ps) (auto simp: lowered_pivots_def)

lemma index_node_ok:
  assumes "1024 \<le> bt_page_size cfg" and "index_node cfg h hdr"
  shows "index_ok cfg hdr" and "index_wf cfg hdr"
  using assms safe_key_size(2) [OF assms(1)] by (auto simp: index_node_def index_ok_def)

text \<open>What \<open>lower_min_key\<close> answers: the entry is set, or there was no room and it is to be set later.\<close>

lemma lower_min_key_result:
  assumes wf: "index_wf cfg hdr" and n: "0 < btree_num_entries hdr"
  shows "\<exists>need hdr'. lower_min_key hdr k idx = Inr (nat idx, need, hdr') \<and>
    (need \<longrightarrow> idx < 0 \<and> hdr' = hdr \<and> unat (next_entry hdr) < table_end (btree_num_entries hdr) + (23 + key_length k)) \<and>
    (\<not> need \<longrightarrow> index_wf cfg hdr' \<and> hdr_links hdr' = hdr_links hdr \<and> node_pivots hdr' = lowered_pivots k idx (node_pivots hdr))"
proof (cases "idx < 0")
  case True
  then show ?thesis
    using set_min_key_result [OF wf n, of k] by (auto simp: lower_min_key_def lowered_pivots_def min_lowered_def not_le split: if_splits)
next
  case False
  then show ?thesis using wf by (intro exI [of _ False]) (simp add: lower_min_key_def lowered_pivots_def)
qed

text \<open>An index node after a step: a part of the pivots at the same height.\<close>

definition index_part :: "btree_config \<Rightarrow> btree_hdr \<Rightarrow> pivot list \<Rightarrow> btree_hdr \<Rightarrow> bool" where
  "index_part cfg hdr ps hdr' \<longleftrightarrow> index_wf cfg hdr' \<and> height hdr' = height hdr \<and> node_pivots hdr' = ps"

lemma index_part_node:
  assumes "index_node cfg h hdr" and "index_part cfg hdr ps hdr'" and "\<forall>x \<in> set ps. key_length (fst x) \<le> safe_key_size cfg"
  shows "index_node cfg h hdr'"
  using assms by (simp add: index_node_def index_part_def)

lemma finish_min_key_part:
  assumes part: "index_part cfg hdr ps hdr1" and roomy: "need \<Longrightarrow> roomy cfg hdr1" and takes: "\<not> need \<Longrightarrow> takes_pivot (safe_key_size cfg) hdr1"
    and k: "key_length k \<le> safe_key_size cfg" and ps: "ps \<noteq> []"
  shows "\<exists>hdr2. finish_min_key need hdr1 k = Inr hdr2 \<and> takes_pivot (safe_key_size cfg) hdr2 \<and>
    index_part cfg hdr (if need then lowered_pivots k (- 1) ps else ps) hdr2"
proof (cases need)
  case True
  have wf: "index_wf cfg hdr1" and p: "node_pivots hdr1 = ps" "height hdr1 = height hdr" using part by (simp_all add: index_part_def)
  then have n: "0 < btree_num_entries hdr1" using ps num_pivots [OF p(1)] by simp
  have "table_end (btree_num_entries hdr1) + (23 + key_length k) \<le> unat (next_entry hdr1)"
    using roomy [OF True] k by (simp add: roomy_def table_end_eq)
  then obtain hdr2 where s: "set_min_key hdr1 k = Inr (True, hdr2)" "min_lowered cfg k hdr1 hdr2"
    using set_min_key_result [OF wf n, of k] by auto
  have "takes_pivot (safe_key_size cfg) hdr2" by (rule roomy_lowered [OF roomy [OF True] s(2) k])
  moreover have "index_part cfg hdr (lowered_pivots k (- 1) ps) hdr2"
    using s(2) p by (simp add: index_part_def min_lowered_def lowered_pivots_def hdr_links_def)
  ultimately show ?thesis using s(1) True by (simp add: finish_min_key_def)
next
  case False
  then show ?thesis using part takes by (simp add: finish_min_key_def)
qed

section \<open>A step through an index node\<close>

text \<open>
  The node at \<open>c\<close>, child \<open>i\<close> of the one at \<open>p\<close>, holds \<open>ps\<close>; or its first part, and a new node at
  \<open>right\<close>, the next child, the rest. The descent goes on at \<open>q\<close>, with the pivot that was \<open>next\<close>.
\<close>

definition index_split ::
  "btree_config \<Rightarrow> (u64 \<Rightarrow> btree_hdr) \<Rightarrow> u64 set \<Rightarrow> u64 \<Rightarrow> nat \<Rightarrow> u64 \<Rightarrow> pivot list \<Rightarrow> nat \<Rightarrow> u64 \<Rightarrow>
   (u64 \<Rightarrow> btree_hdr) \<Rightarrow> u64 set \<Rightarrow> bool" where
  "index_split cfg N A p i c ps s right N' A' \<longleftrightarrow>
     0 < s \<and> s < length ps \<and> right \<notin> A \<and> A' = insert right A \<and>
     (\<forall>a \<in> A. a \<noteq> c \<longrightarrow> a \<noteq> p \<longrightarrow> N' a = N a) \<and>
     index_part cfg (N c) (take s ps) (N' c) \<and> index_part cfg (N c) (drop s ps) (N' right) \<and>
     index_ok cfg (N' p) \<and> hdr_links (N' p) = hdr_links (N p) \<and>
     node_pivots (N' p) = take (i + 1) (node_pivots (N p)) @ [(fst (ps ! s), right, BTREE_PIVOT_STATS_UNKNOWN)] @
       drop (i + 1) (node_pivots (N p))"

definition index_step ::
  "btree_config \<Rightarrow> (u64 \<Rightarrow> btree_hdr) \<Rightarrow> u64 set \<Rightarrow> u64 \<Rightarrow> nat \<Rightarrow> u64 \<Rightarrow> pivot list \<Rightarrow> nat \<Rightarrow>
   (u64 \<Rightarrow> btree_hdr) \<Rightarrow> u64 set \<Rightarrow> u64 \<Rightarrow> nat \<Rightarrow> bool" where
  "index_step cfg N A p i c ps next N' A' q j \<longleftrightarrow>
     q = c \<and> j = next \<and> A' = A \<and> index_part cfg (N c) ps (N' c) \<and> (\<forall>a. a \<noteq> c \<longrightarrow> N' a = N a) \<or>
     (\<exists>s right. index_split cfg N A p i c ps s right N' A' \<and> (q, j) = (if next < s then (c, next) else (right, next - s)))"

lemma index_step_cases:
  assumes "index_step cfg N A p i c ps next N' A' q j"
  obtains (Kept) "q = c" "j = next" "A' = A" "index_part cfg (N c) ps (N' c)" "\<And>a. a \<noteq> c \<Longrightarrow> N' a = N a"
  | (Split) s right where "index_split cfg N A p i c ps s right N' A'" "(q, j) = (if next < s then (c, next) else (right, next - s))"
  using assms unfolding index_step_def by blast

lemma index_step_from:
  assumes "index_step cfg (N(c := hdr)) A p i c ps next N' A' q j" and "height hdr = height (N c)" and "p \<noteq> c"
  shows "index_step cfg N A p i c ps next N' A' q j"
  using assms unfolding index_step_def index_split_def index_part_def by simp

lemma index_step_lower:
  assumes st: "index_step cfg N A p i c ps 0 N' A' q j" and part: "index_part cfg (N' q) (lowered_pivots k (- 1) (node_pivots (N' q))) hdr"
    and c: "c \<in> A" "p \<noteq> c"
  shows "index_step cfg N A p i c (lowered_pivots k (- 1) ps) 0 (N'(q := hdr)) A' q j"
  using st
proof (cases rule: index_step_cases)
  case Kept
  then show ?thesis using part by (simp add: index_step_def index_part_def)
next
  case (Split s right)
  note d = Split(1) [unfolded index_split_def]
  have s: "0 < s" and r: "right \<noteq> c" using d c by auto
  then have q: "q = c" "j = 0" using Split(2) by simp_all
  have "take s (lowered_pivots k (- 1) ps) = lowered_pivots k (- 1) (take s ps)"
    "drop s (lowered_pivots k (- 1) ps) = drop s ps" "lowered_pivots k (- 1) ps ! s = ps ! s"
    using s by (simp_all add: lowered_pivots_def take_update_swap)
  then have "index_split cfg N A p i c (lowered_pivots k (- 1) ps) s right (N'(c := hdr)) A'"
    using d part c r unfolding q index_split_def by (simp add: index_part_def)
  then show ?thesis using q s unfolding index_step_def by auto
qed

lemma index_step_node:
  assumes "index_step cfg N A p i c ps next N' A' q j" and "next < length ps" and "c \<in> A" "p \<noteq> c"
  shows "index_wf cfg (N' q)" and "node_pivots (N' q) \<noteq> []" and "index_part cfg (N' q) (node_pivots (N' q)) (N' q)"
    and "A \<subseteq> A'" and "q \<in> A'"
proof -
  have "index_wf cfg (N' q) \<and> node_pivots (N' q) \<noteq> [] \<and> A \<subseteq> A' \<and> q \<in> A'"
    using assms(1)
  proof (cases rule: index_step_cases)
    case Kept
    then show ?thesis using assms(2,3) by (auto simp: index_part_def)
  next
    case (Split s right)
    then show ?thesis using assms(2,3) by (auto simp: index_split_def index_part_def split: if_splits)
  qed
  then show "index_wf cfg (N' q)" "node_pivots (N' q) \<noteq> []" "index_part cfg (N' q) (node_pivots (N' q)) (N' q)" "A \<subseteq> A'" "q \<in> A'"
    by (simp_all add: index_part_def)
qed

text \<open>A node that is not full takes every key right away.\<close>

lemma not_full_lowers:
  assumes "\<not> btree_index_is_full cfg hdr" and "key_length k \<le> MAX_INLINE_KEY_SIZE (bt_page_size cfg)"
  shows "table_end (btree_num_entries hdr) + (23 + key_length k) \<le> unat (next_entry hdr)"
  using not_full_takes [OF assms] by (simp add: takes_pivot_def table_end_eq sizeof_index_entry_struct_def sizeof_ondisk_key_def)

context page_source
begin

lemma alloc_page:
  assumes ok: "ok (bt_mini st) A" and h: "fits fails h"
  shows "sat fails (\<lambda>(a, st'). a \<notin> A \<and> a \<noteq> 0 \<and> a AND NOT 0xFFF = a \<and> ok (bt_mini st') (insert a A) \<and>
    (\<exists>page. bt_nodes st' = (bt_nodes st)(a := page)) \<and> bt_claims st' = bt_claims st) (btree_alloc al h st)"
proof (cases "h < BTREE_MAX_HEIGHT")
  case True
  have "sat fails (\<lambda>(a, page, m'). a \<notin> A \<and> a \<noteq> 0 \<and> a AND NOT 0xFFF = a \<and> ok m' (insert a A)) (al h (bt_mini st))"
    by (rule alloc [OF ok True])
  then show ?thesis
    unfolding btree_alloc_def using True by (simp, elim sat_obind) (auto simp: set_node_def)
qed (use h in \<open>simp add: btree_alloc_def fits_def\<close>)

lemma make_room_index_step:
  fixes st :: "'a bt_state"
  defines "N \<equiv> bt_nodes st"
  assumes P: "1024 \<le> bt_page_size cfg" and ok: "ok (bt_mini st) A" "0 \<notin> A" and at: "p \<in> A" "c \<in> A" "p \<noteq> c"
    and child: "index_node cfg h (N c)" "fits fails h"
    and parent: "index_ok cfg (N p)" "takes_pivot (safe_key_size cfg) (N p)" "i < btree_num_entries (N p)"
    and nx: "next < 2 ^ 64"
  shows "sat fails (\<lambda>(q, j, st'). bt_claims st' = bt_claims st \<and> (\<exists>A'. ok (bt_mini st') A' \<and> 0 \<notin> A' \<and>
      index_step cfg N A p i c (node_pivots (N c)) next (bt_nodes st') A' q j \<and> roomy cfg (bt_nodes st' q)))
    (make_room_index cfg al p i c next st)"
proof -
  let ?room = "index_entry_bytes (N c) + btree_num_entries (N c) * sizeof_index_entry_struct < BTREE_SPLIT_THRESHOLD (bt_page_size cfg)"
  note cok = index_node_ok [OF P child(1)]
  have keys: "\<forall>x \<in> set (node_pivots (N c)). key_length (fst x) \<le> safe_key_size cfg" using child(1) by (simp add: index_node_def)
  show ?thesis
  proof (cases ?room)
    case True
    obtain c' where c': "btree_defragment_index cfg (N c) = Inr c'" "index_compact cfg c'" "node_pivots c' = node_pivots (N c)"
      "hdr_links c' = hdr_links (N c)" using defragment_index_effect [OF cok(2)] by blast
    have "roomy cfg c'" by (rule defragmented_roomy [OF c'(2,3) P True])
    moreover have "index_part cfg (N c) (node_pivots (N c)) c'"
      using c' by (simp add: index_part_def compact_index_wf hdr_links_def)
    moreover have "c \<noteq> 0" "p \<noteq> 0" using at ok(2) by auto
    moreover from this have "put_family p c 0 0 \<lparr>fam_parent = N p, fam_child = c', fam_right = N 0, fam_next = None\<rparr> st = set_node c c' st"
      by (simp add: put_family_def set_node_def N_def fun_upd_idem fun_upd_twist [OF at(3)])
    ultimately show ?thesis
      using True c'(1) ok at
      unfolding make_room_index_def Let_def N_def [symmetric] if_P [OF True]
      by (auto simp: btree_defragment_or_split_child_index_def index_step_def set_node_def N_def intro!: exI [of _ A])
  next
    case False
    have "fits fails (unat (btree_height (N c)))" using child by (simp add: index_node_def btree_height_def)
    note al = alloc_page [OF ok(1) this]
    define s where "s = btree_choose_index_split (N c)"
    show ?thesis
      unfolding make_room_index_def Let_def N_def [symmetric] if_not_P [OF False]
    proof (rule sat_obind [OF al])
      fix x :: "u64 \<times> 'a bt_state"
      obtain right st1 where x: "x = (right, st1)" by fastforce
      let ?f = "\<lparr>fam_parent = N p, fam_child = N c, fam_right = bt_nodes st1 right, fam_next = None\<rparr>"
      assume "case x of (a, st') \<Rightarrow> a \<notin> A \<and> a \<noteq> 0 \<and> a AND NOT 0xFFF = a \<and> ok (bt_mini st') (insert a A) \<and>
        (\<exists>page. bt_nodes st' = (bt_nodes st)(a := page)) \<and> bt_claims st' = bt_claims st"
      then have r: "right \<notin> A" "right \<noteq> 0" "right AND NOT 0xFFF = right" "ok (bt_mini st1) (insert right A)"
        "bt_claims st1 = bt_claims st" "\<And>a. a \<in> A \<Longrightarrow> bt_nodes st1 a = N a"
        by (auto simp: N_def x)
      have "bt_page_size cfg div 2 \<le> index_entry_bytes (N c) + btree_num_entries (N c) * sizeof_index_entry_struct"
        using False by (simp add: BTREE_SPLIT_THRESHOLD_def)
      then obtain f' where f': "btree_split_child_index cfg i right (int next) ?f =
          Inr (\<not> int next < int s, if int next < int s then int next else int next - int s, f')"
        "index_was_split cfg i right ?f s f'"
        using split_child_index_effect [of cfg ?f "safe_key_size cfg" i right "int next", folded s_def]
          cok parent r(3) P keys safe_key_size(2) [OF P] nx by (auto simp: s_def)
      have room: "roomy cfg (fam_child f')" "roomy cfg (fam_right f')"
        using split_rooms [of cfg ?f i right f'] cok(2) P keys f'(2) by (simp_all add: s_def)
      note d = f'(2) [unfolded index_was_split_def Let_def, simplified]
      have ne: "right \<noteq> p" "right \<noteq> c" using r(1) at by auto
      let ?st = "put_family p c right 0 f' st1"
      have n: "bt_nodes ?st = (bt_nodes st1)(p := fam_parent f', c := fam_child f', right := fam_right f')"
        "bt_mini ?st = bt_mini st1" "bt_claims ?st = bt_claims st"
        using d r(5) by (simp_all add: put_family_def)
      have "index_split cfg N A p i c (node_pivots (N c)) s right (bt_nodes ?st) (insert right A)"
        unfolding index_split_def n using d r ne at index_okD(1) by (auto simp: index_part_def)
      then have "index_step cfg N A p i c (node_pivots (N c)) next (bt_nodes ?st) (insert right A)
          (if next < s then c else right) (if next < s then next else next - s)"
        unfolding index_step_def by auto
      moreover have "roomy cfg (bt_nodes ?st (if next < s then c else right))" using room ne at(3) by (simp add: n)
      ultimately show "sat fails (\<lambda>(q, j, st'). bt_claims st' = bt_claims st \<and> (\<exists>A'. ok (bt_mini st') A' \<and> 0 \<notin> A' \<and>
          index_step cfg N A p i c (node_pivots (N c)) next (bt_nodes st') A' q j \<and> roomy cfg (bt_nodes st' q)))
        (case x of (right, st1) \<Rightarrow>
          obind (btree_defragment_or_split_child_index cfg i right (int next)
            \<lparr>fam_parent = bt_nodes st1 p, fam_child = bt_nodes st1 c, fam_right = bt_nodes st1 right, fam_next = None\<rparr>)
          (\<lambda>(goes_right, idx, f). Inr (if goes_right then right else c, nat idx, put_family p c right 0 f st1)))"
        using f'(1) False r(2,4) ok(2) n at r(6)
        by (auto simp: x btree_defragment_or_split_child_index_def Let_def nat_diff_distrib' split: if_splits)
    qed
  qed
qed

lemma insert_step_result:
  fixes st :: "'a bt_state"
  defines "N \<equiv> bt_nodes st"
  assumes P: "1024 \<le> bt_page_size cfg" and k: "key_length k \<le> safe_key_size cfg"
    and ok: "ok (bt_mini st) A" "0 \<notin> A" and at: "p \<in> A" "c \<in> A" "p \<noteq> c"
    and child: "index_node cfg h (N c)" "fits fails h" "0 < btree_num_entries (N c)"
    and parent: "index_ok cfg (N p)" "takes_pivot (safe_key_size cfg) (N p)" "i < btree_num_entries (N p)"
  defines "idx \<equiv> fst (btree_find_pivot cfg (N c) k)"
  assumes idx: "nat idx < btree_num_entries (N c)"
  shows "sat fails (\<lambda>r. case r of Inl st' \<Rightarrow> bt_nodes st' = N \<and> bt_mini st' = bt_mini st \<and> refused st st'
      | Inr (q, j, st') \<Rightarrow> later st st' \<and> (\<exists>A'. ok (bt_mini st') A' \<and> 0 \<notin> A' \<and>
          index_step cfg N A p i c (lowered_pivots k idx (node_pivots (N c))) (nat idx) (bt_nodes st') A' q j \<and>
          takes_pivot (safe_key_size cfg) (bt_nodes st' q)))
    (btree_insert_step cfg al k p i c st)" (is "sat fails ?Q _")
proof -
  note safe = safe_key_size(2) [OF P]
  note cok = index_node_ok [OF P child(1)]
  let ?ps = "lowered_pivots k idx (node_pivots (N c))"
  have small: "\<forall>x \<in> set (node_pivots (N c)). key_length (fst x) \<le> safe_key_size cfg" using child(1) by (simp add: index_node_def)
  show ?thesis
  proof (cases "idx < 0 \<or> btree_index_is_full cfg (N c)")
    case False
    then have "takes_pivot (safe_key_size cfg) (N c)" using not_full_takes safe by blast
    moreover have "index_step cfg N A p i c ?ps (nat idx) N A c (nat idx)"
      using cok(2) False by (simp add: index_step_def index_part_def lowered_pivots_def)
    ultimately show ?thesis using False ok by (auto simp: btree_insert_step_def Let_def N_def idx_def)
  next
    case True
    obtain c1 st1 where c1: "btree_node_claim st = (c1, st1)" by fastforce
    obtain c2 st2 where c2: "btree_node_claim st1 = (c2, st2)" by fastforce
    note a = node_claim [OF c1] node_claim [OF c2]
    have a1: "bt_nodes st1 = N" "bt_mini st1 = bt_mini st" "\<not> c1 \<Longrightarrow> refused st st1"
      using a by (auto simp: only_answers_def N_def)
    have a2: "bt_nodes st2 = N" "bt_mini st2 = bt_mini st" "later st st2" "\<not> c2 \<Longrightarrow> refused st st2"
      using a only_answers_trans [OF a(1) a(3)] later_refused(1) [of st st1 st2] by (auto simp: only_answers_def N_def)
    obtain need hdr1 where low: "lower_min_key (N c) k idx = Inr (nat idx, need, hdr1)"
      "need \<longrightarrow> idx < 0 \<and> hdr1 = N c \<and> unat (next_entry (N c)) < table_end (btree_num_entries (N c)) + (23 + key_length k)"
      "\<not> need \<longrightarrow> index_wf cfg hdr1 \<and> hdr_links hdr1 = hdr_links (N c) \<and> node_pivots hdr1 = ?ps"
      using lower_min_key_result [OF cok(2) child(3)] by blast
    have n1: "index_node cfg h hdr1" and len: "nat idx < length (node_pivots hdr1)" and hh: "height hdr1 = height (N c)"
      using low(2,3) child(1) lowered_small [OF small k, of idx] idx num_pivots [of hdr1]
      by (cases need; simp add: index_node_def hdr_links_def)+
    have need_full: "need \<Longrightarrow> btree_index_is_full cfg hdr1"
      using low(2) not_full_lowers [of cfg hdr1 k] k safe by force
    have nx: "nat idx < 2 ^ 64" using idx num_entries_small [OF cok(2) [unfolded index_wf_def]] by simp
    let ?st3 = "set_node c hdr1 st2"
    have n3: "bt_nodes ?st3 = N(c := hdr1)" "bt_mini ?st3 = bt_mini st" "later st ?st3"
      using a2 by (simp_all add: set_node_def later_def refusals_def)
    define R where "R = (\<lambda>(q, j, st4). later st st4 \<and> (\<exists>A'. ok (bt_mini st4) A' \<and> 0 \<notin> A' \<and>
        index_step cfg N A p i c (node_pivots hdr1) (nat idx) (bt_nodes st4) A' q j \<and>
        (need \<longrightarrow> roomy cfg (bt_nodes st4 q)) \<and> takes_pivot (safe_key_size cfg) (bt_nodes st4 q)))"
    have room: "sat fails R (if btree_index_is_full cfg hdr1 then make_room_index cfg al p i c (nat idx) ?st3
        else Inr (c, nat idx, ?st3))"
    proof (cases "btree_index_is_full cfg hdr1")
      case True
      have "sat fails (\<lambda>(q, j, st'). bt_claims st' = bt_claims ?st3 \<and> (\<exists>A'. ok (bt_mini st') A' \<and> 0 \<notin> A' \<and>
          index_step cfg (bt_nodes ?st3) A p i c (node_pivots (bt_nodes ?st3 c)) (nat idx) (bt_nodes st') A' q j \<and>
          roomy cfg (bt_nodes st' q))) (make_room_index cfg al p i c (nat idx) ?st3)"
        by (rule make_room_index_step [OF P, where h = h]) (use n1 n3 ok at parent child(2) nx in simp_all)
      then show ?thesis
        unfolding if_P [OF True]
        by (rule sat_mono) (use index_step_from [where N = N and hdr = hdr1, OF _ hh at(3)] roomy_takes n3 in \<open>auto simp: R_def later_def refusals_def\<close>)
    next
      case False
      have "index_step cfg N A p i c (node_pivots hdr1) (nat idx) (N(c := hdr1)) A c (nat idx)"
        using n1 hh by (simp add: index_step_def index_part_def index_node_def)
      then show ?thesis
        using False need_full not_full_takes [OF False safe] ok n3 by (auto simp: R_def)
    qed
    have "sat fails ?Q (obind (finish_min_key need (bt_nodes st4 q) k) (\<lambda>hdr2. Inr (Inr (q, j, set_node q hdr2 st4))))"
      if R4: "R (q, j, st4)" for q j st4
    proof -
      obtain A' where r: "later st st4" "ok (bt_mini st4) A'" "0 \<notin> A'"
        "index_step cfg N A p i c (node_pivots hdr1) (nat idx) (bt_nodes st4) A' q j"
        "need \<longrightarrow> roomy cfg (bt_nodes st4 q)" "takes_pivot (safe_key_size cfg) (bt_nodes st4 q)"
        using R4 by (auto simp: R_def)
      note nd = index_step_node [OF r(4) len at(2,3)]
      obtain hdr2 where f: "finish_min_key need (bt_nodes st4 q) k = Inr hdr2" "takes_pivot (safe_key_size cfg) hdr2"
        "index_part cfg (bt_nodes st4 q) (if need then lowered_pivots k (- 1) (node_pivots (bt_nodes st4 q)) else node_pivots (bt_nodes st4 q)) hdr2"
        using finish_min_key_part [OF nd(3), of need k] r(5,6) k nd(2) by blast
      have "index_step cfg N A p i c ?ps (nat idx) ((bt_nodes st4)(q := hdr2)) A' q j"
      proof (cases need)
        case True
        then have i0: "nat idx = 0" "?ps = lowered_pivots k (- 1) (node_pivots hdr1)" using low(2) by (auto simp: lowered_pivots_def)
        show ?thesis unfolding i0 by (rule index_step_lower [OF r(4) [unfolded i0]]) (use f(3) True at in simp_all)
      next
        case False
        then have "hdr2 = bt_nodes st4 q" using f(1) by (simp add: finish_min_key_def)
        then show ?thesis using r(4) low(3) False by simp
      qed
      then show ?thesis using f(1,2) r(1-3) by (auto simp: set_node_def later_def refusals_def)
    qed
    then have "sat fails ?Q (obind (if btree_index_is_full cfg hdr1 then make_room_index cfg al p i c (nat idx) ?st3
        else Inr (c, nat idx, ?st3)) (\<lambda>(new_parent, next_idx, st4). obind (finish_min_key need (bt_nodes st4 new_parent) k) (\<lambda>hdr2.
            Inr (Inr (new_parent, next_idx, set_node new_parent hdr2 st4)))))"
      by (intro sat_obind [OF room]) auto
    then show ?thesis
      unfolding btree_insert_step_def Let_def N_def [symmetric] idx_def [symmetric] if_P [OF True] c1 c2 prod.case
      using a1 a2 low(1) by (cases c1; cases c2) simp_all
  qed
qed

end

end
