(* ===== verification/BtLeafStep.thy ===== *)
theory BtLeafStep
  imports BtPages BtShape
begin

unbundle bit_operations_syntax

text \<open>
  The last step of an insertion: the leaf takes the tuple, is defragmented for it or is split, and
  then holds the list after \<open>upsert\<close> - alone, or together with a new leaf on its right for which
  the parent gets a pivot.
\<close>

section \<open>What is inserted\<close>

text \<open>
  A key that is safe, a message within the bounds, and a merge callback that keeps to them: it
  answers an error, or a message that \<open>btree_insert\<close> would take.
\<close>

definition insert_ok :: "btree_config \<Rightarrow> key \<Rightarrow> message \<Rightarrow> bool" where
  "insert_ok cfg k msg \<longleftrightarrow> config_ok cfg \<and> lexical cfg \<and> tuple_small cfg (k, msg) \<and> msg_type msg \<noteq> MESSAGE_TYPE_PIVOT_DATA \<and>
     (\<forall>old. message_length old \<le> MAX_INLINE_MESSAGE_SIZE (bt_page_size cfg) \<longrightarrow>
        (\<exists>res m. data_merge_tuples (bt_data_cfg cfg) k old msg = Inr (res, m) \<and>
           (res = 0 \<longrightarrow> message_length m \<le> MAX_INLINE_MESSAGE_SIZE (bt_page_size cfg) \<and> msg_type m \<noteq> MESSAGE_TYPE_PIVOT_DATA)))"

abbreviation inserted :: "btree_config \<Rightarrow> key \<Rightarrow> message \<Rightarrow> (key \<times> message) list \<Rightarrow> (key \<times> message) list" where
  "inserted cfg k msg \<equiv> upsert (btree_key_compare cfg) (merged cfg k msg) k msg"

definition has_key :: "btree_config \<Rightarrow> key \<Rightarrow> (key \<times> message) list \<Rightarrow> bool" where
  "has_key cfg k ts \<longleftrightarrow> (\<exists>t \<in> set ts. btree_key_compare cfg (fst t) k = 0)"

lemma small_page: "leaf_wf cfg hdr \<Longrightarrow> key_length k \<le> safe_key_size cfg \<Longrightarrow> config_ok cfg \<Longrightarrow> key_short k"
  using leaf_page_small safe_key_size(2) [OF config_page_size] by (fastforce simp: key_short_def MAX_INLINE_KEY_SIZE_def)

text \<open>A specification of the insertion for the leaf.\<close>

definition spec_for :: "btree_config \<Rightarrow> btree_hdr \<Rightarrow> key \<Rightarrow> message \<Rightarrow> leaf_incorporate_spec \<Rightarrow> bool" where
  "spec_for cfg hdr k msg spec \<longleftrightarrow> spec_ok spec (btree_num_entries hdr) \<and> spec_key spec = k \<and> tuple_small cfg (spec_tuple spec) \<and>
     spec_target spec (leaf_tuples hdr) = inserted cfg k msg (leaf_tuples hdr) \<and>
     (spec_state spec = ENTRY_STILL_EXISTS \<longrightarrow> btree_key_compare cfg (fst (leaf_tuples hdr ! nat (spec_idx spec))) k = 0) \<and>
     spec_is_new spec = (\<not> has_key cfg k (leaf_tuples hdr))"

lemma create_spec_for:
  assumes ins: "insert_ok cfg k msg" and leaf: "leaf_node cfg hdr"
  shows "\<exists>r. btree_create_leaf_incorporate_spec cfg mem_ok hdr k msg = Inr r \<and>
    (case r of Inl rc \<Rightarrow> rc = STATUS_NO_MEMORY | Inr spec \<Rightarrow> spec_for cfg hdr k msg spec)"
proof -
  have i: "config_ok cfg" "lexical cfg" "tuple_small cfg (k, msg)" "msg_type msg \<noteq> MESSAGE_TYPE_PIVOT_DATA"
    and l: "leaf_wf cfg hdr" "leaf_sorted cfg hdr" "\<forall>t \<in> set (leaf_tuples hdr). tuple_small cfg t"
    using ins leaf by (simp_all add: insert_ok_def leaf_node_def)
  have k: "key_is_user_key k" "key_short k" using i small_page [OF l(1)] by (simp_all add: tuple_small_def)
  obtain idx found where f: "btree_find_tuple cfg hdr k = (idx, found)" by fastforce
  have spec: "spec_for cfg hdr k msg spec"
    if r: "btree_create_leaf_incorporate_spec cfg mem_ok hdr k msg = Inr (Inr spec)"
      and small: "message_length (spec_msg spec) \<le> MAX_INLINE_MESSAGE_SIZE (bt_page_size cfg)" "msg_type (spec_msg spec) \<noteq> MESSAGE_TYPE_PIVOT_DATA"
    for spec
  proof -
    note c = create_spec_result [OF i(2) l(1,2) k(2,1) r small(2)]
    have "tuple_small cfg (spec_tuple spec)" using i(3) small(1) c(2) by (simp add: tuple_small_def spec_tuple_def)
    then show ?thesis using c by (simp add: spec_for_def spec_is_new_def has_key_def)
  qed
  show ?thesis
  proof (cases "found \<and> mem_ok")
    case False
    then show ?thesis
      using f spec i(3,4) by (auto simp: btree_create_leaf_incorporate_spec_def tuple_small_def)
  next
    case True
    let ?old = "leaf_entry_message hdr (btree_get_leaf_entry hdr (table_index idx))"
    have "btree_find_tuple cfg hdr k = (idx, True)" using f True by simp
    note p = total_compare.search_place(1) [OF lexical_compare [OF i(2)] leaf_ascending [OF i(2) l(2)] k(2) this [unfolded find_tuple_list] TrueI]
    have n: "nat idx < btree_num_entries hdr" using p by simp
    moreover have "table_index idx = nat idx" using p num_entries_lt [OF l(1)] by (intro table_index_small) auto
    ultimately have "?old = snd (leaf_tuples hdr ! nat idx)" by (simp add: leaf_tuple_def btree_get_tuple_message_def)
    moreover have "tuple_small cfg (leaf_tuples hdr ! nat idx)" using l(3) n by (metis length_leaf_tuples nth_mem)
    ultimately have "message_length ?old \<le> MAX_INLINE_MESSAGE_SIZE (bt_page_size cfg)" by (simp add: tuple_small_def)
    then obtain res m where m: "data_merge_tuples (bt_data_cfg cfg) k ?old msg = Inr (res, m)"
      "res = 0 \<Longrightarrow> message_length m \<le> MAX_INLINE_MESSAGE_SIZE (bt_page_size cfg) \<and> msg_type m \<noteq> MESSAGE_TYPE_PIVOT_DATA"
      using ins by (auto simp: insert_ok_def)
    then show ?thesis
      using f True spec by (auto simp: btree_create_leaf_incorporate_spec_def)
  qed
qed

lemma create_spec_answers:
  assumes "insert_ok cfg k msg" and "leaf_node cfg (bt_nodes st a)"
  shows "\<exists>r st0. create_spec cfg a k msg st = Inr (r, st0) \<and> only_answers st st0 \<and>
    (case r of Inl rc \<Rightarrow> rc = STATUS_NO_MEMORY | Inr spec \<Rightarrow> spec_for cfg (bt_nodes st a) k msg spec)"
proof -
  obtain mem_ok st1 where m: "(case bt_mem st of [] \<Rightarrow> (True, st) | b # bs \<Rightarrow> (b, st\<lparr>bt_mem := bs\<rparr>)) = (mem_ok, st1)" by fastforce
  then have "only_answers st st1" by (auto simp: only_answers_def later_def refusals_def split: list.splits)
  then show ?thesis
    using create_spec_for [OF assms, of mem_ok] m by (auto simp: create_spec_def)
qed

lemma spec_for_insertable:
  assumes ins: "insert_ok cfg k msg" and leaf: "leaf_node cfg hdr" and spec: "spec_for cfg hdr k msg spec"
  shows "insertable cfg hdr spec" and "\<forall>t \<in> insert (spec_tuple spec) (set (leaf_tuples hdr)). tuple_small cfg t"
proof -
  show s: "\<forall>t \<in> insert (spec_tuple spec) (set (leaf_tuples hdr)). tuple_small cfg t"
    using leaf spec by (simp add: leaf_node_def spec_for_def)
  have "tuple_small cfg t \<Longrightarrow> tuple_bounded cfg t" for t
    using ins safe_key_size(2) [OF config_page_size] by (auto simp: tuple_small_def tuple_bounded_def insert_ok_def intro: le_trans)
  then show "insertable cfg hdr spec" using s leaf spec by (simp add: insertable_def leaf_node_def spec_for_def)
qed

text \<open>The list after the insertion.\<close>

lemma inserted_small:
  assumes "\<forall>t \<in> insert (spec_tuple spec) (set ts). tuple_small cfg t" and "spec_ok spec (length ts)"
  shows "\<forall>t \<in> set (spec_target spec ts). tuple_small cfg t" and "spec_target spec ts \<noteq> []"
  using target_set [OF assms(2)] assms(1) target_around [OF assms(2)] by auto

lemma leaf_nodeI:
  assumes "height hdr = 0" "leaf_wf cfg hdr" "leaf_tuples hdr = ts" "ts \<noteq> []" "keys_sorted cfg (map fst ts)"
    "\<forall>t \<in> set ts. tuple_small cfg t"
  shows "leaf_node cfg hdr"
  using assms by (simp add: leaf_node_def leaf_sorted_def)

section \<open>The pages\<close>

text \<open>The leaf at \<open>c\<close> holds \<open>ts\<close> now, and nothing else has changed.\<close>

definition leaf_kept :: "btree_config \<Rightarrow> (u64 \<Rightarrow> btree_hdr) \<Rightarrow> u64 \<Rightarrow> (key \<times> message) list \<Rightarrow> (u64 \<Rightarrow> btree_hdr) \<Rightarrow> bool" where
  "leaf_kept cfg N c ts N' \<longleftrightarrow> leaf_node cfg (N' c) \<and> leaf_tuples (N' c) = ts \<and>
     prev_addr (N' c) = prev_addr (N c) \<and> next_addr (N' c) = next_addr (N c) \<and> (\<forall>a. a \<noteq> c \<longrightarrow> N' a = N a)"

text \<open>It was split at the key \<open>piv\<close>: the new leaf at \<open>right\<close> comes after it, in the list and in the parent at \<open>p\<close>.\<close>

definition leaf_split ::
  "btree_config \<Rightarrow> (u64 \<Rightarrow> btree_hdr) \<Rightarrow> u64 set \<Rightarrow> u64 \<Rightarrow> nat \<Rightarrow> u64 \<Rightarrow> (key \<times> message) list \<Rightarrow> (key \<times> message) list \<Rightarrow> key \<Rightarrow> u64 \<Rightarrow>
   (u64 \<Rightarrow> btree_hdr) \<Rightarrow> u64 set \<Rightarrow> bool" where
  "leaf_split cfg N A p i c ls rs piv right N' A' \<longleftrightarrow>
     ls \<noteq> [] \<and> rs \<noteq> [] \<and> right \<notin> A \<and> A' = insert right A \<and>
     leaf_node cfg (N' c) \<and> leaf_tuples (N' c) = ls \<and> leaf_node cfg (N' right) \<and> leaf_tuples (N' right) = rs \<and>
     key_length piv \<le> safe_key_size cfg \<and> key_short piv \<and>
     (\<forall>t \<in> set ls. btree_key_compare cfg (fst t) piv < 0) \<and> (\<forall>t \<in> set rs. btree_key_compare cfg piv (fst t) \<le> 0) \<and>
     prev_addr (N' c) = prev_addr (N c) \<and> next_addr (N' c) = right \<and> prev_addr (N' right) = c \<and> next_addr (N' right) = next_addr (N c) \<and>
     (\<forall>a \<in> A. a \<noteq> c \<longrightarrow> a \<noteq> p \<longrightarrow> N' a = (if a = next_addr (N c) then (N a)\<lparr>prev_addr := right\<rparr> else N a)) \<and>
     index_ok cfg (N' p) \<and> hdr_links (N' p) = hdr_links (N p) \<and>
     node_pivots (N' p) = take (i + 1) (node_pivots (N p)) @ [(piv, right, BTREE_PIVOT_STATS_UNKNOWN)] @ drop (i + 1) (node_pivots (N p))"

definition leaf_step ::
  "btree_config \<Rightarrow> (u64 \<Rightarrow> btree_hdr) \<Rightarrow> u64 set \<Rightarrow> u64 \<Rightarrow> nat \<Rightarrow> u64 \<Rightarrow> (key \<times> message) list \<Rightarrow> (u64 \<Rightarrow> btree_hdr) \<Rightarrow> u64 set \<Rightarrow> bool" where
  "leaf_step cfg N A p i c ts N' A' \<longleftrightarrow> leaf_kept cfg N c ts N' \<and> A' = A \<or>
     (\<exists>ls rs piv right. ls @ rs = ts \<and> leaf_split cfg N A p i c ls rs piv right N' A')"

lemma small_tuple_size:
  assumes P: "1024 \<le> bt_page_size cfg" and t: "tuple_small cfg t"
  shows "tuple_size t + 29 < bt_page_size cfg div 2"
proof -
  let ?P = "bt_page_size cfg"
  have "key_length (fst t) \<le> safe_key_size cfg" "message_length (snd t) \<le> 7 * ?P div 20"
    using t by (simp_all add: tuple_small_def MAX_INLINE_MESSAGE_SIZE_def)
  moreover have "20 * (7 * ?P div 20) \<le> 7 * ?P" "4 * (?P div 4) \<le> ?P" "?P \<le> 2 * (?P div 2) + 1" by simp_all
  ultimately have "35 + (key_length (fst t) + message_length (snd t)) < ?P div 2"
    using safe_key_size(1) [OF P] P by linarith
  then show ?thesis by (simp add: tuple_size_def leaf_entry_required_capacity_def sizeof_ondisk_tuple_def)
qed

text \<open>A list of two tuples or more is not moved to the right as a whole.\<close>

lemma left_not_empty:
  assumes big: "BTREE_SPLIT_THRESHOLD (bt_page_size cfg) \<le> leaf_total_space_required hdr spec"
    and ok: "spec_ok spec (btree_num_entries hdr)" and P: "1024 \<le> bt_page_size cfg"
    and small: "\<forall>t \<in> set (spec_target spec (leaf_tuples hdr)). tuple_small cfg t"
  shows "split_left hdr spec \<noteq> []"
proof -
  let ?tgt = "spec_target spec (leaf_tuples hdr)"
  have u: "bt_page_size cfg div 2 \<le> used ?tgt + 23"
    using big leaf_total_space(2) [OF ok] by (simp add: BTREE_SPLIT_THRESHOLD_def)
  have s: "tuple_size t + 29 < bt_page_size cfg div 2" if "t \<in> set ?tgt" for t
    by (rule small_tuple_size [OF P bspec [OF small that]])
  obtain x y ys where t: "?tgt = x # y # ys"
  proof (cases ?tgt rule: remdups_adj.cases)
    case 1
    then show ?thesis using u P by simp
  next
    case (2 x)
    then show ?thesis using u s [of x] by simp
  qed (use that in blast)
  have "most_of_entry_is_on_left_side (weight ?tgt) 0 (tuple_size x)"
    using tuple_size_ge [of y] unfolding t by (simp add: most_of_entry_is_on_left_side_def sizeof_table_entry_def)
  then show ?thesis by (simp add: split_left_def t Let_def)
qed

lemma split_leaf_step:
  assumes ins: "insert_ok cfg k msg" and leaf: "leaf_node cfg (N c)" and spec: "spec_for cfg (N c) k msg spec"
    and split: "leaf_was_split cfg i c right spec \<lparr>fam_parent = N p, fam_child = N c, fam_right = page, fam_next = nx\<rparr> f'"
    and big: "BTREE_SPLIT_THRESHOLD (bt_page_size cfg) \<le> leaf_total_space_required (N c) spec"
    and N': "N' c = fam_child f'" "N' right = fam_right f'" "N' p = fam_parent f'" and r: "right \<notin> A"
    and rest: "\<forall>a \<in> A. a \<noteq> c \<longrightarrow> a \<noteq> p \<longrightarrow> N' a = (if a = next_addr (N c) then (N a)\<lparr>prev_addr := right\<rparr> else N a)"
  shows "leaf_step cfg N A p i c (inserted cfg k msg (leaf_tuples (N c))) N' (insert right A)"
proof -
  let ?tgt = "spec_target spec (leaf_tuples (N c))" and ?l = "split_left (N c) spec" and ?r = "split_right (N c) spec"
  let ?piv = "btree_splitting_pivot (N c) spec (btree_build_leaf_splitting_plan (N c) spec)"
  have cfg: "config_ok cfg" "lexical cfg" using ins by (simp_all add: insert_ok_def)
  have l: "leaf_wf cfg (N c)" "leaf_sorted cfg (N c)" "height (N c) = 0" using leaf by (simp_all add: leaf_node_def)
  have sp: "spec_ok spec (btree_num_entries (N c))" "spec_key spec = k" "?tgt = inserted cfg k msg (leaf_tuples (N c))"
    "spec_state spec = ENTRY_STILL_EXISTS \<Longrightarrow> btree_key_compare cfg (fst (leaf_tuples (N c) ! nat (spec_idx spec))) k = 0"
    using spec by (simp_all add: spec_for_def)
  note si = spec_for_insertable [OF ins leaf spec] and P = config_page_size [OF cfg(1)]
  note s = insertable_splittable [OF cfg(1) si(1)] and d = split [unfolded leaf_was_split_def Let_def, simplified]
  note h = split_halves(1,4) [OF s]
  have small: "\<forall>t \<in> set ?tgt. tuple_small cfg t" using inserted_small [OF si(2)] sp(1) by simp
  have left: "?l \<noteq> []" by (rule left_not_empty [OF big sp(1) P small])
  obtain t where t: "t \<in> insert (spec_tuple spec) (set (leaf_tuples (N c)))" "?piv = fst t" using splitting_pivot_member [OF s] by blast
  then have pl: "key_length ?piv \<le> safe_key_size cfg" using si(2) by (auto simp: tuple_small_def)
  then have ps: "key_short ?piv" using small_page [OF l(1) _ cfg(1)] by blast
  have short: "\<forall>x \<in> set (map fst ?l @ map fst ?r). key_short x"
    using small h(1) small_page [OF l(1) _ cfg(1)] by (metis (no_types, lifting) imageE list.set_map map_append tuple_small_def)
  have k: "key_short k" using ins small_page [OF l(1) _ cfg(1)] by (simp add: insert_ok_def tuple_small_def)
  have srt: "keys_sorted cfg (map fst ?l @ map fst ?r)"
    using upsert_sorted [OF cfg(2) k l(2)] sp(3) h(1) by (metis map_append)
  have sep: "btree_key_compare cfg ?piv (map fst ?r ! 0) = 0"
    using splitting_pivot [OF s] sp(2,4) ps h(2) lex_self [OF cfg(2)] by (auto simp: spec_tuple_def)
  note parts = sorted_parts [OF cfg(2) srt short _ ps sep]
  have "leaf_node cfg (fam_child f')" "leaf_node cfg (fam_right f')"
    by (rule leaf_nodeI [where ts = ?l] leaf_nodeI [where ts = ?r];
        use d l left h small parts(1,2) h(1) [symmetric] in \<open>simp add: ball_Un\<close>)+
  then have "leaf_split cfg N A p i c ?l ?r ?piv right N' (insert right A)"
    unfolding leaf_split_def N' using d left h(2) r pl ps parts(3,4) rest by simp
  then show ?thesis using h(1) sp(3) unfolding leaf_step_def by metis
qed

lemma leaf_kept_step:
  assumes leaf: "leaf_node cfg (N c)" and ins: "insert_ok cfg k msg" and spec: "spec_for cfg (N c) k msg spec"
    and hdr: "leaf_wf cfg hdr" "leaf_tuples hdr = spec_target spec (leaf_tuples (N c))"
      "prev_addr hdr = prev_addr (N c)" "next_addr hdr = next_addr (N c)" "height hdr = height (N c)"
  shows "leaf_kept cfg N c (inserted cfg k msg (leaf_tuples (N c))) (N(c := hdr))"
proof -
  let ?tgt = "spec_target spec (leaf_tuples (N c))"
  have sp: "spec_ok spec (length (leaf_tuples (N c)))" "?tgt = inserted cfg k msg (leaf_tuples (N c))" using spec by (simp_all add: spec_for_def)
  have l: "leaf_wf cfg (N c)" "leaf_sorted cfg (N c)" "height (N c) = 0" using leaf by (simp_all add: leaf_node_def)
  have k: "key_short k" "lexical cfg" using ins small_page [OF l(1)] by (simp_all add: insert_ok_def tuple_small_def)
  note s = inserted_small [OF spec_for_insertable(2) [OF ins leaf spec] sp(1)]
  have "keys_sorted cfg (map fst ?tgt)" using upsert_sorted [OF k(2,1) l(2)] sp(2) by simp
  then have "leaf_node cfg hdr" using leaf_nodeI [OF _ hdr(1,2) s(2) _ s(1)] hdr(5) l(3) by simp
  then show ?thesis using hdr sp(2) by (simp add: leaf_kept_def)
qed

text \<open>How the last step ends. A refusal can leave an allocated page behind.\<close>

definition same_on :: "u64 set \<Rightarrow> (u64 \<Rightarrow> btree_hdr) \<Rightarrow> (u64 \<Rightarrow> btree_hdr) \<Rightarrow> bool" where
  "same_on A N N' \<longleftrightarrow> (\<forall>a \<in> A. N' a = N a)"

text \<open>What \<open>make_room_leaf\<close> does once it has a page and has tried to claim the next leaf.\<close>

definition leaf_room ::
  "btree_config \<Rightarrow> u64 \<Rightarrow> nat \<Rightarrow> u64 \<Rightarrow> leaf_incorporate_spec \<Rightarrow> u64 \<Rightarrow> u64 \<times> bool \<times> 'a bt_state \<Rightarrow> 'a bt_attempt outcome" where
  "leaf_room cfg p i c spec nxt = (\<lambda>(right, claimed, st1).
     obind (btree_defragment_or_split_child_leaf cfg claimed i c right spec
              \<lparr>fam_parent = bt_nodes st1 p, fam_child = bt_nodes st1 c, fam_right = bt_nodes st1 right,
               fam_next = (if nxt \<noteq> 0 then Some (bt_nodes st1 nxt) else None)\<rparr>)
       (\<lambda>(result, gen, f). if result < 0 then Inr (Start_over st1)
          else Inr (Return STATUS_OK gen (Some (spec_is_new spec)) (put_family p c right nxt f st1))))"

lemma make_room_leaf_room:
  "make_room_leaf cfg al p i c spec st =
     obind (if leaf_total_space_required (bt_nodes st c) spec < BTREE_SPLIT_THRESHOLD (bt_page_size cfg) then Inr (0, True, st)
       else obind (btree_alloc al (unat (btree_height (bt_nodes st c))) st) (\<lambda>(right, st1).
         let (claimed, st2) = (if next_addr (bt_nodes st c) \<noteq> 0 then claim_retry 101 st1 else (True, st1))
         in Inr (right, claimed, st2)))
       (leaf_room cfg p i c spec (next_addr (bt_nodes st c)))"
  unfolding make_room_leaf_def leaf_room_def Let_def by (rule refl)

text \<open>A leaf, its parent and a specification, with everything in place.\<close>

definition leaf_ready ::
  "btree_config \<Rightarrow> key \<Rightarrow> message \<Rightarrow> u64 set \<Rightarrow> u64 \<Rightarrow> nat \<Rightarrow> u64 \<Rightarrow> (u64 \<Rightarrow> btree_hdr) \<Rightarrow> bool" where
  "leaf_ready cfg k msg A p i c N \<longleftrightarrow> insert_ok cfg k msg \<and> 0 \<notin> A \<and> p \<in> A \<and> c \<in> A \<and> p \<noteq> c \<and> leaf_node cfg (N c) \<and>
     (next_addr (N c) = 0 \<or> next_addr (N c) \<in> A - {p, c}) \<and>
     index_ok cfg (N p) \<and> takes_pivot (safe_key_size cfg) (N p) \<and> i < btree_num_entries (N p)"

lemma leaf_readyD:
  assumes "leaf_ready cfg k msg A p i c N"
  shows "insert_ok cfg k msg" "0 \<notin> A" "p \<in> A" "c \<in> A" "p \<noteq> c" "leaf_node cfg (N c)"
    and "next_addr (N c) \<noteq> p" "next_addr (N c) \<noteq> c" "c \<noteq> 0" "p \<noteq> 0" "next_addr (N c) = 0 \<or> next_addr (N c) \<in> A"
    and "index_ok cfg (N p)" "takes_pivot (safe_key_size cfg) (N p)" "i < btree_num_entries (N p)"
    and "config_ok cfg" "1024 \<le> bt_page_size cfg" "safe_key_size cfg \<le> MAX_INLINE_KEY_SIZE (bt_page_size cfg)"
  using assms config_page_size safe_key_size(2) [OF config_page_size] by (auto simp: leaf_ready_def insert_ok_def)

context page_source
begin

definition leaf_done ::
  "btree_config \<Rightarrow> key \<Rightarrow> message \<Rightarrow> u64 set \<Rightarrow> u64 \<Rightarrow> nat \<Rightarrow> u64 \<Rightarrow> 'a bt_state \<Rightarrow> 'a bt_attempt \<Rightarrow> bool" where
  "leaf_done cfg k msg A p i c st r \<longleftrightarrow>
     (case r of Start_over st' \<Rightarrow> refused st st' \<and>
         (\<exists>A'. ok (bt_mini st') A' \<and> 0 \<notin> A' \<and> A \<subseteq> A' \<and> same_on A (bt_nodes st) (bt_nodes st'))
     | Return rc gen unique st' \<Rightarrow> later st st' \<and> (\<exists>A'. ok (bt_mini st') A' \<and> 0 \<notin> A' \<and>
         (rc = STATUS_OK \<and> gen \<noteq> None \<and> unique = Some (\<not> has_key cfg k (leaf_tuples (bt_nodes st c))) \<and>
            leaf_step cfg (bt_nodes st) A p i c (inserted cfg k msg (leaf_tuples (bt_nodes st c))) (bt_nodes st') A' \<or>
          rc = STATUS_NO_MEMORY \<and> gen = None \<and> unique = None \<and> A' = A \<and> bt_nodes st' = bt_nodes st)))"

lemma leaf_done_from:
  assumes "leaf_done cfg k msg A p i c st1 r" and "only_answers st st1"
  shows "leaf_done cfg k msg A p i c st r"
  using assms later_trans later_refused(1) by (cases r) (auto simp: leaf_done_def only_answers_def)

lemma leaf_room_defragments:
  fixes st :: "'a bt_state"
  defines "N \<equiv> bt_nodes st"
  assumes ready: "leaf_ready cfg k msg A p i c N" and spec: "spec_for cfg (N c) k msg spec" and ok: "ok (bt_mini st) A"
    and small: "leaf_total_space_required (N c) spec < BTREE_SPLIT_THRESHOLD (bt_page_size cfg)"
  shows "sat fails (leaf_done cfg k msg A p i c st) (leaf_room cfg p i c spec (next_addr (N c)) (0, True, st))"
proof -
  let ?n = "next_addr (N c)"
  let ?f = "\<lparr>fam_parent = bt_nodes st p, fam_child = bt_nodes st c, fam_right = bt_nodes st 0,
    fam_next = (if ?n \<noteq> 0 then Some (bt_nodes st ?n) else None)\<rparr>"
  note d = leaf_readyD [OF ready] and si = spec_for_insertable [OF leaf_readyD(1,6) [OF ready] spec]
  obtain gen f' c' where f': "btree_defragment_or_split_child_leaf cfg True i c 0 spec ?f = Inr (0, Some gen, f')"
    "f' = ?f\<lparr>fam_child := c'\<rparr>" "leaf_wf cfg c'" "leaf_tuples c' = spec_target spec (leaf_tuples (N c))"
    "hdr_links c' = (prev_addr (N c), ?n, next_extent_addr (N c), generation (N c) + 1, height (N c))"
    using defragment_or_split_child_leaf_effect [of cfg ?f spec "safe_key_size cfg" i 0 True c] d si small
    by (auto simp: N_def tuple_small_def)
  have put: "put_family p c 0 ?n f' st = set_node c c' st"
    using d by (auto simp: put_family_def f'(2) set_node_def N_def fun_eq_iff)
  have "leaf_kept cfg N c (inserted cfg k msg (leaf_tuples (N c))) (N(c := c'))"
    by (rule leaf_kept_step [of cfg N c, OF d(6,1) spec f'(3,4)]) (use f'(5) in \<open>simp_all add: hdr_links_def\<close>)
  moreover have "spec_is_new spec = (\<not> has_key cfg k (leaf_tuples (N c)))" using spec by (simp add: spec_for_def)
  ultimately show ?thesis
    using f'(1) put ok d(2) by (auto simp: leaf_room_def leaf_done_def set_node_def later_def refusals_def leaf_step_def N_def)
qed

lemma leaf_room_splits:
  fixes st :: "'a bt_state"
  defines "N \<equiv> bt_nodes st"
  assumes ready: "leaf_ready cfg k msg A p i c N" and spec: "spec_for cfg (N c) k msg spec"
    and big: "\<not> leaf_total_space_required (N c) spec < BTREE_SPLIT_THRESHOLD (bt_page_size cfg)"
    and r: "right \<notin> A" "right \<noteq> 0" "right AND NOT 0xFFF = right" "ok (bt_mini st2) (insert right A)" "bt_nodes st2 = N(right := page)"
    and l: "later st st2" "\<not> claimed \<Longrightarrow> next_addr (N c) \<noteq> 0 \<and> refused st st2"
  shows "sat fails (leaf_done cfg k msg A p i c st) (leaf_room cfg p i c spec (next_addr (N c)) (right, claimed, st2))"
proof -
  let ?n = "next_addr (N c)"
  let ?f = "\<lparr>fam_parent = bt_nodes st2 p, fam_child = bt_nodes st2 c, fam_right = bt_nodes st2 right,
    fam_next = (if ?n \<noteq> 0 then Some (bt_nodes st2 ?n) else None)\<rparr>"
  note d = leaf_readyD [OF ready] and si = spec_for_insertable [OF leaf_readyD(1,6) [OF ready] spec]
  have n: "bt_nodes st2 p = N p" "bt_nodes st2 c = N c" "?n \<noteq> 0 \<Longrightarrow> bt_nodes st2 ?n = N ?n" using r d by auto
  show ?thesis
  proof (cases claimed)
    case False
    have "sat fails (leaf_done cfg k msg A p i c st) (Inr (Start_over st2))"
      using r l(2) [OF False] d(2) by (auto simp: leaf_done_def same_on_def N_def intro!: exI [of _ "insert right A"])
    then show ?thesis
      using False big l(2) [OF False] n(2)
      by (simp add: leaf_room_def btree_defragment_or_split_child_leaf_def btree_split_child_leaf_def Let_def)
  next
    case True
    obtain gen f' where f': "btree_defragment_or_split_child_leaf cfg True i c right spec ?f = Inr (0, Some gen, f')"
      "leaf_was_split cfg i c right spec ?f f'"
      using split_child_leaf_effect [of cfg ?f spec "safe_key_size cfg" i right True c] d si r(3) big n
      by (auto simp: btree_defragment_or_split_child_leaf_def tuple_small_def)
    let ?st = "put_family p c right ?n f' st2"
    have ne: "right \<noteq> p" "right \<noteq> c" "right \<noteq> ?n" using r(1,2) d by auto
    have nx: "fam_next f' = (if ?n \<noteq> 0 then Some ((N ?n)\<lparr>prev_addr := right\<rparr>) else None)"
      using f'(2) n by (auto simp: leaf_was_split_def Let_def)
    have "leaf_step cfg N A p i c (inserted cfg k msg (leaf_tuples (N c))) (bt_nodes ?st) (insert right A)"
    proof (rule split_leaf_step [OF d(1,6) spec f'(2) [unfolded n]])
      show "\<forall>a \<in> A. a \<noteq> c \<longrightarrow> a \<noteq> p \<longrightarrow> bt_nodes ?st a = (if a = ?n then (N a)\<lparr>prev_addr := right\<rparr> else N a)"
        using nx r(1,5) d(2) by (auto simp: put_family_def)
    qed (use big r(1) ne d nx in \<open>auto simp: put_family_def\<close>)
    moreover have "spec_is_new spec = (\<not> has_key cfg k (leaf_tuples (N c)))" using spec by (simp add: spec_for_def)
    moreover have "bt_mini ?st = bt_mini st2" "bt_claims ?st = bt_claims st2" by (simp_all add: put_family_def Let_def)
    ultimately show ?thesis
      using True f'(1) r(2,4) d(2) l(1)
      by (auto simp: leaf_room_def leaf_done_def later_def refusals_def N_def intro!: exI [of _ "insert right A"])
  qed
qed

lemma make_room_leaf_done:
  fixes st :: "'a bt_state"
  defines "N \<equiv> bt_nodes st"
  assumes ready: "leaf_ready cfg k msg A p i c N" and spec: "spec_for cfg (N c) k msg spec" and ok: "ok (bt_mini st) A"
  shows "sat fails (leaf_done cfg k msg A p i c st) (make_room_leaf cfg al p i c spec st)"
proof (cases "leaf_total_space_required (N c) spec < BTREE_SPLIT_THRESHOLD (bt_page_size cfg)")
  case True
  then show ?thesis
    using leaf_room_defragments [of cfg k msg A p i c st spec] ready spec ok by (simp add: make_room_leaf_room N_def)
next
  case False
  let ?n = "next_addr (N c)"
  have h: "fits fails (unat (btree_height (N c)))"
    using leaf_readyD(6) [OF ready] by (simp add: leaf_node_def btree_height_def fits_def BTREE_MAX_HEIGHT_def)
  show ?thesis
    unfolding make_room_leaf_room N_def [symmetric] if_not_P [OF False]
  proof (rule sat_obind [where P = "\<lambda>x. sat fails (leaf_done cfg k msg A p i c st) (leaf_room cfg p i c spec ?n x)"])
    show "sat fails (\<lambda>x. sat fails (leaf_done cfg k msg A p i c st) (leaf_room cfg p i c spec ?n x))
        (obind (btree_alloc al (unat (btree_height (N c))) st) (\<lambda>(right, st1).
          let (claimed, st2) = (if ?n \<noteq> 0 then claim_retry 101 st1 else (True, st1)) in Inr (right, claimed, st2)))"
    proof (rule sat_obind [OF alloc_page [OF ok h]])
      fix x :: "u64 \<times> 'a bt_state"
      assume x: "case x of (a, st') \<Rightarrow> a \<notin> A \<and> a \<noteq> 0 \<and> a AND NOT 0xFFF = a \<and> ok (bt_mini st') (insert a A) \<and>
        (\<exists>page. bt_nodes st' = (bt_nodes st)(a := page)) \<and> bt_claims st' = bt_claims st"
      obtain right st1 where e: "x = (right, st1)" by fastforce
      obtain claimed st2 where c: "(if ?n \<noteq> 0 then claim_retry 101 st1 else (True, st1)) = (claimed, st2)" by fastforce
      then have o: "only_answers st1 st2" "\<not> claimed \<longrightarrow> ?n \<noteq> 0 \<and> refused st1 st2"
        using claim_retry [of 101 st1 claimed st2] by (auto split: if_splits)
      obtain page where page: "bt_nodes st1 = (bt_nodes st)(right := page)" using x e by auto
      have "sat fails (leaf_done cfg k msg A p i c st) (leaf_room cfg p i c spec ?n (right, claimed, st2))"
        unfolding N_def
        by (rule leaf_room_splits [where page = page])
          (use o x e page ready spec False in \<open>auto simp: only_answers_def later_def refusals_def refused_def N_def\<close>)
      then show "sat fails (\<lambda>x. sat fails (leaf_done cfg k msg A p i c st) (leaf_room cfg p i c spec ?n x))
        (case x of (right, st1) \<Rightarrow> let (claimed, st2) = (if ?n \<noteq> 0 then claim_retry 101 st1 else (True, st1)) in Inr (right, claimed, st2))"
        by (simp only: e c prod.case Let_def sat_simps)
    qed
  qed
qed

lemma perform_done:
  fixes st st1 :: "'a bt_state"
  defines "N \<equiv> bt_nodes st"
  assumes ready: "leaf_ready cfg k msg A p i c N" and spec: "spec_for cfg (N c) k msg spec" and ok: "ok (bt_mini st) A"
    and st1: "only_answers st st1" and can: "btree_can_perform_leaf_incorporate_spec (N c) spec"
  shows "sat fails (leaf_done cfg k msg A p i c st)
    (obind (btree_try_perform_leaf_incorporate_spec (bt_nodes st1 c) spec) (\<lambda>(incorporated, gen, hdr).
       if \<not> incorporated then Inl Abort else Inr (Return STATUS_OK gen (Some (spec_is_new spec)) (set_node c hdr st1))))"
proof -
  note d = leaf_readyD [OF ready]
  have wf: "leaf_wf cfg (N c)" "spec_ok spec (btree_num_entries (N c))" using d(6) spec by (simp_all add: leaf_node_def spec_for_def)
  obtain hdr where h: "btree_try_perform_leaf_incorporate_spec (N c) spec = Inr (True, Some (generation (N c)), hdr)"
    "leaf_wf cfg hdr" "leaf_tuples hdr = spec_target spec (leaf_tuples (N c))"
    "hdr_links hdr = (prev_addr (N c), next_addr (N c), next_extent_addr (N c), generation (N c) + 1, height (N c))"
    using perform_succeeds [OF wf can] by blast
  have "leaf_kept cfg N c (inserted cfg k msg (leaf_tuples (N c))) (N(c := hdr))"
    by (rule leaf_kept_step [of cfg N c, OF d(6,1) spec h(2,3)]) (use h(4) in \<open>simp_all add: hdr_links_def\<close>)
  moreover have "spec_is_new spec = (\<not> has_key cfg k (leaf_tuples (N c)))" using spec by (simp add: spec_for_def)
  ultimately show ?thesis
    using h(1) st1 ok d(2) by (auto simp: leaf_done_def set_node_def later_def refusals_def leaf_step_def only_answers_def N_def)
qed

lemma insert_leaf_done:
  fixes st :: "'a bt_state"
  assumes ready: "leaf_ready cfg k msg A p i c (bt_nodes st)" and ok: "ok (bt_mini st) A"
  shows "sat fails (leaf_done cfg k msg A p i c st) (btree_insert_leaf cfg al k msg p i c st)"
proof -
  let ?done = "leaf_done cfg k msg A p i c st"
  note d = leaf_readyD [OF ready]
  have no_memory: "?done (Return STATUS_NO_MEMORY None None st')" if "only_answers st st'" for st'
    using that ok d(2) by (auto simp: leaf_done_def only_answers_def)
  have refusal: "?done (Start_over st')" if "only_answers st st'" "refused st st'" for st'
    using that ok d(2) by (auto simp: leaf_done_def only_answers_def same_on_def)
  have room: "sat fails ?done (make_room_leaf cfg al p i c spec st')"
    if "only_answers st st'" "spec_for cfg (bt_nodes st c) k msg spec" for spec st'
    by (rule sat_mono [OF make_room_leaf_done]) (use that ready ok leaf_done_from in \<open>auto simp: only_answers_def\<close>)
  obtain r st0 where r: "create_spec cfg c k msg st = Inr (r, st0)" "only_answers st st0"
    "case r of Inl rc \<Rightarrow> rc = STATUS_NO_MEMORY | Inr spec \<Rightarrow> spec_for cfg (bt_nodes st c) k msg spec"
    using create_spec_answers [OF d(1,6)] by blast
  show ?thesis
  proof (cases r)
    case (Inl rc)
    then show ?thesis using r no_memory by (simp add: btree_insert_leaf_def)
  next
    case (Inr spec)
    obtain claimed st1 where c: "btree_node_claim st0 = (claimed, st1)" by fastforce
    obtain waited st2 where w: "claim_wait st1 = (waited, st2)" by fastforce
    have o: "only_answers st st1" "only_answers st st2" "\<not> claimed \<Longrightarrow> refused st st1" "bt_nodes st0 = bt_nodes st"
      using only_answers_trans [OF r(2) node_claim(1) [OF c]] only_answers_trans [OF _ claim_wait [OF w]] r(2)
        node_claim(2) [OF c] later_refused(1) by (auto simp: only_answers_def)
    have spec: "spec_for cfg (bt_nodes st c) k msg spec" using r(3) Inr by simp
    have n2: "bt_nodes st2 c = bt_nodes st c" using o(2) by (simp add: only_answers_def)
    have "sat fails ?done (obind (if waited then create_spec cfg c k msg st2 else Inr (Inr spec, st2)) (\<lambda>(r, st3).
        case r of Inl rc \<Rightarrow> Inr (Return rc None None st3) | Inr spec \<Rightarrow> make_room_leaf cfg al p i c spec st3))"
    proof (cases waited)
      case True
      obtain r' st3 where r': "create_spec cfg c k msg st2 = Inr (r', st3)" "only_answers st2 st3"
        "case r' of Inl rc \<Rightarrow> rc = STATUS_NO_MEMORY | Inr spec \<Rightarrow> spec_for cfg (bt_nodes st2 c) k msg spec"
        using create_spec_answers [OF d(1), of st2 c] d(6) n2 by auto
      then show ?thesis
        using True no_memory room only_answers_trans [OF o(2) r'(2)] n2 by (cases r') simp_all
    qed (use room o(2) spec in simp)
    then show ?thesis
      using perform_done [OF ready spec ok o(1)] refusal [OF o(1,3)] r(1) Inr c w o(4)
      by (auto simp: btree_insert_leaf_def)
  qed
qed

end

end
