(* ===== verification/BtGraft.thy ===== *)
theory BtGraft
  imports BtLeafStep
begin

text \<open>
  Replacing a child. A subtree that hangs in the pages of a larger tree is changed in place: new
  nodes come out of the allocator, the addresses of the subtree and of its first leaf stay, and
  outside of it only the leaf after it can get another predecessor. \<open>regraft\<close> puts such a change
  of a child - or a split of it - into the parent.
\<close>

section \<open>Lists of leaves\<close>

lemma next_leaf_simps [simp]:
  "next_leaf [] n = n" "next_leaf (a # as) n = a" "next_leaf (as @ bs) n = next_leaf as (next_leaf bs n)"
  by (simp_all add: next_leaf_def split: list.split)

lemma last_leaf_simps [simp]:
  "last_leaf p [] = p" "as \<noteq> [] \<Longrightarrow> last_leaf p as = last as" "last_leaf p (as @ bs) = last_leaf (last_leaf p as) bs"
  by (simp_all add: last_leaf_def)

lemma next_leaf_same: "as \<noteq> [] \<Longrightarrow> next_leaf as n = next_leaf as m"
  by (cases as) simp_all

lemma next_leaf_in: "next_leaf as n \<in> set as \<or> as = [] \<and> next_leaf as n = n"
  by (cases as) simp_all

lemma linked_regraft:
  assumes l: "linked N pr (LA @ LB @ LC) nx" and l': "linked N' (last_leaf pr LA) LB' (next_leaf LC nx)"
    and ne: "LB \<noteq> []" "LB' \<noteq> []" and first: "next_leaf LB' 0 = next_leaf LB 0" and dis: "distinct LC"
    and same: "\<And>a. a \<in> set LA \<Longrightarrow> N' a = N a"
      "\<And>a. a \<in> set LC \<Longrightarrow> N' a = (if a = next_leaf LC nx then (N a)\<lparr>prev_addr := last LB'\<rparr> else N a)"
  shows "linked N' pr (LA @ LB' @ LC) nx"
proof -
  have parts: "linked N pr LA (next_leaf LB 0)" "linked N (last LB) LC nx"
    using l ne(1) next_leaf_same [OF ne(1), of "next_leaf LC nx" 0] by (simp_all add: linked_append)
  have "linked N' pr LA (next_leaf LB' 0)"
    using parts(1) first linked_same [of LA N' N pr "next_leaf LB 0"] same(1) by simp
  moreover have "linked N' (last LB') LC nx"
  proof (cases LC)
    case (Cons x xs)
    have "N' a = N a" if "a \<in> set xs" for a using same(2) [of a] dis that Cons by auto
    then have "linked N' x xs nx" using parts(2) linked_same [of xs N' N x nx] Cons by simp
    then show ?thesis using parts(2) same(2) [of x] Cons by (simp split: list.splits)
  qed simp
  ultimately show ?thesis
    using l' ne(2) next_leaf_same [OF ne(2), of "next_leaf LC nx" 0] by (simp add: linked_append)
qed

abbreviation forest_leaves :: "shape list \<Rightarrow> u64 list" where "forest_leaves ts \<equiv> concat (map leaf_addrs ts)"
abbreviation forest_addrs :: "shape list \<Rightarrow> u64 list" where "forest_addrs ts \<equiv> concat (map addrs ts)"

lemma forest_leaves_subset: "set (forest_leaves ts) \<subseteq> set (forest_addrs ts)"
  using leaf_addrs_subset by fastforce

lemma subtree_leaves:
  "subtree cfg N h t lo hi \<Longrightarrow> leaf_addrs t \<noteq> []"
  "segment cfg N h ks ts hi \<Longrightarrow> ts \<noteq> [] \<Longrightarrow> forest_leaves ts \<noteq> []"
  by (induction cfg N h t lo hi and cfg N h ks ts hi rule: subtree_segment.induct) auto

lemma distinct_leaves: "distinct (addrs t) \<Longrightarrow> distinct (leaf_addrs t)"
proof (induction t rule: addrs.induct)
  case (2 a ts)
  have "distinct (forest_addrs us) \<Longrightarrow> set us \<subseteq> set ts \<Longrightarrow> distinct (forest_leaves us)" for us
  proof (induction us)
    case (Cons u us)
    have "distinct (leaf_addrs u)" using 2 Cons.prems by auto
    moreover have "set (leaf_addrs u) \<inter> set (forest_leaves us) = {}"
      using Cons.prems(1) leaf_addrs_subset [of u] forest_leaves_subset [of us] by auto
    ultimately show ?case using Cons by simp
  qed simp
  then show ?case using 2 by simp
qed simp

section \<open>A subtree in its place\<close>

text \<open>
  \<open>A\<close> are the pages in use. The subtree's leaves are linked between the leaf \<open>pr\<close> before it and the leaf \<open>nx\<close>
  after it, 0 when there is none.
\<close>

definition hung ::
  "btree_config \<Rightarrow> (u64 \<Rightarrow> btree_hdr) \<Rightarrow> u64 set \<Rightarrow> u64 \<Rightarrow> u64 \<Rightarrow> nat \<Rightarrow> shape \<Rightarrow> key \<Rightarrow> key \<Rightarrow> bool" where
  "hung cfg N A pr nx h t lo hi \<longleftrightarrow> subtree cfg N h t lo hi \<and> distinct (addrs t) \<and> set (addrs t) \<subseteq> A \<and> 0 \<notin> A \<and>
     linked N pr (leaf_addrs t) nx \<and> (nx = 0 \<or> nx \<in> A - set (addrs t) \<and> prev_addr (N nx) = last (leaf_addrs t))"

definition grown :: "(u64 \<Rightarrow> btree_hdr) \<Rightarrow> u64 set \<Rightarrow> shape \<Rightarrow> u64 \<Rightarrow> (u64 \<Rightarrow> btree_hdr) \<Rightarrow> u64 set \<Rightarrow> shape \<Rightarrow> bool" where
  "grown N A t nx N' A' t' \<longleftrightarrow> A \<subseteq> A' \<and> set (addrs t') \<subseteq> set (addrs t) \<union> (A' - A) \<and> node_addr t' = node_addr t \<and>
     next_leaf (leaf_addrs t') 0 = next_leaf (leaf_addrs t) 0 \<and>
     (\<forall>a \<in> A. a \<notin> set (addrs t) \<longrightarrow> N' a = (if a = nx then (N a)\<lparr>prev_addr := last (leaf_addrs t')\<rparr> else N a))"

lemma hungD:
  assumes "hung cfg N A pr nx h t lo hi"
  shows "subtree cfg N h t lo hi" "distinct (addrs t)" "set (addrs t) \<subseteq> A" "0 \<notin> A" "linked N pr (leaf_addrs t) nx"
    and "nx \<notin> set (addrs t)" "nx \<in> A \<Longrightarrow> prev_addr (N nx) = last (leaf_addrs t)" "nx = 0 \<or> nx \<in> A"
  using assms by (auto simp: hung_def)

lemma grown_refl:
  assumes "hung cfg N A pr nx h t lo hi"
  shows "grown N A t nx N A t"
  using hungD [OF assms] by (auto simp: grown_def)

lemma grown_trans:
  assumes g1: "grown N A t nx N1 A1 t1" and g2: "grown N1 A1 t1 nx N2 A2 t2"
  shows "grown N A t nx N2 A2 t2"
proof -
  have "N2 a = (if a = nx then (N a)\<lparr>prev_addr := last (leaf_addrs t2)\<rparr> else N a)" if "a \<in> A" "a \<notin> set (addrs t)" for a
  proof -
    have "a \<in> A1" "a \<notin> set (addrs t1)" using that g1 by (auto simp: grown_def)
    then show ?thesis using g1 g2 that by (cases "a = nx") (simp_all add: grown_def)
  qed
  then show ?thesis using g1 g2 by (auto simp: grown_def)
qed

text \<open>Other pages than those of the subtree and the leaf after it are as they were.\<close>

lemma grown_other: "grown N A t nx N' A' t' \<Longrightarrow> a \<in> A \<Longrightarrow> a \<notin> set (addrs t) \<Longrightarrow> a \<noteq> nx \<Longrightarrow> N' a = N a"
  by (simp add: grown_def)

section \<open>A child\<close>

lemma hung_child:
  assumes t: "hung cfg N A pr nx h (Index_at p ts) lo hi" and i: "i < length ts"
  defines "pl \<equiv> last_leaf pr (forest_leaves (take i ts))" and "nl \<equiv> next_leaf (forest_leaves (drop (Suc i) ts)) nx"
  defines "khi \<equiv> next_key (drop (Suc i) (pivot_keys (N p))) hi"
  shows "hung cfg N A pl nl (h - 1) (ts ! i) (pivot_keys (N p) ! i) khi"
    and "segment cfg N (h - 1) (take i (pivot_keys (N p))) (take i ts) (pivot_keys (N p) ! i)"
    and "segment cfg N (h - 1) (drop (Suc i) (pivot_keys (N p))) (drop (Suc i) ts) hi"
    and "btree_key_compare cfg (pivot_keys (N p) ! i) khi < 0" and "p \<noteq> nl" and "p \<notin> set (addrs (ts ! i))"
proof -
  note d = hungD [OF t]
  let ?ks = "pivot_keys (N p)"
  have split: "ts = take i ts @ ts ! i # drop (Suc i) ts" using i by (rule id_take_nth_drop)
  have seg: "segment cfg N (h - 1) ?ks ts hi" using d(1) by simp
  have len: "length ?ks = length ts" by (rule segment_length [OF seg])
  then have ksplit: "?ks = take i ?ks @ ?ks ! i # drop (Suc i) ?ks" using i by (intro id_take_nth_drop) simp
  have "segment cfg N (h - 1) (take i ?ks @ ?ks ! i # drop (Suc i) ?ks) (take i ts @ ts ! i # drop (Suc i) ts) hi"
    using seg split ksplit by simp
  then have s: "segment cfg N (h - 1) (take i ?ks) (take i ts) (?ks ! i)" "subtree cfg N (h - 1) (ts ! i) (?ks ! i) khi"
    "segment cfg N (h - 1) (drop (Suc i) ?ks) (drop (Suc i) ts) hi" "btree_key_compare cfg (?ks ! i) khi < 0"
    using len by (simp_all add: segment_append khi_def)
  then show "segment cfg N (h - 1) (take i ?ks) (take i ts) (?ks ! i)"
    and "segment cfg N (h - 1) (drop (Suc i) ?ks) (drop (Suc i) ts) hi"
    and "btree_key_compare cfg (pivot_keys (N p) ! i) khi < 0" by simp_all
  have fa: "forest_addrs ts = forest_addrs (take i ts) @ addrs (ts ! i) @ forest_addrs (drop (Suc i) ts)"
    and fl: "forest_leaves ts = forest_leaves (take i ts) @ leaf_addrs (ts ! i) @ forest_leaves (drop (Suc i) ts)"
    by (subst split, simp)+
  have ne: "leaf_addrs (ts ! i) \<noteq> []" by (rule subtree_leaves(1) [OF s(2)])
  have l: "linked N pl (leaf_addrs (ts ! i)) nl" "linked N (last (leaf_addrs (ts ! i))) (forest_leaves (drop (Suc i) ts)) nx"
    using d(5) fl ne by (simp_all add: linked_append pl_def nl_def)
  have dis: "distinct (addrs (ts ! i))" "set (addrs (ts ! i)) \<subseteq> A" "set (addrs (ts ! i)) \<inter> set (forest_addrs (drop (Suc i) ts)) = {}"
    "set (forest_addrs (drop (Suc i) ts)) \<subseteq> A"
    using d(2,3) fa by auto
  show p: "p \<notin> set (addrs (ts ! i))" using d(2) fa by simp
  show "p \<noteq> nl"
  proof
    assume "p = nl"
    then have "p \<in> set (forest_leaves (drop (Suc i) ts)) \<or> p = nx" using next_leaf_in by (metis nl_def)
    then have "p \<in> set (forest_addrs (drop (Suc i) ts)) \<or> p = nx" using subsetD [OF forest_leaves_subset] by blast
    then show False using d(2,6) fa by auto
  qed
  have "nl = 0 \<or> nl \<in> A - set (addrs (ts ! i)) \<and> prev_addr (N nl) = last (leaf_addrs (ts ! i))"
  proof (cases "forest_leaves (drop (Suc i) ts)")
    case Nil
    then show ?thesis using d(6,7,8) fa fl ne unfolding nl_def Nil by auto
  next
    case (Cons x xs)
    then have "x \<in> set (forest_addrs (drop (Suc i) ts))" using forest_leaves_subset [of "drop (Suc i) ts"] by auto
    then have "x \<in> A - set (addrs (ts ! i))" using dis by blast
    moreover have "prev_addr (N x) = last (leaf_addrs (ts ! i))" using l(2) unfolding Cons by simp
    ultimately show ?thesis unfolding nl_def Cons by simp
  qed
  then show "hung cfg N A pl nl (h - 1) (ts ! i) (?ks ! i) khi" using s(2) l(1) dis d(4) by (simp add: hung_def)
qed

text \<open>
  The change of child \<open>i\<close>: the subtrees \<open>rs\<close> stand for it now, with the pivots \<open>new\<close> of the parent,
  the first of which has the key that the child had.
\<close>

definition child_grown ::
  "btree_config \<Rightarrow> (u64 \<Rightarrow> btree_hdr) \<Rightarrow> u64 set \<Rightarrow> u64 \<Rightarrow> u64 \<Rightarrow> nat \<Rightarrow> u64 \<Rightarrow> shape list \<Rightarrow> key \<Rightarrow> nat \<Rightarrow>
   (u64 \<Rightarrow> btree_hdr) \<Rightarrow> u64 set \<Rightarrow> pivot list \<Rightarrow> shape list \<Rightarrow> bool" where
  "child_grown cfg N A pr nx h p ts hi i N' A' new rs \<longleftrightarrow>
     (let pv = node_pivots (N p); pl = last_leaf pr (forest_leaves (take i ts)); nl = next_leaf (forest_leaves (drop (Suc i) ts)) nx in
       index_node cfg h (N' p) \<and> node_pivots (N' p) = take i pv @ new @ drop (Suc i) pv \<and>
       new \<noteq> [] \<and> fst (new ! 0) = fst (pv ! i) \<and> map (\<lambda>x. fst (snd x)) new = map node_addr rs \<and>
       segment cfg N' (h - 1) (map fst new) rs (next_key (drop (Suc i) (map fst pv)) hi) \<and>
       A \<subseteq> A' \<and> 0 \<notin> A' \<and> distinct (forest_addrs rs) \<and> set (forest_addrs rs) \<subseteq> set (addrs (ts ! i)) \<union> (A' - A) \<and>
       linked N' pl (forest_leaves rs) nl \<and> next_leaf (forest_leaves rs) 0 = next_leaf (leaf_addrs (ts ! i)) 0 \<and>
       (\<forall>a \<in> A. a \<notin> set (addrs (ts ! i)) \<longrightarrow> a \<noteq> p \<longrightarrow>
          N' a = (if a = nl then (N a)\<lparr>prev_addr := last (forest_leaves rs)\<rparr> else N a)))"

lemma regraft_segment:
  assumes t: "hung cfg N A pr nx h (Index_at p ts) lo hi" and i: "i < length ts"
    and g: "child_grown cfg N A pr nx h p ts hi i N' A' new rs"
  defines "us \<equiv> take i ts @ rs @ drop (Suc i) ts"
  shows "subtree cfg N' h (Index_at p us) lo hi" and "us \<noteq> []"
    and "tree_tuples N' (Index_at p us) = concat (map (tree_tuples N) (take i ts)) @ concat (map (tree_tuples N') rs) @
      concat (map (tree_tuples N) (drop (Suc i) ts))"
proof -
  note d = hungD [OF t] and g = g [unfolded child_grown_def Let_def]
  let ?ks = "pivot_keys (N p)" and ?A = "take i ts" and ?C = "drop (Suc i) ts"
  have len: "length ?ks = length ts" using d(1) segment_length [of cfg N "h - 1" ?ks ts hi] by simp
  have fa: "addrs (Index_at p ts) = p # forest_addrs ?A @ addrs (ts ! i) @ forest_addrs ?C"
    by (simp, subst id_take_nth_drop [OF i], simp)
  have same: "same_content cfg (N a) (N' a)" if "a \<in> set (forest_addrs ?A) \<union> set (forest_addrs ?C)" for a
  proof -
    have a: "a \<in> A" "a \<notin> set (addrs (ts ! i))" "a \<noteq> p" using that d(2,3) unfolding fa by auto
    note c = hungD [OF hung_child(1) [OF t i]]
    have "last (leaf_addrs (ts ! i)) \<in> A" using leaf_addrs_subset [of "ts ! i"] last_in_set [OF subtree_leaves(1) [OF c(1)]] c(3) by blast
    then have "prev_addr (N a) \<noteq> 0" if "a = next_leaf (forest_leaves ?C) nx" using c(4,7) a(1) that by auto
    then show ?thesis using g a by auto
  qed
  note s = hung_child(2,3) [OF t i]
  have pa: "segment cfg N' (h - 1) (take i ?ks) ?A (?ks ! i) \<and> map (tree_tuples N') ?A = map (tree_tuples N) ?A"
    and pc: "segment cfg N' (h - 1) (drop (Suc i) ?ks) ?C hi \<and> map (tree_tuples N') ?C = map (tree_tuples N) ?C"
    by (rule subtree_same(2) [OF _ s(1)], use same in fastforce) (rule subtree_same(2) [OF _ s(2)], use same in fastforce)
  have k0: "next_key (map fst new @ ls) m = ?ks ! i" for ls m using g i len by (cases new) simp_all
  have pv: "pivot_keys (N' p) = take i ?ks @ map fst new @ drop (Suc i) ?ks" using g by (simp add: take_map drop_map)
  have lr: "length (map fst new) = length rs" using g by (metis length_map)
  have seg: "segment cfg N' (h - 1) (pivot_keys (N' p)) us hi"
    unfolding pv us_def using pa pc g len i k0 lr by (simp add: segment_append drop_map)
  have "next_key (pivot_keys (N' p)) hi = next_key ?ks hi"
  proof (cases i)
    case 0
    then show ?thesis using k0 [of "drop (Suc i) ?ks"] i len unfolding pv by (cases ?ks) simp_all
  next
    case (Suc j)
    then show ?thesis using i len unfolding pv by (cases ?ks) simp_all
  qed
  moreover have "child_addrs (N' p) = map node_addr us"
  proof -
    have "child_addrs (N p) = map node_addr ts" using d(1) by simp
    then have "take i (child_addrs (N p)) = map node_addr ?A" "drop (Suc i) (child_addrs (N p)) = map node_addr ?C"
      by (simp_all add: take_map drop_map)
    then show ?thesis using g by (simp add: us_def take_map drop_map)
  qed
  moreover show "us \<noteq> []" using lr g by (auto simp: us_def)
  ultimately show "subtree cfg N' h (Index_at p us) lo hi" using seg g d(1) by simp
  show "tree_tuples N' (Index_at p us) = concat (map (tree_tuples N) ?A) @ concat (map (tree_tuples N') rs) @
      concat (map (tree_tuples N) ?C)"
    using conjunct2 [OF pa] conjunct2 [OF pc] by (simp only: us_def tree_tuples.simps map_append concat_append)
qed

lemma regraft:
  assumes t: "hung cfg N A pr nx h (Index_at p ts) lo hi" and i: "i < length ts"
    and g: "child_grown cfg N A pr nx h p ts hi i N' A' new rs"
  defines "us \<equiv> take i ts @ rs @ drop (Suc i) ts"
  shows "hung cfg N' A' pr nx h (Index_at p us) lo hi" and "grown N A (Index_at p ts) nx N' A' (Index_at p us)"
proof -
  note d = hungD [OF t] and sub = regraft_segment(1,2) [OF t i g, folded us_def] and g = g [unfolded child_grown_def Let_def]
  let ?A = "take i ts" and ?C = "drop (Suc i) ts"
  let ?nl = "next_leaf (forest_leaves ?C) nx"
  have fa: "addrs (Index_at p ts) = p # forest_addrs ?A @ addrs (ts ! i) @ forest_addrs ?C"
    and fl: "leaf_addrs (Index_at p ts) = forest_leaves ?A @ leaf_addrs (ts ! i) @ forest_leaves ?C"
    by (simp, subst id_take_nth_drop [OF i], simp)+
  have fa': "addrs (Index_at p us) = p # forest_addrs ?A @ forest_addrs rs @ forest_addrs ?C"
    and fl': "leaf_addrs (Index_at p us) = forest_leaves ?A @ forest_leaves rs @ forest_leaves ?C" by (simp_all add: us_def)
  have ne: "leaf_addrs (ts ! i) \<noteq> []" "forest_leaves rs \<noteq> []"
    using subtree_leaves(1) hungD(1) [OF hung_child(1) [OF t i]] subtree_leaves(2) g by (blast, metis map_is_Nil_conv)
  have other: "N' a = (if a = ?nl then (N a)\<lparr>prev_addr := last (forest_leaves rs)\<rparr> else N a)"
    if "a \<in> A" "a \<notin> set (addrs (ts ! i))" "a \<noteq> p" for a using g that by blast
  have dis: "distinct (addrs (Index_at p us))" and sub': "set (addrs (Index_at p us)) \<subseteq> set (addrs (Index_at p ts)) \<union> (A' - A)"
  proof -
    have p: "p \<in> A" "set (forest_addrs ?A) \<subseteq> A" "set (forest_addrs ?C) \<subseteq> A"
      "p \<notin> set (forest_addrs ?A)" "p \<notin> set (forest_addrs ?C)" "p \<notin> set (addrs (ts ! i))"
      "distinct (forest_addrs ?A)" "distinct (forest_addrs ?C)" "set (forest_addrs ?A) \<inter> set (forest_addrs ?C) = {}"
      "set (forest_addrs ?A) \<inter> set (addrs (ts ! i)) = {}" "set (addrs (ts ! i)) \<inter> set (forest_addrs ?C) = {}"
      using d(2,3) unfolding fa by auto
    have r: "distinct (forest_addrs rs)" "set (forest_addrs rs) \<subseteq> set (addrs (ts ! i)) \<union> (A' - A)" using g by simp_all
    have "set (forest_addrs ?A) \<inter> set (forest_addrs rs) = {}" "set (forest_addrs rs) \<inter> set (forest_addrs ?C) = {}"
      "p \<notin> set (forest_addrs rs)" using p r by blast+
    then show "distinct (addrs (Index_at p us))" unfolding fa' using p r by (simp only: distinct.simps distinct_append set_append) blast
    show "set (addrs (Index_at p us)) \<subseteq> set (addrs (Index_at p ts)) \<union> (A' - A)" unfolding fa fa' using r by auto
  qed
  have leafC: "distinct (forest_leaves ?C)"
    using distinct_leaves [OF d(2)] unfolding fl by simp
  have nlA: "?nl \<notin> set (forest_leaves ?A)"
  proof -
    have "?nl \<in> set (forest_leaves ?C) \<or> ?nl = nx" using next_leaf_in by fastforce
    moreover have "nx \<notin> set (forest_addrs ?A)" using d(6) unfolding fa by simp
    moreover have "set (forest_addrs ?A) \<inter> set (forest_addrs ?C) = {}" using d(2) unfolding fa by auto
    ultimately show ?thesis using subsetD [OF forest_leaves_subset, of _ ?A] subsetD [OF forest_leaves_subset, of _ ?C]
      by (metis disjoint_iff)
  qed
  have l: "linked N' pr (leaf_addrs (Index_at p us)) nx"
    unfolding fl'
  proof (rule linked_regraft [OF d(5) [unfolded fl] _ ne _ leafC])
    show "linked N' (last_leaf pr (forest_leaves ?A)) (forest_leaves rs) ?nl"
      and "next_leaf (forest_leaves rs) 0 = next_leaf (leaf_addrs (ts ! i)) 0" using g by simp_all
    fix a
    have m: "a \<in> A \<and> a \<notin> set (addrs (ts ! i)) \<and> a \<noteq> p" if "a \<in> set (forest_addrs ?A) \<union> set (forest_addrs ?C)"
      using that d(2,3) unfolding fa by auto
    show "N' a = N a" if "a \<in> set (forest_leaves ?A)"
      using other m subsetD [OF forest_leaves_subset that] nlA that by (metis UnI1)
    show "N' a = (if a = ?nl then (N a)\<lparr>prev_addr := last (forest_leaves rs)\<rparr> else N a)" if "a \<in> set (forest_leaves ?C)"
      by (rule other) (use m subsetD [OF forest_leaves_subset that] in blast)+
  qed
  have lst: "last (leaf_addrs (Index_at p us)) = (if forest_leaves ?C = [] then last (forest_leaves rs) else last (forest_leaves ?C))"
    using ne(2) unfolding fl' by simp
  have frame: "N' a = (if a = nx then (N a)\<lparr>prev_addr := last (leaf_addrs (Index_at p us))\<rparr> else N a)"
    if a: "a \<in> A" "a \<notin> set (addrs (Index_at p ts))" for a
  proof -
    have o: "N' a = (if a = ?nl then (N a)\<lparr>prev_addr := last (forest_leaves rs)\<rparr> else N a)" using other a unfolding fa by simp
    show ?thesis
    proof (cases "forest_leaves ?C = []")
      case True
      show ?thesis using o unfolding lst True by simp
    next
      case False
      then have "?nl \<in> set (forest_leaves ?C)" using next_leaf_in by metis
      then have "?nl \<in> set (addrs (Index_at p ts))" using subsetD [OF forest_leaves_subset] unfolding fa by simp
      then have "a \<noteq> ?nl" using a(2) by blast
      moreover have "last (leaf_addrs (Index_at p us)) = prev_addr (N nx)" if "a = nx"
        using d(7) a(1) that False unfolding lst if_not_P [OF False] fl by simp
      ultimately show ?thesis using o by simp
    qed
  qed
  have nx: "nx = 0 \<or> nx \<in> A' - set (addrs (Index_at p us)) \<and> prev_addr (N' nx) = last (leaf_addrs (Index_at p us))"
    using d(6,8) frame [of nx] sub' g by auto
  show "hung cfg N' A' pr nx h (Index_at p us) lo hi"
    using sub(1) dis l nx sub' d(3) g unfolding hung_def by blast
  have "next_leaf (leaf_addrs (Index_at p us)) 0 = next_leaf (leaf_addrs (Index_at p ts)) 0"
    using g next_leaf_same [OF ne(1), of "next_leaf (forest_leaves ?C) 0" 0]
      next_leaf_same [OF ne(2), of "next_leaf (forest_leaves ?C) 0" 0] unfolding fl fl' by simp
  then show "grown N A (Index_at p ts) nx N' A' (Index_at p us)"
    unfolding grown_def using g sub' frame by simp
qed

text \<open>A change inside the child.\<close>

lemma child_grown_inside:
  assumes t: "hung cfg N A pr nx h (Index_at p ts) lo hi" and i: "i < length ts"
  defines "pl \<equiv> last_leaf pr (forest_leaves (take i ts))" and "nl \<equiv> next_leaf (forest_leaves (drop (Suc i) ts)) nx"
  defines "khi \<equiv> next_key (drop (Suc i) (pivot_keys (N p))) hi"
  assumes t': "hung cfg N' A' pl nl (h - 1) t' (pivot_keys (N p) ! i) khi" and g: "grown N A (ts ! i) nl N' A' t'"
  shows "child_grown cfg N A pr nx h p ts hi i N' A' [node_pivots (N p) ! i] [t']" and "N' p = N p"
proof -
  note d = hungD [OF t] and c = hung_child [OF t i, folded pl_def nl_def khi_def] and d' = hungD [OF t']
  show p: "N' p = N p" by (rule grown_other [OF g _ c(6,5)]) (use d(3) in simp)
  have len: "length (node_pivots (N p)) = length ts" using d(1) segment_length [of cfg N "h - 1" "pivot_keys (N p)" ts hi] by simp
  then have n: "node_pivots (N p) = take i (node_pivots (N p)) @ node_pivots (N p) ! i # drop (Suc i) (node_pivots (N p))"
    using i by (intro id_take_nth_drop) simp
  have k: "pivot_keys (N p) ! i = fst (node_pivots (N p) ! i)" using i len by simp
  have "child_addrs (N p) ! i = map node_addr ts ! i" using d(1) by simp
  then have a: "fst (snd (node_pivots (N p) ! i)) = node_addr t'" using i len g by (simp add: grown_def)
  show "child_grown cfg N A pr nx h p ts hi i N' A' [node_pivots (N p) ! i] [t']"
    unfolding child_grown_def Let_def p
    using d(1) c(4) d' g a n k unfolding pl_def nl_def khi_def by (simp add: grown_def)
qed

end
