(* ===== verification/BtIterProofs.thy ===== *)
theory BtIterProofs
  imports BtCursor BtGraft
begin

text \<open>
  An iterator of a tree is a cursor in the tuples of its range: it begins where the start key has its
  place, and a step is a step in the list, from leaf to leaf and whatever the lookups of the beginning
  met. The tree does not change meanwhile.
\<close>

section \<open>The tree\<close>

text \<open>Every leaf of a list of several has a neighbour, so that none of them is empty.\<close>

lemma linked_neighbour:
  "linked N p L n \<Longrightarrow> 0 \<notin> set L \<Longrightarrow> p \<noteq> 0 \<or> n \<noteq> 0 \<or> 2 \<le> length L \<Longrightarrow> \<forall>a \<in> set L. prev_addr (N a) \<noteq> 0 \<or> BtLeaf.next_addr (N a) \<noteq> 0"
proof (induction L arbitrary: p)
  case (Cons a L)
  show ?case
  proof (cases L)
    case Nil
    then show ?thesis using Cons.prems by simp
  next
    case (Cons b L')
    then have "\<forall>a \<in> set L. prev_addr (N a) \<noteq> 0 \<or> BtLeaf.next_addr (N a) \<noteq> 0" using Cons.IH [of a] Cons.prems by simp
    then show ?thesis using Cons.prems Cons by auto
  qed
qed simp

lemma no_empty_leaf:
  assumes "btree_at tc N root t"
  shows "length (leaf_addrs t) = 1 \<or> (\<forall>a \<in> set (leaf_addrs t). leaf_tuples (N a) \<noteq> [])"
proof -
  have t: "subtree tc N (unat (height (N root))) t NEGATIVE_INFINITY_KEY POSITIVE_INFINITY_KEY" "0 \<notin> set (leaf_addrs t)" "linked N 0 (leaf_addrs t) 0"
    using assms leaf_addrs_subset [of t] by (auto simp: btree_at_def)
  have "\<forall>a \<in> set (leaf_addrs t). prev_addr (N a) \<noteq> 0 \<or> BtLeaf.next_addr (N a) \<noteq> 0" if "length (leaf_addrs t) \<noteq> 1"
    using linked_neighbour [OF t(3,2)] subtree_leaves(1) [OF t(1)] that by (cases "leaf_addrs t" rule: remdups_adj.cases) auto
  then show ?thesis using leaf_nodes(1) [OF t(1)] by (auto simp: leaf_node_def)
qed

lemma tree_chain:
  assumes lex: "lexical tc" and t: "btree_at tc N root t"
  shows "leaf_chain tc N (leaf_addrs t)"
proof -
  have sub: "subtree tc N (unat (height (N root))) t NEGATIVE_INFINITY_KEY POSITIVE_INFINITY_KEY" "distinct (addrs t)" "0 \<notin> set (addrs t)"
    using t by (simp_all add: btree_at_def)
  have "sorted_within tc NEGATIVE_INFINITY_KEY POSITIVE_INFINITY_KEY (tree_tuples N t)"
    by (rule subtree_sorted_within(1) [OF sub(1) lex]) simp_all
  then have "tuples_sorted tc (leaf_list N (leaf_addrs t))"
    by (simp add: sorted_within_def keys_sorted_def sorted_wrt_map flip: tree_leaf_list)
  then show ?thesis
    using t distinct_leaves [OF sub(2)] sub(3) leaf_addrs_subset [of t] leaf_nodes(1) [OF sub(1)]
      no_empty_leaf [OF t] by (auto simp: leaf_chain_def btree_at_def)
qed

lemma same_pages_leaf: "same_pages tc N N' \<Longrightarrow> leaf_node tc (N a) \<Longrightarrow> leaf_node tc (N' a) \<and> leaf_tuples (N' a) = leaf_tuples (N a)"
  by (simp add: same_pages_def same_content_def)

lemma same_pages_list:
  assumes "same_pages tc N N'" and "\<forall>a \<in> set L. leaf_node tc (N a)"
  shows "leaf_list N' L = leaf_list N L"
  using assms(2) same_pages_leaf [OF assms(1)] by (induction L) auto

lemma same_pages_btree:
  assumes s: "same_pages tc N N'" and t: "btree_at tc N root t"
  shows "btree_at tc N' root t" and "leaf_list N' (leaf_addrs t) = leaf_list N (leaf_addrs t)"
proof -
  have l: "\<forall>a \<in> set (leaf_addrs t). leaf_node tc (N a)" using t leaf_nodes(1) by (auto simp: btree_at_def)
  show "leaf_list N' (leaf_addrs t) = leaf_list N (leaf_addrs t)" by (rule same_pages_list [OF s l])
  show "btree_at tc N' root t"
    using same_pages_tree(3) [OF s] t by blast
qed

lemma same_pages_first:
  assumes s: "same_pages tc N N'" and ch: "leaf_chain tc N L"
  shows "first_pos N' L j = first_pos N L j" and "j < length L \<Longrightarrow> leaf_size_at N' L j = leaf_size_at N L j"
proof -
  have l: "\<forall>a \<in> set L. leaf_node tc (N a)" using ch by (simp add: leaf_chain_def)
  have "leaf_list N' (take j L) = leaf_list N (take j L)" by (rule same_pages_list [OF s]) (use l in_set_takeD in fast)
  then show "first_pos N' L j = first_pos N L j" by (simp add: first_pos_def)
  show "leaf_size_at N' L j = leaf_size_at N L j" if "j < length L"
    using same_pages_leaf [OF s, of "L ! j"] l that by (metis length_leaf_tuples nth_mem)
qed

section \<open>The leaf of a key\<close>

definition key_leaf :: "btree_config \<Rightarrow> (u64 \<Rightarrow> btree_hdr) \<Rightarrow> u64 \<Rightarrow> shape \<Rightarrow> key \<Rightarrow> u64" where
  "key_leaf tc N root t k = route_leaf tc N k (unat (height (N root))) t"

lemma key_leaf_same:
  assumes lex: "lexical tc" and k: "key_short k" and s: "same_pages tc N N'" and t: "btree_at tc N root t"
  shows "key_leaf tc N' root t k = key_leaf tc N root t k"
proof -
  have "height (N' root) = height (N root)" using s by (simp add: same_pages_def hdr_links_def)
  moreover have "subtree tc N (unat (height (N root))) t NEGATIVE_INFINITY_KEY POSITIVE_INFINITY_KEY"
    using t by (simp add: btree_at_def)
  ultimately show ?thesis using route_leaf_same [OF lex k s _ _ below_infinity] by (simp add: key_leaf_def)
qed

lemma key_leaf_order:
  assumes lex: "lexical tc" and k: "key_short k" "key_short l" "btree_key_compare tc k l \<le> 0" and t: "btree_at tc N root t"
    and i: "i < length (leaf_addrs t)" "key_leaf tc N root t k = leaf_addrs t ! i"
    and j: "j < length (leaf_addrs t)" "key_leaf tc N root t l = leaf_addrs t ! j"
  shows "i \<le> j"
proof -
  let ?L = "leaf_addrs t"
  have sub: "subtree tc N (unat (height (N root))) t NEGATIVE_INFINITY_KEY POSITIVE_INFINITY_KEY" "distinct ?L"
    using t distinct_leaves by (simp_all add: btree_at_def)
  have "not_after ?L (?L ! i) (?L ! j)"
    using route_leaf_mono [OF lex k sub(1) _ below_infinity below_infinity] i(2) j(2) by (simp add: key_leaf_def)
  moreover have "i \<le> j" if c: "?L = us @ vs" "?L ! i \<in> set us" "?L ! j \<in> set vs" for us vs
  proof -
    obtain a b where ab: "a < length us" "us ! a = ?L ! i" "b < length vs" "vs ! b = ?L ! j"
      using c(2,3) by (auto simp: in_set_conv_nth)
    have e: "?L ! a = ?L ! i" "?L ! (length us + b) = ?L ! j" using ab unfolding c(1) by (simp_all add: nth_append)
    have l: "a < length ?L" "length us + b < length ?L" using ab(1,3) by (simp_all add: c(1))
    have "a = i" "length us + b = j"
      using e nth_eq_iff_index_eq [OF sub(2) l(1) i(1)] nth_eq_iff_index_eq [OF sub(2) l(2) j(1)] by simp_all
    then show ?thesis using ab(1) by simp
  qed
  ultimately show ?thesis using nth_eq_iff_index_eq [OF sub(2) i(1) j(1)] by (auto simp: not_after_def)
qed

text \<open>A lookup of the iterator comes to the leaf of the key, and the key's place is in that leaf.\<close>

lemma iter_lookup_leaf:
  assumes lex: "lexical tc" and k: "key_short k" and t: "btree_at tc (iter_node st) (it_root_addr it) t" and h: "it_height it = 0"
    and r: "iter_lookup tc it k st = (addr, warm, st')"
  shows "same_pages tc (iter_node st) (iter_node st')" and "addr = key_leaf tc (iter_node st) (it_root_addr it) t k"
    and "is_claims st' = is_claims st"
    and "\<exists>j < length (leaf_addrs t). addr = leaf_addrs t ! j \<and> key_count tc k (leaf_list (iter_node st) (leaf_addrs t)) =
      first_pos (iter_node st) (leaf_addrs t) j + key_count tc k (leaf_tuples (iter_node st addr)) \<and>
      (\<forall>x \<in> set (leaf_list (iter_node st) (leaf_addrs t)). btree_key_compare tc (fst x) k = 0 \<longrightarrow> x \<in> set (leaf_tuples (iter_node st addr)))"
proof -
  obtain stats where l: "btree_lookup_node tc (is_env st (is_lookups st)) (it_root_addr it) k 0 (it_page_type it) (is_pages st) =
      (addr, stats, warm, is_pages st')" and cl: "is_claims st' = is_claims st"
    using r h by (auto simp: iter_lookup_def split: prod.splits)
  have b: "btree_at tc (iter_node st) (it_root_addr it) t" by (rule t)
  note s = lookup_node_splits [OF lex k b l]
  show "same_pages tc (iter_node st) (iter_node st')" "is_claims st' = is_claims st"
    "addr = key_leaf tc (iter_node st) (it_root_addr it) t k" using s(1,3) cl by (simp_all add: key_leaf_def)
  obtain as bs where as: "leaf_addrs t = as @ addr # bs" "\<forall>x \<in> set (leaf_list (iter_node st) as). btree_key_compare tc (fst x) k < 0"
    "\<forall>x \<in> set (leaf_list (iter_node st) bs). 0 < btree_key_compare tc (fst x) k" using s(2) by (auto simp: splits_at_def)
  show "\<exists>j < length (leaf_addrs t). addr = leaf_addrs t ! j \<and> key_count tc k (leaf_list (iter_node st) (leaf_addrs t)) =
      first_pos (iter_node st) (leaf_addrs t) j + key_count tc k (leaf_tuples (iter_node st addr)) \<and>
      (\<forall>x \<in> set (leaf_list (iter_node st) (leaf_addrs t)). btree_key_compare tc (fst x) k = 0 \<longrightarrow> x \<in> set (leaf_tuples (iter_node st addr)))"
    by (rule exI [of _ "length as"])
      (use as key_count_all [OF as(2)] key_count_none [OF as(3)] in \<open>auto simp: first_pos_def\<close>)
qed

section \<open>The beginning\<close>

lemma lookup_and_claim_ok:
  assumes lex: "lexical tc" and k: "key_short k"
  shows "btree_at tc (iter_node st) (it_root_addr it) t \<Longrightarrow> it_height it = 0 \<Longrightarrow> lookup_and_claim bs tc it k st = (it', st') \<Longrightarrow>
    same_pages tc (iter_node st) (iter_node st') \<and>
    (\<exists>w. it' = it\<lparr>it_curr := key_leaf tc (iter_node st) (it_root_addr it) t k, it_is_warm := w\<rparr>)"
proof (induction bs arbitrary: it st)
  case Nil
  obtain addr w st1 where l: "iter_lookup tc it k st = (addr, w, st1)" by (metis prod_cases3)
  show ?case using Nil(3) iter_lookup_leaf(1,2) [OF lex k Nil(1,2) l] by (auto simp: l)
next
  case (Cons b bs)
  obtain addr w st1 where l: "iter_lookup tc it k st = (addr, w, st1)" by (metis prod_cases3)
  note s = iter_lookup_leaf(1,2) [OF lex k Cons.prems(1,2) l]
  show ?case
  proof (cases b)
    case True
    then show ?thesis using Cons.prems(3) s by (auto simp: l)
  next
    case False
    let ?it = "it\<lparr>it_curr := addr, it_is_warm := w\<rparr>"
    note t1 = same_pages_btree(1) [OF s(1) Cons.prems(1)]
    have "same_pages tc (iter_node st1) (iter_node st') \<and>
        (\<exists>w. it' = ?it\<lparr>it_curr := key_leaf tc (iter_node st1) (it_root_addr ?it) t k, it_is_warm := w\<rparr>)"
      by (rule Cons.IH) (use t1 False Cons.prems(2,3) in \<open>simp_all add: l\<close>)
    then show ?thesis
      using same_pages_trans [OF s(1)] key_leaf_same [OF lex k s(1) Cons.prems(1)] by auto
  qed
qed

definition rule_pos :: "comparison \<Rightarrow> int \<Rightarrow> bool \<Rightarrow> int" where
  "rule_pos r i found =
     (case r of less_than \<Rightarrow> if found then i - 1 else i | less_than_or_equal \<Rightarrow> i
      | greater_than_or_equal \<Rightarrow> if found then i else i + 1 | greater_than \<Rightarrow> i + 1)"

lemma find_key_leaf:
  "it_height it = 0 \<Longrightarrow> btree_find_tuple tc hdr k = (i, found) \<Longrightarrow> find_key_in_node tc it hdr k r = (rule_pos r i found, found, it)"
  by (simp add: find_key_in_node_def rule_pos_def split: comparison.split)

text \<open>The position that a key and a rule stand for: before, at or behind the key.\<close>

definition start_pos :: "btree_config \<Rightarrow> comparison \<Rightarrow> key \<Rightarrow> (key \<times> message) list \<Rightarrow> int" where
  "start_pos tc r k ts = int (key_count tc k ts) +
     (let there = (\<exists>x \<in> set ts. btree_key_compare tc (fst x) k = 0)
      in case r of less_than \<Rightarrow> - 1 | less_than_or_equal \<Rightarrow> if there then 0 else - 1
         | greater_than_or_equal \<Rightarrow> 0 | greater_than \<Rightarrow> if there then 1 else 0)"

lemma find_start_pos:
  assumes "lexical tc" and "leaf_node tc hdr" and "key_short k" and f: "btree_find_tuple tc hdr k = (i, found)"
  shows "rule_pos r i found = start_pos tc r k (leaf_tuples hdr)"
proof -
  note c = find_tuple_count [OF assms]
  have "(\<exists>x \<in> set (leaf_tuples hdr). btree_key_compare tc (fst x) k = 0) \<longleftrightarrow> found"
  proof
    assume "\<exists>x \<in> set (leaf_tuples hdr). btree_key_compare tc (fst x) k = 0"
    then obtain j where "j < length (leaf_tuples hdr)" "btree_key_compare tc (fst (leaf_tuples hdr ! j)) k = 0"
      by (metis in_set_conv_nth)
    then show found using c(4) [of j] by blast
  next
    assume found
    note t = c(2) [OF this]
    then have "leaf_tuples hdr ! nat i \<in> set (leaf_tuples hdr)" by (intro nth_mem) auto
    then show "\<exists>x \<in> set (leaf_tuples hdr). btree_key_compare tc (fst x) k = 0" using t by blast
  qed
  then show ?thesis using c(1) by (cases r) (simp_all add: rule_pos_def start_pos_def)
qed

lemma find_end_ok:
  assumes lex: "lexical tc" and k: "key_short (it_min_key it)" "key_short (it_max_key it)" and h: "it_height it = 0"
    and t: "btree_at tc (iter_node st) (it_root_addr it) t" and r: "btree_iterator_find_end tc it st = (it', st')"
  shows "same_pages tc (iter_node st) (iter_node st')"
    and "\<exists>e a g x. it' = it\<lparr>it_end_addr := a, it_end_generation := g, it_end_idx := x\<rparr> \<and> end_known tc (iter_node st') (leaf_addrs t) it' e \<and>
      leaf_addrs t ! e = key_leaf tc (iter_node st) (it_root_addr it) t (it_max_key it)"
proof -
  let ?L = "leaf_addrs t" and ?max = "it_max_key it"
  obtain addr w where l: "iter_lookup tc it ?max st = (addr, w, st')" using r
    by (auto simp: btree_iterator_find_end_def Let_def split: prod.splits if_splits)
  note s = iter_lookup_leaf [OF lex k(2) t h l]
  show s1: "same_pages tc (iter_node st) (iter_node st')" by (rule s(1))
  note t1 = same_pages_btree [OF s1 t]
  note ch = tree_chain [OF lex t] and ch1 = tree_chain [OF lex t1(1)]
  obtain e where e: "e < length ?L" "addr = ?L ! e" "key_count tc ?max (leaf_list (iter_node st) ?L) =
      first_pos (iter_node st) ?L e + key_count tc ?max (leaf_tuples (iter_node st (?L ! e)))" using s(4) by auto
  note f = same_pages_first [OF s1 ch, of e]
  note leaf = chain_leaf [OF ch e(1)]
  have lt: "leaf_tuples (iter_node st' (?L ! e)) = leaf_tuples (iter_node st (?L ! e))" using same_pages_leaf [OF s1 leaf] by simp
  have leaf1: "leaf_node tc (iter_node st' (?L ! e))" using same_pages_leaf [OF s1 leaf] by simp
  have num: "leaf_size_at (iter_node st') ?L e = length (leaf_tuples (iter_node st (?L ! e)))" using lt by (metis length_leaf_tuples)
  obtain i found where ff: "btree_find_tuple tc (iter_node st' (?L ! e)) ?max = (i, found)" by fastforce
  let ?c = "int (key_count tc ?max (leaf_tuples (iter_node st (?L ! e))))"
  have c: "rule_pos greater_than_or_equal i found = ?c" using find_start_pos [OF lex leaf1 k(2) ff, of greater_than_or_equal] lt by (simp add: start_pos_def)
  have inf: "?max = POSITIVE_INFINITY_KEY \<Longrightarrow> ?c = int (leaf_size_at (iter_node st') ?L e)"
    using leaf key_count_all [of "leaf_tuples (iter_node st (?L ! e))" tc POSITIVE_INFINITY_KEY] num
    by (auto simp: leaf_node_def tuple_small_def)
  have it': "it' = it\<lparr>it_end_addr := ?L ! e, it_end_generation := generation (iter_node st' (?L ! e)), it_end_idx := ?c\<rparr>"
  proof (cases "?max = POSITIVE_INFINITY_KEY")
    case True
    then show ?thesis using r inf l [unfolded True] e(2) by (auto simp: btree_iterator_find_end_def Let_def)
  next
    case False
    let ?it1 = "it\<lparr>it_end_addr := ?L ! e, it_end_generation := generation (iter_node st' (?L ! e))\<rparr>"
    have "it_height ?it1 = 0" using h by simp
    note fk = find_key_leaf [OF this ff, of greater_than_or_equal]
    show ?thesis using r False fk c by (simp add: btree_iterator_find_end_def l e(2) Let_def)
  qed
  have "?c \<le> int (leaf_size_at (iter_node st') ?L e)" using key_count_le [of tc ?max "leaf_tuples (iter_node st (?L ! e))"] num by simp
  then have "end_known tc (iter_node st') ?L it' e" using e(1,3) f t1(2) k h unfolding it' by (simp add: end_known_def it_key_count_def)
  then show "\<exists>e a g x. it' = it\<lparr>it_end_addr := a, it_end_generation := g, it_end_idx := x\<rparr> \<and> end_known tc (iter_node st') ?L it' e \<and>
      ?L ! e = key_leaf tc (iter_node st) (it_root_addr it) t ?max" using it' e(2) s(2) by blast
qed

section \<open>Settling at the start\<close>

text \<open>
  An iterator that is ready: it stands at \<open>p\<close>; or its range has no tuple, and it says so in one direction
  at least.
\<close>

definition iter_ready :: "btree_config \<Rightarrow> (u64 \<Rightarrow> btree_hdr) \<Rightarrow> u64 list \<Rightarrow> btree_iterator \<Rightarrow> iter_state \<Rightarrow> int \<Rightarrow> bool" where
  "iter_ready tc N L it st p \<longleftrightarrow>
     (if it_key_count tc N L (it_min_key it) < it_key_count tc N L (it_max_key it)
      then \<exists>j e. standing tc N L it j e \<and> int (first_pos N L j) + it_idx it = p
      else \<not> (btree_iterator_can_next it st \<and> btree_iterator_can_prev it st))"

lemma iter_ready_prefetch [simp]:
  "iter_ready tc N L it (st\<lparr>is_prefetched := ps\<rparr>) p = iter_ready tc N L it st p"
  by (simp add: iter_ready_def btree_iterator_can_next_def btree_iterator_can_prev_def)

lemma iter_readyI:
  "standing tc N L it j e \<Longrightarrow> p = int (first_pos N L j) + it_idx it \<Longrightarrow> iter_ready tc N L it st p"
  by (auto simp: iter_ready_def standing_def)

text \<open>The place that the beginning computes, before it is moved to a neighbour leaf.\<close>

definition set_out :: "btree_config \<Rightarrow> (u64 \<Rightarrow> btree_hdr) \<Rightarrow> u64 list \<Rightarrow> btree_iterator \<Rightarrow> nat \<Rightarrow> nat \<Rightarrow> bool" where
  "set_out tc N L it j e \<longleftrightarrow> leaf_chain tc N L \<and> end_known tc N L it e \<and> it_curr it = L ! j \<and> j \<le> e \<and>
     it_key_count tc N L (it_min_key it) \<le> it_key_count tc N L (it_max_key it) \<and>
     int (it_key_count tc N L (it_min_key it)) - 1 \<le> int (first_pos N L j) + it_idx it \<and>
     int (first_pos N L j) + it_idx it \<le> int (it_key_count tc N L (it_max_key it)) \<and>
     - 1 \<le> it_idx it \<and> it_idx it \<le> int (leaf_size_at N L j) \<and>
     min_place N L j (it_curr_min_idx it) (it_key_count tc N L (it_min_key it)) \<and>
     (j < e \<and> it_idx it = int (leaf_size_at N L j) \<longrightarrow>
        int (it_key_count tc N L (it_min_key it)) = int (first_pos N L j) + it_idx it)"

lemma set_out_facts:
  assumes "set_out tc N L it j e"
  shows "e < length L" and "j < length L" and "it_curr it = it_end_addr it \<longleftrightarrow> j = e"
    and "j < e \<Longrightarrow> first_pos N L j + leaf_size_at N L j \<le> first_pos N L e"
    and "i \<noteq> e \<Longrightarrow> i < length L \<Longrightarrow> 0 < leaf_size_at N L i" and "0 < j \<Longrightarrow> 0 < leaf_size_at N L (j - 1)"
    and "int (first_pos N L e) \<le> int (it_key_count tc N L (it_max_key it))"
proof -
  have c: "leaf_chain tc N L" "end_known tc N L it e" "it_curr it = L ! j" "j \<le> e" using assms by (simp_all add: set_out_def)
  show e: "e < length L" and j: "j < length L" using c by (simp_all add: end_known_def)
  show "it_curr it = it_end_addr it \<longleftrightarrow> j = e" using chain_nth_eq [OF c(1) j e] c by (auto simp: end_known_def)
  show "j < e \<Longrightarrow> first_pos N L j + leaf_size_at N L j \<le> first_pos N L e" by (rule first_pos_less [OF _ j])
  show "i \<noteq> e \<Longrightarrow> i < length L \<Longrightarrow> 0 < leaf_size_at N L i" using chain_full [OF c(1) _ e] by blast
  show "0 < j \<Longrightarrow> 0 < leaf_size_at N L (j - 1)" using chain_full [OF c(1) _ j, of "j - 1"] j by simp
  show "int (first_pos N L e) \<le> int (it_key_count tc N L (it_max_key it))" using c(2) by (simp add: end_known_def)
qed

text \<open>It stays where it is.\<close>

lemma ready_here:
  assumes s: "set_out tc N L it j e" and "\<not> (j \<noteq> e \<and> it_idx it = int (leaf_size_at N L j))"
    and "\<not> (it_curr_min_idx it = - 1 \<and> it_idx it = - 1)"
  shows "iter_ready tc N L it st (int (first_pos N L j) + it_idx it)"
proof (cases "it_key_count tc N L (it_min_key it) < it_key_count tc N L (it_max_key it)")
  case True
  then have "standing tc N L it j e" using s assms(2,3) by (auto simp: set_out_def standing_def)
  then show ?thesis using True by (auto simp: iter_ready_def)
next
  case False
  note f = set_out_facts [OF s]
  have mp: "min_place N L j (it_curr_min_idx it) (it_key_count tc N L (it_min_key it))" using s by (simp add: set_out_def)
  have "\<not> (btree_iterator_can_next it st \<and> btree_iterator_can_prev it st)"
  proof (cases "j = e")
    case True
    then show ?thesis using s False mp assms(3) f(3)
      by (auto simp: set_out_def end_known_def min_place_def btree_iterator_can_next_def btree_iterator_can_prev_def)
  next
    case ne: False
    then have "j < e" "0 < leaf_size_at N L j" using s f(5) [OF ne f(2)] by (simp_all add: set_out_def)
    have lo: "int (it_key_count tc N L (it_min_key it)) - 1 \<le> int (first_pos N L j) + it_idx it"
        "int (first_pos N L j) + it_idx it \<le> int (it_key_count tc N L (it_min_key it))" "it_idx it \<le> int (leaf_size_at N L j)"
      using s False by (simp_all add: set_out_def)
    have "int (first_pos N L j) + int (leaf_size_at N L j) \<le> int (it_key_count tc N L (it_min_key it))"
      using f(4) [OF \<open>j < e\<close>] f(7) False by linarith
    then have "it_idx it < it_curr_min_idx it"
      using mp lo assms(2) ne \<open>0 < leaf_size_at N L j\<close> unfolding min_place_def by linarith
    then show ?thesis by (simp add: btree_iterator_can_prev_def)
  qed
  then show ?thesis using False by (simp add: iter_ready_def)
qed

text \<open>It goes on to the next leaf.\<close>

lemma ready_next:
  assumes s: "set_out tc N L it j e" and c: "j \<noteq> e" "it_idx it = int (leaf_size_at N L j)"
    and it': "it' = it\<lparr>it_curr := L ! Suc j, it_idx := 0, it_curr_min_idx := 0\<rparr>"
  shows "iter_ready tc N L it' st (int (first_pos N L j) + it_idx it)"
proof -
  note f = set_out_facts [OF s]
  have j: "j < e" using s c(1) by (simp add: set_out_def)
  have p: "first_pos N L (Suc j) = first_pos N L j + leaf_size_at N L j" by (rule first_pos_Suc [OF f(2)])
  have lo: "int (it_key_count tc N L (it_min_key it)) = int (first_pos N L (Suc j))" using s j c(2) p by (simp add: set_out_def)
  have k: "end_known tc N L it' e" using s by (simp add: set_out_def end_known_def it')
  have full: "Suc j < e \<Longrightarrow> 0 < leaf_size_at N L (Suc j)" using f(1) f(5) [of "Suc j"] by simp
  show ?thesis
  proof (cases "it_key_count tc N L (it_min_key it) < it_key_count tc N L (it_max_key it)")
    case True
    have "standing tc N L it' (Suc j) e"
      using s True j lo k full by (auto simp: standing_def set_out_def it' min_place_def)
    then show ?thesis by (rule iter_readyI) (use p c(2) in \<open>simp add: it'\<close>)
  next
    case False
    have "\<not> Suc j < e"
      using first_pos_less [of "Suc j" e L N] full f(1,7) False s lo by (force simp: set_out_def)
    then have e: "Suc j = e" using j by simp
    then have "it_end_idx it' = 0" "it_curr it' = it_end_addr it'" using k False s lo by (auto simp: end_known_def set_out_def it')
    then have "\<not> btree_iterator_can_prev it' st" by (simp add: btree_iterator_can_prev_def it')
    then show ?thesis using False by (simp add: iter_ready_def it')
  qed
qed

text \<open>It goes back to the leaf before.\<close>

lemma ready_prev:
  assumes s: "set_out tc N L it j e" and c: "it_curr_min_idx it = - 1" "it_idx it = - 1" and j: "0 < j"
    and m: "min_place N L (j - 1) m (it_key_count tc N L (it_min_key it))"
    and it': "it' = it\<lparr>it_curr := L ! (j - 1), it_idx := int (leaf_size_at N L (j - 1)) - 1, it_curr_min_idx := m\<rparr>"
  shows "iter_ready tc N L it' st (int (first_pos N L j) + it_idx it)"
proof -
  note f = set_out_facts [OF s]
  have p: "first_pos N L j = first_pos N L (j - 1) + leaf_size_at N L (j - 1)" using first_pos_Suc [of "j - 1" L N] j f(2) by simp
  have k: "end_known tc N L it' e" using s by (simp add: set_out_def end_known_def it')
  note full = f(6) [OF j]
  have je: "j - 1 < e" "first_pos N L j \<le> first_pos N L e" using s j first_pos_mono by (auto simp: set_out_def)
  show ?thesis
  proof (cases "it_key_count tc N L (it_min_key it) < it_key_count tc N L (it_max_key it)")
    case True
    have "standing tc N L it' (j - 1) e" using s True je p k full m c by (auto simp: standing_def set_out_def it')
    then show ?thesis by (rule iter_readyI) (use p c(2) in \<open>simp add: it'\<close>)
  next
    case False
    have "int (it_key_count tc N L (it_min_key it)) = int (first_pos N L j)"
      using s False je(2) f(7) c by (auto simp: set_out_def min_place_def)
    then have "\<not> btree_iterator_can_prev it' st"
      using m p full by (auto simp: min_place_def btree_iterator_can_prev_def it')
    then show ?thesis using False by (simp add: iter_ready_def it')
  qed
qed

section \<open>Setting up\<close>

lemma key_leaf_place:
  assumes lex: "lexical tc" and k: "key_short k" and t: "btree_at tc (iter_node st) root t"
  obtains j where "j < length (leaf_addrs t)" and "key_leaf tc (iter_node st) root t k = leaf_addrs t ! j"
    and "key_count tc k (leaf_list (iter_node st) (leaf_addrs t)) =
      first_pos (iter_node st) (leaf_addrs t) j + key_count tc k (leaf_tuples (iter_node st (leaf_addrs t ! j)))"
    and "start_pos tc r k (leaf_list (iter_node st) (leaf_addrs t)) =
      int (first_pos (iter_node st) (leaf_addrs t) j) + start_pos tc r k (leaf_tuples (iter_node st (leaf_addrs t ! j)))"
proof -
  let ?it = "\<lparr>it_do_prefetch = False, it_height = 0, it_page_type = PAGE_TYPE_BRANCH, it_min_key = k, it_max_key = k, it_root_addr = root,
    it_curr = 0, it_idx = 0, it_curr_min_idx = 0, it_end_addr = 0, it_end_idx = 0, it_end_generation = 0, it_is_warm = False\<rparr>"
  obtain addr w st1 where l: "iter_lookup tc ?it k st = (addr, w, st1)" by (metis prod_cases3)
  have t': "btree_at tc (iter_node st) (it_root_addr ?it) t" "it_height ?it = 0" using t by simp_all
  note s = iter_lookup_leaf [OF lex k t' l]
  obtain j where j: "j < length (leaf_addrs t)" "addr = leaf_addrs t ! j" "key_count tc k (leaf_list (iter_node st) (leaf_addrs t)) =
      first_pos (iter_node st) (leaf_addrs t) j + key_count tc k (leaf_tuples (iter_node st addr))"
    "\<forall>x \<in> set (leaf_list (iter_node st) (leaf_addrs t)). btree_key_compare tc (fst x) k = 0 \<longrightarrow> x \<in> set (leaf_tuples (iter_node st addr))"
    using s(4) by auto
  have "set (leaf_tuples (iter_node st addr)) \<subseteq> set (leaf_list (iter_node st) (leaf_addrs t))"
    using leaf_list_cut [OF j(1)] j(2) by auto
  then have "(\<exists>x \<in> set (leaf_list (iter_node st) (leaf_addrs t)). btree_key_compare tc (fst x) k = 0) \<longleftrightarrow>
      (\<exists>x \<in> set (leaf_tuples (iter_node st addr)). btree_key_compare tc (fst x) k = 0)" using j(4) by blast
  then have "start_pos tc r k (leaf_list (iter_node st) (leaf_addrs t)) =
      int (first_pos (iter_node st) (leaf_addrs t) j) + start_pos tc r k (leaf_tuples (iter_node st addr))"
    using j(3) by (simp add: start_pos_def)
  then show thesis using that [OF j(1)] j(2,3) s(2) by simp
qed

text \<open>
  The starts that the code sets out from correctly: before or at the start key, or at the beginning of
  the range.
\<close>

definition start_rule :: "btree_config \<Rightarrow> comparison \<Rightarrow> key \<Rightarrow> key \<Rightarrow> bool" where
  "start_rule tc r k min_key \<longleftrightarrow>
     r = less_than \<or> r = less_than_or_equal \<or> r = greater_than_or_equal \<and> btree_key_compare tc k min_key \<le> 0"

lemma key_count_present: "x \<in> set ts \<Longrightarrow> btree_key_compare tc (fst x) k = 0 \<Longrightarrow> key_count tc k ts < length ts"
  unfolding key_count_def by (rule length_filter_less [of x]) auto

lemma start_pos_leaf:
  "start_rule tc r k m \<Longrightarrow> - 1 \<le> start_pos tc r k ts \<and> start_pos tc r k ts \<le> int (length ts) \<and>
     (start_pos tc r k ts = int (length ts) \<longrightarrow> r = greater_than_or_equal)"
  using key_count_le [of tc k ts] key_count_present [of _ ts tc k]
  by (cases r) (auto simp: start_rule_def start_pos_def)

lemma start_pos_range:
  assumes lex: "lexical tc" and ts: "\<forall>x \<in> set ts. key_short (fst x)" and short: "key_short m" "key_short k" "key_short l"
    and "btree_key_compare tc m k \<le> 0" "btree_key_compare tc k l \<le> 0" "start_rule tc r k m"
  shows "int (key_count tc m ts) - 1 \<le> start_pos tc r k ts" and "start_pos tc r k ts \<le> int (key_count tc l ts)"
    and "r = greater_than_or_equal \<Longrightarrow> start_pos tc r k ts = int (key_count tc m ts)"
proof -
  have a: "key_count tc m ts \<le> key_count tc k ts" "key_count tc k ts \<le> key_count tc l ts"
    using key_count_mono [OF lex ts short(1,2)] key_count_mono [OF lex ts short(2,3)] assms(6,7) by simp_all
  show "int (key_count tc m ts) - 1 \<le> start_pos tc r k ts" "start_pos tc r k ts \<le> int (key_count tc l ts)"
    using a assms(8) by (cases r; simp add: start_pos_def start_rule_def)+
  show "start_pos tc r k ts = int (key_count tc m ts)" if "r = greater_than_or_equal"
    using a(1) key_count_mono [OF lex ts short(2,1)] assms(8) that by (simp add: start_pos_def start_rule_def)
qed

text \<open>The computation of the place in the leaf.\<close>

lemma set_out_ok:
  assumes lex: "lexical tc" and t: "btree_at tc (iter_node st) root t" and k: "end_known tc (iter_node st) (leaf_addrs t) it e"
    and e: "leaf_addrs t ! e = key_leaf tc (iter_node st) root t (it_max_key it)"
    and j: "j < length (leaf_addrs t)" "key_leaf tc (iter_node st) root t s = leaf_addrs t ! j"
      "key_count tc s (leaf_list (iter_node st) (leaf_addrs t)) =
        first_pos (iter_node st) (leaf_addrs t) j + key_count tc s (leaf_tuples (iter_node st (leaf_addrs t ! j)))"
      "start_pos tc r s (leaf_list (iter_node st) (leaf_addrs t)) =
        int (first_pos (iter_node st) (leaf_addrs t) j) + start_pos tc r s (leaf_tuples (iter_node st (leaf_addrs t ! j)))"
    and s: "key_short s" "btree_key_compare tc (it_min_key it) s \<le> 0" "btree_key_compare tc s (it_max_key it) \<le> 0"
    and rule: "start_rule tc r s (it_min_key it)" and c: "it_curr it = leaf_addrs t ! j"
    and m: "min_place (iter_node st) (leaf_addrs t) j (it_curr_min_idx it) (it_key_count tc (iter_node st) (leaf_addrs t) (it_min_key it))"
    and idx: "it_idx it = start_pos tc r s (leaf_tuples (iter_node st (leaf_addrs t ! j)))"
  shows "set_out tc (iter_node st) (leaf_addrs t) it j e"
proof -
  let ?N = "iter_node st" and ?L = "leaf_addrs t"
  note ch = tree_chain [OF lex t]
  have short: "key_short (it_min_key it)" "key_short (it_max_key it)" "e < length ?L" using k by (simp_all add: end_known_def)
  have ts: "\<forall>x \<in> set (leaf_list ?N ?L). key_short (fst x)" using ch by (simp add: leaf_chain_def)
  have mm: "btree_key_compare tc (it_min_key it) (it_max_key it) \<le> 0"
    using total_compare.cmp_trans [OF lexical_compare [OF lex] short(1) s(1) short(2) s(2,3)] .
  have "j \<le> e" by (rule key_leaf_order [OF lex s(1) short(2) s(3) t j(1,2) short(3) e [symmetric]])
  moreover have "it_key_count tc ?N ?L (it_min_key it) \<le> it_key_count tc ?N ?L (it_max_key it)"
    unfolding it_key_count_def by (rule key_count_mono [OF lex ts short(1,2) mm])
  moreover note start_pos_range [OF lex ts short(1) s(1) short(2) s(2,3) rule]
    start_pos_leaf [OF rule, of "leaf_tuples (?N (?L ! j))"]
  ultimately show ?thesis using ch k c m idx j(4) by (auto simp: set_out_def it_key_count_def)
qed

text \<open>The move to a neighbour leaf.\<close>

lemma settle_ok:
  assumes lex: "lexical tc" and s: "set_out tc (iter_node st) L it j e"
  shows "\<exists>it' ps. settle (Suc n) ac tc it st = Inr (it', st\<lparr>is_prefetched := ps\<rparr>) \<and>
    iter_ready tc (iter_node st) L it' st (int (first_pos (iter_node st) L j) + it_idx it) \<and> it_height it' = it_height it \<and>
    it_root_addr it' = it_root_addr it \<and> it_min_key it' = it_min_key it \<and> it_max_key it' = it_max_key it"
proof -
  note f = set_out_facts [OF s]
  have c: "leaf_chain tc (iter_node st) L" "end_known tc (iter_node st) L it e" "it_curr it = L ! j" "j \<le> e"
    using s by (simp_all add: set_out_def)
  show ?thesis
  proof (cases "j \<noteq> e \<and> it_idx it = int (leaf_size_at (iter_node st) L j)")
    case True
    have "Suc j < length L" using True c(4) f(1) by simp
    from next_leaf_eq [OF c(1,2,3) this] obtain ps where ps: "btree_iterator_next_leaf ac tc it st =
        (it\<lparr>it_curr := L ! Suc j, it_idx := 0, it_curr_min_idx := - 1\<rparr>, st\<lparr>is_prefetched := ps\<rparr>)" by blast
    let ?it = "it\<lparr>it_curr := L ! Suc j, it_idx := 0, it_curr_min_idx := 0\<rparr>"
    have "settle (Suc n) ac tc it st = Inr (?it, st\<lparr>is_prefetched := ps\<rparr>)" using True f(3) c(3) ps by (simp add: settle_def)
    moreover have "iter_ready tc (iter_node st) L ?it st (int (first_pos (iter_node st) L j) + it_idx it)"
      by (rule ready_next [OF s _ _ refl]) (use True in simp_all)
    ultimately show ?thesis by (intro exI [of _ ?it] exI [of _ ps]) simp
  next
    case here: False
    show ?thesis
    proof (cases "it_curr_min_idx it = - 1 \<and> it_idx it = - 1")
      case True
      have mp: "0 < j" "it_key_count tc (iter_node st) L (it_min_key it) \<le> first_pos (iter_node st) L j"
        using s True by (auto simp: set_out_def min_place_def)
      obtain m where m: "btree_iterator_prev_leaf (Suc n) tc it st =
          Inr (it\<lparr>it_curr := L ! (j - 1), it_idx := int (leaf_size_at (iter_node st) L (j - 1)) - 1, it_curr_min_idx := m\<rparr>)"
        "min_place (iter_node st) L (j - 1) m (it_key_count tc (iter_node st) L (it_min_key it))"
        using prev_leaf_eq [OF lex c(1,2,3) mp(1) f(2) mp(2)] by blast
      let ?it = "it\<lparr>it_curr := L ! (j - 1), it_idx := int (leaf_size_at (iter_node st) L (j - 1)) - 1, it_curr_min_idx := m\<rparr>"
      have "settle (Suc n) ac tc it st = Inr (?it, st\<lparr>is_prefetched := is_prefetched st\<rparr>)"
        using here True f(3) c(3) m(1) by (auto simp: settle_def)
      moreover have "iter_ready tc (iter_node st) L ?it st (int (first_pos (iter_node st) L j) + it_idx it)"
        by (rule ready_prev [OF s _ _ mp(1) m(2) refl]) (use True in simp_all)
      ultimately show ?thesis by (intro exI [of _ ?it] exI [of _ "is_prefetched st"]) simp
    next
      case False
      have "settle (Suc n) ac tc it st = Inr (it, st\<lparr>is_prefetched := is_prefetched st\<rparr>)"
        using here False f(3) c(3) by (auto simp: settle_def)
      then show ?thesis using ready_here [OF s here False]
        by (intro exI [of _ it] exI [of _ "is_prefetched st"]) simp
    qed
  qed
qed

lemma find_node_ok:
  assumes lex: "lexical tc" and t: "btree_at tc (iter_node st) (it_root_addr it) t" and h: "it_height it = 0"
    and short: "key_short (it_min_key it)" "key_short s" "key_short (it_max_key it)"
    and le: "btree_key_compare tc (it_min_key it) s \<le> 0" "btree_key_compare tc s (it_max_key it) \<le> 0"
    and rule: "start_rule tc r s (it_min_key it)"
  shows "\<exists>it' st'. find_btree_node_and_get_idx_bounds (Suc n) ac tc it s r st = Inr (it', st') \<and>
    same_pages tc (iter_node st) (iter_node st') \<and> it_height it' = 0 \<and>
    it_root_addr it' = it_root_addr it \<and> it_min_key it' = it_min_key it \<and> it_max_key it' = it_max_key it \<and>
    iter_ready tc (iter_node st') (leaf_addrs t) it' st' (start_pos tc r s (leaf_list (iter_node st) (leaf_addrs t)))"
proof -
  let ?L = "leaf_addrs t"
  obtain it1 st1 where la: "lookup_and_claim (is_claims st) tc it s st = (it1, st1)" by fastforce
  obtain w where l: "same_pages tc (iter_node st) (iter_node st1)"
    "it1 = it\<lparr>it_curr := key_leaf tc (iter_node st) (it_root_addr it) t s, it_is_warm := w\<rparr>"
    using lookup_and_claim_ok [OF lex short(2) t h la] by blast
  have f1: "it_height it1 = 0" "it_min_key it1 = it_min_key it" "it_max_key it1 = it_max_key it" "it_root_addr it1 = it_root_addr it"
    using l(2) h by simp_all
  note t1 = same_pages_btree [OF l(1) t]
  obtain it2 st2 where fe: "btree_iterator_find_end tc it1 st1 = (it2, st2)" by fastforce
  note fe' = find_end_ok [of tc it1 st1 t it2 st2, OF lex _ _ f1(1) _ fe, unfolded f1, OF short(1,3) t1(1)]
  obtain e a g x where e: "it2 = it1\<lparr>it_end_addr := a, it_end_generation := g, it_end_idx := x\<rparr>"
    "end_known tc (iter_node st2) ?L it2 e" "?L ! e = key_leaf tc (iter_node st1) (it_root_addr it) t (it_max_key it)"
    using fe'(2) by blast
  have s2: "same_pages tc (iter_node st) (iter_node st2)" by (rule same_pages_trans [OF l(1) fe'(1)])
  note t2 = same_pages_btree [OF s2 t]
  have f2: "it_height it2 = 0" "it_min_key it2 = it_min_key it" "it_max_key it2 = it_max_key it" "it_root_addr it2 = it_root_addr it"
    "it_curr it2 = key_leaf tc (iter_node st2) (it_root_addr it) t s"
    using e(1) f1 l(2) key_leaf_same [OF lex short(2) s2 t] by simp_all
  have e2: "?L ! e = key_leaf tc (iter_node st2) (it_root_addr it) t (it_max_key it2)"
    using e(3) key_leaf_same [OF lex short(3) fe'(1) t1(1)] f2 by simp
  from key_leaf_place [OF lex short(2) t2(1)] obtain j where j: "j < length ?L" "key_leaf tc (iter_node st2) (it_root_addr it) t s = ?L ! j"
    "key_count tc s (leaf_list (iter_node st2) ?L) =
      first_pos (iter_node st2) ?L j + key_count tc s (leaf_tuples (iter_node st2 (?L ! j)))"
    "start_pos tc r s (leaf_list (iter_node st2) ?L) =
      int (first_pos (iter_node st2) ?L j) + start_pos tc r s (leaf_tuples (iter_node st2 (?L ! j)))" by blast
  let ?hdr = "iter_node st2 (?L ! j)"
  note ch = tree_chain [OF lex t2(1)]
  obtain i0 f0 where q0: "btree_find_tuple tc ?hdr (it_min_key it) = (i0, f0)" by fastforce
  obtain i1 f1' where q1: "btree_find_tuple tc ?hdr s = (i1, f1')" by fastforce
  let ?m = "if f0 then i0 else i0 + 1"
  let ?r = "if \<not> f0 \<and> ?m = 0 then - 1 else ?m"
  let ?min = "if ?r = - 1 \<and> prev_addr ?hdr = 0 then 0 else ?r"
  let ?it = "it2\<lparr>it_curr_min_idx := ?min, it_idx := rule_pos r i1 f1'\<rparr>"
  have "key_count tc (it_min_key it) (leaf_list (iter_node st2) ?L) \<le> first_pos (iter_node st2) ?L j + leaf_size_at (iter_node st2) ?L j"
    using key_count_mono [OF lex _ short(1,2) le(1), of "leaf_list (iter_node st2) ?L"] ch j(3)
      key_count_le [of tc s "leaf_tuples ?hdr"] by (simp add: leaf_chain_def)
  note mp = find_min_place(1) [OF lex ch short(1) j(1) this q0 refl refl]
  have "set_out tc (iter_node st2) ?L ?it j e"
    by (rule set_out_ok [OF lex t2(1) _ _ j(1,2,3,4)])
      (use e(2) e2 short(2) le rule mp f2 j(2) find_start_pos [OF lex chain_leaf [OF ch j(1)] short(2) q1] in
        \<open>simp_all add: end_known_def it_key_count_def\<close>)
  from settle_ok [OF lex this, of n ac] obtain it' ps where se: "settle (Suc n) ac tc ?it st2 = Inr (it', st2\<lparr>is_prefetched := ps\<rparr>)"
    "iter_ready tc (iter_node st2) ?L it' st2 (int (first_pos (iter_node st2) ?L j) + it_idx ?it)" "it_height it' = it_height ?it"
    "it_root_addr it' = it_root_addr ?it" "it_min_key it' = it_min_key ?it" "it_max_key it' = it_max_key ?it" by blast
  have "find_btree_node_and_get_idx_bounds (Suc n) ac tc it s r st = settle (Suc n) ac tc ?it st2"
  proof -
    have c: "it_curr it2 = ?L ! j" using f2(5) j(2) by simp
    have p0: "rule_pos greater_than_or_equal i0 f0 = ?m" by (simp add: rule_pos_def)
    have "(if \<not> f0 \<and> ?m = 0 then ?m - 1 else ?m) = ?r" by simp
    then show ?thesis
      unfolding find_btree_node_and_get_idx_bounds_def la fe prod.case Let_def f2(2) c
        find_key_leaf [OF f2(1) q0] find_key_leaf [OF f2(1) q1] p0 by simp
  qed
  then show ?thesis
    using se s2 f2 j(4) t2(2) find_start_pos [OF lex chain_leaf [OF ch j(1)] short(2) q1, of r]
    by (intro exI [of _ it'] exI [of _ "st2\<lparr>is_prefetched := ps\<rparr>"]) simp
qed

section \<open>The cursor\<close>

text \<open>\<open>shp\<close> gives the shape of the tree at a root: one state may hold several trees, and iterators of them.\<close>

definition iter_ok :: "btree_config \<Rightarrow> (u64 \<Rightarrow> shape) \<Rightarrow> btree_iterator \<Rightarrow> iter_state \<Rightarrow> bool" where
  "iter_ok tc shp it st \<longleftrightarrow> lexical tc \<and> key_short (it_min_key it) \<and> key_short (it_max_key it) \<and>
     btree_at tc (iter_node st) (it_root_addr it) (shp (it_root_addr it)) \<and>
     (\<exists>p. iter_ready tc (iter_node st) (leaf_addrs (shp (it_root_addr it))) it st p)"

definition place_of :: "(u64 \<Rightarrow> btree_hdr) \<Rightarrow> u64 list \<Rightarrow> u64 \<Rightarrow> nat" where
  "place_of N L a = length (leaf_list N (takeWhile (\<lambda>x. x \<noteq> a) L))"

definition iter_view :: "btree_config \<Rightarrow> (u64 \<Rightarrow> shape) \<Rightarrow> btree_iterator \<Rightarrow> iter_state \<Rightarrow> cursor" where
  "iter_view tc shp it st =
     (let t = shp (it_root_addr it)
      in (key_range tc (it_min_key it) (it_max_key it) (tree_tuples (iter_node st) t),
          int (place_of (iter_node st) (leaf_addrs t) (it_curr it)) + it_idx it -
            int (key_count tc (it_min_key it) (tree_tuples (iter_node st) t))))"

lemma place_of_nth:
  assumes "distinct L" and "j < length L"
  shows "place_of N L (L ! j) = first_pos N L j"
proof -
  have "takeWhile (\<lambda>x. x \<noteq> L ! j) L = take j L"
  proof (rule takeWhile_eq_take_P_nth)
    show "L ! i \<noteq> L ! j" if "i < j" "i < length L" for i using nth_eq_iff_index_eq [OF assms(1)] assms(2) that by simp
  qed simp
  then show ?thesis by (simp add: place_of_def first_pos_def)
qed

lemma iter_view_range:
  assumes "iter_ok tc shp it st"
  defines "t \<equiv> shp (it_root_addr it)"
  shows "fst (iter_view tc shp it st) =
      drop (it_key_count tc (iter_node st) (leaf_addrs t) (it_min_key it))
        (take (it_key_count tc (iter_node st) (leaf_addrs t) (it_max_key it)) (leaf_list (iter_node st) (leaf_addrs t)))"
    and "leaf_chain tc (iter_node st) (leaf_addrs t)"
    and "it_key_count tc (iter_node st) (leaf_addrs t) (it_max_key it) \<le> length (leaf_list (iter_node st) (leaf_addrs t))"
proof -
  have ok: "lexical tc" "key_short (it_min_key it)" "key_short (it_max_key it)" "btree_at tc (iter_node st) (it_root_addr it) t"
    using assms by (simp_all add: iter_ok_def)
  show ch: "leaf_chain tc (iter_node st) (leaf_addrs t)" by (rule tree_chain [OF ok(1,4)])
  then have "tuples_sorted tc (leaf_list (iter_node st) (leaf_addrs t))" by (simp add: leaf_chain_def)
  from key_range_slice [OF ok(1) this ok(2,3)]
  show "fst (iter_view tc shp it st) =
      drop (it_key_count tc (iter_node st) (leaf_addrs t) (it_min_key it))
        (take (it_key_count tc (iter_node st) (leaf_addrs t) (it_max_key it)) (leaf_list (iter_node st) (leaf_addrs t)))"
    by (simp add: iter_view_def t_def it_key_count_def tree_leaf_list Let_def)
  show "it_key_count tc (iter_node st) (leaf_addrs t) (it_max_key it) \<le> length (leaf_list (iter_node st) (leaf_addrs t))"
    unfolding it_key_count_def by (rule key_count_le)
qed

text \<open>An iterator whose range has tuples.\<close>

lemma iter_ok_standing:
  assumes ok: "iter_ok tc shp it st" and ne: "fst (iter_view tc shp it st) \<noteq> []"
  defines "t \<equiv> shp (it_root_addr it)"
  obtains j e where "standing tc (iter_node st) (leaf_addrs t) it j e"
    and "snd (iter_view tc shp it st) = int (first_pos (iter_node st) (leaf_addrs t) j) + it_idx it -
      int (it_key_count tc (iter_node st) (leaf_addrs t) (it_min_key it))"
proof -
  note v = iter_view_range [OF ok, folded t_def]
  have "it_key_count tc (iter_node st) (leaf_addrs t) (it_min_key it) < it_key_count tc (iter_node st) (leaf_addrs t) (it_max_key it)"
    using ne unfolding v(1) by (auto simp: linorder_not_le [symmetric])
  then obtain j e where s: "standing tc (iter_node st) (leaf_addrs t) it j e"
    using ok by (auto simp: iter_ok_def iter_ready_def t_def)
  have c: "it_curr it = leaf_addrs t ! j" using s by (simp add: standing_def)
  have "place_of (iter_node st) (leaf_addrs t) (it_curr it) = first_pos (iter_node st) (leaf_addrs t) j"
    unfolding c by (rule place_of_nth) (use v(2) standing_bounds(3) [OF v(2) s] in \<open>simp_all add: leaf_chain_def\<close>)
  then show thesis using that [OF s] by (simp add: iter_view_def t_def it_key_count_def tree_leaf_list Let_def)
qed

lemma standing_ok:
  assumes ok: "iter_ok tc shp it st" and s: "standing tc (iter_node st) (leaf_addrs (shp (it_root_addr it))) it' j e"
    and f: "it_root_addr it' = it_root_addr it" "it_min_key it' = it_min_key it" "it_max_key it' = it_max_key it"
  shows "iter_ok tc shp it' (st\<lparr>is_prefetched := ps\<rparr>)"
    and "iter_view tc shp it' (st\<lparr>is_prefetched := ps\<rparr>) = (fst (iter_view tc shp it st),
      int (first_pos (iter_node st) (leaf_addrs (shp (it_root_addr it))) j) + it_idx it' -
        int (it_key_count tc (iter_node st) (leaf_addrs (shp (it_root_addr it))) (it_min_key it)))"
proof -
  note v = iter_view_range [OF ok]
  show "iter_ok tc shp it' (st\<lparr>is_prefetched := ps\<rparr>)" using ok s iter_readyI [OF s refl] f by (auto simp: iter_ok_def)
  have c: "it_curr it' = leaf_addrs (shp (it_root_addr it)) ! j" using s by (simp add: standing_def)
  have "place_of (iter_node st) (leaf_addrs (shp (it_root_addr it))) (it_curr it') = first_pos (iter_node st) (leaf_addrs (shp (it_root_addr it))) j"
    unfolding c by (rule place_of_nth) (use v(2) standing_bounds(3) [OF v(2) s] in \<open>simp_all add: leaf_chain_def\<close>)
  then show "iter_view tc shp it' (st\<lparr>is_prefetched := ps\<rparr>) = (fst (iter_view tc shp it st),
      int (first_pos (iter_node st) (leaf_addrs (shp (it_root_addr it))) j) + it_idx it' -
        int (it_key_count tc (iter_node st) (leaf_addrs (shp (it_root_addr it))) (it_min_key it)))"
    using f by (simp add: iter_view_def it_key_count_def tree_leaf_list Let_def)
qed

lemma standing_curr:
  assumes ch: "leaf_chain tc (iter_node st) L" and s: "standing tc (iter_node st) L it j e"
    and lo: "int (it_key_count tc (iter_node st) L (it_min_key it)) \<le> int (first_pos (iter_node st) L j) + it_idx it"
    and hi: "int (first_pos (iter_node st) L j) + it_idx it < int (it_key_count tc (iter_node st) L (it_max_key it))"
  shows "btree_iterator_curr it st = leaf_list (iter_node st) L ! nat (int (first_pos (iter_node st) L j) + it_idx it)"
proof -
  let ?N = "iter_node st"
  note b = standing_bounds(3,4) [OF ch s]
  have c: "it_curr it = L ! j" "j \<le> e" "end_known tc ?N L it e" using s by (simp_all add: standing_def)
  have lt: "it_idx it < int (leaf_size_at ?N L j)" "0 \<le> it_idx it"
    using s lo hi c by (auto simp: standing_def end_known_def min_place_def)
  have leaf: "leaf_node tc (?N (L ! j))" by (rule chain_leaf [OF ch b(1)])
  have "table_index (it_idx it) = nat (it_idx it)"
    using lt num_entries_lt [of tc "?N (L ! j)"] leaf by (intro table_index_small) (auto simp: leaf_node_def)
  moreover have "nat (it_idx it) < leaf_size_at ?N L j" using lt by linarith
  moreover have "height (?N (L ! j)) = 0" using leaf by (simp add: leaf_node_def)
  moreover have "nat (int (first_pos ?N L j) + it_idx it) = first_pos ?N L j + nat (it_idx it)" using lt by simp
  ultimately show ?thesis
    using leaf_list_nth(2) [OF b(1), of "nat (it_idx it)" ?N] c(1) by (simp add: btree_iterator_curr_def leaf_tuple_def Let_def)
qed

text \<open>The laws of a cursor, one by one. A step leaves the pages as they are.\<close>

definition pages_kept :: "iter_state \<Rightarrow> iter_state \<Rightarrow> bool" where
  "pages_kept st st' \<longleftrightarrow> is_pages st' = is_pages st"

lemma iter_ok_kept:
  assumes "pages_kept st st'" and "iter_ok tc shp j st"
  shows "iter_ok tc shp j st' \<and> iter_view tc shp j st' = iter_view tc shp j st"
proof -
  have p: "is_pages st' = is_pages st" using assms(1) by (simp add: pages_kept_def)
  have "btree_iterator_can_next j st' = btree_iterator_can_next j st" "btree_iterator_can_prev j st' = btree_iterator_can_prev j st"
    by (simp_all add: btree_iterator_can_next_def btree_iterator_can_prev_def)
  then have "iter_ready tc N L j st' = iter_ready tc N L j st" for N L by (intro ext) (simp only: iter_ready_def)
  then show ?thesis using assms(2) p by (simp only: iter_ok_def iter_view_def)
qed

lemma length_view:
  assumes ok: "iter_ok tc shp it st"
  defines "L \<equiv> leaf_addrs (shp (it_root_addr it))"
  shows "length (fst (iter_view tc shp it st)) =
    it_key_count tc (iter_node st) L (it_max_key it) - it_key_count tc (iter_node st) L (it_min_key it)"
  using iter_view_range(3) [OF ok] by (simp add: iter_view_range(1) [OF ok] L_def)

lemma iter_nothing_there:
  assumes ok: "iter_ok tc shp it st" and e: "fst (iter_view tc shp it st) = []"
  shows "\<not> (btree_iterator_can_next it st \<and> btree_iterator_can_prev it st)"
proof -
  let ?L = "leaf_addrs (shp (it_root_addr it))"
  have "\<not> it_key_count tc (iter_node st) ?L (it_min_key it) < it_key_count tc (iter_node st) ?L (it_max_key it)"
    using length_view [OF ok] e by simp
  then show ?thesis using ok by (auto simp: iter_ok_def iter_ready_def)
qed

lemma iter_can:
  assumes ok: "iter_ok tc shp it st" and ne: "fst (iter_view tc shp it st) \<noteq> []"
  shows "btree_iterator_can_next it st \<longleftrightarrow> snd (iter_view tc shp it st) < int (length (fst (iter_view tc shp it st)))"
    and "btree_iterator_can_prev it st \<longleftrightarrow> 0 \<le> snd (iter_view tc shp it st)"
proof -
  let ?v = "iter_view tc shp it st" and ?N = "iter_node st" and ?L = "leaf_addrs (shp (it_root_addr it))"
  obtain j e where s: "standing tc ?N ?L it j e" "snd ?v = int (first_pos ?N ?L j) + it_idx it - int (it_key_count tc ?N ?L (it_min_key it))"
    using iter_ok_standing [OF ok ne] .
  note b = standing_bounds [OF iter_view_range(2) [OF ok] s(1)]
  have lt: "it_key_count tc ?N ?L (it_min_key it) < it_key_count tc ?N ?L (it_max_key it)" using s(1) by (simp add: standing_def)
  show "btree_iterator_can_next it st \<longleftrightarrow> snd ?v < int (length (fst ?v))" using b(1) s(2) lt length_view [OF ok] by auto
  show "btree_iterator_can_prev it st \<longleftrightarrow> 0 \<le> snd ?v" using b(2) s(2) by auto
qed

lemma iter_next_ok:
  assumes ok: "iter_ok tc shp it st" and ne: "fst (iter_view tc shp it st) \<noteq> []" and c: "btree_iterator_can_next it st"
  shows "\<exists>it' st'. btree_iterator_next ac tc it st = Inr (STATUS_OK, it', st') \<and> iter_ok tc shp it' st' \<and>
    iter_view tc shp it' st' = (fst (iter_view tc shp it st), snd (iter_view tc shp it st) + 1) \<and> pages_kept st st'"
proof -
  let ?v = "iter_view tc shp it st" and ?N = "iter_node st" and ?L = "leaf_addrs (shp (it_root_addr it))"
  obtain j e where s: "standing tc ?N ?L it j e" "snd ?v = int (first_pos ?N ?L j) + it_idx it - int (it_key_count tc ?N ?L (it_min_key it))"
    using iter_ok_standing [OF ok ne] .
  obtain it' j' ps where r: "btree_iterator_next ac tc it st = Inr (STATUS_OK, it', st\<lparr>is_prefetched := ps\<rparr>)"
    "standing tc ?N ?L it' j' e" "it_root_addr it' = it_root_addr it" "it_min_key it' = it_min_key it" "it_max_key it' = it_max_key it"
    "int (first_pos ?N ?L j') + it_idx it' = int (first_pos ?N ?L j) + it_idx it + 1"
    using next_standing [OF iter_view_range(2) [OF ok] s(1) c, of ac] by auto
  show ?thesis using r(1,6) s(2) standing_ok [OF ok r(2-5), of ps]
    by (intro exI [of _ it'] exI [of _ "st\<lparr>is_prefetched := ps\<rparr>"]) (simp add: pages_kept_def)
qed

lemma iter_prev_ok:
  assumes ok: "iter_ok tc shp it st" and ne: "fst (iter_view tc shp it st) \<noteq> []" and c: "btree_iterator_can_prev it st"
  shows "\<exists>it' st'. btree_iterator_prev (Suc n) tc it st = Inr (STATUS_OK, it', st') \<and> iter_ok tc shp it' st' \<and>
    iter_view tc shp it' st' = (fst (iter_view tc shp it st), snd (iter_view tc shp it st) - 1) \<and> pages_kept st st'"
proof -
  let ?v = "iter_view tc shp it st" and ?N = "iter_node st" and ?L = "leaf_addrs (shp (it_root_addr it))"
  have lex: "lexical tc" using ok by (simp add: iter_ok_def)
  obtain j e where s: "standing tc ?N ?L it j e" "snd ?v = int (first_pos ?N ?L j) + it_idx it - int (it_key_count tc ?N ?L (it_min_key it))"
    using iter_ok_standing [OF ok ne] .
  obtain it' j' where r: "btree_iterator_prev (Suc n) tc it st = Inr (STATUS_OK, it', st)"
    "standing tc ?N ?L it' j' e" "it_root_addr it' = it_root_addr it" "it_min_key it' = it_min_key it" "it_max_key it' = it_max_key it"
    "int (first_pos ?N ?L j') + it_idx it' = int (first_pos ?N ?L j) + it_idx it - 1"
    using prev_standing [OF lex iter_view_range(2) [OF ok] s(1) c, of n] by auto
  show ?thesis using r(1,6) s(2) standing_ok [OF ok r(2-5), of "is_prefetched st"]
    by (intro exI [of _ it'] exI [of _ st]) (simp add: pages_kept_def)
qed

lemma iter_curr_ok:
  assumes ok: "iter_ok tc shp it st" and n: "0 \<le> snd (iter_view tc shp it st)"
    "snd (iter_view tc shp it st) < int (length (fst (iter_view tc shp it st)))"
  shows "btree_iterator_curr it st = fst (iter_view tc shp it st) ! nat (snd (iter_view tc shp it st))"
proof -
  let ?v = "iter_view tc shp it st" and ?N = "iter_node st" and ?L = "leaf_addrs (shp (it_root_addr it))"
  note v = iter_view_range [OF ok] and len = length_view [OF ok]
  have ne: "fst ?v \<noteq> []" using n by auto
  obtain j e where s: "standing tc ?N ?L it j e" "snd ?v = int (first_pos ?N ?L j) + it_idx it - int (it_key_count tc ?N ?L (it_min_key it))"
    using iter_ok_standing [OF ok ne] .
  have lt: "it_key_count tc ?N ?L (it_min_key it) < it_key_count tc ?N ?L (it_max_key it)" using s(1) by (simp add: standing_def)
  have "btree_iterator_curr it st = leaf_list ?N ?L ! nat (int (first_pos ?N ?L j) + it_idx it)"
    by (rule standing_curr [OF v(2) s(1)]) (use n s(2) len lt in linarith)+
  moreover have "nat (int (first_pos ?N ?L j) + it_idx it) = it_key_count tc ?N ?L (it_min_key it) + nat (snd ?v)" using n(1) s(2) by simp
  ultimately show ?thesis using n len v(3) by (simp add: v(1) nth_drop nat_less_iff)
qed

theorem btree_iterator_cursor: "list_cursor (btree_iterator_ops (Suc n) ac tc) (iter_ok tc shp) (iter_view tc shp) pages_kept"
proof (rule list_cursor.intro, unfold btree_iterator_ops_def iterator_can_curr_def iterator_ops.select_convs)
  show "pages_kept s s" for s by (simp add: pages_kept_def)
  show "pages_kept s s1 \<Longrightarrow> pages_kept s1 s2 \<Longrightarrow> pages_kept s s2" for s s1 s2 by (simp add: pages_kept_def)
qed (fact iter_ok_kept iter_can iter_nothing_there iter_curr_ok iter_next_ok iter_prev_ok)+

end
