(* ===== verification/BtScan.thy ===== *)
theory BtScan
  imports BtIterProofs
begin

text \<open>
  Scans of a tree. An iterator that is set up at the beginning of its range, or at its end, reads the
  tuples of the range in their order, or in the other one; setting one up leaves the others where they
  are.
\<close>

section \<open>Other iterators\<close>

lemma same_pages_end:
  assumes s: "same_pages tc N N'" and ch: "leaf_chain tc N L"
  shows "end_known tc N' L it e = end_known tc N L it e" and "it_key_count tc N' L k = it_key_count tc N L k"
proof -
  have g: "generation (N' a) = generation (N a)" for a using s by (simp add: same_pages_def hdr_links_def)
  have "leaf_list N' L = leaf_list N L" by (rule same_pages_list [OF s]) (use ch in \<open>simp add: leaf_chain_def\<close>)
  then show c: "it_key_count tc N' L k = it_key_count tc N L k" for k by (simp add: it_key_count_def)
  show "end_known tc N' L it e = end_known tc N L it e"
    using same_pages_first [OF s ch] g c by (auto simp: end_known_def)
qed

lemma same_pages_ready:
  assumes s: "same_pages tc N N'" and ch: "leaf_chain tc N L" and r: "iter_ready tc N L it st p"
  shows "iter_ready tc N' L it st p"
proof -
  have "standing tc N' L it j e" if st: "standing tc N L it j e" for j e
  proof -
    have "j < length L" using standing_bounds(3) [OF ch st] .
    then show ?thesis using st same_pages_end [OF s ch] same_pages_first [OF s ch]
      by (simp add: standing_def min_place_def)
  qed
  then show ?thesis using r same_pages_end [OF s ch] same_pages_first [OF s ch] by (fastforce simp: iter_ready_def)
qed

lemma iter_ok_same:
  assumes ok: "iter_ok tc shp j st" and s: "same_pages tc (iter_node st) (iter_node st')"
  shows "iter_ok tc shp j st'" and "iter_view tc shp j st' = iter_view tc shp j st"
proof -
  let ?L = "leaf_addrs (shp (it_root_addr j))"
  have t: "lexical tc" "btree_at tc (iter_node st) (it_root_addr j) (shp (it_root_addr j))" using ok by (simp_all add: iter_ok_def)
  note ch = tree_chain [OF t]
  obtain p where "iter_ready tc (iter_node st) ?L j st p" using ok by (auto simp: iter_ok_def)
  from same_pages_ready [OF s ch this] have "iter_ready tc (iter_node st') ?L j st' p"
    unfolding iter_ready_def btree_iterator_can_next_def btree_iterator_can_prev_def .
  then show "iter_ok tc shp j st'" using ok same_pages_btree(1) [OF s t(2)] by (auto simp: iter_ok_def)
  have l: "leaf_list (iter_node st') ?L = leaf_list (iter_node st) ?L" by (rule same_pages_btree(2) [OF s t(2)])
  have "leaf_list (iter_node st') (takeWhile (\<lambda>x. x \<noteq> it_curr j) ?L) = leaf_list (iter_node st) (takeWhile (\<lambda>x. x \<noteq> it_curr j) ?L)"
    by (rule same_pages_list [OF s]) (use ch set_takeWhileD in \<open>fastforce simp: leaf_chain_def\<close>)
  then show "iter_view tc shp j st' = iter_view tc shp j st" using l by (simp add: iter_view_def place_of_def tree_leaf_list Let_def)
qed

lemma btree_tuples_sorted:
  assumes "lexical tc" and "btree_at tc N root t"
  shows "tuples_sorted tc (tree_tuples N t)"
  using tree_chain [OF assms] by (simp add: leaf_chain_def tree_leaf_list)

lemma same_pages_tuples: "same_pages tc N N' \<Longrightarrow> btree_at tc N root t \<Longrightarrow> tree_tuples N' t = tree_tuples N t"
  using same_pages_btree(2) by (simp add: tree_leaf_list)

section \<open>Setting up\<close>

lemma key_range_empty:
  assumes lex: "lexical tc" and "\<forall>x \<in> set ts. key_short (fst x)" "key_short lo" "key_short hi" "0 < btree_key_compare tc lo hi"
  shows "key_range tc lo hi ts = []" and "key_range tc lo lo ts = []"
proof -
  note t = total_compare.cmp_less_trans [OF lexical_compare [OF lex]] total_compare.cmp_swap [OF lexical_compare [OF lex]]
  have "\<not> (0 \<le> btree_key_compare tc (fst x) lo \<and> btree_key_compare tc (fst x) hi < 0)" if "x \<in> set ts" for x
    using t(1) [of "fst x" hi lo] t(2) [of hi lo] assms(2-) that by fastforce
  then show "key_range tc lo hi ts = []" by (auto simp: key_range_def filter_empty_conv)
  show "key_range tc lo lo ts = []" by (auto simp: key_range_def filter_empty_conv)
qed

text \<open>The bounds that are used: a maximum below the minimum becomes the minimum, and the start is moved into the range.\<close>

definition clamp_start :: "btree_config \<Rightarrow> key \<Rightarrow> key \<Rightarrow> key \<Rightarrow> key" where
  "clamp_start tc lo hi s =
     (let s = (if btree_key_compare tc s lo < 0 then lo else s) in if btree_key_compare tc s hi > 0 then hi else s)"

lemma clamp_start_ok:
  assumes lex: "lexical tc" and k: "key_short lo" "key_short hi" "key_short s" "btree_key_compare tc lo hi \<le> 0"
  shows "key_short (clamp_start tc lo hi s)" and "btree_key_compare tc lo (clamp_start tc lo hi s) \<le> 0"
    and "btree_key_compare tc (clamp_start tc lo hi s) hi \<le> 0"
  using k total_compare.cmp_swap [OF lexical_compare [OF lex], of s lo] total_compare.cmp_swap [OF lexical_compare [OF lex], of lo s]
    total_compare.cmp_swap [OF lexical_compare [OF lex], of s hi] total_compare.cmp_self [OF lexical_compare [OF lex]]
  by (auto simp: clamp_start_def Let_def)

lemma prefetch_only: "\<exists>ps. prefetch_next ac it st = st\<lparr>is_prefetched := ps\<rparr>"
  by (cases "prefetch_next ac it st = st") (auto simp: prefetch_next_def Let_def intro: exI [of _ "is_prefetched st"] split: if_splits)

lemma init_ok:
  assumes lex: "lexical tc" and t: "btree_at tc (iter_node st) root (shp root)"
    and k: "key_short lo" "key_short hi" "key_short s" "btree_key_compare tc lo hi \<le> 0"
    and rule: "start_rule tc r (clamp_start tc lo hi s) lo"
  shows "\<exists>it st'. btree_iterator_init (Suc n) ac tc root type lo hi s r pf 0 st = Inr (it, st') \<and>
    same_pages tc (iter_node st) (iter_node st') \<and> iter_ok tc shp it st' \<and>
    fst (iter_view tc shp it st') = key_range tc lo hi (tree_tuples (iter_node st) (shp root)) \<and>
    (fst (iter_view tc shp it st') \<noteq> [] \<longrightarrow> snd (iter_view tc shp it st') =
      start_pos tc r (clamp_start tc lo hi s) (tree_tuples (iter_node st) (shp root)) - int (key_count tc lo (tree_tuples (iter_node st) (shp root))))"
proof -
  let ?s = "clamp_start tc lo hi s" and ?T = "tree_tuples (iter_node st) (shp root)"
  let ?it = "\<lparr>it_do_prefetch = pf, it_height = 0, it_page_type = type, it_min_key = lo, it_max_key = hi, it_root_addr = root,
    it_curr = 0, it_idx = 0, it_curr_min_idx = 0, it_end_addr = 0, it_end_idx = 0, it_end_generation = 0, it_is_warm = False\<rparr>"
  note c = clamp_start_ok [OF lex k]
  have "\<exists>it' st'. find_btree_node_and_get_idx_bounds (Suc n) ac tc ?it ?s r st = Inr (it', st') \<and>
      same_pages tc (iter_node st) (iter_node st') \<and> it_height it' = 0 \<and> it_root_addr it' = root \<and> it_min_key it' = lo \<and>
      it_max_key it' = hi \<and> iter_ready tc (iter_node st') (leaf_addrs (shp root)) it' st' (start_pos tc r ?s (leaf_list (iter_node st) (leaf_addrs (shp root))))"
    using find_node_ok [of tc st ?it "shp root" ?s r n ac, OF lex] t k(1,2) c rule by simp
  then obtain it' st1 where f: "find_btree_node_and_get_idx_bounds (Suc n) ac tc ?it ?s r st = Inr (it', st1)"
    "same_pages tc (iter_node st) (iter_node st1)" "it_root_addr it' = root" "it_min_key it' = lo" "it_max_key it' = hi"
    "iter_ready tc (iter_node st1) (leaf_addrs (shp root)) it' st1 (start_pos tc r ?s ?T)" unfolding tree_leaf_list by blast
  have "root \<in> set (addrs (shp root))" "0 \<notin> set (addrs (shp root))"
    using t node_addr_in [of "shp root"] by (auto simp: btree_at_def)
  then have "root \<noteq> 0" by metis
  obtain ps where ps: "prefetch_next ac it' st1 = st1\<lparr>is_prefetched := ps\<rparr>" using prefetch_only by blast
  let ?st = "st1\<lparr>is_prefetched := ps\<rparr>"
  have init: "btree_iterator_init (Suc n) ac tc root type lo hi s r pf 0 st = Inr (it', ?st)"
    using f(1) k(4) \<open>root \<noteq> 0\<close> ps by (simp add: btree_iterator_init_def clamp_start_def Let_def)
  note t1 = same_pages_btree [OF f(2) t]
  note same = same_pages_tuples [OF f(2) t]
  have ok: "iter_ok tc shp it' ?st" using lex k(1,2) t1(1) f(3-6) by (auto simp: iter_ok_def)
  have fst: "fst (iter_view tc shp it' ?st) = key_range tc lo hi ?T" using f(3-5) same by (simp add: iter_view_def Let_def)
  have "snd (iter_view tc shp it' ?st) = start_pos tc r ?s ?T - int (key_count tc lo ?T)" if ne: "fst (iter_view tc shp it' ?st) \<noteq> []"
  proof -
    have "it_key_count tc (iter_node st1) (leaf_addrs (shp root)) lo < it_key_count tc (iter_node st1) (leaf_addrs (shp root)) hi"
      using iter_view_range(1) [OF ok] ne f(3-5) by (auto simp: linorder_not_le [symmetric])
    then obtain j e where "standing tc (iter_node st1) (leaf_addrs (shp root)) it' j e"
      "int (first_pos (iter_node st1) (leaf_addrs (shp root)) j) + it_idx it' = start_pos tc r ?s ?T" using f(4-6) by (auto simp: iter_ready_def)
    note st = this
    have "iter_view tc shp it' ?st = (fst (iter_view tc shp it' ?st), start_pos tc r ?s ?T - int (key_count tc lo ?T))"
      using standing_ok(2) [of tc shp it' ?st it' j e ps, OF ok] st f(3-5) same by (simp add: it_key_count_def tree_leaf_list)
    then show ?thesis by (metis snd_conv)
  qed
  then show ?thesis using init f(2) ok fst by (intro exI [of _ it'] exI [of _ ?st]) simp
qed

section \<open>Scans\<close>

interpretation branch: list_cursor "btree_iterator_ops (Suc n) ac tc" "iter_ok tc shp" "iter_view tc shp" pages_kept for n ac tc shp
  by (rule btree_iterator_cursor)

text \<open>An iterator at the beginning of its range, or at its end.\<close>

definition open_iterator ::
  "nat \<Rightarrow> allocator_config \<Rightarrow> btree_config \<Rightarrow> page_type \<Rightarrow> key \<Rightarrow> key \<Rightarrow> bool \<Rightarrow> bool \<Rightarrow> u64 \<Rightarrow> iter_state \<Rightarrow>
   (btree_iterator \<times> iter_state) outcome" where
  "open_iterator n ac tc type lo hi pf forwards root st =
     btree_iterator_init n ac tc root type lo hi (if forwards then lo else hi)
       (if forwards then greater_than_or_equal else less_than) pf 0 st"

definition in_direction :: "bool \<Rightarrow> 'a list \<Rightarrow> 'a list" where
  "in_direction forwards xs = (if forwards then xs else rev xs)"

lemma ahead_whole:
  assumes n: "fst c \<noteq> [] \<Longrightarrow> snd c = (if d then 0 else int (length (fst c)) - 1)"
  shows "ahead d c = in_direction d (fst c)"
proof (cases "fst c = []")
  case True
  then show ?thesis by (simp add: ahead_def in_direction_def split_beta)
next
  case False
  then have "nat (int (length (fst c)) - 1) + 1 = length (fst c)" by (cases "fst c") simp_all
  then show ?thesis using False n [OF False] by (simp add: ahead_def in_direction_def split_beta)
qed

lemma open_iterator_le:
  assumes lex: "lexical tc" and t: "btree_at tc (iter_node st) root (shp root)"
    and k: "key_short lo" "key_short hi" "btree_key_compare tc lo hi \<le> 0"
  shows "\<exists>it st'. open_iterator (Suc n) ac tc type lo hi pf d root st = Inr (it, st') \<and>
    same_pages tc (iter_node st) (iter_node st') \<and> iter_ok tc shp it st' \<and>
    ahead d (iter_view tc shp it st') = in_direction d (key_range tc lo hi (tree_tuples (iter_node st) (shp root)))"
proof -
  let ?s = "if d then lo else hi" and ?r = "if d then greater_than_or_equal else less_than" and ?T = "tree_tuples (iter_node st) (shp root)"
  note self = total_compare.cmp_self [OF lexical_compare [OF lex]] and swap = total_compare.cmp_swap [OF lexical_compare [OF lex]]
  have s: "clamp_start tc lo hi ?s = ?s" using k self swap [of hi lo] by (auto simp: clamp_start_def)
  have rule: "start_rule tc ?r ?s lo" using self [OF k(1)] by (simp add: start_rule_def)
  have ks: "key_short ?s" using k by simp
  obtain it st' where i: "open_iterator (Suc n) ac tc type lo hi pf d root st = Inr (it, st')"
    "same_pages tc (iter_node st) (iter_node st')" "iter_ok tc shp it st'" "fst (iter_view tc shp it st') = key_range tc lo hi ?T"
    "fst (iter_view tc shp it st') \<noteq> [] \<longrightarrow> snd (iter_view tc shp it st') = start_pos tc ?r ?s ?T - int (key_count tc lo ?T)"
    using init_ok [of tc st root shp lo hi ?s ?r n ac type pf, OF lex t k(1,2) ks k(3)] rule unfolding s open_iterator_def by blast
  note srt = btree_tuples_sorted [OF lex t]
  have "int (length (key_range tc lo hi ?T)) = int (key_count tc hi ?T) - int (key_count tc lo ?T)"
    using key_range_slice [OF lex srt k(1,2)] key_count_le [of tc hi ?T] key_count_mono [OF lex _ k(1,2,3), of ?T] srt by auto
  then have "ahead d (iter_view tc shp it st') = in_direction d (fst (iter_view tc shp it st'))"
    using i(4,5) by (intro ahead_whole) (simp add: start_pos_def)
  then show ?thesis using i by auto
qed

lemma open_iterator_ok:
  assumes lex: "lexical tc" and t: "btree_at tc (iter_node st) root (shp root)" and k: "key_short lo" "key_short hi"
  shows "\<exists>it st'. open_iterator (Suc n) ac tc type lo hi pf d root st = Inr (it, st') \<and>
    same_pages tc (iter_node st) (iter_node st') \<and> iter_ok tc shp it st' \<and>
    ahead d (iter_view tc shp it st') = in_direction d (key_range tc lo hi (tree_tuples (iter_node st) (shp root)))"
proof (cases "btree_key_compare tc lo hi \<le> 0")
  case False
  have srt: "\<forall>x \<in> set (tree_tuples (iter_node st) (shp root)). key_short (fst x)" using btree_tuples_sorted [OF lex t] by simp
  note self = total_compare.cmp_self [OF lexical_compare [OF lex]] and swap = total_compare.cmp_swap [OF lexical_compare [OF lex]]
  have "open_iterator (Suc n) ac tc type lo hi pf d root st = open_iterator (Suc n) ac tc type lo lo pf d root st"
    using False self [OF k(1)] swap [OF k(2,1)] by (simp add: open_iterator_def btree_iterator_init_def Let_def)
  moreover have "key_range tc lo hi (tree_tuples (iter_node st) (shp root)) = key_range tc lo lo (tree_tuples (iter_node st) (shp root))"
    using key_range_empty [OF lex srt k] False by simp
  ultimately show ?thesis using open_iterator_le [of tc st root shp lo lo n ac type pf d, OF lex t k(1,1)] self [OF k(1)] by simp
qed (rule open_iterator_le [of tc st root shp lo hi n ac type pf d, OF assms])

text \<open>Reading: at most \<open>N\<close> tuples.\<close>

definition btree_scan ::
  "nat \<Rightarrow> nat \<Rightarrow> allocator_config \<Rightarrow> btree_config \<Rightarrow> page_type \<Rightarrow> key \<Rightarrow> key \<Rightarrow> bool \<Rightarrow> bool \<Rightarrow> u64 \<Rightarrow> iter_state \<Rightarrow>
   (platform_status \<times> (key \<times> message) list \<times> iter_state) outcome" where
  "btree_scan N n ac tc type lo hi pf d root st =
     obind (open_iterator n ac tc type lo hi pf d root st) (\<lambda>(it, st1).
     obind (iterator_read N (btree_iterator_ops n ac tc) d it st1) (\<lambda>(rc, l, _, st2). Inr (rc, l, st2)))"

lemma btree_scan_ok:
  assumes "lexical tc" and "btree_at tc (iter_node st) root t" and "key_short lo" "key_short hi"
  shows "\<exists>st'. btree_scan N (Suc n) ac tc type lo hi pf d root st =
      Inr (STATUS_OK, take N (in_direction d (key_range tc lo hi (tree_tuples (iter_node st) t))), st') \<and>
    same_pages tc (iter_node st) (iter_node st')"
proof -
  let ?R = "key_range tc lo hi (tree_tuples (iter_node st) t)"
  obtain it st1 where i: "open_iterator (Suc n) ac tc type lo hi pf d root st = Inr (it, st1)" "iter_ok tc (\<lambda>_. t) it st1"
    "ahead d (iter_view tc (\<lambda>_. t) it st1) = in_direction d ?R" "same_pages tc (iter_node st) (iter_node st1)"
    using open_iterator_ok [of tc st root "\<lambda>_. t" lo hi n ac type pf d, OF assms] by blast
  obtain it' st' where "iterator_read N (btree_iterator_ops (Suc n) ac tc) d it st1 = Inr (STATUS_OK, take N (in_direction d ?R), it', st')"
    "is_pages st' = is_pages st1"
    using branch.read_ahead [OF i(2), of N n ac d] i(3) by (auto simp: pages_kept_def)
  then show ?thesis using i(1,4) by (simp add: btree_scan_def)
qed

end
