(* ===== verification/Merge.thy ===== *)
theory Merge
  imports Iterator
begin

text \<open>
  The merge of iterators (\<open>splinterdb/src/merge.h\<close>, \<open>merge.c\<close>): an array of iterators, the live ones first
  and in the order of their current keys; among equal keys the iterator with the greater number,
  which has the newer messages, comes first. A step takes the first iterator on and puts it back in
  its place by a binary search; messages for equal keys are merged from the newest to the oldest.
\<close>

section \<open>The state\<close>

text \<open>A key is \<open>None\<close> when it is \<open>NULL_KEY\<close>.\<close>

definition NULL_MESSAGE :: message where
  "NULL_MESSAGE = \<lparr>msg_type = MESSAGE_TYPE_INVALID, msg_data = []\<rparr>"

record 'i ordered_iterator =
  oi_itor :: 'i
  oi_seq :: int
  oi_curr_key :: "key option"
  oi_curr_data :: message
  oi_next_key_equal :: bool

datatype merge_behavior = MERGE_RAW | MERGE_INTERMEDIATE | MERGE_FULL

definition MAX_MERGE_ARITY :: nat where "MAX_MERGE_ARITY = 1024"

text \<open>
  \<open>mi_pad\<close> is the flag of the padding before the first iterator. Whether \<open>curr_data\<close> points into the
  buffer is a flag, and the answers of the memory to the growth of the buffer are a list; after its
  end there is memory.
\<close>

record 'i merge_iterator =
  mi_merge_messages :: bool
  mi_finalize_updates :: bool
  mi_emit_deletes :: bool
  mi_can_prev :: bool
  mi_can_next :: bool
  mi_num_remaining :: nat
  mi_curr_key :: "key option"
  mi_curr_data :: message
  mi_curr_in_buffer :: bool
  mi_forwards :: bool
  mi_pad :: bool
  mi_itors :: "'i ordered_iterator list"
  mi_discarded_deletes :: u64
  mi_merge_buffer :: message
  mi_mem :: "bool list"

definition merge_accumulator_copy_message :: "message \<Rightarrow> 'i merge_iterator \<Rightarrow> bool \<times> 'i merge_iterator" where
  "merge_accumulator_copy_message m mi =
     (case mi_mem mi of
        [] \<Rightarrow> (True, mi\<lparr>mi_merge_buffer := m\<rparr>)
      | b # bs \<Rightarrow> if b then (True, mi\<lparr>mi_merge_buffer := m, mi_mem := bs\<rparr>) else (False, mi\<lparr>mi_mem := bs\<rparr>))"

section \<open>Comparison and search\<close>

text \<open>\<open>NULL_KEY\<close> is a user key whose slice is empty.\<close>

definition slice_key :: "key option \<Rightarrow> key" where
  "slice_key k = (case k of None \<Rightarrow> User_Key [] | Some a \<Rightarrow> a)"

definition null_key_compare :: "data_config \<Rightarrow> key option \<Rightarrow> key option \<Rightarrow> int" where
  "null_key_compare cfg k1 k2 = data_key_compare cfg (slice_key k1) (slice_key k2)"

definition bsearch_comp ::
  "data_config \<Rightarrow> bool \<Rightarrow> 'i ordered_iterator \<Rightarrow> 'i ordered_iterator \<Rightarrow> int \<times> bool" where
  "bsearch_comp cfg forwards one two =
     (let c = null_key_compare cfg (oi_curr_key one) (oi_curr_key two);
          cmp = (if forwards then c else - c)
      in (if cmp = 0 then oi_seq two - oi_seq one else cmp, cmp = 0))"

definition merge_comp :: "data_config \<Rightarrow> bool \<Rightarrow> 'i ordered_iterator \<Rightarrow> 'i ordered_iterator \<Rightarrow> int" where
  "merge_comp cfg forwards one two = fst (bsearch_comp cfg forwards one two)"

text \<open>The pointer and the last comparison are carried over the rounds; \<open>lim\<close> is at least halved.\<close>

function bsearch_loop ::
  "('a \<Rightarrow> int \<times> bool) \<Rightarrow> 'a list \<Rightarrow> nat \<Rightarrow> nat \<Rightarrow> nat \<Rightarrow> int \<Rightarrow> bool \<Rightarrow> bool \<Rightarrow> int \<times> bool \<times> bool" where
  "bsearch_loop cf xs lim base p cmp prev_equal next_equal =
     (if lim = 0 then (int p - (if cmp < 0 then 1 else 0), prev_equal, next_equal)
      else
        let p = base + lim div 2; (cmp, keys_equal) = cf (xs ! p)
        in if cmp > 0 then bsearch_loop cf xs ((lim - 1) div 2) (p + 1) p cmp (prev_equal \<or> keys_equal) next_equal
           else bsearch_loop cf xs (lim div 2) base p cmp prev_equal (next_equal \<or> cmp < 0 \<and> keys_equal))"
  by pat_completeness auto
termination by (relation "measure (\<lambda>(_, _, lim, _). lim)") auto

declare bsearch_loop.simps [simp del]

definition bsearch_insert ::
  "data_config \<Rightarrow> bool \<Rightarrow> 'i ordered_iterator \<Rightarrow> 'i ordered_iterator list \<Rightarrow> int \<times> bool \<times> bool" where
  "bsearch_insert cfg forwards x base0 =
     bsearch_loop (bsearch_comp cfg forwards x) base0 (length base0) 0 0 0 False False"

section \<open>A step of the first iterator\<close>

definition set_curr_ordered_iterator ::
  "('i, 's) iterator_ops \<Rightarrow> 's \<Rightarrow> 'i ordered_iterator \<Rightarrow> 'i ordered_iterator" where
  "set_curr_ordered_iterator ops s i =
     (let (k, d) = op_curr ops (oi_itor i) s in i\<lparr>oi_curr_key := Some k, oi_curr_data := d\<rparr>)"

text \<open>The first iterator, taken on, goes back to its place; the flags before it and of it are new.\<close>

definition resort_min :: "data_config \<Rightarrow> 'i ordered_iterator \<Rightarrow> 'i merge_iterator \<Rightarrow> 'i merge_iterator" where
  "resort_min cfg i mi =
     (let rest = tl (mi_itors mi);
          (off, prev_equal, next_equal) = bsearch_insert cfg (mi_forwards mi) i (take (mi_num_remaining mi - 1) rest);
          index = nat (1 + off);
          itors = take index rest @ [i\<lparr>oi_next_key_equal := next_equal\<rparr>] @ drop index rest
      in if index = 0 then mi\<lparr>mi_pad := prev_equal, mi_itors := itors\<rparr>
         else mi\<lparr>mi_itors := itors[index - 1 := (itors ! (index - 1))\<lparr>oi_next_key_equal := prev_equal\<rparr>]\<rparr>)"

text \<open>An exhausted merge must not be advanced.\<close>

definition advance_and_resort_min_ritor ::
  "('i, 's) iterator_ops \<Rightarrow> data_config \<Rightarrow> 'i merge_iterator \<Rightarrow> 's \<Rightarrow> (platform_status \<times> 'i merge_iterator \<times> 's) outcome" where
  "advance_and_resort_min_ritor ops cfg mi s =
     (if mi_num_remaining mi = 0 \<or> mi_itors mi = [] then Inl Abort
      else
        let i0 = hd (mi_itors mi); rest = tl (mi_itors mi);
            i1 = i0\<lparr>oi_next_key_equal := False, oi_curr_key := None, oi_curr_data := NULL_MESSAGE\<rparr>
        in obind (if mi_forwards mi then op_next ops (oi_itor i0) s else op_prev ops (oi_itor i0) s) (\<lambda>(rc, it, s1).
          let i2 = i1\<lparr>oi_itor := it\<rparr>
          in if rc \<noteq> STATUS_OK then Inr (rc, mi\<lparr>mi_itors := i2 # rest\<rparr>, s1)
             else if \<not> iterator_can_curr ops it s1 then
               let n = mi_num_remaining mi - 1
               in Inr (STATUS_OK, mi\<lparr>mi_num_remaining := n, mi_itors := take n rest @ [i2] @ drop n rest\<rparr>, s1)
             else
               let i3 = set_curr_ordered_iterator ops s1 i2
               in if mi_num_remaining mi = 1 then Inr (STATUS_OK, mi\<lparr>mi_itors := i3 # rest\<rparr>, s1)
                  else Inr (STATUS_OK, resort_min cfg i3 mi, s1)))"

section \<open>Equal keys\<close>

text \<open>The loop takes an iterator on in every round; the fuel is the number of iterators.\<close>

primrec merge_resolve_loop ::
  "nat \<Rightarrow> ('i, 's) iterator_ops \<Rightarrow> data_config \<Rightarrow> 'i merge_iterator \<Rightarrow> 's \<Rightarrow> (platform_status \<times> 'i merge_iterator \<times> 's) outcome" where
  "merge_resolve_loop 0 ops cfg mi s = Inl Blocked"
| "merge_resolve_loop (Suc n) ops cfg mi s =
     (if length (mi_itors mi) < 2 then Inl Abort
      else
        let i1 = mi_itors mi ! 1
        in obind (data_merge_tuples cfg (slice_key (mi_curr_key mi)) (oi_curr_data i1) (mi_merge_buffer mi)) (\<lambda>(result, m).
          let mi1 = mi\<lparr>mi_merge_buffer := m\<rparr>
          in if result \<noteq> 0 then Inr (STATUS_NO_MEMORY, mi1, s)
             else obind (advance_and_resort_min_ritor ops cfg (mi1\<lparr>mi_curr_key := oi_curr_key i1\<rparr>) s) (\<lambda>(rc, mi2, s1).
               if rc \<noteq> STATUS_OK then Inr (rc, mi2, s1)
               else if oi_next_key_equal (hd (mi_itors mi2)) then merge_resolve_loop n ops cfg mi2 s1
               else Inr (STATUS_OK, mi2, s1))))"

definition merge_resolve_equal_keys ::
  "('i, 's) iterator_ops \<Rightarrow> data_config \<Rightarrow> 'i merge_iterator \<Rightarrow> 's \<Rightarrow> (platform_status \<times> 'i merge_iterator \<times> 's) outcome" where
  "merge_resolve_equal_keys ops cfg mi s =
     (let (success, mi1) = merge_accumulator_copy_message (mi_curr_data mi) mi
      in if \<not> success then Inr (STATUS_NO_MEMORY, mi1, s)
         else obind (merge_resolve_loop (length (mi_itors mi1)) ops cfg mi1 s) (\<lambda>(rc, mi2, s1).
           Inr (rc, if rc = STATUS_OK then mi2\<lparr>mi_curr_data := mi_merge_buffer mi2, mi_curr_in_buffer := True\<rparr> else mi2, s1)))"

text \<open>The second answer is \<open>discarded\<close>.\<close>

definition finalize_updates :: "data_config \<Rightarrow> 'i merge_iterator \<Rightarrow> (platform_status \<times> 'i merge_iterator) outcome" where
  "finalize_updates cfg mi =
     (let (success, mi1) = (if mi_curr_in_buffer mi then (True, mi) else merge_accumulator_copy_message (mi_curr_data mi) mi)
      in if \<not> success then Inr (STATUS_NO_MEMORY, mi1)
         else obind (data_merge_tuples_final cfg (slice_key (mi_curr_key mi1)) (mi_merge_buffer mi1)) (\<lambda>(result, m).
           if result \<noteq> 0 then Inr (STATUS_NO_MEMORY, mi1\<lparr>mi_merge_buffer := m\<rparr>)
           else Inr (STATUS_OK, mi1\<lparr>mi_merge_buffer := m, mi_curr_data := m, mi_curr_in_buffer := True\<rparr>)))"

definition merge_finalize_updates_and_discard_deletes ::
  "data_config \<Rightarrow> 'i merge_iterator \<Rightarrow> (platform_status \<times> bool \<times> 'i merge_iterator) outcome" where
  "merge_finalize_updates_and_discard_deletes cfg mi =
     obind (if msg_type (mi_curr_data mi) \<noteq> MESSAGE_TYPE_INSERT \<and> mi_finalize_updates mi
            then finalize_updates cfg mi else Inr (STATUS_OK, mi)) (\<lambda>(rc, mi1).
       if rc \<noteq> STATUS_OK then Inr (rc, False, mi1)
       else if msg_type (mi_curr_data mi1) = MESSAGE_TYPE_DELETE \<and> \<not> mi_emit_deletes mi1
       then Inr (STATUS_OK, True, mi1\<lparr>mi_discarded_deletes := mi_discarded_deletes mi1 + 1\<rparr>)
       else Inr (STATUS_OK, False, mi1))"

section \<open>The next tuple\<close>

text \<open>The second answer is \<open>retry\<close>.\<close>

definition advance_one_loop ::
  "('i, 's) iterator_ops \<Rightarrow> data_config \<Rightarrow> 'i merge_iterator \<Rightarrow> 's \<Rightarrow>
   (platform_status \<times> bool \<times> 'i merge_iterator \<times> 's) outcome" where
  "advance_one_loop ops cfg mi s =
     (if mi_num_remaining mi = 0
      then Inr (STATUS_OK, False, if mi_forwards mi then mi\<lparr>mi_can_next := False\<rparr> else mi\<lparr>mi_can_prev := False\<rparr>, s)
      else
        let i0 = hd (mi_itors mi);
            mi1 = mi\<lparr>mi_curr_key := oi_curr_key i0, mi_curr_data := oi_curr_data i0, mi_curr_in_buffer := False\<rparr>
        in if \<not> mi_merge_messages mi then Inr (STATUS_OK, False, mi1, s)
           else obind (if oi_next_key_equal i0 then merge_resolve_equal_keys ops cfg mi1 s
                       else Inr (STATUS_OK, mi1, s)) (\<lambda>(rc, mi2, s1).
             if rc \<noteq> STATUS_OK then Inr (rc, False, mi2, s1)
             else obind (merge_finalize_updates_and_discard_deletes cfg mi2) (\<lambda>(rc, discarded, mi3).
               Inr (rc, rc = STATUS_OK \<and> discarded, mi3, s1))))"

text \<open>The fuel bounds the tuples that are discarded one after the other.\<close>

primrec merge_advance_helper ::
  "nat \<Rightarrow> ('i, 's) iterator_ops \<Rightarrow> data_config \<Rightarrow> 'i merge_iterator \<Rightarrow> 's \<Rightarrow> (platform_status \<times> 'i merge_iterator \<times> 's) outcome" where
  "merge_advance_helper 0 ops cfg mi s = Inl Blocked"
| "merge_advance_helper (Suc n) ops cfg mi s =
     obind (advance_and_resort_min_ritor ops cfg (mi\<lparr>mi_curr_key := None, mi_curr_data := NULL_MESSAGE, mi_curr_in_buffer := False\<rparr>) s)
       (\<lambda>(rc, mi1, s1).
         if rc \<noteq> STATUS_OK then Inr (rc, mi1, s1)
         else obind (advance_one_loop ops cfg mi1 s1) (\<lambda>(rc, retry, mi2, s2).
           if rc \<noteq> STATUS_OK then Inr (rc, mi2, s2)
           else if retry then merge_advance_helper n ops cfg mi2 s2 else Inr (STATUS_OK, mi2, s2)))"

section \<open>Putting the iterators in order\<close>

text \<open>The dead iterators go to the end; \<open>d\<close> counts the iterators that have not been looked at.\<close>

primrec move_dead_iterators ::
  "('i, 's) iterator_ops \<Rightarrow> 's \<Rightarrow> nat \<Rightarrow> nat \<Rightarrow> 'i merge_iterator \<Rightarrow> 'i merge_iterator" where
  "move_dead_iterators ops s i 0 mi = mi"
| "move_dead_iterators ops s i (Suc d) mi =
     (let x = mi_itors mi ! i;
          mi1 = mi\<lparr>mi_can_prev := mi_can_prev mi \<or> op_can_prev ops (oi_itor x) s,
                   mi_can_next := mi_can_next mi \<or> op_can_next ops (oi_itor x) s\<rparr>
      in if \<not> iterator_can_curr ops (oi_itor x) s
         then move_dead_iterators ops s i d
           (mi1\<lparr>mi_itors := (mi_itors mi)[mi_num_remaining mi - 1 := x, i := mi_itors mi ! (mi_num_remaining mi - 1)],
                mi_num_remaining := mi_num_remaining mi - 1\<rparr>)
         else move_dead_iterators ops s (Suc i) d
           (mi1\<lparr>mi_itors := (mi_itors mi)[i := set_curr_ordered_iterator ops s x]\<rparr>))"

text \<open>\<open>qsort_r\<close>; no two iterators compare as equal, so that the sorted order is unique.\<close>

primrec sort_insert :: "('a \<Rightarrow> 'a \<Rightarrow> int) \<Rightarrow> 'a \<Rightarrow> 'a list \<Rightarrow> 'a list" where
  "sort_insert c x [] = [x]"
| "sort_insert c x (y # ys) = (if c x y \<le> 0 then x # y # ys else y # sort_insert c x ys)"

definition platform_sort_slow :: "('a \<Rightarrow> 'a \<Rightarrow> int) \<Rightarrow> 'a list \<Rightarrow> 'a list" where
  "platform_sort_slow c xs = foldr (sort_insert c) xs []"

text \<open>The flag of the last iterator stays as it was.\<close>

fun set_next_key_equal :: "data_config \<Rightarrow> 'i ordered_iterator list \<Rightarrow> 'i ordered_iterator list" where
  "set_next_key_equal cfg (x # y # ys) =
     x\<lparr>oi_next_key_equal := (null_key_compare cfg (oi_curr_key x) (oi_curr_key y) = 0)\<rparr> # set_next_key_equal cfg (y # ys)"
| "set_next_key_equal cfg xs = xs"

text \<open>When the set-up fails, the merge iterator is destroyed: there is none in the answer.\<close>

definition setup_ordered_iterators ::
  "nat \<Rightarrow> ('i, 's) iterator_ops \<Rightarrow> data_config \<Rightarrow> 'i merge_iterator \<Rightarrow> 's \<Rightarrow>
   (platform_status \<times> 'i merge_iterator option \<times> 's) outcome" where
  "setup_ordered_iterators fuel ops cfg mi s =
     (let num_trees = length (mi_itors mi);
          mi1 = move_dead_iterators ops s 0 num_trees (mi\<lparr>mi_can_prev := False, mi_can_next := False, mi_num_remaining := num_trees\<rparr>);
          n = mi_num_remaining mi1;
          live = set_next_key_equal cfg (platform_sort_slow (merge_comp cfg (mi_forwards mi1)) (take n (mi_itors mi1)))
      in obind (advance_one_loop ops cfg (mi1\<lparr>mi_itors := live @ drop n (mi_itors mi1)\<rparr>) s) (\<lambda>(rc, retry, mi2, s1).
         obind (if retry \<and> rc = STATUS_OK then merge_advance_helper fuel ops cfg mi2 s1 else Inr (rc, mi2, s1)) (\<lambda>(rc, mi3, s2).
           Inr (rc, if rc = STATUS_OK then Some mi3 else None, s2))))"

section \<open>The operations\<close>

text \<open>\<open>mem\<close> has the answers of the memory, the first of them to the allocation of the merge iterator.\<close>

definition new_merge_iterator :: "'i list \<Rightarrow> merge_behavior \<Rightarrow> bool \<Rightarrow> bool list \<Rightarrow> 'i merge_iterator" where
  "new_merge_iterator itor_arr mode forwards mem =
     \<lparr>mi_merge_messages = (mode \<noteq> MERGE_RAW), mi_finalize_updates = (mode = MERGE_FULL),
      mi_emit_deletes = (mode \<noteq> MERGE_FULL), mi_can_prev = False, mi_can_next = False, mi_num_remaining = 0,
      mi_curr_key = None, mi_curr_data = NULL_MESSAGE, mi_curr_in_buffer = False, mi_forwards = forwards, mi_pad = False,
      mi_itors = map (\<lambda>(n, it). \<lparr>oi_itor = it, oi_seq = int n, oi_curr_key = None, oi_curr_data = NULL_MESSAGE,
                                 oi_next_key_equal = False\<rparr>) (enumerate 0 itor_arr),
      mi_discarded_deletes = 0, mi_merge_buffer = NULL_MESSAGE, mi_mem = mem\<rparr>"

definition merge_iterator_create ::
  "nat \<Rightarrow> ('i, 's) iterator_ops \<Rightarrow> data_config \<Rightarrow> 'i list \<Rightarrow> merge_behavior \<Rightarrow> bool \<Rightarrow> bool list \<Rightarrow> 's \<Rightarrow>
   (platform_status \<times> 'i merge_iterator option \<times> 's) outcome" where
  "merge_iterator_create fuel ops cfg itor_arr mode forwards mem s =
     (if MAX_MERGE_ARITY \<le> length itor_arr then Inr (STATUS_BAD_PARAM, None, s)
      else if mem \<noteq> [] \<and> \<not> hd mem then Inr (STATUS_NO_MEMORY, None, s)
      else setup_ordered_iterators fuel ops cfg (new_merge_iterator itor_arr mode forwards (tl mem)) s)"

text \<open>Every iterator, live or dead, takes a step in the new direction.\<close>

primrec step_iterators ::
  "('i, 's) iterator_ops \<Rightarrow> bool \<Rightarrow> 'i ordered_iterator list \<Rightarrow> 's \<Rightarrow> ('i ordered_iterator list \<times> 's) outcome" where
  "step_iterators ops forwards [] s = Inr ([], s)"
| "step_iterators ops forwards (x # xs) s =
     obind (if forwards \<and> op_can_next ops (oi_itor x) s then op_next ops (oi_itor x) s
            else if \<not> forwards \<and> op_can_prev ops (oi_itor x) s then op_prev ops (oi_itor x) s
            else Inr (STATUS_OK, oi_itor x, s)) (\<lambda>(_, it, s1).
       obind (step_iterators ops forwards xs s1) (\<lambda>(ys, s2). Inr (x\<lparr>oi_itor := it\<rparr> # ys, s2)))"

definition merge_iterator_set_direction ::
  "nat \<Rightarrow> ('i, 's) iterator_ops \<Rightarrow> data_config \<Rightarrow> bool \<Rightarrow> 'i merge_iterator \<Rightarrow> 's \<Rightarrow>
   (platform_status \<times> 'i merge_iterator option \<times> 's) outcome" where
  "merge_iterator_set_direction fuel ops cfg forwards mi s =
     obind (step_iterators ops forwards (mi_itors mi) s) (\<lambda>(xs, s1).
       setup_ordered_iterators fuel ops cfg (mi\<lparr>mi_forwards := forwards, mi_itors := xs\<rparr>) s1)"

definition merge_next ::
  "nat \<Rightarrow> ('i, 's) iterator_ops \<Rightarrow> data_config \<Rightarrow> 'i merge_iterator \<Rightarrow> 's \<Rightarrow>
   (platform_status \<times> 'i merge_iterator option \<times> 's) outcome" where
  "merge_next fuel ops cfg mi s =
     (if \<not> mi_forwards mi then merge_iterator_set_direction fuel ops cfg True mi s
      else obind (merge_advance_helper fuel ops cfg mi s) (\<lambda>(rc, mi1, s1). Inr (rc, Some mi1, s1)))"

definition merge_prev ::
  "nat \<Rightarrow> ('i, 's) iterator_ops \<Rightarrow> data_config \<Rightarrow> 'i merge_iterator \<Rightarrow> 's \<Rightarrow>
   (platform_status \<times> 'i merge_iterator option \<times> 's) outcome" where
  "merge_prev fuel ops cfg mi s =
     (if mi_forwards mi then merge_iterator_set_direction fuel ops cfg False mi s
      else obind (merge_advance_helper fuel ops cfg mi s) (\<lambda>(rc, mi1, s1). Inr (rc, Some mi1, s1)))"

definition merge_curr :: "'i merge_iterator \<Rightarrow> key option \<times> message" where
  "merge_curr mi = (mi_curr_key mi, mi_curr_data mi)"

end
