(* ===== verification/MergeProofs.thy ===== *)
theory MergeProofs
  imports Merge KeyOrder "HOL-Library.Multiset"
begin

text \<open>
  Merging, on lists. A queue has the lists that are not used up, the list with the least first key in
  front; among equal keys the one with the greatest number. Taking tuples from its front gives all
  tuples in order, and the binary search of the merge finds the place of a list in the queue.
\<close>

section \<open>The binary search\<close>

text \<open>
  \<open>m\<close> is the place of the new element. The neighbours of the range that is left have been compared, so
  that the flags tell whether the neighbours of the place are equal.
\<close>

lemma bsearch_loop_result:
  assumes "lim \<noteq> 0 \<or> int p - (if cmp < 0 then 1 else 0) = int base - 1"
    and "base \<le> m" and "m \<le> base + lim" and "base + lim \<le> length xs"
    and "\<And>j. j < length xs \<Longrightarrow> fst (cf (xs ! j)) \<noteq> 0 \<and> (0 < fst (cf (xs ! j)) \<longleftrightarrow> j < m)"
    and "\<And>i j. j \<le> i \<Longrightarrow> i < m \<Longrightarrow> snd (cf (xs ! j)) \<Longrightarrow> snd (cf (xs ! i))"
    and "\<And>i j. m \<le> i \<Longrightarrow> i \<le> j \<Longrightarrow> j < length xs \<Longrightarrow> snd (cf (xs ! j)) \<Longrightarrow> snd (cf (xs ! i))"
    and "prev_equal \<longleftrightarrow> 0 < base \<and> snd (cf (xs ! (base - 1)))"
    and "next_equal \<longleftrightarrow> base + lim < length xs \<and> snd (cf (xs ! (base + lim)))"
  shows "bsearch_loop cf xs lim base p cmp prev_equal next_equal =
    (int m - 1, 0 < m \<and> snd (cf (xs ! (m - 1))), m < length xs \<and> snd (cf (xs ! m)))"
  using assms
proof (induction cf xs lim base p cmp prev_equal next_equal rule: bsearch_loop.induct)
  case (1 cf xs lim base p cmp prev_equal next_equal)
  note mono = "1.prems"(5-7)
  show ?case
  proof (cases "lim = 0")
    case True
    then have "m = base" using "1.prems"(2,3) by simp
    then show ?thesis using True "1.prems"(1,8,9) by (simp add: bsearch_loop.simps)
  next
    case False
    let ?p = "base + lim div 2"
    obtain c e where ce: "cf (xs ! ?p) = (c, e)" by (cases "cf (xs ! ?p)")
    have p: "?p < length xs" using "1.prems"(4) False by simp
    show ?thesis
    proof (cases "0 < c")
      case True
      then have m: "?p < m" using mono(1) [OF p] ce by simp
      have pe: "prev_equal \<or> e \<longleftrightarrow> 0 < ?p + 1 \<and> snd (cf (xs ! (?p + 1 - 1)))"
        using "1.prems"(8) mono(2) [of "base - 1" ?p] m ce by auto
      have lim: "?p + 1 + (lim - 1) div 2 = base + lim" using False by presburger
      have "bsearch_loop cf xs ((lim - 1) div 2) (?p + 1) ?p c (prev_equal \<or> e) next_equal =
        (int m - 1, 0 < m \<and> snd (cf (xs ! (m - 1))), m < length xs \<and> snd (cf (xs ! m)))"
        by (rule "1.IH"(1) [OF False refl refl ce [symmetric] True])
          (use True m lim "1.prems"(3,4,9) pe mono in \<open>simp_all only: lim\<close>, auto)
      then show ?thesis using False True ce by (subst bsearch_loop.simps) (simp add: Let_def)
    next
      case nn: False
      then have c: "c < 0" and m: "m \<le> ?p" using mono(1) [OF p] ce by (simp_all add: not_less)
      have ne: "next_equal \<or> c < 0 \<and> e \<longleftrightarrow> base + lim div 2 < length xs \<and> snd (cf (xs ! (base + lim div 2)))"
        using "1.prems"(9) mono(3) [of ?p "base + lim"] m ce c p by auto
      have "bsearch_loop cf xs (lim div 2) base ?p c prev_equal (next_equal \<or> c < 0 \<and> e) =
        (int m - 1, 0 < m \<and> snd (cf (xs ! (m - 1))), m < length xs \<and> snd (cf (xs ! m)))"
        by (rule "1.IH"(2) [OF False refl refl ce [symmetric] nn])
          (use c m p ne "1.prems"(2,8) mono in auto)
      then show ?thesis using False nn ce by (subst bsearch_loop.simps) (simp add: Let_def)
    qed
  qed
qed

section \<open>Queues of lists\<close>

text \<open>An entry is a tuple with the number of its list; \<open>precedes\<close> is the order in which entries come out.\<close>

definition precedes :: "('k \<Rightarrow> 'k \<Rightarrow> int) \<Rightarrow> int \<times> 'k \<Rightarrow> int \<times> 'k \<Rightarrow> bool" where
  "precedes c x y \<longleftrightarrow> c (snd x) (snd y) < 0 \<or> c (snd x) (snd y) = 0 \<and> fst y < fst x"

definition front :: "int \<times> ('k \<times> 'm) list \<Rightarrow> int \<times> 'k" where
  "front x = (fst x, fst (hd (snd x)))"

definition tag :: "int \<times> 'k \<times> 'm \<Rightarrow> int \<times> 'k" where
  "tag e = (fst e, fst (snd e))"

primrec queue_insert ::
  "('k \<Rightarrow> 'k \<Rightarrow> int) \<Rightarrow> int \<times> ('k \<times> 'm) list \<Rightarrow> (int \<times> ('k \<times> 'm) list) list \<Rightarrow> (int \<times> ('k \<times> 'm) list) list" where
  "queue_insert c x [] = [x]"
| "queue_insert c x (y # q) = (if precedes c (front x) (front y) then x # y # q else y # queue_insert c x q)"

definition queue_pop :: "('k \<Rightarrow> 'k \<Rightarrow> int) \<Rightarrow> (int \<times> ('k \<times> 'm) list) list \<Rightarrow> (int \<times> ('k \<times> 'm) list) list" where
  "queue_pop c q =
     (let (n, ts) = hd q in if tl ts = [] then tl q else queue_insert c (n, tl ts) (tl q))"

lemma mset_queue_insert [simp]: "mset (queue_insert c x q) = add_mset x (mset q)"
  by (induction q) auto

lemma set_queue_insert [simp]: "set (queue_insert c x q) = insert x (set q)"
  by (induction q) auto

lemma queue_insert_not_Nil [simp]: "queue_insert c x q \<noteq> []"
  by (cases q) auto

definition queue_size :: "(int \<times> ('k \<times> 'm) list) list \<Rightarrow> nat" where
  "queue_size q = (\<Sum>x\<in>#mset q. Suc (length (snd x)))"

lemma queue_size_pop: "q \<noteq> [] \<Longrightarrow> queue_size (queue_pop c q) < queue_size q"
  by (cases q; cases "snd (hd q)") (auto simp: queue_size_def queue_pop_def split_beta)

text \<open>All entries of a queue, in the order in which they come out.\<close>

function flat :: "('k \<Rightarrow> 'k \<Rightarrow> int) \<Rightarrow> (int \<times> ('k \<times> 'm) list) list \<Rightarrow> (int \<times> 'k \<times> 'm) list" where
  "flat c q = (if q = [] then [] else (fst (hd q), hd (snd (hd q))) # flat c (queue_pop c q))"
  by pat_completeness auto
termination by (relation "measure (\<lambda>(_, q). queue_size q)") (auto simp: queue_size_pop)

declare flat.simps [simp del]

lemma flat_Nil [simp]: "flat c [] = []"
  by (simp add: flat.simps)

lemma flat_step: "q \<noteq> [] \<Longrightarrow> flat c q = (fst (hd q), hd (snd (hd q))) # flat c (queue_pop c q)"
  by (subst flat.simps) simp

definition all_full :: "(int \<times> ('k \<times> 'm) list) list \<Rightarrow> bool" where
  "all_full q \<longleftrightarrow> (\<forall>x\<in>set q. snd x \<noteq> [])"

lemma all_full_pop: "all_full q \<Longrightarrow> q \<noteq> [] \<Longrightarrow> all_full (queue_pop c q)"
  by (cases q) (auto simp: all_full_def queue_pop_def split_beta)

text \<open>Every tuple comes out, under the number of its list.\<close>

lemma mset_flat:
  "all_full q \<Longrightarrow> mset (flat c q) = (\<Sum>x\<in>#mset q. image_mset (Pair (fst x)) (mset (snd x)))"
proof (induction c q rule: flat.induct)
  case (1 c q)
  show ?case
  proof (cases q)
    case (Cons x q')
    obtain n t ts where x: "x = (n, t # ts)"
      using "1.prems" Cons by (cases x, cases "snd x") (auto simp: all_full_def)
    have "mset (flat c (queue_pop c q)) = (\<Sum>x\<in>#mset (queue_pop c q). image_mset (Pair (fst x)) (mset (snd x)))"
      by (rule "1.IH") (use Cons "1.prems" all_full_pop in auto)
    moreover have "flat c q = (n, t) # flat c (queue_pop c q)" using Cons x by (simp add: flat_step)
    ultimately show ?thesis by (auto simp: Cons x queue_pop_def)
  qed simp
qed

context total_compare
begin

definition queue_ok :: "(int \<times> ('k \<times> 'm) list) list \<Rightarrow> bool" where
  "queue_ok q \<longleftrightarrow> sorted_wrt (\<lambda>x y. precedes cmp (front x) (front y)) q \<and> distinct (map fst q) \<and> all_full q \<and>
     (\<forall>x\<in>set q. ascending (map fst (snd x)))"

lemma precedes_trans:
  assumes "precedes cmp x y" and "precedes cmp y z" and "dom (snd x)" "dom (snd y)" "dom (snd z)"
  shows "precedes cmp x z"
proof -
  have le: "cmp (snd x) (snd y) \<le> 0" "cmp (snd y) (snd z) \<le> 0" using assms(1,2) by (auto simp: precedes_def)
  have "cmp (snd x) (snd z) \<le> 0" by (rule cmp_trans [OF assms(3-5) le])
  moreover have "cmp (snd x) (snd z) < 0" if "cmp (snd x) (snd y) < 0" by (rule cmp_less_trans [OF assms(3-5) that le(2)])
  moreover have "cmp (snd x) (snd z) < 0" if "cmp (snd y) (snd z) < 0" by (rule cmp_le_less_trans [OF assms(3-5) le(1) that])
  ultimately show ?thesis using assms(1,2) by (fastforce simp: precedes_def)
qed

lemma precedes_total:
  assumes "\<not> precedes cmp x y" and "fst x \<noteq> fst y" and "dom (snd x)" "dom (snd y)"
  shows "precedes cmp y x"
  using assms cmp_swap [of "snd x" "snd y"] cmp_swap [of "snd y" "snd x"] by (auto simp: precedes_def)

lemma precedes_asym:
  assumes "precedes cmp x y" and "dom (snd x)" "dom (snd y)"
  shows "\<not> precedes cmp y x"
  using assms cmp_swap [of "snd x" "snd y"] cmp_swap [of "snd y" "snd x"] by (auto simp: precedes_def)

lemma ascending_dom: "ascending (map fst ts) \<Longrightarrow> ts \<noteq> [] \<Longrightarrow> dom (fst (hd ts))"
  by (cases ts) (auto simp: ascending_def)

lemma ascending_sorted: "ascending ks \<longleftrightarrow> (\<forall>k\<in>set ks. dom k) \<and> sorted_wrt (\<lambda>a b. cmp a b < 0) ks"
  by (auto simp: ascending_def sorted_wrt_iff_nth_less)

lemma ascending_tl: "ascending (map fst ts) \<Longrightarrow> ascending (map fst (tl ts))"
  by (cases ts) (simp_all add: ascending_sorted)

lemma ascending_first: "ascending (map fst (t # ts)) \<Longrightarrow> u \<in> set ts \<Longrightarrow> cmp (fst t) (fst u) < 0"
  by (simp add: ascending_sorted)

lemma queue_dom: "queue_ok q \<Longrightarrow> x \<in> set q \<Longrightarrow> dom (snd (front x))"
  by (auto simp: queue_ok_def front_def all_full_def intro: ascending_dom)

text \<open>Inserting a list puts it behind the lists that precede it.\<close>

lemma queue_insert_place:
  assumes q: "queue_ok q" and x: "dom (snd (front x))" "fst x \<notin> fst ` set q"
  obtains m where "m \<le> length q" "queue_insert cmp x q = take m q @ [x] @ drop m q"
    "\<And>j. j < m \<Longrightarrow> precedes cmp (front (q ! j)) (front x)"
    "\<And>j. m \<le> j \<Longrightarrow> j < length q \<Longrightarrow> precedes cmp (front x) (front (q ! j))"
proof -
  have "\<exists>m\<le>length q. queue_insert cmp x q = take m q @ [x] @ drop m q \<and> (\<forall>j<m. precedes cmp (front (q ! j)) (front x)) \<and>
    (\<forall>j. m \<le> j \<longrightarrow> j < length q \<longrightarrow> precedes cmp (front x) (front (q ! j)))"
    using q x(2)
  proof (induction q)
    case (Cons y q)
    have y: "dom (snd (front y))" "fst (front x) \<noteq> fst (front y)" using Cons.prems queue_dom [OF Cons.prems(1), of y] by (simp_all add: front_def)
    have later: "precedes cmp (front y) (front (q ! j))" "dom (snd (front (q ! j)))" if "j < length q" for j
      using Cons.prems(1) that queue_dom [OF Cons.prems(1), of "q ! j"] by (auto simp: queue_ok_def)
    show ?case
    proof (cases "precedes cmp (front x) (front y)")
      case True
      have "precedes cmp (front x) (front ((y # q) ! j))" if "j < length (y # q)" for j
        using that True later precedes_trans [OF True _ x(1) y(1)] by (cases j) auto
      then show ?thesis using True by (intro exI [of _ 0]) simp
    next
      case False
      have ok: "queue_ok q" "fst x \<notin> fst ` set q" using Cons.prems by (auto simp: queue_ok_def all_full_def)
      obtain m where m: "m \<le> length q" "queue_insert cmp x q = take m q @ [x] @ drop m q"
        "\<forall>j<m. precedes cmp (front (q ! j)) (front x)"
        "\<forall>j. m \<le> j \<longrightarrow> j < length q \<longrightarrow> precedes cmp (front x) (front (q ! j))" using Cons.IH [OF ok] by auto
      have "precedes cmp (front y) (front x)" by (rule precedes_total [OF False y(2) x(1) y(1)])
      then have "\<forall>j<Suc m. precedes cmp (front ((y # q) ! j)) (front x)" using m(3) by (auto simp: less_Suc_eq_0_disj)
      moreover have "\<forall>j. Suc m \<le> j \<longrightarrow> j < length (y # q) \<longrightarrow> precedes cmp (front x) (front ((y # q) ! j))"
        using m(4) by (auto simp: nth_Cons split: nat.splits)
      ultimately show ?thesis using False m(1,2) by (intro exI [of _ "Suc m"]) simp
    qed
  qed simp
  then show ?thesis using that by auto
qed

lemma queue_insert_ok:
  assumes q: "queue_ok q" and x: "snd x \<noteq> []" "ascending (map fst (snd x))" "fst x \<notin> fst ` set q"
  shows "queue_ok (queue_insert cmp x q)"
proof -
  have d: "dom (snd (front x))" using ascending_dom [OF x(2,1)] by (simp add: front_def)
  obtain m where m: "m \<le> length q" "queue_insert cmp x q = take m q @ [x] @ drop m q"
    "\<And>j. j < m \<Longrightarrow> precedes cmp (front (q ! j)) (front x)"
    "\<And>j. m \<le> j \<Longrightarrow> j < length q \<Longrightarrow> precedes cmp (front x) (front (q ! j))"
    using queue_insert_place [OF q d x(3)] by blast
  let ?le = "\<lambda>x y. precedes cmp (front x) (front y)"
  have "sorted_wrt ?le (take m q @ drop m q)" using q by (simp add: queue_ok_def)
  then have parts: "sorted_wrt ?le (take m q)" "sorted_wrt ?le (drop m q)" "\<forall>y\<in>set (take m q). \<forall>z\<in>set (drop m q). ?le y z"
    unfolding sorted_wrt_append by blast+
  have "?le y x" if "y \<in> set (take m q)" for y
    using that m(3) unfolding in_set_conv_nth by (metis length_take min_less_iff_conj nth_take)
  moreover have "?le x z" if "z \<in> set (drop m q)" for z
    using that m(1,4) unfolding in_set_conv_nth by (metis add.commute le_add2 length_drop less_diff_conv nth_drop)
  ultimately have "sorted_wrt ?le (queue_insert cmp x q)" using parts by (auto simp: m(2) sorted_wrt_append)
  moreover have "distinct (map fst (queue_insert cmp x q))"
    using q x(3) by (subst mset_eq_imp_distinct_iff [of _ "map fst (x # q)"]) (auto simp: queue_ok_def)
  ultimately show ?thesis using q x(1,2) by (auto simp: queue_ok_def all_full_def)
qed

lemma queue_ok_Cons: "queue_ok (x # q) \<longleftrightarrow> queue_ok q \<and> (\<forall>y\<in>set q. precedes cmp (front x) (front y)) \<and>
    fst x \<notin> fst ` set q \<and> snd x \<noteq> [] \<and> ascending (map fst (snd x))"
  by (auto simp: queue_ok_def all_full_def)

lemma queue_pop_ok: "queue_ok q \<Longrightarrow> q \<noteq> [] \<Longrightarrow> queue_ok (queue_pop cmp q)"
  using queue_insert_ok [of "tl q" "(fst (hd q), tl (snd (hd q)))"]
  by (cases q) (simp_all add: queue_ok_Cons queue_pop_def split_beta ascending_tl)

text \<open>The entries come out in order.\<close>

lemma set_flat: "all_full q \<Longrightarrow> set (flat c q) = (\<Union>x\<in>set q. Pair (fst x) ` set (snd x))"
  using mset_flat [of q c, THEN arg_cong [of _ _ set_mset]] by simp

lemma flat_first:
  assumes q: "queue_ok (x # q)" and e: "e \<in> set (flat cmp (queue_pop cmp (x # q)))"
  shows "precedes cmp (front x) (tag e)"
proof -
  obtain n t ts where x: "x = (n, t # ts)" using q by (cases x, cases "snd x") (auto simp: queue_ok_Cons)
  have asc: "ascending (map fst (t # ts))" using q x by (simp add: queue_ok_Cons)
  have "e \<in> (\<Union>y\<in>set (queue_pop cmp (x # q)). Pair (fst y) ` set (snd y))"
    using e set_flat [of "queue_pop cmp (x # q)"] queue_pop_ok [OF q] by (simp add: queue_ok_def)
  then consider u where "u \<in> set ts" "e = (n, u)" | y u where "y \<in> set q" "u \<in> set (snd y)" "e = (fst y, u)"
    by (auto simp: queue_pop_def x split: if_splits)
  then show ?thesis
  proof cases
    case 1
    then show ?thesis using ascending_first [OF asc] by (simp add: precedes_def front_def tag_def x)
  next
    case 2
    have y: "snd y \<noteq> []" "ascending (map fst (snd y))" "precedes cmp (front x) (front y)" using q 2(1)
      by (auto simp: queue_ok_Cons queue_ok_def all_full_def)
    obtain v vs where v: "snd y = v # vs" using y(1) by (cases "snd y") auto
    show ?thesis
    proof (cases "u = v")
      case True then show ?thesis using y(3) v 2 by (simp add: front_def tag_def)
    next
      case False
      then have "u \<in> set vs" using 2(2) v by simp
      then have "precedes cmp (front y) (tag e)" using ascending_first y(2) v 2(3) by (simp add: precedes_def front_def tag_def)
      moreover have "dom (snd (front x))" "dom (snd (front y))" "dom (snd (tag e))"
        using asc y(2) 2 v \<open>u \<in> set vs\<close> by (simp_all add: ascending_sorted front_def tag_def x)
      ultimately show ?thesis by (intro precedes_trans [OF y(3)])
    qed
  qed
qed

lemma flat_sorted: "queue_ok q \<Longrightarrow> sorted_wrt (\<lambda>a b. precedes cmp (tag a) (tag b)) (flat cmp q)"
proof (induction "queue_size q" arbitrary: q rule: less_induct)
  case less
  show ?case
  proof (cases q)
    case (Cons x q')
    have "sorted_wrt (\<lambda>a b. precedes cmp (tag a) (tag b)) (flat cmp (queue_pop cmp q))"
      by (rule less.hyps) (use Cons less.prems in \<open>simp_all add: queue_size_pop queue_pop_ok\<close>)
    moreover have "\<forall>e\<in>set (flat cmp (queue_pop cmp q)). precedes cmp (front x) (tag e)"
      using flat_first less.prems Cons by blast
    moreover have "tag (fst x, hd (snd x)) = front x" by (simp add: tag_def front_def)
    ultimately show ?thesis using Cons by (simp add: flat_step)
  qed simp
qed

text \<open>Whether the next entry has the key of the first one shows in the fronts of the first two lists.\<close>

lemma pop_front:
  assumes q: "queue_ok (x # q)" and y: "y \<in> set (queue_pop cmp (x # q))"
  shows "y \<in> set q \<or> cmp (snd (front x)) (snd (front y)) < 0"
proof -
  obtain n t ts where x: "x = (n, t # ts)" using q by (cases x, cases "snd x") (auto simp: queue_ok_Cons)
  have "cmp (fst t) (fst (hd ts)) < 0" if "ts \<noteq> []" using ascending_first [of t ts "hd ts"] q x that by (simp add: queue_ok_Cons)
  then show ?thesis using y by (auto simp: queue_pop_def x front_def split: if_splits)
qed

lemma pop_same:
  assumes q: "queue_ok (x # y # q)" and eq: "cmp (snd (front x)) (snd (front y)) = 0"
  shows "hd (queue_pop cmp (x # y # q)) = y"
proof -
  have d: "dom (snd (front x))" "dom (snd (front y))" using queue_dom [OF q] by auto
  obtain n t ts where x: "x = (n, t # ts)" using q by (cases x, cases "snd x") (auto simp: queue_ok_Cons)
  have "\<not> precedes cmp (front (n, ts)) (front y)" if "ts \<noteq> []"
  proof -
    have lt: "cmp (fst t) (fst (hd ts)) < 0" using ascending_first [of t ts "hd ts"] q x that by (simp add: queue_ok_Cons)
    have dt: "dom (fst (hd ts))" using q x that by (simp add: queue_ok_Cons ascending_sorted)
    have "cmp (snd (front y)) (fst t) = 0"
      using eq x d cmp_swap [OF d] cmp_swap [OF d(2,1)] by (simp add: front_def)
    then have "cmp (snd (front y)) (fst (hd ts)) < 0"
      using cmp_le_less_trans [OF d(2) _ dt _ lt] d(1) x by (simp add: front_def)
    then show ?thesis using cmp_swap [OF d(2) dt] by (simp add: precedes_def front_def)
  qed
  then show ?thesis by (simp add: queue_pop_def x)
qed

lemma next_same:
  assumes q: "queue_ok (x # q)"
  shows "queue_pop cmp (x # q) \<noteq> [] \<and> cmp (snd (front x)) (snd (front (hd (queue_pop cmp (x # q))))) = 0 \<longleftrightarrow>
    q \<noteq> [] \<and> cmp (snd (front x)) (snd (front (hd q))) = 0" (is "?l \<longleftrightarrow> ?r")
proof
  assume l: ?l
  then have "hd (queue_pop cmp (x # q)) \<in> set q" using pop_front [OF q, of "hd (queue_pop cmp (x # q))"] by auto
  then obtain y q' where e: "q = y # q'" by (cases q) auto
  have p: "precedes cmp (front x) (front y)" using q e by (simp add: queue_ok_Cons)
  have d: "dom (snd (front x))" "dom (snd (front y))" "dom (snd (front (hd (queue_pop cmp (x # q)))))"
    using queue_dom [OF q] queue_dom [OF queue_pop_ok [OF q]] e l by auto
  have "\<not> cmp (snd (front x)) (snd (front y)) < 0"
  proof
    assume lt: "cmp (snd (front x)) (snd (front y)) < 0"
    have "(fst x, ts) \<notin> set q" for ts
      using q imageI [of "(fst x, ts)" "set q" fst] by (auto simp: queue_ok_Cons)
    then have "hd (queue_pop cmp (x # q)) = y \<or> hd (queue_pop cmp (x # q)) \<notin> set q"
      using e by (auto simp: queue_pop_def split_beta)
    then show False using l lt pop_front [OF q, of "hd (queue_pop cmp (x # q))"] by auto
  qed
  then show ?r using p e by (auto simp: precedes_def)
next
  assume r: ?r
  then obtain y q' where e: "q = y # q'" by (cases q) auto
  then have "hd (queue_pop cmp (x # q)) = y" using pop_same [of x y q'] q r by simp
  then show ?l using r e by (auto simp: queue_pop_def split_beta)
qed

lemma cmp_zero_cong:
  assumes "dom a" "dom b" "dom k" and "cmp a b = 0"
  shows "cmp a k = 0 \<longleftrightarrow> cmp b k = 0"
proof -
  have "cmp b a = 0" using assms cmp_swap [of a b] cmp_swap [of b a] by simp
  then show ?thesis using assms cmp_trans [of a b k] cmp_trans [of b a k] cmp_less_trans [of a b k] cmp_less_trans [of b a k]
    cmp_le_less_trans [of a b k] cmp_le_less_trans [of b a k] by (smt (verit))
qed

text \<open>How many lists have a key in front; a list that is taken on does not have it again.\<close>

definition fronts :: "'k \<Rightarrow> (int \<times> ('k \<times> 'm) list) list \<Rightarrow> nat" where
  "fronts k q = size (filter_mset (\<lambda>x. cmp k (snd (front x)) = 0) (mset q))"

lemma fronts_le: "fronts k q \<le> length q"
  by (metis fronts_def size_filter_mset_lesseq size_mset)

lemma fronts_pop:
  assumes q: "queue_ok (x # q)" and k: "dom k" "cmp k (snd (front x)) = 0"
  shows "fronts k (x # q) = Suc (fronts k (queue_pop cmp (x # q)))"
proof -
  obtain n t ts where x: "x = (n, t # ts)" using q by (cases x, cases "snd x") (auto simp: queue_ok_Cons)
  have "cmp k (snd (front (n, ts))) \<noteq> 0" if "ts \<noteq> []"
  proof -
    have "cmp (fst t) (fst (hd ts)) < 0" "dom (fst t)" "dom (fst (hd ts))"
      using ascending_first [of t ts "hd ts"] q x that by (simp_all add: queue_ok_Cons ascending_sorted)
    then show ?thesis using cmp_le_less_trans [OF k(1), of "fst t" "fst (hd ts)"] k(2) x by (simp add: front_def)
  qed
  then show ?thesis using k(2) by (auto simp: fronts_def queue_pop_def x front_def)
qed

end

section \<open>Runs of equal keys\<close>

text \<open>
  What a merge makes of its entries: a run of equal keys becomes one tuple, with the messages merged
  from the newest to the oldest and the key of the oldest.
\<close>

definition merge_older :: "data_config \<Rightarrow> key \<Rightarrow> message \<Rightarrow> message \<Rightarrow> message" where
  "merge_older dc k old new = (case data_merge_tuples dc k old new of Inl _ \<Rightarrow> new | Inr (_, m) \<Rightarrow> m)"

fun combine :: "data_config \<Rightarrow> key \<times> message \<Rightarrow> (key \<times> message) list \<Rightarrow> key \<times> message" where
  "combine dc (k, m) [] = (k, m)"
| "combine dc (k, m) ((k', m') # ts) = combine dc (k', merge_older dc k m' m) ts"

definition equal_keys :: "data_config \<Rightarrow> key \<times> message \<Rightarrow> key \<times> message \<Rightarrow> bool" where
  "equal_keys dc t u \<longleftrightarrow> data_key_compare dc (fst t) (fst u) = 0"

function merge_runs :: "data_config \<Rightarrow> (key \<times> message) list \<Rightarrow> (key \<times> message) list" where
  "merge_runs dc [] = []"
| "merge_runs dc (t # ts) = combine dc t (takeWhile (equal_keys dc t) ts) # merge_runs dc (dropWhile (equal_keys dc t) ts)"
  by pat_completeness auto
termination by (relation "measure (\<lambda>(_, ts). length ts)") (auto simp: length_dropWhile_le le_imp_less_Suc)

definition finish_tuple :: "data_config \<Rightarrow> key \<times> message \<Rightarrow> key \<times> message" where
  "finish_tuple dc t =
     (fst t, if msg_type (snd t) = MESSAGE_TYPE_INSERT then snd t
             else (case data_merge_tuples_final dc (fst t) (snd t) of Inl _ \<Rightarrow> snd t | Inr (_, m) \<Rightarrow> m))"

definition not_deleted :: "key \<times> message \<Rightarrow> bool" where
  "not_deleted t \<longleftrightarrow> msg_type (snd t) \<noteq> MESSAGE_TYPE_DELETE"

fun merge_output :: "data_config \<Rightarrow> merge_behavior \<Rightarrow> (key \<times> message) list \<Rightarrow> (key \<times> message) list" where
  "merge_output dc MERGE_RAW ts = ts"
| "merge_output dc MERGE_INTERMEDIATE ts = merge_runs dc ts"
| "merge_output dc MERGE_FULL ts = filter not_deleted (map (finish_tuple dc) (merge_runs dc ts))"

end
