(* ===== verification/MergeSteps.thy ===== *)
theory MergeSteps
  imports MergeProofs
begin

text \<open>
  The steps of a merge as steps of a queue. The live iterators of a merge stand for the queue of what
  is ahead of them; taking the first iterator on takes the first entry off the queue, and the flags
  say which neighbours have equal keys.
\<close>

section \<open>The contract of a merge\<close>

definition dir_cmp :: "data_config \<Rightarrow> bool \<Rightarrow> key \<Rightarrow> key \<Rightarrow> int" where
  "dir_cmp dc d a b = (if d then data_key_compare dc a b else - data_key_compare dc a b)"

lemma dir_cmp_zero: "dir_cmp dc d a b = 0 \<longleftrightarrow> data_key_compare dc a b = 0"
  by (simp add: dir_cmp_def)

text \<open>The iterators are cursors in ascending lists, in the order of the direction \<open>d\<close>.\<close>

locale merging = list_cursor ops ok view undisturbed + total_compare "dir_cmp dc d" dom
  for ops :: "('i, 's) iterator_ops" and ok view undisturbed dc d and dom :: "key \<Rightarrow> bool"
begin

definition entry :: "'s \<Rightarrow> 'i ordered_iterator \<Rightarrow> int \<times> (key \<times> message) list" where
  "entry s x = (oi_seq x, ahead d (view (oi_itor x) s))"

definition fits :: "'s \<Rightarrow> 'i ordered_iterator \<Rightarrow> bool" where
  "fits s x \<longleftrightarrow> ok (oi_itor x) s \<and> oi_curr_key x = Some (fst (hd (ahead d (view (oi_itor x) s)))) \<and>
     oi_curr_data x = snd (hd (ahead d (view (oi_itor x) s)))"

definition same_key :: "'i ordered_iterator \<Rightarrow> 'i ordered_iterator \<Rightarrow> bool" where
  "same_key x y \<longleftrightarrow> null_key_compare dc (oi_curr_key x) (oi_curr_key y) = 0"

definition flags :: "'i ordered_iterator list \<Rightarrow> bool" where
  "flags ys \<longleftrightarrow> (\<forall>i<length ys. oi_next_key_equal (ys ! i) \<longleftrightarrow> i + 1 < length ys \<and> same_key (ys ! i) (ys ! (i + 1)))"

definition live :: "'s \<Rightarrow> 'i ordered_iterator list \<Rightarrow> bool" where
  "live s ys \<longleftrightarrow> (\<forall>y\<in>set ys. fits s y) \<and> queue_ok (map (entry s) ys) \<and> flags ys"

definition dead :: "'s \<Rightarrow> 'i ordered_iterator list \<Rightarrow> bool" where
  "dead s zs \<longleftrightarrow> (\<forall>z\<in>set zs. ok (oi_itor z) s \<and> ahead d (view (oi_itor z) s) = [])"

definition holds :: "'s \<Rightarrow> 'i merge_iterator \<Rightarrow> (int \<times> (key \<times> message) list) list \<Rightarrow> bool" where
  "holds s mi q \<longleftrightarrow> mi_forwards mi = d \<and>
     (\<exists>ys zs. mi_itors mi = ys @ zs \<and> mi_num_remaining mi = length ys \<and> live s ys \<and> dead s zs \<and> map (entry s) ys = q)"

lemma same_key_front:
  "fits s x \<Longrightarrow> fits s y \<Longrightarrow> same_key x y \<longleftrightarrow> dir_cmp dc d (snd (front (entry s x))) (snd (front (entry s y))) = 0"
  by (simp add: same_key_def null_key_compare_def slice_key_def fits_def dir_cmp_zero front_def entry_def)

lemma bsearch_comp_fits:
  assumes "fits s x" and "fits s y"
  shows "bsearch_comp dc d x y =
    (let c = dir_cmp dc d (snd (front (entry s x))) (snd (front (entry s y)))
     in (if c = 0 then oi_seq y - oi_seq x else c, c = 0))"
  using assms by (simp add: bsearch_comp_def null_key_compare_def slice_key_def fits_def dir_cmp_def front_def entry_def Let_def)

text \<open>The binary search finds the place, and whether the neighbours are equal.\<close>

lemma bsearch_insert_place:
  assumes ys: "\<forall>y\<in>set ys. fits s y" "queue_ok (map (entry s) ys)" and x: "fits s x"
    and keys: "dom (snd (front (entry s x)))" "oi_seq x \<notin> oi_seq ` set ys"
    and m: "m \<le> length ys" "\<And>j. j < m \<Longrightarrow> precedes (dir_cmp dc d) (front (entry s (ys ! j))) (front (entry s x))"
      "\<And>j. m \<le> j \<Longrightarrow> j < length ys \<Longrightarrow> precedes (dir_cmp dc d) (front (entry s x)) (front (entry s (ys ! j)))"
    and ne: "ys \<noteq> []"
  shows "bsearch_insert dc d x ys =
    (int m - 1, 0 < m \<and> same_key x (ys ! (m - 1)), m < length ys \<and> same_key x (ys ! m))"
proof -
  let ?k = "\<lambda>j. snd (front (entry s (ys ! j)))" and ?x = "snd (front (entry s x))"
  have fits: "fits s (ys ! j)" and kd: "dom (?k j)" if "j < length ys" for j
    using ys that queue_dom [OF ys(2), of "entry s (ys ! j)"] by auto
  have cf: "bsearch_comp dc d x (ys ! j) =
      (let c = dir_cmp dc d ?x (?k j) in (if c = 0 then oi_seq (ys ! j) - oi_seq x else c, c = 0))" if "j < length ys" for j
    by (rule bsearch_comp_fits [OF x fits [OF that]])
  have eq: "snd (bsearch_comp dc d x (ys ! j)) = same_key x (ys ! j)" if "j < length ys" for j
    using that by (simp add: cf same_key_front [OF x fits] Let_def)
  have sign: "fst (bsearch_comp dc d x (ys ! j)) \<noteq> 0 \<and> (0 < fst (bsearch_comp dc d x (ys ! j)) \<longleftrightarrow> j < m)"
    if j: "j < length ys" for j
  proof (cases "j < m")
    case True
    then show ?thesis using m(2) [OF True] cmp_swap [OF kd [OF j] keys(1)] cmp_swap [OF keys(1) kd [OF j]]
      by (auto simp: cf [OF j] precedes_def front_def entry_def Let_def)
  next
    case False
    then show ?thesis using m(3) [of j] j by (auto simp: cf [OF j] precedes_def front_def entry_def Let_def)
  qed
  have sorted: "precedes (dir_cmp dc d) (front (entry s (ys ! i))) (front (entry s (ys ! j)))" if "i < j" "j < length ys" for i j
    using ys(2) that unfolding queue_ok_def sorted_wrt_iff_nth_less by simp
  have below: "same_key x (ys ! i)" if "j \<le> i" "i < m" "same_key x (ys ! j)" for i j
  proof (cases "i = j")
    case False
    have l: "i < length ys" "j < length ys" "j < i" using that m(1) False by auto
    have c: "dir_cmp dc d (?k j) (?k i) \<le> 0" "dir_cmp dc d (?k i) ?x \<le> 0" "dir_cmp dc d ?x (?k j) = 0"
      using sorted [OF l(3,1)] m(2) [OF that(2)] that(3) l by (auto simp: precedes_def same_key_front [OF x fits])
    then have "dir_cmp dc d ?x (?k i) \<le> 0" using cmp_trans [OF keys(1) kd kd, of j i] l by simp
    then show ?thesis using c(2) cmp_swap [OF kd keys(1), of i] cmp_swap [OF keys(1) kd, of i] l by (simp add: same_key_front [OF x fits])
  qed (use that in simp)
  have above: "same_key x (ys ! i)" if "m \<le> i" "i \<le> j" "j < length ys" "same_key x (ys ! j)" for i j
  proof (cases "i = j")
    case False
    have l: "i < length ys" "i < j" using that False by auto
    have c: "dir_cmp dc d (?k i) (?k j) \<le> 0" "dir_cmp dc d ?x (?k i) \<le> 0" "dir_cmp dc d ?x (?k j) = 0"
      using sorted [OF l(2) that(3)] m(3) [OF that(1) l(1)] that(3,4) l by (auto simp: precedes_def same_key_front [OF x fits])
    have "dir_cmp dc d (?k j) ?x \<le> 0" using c(3) cmp_swap [OF kd keys(1), of j] cmp_swap [OF keys(1) kd, of j] that(3) by simp
    then have "dir_cmp dc d (?k i) ?x \<le> 0" using cmp_trans [OF kd kd keys(1), of i j] c(1) l that(3) by simp
    then show ?thesis using c(2) cmp_swap [OF kd keys(1), of i] cmp_swap [OF keys(1) kd, of i] l by (simp add: same_key_front [OF x fits])
  qed (use that in simp)
  have "bsearch_insert dc d x ys = (int m - 1, 0 < m \<and> snd (bsearch_comp dc d x (ys ! (m - 1))),
      m < length ys \<and> snd (bsearch_comp dc d x (ys ! m)))"
    unfolding bsearch_insert_def
    by (rule bsearch_loop_result) (use ne m(1) sign below above in \<open>auto simp: eq\<close>)
  moreover have "(0 < m \<and> snd (bsearch_comp dc d x (ys ! (m - 1)))) = (0 < m \<and> same_key x (ys ! (m - 1)))"
    using m(1) by (auto simp: eq)
  ultimately show ?thesis by (auto simp: eq)
qed

section \<open>Taking the first iterator on\<close>

definition put_back :: "nat \<Rightarrow> 'i ordered_iterator \<Rightarrow> 'i ordered_iterator list \<Rightarrow> 'i ordered_iterator list" where
  "put_back m x ys =
     (let zs = take m ys @ [x\<lparr>oi_next_key_equal := m < length ys \<and> same_key x (ys ! m)\<rparr>] @ drop m ys
      in if m = 0 then zs else zs[m - 1 := (zs ! (m - 1))\<lparr>oi_next_key_equal := same_key x (ys ! (m - 1))\<rparr>])"

lemma same_key_flag [simp]:
  "same_key (x\<lparr>oi_next_key_equal := b\<rparr>) y = same_key x y" "same_key y (x\<lparr>oi_next_key_equal := b\<rparr>) = same_key y x"
  by (simp_all add: same_key_def)

lemma entry_flag [simp]: "entry s (x\<lparr>oi_next_key_equal := b\<rparr>) = entry s x"
  by (simp add: entry_def)

lemma fits_flag [simp]: "fits s (x\<lparr>oi_next_key_equal := b\<rparr>) = fits s x"
  by (simp add: fits_def)

lemma flags_put_back:
  assumes f: "flags ys" and m: "m \<le> length ys" and sym: "\<And>y. y \<in> set ys \<Longrightarrow> same_key x y = same_key y x"
  shows "flags (put_back m x ys)"
proof -
  let ?zs = "put_back m x ys"
  have len: "length ?zs = Suc (length ys)" using m by (simp add: put_back_def Let_def)
  have at: "?zs ! i = (if i + 1 < m then ys ! i
      else if i + 1 = m then (ys ! i)\<lparr>oi_next_key_equal := same_key x (ys ! i)\<rparr>
      else if i = m then x\<lparr>oi_next_key_equal := m < length ys \<and> same_key x (ys ! m)\<rparr> else ys ! (i - 1))"
    if "i < Suc (length ys)" for i
  proof (cases "m < i")
    case True
    then obtain k where "i = m + Suc k" using less_natE by (metis add_Suc_right)
    then show ?thesis using m that by (simp add: put_back_def Let_def nth_append)
  qed (use m that in \<open>auto simp: put_back_def Let_def nth_append nth_list_update\<close>)
  have "oi_next_key_equal (?zs ! i) = (i + 1 < length ?zs \<and> same_key (?zs ! i) (?zs ! (i + 1)))" if i: "i < length ?zs" for i
  proof -
    have f': "oi_next_key_equal (ys ! j) = (j + 1 < length ys \<and> same_key (ys ! j) (ys ! (j + 1)))" if "j < length ys" for j
      using f that by (simp add: flags_def)
    consider "i + 1 < m" | "i + 1 = m" | "i = m" | "m < i" by linarith
    then show ?thesis
    proof cases
      case 1 then show ?thesis using f' [of i] m by (simp add: at len)
    next
      case 2 then show ?thesis using sym [of "ys ! i"] m by (simp add: at len)
    next
      case 3 then show ?thesis using m len at [of m] at [of "Suc m"] by (cases "m < length ys") auto
    next
      case 4 then show ?thesis using f' [of "i - 1"] i m by (auto simp: at len)
    qed
  qed
  then show ?thesis by (simp add: flags_def)
qed

lemma map_put_back:
  assumes "\<And>y b. f (y\<lparr>oi_next_key_equal := b\<rparr>) = f y" and "m \<le> length ys"
  shows "map f (put_back m x ys) = take m (map f ys) @ [f x] @ drop m (map f ys)"
proof (cases "m = 0")
  case False
  then have "map f ((take m ys @ [x] @ drop m ys)[m - 1 := (take m ys @ [x] @ drop m ys) ! (m - 1)]) =
    take m (map f ys) @ [f x] @ drop m (map f ys)" using assms(2) by (simp add: take_map drop_map)
  then show ?thesis using False assms by (simp add: put_back_def Let_def map_update take_map drop_map nth_append)
qed (use assms in \<open>simp add: put_back_def\<close>)

text \<open>\<open>x\<close> is the first iterator after its step.\<close>

lemma resort_live:
  assumes ys: "live s ys" "ys \<noteq> []" and x: "fits s x" "ahead d (view (oi_itor x) s) \<noteq> []"
      "ascending (map fst (ahead d (view (oi_itor x) s)))" "oi_seq x \<notin> oi_seq ` set ys"
    and mi: "mi_forwards mi = d" "mi_num_remaining mi = Suc (length ys)" "tl (mi_itors mi) = ys @ zs"
  shows "\<exists>pad ys'. resort_min dc x mi = mi\<lparr>mi_pad := pad, mi_itors := ys' @ zs\<rparr> \<and> live s ys' \<and>
    map (entry s) ys' = queue_insert (dir_cmp dc d) (entry s x) (map (entry s) ys)"
proof -
  let ?q = "map (entry s) ys"
  have q: "queue_ok ?q" "\<forall>y\<in>set ys. fits s y" "flags ys" using ys(1) by (simp_all add: live_def)
  have k: "dom (snd (front (entry s x)))" using ascending_dom [OF x(3,2)] by (simp add: front_def entry_def)
  have seq: "fst (entry s x) \<notin> fst ` set ?q" using x(4) by (auto simp: entry_def)
  obtain m where m: "m \<le> length ?q" "queue_insert (dir_cmp dc d) (entry s x) ?q = take m ?q @ [entry s x] @ drop m ?q"
    "\<And>j. j < m \<Longrightarrow> precedes (dir_cmp dc d) (front (?q ! j)) (front (entry s x))"
    "\<And>j. m \<le> j \<Longrightarrow> j < length ?q \<Longrightarrow> precedes (dir_cmp dc d) (front (entry s x)) (front (?q ! j))"
    using queue_insert_place [OF q(1) k seq] by blast
  have m': "m \<le> length ys" using m(1) by simp
  have s: "bsearch_insert dc d x ys = (int m - 1, 0 < m \<and> same_key x (ys ! (m - 1)), m < length ys \<and> same_key x (ys ! m))"
    by (rule bsearch_insert_place [OF q(2,1) x(1) k x(4) m' _ _ ys(2)]) (use m(3,4) m' in \<open>simp_all add: nth_map\<close>)
  let ?ys = "put_back m x ys"
  have resort: "resort_min dc x mi = mi\<lparr>mi_pad := (if m = 0 then False else mi_pad mi), mi_itors := ?ys @ zs\<rparr>"
    using s m' mi by (simp add: resort_min_def put_back_def Let_def list_update_append nth_append)
  have map: "map (entry s) ?ys = queue_insert (dir_cmp dc d) (entry s x) ?q"
    using map_put_back [of "entry s" m ys x] m' m(2) by simp
  have "queue_ok (map (entry s) ?ys)"
    using queue_insert_ok [OF q(1) _ _ seq] x(2,3) by (simp add: map) (simp add: entry_def)
  moreover have "\<forall>b\<in>set (map (fits s) ?ys). b"
    using map_put_back [of "fits s" m ys x] m' q(2) x(1) by (auto dest: in_set_takeD in_set_dropD)
  moreover have "same_key x y = same_key y x" if "y \<in> set ys" for y
  proof -
    have "dom (snd (front (entry s y)))" using queue_dom [OF q(1), of "entry s y"] that by simp
    then show ?thesis using q(2) that x(1) cmp_swap [OF k, of "snd (front (entry s y))"] cmp_swap [OF _ k, of "snd (front (entry s y))"]
      by (auto simp: same_key_front)
  qed
  then have "flags ?ys" by (rule flags_put_back [OF q(3) m'])
  ultimately have "live s ?ys" by (simp add: live_def)
  then show ?thesis using resort map by blast
qed

lemma flags_tl: "flags (y # ys) \<Longrightarrow> flags ys"
  unfolding flags_def by (auto dest: spec [of _ "Suc _"])

lemma live_tl: "live s (y # ys) \<Longrightarrow> live s ys"
  by (auto simp: live_def queue_ok_Cons dest: flags_tl)

text \<open>What the others keep: a step of one iterator leaves the views of the others.\<close>

definition keeps :: "'s \<Rightarrow> 's \<Rightarrow> bool" where
  "keeps s s' \<longleftrightarrow> (\<forall>j. ok j s \<longrightarrow> ok j s' \<and> view j s' = view j s)"

lemma keeps_fits: "keeps s s' \<Longrightarrow> fits s y \<Longrightarrow> fits s' y \<and> entry s' y = entry s y"
  by (simp add: keeps_def fits_def entry_def)

lemma keeps_live: "keeps s s' \<Longrightarrow> live s ys \<Longrightarrow> live s' ys \<and> map (entry s') ys = map (entry s) ys"
  using keeps_fits by (auto simp: live_def cong: map_cong)

lemma keeps_dead: "keeps s s' \<Longrightarrow> dead s zs \<Longrightarrow> dead s' zs"
  by (auto simp: dead_def keeps_def)

lemma keeps_refl [simp]: "keeps s s"
  by (simp add: keeps_def)

lemma keeps_trans: "keeps s s' \<Longrightarrow> keeps s' s'' \<Longrightarrow> keeps s s''"
  by (auto simp: keeps_def)

lemma set_curr_fits:
  assumes "ok (oi_itor x) s" and "ahead d (view (oi_itor x) s) \<noteq> []"
  shows "fits s (set_curr_ordered_iterator ops s x)" and "entry s (set_curr_ordered_iterator ops s x) = entry s x"
    and "oi_seq (set_curr_ordered_iterator ops s x) = oi_seq x" and "oi_itor (set_curr_ordered_iterator ops s x) = oi_itor x"
    and "oi_next_key_equal (set_curr_ordered_iterator ops s x) = oi_next_key_equal x"
  using assms by (simp_all add: set_curr_ordered_iterator_def fits_def entry_def split_beta curr_is_next [where d = d])

lemma live_one: "fits s x \<Longrightarrow> ahead d (view (oi_itor x) s) \<noteq> [] \<Longrightarrow> ascending (map fst (ahead d (view (oi_itor x) s))) \<Longrightarrow>
    \<not> oi_next_key_equal x \<Longrightarrow> live s [x]"
  by (simp add: live_def flags_def queue_ok_def all_full_def entry_def)

lemma holdsI:
  assumes "mi_forwards mi = d" and "mi_itors mi = ys @ zs" and "mi_num_remaining mi = length ys" and "live s ys"
    and "dead s zs" and "map (entry s) ys = q"
  shows "holds s mi q"
  using assms by (auto simp: holds_def)

lemma advance_ok:
  assumes h: "holds s mi q" and q: "q \<noteq> []"
  shows "\<exists>n pad xs s'. advance_and_resort_min_ritor ops dc mi s =
      Inr (STATUS_OK, mi\<lparr>mi_num_remaining := n, mi_pad := pad, mi_itors := xs\<rparr>, s') \<and> keeps s s' \<and>
    length xs = length (mi_itors mi) \<and>
    holds s' (mi\<lparr>mi_num_remaining := n, mi_pad := pad, mi_itors := xs\<rparr>) (queue_pop (dir_cmp dc d) q)"
proof -
  obtain x ys zs where mi: "mi_forwards mi = d" "mi_itors mi = x # ys @ zs" "mi_num_remaining mi = Suc (length ys)"
    and lv: "live s (x # ys)" "dead s zs" and qe: "q = entry s x # map (entry s) ys"
  proof -
    obtain ys zs where "mi_itors mi = ys @ zs" "mi_num_remaining mi = length ys" "live s ys" "dead s zs" "map (entry s) ys = q"
      using h by (auto simp: holds_def)
    then show ?thesis using that h q by (cases ys) (auto simp: holds_def)
  qed
  let ?a = "ahead d (view (oi_itor x) s)"
  have x: "ok (oi_itor x) s" "?a \<noteq> []" "ascending (map fst ?a)" "oi_seq x \<notin> oi_seq ` set ys"
    using lv(1) by (simp_all add: live_def fits_def queue_ok_Cons entry_def image_image)
  obtain it s' where st: "(if d then op_next ops (oi_itor x) s else op_prev ops (oi_itor x) s) = Inr (STATUS_OK, it, s')"
    "ok it s'" "ahead d (view it s') = tl ?a" "keeps s s'" using step_ok [OF x(1,2)] by (auto simp: keeps_def)
  let ?i = "x\<lparr>oi_next_key_equal := False, oi_curr_key := None, oi_curr_data := NULL_MESSAGE, oi_itor := it\<rparr>"
  have ys: "live s' ys" "map (entry s') ys = map (entry s) ys" "dead s' zs"
    using keeps_live [OF st(4) live_tl [OF lv(1)]] keeps_dead [OF st(4) lv(2)] by auto
  show ?thesis
  proof (cases "tl ?a = []")
    case True
    then have "\<not> iterator_can_curr ops it s'" using can_curr_iff [OF st(2), of d] st(3) by simp
    then have "advance_and_resort_min_ritor ops dc mi s =
        Inr (STATUS_OK, mi\<lparr>mi_num_remaining := length ys, mi_pad := mi_pad mi, mi_itors := ys @ ?i # zs\<rparr>, s')"
      using mi st(1) by (simp add: advance_and_resort_min_ritor_def Let_def)
    moreover have "queue_pop (dir_cmp dc d) q = map (entry s') ys" using True ys(2) by (simp add: queue_pop_def qe entry_def)
    moreover have "dead s' (?i # zs)" using ys(3) st(2,3) True by (simp add: dead_def)
    ultimately show ?thesis using ys(1) st(4) mi
      by (intro exI [of _ "length ys"] exI [of _ "mi_pad mi"] exI [of _ "ys @ ?i # zs"] exI [of _ s'] conjI
          holdsI [of _ ys "?i # zs"]) simp_all
  next
    case more: False
    then have can: "iterator_can_curr ops it s'" using can_curr_iff [OF st(2), of d] st(3) by simp
    let ?c = "set_curr_ordered_iterator ops s' ?i"
    have c: "fits s' ?c" "entry s' ?c = (oi_seq x, tl ?a)" "oi_seq ?c = oi_seq x" "oi_itor ?c = it" "\<not> oi_next_key_equal ?c"
      using set_curr_fits [of ?i s'] st(2,3) more by (simp_all add: entry_def)
    have asc: "ascending (map fst (ahead d (view (oi_itor ?c) s')))" using ascending_tl [OF x(3)] st(3) c(4) by simp
    have pop: "queue_pop (dir_cmp dc d) q = queue_insert (dir_cmp dc d) (entry s' ?c) (map (entry s') ys)"
      unfolding ys(2) qe c(2) using more by (simp add: queue_pop_def entry_def [of s x])
    show ?thesis
    proof (cases "ys = []")
      case True
      have "advance_and_resort_min_ritor ops dc mi s =
          Inr (STATUS_OK, mi\<lparr>mi_num_remaining := 1, mi_pad := mi_pad mi, mi_itors := ?c # zs\<rparr>, s')"
        using mi st(1) can True by (simp add: advance_and_resort_min_ritor_def Let_def)
      moreover have "live s' [?c]" by (rule live_one [OF c(1) _ asc c(5)]) (use c(4) st(3) more in simp)
      ultimately show ?thesis using ys(3) st(4) mi True pop
        by (intro exI [of _ 1] exI [of _ "mi_pad mi"] exI [of _ "?c # zs"] exI [of _ s'] conjI holdsI [of _ "[?c]" zs]) simp_all
    next
      case False
      obtain pad ys' where r: "resort_min dc ?c mi = mi\<lparr>mi_pad := pad, mi_itors := ys' @ zs\<rparr>" "live s' ys'"
        "map (entry s') ys' = queue_insert (dir_cmp dc d) (entry s' ?c) (map (entry s') ys)"
        using resort_live [OF ys(1) False c(1) _ asc, of mi zs] c(3,4) st(3) more x(4) mi by auto
      have len: "length ys' = Suc (length ys)" using r(3) by (metis length_map mset_queue_insert size_add_mset size_mset)
      have "advance_and_resort_min_ritor ops dc mi s =
          Inr (STATUS_OK, mi\<lparr>mi_num_remaining := Suc (length ys), mi_pad := pad, mi_itors := ys' @ zs\<rparr>, s')"
        using mi st(1) can False r(1) by (simp add: advance_and_resort_min_ritor_def Let_def)
      then show ?thesis using r(2,3) ys(3) st(4) mi len pop
        by (intro exI [of _ "Suc (length ys)"] exI [of _ pad] exI [of _ "ys' @ zs"] exI [of _ s'] conjI holdsI [of _ ys' zs])
          simp_all
    qed
  qed
qed

end

end
