(* ===== verification/MergeRun.thy ===== *)
theory MergeRun
  imports MergeSteps
begin

text \<open>
  What a merge returns. The messages of equal keys are merged while the first iterator is taken on,
  updates are finished and deleted keys left out as the mode of the merge says, and reading a merge to
  its end gives the tuples of all iterators, merged, in order.
\<close>

section \<open>Merging equal keys\<close>

text \<open>The callbacks succeed on the messages that occur.\<close>

locale merging_messages = merging ops ok view undisturbed dc d dom
  for ops :: "('i, 's) iterator_ops" and ok view undisturbed dc d and dom :: "key \<Rightarrow> bool" +
  fixes good :: "message \<Rightarrow> bool"
  assumes merge_ok: "good old \<Longrightarrow> good new \<Longrightarrow> \<exists>m. data_merge_tuples dc k old new = Inr (0, m) \<and> good m"
    and final_ok: "good m \<Longrightarrow> \<exists>m'. data_merge_tuples_final dc k m = Inr (0, m')"
begin

definition remaining :: "(int \<times> (key \<times> message) list) list \<Rightarrow> (key \<times> message) list" where
  "remaining q = map snd (flat (dir_cmp dc d) q)"

lemma remaining_Nil [simp]: "remaining [] = []"
  by (simp add: remaining_def)

lemma remaining_step: "q \<noteq> [] \<Longrightarrow> remaining q = hd (snd (hd q)) # remaining (queue_pop (dir_cmp dc d) q)"
  by (simp add: remaining_def flat_step)

lemma remaining_keys:
  assumes "queue_ok q" and "t \<in> set (remaining q)"
  shows "dom (fst t)"
proof -
  obtain x where "x \<in> set q" "t \<in> set (snd x)"
    using assms set_flat [of q "dir_cmp dc d"] by (auto simp: remaining_def queue_ok_def)
  then show ?thesis using assms(1) by (auto simp: queue_ok_def ascending_sorted)
qed

text \<open>The mode, the bounds and the direction stay, and there is memory.\<close>

definition kept :: "'i merge_iterator \<Rightarrow> 'i merge_iterator \<Rightarrow> bool" where
  "kept mi mi' \<longleftrightarrow> mi_merge_messages mi' = mi_merge_messages mi \<and> mi_finalize_updates mi' = mi_finalize_updates mi \<and>
     mi_emit_deletes mi' = mi_emit_deletes mi \<and> mi_can_prev mi' = mi_can_prev mi \<and> mi_can_next mi' = mi_can_next mi \<and>
     mi_forwards mi' = mi_forwards mi \<and> set (mi_mem mi') \<subseteq> set (mi_mem mi) \<and> length (mi_itors mi') = length (mi_itors mi)"

lemma kept_refl [simp]: "kept mi mi"
  by (simp add: kept_def)

lemma kept_trans: "kept mi mi' \<Longrightarrow> kept mi' mi'' \<Longrightarrow> kept mi mi''"
  by (auto simp: kept_def)

lemma holds_cong:
  "mi_forwards mi' = mi_forwards mi \<Longrightarrow> mi_itors mi' = mi_itors mi \<Longrightarrow> mi_num_remaining mi' = mi_num_remaining mi \<Longrightarrow>
   holds s mi' q = holds s mi q"
  by (simp add: holds_def)

lemma holds_first:
  assumes "holds s mi q" and "q \<noteq> []"
  shows "mi_num_remaining mi \<noteq> 0" and "mi_itors mi \<noteq> []" and "queue_ok q"
    and "oi_curr_key (hd (mi_itors mi)) = Some (fst (hd (snd (hd q))))" and "oi_curr_data (hd (mi_itors mi)) = snd (hd (snd (hd q)))"
    and "oi_next_key_equal (hd (mi_itors mi)) \<longleftrightarrow> tl q \<noteq> [] \<and> dir_cmp dc d (snd (front (hd q))) (snd (front (hd (tl q)))) = 0"
    and "oi_next_key_equal (hd (mi_itors mi)) \<Longrightarrow> 2 \<le> length (mi_itors mi) \<and>
      oi_curr_key (mi_itors mi ! 1) = Some (fst (hd (snd (hd (tl q))))) \<and> oi_curr_data (mi_itors mi ! 1) = snd (hd (snd (hd (tl q))))"
    and "length q \<le> length (mi_itors mi)"
proof -
  obtain x ys zs where mi: "mi_itors mi = (x # ys) @ zs" "mi_num_remaining mi = length (x # ys)" and lv: "live s (x # ys)"
    and qe: "q = map (entry s) (x # ys)"
  proof -
    obtain ys zs where "mi_itors mi = ys @ zs" "mi_num_remaining mi = length ys" "live s ys" "map (entry s) ys = q"
      using assms(1) by (auto simp: holds_def)
    then show ?thesis using that assms(2) by (cases ys) auto
  qed
  have f: "\<forall>y\<in>set (x # ys). fits s y" "flags (x # ys)" using lv by (simp_all add: live_def)
  have fl: "oi_next_key_equal x \<longleftrightarrow> ys \<noteq> [] \<and> same_key x (hd ys)"
    using f(2) by (cases ys) (auto simp: flags_def dest: spec [of _ 0])
  show "mi_num_remaining mi \<noteq> 0" "mi_itors mi \<noteq> []" "queue_ok q" using mi lv qe by (simp_all add: live_def)
  show "oi_curr_key (hd (mi_itors mi)) = Some (fst (hd (snd (hd q))))" "oi_curr_data (hd (mi_itors mi)) = snd (hd (snd (hd q)))"
    using f(1) mi qe by (simp_all add: fits_def entry_def)
  show "oi_next_key_equal (hd (mi_itors mi)) \<longleftrightarrow> tl q \<noteq> [] \<and> dir_cmp dc d (snd (front (hd q))) (snd (front (hd (tl q)))) = 0"
    using fl f(1) mi qe by (cases ys) (auto simp: same_key_front)
  show "2 \<le> length (mi_itors mi) \<and> oi_curr_key (mi_itors mi ! 1) = Some (fst (hd (snd (hd (tl q))))) \<and>
      oi_curr_data (mi_itors mi ! 1) = snd (hd (snd (hd (tl q))))" if "oi_next_key_equal (hd (mi_itors mi))"
    using fl f(1) mi qe that by (cases ys) (auto simp: fits_def entry_def)
  show "length q \<le> length (mi_itors mi)" using mi qe by simp
qed

lemma merge_older_ok:
  assumes "good old" and "good new"
  shows "data_merge_tuples dc k old new = Inr (0, merge_older dc k old new)" and "good (merge_older dc k old new)"
  using merge_ok [OF assms, of k] by (auto simp: merge_older_def)

lemma equal_keys_cong:
  assumes "dom (fst t)" "dom (fst u)" "equal_keys dc t u" and "\<forall>v\<in>set ts. dom (fst v)"
  shows "takeWhile (equal_keys dc t) ts = takeWhile (equal_keys dc u) ts" and "dropWhile (equal_keys dc t) ts = dropWhile (equal_keys dc u) ts"
  using assms cmp_zero_cong [of "fst t" "fst u"]
  by (auto simp: equal_keys_def dir_cmp_zero intro!: takeWhile_cong dropWhile_cong)

text \<open>
  A round of the loop: \<open>t\<close> is what has been merged so far, its key the key of the first iterator. The
  loop ends when the first iterator is the last one with the key.
\<close>

lemma resolve_loop:
  assumes "holds s mi q" and "q \<noteq> []" and "oi_next_key_equal (hd (mi_itors mi))"
    and "mi_curr_key mi = Some k" and "mi_merge_buffer mi = m" and "good m" and "dom k"
    and "dir_cmp dc d k (snd (front (hd q))) = 0" and "\<forall>t\<in>set (remaining q). good (snd t)" and "fronts k q \<le> Suc n"
  shows "\<exists>mi' s' q'. merge_resolve_loop n ops dc mi s = Inr (STATUS_OK, mi', s') \<and> keeps s s' \<and> kept mi mi' \<and>
    holds s' mi' q' \<and> q' \<noteq> [] \<and>
    (let F = remaining (queue_pop (dir_cmp dc d) q); r = combine dc (k, m) (takeWhile (equal_keys dc (k, m)) F)
     in mi_curr_key mi' = Some (fst r) \<and> mi_merge_buffer mi' = snd r \<and> good (snd r) \<and>
        remaining (queue_pop (dir_cmp dc d) q') = dropWhile (equal_keys dc (k, m)) F)"
  using assms
proof (induction n arbitrary: s mi q k m)
  case 0
  note h = holds_first [OF "0.prems"(1,2)]
  obtain x y qs where q: "q = x # y # qs" using h(6) "0.prems"(2,3) by (cases q; cases "tl q") auto
  have "dir_cmp dc d k (snd (front y)) = 0"
    using cmp_zero_cong [of "snd (front x)" k "snd (front y)"] cmp_swap [of k "snd (front x)"] cmp_swap [of "snd (front x)" k]
      queue_dom [OF h(3)] h(6) "0.prems"(3,7,8) q by auto
  then have "2 \<le> fronts k q" using "0.prems"(8) by (simp add: fronts_def q)
  then show ?case using "0.prems"(10) by simp
next
  case (Suc n)
  note h = holds_first [OF Suc.prems(1,2)] and p = Suc.prems
  obtain x y qs where q: "q = x # y # qs" using h(6) p(2,3) by (cases q; cases "tl q") auto
  let ?q1 = "queue_pop (dir_cmp dc d) q" and ?u = "hd (snd y)"
  have xy: "dir_cmp dc d (snd (front x)) (snd (front y)) = 0" using h(6) p(3) q by simp
  have y: "?q1 \<noteq> []" "hd ?q1 = y" using pop_same [of x y qs] h(3) xy q by (auto simp: queue_pop_def split_beta)
  have rem: "remaining q = hd (snd x) # remaining ?q1" "remaining ?q1 = ?u # remaining (queue_pop (dir_cmp dc d) ?q1)"
    using remaining_step [of q] remaining_step [OF y(1)] y(2) q by simp_all
  have doms: "dom (snd (front x))" "dom (fst ?u)" "\<forall>v\<in>set (remaining ?q1). dom (fst v)"
    using queue_dom [OF h(3)] remaining_keys [OF queue_pop_ok [OF h(3) p(2)]] q by (auto simp: front_def)
  have ku: "dir_cmp dc d k (fst ?u) = 0"
    using cmp_zero_cong [of "snd (front x)" k "fst ?u"] cmp_swap [OF p(7) doms(1)] cmp_swap [OF doms(1) p(7)] doms p(7,8) xy q
    by (auto simp: front_def)
  have gu: "good (snd ?u)" using p(9) rem by simp
  let ?m = "merge_older dc k (snd ?u) m"
  let ?mi = "mi\<lparr>mi_merge_buffer := ?m, mi_curr_key := Some (fst ?u)\<rparr>"
  have "holds s ?mi q" by (rule holds_cong [THEN iffD2, OF _ _ _ p(1)]) simp_all
  from advance_ok [OF this p(2)] obtain c pad xs s1 where adv:
    "advance_and_resort_min_ritor ops dc ?mi s =
      Inr (STATUS_OK, ?mi\<lparr>mi_num_remaining := c, mi_pad := pad, mi_itors := xs\<rparr>, s1)" "keeps s s1"
    "length xs = length (mi_itors ?mi)" "holds s1 (?mi\<lparr>mi_num_remaining := c, mi_pad := pad, mi_itors := xs\<rparr>) ?q1" by blast
  let ?mi1 = "?mi\<lparr>mi_num_remaining := c, mi_pad := pad, mi_itors := xs\<rparr>"
  have kept: "kept mi ?mi1" using adv(3) by (simp add: kept_def)
  have step: "merge_resolve_loop (Suc n) ops dc mi s =
      (if oi_next_key_equal (hd xs) then merge_resolve_loop n ops dc ?mi1 s1 else Inr (STATUS_OK, ?mi1, s1))"
    using h(7) p(3-6) merge_older_ok(1) [OF gu p(6), of k] adv(1) q by (simp add: slice_key_def Let_def)
  have comb: "combine dc (k, m) (?u # ts) = combine dc (fst ?u, ?m) ts" for ts by (cases ?u) simp
  have eqk: "equal_keys dc (k, m) ?u" using ku by (simp add: equal_keys_def dir_cmp_zero)
  have tw: "takeWhile (equal_keys dc (k, m)) (remaining ?q1) =
        ?u # takeWhile (equal_keys dc (fst ?u, ?m)) (remaining (queue_pop (dir_cmp dc d) ?q1))"
    and dw: "dropWhile (equal_keys dc (k, m)) (remaining ?q1) =
        dropWhile (equal_keys dc (fst ?u, ?m)) (remaining (queue_pop (dir_cmp dc d) ?q1))"
    using equal_keys_cong [of "(k, m)" "(fst ?u, ?m)" "remaining (queue_pop (dir_cmp dc d) ?q1)"] eqk doms p(7) rem(2)
    by (simp_all add: equal_keys_def)
  show ?case
  proof (cases "oi_next_key_equal (hd xs)")
    case True
    have fr: "fronts (fst ?u) ?q1 \<le> Suc n"
    proof -
      have "fronts k q = Suc (fronts k ?q1)" using fronts_pop [of x "y # qs" k] h(3) p(7,8) q by simp
      moreover have "fronts k ?q1 = fronts (fst ?u) ?q1"
        using cmp_zero_cong [OF p(7) doms(2) _ ku] queue_dom [OF queue_pop_ok [OF h(3) p(2)]]
        by (auto simp: fronts_def intro!: arg_cong [of _ _ size] filter_mset_cong)
      ultimately show ?thesis using p(10) by simp
    qed
    have self: "dir_cmp dc d (fst ?u) (snd (front (hd ?q1))) = 0" using cmp_self [OF doms(2)] y(2) by (simp add: front_def)
    have "\<forall>t\<in>set (remaining ?q1). good (snd t)" using p(9) rem(1) by simp
    from Suc.IH [OF adv(4) y(1) _ _ _ _ doms(2) self this fr, of ?m] obtain mi' s' q' where r:
      "merge_resolve_loop n ops dc ?mi1 s1 = Inr (STATUS_OK, mi', s')" "keeps s1 s'" "kept ?mi1 mi'" "holds s' mi' q'" "q' \<noteq> []"
      "let F = remaining (queue_pop (dir_cmp dc d) ?q1); r = combine dc (fst ?u, ?m) (takeWhile (equal_keys dc (fst ?u, ?m)) F)
       in mi_curr_key mi' = Some (fst r) \<and> mi_merge_buffer mi' = snd r \<and> good (snd r) \<and>
          remaining (queue_pop (dir_cmp dc d) q') = dropWhile (equal_keys dc (fst ?u, ?m)) F"
      using True merge_older_ok(2) [OF gu p(6), of k] by auto
    then show ?thesis
      using step True keeps_trans [OF adv(2) r(2)] kept_trans [OF kept r(3)] by (auto simp: Let_def tw dw comb)
  next
    case False
    have "\<not> (queue_pop (dir_cmp dc d) ?q1 \<noteq> [] \<and>
        dir_cmp dc d (fst ?u) (snd (front (hd (queue_pop (dir_cmp dc d) ?q1)))) = 0)"
    proof -
      obtain qs1 where q1: "?q1 = y # qs1" using y by (cases ?q1) auto
      then show ?thesis
        using next_same [of y qs1] holds_first(6) [OF adv(4) y(1)] queue_pop_ok [OF h(3) p(2)] False by (simp add: q1 front_def)
    qed
    then have "takeWhile (equal_keys dc (fst ?u, ?m)) (remaining (queue_pop (dir_cmp dc d) ?q1)) = []"
      "dropWhile (equal_keys dc (fst ?u, ?m)) (remaining (queue_pop (dir_cmp dc d) ?q1)) = remaining (queue_pop (dir_cmp dc d) ?q1)"
      by (cases "queue_pop (dir_cmp dc d) ?q1 = []"; simp add: remaining_step equal_keys_def dir_cmp_zero front_def)+
    then show ?thesis
      using step False adv(2,4) kept y(1) merge_older_ok(2) [OF gu p(6), of k]
      by (intro exI [of _ ?mi1] exI [of _ s1] exI [of _ ?q1]) (simp add: tw dw comb)
  qed
qed

section \<open>The tuple in front\<close>

definition has_memory :: "'i merge_iterator \<Rightarrow> bool" where
  "has_memory mi \<longleftrightarrow> set (mi_mem mi) \<subseteq> {True}"

lemma kept_memory: "kept mi mi' \<Longrightarrow> has_memory mi \<Longrightarrow> has_memory mi'"
  by (auto simp: kept_def has_memory_def)

lemma copy_ok:
  "has_memory mi \<Longrightarrow> merge_accumulator_copy_message m mi = (True, mi\<lparr>mi_merge_buffer := m, mi_mem := tl (mi_mem mi)\<rparr>)"
  by (cases "mi_mem mi") (auto simp: merge_accumulator_copy_message_def has_memory_def)

lemma set_tl_subset: "set (tl xs) \<subseteq> set xs"
  by (cases xs) auto

text \<open>The tuple that a merge shows, and whether its message is in the buffer.\<close>

definition shows_tuple :: "'i merge_iterator \<Rightarrow> key \<times> message \<Rightarrow> bool" where
  "shows_tuple mi t \<longleftrightarrow> mi_curr_key mi = Some (fst t) \<and> mi_curr_data mi = snd t \<and>
     (mi_curr_in_buffer mi \<longrightarrow> mi_merge_buffer mi = snd t)"

lemma merge_front:
  assumes h: "holds s mi q" "q \<noteq> []" and mem: "has_memory mi" and good: "\<forall>t\<in>set (remaining q). good (snd t)"
    and t: "shows_tuple mi t" "t = hd (snd (hd q))" "\<not> mi_curr_in_buffer mi"
  shows "\<exists>mi' s' q'. (if oi_next_key_equal (hd (mi_itors mi)) then merge_resolve_equal_keys ops dc mi s else Inr (STATUS_OK, mi, s)) =
      Inr (STATUS_OK, mi', s') \<and> keeps s s' \<and> kept mi mi' \<and> holds s' mi' q' \<and> q' \<noteq> [] \<and>
    (let F = remaining (queue_pop (dir_cmp dc d) q); r = combine dc t (takeWhile (equal_keys dc t) F)
     in shows_tuple mi' r \<and> good (snd r) \<and> remaining (queue_pop (dir_cmp dc d) q') = dropWhile (equal_keys dc t) F)"
proof -
  note f = holds_first [OF h]
  have rem: "remaining q = t # remaining (queue_pop (dir_cmp dc d) q)" using remaining_step [OF h(2)] t(2) by simp
  have dom: "dom (fst t)" using remaining_keys [OF f(3), of t] rem by simp
  show ?thesis
  proof (cases "oi_next_key_equal (hd (mi_itors mi))")
    case True
    let ?mi = "mi\<lparr>mi_merge_buffer := snd t, mi_mem := tl (mi_mem mi)\<rparr>"
    have hi: "holds s ?mi q" by (rule holds_cong [THEN iffD2, OF _ _ _ h(1)]) simp_all
    have self: "dir_cmp dc d (fst t) (snd (front (hd q))) = 0" using cmp_self [OF dom] t(2) by (simp add: front_def)
    have fuel: "fronts (fst t) q \<le> Suc (length (mi_itors mi))" using fronts_le [of "fst t" q] f(8) by simp
    obtain mi' s' q' where r: "merge_resolve_loop (length (mi_itors mi)) ops dc ?mi s = Inr (STATUS_OK, mi', s')" "keeps s s'"
      "kept ?mi mi'" "holds s' mi' q'" "q' \<noteq> []"
      "let F = remaining (queue_pop (dir_cmp dc d) q); r = combine dc (fst t, snd t) (takeWhile (equal_keys dc (fst t, snd t)) F)
       in mi_curr_key mi' = Some (fst r) \<and> mi_merge_buffer mi' = snd r \<and> good (snd r) \<and>
          remaining (queue_pop (dir_cmp dc d) q') = dropWhile (equal_keys dc (fst t, snd t)) F"
      using resolve_loop [OF hi h(2) _ _ _ _ dom self good fuel, of "snd t"] True t(1) good rem by (auto simp: shows_tuple_def)
    let ?mi' = "mi'\<lparr>mi_curr_data := mi_merge_buffer mi', mi_curr_in_buffer := True\<rparr>"
    have "merge_resolve_equal_keys ops dc mi s = Inr (STATUS_OK, ?mi', s')"
      using r(1) copy_ok [OF mem] t(1) by (simp add: merge_resolve_equal_keys_def shows_tuple_def)
    moreover have "kept mi ?mi'" using r(3) set_tl_subset [of "mi_mem mi"] by (auto simp: kept_def)
    moreover have "holds s' ?mi' q'" by (rule holds_cong [THEN iffD2, OF _ _ _ r(4)]) simp_all
    ultimately show ?thesis using True r(2,5,6) by (intro exI [of _ ?mi'] exI [of _ s'] exI [of _ q']) (simp add: Let_def shows_tuple_def)
  next
    case False
    have "\<not> (queue_pop (dir_cmp dc d) q \<noteq> [] \<and> dir_cmp dc d (fst t) (snd (front (hd (queue_pop (dir_cmp dc d) q)))) = 0)"
      using next_same [of "hd q" "tl q"] f(3,6) False h(2) t(2) by (simp add: front_def)
    then have "takeWhile (equal_keys dc t) (remaining (queue_pop (dir_cmp dc d) q)) = []"
      "dropWhile (equal_keys dc t) (remaining (queue_pop (dir_cmp dc d) q)) = remaining (queue_pop (dir_cmp dc d) q)"
      by (cases "queue_pop (dir_cmp dc d) q = []"; simp add: remaining_step equal_keys_def dir_cmp_zero front_def)+
    moreover have "combine dc t [] = t" by (cases t) simp
    ultimately show ?thesis using False h t(1) good rem by (intro exI [of _ mi] exI [of _ s] exI [of _ q]) (simp add: Let_def)
  qed
qed

definition in_mode :: "merge_behavior \<Rightarrow> 'i merge_iterator \<Rightarrow> bool" where
  "in_mode mode mi \<longleftrightarrow> mi_merge_messages mi = (mode \<noteq> MERGE_RAW) \<and> mi_finalize_updates mi = (mode = MERGE_FULL) \<and>
     mi_emit_deletes mi = (mode \<noteq> MERGE_FULL)"

lemma kept_mode: "kept mi mi' \<Longrightarrow> in_mode mode mi \<Longrightarrow> in_mode mode mi'"
  by (simp add: kept_def in_mode_def)

lemma finalize_ok:
  assumes "shows_tuple mi t" and "good (snd t)" and "has_memory mi" and "in_mode mode mi" and "mode \<noteq> MERGE_RAW"
  shows "\<exists>mi'. merge_finalize_updates_and_discard_deletes dc mi =
      Inr (STATUS_OK, mode = MERGE_FULL \<and> \<not> not_deleted (finish_tuple dc t), mi') \<and> kept mi mi' \<and>
    mi_itors mi' = mi_itors mi \<and> mi_num_remaining mi' = mi_num_remaining mi \<and>
    shows_tuple mi' (if mode = MERGE_FULL then finish_tuple dc t else t)"
proof (cases "mode = MERGE_FULL \<and> msg_type (snd t) \<noteq> MESSAGE_TYPE_INSERT")
  case True
  obtain m where m: "data_merge_tuples_final dc (fst t) (snd t) = Inr (0, m)" using final_ok [OF assms(2)] by blast
  have fin: "finish_tuple dc t = (fst t, m)" using True m by (simp add: finish_tuple_def)
  let ?mem = "if mi_curr_in_buffer mi then mi_mem mi else tl (mi_mem mi)"
  let ?mi = "mi\<lparr>mi_mem := ?mem, mi_merge_buffer := m, mi_curr_data := m, mi_curr_in_buffer := True\<rparr>"
  have "finalize_updates dc mi = Inr (STATUS_OK, ?mi)"
    using assms(1,3) m copy_ok [OF assms(3)] by (auto simp: finalize_updates_def shows_tuple_def slice_key_def)
  moreover have "kept mi ?mi" "kept mi (?mi\<lparr>mi_discarded_deletes := x\<rparr>)" for x
    using set_tl_subset [of "mi_mem mi"] by (auto simp: kept_def)
  ultimately show ?thesis
    using True assms(1,4) fin
    by (auto simp: merge_finalize_updates_and_discard_deletes_def in_mode_def not_deleted_def shows_tuple_def)
next
  case False
  have "finish_tuple dc t = t" if "mode = MERGE_FULL" using False that by (simp add: finish_tuple_def)
  then show ?thesis
    using False assms(1,4,5) by (auto simp: merge_finalize_updates_and_discard_deletes_def in_mode_def not_deleted_def shows_tuple_def
      kept_def)
qed

section \<open>A step of the merge\<close>

text \<open>A round sees the tuple of the first run; in a full merge it is left out when it is deleted.\<close>

lemma advance_one_ok:
  assumes h: "holds s mi q" "q \<noteq> []" and mem: "has_memory mi" and good: "\<forall>t\<in>set (remaining q). good (snd t)"
    and mode: "in_mode mode mi"
  shows "\<exists>retry mi' s' q' t. advance_one_loop ops dc mi s = Inr (STATUS_OK, retry, mi', s') \<and> keeps s s' \<and> kept mi mi' \<and>
      holds s' mi' q' \<and> q' \<noteq> [] \<and> mi_curr_key mi' = Some (fst t) \<and> mi_curr_data mi' = snd t \<and>
      merge_output dc mode (remaining q) = (if retry then [] else [t]) @ merge_output dc mode (remaining (queue_pop (dir_cmp dc d) q')) \<and>
      set (remaining (queue_pop (dir_cmp dc d) q')) \<subseteq> set (remaining q) \<and>
      length (remaining (queue_pop (dir_cmp dc d) q')) < length (remaining q)"
proof -
  note f = holds_first [OF h]
  let ?t = "hd (snd (hd q))" and ?F = "remaining (queue_pop (dir_cmp dc d) q)"
  let ?mi = "mi\<lparr>mi_curr_key := oi_curr_key (hd (mi_itors mi)), mi_curr_data := oi_curr_data (hd (mi_itors mi)),
    mi_curr_in_buffer := False\<rparr>"
  have rem: "remaining q = ?t # ?F" by (rule remaining_step [OF h(2)])
  have sh: "shows_tuple ?mi ?t" using f(4,5) by (simp add: shows_tuple_def)
  have hi: "holds s ?mi q" by (rule holds_cong [THEN iffD2, OF _ _ _ h(1)]) simp_all
  have k: "kept mi ?mi" "has_memory ?mi" "in_mode mode ?mi" using mem mode by (simp_all add: kept_def has_memory_def in_mode_def)
  show ?thesis
  proof (cases "mode = MERGE_RAW")
    case True
    then have "advance_one_loop ops dc mi s = Inr (STATUS_OK, False, ?mi, s)"
      using f(1) mode by (simp add: advance_one_loop_def in_mode_def Let_def)
    then show ?thesis using True hi h(2) k(1) sh rem
      by (intro exI [of _ False] exI [of _ ?mi] exI [of _ s] exI [of _ q] exI [of _ ?t]) (auto simp: shows_tuple_def)
  next
    case False
    obtain mi' s' q' where r:
      "(if oi_next_key_equal (hd (mi_itors ?mi)) then merge_resolve_equal_keys ops dc ?mi s else Inr (STATUS_OK, ?mi, s)) =
        Inr (STATUS_OK, mi', s')" "keeps s s'" "kept ?mi mi'" "holds s' mi' q'" "q' \<noteq> []"
      "let r = combine dc ?t (takeWhile (equal_keys dc ?t) ?F)
       in shows_tuple mi' r \<and> good (snd r) \<and> remaining (queue_pop (dir_cmp dc d) q') = dropWhile (equal_keys dc ?t) ?F"
      using merge_front [OF hi h(2) k(2) good sh refl] by (auto simp: Let_def)
    let ?r = "combine dc ?t (takeWhile (equal_keys dc ?t) ?F)"
    have sr: "shows_tuple mi' ?r" "good (snd ?r)" "remaining (queue_pop (dir_cmp dc d) q') = dropWhile (equal_keys dc ?t) ?F"
      using r(6) by (simp_all add: Let_def)
    obtain mi'' where e: "merge_finalize_updates_and_discard_deletes dc mi' =
        Inr (STATUS_OK, mode = MERGE_FULL \<and> \<not> not_deleted (finish_tuple dc ?r), mi'')" "kept mi' mi''"
      "mi_itors mi'' = mi_itors mi'" "mi_num_remaining mi'' = mi_num_remaining mi'"
      "shows_tuple mi'' (if mode = MERGE_FULL then finish_tuple dc ?r else ?r)"
      using finalize_ok [OF sr(1,2) kept_memory [OF r(3) k(2)] kept_mode [OF r(3) k(3)] False] by blast
    have res: "advance_one_loop ops dc mi s = Inr (STATUS_OK, mode = MERGE_FULL \<and> \<not> not_deleted (finish_tuple dc ?r), mi'', s')"
      using f(1) mode False r(1) e(1) by (simp add: advance_one_loop_def in_mode_def Let_def split: if_splits)
    have "holds s' mi'' q'" by (rule holds_cong [THEN iffD2, OF _ _ _ r(4)]) (use e(2-4) in \<open>simp_all add: kept_def\<close>)
    moreover have "kept mi mi''" using kept_trans [OF k(1) kept_trans [OF r(3) e(2)]] .
    moreover have "merge_output dc mode (remaining q) =
        (if mode = MERGE_FULL \<and> \<not> not_deleted (finish_tuple dc ?r) then [] else [if mode = MERGE_FULL then finish_tuple dc ?r else ?r]) @
        merge_output dc mode (remaining (queue_pop (dir_cmp dc d) q'))"
      using False by (cases mode) (simp_all add: rem sr(3))
    moreover have "set (remaining (queue_pop (dir_cmp dc d) q')) \<subseteq> set (remaining q)"
      unfolding sr(3) rem by (auto dest: set_dropWhileD)
    moreover have "length (remaining (queue_pop (dir_cmp dc d) q')) < length (remaining q)"
      using length_dropWhile_le [of "equal_keys dc ?t" ?F] by (simp add: sr(3) rem)
    ultimately show ?thesis using res r(2,5) e(5)
      by (intro exI [of _ "mode = MERGE_FULL \<and> \<not> not_deleted (finish_tuple dc ?r)"] exI [of _ mi''] exI [of _ s'] exI [of _ q']
          exI [of _ "if mode = MERGE_FULL then finish_tuple dc ?r else ?r"]) (simp add: shows_tuple_def)
  qed
qed

definition can_go :: "'i merge_iterator \<Rightarrow> bool" where
  "can_go mi \<longleftrightarrow> mi_can_next mi \<and> mi_can_prev mi"

text \<open>A merge that stands at the first of the tuples \<open>outs\<close>; at most \<open>n\<close> entries are ahead of it.\<close>

definition stands :: "merge_behavior \<Rightarrow> nat \<Rightarrow> 's \<Rightarrow> 'i merge_iterator \<Rightarrow> (key \<times> message) list \<Rightarrow> bool" where
  "stands mode n s mi outs \<longleftrightarrow> (\<exists>q. holds s mi q \<and> in_mode mode mi \<and> has_memory mi \<and>
     (if q = [] then outs = [] \<and> \<not> can_go mi
      else can_go mi \<and> (\<forall>t\<in>set (remaining (queue_pop (dir_cmp dc d) q)). good (snd t)) \<and>
        length (remaining (queue_pop (dir_cmp dc d) q)) < n \<and> (\<exists>t. mi_curr_key mi = Some (fst t) \<and> mi_curr_data mi = snd t \<and>
        outs = t # merge_output dc mode (remaining (queue_pop (dir_cmp dc d) q)))))"

lemma merge_output_Nil [simp]: "merge_output dc mode [] = []"
  by (cases mode) simp_all

lemma advance_one_done:
  assumes "holds s mi []"
  obtains mi' where "advance_one_loop ops dc mi s = Inr (STATUS_OK, False, mi', s)" "holds s mi' []" "\<not> can_go mi'"
    "in_mode mode mi \<Longrightarrow> in_mode mode mi'" "has_memory mi \<Longrightarrow> has_memory mi'"
proof -
  let ?mi = "if mi_forwards mi then mi\<lparr>mi_can_next := False\<rparr> else mi\<lparr>mi_can_prev := False\<rparr>"
  have "mi_num_remaining mi = 0" using assms by (auto simp: holds_def)
  moreover have "holds s ?mi []" by (rule holds_cong [THEN iffD2, OF _ _ _ assms]) simp_all
  ultimately show ?thesis
    by (intro that [of ?mi]) (simp_all add: advance_one_loop_def can_go_def in_mode_def has_memory_def)
qed

lemma advance_helper_ok:
  assumes "holds s mi q" and "q \<noteq> []" and "in_mode mode mi" and "has_memory mi" and "can_go mi"
    and "\<forall>t\<in>set (remaining (queue_pop (dir_cmp dc d) q)). good (snd t)"
    and "length (remaining (queue_pop (dir_cmp dc d) q)) < n" and "n \<le> N"
  shows "\<exists>mi' s'. merge_advance_helper n ops dc mi s = Inr (STATUS_OK, mi', s') \<and> keeps s s' \<and> mi_forwards mi' = d \<and>
    stands mode N s' mi' (merge_output dc mode (remaining (queue_pop (dir_cmp dc d) q)))"
  using assms
proof (induction n arbitrary: s mi q)
  case 0
  then show ?case by simp
next
  case (Suc n)
  note p = Suc.prems
  let ?q = "queue_pop (dir_cmp dc d) q"
  let ?mi = "mi\<lparr>mi_curr_key := None, mi_curr_data := NULL_MESSAGE, mi_curr_in_buffer := False\<rparr>"
  have "holds s ?mi q" by (rule holds_cong [THEN iffD2, OF _ _ _ p(1)]) simp_all
  from advance_ok [OF this p(2)] obtain c pad xs s1 where adv:
    "advance_and_resort_min_ritor ops dc ?mi s = Inr (STATUS_OK, ?mi\<lparr>mi_num_remaining := c, mi_pad := pad, mi_itors := xs\<rparr>, s1)"
    "keeps s s1" "length xs = length (mi_itors ?mi)"
    "holds s1 (?mi\<lparr>mi_num_remaining := c, mi_pad := pad, mi_itors := xs\<rparr>) ?q" by blast
  let ?mi1 = "?mi\<lparr>mi_num_remaining := c, mi_pad := pad, mi_itors := xs\<rparr>"
  have m1: "in_mode mode ?mi1" "has_memory ?mi1" "can_go ?mi1" using p(3-5) by (simp_all add: in_mode_def has_memory_def can_go_def)
  show ?case
  proof (cases "?q = []")
    case True
    obtain mi' where e: "advance_one_loop ops dc ?mi1 s1 = Inr (STATUS_OK, False, mi', s1)" "holds s1 mi' []" "\<not> can_go mi'"
      "in_mode mode mi'" "has_memory mi'"
      using advance_one_done [of s1 ?mi1 mode] adv(4) m1 True by metis
    have "stands mode N s1 mi' []" using e(2-5) unfolding stands_def by (intro exI [of _ "[]"]) simp
    then show ?thesis using adv(1,2) e(1,2) True by (auto simp: holds_def)
  next
    case False
    obtain retry mi2 s2 q2 t where o: "advance_one_loop ops dc ?mi1 s1 = Inr (STATUS_OK, retry, mi2, s2)" "keeps s1 s2" "kept ?mi1 mi2"
      "holds s2 mi2 q2" "q2 \<noteq> []" "mi_curr_key mi2 = Some (fst t)" "mi_curr_data mi2 = snd t"
      "merge_output dc mode (remaining ?q) = (if retry then [] else [t]) @ merge_output dc mode (remaining (queue_pop (dir_cmp dc d) q2))"
      "set (remaining (queue_pop (dir_cmp dc d) q2)) \<subseteq> set (remaining ?q)"
      "length (remaining (queue_pop (dir_cmp dc d) q2)) < length (remaining ?q)"
      using advance_one_ok [OF adv(4) False m1(2) p(6) m1(1)] by blast
    have m2: "in_mode mode mi2" "has_memory mi2" "can_go mi2" "mi_forwards mi2 = d"
      using kept_mode [OF o(3) m1(1)] kept_memory [OF o(3) m1(2)] o(3,4) m1(3) by (simp_all add: kept_def can_go_def holds_def)
    have g2: "\<forall>t\<in>set (remaining (queue_pop (dir_cmp dc d) q2)). good (snd t)" "length (remaining (queue_pop (dir_cmp dc d) q2)) < n"
      using o(9,10) p(6,7) by auto
    show ?thesis
    proof (cases retry)
      case True
      then show ?thesis
        using Suc.IH [OF o(4,5) m2(1-3) g2] p(8) adv(1) o(1,8) keeps_trans [OF adv(2) keeps_trans [OF o(2)]] by auto
    next
      case False
      have "stands mode N s2 mi2 (t # merge_output dc mode (remaining (queue_pop (dir_cmp dc d) q2)))"
        using o(4-7) m2(1-3) g2 p(8) unfolding stands_def by (intro exI [of _ q2]) simp
      then show ?thesis using adv(1) o(1,8) m2(4) False keeps_trans [OF adv(2) o(2)] by auto
    qed
  qed
qed

end

end
