(* ===== verification/MergeSetup.thy ===== *)
theory MergeSetup
  imports MergeRun
begin

text \<open>
  Setting a merge up: the dead iterators go to the end, the live ones are sorted, the flags are set;
  and reading a merge to its end.
\<close>

section \<open>Sorting\<close>

lemma mset_sort_insert [simp]: "mset (sort_insert c x ys) = add_mset x (mset ys)"
  by (induction ys) auto

lemma mset_sort [simp]: "mset (platform_sort_slow c xs) = mset xs"
  by (induction xs) (simp_all add: platform_sort_slow_def)

lemma set_sort_insert [simp]: "set (sort_insert c x ys) = insert x (set ys)"
  by (metis mset_sort_insert set_mset_add_mset_insert set_mset_mset)

lemma set_sort [simp]: "set (platform_sort_slow c xs) = set xs"
  by (metis mset_sort set_mset_mset)

lemma length_sort [simp]: "length (platform_sort_slow c xs) = length xs"
  by (metis mset_sort size_mset)

text \<open>The comparison decides a transitive relation.\<close>

definition decides :: "('a \<Rightarrow> 'a \<Rightarrow> int) \<Rightarrow> ('a \<Rightarrow> 'a \<Rightarrow> bool) \<Rightarrow> 'a set \<Rightarrow> bool" where
  "decides c R A \<longleftrightarrow> (\<forall>a\<in>A. \<forall>b\<in>A. a \<noteq> b \<longrightarrow> c a b \<le> 0 \<longrightarrow> R a b) \<and> (\<forall>a\<in>A. \<forall>b\<in>A. a \<noteq> b \<longrightarrow> \<not> c a b \<le> 0 \<longrightarrow> R b a) \<and>
     (\<forall>a\<in>A. \<forall>b\<in>A. \<forall>e\<in>A. R a b \<longrightarrow> R b e \<longrightarrow> R a e)"

lemma decidesI:
  assumes "\<And>a b. a \<in> A \<Longrightarrow> b \<in> A \<Longrightarrow> a \<noteq> b \<Longrightarrow> c a b \<le> 0 \<Longrightarrow> R a b"
    and "\<And>a b. a \<in> A \<Longrightarrow> b \<in> A \<Longrightarrow> a \<noteq> b \<Longrightarrow> \<not> c a b \<le> 0 \<Longrightarrow> R b a"
    and "\<And>a b e. a \<in> A \<Longrightarrow> b \<in> A \<Longrightarrow> e \<in> A \<Longrightarrow> R a b \<Longrightarrow> R b e \<Longrightarrow> R a e"
  shows "decides c R A"
  unfolding decides_def using assms by blast

lemma decides_mono: "decides c R A \<Longrightarrow> B \<subseteq> A \<Longrightarrow> decides c R B"
  unfolding decides_def by (intro conjI ballI impI; blast)

lemma decidesD:
  assumes "decides c R A" and "a \<in> A" "b \<in> A"
  shows "a \<noteq> b \<Longrightarrow> c a b \<le> 0 \<Longrightarrow> R a b" and "a \<noteq> b \<Longrightarrow> \<not> c a b \<le> 0 \<Longrightarrow> R b a"
    and "e \<in> A \<Longrightarrow> R a b \<Longrightarrow> R b e \<Longrightarrow> R a e"
  using assms unfolding decides_def by blast+

lemma sorted_sort_insert:
  "sorted_wrt R ys \<Longrightarrow> decides c R (insert x (set ys)) \<Longrightarrow> x \<notin> set ys \<Longrightarrow> sorted_wrt R (sort_insert c x ys)"
proof (induction ys)
  case (Cons y ys)
  note D = decidesD [OF Cons.prems(2)]
  show ?case
  proof (cases "c x y \<le> 0")
    case True
    then have xy: "R x y" using D(1) [of x y] Cons.prems(3) by auto
    have "R x z" if "z \<in> set ys" for z by (rule D(3) [of x y z]) (use xy Cons.prems(1) that in auto)
    then show ?thesis using True xy Cons.prems(1) by auto
  next
    case False
    have "sorted_wrt R (sort_insert c x ys)"
      by (rule Cons.IH) (use Cons.prems decides_mono [OF Cons.prems(2)] in auto)
    moreover have "R y x" using False D(2) [of x y] Cons.prems(3) by auto
    ultimately show ?thesis using False Cons.prems(1) by auto
  qed
qed simp

lemma sorted_sort: "distinct xs \<Longrightarrow> decides c R (set xs) \<Longrightarrow> sorted_wrt R (platform_sort_slow c xs)"
proof (induction xs)
  case (Cons x xs)
  have "sorted_wrt R (platform_sort_slow c xs)" by (rule Cons.IH) (use Cons.prems decides_mono [OF Cons.prems(2)] in auto)
  then have "sorted_wrt R (sort_insert c x (platform_sort_slow c xs))"
    by (rule sorted_sort_insert) (use Cons.prems in simp_all)
  then show ?case by (simp add: platform_sort_slow_def)
qed (simp add: platform_sort_slow_def)

text \<open>Sorting by a strict order has one result.\<close>

lemma sorted_unique:
  assumes "sorted_wrt R xs" and "sorted_wrt R ys" and "mset xs = mset ys"
    and "\<And>a b. a \<in> set xs \<Longrightarrow> b \<in> set xs \<Longrightarrow> R a b \<Longrightarrow> \<not> R b a"
  shows "xs = ys"
  using assms
proof (induction xs arbitrary: ys)
  case (Cons x xs)
  obtain y ys' where ys: "ys = y # ys'" using Cons.prems(3) by (cases ys) auto
  have sets: "insert x (set xs) = insert y (set ys')" using Cons.prems(3) ys by (metis list.simps(15) set_mset_mset)
  have "x = y"
  proof (rule ccontr)
    assume ne: "x \<noteq> y"
    then have "x \<in> set ys'" "y \<in> set xs" using sets by auto
    then have "R y x" "R x y" using Cons.prems(1,2) ys by auto
    then show False using Cons.prems(4) [of x y] \<open>y \<in> set xs\<close> by simp
  qed
  moreover have "xs = ys'" by (rule Cons.IH) (use Cons.prems ys \<open>x = y\<close> in auto)
  ultimately show ?case using ys by simp
qed simp

text \<open>The reference: entries in their order by insertion.\<close>

primrec insert_by :: "('a \<Rightarrow> 'a \<Rightarrow> bool) \<Rightarrow> 'a \<Rightarrow> 'a list \<Rightarrow> 'a list" where
  "insert_by R x [] = [x]"
| "insert_by R x (y # ys) = (if R x y then x # y # ys else y # insert_by R x ys)"

definition in_order :: "('k \<Rightarrow> 'k \<Rightarrow> int) \<Rightarrow> (int \<times> 'k \<times> 'm) list \<Rightarrow> (int \<times> 'k \<times> 'm) list" where
  "in_order c es = foldr (insert_by (\<lambda>a b. precedes c (tag a) (tag b))) es []"

definition tagged :: "('k \<times> 'm) list list \<Rightarrow> (int \<times> 'k \<times> 'm) list" where
  "tagged xss = concat (map (\<lambda>(n, ts). map (Pair (int n)) ts) (enumerate 0 xss))"

lemma insert_by_sort: "insert_by R x ys = sort_insert (\<lambda>a b. if R a b then - 1 else 1) x ys"
  by (induction ys) auto

lemma in_order_sort: "in_order c es = platform_sort_slow (\<lambda>a b. if precedes c (tag a) (tag b) then - 1 else 1) es"
proof -
  have "insert_by (\<lambda>a b. precedes c (tag a) (tag b)) = sort_insert (\<lambda>a b. if precedes c (tag a) (tag b) then - 1 else 1)"
    by (intro ext) (rule insert_by_sort)
  then show ?thesis unfolding in_order_def platform_sort_slow_def by (rule arg_cong [of _ _ "\<lambda>f. foldr f es []"])
qed

lemma sorted_distinct: "sorted_wrt R xs \<Longrightarrow> (\<And>a. a \<in> set xs \<Longrightarrow> \<not> R a a) \<Longrightarrow> distinct xs"
  by (induction xs) auto

context total_compare
begin

lemma flat_dom:
  assumes "queue_ok q" and "e \<in> set (flat cmp q)"
  shows "dom (snd (tag e))"
proof -
  obtain x t where "x \<in> set q" "t \<in> set (snd x)" "e = (fst x, t)"
    using assms set_flat [of q cmp] by (auto simp: queue_ok_def)
  then show ?thesis using assms(1) by (auto simp: queue_ok_def tag_def ascending_sorted)
qed

lemma in_order_flat:
  assumes q: "queue_ok q" and es: "mset es = mset (flat cmp q)"
  shows "in_order cmp es = flat cmp q"
proof -
  let ?R = "\<lambda>a b. precedes cmp (tag a) (tag b)" and ?c = "\<lambda>a b. if precedes cmp (tag a) (tag b) then - 1 else (1 :: int)"
  have asym: "\<not> ?R b a" if "a \<in> set (flat cmp q)" "b \<in> set (flat cmp q)" "?R a b" for a b
    by (rule precedes_asym [OF that(3) flat_dom [OF q that(1)] flat_dom [OF q that(2)]])
  have srt: "sorted_wrt ?R (flat cmp q)" by (rule flat_sorted [OF q])
  have "distinct (flat cmp q)" by (rule sorted_distinct [OF srt]) (use asym in blast)
  then have dist: "distinct es" using es by (metis mset_eq_imp_distinct_iff)
  have sets: "set es = set (flat cmp q)" using es by (metis set_mset_mset)
  have tot: "?R b a" if ab: "a \<in> set (flat cmp q)" "b \<in> set (flat cmp q)" "\<not> ?R a b" "a \<noteq> b" for a b
  proof -
    obtain i j where "i < length (flat cmp q)" "j < length (flat cmp q)" "a = flat cmp q ! i" "b = flat cmp q ! j"
      using ab(1,2) by (auto simp: in_set_conv_nth)
    then show ?thesis using ab(3,4) srt unfolding sorted_wrt_iff_nth_less by (metis linorder_neqE_nat)
  qed
  have "decides ?c ?R (set es)"
  proof (rule decidesI)
    show "?R a e" if "a \<in> set es" "b \<in> set es" "e \<in> set es" "?R a b" "?R b e" for a b e
      by (rule precedes_trans [OF that(4,5)]) (use that(1-3) flat_dom [OF q] sets in simp_all)
    show "?R b a" if "a \<in> set es" "b \<in> set es" "a \<noteq> b" "\<not> ?c a b \<le> 0" for a b
      by (rule tot) (use that sets in \<open>simp_all split: if_splits\<close>)
  qed (simp split: if_splits)
  then have "sorted_wrt ?R (in_order cmp es)" unfolding in_order_sort by (rule sorted_sort [OF dist])
  moreover have "mset (in_order cmp es) = mset (flat cmp q)" by (simp add: in_order_sort es)
  ultimately show ?thesis using sorted_unique [OF _ srt] asym by (metis set_mset_mset)
qed

end

section \<open>Live and dead iterators\<close>

definition core :: "'i ordered_iterator \<Rightarrow> 'i \<times> int \<times> bool" where
  "core x = (oi_itor x, oi_seq x, oi_next_key_equal x)"

context merging_messages
begin

lemma core_set_curr [simp]: "core (set_curr_ordered_iterator ops s x) = core x"
  by (simp add: core_def set_curr_ordered_iterator_def split_beta)

definition ready :: "'s \<Rightarrow> 'i ordered_iterator \<Rightarrow> bool" where
  "ready s x \<longleftrightarrow> fits s x \<and> ahead d (view (oi_itor x) s) \<noteq> []"

lemma ready_set_curr: "ok (oi_itor x) s \<Longrightarrow> ahead d (view (oi_itor x) s) \<noteq> [] \<Longrightarrow> ready s (set_curr_ordered_iterator ops s x)"
  using set_curr_fits by (simp add: ready_def)

lemma move_dead_ok:
  assumes "mi_num_remaining mi = i + n" and "i + n \<le> length (mi_itors mi)" and "\<forall>x\<in>set (mi_itors mi). ok (oi_itor x) s"
    and "\<forall>x\<in>set (take i (mi_itors mi)). ready s x" and "dead s (drop (i + n) (mi_itors mi))" and "0 < i \<longrightarrow> can_go mi"
  shows "\<exists>a b ys zs. move_dead_iterators ops s i n mi =
      mi\<lparr>mi_can_prev := a, mi_can_next := b, mi_num_remaining := length ys, mi_itors := ys @ zs\<rparr> \<and>
    (\<forall>y\<in>set ys. ready s y) \<and> dead s zs \<and> mset (map core (ys @ zs)) = mset (map core (mi_itors mi)) \<and> (ys \<noteq> [] \<longrightarrow> a \<and> b)"
  using assms
proof (induction n arbitrary: i mi)
  case 0
  let ?ys = "take i (mi_itors mi)" and ?zs = "drop i (mi_itors mi)"
  have "move_dead_iterators ops s i 0 mi =
      mi\<lparr>mi_can_prev := mi_can_prev mi, mi_can_next := mi_can_next mi, mi_num_remaining := length ?ys, mi_itors := ?ys @ ?zs\<rparr>"
    using "0.prems"(1,2) by simp
  moreover have "?ys \<noteq> [] \<longrightarrow> mi_can_prev mi \<and> mi_can_next mi" using "0.prems"(6) by (auto simp: can_go_def)
  ultimately show ?case using "0.prems"(4,5)
    by (intro exI [of _ "mi_can_prev mi"] exI [of _ "mi_can_next mi"] exI [of _ ?ys] exI [of _ ?zs] conjI)
      (simp_all del: mset_map)
next
  case (Suc n)
  note p = Suc.prems
  let ?xs = "mi_itors mi" and ?x = "mi_itors mi ! i"
  let ?mi = "mi\<lparr>mi_can_prev := mi_can_prev mi \<or> op_can_prev ops (oi_itor ?x) s,
    mi_can_next := mi_can_next mi \<or> op_can_next ops (oi_itor ?x) s\<rparr>"
  have i: "i < length ?xs" using p(2) by simp
  then have x: "ok (oi_itor ?x) s" using p(3) by simp
  show ?case
  proof (cases "iterator_can_curr ops (oi_itor ?x) s")
    case True
    then have a: "ahead d (view (oi_itor ?x) s) \<noteq> []" using can_curr_iff [OF x] by simp
    let ?mi1 = "?mi\<lparr>mi_itors := ?xs[i := set_curr_ordered_iterator ops s ?x]\<rparr>"
    have "\<exists>a b ys zs. move_dead_iterators ops s (Suc i) n ?mi1 =
        ?mi1\<lparr>mi_can_prev := a, mi_can_next := b, mi_num_remaining := length ys, mi_itors := ys @ zs\<rparr> \<and>
      (\<forall>y\<in>set ys. ready s y) \<and> dead s zs \<and> mset (map core (ys @ zs)) = mset (map core (mi_itors ?mi1)) \<and> (ys \<noteq> [] \<longrightarrow> a \<and> b)"
    proof (rule Suc.IH)
      show "\<forall>x\<in>set (mi_itors ?mi1). ok (oi_itor x) s"
        using p(3) x set_curr_fits(4) [OF x a] by (auto dest!: set_update_subset_insert [THEN subsetD])
      show "\<forall>x\<in>set (take (Suc i) (mi_itors ?mi1)). ready s x"
        using p(4) i ready_set_curr [OF x a] by (auto simp: take_Suc_conv_app_nth)
      show "0 < Suc i \<longrightarrow> can_go ?mi1" using True by (simp add: can_go_def iterator_can_curr_def)
    qed (use p(1,2,5) in simp_all)
    moreover have "mset (map core (mi_itors ?mi1)) = mset (map core ?xs)"
      using i by (simp add: map_update list_update_same_conv [THEN iffD2])
    ultimately show ?thesis using True by (simp add: Let_def)
  next
    case False
    then have a: "ahead d (view (oi_itor ?x) s) = []" using can_curr_iff [OF x, of d] by simp
    let ?xs1 = "?xs[i + n := ?x, i := ?xs ! (i + n)]"
    let ?mi1 = "?mi\<lparr>mi_itors := ?xs1, mi_num_remaining := i + n\<rparr>"
    have m: "mset ?xs1 = mset ?xs" using mset_swap [of i ?xs "i + n"] p(2) by simp
    have "\<exists>a b ys zs. move_dead_iterators ops s i n ?mi1 =
        ?mi1\<lparr>mi_can_prev := a, mi_can_next := b, mi_num_remaining := length ys, mi_itors := ys @ zs\<rparr> \<and>
      (\<forall>y\<in>set ys. ready s y) \<and> dead s zs \<and> mset (map core (ys @ zs)) = mset (map core (mi_itors ?mi1)) \<and> (ys \<noteq> [] \<longrightarrow> a \<and> b)"
    proof (rule Suc.IH)
      show "\<forall>x\<in>set (mi_itors ?mi1). ok (oi_itor x) s" using p(3) mset_eq_setD [OF m] by simp
      show "\<forall>x\<in>set (take i (mi_itors ?mi1)). ready s x" using p(4) by simp
      have "drop (i + n) ?xs1 = (if n = 0 then ?x else ?xs1 ! (i + n)) # drop (i + Suc n) ?xs"
        using p(2) by (cases "n = 0") (simp_all add: Cons_nth_drop_Suc [symmetric] drop_update_cancel)
      then show "dead s (drop (i + n) (mi_itors ?mi1))" using p(2,5) x a by (simp add: dead_def)
      show "0 < i \<longrightarrow> can_go ?mi1" using p(6) by (auto simp: can_go_def)
    qed (use p(2) in simp_all)
    moreover have "mset (map core ?xs1) = mset (map core ?xs)" using m by (simp only: mset_map)
    ultimately show ?thesis using False p(1) by (simp add: Let_def)
  qed
qed

section \<open>Sorting the live iterators\<close>

lemma map_set_next_key_equal:
  "(\<And>x b. f (x\<lparr>oi_next_key_equal := b\<rparr>) = f x) \<Longrightarrow> map f (set_next_key_equal dc xs) = map f xs"
  by (induction dc xs rule: set_next_key_equal.induct) simp_all

lemma flags_Cons: "flags (x # ys) \<longleftrightarrow> (oi_next_key_equal x \<longleftrightarrow> ys \<noteq> [] \<and> same_key x (hd ys)) \<and> flags ys"
  by (cases ys) (auto simp: flags_def nth_Cons split: nat.splits)

lemma flags_Nil [simp]: "flags []"
  by (simp add: flags_def)

lemma hd_set_next: "oi_curr_key (hd (set_next_key_equal dc (y # ys))) = oi_curr_key y"
  by (cases ys) simp_all

lemma set_next_not_Nil [simp]: "set_next_key_equal dc (y # ys) \<noteq> []"
  by (cases ys) simp_all

lemma flags_set_next: "\<forall>x\<in>set xs. \<not> oi_next_key_equal x \<Longrightarrow> flags (set_next_key_equal dc xs)"
proof (induction xs)
  case (Cons x xs)
  then show ?case by (cases xs) (simp_all add: flags_Cons hd_set_next same_key_def)
qed simp

lemma sort_live:
  assumes ys: "\<forall>y\<in>set ys. ready s y" "distinct (map oi_seq ys)" "\<forall>y\<in>set ys. \<not> oi_next_key_equal y"
    and asc: "\<forall>y\<in>set ys. ascending (map fst (ahead d (view (oi_itor y) s)))"
  shows "live s (set_next_key_equal dc (platform_sort_slow (merge_comp dc d) ys))" (is "live s ?zs")
    and "mset (map (entry s) (set_next_key_equal dc (platform_sort_slow (merge_comp dc d) ys))) = mset (map (entry s) ys)"
    and "length (set_next_key_equal dc (platform_sort_slow (merge_comp dc d) ys)) = length ys"
proof -
  let ?sorted = "platform_sort_slow (merge_comp dc d) ys" and ?R = "\<lambda>x y. precedes (dir_cmp dc d) (front (entry s x)) (front (entry s y))"
  have fits: "fits s y" "dom (snd (front (entry s y)))" if "y \<in> set ys" for y
    using ys(1) asc ascending_dom that by (auto simp: ready_def front_def entry_def)
  have inj: "oi_seq x \<noteq> oi_seq y" if "x \<in> set ys" "y \<in> set ys" "x \<noteq> y" for x y
    using ys(2) that by (auto simp: distinct_map inj_on_def)
  have cases: "(merge_comp dc d x y \<le> 0 \<longrightarrow> ?R x y) \<and> (\<not> merge_comp dc d x y \<le> 0 \<longrightarrow> ?R y x)"
    if xy: "x \<in> set ys" "y \<in> set ys" "x \<noteq> y" for x y
    using inj [OF xy] cmp_swap [OF fits(2) [OF xy(1)] fits(2) [OF xy(2)]] cmp_swap [OF fits(2) [OF xy(2)] fits(2) [OF xy(1)]]
    by (auto simp: merge_comp_def bsearch_comp_fits [OF fits(1) [OF xy(1)] fits(1) [OF xy(2)]] precedes_def front_def entry_def Let_def
        split: if_splits)
  have "decides (merge_comp dc d) ?R (set ys)"
  proof (rule decidesI)
    show "?R a e" if "a \<in> set ys" "b \<in> set ys" "e \<in> set ys" "?R a b" "?R b e" for a b e
      by (rule precedes_trans [OF that(4,5)]) (use that(1-3) fits(2) in simp_all)
  qed (use cases in blast)+
  then have srt: "sorted_wrt ?R ?sorted" using ys(2) by (intro sorted_sort) (simp_all add: distinct_map)
  have entries: "map (entry s) ?zs = map (entry s) ?sorted" by (rule map_set_next_key_equal) (rule entry_flag)
  have "distinct (map oi_seq ?sorted)" using ys(2) mset_eq_imp_distinct_iff [of "map oi_seq ?sorted" "map oi_seq ys"] by simp
  then have "queue_ok (map (entry s) ?zs)" using srt ys(1) asc
    by (simp add: entries queue_ok_def all_full_def sorted_wrt_map entry_def ready_def comp_def)
  moreover have "map (fits s) ?zs = map (fits s) ?sorted" by (rule map_set_next_key_equal) (rule fits_flag)
  then have "\<forall>b\<in>set (map (fits s) ?zs). b" using fits(1) by simp
  then have "\<forall>y\<in>set ?zs. fits s y" by simp
  moreover have "flags ?zs" using ys(3) by (intro flags_set_next) simp
  ultimately show "live s ?zs" by (simp add: live_def)
  show "mset (map (entry s) ?zs) = mset (map (entry s) ys)" by (simp add: entries)
  show "length ?zs = length ys" using arg_cong [OF entries, of length] by simp
qed

section \<open>Setting up\<close>

definition entries_of :: "'s \<Rightarrow> 'i \<times> int \<times> bool \<Rightarrow> (int \<times> key \<times> message) multiset" where
  "entries_of s c = image_mset (Pair (fst (snd c))) (mset (ahead d (view (fst c) s)))"

definition fresh :: "'s \<Rightarrow> 'i \<times> int \<times> bool \<Rightarrow> bool" where
  "fresh s c \<longleftrightarrow> ok (fst c) s \<and> ascending (map fst (ahead d (view (fst c) s))) \<and> \<not> snd (snd c) \<and>
     (\<forall>t\<in>set (ahead d (view (fst c) s)). good (snd t))"

lemma remaining_from:
  assumes "queue_ok q" and "t \<in> set (remaining q)"
  obtains x where "x \<in> set q" "t \<in> set (snd x)"
  using assms set_flat [of q "dir_cmp dc d"] by (auto simp: remaining_def queue_ok_def)

lemma flat_entries:
  assumes "queue_ok q" and "mset q = mset (map (entry s) ys)" and "dead s zs"
    and "mset es = (\<Sum>c\<in>#mset (map core (ys @ zs)). entries_of s c)"
  shows "mset es = mset (flat (dir_cmp dc d) q)"
proof -
  have "mset es = (\<Sum>y\<in>#mset ys. entries_of s (core y)) + (\<Sum>y\<in>#mset zs. entries_of s (core y))"
    using assms(4) by (simp add: multiset.map_comp comp_def)
  also have "(\<Sum>y\<in>#mset zs. entries_of s (core y)) = {#}"
    using assms(3) by (auto simp: dead_def entries_of_def core_def intro!: sum_mset.neutral)
  also have "(\<Sum>y\<in>#mset ys. entries_of s (core y)) = (\<Sum>x\<in>#mset (map (entry s) ys). image_mset (Pair (fst x)) (mset (snd x)))"
    by (simp add: entries_of_def core_def entry_def multiset.map_comp comp_def)
  finally show ?thesis using mset_flat [of q "dir_cmp dc d"] assms(1,2) by (simp add: queue_ok_def)
qed

text \<open>Before the first round: the queue has all entries, and no flag of the bounds is missing.\<close>

lemma setup_queue:
  assumes xs: "\<forall>x\<in>set (mi_itors mi). fresh s (core x)" "distinct (map oi_seq (mi_itors mi))" and mi: "mi_forwards mi = d"
    and es: "mset es = (\<Sum>c\<in>#mset (map core (mi_itors mi)). entries_of s c)"
  obtains mi1 q where "holds s mi1 q" and "remaining q = map snd (in_order (dir_cmp dc d) es)"
    and "\<forall>t\<in>set (remaining q). good (snd t)" and "q \<noteq> [] \<Longrightarrow> can_go mi1"
    and "\<And>mode. in_mode mode mi \<Longrightarrow> in_mode mode mi1" and "has_memory mi \<Longrightarrow> has_memory mi1"
    and "\<And>N. setup_ordered_iterators N ops dc mi s = obind (advance_one_loop ops dc mi1 s) (\<lambda>(rc, retry, mi2, s1).
      obind (if retry \<and> rc = STATUS_OK then merge_advance_helper N ops dc mi2 s1 else Inr (rc, mi2, s1)) (\<lambda>(rc, mi3, s2).
        Inr (rc, if rc = STATUS_OK then Some mi3 else None, s2)))"
proof -
  let ?mi = "mi\<lparr>mi_can_prev := False, mi_can_next := False, mi_num_remaining := length (mi_itors mi)\<rparr>"
  have "\<exists>a b ys zs. move_dead_iterators ops s 0 (length (mi_itors mi)) ?mi =
        ?mi\<lparr>mi_can_prev := a, mi_can_next := b, mi_num_remaining := length ys, mi_itors := ys @ zs\<rparr> \<and>
      (\<forall>y\<in>set ys. ready s y) \<and> dead s zs \<and> mset (map core (ys @ zs)) = mset (map core (mi_itors ?mi)) \<and> (ys \<noteq> [] \<longrightarrow> a \<and> b)"
    using xs(1) by (intro move_dead_ok) (auto simp: fresh_def core_def dead_def)
  then obtain a b ys zs where mv: "move_dead_iterators ops s 0 (length (mi_itors mi)) ?mi =
        ?mi\<lparr>mi_can_prev := a, mi_can_next := b, mi_num_remaining := length ys, mi_itors := ys @ zs\<rparr>"
    "\<forall>y\<in>set ys. ready s y" "dead s zs" "mset (map core (ys @ zs)) = mset (map core (mi_itors mi))" "ys \<noteq> [] \<longrightarrow> a \<and> b" by auto
  let ?live = "set_next_key_equal dc (platform_sort_slow (merge_comp dc d) ys)"
  let ?mi1 = "?mi\<lparr>mi_can_prev := a, mi_can_next := b, mi_num_remaining := length ys, mi_itors := ?live @ zs\<rparr>" and ?q = "map (entry s) ?live"
  have cores: "core ` (set ys \<union> set zs) = core ` set (mi_itors mi)" using mset_eq_setD [OF mv(4)] by (simp add: image_Un)
  have fr: "fresh s (core y)" if "y \<in> set ys \<union> set zs" for y
  proof -
    have "core y \<in> core ` set (mi_itors mi)" using cores that by blast
    then show ?thesis using xs(1) by auto
  qed
  have "map oi_seq l = map (fst \<circ> snd) (map core l)" for l :: "'i ordered_iterator list" by (simp add: core_def)
  then have "mset (map oi_seq (ys @ zs)) = mset (map oi_seq (mi_itors mi))" using mv(4) by (metis mset_map)
  then have seqs: "distinct (map oi_seq ys)" using xs(2) mset_eq_imp_distinct_iff by (metis distinct_append map_append)
  have lv: "live s ?live" "mset ?q = mset (map (entry s) ys)" "length ?live = length ys"
    using sort_live [OF mv(2) seqs] fr by (simp_all add: fresh_def core_def)
  have q: "queue_ok ?q" using lv(1) by (simp add: live_def)
  have es': "mset es = mset (flat (dir_cmp dc d) ?q)" by (rule flat_entries [OF q lv(2) mv(3)]) (simp only: es mv(4))
  have sets: "set ?q = entry s ` set ys" using mset_eq_setD [OF lv(2)] by simp
  show ?thesis
  proof (rule that [of ?mi1 ?q])
    show "holds s ?mi1 ?q" by (rule holdsI [of _ ?live zs]) (use mi lv(1,3) mv(3) in simp_all)
    show "remaining ?q = map snd (in_order (dir_cmp dc d) es)" using in_order_flat [OF q es'] by (simp add: remaining_def)
    show "\<forall>t\<in>set (remaining ?q). good (snd t)"
    proof
      fix t assume "t \<in> set (remaining ?q)"
      then obtain x where "x \<in> set ?q" "t \<in> set (snd x)" using remaining_from [OF q] by blast
      then obtain y where "y \<in> set ys" "t \<in> set (ahead d (view (oi_itor y) s))" unfolding sets by (auto simp: entry_def)
      then show "good (snd t)" using fr [of y] by (simp add: fresh_def core_def)
    qed
    show "can_go ?mi1" if "?q \<noteq> []" using that lv(3) mv(5) by (auto simp: can_go_def)
  qed (use mv(1) mi in \<open>simp_all add: in_mode_def has_memory_def setup_ordered_iterators_def Let_def\<close>)
qed

lemma setup_ok:
  assumes xs: "\<forall>x\<in>set (mi_itors mi). fresh s (core x)" "distinct (map oi_seq (mi_itors mi))"
    and mi: "mi_forwards mi = d" "in_mode mode mi" "has_memory mi"
    and es: "mset es = (\<Sum>c\<in>#mset (map core (mi_itors mi)). entries_of s c)" and N: "length es \<le> N"
  shows "\<exists>mi' s'. setup_ordered_iterators N ops dc mi s = Inr (STATUS_OK, Some mi', s') \<and> keeps s s' \<and> mi_forwards mi' = d \<and>
    stands mode N s' mi' (merge_output dc mode (map snd (in_order (dir_cmp dc d) es)))"
proof -
  obtain mi1 q where s: "holds s mi1 q" "remaining q = map snd (in_order (dir_cmp dc d) es)" "\<forall>t\<in>set (remaining q). good (snd t)"
    "q \<noteq> [] \<Longrightarrow> can_go mi1" "\<And>mode. in_mode mode mi \<Longrightarrow> in_mode mode mi1" "has_memory mi \<Longrightarrow> has_memory mi1"
    "\<And>N. setup_ordered_iterators N ops dc mi s = obind (advance_one_loop ops dc mi1 s) (\<lambda>(rc, retry, mi2, s1).
      obind (if retry \<and> rc = STATUS_OK then merge_advance_helper N ops dc mi2 s1 else Inr (rc, mi2, s1)) (\<lambda>(rc, mi3, s2).
        Inr (rc, if rc = STATUS_OK then Some mi3 else None, s2)))"
    using setup_queue [OF xs mi(1) es] by blast
  note m = s(5) [OF mi(2)] s(6) [OF mi(3)]
  have len: "length (remaining q) \<le> N" using N by (simp add: s(2) in_order_sort)
  show ?thesis
  proof (cases "q = []")
    case True
    obtain mi' where e: "advance_one_loop ops dc mi1 s = Inr (STATUS_OK, False, mi', s)" "holds s mi' []" "\<not> can_go mi'"
      "in_mode mode mi'" "has_memory mi'"
      using advance_one_done [of s mi1 mode] s(1) m unfolding True by metis
    have "stands mode N s mi' []" using e(2-5) unfolding stands_def by (intro exI [of _ "[]"]) simp
    then show ?thesis unfolding s(7) s(2) [symmetric] True using e(1,2) by (auto simp: holds_def)
  next
    case False
    obtain retry mi2 s2 q2 t where r: "advance_one_loop ops dc mi1 s = Inr (STATUS_OK, retry, mi2, s2)" "keeps s s2" "kept mi1 mi2"
      "holds s2 mi2 q2" "q2 \<noteq> []" "mi_curr_key mi2 = Some (fst t)" "mi_curr_data mi2 = snd t"
      "merge_output dc mode (remaining q) = (if retry then [] else [t]) @ merge_output dc mode (remaining (queue_pop (dir_cmp dc d) q2))"
      "set (remaining (queue_pop (dir_cmp dc d) q2)) \<subseteq> set (remaining q)"
      "length (remaining (queue_pop (dir_cmp dc d) q2)) < length (remaining q)"
      using advance_one_ok [OF s(1) False m(2) s(3) m(1)] by blast
    have m2: "in_mode mode mi2" "has_memory mi2" "can_go mi2" "mi_forwards mi2 = d"
      using kept_mode [OF r(3) m(1)] kept_memory [OF r(3) m(2)] r(3,4) s(4) [OF False] by (simp_all add: kept_def can_go_def holds_def)
    have g2: "\<forall>t\<in>set (remaining (queue_pop (dir_cmp dc d) q2)). good (snd t)" "length (remaining (queue_pop (dir_cmp dc d) q2)) < N"
      using r(9,10) s(3) len by auto
    show ?thesis
    proof (cases retry)
      case True
      obtain mi3 s3 where a: "merge_advance_helper N ops dc mi2 s2 = Inr (STATUS_OK, mi3, s3)" "keeps s2 s3" "mi_forwards mi3 = d"
        "stands mode N s3 mi3 (merge_output dc mode (remaining (queue_pop (dir_cmp dc d) q2)))"
        using advance_helper_ok [OF r(4,5) m2(1-3) g2 order_refl] by blast
      then show ?thesis unfolding s(7) s(2) [symmetric] using True r(1,8) keeps_trans [OF r(2) a(2)] by simp
    next
      case False
      have "stands mode N s2 mi2 (t # merge_output dc mode (remaining (queue_pop (dir_cmp dc d) q2)))"
        using r(4-7) m2(1-3) g2 unfolding stands_def by (intro exI [of _ q2]) simp
      then show ?thesis unfolding s(7) s(2) [symmetric] using False r(1,2,8) m2(4) by simp
    qed
  qed
qed

end

section \<open>Creation, and reading to the end\<close>

text \<open>What a client does with a merge: as long as it stands at a tuple, look at it and take a step.\<close>

primrec merge_read ::
  "nat \<Rightarrow> nat \<Rightarrow> ('i, 's) iterator_ops \<Rightarrow> data_config \<Rightarrow> 'i merge_iterator \<Rightarrow> 's \<Rightarrow>
   (platform_status \<times> (key option \<times> message) list) outcome" where
  "merge_read 0 fuel ops dc mi s = Inl Blocked"
| "merge_read (Suc n) fuel ops dc mi s =
     (if \<not> (mi_can_next mi \<and> mi_can_prev mi) then Inr (STATUS_OK, [])
      else obind (if mi_forwards mi then merge_next fuel ops dc mi s else merge_prev fuel ops dc mi s) (\<lambda>(rc, mo, s1).
        case mo of None \<Rightarrow> Inr (rc, [merge_curr mi])
        | Some mi1 \<Rightarrow> if rc \<noteq> STATUS_OK then Inr (rc, [merge_curr mi])
                    else obind (merge_read n fuel ops dc mi1 s1) (\<lambda>(rc, l). Inr (rc, merge_curr mi # l))))"

definition merge_all_of ::
  "nat \<Rightarrow> ('i, 's) iterator_ops \<Rightarrow> data_config \<Rightarrow> 'i list \<Rightarrow> merge_behavior \<Rightarrow> bool \<Rightarrow> bool list \<Rightarrow> 's \<Rightarrow>
   (platform_status \<times> (key option \<times> message) list) outcome" where
  "merge_all_of N ops dc arr mode d mem s =
     obind (merge_iterator_create N ops dc arr mode d mem s) (\<lambda>(rc, mo, s1).
       case mo of None \<Rightarrow> Inr (rc, []) | Some mi \<Rightarrow> merge_read (Suc N) N ops dc mi s1)"

lemma length_merge_runs: "length (merge_runs dc ts) \<le> length ts"
proof (induction dc ts rule: merge_runs.induct)
  case (2 dc t ts)
  then show ?case using length_dropWhile_le [of "equal_keys dc t" ts] by simp
qed simp

lemma length_merge_output: "length (merge_output dc mode ts) \<le> length ts"
proof (cases mode)
  case MERGE_FULL
  have "length (filter not_deleted (map (finish_tuple dc) (merge_runs dc ts))) \<le> length (map (finish_tuple dc) (merge_runs dc ts))"
    by (rule length_filter_le)
  also have "\<dots> \<le> length ts" by (simp add: length_merge_runs)
  finally show ?thesis by (simp only: MERGE_FULL merge_output.simps)
qed (simp_all add: length_merge_runs)

lemma length_tagged: "length (tagged xss) = length (concat xss)"
proof -
  have "length (concat (map (\<lambda>(n, ts). map (Pair (int n)) ts) (enumerate k xss))) = length (concat xss)" for k
    by (induction xss arbitrary: k) simp_all
  then show ?thesis by (simp add: tagged_def)
qed

lemma map_fst_enumerate_distinct: "distinct (map (\<lambda>(n, x). int n) (enumerate k xs))"
  by (simp add: distinct_map inj_on_def enumerate_eq_zip set_zip split_beta distinct_zipI1) (auto simp: in_set_conv_nth)

context merging_messages
begin

lemma read_ok:
  "stands mode N s mi outs \<Longrightarrow> mi_forwards mi = d \<Longrightarrow> length outs < n \<Longrightarrow>
   merge_read n N ops dc mi s = Inr (STATUS_OK, map (\<lambda>t. (Some (fst t), snd t)) outs)"
proof (induction n arbitrary: s mi outs)
  case (Suc n)
  obtain q where q: "holds s mi q" "in_mode mode mi" "has_memory mi"
    "if q = [] then outs = [] \<and> \<not> can_go mi
     else can_go mi \<and> (\<forall>t\<in>set (remaining (queue_pop (dir_cmp dc d) q)). good (snd t)) \<and>
       length (remaining (queue_pop (dir_cmp dc d) q)) < N \<and> (\<exists>t. mi_curr_key mi = Some (fst t) \<and> mi_curr_data mi = snd t \<and>
       outs = t # merge_output dc mode (remaining (queue_pop (dir_cmp dc d) q)))" using Suc.prems(1) by (auto simp: stands_def)
  show ?case
  proof (cases "q = []")
    case True
    then show ?thesis using q(4) by (simp add: can_go_def)
  next
    case False
    obtain t where t: "mi_curr_key mi = Some (fst t)" "mi_curr_data mi = snd t"
      "outs = t # merge_output dc mode (remaining (queue_pop (dir_cmp dc d) q))" and go: "can_go mi"
      and g: "\<forall>t\<in>set (remaining (queue_pop (dir_cmp dc d) q)). good (snd t)" "length (remaining (queue_pop (dir_cmp dc d) q)) < N"
      using q(4) False by auto
    obtain mi' s' where a: "merge_advance_helper N ops dc mi s = Inr (STATUS_OK, mi', s')" "mi_forwards mi' = d"
      "stands mode N s' mi' (merge_output dc mode (remaining (queue_pop (dir_cmp dc d) q)))"
      using advance_helper_ok [OF q(1) False q(2,3) go g order_refl] by blast
    have "merge_read n N ops dc mi' s' =
        Inr (STATUS_OK, map (\<lambda>t. (Some (fst t), snd t)) (merge_output dc mode (remaining (queue_pop (dir_cmp dc d) q))))"
      by (rule Suc.IH [OF a(3,2)]) (use Suc.prems(3) t(3) in simp)
    then show ?thesis using go a(1) Suc.prems(2) t by (simp add: can_go_def merge_next_def merge_prev_def merge_curr_def)
  qed
qed simp

lemma create_ok:
  assumes arr: "\<forall>i\<in>set arr. ok i s \<and> ascending (map fst (ahead d (view i s))) \<and> (\<forall>t\<in>set (ahead d (view i s)). good (snd t))"
    and "length arr < MAX_MERGE_ARITY" and mem: "set mem \<subseteq> {True}"
    and N: "length (concat (map (\<lambda>i. ahead d (view i s)) arr)) \<le> N"
  shows "\<exists>mi s'. merge_iterator_create N ops dc arr mode d mem s = Inr (STATUS_OK, Some mi, s') \<and> keeps s s' \<and> mi_forwards mi = d \<and>
    stands mode N s' mi (merge_output dc mode (map snd (in_order (dir_cmp dc d) (tagged (map (\<lambda>i. ahead d (view i s)) arr)))))"
proof -
  let ?mi = "new_merge_iterator arr mode d (tl mem)" and ?es = "tagged (map (\<lambda>i. ahead d (view i s)) arr)"
  have cores: "map core (mi_itors ?mi) = map (\<lambda>(n, it). (it, int n, False)) (enumerate 0 arr)"
    by (simp add: new_merge_iterator_def core_def comp_def split_beta)
  have "mset (concat (map (\<lambda>(n, ts). map (Pair (int n)) ts) (enumerate k (map (\<lambda>i. ahead d (view i s)) l)))) =
      (\<Sum>c\<in>#mset (map (\<lambda>(n, it). (it, int n, False)) (enumerate k l)). entries_of s c)" for k l
    by (induction l arbitrary: k) (simp_all add: entries_of_def)
  then have es: "mset ?es = (\<Sum>c\<in>#mset (map core (mi_itors ?mi)). entries_of s c)" unfolding cores tagged_def .
  have fr: "\<forall>x\<in>set (mi_itors ?mi). fresh s (core x)"
  proof
    fix x assume "x \<in> set (mi_itors ?mi)"
    then have "core x \<in> set (map core (mi_itors ?mi))" by simp
    then obtain i n where "i \<in> set arr" "core x = (i, n, False)" unfolding cores by (auto simp: enumerate_eq_zip dest: set_zip_rightD)
    then show "fresh s (core x)" using arr by (simp add: fresh_def)
  qed
  have "map oi_seq (mi_itors ?mi) = map (\<lambda>(n, it). int n) (enumerate 0 arr)"
    by (simp add: new_merge_iterator_def comp_def split_beta)
  then have seqs: "distinct (map oi_seq (mi_itors ?mi))" using map_fst_enumerate_distinct by metis
  have mi: "mi_forwards ?mi = d" "in_mode mode ?mi" "has_memory ?mi"
    using mem set_tl_subset [of mem] by (auto simp: new_merge_iterator_def in_mode_def has_memory_def)
  have "length ?es \<le> N" using N by (simp add: length_tagged)
  moreover have "\<not> (mem \<noteq> [] \<and> \<not> hd mem)" using mem by (cases mem) auto
  ultimately show ?thesis using setup_ok [OF fr seqs mi es] assms(2) by (simp add: merge_iterator_create_def)
qed

theorem merge_all_ok:
  assumes "\<forall>i\<in>set arr. ok i s \<and> ascending (map fst (ahead d (view i s))) \<and> (\<forall>t\<in>set (ahead d (view i s)). good (snd t))"
    and "length arr < MAX_MERGE_ARITY" and "set mem \<subseteq> {True}" and "length (concat (map (\<lambda>i. ahead d (view i s)) arr)) \<le> N"
  shows "merge_all_of N ops dc arr mode d mem s = Inr (STATUS_OK, map (\<lambda>t. (Some (fst t), snd t))
    (merge_output dc mode (map snd (in_order (dir_cmp dc d) (tagged (map (\<lambda>i. ahead d (view i s)) arr))))))"
proof -
  let ?ts = "map snd (in_order (dir_cmp dc d) (tagged (map (\<lambda>i. ahead d (view i s)) arr)))"
  obtain mi s' where c: "merge_iterator_create N ops dc arr mode d mem s = Inr (STATUS_OK, Some mi, s')" "mi_forwards mi = d"
    "stands mode N s' mi (merge_output dc mode ?ts)" using create_ok [OF assms] by blast
  have "length (merge_output dc mode ?ts) < Suc N"
    using length_merge_output [of dc mode ?ts] assms(4) by (simp add: in_order_sort length_tagged)
  then show ?thesis using read_ok [OF c(3,2), of "Suc N"] c(1) by (simp add: merge_all_of_def del: merge_read.simps)
qed

end

end
