(* ===== verification/MergeSpec.thy ===== *)
theory MergeSpec
  imports MergeSetup BtLookup
begin

text \<open>
  What a merge of ordered lists means, key by key: the messages that the lists have for the key, from the
  last list - the newest one - to the first, merged into one. The order of the lists is all that is left
  of them.
\<close>

section \<open>The entries of a key\<close>

definition tagged_from :: "nat \<Rightarrow> ('k \<times> 'm) list list \<Rightarrow> (int \<times> 'k \<times> 'm) list" where
  "tagged_from k xss = concat (map (\<lambda>(n, ts). map (Pair (int n)) ts) (enumerate k xss))"

lemma tagged_from_simps [simp]:
  "tagged_from k [] = []" "tagged_from k (xs # xss) = map (Pair (int k)) xs @ tagged_from (Suc k) xss"
  by (simp_all add: tagged_from_def)

lemma tagged_eq: "tagged xss = tagged_from 0 xss"
  by (simp add: tagged_def tagged_from_def)

lemma tagged_from_le: "e \<in> set (tagged_from k xss) \<Longrightarrow> int k \<le> fst e"
  by (induction xss arbitrary: k) force+

lemma tagged_from_in: "e \<in> set (tagged_from k xss) \<Longrightarrow> \<exists>xs \<in> set xss. snd e \<in> set xs"
  by (induction xss arbitrary: k) force+

primrec newest_from :: "('k \<Rightarrow> bool) \<Rightarrow> nat \<Rightarrow> ('k \<times> 'm) list list \<Rightarrow> (int \<times> 'k \<times> 'm) list" where
  "newest_from P k [] = []"
| "newest_from P k (xs # xss) = newest_from P (Suc k) xss @ map (Pair (int k)) (filter (\<lambda>t. P (fst t)) xs)"

definition newest_first :: "('k \<Rightarrow> bool) \<Rightarrow> ('k \<times> 'm) list list \<Rightarrow> ('k \<times> 'm) list" where
  "newest_first P xss = concat (map (filter (\<lambda>t. P (fst t))) (rev xss))"

lemma map_newest_from: "map snd (newest_from P k xss) = newest_first P xss"
  by (induction xss arbitrary: k) (simp_all add: newest_first_def comp_def)

lemma mset_newest_from: "mset (newest_from P k xss) = mset (filter (\<lambda>e. P (fst (snd e))) (tagged_from k xss))"
  by (induction xss arbitrary: k) (simp_all add: filter_map comp_def)

context total_compare
begin

lemma newest_sorted:
  assumes "\<forall>xs \<in> set xss. ascending (map fst xs)" and t: "dom t"
  shows "sorted_wrt (\<lambda>a b. precedes cmp (tag a) (tag b)) (newest_from (\<lambda>k. cmp k t = 0) k xss)"
  using assms(1)
proof (induction xss arbitrary: k)
  case (Cons xs xss)
  have asc: "ascending (map fst xs)" using Cons.prems by simp
  have "sorted_wrt (\<lambda>u v. cmp (fst u) (fst v) < 0) (filter (\<lambda>u. cmp (fst u) t = 0) xs)"
    using asc by (auto simp: ascending_sorted sorted_wrt_map intro: sorted_wrt_filter)
  then have here: "sorted_wrt (\<lambda>a b. precedes cmp (tag a) (tag b)) (map (Pair (int k)) (filter (\<lambda>u. cmp (fst u) t = 0) xs))"
    by (simp add: sorted_wrt_map precedes_def tag_def sorted_wrt_mono_rel)
  have "precedes cmp (tag a) (tag b)"
    if "a \<in> set (newest_from (\<lambda>k. cmp k t = 0) (Suc k) xss)" "b \<in> set (map (Pair (int k)) (filter (\<lambda>u. cmp (fst u) t = 0) xs))" for a b
  proof -
    have "a \<in> set (filter (\<lambda>e. cmp (fst (snd e)) t = 0) (tagged_from (Suc k) xss))"
      using that(1) mset_newest_from [of "\<lambda>k. cmp k t = 0" "Suc k" xss] by (metis set_mset_mset)
    then have a: "int k < fst a" "cmp (fst (snd a)) t = 0" "\<exists>ys \<in> set xss. snd a \<in> set ys"
      using tagged_from_le [of a "Suc k" xss] tagged_from_in [of a "Suc k" xss] by auto
    have b: "fst b = int k" "cmp (fst (snd b)) t = 0" "snd b \<in> set xs" using that(2) by auto
    have d: "dom (fst (snd a))" "dom (fst (snd b))" using a(3) b(3) Cons.prems asc by (force simp: ascending_sorted)+
    have "cmp (fst (snd b)) (fst (snd a)) = 0 \<longleftrightarrow> cmp t (fst (snd a)) = 0" by (rule cmp_zero_cong [OF d(2) t d(1) b(2)])
    moreover have "cmp t (fst (snd a)) = 0" using cmp_swap [OF d(1) t] cmp_swap [OF t d(1)] a(2) by linarith
    ultimately have "cmp (fst (snd a)) (fst (snd b)) = 0" using cmp_swap [OF d] cmp_swap [OF d(2,1)] by linarith
    then show ?thesis using a(1) b(1) by (simp add: precedes_def tag_def)
  qed
  then show ?case using Cons here by (simp add: sorted_wrt_append)
qed simp

lemma tagged_apart:
  assumes "\<forall>xs \<in> set xss. ascending (map fst xs)"
  shows "distinct (tagged_from k xss)"
    and "a \<in> set (tagged_from k xss) \<Longrightarrow> b \<in> set (tagged_from k xss) \<Longrightarrow> a \<noteq> b \<Longrightarrow> fst a \<noteq> fst b \<or> cmp (fst (snd a)) (fst (snd b)) \<noteq> 0"
    and "a \<in> set (tagged_from k xss) \<Longrightarrow> dom (fst (snd a))"
proof -
  have one: "distinct xs" "u \<in> set xs \<Longrightarrow> v \<in> set xs \<Longrightarrow> u \<noteq> v \<Longrightarrow> cmp (fst u) (fst v) \<noteq> 0" if "xs \<in> set xss" for xs u v
  proof -
    have asc: "sorted_wrt (\<lambda>u v. cmp (fst u) (fst v) < 0) xs" "\<forall>u \<in> set xs. dom (fst u)"
      using assms that by (auto simp: ascending_sorted sorted_wrt_map)
    show "distinct xs" by (rule sorted_distinct [OF asc(1)]) (use asc(2) cmp_self in force)
    show "cmp (fst u) (fst v) \<noteq> 0" if uv: "u \<in> set xs" "v \<in> set xs" "u \<noteq> v"
    proof -
      obtain i j where ij: "i < length xs" "j < length xs" "u = xs ! i" "v = xs ! j" using uv(1,2) by (auto simp: in_set_conv_nth)
      then have "cmp (fst u) (fst v) < 0 \<or> cmp (fst v) (fst u) < 0"
        using asc(1) uv(3) unfolding sorted_wrt_iff_nth_less by (metis linorder_neqE_nat)
      then show ?thesis using cmp_swap asc(2) uv(1,2) by fastforce
    qed
  qed
  show "distinct (tagged_from k xss)"
    using assms one(1)
  proof (induction xss arbitrary: k)
    case (Cons xs xss)
    have "set (map (Pair (int k)) xs) \<inter> set (tagged_from (Suc k) xss) = {}" using tagged_from_le [of _ "Suc k" xss] by force
    then show ?case using Cons by (simp add: distinct_map inj_on_def)
  qed simp
  have "\<forall>xs \<in> set xss. \<forall>u \<in> set xs. \<forall>v \<in> set xs. u \<noteq> v \<longrightarrow> cmp (fst u) (fst v) \<noteq> 0" using one(2) by blast
  then show "fst a \<noteq> fst b \<or> cmp (fst (snd a)) (fst (snd b)) \<noteq> 0"
    if "a \<in> set (tagged_from k xss)" "b \<in> set (tagged_from k xss)" "a \<noteq> b"
    using that
  proof (induction xss arbitrary: k)
    case (Cons xs xss)
    have le: "int (Suc k) \<le> fst e" if "e \<in> set (tagged_from (Suc k) xss)" for e by (rule tagged_from_le [OF that])
    have "a \<in> set (map (Pair (int k)) xs) \<or> a \<in> set (tagged_from (Suc k) xss)"
      "b \<in> set (map (Pair (int k)) xs) \<or> b \<in> set (tagged_from (Suc k) xss)" using Cons.prems(2,3) by simp_all
    then show ?case
    proof (elim disjE)
      assume "a \<in> set (map (Pair (int k)) xs)" "b \<in> set (map (Pair (int k)) xs)"
      then have ab: "snd a \<in> set xs" "snd b \<in> set xs" "fst a = fst b" by auto
      then have "snd a \<noteq> snd b" using Cons.prems(4) by (metis prod.collapse)
      then show ?thesis using Cons.prems(1) ab by simp
    next
      assume "a \<in> set (tagged_from (Suc k) xss)" "b \<in> set (tagged_from (Suc k) xss)"
      then show ?thesis using Cons.IH [of "Suc k"] Cons.prems(1,4) by simp
    next
      assume "a \<in> set (map (Pair (int k)) xs)" "b \<in> set (tagged_from (Suc k) xss)"
      then show ?thesis using le [of b] by auto
    next
      assume "a \<in> set (tagged_from (Suc k) xss)" "b \<in> set (map (Pair (int k)) xs)"
      then show ?thesis using le [of a] by auto
    qed
  qed simp
  show "dom (fst (snd a))" if "a \<in> set (tagged_from k xss)"
    using tagged_from_in [OF that] assms by (force simp: ascending_sorted)
qed

lemma in_order_sorted:
  assumes "\<forall>xs \<in> set xss. ascending (map fst xs)"
  shows "sorted_wrt (\<lambda>a b. precedes cmp (tag a) (tag b)) (in_order cmp (tagged xss))"
proof -
  let ?R = "\<lambda>a b. precedes cmp (tag a) (tag b)" and ?es = "tagged_from 0 xss"
  note t = tagged_apart [OF assms]
  have "decides (\<lambda>a b. if ?R a b then - 1 else 1) ?R (set ?es)"
  proof (rule decidesI)
    show "?R a e" if "a \<in> set ?es" "b \<in> set ?es" "e \<in> set ?es" "?R a b" "?R b e" for a b e
      by (rule precedes_trans [OF that(4,5)]) (use that(1-3) t(3) in \<open>simp_all add: tag_def\<close>)
    show "?R b a" if ab: "a \<in> set ?es" "b \<in> set ?es" "a \<noteq> b" "\<not> (if ?R a b then - 1 else (1 :: int)) \<le> 0" for a b
    proof -
      have "\<not> ?R a b" using ab(4) by (simp split: if_splits)
      then show ?thesis
        using t(2) [OF ab(1-3)] cmp_swap [OF t(3) [OF ab(1)] t(3) [OF ab(2)]] cmp_swap [OF t(3) [OF ab(2)] t(3) [OF ab(1)]]
        by (auto simp: precedes_def tag_def)
    qed
  qed (simp split: if_splits)
  then show ?thesis unfolding tagged_eq in_order_sort by (rule sorted_sort [OF tagged_apart(1) [OF assms]])
qed

text \<open>The entries of a key, in the order of the merge.\<close>

lemma in_order_key:
  assumes asc: "\<forall>xs \<in> set xss. ascending (map fst xs)" and k: "dom k"
  shows "filter (\<lambda>t. cmp (fst t) k = 0) (map snd (in_order cmp (tagged xss))) = newest_first (\<lambda>l. cmp l k = 0) xss"
proof -
  let ?R = "\<lambda>a b. precedes cmp (tag a) (tag b)" and ?es = "filter (\<lambda>e. cmp (fst (snd e)) k = 0) (in_order cmp (tagged xss))"
  have set: "set (in_order cmp (tagged xss)) = set (tagged_from 0 xss)" by (simp add: in_order_sort tagged_eq)
  have "?es = newest_from (\<lambda>l. cmp l k = 0) 0 xss"
  proof (rule sorted_unique)
    show "sorted_wrt ?R ?es" by (rule sorted_wrt_filter [OF in_order_sorted [OF asc]])
    show "sorted_wrt ?R (newest_from (\<lambda>l. cmp l k = 0) 0 xss)" by (rule newest_sorted [OF asc k])
    show "mset ?es = mset (newest_from (\<lambda>l. cmp l k = 0) 0 xss)" by (simp add: mset_newest_from in_order_sort tagged_eq)
    show "\<not> ?R b a" if "a \<in> set ?es" "b \<in> set ?es" "?R a b" for a b
      by (rule precedes_asym [OF that(3)]) (use that(1,2) set tagged_apart(3) [OF asc, of a 0] tagged_apart(3) [OF asc, of b 0] in \<open>simp_all add: tag_def\<close>)
  qed
  then have "map snd ?es = newest_first (\<lambda>l. cmp l k = 0) xss" by (simp add: map_newest_from)
  then show ?thesis by (simp add: filter_map comp_def)
qed

end

section \<open>Runs\<close>

definition key_ascending :: "data_config \<Rightarrow> bool \<Rightarrow> (key \<times> message) list \<Rightarrow> bool" where
  "key_ascending dc d ts \<longleftrightarrow> sorted_wrt (\<lambda>t u. dir_cmp dc d (fst t) (fst u) \<le> 0) ts"

text \<open>The value of a key in a merge: its messages, from the newest one, merged into one; finished in the last merge.\<close>

definition merged_value :: "data_config \<Rightarrow> merge_behavior \<Rightarrow> (key \<times> message) list \<Rightarrow> message option" where
  "merged_value dc mode ts =
     (case ts of [] \<Rightarrow> None
      | t # us \<Rightarrow>
          let u = combine dc t us
          in if mode \<noteq> MERGE_FULL then Some (snd u)
             else if not_deleted (finish_tuple dc u) then Some (snd (finish_tuple dc u)) else None)"

text \<open>What a merge of ordered lists of tuples gives, the last list being the newest.\<close>

definition merge_lists :: "data_config \<Rightarrow> merge_behavior \<Rightarrow> bool \<Rightarrow> (key \<times> message) list list \<Rightarrow> (key \<times> message) list" where
  "merge_lists dc mode d xss = merge_output dc mode (map snd (in_order (dir_cmp dc d) (tagged xss)))"

lemma combine_key: "fst (combine dc t us) = fst (last (t # us))"
  by (induction dc t us rule: combine.induct) auto

text \<open>The order of a merge in a direction, for keys of a domain.\<close>

locale merge_order = total_compare "dir_cmp dc d" dom
  for dc d and dom :: "key \<Rightarrow> bool"
begin

lemma run_split:
  assumes srt: "key_ascending dc d (t # ts)" and d: "\<forall>u \<in> set (t # ts). dom (fst u)"
  shows "u \<in> set (takeWhile (equal_keys dc t) ts) \<Longrightarrow> dir_cmp dc d (fst t) (fst u) = 0"
    and "u \<in> set (dropWhile (equal_keys dc t) ts) \<Longrightarrow> dir_cmp dc d (fst t) (fst u) < 0"
proof -
  have eq: "equal_keys dc t u \<longleftrightarrow> dir_cmp dc d (fst t) (fst u) = 0" for u by (simp add: equal_keys_def dir_cmp_zero)
  show "u \<in> set (takeWhile (equal_keys dc t) ts) \<Longrightarrow> dir_cmp dc d (fst t) (fst u) = 0" using set_takeWhileD eq by metis
  show "dir_cmp dc d (fst t) (fst u) < 0" if u: "u \<in> set (dropWhile (equal_keys dc t) ts)"
  proof -
    obtain v vs where v: "dropWhile (equal_keys dc t) ts = v # vs" using u by (cases "dropWhile (equal_keys dc t) ts") auto
    have ts: "ts = takeWhile (equal_keys dc t) ts @ v # vs" using v takeWhile_dropWhile_id by metis
    have vs: "set (v # vs) \<subseteq> set ts" by (subst ts) auto
    have "sorted_wrt (\<lambda>t u. dir_cmp dc d (fst t) (fst u) \<le> 0) (takeWhile (equal_keys dc t) ts @ v # vs)"
      using srt ts unfolding key_ascending_def by (metis sorted_wrt.simps(2))
    then have vu: "\<forall>w \<in> set vs. dir_cmp dc d (fst v) (fst w) \<le> 0" by (simp add: sorted_wrt_append)
    have "\<not> equal_keys dc t v" using v by (metis dropWhile_eq_Cons_conv)
    moreover have "dir_cmp dc d (fst t) (fst v) \<le> 0" using srt vs by (simp add: key_ascending_def)
    ultimately have tv: "dir_cmp dc d (fst t) (fst v) < 0" using eq by (simp add: order_less_le)
    have "u = v \<or> u \<in> set vs" using u v by simp
    then show ?thesis
    proof
      assume "u \<in> set vs"
      then show ?thesis by (intro cmp_less_trans [OF _ _ _ tv]) (use d vs vu in auto)
    qed (use tv in simp)
  qed
qed

lemma run_key:
  assumes srt: "key_ascending dc d (t # ts)" and d: "\<forall>u \<in> set (t # ts). dom (fst u)" and k: "dom k"
  defines "run \<equiv> takeWhile (equal_keys dc t) ts" and "rest \<equiv> dropWhile (equal_keys dc t) ts"
  shows "dir_cmp dc d (fst t) k = 0 \<Longrightarrow> filter (\<lambda>u. dir_cmp dc d (fst u) k = 0) (t # ts) = t # run"
    and "dir_cmp dc d (fst t) k = 0 \<Longrightarrow> filter (\<lambda>u. dir_cmp dc d (fst u) k = 0) rest = []"
    and "dir_cmp dc d (fst t) k \<noteq> 0 \<Longrightarrow> filter (\<lambda>u. dir_cmp dc d (fst u) k = 0) (t # ts) = filter (\<lambda>u. dir_cmp dc d (fst u) k = 0) rest"
    and "dir_cmp dc d (fst (combine dc t run)) k = 0 \<longleftrightarrow> dir_cmp dc d (fst t) k = 0"
proof -
  let ?P = "\<lambda>u. dir_cmp dc d (fst u) k = 0"
  have ts: "ts = run @ rest" by (simp add: run_def rest_def)
  have dm: "dom (fst t)" "\<And>u. u \<in> set run \<Longrightarrow> dom (fst u)" "\<And>u. u \<in> set rest \<Longrightarrow> dom (fst u)"
    using d ts by simp_all
  note sp = run_split [OF srt d, folded run_def rest_def]
  have same: "?P u \<longleftrightarrow> ?P t" if "u \<in> set run" for u using cmp_zero_cong [OF dm(1) dm(2) [OF that] k sp(1) [OF that]] by simp
  have none: "\<not> ?P u" if "?P t" "u \<in> set rest" for u
  proof -
    have "dir_cmp dc d k (fst t) \<le> 0" using that(1) cmp_swap [OF dm(1) k] cmp_swap [OF k dm(1)] by linarith
    then have "dir_cmp dc d k (fst u) < 0" by (rule cmp_le_less_trans [OF k dm(1) dm(3) [OF that(2)] _ sp(2) [OF that(2)]])
    then show ?thesis using cmp_swap [OF k dm(3) [OF that(2)]] by simp
  qed
  show "filter ?P rest = []" if "?P t" using none [OF that] by (simp add: filter_empty_conv)
  then show "filter ?P (t # ts) = t # run" if "?P t" using that same by (simp add: ts filter_id_conv)
  show "filter ?P (t # ts) = filter ?P rest" if "\<not> ?P t" using that same by (simp add: ts filter_empty_conv)
  have "last (t # run) = t \<or> last (t # run) \<in> set run" by (cases run) simp_all
  then show "dir_cmp dc d (fst (combine dc t run)) k = 0 \<longleftrightarrow> ?P t" unfolding combine_key using same by metis
qed

lemma merge_runs_key:
  assumes k: "dom k"
  shows "key_ascending dc d ts \<Longrightarrow> \<forall>u \<in> set ts. dom (fst u) \<Longrightarrow>
    filter (\<lambda>t. dir_cmp dc d (fst t) k = 0) (merge_runs dc ts) =
      (case filter (\<lambda>t. dir_cmp dc d (fst t) k = 0) ts of [] \<Rightarrow> [] | t # us \<Rightarrow> [combine dc t us])"
proof (induction "length ts" arbitrary: ts rule: less_induct)
  case less
  let ?P = "\<lambda>t. dir_cmp dc d (fst t) k = 0"
  show ?case
  proof (cases ts)
    case (Cons t us)
    let ?run = "takeWhile (equal_keys dc t) us" and ?rest = "dropWhile (equal_keys dc t) us"
    note r = run_key [OF less.prems [unfolded Cons] k]
    have "key_ascending dc d us" using less.prems(1) by (simp add: Cons key_ascending_def)
    then have "key_ascending dc d ?rest"
      unfolding key_ascending_def by (metis dropWhile_eq_drop sorted_wrt_drop)
    moreover have "\<forall>u \<in> set ?rest. dom (fst u)" using less.prems(2) set_dropWhileD unfolding Cons by fastforce
    moreover have "length ?rest < length ts" using length_dropWhile_le [of "equal_keys dc t" us] by (simp add: Cons)
    ultimately have ih: "filter ?P (merge_runs dc ?rest) = (case filter ?P ?rest of [] \<Rightarrow> [] | t # us \<Rightarrow> [combine dc t us])"
      using less.hyps [of ?rest] by blast
    show ?thesis
    proof (cases "?P t")
      case True
      then show ?thesis using r(1,2,4) ih by (simp add: Cons)
    next
      case False
      then show ?thesis using r(3,4) ih by (simp add: Cons)
    qed
  qed simp
qed

lemma in_order_ascending:
  assumes asc: "\<forall>xs \<in> set xss. ascending (map fst xs)"
  shows "key_ascending dc d (map snd (in_order (dir_cmp dc d) (tagged xss)))"
    and "u \<in> set (map snd (in_order (dir_cmp dc d) (tagged xss))) \<Longrightarrow> dom (fst u)"
proof -
  show "key_ascending dc d (map snd (in_order (dir_cmp dc d) (tagged xss)))"
    unfolding key_ascending_def sorted_wrt_map
    by (rule sorted_wrt_mono_rel [OF _ in_order_sorted [OF asc]]) (auto simp: precedes_def tag_def)
  show "dom (fst u)" if "u \<in> set (map snd (in_order (dir_cmp dc d) (tagged xss)))"
    using that tagged_apart(3) [OF asc] by (auto simp: in_order_sort tagged_eq)
qed

lemma finish_key [simp]: "fst (finish_tuple dc t) = fst t"
  by (simp add: finish_tuple_def)

text \<open>The value of a key in a merge.\<close>

lemma merge_lists_value:
  assumes asc: "\<forall>xs \<in> set xss. ascending (map fst xs)" and k: "dom k" and mode: "mode \<noteq> MERGE_RAW"
  shows "list_lookup (dir_cmp dc d) k (merge_lists dc mode d xss) =
    merged_value dc mode (newest_first (\<lambda>l. dir_cmp dc d l k = 0) xss)"
proof -
  let ?P = "\<lambda>t. dir_cmp dc d (fst t) k = 0" and ?ts = "map snd (in_order (dir_cmp dc d) (tagged xss))"
  have l: "list_lookup (dir_cmp dc d) k ts = (case filter ?P ts of [] \<Rightarrow> None | t # _ \<Rightarrow> Some (snd t))" for ts :: "(key \<times> message) list"
    by (induction ts) (auto simp: list_lookup_def)
  have runs: "filter ?P (merge_runs dc ?ts) =
      (case newest_first (\<lambda>l. dir_cmp dc d l k = 0) xss of [] \<Rightarrow> [] | t # us \<Rightarrow> [combine dc t us])"
    using merge_runs_key [OF k in_order_ascending(1) [OF asc]] in_order_ascending(2) [OF asc] unfolding in_order_key [OF asc k] by blast
  show ?thesis
  proof (cases "mode = MERGE_FULL")
    case True
    have "filter ?P (merge_lists dc mode d xss) = filter not_deleted (map (finish_tuple dc) (filter ?P (merge_runs dc ?ts)))"
      by (simp add: True merge_lists_def filter_map comp_def conj_commute)
    then show ?thesis unfolding l runs merged_value_def using True by (simp add: Let_def split: list.split)
  next
    case False
    then have ml: "merge_lists dc mode d xss = merge_runs dc ?ts" using mode by (cases mode) (simp_all add: merge_lists_def)
    show ?thesis unfolding ml l runs merged_value_def using False by (simp add: Let_def split: list.split)
  qed
qed

text \<open>A merge has each key once, in order.\<close>

lemma merge_runs_in: "u \<in> set (merge_runs dc ts) \<Longrightarrow> fst u \<in> fst ` set ts"
proof (induction dc ts rule: merge_runs.induct)
  case (2 dc t ts)
  have "fst (combine dc t (takeWhile (equal_keys dc t) ts)) \<in> fst ` set (t # ts)"
  proof -
    have "last (t # takeWhile (equal_keys dc t) ts) \<in> set (t # takeWhile (equal_keys dc t) ts)" by (rule last_in_set) simp
    moreover have "set (t # takeWhile (equal_keys dc t) ts) \<subseteq> set (t # ts)" by (auto dest: set_takeWhileD)
    ultimately show ?thesis unfolding combine_key by blast
  qed
  then show ?case using 2 by (auto dest: set_dropWhileD)
qed simp

lemma merge_runs_sorted:
  "key_ascending dc d ts \<Longrightarrow> \<forall>u \<in> set ts. dom (fst u) \<Longrightarrow> sorted_wrt (\<lambda>t u. dir_cmp dc d (fst t) (fst u) < 0) (merge_runs dc ts)"
proof (induction "length ts" arbitrary: ts rule: less_induct)
  case less
  show ?case
  proof (cases ts)
    case (Cons t us)
    let ?run = "takeWhile (equal_keys dc t) us" and ?rest = "dropWhile (equal_keys dc t) us"
    have dm: "\<forall>u \<in> set ?rest. dom (fst u)" "\<forall>u \<in> set (t # ?run). dom (fst u)" "dom (fst t)"
      using less.prems(2) set_dropWhileD set_takeWhileD unfolding Cons by fastforce+
    note sp = run_split [OF less.prems [unfolded Cons]]
    have "key_ascending dc d ?rest"
      using less.prems(1) unfolding key_ascending_def Cons by (metis dropWhile_eq_drop sorted_wrt.simps(2) sorted_wrt_drop)
    moreover have "length ?rest < length ts" using length_dropWhile_le [of "equal_keys dc t" us] by (simp add: Cons)
    ultimately have ih: "sorted_wrt (\<lambda>t u. dir_cmp dc d (fst t) (fst u) < 0) (merge_runs dc ?rest)" using less.hyps dm(1) by blast
    have last: "last (t # ?run) \<in> set (t # ?run)" by (rule last_in_set) simp
    have "dir_cmp dc d (fst (combine dc t ?run)) (fst u) < 0" if u: "u \<in> set (merge_runs dc ?rest)" for u
    proof -
      obtain v where v: "v \<in> set ?rest" "fst u = fst v" using merge_runs_in [OF u] by auto
      have tv: "dir_cmp dc d (fst t) (fst v) < 0" by (rule sp(2) [OF v(1)])
      have d: "dom (fst v)" "dom (fst (last (t # ?run)))" using dm(1) v(1) bspec [OF dm(2) last] by simp_all
      have "last (t # ?run) = t \<or> last (t # ?run) \<in> set ?run" using last by (simp only: list.set insert_iff)
      then have "dir_cmp dc d (fst t) (fst (last (t # ?run))) = 0" using sp(1) cmp_self [OF dm(3)] by metis
      then have "dir_cmp dc d (fst (last (t # ?run))) (fst t) \<le> 0" using cmp_swap [OF dm(3) d(2)] by linarith
      then show ?thesis unfolding combine_key v(2) by (rule cmp_le_less_trans [OF d(2) dm(3) d(1) _ tv])
    qed
    then show ?thesis using ih by (simp add: Cons)
  qed simp
qed

lemma merge_lists_sorted:
  assumes asc: "\<forall>xs \<in> set xss. ascending (map fst xs)" and mode: "mode \<noteq> MERGE_RAW"
  shows "sorted_wrt (\<lambda>t u. dir_cmp dc d (fst t) (fst u) < 0) (merge_lists dc mode d xss)"
proof -
  let ?ts = "map snd (in_order (dir_cmp dc d) (tagged xss))"
  have s: "sorted_wrt (\<lambda>t u. dir_cmp dc d (fst t) (fst u) < 0) (merge_runs dc ?ts)"
    using merge_runs_sorted [OF in_order_ascending(1) [OF asc]] in_order_ascending(2) [OF asc] by blast
  then show ?thesis using mode by (cases mode) (simp_all add: merge_lists_def sorted_wrt_map sorted_wrt_filter)
qed

end

end
