(* ===== verification/BtMerge.thy ===== *)
theory BtMerge
  imports BtScan MergeSpec
begin

text \<open>
  Merges of trees: iterators over several trees of one memory, set up one after the other for the same
  range, and the merge of them. The contract of the iterators is the cursor of \<open>BtScan\<close>, the order that
  of the user's keys.
\<close>

section \<open>The order\<close>

lemma dir_compare:
  assumes lex: "lexical tc"
  shows "total_compare (dir_cmp (bt_data_cfg tc) d) key_short"
proof -
  have c: "data_key_compare (bt_data_cfg tc) = btree_key_compare tc" by (intro ext) (simp add: btree_key_compare_def)
  note t = lexical_compare [OF lex]
  show ?thesis
  proof
    show "key_short a \<Longrightarrow> dir_cmp (bt_data_cfg tc) d a a = 0" for a
      using total_compare.cmp_self [OF t] by (simp add: dir_cmp_def c)
    show "key_short a \<Longrightarrow> key_short b \<Longrightarrow> dir_cmp (bt_data_cfg tc) d a b < 0 \<longleftrightarrow> 0 < dir_cmp (bt_data_cfg tc) d b a" for a b
      using total_compare.cmp_swap [OF t, of a b] total_compare.cmp_swap [OF t, of b a] by (auto simp: dir_cmp_def c)
    show "dir_cmp (bt_data_cfg tc) d a e \<le> 0"
      if s: "key_short a" "key_short b" "key_short e" "dir_cmp (bt_data_cfg tc) d a b \<le> 0" "dir_cmp (bt_data_cfg tc) d b e \<le> 0" for a b e
    proof (cases d)
      case True
      then show ?thesis using total_compare.cmp_trans [OF t s(1-3)] s(4,5) by (simp add: dir_cmp_def c)
    next
      case False
      have sw: "btree_key_compare tc x y \<le> 0 \<longleftrightarrow> 0 \<le> btree_key_compare tc y x" if "key_short x" "key_short y" for x y
        using total_compare.cmp_swap [OF t that(2,1)] by linarith
      then show ?thesis using total_compare.cmp_trans [OF t s(3,2,1)] s False by (simp add: dir_cmp_def c)
    qed
  qed
qed

lemma default_compare: "total_compare (dir_cmp default_data_config d) key_short"
  using dir_compare [of "\<lparr>bt_page_size = 4096, bt_data_cfg = default_data_config\<rparr>" d]
  by (simp add: lexical_def default_data_config_def)

interpretation default_order: merge_order default_data_config d key_short for d
  by (rule merge_order.intro [OF default_compare])

interpretation branch_order: merging "btree_iterator_ops (Suc n) ac tc" "iter_ok tc shp" "iter_view tc shp" pages_kept default_data_config d key_short
  for n ac tc shp d
  by (intro merging.intro btree_iterator_cursor default_compare)

interpretation branch_merge: merging_messages "btree_iterator_ops (Suc n) ac tc" "iter_ok tc shp" "iter_view tc shp" pages_kept
    default_data_config d key_short message_is_definitive
  for n ac tc shp d
  by unfold_locales (simp_all add: data_merge_tuples_def data_merge_tuples_final_def)

lemma range_ascending:
  assumes lex: "lexical tc" and srt: "tuples_sorted tc ts"
  shows "total_compare.ascending (dir_cmp (bt_data_cfg tc) d) key_short (map fst (in_direction d (key_range tc lo hi ts)))"
proof -
  have c: "data_key_compare (bt_data_cfg tc) = btree_key_compare tc" by (intro ext) (simp add: btree_key_compare_def)
  note t = lexical_compare [OF lex]
  have r: "tuples_sorted tc (key_range tc lo hi ts)" using srt by (auto simp: key_range_def sorted_wrt_filter)
  then have "sorted_wrt (\<lambda>x y. 0 < btree_key_compare tc (fst y) (fst x)) (key_range tc lo hi ts)"
    by (elim conjE sorted_wrt_mono_rel [rotated]) (use r total_compare.cmp_swap [OF t] in blast)
  then show ?thesis
    using r by (auto simp: total_compare.ascending_sorted [OF dir_compare [OF lex]] in_direction_def dir_cmp_def c sorted_wrt_map sorted_wrt_rev rev_map)
qed

lemma length_key_range: "length (key_range tc lo hi ts) \<le> length ts"
  unfolding key_range_def by (rule length_filter_le)

section \<open>Trees side by side\<close>

primrec open_branches ::
  "nat \<Rightarrow> allocator_config \<Rightarrow> btree_config \<Rightarrow> page_type \<Rightarrow> key \<Rightarrow> key \<Rightarrow> bool \<Rightarrow> bool \<Rightarrow> u64 list \<Rightarrow> iter_state \<Rightarrow>
   (btree_iterator list \<times> iter_state) outcome" where
  "open_branches n ac tc type lo hi pf d [] st = Inr ([], st)"
| "open_branches n ac tc type lo hi pf d (root # roots) st =
     obind (open_iterator n ac tc type lo hi pf d root st) (\<lambda>(it, st1).
     obind (open_branches n ac tc type lo hi pf d roots st1) (\<lambda>(its, st2). Inr (it # its, st2)))"

definition merge_branches ::
  "nat \<Rightarrow> nat \<Rightarrow> allocator_config \<Rightarrow> btree_config \<Rightarrow> page_type \<Rightarrow> key \<Rightarrow> key \<Rightarrow> bool \<Rightarrow> merge_behavior \<Rightarrow> bool \<Rightarrow> u64 list \<Rightarrow> iter_state \<Rightarrow>
   (platform_status \<times> (key option \<times> message) list) outcome" where
  "merge_branches N n ac tc type lo hi pf mode d roots st =
     obind (open_branches n ac tc type lo hi pf d roots st) (\<lambda>(its, st1).
       merge_all_of N (btree_iterator_ops n ac tc) (bt_data_cfg tc) its mode d [] st1)"

lemma open_branches_ok:
  assumes lex: "lexical tc" and k: "key_short lo" "key_short hi"
  shows "\<forall>root \<in> set roots. btree_at tc (iter_node st) root (shp root) \<Longrightarrow>
    \<exists>its st'. open_branches (Suc n) ac tc type lo hi pf d roots st = Inr (its, st') \<and>
      same_pages tc (iter_node st) (iter_node st') \<and> (\<forall>it \<in> set its. iter_ok tc shp it st') \<and>
      map (\<lambda>it. ahead d (iter_view tc shp it st')) its =
        map (\<lambda>root. in_direction d (key_range tc lo hi (tree_tuples (iter_node st) (shp root)))) roots"
proof (induction roots arbitrary: st)
  case Nil
  then show ?case by (simp add: same_pages_refl)
next
  case (Cons root roots)
  obtain it st1 where i: "open_iterator (Suc n) ac tc type lo hi pf d root st = Inr (it, st1)"
    "same_pages tc (iter_node st) (iter_node st1)" "iter_ok tc shp it st1"
    "ahead d (iter_view tc shp it st1) = in_direction d (key_range tc lo hi (tree_tuples (iter_node st) (shp root)))"
    using open_iterator_ok [of tc st root shp lo hi n ac type pf d, OF lex _ k] Cons.prems by auto
  have t: "\<forall>r \<in> set roots. btree_at tc (iter_node st1) r (shp r)" using Cons.prems same_pages_btree(1) [OF i(2)] by auto
  obtain its st2 where r: "open_branches (Suc n) ac tc type lo hi pf d roots st1 = Inr (its, st2)"
    "same_pages tc (iter_node st1) (iter_node st2)" "\<forall>it \<in> set its. iter_ok tc shp it st2"
    "map (\<lambda>it. ahead d (iter_view tc shp it st2)) its =
      map (\<lambda>root. in_direction d (key_range tc lo hi (tree_tuples (iter_node st1) (shp root)))) roots"
    using Cons.IH [OF t] by auto
  have "tree_tuples (iter_node st1) (shp r) = tree_tuples (iter_node st) (shp r)" if "r \<in> set roots" for r
    by (rule same_pages_tuples [OF i(2), of r]) (use Cons.prems that in simp)
  then have "map (\<lambda>it. ahead d (iter_view tc shp it st2)) its =
      map (\<lambda>root. in_direction d (key_range tc lo hi (tree_tuples (iter_node st) (shp root)))) roots"
    unfolding r(4) by simp
  then show ?case
    using i r iter_ok_same [OF i(3) r(2)] same_pages_trans [OF i(2) r(2)]
    by (intro exI [of _ "it # its"] exI [of _ st2]) simp
qed

lemma merge_branches_ok:
  assumes lex: "lexical tc" and k: "key_short lo" "key_short hi"
    and t: "\<forall>root \<in> set roots. btree_at tc (iter_node st) root (shp root)"
    and few: "length roots < MAX_MERGE_ARITY"
    and N: "length (concat (map (\<lambda>root. tree_tuples (iter_node st) (shp root)) roots)) \<le> N"
    and good: "\<forall>root \<in> set roots. \<forall>x \<in> set (tree_tuples (iter_node st) (shp root)). good (snd x)"
    and merge: "\<And>k old new. good old \<Longrightarrow> good new \<Longrightarrow> \<exists>m. data_merge_tuples (bt_data_cfg tc) k old new = Inr (0, m) \<and> good m"
    and final: "\<And>k m. good m \<Longrightarrow> \<exists>m'. data_merge_tuples_final (bt_data_cfg tc) k m = Inr (0, m')"
  shows "merge_branches N (Suc n) ac tc type lo hi pf mode d roots st =
    Inr (STATUS_OK, map (\<lambda>t. (Some (fst t), snd t)) (merge_lists (bt_data_cfg tc) mode d
      (map (\<lambda>root. in_direction d (key_range tc lo hi (tree_tuples (iter_node st) (shp root)))) roots)))"
proof -
  let ?R = "\<lambda>root. in_direction d (key_range tc lo hi (tree_tuples (iter_node st) (shp root)))"
  obtain its st' where o: "open_branches (Suc n) ac tc type lo hi pf d roots st = Inr (its, st')"
    "\<forall>it \<in> set its. iter_ok tc shp it st'" "map (\<lambda>it. ahead d (iter_view tc shp it st')) its = map ?R roots"
    using open_branches_ok [OF lex k t, of n ac type pf d] by blast
  have m: "merging_messages (btree_iterator_ops (Suc n) ac tc) (iter_ok tc shp) (iter_view tc shp) pages_kept (bt_data_cfg tc) d key_short good"
    by (intro merging_messages.intro merging.intro btree_iterator_cursor dir_compare [OF lex] merging_messages_axioms.intro merge final)
  have its: "\<exists>root \<in> set roots. ahead d (iter_view tc shp it st') = ?R root" if "it \<in> set its" for it
  proof -
    have "ahead d (iter_view tc shp it st') \<in> set (map (\<lambda>it. ahead d (iter_view tc shp it st')) its)" using that by simp
    then show ?thesis unfolding o(3) by auto
  qed
  have "\<forall>it \<in> set its. iter_ok tc shp it st' \<and>
      total_compare.ascending (dir_cmp (bt_data_cfg tc) d) key_short (map fst (ahead d (iter_view tc shp it st'))) \<and>
      (\<forall>x \<in> set (ahead d (iter_view tc shp it st')). good (snd x))"
  proof
    fix it assume it: "it \<in> set its"
    obtain root where r: "root \<in> set roots" "ahead d (iter_view tc shp it st') = ?R root" using its [OF it] by blast
    have srt: "tuples_sorted tc (tree_tuples (iter_node st) (shp root))" using btree_tuples_sorted [OF lex] t r(1) by blast
    have "\<forall>x \<in> set (?R root). good (snd x)" using good r(1) by (auto simp: in_direction_def key_range_def)
    then show "iter_ok tc shp it st' \<and>
        total_compare.ascending (dir_cmp (bt_data_cfg tc) d) key_short (map fst (ahead d (iter_view tc shp it st'))) \<and>
        (\<forall>x \<in> set (ahead d (iter_view tc shp it st')). good (snd x))"
      using o(2) it range_ascending [OF lex srt] unfolding r(2) by blast
  qed
  moreover have "length its < MAX_MERGE_ARITY" using few map_eq_imp_length_eq [OF o(3)] by simp
  moreover have "length (concat (map ?R rs)) \<le> length (concat (map (\<lambda>root. tree_tuples (iter_node st) (shp root)) rs))" for rs
    using length_key_range by (induction rs) (auto simp: in_direction_def intro: add_mono)
  then have "length (concat (map (\<lambda>it. ahead d (iter_view tc shp it st')) its)) \<le> N" unfolding o(3) using N order_trans by blast
  ultimately show ?thesis
    using merging_messages.merge_all_ok [OF m, of its st' "[]" N mode] o(1,3) by (simp add: merge_branches_def merge_lists_def)
qed

end
