(* ===== verification/BtDescend.thy ===== *)
theory BtDescend
  imports BtGraft
begin

text \<open>
  The steps of an insertion on trees: what a step through an index node and the last step at a
  leaf do to the page, as a change of a child of a subtree in its place.
\<close>

section \<open>Insertion in the middle of a list\<close>

lemma upsert_above:
  "\<forall>t \<in> set us. 0 < c (fst t) k \<Longrightarrow> upsert c f k m (ts @ us) = upsert c f k m ts @ us"
proof (induction ts)
  case Nil
  then show ?case by (cases us) auto
qed auto

lemma upsert_middle:
  assumes "\<forall>t \<in> set xs. c (fst t) k < 0" and "\<forall>t \<in> set zs. 0 < c (fst t) k"
  shows "upsert c f k m (xs @ ys @ zs) = xs @ upsert c f k m ys @ zs"
  by (simp add: upsert_below [of xs c k, OF assms(1)] upsert_above [of zs c k, OF assms(2)])

lemma upsert_keys: "fst ` set (upsert c f k m ts) \<subseteq> insert k (fst ` set ts)"
  by (induction ts) auto

lemma has_key_middle:
  assumes "\<forall>t \<in> set xs. btree_key_compare cfg (fst t) k < 0" and "\<forall>t \<in> set zs. 0 < btree_key_compare cfg (fst t) k"
  shows "has_key cfg k (xs @ ys @ zs) = has_key cfg k ys"
  using assms by (force simp: has_key_def)

section \<open>The child on the way\<close>

text \<open>The key is in the interval of child \<open>i\<close>.\<close>

definition aimed :: "btree_config \<Rightarrow> (u64 \<Rightarrow> btree_hdr) \<Rightarrow> u64 \<Rightarrow> shape list \<Rightarrow> key \<Rightarrow> nat \<Rightarrow> key \<Rightarrow> bool" where
  "aimed cfg N p ts hi i k \<longleftrightarrow> i < length ts \<and> btree_key_compare cfg (pivot_keys (N p) ! i) k \<le> 0 \<and>
     btree_key_compare cfg k (next_key (drop (Suc i) (pivot_keys (N p))) hi) < 0"

lemma pivot_bounds_short:
  shows "i < btree_num_entries hdr \<Longrightarrow> key_short (pivot_keys hdr ! i)"
    and "key_short hi \<Longrightarrow> key_short (next_key (drop n (pivot_keys hdr)) hi)"
proof -
  show "i < btree_num_entries hdr \<Longrightarrow> key_short (pivot_keys hdr ! i)" using pivots_short [of hdr] by simp
  have "\<forall>k \<in> set (drop n (pivot_keys hdr)). key_short k" using pivots_short in_set_dropD by metis
  then show "key_short hi \<Longrightarrow> key_short (next_key (drop n (pivot_keys hdr)) hi)" by (rule next_key_short)
qed

lemma aimed_around:
  assumes lex: "lexical cfg" and t: "subtree cfg N h (Index_at p ts) lo hi" and short: "key_short k" "key_short hi"
    and a: "aimed cfg N p ts hi i k"
  shows "\<forall>x \<in> set (concat (map (tree_tuples N) (take i ts))). btree_key_compare cfg (fst x) k < 0"
    and "\<forall>x \<in> set (concat (map (tree_tuples N) (drop (Suc i) ts))). 0 < btree_key_compare cfg (fst x) k"
    and "tree_tuples N (Index_at p ts) = concat (map (tree_tuples N) (take i ts)) @ tree_tuples N (ts ! i) @
      concat (map (tree_tuples N) (drop (Suc i) ts))"
proof -
  have seg: "segment cfg N (h - 1) (pivot_keys (N p)) ts hi" using t by simp
  have i: "i < length (pivot_keys (N p))" "i < length ts" using a segment_length [OF seg] by (simp_all add: aimed_def)
  have le: "0 < i \<Longrightarrow> btree_key_compare cfg (pivot_keys (N p) ! i) k \<le> 0"
    and up: "btree_key_compare cfg k (next_key (drop (Suc i) (pivot_keys (N p))) hi) < 0" using a by (simp_all add: aimed_def)
  note s = segment_child [OF lex seg pivots_short short(2,1) i(1) le up]
  show "\<forall>x \<in> set (concat (map (tree_tuples N) (take i ts))). btree_key_compare cfg (fst x) k < 0"
    and "\<forall>x \<in> set (concat (map (tree_tuples N) (drop (Suc i) ts))). 0 < btree_key_compare cfg (fst x) k"
    using s(3,4) by simp_all
  show "tree_tuples N (Index_at p ts) = concat (map (tree_tuples N) (take i ts)) @ tree_tuples N (ts ! i) @
      concat (map (tree_tuples N) (drop (Suc i) ts))"
    by (simp, subst id_take_nth_drop [OF i(2)], simp)
qed

lemma subtree_lo:
  assumes lex: "lexical cfg" and t: "subtree cfg N h t lo hi" and le: "btree_key_compare cfg lo' lo \<le> 0"
    and short: "key_short lo'" "key_short lo" "key_short hi"
  shows "subtree cfg N h t lo' hi"
proof (cases t)
  case (Leaf_at a)
  then show ?thesis using t within_lo [OF lex _ le] short tuples_short [of _ N t] by auto
next
  case (Index_at a ts)
  have "key_short (next_key (pivot_keys (N a)) hi)" by (rule next_key_short [OF pivots_short short(3)])
  then show ?thesis using t lex_trans [OF lex short(1,2) _ le] by (simp add: Index_at)
qed

text \<open>Pages with other contents than \<open>c\<close> and \<open>p\<close> are not touched, so what was linked is still linked.\<close>

lemma pivot_node_i:
  assumes "subtree cfg N h (Index_at p ts) lo hi" and "i < length ts"
  shows "node_pivots (N p) = take i (node_pivots (N p)) @ node_pivots (N p) ! i # drop (Suc i) (node_pivots (N p))"
    and "pivot_keys (N p) ! i = fst (node_pivots (N p) ! i)" and "fst (snd (node_pivots (N p) ! i)) = node_addr (ts ! i)"
    and "take (i + 1) (node_pivots (N p)) = take i (node_pivots (N p)) @ [node_pivots (N p) ! i]"
    and "length ts = btree_num_entries (N p)"
proof -
  have len: "length (node_pivots (N p)) = length ts" using assms(1) segment_length [of cfg N "h - 1" "pivot_keys (N p)" ts hi] by simp
  then show "node_pivots (N p) = take i (node_pivots (N p)) @ node_pivots (N p) ! i # drop (Suc i) (node_pivots (N p))"
    using assms(2) by (intro id_take_nth_drop) simp
  show "pivot_keys (N p) ! i = fst (node_pivots (N p) ! i)" using assms(2) len by simp
  have "child_addrs (N p) ! i = map node_addr ts ! i" using assms(1) by simp
  then show "fst (snd (node_pivots (N p) ! i)) = node_addr (ts ! i)" using assms(2) len by simp
  show "take (i + 1) (node_pivots (N p)) = take i (node_pivots (N p)) @ [node_pivots (N p) ! i]"
    using assms(2) len by (simp add: take_Suc_conv_app_nth)
  show "length ts = btree_num_entries (N p)" using len by simp
qed

section \<open>The last step\<close>

lemma leaf_step_grown:
  assumes ins: "insert_ok cfg k msg" and t: "hung cfg N A pr nx h (Index_at p ts) lo hi" and hi: "key_short hi"
    and aim: "aimed cfg N p ts hi i k" and c: "ts ! i = Leaf_at c"
    and st: "leaf_step cfg N A p i c (inserted cfg k msg (leaf_tuples (N c))) N' A'" and A': "0 \<notin> A'"
  shows "\<exists>new rs. child_grown cfg N A pr nx h p ts hi i N' A' new rs \<and>
    concat (map (tree_tuples N') rs) = inserted cfg k msg (tree_tuples N (ts ! i))"
proof -
  let ?ts = "inserted cfg k msg (leaf_tuples (N c))" and ?pv = "node_pivots (N p)"
  define pl nl khi where d: "pl = last_leaf pr (forest_leaves (take i ts))" "nl = next_leaf (forest_leaves (drop (Suc i) ts)) nx"
    "khi = next_key (drop (Suc i) (pivot_keys (N p))) hi"
  have i: "i < length ts" using aim by (simp add: aimed_def)
  have lex: "lexical cfg" using ins by (simp add: insert_ok_def)
  note ch = hung_child [OF t i, folded d] and dt = hungD [OF t]
  note dc = hungD [OF ch(1), unfolded c, simplified] and pn = pivot_node_i [OF dt(1) i]
  have w: "\<forall>x \<in> set ?ts. within cfg (pivot_keys (N p) ! i) khi (fst x)"
  proof
    fix x assume "x \<in> set ?ts"
    then have "fst x \<in> insert k (fst ` set (leaf_tuples (N c)))" by (intro subsetD [OF upsert_keys] imageI)
    then show "within cfg (pivot_keys (N p) ! i) khi (fst x)"
      using dc(1) aim by (auto simp: within_def aimed_def d(3))
  qed
  from st show ?thesis unfolding leaf_step_def
  proof (elim disjE conjE exE)
    assume kept: "leaf_kept cfg N c ?ts N'" "A' = A"
    note k = kept(1) [unfolded leaf_kept_def]
    have "hung cfg N' A' pl nl (h - 1) (Leaf_at c) (pivot_keys (N p) ! i) khi"
      using dc k w kept(2) by (auto simp: hung_def)
    moreover have "grown N A (ts ! i) nl N' A' (Leaf_at c)"
      using k kept(2) dc by (auto simp: grown_def c)
    ultimately have "child_grown cfg N A pr nx h p ts hi i N' A' [?pv ! i] [Leaf_at c]"
      using child_grown_inside(1) [OF t i] unfolding d by blast
    then show ?thesis using k by (intro exI [of _ "[?pv ! i]"] exI [of _ "[Leaf_at c]"]) (simp add: c)
  next
    fix ls rs piv right
    assume ls: "ls @ rs = ?ts" and "leaf_split cfg N A p i c ls rs piv right N' A'"
    note s = this(2) [unfolded leaf_split_def]
    let ?rs = "[Leaf_at c, Leaf_at right]" and ?new = "[?pv ! i, (piv, right, BTREE_PIVOT_STATS_UNKNOWN)]"
    have nl: "next_addr (N c) = nl" "prev_addr (N c) = pl" using dc by simp_all
    have w': "\<forall>x \<in> set ls. within cfg (pivot_keys (N p) ! i) piv (fst x)" "\<forall>x \<in> set rs. within cfg piv khi (fst x)"
      using w s unfolding ls [symmetric] by (auto simp: within_def)
    have ks: "key_short (pivot_keys (N p) ! i)" "key_short khi"
      using pivot_bounds_short(1) [of i "N p"] pivot_bounds_short(2) [OF hi] pn(5) i by (simp_all only: d(3))
    have lt: "btree_key_compare cfg (pivot_keys (N p) ! i) piv < 0" "btree_key_compare cfg piv khi < 0"
    proof -
      obtain x where x: "x \<in> set ls" "key_short (fst x)"
        using s leaf_keys_short [of _ "N' c"] by (cases ls) auto
      then show "btree_key_compare cfg (pivot_keys (N p) ! i) piv < 0"
        using lex_le_less_trans [OF lex ks(1) x(2), of piv] w' s by (auto simp: within_def)
      obtain y where y: "y \<in> set rs" "key_short (fst y)"
        using s leaf_keys_short [of _ "N' right"] by (cases rs) auto
      then show "btree_key_compare cfg piv khi < 0"
        using lex_le_less_trans [OF lex _ y(2) ks(2), of piv] w' s by (auto simp: within_def)
    qed
    have node: "index_node cfg h (N' p)"
      using s dt(1) by (auto simp: index_node_def index_ok_def hdr_links_def dest: in_set_takeD in_set_dropD)
    have h: "h - 1 = 0" using dc(1) by simp
    have seg: "segment cfg N' (h - 1) (map fst ?new) ?rs khi"
      using s lt w' pn(2) h by simp
    have "child_grown cfg N A pr nx h p ts hi i N' A' ?new ?rs"
      unfolding child_grown_def Let_def d [symmetric]
      using node s A' seg pn c dc nl by (auto simp: d(3))
    then show ?thesis using s ls by (intro exI [of _ ?new] exI [of _ ?rs]) (simp add: c)
  qed
qed

section \<open>A step through an index node\<close>

text \<open>The pivots of a node after its smallest key was lowered to \<open>k\<close> where that was needed: \<open>k\<close> is in the interval of a child.\<close>

lemma lowered_segment:
  assumes lex: "lexical cfg" and t: "subtree cfg N h (Index_at c us) lo khi" and short: "key_short lo" "key_short khi" "key_short k"
    and k: "btree_key_compare cfg lo k \<le> 0" "btree_key_compare cfg k khi < 0"
  defines "idx \<equiv> fst (btree_find_pivot cfg (N c) k)"
  defines "ks \<equiv> map fst (lowered_pivots k idx (node_pivots (N c)))"
  shows "segment cfg N (h - 1) ks us khi" and "btree_key_compare cfg lo (next_key ks khi) \<le> 0"
    and "nat idx < length us" and "btree_key_compare cfg (ks ! nat idx) k \<le> 0"
    and "btree_key_compare cfg k (next_key (drop (Suc (nat idx)) ks) khi) < 0" and "\<forall>x \<in> set ks. key_short x"
proof -
  note f = followed_child [OF lex t short(2,3) k(2), folded idx_def] and n = index_node_sorted [OF lex t short(2)]
  have seg: "segment cfg N (h - 1) (pivot_keys (N c)) us khi" "btree_key_compare cfg lo (next_key (pivot_keys (N c)) khi) \<le> 0"
    using t by simp_all
  show "nat idx < length us" using f(1) n(2) by simp
  have "segment cfg N (h - 1) ks us khi \<and> btree_key_compare cfg lo (next_key ks khi) \<le> 0 \<and>
    btree_key_compare cfg (ks ! nat idx) k \<le> 0 \<and> btree_key_compare cfg k (next_key (drop (Suc (nat idx)) ks) khi) < 0 \<and>
    (\<forall>x \<in> set ks. key_short x)"
  proof (cases "idx < 0")
    case False
    then show ?thesis using seg f(2,4) pivots_short [of "N c"] by (simp add: ks_def lowered_pivots_def)
  next
    case True
    obtain k0 rest where ks0: "pivot_keys (N c) = k0 # rest" using n(3) by (cases "pivot_keys (N c)") (auto dest: num_pivots)
    have ks: "ks = k # rest" "nat idx = 0" using True ks0 by (auto simp: ks_def lowered_pivots_def map_update)
    obtain u us' where us: "us = u # us'" using seg(1) unfolding ks0 by (cases us) auto
    have s0: "\<forall>x \<in> set (k0 # rest). key_short x" using pivots_short [of "N c"] unfolding ks0 .
    have lt: "btree_key_compare cfg k k0 < 0" "btree_key_compare cfg k (next_key rest khi) < 0"
      using f(3) [OF True] f(4) True ks0 by simp_all
    have nk: "key_short (next_key rest khi)" by (rule next_key_short) (use s0 short in simp_all)
    have "subtree cfg N (h - 1) u k (next_key rest khi)"
      by (rule subtree_lo [OF lex, where lo = k0]) (use seg(1) lt s0 short nk in \<open>simp_all add: ks0 us\<close>)
    then show ?thesis using seg(1) lt s0 short k lex_self [OF lex, of k] unfolding ks by (simp add: ks0 us)
  qed
  then show "segment cfg N (h - 1) ks us khi" and "btree_key_compare cfg lo (next_key ks khi) \<le> 0"
    and "btree_key_compare cfg (ks ! nat idx) k \<le> 0"
    and "btree_key_compare cfg k (next_key (drop (Suc (nat idx)) ks) khi) < 0" and "\<forall>x \<in> set ks. key_short x" by blast+
qed

text \<open>A part of the children under an index node of the same height.\<close>

lemma part_subtree:
  assumes node: "index_node cfg h hdr" and part: "index_part cfg hdr ps (N c)" and small: "\<forall>x \<in> set ps. key_length (fst x) \<le> safe_key_size cfg"
    and us: "us \<noteq> []" "map (\<lambda>x. fst (snd x)) ps = map node_addr us" and seg: "segment cfg N (h - 1) (map fst ps) us hi"
    and lo: "btree_key_compare cfg lo (next_key (map fst ps) hi) \<le> 0"
  shows "subtree cfg N h (Index_at c us) lo hi"
  using index_part_node [OF node part small] part us seg lo by (simp add: index_part_def)

text \<open>The node that the descent goes on with: child \<open>m\<close> of those that stand for the old one.\<close>

definition aimed_at ::
  "btree_config \<Rightarrow> (u64 \<Rightarrow> btree_hdr) \<Rightarrow> pivot list \<Rightarrow> shape list \<Rightarrow> key \<Rightarrow> nat \<Rightarrow> u64 \<Rightarrow> nat \<Rightarrow> shape list \<Rightarrow> key \<Rightarrow> bool" where
  "aimed_at cfg N' new rs khi m q j vs k \<longleftrightarrow> m < length rs \<and> rs ! m = Index_at q vs \<and>
     aimed cfg N' q vs (next_key (drop (Suc m) (map fst new)) khi) j k"

lemma index_kept_grown:
  assumes lex: "lexical cfg" and t: "hung cfg N A pr nx h (Index_at p ts) lo hi" and hi: "key_short hi"
    and aim: "aimed cfg N p ts hi i k" and k: "key_short k" "key_length k \<le> safe_key_size cfg" and c: "ts ! i = Index_at c us"
  defines "idx \<equiv> fst (btree_find_pivot cfg (N c) k)"
  defines "ps \<equiv> lowered_pivots k idx (node_pivots (N c))"
  assumes part: "index_part cfg (N c) ps (N' c)" and other: "\<And>a. a \<noteq> c \<Longrightarrow> N' a = N a"
  shows "child_grown cfg N A pr nx h p ts hi i N' A [node_pivots (N p) ! i] [Index_at c us]"
    and "tree_tuples N' (Index_at c us) = tree_tuples N (ts ! i)"
    and "aimed cfg N' c us (next_key (drop (Suc i) (pivot_keys (N p))) hi) (nat idx) k"
proof -
  define pl nl khi where d: "pl = last_leaf pr (forest_leaves (take i ts))" "nl = next_leaf (forest_leaves (drop (Suc i) ts)) nx"
    "khi = next_key (drop (Suc i) (pivot_keys (N p))) hi"
  let ?lo = "pivot_keys (N p) ! i"
  have i: "i < length ts" using aim by (simp add: aimed_def)
  note ch = hung_child [OF t i, folded d] and dc = hungD [OF hung_child(1) [OF t i, folded d], unfolded c]
  have ks: "key_short ?lo" "key_short khi"
    using pivot_bounds_short(1) [of i "N p"] pivot_bounds_short(2) [OF hi] pivot_node_i(5) [OF hungD(1) [OF t] i] i by (simp_all only: d(3))
  have bk: "btree_key_compare cfg ?lo k \<le> 0" "btree_key_compare cfg k khi < 0" using aim by (simp_all add: aimed_def d(3))
  note low = lowered_segment [OF lex dc(1) ks k(1) bk, folded idx_def ps_def]
  have node: "index_node cfg (h - 1) (N c)" using dc(1) by simp
  have same: "same_content cfg (N a) (N' a)" if "u \<in> set us" "a \<in> set (addrs u)" for a u
    using other [of a] dc(2) that by (cases "a = c") auto
  have seg: "segment cfg N' (h - 1 - 1) (map fst ps) us khi \<and> map (tree_tuples N') us = map (tree_tuples N) us"
    by (rule subtree_same(2) [OF same low(1)])
  have "subtree cfg N' (h - 1) (Index_at c us) ?lo khi"
    by (rule part_subtree [of _ _ _ _ N' c, OF node part])
      (use seg low dc(1) lowered_small [of "node_pivots (N c)" "safe_key_size cfg" k idx] k(2) in \<open>auto simp: ps_def index_node_def\<close>)
  moreover have "linked N' pl (leaf_addrs (Index_at c us)) nl"
  proof -
    have "N' a = N a" if "a \<in> set (leaf_addrs (Index_at c us))" for a
      using that dc(2) other subsetD [OF forest_leaves_subset, of a us] by (cases "a = c") auto
    then show ?thesis using dc(5) linked_same [of "leaf_addrs (Index_at c us)" N' N pl nl] by simp
  qed
  ultimately have "hung cfg N' A pl nl (h - 1) (Index_at c us) ?lo khi"
    using dc other by (auto simp: hung_def)
  moreover have "grown N A (ts ! i) nl N' A (Index_at c us)" using dc other by (auto simp: grown_def c)
  ultimately show "child_grown cfg N A pr nx h p ts hi i N' A [node_pivots (N p) ! i] [Index_at c us]"
    using child_grown_inside(1) [OF t i] unfolding d by blast
  show "tree_tuples N' (Index_at c us) = tree_tuples N (ts ! i)" using seg by (simp only: c tree_tuples.simps)
  show "aimed cfg N' c us (next_key (drop (Suc i) (pivot_keys (N p))) hi) (nat idx) k"
    using low(3-5) part unfolding aimed_def index_part_def d(3) [symmetric] by simp
qed

text \<open>The parts of a segment that is cut in front of pivot \<open>s\<close>.\<close>

lemma cut_segment:
  assumes lex: "lexical cfg" and seg: "segment cfg N h ks us hi" and short: "\<forall>x \<in> set ks. key_short x" "key_short hi"
    and s: "0 < s" "s < length ks"
  shows "segment cfg N h (take s ks) (take s us) (ks ! s)" and "segment cfg N h (drop s ks) (drop s us) hi"
    and "btree_key_compare cfg (next_key ks hi) (ks ! s) < 0" and "btree_key_compare cfg (ks ! s) hi < 0"
    and "next_key (take s ks) (ks ! s) = next_key ks hi" and "next_key (drop s ks) hi = ks ! s"
    and "j < s \<Longrightarrow> next_key (drop (Suc j) (take s ks)) (ks ! s) = next_key (drop (Suc j) ks) hi"
proof -
  have len: "length ks = length us" by (rule segment_length [OF seg])
  have d: "drop s ks = ks ! s # drop (Suc s) ks" using s(2) by (simp add: Cons_nth_drop_Suc)
  then show nk: "next_key (drop s ks) hi = ks ! s" by simp
  have "segment cfg N h (take s ks @ drop s ks) (take s us @ drop s us) hi" using seg by simp
  then show "segment cfg N h (take s ks) (take s us) (ks ! s)" and "segment cfg N h (drop s ks) (drop s us) hi"
    using len nk segment_append [of "take s ks" "take s us" cfg N h "drop s ks" "drop s us" hi] by simp_all
  note b = segment_key_bounds [OF lex seg short]
  show "btree_key_compare cfg (ks ! s) hi < 0" using b s(2) by simp
  obtain k0 r where k0: "ks = k0 # r" using s(2) by (cases ks) auto
  then show "btree_key_compare cfg (next_key ks hi) (ks ! s) < 0" using b s by (cases s) (simp_all add: keys_sorted_def)
  show "next_key (take s ks) (ks ! s) = next_key ks hi" using s k0 by (cases s) simp_all
  have "drop (Suc j) ks = drop (Suc j) (take s ks) @ drop s ks" if "j < s"
    using that s(2) by (metis Suc_leI append_take_drop_id drop_append diff_is_0_eq' drop_0 length_take min.absorb2 less_imp_le)
  then show "j < s \<Longrightarrow> next_key (drop (Suc j) (take s ks)) (ks ! s) = next_key (drop (Suc j) ks) hi" using nk by simp
qed

lemma index_split_grown:
  assumes lex: "lexical cfg" and t: "hung cfg N A pr nx h (Index_at p ts) lo hi" and hi: "key_short hi"
    and aim: "aimed cfg N p ts hi i k" and k: "key_short k" "key_length k \<le> safe_key_size cfg" and c: "ts ! i = Index_at c us"
  defines "idx \<equiv> fst (btree_find_pivot cfg (N c) k)"
  defines "ps \<equiv> lowered_pivots k idx (node_pivots (N c))" and "khi \<equiv> next_key (drop (Suc i) (pivot_keys (N p))) hi"
  assumes st: "index_split cfg N A p i c ps s right N' A'" and A': "0 \<notin> A'"
  defines "new \<equiv> [node_pivots (N p) ! i, (fst (ps ! s), right, BTREE_PIVOT_STATS_UNKNOWN)]"
    and "rs \<equiv> [Index_at c (take s us), Index_at right (drop s us)]"
  shows "child_grown cfg N A pr nx h p ts hi i N' A' new rs"
    and "concat (map (tree_tuples N') rs) = tree_tuples N (ts ! i)"
    and "nat idx < s \<Longrightarrow> aimed_at cfg N' new rs khi 0 c (nat idx) (take s us) k"
    and "\<not> nat idx < s \<Longrightarrow> aimed_at cfg N' new rs khi 1 right (nat idx - s) (drop s us) k"
proof -
  define pl nl where d: "pl = last_leaf pr (forest_leaves (take i ts))" "nl = next_leaf (forest_leaves (drop (Suc i) ts)) nx"
  let ?lo = "pivot_keys (N p) ! i" and ?ks = "map fst ps"
  note s = st [unfolded index_split_def]
  have i: "i < length ts" using aim by (simp add: aimed_def)
  note ch = hung_child [OF t i, folded d khi_def] and dc = hungD [OF hung_child(1) [OF t i, folded d khi_def], unfolded c]
  note dt = hungD [OF t] and pn = pivot_node_i [OF hungD(1) [OF t] i]
  have ks: "key_short ?lo" "key_short khi"
    using pivot_bounds_short(1) [of i "N p"] pivot_bounds_short(2) [OF hi] pn(5) i by (simp_all only: khi_def)
  have bk: "btree_key_compare cfg ?lo k \<le> 0" "btree_key_compare cfg k khi < 0" using aim by (simp_all add: aimed_def khi_def)
  note low = lowered_segment [OF lex dc(1) ks k(1) bk, folded idx_def ps_def]
  have node: "index_node cfg (h - 1) (N c)" using dc(1) by simp
  have small: "\<forall>x \<in> set ps. key_length (fst x) \<le> safe_key_size cfg"
    using lowered_small [of "node_pivots (N c)" "safe_key_size cfg" k idx] k(2) node by (simp add: ps_def index_node_def)
  have sl: "0 < s" "s < length ?ks" using s by simp_all
  note cut = cut_segment [OF lex low(1) low(6) ks(2) sl]
  have len: "length ps = length us" using segment_length [OF low(1)] by simp
  have cp: "p \<noteq> c" "c \<in> A" "p \<in> A" "right \<noteq> c" "right \<noteq> p" using ch(6) dc(3) dt(3) s c by auto
  have other: "N' a = N a" if "a \<in> set (forest_addrs us)" for a
  proof -
    have "a \<in> A" "a \<noteq> c" using that dc(2,3) by auto
    moreover have "a \<noteq> p" using that ch(6) c by auto
    ultimately show ?thesis using s by blast
  qed
  have seg: "segment cfg N' (h - 1 - 1) (take s ?ks) (take s us) (?ks ! s) \<and> map (tree_tuples N') (take s us) = map (tree_tuples N) (take s us)"
    "segment cfg N' (h - 1 - 1) (drop s ?ks) (drop s us) khi \<and> map (tree_tuples N') (drop s us) = map (tree_tuples N) (drop s us)"
    by (rule subtree_same(2) [OF _ cut(1)], use other in \<open>fastforce dest: in_set_takeD\<close>)
      (rule subtree_same(2) [OF _ cut(2)], use other in \<open>fastforce dest: in_set_dropD\<close>)
  have ca: "map (\<lambda>x. fst (snd x)) ps = map node_addr us" using dc(1) by (simp add: ps_def)
  then have ca': "map (\<lambda>x. fst (snd x)) (take s ps) = map node_addr (take s us)" "map (\<lambda>x. fst (snd x)) (drop s ps) = map node_addr (drop s us)"
    by (metis take_map, metis drop_map)
  have ne: "take s us \<noteq> []" "drop s us \<noteq> []" using sl len by auto
  have kk: "?ks ! s = fst (ps ! s)" "key_short (?ks ! s)" using sl low(6) by (simp_all add: len)
  have sub: "subtree cfg N' (h - 1) (Index_at c (take s us)) ?lo (?ks ! s)"
    by (rule part_subtree [of _ _ _ "take s ps" N' c, OF node])
      (use s small ne(1) ca'(1) seg(1) cut(5) low(2) in \<open>auto simp: take_map dest: in_set_takeD\<close>)
  have sub': "subtree cfg N' (h - 1) (Index_at right (drop s us)) (?ks ! s) khi"
    by (rule part_subtree [of _ _ _ "drop s ps" N' right, OF node])
      (use s small ne(2) ca'(2) seg(2) cut(6) lex_self [OF lex kk(2)] in \<open>auto simp: drop_map dest: in_set_dropD\<close>)
  have lt: "btree_key_compare cfg ?lo (?ks ! s) < 0"
    by (rule lex_le_less_trans [OF lex ks(1) _ kk(2) low(2) cut(3)]) (rule next_key_short [OF low(6) ks(2)])
  have nodep: "index_node cfg h (N' p)"
    using s dt(1) small by (auto simp: index_node_def index_ok_def hdr_links_def dest: in_set_takeD in_set_dropD)
  have fl: "forest_leaves rs = leaf_addrs (ts ! i)" and fa: "set (forest_addrs rs) = insert right (set (addrs (ts ! i)))"
    by (simp add: rs_def c flip: concat_append map_append)
      (simp add: rs_def c, metis append_take_drop_id set_append UN_Un insert_commute)
  show "concat (map (tree_tuples N') rs) = tree_tuples N (ts ! i)"
    using conjunct2 [OF seg(1)] conjunct2 [OF seg(2)]
    by (simp add: rs_def c del: map_eq_conv flip: concat_append map_append)
  have dis: "distinct (forest_addrs rs)"
  proof -
    have "distinct (c # right # forest_addrs (take s us @ drop s us))" using dc(2,3) s cp(4) by auto
    then show ?thesis unfolding rs_def by (auto simp del: append_take_drop_id)
  qed
  have link: "linked N' pl (forest_leaves rs) nl"
  proof -
    have "N' a = N a" if "a \<in> set (leaf_addrs (ts ! i))" for a
      using that other subsetD [OF forest_leaves_subset, of a us] by (simp add: c)
    then show ?thesis using dc(5) linked_same [of "leaf_addrs (ts ! i)" N' N pl nl] by (simp add: fl c)
  qed
  have frame: "N' a = (if a = nl then (N a)\<lparr>prev_addr := last (forest_leaves rs)\<rparr> else N a)"
    if "a \<in> A" "a \<notin> set (addrs (ts ! i))" "a \<noteq> p" for a
  proof -
    have "N' a = N a" using s that c by auto
    moreover have "prev_addr (N a) = last (forest_leaves rs)" if "a = nl" using dc(7) \<open>a \<in> A\<close> that by (simp add: fl c)
    ultimately show ?thesis by simp
  qed
  have "segment cfg N' (h - 1) (map fst new) rs khi"
    using sub sub' lt cut(4) kk pn(2) by (simp add: new_def rs_def)
  then show "child_grown cfg N A pr nx h p ts hi i N' A' new rs"
    unfolding child_grown_def Let_def d [symmetric]
    using nodep s pn(3,4) A' dis fa link fl frame by (auto simp: khi_def new_def rs_def c)
  show "nat idx < s \<Longrightarrow> aimed_at cfg N' new rs khi 0 c (nat idx) (take s us) k"
    using s low(3-5) cut(7) kk(1) by (simp add: aimed_at_def aimed_def rs_def new_def index_part_def take_map [symmetric])
  show "\<not> nat idx < s \<Longrightarrow> aimed_at cfg N' new rs khi 1 right (nat idx - s) (drop s us) k"
    using s low(3-5) len by (simp add: aimed_at_def aimed_def rs_def new_def index_part_def drop_map [symmetric] Suc_diff_le)
qed

end
