(* ===== verification/BtInsert.thy ===== *)
theory BtInsert
  imports BtDescend
begin

text \<open>
  \<open>btree_insert\<close> on trees: the descent from an index node with room for a pivot puts the tuple into
  the ordered list of its subtree, whatever it splits on the way; a refused claim or a lack of
  memory leaves the list as it was.
\<close>

section \<open>How an attempt ends\<close>

primrec attempt_state :: "'a bt_attempt \<Rightarrow> 'a bt_state" where
  "attempt_state (Start_over st) = st"
| "attempt_state (Return rc gen unique st) = st"

text \<open>Starting over has used up a refusal.\<close>

definition progress :: "'a bt_state \<Rightarrow> 'a bt_attempt \<Rightarrow> bool" where
  "progress st r \<longleftrightarrow> (case r of Start_over st' \<Rightarrow> refused st st' | Return rc gen unique st' \<Rightarrow> later st st')"

text \<open>The list \<open>ts\<close> has become \<open>ts'\<close>.\<close>

definition attempt_ok :: "btree_config \<Rightarrow> key \<Rightarrow> message \<Rightarrow> (key \<times> message) list \<Rightarrow> 'a bt_attempt \<Rightarrow> (key \<times> message) list \<Rightarrow> bool" where
  "attempt_ok cfg k msg ts r ts' \<longleftrightarrow>
     (case r of Start_over st' \<Rightarrow> ts' = ts
      | Return rc gen unique st' \<Rightarrow>
          rc = STATUS_OK \<and> gen \<noteq> None \<and> unique = Some (\<not> has_key cfg k ts) \<and> ts' = inserted cfg k msg ts \<or>
          rc = STATUS_NO_MEMORY \<and> gen = None \<and> unique = None \<and> ts' = ts)"

lemma attempt_ok_middle:
  assumes "\<forall>t \<in> set xs. btree_key_compare cfg (fst t) k < 0" and "\<forall>t \<in> set zs. 0 < btree_key_compare cfg (fst t) k"
    and "attempt_ok cfg k msg ys r ys'"
  shows "attempt_ok cfg k msg (xs @ ys @ zs) r (xs @ ys' @ zs)"
  using assms(3) upsert_middle [of xs "btree_key_compare cfg" k, OF assms(1,2)] has_key_middle [OF assms(1,2)]
  by (auto simp: attempt_ok_def split: bt_attempt.splits)

lemma progress_from: "only_answers st st1 \<or> later st st1 \<Longrightarrow> progress st1 r \<Longrightarrow> progress st r"
  using later_trans later_refused(1) by (auto simp: progress_def only_answers_def split: bt_attempt.splits)

lemma hung_same_on:
  assumes t: "hung cfg N A pr nx h t lo hi" and same: "same_on A N N'" and A': "A \<subseteq> A'" "0 \<notin> A'"
  shows "hung cfg N' A' pr nx h t lo hi" and "grown N A t nx N' A' t" and "tree_tuples N' t = tree_tuples N t"
proof -
  note d = hungD [OF t]
  have e: "N' a = N a" if "a \<in> A" for a using same that by (simp add: same_on_def)
  have "subtree cfg N' h t lo hi \<and> tree_tuples N' t = tree_tuples N t"
    by (rule subtree_same(1) [OF _ d(1)]) (use e d(3) in auto)
  moreover have "linked N' pr (leaf_addrs t) nx"
    using linked_same [of "leaf_addrs t" N' N pr nx] e d(3,5) subsetD [OF leaf_addrs_subset] by (metis subsetD)
  moreover have "prev_addr (N' nx) = last (leaf_addrs t)" if "nx \<noteq> 0" using d(7,8) e [of nx] that by auto
  ultimately show "hung cfg N' A' pr nx h t lo hi" "tree_tuples N' t = tree_tuples N t"
    using d A' by (auto simp: hung_def)
  show "grown N A t nx N' A' t" using d(7) e A'(1) by (auto simp: grown_def)
qed

section \<open>A step on trees\<close>

lemma aimed_within:
  assumes lex: "lexical cfg" and t: "subtree cfg N h (Index_at q vs) lo hi" and short: "key_short lo" "key_short hi" "key_short k"
    and aim: "aimed cfg N q vs hi j k"
  shows "btree_key_compare cfg lo k \<le> 0" and "btree_key_compare cfg k hi < 0"
proof -
  let ?ks = "pivot_keys (N q)"
  have seg: "segment cfg N (h - 1) ?ks vs hi" and lo: "btree_key_compare cfg lo (next_key ?ks hi) \<le> 0" using t by simp_all
  note b = segment_key_bounds [OF lex seg pivots_short short(2)]
  have "j < length ?ks" using aim segment_length [OF seg] by (simp add: aimed_def)
  then have j: "?ks ! j \<in> set ?ks" by (rule nth_mem)
  then have js: "key_short (?ks ! j)" using pivots_short by blast
  have first: "key_short (next_key ?ks hi)" by (rule next_key_short [OF pivots_short short(2)])
  have le: "btree_key_compare cfg (?ks ! j) k \<le> 0" "btree_key_compare cfg k (next_key (drop (Suc j) ?ks) hi) < 0"
    using aim by (simp_all add: aimed_def)
  have "btree_key_compare cfg lo (?ks ! j) \<le> 0" using lex_trans [OF lex short(1) first js lo] b j by blast
  then show "btree_key_compare cfg lo k \<le> 0" using lex_trans [OF lex short(1) js short(3)] le(1) by blast
  show "btree_key_compare cfg k hi < 0"
  proof (cases "drop (Suc j) ?ks")
    case (Cons x xs)
    then have "x \<in> set ?ks" by (metis in_set_dropD list.set_intros(1))
    then have "btree_key_compare cfg x hi \<le> 0" "key_short x" using b pivots_short by fastforce+
    then show ?thesis using lex_less_trans [OF lex short(3) _ short(2), of x] le(2) Cons by simp
  qed (use le(2) in simp)
qed

lemma index_step_tree:
  assumes lex: "lexical cfg" and t: "hung cfg N A pr nx h (Index_at p ts) lo hi" and hi: "key_short hi"
    and aim: "aimed cfg N p ts hi i k" and k: "key_short k" "key_length k \<le> safe_key_size cfg" and c: "ts ! i = Index_at c us"
    and st: "index_step cfg N A p i c (lowered_pivots k (fst (btree_find_pivot cfg (N c) k)) (node_pivots (N c)))
      (nat (fst (btree_find_pivot cfg (N c) k))) N' A' q j" and A': "0 \<notin> A'"
  shows "\<exists>us i1 vs. hung cfg N' A' pr nx h (Index_at p us) lo hi \<and> grown N A (Index_at p ts) nx N' A' (Index_at p us) \<and>
    tree_tuples N' (Index_at p us) = tree_tuples N (Index_at p ts) \<and>
    i1 < length us \<and> us ! i1 = Index_at q vs \<and> aimed cfg N' q vs (next_key (drop (Suc i1) (pivot_keys (N' p))) hi) j k \<and>
    aimed cfg N' p us hi i1 k"
proof -
  let ?khi = "next_key (drop (Suc i) (pivot_keys (N p))) hi"
  have i: "i < length ts" using aim by (simp add: aimed_def)
  note pn = pivot_node_i [OF hungD(1) [OF t] i]
  have "\<exists>new rs m vs. child_grown cfg N A pr nx h p ts hi i N' A' new rs \<and>
      concat (map (tree_tuples N') rs) = tree_tuples N (ts ! i) \<and> aimed_at cfg N' new rs ?khi m q j vs k"
    using st
  proof (cases rule: index_step_cases)
    case Kept
    note g = index_kept_grown [OF lex t hi aim k c Kept(4,5)]
    have "aimed_at cfg N' [node_pivots (N p) ! i] [Index_at c us] ?khi 0 q j us k"
      using g(3) Kept(1,2) by (simp add: aimed_at_def)
    then show ?thesis using g(1,2) Kept(3) by (intro exI [of _ "[node_pivots (N p) ! i]"] exI [of _ "[Index_at c us]"]) auto
  next
    case (Split s right)
    note g = index_split_grown [OF lex t hi aim k c Split(1) A']
    show ?thesis
    proof (cases "nat (fst (btree_find_pivot cfg (N c) k)) < s")
      case True
      then have "q = c" "j = nat (fst (btree_find_pivot cfg (N c) k))" using Split(2) by simp_all
      then show ?thesis using g(1,2) g(3) [OF True] by blast
    next
      case False
      then have "q = right" "j = nat (fst (btree_find_pivot cfg (N c) k)) - s" using Split(2) by simp_all
      then show ?thesis using g(1,2) g(4) [OF False] by blast
    qed
  qed
  then obtain new rs m vs where g: "child_grown cfg N A pr nx h p ts hi i N' A' new rs"
    "concat (map (tree_tuples N') rs) = tree_tuples N (ts ! i)" "aimed_at cfg N' new rs ?khi m q j vs k" by blast
  let ?us = "take i ts @ rs @ drop (Suc i) ts"
  note gd = g(1) [unfolded child_grown_def Let_def] and a = g(3) [unfolded aimed_at_def]
  have len: "length new = length rs" using gd by (metis length_map)
  have pk: "pivot_keys (N' p) = take i (pivot_keys (N p)) @ map fst new @ drop (Suc i) (pivot_keys (N p))"
    using gd by (simp add: take_map drop_map)
  have n: "drop (Suc (i + m)) (pivot_keys (N' p)) = drop (Suc m) (map fst new) @ drop (Suc i) (pivot_keys (N p))"
    "pivot_keys (N' p) ! (i + m) = map fst new ! m"
    using i pn(5) a len unfolding pk by (simp_all add: nth_append)
  have tt: "tree_tuples N' (Index_at p ?us) = tree_tuples N (Index_at p ts)"
    using regraft_segment(3) [OF t i g(1)] g(2) by (simp, subst id_take_nth_drop [OF i], simp)
  have im: "i + m < length ?us" "?us ! (i + m) = Index_at q vs" using i a by (auto simp: nth_append)
  have "aimed cfg N' q vs (next_key (drop (Suc (i + m)) (pivot_keys (N' p))) hi) j k" using a by (simp add: n(1))
  moreover from this have "aimed cfg N' p ?us hi (i + m) k"
  proof -
    note r = regraft(1) [OF t i g(1)]
    note ch = hung_child(1) [OF r im(1)] and l = pivot_node_i(5) [OF hungD(1) [OF r] im(1)]
    have "btree_key_compare cfg (pivot_keys (N' p) ! (i + m)) k \<le> 0"
      "btree_key_compare cfg k (next_key (drop (Suc (i + m)) (pivot_keys (N' p))) hi) < 0"
      using aimed_within [OF lex hungD(1) [OF ch, unfolded im(2)] pivot_bounds_short(1) pivot_bounds_short(2) [OF hi] k(1)]
        calculation im(1) l by simp_all
    then show ?thesis using im(1) by (simp add: aimed_def)
  qed
  ultimately show ?thesis using regraft [OF t i g(1)] tt im by blast
qed

section \<open>The descent\<close>

context page_source
begin

definition tree_done ::
  "btree_config \<Rightarrow> key \<Rightarrow> message \<Rightarrow> u64 set \<Rightarrow> u64 \<Rightarrow> u64 \<Rightarrow> nat \<Rightarrow> shape \<Rightarrow> key \<Rightarrow> key \<Rightarrow> 'a bt_state \<Rightarrow> 'a bt_attempt \<Rightarrow> bool" where
  "tree_done cfg k msg A pr nx h t lo hi st r \<longleftrightarrow> progress st r \<and>
     (let N = bt_nodes st; N' = bt_nodes (attempt_state r) in
      \<exists>A' t'. ok (bt_mini (attempt_state r)) A' \<and> hung cfg N' A' pr nx h t' lo hi \<and> grown N A t nx N' A' t' \<and>
        attempt_ok cfg k msg (tree_tuples N t) r (tree_tuples N' t'))"

lemma tree_done_untouched:
  assumes t: "hung cfg (bt_nodes st) A pr nx h t lo hi" and same: "same_on A (bt_nodes st) (bt_nodes (attempt_state r))"
    and A': "ok (bt_mini (attempt_state r)) A'" "A \<subseteq> A'" "0 \<notin> A'"
    and r: "progress st r" "attempt_ok cfg k msg (tree_tuples (bt_nodes st) t) r (tree_tuples (bt_nodes st) t)"
  shows "tree_done cfg k msg A pr nx h t lo hi st r"
  using hung_same_on [OF t same A'(2,3)] A'(1) r unfolding tree_done_def Let_def by metis

lemma leaf_done_tree:
  fixes st :: "'a bt_state"
  defines "N \<equiv> bt_nodes st"
  assumes ins: "insert_ok cfg k msg" and t: "hung cfg N A pr nx h (Index_at p ts) lo hi" and hi: "key_short hi" "key_short k"
    and aim: "aimed cfg N p ts hi i k" and c: "ts ! i = Leaf_at c" and r: "leaf_done cfg k msg A p i c st r"
  shows "tree_done cfg k msg A pr nx h (Index_at p ts) lo hi st r"
proof (cases r)
  case (Start_over st')
  then show ?thesis
    using r by (auto simp: leaf_done_def N_def attempt_ok_def progress_def intro!: tree_done_untouched [OF t [unfolded N_def]])
next
  case (Return rc gen unique st')
  have lex: "lexical cfg" using ins by (simp add: insert_ok_def)
  have i: "i < length ts" using aim by (simp add: aimed_def)
  note d = hungD [OF t] and ar = aimed_around [OF lex hungD(1) [OF t] hi(2,1) aim]
  obtain A' where A': "ok (bt_mini st') A'" "0 \<notin> A'" "later st st'"
    "rc = STATUS_OK \<and> gen \<noteq> None \<and> unique = Some (\<not> has_key cfg k (leaf_tuples (N c))) \<and>
       leaf_step cfg N A p i c (inserted cfg k msg (leaf_tuples (N c))) (bt_nodes st') A' \<or>
     rc = STATUS_NO_MEMORY \<and> gen = None \<and> unique = None \<and> A' = A \<and> bt_nodes st' = N"
    using r Return by (auto simp: leaf_done_def N_def)
  from A'(4) show ?thesis
  proof (elim disjE conjE)
    assume s: "rc = STATUS_OK" "gen \<noteq> None" "unique = Some (\<not> has_key cfg k (leaf_tuples (N c)))"
      "leaf_step cfg N A p i c (inserted cfg k msg (leaf_tuples (N c))) (bt_nodes st') A'"
    obtain new rs where g: "child_grown cfg N A pr nx h p ts hi i (bt_nodes st') A' new rs"
      "concat (map (tree_tuples (bt_nodes st')) rs) = inserted cfg k msg (tree_tuples N (ts ! i))"
      using leaf_step_grown [OF ins t hi(1) aim c s(4) A'(2)] by blast
    have "attempt_ok cfg k msg (tree_tuples N (ts ! i)) r (concat (map (tree_tuples (bt_nodes st')) rs))"
      using s g(2) by (simp add: attempt_ok_def Return c)
    note m = attempt_ok_middle [OF ar(1,2) this, folded ar(3) regraft_segment(3) [OF t i g(1)]]
    have e: "attempt_state r = st'" "progress st r" using A'(3) by (simp_all add: Return progress_def)
    show ?thesis
      unfolding tree_done_def Let_def e(1) using m regraft [OF t i g(1)] A'(1) e(2) unfolding N_def by blast
  next
    assume s: "rc = STATUS_NO_MEMORY" "gen = None" "unique = None" "A' = A" "bt_nodes st' = N"
    show ?thesis
      by (rule tree_done_untouched [OF t [unfolded N_def], where A' = A'])
        (use s A' in \<open>auto simp: Return same_on_def N_def progress_def attempt_ok_def\<close>)
  qed
qed

text \<open>What happened to child \<open>i\<close> happened to the whole.\<close>

lemma tree_done_inside:
  fixes st :: "'a bt_state"
  defines "N \<equiv> bt_nodes st"
  assumes lex: "lexical cfg" and t: "hung cfg N A pr nx h (Index_at p ts) lo hi" and hi: "key_short hi" "key_short k"
    and aim: "aimed cfg N p ts hi i k"
    and r: "tree_done cfg k msg A (last_leaf pr (forest_leaves (take i ts))) (next_leaf (forest_leaves (drop (Suc i) ts)) nx)
      (h - 1) (ts ! i) (pivot_keys (N p) ! i) (next_key (drop (Suc i) (pivot_keys (N p))) hi) st r"
  shows "tree_done cfg k msg A pr nx h (Index_at p ts) lo hi st r"
proof -
  let ?N' = "bt_nodes (attempt_state r)"
  have i: "i < length ts" using aim by (simp add: aimed_def)
  note ar = aimed_around [OF lex hungD(1) [OF t] hi(2,1) aim]
  obtain A' t' where A': "ok (bt_mini (attempt_state r)) A'" "progress st r"
    "hung cfg ?N' A' (last_leaf pr (forest_leaves (take i ts))) (next_leaf (forest_leaves (drop (Suc i) ts)) nx)
      (h - 1) t' (pivot_keys (N p) ! i) (next_key (drop (Suc i) (pivot_keys (N p))) hi)"
    "grown N A (ts ! i) (next_leaf (forest_leaves (drop (Suc i) ts)) nx) ?N' A' t'"
    "attempt_ok cfg k msg (tree_tuples N (ts ! i)) r (tree_tuples ?N' t')"
    using r unfolding tree_done_def Let_def N_def by blast
  note g = child_grown_inside(1) [OF t i A'(3,4)]
  have "attempt_ok cfg k msg (tree_tuples N (ts ! i)) r (concat (map (tree_tuples ?N') [t']))" using A'(5) by simp
  note m = attempt_ok_middle [OF ar(1,2) this, folded ar(3) regraft_segment(3) [OF t i g]]
  show ?thesis
    unfolding tree_done_def Let_def using m regraft [OF t i g] A'(1,2) unfolding N_def by blast
qed

text \<open>Steps one after the other.\<close>

lemma tree_done_after:
  assumes g: "grown (bt_nodes st) A t nx (bt_nodes st1) A1 t1" and l: "later st st1"
    and same: "tree_tuples (bt_nodes st1) t1 = tree_tuples (bt_nodes st) t"
    and r: "tree_done cfg k msg A1 pr nx h t1 lo hi st1 r"
  shows "tree_done cfg k msg A pr nx h t lo hi st r"
  using r grown_trans [OF g] progress_from [of st st1 r] l unfolding tree_done_def Let_def same by metis

lemma leaf_child_ready:
  assumes ins: "insert_ok cfg k msg" and t: "hung cfg N A pr nx h (Index_at p ts) lo hi"
    and i: "i < length ts" and c: "ts ! i = Leaf_at c" and takes: "takes_pivot (safe_key_size cfg) (N p)"
  shows "leaf_ready cfg k msg A p i c N"
proof -
  note d = hungD [OF t] and ch = hung_child [OF t i]
  note dc = hungD [OF ch(1), unfolded c, simplified] and pn = pivot_node_i [OF hungD(1) [OF t] i]
  have P: "1024 \<le> bt_page_size cfg" using ins config_page_size by (simp add: insert_ok_def)
  have "index_ok cfg (N p)" using d(1) index_node_ok(1) [OF P, of h "N p"] by simp
  moreover have "next_addr (N c) \<noteq> p" "next_addr (N c) \<noteq> c" using dc(5,6) ch(5) by auto
  ultimately show ?thesis
    using ins d(3,4) dc ch(6) c takes i pn(5) by (auto simp: leaf_ready_def)
qed

lemma descend_done:
  assumes ins: "insert_ok cfg k msg" and k: "key_short k"
  shows "hung cfg (bt_nodes st) A pr nx (Suc h) (Index_at p ts) lo hi \<Longrightarrow> key_short hi \<Longrightarrow>
    aimed cfg (bt_nodes st) p ts hi i k \<Longrightarrow> takes_pivot (safe_key_size cfg) (bt_nodes st p) \<Longrightarrow>
    ok (bt_mini st) A \<Longrightarrow> fits fails h \<Longrightarrow>
    sat fails (tree_done cfg k msg A pr nx (Suc h) (Index_at p ts) lo hi st) (btree_insert_descend cfg al k msg (Suc h) p i st)"
proof (induction h arbitrary: A pr nx p ts lo hi i st)
  case 0
  note t = 0(1) and hi = 0(2) and aim = 0(3)
  have i: "i < length ts" using aim by (simp add: aimed_def)
  have "subtree cfg (bt_nodes st) 0 (ts ! i) (pivot_keys (bt_nodes st p) ! i) (next_key (drop (Suc i) (pivot_keys (bt_nodes st p))) hi)"
    using hungD(1) [OF hung_child(1) [OF t i]] by simp
  then obtain c where c: "ts ! i = Leaf_at c" by (cases "ts ! i") (auto simp: index_node_def)
  have addr: "btree_get_child_addr (bt_nodes st p) i = c"
    using pivot_node_i(3,5) [OF hungD(1) [OF t] i] i c by (simp add: btree_get_child_addr_def index_entry_reads nth_node_pivots)
  have "sat fails (leaf_done cfg k msg A p i c st) (btree_insert_leaf cfg al k msg p i c st)"
    by (rule insert_leaf_done [OF leaf_child_ready [OF ins t i c 0(4)] 0(5)])
  then show ?case
    using leaf_done_tree [OF ins t hi k aim c] addr by (auto elim: sat_mono)
next
  case (Suc h)
  let ?N = "bt_nodes st"
  note t = Suc.prems(1) and hi = Suc.prems(2) and aim = Suc.prems(3)
  have cfg: "lexical cfg" "key_length k \<le> safe_key_size cfg" "1024 \<le> bt_page_size cfg"
    using ins config_page_size by (simp_all add: insert_ok_def tuple_small_def)
  have i: "i < length ts" using aim by (simp add: aimed_def)
  note ch = hung_child [OF t i] and pn = pivot_node_i [OF hungD(1) [OF t] i] and d = hungD [OF t]
  obtain c us where c: "ts ! i = Index_at c us" using hungD(1) [OF ch(1)] by (cases "ts ! i") auto
  note dc = hungD [OF ch(1), unfolded c]
  let ?idx = "fst (btree_find_pivot cfg (?N c) k)"
  have addr: "btree_get_child_addr (?N p) i = c"
    using pn(3,5) i c by (simp add: btree_get_child_addr_def index_entry_reads nth_node_pivots)
  have khi: "key_short (next_key (drop (Suc i) (pivot_keys (?N p))) hi)" by (rule pivot_bounds_short(2) [OF hi])
  have below: "btree_key_compare cfg k (next_key (drop (Suc i) (pivot_keys (?N p))) hi) < 0" using aim by (simp add: aimed_def)
  note f = followed_child [OF cfg(1) dc(1) khi k below] and n = index_node_sorted [OF cfg(1) dc(1) khi]
  have node: "index_node cfg (Suc h) (?N c)" "fits fails (Suc h)" using dc(1) Suc.prems(6) by simp_all
  have pc: "p \<in> A" "c \<in> A" "p \<noteq> c" using d(3) dc(3) ch(6) c by auto
  have idx: "nat ?idx < btree_num_entries (?N c)" using f(1) by simp
  have parent: "index_ok cfg (?N p)" "i < btree_num_entries (?N p)" using d(1) index_node_ok(1) [OF cfg(3), of "Suc (Suc h)" "?N p"] pn(5) i by simp_all
  note step = insert_step_result [OF cfg(3,2) Suc.prems(5) d(4) pc node n(3) parent(1) Suc.prems(4) parent(2) idx]
  show ?case
    unfolding btree_insert_descend.simps addr
  proof (rule sat_obind [OF step])
    fix r :: "'a bt_state + u64 \<times> nat \<times> 'a bt_state"
    let ?done = "tree_done cfg k msg A pr nx (Suc (Suc h)) (Index_at p ts) lo hi st"
    assume r: "case r of Inl st' \<Rightarrow> bt_nodes st' = ?N \<and> bt_mini st' = bt_mini st \<and> refused st st'
      | Inr (q, j, st') \<Rightarrow> later st st' \<and> (\<exists>A'. ok (bt_mini st') A' \<and> 0 \<notin> A' \<and>
          index_step cfg ?N A p i c (lowered_pivots k ?idx (node_pivots (?N c))) (nat ?idx) (bt_nodes st') A' q j \<and>
          takes_pivot (safe_key_size cfg) (bt_nodes st' q))"
    show "sat fails ?done (case r of Inl st1 \<Rightarrow> Inr (Start_over st1)
      | Inr (parent1, i1, st1) \<Rightarrow> btree_insert_descend cfg al k msg (Suc h) parent1 i1 st1)"
    proof (cases r)
      case (Inl st1)
      have "?done (Start_over st1)"
        by (rule tree_done_untouched [OF t, where A' = A])
          (use r Inl Suc.prems(5) d(4) in \<open>auto simp: same_on_def progress_def attempt_ok_def\<close>)
      then show ?thesis using Inl by simp
    next
      case (Inr x)
      obtain q j st1 where x: "x = (q, j, st1)" by (cases x)
      obtain A' where A': "ok (bt_mini st1) A'" "0 \<notin> A'" "later st st1" "takes_pivot (safe_key_size cfg) (bt_nodes st1 q)"
        "index_step cfg ?N A p i c (lowered_pivots k ?idx (node_pivots (?N c))) (nat ?idx) (bt_nodes st1) A' q j"
        using r Inr x by auto
      obtain us i1 vs where s: "hung cfg (bt_nodes st1) A' pr nx (Suc (Suc h)) (Index_at p us) lo hi"
        "grown ?N A (Index_at p ts) nx (bt_nodes st1) A' (Index_at p us)"
        "tree_tuples (bt_nodes st1) (Index_at p us) = tree_tuples ?N (Index_at p ts)" "i1 < length us" "us ! i1 = Index_at q vs"
        "aimed cfg (bt_nodes st1) q vs (next_key (drop (Suc i1) (pivot_keys (bt_nodes st1 p))) hi) j k"
        "aimed cfg (bt_nodes st1) p us hi i1 k"
        using index_step_tree [OF cfg(1) t hi aim k cfg(2) c A'(5,2)] by blast
      have h: "hung cfg (bt_nodes st1) A' (last_leaf pr (forest_leaves (take i1 us))) (next_leaf (forest_leaves (drop (Suc i1) us)) nx)
        (Suc h) (Index_at q vs) (pivot_keys (bt_nodes st1 p) ! i1) (next_key (drop (Suc i1) (pivot_keys (bt_nodes st1 p))) hi)"
        using hung_child(1) [OF s(1,4)] s(5) by simp
      have "sat fails (tree_done cfg k msg A' pr nx (Suc (Suc h)) (Index_at p us) lo hi st1)
        (btree_insert_descend cfg al k msg (Suc h) q j st1)"
        by (rule sat_mono [OF Suc.IH [OF h pivot_bounds_short(2) [OF hi] s(6) A'(4,1)]])
          (use tree_done_inside [OF cfg(1) s(1) hi k s(7)] s(5) fits_mono [OF Suc.prems(6)] in simp_all)
      then have "sat fails ?done (btree_insert_descend cfg al k msg (Suc h) q j st1)"
        by (rule sat_mono) (rule tree_done_after [OF s(2) A'(3) s(3)])
      then show ?thesis using Inr x by simp
    qed
  qed
qed

end

end
