(* ===== verification/BtRoot.thy ===== *)
theory BtRoot
  imports BtInsert BtLookup
begin

unbundle bit_operations_syntax

text \<open>
  \<open>btree_insert\<close> as a whole: the root is changed in place, grows when it is full, and the attempts
  come to an end. The tree stands for the ordered list after \<open>upsert\<close>; the only failures are those
  of the allocator of pages.
\<close>

section \<open>The tree at its root\<close>

definition tree_at :: "btree_config \<Rightarrow> (u64 \<Rightarrow> btree_hdr) \<Rightarrow> u64 set \<Rightarrow> u64 \<Rightarrow> shape \<Rightarrow> bool" where
  "tree_at cfg N A root t \<longleftrightarrow> node_addr t = root \<and>
     hung cfg N A 0 0 (unat (height (N root))) t NEGATIVE_INFINITY_KEY POSITIVE_INFINITY_KEY"

lemma tree_at_btree: "tree_at cfg N A root t \<longleftrightarrow> btree_at cfg N root t \<and> set (addrs t) \<subseteq> A \<and> 0 \<notin> A"
  by (auto simp: tree_at_def btree_at_def hung_def)

lemma subtree_height: "subtree cfg N h t lo hi \<Longrightarrow> unat (height (N (node_addr t))) = h"
  by (cases t) (auto simp: leaf_node_def index_node_def)

text \<open>The page of the root stays where it is, other pages of \<open>A\<close> are as they were.\<close>

definition regrown :: "(u64 \<Rightarrow> btree_hdr) \<Rightarrow> u64 set \<Rightarrow> shape \<Rightarrow> (u64 \<Rightarrow> btree_hdr) \<Rightarrow> u64 set \<Rightarrow> shape \<Rightarrow> bool" where
  "regrown N A t N' A' t' \<longleftrightarrow> A \<subseteq> A' \<and> set (addrs t') \<subseteq> set (addrs t) \<union> (A' - A) \<and>
     (\<forall>a \<in> A. a \<notin> set (addrs t) \<longrightarrow> N' a = N a)"

lemma regrown_trans:
  assumes "regrown N A t N1 A1 t1" and "regrown N1 A1 t1 N2 A2 t2"
  shows "regrown N A t N2 A2 t2"
proof -
  have "N2 a = N a" if "a \<in> A" "a \<notin> set (addrs t)" for a
  proof -
    have "a \<in> A1" "a \<notin> set (addrs t1)" "N1 a = N a" using that assms(1) by (auto simp: regrown_def)
    then show ?thesis using assms(2) by (simp add: regrown_def)
  qed
  then show ?thesis using assms by (auto simp: regrown_def)
qed

lemma grown_regrown: "grown N A t 0 N' A' t' \<Longrightarrow> 0 \<notin> A \<Longrightarrow> regrown N A t N' A' t'"
  by (auto simp: grown_def regrown_def)

section \<open>A new level\<close>

text \<open>The old root at its new address.\<close>

fun moved :: "u64 \<Rightarrow> shape \<Rightarrow> shape" where
  "moved a (Leaf_at _) = Leaf_at a"
| "moved a (Index_at _ ts) = Index_at a ts"

lemma moved_addrs: "set (addrs (moved a t)) = insert a (set (addrs t) - {node_addr t})" if "distinct (addrs t)"
  using that by (cases t) auto

lemma raised_tree:
  assumes t: "hung cfg N A 0 0 h t lo hi" and root: "node_addr t = root" and c: "child \<notin> A" "child \<noteq> 0"
    and N': "\<And>a. a \<in> A \<Longrightarrow> a \<noteq> root \<Longrightarrow> N' a = N a" "N' child = N root"
    and node: "index_node cfg (Suc h) (N' root)" "node_pivots (N' root) = [(kk, child, s)]"
    and kk: "subtree cfg N h t kk hi" "btree_key_compare cfg kk hi < 0" "btree_key_compare cfg lo kk \<le> 0"
  shows "hung cfg N' (insert child A) 0 0 (Suc h) (Index_at root [moved child t]) lo hi"
    and "tree_tuples N' (Index_at root [moved child t]) = tree_tuples N t"
    and "regrown N A t N' (insert child A) (Index_at root [moved child t])"
proof -
  note d = hungD [OF t]
  have s: "subtree cfg N' h (moved child t) kk hi \<and> tree_tuples N' (moved child t) = tree_tuples N t"
  proof (cases t)
    case (Leaf_at a)
    then show ?thesis using kk(1) N'(2) root by simp
  next
    case (Index_at a ts)
    then have seg: "segment cfg N (h - 1) (pivot_keys (N root)) ts hi" using kk(1) root by simp
    have "segment cfg N' (h - 1) (pivot_keys (N root)) ts hi \<and> map (tree_tuples N') ts = map (tree_tuples N) ts"
    proof (rule subtree_same(2) [OF _ seg])
      fix a t' assume "t' \<in> set ts" "a \<in> set (addrs t')"
      then have "a \<in> A" "a \<noteq> root" using d(2,3) root Index_at by auto
      then show "same_content cfg (N a) (N' a)" using N'(1) by simp
    qed
    then show ?thesis using kk(1) N'(2) root Index_at by (simp del: map_eq_conv)
  qed
  have dis: "distinct (addrs (moved child t))" "root \<notin> set (addrs (moved child t))" "set (addrs (moved child t)) \<subseteq> insert child A"
    "root \<in> A"
    using d(2,3) c root by (cases t; auto)+
  have "linked N' 0 (leaf_addrs (moved child t)) 0"
  proof (cases t)
    case (Leaf_at a)
    then show ?thesis using d(5) N'(2) root by simp
  next
    case (Index_at a ts)
    have "N' b = N b" if "b \<in> set (forest_leaves ts)" for b
    proof -
      have "b \<in> set (forest_addrs ts)" by (rule subsetD [OF forest_leaves_subset that])
      then show ?thesis using N'(1) [of b] d(2,3) root Index_at by auto
    qed
    then show ?thesis using d(5) linked_same [of "forest_leaves ts" N' N 0 0] Index_at by simp
  qed
  then show "hung cfg N' (insert child A) 0 0 (Suc h) (Index_at root [moved child t]) lo hi"
    using s node kk(2,3) dis c(2) d(4) by (cases t) (auto simp: hung_def)
  show "tree_tuples N' (Index_at root [moved child t]) = tree_tuples N t" using s by simp
  show "regrown N A t N' (insert child A) (Index_at root [moved child t])"
    using N'(1) dis(2) moved_addrs [OF d(2), of child] c(1) root node_addr_in [of t] by (auto simp: regrown_def)
qed

text \<open>The root after its smallest key was lowered where that was needed.\<close>

lemma lowered_root:
  assumes lex: "lexical cfg" and t: "hung cfg N A pr nx h (Index_at root ts) lo hi"
    and short: "key_short lo" "key_short hi" "key_short k" and safe: "key_length k \<le> safe_key_size cfg"
    and k: "btree_key_compare cfg lo k \<le> 0" "btree_key_compare cfg k hi < 0"
  defines "idx \<equiv> fst (btree_find_pivot cfg (N root) k)"
  assumes part: "index_part cfg (N root) (lowered_pivots k idx (node_pivots (N root))) hdr1"
  shows "hung cfg (N(root := hdr1)) A pr nx h (Index_at root ts) lo hi"
    and "tree_tuples (N(root := hdr1)) (Index_at root ts) = tree_tuples N (Index_at root ts)"
    and "aimed cfg (N(root := hdr1)) root ts hi (nat idx) k"
proof -
  let ?N1 = "N(root := hdr1)" and ?ps = "lowered_pivots k idx (node_pivots (N root))"
  note d = hungD [OF t]
  note low = lowered_segment [OF lex d(1) short k, folded idx_def]
  have node: "index_node cfg h (N root)" using d(1) by simp
  have small: "\<forall>x \<in> set ?ps. key_length (fst x) \<le> safe_key_size cfg"
    using lowered_small [of "node_pivots (N root)" "safe_key_size cfg" k idx] safe node by (simp add: index_node_def)
  have seg: "segment cfg ?N1 (h - 1) (map fst ?ps) ts hi \<and> map (tree_tuples ?N1) ts = map (tree_tuples N) ts"
    by (rule subtree_same(2) [OF _ low(1)]) (use d(2) in auto)
  have "subtree cfg ?N1 h (Index_at root ts) lo hi"
    by (rule part_subtree [of _ _ _ ?ps ?N1 root, OF node _ small]) (use part seg low(2) d(1) in auto)
  moreover have "linked ?N1 pr (forest_leaves ts) nx"
  proof -
    have "?N1 b = N b" if "b \<in> set (forest_leaves ts)" for b
      using subsetD [OF forest_leaves_subset that] d(2) by auto
    then show ?thesis using d(5) linked_same [of "forest_leaves ts" ?N1 N pr nx] by simp
  qed
  ultimately show "hung cfg ?N1 A pr nx h (Index_at root ts) lo hi" using d(2-4,6-8) by (auto simp: hung_def)
  show "tree_tuples ?N1 (Index_at root ts) = tree_tuples N (Index_at root ts)"
    using conjunct2 [OF seg] by (simp only: tree_tuples.simps)
  show "aimed cfg ?N1 root ts hi (nat idx) k"
    using low(3-5) part by (simp add: aimed_def index_part_def)
qed

context page_source
begin

lemma grow_root_pages:
  fixes st :: "'a bt_state"
  defines "N \<equiv> bt_nodes st"
  assumes P: "1024 \<le> bt_page_size cfg" "bt_page_size cfg < 65536" and ok: "ok (bt_mini st) A" and root: "root \<in> A"
    and n: "0 < btree_num_entries (N root)" and key: "key_length (first_key (N root)) \<le> safe_key_size cfg"
    and h: "fits fails (unat (height (N root)))"
  shows "sat fails (\<lambda>st'. bt_claims st' = bt_claims st \<and> (\<exists>child. child \<notin> A \<and> child \<noteq> 0 \<and> ok (bt_mini st') (insert child A) \<and>
      (\<forall>a \<in> A. a \<noteq> root \<longrightarrow> bt_nodes st' a = N a) \<and> bt_nodes st' child = N root \<and>
      index_node cfg (Suc (unat (height (N root)))) (bt_nodes st' root) \<and> roomy cfg (bt_nodes st' root) \<and>
      node_pivots (bt_nodes st' root) = [(first_key (N root), child, BTREE_PIVOT_STATS_UNKNOWN)]))
    (grow_root cfg al root st)"
proof -
  have h': "fits fails (unat (btree_height (N root)))" using h by (simp add: btree_height_def)
  note sk = safe_key_size [OF P(1)]
  show ?thesis
  proof (cases "unat (height (N root)) < BTREE_MAX_HEIGHT")
    case False
    then show ?thesis using h by (simp add: grow_root_def btree_alloc_def N_def fits_def btree_height_def)
  next
    case True
    show ?thesis
      unfolding grow_root_def N_def [symmetric]
    proof (rule sat_obind [OF alloc_page [OF ok h']])
      fix x :: "u64 \<times> 'a bt_state"
      assume x: "case x of (a, st') \<Rightarrow> a \<notin> A \<and> a \<noteq> 0 \<and> a AND NOT 0xFFF = a \<and> ok (bt_mini st') (insert a A) \<and>
        (\<exists>page. bt_nodes st' = (bt_nodes st)(a := page)) \<and> bt_claims st' = bt_claims st"
      obtain child st1 where e: "x = (child, st1)" by fastforce
      have c: "child \<notin> A" "child \<noteq> 0" "child AND NOT 0xFFF = child" "ok (bt_mini st1) (insert child A)" "bt_claims st1 = bt_claims st"
        "\<And>a. a \<in> A \<Longrightarrow> bt_nodes st1 a = N a" using x e by (auto simp: N_def)
      have "key_length (first_key (N root)) \<le> MAX_INLINE_KEY_SIZE (bt_page_size cfg)" using key sk(2) by simp
      then obtain root' where g: "btree_grow_root cfg child (N root) = Inr (root', N root)" "index_ok cfg root'"
        "node_pivots root' = [(first_key (N root), child, BTREE_PIVOT_STATS_UNKNOWN)]" "height root' = height (N root) + 1"
        "unat (next_entry root') + 23 + key_length (first_key (N root)) = bt_page_size cfg"
        using grow_root_effect [OF n P(2,1) _ c(3)] by blast
      have one: "btree_num_entries root' = 1" using num_pivots [OF g(3)] by simp
      have "unat (height root') = Suc (unat (height (N root)))"
        using True unfolding g(4) by (subst unat_plus_if') (simp add: BTREE_MAX_HEIGHT_def)
      then have "index_node cfg (Suc (unat (height (N root)))) root'"
        using g(2,3) key by (simp add: index_node_def index_ok_def)
      moreover have "roomy cfg root'"
        using g(5) key sk(1) P(1) by (simp add: roomy_def one table_end_eq)
      moreover have "root \<noteq> child" using c(1) root by auto
      ultimately show "sat fails (\<lambda>st'. bt_claims st' = bt_claims st \<and> (\<exists>child. child \<notin> A \<and> child \<noteq> 0 \<and> ok (bt_mini st') (insert child A) \<and>
          (\<forall>a \<in> A. a \<noteq> root \<longrightarrow> bt_nodes st' a = N a) \<and> bt_nodes st' child = N root \<and>
          index_node cfg (Suc (unat (height (N root)))) (bt_nodes st' root) \<and> roomy cfg (bt_nodes st' root) \<and>
          node_pivots (bt_nodes st' root) = [(first_key (N root), child, BTREE_PIVOT_STATS_UNKNOWN)]))
        (case x of (child, st1) \<Rightarrow> obind (btree_grow_root cfg child (bt_nodes st1 root)) (\<lambda>(root_hdr, child_hdr).
          Inr (set_node root root_hdr (set_node child child_hdr st1))))"
        using c g(1,3) root by (auto simp: e set_node_def)
    qed
  qed
qed

definition root_done :: "btree_config \<Rightarrow> key \<Rightarrow> message \<Rightarrow> u64 set \<Rightarrow> u64 \<Rightarrow> shape \<Rightarrow> 'a bt_state \<Rightarrow> 'a bt_attempt \<Rightarrow> bool" where
  "root_done cfg k msg A root t st r \<longleftrightarrow> progress st r \<and>
     (let N = bt_nodes st; N' = bt_nodes (attempt_state r) in
      \<exists>A' t'. ok (bt_mini (attempt_state r)) A' \<and> tree_at cfg N' A' root t' \<and> regrown N A t N' A' t' \<and>
        attempt_ok cfg k msg (tree_tuples N t) r (tree_tuples N' t') \<and>
        max 1 (unat (height (N' root))) \<le> Suc (max 1 (unat (height (N root)))))"

text \<open>The root is an index node that has room for a pivot, and the child for the key is known.\<close>

definition root_start :: "btree_config \<Rightarrow> key \<Rightarrow> u64 set \<Rightarrow> u64 \<Rightarrow> shape \<Rightarrow> 'a bt_state \<Rightarrow> nat \<times> 'a bt_state \<Rightarrow> bool" where
  "root_start cfg k A root t st x \<longleftrightarrow> later st (snd x) \<and>
     (let N = bt_nodes st; N' = bt_nodes (snd x) in
      \<exists>A' ts. ok (bt_mini (snd x)) A' \<and> tree_at cfg N' A' root (Index_at root ts) \<and> regrown N A t N' A' (Index_at root ts) \<and>
        tree_tuples N' (Index_at root ts) = tree_tuples N t \<and> aimed cfg N' root ts POSITIVE_INFINITY_KEY (fst x) k \<and>
        takes_pivot (safe_key_size cfg) (N' root) \<and> unat (height (N' root)) \<le> Suc (unat (height (N root))))"

lemma root_done_untouched:
  assumes t: "tree_at cfg (bt_nodes st) A root t" and same: "bt_nodes (attempt_state r) = bt_nodes st"
    and ok: "ok (bt_mini (attempt_state r)) A" and r: "progress st r"
      "attempt_ok cfg k msg (tree_tuples (bt_nodes st) t) r (tree_tuples (bt_nodes st) t)"
  shows "root_done cfg k msg A root t st r"
proof -
  have "regrown (bt_nodes st) A t (bt_nodes st) A t" by (simp add: regrown_def)
  then show ?thesis unfolding root_done_def Let_def same using t ok r by (intro conjI exI [of _ A] exI [of _ t]) simp_all
qed

lemma root_start_descend:
  assumes ins: "insert_ok cfg k msg" and k: "key_short k" and x: "root_start cfg k A root t st (i, st4)"
    and h: "fits fails (unat (height (bt_nodes st root)))"
  shows "sat fails (root_done cfg k msg A root t st)
    (btree_insert_descend cfg al k msg (unat (btree_height (bt_nodes st4 root))) root i st4)"
proof -
  let ?N = "bt_nodes st4"
  obtain A' ts where a: "later st st4" "ok (bt_mini st4) A'" "tree_at cfg ?N A' root (Index_at root ts)"
    "regrown (bt_nodes st) A t ?N A' (Index_at root ts)" "tree_tuples ?N (Index_at root ts) = tree_tuples (bt_nodes st) t"
    "aimed cfg ?N root ts POSITIVE_INFINITY_KEY i k" "takes_pivot (safe_key_size cfg) (?N root)"
    "unat (height (?N root)) \<le> Suc (unat (height (bt_nodes st root)))"
    using x by (auto simp: root_start_def Let_def)
  have t: "hung cfg ?N A' 0 0 (unat (height (?N root))) (Index_at root ts) NEGATIVE_INFINITY_KEY POSITIVE_INFINITY_KEY"
    using a(3) by (simp add: tree_at_def)
  then obtain h' where h': "unat (height (?N root)) = Suc h'"
    using hungD(1) [OF t] by (cases "unat (height (?N root))") (simp_all add: index_node_def)
  have "sat fails (tree_done cfg k msg A' 0 0 (Suc h') (Index_at root ts) NEGATIVE_INFINITY_KEY POSITIVE_INFINITY_KEY st4)
      (btree_insert_descend cfg al k msg (Suc h') root i st4)"
    by (rule descend_done [OF ins k t [unfolded h'] infinity_short(2) a(6,7,2) fits_mono [OF h]]) (use a(8) h' in simp)
  then show ?thesis
    unfolding btree_height_def h'
  proof (rule sat_mono)
    fix r :: "'a bt_attempt"
    let ?N' = "bt_nodes (attempt_state r)"
    assume "tree_done cfg k msg A' 0 0 (Suc h') (Index_at root ts) NEGATIVE_INFINITY_KEY POSITIVE_INFINITY_KEY st4 r"
    then obtain A2 t2 where d: "progress st4 r" "ok (bt_mini (attempt_state r)) A2"
      "hung cfg ?N' A2 0 0 (Suc h') t2 NEGATIVE_INFINITY_KEY POSITIVE_INFINITY_KEY" "grown ?N A' (Index_at root ts) 0 ?N' A2 t2"
      "attempt_ok cfg k msg (tree_tuples ?N (Index_at root ts)) r (tree_tuples ?N' t2)"
      unfolding tree_done_def Let_def by blast
    have root: "node_addr t2 = root" using d(4) by (simp add: grown_def)
    have e: "unat (height (?N' root)) = Suc h'" using subtree_height [OF hungD(1) [OF d(3)]] root by simp
    then have "tree_at cfg ?N' A2 root t2" using d(3) root by (simp add: tree_at_def)
    moreover have "max 1 (unat (height (?N' root))) \<le> Suc (max 1 (unat (height (bt_nodes st root))))" using e h' a(8) by simp
    moreover have "regrown (bt_nodes st) A t ?N' A2 t2"
      by (rule regrown_trans [OF a(4) grown_regrown [OF d(4) hungD(4) [OF t]]])
    moreover have "progress st r" by (rule progress_from [OF disjI2 [OF a(1)] d(1)])
    ultimately show "root_done cfg k msg A root t st r"
      unfolding root_done_def Let_def using d(2) d(5) [unfolded a(5)] by blast
  qed
qed

text \<open>The root takes the pivot without growing, or gets a new level first.\<close>

lemma root_start_same:
  assumes t: "hung cfg (bt_nodes st4) A 0 0 (unat (height (bt_nodes st root))) (Index_at root ts) NEGATIVE_INFINITY_KEY POSITIVE_INFINITY_KEY"
    and same: "tree_tuples (bt_nodes st4) (Index_at root ts) = tree_tuples (bt_nodes st) (Index_at root ts)"
    and aim: "aimed cfg (bt_nodes st4) root ts POSITIVE_INFINITY_KEY i k" and takes: "takes_pivot (safe_key_size cfg) (bt_nodes st4 root)"
    and st4: "later st st4" "ok (bt_mini st4) A" "\<And>a. a \<noteq> root \<Longrightarrow> bt_nodes st4 a = bt_nodes st a"
  shows "root_start cfg k A root (Index_at root ts) st (i, st4)"
proof -
  have h: "unat (height (bt_nodes st4 root)) = unat (height (bt_nodes st root))" using subtree_height [OF hungD(1) [OF t]] by simp
  then have "tree_at cfg (bt_nodes st4) A root (Index_at root ts)" using t by (simp add: tree_at_def)
  moreover have "regrown (bt_nodes st) A (Index_at root ts) (bt_nodes st4) A (Index_at root ts)" using st4(3) by (simp add: regrown_def)
  ultimately show ?thesis
    unfolding root_start_def Let_def fst_conv snd_conv using st4(1,2) same aim takes h by (intro conjI exI [of _ A] exI [of _ ts]) simp_all
qed

lemma root_start_raised:
  assumes lex: "lexical cfg" and t: "tree_at cfg N1 A root t" and st1: "\<And>a. a \<in> A \<Longrightarrow> a \<noteq> root \<Longrightarrow> N1 a = bt_nodes st a"
      "tree_tuples N1 t = tree_tuples (bt_nodes st) t" "height (N1 root) = height (bt_nodes st root)"
    and kk: "subtree cfg N1 (unat (height (N1 root))) t kk POSITIVE_INFINITY_KEY" "btree_key_compare cfg kk k \<le> 0" "key_is_user_key k"
      "btree_key_compare cfg kk POSITIVE_INFINITY_KEY < 0" "btree_key_compare cfg NEGATIVE_INFINITY_KEY kk \<le> 0"
    and child: "child \<notin> A" "child \<noteq> 0" "ok (bt_mini st4) (insert child A)" "later st st4"
    and N4: "\<And>a. a \<in> A \<Longrightarrow> a \<noteq> root \<Longrightarrow> bt_nodes st4 a = N1 a" "bt_nodes st4 child = N1 root"
      "index_node cfg (Suc (unat (height (N1 root)))) (bt_nodes st4 root)" "node_pivots (bt_nodes st4 root) = [(kk, child, s)]"
      "takes_pivot (safe_key_size cfg) (bt_nodes st4 root)"
  shows "root_start cfg k A root t st (0, st4)"
proof -
  have h: "hung cfg N1 A 0 0 (unat (height (N1 root))) t NEGATIVE_INFINITY_KEY POSITIVE_INFINITY_KEY" "node_addr t = root"
    using t by (simp_all add: tree_at_def)
  note r = raised_tree [OF h child(1,2) N4(1-4) kk(1,4,5)]
  have "unat (height (bt_nodes st4 root)) = Suc (unat (height (N1 root)))" using subtree_height [OF hungD(1) [OF r(1)]] by simp
  then have tr: "tree_at cfg (bt_nodes st4) (insert child A) root (Index_at root [moved child t])" using r(1) by (simp add: tree_at_def)
  have "node_addr t \<in> set (addrs t)" by (rule node_addr_in)
  then have "regrown (bt_nodes st) A t N1 A t" using st1(1) h(2) by (auto simp: regrown_def)
  then have rg: "regrown (bt_nodes st) A t (bt_nodes st4) (insert child A) (Index_at root [moved child t])"
    by (rule regrown_trans [OF _ r(3)])
  have "aimed cfg (bt_nodes st4) root [moved child t] POSITIVE_INFINITY_KEY 0 k"
    using kk(2,3) N4(4) by (simp add: aimed_def)
  then show ?thesis
    unfolding root_start_def Let_def fst_conv snd_conv
    using tr rg child(3,4) r(2) st1(2,3) N4(5) \<open>unat (height (bt_nodes st4 root)) = Suc (unat (height (N1 root)))\<close>
    by (intro conjI exI [of _ "insert child A"] exI [of _ "[moved child t]"]) simp_all
qed

end

end
