(* ===== verification/BtAttempt.thy ===== *)
theory BtAttempt
  imports BtRoot
begin

unbundle bit_operations_syntax

text \<open>
  Whole insertions: an attempt from a root that is a leaf or an index node, the loop of the attempts,
  which ends because every new attempt has used up a refusal, and \<open>btree_insert\<close> itself.
\<close>

section \<open>A root that is an index node\<close>

text \<open>The smallest key of the root once it is lowered: the key, or the first pivot that was there.\<close>

lemma root_lowered:
  assumes ins: "insert_ok cfg k msg" and k: "key_short k" and t: "tree_at cfg N A root (Index_at root ts)"
  defines "idx \<equiv> fst (btree_find_pivot cfg (N root) k)"
  assumes low: "need \<longrightarrow> idx < 0 \<and> hdr1 = N root"
      "\<not> need \<longrightarrow> index_wf cfg hdr1 \<and> hdr_links hdr1 = hdr_links (N root) \<and> node_pivots hdr1 = lowered_pivots k idx (node_pivots (N root))"
  defines "N1 \<equiv> N(root := hdr1)" and "kk \<equiv> if need then k else fst (node_pivots hdr1 ! 0)"
  shows "tree_at cfg N1 A root (Index_at root ts)" and "height hdr1 = height (N root)" and "0 < btree_num_entries hdr1"
    and "tree_tuples N1 (Index_at root ts) = tree_tuples N (Index_at root ts)"
    and "\<not> need \<Longrightarrow> aimed cfg N1 root ts POSITIVE_INFINITY_KEY (nat idx) k"
    and "subtree cfg N1 (unat (height (N1 root))) (Index_at root ts) kk POSITIVE_INFINITY_KEY"
    and "btree_key_compare cfg kk k \<le> 0" and "btree_key_compare cfg kk POSITIVE_INFINITY_KEY < 0"
    and "btree_key_compare cfg NEGATIVE_INFINITY_KEY kk \<le> 0"
proof -
  let ?h = "unat (height (N root))"
  have lex: "lexical cfg" and user: "key_is_user_key k" and safe: "key_length k \<le> safe_key_size cfg"
    using ins by (simp_all add: insert_ok_def tuple_small_def)
  have H: "hung cfg N A 0 0 ?h (Index_at root ts) NEGATIVE_INFINITY_KEY POSITIVE_INFINITY_KEY" using t by (simp add: tree_at_def)
  have b: "btree_key_compare cfg NEGATIVE_INFINITY_KEY k \<le> 0" "btree_key_compare cfg k POSITIVE_INFINITY_KEY < 0"
    using user_key_below [OF user, of cfg] by simp_all
  note low1 = lowered_root [OF lex H infinity_short k safe b, folded idx_def]
  have h1: "height hdr1 = height (N root)" using low by (cases need) (simp_all add: hdr_links_def)
  have all: "hung cfg N1 A 0 0 ?h (Index_at root ts) NEGATIVE_INFINITY_KEY POSITIVE_INFINITY_KEY \<and>
    tree_tuples N1 (Index_at root ts) = tree_tuples N (Index_at root ts) \<and>
    (\<not> need \<longrightarrow> aimed cfg N1 root ts POSITIVE_INFINITY_KEY (nat idx) k)"
  proof (cases need)
    case True
    then show ?thesis using H low(1) by (simp add: N1_def fun_upd_idem)
  next
    case False
    then have "index_part cfg (N root) (lowered_pivots k idx (node_pivots (N root))) hdr1"
      using low(2) h1 by (simp add: index_part_def)
    then show ?thesis using low1 by (simp only: N1_def) simp
  qed
  show "height hdr1 = height (N root)" by (rule h1)
  show "tree_at cfg N1 A root (Index_at root ts)" using all h1 by (simp add: tree_at_def N1_def)
  show "tree_tuples N1 (Index_at root ts) = tree_tuples N (Index_at root ts)"
    and aim: "\<not> need \<Longrightarrow> aimed cfg N1 root ts POSITIVE_INFINITY_KEY (nat idx) k" using all by blast+
  note S = hungD(1) [OF conjunct1 [OF all]]
  have N1r: "N1 root = hdr1" by (simp add: N1_def)
  show n: "0 < btree_num_entries hdr1" using index_node_sorted(3) [OF lex S infinity_short(2)] N1r by simp
  let ?k0 = "fst (node_pivots hdr1 ! 0)"
  have first: "next_key (pivot_keys hdr1) POSITIVE_INFINITY_KEY = ?k0"
    using n by (cases "node_pivots hdr1") (auto dest: num_pivots)
  have k0: "?k0 = pivot_keys (N1 root) ! 0" "key_short ?k0"
    using n pivot_bounds_short(1) [of 0 hdr1] by (simp_all add: N1r)
  have S0: "subtree cfg N1 ?h (Index_at root ts) ?k0 POSITIVE_INFINITY_KEY"
    using S first N1r lex_self [OF lex k0(2)] by simp
  have le: "btree_key_compare cfg kk k \<le> 0 \<and> (need \<longrightarrow> btree_key_compare cfg kk ?k0 \<le> 0)"
  proof (cases need)
    case True
    then have "idx < 0" "hdr1 = N root" using low(1) by simp_all
    then show ?thesis
      using True followed_child(3) [OF lex hungD(1) [OF H] infinity_short(2) k b(2)] lex_self [OF lex k] k0(1)
      by (simp add: idx_def kk_def N1r)
  next
    case False
    show ?thesis
      using aimed_within(1) [OF lex S0 k0(2) infinity_short(2) k aim [OF False]] False by (simp add: kk_def)
  qed
  then show "btree_key_compare cfg kk k \<le> 0" by blast
  have short: "key_short kk" using k k0(2) by (simp add: kk_def)
  show "subtree cfg N1 (unat (height (N1 root))) (Index_at root ts) kk POSITIVE_INFINITY_KEY"
    using S0 subtree_lo [OF lex S0 _ short k0(2) infinity_short(2)] le h1 by (cases need) (simp_all add: N1r kk_def)
  show "btree_key_compare cfg kk POSITIVE_INFINITY_KEY < 0"
    by (rule lex_le_less_trans [OF lex short k infinity_short(2) _ b(2)]) (use le in blast)
  show "btree_key_compare cfg NEGATIVE_INFINITY_KEY kk \<le> 0"
    using S first b(1) N1r by (cases need) (simp_all add: kk_def)
qed

context page_source
begin

text \<open>The root with room for a pivot, after \<open>lower_min_key\<close>.\<close>

definition root_room :: "btree_config \<Rightarrow> key \<Rightarrow> u64 \<Rightarrow> nat \<Rightarrow> bool \<Rightarrow> 'a bt_state \<Rightarrow> (nat \<times> 'a bt_state) outcome" where
  "root_room cfg k root i need st2 =
     obind (if btree_index_is_full cfg (bt_nodes st2 root) then obind (grow_root cfg al root st2) (\<lambda>st. Inr (0, st)) else Inr (i, st2))
       (\<lambda>(i, st3). obind (finish_min_key need (bt_nodes st3 root) k) (\<lambda>hdr2. Inr (i, set_node root hdr2 st3)))"

lemma root_room_start:
  assumes ins: "insert_ok cfg k msg" and k: "key_short k" and t: "tree_at cfg (bt_nodes st) A root (Index_at root ts)"
    and ok: "ok (bt_mini st) A" and h: "fits fails (unat (height (bt_nodes st root)))"
  defines "idx \<equiv> fst (btree_find_pivot cfg (bt_nodes st root) k)"
  assumes low: "need \<longrightarrow> idx < 0 \<and> hdr1 = bt_nodes st root"
      "\<not> need \<longrightarrow> index_wf cfg hdr1 \<and> hdr_links hdr1 = hdr_links (bt_nodes st root) \<and>
         node_pivots hdr1 = lowered_pivots k idx (node_pivots (bt_nodes st root))"
    and full: "need \<longrightarrow> btree_index_is_full cfg hdr1"
    and st2: "bt_nodes st2 = (bt_nodes st)(root := hdr1)" "bt_mini st2 = bt_mini st" "later st st2"
  shows "sat fails (root_start cfg k A root (Index_at root ts) st) (root_room cfg k root (nat idx) need st2)"
proof -
  let ?N = "bt_nodes st" and ?N2 = "bt_nodes st2" and ?kk = "if need then k else fst (node_pivots hdr1 ! 0)"
  have lex: "lexical cfg" and user: "key_is_user_key k" and P: "1024 \<le> bt_page_size cfg" and safe: "key_length k \<le> safe_key_size cfg"
    using ins config_page_size by (simp_all add: insert_ok_def tuple_small_def)
  have kmax: "safe_key_size cfg \<le> MAX_INLINE_KEY_SIZE (bt_page_size cfg)" by (rule safe_key_size(2) [OF P])
  note lr = root_lowered [OF ins k t, folded idx_def, OF low, folded st2(1)]
  have r2: "?N2 root = hdr1" by (simp add: st2(1))
  have T: "hung cfg ?N2 A 0 0 (unat (height (?N root))) (Index_at root ts) NEGATIVE_INFINITY_KEY POSITIVE_INFINITY_KEY"
    using lr(1,2) r2 by (simp add: tree_at_def)
  have node: "index_node cfg (unat (height hdr1)) hdr1" using hungD(1) [OF T] r2 lr(2) by simp
  have P2: "bt_page_size cfg < 65536" using index_page_small index_node_ok(2) [OF P node] by blast
  show ?thesis
  proof (cases "btree_index_is_full cfg hdr1")
    case False
    then have "\<not> need" using full by blast
    moreover have "takes_pivot (safe_key_size cfg) hdr1" by (rule not_full_takes [OF False kmax])
    ultimately have "root_start cfg k A root (Index_at root ts) st (nat idx, st2)"
      by (intro root_start_same [OF T lr(4,5)]) (use st2 r2 ok in simp_all)
    moreover have "set_node root hdr1 st2 = st2" using r2 by (simp add: set_node_def fun_upd_idem)
    ultimately show ?thesis
      using False \<open>\<not> need\<close> by (simp add: root_room_def r2 finish_min_key_def)
  next
    case True
    have small: "key_length (first_key hdr1) \<le> safe_key_size cfg" and e: "first_key hdr1 = fst (node_pivots hdr1 ! 0)"
      using node lr(3) by (auto simp: index_node_def first_key_def) 
    have root: "root \<in> A" using hungD(3) [OF T] by simp
    have h2: "fits fails (unat (height (?N2 root)))" using h r2 lr(2) by simp
    define P' where "P' = (\<lambda>st3 :: 'a bt_state. bt_claims st3 = bt_claims st2 \<and> (\<exists>child. child \<notin> A \<and> child \<noteq> 0 \<and> ok (bt_mini st3) (insert child A) \<and>
      (\<forall>a \<in> A. a \<noteq> root \<longrightarrow> bt_nodes st3 a = ?N2 a) \<and> bt_nodes st3 child = ?N2 root \<and>
      index_node cfg (Suc (unat (height (?N2 root)))) (bt_nodes st3 root) \<and> roomy cfg (bt_nodes st3 root) \<and>
      node_pivots (bt_nodes st3 root) = [(first_key (?N2 root), child, BTREE_PIVOT_STATS_UNKNOWN)]))"
    have g: "sat fails P' (grow_root cfg al root st2)"
      unfolding P'_def by (rule grow_root_pages [OF P P2 ok [folded st2(2)] root lr(3) [folded r2] small [folded r2] h2])
    have "sat fails (root_start cfg k A root (Index_at root ts) st)
        (obind (finish_min_key need (bt_nodes st3 root) k) (\<lambda>hdr2. Inr (0, set_node root hdr2 st3)))" if P': "P' st3" for st3
    proof -
      let ?R = "bt_nodes st3 root"
      obtain child where c: "child \<notin> A" "child \<noteq> 0" "ok (bt_mini st3) (insert child A)" "bt_claims st3 = bt_claims st2"
        "\<And>a. a \<in> A \<Longrightarrow> a \<noteq> root \<Longrightarrow> bt_nodes st3 a = ?N2 a" "bt_nodes st3 child = ?N2 root"
        "index_node cfg (Suc (unat (height (?N2 root)))) ?R" "roomy cfg ?R"
        "node_pivots ?R = [(first_key hdr1, child, BTREE_PIVOT_STATS_UNKNOWN)]"
        using P' r2 unfolding P'_def by auto
      have part: "index_part cfg ?R (node_pivots ?R) ?R" using c(7) by (simp add: index_node_def index_part_def)
      have ne: "node_pivots ?R \<noteq> []" using c(9) by simp
      obtain hdr2 where f: "finish_min_key need ?R k = Inr hdr2" "takes_pivot (safe_key_size cfg) hdr2"
        "index_part cfg ?R (if need then lowered_pivots k (- 1) (node_pivots ?R) else node_pivots ?R) hdr2"
        using finish_min_key_part [OF part c(8) roomy_takes [OF c(8)] safe ne] by blast
      have pv: "(if need then lowered_pivots k (- 1) (node_pivots ?R) else node_pivots ?R) = [(?kk, child, BTREE_PIVOT_STATS_UNKNOWN)]"
        using c(9) e by (simp add: lowered_pivots_def)
      have node2: "index_node cfg (Suc (unat (height (?N2 root)))) hdr2"
        by (rule index_part_node [OF c(7) f(3) [unfolded pv]]) (use safe small e in auto)
      have "root_start cfg k A root (Index_at root ts) st (0, set_node root hdr2 st3)"
        by (rule root_start_raised [OF lex lr(1) _ lr(4) _ lr(6,7) user lr(8,9) c(1,2)])
          (use c f node2 st2 lr(2) root pv in \<open>auto simp: set_node_def later_def refusals_def index_part_def\<close>)
      then show ?thesis using f(1) by simp
    qed
    then show ?thesis
      unfolding root_room_def r2 if_P [OF True]
      by (intro sat_obind [where P = "\<lambda>(i, st3). i = 0 \<and> P' st3"] sat_obind [OF g]) auto
  qed
qed

lemma insert_index_room:
  "btree_insert_index cfg al k msg root st =
     (let idx = fst (btree_find_pivot cfg (bt_nodes st root) k)
      in if idx < 0 \<or> btree_index_is_full cfg (bt_nodes st root)
         then let (claimed, st1) = btree_node_claim st
              in if \<not> claimed then Inr (Start_over st1)
                 else obind (lower_min_key (bt_nodes st root) k idx) (\<lambda>(i, need, hdr1).
                   obind (root_room cfg k root i need (set_node root hdr1 st1)) (\<lambda>(i, st4).
                     btree_insert_descend cfg al k msg (unat (btree_height (bt_nodes st4 root))) root i st4))
         else btree_insert_descend cfg al k msg (unat (btree_height (bt_nodes st root))) root (nat idx) st)"
  by (auto simp: btree_insert_index_def root_room_def Let_def obind_def set_node_def split: sum.splits prod.splits)

lemma insert_index_done:
  assumes ins: "insert_ok cfg k msg" and k: "key_short k" and t: "tree_at cfg (bt_nodes st) A root (Index_at root ts)"
    and ok: "ok (bt_mini st) A" and h: "fits fails (unat (height (bt_nodes st root)))"
  shows "sat fails (root_done cfg k msg A root (Index_at root ts) st) (btree_insert_index cfg al k msg root st)"
proof -
  let ?N = "bt_nodes st" and ?done = "root_done cfg k msg A root (Index_at root ts) st"
  define idx where "idx = fst (btree_find_pivot cfg (?N root) k)"
  have lex: "lexical cfg" and P: "1024 \<le> bt_page_size cfg" and safe: "key_length k \<le> safe_key_size cfg"
    using ins config_page_size by (simp_all add: insert_ok_def tuple_small_def)
  have kmax: "safe_key_size cfg \<le> MAX_INLINE_KEY_SIZE (bt_page_size cfg)" by (rule safe_key_size(2) [OF P])
  have H: "hung cfg ?N A 0 0 (unat (height (?N root))) (Index_at root ts) NEGATIVE_INFINITY_KEY POSITIVE_INFINITY_KEY" using t by (simp add: tree_at_def)
  have node: "index_node cfg (unat (height (?N root))) (?N root)" using hungD(1) [OF H] by simp
  note wf = index_node_ok(2) [OF P node] and n = index_node_sorted(3) [OF lex hungD(1) [OF H] infinity_short(2)]
  have start: "sat fails ?done (btree_insert_descend cfg al k msg (unat (btree_height (bt_nodes st4 root))) root i st4)"
    if "root_start cfg k A root (Index_at root ts) st (i, st4)" for i st4
    by (rule root_start_descend [OF ins k that h])
  show ?thesis
  proof (cases "idx < 0 \<or> btree_index_is_full cfg (?N root)")
    case False
    then have "takes_pivot (safe_key_size cfg) (?N root)" using not_full_takes [OF _ kmax] by blast
    moreover have "aimed cfg (bt_nodes st) root ts POSITIVE_INFINITY_KEY (nat idx) k"
      using root_lowered(5) [OF ins k t, folded idx_def, of False "?N root"] wf False by (simp add: lowered_pivots_def)
    ultimately have "root_start cfg k A root (Index_at root ts) st (nat idx, st)"
      by (intro root_start_same [OF H]) (use ok in simp_all)
    then show ?thesis using start False by (auto simp: insert_index_room Let_def idx_def)
  next
    case True
    obtain claimed st1 where c: "btree_node_claim st = (claimed, st1)" by fastforce
    note cl = node_claim [OF c]
    obtain need hdr1 where low: "lower_min_key (?N root) k idx = Inr (nat idx, need, hdr1)"
      "need \<longrightarrow> idx < 0 \<and> hdr1 = ?N root \<and> unat (next_entry (?N root)) < table_end (btree_num_entries (?N root)) + (23 + key_length k)"
      "\<not> need \<longrightarrow> index_wf cfg hdr1 \<and> hdr_links hdr1 = hdr_links (?N root) \<and> node_pivots hdr1 = lowered_pivots k idx (node_pivots (?N root))"
      using lower_min_key_result [OF wf n, of k idx] by blast
    have full: "need \<longrightarrow> btree_index_is_full cfg hdr1" using low(2) not_full_lowers [of cfg hdr1 k] safe kmax by force
    have "sat fails (root_start cfg k A root (Index_at root ts) st) (root_room cfg k root (nat idx) need (set_node root hdr1 st1))"
      unfolding idx_def
      by (rule root_room_start [OF ins k t ok h _ low(3) [unfolded idx_def] full])
        (use low(2) cl(1) in \<open>auto simp: idx_def set_node_def only_answers_def later_def refusals_def\<close>)
    then have go: "sat fails ?done (obind (root_room cfg k root (nat idx) need (set_node root hdr1 st1)) (\<lambda>(i, st4).
        btree_insert_descend cfg al k msg (unat (btree_height (bt_nodes st4 root))) root i st4))"
      by (rule sat_obind) (use start in auto)
    have "?done (Start_over st1)" if "\<not> claimed"
      by (rule root_done_untouched [OF t])
        (use cl that ok in \<open>auto simp: only_answers_def progress_def attempt_ok_def\<close>)
    then show ?thesis using go True c low(1) by (auto simp: insert_index_room Let_def idx_def)
  qed
qed

end

section \<open>A root that is a leaf\<close>

text \<open>A leaf that has no room for a tuple is not empty.\<close>

lemma full_leaf_has_tuples:
  assumes ins: "insert_ok cfg k msg" and leaf: "leaf_node cfg hdr" and spec: "spec_for cfg hdr k msg spec"
    and full: "\<not> btree_can_perform_leaf_incorporate_spec hdr spec"
  shows "leaf_tuples hdr \<noteq> []"
proof
  assume e: "leaf_tuples hdr = []"
  have c: "compact cfg hdr" using leaf e by (simp add: leaf_node_def)
  have ok: "spec_ok spec (btree_num_entries hdr)" and small: "tuple_small cfg (spec_tuple spec)" using spec by (simp_all add: spec_for_def)
  have n: "btree_num_entries hdr = 0" using e by (metis length_leaf_tuples list.size(3))
  then have st: "spec_state spec \<noteq> ENTRY_STILL_EXISTS" using ok by (auto simp: spec_ok_def)
  have P: "1024 \<le> bt_page_size cfg" using ins config_page_size by (simp add: insert_ok_def)
  have "spec_target spec (leaf_tuples hdr) = [spec_tuple spec]" using st e n ok by (simp add: spec_target_def Let_def)
  moreover have "tuple_size (spec_tuple spec) + 39 \<le> bt_page_size cfg" using small_tuple_size [OF P small] by simp
  ultimately have "btree_can_perform_leaf_incorporate_spec hdr spec" by (intro perform_compact [OF c ok st]) simp
  then show False using full by simp
qed

text \<open>The smallest key of a leaf that has tuples.\<close>

lemma leaf_first_key:
  assumes lex: "lexical cfg" and leaf: "leaf_node cfg hdr" and ne: "leaf_tuples hdr \<noteq> []"
  shows "first_key hdr = fst (leaf_tuples hdr ! 0)" and "0 < btree_num_entries hdr" and "key_is_user_key (first_key hdr)"
    and "key_length (first_key hdr) \<le> safe_key_size cfg" and "\<forall>t \<in> set (leaf_tuples hdr). within cfg (first_key hdr) POSITIVE_INFINITY_KEY (fst t)"
proof -
  obtain x xs where x: "leaf_tuples hdr = x # xs" using ne by (cases "leaf_tuples hdr") auto
  have small: "\<forall>t \<in> set (leaf_tuples hdr). tuple_small cfg t" using leaf by (simp add: leaf_node_def)
  show e: "first_key hdr = fst (leaf_tuples hdr ! 0)" using leaf by (simp add: first_key_def leaf_node_def)
  show "0 < btree_num_entries hdr" using ne by (metis length_leaf_tuples length_greater_0_conv)
  show "key_is_user_key (first_key hdr)" "key_length (first_key hdr) \<le> safe_key_size cfg"
    using small x unfolding e by (simp_all add: tuple_small_def)
  have "keys_sorted cfg (map fst (x # xs))" using leaf x by (simp add: leaf_node_def leaf_sorted_def)
  moreover have "key_short (fst x)" using leaf_keys_short [of "fst x" hdr] x by simp
  ultimately show "\<forall>t \<in> set (leaf_tuples hdr). within cfg (first_key hdr) POSITIVE_INFINITY_KEY (fst t)"
    using small lex_self [OF lex] unfolding e x by (auto simp: within_def keys_sorted_def tuple_small_def less_imp_le)
qed

context page_source
begin

lemma root_done_after:
  assumes g: "regrown (bt_nodes st) A t (bt_nodes st1) A1 t1" and l: "later st st1"
    and same: "tree_tuples (bt_nodes st1) t1 = tree_tuples (bt_nodes st) t"
    and h: "max 1 (unat (height (bt_nodes st1 root))) = max 1 (unat (height (bt_nodes st root)))"
    and r: "root_done cfg k msg A1 root t1 st1 r"
  shows "root_done cfg k msg A root t st r"
  using r regrown_trans [OF g] progress_from [of st st1 r] l unfolding root_done_def Let_def same h by metis

lemma leaf_root_raised:
  assumes ins: "insert_ok cfg k msg" and k: "key_short k" and t: "tree_at cfg (bt_nodes st) A root (Leaf_at root)"
    and ok: "ok (bt_mini st1) A" and st1: "bt_nodes st1 = bt_nodes st" "later st st1"
    and ne: "leaf_tuples (bt_nodes st root) \<noteq> []"
  shows "sat fails (root_done cfg k msg A root (Leaf_at root) st)
    (obind (grow_root cfg al root st1) (btree_insert_index cfg al k msg root))"
proof -
  let ?N = "bt_nodes st"
  have lex: "lexical cfg" and P: "1024 \<le> bt_page_size cfg" using ins config_page_size by (simp_all add: insert_ok_def)
  have H: "hung cfg ?N A 0 0 0 (Leaf_at root) NEGATIVE_INFINITY_KEY POSITIVE_INFINITY_KEY" and h0: "height (?N root) = 0"
    using t by (auto simp: tree_at_def hung_def leaf_node_def)
  have leaf: "leaf_node cfg (?N root)" and root: "root \<in> A" using hungD(1,3) [OF H] by simp_all
  note f = leaf_first_key [OF lex leaf ne]
  have P2: "bt_page_size cfg < 65536" using leaf leaf_page_small by (auto simp: leaf_node_def)
  show ?thesis
  proof (rule sat_obind [OF grow_root_pages [OF P P2 ok root, unfolded st1(1), OF f(2,4)]])
    show "fits fails (unat (height (?N root)))" by (simp add: h0 fits_def BTREE_MAX_HEIGHT_def)
  next
    fix st2 :: "'a bt_state"
    let ?N2 = "bt_nodes st2"
    assume "bt_claims st2 = bt_claims st1 \<and> (\<exists>child. child \<notin> A \<and> child \<noteq> 0 \<and> ok (bt_mini st2) (insert child A) \<and>
      (\<forall>a \<in> A. a \<noteq> root \<longrightarrow> ?N2 a = ?N a) \<and> ?N2 child = ?N root \<and>
      index_node cfg (Suc (unat (height (?N root)))) (?N2 root) \<and> roomy cfg (?N2 root) \<and>
      node_pivots (?N2 root) = [(first_key (?N root), child, BTREE_PIVOT_STATS_UNKNOWN)])"
    then obtain child where c: "bt_claims st2 = bt_claims st1" "child \<notin> A" "child \<noteq> 0" "ok (bt_mini st2) (insert child A)"
      "\<And>a. a \<in> A \<Longrightarrow> a \<noteq> root \<Longrightarrow> ?N2 a = ?N a" "?N2 child = ?N root" "index_node cfg (Suc 0) (?N2 root)"
      "node_pivots (?N2 root) = [(first_key (?N root), child, BTREE_PIVOT_STATS_UNKNOWN)]" by (auto simp: h0)
    have nd: "node_addr (Leaf_at root) = root" and sub: "subtree cfg ?N 0 (Leaf_at root) (first_key (?N root)) POSITIVE_INFINITY_KEY"
      using leaf f(5) by simp_all
    note r = raised_tree [OF H nd c(2,3,5-8) sub user_key_below(1) [OF f(3)] less_imp_le [OF user_key_below(2) [OF f(3)]], unfolded moved.simps]
    have h2: "unat (height (?N2 root)) = 1" using c(7) by (simp add: index_node_def)
    have t2: "tree_at cfg ?N2 (insert child A) root (Index_at root [Leaf_at child])" using r(1) h2 by (simp add: tree_at_def)
    have "sat fails (root_done cfg k msg (insert child A) root (Index_at root [Leaf_at child]) st2) (btree_insert_index cfg al k msg root st2)"
      by (rule insert_index_done [OF ins k t2 c(4)]) (simp add: h2 fits_def BTREE_MAX_HEIGHT_def)
    then show "sat fails (root_done cfg k msg A root (Leaf_at root) st) (btree_insert_index cfg al k msg root st2)"
      by (rule sat_mono) (rule root_done_after [OF r(3) _ r(2)]; use c(1) st1(2) h0 h2 in \<open>simp add: later_def refusals_def\<close>)
  qed
qed

lemma leaf_root_kept:
  assumes t: "tree_at cfg N A root (Leaf_at root)" and kept: "leaf_kept cfg N root ts N'"
  shows "tree_at cfg N' A root (Leaf_at root)" and "regrown N A (Leaf_at root) N' A (Leaf_at root)" and "height (N' root) = 0"
proof -
  have "within cfg NEGATIVE_INFINITY_KEY POSITIVE_INFINITY_KEY (fst x)" if "x \<in> set ts" for x
  proof -
    have "key_is_user_key (fst x)" using kept that by (auto simp: leaf_kept_def leaf_node_def tuple_small_def)
    then show ?thesis by (simp add: within_def less_imp_le)
  qed
  then show "tree_at cfg N' A root (Leaf_at root)" using t kept by (auto simp: tree_at_def hung_def leaf_kept_def leaf_node_def)
  show "regrown N A (Leaf_at root) N' A (Leaf_at root)" using kept by (auto simp: regrown_def leaf_kept_def)
  show "height (N' root) = 0" using kept by (simp add: leaf_kept_def leaf_node_def)
qed

lemma insert_attempt_leaf:
  assumes ins: "insert_ok cfg k msg" and k: "key_short k" and t: "tree_at cfg (bt_nodes st) A root (Leaf_at root)" and ok: "ok (bt_mini st) A"
  shows "sat fails (root_done cfg k msg A root (Leaf_at root) st) (btree_insert_attempt cfg al k msg root st)"
proof -
  let ?done = "root_done cfg k msg A root (Leaf_at root) st" and ?N = "bt_nodes st"
  have leaf: "leaf_node cfg (?N root)" and h0: "height (?N root) = 0" using t by (auto simp: tree_at_def hung_def leaf_node_def)
  obtain r st0 where r: "create_spec cfg root k msg st = Inr (r, st0)" "only_answers st st0"
    "case r of Inl rc \<Rightarrow> rc = STATUS_NO_MEMORY | Inr spec \<Rightarrow> spec_for cfg (?N root) k msg spec"
    using create_spec_answers [OF ins leaf] by blast
  show ?thesis
  proof (cases r)
    case (Inl rc)
    have "?done (Return STATUS_NO_MEMORY None None st0)"
      by (rule root_done_untouched [OF t]) (use r(2) ok in \<open>auto simp: only_answers_def progress_def attempt_ok_def\<close>)
    then show ?thesis using r Inl h0 by (simp add: btree_insert_attempt_def btree_height_def)
  next
    case (Inr spec)
    have spec: "spec_for cfg (?N root) k msg spec" using r(3) Inr by simp
    obtain claimed st1 where c: "btree_node_claim st0 = (claimed, st1)" by fastforce
    have o: "only_answers st st1" "\<not> claimed \<Longrightarrow> refused st st1" "bt_nodes st1 = ?N"
      using only_answers_trans [OF r(2) node_claim(1) [OF c]] r(2) node_claim(2) [OF c] later_refused(1) by (auto simp: only_answers_def)
    have refusal: "?done (Start_over st1)" if "\<not> claimed"
      by (rule root_done_untouched [OF t]) (use o that ok in \<open>auto simp: only_answers_def progress_def attempt_ok_def\<close>)
    have wf: "leaf_wf cfg (?N root)" "spec_ok spec (btree_num_entries (?N root))" using leaf spec by (simp_all add: leaf_node_def spec_for_def)
    have "sat fails ?done (obind (btree_try_perform_leaf_incorporate_spec (?N root) spec) (\<lambda>(incorporated, gen, hdr).
        let st2 = set_node root hdr st1
        in if incorporated then Inr (Return STATUS_OK gen (Some (spec_is_new spec)) st2)
           else obind (grow_root cfg al root st2) (btree_insert_index cfg al k msg root)))"
    proof (cases "btree_can_perform_leaf_incorporate_spec (?N root) spec")
      case True
      then obtain hdr where h: "btree_try_perform_leaf_incorporate_spec (?N root) spec = Inr (True, Some (generation (?N root)), hdr)"
        "leaf_wf cfg hdr" "leaf_tuples hdr = spec_target spec (leaf_tuples (?N root))"
        "hdr_links hdr = (prev_addr (?N root), next_addr (?N root), next_extent_addr (?N root), generation (?N root) + 1, height (?N root))"
        using perform_succeeds [OF wf] by blast
      have kept: "leaf_kept cfg ?N root (inserted cfg k msg (leaf_tuples (?N root))) (?N(root := hdr))"
        by (rule leaf_kept_step [of cfg ?N root, OF leaf ins spec h(2,3)]) (use h(4) in \<open>simp_all add: hdr_links_def\<close>)
      have unique: "spec_is_new spec = (\<not> has_key cfg k (leaf_tuples (?N root)))" using spec by (simp add: spec_for_def)
      have "?done (Return STATUS_OK (Some (generation (?N root))) (Some (spec_is_new spec)) (set_node root hdr st1))"
        unfolding root_done_def Let_def
        by (intro conjI exI [of _ A] exI [of _ "Leaf_at root"])
          (use leaf_root_kept [OF t kept] o ok unique kept in
            \<open>simp_all add: progress_def set_node_def only_answers_def later_def refusals_def attempt_ok_def leaf_kept_def\<close>)
      then show ?thesis using h(1) by simp
    next
      case False
      obtain g hdr where p: "btree_try_perform_leaf_incorporate_spec (?N root) spec = Inr (False, g, hdr)"
        using perform_returns [OF wf] False by auto
      have "set_node root hdr st1 = st1" using perform_fails(1) [OF p] o(3) by (simp add: set_node_def fun_upd_idem)
      moreover have "sat fails ?done (obind (grow_root cfg al root st1) (btree_insert_index cfg al k msg root))"
        by (rule leaf_root_raised [OF ins k t]) (use full_leaf_has_tuples [OF ins leaf spec False] o(1) ok in \<open>auto simp: only_answers_def\<close>)
      ultimately show ?thesis using p by simp
    qed
    then show ?thesis using r Inr c refusal h0 o(3) by (auto simp: btree_insert_attempt_def btree_height_def)
  qed
qed

lemma insert_attempt_done:
  assumes ins: "insert_ok cfg k msg" and k: "key_short k" and t: "tree_at cfg (bt_nodes st) A root t" and ok: "ok (bt_mini st) A"
    and h: "fits fails (unat (height (bt_nodes st root)))"
  shows "sat fails (root_done cfg k msg A root t st) (btree_insert_attempt cfg al k msg root st)"
proof (cases t)
  case (Leaf_at a)
  then have e: "t = Leaf_at root" using t by (simp add: tree_at_def)
  show ?thesis using insert_attempt_leaf [OF ins k t [unfolded e] ok] e by simp
next
  case (Index_at a ts)
  then have e: "t = Index_at root ts" using t by (simp add: tree_at_def)
  have "btree_height (bt_nodes st root) \<noteq> 0" using t by (auto simp: e tree_at_def hung_def index_node_def btree_height_def)
  then show ?thesis using insert_index_done [OF ins k t [unfolded e] ok h] e by (simp add: btree_insert_attempt_def)
qed

end

end
