(* ===== verification/BtTreeProofs.thy ===== *)
theory BtTreeProofs
  imports BtAttempt BtScan
begin

text \<open>
  \<open>btree_insert\<close>: the attempts come to an end, and the tree then stands for the ordered list with the
  tuple in it. \<open>btree_lookup\<close> finds what was inserted, and scans list it, after any sequence of operations.
\<close>

section \<open>The attempts\<close>

text \<open>How an insertion ends: \<open>tree_tuples\<close> is as \<open>upsert\<close> makes it, or no memory was there and it is as it was.\<close>

definition insert_done ::
  "btree_config \<Rightarrow> key \<Rightarrow> message \<Rightarrow> ('a \<Rightarrow> u64 set \<Rightarrow> bool) \<Rightarrow> u64 set \<Rightarrow> u64 \<Rightarrow> shape \<Rightarrow> 'a bt_state \<Rightarrow>
   platform_status \<times> u64 option \<times> bool option \<times> 'a bt_state \<Rightarrow> bool" where
  "insert_done cf k msg ok A root t st = (\<lambda>(rc, gen, unique, st').
     let N = bt_nodes st; N' = bt_nodes st' in
     \<exists>A' t'. ok (bt_mini st') A' \<and> tree_at cf N' A' root t' \<and> regrown N A t N' A' t' \<and>
       (rc = STATUS_OK \<and> gen \<noteq> None \<and> unique = Some (\<not> has_key cf k (tree_tuples N t)) \<and>
          tree_tuples N' t' = inserted cf k msg (tree_tuples N t) \<or>
        rc = STATUS_NO_MEMORY \<and> gen = None \<and> unique = None \<and> tree_tuples N' t' = tree_tuples N t))"

lemma insert_done_after:
  assumes "regrown (bt_nodes st) A t (bt_nodes st1) A1 t1" and same: "tree_tuples (bt_nodes st1) t1 = tree_tuples (bt_nodes st) t"
    and "insert_done cf k msg ok A1 root t1 st1 x"
  shows "insert_done cf k msg ok A root t st x"
  using assms(3) regrown_trans [OF assms(1)] unfolding insert_done_def Let_def same by (cases x) (simp only: prod.case, blast)

lemma tree_key_short:
  assumes ins: "insert_ok cf k msg" and t: "tree_at cf N A root t"
  shows "key_short k"
proof -
  have P: "1024 \<le> bt_page_size cf" and small: "tuple_small cf (k, msg)"
    using ins config_page_size by (simp_all add: insert_ok_def)
  have "bt_page_size cf < 65536"
    using t leaf_page_small index_page_small by (cases t) (auto simp: tree_at_def hung_def leaf_node_def index_node_def)
  moreover have "bt_page_size cf div 8 \<le> bt_page_size cf" by (rule div_le_dividend)
  moreover have "key_length k \<le> bt_page_size cf div 8"
    using small safe_key_size(2) [OF P] by (simp add: tuple_small_def MAX_INLINE_KEY_SIZE_def)
  ultimately show "key_short k" unfolding key_short_def by linarith
qed

context page_source
begin

lemma insert_loop_done:
  assumes ins: "insert_ok cf k msg" and k: "key_short k"
  shows "tree_at cf (bt_nodes st) A root t \<Longrightarrow> ok (bt_mini st) A \<Longrightarrow> refusals st < n \<Longrightarrow>
    fits fails (max 1 (unat (height (bt_nodes st root))) + refusals st) \<Longrightarrow>
    sat fails (insert_done cf k msg ok A root t st) (btree_insert_loop n cf al k msg root st)"
proof (induction n arbitrary: st A t)
  case (Suc n)
  have h: "fits fails (unat (height (bt_nodes st root)))" by (rule fits_mono [OF Suc.prems(4)]) simp
  show ?case
    unfolding btree_insert_loop.simps
  proof (rule sat_obind [OF insert_attempt_done [OF ins k Suc.prems(1,2) h]])
    fix r :: "'a bt_attempt"
    let ?N' = "bt_nodes (attempt_state r)"
    assume "root_done cf k msg A root t st r"
    then obtain A' t' where d: "progress st r" "ok (bt_mini (attempt_state r)) A'" "tree_at cf ?N' A' root t'"
      "regrown (bt_nodes st) A t ?N' A' t'" "attempt_ok cf k msg (tree_tuples (bt_nodes st) t) r (tree_tuples ?N' t')"
      "max 1 (unat (height (?N' root))) \<le> Suc (max 1 (unat (height (bt_nodes st root))))"
      unfolding root_done_def Let_def by blast
    show "sat fails (insert_done cf k msg ok A root t st)
      (case r of Start_over st1 \<Rightarrow> btree_insert_loop n cf al k msg root st1 | Return rc gen unique st1 \<Rightarrow> Inr (rc, gen, unique, st1))"
    proof (cases r)
      case (Return rc gen unique st1)
      then show ?thesis using d unfolding Return by (auto simp: insert_done_def Let_def attempt_ok_def)
    next
      case (Start_over st1)
      have less: "refusals st1 < refusals st" and same: "tree_tuples (bt_nodes st1) t' = tree_tuples (bt_nodes st) t"
        using d(1,5) Start_over by (simp_all add: progress_def refused_def attempt_ok_def)
      have "sat fails (insert_done cf k msg ok A' root t' st1) (btree_insert_loop n cf al k msg root st1)"
        by (rule Suc.IH [OF _ _ _ fits_mono [OF Suc.prems(4)]]) (use d(2,3,6) Start_over less Suc.prems(3) in simp_all)
      then show ?thesis
        unfolding Start_over bt_attempt.case by (rule sat_mono) (rule insert_done_after [OF _ same], use d(4) Start_over in simp_all)
    qed
  qed
qed simp

text \<open>The parameters \<open>btree_insert\<close> takes.\<close>

lemma btree_insert_done:
  assumes ins: "insert_ok cf k msg" and user: "msg_type msg \<in> {MESSAGE_TYPE_INSERT, MESSAGE_TYPE_UPDATE, MESSAGE_TYPE_DELETE}"
    and t: "tree_at cf (bt_nodes st) A root t" and ok: "ok (bt_mini st) A"
    and h: "fits fails (max 1 (unat (height (bt_nodes st root))) + refusals st)"
  shows "sat fails (insert_done cf k msg ok A root t st) (btree_insert cf al root k msg st)"
proof -
  have P: "1024 \<le> bt_page_size cf" using ins config_page_size by (simp add: insert_ok_def)
  have small: "tuple_small cf (k, msg)" using ins by (simp add: insert_ok_def)
  have k: "key_short k" by (rule tree_key_short [OF ins t])
  have "refusals st < Suc (length (bt_claims st))" by (simp add: refusals_def less_Suc_eq_le)
  then have "sat fails (insert_done cf k msg ok A root t st) (btree_insert_loop (Suc (length (bt_claims st))) cf al k msg root st)"
    by (rule insert_loop_done [OF ins k t ok _ h])
  moreover have "\<not> message_is_invalid_user_type msg" using user by (auto simp: message_is_invalid_user_type_def)
  moreover have "key_length k \<le> MAX_INLINE_KEY_SIZE (bt_page_size cf)" "message_length msg \<le> MAX_INLINE_MESSAGE_SIZE (bt_page_size cf)"
    using small safe_key_size(2) [OF P] by (auto simp: tuple_small_def)
  ultimately show ?thesis by (simp add: btree_insert_def)
qed

end

text \<open>The first tuple of a tree needs no page.\<close>

lemma insert_first:
  assumes ins: "insert_ok cf k msg" and user: "\<not> message_is_invalid_user_type msg"
    and root: "leaf_node cf (bt_nodes st root)" "leaf_tuples (bt_nodes st root) = []" and answers: "bt_claims st = []" "bt_mem st = []"
  shows "\<exists>gen st'. btree_insert cf al root k msg st = Inr (STATUS_OK, gen, Some True, st')"
proof -
  let ?hdr = "bt_nodes st root"
  have P: "1024 \<le> bt_page_size cf" using ins config_page_size by (simp add: insert_ok_def)
  have n: "btree_num_entries ?hdr = 0" using root(2) by (metis length_leaf_tuples list.size(3))
  then have "\<not> snd (btree_find_tuple cf ?hdr k)" by (simp add: btree_find_tuple_def find_loop.simps)
  then obtain spec where c: "btree_create_leaf_incorporate_spec cf True ?hdr k msg = Inr (Inr spec)"
    by (cases "btree_find_tuple cf ?hdr k") (simp add: btree_create_leaf_incorporate_spec_def)
  have spec: "spec_for cf ?hdr k msg spec" using create_spec_for [OF ins root(1), of True] c by simp
  have can: "btree_can_perform_leaf_incorporate_spec ?hdr spec" using full_leaf_has_tuples [OF ins root(1) spec] root(2) by blast
  have wf: "leaf_wf cf ?hdr" "spec_ok spec (btree_num_entries ?hdr)" using root(1) spec by (simp_all add: leaf_node_def spec_for_def)
  obtain gen hdr where p: "btree_try_perform_leaf_incorporate_spec ?hdr spec = Inr (True, gen, hdr)"
    using perform_succeeds [OF wf can] by blast
  have new: "spec_is_new spec" using spec root(2) by (simp add: spec_for_def has_key_def)
  have h: "btree_height ?hdr = 0" using root(1) by (simp add: leaf_node_def btree_height_def)
  have "key_length k \<le> MAX_INLINE_KEY_SIZE (bt_page_size cf)" "message_length msg \<le> MAX_INLINE_MESSAGE_SIZE (bt_page_size cf)"
    using ins safe_key_size(2) [OF P] by (auto simp: insert_ok_def tuple_small_def)
  then show ?thesis
    using user answers c p new h
    by (simp add: btree_insert_def btree_insert_attempt_def create_spec_def btree_node_claim_def Let_def)
qed

section \<open>Lookups after an insertion\<close>

context total_compare
begin

lemma cmp_zero_iff: "dom a \<Longrightarrow> dom b \<Longrightarrow> cmp a b = 0 \<longleftrightarrow> cmp a b \<le> 0 \<and> cmp b a \<le> 0"
  using cmp_swap [of a b] cmp_swap [of b a] by auto

lemma cmp_same:
  assumes "dom a" "dom b" "dom d" and "cmp a b = 0"
  shows "cmp a d = 0 \<longleftrightarrow> cmp b d = 0" and "cmp d a = 0 \<longleftrightarrow> cmp d b = 0"
proof -
  have ab: "cmp a b \<le> 0" "cmp b a \<le> 0" using assms cmp_zero_iff by blast+
  show "cmp a d = 0 \<longleftrightarrow> cmp b d = 0" "cmp d a = 0 \<longleftrightarrow> cmp d b = 0"
    unfolding cmp_zero_iff [OF assms(1,3)] cmp_zero_iff [OF assms(2,3)] cmp_zero_iff [OF assms(3,1)] cmp_zero_iff [OF assms(3,2)]
    using cmp_trans [OF assms(1,2,3) ab(1)] cmp_trans [OF assms(2,1,3) ab(2)] cmp_trans [OF assms(3,1,2) _ ab(1)]
      cmp_trans [OF assms(3,2,1) _ ab(2)] by blast+
qed

lemma lookup_upsert:
  assumes "dom k" "dom k'"
  shows "\<forall>t \<in> set ts. dom (fst t) \<Longrightarrow> sorted_wrt (\<lambda>a b. cmp a b < 0) (map fst ts) \<Longrightarrow>
    list_lookup cmp k' (upsert cmp f k m ts) =
      (if cmp k k' = 0 then Some (case list_lookup cmp k ts of None \<Rightarrow> m | Some old \<Rightarrow> f old) else list_lookup cmp k' ts)"
proof (induction ts)
  case (Cons t ts)
  have d: "dom (fst t)" using Cons.prems(1) by simp
  have cong: "cmp (fst t) k' = 0 \<longleftrightarrow> cmp (fst t) k = 0" if "cmp k k' = 0"
    using cmp_same(2) [OF assms d that] by simp
  have eq: "cmp (fst t) k' = 0 \<longleftrightarrow> cmp k k' = 0" if "cmp (fst t) k = 0"
    by (rule cmp_same(1) [OF d assms that])
  have none: "list_lookup cmp k (t # ts) = None" if above: "0 < cmp (fst t) k"
  proof -
    have "0 < cmp (fst x) k" if x: "x \<in> set ts" for x
    proof -
      have "cmp (fst t) (fst x) < 0" "dom (fst x)" using Cons.prems x by auto
      then show ?thesis
        using cmp_less_trans [OF assms(1) d, of "fst x"] cmp_swap [OF assms(1) d] cmp_swap [OF assms(1), of "fst x"] above by simp
    qed
    then have "\<not> (\<exists>x \<in> set (t # ts). cmp (fst x) k = 0)" using above by force
    then show ?thesis by (auto simp: list_lookup_def find_None_iff)
  qed
  show ?case
    using Cons cong eq none by (cases t) (auto simp: list_lookup_def)
qed (simp add: list_lookup_def)

end

section \<open>Sequences of insertions and lookups\<close>

text \<open>
  A client's operations on one tree, and what it is answered. The cache and the clock of a lookup,
  the entry stamps of the pages and the answers to claims of pages are any there can be.
\<close>

text \<open>A scan has a range, a direction, a limit, and what its lookups meet: stamps, environments and answers to claims.\<close>

record scan_op =
  sc_device :: allocator_config
  sc_type :: page_type
  sc_lo :: key
  sc_hi :: key
  sc_forwards :: bool
  sc_limit :: nat
  sc_prefetch :: bool
  sc_stamps :: "u64 \<Rightarrow> u64"
  sc_env :: "nat \<Rightarrow> lookup_env"
  sc_claims :: "bool list"

datatype tree_op =
  Put key message "bool list" "bool list"
| Get key lookup_env page_type "u64 \<Rightarrow> u64"
| Scan scan_op

datatype tree_answer = Stored platform_status "bool option" | Found "message option" | Listed platform_status "(key \<times> message) list"

definition tree_scan :: "btree_config \<Rightarrow> u64 \<Rightarrow> (u64 \<Rightarrow> btree_hdr) \<Rightarrow> scan_op \<Rightarrow>
   (platform_status \<times> (key \<times> message) list \<times> iter_state) outcome" where
  "tree_scan cf root N q =
     btree_scan (sc_limit q) 1 (sc_device q) cf (sc_type q) (sc_lo q) (sc_hi q) (sc_prefetch q) (sc_forwards q) root
       \<lparr>is_pages = \<lparr>lk_nodes = N, lk_time = sc_stamps q\<rparr>, is_env = sc_env q, is_lookups = 0, is_claims = sc_claims q, is_prefetched = []\<rparr>"

primrec tree_do :: "btree_config \<Rightarrow> 'a page_alloc \<Rightarrow> u64 \<Rightarrow> 'a bt_state \<Rightarrow> tree_op \<Rightarrow> (tree_answer \<times> 'a bt_state) outcome" where
  "tree_do cf al root st (Put k msg claims mem) =
     obind (btree_insert cf al root k msg (st\<lparr>bt_claims := claims, bt_mem := mem\<rparr>)) (\<lambda>(rc, gen, unique, st1). Inr (Stored rc unique, st1))"
| "tree_do cf al root st (Get k E type stamps) =
     (let (result, P) = btree_lookup_with_ref cf E root type k \<lparr>lk_nodes = bt_nodes st, lk_time = stamps\<rparr>
      in Inr (Found result, st\<lparr>bt_nodes := lk_nodes P\<rparr>))"
| "tree_do cf al root st (Scan q) =
     obind (tree_scan cf root (bt_nodes st) q) (\<lambda>(rc, l, ist). Inr (Listed rc l, st\<lparr>bt_nodes := iter_node ist\<rparr>))"

fun tree_run :: "btree_config \<Rightarrow> 'a page_alloc \<Rightarrow> u64 \<Rightarrow> 'a bt_state \<Rightarrow> tree_op list \<Rightarrow> (tree_answer list \<times> 'a bt_state) outcome" where
  "tree_run cf al root st [] = Inr ([], st)"
| "tree_run cf al root st (c # cs) =
     obind (tree_do cf al root st c) (\<lambda>(a, st1). obind (tree_run cf al root st1 cs) (\<lambda>(as, st2). Inr (a # as, st2)))"

text \<open>The same operations on an ordered list.\<close>

fun list_answers :: "btree_config \<Rightarrow> (key \<times> message) list \<Rightarrow> tree_op list \<Rightarrow> tree_answer list \<Rightarrow> bool" where
  "list_answers cf ts [] [] = True"
| "list_answers cf ts (Put k msg claims mem # cs) (Stored rc unique # as) \<longleftrightarrow>
     rc = STATUS_OK \<and> unique = Some (\<not> has_key cf k ts) \<and> list_answers cf (inserted cf k msg ts) cs as \<or>
     rc = STATUS_NO_MEMORY \<and> unique = None \<and> list_answers cf ts cs as"
| "list_answers cf ts (Get k E type stamps # cs) (Found result # as) \<longleftrightarrow>
     result = list_lookup (btree_key_compare cf) k ts \<and> list_answers cf ts cs as"
| "list_answers cf ts (Scan q # cs) (Listed rc l # as) \<longleftrightarrow>
     rc = STATUS_OK \<and> l = take (sc_limit q) (in_direction (sc_forwards q) (key_range cf (sc_lo q) (sc_hi q) ts)) \<and>
     list_answers cf ts cs as"
| "list_answers cf ts _ _ = False"

definition user_message :: "message \<Rightarrow> bool" where
  "user_message msg \<longleftrightarrow> msg_type msg \<in> {MESSAGE_TYPE_INSERT, MESSAGE_TYPE_UPDATE, MESSAGE_TYPE_DELETE}"

primrec tree_op_ok :: "btree_config \<Rightarrow> tree_op \<Rightarrow> bool" where
  "tree_op_ok cf (Put k msg claims mem) \<longleftrightarrow> insert_ok cf k msg \<and> user_message msg"
| "tree_op_ok cf (Get k E type stamps) \<longleftrightarrow> key_is_user_key k \<and> key_short k"
| "tree_op_ok cf (Scan q) \<longleftrightarrow> key_short (sc_lo q) \<and> key_short (sc_hi q)"

lemma tree_at_lookup:
  assumes lex: "lexical cf" and k: "key_is_user_key k" "key_short k" and t: "tree_at cf N A root t"
    and r: "btree_lookup_with_ref cf E root type k \<lparr>lk_nodes = N, lk_time = stamps\<rparr> = (result, P)"
  shows "result = list_lookup (btree_key_compare cf) k (tree_tuples N t)" and "tree_at cf (lk_nodes P) A root t"
    and "tree_tuples (lk_nodes P) t = tree_tuples N t"
proof -
  have b: "btree_at cf N root t" using t by (simp add: tree_at_btree)
  note f = lookup_finds [OF lex k _ r, simplified lookup_pages.select_convs, OF b]
  show "result = list_lookup (btree_key_compare cf) k (tree_tuples N t)" by (rule f(1))
  show "tree_at cf (lk_nodes P) A root t" using same_pages_tree(3) [OF f(2) b] t by (simp add: tree_at_btree)
  show "tree_tuples (lk_nodes P) t = tree_tuples N t" using b unfolding btree_at_def by (blast intro: same_pages_tree(2) [OF f(2)])
qed

lemma tree_at_scan:
  assumes lex: "lexical cf" and k: "key_short (sc_lo q)" "key_short (sc_hi q)" and t: "tree_at cf N A root t"
  shows "\<exists>ist. tree_scan cf root N q = Inr (STATUS_OK, take (sc_limit q) (in_direction (sc_forwards q)
      (key_range cf (sc_lo q) (sc_hi q) (tree_tuples N t))), ist) \<and>
    tree_at cf (iter_node ist) A root t \<and> tree_tuples (iter_node ist) t = tree_tuples N t"
proof -
  let ?st = "\<lparr>is_pages = \<lparr>lk_nodes = N, lk_time = sc_stamps q\<rparr>, is_env = sc_env q, is_lookups = 0, is_claims = sc_claims q, is_prefetched = []\<rparr>"
  have b: "btree_at cf (iter_node ?st) root t" using t by (simp add: tree_at_btree)
  obtain ist where s: "btree_scan (sc_limit q) (Suc 0) (sc_device q) cf (sc_type q) (sc_lo q) (sc_hi q) (sc_prefetch q) (sc_forwards q) root ?st =
      Inr (STATUS_OK, take (sc_limit q) (in_direction (sc_forwards q) (key_range cf (sc_lo q) (sc_hi q) (tree_tuples (iter_node ?st) t))), ist)"
    "same_pages cf (iter_node ?st) (iter_node ist)" using btree_scan_ok [OF lex b k] by blast
  have "tree_at cf (iter_node ist) A root t" using same_pages_btree(1) [OF s(2) b] t by (simp add: tree_at_btree)
  then show ?thesis using s(1) same_pages_tuples [OF s(2) b] by (simp add: tree_scan_def)
qed

lemma put_answers:
  assumes d: "insert_done cf k msg ok A root t st (rc, gen, unique, st1)"
  shows "\<exists>A1 t1. tree_at cf (bt_nodes st1) A1 root t1 \<and> ok (bt_mini st1) A1 \<and>
    (\<forall>cs as. list_answers cf (tree_tuples (bt_nodes st1) t1) cs as \<longrightarrow>
       list_answers cf (tree_tuples (bt_nodes st) t) (Put k msg claims mem # cs) (Stored rc unique # as))"
proof -
  obtain A1 t1 where a: "tree_at cf (bt_nodes st1) A1 root t1" "ok (bt_mini st1) A1"
    "rc = STATUS_OK \<and> unique = Some (\<not> has_key cf k (tree_tuples (bt_nodes st) t)) \<and>
       tree_tuples (bt_nodes st1) t1 = inserted cf k msg (tree_tuples (bt_nodes st) t) \<or>
     rc = STATUS_NO_MEMORY \<and> unique = None \<and> tree_tuples (bt_nodes st1) t1 = tree_tuples (bt_nodes st) t"
    using d unfolding insert_done_def Let_def prod.case by blast
  then show ?thesis by (intro exI [of _ A1] exI [of _ t1]) auto
qed

context page_source
begin

lemma tree_run_answers:
  assumes stop: "fails Abort" and lex: "lexical cf"
  shows "tree_at cf (bt_nodes st) A root t \<Longrightarrow> ok (bt_mini st) A \<Longrightarrow> \<forall>c \<in> set cs. tree_op_ok cf c \<Longrightarrow>
    sat fails (\<lambda>(as, st'). list_answers cf (tree_tuples (bt_nodes st) t) cs as) (tree_run cf al root st cs)"
proof (induction cs arbitrary: st A t)
  case (Cons c cs)
  have rest: "sat fails (\<lambda>(as, st'). list_answers cf ts (c # cs) as) (obind (tree_run cf al root st1 cs) (\<lambda>(as, st2). Inr (a # as, st2)))"
    if "tree_at cf (bt_nodes st1) A1 root t1" "ok (bt_mini st1) A1"
      "\<And>as. list_answers cf (tree_tuples (bt_nodes st1) t1) cs as \<Longrightarrow> list_answers cf ts (c # cs) (a # as)" for a A1 t1 st1 ts
    by (rule sat_obind [OF Cons.IH [OF that(1,2)]]) (use Cons.prems(3) that(3) in auto)
  show ?case
  proof (cases c)
    case (Put k msg claims mem)
    let ?st = "st\<lparr>bt_claims := claims, bt_mem := mem\<rparr>"
    have ins: "insert_ok cf k msg" "msg_type msg \<in> {MESSAGE_TYPE_INSERT, MESSAGE_TYPE_UPDATE, MESSAGE_TYPE_DELETE}"
      using Cons.prems(3) Put by (auto simp: user_message_def)
    have "sat fails (insert_done cf k msg ok A root t ?st) (btree_insert cf al root k msg ?st)"
      by (rule btree_insert_done [OF ins]) (use Cons.prems(1,2) stop in \<open>simp_all add: fits_def\<close>)
    then show ?thesis
      unfolding tree_run.simps Put tree_do.simps
    proof (rule sat_obind [OF sat_obind])
      fix x assume x: "insert_done cf k msg ok A root t ?st x"
      obtain rc gen unique st1 where e: "x = (rc, gen, unique, st1)" by (cases x)
      obtain A1 t1 where a: "tree_at cf (bt_nodes st1) A1 root t1" "ok (bt_mini st1) A1"
        "\<And>cs as. list_answers cf (tree_tuples (bt_nodes st1) t1) cs as \<Longrightarrow>
           list_answers cf (tree_tuples (bt_nodes st) t) (Put k msg claims mem # cs) (Stored rc unique # as)"
        using put_answers [OF x [unfolded e], of claims mem] by auto
      show "sat fails (\<lambda>(a, st1). sat fails (\<lambda>(as, st'). list_answers cf (tree_tuples (bt_nodes st) t) (Put k msg claims mem # cs) as)
          (obind (tree_run cf al root st1 cs) (\<lambda>(as, st2). Inr (a # as, st2))))
        (case x of (rc, gen, unique, st1) \<Rightarrow> Inr (Stored rc unique, st1))"
        using rest [unfolded Put, OF a(1,2) a(3)] by (simp add: e)
    qed auto
  next
    case (Get k E type stamps)
    have k: "key_is_user_key k" "key_short k" using Cons.prems(3) Get by simp_all
    obtain result P where r: "btree_lookup_with_ref cf E root type k \<lparr>lk_nodes = bt_nodes st, lk_time = stamps\<rparr> = (result, P)" by fastforce
    note f = tree_at_lookup [OF lex k Cons.prems(1) r]
    let ?st1 = "st\<lparr>bt_nodes := lk_nodes P\<rparr>"
    have "list_answers cf (tree_tuples (bt_nodes st) t) (c # cs) (Found result # as)"
      if "list_answers cf (tree_tuples (bt_nodes ?st1) t) cs as" for as
    proof -
      have "bt_nodes ?st1 = lk_nodes P" by simp
      then show ?thesis using that f(1) unfolding Get by (simp only: f(3) list_answers.simps)
    qed
    then have "sat fails (\<lambda>(as, st'). list_answers cf (tree_tuples (bt_nodes st) t) (c # cs) as)
        (obind (tree_run cf al root ?st1 cs) (\<lambda>(as, st2). Inr (Found result # as, st2)))"
      by (intro rest [of ?st1 A t]) (use f(2) Cons.prems(2) in simp_all)
    then show ?thesis by (simp add: Get r)
  next
    case (Scan q)
    have k: "key_short (sc_lo q)" "key_short (sc_hi q)" using Cons.prems(3) Scan by simp_all
    obtain ist where s: "tree_scan cf root (bt_nodes st) q = Inr (STATUS_OK, take (sc_limit q) (in_direction (sc_forwards q)
        (key_range cf (sc_lo q) (sc_hi q) (tree_tuples (bt_nodes st) t))), ist)" "tree_at cf (iter_node ist) A root t"
      "tree_tuples (iter_node ist) t = tree_tuples (bt_nodes st) t" using tree_at_scan [OF lex k Cons.prems(1)] by blast
    then show ?thesis unfolding tree_run.simps Scan tree_do.simps
      using rest [unfolded Scan, of "st\<lparr>bt_nodes := iter_node ist\<rparr>" A t] Cons.prems(2) by (simp add: s)
  qed
qed simp

end

end
