(* ===== verification/RcProofs.thy ===== *)
theory RcProofs
  imports RcAllocator
begin

text \<open>
  The invariant of the reference-count allocator and the effect of its operations: the counts
  are those of an array of extents, the statistics count the extents in use, an allocation
  finds a free extent when there is one.
\<close>

section \<open>Configurations\<close>

definition cfg_ok :: "allocator_config \<Rightarrow> bool" where
  "cfg_ok c \<longleftrightarrow> c = allocator_config_init (ac_io c) (ac_capacity c) \<and>
     rc_allocator_valid_config c = STATUS_OK"

lemma cfg_okD:
  assumes "cfg_ok c"
  shows "ioc_page_size (ac_io c) = 4096" and "ioc_extent_size (ac_io c) = 131072"
    and "0 < unat (ac_extent_capacity c)" and "131072 * unat (ac_extent_capacity c) < 2 ^ 64"
    and "ac_extent_mask c = NOT 131071"
    and "131072 * unat (ac_extent_capacity c) = unat (ac_capacity c)"
    and "4096 * unat (ac_page_capacity c) = unat (ac_capacity c)"
proof -
  have v: "rc_allocator_valid_config c = STATUS_OK" and i: "c = allocator_config_init (ac_io c) (ac_capacity c)"
    using assms by (simp_all add: cfg_ok_def)
  show p: "ioc_page_size (ac_io c) = 4096" and e: "ioc_extent_size (ac_io c) = 131072"
    using v by (auto simp: rc_allocator_valid_config_def laio_config_valid_def al_consts split: if_splits)
  show "0 < unat (ac_extent_capacity c)"
    using v by (auto simp: rc_allocator_valid_config_def unat_gt_0 split: if_splits)
  have ec: "ac_extent_capacity c = ac_capacity c div 131072" "ac_page_capacity c = ac_capacity c div 4096"
    using arg_cong [OF i, of ac_extent_capacity] arg_cong [OF i, of ac_page_capacity]
    by (simp_all add: allocator_config_init_def e p)
  have le: "131072 * unat (ac_extent_capacity c) \<le> unat (ac_capacity c)"
    "4096 * unat (ac_page_capacity c) \<le> unat (ac_capacity c)"
    by (simp_all add: ec unat_div)
  then show lt: "131072 * unat (ac_extent_capacity c) < 2 ^ 64"
    using unat_u64_lt [of "ac_capacity c"] by simp
  have eq: "ac_capacity c = 131072 * ac_extent_capacity c" "ac_capacity c = 4096 * ac_page_capacity c"
    using v by (auto simp: rc_allocator_valid_config_def e p split: if_splits)
  have lt': "4096 * unat (ac_page_capacity c) < 2 ^ 64"
    using le(2) unat_u64_lt [of "ac_capacity c"] by simp
  show "131072 * unat (ac_extent_capacity c) = unat (ac_capacity c)"
    using arg_cong [OF eq(1), of unat] lt by (simp add: unat_word_ariths)
  show "4096 * unat (ac_page_capacity c) = unat (ac_capacity c)"
    using arg_cong [OF eq(2), of unat] lt' by (simp add: unat_word_ariths)
  have "floor_log2 131072 = 17" by (simp add: floor_log2.simps)
  then show "ac_extent_mask c = NOT 131071"
    using arg_cong [OF i, of ac_extent_mask] by (simp add: allocator_config_init_def e)
qed

text \<open>The base addresses of the extents, and the number of the extent at an address.\<close>

definition extent_addrs :: "allocator_config \<Rightarrow> u64 set" where
  "extent_addrs c = {a. 131072 dvd unat a \<and> unat a div 131072 < unat (ac_extent_capacity c)}"

definition extent_no :: "u64 \<Rightarrow> nat" where
  "extent_no a = unat a div 131072"

lemma extent_no_div: "cfg_ok (rc_cfg al) \<Longrightarrow> unat (a div rc_allocator_extent_size al) = extent_no a"
  by (simp add: rc_allocator_extent_size_def cfg_okD extent_no_def unat_div)

lemma extent_no_inj: "a \<in> extent_addrs c \<Longrightarrow> b \<in> extent_addrs c \<Longrightarrow> extent_no a = extent_no b \<Longrightarrow> a = b"
  by (metis (no_types, lifting) dvd_mult_div_cancel extent_addrs_def extent_no_def mem_Collect_eq word_unat_eq_iff)

lemma extent_no_lt: "a \<in> extent_addrs c \<Longrightarrow> extent_no a < unat (ac_extent_capacity c)"
  by (simp add: extent_addrs_def extent_no_def)

lemma extent_addr:
  assumes "cfg_ok c" and "h < ac_extent_capacity c"
  shows "unat (h * 131072) = unat h * 131072" and "h * 131072 \<in> extent_addrs c"
    and "extent_no (h * 131072) = unat h"
proof -
  have "131072 * unat h < 131072 * unat (ac_extent_capacity c)"
    using assms(2) by (simp add: word_less_nat_alt)
  also note cfg_okD(4) [OF assms(1)]
  finally show u: "unat (h * 131072) = unat h * 131072" by (simp add: unat_word_ariths)
  show "h * 131072 \<in> extent_addrs c" "extent_no (h * 131072) = unat h"
    using assms(2) by (simp_all add: extent_addrs_def extent_no_def u word_less_nat_alt)
qed

lemma base_addr:
  assumes "cfg_ok c"
  shows "unat (allocator_config_extent_base_addr c a) = unat a div 131072 * 131072"
    and "a \<in> extent_addrs c \<Longrightarrow> allocator_config_extent_base_addr c a = a"
proof -
  have "allocator_config_extent_base_addr c a = a AND NOT (mask 17)"
    by (simp add: allocator_config_extent_base_addr_def cfg_okD(5) [OF assms] mask_eq_exp_minus_1)
  also have "\<dots> = push_bit 17 (drop_bit 17 a)"
    by (rule bit_eqI) (auto simp: bit_and_iff bit_not_iff bit_mask_iff bit_push_bit_iff bit_drop_bit_eq
        dest: bit_imp_le_length)
  finally have "unat (allocator_config_extent_base_addr c a) = take_bit 64 (push_bit 17 (drop_bit 17 (unat a)))"
    using unat_u64_lt [of a] by (simp add: unsigned_push_bit_eq unsigned_drop_bit_eq take_bit_nat_eq_self)
  also have "\<dots> = unat a div 131072 * 131072"
  proof -
    have "unat a div 131072 * 131072 < 2 ^ 64"
      using unat_u64_lt [of a] div_times_less_eq_dividend [of "unat a" 131072] by simp
    then show ?thesis by (simp add: push_bit_eq_mult drop_bit_eq_div take_bit_nat_eq_self)
  qed
  finally show b: "unat (allocator_config_extent_base_addr c a) = unat a div 131072 * 131072" .
  show "allocator_config_extent_base_addr c a = a" if "a \<in> extent_addrs c"
    using that b by (auto simp: extent_addrs_def word_unat_eq_iff)
qed

section \<open>Counting the extents in use\<close>

definition in_use_count :: "(nat \<Rightarrow> u32) \<Rightarrow> nat \<Rightarrow> int" where
  "in_use_count f n = int (card {i. i < n \<and> f i \<noteq> 0})"

lemma in_use_count_upd:
  assumes "k < n"
  shows "in_use_count (f(k := v)) n =
    in_use_count f n - (if f k \<noteq> 0 then 1 else 0) + (if v \<noteq> 0 then 1 else 0)"
proof -
  define R where "R = {i. i < n \<and> f i \<noteq> 0} - {k}"
  have "{i. i < n \<and> (f(k := v)) i \<noteq> 0} = (if v \<noteq> 0 then insert k R else R)"
    and "{i. i < n \<and> f i \<noteq> 0} = (if f k \<noteq> 0 then insert k R else R)"
    using assms by (auto simp: R_def)
  moreover have "finite R" "k \<notin> R" by (simp_all add: R_def)
  then have "card (insert k R) = Suc (card R)" by simp
  ultimately show ?thesis by (simp add: in_use_count_def)
qed

lemma in_use_count_0 [simp]: "in_use_count (\<lambda>_. 0) n = 0"
  by (simp add: in_use_count_def)

lemma in_use_count_filter: "int (length (filter (\<lambda>i. f i \<noteq> 0) [0..<n])) = in_use_count f n"
  using distinct_card [of "filter (\<lambda>i. f i \<noteq> 0) [0..<n]"]
  by (simp add: in_use_count_def distinct_filter)

definition footprint :: "'c rc_allocator \<Rightarrow> int" where
  "footprint al = (\<Sum>t\<in>UNIV. extent_allocs al t - extent_deallocs al t)"

lemma sum_upd_page_type:
  fixes f g :: "page_type \<Rightarrow> int"
  shows "(\<Sum>t\<in>UNIV. (if t = k then v else f t) - g t) = (\<Sum>t\<in>UNIV. f t - g t) + (v - f k)"
    and "(\<Sum>t\<in>UNIV. f t - (if t = k then v else g t)) = (\<Sum>t\<in>UNIV. f t - g t) - (v - g k)"
  by (simp_all add: sum.remove [OF finite UNIV_I, of _ k])

section \<open>The invariant\<close>

definition rc_inv :: "allocator_config \<Rightarrow> int \<Rightarrow> 'c rc_allocator \<Rightarrow> bool" where
  "rc_inv c base al \<longleftrightarrow> rc_cfg al = c \<and> cfg_ok c \<and>
     curr_allocated al = in_use_count (rc_ref_count al) (unat (ac_extent_capacity c)) \<and>
     curr_allocated al = base + footprint al \<and>
     length (rc_splinters al) = RC_ALLOCATOR_MAX_ROOT_IDS"

definition rc_refs :: "'c rc_allocator \<Rightarrow> u64 \<Rightarrow> u32" where
  "rc_refs al a = rc_ref_count al (extent_no a)"

definition rc_meta :: "'c rc_allocator \<Rightarrow> u64 list \<times> 'c \<times> (u64 list \<times> 'c) \<times> (nat \<Rightarrow> u32)" where
  "rc_meta al = (rc_splinters al, rc_checksum al, disk_meta al, disk_refs al)"

lemma rc_invD: "rc_inv c b al \<Longrightarrow> rc_cfg al = c" "rc_inv c b al \<Longrightarrow> cfg_ok c"
  by (simp_all add: rc_inv_def)

lemma rc_get_ref: "cfg_ok (rc_cfg al) \<Longrightarrow> rc_allocator_get_ref al a = rc_refs al a"
  by (simp add: rc_allocator_get_ref_def rc_allocator_extent_number_def rc_refs_def extent_no_div)

text \<open>Refs as a function of the address: only the extent itself changes.\<close>

lemma rc_refs_upd:
  assumes "a \<in> extent_addrs c" and "b \<in> extent_addrs c" and "rc_ref_count al' = (rc_ref_count al)(extent_no a := v)"
  shows "rc_refs al' b = (if b = a then v else rc_refs al b)"
  using assms extent_no_inj [OF assms(2,1)] by (auto simp: rc_refs_def)

section \<open>Increment and decrement\<close>

lemma inc_ref_effect:
  assumes inv: "rc_inv c base al" and a: "a \<in> extent_addrs c"
    and ret: "rc_allocator_inc_ref al a = Inr (r, al')"
  shows "rc_inv c base al'" and "r = rc_refs al a + 1" and "rc_refs al a \<noteq> 0" and "r \<noteq> 0"
    and "b \<in> extent_addrs c \<Longrightarrow> rc_refs al' b = (if b = a then r else rc_refs al b)"
    and "rc_meta al' = rc_meta al"
proof -
  note i = rc_invD [OF inv]
  have n: "unat (a div rc_allocator_extent_size al) = extent_no a" using i by (simp add: extent_no_div)
  have r: "r = rc_refs al a + 1" "r \<noteq> 1" "r \<noteq> 0" and al': "al' = set_ref al (extent_no a) r"
    using ret by (auto simp: rc_allocator_inc_ref_def n rc_refs_def Let_def split: if_splits)
  show "r = rc_refs al a + 1" "r \<noteq> 0" by fact+
  show nz: "rc_refs al a \<noteq> 0" using r by auto
  show "rc_inv c base al'"
    using inv r nz extent_no_lt [OF a]
    by (simp add: rc_inv_def al' set_ref_def footprint_def in_use_count_upd) (simp add: rc_refs_def)
  show "rc_refs al' b = (if b = a then r else rc_refs al b)" if "b \<in> extent_addrs c"
    by (rule rc_refs_upd [OF a that]) (simp add: al' set_ref_def)
  show "rc_meta al' = rc_meta al" by (simp add: rc_meta_def al' set_ref_def)
qed

lemma inc_ref_returns:
  assumes "rc_inv c base al" and "rc_refs al a \<noteq> 0" and "rc_refs al a + 1 \<noteq> 0"
  shows "\<exists>al'. rc_allocator_inc_ref al a = Inr (rc_refs al a + 1, al')"
  using assms rc_invD [OF assms(1)]
  by (auto simp: rc_allocator_inc_ref_def extent_no_div rc_refs_def Let_def)

lemma dec_ref_effect:
  assumes inv: "rc_inv c base al" and a: "a \<in> extent_addrs c"
    and ret: "rc_allocator_dec_ref al a t = Inr (r, al')"
  shows "rc_inv c base al'" and "r = rc_refs al a - 1" and "rc_refs al a \<noteq> 0"
    and "b \<in> extent_addrs c \<Longrightarrow> rc_refs al' b = (if b = a then r else rc_refs al b)"
    and "rc_meta al' = rc_meta al"
proof -
  note i = rc_invD [OF inv]
  have n: "unat (a div rc_allocator_extent_size al) = extent_no a" using i by (simp add: extent_no_div)
  define al1 where "al1 = set_ref al (extent_no a) r"
  have r: "r = rc_refs al a - 1" "r \<noteq> - 1"
    and al': "al' = (if r = 0 then al1\<lparr>curr_allocated := curr_allocated al1 - 1,
        extent_deallocs := (extent_deallocs al1)(t := extent_deallocs al1 t + 1)\<rparr> else al1)"
    using ret by (auto simp: rc_allocator_dec_ref_def n rc_refs_def al1_def Let_def split: if_splits)
  show "r = rc_refs al a - 1" by fact
  show nz: "rc_refs al a \<noteq> 0" using r by auto
  show "rc_inv c base al'"
    using inv nz extent_no_lt [OF a]
    by (auto simp: rc_inv_def al' al1_def set_ref_def footprint_def in_use_count_upd sum_upd_page_type)
      (simp_all add: rc_refs_def)
  show "rc_refs al' b = (if b = a then r else rc_refs al b)" if "b \<in> extent_addrs c"
    by (rule rc_refs_upd [OF a that]) (simp add: al' al1_def set_ref_def)
  show "rc_meta al' = rc_meta al" by (simp add: rc_meta_def al' al1_def set_ref_def)
qed

lemma dec_ref_returns:
  assumes "rc_inv c base al" and "rc_refs al a \<noteq> 0" and "rc_refs al a = 1 \<longrightarrow> t \<noteq> PAGE_TYPE_INVALID"
  shows "\<exists>al'. rc_allocator_dec_ref al a t = Inr (rc_refs al a - 1, al')"
proof -
  have "rc_refs al a - 1 \<noteq> - 1" "rc_refs al a - 1 = 0 \<longleftrightarrow> rc_refs al a = 1" using assms(2) by auto
  then show ?thesis
    using assms(3) rc_invD [OF assms(1)]
    by (auto simp: rc_allocator_dec_ref_def extent_no_div rc_refs_def Let_def)
qed

text \<open>
  Allocation of extents, creation, unmount and mount of the allocator, and the super-block
  directory in its meta page.
\<close>

section \<open>The scan\<close>

lemma alloc_scan_effect:
  assumes "alloc_scan fuel first al = Inr (r, al')" and "0 < ac_extent_capacity (rc_cfg al)"
  shows "\<exists>hnd. al' = (case r of None \<Rightarrow> al\<lparr>rc_hand := hnd\<rparr>
                      | Some h \<Rightarrow> set_ref (al\<lparr>rc_hand := hnd\<rparr>) (unat h) 2) \<and>
    (\<forall>h. r = Some h \<longrightarrow> h < ac_extent_capacity (rc_cfg al) \<and> rc_ref_count al (unat h) = 0)"
  using assms
proof (induction fuel arbitrary: al)
  case (Suc fuel)
  let ?cap = "ac_extent_capacity (rc_cfg al)" and ?al1 = "al\<lparr>rc_hand := rc_hand al + 1\<rparr>"
  let ?h = "rc_hand al mod ?cap"
  show ?case
  proof (cases "rc_ref_count al (unat ?h) = 0")
    case True
    then have "r = Some ?h" "al' = set_ref ?al1 (unat ?h) 2" using Suc.prems by (auto simp: Let_def)
    then show ?thesis using True Suc.prems(2) by (auto intro: word_mod_less_divisor)
  next
    case False
    show ?thesis
    proof (cases "(?h + 1) mod ?cap \<noteq> first")
      case True
      then have "alloc_scan fuel first ?al1 = Inr (r, al')" using Suc.prems(1) False by (simp add: Let_def)
      from Suc.IH [OF this] Suc.prems(2) show ?thesis by (auto split: option.splits)
    next
      case F: False
      then have "r = None" "al' = ?al1" using Suc.prems(1) False by (auto simp: Let_def)
      then show ?thesis by auto
    qed
  qed
qed simp

text \<open>
  Away from a wrap of the 64-bit hand, the scan looks at every extent once.
\<close>

lemma alloc_scan_complete:
  assumes "unat (rc_hand al) = H + j" and "j < C" and "C = unat (ac_extent_capacity (rc_cfg al))"
    and "H + C < 2 ^ 64" and "unat first = H mod C" and "C - j \<le> fuel"
    and "\<forall>i<j. rc_ref_count al ((H + i) mod C) \<noteq> 0"
  shows "\<exists>r al'. alloc_scan fuel first al = Inr (r, al') \<and>
    (r = None \<longrightarrow> (\<forall>i<C. rc_ref_count al ((H + i) mod C) \<noteq> 0))"
  using assms
proof (induction fuel arbitrary: al j)
  case (Suc fuel)
  let ?cap = "ac_extent_capacity (rc_cfg al)" and ?al1 = "al\<lparr>rc_hand := rc_hand al + 1\<rparr>"
  let ?h = "rc_hand al mod ?cap"
  have h: "unat ?h = (H + j) mod C" using Suc.prems by (simp add: unat_mod)
  have C: "C < 2 ^ 64" using unat_u64_lt [of ?cap] Suc.prems(3) by simp
  have h1: "unat ((?h + 1) mod ?cap) = (H + Suc j) mod C"
  proof -
    have "unat ?h < C" using h Suc.prems(2) by simp
    then have "unat (?h + 1) = Suc (unat ?h)" using C by (simp add: unat_word_ariths)
    then show ?thesis using Suc.prems(1,3) by (simp add: unat_mod mod_Suc_eq)
  qed
  show ?case
  proof (cases "rc_ref_count al (unat ?h) = 0")
    case True
    then show ?thesis by (simp add: Let_def)
  next
    case False
    have step: "\<forall>i<Suc j. rc_ref_count al ((H + i) mod C) \<noteq> 0"
      using Suc.prems(7) False h by (auto simp: less_Suc_eq)
    show ?thesis
    proof (cases "Suc j < C")
      case True
      have "(H + Suc j) mod C \<noteq> H mod C"
        using True by (metis add.commute add_cancel_right_left dvd_imp_le mod_eq_dvd_iff_nat le_add2
            diff_add_inverse2 nat.distinct(1) not_le zero_less_Suc)
      then have ne: "(?h + 1) mod ?cap \<noteq> first" using h1 Suc.prems(5) by metis
      have "unat (rc_hand ?al1) = H + Suc j"
      proof -
        have "unat (rc_hand al) + 1 < 2 ^ 64" using Suc.prems(1,4) True by simp
        then show ?thesis using Suc.prems(1) by (simp add: unat_word_ariths)
      qed
      from Suc.IH [OF this True] Suc.prems step show ?thesis
        using False ne by (simp add: Let_def)
    next
      case F: False
      then have j: "Suc j = C" using Suc.prems(2) by simp
      then have "unat ((?h + 1) mod ?cap) = unat first" using h1 Suc.prems(5) by simp
      then have "(?h + 1) mod ?cap = first" by (simp add: word_unat_eq_iff)
      then show ?thesis using False step j by (simp add: Let_def)
    qed
  qed
qed simp

lemma residues_all: "0 < C \<Longrightarrow> k < (C :: nat) \<Longrightarrow> \<exists>i<C. (H + i) mod C = k"
proof (intro exI conjI)
  assume C: "0 < C" "k < C"
  let ?i = "(k + (C - H mod C)) mod C"
  show "?i < C" using C by simp
  have "(H + ?i) mod C = (H mod C + (k + (C - H mod C))) mod C" by (simp add: mod_simps)
  also have "H mod C + (k + (C - H mod C)) = k + C" using mod_less_divisor [OF C(1), of H] by linarith
  finally show "(H + ?i) mod C = k" using C by simp
qed

section \<open>Allocation\<close>

lemma alloc_parts:
  assumes "rc_allocator_alloc al t = Inr (st, r, al')"
  obtains h al1 where "alloc_scan (Suc (2 * unat (ac_extent_capacity (rc_cfg al))))
      (rc_hand al mod ac_extent_capacity (rc_cfg al)) al = Inr (h, al1)"
    and "case h of None \<Rightarrow> st = STATUS_NO_SPACE \<and> r = None \<and> al' = al1
         | Some i \<Rightarrow> st = STATUS_OK \<and> r = Some (i * rc_allocator_extent_size al1) \<and>
            al' = al1\<lparr>curr_allocated := curr_allocated al1 + 1,
               max_allocated := max (max_allocated al1) (curr_allocated al1 + 1),
               extent_allocs := (extent_allocs al1)(t := extent_allocs al1 t + 1)\<rparr>"
  using assms by (auto simp: rc_allocator_alloc_def Let_def elim!: obind_InrE split: option.splits)

lemma alloc_effect_rc:
  assumes inv: "rc_inv c base al" and ret: "rc_allocator_alloc al t = Inr (st, r, al')"
  shows "rc_inv c base al'"
    and "r = None \<Longrightarrow> st = STATUS_NO_SPACE \<and> rc_refs al' = rc_refs al"
    and "r = Some a \<Longrightarrow> st = STATUS_OK \<and> a \<in> extent_addrs c \<and> rc_refs al a = 0 \<and>
      (\<forall>b\<in>extent_addrs c. rc_refs al' b = (if b = a then 2 else rc_refs al b))"
    and "rc_meta al' = rc_meta al" and "st = STATUS_OK \<longleftrightarrow> r \<noteq> None"
proof -
  note i = rc_invD [OF inv]
  have cap: "0 < ac_extent_capacity (rc_cfg al)"
    using cfg_okD(3) [OF i(2)] by (simp add: i word_less_nat_alt)
  obtain h al1 where s: "alloc_scan (Suc (2 * unat (ac_extent_capacity (rc_cfg al))))
      (rc_hand al mod ac_extent_capacity (rc_cfg al)) al = Inr (h, al1)"
    and p: "case h of None \<Rightarrow> st = STATUS_NO_SPACE \<and> r = None \<and> al' = al1
         | Some i \<Rightarrow> st = STATUS_OK \<and> r = Some (i * rc_allocator_extent_size al1) \<and>
            al' = al1\<lparr>curr_allocated := curr_allocated al1 + 1,
               max_allocated := max (max_allocated al1) (curr_allocated al1 + 1),
               extent_allocs := (extent_allocs al1)(t := extent_allocs al1 t + 1)\<rparr>"
    by (rule alloc_parts [OF ret])
  obtain hnd where al1: "al1 = (case h of None \<Rightarrow> al\<lparr>rc_hand := hnd\<rparr>
        | Some h \<Rightarrow> set_ref (al\<lparr>rc_hand := hnd\<rparr>) (unat h) 2)"
    and free: "\<And>x. h = Some x \<Longrightarrow> x < ac_extent_capacity (rc_cfg al) \<and> rc_ref_count al (unat x) = 0"
    using alloc_scan_effect [OF s cap] by blast
  show "st = STATUS_OK \<longleftrightarrow> r \<noteq> None" using p by (auto split: option.splits)
  show "rc_meta al' = rc_meta al"
    using p al1 by (auto simp: rc_meta_def set_ref_def split: option.splits)
  show "st = STATUS_NO_SPACE \<and> rc_refs al' = rc_refs al" if "r = None"
    using p al1 that by (auto simp: rc_refs_def fun_eq_iff split: option.splits)
  show "rc_inv c base al'"
  proof (cases h)
    case None
    then show ?thesis using p al1 inv by (simp add: rc_inv_def footprint_def)
  next
    case (Some x)
    then show ?thesis
      using p al1 inv free i
      by (simp add: rc_inv_def footprint_def set_ref_def in_use_count_upd word_less_nat_alt
          sum_upd_page_type)
  qed
  show "st = STATUS_OK \<and> a \<in> extent_addrs c \<and> rc_refs al a = 0 \<and>
      (\<forall>b\<in>extent_addrs c. rc_refs al' b = (if b = a then 2 else rc_refs al b))" if r: "r = Some a"
  proof -
    obtain x where x: "h = Some x" "a = x * 131072" "st = STATUS_OK" "x < ac_extent_capacity c"
        "rc_ref_count al (unat x) = 0" "rc_ref_count al' = (rc_ref_count al)(unat x := 2)"
      using p al1 r free i by (cases h) (auto simp: set_ref_def rc_allocator_extent_size_def cfg_okD)
    note xa = extent_addr [OF i(2) x(4)]
    have "rc_refs al' b = (if b = a then 2 else rc_refs al b)" if "b \<in> extent_addrs c" for b
      using xa x by (intro rc_refs_upd [OF _ that]) simp_all
    then show ?thesis using x xa by (simp add: rc_refs_def)
  qed
qed

lemma alloc_complete_rc:
  assumes inv: "rc_inv c base al" and nw: "unat (rc_hand al) + unat (ac_extent_capacity c) < 2 ^ 64"
    and a: "a \<in> extent_addrs c" "rc_refs al a = 0"
  shows "\<exists>b al'. rc_allocator_alloc al t = Inr (STATUS_OK, Some b, al')"
proof -
  note i = rc_invD [OF inv]
  let ?C = "unat (ac_extent_capacity c)"
  have C: "0 < ?C" using cfg_okD(3) [OF i(2)] .
  have "\<exists>h al1. alloc_scan (Suc (2 * ?C)) (rc_hand al mod ac_extent_capacity c) al = Inr (h, al1) \<and>
      (h = None \<longrightarrow> (\<forall>i<?C. rc_ref_count al ((unat (rc_hand al) + i) mod ?C) \<noteq> 0))"
    by (rule alloc_scan_complete [where j = 0]) (use i nw C in \<open>simp_all add: unat_mod\<close>)
  then obtain h al1 where s: "alloc_scan (Suc (2 * ?C)) (rc_hand al mod ac_extent_capacity c) al = Inr (h, al1)"
    and n: "h = None \<Longrightarrow> \<forall>i<?C. rc_ref_count al ((unat (rc_hand al) + i) mod ?C) \<noteq> 0" by blast
  have "h \<noteq> None"
    using n residues_all [OF C extent_no_lt [OF a(1)], of "unat (rc_hand al)"] a(2)
    by (force simp: rc_refs_def)
  then show ?thesis using s i by (auto simp: rc_allocator_alloc_def Let_def simp del: alloc_scan.simps)
qed

text \<open>The scan ends: an allocation answers, with or without an extent.\<close>

lemma alloc_returns_rc:
  assumes inv: "rc_inv c base al" and nw: "unat (rc_hand al) + unat (ac_extent_capacity c) < 2 ^ 64"
  shows "\<exists>st r al'. rc_allocator_alloc al t = Inr (st, r, al')"
proof -
  note i = rc_invD [OF inv]
  let ?C = "unat (ac_extent_capacity c)"
  have "\<exists>h al1. alloc_scan (Suc (2 * ?C)) (rc_hand al mod ac_extent_capacity c) al = Inr (h, al1) \<and>
      (h = None \<longrightarrow> (\<forall>i<?C. rc_ref_count al ((unat (rc_hand al) + i) mod ?C) \<noteq> 0))"
    by (rule alloc_scan_complete [where j = 0]) (use i nw cfg_okD(3) [OF i(2)] in \<open>simp_all add: unat_mod\<close>)
  then obtain h al1 where "alloc_scan (Suc (2 * ?C)) (rc_hand al mod ac_extent_capacity c) al = Inr (h, al1)"
    by blast
  then show ?thesis
    using i by (cases h) (simp_all add: rc_allocator_alloc_def Let_def del: alloc_scan.simps)
qed

text \<open>With a hand that wraps, the scan still ends: within two rounds.\<close>

lemma scan_turn:
  fixes al :: "'c rc_allocator"
  defines "al1 \<equiv> al\<lparr>rc_hand := rc_hand al + 1\<rparr>" and "C \<equiv> unat (ac_extent_capacity (rc_cfg al))"
  assumes "0 < C" and "unat first < C" and "(unat (rc_hand al) + 1) mod C \<noteq> unat first \<Longrightarrow> \<exists>x. alloc_scan n first al1 = Inr x"
  shows "\<exists>x. alloc_scan (Suc n) first al = Inr x"
proof -
  let ?cap = "ac_extent_capacity (rc_cfg al)"
  let ?h = "rc_hand al mod ?cap"
  have "unat ?h < C" using assms(3) by (simp add: unat_mod C_def)
  then have "unat (?h + 1) = Suc (unat ?h)" using unat_u64_lt [of ?cap] by (simp add: unat_word_ariths C_def)
  then have e: "unat ((?h + 1) mod ?cap) = (unat (rc_hand al) + 1) mod C" by (simp add: unat_mod mod_Suc_eq C_def)
  show ?thesis
  proof (cases "(?h + 1) mod ?cap = first")
    case False
    then have "(unat (rc_hand al) + 1) mod C \<noteq> unat first" using e by (metis word_unat_eq_iff)
    then show ?thesis using assms(5) False by (auto simp: Let_def al1_def)
  qed (simp add: Let_def)
qed

lemma scan_ends:
  "unat (rc_hand al) + j < 2 ^ 64 \<Longrightarrow> 0 < unat (ac_extent_capacity (rc_cfg al)) \<Longrightarrow>
   (unat (rc_hand al) + j + 1) mod unat (ac_extent_capacity (rc_cfg al)) = unat first \<Longrightarrow> j < n \<Longrightarrow>
   \<exists>x. alloc_scan n first al = Inr x"
proof (induction j arbitrary: n al)
  case 0
  then obtain n' where n: "n = Suc n'" by (cases n) auto
  show ?case
    unfolding n by (rule scan_turn) (use 0 mod_less_divisor [OF 0(2), of "unat (rc_hand al) + 1"] in simp_all)
next
  case (Suc j)
  then obtain n' where n: "n = Suc n'" by (cases n) auto
  let ?C = "unat (ac_extent_capacity (rc_cfg al))"
  have "unat first < ?C" using mod_less_divisor [OF Suc.prems(2), of "unat (rc_hand al) + Suc j + 1"] Suc.prems(3) by simp
  moreover have "unat (rc_hand al + 1) = unat (rc_hand al) + 1" using Suc.prems(1) by (simp add: unat_word_ariths)
  ultimately show ?case
    unfolding n by (intro scan_turn Suc.IH) (use Suc.prems n in simp_all)
qed

lemma scan_ends_wrap:
  "unat (rc_hand al) + k = 2 ^ 64 \<Longrightarrow> unat first < unat (ac_extent_capacity (rc_cfg al)) \<Longrightarrow>
   k + unat (ac_extent_capacity (rc_cfg al)) \<le> n \<Longrightarrow> \<exists>x. alloc_scan n first al = Inr x"
proof (induction k arbitrary: n al)
  case 0
  then show ?case using unat_u64_lt [of "rc_hand al"] by simp
next
  case (Suc k)
  then obtain n' where n: "n = Suc n'" by (cases n) auto
  let ?C = "unat (ac_extent_capacity (rc_cfg al))" and ?al1 = "al\<lparr>rc_hand := rc_hand al + 1\<rparr>"
  have "\<exists>x. alloc_scan n' first ?al1 = Inr x"
  proof (cases k)
    case 0
    then have "rc_hand al + 1 = 0" using Suc.prems(1) by (simp add: word_unat_eq_iff unat_word_ariths)
    then show ?thesis
      using Suc.prems 0 n unat_u64_lt [of "ac_extent_capacity (rc_cfg al)"]
      by (intro scan_ends [where j = "if unat first = 0 then ?C - 1 else unat first - 1"]) auto
  next
    case (Suc k')
    then have "unat (rc_hand al + 1) = unat (rc_hand al) + 1" using Suc.prems(1) by (simp add: unat_word_ariths)
    then show ?thesis by (intro Suc.IH) (use Suc.prems n in simp_all)
  qed
  then show ?case unfolding n using Suc.prems(2) by (intro scan_turn) simp_all
qed

lemma alloc_ends_rc:
  assumes inv: "rc_inv c base al"
  shows "\<exists>st r al'. rc_allocator_alloc al t = Inr (st, r, al')"
proof -
  note i = rc_invD [OF inv]
  let ?C = "unat (ac_extent_capacity c)" and ?first = "rc_hand al mod ac_extent_capacity c" and ?H = "unat (rc_hand al)"
  have C: "0 < ?C" using cfg_okD(3) [OF i(2)] .
  have f: "unat ?first = ?H mod ?C" by (simp add: unat_mod)
  have "\<exists>x. alloc_scan (Suc (2 * ?C)) ?first al = Inr x"
  proof (cases "?H + ?C \<le> 2 ^ 64")
    case True
    have "?H + (?C - 1) + 1 = ?H + ?C" using C by simp
    then have m: "(?H + (?C - 1) + 1) mod ?C = unat ?first" unfolding f by (simp only: mod_add_self2)
    show ?thesis by (rule scan_ends [where j = "?C - 1"]) (use True C i(1) m in simp_all)
  next
    case False
    then show ?thesis
      using C f i(1) unat_u64_lt [of "rc_hand al"] by (intro scan_ends_wrap [where k = "2 ^ 64 - ?H"]) simp_all
  qed
  then show ?thesis
    using i(1) by (auto simp: rc_allocator_alloc_def Let_def simp del: alloc_scan.simps split: option.splits)
qed

section \<open>Creation\<close>

lemma fresh_inv:
  assumes "cfg_ok c" and "length sp = RC_ALLOCATOR_MAX_ROOT_IDS"
  shows "rc_inv c 0 (rc_fresh c c0 sp (\<lambda>_. 0) dm dr)"
  using assms by (simp add: rc_inv_def rc_fresh_def footprint_def)

lemma init_alloc_effect:
  assumes inv: "rc_inv c base (snd x)" and ret: "init_alloc expected x = Inr y"
    and fresh: "\<forall>b\<in>extent_addrs c. extent_no b < n \<longleftrightarrow> rc_refs (snd x) b \<noteq> 0"
    and val: "\<forall>b\<in>extent_addrs c. rc_refs (snd x) b \<in> {0, 2}"
    and e: "unat expected = 131072 * n" and prev: "fst x \<noteq> expected"
  shows "rc_inv c base (snd y) \<and> fst y = expected \<and> rc_meta (snd y) = rc_meta (snd x) \<and>
    (\<forall>b\<in>extent_addrs c. extent_no b < Suc n \<longleftrightarrow> rc_refs (snd y) b \<noteq> 0) \<and>
    (\<forall>b\<in>extent_addrs c. rc_refs (snd y) b \<in> {0, 2})"
proof -
  from ret obtain st r where a: "rc_allocator_alloc (snd x) PAGE_TYPE_SUPERBLOCK = Inr (st, r, snd y)"
    and ad: "(case r of None \<Rightarrow> fst x | Some a \<Rightarrow> a) = expected" and y: "fst y = expected"
    by (auto simp: init_alloc_def Let_def elim!: obind_InrE split: if_splits)
  note ae = alloc_effect_rc [OF inv a]
  have r: "r = Some expected" using ad prev by (cases r) auto
  note ae3 = ae(3) [OF r]
  have n: "extent_no expected = n" by (simp add: extent_no_def e)
  have eq: "b = expected" if "b \<in> extent_addrs c" "extent_no b = n" for b
    using that ae3 n extent_no_inj by metis
  have "(extent_no b < Suc n \<longleftrightarrow> rc_refs (snd y) b \<noteq> 0) \<and> rc_refs (snd y) b \<in> {0, 2}"
    if b: "b \<in> extent_addrs c" for b
  proof (cases "b = expected")
    case True
    then show ?thesis using ae3 b n by simp
  next
    case False
    then have "extent_no b \<noteq> n" "rc_refs (snd y) b = rc_refs (snd x) b" using eq [OF b] ae3 b by auto
    then show ?thesis using fresh val b by (simp add: less_Suc_eq)
  qed
  then show ?thesis using ae(1,4) y by blast
qed

text \<open>
  After \<open>rc_allocator_init\<close> exactly the extents of the super blocks and of the reference counts
  are in use: the first one and those that hold the buffer.
\<close>

definition reserved_extents :: "allocator_config \<Rightarrow> nat" where
  "reserved_extents c = Suc (unat ((ref_buffer_size c + ioc_extent_size (ac_io c) - 1) div ioc_extent_size (ac_io c)))"

lemma init_effect_rc:
  assumes ret: "rc_allocator_init c mutex_ok mem_ok buf_ok c0 addr0 dm dr = Inr (Inr al)"
    and c: "c = allocator_config_init (ac_io c) (ac_capacity c)" and a0: "addr0 \<noteq> 0"
  shows "rc_inv c 0 al"
    and "b \<in> extent_addrs c \<Longrightarrow> rc_refs al b = (if extent_no b < reserved_extents c then AL_ONE_REF else AL_FREE)"
    and "rc_splinters al = replicate RC_ALLOCATOR_MAX_ROOT_IDS INVALID_ALLOCATOR_ROOT_ID"
proof -
  let ?ext = "ioc_extent_size (ac_io c)"
  let ?n = "unat ((ref_buffer_size c + ?ext - 1) div ?ext)"
  have ok: "cfg_ok c" using ret c by (auto simp: rc_allocator_init_def cfg_ok_def split: if_splits)
  note e = cfg_okD(2) [OF ok]
  define sp where "sp = replicate RC_ALLOCATOR_MAX_ROOT_IDS INVALID_ALLOCATOR_ROOT_ID"
  define al0 where "al0 = rc_fresh c c0 sp (\<lambda>_. 0) dm dr"
  obtain x y where x: "init_alloc RC_ALLOCATOR_BASE_OFFSET (addr0, al0) = Inr x"
    and y: "iterM (\<lambda>i. init_alloc (?ext * (of_nat i + 1))) [0..<?n] x = Inr y" and al: "al = snd y"
    using ret by (auto simp: rc_allocator_init_def rc_allocator_init_meta_page_def Let_def al0_def sp_def
        elim!: obind_InrE split: if_splits)
  let ?P = "\<lambda>i z. rc_inv c 0 (snd z) \<and> unat (fst z) = 131072 * i \<and> rc_meta (snd z) = rc_meta al0 \<and>
    (\<forall>b\<in>extent_addrs c. extent_no b < Suc i \<longleftrightarrow> rc_refs (snd z) b \<noteq> 0) \<and>
    (\<forall>b\<in>extent_addrs c. rc_refs (snd z) b \<in> {0, 2})"
  have i0: "rc_inv c 0 al0" unfolding al0_def by (rule fresh_inv [OF ok]) (simp add: sp_def)
  have p0: "?P 0 x"
    using init_alloc_effect [of c 0 "(addr0, al0)" RC_ALLOCATOR_BASE_OFFSET x 0] i0 x a0
    by (simp add: RC_ALLOCATOR_BASE_OFFSET_def) (simp add: al0_def rc_fresh_def rc_refs_def)
  have nb: "131072 * (i + 1) < (2 ^ 64 :: nat)" if "i < ?n" for i
  proof -
    have "?n \<le> unat (ref_buffer_size c + ?ext - 1) div 131072" by (simp add: unat_div e)
    then have "131072 * ?n \<le> unat (ref_buffer_size c + ?ext - 1)" by simp
    then show ?thesis using that unat_u64_lt [of "ref_buffer_size c + ?ext - 1"] by simp
  qed
  have "?P ?n y"
  proof (rule iterM_upt_invariant [OF y, of ?P])
    fix i z z' assume i: "i < ?n" and p: "?P i z" and r: "init_alloc (?ext * (of_nat i + 1)) z = Inr z'"
    have u: "unat (?ext * (of_nat i + 1)) = 131072 * Suc i"
    proof -
      have "?ext * (of_nat i + 1) = (of_nat (131072 * Suc i) :: u64)" by (simp add: e algebra_simps)
      then show ?thesis using nb [OF i] by (simp only: unat_of_nat) (simp add: take_bit_nat_eq_self)
    qed
    have "fst z \<noteq> ?ext * (of_nat i + 1)" using p u by auto
    then show "?P (Suc i) z'"
      using init_alloc_effect [of c 0 z "?ext * (of_nat i + 1)" z' "Suc i"] p r u by auto
  qed (use p0 in simp_all)
  then show "rc_inv c 0 al" and "rc_splinters al = replicate RC_ALLOCATOR_MAX_ROOT_IDS INVALID_ALLOCATOR_ROOT_ID"
    and "b \<in> extent_addrs c \<Longrightarrow> rc_refs al b = (if extent_no b < reserved_extents c then AL_ONE_REF else AL_FREE)"
    by (auto simp: al al0_def rc_meta_def rc_fresh_def sp_def reserved_extents_def al_consts)
qed

section \<open>Unmount and mount\<close>

lemma buffer_covers:
  assumes ok: "cfg_ok c" and i: "i < unat (ac_extent_capacity c)"
  shows "i < unat (ref_buffer_size c) div 4"
proof -
  let ?n = "unat (ac_extent_capacity c)"
  have n: "131072 * ?n < 2 ^ 64" by (rule cfg_okD(4) [OF ok])
  have "unat (ac_extent_capacity c * 4 + 4096 - 1) = ?n * 4 + 4095"
  proof -
    have "ac_extent_capacity c * 4 + 4096 - 1 = of_nat (?n * 4 + 4095)" by simp
    then show ?thesis using n by (simp only: unat_of_nat) (simp add: take_bit_nat_eq_self)
  qed
  then have "unat (ref_buffer_size c) = (?n * 4 + 4095) div 4096 * 4096 mod 2 ^ 64"
    by (simp add: ref_buffer_size_def roundup_def cfg_okD(1) [OF ok] unat_word_ariths unat_div)
  moreover have "(?n * 4 + 4095) div 4096 * 4096 < 2 ^ 64"
    using n div_times_less_eq_dividend [of "?n * 4 + 4095" 4096] by simp
  moreover have "?n * 4 \<le> (?n * 4 + 4095) div 4096 * 4096"
    using div_mult_mod_eq [of "?n * 4 + 4095" 4096] mod_less_divisor [of 4096 "?n * 4 + 4095"] by linarith
  ultimately show ?thesis using i by simp
qed

lemma unmount_mount:
  assumes inv: "rc_inv c base al" and meta: "disk_meta al = (rc_splinters al, csum (rc_splinters al))"
    and small: "unat (ref_buffer_size c) < 2 ^ 32"
    and u: "rc_allocator_unmount True al = Inr (dm, dr)"
  shows "\<exists>al'. rc_allocator_mount csum c True True True True dm dr = Inr (Inr al') \<and>
    rc_inv c (curr_allocated al) al' \<and> rc_splinters al' = rc_splinters al \<and>
    curr_allocated al' = curr_allocated al \<and>
    (\<forall>i<unat (ac_extent_capacity c). rc_ref_count al' i = rc_ref_count al i)"
proof -
  note ci = rc_invD [OF inv]
  note ok = ci(2)
  have "unat (ucast (ref_buffer_size c) :: u32) = unat (ref_buffer_size c)"
    using small by (simp add: unsigned_ucast_eq take_bit_nat_eq_self)
  then have dr: "dr i = rc_ref_count al i" if "i < unat (ac_extent_capacity c)" for i
    using u buffer_covers [OF ok that] by (auto simp: rc_allocator_unmount_def ci Let_def)
  have dm: "dm = (rc_splinters al, csum (rc_splinters al))"
    using u meta by (auto simp: rc_allocator_unmount_def Let_def)
  have cap: "ac_capacity c = ioc_extent_size (ac_io c) * ac_extent_capacity c"
    "ac_capacity c = ioc_page_size (ac_io c) * ac_page_capacity c"
    using ok by (auto simp: cfg_ok_def rc_allocator_valid_config_def split: if_splits)
  let ?al0 = "rc_fresh c (csum (rc_splinters al)) (rc_splinters al) dr dm dr"
  let ?n = "int (length (filter (\<lambda>i. rc_ref_count ?al0 i \<noteq> 0) [0..<unat (ac_extent_capacity c)]))"
  have m: "rc_allocator_mount csum c True True True True dm dr = Inr (Inr (?al0\<lparr>curr_allocated := ?n\<rparr>))"
    using cap by (simp add: rc_allocator_mount_def rc_allocator_init_meta_page_def dm cfg_okD(1,2) [OF ok]
        al_consts Let_def)
  have "?n = in_use_count dr (unat (ac_extent_capacity c))"
    unfolding in_use_count_filter by (simp add: rc_fresh_def)
  also have "\<dots> = in_use_count (rc_ref_count al) (unat (ac_extent_capacity c))"
    using dr by (simp add: in_use_count_def cong: conj_cong)
  finally have n: "?n = curr_allocated al" using inv by (simp add: rc_inv_def)
  show ?thesis
    unfolding m n using inv dr n [symmetric]
    by (auto simp: rc_inv_def rc_fresh_def footprint_def in_use_count_def cong: conj_cong)
qed

section \<open>The super-block directory\<close>

lemma find_root_SomeD: "find_root r xs = Some i \<Longrightarrow> i < length xs \<and> xs ! i = r"
  by (induction xs arbitrary: i) (auto split: if_splits)

lemma find_root_None: "find_root r xs = None \<longleftrightarrow> r \<notin> set xs"
  by (induction xs) auto

lemma find_root_first: "find_root r xs = Some i \<Longrightarrow> j < i \<Longrightarrow> xs ! j \<noteq> r"
proof (induction xs arbitrary: i j)
  case (Cons x xs)
  then show ?case by (cases j) (auto split: if_splits)
qed simp

lemma find_root_upd:
  assumes "find_root v xs = Some i" and "r \<noteq> v"
  shows "find_root r (xs[i := w]) =
    (if r = w then (case find_root r (take i xs) of None \<Rightarrow> Some i | Some j \<Rightarrow> Some j) else find_root r xs)"
  using assms
proof (induction xs arbitrary: i)
  case (Cons x xs)
  then show ?case by (cases i) (auto split: if_splits option.splits)
qed simp

end
