(* ===== verification/ExtentAllocator.thy ===== *)
theory ExtentAllocator
  imports RcProofs
begin

text \<open>
  The contract of an extent allocator, as its clients use it through the table of operations
  of \<open>allocator.h\<close>: an array of reference counts, one per extent of the configuration, of which
  every operation changes one. The reference-count allocator provides it.
\<close>

locale extent_allocator =
  fixes ops :: "('a, 'c) allocator_ops"
    and c :: allocator_config
    and inv :: "'a \<Rightarrow> bool"
    and refs :: "'a \<Rightarrow> u64 \<Rightarrow> u32"
  assumes config: "inv a \<Longrightarrow> op_get_config ops a = c \<and> cfg_ok c"
    and get_ref: "inv a \<Longrightarrow> x \<in> extent_addrs c \<Longrightarrow> op_get_ref ops a x = refs a x"
    and alloc_fails: "inv a \<Longrightarrow> op_alloc ops a t = Inr (st, None, a') \<Longrightarrow>
      inv a' \<and> st \<noteq> STATUS_OK \<and> refs a' = refs a"
    and alloc_gives: "inv a \<Longrightarrow> op_alloc ops a t = Inr (st, Some x, a') \<Longrightarrow>
      inv a' \<and> st = STATUS_OK \<and> x \<in> extent_addrs c \<and> refs a x = AL_FREE \<and>
      (\<forall>y\<in>extent_addrs c. refs a' y = (if y = x then AL_ONE_REF else refs a y))"
    and inc: "inv a \<Longrightarrow> x \<in> extent_addrs c \<Longrightarrow> op_inc_ref ops a x = Inr (r, a') \<Longrightarrow>
      inv a' \<and> r = refs a x + 1 \<and> r \<noteq> 0 \<and> refs a x \<noteq> AL_FREE \<and>
      (\<forall>y\<in>extent_addrs c. refs a' y = (if y = x then r else refs a y))"
    and inc_returns: "inv a \<Longrightarrow> x \<in> extent_addrs c \<Longrightarrow> refs a x \<noteq> AL_FREE \<Longrightarrow> refs a x + 1 \<noteq> 0 \<Longrightarrow>
      \<exists>a'. op_inc_ref ops a x = Inr (refs a x + 1, a')"
    and dec: "inv a \<Longrightarrow> x \<in> extent_addrs c \<Longrightarrow> op_dec_ref ops a x t = Inr (r, a') \<Longrightarrow>
      inv a' \<and> r = refs a x - 1 \<and> refs a x \<noteq> AL_FREE \<and>
      (\<forall>y\<in>extent_addrs c. refs a' y = (if y = x then r else refs a y))"
    and dec_returns: "inv a \<Longrightarrow> x \<in> extent_addrs c \<Longrightarrow> refs a x \<noteq> AL_FREE \<Longrightarrow>
      t \<noteq> PAGE_TYPE_INVALID \<Longrightarrow> \<exists>a'. op_dec_ref ops a x t = Inr (refs a x - 1, a')"
begin

text \<open>An increment and a decrement cancel.\<close>

lemma inc_dec:
  assumes "inv a" and "x \<in> extent_addrs c" and "op_inc_ref ops a x = Inr (r, a1)"
    and "op_dec_ref ops a1 x t = Inr (r', a2)"
  shows "inv a2 \<and> r' = refs a x \<and> (\<forall>y\<in>extent_addrs c. refs a2 y = refs a y)"
  using inc [OF assms(1-3)] dec [of a1 x t r' a2] assms(2,4) by auto

text \<open>The last holder frees an extent in two steps.\<close>

lemma free_in_two_steps:
  assumes "inv a" and "x \<in> extent_addrs c" and "refs a x = AL_ONE_REF" and "t \<noteq> PAGE_TYPE_INVALID"
  shows "\<exists>a1 a2. op_dec_ref ops a x t = Inr (AL_NO_REFS, a1) \<and> op_dec_ref ops a1 x t = Inr (AL_FREE, a2) \<and>
    inv a1 \<and> inv a2 \<and> (\<forall>y\<in>extent_addrs c. refs a2 y = (if y = x then AL_FREE else refs a y))"
proof -
  obtain a1 where a1: "op_dec_ref ops a x t = Inr (refs a x - 1, a1)"
    using dec_returns [OF assms(1,2) _ assms(4)] assms(3) by (auto simp: al_consts)
  note d1 = dec [OF assms(1,2) a1]
  then have r1: "refs a1 x = AL_NO_REFS" "inv a1" using assms(2,3) by (auto simp: al_consts)
  obtain a2 where a2: "op_dec_ref ops a1 x t = Inr (refs a1 x - 1, a2)"
    using dec_returns [OF r1(2) assms(2) _ assms(4)] r1(1) by (auto simp: al_consts)
  show ?thesis
    using a1 a2 d1 dec [OF r1(2) assms(2) a2] r1 assms(3) by (auto simp: al_consts)
qed

text \<open>Extents allocated one after the other are different, as long as none is freed.\<close>

lemma alloc_fresh:
  assumes "inv a" and "op_alloc ops a t = Inr (st, Some x, a')" and "refs a y \<noteq> AL_FREE"
  shows "x \<noteq> y"
  using alloc_gives [OF assms(1,2)] assms(3) by auto

end

interpretation rc: extent_allocator rc_allocator_ops c "rc_inv c base" rc_refs for c base
proof
  fix a :: "'c rc_allocator" and x t st r a'
  assume inv: "rc_inv c base a"
  note i = rc_invD [OF inv]
  show "op_get_config rc_allocator_ops a = c \<and> cfg_ok c"
    using i by (simp add: rc_allocator_ops_def rc_allocator_get_config_def)
  show "op_get_ref rc_allocator_ops a x = rc_refs a x"
    using i by (simp add: rc_allocator_ops_def rc_get_ref)
  show "rc_inv c base a' \<and> st \<noteq> STATUS_OK \<and> rc_refs a' = rc_refs a"
    if "op_alloc rc_allocator_ops a t = Inr (st, None, a')"
    using alloc_effect_rc(1,2,5) [OF inv, of t st None a'] that by (auto simp: rc_allocator_ops_def)
  show "rc_inv c base a' \<and> st = STATUS_OK \<and> x \<in> extent_addrs c \<and> rc_refs a x = AL_FREE \<and>
      (\<forall>y\<in>extent_addrs c. rc_refs a' y = (if y = x then AL_ONE_REF else rc_refs a y))"
    if "op_alloc rc_allocator_ops a t = Inr (st, Some x, a')"
    using alloc_effect_rc(1,3) [OF inv, of t st "Some x" a'] that by (auto simp: rc_allocator_ops_def al_consts)
  assume x: "x \<in> extent_addrs c"
  show "rc_inv c base a' \<and> r = rc_refs a x + 1 \<and> r \<noteq> 0 \<and> rc_refs a x \<noteq> AL_FREE \<and>
      (\<forall>y\<in>extent_addrs c. rc_refs a' y = (if y = x then r else rc_refs a y))"
    if "op_inc_ref rc_allocator_ops a x = Inr (r, a')"
    using inc_ref_effect(1-5) [OF inv x, of r a'] that by (simp add: rc_allocator_ops_def al_consts)
  show "\<exists>a'. op_inc_ref rc_allocator_ops a x = Inr (rc_refs a x + 1, a')"
    if "rc_refs a x \<noteq> AL_FREE" "rc_refs a x + 1 \<noteq> 0"
    using inc_ref_returns [OF inv, of x] that by (simp add: rc_allocator_ops_def al_consts)
  show "rc_inv c base a' \<and> r = rc_refs a x - 1 \<and> rc_refs a x \<noteq> AL_FREE \<and>
      (\<forall>y\<in>extent_addrs c. rc_refs a' y = (if y = x then r else rc_refs a y))"
    if "op_dec_ref rc_allocator_ops a x t = Inr (r, a')"
    using dec_ref_effect(1-4) [OF inv x, of t r a'] that by (simp add: rc_allocator_ops_def al_consts)
  show "\<exists>a'. op_dec_ref rc_allocator_ops a x t = Inr (rc_refs a x - 1, a')"
    if "rc_refs a x \<noteq> AL_FREE" "t \<noteq> PAGE_TYPE_INVALID"
    using dec_ref_returns [OF inv, of x t] that by (simp add: rc_allocator_ops_def al_consts)
qed

end
