(* ===== verification/MiniAllocator.thy ===== *)
theory MiniAllocator
  imports ExtentAllocator
begin

text \<open>
  The mini allocator (\<open>splinterdb/src/mini_allocator.h\<close>, \<open>mini_allocator.c\<close>): it hands out
  pages from extents that it takes from the extent allocator, one stream of pages per batch,
  and records the extents in a linked list of meta pages, so that all of them can be released
  when the last reference is dropped.

  The operations take the table of allocator operations, as the code calls the allocator
  through it. The cache appears as what \<open>TpProperties\<close> shows it to be, a memory from page
  addresses to contents: \<open>env_page\<close> is what a \<open>cache_get\<close> at an address shows, \<open>env_disk\<close> what
  would show after the extent has been discarded from the cache, \<open>env_pins\<close> the pins. The
  claims and locks on meta pages keep other threads out and leave this memory alone. A page
  obtained with \<open>cache_alloc\<close> holds whatever was in its buffer.

  The entry buffer of a meta page is an array of 8-byte slots after the 20-byte header.
\<close>

section \<open>Data\<close>

definition MINI_WAIT :: u64 where "MINI_WAIT = 1"
definition MINI_NO_REFS :: u32 where "MINI_NO_REFS = 2"
definition MINI_MAX_BATCHES :: nat where "MINI_MAX_BATCHES = 8"

record mini_meta_hdr =
  next_meta_addr :: u64
  pos :: u64
  num_entries :: u32
  entry_buffer :: "nat \<Rightarrow> u64"

record mini_allocator =
  mini_pinned :: bool
  meta_head :: u64
  meta_tail :: u64
  mini_type :: page_type
  num_extents :: u64
  num_batches :: nat
  next_addr :: "nat \<Rightarrow> u64"
  next_extent :: "nat \<Rightarrow> u64"

record 'a mini_env =
  env_al :: 'a
  env_page_size :: u64
  env_extent_size :: u64
  env_page :: "u64 \<Rightarrow> mini_meta_hdr"
  env_disk :: "u64 \<Rightarrow> mini_meta_hdr"
  env_pins :: "u64 \<Rightarrow> nat"

section \<open>Meta pages\<close>

definition MINI_HDR_SIZE :: u64 where "MINI_HDR_SIZE = 20"
definition META_ENTRY_SIZE :: u64 where "META_ENTRY_SIZE = 8"

definition mini_init_meta_page :: "mini_meta_hdr \<Rightarrow> mini_meta_hdr" where
  "mini_init_meta_page hdr = hdr\<lparr>next_meta_addr := 0, pos := MINI_HDR_SIZE, num_entries := 0\<rparr>"

definition mini_num_entries :: "mini_meta_hdr \<Rightarrow> nat" where
  "mini_num_entries hdr = unat (num_entries hdr)"

definition entry_fits_in_page :: "u64 \<Rightarrow> u64 \<Rightarrow> u64 \<Rightarrow> bool" where
  "entry_fits_in_page page_size start entry_size \<longleftrightarrow> start + entry_size \<le> page_size"

definition slot :: "u64 \<Rightarrow> nat" where
  "slot p = unat ((p - MINI_HDR_SIZE) div META_ENTRY_SIZE)"

text \<open>\<open>None\<close> is the answer FALSE: the page is full.\<close>

definition mini_append_entry_to_page :: "u64 \<Rightarrow> mini_meta_hdr \<Rightarrow> u64 \<Rightarrow> mini_meta_hdr option" where
  "mini_append_entry_to_page page_size hdr extent_addr =
     (if \<not> entry_fits_in_page page_size (pos hdr) META_ENTRY_SIZE then None
      else Some (hdr\<lparr>entry_buffer := (entry_buffer hdr)(slot (pos hdr) := extent_addr),
                     pos := pos hdr + META_ENTRY_SIZE, num_entries := num_entries hdr + 1\<rparr>))"

definition mini_get_next_meta_addr :: "mini_meta_hdr \<Rightarrow> u64" where
  "mini_get_next_meta_addr hdr = next_meta_addr hdr"

definition mini_set_next_meta_addr :: "mini_meta_hdr \<Rightarrow> u64 \<Rightarrow> mini_meta_hdr" where
  "mini_set_next_meta_addr hdr a = hdr\<lparr>next_meta_addr := a\<rparr>"

section \<open>The cache's memory\<close>

definition set_page :: "'a mini_env \<Rightarrow> u64 \<Rightarrow> mini_meta_hdr \<Rightarrow> 'a mini_env" where
  "set_page env a hdr = env\<lparr>env_page := (env_page env)(a := hdr)\<rparr>"

definition set_al :: "'a mini_env \<Rightarrow> 'a \<Rightarrow> 'a mini_env" where
  "set_al env al = env\<lparr>env_al := al\<rparr>"

definition env_pin :: "'a mini_env \<Rightarrow> u64 \<Rightarrow> 'a mini_env" where
  "env_pin env a = env\<lparr>env_pins := (env_pins env)(a := Suc (env_pins env a))\<rparr>"

definition base_addr_of :: "('a, 'c) allocator_ops \<Rightarrow> 'a mini_env \<Rightarrow> u64 \<Rightarrow> u64" where
  "base_addr_of ops env addr = allocator_config_extent_base_addr (op_get_config ops (env_al env)) addr"

definition env_discard :: "('a, 'c) allocator_ops \<Rightarrow> 'a mini_env \<Rightarrow> u64 \<Rightarrow> 'a mini_env" where
  "env_discard ops env base =
     env\<lparr>env_page := (\<lambda>a. if base_addr_of ops env a = base then env_disk env a else env_page env a),
         env_pins := (\<lambda>a. if base_addr_of ops env a = base then 0 else env_pins env a)\<rparr>"

section \<open>Creation\<close>

definition mini_allocator_get_new_extent ::
  "('a, 'c) allocator_ops \<Rightarrow> mini_allocator \<Rightarrow> 'a mini_env \<Rightarrow>
   (platform_status \<times> u64 option \<times> mini_allocator \<times> 'a mini_env) outcome" where
  "mini_allocator_get_new_extent ops mini env =
     obind (op_alloc ops (env_al env) (mini_type mini)) (\<lambda>(st, r, al).
       Inr (st, r, (if st = STATUS_OK then mini\<lparr>num_extents := num_extents mini + 1\<rparr> else mini),
            set_al env al))"

text \<open>The next extent of one batch; \<open>platform_assert_status_ok\<close> stops the process when there is none.\<close>

definition mini_next_extent ::
  "('a, 'c) allocator_ops \<Rightarrow> nat \<Rightarrow> mini_allocator \<times> 'a mini_env \<Rightarrow> (mini_allocator \<times> 'a mini_env) outcome" where
  "mini_next_extent ops batch x =
     obind (mini_allocator_get_new_extent ops (fst x) (snd x)) (\<lambda>(st, r, mini, env).
       if st \<noteq> STATUS_OK then Inl Abort
       else Inr (case r of None \<Rightarrow> mini
                 | Some a \<Rightarrow> mini\<lparr>next_extent := (next_extent mini)(batch := a)\<rparr>, env))"

definition mini_init ::
  "('a, 'c) allocator_ops \<Rightarrow> 'a mini_env \<Rightarrow> u64 \<Rightarrow> u64 \<Rightarrow> nat \<Rightarrow> page_type \<Rightarrow>
   (u64 \<times> mini_allocator \<times> 'a mini_env) outcome" where
  "mini_init ops env mhead mtail batches t =
     (if \<not> batches \<le> MINI_MAX_BATCHES then Inl Abort
      else if \<not> batches \<noteq> 0 then Inl Abort
      else
        let mini = \<lparr>mini_pinned = (t = PAGE_TYPE_MEMTABLE), meta_head = mhead, meta_tail = 0,
                    mini_type = t, num_extents = 1, num_batches = batches,
                    next_addr = (\<lambda>_. 0), next_extent = (\<lambda>_. 0)\<rparr>
        in obind
             (if mtail = 0
              then
                let mini1 = mini\<lparr>meta_tail := mhead\<rparr>;
                    env1 = set_page env mhead (mini_init_meta_page (env_page env mhead))
                in obind (op_inc_ref ops (env_al env1) (base_addr_of ops env1 mhead)) (\<lambda>(ref, al).
                     if \<not> ref = MINI_NO_REFS + 1 then Inl Abort
                     else
                       let env2 = set_al env1 al
                       in Inr (mini1, if mini_pinned mini1 then env_pin env2 mhead else env2))
              else Inr (mini\<lparr>meta_tail := mtail\<rparr>, env))
             (\<lambda>x. obind (iterM (mini_next_extent ops) [0..<batches] x)
                    (\<lambda>(mini2, env2). Inr (next_extent mini2 0, mini2, env2))))"

section \<open>Allocation of a page\<close>

text \<open>
  Appending an extent to the list. A full tail page is linked to a new one, which is the next
  page of the meta extent or, at the end of the extent, the first page of a new one.
\<close>

definition mini_append_entry ::
  "('a, 'c) allocator_ops \<Rightarrow> mini_allocator \<Rightarrow> 'a mini_env \<Rightarrow> u64 \<Rightarrow> (mini_allocator \<times> 'a mini_env) outcome" where
  "mini_append_entry ops mini env extent_addr =
     (let tail = meta_tail mini
      in case mini_append_entry_to_page (env_page_size env) (env_page env tail) extent_addr of
           Some hdr \<Rightarrow> Inr (mini, set_page env tail hdr)
         | None \<Rightarrow>
             let new_tail = meta_tail mini + env_page_size env
             in obind
                  (if new_tail mod env_extent_size env = 0
                   then obind (mini_allocator_get_new_extent ops mini env) (\<lambda>(st, r, mini1, env1).
                          if st \<noteq> STATUS_OK then Inl Abort
                          else Inr (case r of None \<Rightarrow> new_tail | Some a \<Rightarrow> a, mini1, env1))
                   else Inr (new_tail, mini, env))
                  (\<lambda>(new_meta_tail, mini1, env1).
                     let env2 = set_page env1 tail (mini_set_next_meta_addr (env_page env1 tail) new_meta_tail);
                         mini2 = mini1\<lparr>meta_tail := new_meta_tail\<rparr>;
                         hdr = mini_init_meta_page (env_page env2 new_meta_tail);
                         hdr1 = (case mini_append_entry_to_page (env_page_size env2) hdr extent_addr of
                                   Some h \<Rightarrow> h | None \<Rightarrow> hdr);
                         env3 = set_page env2 new_meta_tail hdr1
                     in Inr (mini2, if mini_pinned mini2 then env_pin env3 new_meta_tail else env3)))"

text \<open>
  \<open>mini_alloc\<close> returns the page and the batch's next extent. A batch is locked by the token
  \<open>MINI_WAIT\<close> in place of its next address.
\<close>

definition mini_alloc ::
  "('a, 'c) allocator_ops \<Rightarrow> nat \<Rightarrow> mini_allocator \<times> 'a mini_env \<Rightarrow>
   (u64 \<times> u64 \<times> mini_allocator \<times> 'a mini_env) outcome" where
  "mini_alloc ops batch x =
     (let mini = fst x; env = snd x; addr = next_addr mini batch
      in if addr = MINI_WAIT then Inl Blocked
         else
           let mini1 = mini\<lparr>next_addr := (next_addr mini)(batch := MINI_WAIT)\<rparr>
           in obind
                (if addr mod env_extent_size env = 0
                 then
                   let extent_addr = next_extent mini1 batch
                   in obind (mini_next_extent ops batch (mini1, env)) (\<lambda>(mini2, env2).
                      obind (mini_append_entry ops mini2 env2 extent_addr) (\<lambda>(mini3, env3).
                      Inr (extent_addr, mini3, env3)))
                 else Inr (addr, mini1, env))
                (\<lambda>(a, mini4, env4).
                   Inr (a, next_extent mini4 batch,
                        mini4\<lparr>next_addr := (next_addr mini4)(batch := a + env_page_size env4)\<rparr>, env4)))"

section \<open>Releasing\<close>

text \<open>Dropping the last two references of an extent, with something done in between.\<close>

definition free_extent ::
  "('a, 'c) allocator_ops \<Rightarrow> page_type \<Rightarrow> u64 \<Rightarrow> ('a mini_env \<Rightarrow> 'a mini_env) \<Rightarrow> 'a mini_env \<Rightarrow> 'a mini_env outcome" where
  "free_extent ops t base between env =
     obind (op_dec_ref ops (env_al env) base t) (\<lambda>(ref, al).
       if \<not> ref = AL_NO_REFS then Inl Abort
       else
         let env1 = between (set_al env al)
         in obind (op_dec_ref ops (env_al env1) base t) (\<lambda>(ref, al1).
              if \<not> ref = AL_FREE then Inl Abort else Inr (set_al env1 al1)))"

definition mini_release ::
  "('a, 'c) allocator_ops \<Rightarrow> mini_allocator \<Rightarrow> 'a mini_env \<Rightarrow> 'a mini_env outcome" where
  "mini_release ops mini env =
     iterM (\<lambda>batch. free_extent ops (mini_type mini) (next_extent mini batch) (\<lambda>e. e))
       [0..<num_batches mini] env"

definition mini_dealloc_extent ::
  "('a, 'c) allocator_ops \<Rightarrow> page_type \<Rightarrow> u64 \<Rightarrow> 'a mini_env \<Rightarrow> 'a mini_env outcome" where
  "mini_dealloc_extent ops t base env = free_extent ops t base (\<lambda>e. env_discard ops e base) env"

text \<open>
  The loops over the linked list do not end on a cyclic list; \<open>fuel\<close> bounds the number of
  pages visited.
\<close>

fun mini_deinit ::
  "nat \<Rightarrow> ('a, 'c) allocator_ops \<Rightarrow> u64 \<Rightarrow> page_type \<Rightarrow> 'a mini_env \<Rightarrow> 'a mini_env outcome" where
  "mini_deinit 0 ops meta_addr t env = Inl Blocked"
| "mini_deinit (Suc fuel) ops meta_addr t env =
     (let last_meta_addr = meta_addr;
          addr = mini_get_next_meta_addr (env_page env meta_addr)
      in obind
           (if base_addr_of ops env last_meta_addr \<noteq> base_addr_of ops env addr
            then mini_dealloc_extent ops t (base_addr_of ops env last_meta_addr) env
            else Inr env)
           (\<lambda>env1. if addr \<noteq> 0 then mini_deinit fuel ops addr t env1 else Inr env1))"

fun mini_for_each_meta_page ::
  "nat \<Rightarrow> u64 \<Rightarrow> (mini_meta_hdr \<Rightarrow> 'a mini_env \<times> 'x \<Rightarrow> ('a mini_env \<times> 'x) outcome) \<Rightarrow>
   'a mini_env \<times> 'x \<Rightarrow> ('a mini_env \<times> 'x) outcome" where
  "mini_for_each_meta_page 0 meta_addr f s = (if meta_addr \<noteq> 0 then Inl Blocked else Inr s)"
| "mini_for_each_meta_page (Suc fuel) meta_addr f s =
     (if meta_addr \<noteq> 0
      then obind (f (env_page (fst s) meta_addr) s) (\<lambda>s1.
             mini_for_each_meta_page fuel (mini_get_next_meta_addr (env_page (fst s1) meta_addr)) f s1)
      else Inr s)"

definition mini_for_each_meta_page_func ::
  "(u64 \<Rightarrow> 'a mini_env \<times> 'x \<Rightarrow> ('a mini_env \<times> 'x) outcome) \<Rightarrow> mini_meta_hdr \<Rightarrow>
   'a mini_env \<times> 'x \<Rightarrow> ('a mini_env \<times> 'x) outcome" where
  "mini_for_each_meta_page_func f hdr s =
     iterM (\<lambda>i. f (entry_buffer hdr i)) [0..<mini_num_entries hdr] s"

definition mini_for_each ::
  "nat \<Rightarrow> u64 \<Rightarrow> (u64 \<Rightarrow> 'a mini_env \<times> 'x \<Rightarrow> ('a mini_env \<times> 'x) outcome) \<Rightarrow>
   'a mini_env \<times> 'x \<Rightarrow> ('a mini_env \<times> 'x) outcome" where
  "mini_for_each fuel mhead f s = mini_for_each_meta_page fuel mhead (mini_for_each_meta_page_func f) s"

section \<open>References\<close>

definition mini_inc_ref ::
  "('a, 'c) allocator_ops \<Rightarrow> 'a mini_env \<Rightarrow> u64 \<Rightarrow> (u32 \<times> 'a mini_env) outcome" where
  "mini_inc_ref ops env mhead =
     obind (op_inc_ref ops (env_al env) (base_addr_of ops env mhead)) (\<lambda>(ref, al).
       if \<not> ref > MINI_NO_REFS then Inl Abort else Inr (ref - MINI_NO_REFS, set_al env al))"

definition mini_dec_ref ::
  "('a, 'c) allocator_ops \<Rightarrow> nat \<Rightarrow> 'a mini_env \<Rightarrow> u64 \<Rightarrow> page_type \<Rightarrow> (u32 \<times> 'a mini_env) outcome" where
  "mini_dec_ref ops fuel env mhead t =
     obind (op_dec_ref ops (env_al env) (base_addr_of ops env mhead) t) (\<lambda>(ref, al).
       let env1 = set_al env al
       in if ref \<noteq> MINI_NO_REFS then Inr (ref - MINI_NO_REFS, env1)
          else obind (mini_for_each fuel mhead
                       (\<lambda>base s. obind (mini_dealloc_extent ops t base (fst s)) (\<lambda>e. Inr (e, ())))
                       (env1, ())) (\<lambda>(env2, _).
               obind (mini_deinit fuel ops mhead t env2) (\<lambda>env3. Inr (0, env3))))"

section \<open>Walks over the list\<close>

text \<open>The list that \<open>mini_prefetch\<close> builds is the sequence of extents it prefetches.\<close>

definition mini_prefetch :: "nat \<Rightarrow> 'a mini_env \<Rightarrow> u64 \<Rightarrow> u64 list outcome" where
  "mini_prefetch fuel env mhead =
     obind (mini_for_each fuel mhead (\<lambda>base s. Inr (fst s, snd s @ [base])) (env, []))
       (\<lambda>s. Inr (snd s))"

definition mini_space_use_bytes :: "nat \<Rightarrow> 'a mini_env \<Rightarrow> u64 \<Rightarrow> u64 outcome" where
  "mini_space_use_bytes fuel env mhead =
     obind (mini_for_each fuel mhead (\<lambda>base s. Inr (fst s, snd s + env_extent_size env)) (env, 0)) (\<lambda>s.
     obind (mini_for_each_meta_page fuel mhead (\<lambda>hdr s. Inr (fst s, snd s + env_page_size env)) s)
       (\<lambda>s. Inr (snd s)))"

end
