(* ===== verification/MiniFree.thy ===== *)
theory MiniFree
  imports MiniAllocator
begin

text \<open>
  Releasing extents, and the walks over the list of meta pages: on a list that is linked from
  its head to the null address a walk visits the entries in order, and dropping the last
  references of a set of extents frees these and no others.
\<close>

section \<open>Extents of addresses\<close>

definition ext_base :: "u64 \<Rightarrow> u64" where
  "ext_base a = a AND NOT 131071"

lemma ext_base_unat: "unat (ext_base a) = unat a div 131072 * 131072"
proof -
  have "ext_base a = push_bit 17 (drop_bit 17 a)"
  proof -
    have "ext_base a = a AND NOT (mask 17)" by (simp add: ext_base_def mask_eq_exp_minus_1)
    also have "\<dots> = push_bit 17 (drop_bit 17 a)"
      by (rule bit_eqI) (auto simp: bit_and_iff bit_not_iff bit_mask_iff bit_push_bit_iff bit_drop_bit_eq
          dest: bit_imp_le_length)
    finally show ?thesis .
  qed
  then have "unat (ext_base a) = take_bit 64 (push_bit 17 (drop_bit 17 (unat a)))"
    using unat_u64_lt [of a] by (simp add: unsigned_push_bit_eq unsigned_drop_bit_eq take_bit_nat_eq_self)
  moreover have "unat a div 131072 * 131072 < 2 ^ 64"
    using unat_u64_lt [of a] div_times_less_eq_dividend [of "unat a" 131072] by simp
  ultimately show ?thesis by (simp add: push_bit_eq_mult drop_bit_eq_div take_bit_nat_eq_self)
qed

lemma ext_base_extent [simp]: "x \<in> extent_addrs c \<Longrightarrow> ext_base x = x"
  by (auto simp: extent_addrs_def word_unat_eq_iff ext_base_unat)

lemma ext_base_0 [simp]: "ext_base 0 = 0"
  by (simp add: ext_base_def)

lemma mod_extent: "(a :: u64) mod 131072 = 0 \<longleftrightarrow> 131072 dvd unat a"
  by (simp add: word_unat_eq_iff unat_mod dvd_eq_mod_eq_0)

section \<open>The linked list of meta pages\<close>

fun meta_chain :: "(u64 \<Rightarrow> mini_meta_hdr) \<Rightarrow> u64 \<Rightarrow> u64 list \<Rightarrow> bool" where
  "meta_chain pg a [] \<longleftrightarrow> a = 0"
| "meta_chain pg a (p # ps) \<longleftrightarrow> a = p \<and> p \<noteq> 0 \<and> meta_chain pg (next_meta_addr (pg p)) ps"

definition page_entries :: "mini_meta_hdr \<Rightarrow> u64 list" where
  "page_entries hdr = map (entry_buffer hdr) [0..<mini_num_entries hdr]"

definition chain_entries :: "(u64 \<Rightarrow> mini_meta_hdr) \<Rightarrow> u64 list \<Rightarrow> u64 list" where
  "chain_entries pg ms = concat (map (\<lambda>p. page_entries (pg p)) ms)"

lemma chain_entries_simps [simp]:
  "chain_entries pg [] = []"
  "chain_entries pg (p # ps) = page_entries (pg p) @ chain_entries pg ps"
  "chain_entries pg (ps @ qs) = chain_entries pg ps @ chain_entries pg qs"
  by (simp_all add: chain_entries_def)

lemma meta_chain_cong: "(\<And>p. p \<in> set ms \<Longrightarrow> pg p = pg' p) \<Longrightarrow> meta_chain pg a ms = meta_chain pg' a ms"
  by (induction ms arbitrary: a) auto

lemma chain_entries_cong: "(\<And>p. p \<in> set ms \<Longrightarrow> pg p = pg' p) \<Longrightarrow> chain_entries pg ms = chain_entries pg' ms"
  by (simp add: chain_entries_def cong: map_cong)

lemma meta_chain_hd: "meta_chain pg a ms \<Longrightarrow> ms \<noteq> [] \<Longrightarrow> a = hd ms \<and> a \<noteq> 0"
  by (cases ms) auto

lemma iterM_map: "iterM (\<lambda>i. f (g i)) xs s = iterM f (map g xs) s"
  by (induction xs arbitrary: s) (auto simp: obind_def split: sum.splits)

lemma for_each_page: "mini_for_each_meta_page_func f hdr s = iterM f (page_entries hdr) s"
  by (simp add: mini_for_each_meta_page_func_def page_entries_def iterM_map)

text \<open>A walk whose body leaves the meta pages alone visits the recorded entries in order.\<close>

lemma for_each_iter:
  assumes "meta_chain pg a ms" and "length ms \<le> fuel" and "P s"
    and "\<And>s p. P s \<Longrightarrow> p \<in> set ms \<Longrightarrow> env_page (fst s) p = pg p"
    and "\<And>x s s'. x \<in> set (chain_entries pg ms) \<Longrightarrow> P s \<Longrightarrow> f x s = Inr s' \<Longrightarrow> P s'"
  shows "mini_for_each fuel a f s = iterM f (chain_entries pg ms) s"
  using assms
proof (induction ms arbitrary: a fuel s)
  case Nil
  then show ?case by (cases fuel) (simp_all add: mini_for_each_def)
next
  case (Cons p ms)
  then obtain n where n: "fuel = Suc n" "length ms \<le> n" by (cases fuel) auto
  have a: "a = p" "p \<noteq> 0" "env_page (fst s) p = pg p" using Cons.prems by auto
  have "obind (iterM f (page_entries (pg p)) s)
      (\<lambda>s1. mini_for_each n (next_meta_addr (env_page (fst s1) p)) f s1)
    = obind (iterM f (page_entries (pg p)) s) (iterM f (chain_entries pg ms))"
  proof (cases "iterM f (page_entries (pg p)) s")
    case (Inr s1)
    have "P s1"
      by (rule iterM_invariant [where P = P, OF Inr Cons.prems(3)]) (rule Cons.prems(5), simp_all)
    have "mini_for_each n (next_meta_addr (pg p)) f s1 = iterM f (chain_entries pg ms) s1"
    proof (rule Cons.IH)
      show "meta_chain pg (next_meta_addr (pg p)) ms" using Cons.prems(1) by simp
      show "env_page (fst s) q = pg q" if "P s" "q \<in> set ms" for s q
        using Cons.prems(4) [OF that(1)] that(2) by simp
      show "P s'" if "x \<in> set (chain_entries pg ms)" "P s" "f x s = Inr s'" for x s s'
        using Cons.prems(5) [OF _ that(2,3)] that(1) by simp
    qed (rule n(2), rule \<open>P s1\<close>)
    moreover have "env_page (fst s1) p = pg p" using Cons.prems(4) [OF \<open>P s1\<close>] by simp
    ultimately show ?thesis using Inr by simp
  qed simp
  then show ?case
    using a n by (simp add: mini_for_each_def for_each_page iterM_append mini_get_next_meta_addr_def)
qed

section \<open>Freeing extents\<close>

context extent_allocator
begin

lemma base_addr_of: "inv (env_al env) \<Longrightarrow> base_addr_of ops env a = ext_base a"
  using config [of "env_al env"] cfg_okD(5) [of c]
  by (simp add: base_addr_of_def allocator_config_extent_base_addr_def ext_base_def)

lemma env_discard_simps:
  "env_al (env_discard ops env b) = env_al env"
  "env_page_size (env_discard ops env b) = env_page_size env"
  "env_extent_size (env_discard ops env b) = env_extent_size env"
  "inv (env_al env) \<Longrightarrow> ext_base a \<noteq> b \<Longrightarrow> env_page (env_discard ops env b) a = env_page env a"
  by (simp_all add: env_discard_def base_addr_of)

lemma free_extent_ok:
  assumes "inv (env_al env)" and "x \<in> extent_addrs c" and "refs (env_al env) x = AL_ONE_REF"
    and "t \<noteq> PAGE_TYPE_INVALID" and "\<And>e. env_al (between e) = env_al e"
  shows "\<exists>env' al1. free_extent ops t x between env = Inr env' \<and> inv (env_al env') \<and> inv al1 \<and>
    (\<forall>y\<in>extent_addrs c. refs (env_al env') y = (if y = x then AL_FREE else refs (env_al env) y)) \<and>
    env_page env' = env_page (between (set_al env al1))"
proof -
  obtain a1 a2 where a: "op_dec_ref ops (env_al env) x t = Inr (AL_NO_REFS, a1)"
      "op_dec_ref ops a1 x t = Inr (AL_FREE, a2)" "inv a1" "inv a2"
      "\<forall>y\<in>extent_addrs c. refs a2 y = (if y = x then AL_FREE else refs (env_al env) y)"
    using free_in_two_steps [OF assms(1-4)] by blast
  have "env_al (set_al e al) = al" "env_page (set_al e al) = env_page e" for e :: "'a mini_env" and al
    by (simp_all add: set_al_def)
  then show ?thesis using a by (auto simp: free_extent_def assms(5) Let_def)
qed

definition freed :: "u64 set \<Rightarrow> 'a mini_env \<Rightarrow> 'a mini_env \<Rightarrow> bool" where
  "freed X env env' \<longleftrightarrow> inv (env_al env') \<and>
     (\<forall>y\<in>extent_addrs c. refs (env_al env') y = (if y \<in> X then AL_FREE else refs (env_al env) y)) \<and>
     (\<forall>a. ext_base a \<notin> X \<longrightarrow> env_page env' a = env_page env a)"

lemma freed_trans:
  "freed X env1 env2 \<Longrightarrow> freed Y env2 env3 \<Longrightarrow> freed (X \<union> Y) env1 env3"
  by (simp add: freed_def)

lemma dealloc_extent_ok:
  assumes "inv (env_al env)" and "x \<in> extent_addrs c" and "refs (env_al env) x = AL_ONE_REF"
    and "t \<noteq> PAGE_TYPE_INVALID"
  shows "\<exists>env'. mini_dealloc_extent ops t x env = Inr env' \<and> freed {x} env env'"
proof -
  obtain env' al1 where e: "free_extent ops t x (\<lambda>e. env_discard ops e x) env = Inr env'" "inv (env_al env')"
      "inv al1" "\<forall>y\<in>extent_addrs c. refs (env_al env') y = (if y = x then AL_FREE else refs (env_al env) y)"
      "env_page env' = env_page (env_discard ops (set_al env al1) x)"
    using free_extent_ok [OF assms, of "\<lambda>e. env_discard ops e x"] by (auto simp: env_discard_simps)
  have "env_page (env_discard ops (set_al env al1) x) a = env_page env a" if "ext_base a \<noteq> x" for a
    using env_discard_simps(4) [of "set_al env al1" a x] e(3) that by (simp add: set_al_def)
  then show ?thesis using e by (auto simp: mini_dealloc_extent_def freed_def)
qed

lemma release_extent_ok:
  assumes "inv (env_al env)" and "x \<in> extent_addrs c" and "refs (env_al env) x = AL_ONE_REF"
    and "t \<noteq> PAGE_TYPE_INVALID"
  shows "\<exists>env'. free_extent ops t x (\<lambda>e. e) env = Inr env' \<and> freed {x} env env'"
  using free_extent_ok [OF assms, of "\<lambda>e. e"] by (auto simp: freed_def set_al_def)

text \<open>Freeing a list of different extents.\<close>

lemma free_all:
  assumes "\<And>x e. x \<in> set xs \<Longrightarrow> inv (env_al e) \<Longrightarrow> refs (env_al e) x = AL_ONE_REF \<Longrightarrow>
      \<exists>e'. f x e = Inr e' \<and> freed {x} e e'"
    and "distinct xs" and "set xs \<subseteq> extent_addrs c" and "inv (env_al env)"
    and "\<forall>x\<in>set xs. refs (env_al env) x = AL_ONE_REF"
  shows "\<exists>env'. iterM f xs env = Inr env' \<and> freed (set xs) env env'"
  using assms
proof (induction xs arbitrary: env)
  case Nil
  then show ?case by (simp add: freed_def)
next
  case (Cons x xs)
  obtain e1 where e1: "f x env = Inr e1" "freed {x} env e1"
    using Cons.prems(1) [of x env] Cons.prems(4,5) by auto
  have i: "\<forall>y\<in>set xs. refs (env_al e1) y = AL_ONE_REF" "inv (env_al e1)"
    using e1 Cons.prems by (auto simp: freed_def)
  have "\<exists>e'. iterM f xs e1 = Inr e' \<and> freed (set xs) e1 e'"
  proof (rule Cons.IH)
    show "\<exists>e'. f y e = Inr e' \<and> freed {y} e e'"
      if "y \<in> set xs" "inv (env_al e)" "refs (env_al e) y = AL_ONE_REF" for y e
      using Cons.prems(1) [of y e] that by simp
  qed (use i Cons.prems in auto)
  then obtain e2 where e2: "iterM f xs e1 = Inr e2" "freed (set xs) e1 e2" by blast
  have "freed (set (x # xs)) env e2" using freed_trans [OF e1(2) e2(2)] by simp
  then show ?case using e1(1) e2(1) by simp
qed

text \<open>\<open>mini_deinit\<close> frees each extent that holds meta pages once.\<close>

lemma deinit_ok:
  assumes "meta_chain (env_page env) a ms" and "ms \<noteq> []" and "length ms \<le> fuel"
    and "distinct (remdups_adj (map ext_base ms))" and "0 \<notin> ext_base ` set ms"
    and "ext_base ` set ms \<subseteq> extent_addrs c" and "inv (env_al env)"
    and "\<forall>x\<in>ext_base ` set ms. refs (env_al env) x = AL_ONE_REF" and "t \<noteq> PAGE_TYPE_INVALID"
  shows "\<exists>env'. mini_deinit fuel ops a t env = Inr env' \<and> freed (ext_base ` set ms) env env'"
  using assms
proof (induction ms arbitrary: a fuel env)
  case (Cons p ms)
  then obtain n where n: "fuel = Suc n" "length ms \<le> n" by (cases fuel) auto
  let ?q = "next_meta_addr (env_page env p)"
  have a: "a = p" "p \<noteq> 0" "meta_chain (env_page env) ?q ms" using Cons.prems(1) by auto
  note b = base_addr_of [OF Cons.prems(7)]
  have fp: "\<exists>e. mini_dealloc_extent ops t (ext_base p) env = Inr e \<and> freed {ext_base p} env e"
    using Cons.prems by (intro dealloc_extent_ok) auto
  show ?case
  proof (cases ms)
    case Nil
    then have q: "?q = 0" using a by simp
    have "ext_base p \<noteq> 0" using Cons.prems(5) by auto
    then show ?thesis using fp q a n Nil by (auto simp: b mini_get_next_meta_addr_def)
  next
    case (Cons q ms')
    then have q: "?q = q" "q \<noteq> 0" using a by auto
    show ?thesis
    proof (cases "ext_base p = ext_base q")
      case True
      have "\<exists>env'. mini_deinit n ops q t env = Inr env' \<and> freed (ext_base ` set ms) env env'"
        using Cons.prems True Cons a n q by (intro Cons.IH) (auto split: if_splits)
      moreover have "ext_base ` set (p # ms) = ext_base ` set ms" using True Cons by auto
      ultimately show ?thesis using True a n q by (simp add: b mini_get_next_meta_addr_def)
    next
      case False
      obtain e1 where e1: "mini_dealloc_extent ops t (ext_base p) env = Inr e1" "freed {ext_base p} env e1"
        using fp by blast
      have nb: "ext_base p \<notin> ext_base ` set ms" and d: "distinct (remdups_adj (map ext_base ms))"
        using Cons.prems(4) False Cons by (auto split: if_splits)
      have pg: "env_page e1 m = env_page env m" if "m \<in> set ms" for m
        using e1(2) nb that unfolding freed_def by (metis imageI singletonD)
      have "meta_chain (env_page e1) q ms"
        using a(3) q meta_chain_cong [of ms "env_page e1" "env_page env" q] pg by simp
      moreover have "\<forall>x\<in>ext_base ` set ms. refs (env_al e1) x = AL_ONE_REF"
      proof
        fix x assume x: "x \<in> ext_base ` set ms"
        have "x \<noteq> ext_base p" using nb x by blast
        moreover have "x \<in> extent_addrs c" using Cons.prems(6) x by (auto simp: image_def)
        moreover have "refs (env_al env) x = AL_ONE_REF" using Cons.prems(8) x by (auto simp: image_def)
        ultimately show "refs (env_al e1) x = AL_ONE_REF" using e1(2) by (simp add: freed_def)
      qed
      ultimately obtain e2 where e2: "mini_deinit n ops q t e1 = Inr e2" "freed (ext_base ` set ms) e1 e2"
        using Cons.IH [of e1 q n] d Cons Cons.prems e1(2) n by (auto simp: freed_def)
      have "freed (ext_base ` set (p # ms)) env e2"
        using freed_trans [OF e1(2) e2(2)] by simp
      then show ?thesis using e1 e2 a n q False by (simp add: b mini_get_next_meta_addr_def)
    qed
  qed
qed simp

end

end
