(* ===== verification/MiniProofs.thy ===== *)
theory MiniProofs
  imports MiniFree "HOL-Library.Multiset"
begin

text \<open>
  The invariant of the mini allocator. Its meta pages form a list from \<open>meta_head\<close> to
  \<open>meta_tail\<close>; the extents that hold meta pages, the extents the meta pages record and the next
  extents of the batches are different, and each carries one reference, the first one also
  those of the clients. Every operation keeps it, and with it the pages handed out differ.
\<close>

section \<open>Addresses in an extent\<close>

lemma ext_base_le: "unat (ext_base a) \<le> unat a" "unat a < unat (ext_base a) + 131072"
  using div_mult_mod_eq [of "unat a" 131072] by (simp_all add: ext_base_unat)

lemma next_page:
  fixes a :: u64
  assumes "cfg_ok c" and "ext_base a \<in> extent_addrs c" and "4096 dvd unat a"
  shows "unat (a + 4096) = unat a + 4096" and "4096 dvd unat (a + 4096)"
    and "(a + 4096) mod 131072 \<noteq> 0 \<Longrightarrow> ext_base (a + 4096) = ext_base a"
proof -
  obtain k where k: "unat a = 4096 * k" using assms(3) by (auto simp: dvd_def)
  define e where "e = unat a div 131072"
  have e: "unat (ext_base a) = 131072 * e" by (simp add: e_def ext_base_unat)
  have "e < unat (ac_extent_capacity c)" using assms(2) e by (simp add: extent_addrs_def)
  then have "131072 * (e + 1) \<le> 131072 * unat (ac_extent_capacity c)" by (intro mult_le_mono2) simp
  then have top: "131072 * (e + 1) < 2 ^ 64" using cfg_okD(4) [OF assms(1)] by (rule le_less_trans)
  have kb: "32 * e \<le> k" "k < 32 * e + 32" using ext_base_le [of a] e k by linarith+
  have "k + 1 \<le> 32 * (e + 1)" using kb(2) by simp
  then have "unat a + 4096 \<le> 131072 * (e + 1)" using k by simp
  then have lt: "unat a + 4096 < 2 ^ 64" using top by (rule le_less_trans)
  show u: "unat (a + 4096) = unat a + 4096" using lt by (simp add: unat_word_ariths)
  show "4096 dvd unat (a + 4096)" using u assms(3) by simp
  show "ext_base (a + 4096) = ext_base a" if "(a + 4096) mod 131072 \<noteq> 0"
  proof -
    have "k + 1 \<noteq> 32 * (e + 1)"
    proof
      assume "k + 1 = 32 * (e + 1)"
      then have "unat (a + 4096) = 131072 * (e + 1)" using u k by linarith
      then show False using that mod_extent [of "a + 4096"] by simp
    qed
    then have "k + 1 < 32 * (e + 1)" using kb(2) by simp
    then have "(unat a + 4096) div 131072 = e" using k kb(1) by (intro div_nat_eqI) simp_all
    then show ?thesis using e by (simp add: word_unat_eq_iff ext_base_unat u e_def)
  qed
qed

section \<open>Meta pages\<close>

definition hdr_ok :: "mini_meta_hdr \<Rightarrow> bool" where
  "hdr_ok hdr \<longleftrightarrow> num_entries hdr \<le> 509 \<and> pos hdr = 20 + 8 * ucast (num_entries hdr)"

lemma hdr_init: "hdr_ok (mini_init_meta_page hdr)" "page_entries (mini_init_meta_page hdr) = []"
  "next_meta_addr (mini_init_meta_page hdr) = 0"
  by (simp_all add: hdr_ok_def mini_init_meta_page_def MINI_HDR_SIZE_def page_entries_def mini_num_entries_def)

lemma hdr_append:
  assumes "hdr_ok hdr"
  shows "mini_append_entry_to_page 4096 hdr e = None \<longleftrightarrow> num_entries hdr = 509"
    and "mini_append_entry_to_page 4096 hdr e = Some h \<Longrightarrow> hdr_ok h \<and>
      page_entries h = page_entries hdr @ [e] \<and> next_meta_addr h = next_meta_addr hdr"
proof -
  define n where "n = unat (num_entries hdr)"
  have n: "n \<le> 509" using assms by (simp add: hdr_ok_def n_def word_le_nat_alt)
  have ne: "num_entries hdr = of_nat n" by (simp add: n_def)
  have p: "pos hdr = of_nat (20 + 8 * n)"
    using assms by (simp add: hdr_ok_def n_def)
  have up: "unat (pos hdr) = 20 + 8 * n"
    unfolding p using n by (simp only: unat_of_nat) (simp add: take_bit_nat_eq_self)
  have fits: "entry_fits_in_page 4096 (pos hdr) META_ENTRY_SIZE \<longleftrightarrow> n \<noteq> 509"
    using n up by (simp add: entry_fits_in_page_def META_ENTRY_SIZE_def word_le_nat_alt unat_word_ariths) linarith
  have n9: "n = 509 \<longleftrightarrow> num_entries hdr = 509" by (simp add: n_def word_unat_eq_iff)
  show "mini_append_entry_to_page 4096 hdr e = None \<longleftrightarrow> num_entries hdr = 509"
    using fits n9 by (simp add: mini_append_entry_to_page_def)
  assume h: "mini_append_entry_to_page 4096 hdr e = Some h"
  then have n': "n < 509" using fits n by (auto simp: mini_append_entry_to_page_def split: if_splits)
  have "pos hdr - MINI_HDR_SIZE = of_nat (8 * n)" by (simp add: p MINI_HDR_SIZE_def)
  then have "unat (pos hdr - MINI_HDR_SIZE) = 8 * n"
    using n' by (simp only: unat_of_nat) (simp add: take_bit_nat_eq_self)
  then have s: "slot (pos hdr) = n" by (simp add: slot_def unat_div META_ENTRY_SIZE_def)
  have un: "unat (num_entries hdr + 1) = Suc n" using n' by (simp add: n_def unat_word_ariths)
  have h': "h = hdr\<lparr>entry_buffer := (entry_buffer hdr)(n := e), pos := pos hdr + 8, num_entries := num_entries hdr + 1\<rparr>"
    using h s by (auto simp: mini_append_entry_to_page_def META_ENTRY_SIZE_def split: if_splits)
  have "pos hdr + 8 = 20 + 8 * ucast (num_entries hdr + 1)"
  proof -
    have "(ucast (num_entries hdr + 1) :: u64) = of_nat (Suc n)" using un by (metis of_nat_unat)
    then show ?thesis by (simp add: p algebra_simps)
  qed
  then have "hdr_ok h" using un n' by (simp add: h' hdr_ok_def word_le_nat_alt)
  moreover have "page_entries h = page_entries hdr @ [e]"
    by (simp add: h' page_entries_def mini_num_entries_def un n_def [symmetric])
  ultimately show "hdr_ok h \<and> page_entries h = page_entries hdr @ [e] \<and> next_meta_addr h = next_meta_addr hdr"
    by (simp add: h')
qed

lemma init_append: "\<exists>h. mini_append_entry_to_page 4096 (mini_init_meta_page hdr) e = Some h"
proof -
  have "num_entries (mini_init_meta_page hdr) \<noteq> 509" by (simp add: mini_init_meta_page_def)
  then have "mini_append_entry_to_page 4096 (mini_init_meta_page hdr) e \<noteq> None"
    using hdr_append(1) [OF hdr_init(1)] by blast
  then show ?thesis by simp
qed

lemma meta_chain_last: "meta_chain pg a ms \<Longrightarrow> ms \<noteq> [] \<Longrightarrow> next_meta_addr (pg (last ms)) = 0"
  by (induction ms arbitrary: a) (auto split: if_splits)

text \<open>Writing the tail page, and linking a new page behind it.\<close>

lemma meta_chain_set_tail:
  assumes "meta_chain pg a (ms @ [p])" and "p \<notin> set ms" and "next_meta_addr h = 0"
  shows "meta_chain (pg(p := h)) a (ms @ [p])"
  using assms by (induction ms arbitrary: a) auto

lemma meta_chain_link:
  assumes "meta_chain pg a (ms @ [p])" and "p \<notin> set ms" and "q \<notin> set ms" "q \<noteq> p" "q \<noteq> 0"
    and "next_meta_addr h = q" and "next_meta_addr h' = 0"
  shows "meta_chain (pg(p := h, q := h')) a ((ms @ [p]) @ [q])"
  using assms by (induction ms arbitrary: a) auto


section \<open>The list of meta pages\<close>

definition mini_pages :: "(u64 \<Rightarrow> mini_meta_hdr) \<Rightarrow> u64 \<Rightarrow> u64 \<Rightarrow> u64 list \<Rightarrow> bool" where
  "mini_pages pg a tail ms \<longleftrightarrow> meta_chain pg a ms \<and> ms \<noteq> [] \<and> last ms = tail \<and> distinct ms \<and>
     (\<forall>p\<in>set ms. hdr_ok (pg p) \<and> 4096 dvd unat p \<and> (ext_base p = ext_base tail \<longrightarrow> p \<le> tail))"

lemma mini_pages_split:
  assumes "mini_pages pg a tail ms"
  obtains ms' where "ms = ms' @ [tail]" and "tail \<notin> set ms'"
  using assms by (cases ms rule: rev_cases) (auto simp: mini_pages_def)

lemma chain_entries_snoc:
  assumes "p \<notin> set ms" and "page_entries h = page_entries (pg p) @ [e]"
  shows "chain_entries (pg(p := h)) (ms @ [p]) = chain_entries pg (ms @ [p]) @ [e]"
proof -
  have "chain_entries (pg(p := h)) ms = chain_entries pg ms"
    using assms(1) by (intro chain_entries_cong) auto
  then show ?thesis using assms(2) by simp
qed

lemma mini_pages_append:
  assumes m: "mini_pages pg a tail ms" and h: "mini_append_entry_to_page 4096 (pg tail) e = Some h"
  shows "mini_pages (pg(tail := h)) a tail ms"
    and "chain_entries (pg(tail := h)) ms = chain_entries pg ms @ [e]"
proof -
  obtain ms' where ms: "ms = ms' @ [tail]" "tail \<notin> set ms'" using mini_pages_split [OF m] .
  have hd: "hdr_ok h" "page_entries h = page_entries (pg tail) @ [e]" "next_meta_addr h = next_meta_addr (pg tail)"
    using hdr_append(2) [OF _ h] m ms by (simp_all add: mini_pages_def)
  have "next_meta_addr (pg tail) = 0"
    using m meta_chain_last [of pg a ms] by (simp add: mini_pages_def)
  then show "mini_pages (pg(tail := h)) a tail ms"
    using m hd ms meta_chain_set_tail [of pg a ms' tail h] by (auto simp: mini_pages_def)
  show "chain_entries (pg(tail := h)) ms = chain_entries pg ms @ [e]"
    using chain_entries_snoc [of tail ms' h pg e] ms hd(2) by simp
qed

lemma mini_pages_link:
  assumes m: "mini_pages pg a tail ms" and q: "q \<notin> set ms" "q \<noteq> 0" "4096 dvd unat q"
    and far: "\<And>p. p \<in> set ms \<Longrightarrow> ext_base p = ext_base q \<Longrightarrow> p \<le> q"
    and h: "mini_append_entry_to_page 4096 (mini_init_meta_page hdr) e = Some h"
  shows "mini_pages (pg(tail := mini_set_next_meta_addr (pg tail) q, q := h)) a q (ms @ [q])"
    and "chain_entries (pg(tail := mini_set_next_meta_addr (pg tail) q, q := h)) (ms @ [q]) =
      chain_entries pg ms @ [e]"
proof -
  let ?l = "mini_set_next_meta_addr (pg tail) q"
  let ?pg = "pg(tail := ?l, q := h)"
  obtain ms' where ms: "ms = ms' @ [tail]" "tail \<notin> set ms'" using mini_pages_split [OF m] .
  have l: "next_meta_addr ?l = q" "hdr_ok ?l \<longleftrightarrow> hdr_ok (pg tail)" "page_entries ?l = page_entries (pg tail)"
    by (simp_all add: mini_set_next_meta_addr_def hdr_ok_def page_entries_def mini_num_entries_def)
  note hh = hdr_append(2) [OF hdr_init(1) h, unfolded hdr_init]
  have qt: "q \<noteq> tail" "q \<notin> set ms'" using q(1) ms by auto
  have "meta_chain ?pg a (ms @ [q])"
    using meta_chain_link [of pg a ms' tail q ?l h] m ms qt q l(1) hh by (simp add: mini_pages_def)
  moreover have "hdr_ok (?pg p) \<and> 4096 dvd unat p \<and> (ext_base p = ext_base q \<longrightarrow> p \<le> q)"
    if "p \<in> set (ms @ [q])" for p
    using that m hh l(2) q far [of p] by (auto simp: mini_pages_def)
  ultimately show "mini_pages ?pg a q (ms @ [q])"
    using m q by (simp add: mini_pages_def)
  have "chain_entries ?pg ms' = chain_entries pg ms'"
    using ms(2) qt(2) by (intro chain_entries_cong) auto
  then show "chain_entries ?pg (ms @ [q]) = chain_entries pg ms @ [e]"
    using hh l(3) qt by (simp add: ms)
qed

text \<open>The extents of a mini allocator: of its meta pages, recorded, and next of the batches.\<close>

definition owned :: "(u64 \<Rightarrow> mini_meta_hdr) \<Rightarrow> u64 list \<Rightarrow> u64 list \<Rightarrow> u64 list" where
  "owned pg ms xs = remdups_adj (map ext_base ms) @ chain_entries pg ms @ xs"

lemma remdups_adj_snoc:
  "xs \<noteq> [] \<Longrightarrow> remdups_adj (xs @ [y]) = remdups_adj xs @ (if last xs = y then [] else [y])"
  by (cases xs rule: rev_cases) (simp_all add: remdups_adj_append_two)

lemma set_owned: "set (owned pg ms xs) = ext_base ` set ms \<union> set (chain_entries pg ms) \<union> set xs"
  by (auto simp: owned_def)


lemma owned_subset: "ms \<noteq> [] \<Longrightarrow> ext_base (last ms) \<in> set (owned pg ms xs)"
  by (simp add: set_owned)

section \<open>What a mini allocator holds\<close>

context extent_allocator
begin

lemma zero_extent: "inv a \<Longrightarrow> 0 \<in> extent_addrs c"
  using config [of a] cfg_okD(3) [of c] by (auto simp: extent_addrs_def)

text \<open>
  The extents \<open>os\<close> are held: \<open>M\<close>, which the clients share, carries \<open>k\<close> references, every other
  one the first reference, and the rest of the extents are as they were before.
\<close>

definition holds :: "(u64 \<Rightarrow> u32) \<Rightarrow> u32 \<Rightarrow> u64 \<Rightarrow> u64 list \<Rightarrow> 'a \<Rightarrow> bool" where
  "holds r0 k M os al \<longleftrightarrow> inv al \<and> distinct os \<and> set os \<subseteq> extent_addrs c \<and> 0 \<notin> set os \<and> M \<in> set os \<and>
     (\<forall>y\<in>extent_addrs c. refs al y = (if y = M then k else if y \<in> set os then AL_ONE_REF else r0 y)) \<and>
     (\<forall>y\<in>set os. y \<noteq> M \<longrightarrow> r0 y = AL_FREE) \<and> k \<noteq> AL_FREE \<and> r0 0 \<noteq> AL_FREE"

lemma holds_perm:
  assumes "mset os = mset os'"
  shows "holds r0 k M os al = holds r0 k M os' al"
  using mset_eq_setD [OF assms] mset_eq_imp_distinct_iff [OF assms] by (simp add: holds_def)

lemma holds_alloc:
  assumes h: "holds r0 k M os al" and r: "op_alloc ops al t = Inr (st, Some x, al')"
  shows "holds r0 k M (x # os) al'"
proof -
  have i: "inv al" using h by (simp add: holds_def)
  note g = alloc_gives [OF i r]
  have "refs al y \<noteq> AL_FREE" if y: "y \<in> insert 0 (set os)" for y
  proof -
    have "y \<in> extent_addrs c" using y h zero_extent [OF i] by (auto simp: holds_def)
    then have "refs al y = (if y = M then k else if y \<in> set os then AL_ONE_REF else r0 y)"
      using h by (simp add: holds_def)
    moreover have "k \<noteq> AL_FREE" "AL_ONE_REF \<noteq> AL_FREE" "y \<in> set os \<or> r0 y \<noteq> AL_FREE"
      using h y by (auto simp: holds_def al_consts)
    ultimately show ?thesis by auto
  qed
  then have x: "x \<noteq> 0" "x \<notin> set os" using g by auto
  moreover have "M \<in> set os" using h by (simp add: holds_def)
  moreover have "r0 x = AL_FREE" using g h x by (auto simp: holds_def split: if_splits)
  ultimately show ?thesis using h g by (auto simp: holds_def)
qed

text \<open>Taking an extent: the process stops or the extent is a new one.\<close>

lemma get_new_extent_ok:
  assumes "holds r0 k M os (env_al env)"
    and "mini_allocator_get_new_extent ops mini env = Inr (STATUS_OK, r, mini', env')"
  obtains x where "r = Some x" and "mini' = mini\<lparr>num_extents := num_extents mini + 1\<rparr>"
    and "env' = env\<lparr>env_al := env_al env'\<rparr>" and "holds r0 k M (x # os) (env_al env')"
proof -
  obtain al where al: "op_alloc ops (env_al env) (mini_type mini) = Inr (STATUS_OK, r, al)"
      "mini' = mini\<lparr>num_extents := num_extents mini + 1\<rparr>" "env' = set_al env al"
    using assms(2) by (auto simp: mini_allocator_get_new_extent_def elim!: obind_InrE)
  have "inv (env_al env)" using assms(1) by (simp add: holds_def)
  then obtain x where "r = Some x" using alloc_fails al(1) by (cases r) blast+
  then show ?thesis using that [of x] al holds_alloc [OF assms(1)] by (simp add: set_al_def)
qed

lemma next_extent_ok:
  assumes "holds r0 k M os (env_al env)" and "mini_next_extent ops b (mini, env) = Inr (mini', env')"
  obtains x n where "mini' = mini\<lparr>num_extents := n, next_extent := (next_extent mini)(b := x)\<rparr>"
    and "env' = env\<lparr>env_al := env_al env'\<rparr>" and "holds r0 k M (x # os) (env_al env')"
proof -
  obtain r mini1 where g: "mini_allocator_get_new_extent ops mini env = Inr (STATUS_OK, r, mini1, env')"
      "mini' = (case r of None \<Rightarrow> mini1 | Some a \<Rightarrow> mini1\<lparr>next_extent := (next_extent mini1)(b := a)\<rparr>)"
    using assms(2) by (auto simp: mini_next_extent_def elim!: obind_InrE split: if_splits)
  obtain x where "r = Some x" "mini1 = mini\<lparr>num_extents := num_extents mini + 1\<rparr>"
      "env' = env\<lparr>env_al := env_al env'\<rparr>" "holds r0 k M (x # os) (env_al env')"
    using get_new_extent_ok [OF assms(1) g(1)] .
  then show ?thesis using that [where n = "num_extents mini + 1" and x = x] g(2) by simp
qed

definition minv :: "(u64 \<Rightarrow> u32) \<Rightarrow> u32 \<Rightarrow> u64 list \<Rightarrow> u64 list \<Rightarrow> mini_allocator \<Rightarrow> 'a mini_env \<Rightarrow> bool" where
  "minv r0 k ms xs mini env \<longleftrightarrow> env_page_size env = 4096 \<and> env_extent_size env = 131072 \<and>
     mini_pages (env_page env) (meta_head mini) (meta_tail mini) ms \<and>
     holds r0 k (ext_base (meta_head mini)) (owned (env_page env) ms xs) (env_al env)"

lemma minv_perm: "mset xs = mset ys \<Longrightarrow> minv r0 k ms xs mini env = minv r0 k ms ys mini env"
  unfolding minv_def by (subst holds_perm [of "owned (env_page env) ms ys" "owned (env_page env) ms xs"])
    (simp_all add: owned_def)

lemma minv_cong:
  "minv r0 k ms xs mini env \<Longrightarrow> meta_head mini' = meta_head mini \<Longrightarrow> meta_tail mini' = meta_tail mini \<Longrightarrow>
   minv r0 k ms xs mini' env"
  by (simp add: minv_def)

lemma minv_extents: "minv r0 k ms xs mini env \<Longrightarrow> p \<in> set ms \<Longrightarrow> ext_base p \<in> extent_addrs c \<and> ext_base p \<noteq> 0"
  by (auto simp: minv_def holds_def set_owned)


text \<open>
  Recording an extent: it moves from the extents in flight to those of the meta pages, at the
  end of the list.
\<close>

lemma append_entry_ok:
  assumes inv: "minv r0 k ms (e # xs) mini env"
    and ret: "mini_append_entry ops mini env e = Inr (mini', env')"
  obtains ms' n t where "minv r0 k ms' xs mini' env'" and "length ms' \<le> Suc (length ms)"
    and "chain_entries (env_page env') ms' = chain_entries (env_page env) ms @ [e]"
    and "mini' = mini\<lparr>num_extents := n, meta_tail := t\<rparr>"
proof -
  let ?pg = "env_page env" and ?tail = "meta_tail mini"
  have sizes: "env_page_size env = 4096" "env_extent_size env = 131072"
    and m: "mini_pages ?pg (meta_head mini) ?tail ms"
    and h: "holds r0 k (ext_base (meta_head mini)) (owned ?pg ms (e # xs)) (env_al env)"
    using inv by (simp_all add: minv_def)
  have tail: "ms \<noteq> []" "last ms = ?tail" "?tail \<in> set ms" "4096 dvd unat ?tail"
    using m last_in_set [of ms] by (auto simp: mini_pages_def)
  show ?thesis
  proof (cases "mini_append_entry_to_page 4096 (?pg ?tail) e")
    case (Some hdr)
    then have r: "mini' = mini" "env' = set_page env ?tail hdr"
      using ret by (auto simp: mini_append_entry_def sizes Let_def)
    note a = mini_pages_append [OF m Some]
    have "minv r0 k ms xs mini' env'"
      using a h by (simp add: minv_def r set_page_def sizes owned_def)
    then show ?thesis using that [where ms' = ms and n = "num_extents mini" and t = ?tail] a r by (simp add: set_page_def)
  next
    case None
    let ?new = "?tail + 4096"
    have iv: "inv (env_al env)" and te: "ext_base ?tail \<in> extent_addrs c"
      using h minv_extents [OF inv tail(3)] by (simp_all add: holds_def)
    have ok: "cfg_ok c" using config [OF iv] by simp
    note np = next_page [OF ok te tail(4)]
    obtain q mini1 env1 where
      q: "(if ?new mod 131072 = 0
           then obind (mini_allocator_get_new_extent ops mini env) (\<lambda>(st, r, mini1, env1).
                  if st \<noteq> STATUS_OK then Inl Abort
                  else Inr (case r of None \<Rightarrow> ?new | Some a \<Rightarrow> a, mini1, env1))
           else Inr (?new, mini, env)) = Inr (q, mini1, env1)"
      and rest: "env' = (let env2 = set_page env1 ?tail (mini_set_next_meta_addr (env_page env1 ?tail) q);
           hdr = mini_init_meta_page (env_page env2 q);
           hdr1 = (case mini_append_entry_to_page (env_page_size env2) hdr e of Some h \<Rightarrow> h | None \<Rightarrow> hdr);
           env3 = set_page env2 q hdr1 in if mini_pinned mini1 then env_pin env3 q else env3)"
      and mini': "mini' = mini1\<lparr>meta_tail := q\<rparr>"
      using ret None by (auto simp: mini_append_entry_def sizes Let_def elim!: obind_InrE)
    have new: "q \<notin> set ms" "q \<noteq> 0" "4096 dvd unat q" "\<And>p. p \<in> set ms \<Longrightarrow> ext_base p = ext_base q \<Longrightarrow> p \<le> q"
      and st: "\<exists>n. mini1 = mini\<lparr>num_extents := n\<rparr>" "env1 = env\<lparr>env_al := env_al env1\<rparr>"
      and own: "holds r0 k (ext_base (meta_head mini))
        ((if ext_base q = ext_base ?tail then [] else [ext_base q]) @ owned ?pg ms (e # xs)) (env_al env1)"
    proof -
      have "(q \<notin> set ms \<and> q \<noteq> 0 \<and> 4096 dvd unat q \<and> (\<forall>p\<in>set ms. ext_base p = ext_base q \<longrightarrow> p \<le> q)) \<and>
        (\<exists>n. mini1 = mini\<lparr>num_extents := n\<rparr>) \<and> env1 = env\<lparr>env_al := env_al env1\<rparr> \<and>
        holds r0 k (ext_base (meta_head mini))
          ((if ext_base q = ext_base ?tail then [] else [ext_base q]) @ owned ?pg ms (e # xs)) (env_al env1)"
      proof (cases "?new mod 131072 = 0")
        case True
        then obtain r where g: "mini_allocator_get_new_extent ops mini env = Inr (STATUS_OK, r, mini1, env1)"
            "q = (case r of None \<Rightarrow> ?new | Some a \<Rightarrow> a)"
          using q by (auto elim!: obind_InrE split: if_splits)
        obtain x where x: "r = Some x" "mini1 = mini\<lparr>num_extents := num_extents mini + 1\<rparr>"
            "env1 = env\<lparr>env_al := env_al env1\<rparr>"
            "holds r0 k (ext_base (meta_head mini)) (x # owned ?pg ms (e # xs)) (env_al env1)"
          using get_new_extent_ok [OF h g(1)] .
        have xe: "x \<in> extent_addrs c" "x \<noteq> 0" "x \<notin> ext_base ` set ms"
          using x(4) by (auto simp: holds_def set_owned)
        have "131072 dvd unat x" using xe(1) by (simp add: extent_addrs_def)
        then have "4096 dvd unat x" by (rule dvd_trans [rotated]) simp
        moreover have "x \<notin> set ms" "ext_base ?tail \<noteq> x" "\<forall>p\<in>set ms. ext_base p \<noteq> x"
          using xe tail(3) by (auto simp: image_iff)
        ultimately show ?thesis using x g(2) xe by auto
      next
        case False
        then have s: "q = ?new" "mini1 = mini" "env1 = env" using q by auto
        have eb: "ext_base ?new = ext_base ?tail" by (rule np(3) [OF False])
        have gt: "?tail < ?new" using np(1) by (simp add: word_less_nat_alt)
        have "\<forall>p\<in>set ms. ext_base p = ext_base ?new \<longrightarrow> p \<le> ?tail" using m eb by (simp add: mini_pages_def)
        then show ?thesis
          using gt eb h np(2) s by (auto simp: word_gt_0 intro: exI [of _ "num_extents mini"])
      qed
      then show "q \<notin> set ms" "q \<noteq> 0" "4096 dvd unat q" "\<And>p. p \<in> set ms \<Longrightarrow> ext_base p = ext_base q \<Longrightarrow> p \<le> q"
        "\<exists>n. mini1 = mini\<lparr>num_extents := n\<rparr>" "env1 = env\<lparr>env_al := env_al env1\<rparr>"
        "holds r0 k (ext_base (meta_head mini))
          ((if ext_base q = ext_base ?tail then [] else [ext_base q]) @ owned ?pg ms (e # xs)) (env_al env1)"
        by blast+
    qed
    have pg1: "env_page env1 = ?pg" "env_page_size env1 = 4096" "env_extent_size env1 = 131072"
      using arg_cong [OF st(2), of env_page] arg_cong [OF st(2), of env_page_size]
        arg_cong [OF st(2), of env_extent_size] sizes by simp_all
    have qt: "q \<noteq> ?tail" using new(1) tail(3) by auto
    obtain hdr where hdr: "mini_append_entry_to_page 4096 (mini_init_meta_page (?pg q)) e = Some hdr"
      using init_append by blast
    note l = mini_pages_link [OF m new hdr]
    have e': "env_page env' = ?pg(?tail := mini_set_next_meta_addr (?pg ?tail) q, q := hdr)"
        "env_page_size env' = 4096" "env_extent_size env' = 131072" "env_al env' = env_al env1"
      using qt hdr by (simp_all add: rest Let_def set_page_def env_pin_def pg1)
    obtain n where mini1: "mini1 = mini\<lparr>num_extents := n\<rparr>" using st(1) by blast
    have "remdups_adj (map ext_base (ms @ [q])) =
        remdups_adj (map ext_base ms) @ (if ext_base q = ext_base ?tail then [] else [ext_base q])"
      using tail by (auto simp: remdups_adj_snoc last_map)
    then have "mset (owned (env_page env') (ms @ [q]) xs) =
        mset ((if ext_base q = ext_base ?tail then [] else [ext_base q]) @ owned ?pg ms (e # xs))"
      using l(2) by (simp add: owned_def e'(1))
    then have "holds r0 k (ext_base (meta_head mini)) (owned (env_page env') (ms @ [q]) xs) (env_al env1)"
      using own holds_perm by blast
    then have "minv r0 k (ms @ [q]) xs mini' env'"
      using l(1) by (simp add: minv_def e' mini' mini1)
    then show ?thesis using that [where ms' = "ms @ [q]" and n = n and t = q] l(2) by (simp add: e'(1) mini' mini1)
  qed
qed


section \<open>Allocation\<close>

text \<open>
  A batch allocates inside an extent that the meta pages record, above all pages of that
  extent that were handed out before; different batches allocate in different extents.
\<close>

definition batch_ok :: "u64 list \<Rightarrow> u64 set \<Rightarrow> u64 \<Rightarrow> bool" where
  "batch_ok ds G a \<longleftrightarrow> 4096 dvd unat a \<and>
     (a mod 131072 \<noteq> 0 \<longrightarrow> ext_base a \<in> set ds \<and> (\<forall>p\<in>G. ext_base p = ext_base a \<longrightarrow> p < a))"

definition pages_fresh :: "u64 list \<Rightarrow> u64 set \<Rightarrow> mini_allocator \<Rightarrow> bool" where
  "pages_fresh ds G mini \<longleftrightarrow> (\<forall>p\<in>G. ext_base p \<in> set ds \<and> 4096 dvd unat p) \<and>
     (\<forall>b<num_batches mini. batch_ok ds G (next_addr mini b)) \<and>
     (\<forall>b<num_batches mini. \<forall>b'<num_batches mini. b \<noteq> b' \<longrightarrow> next_addr mini b mod 131072 \<noteq> 0 \<longrightarrow>
        next_addr mini b' mod 131072 \<noteq> 0 \<longrightarrow> ext_base (next_addr mini b) \<noteq> ext_base (next_addr mini b'))"

definition mini_ready :: "(u64 \<Rightarrow> u32) \<Rightarrow> u32 \<Rightarrow> u64 list \<Rightarrow> u64 set \<Rightarrow> mini_allocator \<Rightarrow> 'a mini_env \<Rightarrow> bool" where
  "mini_ready r0 k ms G mini env \<longleftrightarrow>
     minv r0 k ms (map (next_extent mini) [0..<num_batches mini]) mini env \<and>
     pages_fresh (chain_entries (env_page env) ms) G mini"

lemma map_upd_mset:
  "b < n \<Longrightarrow> mset (x # map f [0..<n]) = mset (f b # map (f(b := x)) [0..<n])"
proof -
  assume b: "b < n"
  have "map (f(b := x)) [0..<n] = (map f [0..<n])[b := x]"
    by (rule nth_equalityI) (simp_all add: nth_list_update b)
  moreover have "f b \<in># mset (map f [0..<n])" using b by auto
  ultimately show ?thesis using b mset_update [of b "map f [0..<n]" x] by simp
qed

text \<open>
  The page \<open>a\<close> of one allocation in batch \<open>b\<close>: new, in an extent the meta pages record, above
  the pages handed out of it, and away from where the other batches allocate.
\<close>

definition picked ::
  "(u64 \<Rightarrow> u32) \<Rightarrow> u32 \<Rightarrow> u64 list \<Rightarrow> u64 set \<Rightarrow> nat \<Rightarrow> mini_allocator \<Rightarrow> 'a mini_env \<Rightarrow>
   u64 \<Rightarrow> u64 list \<Rightarrow> mini_allocator \<Rightarrow> 'a mini_env \<Rightarrow> bool" where
  "picked r0 k ms G b mini env a ms' mini' env' \<longleftrightarrow>
     minv r0 k ms' (map (next_extent mini') [0..<num_batches mini]) mini' env' \<and> length ms' \<le> Suc (length ms) \<and>
     meta_head mini' = meta_head mini \<and> num_batches mini' = num_batches mini \<and> mini_type mini' = mini_type mini \<and>
     next_addr mini' = (next_addr mini)(b := MINI_WAIT) \<and>
     a \<notin> G \<and> 4096 dvd unat a \<and> ext_base a \<in> set (chain_entries (env_page env') ms') \<and>
     set (chain_entries (env_page env) ms) \<subseteq> set (chain_entries (env_page env') ms') \<and>
     (\<forall>p\<in>G. ext_base p = ext_base a \<longrightarrow> p < a) \<and>
     (\<forall>b'<num_batches mini. b' \<noteq> b \<longrightarrow> next_addr mini b' mod 131072 \<noteq> 0 \<longrightarrow> ext_base (next_addr mini b') \<noteq> ext_base a)"

lemma picked_current:
  assumes rd: "mini_ready r0 k ms G mini env" and b: "b < num_batches mini"
    and na: "next_addr mini b mod 131072 \<noteq> 0"
  shows "picked r0 k ms G b mini env (next_addr mini b) ms (mini\<lparr>next_addr := (next_addr mini)(b := MINI_WAIT)\<rparr>) env"
proof -
  have mi: "minv r0 k ms (map (next_extent mini) [0..<num_batches mini]) mini env"
    and fr: "pages_fresh (chain_entries (env_page env) ms) G mini" using rd by (simp_all add: mini_ready_def)
  have "batch_ok (chain_entries (env_page env) ms) G (next_addr mini b)" using fr b by (simp add: pages_fresh_def)
  then have o: "4096 dvd unat (next_addr mini b)" "ext_base (next_addr mini b) \<in> set (chain_entries (env_page env) ms)"
      "\<forall>p\<in>G. ext_base p = ext_base (next_addr mini b) \<longrightarrow> p < next_addr mini b"
    using na by (simp_all add: batch_ok_def)
  then have "next_addr mini b \<notin> G" by auto
  moreover have "\<forall>b'<num_batches mini. b' \<noteq> b \<longrightarrow> next_addr mini b' mod 131072 \<noteq> 0 \<longrightarrow>
      ext_base (next_addr mini b') \<noteq> ext_base (next_addr mini b)"
    using fr b na by (simp add: pages_fresh_def)
  ultimately show ?thesis using o minv_cong [OF mi] by (simp add: picked_def)
qed

lemma picked_next:
  assumes rd: "mini_ready r0 k ms G mini env" and b: "b < num_batches mini"
    and s: "mini_next_extent ops b (mini\<lparr>next_addr := (next_addr mini)(b := MINI_WAIT)\<rparr>, env) = Inr (mini2, env2)"
      "mini_append_entry ops mini2 env2 (next_extent mini b) = Inr (mini4, env')"
  shows "\<exists>ms'. picked r0 k ms G b mini env (next_extent mini b) ms' mini4 env'"
proof -
  let ?ds = "chain_entries (env_page env) ms" and ?e = "next_extent mini b" and ?n = "num_batches mini"
  have mi: "minv r0 k ms (map (next_extent mini) [0..<?n]) mini env"
    and fr: "pages_fresh ?ds G mini" using rd by (simp_all add: mini_ready_def)
  have own: "holds r0 k (ext_base (meta_head mini)) (owned (env_page env) ms (map (next_extent mini) [0..<?n])) (env_al env)"
    using mi by (simp add: minv_def)
  obtain x n where x: "mini2 = mini\<lparr>next_addr := (next_addr mini)(b := MINI_WAIT), num_extents := n, next_extent := (next_extent mini)(b := x)\<rparr>"
      "env2 = env\<lparr>env_al := env_al env2\<rparr>"
      "holds r0 k (ext_base (meta_head mini))
        (x # owned (env_page env) ms (map (next_extent mini) [0..<?n])) (env_al env2)"
    using next_extent_ok [OF own s(1)] by auto
  let ?f = "(next_extent mini)(b := x)"
  have pg2: "env_page env2 = env_page env" "env_page_size env2 = 4096" "env_extent_size env2 = 131072"
    using arg_cong [OF x(2), of env_page] arg_cong [OF x(2), of env_page_size]
      arg_cong [OF x(2), of env_extent_size] mi by (simp_all add: minv_def)
  have "minv r0 k ms (x # map (next_extent mini) [0..<?n]) mini2 env2"
    using mi x holds_perm [of "x # owned (env_page env) ms (map (next_extent mini) [0..<?n])"
        "owned (env_page env) ms (x # map (next_extent mini) [0..<?n])"]
    by (simp add: minv_def pg2 owned_def)
  then have "minv r0 k ms (?e # map ?f [0..<?n]) mini2 env2"
    using minv_perm [OF map_upd_mset [OF b, of x "next_extent mini"]] by simp
  then obtain ms' n' t where ms': "minv r0 k ms' (map ?f [0..<?n]) mini4 env'" "length ms' \<le> Suc (length ms)"
      "chain_entries (env_page env') ms' = chain_entries (env_page env2) ms @ [?e]"
      "mini4 = mini2\<lparr>num_extents := n', meta_tail := t\<rparr>"
    using append_entry_ok [OF _ s(2)] by blast
  have em: "?e \<in> extent_addrs c" "?e \<notin> set ?ds" using own b by (auto simp: holds_def owned_def)
  have "131072 dvd unat ?e" using em(1) by (simp add: extent_addrs_def)
  then have a4: "4096 dvd unat ?e" by (rule dvd_trans [rotated]) simp
  have eb: "ext_base ?e = ?e" using em(1) by simp
  have gb: "\<forall>p\<in>G. ext_base p \<noteq> ?e" using fr em(2) by (auto simp: pages_fresh_def)
  moreover have "?e \<notin> G" using gb eb by auto
  moreover have "\<forall>b'<?n. b' \<noteq> b \<longrightarrow> next_addr mini b' mod 131072 \<noteq> 0 \<longrightarrow> ext_base (next_addr mini b') \<noteq> ?e"
    using fr em(2) by (auto simp: pages_fresh_def batch_ok_def)
  ultimately show ?thesis using ms' eb a4 by (intro exI [of _ ms']) (auto simp: picked_def x(1) pg2)
qed

text \<open>The page of one allocation.\<close>

lemma mini_alloc_ok:
  assumes rd: "mini_ready r0 k ms G mini env" and b: "b < num_batches mini"
    and ret: "mini_alloc ops b (mini, env) = Inr (a, nx, mini', env')"
  obtains ms' where "mini_ready r0 k ms' (insert a G) mini' env'" and "length ms' \<le> Suc (length ms)"
    and "a \<notin> G" and "4096 dvd unat a" and "ext_base a \<notin> ext_base ` set ms'"
    and "nx = next_extent mini' b" and "meta_head mini' = meta_head mini"
    and "num_batches mini' = num_batches mini" and "mini_type mini' = mini_type mini"
proof -
  have sizes: "env_page_size env = 4096" "env_extent_size env = 131072"
    and fr: "pages_fresh (chain_entries (env_page env) ms) G mini"
    using rd by (simp_all add: mini_ready_def minv_def)
  have "4096 dvd unat (next_addr mini b)" using fr b by (simp add: pages_fresh_def batch_ok_def)
  then have nw: "next_addr mini b \<noteq> MINI_WAIT" by (auto simp: MINI_WAIT_def)
  obtain mini4 where
    step: "(if next_addr mini b mod 131072 = 0
       then obind (mini_next_extent ops b (mini\<lparr>next_addr := (next_addr mini)(b := MINI_WAIT)\<rparr>, env)) (\<lambda>(mini2, env2).
            obind (mini_append_entry ops mini2 env2 (next_extent mini b)) (\<lambda>(mini3, env3).
            Inr (next_extent mini b, mini3, env3)))
       else Inr (next_addr mini b, mini\<lparr>next_addr := (next_addr mini)(b := MINI_WAIT)\<rparr>, env)) = Inr (a, mini4, env')"
    and res: "nx = next_extent mini4 b"
      "mini' = mini4\<lparr>next_addr := (next_addr mini4)(b := a + env_page_size env')\<rparr>"
    using ret nw by (auto simp: mini_alloc_def Let_def sizes cong: if_cong elim!: obind_InrE)
  have "\<exists>ms'. picked r0 k ms G b mini env a ms' mini4 env'"
    using step picked_current [OF rd b] picked_next [OF rd b]
    by (auto split: if_splits elim!: obind_InrE)
  then obtain ms' where p: "picked r0 k ms G b mini env a ms' mini4 env'" ..
  let ?ds = "chain_entries (env_page env') ms'"
  have mi: "minv r0 k ms' (map (next_extent mini4) [0..<num_batches mini]) mini4 env'"
    and pd: "4096 dvd unat a" "ext_base a \<in> set ?ds" "set (chain_entries (env_page env) ms) \<subseteq> set ?ds"
      "\<forall>p\<in>G. ext_base p = ext_base a \<longrightarrow> p < a"
      "\<forall>b'<num_batches mini. b' \<noteq> b \<longrightarrow> next_addr mini b' mod 131072 \<noteq> 0 \<longrightarrow> ext_base (next_addr mini b') \<noteq> ext_base a"
    and kept: "next_addr mini4 = (next_addr mini)(b := MINI_WAIT)" "num_batches mini4 = num_batches mini"
    using p by (simp_all add: picked_def)
  have own: "inv (env_al env')" "ext_base a \<in> extent_addrs c" "ext_base a \<notin> ext_base ` set ms'" "env_page_size env' = 4096"
    using mi pd(2) by (auto simp: minv_def holds_def owned_def)
  have ok: "cfg_ok c" using config [OF own(1)] by simp
  note np = next_page [OF ok own(2) pd(1)]
  have gt: "a < a + 4096" using np(1) by (simp add: word_less_nat_alt)
  have "batch_ok ?ds (insert a G) (a + 4096)"
    using np(2,3) gt pd(2,4) by (auto simp: batch_ok_def)
  moreover have "batch_ok ?ds (insert a G) (next_addr mini b')" if "b' < num_batches mini" "b' \<noteq> b" for b'
    using that fr pd(3,5) by (auto simp: pages_fresh_def batch_ok_def)
  moreover have "ext_base p \<in> set ?ds \<and> 4096 dvd unat p" if "p \<in> insert a G" for p
    using that pd fr by (auto simp: pages_fresh_def)
  ultimately have "pages_fresh ?ds (insert a G) mini'"
    using fr pd(5) np(3) by (auto simp: pages_fresh_def res own(4) kept)
  moreover have "minv r0 k ms' (map (next_extent mini') [0..<num_batches mini']) mini' env'"
    using minv_cong [OF mi] by (simp add: res kept)
  ultimately have "mini_ready r0 k ms' (insert a G) mini' env'" by (simp add: mini_ready_def)
  then show ?thesis using that [of ms'] p own(3) by (simp add: res picked_def)
qed

end

end
