(* ===== verification/MiniLifecycle.thy ===== *)
theory MiniLifecycle
  imports MiniProofs
begin

text \<open>
  The life of a mini allocator: creation, allocations and changes of the count of references
  in any order, release, and the drop of the last reference, which gives back every extent.
\<close>

section \<open>Creation\<close>

context extent_allocator
begin

lemma mini_init_ok:
  assumes inv: "inv (env_al env)" and sizes: "env_page_size env = 4096" "env_extent_size env = 131072"
    and M: "ext_base mhead \<in> extent_addrs c" "ext_base mhead \<noteq> 0" "4096 dvd unat mhead"
    and one: "refs (env_al env) (ext_base mhead) = AL_ONE_REF" and z: "refs (env_al env) 0 \<noteq> AL_FREE"
    and ret: "mini_init ops env mhead 0 batches t = Inr (a, mini, env')"
  shows "mini_ready (refs (env_al env)) 3 [mhead] {} mini env'"
    and "num_batches mini = batches" and "meta_head mini = mhead" and "mini_type mini = t"
    and "a = next_extent mini 0"
proof -
  let ?mini1 = "\<lparr>mini_pinned = (t = PAGE_TYPE_MEMTABLE), meta_head = mhead, meta_tail = mhead,
                    mini_type = t, num_extents = 1, num_batches = batches,
                    next_addr = (\<lambda>_. 0), next_extent = (\<lambda>_. 0)\<rparr>"
  let ?h = "mini_init_meta_page (env_page env mhead)"
  let ?env1 = "set_page env mhead ?h"
  have al1: "env_al ?env1 = env_al env" by (simp add: set_page_def)
  obtain ref al where io: "op_inc_ref ops (env_al env) (ext_base mhead) = Inr (ref, al)" "ref = MINI_NO_REFS + 1"
    and it: "iterM (mini_next_extent ops) [0..<batches] (?mini1, if t = PAGE_TYPE_MEMTABLE
        then env_pin (set_al ?env1 al) mhead else set_al ?env1 al) = Inr (mini, env')"
    and a: "a = next_extent mini 0"
    using ret inv by (auto simp: mini_init_def Let_def al1 base_addr_of elim!: obind_InrE split: if_splits)
  let ?P = "\<lambda>i x. minv (refs (env_al env)) 3 [mhead] (map (next_extent (fst x)) [0..<i]) (fst x) (snd x) \<and>
    next_addr (fst x) = (\<lambda>_. 0) \<and> meta_head (fst x) = mhead \<and> num_batches (fst x) = batches \<and>
    mini_type (fst x) = t \<and> page_entries (env_page (snd x) mhead) = []"
  let ?x0 = "(?mini1, if t = PAGE_TYPE_MEMTABLE then env_pin (set_al ?env1 al) mhead else set_al ?env1 al)"
  have nz: "mhead \<noteq> 0" using M(2) by auto
  have e0: "env_page (snd ?x0) = (env_page env)(mhead := ?h)" "env_page_size (snd ?x0) = 4096"
      "env_extent_size (snd ?x0) = 131072" "env_al (snd ?x0) = al"
    using sizes by (simp_all add: env_pin_def set_al_def set_page_def)
  have "mini_pages ((env_page env)(mhead := ?h)) mhead mhead [mhead]"
    using nz M(3) hdr_init [of "env_page env mhead"] by (simp add: mini_pages_def)
  moreover have "holds (refs (env_al env)) 3 (ext_base mhead) [ext_base mhead] al"
  proof -
    note i = inc [OF inv M(1) io(1)]
    then show ?thesis using M one z io(2) by (simp add: holds_def al_consts MINI_NO_REFS_def)
  qed
  ultimately have p0: "?P 0 ?x0" using hdr_init(2) [of "env_page env mhead"] e0 by (simp add: minv_def owned_def)
  have "?P batches (mini, env')"
  proof (rule iterM_upt_invariant [OF it, of ?P])
    fix i x x' assume p: "?P i x" and r: "mini_next_extent ops i x = Inr x'"
    have own: "holds (refs (env_al env)) 3 (ext_base (meta_head (fst x)))
        (owned (env_page (snd x)) [mhead] (map (next_extent (fst x)) [0..<i])) (env_al (snd x))"
      using p by (auto simp: minv_def)
    obtain y n where y: "fst x' = (fst x)\<lparr>num_extents := n, next_extent := (next_extent (fst x))(i := y)\<rparr>"
        "snd x' = (snd x)\<lparr>env_al := env_al (snd x')\<rparr>"
        "holds (refs (env_al env)) 3 (ext_base (meta_head (fst x)))
          (y # owned (env_page (snd x)) [mhead] (map (next_extent (fst x)) [0..<i])) (env_al (snd x'))"
      using next_extent_ok [OF own, of i "fst x" "fst x'" "snd x'"] r by auto
    have pg: "env_page (snd x') = env_page (snd x)" "env_page_size (snd x') = env_page_size (snd x)"
        "env_extent_size (snd x') = env_extent_size (snd x)"
      using arg_cong [OF y(2), of env_page] arg_cong [OF y(2), of env_page_size]
        arg_cong [OF y(2), of env_extent_size] by simp_all
    have "map ((next_extent (fst x))(i := y)) [0..<i] = map (next_extent (fst x)) [0..<i]" by simp
    then have "holds (refs (env_al env)) 3 (ext_base (meta_head (fst x)))
        (owned (env_page (snd x)) [mhead] (map ((next_extent (fst x))(i := y)) [0..<Suc i])) (env_al (snd x'))"
      using y(3) by (subst holds_perm [of _ "y # owned (env_page (snd x)) [mhead] (map (next_extent (fst x)) [0..<i])"])
        (simp_all add: owned_def)
    then show "?P (Suc i) x'" using p y(1) pg by (auto simp: minv_def)
  qed (use p0 in simp_all)
  then show "mini_ready (refs (env_al env)) 3 [mhead] {} mini env'"
    and "num_batches mini = batches" and "meta_head mini = mhead" and "mini_type mini = t"
    and "a = next_extent mini 0"
    using a by (simp_all add: mini_ready_def pages_fresh_def batch_ok_def)
qed

section \<open>References\<close>

lemma minv_meta: "minv r0 k ms xs mini env \<Longrightarrow>
    inv (env_al env) \<and> ext_base (meta_head mini) \<in> extent_addrs c \<and>
    refs (env_al env) (ext_base (meta_head mini)) = k"
  by (auto simp: minv_def holds_def)

lemma holds_count:
  assumes "holds r0 k M os al" and "inv al'" and "k' \<noteq> AL_FREE"
    and "\<forall>y\<in>extent_addrs c. refs al' y = (if y = M then k' else refs al y)"
  shows "holds r0 k' M os al'"
  using assms by (simp add: holds_def)

lemma minv_count:
  assumes "minv r0 k ms xs mini env" and "inv al'" and "k' \<noteq> AL_FREE"
    and "\<forall>y\<in>extent_addrs c. refs al' y = (if y = ext_base (meta_head mini) then k' else refs (env_al env) y)"
  shows "minv r0 k' ms xs mini (set_al env al')"
  using assms holds_count [of r0 k "ext_base (meta_head mini)" "owned (env_page env) ms xs" "env_al env" al' k']
  by (simp add: minv_def set_al_def)

lemma mini_inc_ref_ok:
  assumes m: "minv r0 k ms xs mini env" and ret: "mini_inc_ref ops env (meta_head mini) = Inr (r, env')"
  shows "r = k - 1" and "minv r0 (k + 1) ms xs mini env'" and "env_page env' = env_page env"
proof -
  note mm = minv_meta [OF m]
  obtain ref al where i: "op_inc_ref ops (env_al env) (ext_base (meta_head mini)) = Inr (ref, al)"
      "r = ref - MINI_NO_REFS" "env' = set_al env al"
    using ret mm by (auto simp: mini_inc_ref_def base_addr_of elim!: obind_InrE split: if_splits)
  note e = inc [OF _ _ i(1)]
  show "r = k - 1" using e mm i(2) by (simp add: MINI_NO_REFS_def)
  show "minv r0 (k + 1) ms xs mini env'"
    unfolding i(3) using e mm by (intro minv_count [OF m]) (auto simp: al_consts)
  show "env_page env' = env_page env" by (simp add: i(3) set_al_def)
qed

lemma mini_dec_ref_ok:
  assumes m: "minv r0 k ms xs mini env" and k: "3 < k"
    and ret: "mini_dec_ref ops fuel env (meta_head mini) t = Inr (r, env')"
  shows "r = k - 3" and "minv r0 (k - 1) ms xs mini env'" and "env_page env' = env_page env"
proof -
  note mm = minv_meta [OF m]
  have ne: "k - 1 \<noteq> 2" "k - 1 \<noteq> 0" using k by (auto simp: word_less_nat_alt dest: arg_cong [of _ _ "\<lambda>x. x + 1"])
  obtain ref al where i: "op_dec_ref ops (env_al env) (ext_base (meta_head mini)) t = Inr (ref, al)"
      "(if ref \<noteq> MINI_NO_REFS then Inr (ref - MINI_NO_REFS, set_al env al)
          else obind (mini_for_each fuel (meta_head mini)
                       (\<lambda>base s. obind (mini_dealloc_extent ops t base (fst s)) (\<lambda>e. Inr (e, ())))
                       (set_al env al, ())) (\<lambda>(env2, _).
               obind (mini_deinit fuel ops (meta_head mini) t env2) (\<lambda>env3. Inr (0, env3)))) = Inr (r, env')"
    using ret mm by (auto simp: mini_dec_ref_def base_addr_of Let_def elim!: obind_InrE)
  note e = dec [OF _ _ i(1)]
  then have ref: "ref = k - 1" using mm by simp
  then have s: "r = ref - MINI_NO_REFS" "env' = set_al env al"
    using i(2) ne(1) by (auto simp: MINI_NO_REFS_def)
  show "r = k - 3" using ref s(1) by (simp add: MINI_NO_REFS_def)
  show "minv r0 (k - 1) ms xs mini env'"
    unfolding s(2) using e mm ne(2) by (intro minv_count [OF m]) (auto simp: al_consts)
  show "env_page env' = env_page env" by (simp add: s(2) set_al_def)
qed

section \<open>Release\<close>

lemma holds_freed:
  assumes h: "holds r0 k M os (env_al env)" and f: "freed X env env'" and M: "M \<notin> X" and X: "X \<subseteq> set os"
    and os': "distinct os'" "set os' = set os - X"
  shows "holds r0 k M os' (env_al env')"
  using assms by (auto simp: holds_def freed_def)

lemma meta_head_extent: "minv r0 k ms xs mini env \<Longrightarrow> ext_base (meta_head mini) \<in> ext_base ` set ms"
  using meta_chain_hd [of "env_page env" "meta_head mini" ms] by (auto simp: minv_def mini_pages_def)

text \<open>What is left after the release: the meta pages and the extents they record.\<close>

definition mini_left :: "(u64 \<Rightarrow> u32) \<Rightarrow> u32 \<Rightarrow> u64 list \<Rightarrow> u64 \<Rightarrow> 'a mini_env \<Rightarrow> bool" where
  "mini_left r0 k ms mhead env \<longleftrightarrow> meta_chain (env_page env) mhead ms \<and> ms \<noteq> [] \<and>
     holds r0 k (ext_base mhead) (owned (env_page env) ms []) (env_al env)"

lemma mini_release_ok:
  assumes m: "minv r0 k ms (map (next_extent mini) [0..<num_batches mini]) mini env"
    and t: "mini_type mini \<noteq> PAGE_TYPE_INVALID"
  shows "\<exists>env'. mini_release ops mini env = Inr env' \<and> mini_left r0 k ms (meta_head mini) env'"
proof -
  let ?xs = "map (next_extent mini) [0..<num_batches mini]"
  let ?g = "free_extent ops (mini_type mini)"
  let ?os = "owned (env_page env) ms ?xs"
  have h: "holds r0 k (ext_base (meta_head mini)) ?os (env_al env)" using m by (simp add: minv_def)
  have Mx: "ext_base ` set ms \<inter> set ?xs = {}" using h by (auto simp: holds_def owned_def)
  then have M: "ext_base (meta_head mini) \<notin> set ?xs" using meta_head_extent [OF m] by blast
  have "\<exists>env'. iterM (\<lambda>x. ?g x (\<lambda>e. e)) ?xs env = Inr env' \<and> freed (set ?xs) env env'"
  proof (rule free_all)
    show "\<exists>e'. ?g x (\<lambda>e. e) e = Inr e' \<and> freed {x} e e'"
      if "x \<in> set ?xs" "inv (env_al e)" "refs (env_al e) x = AL_ONE_REF" for x e
      using that h t by (intro release_extent_ok) (auto simp: holds_def owned_def)
    show "\<forall>x\<in>set ?xs. refs (env_al env) x = AL_ONE_REF"
    proof
      fix x assume x: "x \<in> set ?xs"
      have "x \<in> set ?os" using x by (simp add: owned_def)
      moreover have "x \<noteq> ext_base (meta_head mini)" using x M by blast
      ultimately show "refs (env_al env) x = AL_ONE_REF" using h by (auto simp: holds_def)
    qed
  qed (use h in \<open>auto simp: holds_def owned_def\<close>)
  then obtain env' where e: "iterM (\<lambda>x. ?g x (\<lambda>e. e)) ?xs env = Inr env'" "freed (set ?xs) env env'" by blast
  have r: "mini_release ops mini env = Inr env'"
    using e(1) iterM_map [of "\<lambda>x. ?g x (\<lambda>e. e)" "next_extent mini"] by (simp add: mini_release_def)
  have pg: "env_page env' p = env_page env p" if "p \<in> set ms" for p
  proof -
    have "ext_base p \<notin> set ?xs" using Mx that by blast
    then show ?thesis using e(2) by (simp add: freed_def)
  qed
  have ch: "meta_chain (env_page env') (meta_head mini) ms" "ms \<noteq> []"
    using m meta_chain_cong [of ms "env_page env'" "env_page env", OF pg] by (simp_all add: minv_def mini_pages_def)
  have ow: "owned (env_page env') ms [] = owned (env_page env) ms []"
    using chain_entries_cong [of ms "env_page env'" "env_page env", OF pg] by (simp add: owned_def)
  have "holds r0 k (ext_base (meta_head mini)) (owned (env_page env) ms []) (env_al env')"
    by (rule holds_freed [OF h e(2) M]) (use h in \<open>auto simp: holds_def owned_def\<close>)
  then show ?thesis using r ch ow by (simp add: mini_left_def)
qed

section \<open>The last reference\<close>

lemma dealloc_frame:
  assumes "inv (env_al env)" and "x \<in> extent_addrs c" and "mini_dealloc_extent ops t x env = Inr env'"
  shows "inv (env_al env')" and "ext_base a \<noteq> x \<Longrightarrow> env_page env' a = env_page env a"
proof -
  obtain al1 al2 where d: "op_dec_ref ops (env_al env) x t = Inr (AL_NO_REFS, al1)"
      "op_dec_ref ops al1 x t = Inr (AL_FREE, al2)" "env' = set_al (env_discard ops (set_al env al1) x) al2"
    using assms(3) by (auto simp: mini_dealloc_extent_def free_extent_def Let_def env_discard_simps set_al_def
        elim!: obind_InrE split: if_splits)
  have i: "inv al1" "inv al2" using dec [OF assms(1,2) d(1)] dec [OF _ assms(2) d(2)] by auto
  show "inv (env_al env')" using i d(3) by (simp add: set_al_def)
  show "env_page env' a = env_page env a" if "ext_base a \<noteq> x"
    using env_discard_simps(4) [of "set_al env al1" a x] i that d(3) by (simp add: set_al_def)
qed

lemma iterM_unit:
  "iterM (\<lambda>x s. obind (g x (fst s)) (\<lambda>e. Inr (e, ()))) xs (env, ()) = obind (iterM g xs env) (\<lambda>e. Inr (e, ()))"
proof (induction xs arbitrary: env)
  case (Cons x xs)
  then show ?case by (cases "g x env") simp_all
qed simp

text \<open>The entries of the meta pages are freed in order, then the meta pages.\<close>

lemma free_entries_ok:
  assumes l: "mini_left r0 k ms mhead env" and t: "t \<noteq> PAGE_TYPE_INVALID" and f: "length ms \<le> fuel"
    and k: "k = AL_ONE_REF"
  shows "\<exists>env'. mini_for_each fuel mhead
      (\<lambda>base s. obind (mini_dealloc_extent ops t base (fst s)) (\<lambda>e. Inr (e, ()))) (env, ()) = Inr (env', ()) \<and>
    freed (set (chain_entries (env_page env) ms)) env env'"
proof -
  let ?ds = "chain_entries (env_page env) ms"
  let ?f = "\<lambda>base s. obind (mini_dealloc_extent ops t base (fst s)) (\<lambda>e. Inr (e, ()))"
  have h: "holds r0 k (ext_base mhead) (owned (env_page env) ms []) (env_al env)"
    and ch: "meta_chain (env_page env) mhead ms" using l by (simp_all add: mini_left_def)
  have ds: "distinct ?ds" "set ?ds \<subseteq> extent_addrs c" "inv (env_al env)" "ext_base ` set ms \<inter> set ?ds = {}"
    using h by (auto simp: holds_def owned_def)
  have one: "\<forall>x\<in>set ?ds. refs (env_al env) x = AL_ONE_REF" using h k by (auto simp: holds_def owned_def)
  let ?P = "\<lambda>s. inv (env_al (fst s)) \<and> (\<forall>p\<in>set ms. env_page (fst s) p = env_page env p)"
  have "mini_for_each fuel mhead ?f (env, ()) = iterM ?f ?ds (env, ())"
  proof (rule for_each_iter [where P = ?P])
    show "?P s'" if xs: "x \<in> set ?ds" "?P s" "?f x s = Inr s'" for x s s'
    proof -
      obtain e where e: "mini_dealloc_extent ops t x (fst s) = Inr e" "s' = (e, ())"
        using xs(3) by (auto elim!: obind_InrE)
      have "x \<in> extent_addrs c" "\<forall>p\<in>set ms. ext_base p \<noteq> x" using xs(1) ds(2,4) by auto
      then show ?thesis using dealloc_frame [OF _ _ e(1)] xs(2) e(2) by simp
    qed
  qed (use ch f ds in auto)
  moreover have "\<exists>env'. iterM (mini_dealloc_extent ops t) ?ds env = Inr env' \<and> freed (set ?ds) env env'"
  proof (rule free_all)
    show "\<exists>e'. mini_dealloc_extent ops t x e = Inr e' \<and> freed {x} e e'"
      if "x \<in> set ?ds" "inv (env_al e)" "refs (env_al e) x = AL_ONE_REF" for x e
      using that ds(2) t by (intro dealloc_extent_ok) auto
  qed (use ds one in simp_all)
  ultimately show ?thesis by (auto simp: iterM_unit)
qed

lemma mini_last_ref_ok:
  assumes l: "mini_left r0 3 ms mhead env" and t: "t \<noteq> PAGE_TYPE_INVALID" and f: "length ms \<le> fuel"
  shows "\<exists>env'. mini_dec_ref ops fuel env mhead t = Inr (0, env') \<and> inv (env_al env') \<and>
    (\<forall>y\<in>extent_addrs c. refs (env_al env') y = (if y = ext_base mhead then AL_FREE else r0 y))"
proof -
  let ?pg = "env_page env" and ?M = "ext_base mhead"
  let ?os = "owned ?pg ms []" and ?ds = "chain_entries ?pg ms"
  have h: "holds r0 3 ?M ?os (env_al env)" and ch: "meta_chain ?pg mhead ms" "ms \<noteq> []"
    using l by (simp_all add: mini_left_def)
  have M: "inv (env_al env)" "?M \<in> extent_addrs c" "refs (env_al env) ?M = 3" using h by (auto simp: holds_def)
  obtain al where d: "op_dec_ref ops (env_al env) ?M t = Inr (2, al)"
    using dec_returns [OF M(1,2) _ t] M(3) by (auto simp: al_consts)
  note de = dec [OF M(1,2) d]
  let ?env1 = "set_al env al"
  have l1: "mini_left r0 2 ms mhead ?env1"
    using l holds_count [OF h, of al 2] de by (simp add: mini_left_def set_al_def al_consts)
  have h1: "holds r0 2 ?M ?os al" using l1 by (simp add: mini_left_def set_al_def)
  have pg1: "env_page ?env1 = ?pg" "env_al ?env1 = al" by (simp_all add: set_al_def)
  obtain env2 where e2: "mini_for_each fuel mhead
      (\<lambda>base s. obind (mini_dealloc_extent ops t base (fst s)) (\<lambda>e. Inr (e, ()))) (?env1, ()) = Inr (env2, ())"
      "freed (set ?ds) ?env1 env2"
    using free_entries_ok [OF l1 t f] by (auto simp: al_consts pg1)
  have ow: "distinct (remdups_adj (map ext_base ms))" "ext_base ` set ms \<inter> set ?ds = {}"
      "ext_base ` set ms \<subseteq> extent_addrs c" "0 \<notin> ext_base ` set ms"
    using h by (auto simp: holds_def owned_def)
  have pg2: "env_page env2 p = ?pg p" if "p \<in> set ms" for p
  proof -
    have "ext_base p \<notin> set ?ds" using ow(2) that by blast
    then show ?thesis using e2(2) by (simp add: freed_def pg1)
  qed
  have "\<forall>x\<in>ext_base ` set ms. refs (env_al env2) x = AL_ONE_REF"
  proof
    fix x assume x: "x \<in> ext_base ` set ms"
    then have "x \<notin> set ?ds" "x \<in> extent_addrs c" "x \<in> set ?os" using ow by (auto simp: set_owned)
    then show "refs (env_al env2) x = AL_ONE_REF"
      using e2(2) h1 by (simp add: freed_def pg1 holds_def al_consts)
  qed
  then obtain env3 where e3: "mini_deinit fuel ops mhead t env2 = Inr env3" "freed (ext_base ` set ms) env2 env3"
    using deinit_ok [of env2 mhead ms fuel t] meta_chain_cong [of ms "env_page env2" ?pg, OF pg2] ch f ow e2(2) t
    by (auto simp: freed_def)
  have r: "mini_dec_ref ops fuel env mhead t = Inr (0, env3)"
    using M(1) d e2(1) e3(1) by (simp add: mini_dec_ref_def base_addr_of MINI_NO_REFS_def Let_def)
  have fr: "freed (set ?os) ?env1 env3"
    using freed_trans [OF e2(2) e3(2)] by (simp add: set_owned Un_commute)
  have "refs (env_al env3) y = (if y = ?M then AL_FREE else r0 y)" if "y \<in> extent_addrs c" for y
    using that fr h1 by (auto simp: freed_def holds_def pg1)
  then show ?thesis using r fr by (auto simp: freed_def)
qed

end

section \<open>Programs\<close>

text \<open>
  What the holders of a mini allocator do between its creation and its release; the pages
  handed out are logged.
\<close>

datatype mini_op = NewPage nat | IncRef | DecRef

fun mini_do ::
  "('a, 'c) allocator_ops \<Rightarrow> nat \<Rightarrow> mini_op \<Rightarrow> mini_allocator \<times> 'a mini_env \<times> u64 list \<Rightarrow>
   (mini_allocator \<times> 'a mini_env \<times> u64 list) outcome" where
  "mini_do ops fuel (NewPage b) (mini, env, log) =
     obind (mini_alloc ops b (mini, env)) (\<lambda>(a, _, mini', env'). Inr (mini', env', log @ [a]))"
| "mini_do ops fuel IncRef (mini, env, log) =
     obind (mini_inc_ref ops env (meta_head mini)) (\<lambda>(_, env'). Inr (mini, env', log))"
| "mini_do ops fuel DecRef (mini, env, log) =
     obind (mini_dec_ref ops fuel env (meta_head mini) (mini_type mini)) (\<lambda>(_, env'). Inr (mini, env', log))"

text \<open>\<open>n\<close> references are held beside the creator's; all of them are dropped at the end.\<close>

fun mini_balanced :: "nat \<Rightarrow> nat \<Rightarrow> mini_op list \<Rightarrow> bool" where
  "mini_balanced n batches [] \<longleftrightarrow> n = 0"
| "mini_balanced n batches (NewPage b # p) \<longleftrightarrow> b < batches \<and> mini_balanced n batches p"
| "mini_balanced n batches (IncRef # p) \<longleftrightarrow> mini_balanced (Suc n) batches p"
| "mini_balanced n batches (DecRef # p) \<longleftrightarrow> n \<noteq> 0 \<and> mini_balanced (n - 1) batches p"

context extent_allocator
begin

lemma mini_ready_count:
  assumes "mini_ready r0 k ms G mini env" and "env_page env' = env_page env"
    and "minv r0 k' ms (map (next_extent mini) [0..<num_batches mini]) mini env'"
  shows "mini_ready r0 k' ms G mini env'"
  using assms by (simp add: mini_ready_def)

lemma run_ok:
  assumes "iterM (mini_do ops fuel) p (mini, env, log) = Inr (mini', env', log')"
    and "mini_ready r0 k ms (set log) mini env" and "distinct log" and "unat k = 3 + n"
    and "mini_balanced n (num_batches mini) p"
  shows "\<exists>ms'. mini_ready r0 3 ms' (set log') mini' env' \<and> distinct log' \<and>
    length ms' \<le> length ms + length p \<and> meta_head mini' = meta_head mini \<and> mini_type mini' = mini_type mini"
  using assms
proof (induction p arbitrary: mini env log k ms n)
  case Nil
  then have "k = 3" by (simp add: word_unat_eq_iff)
  then show ?case using Nil by auto
next
  case (Cons x p)
  note rd = Cons.prems(2)
  have mi: "minv r0 k ms (map (next_extent mini) [0..<num_batches mini]) mini env"
    using rd by (simp add: mini_ready_def)
  show ?case
  proof (cases x)
    case (NewPage b)
    obtain a nx m1 e1 where s: "mini_alloc ops b (mini, env) = Inr (a, nx, m1, e1)"
        "iterM (mini_do ops fuel) p (m1, e1, log @ [a]) = Inr (mini', env', log')"
      using Cons.prems(1) NewPage by (auto elim!: obind_InrE)
    have b: "b < num_batches mini" using Cons.prems(5) NewPage by simp
    obtain ms1 where m: "mini_ready r0 k ms1 (insert a (set log)) m1 e1" "length ms1 \<le> Suc (length ms)"
        "a \<notin> set log" "meta_head m1 = meta_head mini" "num_batches m1 = num_batches mini" "mini_type m1 = mini_type mini"
      using mini_alloc_ok [OF rd b s(1)] by metis
    show ?thesis
      using Cons.IH [OF s(2), of k ms1 n] m Cons.prems(3-5) NewPage by fastforce
  next
    case IncRef
    obtain r e1 where s: "mini_inc_ref ops env (meta_head mini) = Inr (r, e1)"
        "iterM (mini_do ops fuel) p (mini, e1, log) = Inr (mini', env', log')"
      using Cons.prems(1) IncRef by (auto elim!: obind_InrE)
    note i = mini_inc_ref_ok [OF mi s(1)]
    have "k + 1 \<noteq> 0" using i(2) by (simp add: minv_def holds_def al_consts)
    then have "unat (k + 1) = 3 + Suc n" using Cons.prems(4) unatSuc [of k] by (simp add: add.commute)
    then show ?thesis
      using Cons.IH [OF s(2) mini_ready_count [OF rd i(3,2)], of "Suc n"] Cons.prems(3,5) IncRef by fastforce
  next
    case DecRef
    obtain r e1 where s: "mini_dec_ref ops fuel env (meta_head mini) (mini_type mini) = Inr (r, e1)"
        "iterM (mini_do ops fuel) p (mini, e1, log) = Inr (mini', env', log')"
      using Cons.prems(1) DecRef by (auto elim!: obind_InrE)
    have n: "n \<noteq> 0" using Cons.prems(5) DecRef by simp
    then have k: "3 < k" using Cons.prems(4) by (simp add: word_less_nat_alt)
    note d = mini_dec_ref_ok [OF mi k s(1)]
    have "k \<noteq> 0" using k by auto
    then have "unat (k - 1) = 3 + (n - 1)" using Cons.prems(4) n by (simp add: unat_minus_one)
    then show ?thesis
      using Cons.IH [OF s(2) mini_ready_count [OF rd d(3,2)], of "n - 1"] Cons.prems(3,5) DecRef by fastforce
  qed
qed

end

end
