(* ===== verification/BtMini.thy ===== *)
theory BtMini
  imports BtTreeProofs MiniLifecycle
begin

unbundle bit_operations_syntax

text \<open>
  Trees whose pages come from a mini allocator: \<open>btree_create\<close>, and the mini allocator as the source
  of pages of an insertion. A new page holds what its buffer held, \<open>buf\<close>.
\<close>

section \<open>The source of pages\<close>

type_synonym 'c mini_pages = "mini_allocator \<times> 'c rc_allocator mini_env"

definition mini_page_alloc :: "(u64 \<Rightarrow> btree_hdr) \<Rightarrow> 'c mini_pages page_alloc" where
  "mini_page_alloc buf h x =
     obind (mini_alloc rc_allocator_ops h x) (\<lambda>(addr, next_extent, mini, env).
       Inr (addr, buf addr, mini, if mini_type mini = PAGE_TYPE_MEMTABLE then env_pin env addr else env))"

definition btree_create ::
  "(u64 \<Rightarrow> btree_hdr) \<Rightarrow> btree_config \<Rightarrow> page_type \<Rightarrow> 'c mini_pages bt_state \<Rightarrow> (u64 \<times> 'c mini_pages bt_state) outcome" where
  "btree_create buf tc type st =
     (let env = snd (bt_mini st)
      in obind (op_alloc rc_allocator_ops (env_al env) type) (\<lambda>(rc, r, al).
           case r of None \<Rightarrow> Inl Abort
           | Some base_addr \<Rightarrow>
             if rc \<noteq> STATUS_OK then Inl Abort
             else
               let root = btree_init_hdr tc (buf base_addr);
                   env1 = (if type = PAGE_TYPE_MEMTABLE then env_pin (set_al env al) base_addr else set_al env al)
               in obind (mini_init rc_allocator_ops env1 (base_addr + of_nat (bt_page_size tc)) 0 BTREE_MAX_HEIGHT type)
                    (\<lambda>(next_extent, mini, env2). Inr (base_addr, set_node base_addr root (st\<lparr>bt_mini := (mini, env2)\<rparr>)))))"

section \<open>The invariant\<close>

text \<open>The root is in the extent of the first meta page, all other pages of a tree were handed out.\<close>

definition mini_pages_ok ::
  "allocator_config \<Rightarrow> int \<Rightarrow> (u64 \<Rightarrow> u32) \<Rightarrow> u64 \<Rightarrow> 'c mini_pages \<Rightarrow> u64 set \<Rightarrow> bool" where
  "mini_pages_ok c base r0 root x A \<longleftrightarrow>
     (\<exists>ms G. rc.mini_ready c base r0 3 ms G (fst x) (snd x) \<and> num_batches (fst x) = BTREE_MAX_HEIGHT \<and>
        ext_base root = ext_base (meta_head (fst x)) \<and> A = insert root G)"

text \<open>An allocation returns, or the process stops: the device has no extent left.\<close>

lemma mini_next_extent_stops:
  assumes "rc_inv c base (env_al (snd x))" and "mini_next_extent rc_allocator_ops b x = Inl e"
  shows "e = Abort"
proof -
  obtain st r al where "rc_allocator_alloc (env_al (snd x)) (mini_type (fst x)) = Inr (st, r, al)"
    using alloc_ends_rc [OF assms(1)] by blast
  then show ?thesis
    using assms(2) by (auto simp: mini_next_extent_def mini_allocator_get_new_extent_def rc_allocator_ops_def split: if_splits)
qed

lemma mini_append_entry_stops:
  assumes "rc_inv c base (env_al env)" and "mini_append_entry rc_allocator_ops mini env a = Inl e"
  shows "e = Abort"
proof -
  obtain st r al where "rc_allocator_alloc (env_al env) (mini_type mini) = Inr (st, r, al)"
    using alloc_ends_rc [OF assms(1)] by blast
  then show ?thesis
    using assms(2) by (auto simp: mini_append_entry_def mini_allocator_get_new_extent_def rc_allocator_ops_def Let_def
      split: if_splits option.splits)
qed

lemma mini_alloc_stops:
  assumes rd: "rc.mini_ready c base r0 k ms G mini env" and b: "b < num_batches mini"
    and r: "mini_alloc rc_allocator_ops b (mini, env) = Inl e"
  shows "e = Abort"
proof -
  have i: "rc_inv c base (env_al env)" using rd by (simp add: rc.mini_ready_def rc.minv_def rc.holds_def)
  have own: "rc.holds c base r0 k (ext_base (meta_head mini)) (owned (env_page env) ms (map (next_extent mini) [0..<num_batches mini])) (env_al env)"
    using rd by (simp add: rc.mini_ready_def rc.minv_def)
  have "4096 dvd unat (MiniAllocator.next_addr mini b)" using rd b by (simp add: rc.mini_ready_def rc.pages_fresh_def rc.batch_ok_def)
  then have nw: "MiniAllocator.next_addr mini b \<noteq> MINI_WAIT" by (auto simp: MINI_WAIT_def)
  let ?mini1 = "mini\<lparr>MiniAllocator.next_addr := (MiniAllocator.next_addr mini)(b := MINI_WAIT)\<rparr>"
  show ?thesis
  proof (cases "mini_next_extent rc_allocator_ops b (?mini1, env)")
    case (Inl e')
    then show ?thesis using mini_next_extent_stops [of c base "(?mini1, env)"] i r nw
      by (auto simp: mini_alloc_def Let_def split: if_splits)
  next
    case (Inr x)
    obtain mini2 env2 where x: "x = (mini2, env2)" by fastforce
    have "rc_inv c base (env_al env2)"
      using rc.next_extent_ok [OF own Inr [unfolded x]] by (auto simp: rc.holds_def)
    then show ?thesis
      using mini_append_entry_stops r nw Inr x by (auto simp: mini_alloc_def Let_def obind_def split: if_splits sum.splits)
  qed
qed

lemma aligned_page:
  fixes a :: u64
  assumes "4096 dvd unat a"
  shows "a AND NOT 0xFFF = a"
proof (rule bit_word_eqI)
  fix n assume n: "n < LENGTH(64)"
  have m: "(0xFFF :: u64) = mask 12" by (simp add: mask_eq_exp_minus_1)
  have "unat (take_bit 12 a) = 0" using assms by (simp add: take_bit_eq_mod dvd_eq_mod_eq_0 unat_mod)
  then have "take_bit 12 a = 0" by (simp add: word_unat_eq_iff)
  then have "\<not> (n < 12 \<and> bit a n)" by (metis bit_0_eq bit_take_bit_iff bot_apply bot_bool_def)
  then show "bit (a AND NOT 0xFFF) n = bit a n" using n unfolding m by (auto simp: bit_and_iff bit_not_iff bit_mask_iff)
qed

lemma mini_ready_pin: "rc.mini_ready c base r0 k ms G mini (env_pin env a) = rc.mini_ready c base r0 k ms G mini env"
  by (simp add: rc.mini_ready_def rc.minv_def env_pin_def)

interpretation mini: page_source "mini_page_alloc buf" "mini_pages_ok c base r0 root" "\<lambda>e. e = Abort" for buf c base r0 root
proof
  fix m :: "'c mini_pages" and A h
  assume ok: "mini_pages_ok c base r0 root m A" and h: "h < BTREE_MAX_HEIGHT"
  obtain mini env where m: "m = (mini, env)" by fastforce
  obtain ms G where g: "rc.mini_ready c base r0 3 ms G mini env" "num_batches mini = BTREE_MAX_HEIGHT"
    "ext_base root = ext_base (meta_head mini)" "A = insert root G" using ok by (auto simp: mini_pages_ok_def m)
  let ?Q = "\<lambda>(a, page, m'). a \<notin> A \<and> a \<noteq> 0 \<and> a AND NOT 0xFFF = a \<and> mini_pages_ok c base r0 root m' (insert a A)"
  show "sat (\<lambda>e. e = Abort) ?Q (mini_page_alloc buf h m)"
  proof (cases "mini_alloc rc_allocator_ops h (mini, env)")
    case (Inl e)
    then show ?thesis using mini_alloc_stops [OF g(1) _ Inl] h g(2) by (simp add: mini_page_alloc_def m)
  next
    case (Inr x)
    obtain a nx mini' env' where x: "x = (a, nx, mini', env')" by (cases x)
    obtain ms' where r: "rc.mini_ready c base r0 3 ms' (insert a G) mini' env'" "a \<notin> G" "4096 dvd unat a"
      "ext_base a \<notin> ext_base ` set ms'" "meta_head mini' = meta_head mini" "num_batches mini' = num_batches mini"
      using rc.mini_alloc_ok [OF g(1) _ Inr [unfolded x]] h g(2) by metis
    have v: "rc.minv c base r0 3 ms' (map (next_extent mini') [0..<num_batches mini']) mini' env'"
      and fr: "ext_base a \<in> set (chain_entries (env_page env') ms')"
      using r(1) by (auto simp: rc.mini_ready_def rc.pages_fresh_def)
    have "a \<noteq> root" using rc.meta_head_extent [OF v] r(4,5) g(3) by auto
    moreover have "a \<noteq> 0"
    proof
      assume "a = 0"
      then have "ext_base a = 0" by (simp add: ext_base_def)
      then show False using v fr by (auto simp: rc.minv_def rc.holds_def set_owned)
    qed
    moreover have "mini_pages_ok c base r0 root (mini', if mini_type mini' = PAGE_TYPE_MEMTABLE then env_pin env' a else env') (insert a A)"
      using r(1,5,6) g(2-4) by (auto simp: mini_pages_ok_def mini_ready_pin insert_commute intro!: exI [of _ ms'] exI [of _ "insert a G"])
    ultimately show ?thesis
      using Inr x r(2) aligned_page [OF r(3)] g(4) by (simp add: mini_page_alloc_def m)
  qed
qed

section \<open>A new tree\<close>

lemma new_root:
  assumes "config_ok tc" and "bt_page_size tc < 65536"
  shows "leaf_node tc (btree_init_hdr tc h)" and "leaf_tuples (btree_init_hdr tc h) = []"
    and "prev_addr (btree_init_hdr tc h) = 0" and "BtLeaf.next_addr (btree_init_hdr tc h) = 0"
proof -
  have P: "37 \<le> bt_page_size tc" using config_page_size [OF assms(1)] by simp
  have e: "btree_init_hdr tc h = btree_reset_node_entries tc
      (h\<lparr>prev_addr := 0, BtLeaf.next_addr := 0, next_extent_addr := 0, generation := 0, height := 0\<rparr>)"
    by (simp add: btree_init_hdr_def btree_reset_node_entries_def)
  note r = reset_compact [OF assms(2) P, of "h\<lparr>prev_addr := 0, BtLeaf.next_addr := 0, next_extent_addr := 0, generation := 0, height := 0\<rparr>", folded e]
  show "leaf_tuples (btree_init_hdr tc h) = []" by (rule r(2))
  show "prev_addr (btree_init_hdr tc h) = 0" "BtLeaf.next_addr (btree_init_hdr tc h) = 0" by (simp_all add: btree_init_hdr_def)
  show "leaf_node tc (btree_init_hdr tc h)"
    using r compact_wf [OF r(1)] by (simp add: leaf_node_def leaf_sorted_def keys_sorted_def btree_init_hdr_def)
qed

lemma mini_next_extents_stop:
  assumes "rc_inv c base (env_al (snd x))" and "iterM (mini_next_extent rc_allocator_ops) bs x = Inl e"
  shows "e = Abort"
  using assms
proof (induction bs arbitrary: x)
  case (Cons b bs)
  show ?case
  proof (cases "mini_next_extent rc_allocator_ops b x")
    case (Inl e')
    then show ?thesis using mini_next_extent_stops [OF Cons.prems(1) Inl] Cons.prems(2) by simp
  next
    case (Inr y)
    obtain st r al where a: "rc_allocator_alloc (env_al (snd x)) (mini_type (fst x)) = Inr (st, r, al)"
      using alloc_ends_rc [OF Cons.prems(1)] by blast
    have "rc_inv c base al" by (rule alloc_effect_rc(1) [OF Cons.prems(1) a])
    moreover have "env_al (snd y) = al"
      using Inr a by (auto simp: mini_next_extent_def mini_allocator_get_new_extent_def rc_allocator_ops_def set_al_def split: if_splits)
    ultimately show ?thesis using Cons.IH [of y] Cons.prems(2) Inr by simp
  qed
qed simp

lemma mini_init_stops:
  assumes inv: "rc_inv c base (env_al env)" and x: "ext_base mhead \<in> extent_addrs c"
    and r: "mini_init rc_allocator_ops env mhead 0 batches t = Inl e"
  shows "e = Abort"
proof -
  have b: "base_addr_of rc_allocator_ops (set_page env mhead h) mhead = ext_base mhead" for h
    using rc.base_addr_of [of c base "set_page env mhead h" mhead] inv by (simp add: set_page_def)
  show ?thesis
  proof (cases "op_inc_ref rc_allocator_ops (env_al env) (ext_base mhead)")
    case (Inl e')
    then have "e' = Abort" by (auto simp: rc_allocator_ops_def rc_allocator_inc_ref_def Let_def split: if_splits)
    then show ?thesis using r Inl b by (auto simp: mini_init_def Let_def set_page_def split: if_splits)
  next
    case (Inr y)
    obtain ref al where y: "y = (ref, al)" by fastforce
    have "rc_inv c base al" using rc.inc [OF inv x Inr [unfolded y]] by blast
    then show ?thesis
      using r Inr b y by (auto simp: mini_init_def Let_def set_page_def set_al_def env_pin_def obind_def
        split: if_splits sum.splits dest!: mini_next_extents_stop [rotated])
  qed
qed

lemma new_root_extent:
  assumes inv: "rc_inv c base al0" and z: "rc_refs al0 0 \<noteq> AL_FREE"
    and a: "rc_allocator_alloc al0 type = Inr (STATUS_OK, Some root, al)"
  shows "rc_inv c base al" and "root \<in> extent_addrs c" and "root \<noteq> 0" and "ext_base (root + 4096) = root"
    and "4096 dvd unat (root + 4096)" and "rc_refs al root = AL_ONE_REF" and "rc_refs al 0 \<noteq> AL_FREE"
proof -
  have g: "rc_inv c base al" "root \<in> extent_addrs c" "rc_refs al0 root = AL_FREE"
    "\<forall>y\<in>extent_addrs c. rc_refs al y = (if y = root then AL_ONE_REF else rc_refs al0 y)"
    using rc.alloc_gives [OF inv, of type STATUS_OK root al] a by (simp_all add: rc_allocator_ops_def)
  show "rc_inv c base al" "root \<in> extent_addrs c" by (rule g)+
  show root: "root \<noteq> 0" using g(3) z by auto
  have c: "cfg_ok c" using rc.config [OF g(1)] by simp
  have d: "131072 dvd unat root" using g(2) by (simp add: extent_addrs_def)
  then have a4: "4096 dvd unat root" by (rule dvd_trans [rotated]) simp
  have eb: "ext_base root = root" using g(2) by simp
  note np = next_page [OF c _ a4, unfolded eb, OF g(2)]
  show "4096 dvd unat (root + 4096)" by (rule np(2))
  have "unat (root + 4096) mod 131072 = 4096" using d np(1) by (auto simp: dvd_def)
  then have "(root + 4096) mod 131072 \<noteq> 0" by (auto simp: word_unat_eq_iff unat_mod)
  then show "ext_base (root + 4096) = root" using np(3) by simp
  have "0 \<in> extent_addrs c" using cfg_okD(3) [OF c] by (simp add: extent_addrs_def)
  then show "rc_refs al root = AL_ONE_REF" "rc_refs al 0 \<noteq> AL_FREE" using g(2,4) z root by auto
qed

lemma btree_create_tree:
  assumes inv: "rc_inv c base (env_al (snd (bt_mini st)))" and tc: "config_ok tc" "bt_page_size tc = 4096"
    and sizes: "env_page_size (snd (bt_mini st)) = 4096" "env_extent_size (snd (bt_mini st)) = 131072"
    and z: "rc_refs (env_al (snd (bt_mini st))) 0 \<noteq> AL_FREE"
  shows "sat (\<lambda>e. e = Abort) (\<lambda>(root, st'). leaf_tuples (bt_nodes st' root) = [] \<and>
      (\<exists>r0. mini_pages_ok c base r0 root (bt_mini st') {root} \<and> tree_at tc (bt_nodes st') {root} root (Leaf_at root)))
    (btree_create buf tc type st)"
proof -
  let ?env = "snd (bt_mini st)" and ?env1 = "\<lambda>root al. if type = PAGE_TYPE_MEMTABLE then env_pin (set_al (snd (bt_mini st)) al) root else set_al (snd (bt_mini st)) al"
  obtain rc r al where a: "rc_allocator_alloc (env_al ?env) type = Inr (rc, r, al)" using alloc_ends_rc [OF inv] by blast
  show ?thesis
  proof (cases "rc = STATUS_OK \<and> r \<noteq> None")
    case False
    then show ?thesis using a by (cases r) (auto simp: btree_create_def rc_allocator_ops_def Let_def)
  next
    case True
    then obtain root where e: "rc = STATUS_OK" "r = Some root" by auto
    note x = new_root_extent [OF inv z a [unfolded e]]
    define env1 where "env1 = ?env1 root al"
    have env1: "env_al env1 = al" "env_page_size env1 = 4096" "env_extent_size env1 = 131072"
      using sizes by (simp_all add: env1_def env_pin_def set_al_def)
    have M: "ext_base (root + 4096) \<in> extent_addrs c" "ext_base (root + 4096) \<noteq> 0" using x by simp_all
    have i1: "rc_inv c base (env_al env1)" using x(1) env1 by simp
    have refs: "rc_refs (env_al env1) (ext_base (root + 4096)) = AL_ONE_REF" "rc_refs (env_al env1) 0 \<noteq> AL_FREE"
      using x by (simp_all add: env1)
    have create: "btree_create buf tc type st =
        obind (mini_init rc_allocator_ops env1 (root + 4096) 0 BTREE_MAX_HEIGHT type) (\<lambda>(next_extent, mini, env2).
          Inr (root, set_node root (btree_init_hdr tc (buf root)) (st\<lparr>bt_mini := (mini, env2)\<rparr>)))"
      using a e by (simp add: btree_create_def rc_allocator_ops_def tc(2) env1_def Let_def)
    show ?thesis
    proof (cases "mini_init rc_allocator_ops env1 (root + 4096) 0 BTREE_MAX_HEIGHT type")
      case (Inl e)
      then show ?thesis using create mini_init_stops [OF i1 M(1) Inl] by simp
    next
      case (Inr y)
      obtain nx mini env2 where y: "y = (nx, mini, env2)" by (cases y)
      note i = rc.mini_init_ok [OF i1 env1(2,3) M x(5) refs Inr [unfolded y]]
      have P: "bt_page_size tc < 65536" using tc by simp
      note n = new_root [OF tc(1) P, of "buf root"]
      have "mini_pages_ok c base (rc_refs (env_al env1)) root (mini, env2) {root}"
        using i x by (auto simp: mini_pages_ok_def)
      moreover have "tree_at tc ((bt_nodes st)(root := btree_init_hdr tc (buf root))) {root} root (Leaf_at root)"
        using n x(3) by (simp add: tree_at_def hung_def leaf_node_def)
      ultimately show ?thesis using Inr y create n(2) by (auto simp: set_node_def)
    qed
  qed
qed

end
