(* ===== verification/BtProperties.thy ===== *)
theory BtProperties
  imports BtOrdered BtPivotProofs
begin

unbundle bit_operations_syntax

text \<open>
  The properties of the B-tree's nodes, and a small tree of two levels on which each of them is
  applied: a leaf with two large tuples, a parent with one pivot, an index node with four
  long pivots.
\<close>

section \<open>A small tree\<close>

definition demo_bt :: btree_config where
  "demo_bt = \<lparr>bt_page_size = 4096, bt_data_cfg = default_data_config\<rparr>"

definition blank_page :: btree_hdr where
  "blank_page = \<lparr>prev_addr = 0, next_addr = 0, next_extent_addr = 0, generation = 0, height = 0, next_entry = 0,
     num_entries = 0, offsets = (\<lambda>_. 0), node_bytes = (\<lambda>_. 0)\<rparr>"

definition big_message :: "u8 \<Rightarrow> message" where
  "big_message b = \<lparr>msg_type = MESSAGE_TYPE_INSERT, msg_data = replicate 1400 b\<rparr>"

definition leaf_of :: "(key \<times> message) list \<Rightarrow> btree_hdr" where
  "leaf_of ts = (case iterM (\<lambda>t h. obind (btree_set_leaf_entry h (btree_num_entries h) (fst t) (snd t)) (\<lambda>(_, h'). Inr h'))
     ts (btree_init_hdr demo_bt blank_page) of Inl _ \<Rightarrow> blank_page | Inr h \<Rightarrow> h)"

definition index_of :: "(key \<times> u64) list \<Rightarrow> btree_hdr" where
  "index_of ps = (case iterM (\<lambda>p h. obind (btree_set_index_entry h (btree_num_entries h) (fst p) (snd p) BTREE_PIVOT_STATS_UNKNOWN)
       (\<lambda>(_, h'). Inr h')) ps (btree_increment_height (btree_init_hdr demo_bt blank_page))
     of Inl _ \<Rightarrow> blank_page | Inr h \<Rightarrow> h)"

lemma demo_config: "config_ok demo_bt" "lexical demo_bt" "bt_page_size demo_bt = 4096"
  by (simp_all add: demo_bt_def config_ok_def btree_config_init_def MAX_INLINE_KEY_SIZE_def MAX_INLINE_MESSAGE_SIZE_def
      sizeof_ondisk_tuple_def sizeof_table_entry_def sizeof_btree_hdr_def lexical_def default_data_config_def)

lemma blank_compact:
  shows "compact demo_bt (btree_init_hdr demo_bt blank_page)" and "leaf_tuples (btree_init_hdr demo_bt blank_page) = []"
    and "index_compact demo_bt (btree_increment_height (btree_init_hdr demo_bt blank_page))"
    and "node_pivots (btree_increment_height (btree_init_hdr demo_bt blank_page)) = []"
  by (simp_all add: leaf.compact_def index.compact_def page_wf_def slots_def leaf_tuples_def node_pivots_def
      btree_init_hdr_def btree_increment_height_def btree_num_entries_def demo_bt_def table_end_eq)

lemma leaf_of_tuples:
  assumes "\<forall>t \<in> set ts. tuple_ok t" and "37 + weight ts \<le> 4096"
  shows "compact demo_bt (leaf_of ts)" and "leaf_tuples (leaf_of ts) = ts"
    and "hdr_links (leaf_of ts) = (0, 0, 0, 0, 0)"
proof -
  let ?set = "\<lambda>t h. obind (btree_set_leaf_entry h (btree_num_entries h) (fst t) (snd t)) (\<lambda>(_, h'). Inr h')"
  have "\<exists>h'. iterM ?set ts h = Inr h' \<and> compact demo_bt h' \<and> leaf_tuples h' = leaf_tuples h @ ts \<and> hdr_links h' = hdr_links h"
    if "compact demo_bt h" "37 + weight (leaf_tuples h) + weight ts \<le> 4096" "\<forall>t \<in> set ts. tuple_ok t" for h ts
    using that
  proof (induction ts arbitrary: h)
    case (Cons t ts)
    have "table_end (Suc (btree_num_entries h)) + used (leaf_tuples h) + tuple_size t \<le> bt_page_size demo_bt"
      using Cons.prems(2) by (simp add: demo_config weight_def table_end_eq)
    then obtain h1 where h1: "btree_set_leaf_entry h (table_index (int (btree_num_entries h))) (fst t) (snd t) = Inr (True, h1)"
      "compact demo_bt h1" "leaf_tuples h1 = leaf_tuples h @ [t]" "hdr_links h1 = hdr_links h"
      using compact_append [OF Cons.prems(1), of t] Cons.prems(3) by auto
    have "table_index (int (btree_num_entries h)) = btree_num_entries h"
      using num_entries_lt [OF compact_wf [OF Cons.prems(1)]] by (simp add: table_index_small)
    then show ?case using Cons.IH [OF h1(2)] Cons.prems(2,3) h1 by auto
  qed simp
  from this [OF blank_compact(1), of ts] assms
  obtain h where h: "iterM ?set ts (btree_init_hdr demo_bt blank_page) = Inr h" "compact demo_bt h" "leaf_tuples h = ts"
    "hdr_links h = hdr_links (btree_init_hdr demo_bt blank_page)"
    by (auto simp: blank_compact(2))
  then show "compact demo_bt (leaf_of ts)" "leaf_tuples (leaf_of ts) = ts" "hdr_links (leaf_of ts) = (0, 0, 0, 0, 0)"
    by (simp_all add: leaf_of_def hdr_links_def btree_init_hdr_def)
qed

lemma index_of_pivots:
  assumes "\<forall>p \<in> set ps. snd p AND NOT 0xFFF = snd p \<and> key_length (fst p) \<le> 512"
    and "37 + (\<Sum>p\<leftarrow>ps. 25 + key_length (fst p)) \<le> 4096"
  shows "index_ok demo_bt (index_of ps)" and "node_pivots (index_of ps) = map (\<lambda>(k, a). (k, a, BTREE_PIVOT_STATS_UNKNOWN)) ps"
    and "hdr_links (index_of ps) = (0, 0, 0, 0, 1)"
    and "unat (next_entry (index_of ps)) + (\<Sum>p\<leftarrow>ps. 23 + key_length (fst p)) = 4096"
proof -
  let ?set = "\<lambda>p h. obind (btree_set_index_entry h (btree_num_entries h) (fst p) (snd p) BTREE_PIVOT_STATS_UNKNOWN) (\<lambda>(_, h'). Inr h')"
  let ?f = "\<lambda>(k, a). (k, a, BTREE_PIVOT_STATS_UNKNOWN)"
  have "\<exists>h'. iterM ?set ps h = Inr h' \<and> index_wf demo_bt h' \<and> node_pivots h' = node_pivots h @ map ?f ps \<and>
      hdr_links h' = hdr_links h \<and> unat (next_entry h') + (\<Sum>p\<leftarrow>ps. 23 + key_length (fst p)) = unat (next_entry h)"
    if "index_wf demo_bt h" "37 + 2 * btree_num_entries h + (\<Sum>p\<leftarrow>ps. 25 + key_length (fst p)) \<le> unat (next_entry h)"
      "\<forall>p \<in> set ps. snd p AND NOT 0xFFF = snd p" for h ps
    using that
  proof (induction ps arbitrary: h)
    case (Cons p ps)
    let ?x = "(fst p, snd p, BTREE_PIVOT_STATS_UNKNOWN)"
    have "index_room h (btree_num_entries h) ?x"
      using Cons.prems(2) by (simp add: index_room_def table_end_eq pivot_size_eq)
    then obtain h1 where h1: "btree_set_index_entry h (btree_num_entries h) (fst p) (snd p) BTREE_PIVOT_STATS_UNKNOWN = Inr (True, h1)"
      "index.stored (bt_page_size demo_bt) h (btree_num_entries h) ?x h1" "unat (next_entry h1) + pivot_size ?x = unat (next_entry h)"
      using set_index_entry_effect [OF Cons.prems(1) order.refl unknown_pivot_ok, of "snd p" "fst p" BTREE_PIVOT_STATS_UNKNOWN]
        Cons.prems(3) by auto
    note s = set_pivot_stored [OF h1(2)]
    have n: "btree_num_entries h1 = Suc (btree_num_entries h)" using num_pivots [OF s(3)] by simp
    show ?case
      using Cons.IH [OF s(1)] Cons.prems(2,3) h1(1,3) s(2,3) n by (auto simp: pivot_size_eq case_prod_unfold)
  qed simp
  from this [of "btree_increment_height (btree_init_hdr demo_bt blank_page)" ps] assms
  obtain h where h: "iterM ?set ps (btree_increment_height (btree_init_hdr demo_bt blank_page)) = Inr h" "index_wf demo_bt h"
    "node_pivots h = map ?f ps" "hdr_links h = (0, 0, 0, 0, 1)"
    "unat (next_entry h) + (\<Sum>p\<leftarrow>ps. 23 + key_length (fst p)) = 4096"
    using compact_index_wf [OF blank_compact(3)] blank_compact(4) num_pivots [OF blank_compact(4)]
    by (auto simp: btree_increment_height_def btree_init_hdr_def hdr_links_def blank_page_def demo_bt_def)
  then show "index_ok demo_bt (index_of ps)" "node_pivots (index_of ps) = map ?f ps" "hdr_links (index_of ps) = (0, 0, 0, 0, 1)"
    "unat (next_entry (index_of ps)) + (\<Sum>p\<leftarrow>ps. 23 + key_length (fst p)) = 4096"
    using assms(1) by (auto simp: index_of_def index_ok_def demo_config(3) MAX_INLINE_KEY_SIZE_def)
qed

definition demo_leaf :: btree_hdr where
  "demo_leaf = leaf_of [(User_Key [1], big_message 10), (User_Key [3], big_message 30)]"

definition demo_parent :: btree_hdr where
  "demo_parent = index_of [(User_Key [1], 4096), (User_Key [9], 8192)]"

definition demo_index :: btree_hdr where
  "demo_index = index_of (map (\<lambda>i. (User_Key (replicate 500 (of_nat i)), of_nat i * 4096)) [1, 2, 3, 4])"

lemma demo_leaf:
  shows "compact demo_bt demo_leaf"
    and "leaf_tuples demo_leaf = [(User_Key [1], big_message 10), (User_Key [3], big_message 30)]"
    and "leaf_sorted demo_bt demo_leaf" and "hdr_links demo_leaf = (0, 0, 0, 0, 0)"
proof -
  note l = leaf_of_tuples [of "[(User_Key [1], big_message 10), (User_Key [3], big_message 30)]", folded demo_leaf_def]
  show "compact demo_bt demo_leaf"
    and t: "leaf_tuples demo_leaf = [(User_Key [1], big_message 10), (User_Key [3], big_message 30)]"
    and "hdr_links demo_leaf = (0, 0, 0, 0, 0)"
    by (rule l; simp add: tuple_ok_def key_is_user_key_def big_message_def tuple_size_def message_length_def
        leaf_entry_required_capacity_def sizeof_ondisk_tuple_def key_length_def)+
  show "leaf_sorted demo_bt demo_leaf"
    by (simp add: leaf_sorted_def t keys_sorted_def btree_key_compare_def data_key_compare_def key_is_user_key_def
        demo_bt_def default_data_config_def slice_lex_cmp_def)
qed

lemma demo_parent:
  shows "index_ok demo_bt demo_parent" and "\<not> btree_index_is_full demo_bt demo_parent"
    and "node_pivots demo_parent = [(User_Key [1], 4096, BTREE_PIVOT_STATS_UNKNOWN), (User_Key [9], 8192, BTREE_PIVOT_STATS_UNKNOWN)]"
    and "index_sorted demo_bt demo_parent" and "btree_num_entries demo_parent = 2"
proof -
  note l = index_of_pivots [of "[(User_Key [1], 4096), (User_Key [9], 8192)]", folded demo_parent_def]
  have h: "\<forall>p \<in> set [(User_Key [1], 4096 :: u64), (User_Key [9], 8192)]. snd p AND NOT 0xFFF = snd p \<and> key_length (fst p) \<le> 512"
    "37 + (\<Sum>p\<leftarrow>[(User_Key [1], 4096 :: u64), (User_Key [9], 8192)]. 25 + key_length (fst p)) \<le> 4096"
    by (simp_all add: key_length_def key_is_user_key_def)
  show "index_ok demo_bt demo_parent" by (rule l(1) [OF h])
  show t: "node_pivots demo_parent = [(User_Key [1], 4096, BTREE_PIVOT_STATS_UNKNOWN), (User_Key [9], 8192, BTREE_PIVOT_STATS_UNKNOWN)]"
    using l(2) [OF h] by simp
  show "btree_num_entries demo_parent = 2" using num_pivots [OF t] by simp
  then show "\<not> btree_index_is_full demo_bt demo_parent"
    using l(4) [OF h] by (simp add: btree_index_is_full_def table_end_eq sizeof_index_entry_struct_def sizeof_ondisk_key_def
        MAX_INLINE_KEY_SIZE_def demo_config(3) key_length_def key_is_user_key_def)
  show "index_sorted demo_bt demo_parent"
    by (simp add: index_sorted_def t keys_sorted_def btree_key_compare_def data_key_compare_def key_is_user_key_def
        demo_bt_def default_data_config_def slice_lex_cmp_def)
qed

lemma demo_index:
  shows "index_ok demo_bt demo_index"
    and "node_pivots demo_index = map (\<lambda>i. (User_Key (replicate 500 (of_nat i)), of_nat i * 4096, BTREE_PIVOT_STATS_UNKNOWN)) [1, 2, 3, 4]"
proof -
  let ?ps = "map (\<lambda>i. (User_Key (replicate 500 (of_nat i)), of_nat i * 4096 :: u64)) [1, 2, 3, 4]"
  note l = index_of_pivots [of ?ps, folded demo_index_def]
  have h: "\<forall>p \<in> set ?ps. snd p AND NOT 0xFFF = snd p \<and> key_length (fst p) \<le> 512"
    "37 + (\<Sum>p\<leftarrow>?ps. 25 + key_length (fst p)) \<le> 4096"
    by (simp_all add: key_length_def key_is_user_key_def)
  show "index_ok demo_bt demo_index" by (rule l(1) [OF h])
  show "node_pivots demo_index = map (\<lambda>i. (User_Key (replicate 500 (of_nat i)), of_nat i * 4096, BTREE_PIVOT_STATS_UNKNOWN)) [1, 2, 3, 4]"
    using l(2) [OF h] by simp
qed

section \<open>Searching\<close>

text \<open>The search of an ordered list of keys, for both kinds of nodes.\<close>

lemma list_search:
  assumes lex: "lexical cfg" and a: "total_compare.ascending (btree_key_compare cfg) key_short ks" and k: "key_short k"
  shows "find_loop (\<lambda>mid. btree_key_compare cfg (ks ! mid) k) 0 (length ks) =
    (upper_position (\<lambda>x. btree_key_compare cfg x k) ks, \<exists>x \<in> set ks. btree_key_compare cfg x k = 0)"
proof -
  obtain idx found where f: "find_loop (\<lambda>mid. btree_key_compare cfg (ks ! mid) k) 0 (length ks) = (idx, found)" by fastforce
  note c = lexical_compare [OF lex]
  note p = total_compare.search_place [OF c a k f]
  have "found \<longleftrightarrow> (\<exists>x \<in> set ks. btree_key_compare cfg x k = 0)"
  proof
    assume found
    then show "\<exists>x \<in> set ks. btree_key_compare cfg x k = 0" using p(1) by (metis nth_mem)
  next
    assume "\<exists>x \<in> set ks. btree_key_compare cfg x k = 0"
    then obtain i where "i < length ks" "btree_key_compare cfg (ks ! i) k = 0" by (auto simp: in_set_conv_nth)
    then show found using p(2) by (cases "i < nat (idx + 1)") force+
  qed
  then show ?thesis using f total_compare.search_ascending(5) [OF c a k f] by simp
qed

text \<open>
  C28. The binary search of a leaf whose keys are in order is the linear search: it answers the
  position before the first greater key, and that it found the key exactly when a tuple with
  an equal key is in the leaf.
\<close>

theorem find_tuple_is_linear_search:
  assumes "lexical cfg" and "leaf_sorted cfg hdr" and "key_short k"
  shows "btree_find_tuple cfg hdr k =
    (upper_position (\<lambda>x. btree_key_compare cfg x k) (map fst (leaf_tuples hdr)),
     \<exists>t \<in> set (leaf_tuples hdr). btree_key_compare cfg (fst t) k = 0)"
  using list_search [OF assms(1) leaf_ascending [OF assms(1,2)] assms(3)] by (simp add: find_tuple_list)

theorem find_tuple_is_linear_search_witness:
  "btree_find_tuple demo_bt demo_leaf (User_Key [2]) = (0, False)"
  using find_tuple_is_linear_search [OF demo_config(2) demo_leaf(3), of "User_Key [2]"]
  by (simp add: demo_leaf key_short_def key_length_def upper_position_def btree_key_compare_def
      data_key_compare_def key_is_user_key_def demo_bt_def default_data_config_def slice_lex_cmp_def)

text \<open>
  The binary search of an index node whose pivots are in order answers the last child whose
  pivot is not greater than the key, or -1 when all of them are greater.
\<close>

theorem find_pivot_is_linear_search:
  assumes "lexical cfg" and "index_sorted cfg hdr" and "key_short k"
  shows "btree_find_pivot cfg hdr k =
    (upper_position (\<lambda>x. btree_key_compare cfg x k) (map fst (node_pivots hdr)),
     \<exists>x \<in> set (node_pivots hdr). btree_key_compare cfg (fst x) k = 0)"
  using list_search [OF assms(1) index_ascending [OF assms(1,2)] assms(3)] by (simp add: find_pivot_list)

theorem find_pivot_is_linear_search_witness:
  "btree_find_pivot demo_bt demo_parent (User_Key [9]) = (1, True) \<and> btree_find_pivot demo_bt demo_parent (User_Key []) = (- 1, False)"
  using find_pivot_is_linear_search [OF demo_config(2) demo_parent(4), of "User_Key [9]"]
    find_pivot_is_linear_search [OF demo_config(2) demo_parent(4), of "User_Key []"]
  by (simp add: demo_parent key_short_def key_length_def upper_position_def btree_key_compare_def
      data_key_compare_def key_is_user_key_def demo_bt_def default_data_config_def slice_lex_cmp_def)

section \<open>Incorporating a tuple\<close>

text \<open>
  C21. Incorporating a tuple into a leaf refines the insertion into an ordered association
  list: when the specification of \<open>btree_create_leaf_incorporate_spec\<close> is performed, the tuples
  of the leaf are those of the list after \<open>upsert\<close> - the key and the new message at its place, or
  the merged message for an equal key - they are in order again, the entries still fit the page
  without overlap, the links stay and the generation that is reported is the old one.
\<close>

theorem incorporate_refines_upsert:
  assumes lex: "lexical cfg" and wf: "leaf_wf cfg hdr" and sorted: "leaf_sorted cfg hdr"
    and k: "key_is_user_key k" "key_short k"
    and create: "btree_create_leaf_incorporate_spec cfg mem_ok hdr k msg = Inr (Inr spec)"
    and types: "msg_type (spec_msg spec) \<noteq> MESSAGE_TYPE_PIVOT_DATA"
    and perform: "btree_try_perform_leaf_incorporate_spec hdr spec = Inr (True, gen, hdr')"
  shows "leaf_tuples hdr' = upsert (btree_key_compare cfg) (merged cfg k msg) k msg (leaf_tuples hdr) \<and>
    leaf_sorted cfg hdr' \<and> leaf_wf cfg hdr' \<and> gen = Some (generation hdr) \<and>
    hdr_links hdr' = (prev_addr hdr, next_addr hdr, next_extent_addr hdr, generation hdr + 1, height hdr)"
proof -
  note c = create_spec_result [OF lex wf sorted k(2,1) create types]
  show ?thesis
    using perform_effect [OF wf c(1) perform] c(3) upsert_sorted [OF lex k(2) sorted] by (simp add: leaf_sorted_def)
qed

lemma demo_leaf_create:
  "btree_create_leaf_incorporate_spec demo_bt True demo_leaf (User_Key [2]) \<lparr>msg_type = MESSAGE_TYPE_INSERT, msg_data = d\<rparr> =
     Inr (Inr \<lparr>spec_key = User_Key [2], spec_idx = 1, spec_state = ENTRY_DID_NOT_EXIST,
       spec_msg = \<lparr>msg_type = MESSAGE_TYPE_INSERT, msg_data = d\<rparr>\<rparr>)"
proof -
  have "btree_find_tuple demo_bt demo_leaf (User_Key [2]) = (0, False)"
    using list_search [OF demo_config(2) leaf_ascending [OF demo_config(2) demo_leaf(3)], of "User_Key [2]"]
    by (simp add: find_tuple_list demo_leaf key_short_def key_length_def upper_position_def btree_key_compare_def
        data_key_compare_def key_is_user_key_def demo_bt_def default_data_config_def slice_lex_cmp_def)
  then show ?thesis by (simp add: btree_create_leaf_incorporate_spec_def)
qed

lemma demo_spec_ok:
  "spec_ok \<lparr>spec_key = User_Key [2], spec_idx = 1, spec_state = ENTRY_DID_NOT_EXIST,
     spec_msg = \<lparr>msg_type = MESSAGE_TYPE_INSERT, msg_data = d\<rparr>\<rparr> (btree_num_entries demo_leaf)"
  using num_leaf_tuples [OF demo_leaf(2)] by (simp add: spec_ok_def spec_tuple_def tuple_ok_def key_is_user_key_def)

theorem incorporate_refines_upsert_witness:
  "\<exists>spec gen hdr'.
     btree_create_leaf_incorporate_spec demo_bt True demo_leaf (User_Key [2]) \<lparr>msg_type = MESSAGE_TYPE_INSERT, msg_data = [7]\<rparr>
       = Inr (Inr spec) \<and>
     btree_try_perform_leaf_incorporate_spec demo_leaf spec = Inr (True, gen, hdr') \<and>
     leaf_tuples hdr' = [(User_Key [1], big_message 10), (User_Key [2], \<lparr>msg_type = MESSAGE_TYPE_INSERT, msg_data = [7]\<rparr>),
       (User_Key [3], big_message 30)]"
proof -
  let ?m = "\<lparr>msg_type = MESSAGE_TYPE_INSERT, msg_data = [7]\<rparr>"
  let ?s = "\<lparr>spec_key = User_Key [2], spec_idx = 1, spec_state = ENTRY_DID_NOT_EXIST, spec_msg = ?m\<rparr>"
  have "btree_can_perform_leaf_incorporate_spec demo_leaf ?s"
    by (rule perform_compact [OF demo_leaf(1) demo_spec_ok])
      (simp_all add: demo_leaf(2) spec_target_def spec_tuple_def tuple_size_def leaf_entry_required_capacity_def
        sizeof_ondisk_tuple_def key_length_def key_is_user_key_def message_length_def big_message_def demo_config(3))
  then obtain gen hdr' where p: "btree_try_perform_leaf_incorporate_spec demo_leaf ?s = Inr (True, gen, hdr')"
    using perform_returns [OF compact_wf [OF demo_leaf(1)] demo_spec_ok, of "[7]"] by auto
  have "leaf_tuples hdr' = upsert (btree_key_compare demo_bt) (merged demo_bt (User_Key [2]) ?m) (User_Key [2]) ?m (leaf_tuples demo_leaf)"
    using incorporate_refines_upsert [OF demo_config(2) compact_wf [OF demo_leaf(1)] demo_leaf(3) _ _ demo_leaf_create _ p]
    by (simp add: key_is_user_key_def key_short_def key_length_def)
  then have "leaf_tuples hdr' = [(User_Key [1], big_message 10), (User_Key [2], ?m), (User_Key [3], big_message 30)]"
    by (simp add: demo_leaf(2) btree_key_compare_def data_key_compare_def key_is_user_key_def demo_bt_def
        default_data_config_def slice_lex_cmp_def)
  then show ?thesis using p demo_leaf_create by blast
qed

section \<open>Splitting\<close>

text \<open>The leaf was split in two and the parent has the new pivot.\<close>

definition split_in_two ::
  "btree_config \<Rightarrow> nat \<Rightarrow> u64 \<Rightarrow> u64 \<Rightarrow> (key \<times> message) list \<Rightarrow> node_family \<Rightarrow> node_family \<Rightarrow> bool" where
  "split_in_two cfg k child_addr right_addr ts f f' \<longleftrightarrow>
     (let ps = node_pivots (fam_parent f) in
       leaf_tuples (fam_child f') @ leaf_tuples (fam_right f') = ts \<and> leaf_tuples (fam_right f') \<noteq> [] \<and>
       leaf_wf cfg (fam_right f') \<and> leaf_sorted cfg (fam_right f') \<and>
       (\<exists>pivot. node_pivots (fam_parent f') = take (k + 1) ps @ [(pivot, right_addr, BTREE_PIVOT_STATS_UNKNOWN)] @ drop (k + 1) ps \<and>
          (\<forall>t \<in> set (leaf_tuples (fam_child f')). btree_key_compare cfg (fst t) pivot < 0) \<and>
          (\<forall>t \<in> set (leaf_tuples (fam_right f')). btree_key_compare cfg pivot (fst t) \<le> 0)) \<and>
       next_addr (fam_child f') = right_addr \<and> prev_addr (fam_right f') = child_addr \<and>
       next_addr (fam_right f') = next_addr (fam_child f))"

lemma leaf_was_split_in_two:
  assumes cfg: "config_ok cfg" "lexical cfg" and ins: "insertable cfg (fam_child f) spec"
    and sorted: "keys_sorted cfg (map fst (spec_target spec (leaf_tuples (fam_child f))))"
    and eq: "spec_state spec = ENTRY_STILL_EXISTS \<Longrightarrow>
      btree_key_compare cfg (fst (leaf_tuples (fam_child f) ! nat (spec_idx spec))) (spec_key spec) = 0"
    and split: "leaf_was_split cfg k child_addr right_addr spec f f'"
  shows "leaf_wf cfg (fam_child f')" and "leaf_sorted cfg (fam_child f')"
    and "split_in_two cfg k child_addr right_addr (spec_target spec (leaf_tuples (fam_child f))) f f'"
proof -
  let ?c = "fam_child f" and ?l = "leaf_tuples (fam_child f')" and ?r = "leaf_tuples (fam_right f')"
  let ?tgt = "spec_target spec (leaf_tuples ?c)" and ?pivot = "btree_splitting_pivot ?c spec (btree_build_leaf_splitting_plan ?c spec)"
  note s = insertable_splittable [OF cfg(1) ins] and d = split [unfolded leaf_was_split_def Let_def]
  have h: "?l @ ?r = ?tgt" "?r \<noteq> []" using split_halves(1,4) [OF s] d by simp_all
  have P: "bt_page_size cfg < 65536" using leaf_page_small ins by (auto simp: insertable_def)
  have short: "key_short (fst t)" if "t \<in> insert (spec_tuple spec) (set (leaf_tuples ?c))" for t
    using ins that P by (auto simp: insertable_def tuple_bounded_def key_short_def MAX_INLINE_KEY_SIZE_def)
  have tshort: "\<forall>x \<in> set (map fst ?l @ map fst ?r). key_short x"
    using leaf_keys_short by fastforce
  obtain t where "t \<in> insert (spec_tuple spec) (set (leaf_tuples ?c))" "?pivot = fst t"
    using splitting_pivot_member [OF s] by blast
  then have pshort: "key_short ?pivot" using short by simp
  have r0: "map fst ?r ! 0 = fst (split_right ?c spec ! 0)" using d h(2) by simp
  have sep: "btree_key_compare cfg ?pivot (map fst ?r ! 0) = 0"
    using splitting_pivot [OF s] eq pshort total_compare.cmp_self [OF lexical_compare [OF cfg(2)]]
    unfolding r0 by (auto simp: spec_tuple_def)
  have srt: "keys_sorted cfg (map fst ?l @ map fst ?r)" using sorted h(1) by (metis map_append)
  note parts = sorted_parts [OF cfg(2) srt tshort _ pshort sep]
  show "leaf_wf cfg (fam_child f')" "leaf_sorted cfg (fam_child f')"
    using d parts(1) h(2) by (simp_all add: leaf_sorted_def)
  show "split_in_two cfg k child_addr right_addr ?tgt f f'"
    unfolding split_in_two_def Let_def
    using d h parts(2-4) by (auto simp: leaf_sorted_def)
qed

text \<open>
  C19. Making room in a full leaf never aborts, and completes the insertion unless the claim on the next
  leaf is refused. For a leaf in order whose keys and messages are within the bounds of the
  configuration, and a parent that is not full: when the leaf has to be split, has a leaf behind it and
  the claim on that leaf was refused, \<open>btree_defragment_or_split_child_leaf\<close> returns -1 and no page
  has changed. Otherwise it returns 0 and reports a generation. Either the leaf alone holds the list after
  \<open>upsert\<close>; or the leaf and the new leaf on its right hold its two parts, the right part is not empty,
  the leaves are linked, and the parent has, after the pivot of the leaf, one that is greater than the
  keys on the left and not greater than the keys on the right. The leaves are in order and their entries
  fit the pages.
\<close>

theorem leaf_room_completes_insertion:
  assumes cfg: "config_ok cfg" "lexical cfg"
    and child: "leaf_wf cfg (fam_child f)" "leaf_sorted cfg (fam_child f)" "\<forall>t \<in> set (leaf_tuples (fam_child f)). tuple_bounded cfg t"
    and k: "key_is_user_key key"
    and create: "btree_create_leaf_incorporate_spec cfg mem_ok (fam_child f) key msg = Inr (Inr spec)"
    and new: "tuple_bounded cfg (key, spec_msg spec)" "msg_type (spec_msg spec) \<noteq> MESSAGE_TYPE_PIVOT_DATA"
    and parent: "index_ok cfg (fam_parent f)" "\<not> btree_index_is_full cfg (fam_parent f)" "i < btree_num_entries (fam_parent f)"
    and addr: "right_addr AND NOT 0xFFF = right_addr"
  shows "if BTREE_SPLIT_THRESHOLD (bt_page_size cfg) \<le> leaf_total_space_required (fam_child f) spec \<and>
      next_addr (fam_child f) \<noteq> 0 \<and> \<not> claimed
    then btree_defragment_or_split_child_leaf cfg claimed i child_addr right_addr spec f = Inr (- 1, None, f)
    else \<exists>gen f'. btree_defragment_or_split_child_leaf cfg claimed i child_addr right_addr spec f = Inr (0, Some gen, f') \<and>
      leaf_wf cfg (fam_child f') \<and> leaf_sorted cfg (fam_child f') \<and>
      (let ts = upsert (btree_key_compare cfg) (merged cfg key msg) key msg (leaf_tuples (fam_child f))
       in leaf_tuples (fam_child f') = ts \<and> f' = f\<lparr>fam_child := fam_child f'\<rparr> \<or>
          split_in_two cfg i child_addr right_addr ts f f')"
proof (cases "BTREE_SPLIT_THRESHOLD (bt_page_size cfg) \<le> leaf_total_space_required (fam_child f) spec \<and>
    next_addr (fam_child f) \<noteq> 0 \<and> \<not> claimed")
  case True
  then show ?thesis
    by (simp add: btree_defragment_or_split_child_leaf_def btree_split_child_leaf_def Let_def)
next
  case granted: False
  let ?c = "fam_child f" and ?cl = "next_addr (fam_child f) \<noteq> 0 \<or> claimed"
  have next_leaf: "next_addr (fam_child f) \<noteq> 0 \<Longrightarrow> ?cl" by simp
  have same: "btree_defragment_or_split_child_leaf cfg claimed i child_addr right_addr spec f =
      btree_defragment_or_split_child_leaf cfg ?cl i child_addr right_addr spec f"
    using granted by (auto simp: btree_defragment_or_split_child_leaf_def btree_split_child_leaf_def)
  have short: "key_short key"
    using new(1) leaf_page_small [OF child(1)] by (auto simp: tuple_bounded_def key_short_def MAX_INLINE_KEY_SIZE_def)
  note c = create_spec_result [OF cfg(2) child(1,2) short k create new(2)]
  have ins: "insertable cfg ?c spec"
    using child new(1) c(1,2) by (simp add: insertable_def spec_tuple_def)
  have sorted: "keys_sorted cfg (map fst (spec_target spec (leaf_tuples ?c)))"
    unfolding c(3) by (rule upsert_sorted [OF cfg(2) short child(2)])
  have eq: "spec_state spec = ENTRY_STILL_EXISTS \<Longrightarrow>
      btree_key_compare cfg (fst (leaf_tuples ?c ! nat (spec_idx spec))) (spec_key spec) = 0" using c(2,4) by simp
  obtain gen f' where r: "btree_defragment_or_split_child_leaf cfg ?cl i child_addr right_addr spec f = Inr (0, Some gen, f')"
    "leaf_was_split cfg i child_addr right_addr spec f f' \<or>
     (\<exists>c'. f' = f\<lparr>fam_child := c'\<rparr> \<and> leaf_wf cfg c' \<and> leaf_tuples c' = spec_target spec (leaf_tuples ?c))"
    using defragment_or_split_child_leaf_effect [OF cfg(1) ins parent(1) not_full_takes [OF parent(2) order.refl] parent(3) addr next_leaf _
        order.refl, of child_addr] ins by (auto simp: insertable_def tuple_bounded_def)
  note r1 = r(1) [folded same]
  from r(2) show ?thesis
  proof
    assume "leaf_was_split cfg i child_addr right_addr spec f f'"
    note s = leaf_was_split_in_two [OF cfg ins sorted eq this]
    show ?thesis using r1 s granted unfolding c(3) by (auto simp: Let_def)
  next
    assume "\<exists>c'. f' = f\<lparr>fam_child := c'\<rparr> \<and> leaf_wf cfg c' \<and> leaf_tuples c' = spec_target spec (leaf_tuples ?c)"
    then obtain c' where c': "f' = f\<lparr>fam_child := c'\<rparr>" "leaf_wf cfg c'" "leaf_tuples c' = spec_target spec (leaf_tuples ?c)"
      by blast
    then have "leaf_sorted cfg c'" using sorted by (simp add: leaf_sorted_def)
    then show ?thesis using r1 c' granted by (auto simp: Let_def c(3))
  qed
qed

definition demo_family :: node_family where
  "demo_family = \<lparr>fam_parent = demo_parent, fam_child = demo_leaf, fam_right = blank_page, fam_next = None\<rparr>"

lemma demo_bounded:
  "\<forall>t \<in> set (leaf_tuples demo_leaf). tuple_bounded demo_bt t" "tuple_bounded demo_bt (User_Key [2], big_message b)"
  by (simp_all add: demo_leaf(2) tuple_bounded_def demo_config(3) MAX_INLINE_KEY_SIZE_def MAX_INLINE_MESSAGE_SIZE_def
      key_length_def key_is_user_key_def message_length_def big_message_def)

theorem leaf_room_completes_insertion_witness:
  "\<exists>spec gen f'.
     btree_create_leaf_incorporate_spec demo_bt True demo_leaf (User_Key [2]) (big_message 20) = Inr (Inr spec) \<and>
     btree_defragment_or_split_child_leaf demo_bt False 0 4096 12288 spec demo_family = Inr (0, Some gen, f') \<and>
     leaf_tuples (fam_child f') @ leaf_tuples (fam_right f') =
       [(User_Key [1], big_message 10), (User_Key [2], big_message 20), (User_Key [3], big_message 30)]"
proof -
  let ?s = "\<lparr>spec_key = User_Key [2], spec_idx = 1, spec_state = ENTRY_DID_NOT_EXIST, spec_msg = big_message 20\<rparr>"
  have c: "btree_create_leaf_incorporate_spec demo_bt True (fam_child demo_family) (User_Key [2]) (big_message 20) = Inr (Inr ?s)"
    using demo_leaf_create unfolding big_message_def demo_family_def by simp
  have n: "\<not> (BTREE_SPLIT_THRESHOLD (bt_page_size demo_bt) \<le> leaf_total_space_required (fam_child demo_family) ?s \<and>
      next_addr (fam_child demo_family) \<noteq> 0 \<and> \<not> False)"
    using demo_leaf(4) by (simp add: demo_family_def hdr_links_def)
  have u: "upsert (btree_key_compare demo_bt) h (User_Key [2]) m (leaf_tuples demo_leaf) =
      [(User_Key [1], big_message 10), (User_Key [2], m), (User_Key [3], big_message 30)]" for h m
    by (simp add: demo_leaf(2) btree_key_compare_def data_key_compare_def key_is_user_key_def demo_bt_def
        default_data_config_def slice_lex_cmp_def)
  have blank: "leaf_tuples blank_page = []" by (simp add: leaf_tuples_def btree_num_entries_def blank_page_def)
  obtain gen f' where r: "btree_defragment_or_split_child_leaf demo_bt False 0 4096 12288 ?s demo_family = Inr (0, Some gen, f')"
    "let ts = upsert (btree_key_compare demo_bt) (merged demo_bt (User_Key [2]) (big_message 20)) (User_Key [2]) (big_message 20)
         (leaf_tuples (fam_child demo_family))
     in leaf_tuples (fam_child f') = ts \<and> f' = demo_family\<lparr>fam_child := fam_child f'\<rparr> \<or>
        split_in_two demo_bt 0 4096 12288 ts demo_family f'"
    using leaf_room_completes_insertion [OF demo_config(1,2) _ _ _ _ c, of 0 12288 False 4096, unfolded if_not_P [OF n]]
      demo_leaf demo_parent demo_bounded compact_wf [OF demo_leaf(1)]
    by (auto simp: demo_family_def key_is_user_key_def big_message_def)
  have "leaf_tuples (fam_child f') @ leaf_tuples (fam_right f') =
      [(User_Key [1], big_message 10), (User_Key [2], big_message 20), (User_Key [3], big_message 30)]"
  proof -
    have fr: "f' = demo_family\<lparr>fam_child := c\<rparr> \<Longrightarrow> fam_right f' = blank_page" for c by (simp add: demo_family_def)
    have "fam_child demo_family = demo_leaf" by (simp add: demo_family_def)
    then show ?thesis using r(2) fr blank unfolding Let_def split_in_two_def u by (metis append_Nil2 u)
  qed
  then show ?thesis using r(1) c by (auto simp: demo_family_def)
qed

text \<open>
  Defragmenting a leaf loses nothing and leaves no dead space: the node has the same tuples in
  the same order, and all of the page that neither the header, the table nor an entry takes is
  between the table and the entries.
\<close>

theorem defragment_leaf_compacts:
  assumes "leaf_wf cfg hdr"
  shows "\<exists>hdr'. btree_defragment_leaf cfg hdr None = Inr (hdr', None) \<and> leaf_wf cfg hdr' \<and>
    leaf_tuples hdr' = leaf_tuples hdr \<and> hdr_links hdr' = hdr_links hdr \<and>
    unat (next_entry hdr') + (\<Sum>t\<leftarrow>leaf_tuples hdr. leaf_entry_required_capacity (fst t) (snd t)) = bt_page_size cfg"
proof -
  have "kept_tuples None hdr = leaf_tuples hdr" by (simp add: kept_tuples_def removed_def leaf_tuples_def)
  then obtain hdr' where d: "btree_defragment_leaf cfg hdr None = Inr (hdr', None)" "compact cfg hdr'"
    "leaf_tuples hdr' = leaf_tuples hdr" "hdr_links hdr' = hdr_links hdr"
    using defragment_effect [OF assms, of None] by (auto simp: spec_after_def removed_def)
  have z: "tuple_size = (\<lambda>t. leaf_entry_required_capacity (fst t) (snd t))" by (intro ext) (simp add: tuple_size_def)
  have "used (leaf_tuples hdr) = (\<Sum>t\<leftarrow>leaf_tuples hdr. leaf_entry_required_capacity (fst t) (snd t))"
    unfolding leaf.used_by_def by (simp only: z)
  then show ?thesis using d compact_wf [OF d(2)] compact_space [OF d(2)] by simp
qed

theorem defragment_leaf_compacts_witness:
  "\<exists>hdr'. btree_defragment_leaf demo_bt demo_leaf None = Inr (hdr', None) \<and> unat (next_entry hdr') = 1282"
proof -
  obtain hdr' where "btree_defragment_leaf demo_bt demo_leaf None = Inr (hdr', None)"
    "unat (next_entry hdr') + (\<Sum>t\<leftarrow>leaf_tuples demo_leaf. leaf_entry_required_capacity (fst t) (snd t)) = 4096"
    using defragment_leaf_compacts [OF compact_wf [OF demo_leaf(1)]] by (auto simp: demo_config(3))
  then show ?thesis
    by (simp add: demo_leaf(2) leaf_entry_required_capacity_def sizeof_ondisk_tuple_def key_length_def
        key_is_user_key_def message_length_def big_message_def)
qed

section \<open>Index nodes\<close>

text \<open>
  A node that \<open>btree_index_is_full\<close> does not call full takes one more pivot: the insertion of
  a pivot within the bound of the configuration succeeds wherever the node has free space,
  puts it at its place among the others and keeps their addresses and statistics.
\<close>

theorem index_not_full_takes_pivot:
  assumes "index_ok cfg hdr" and "\<not> btree_index_is_full cfg hdr" and "k \<le> btree_num_entries hdr"
    and "addr AND NOT 0xFFF = addr" and "key_length key \<le> MAX_INLINE_KEY_SIZE (bt_page_size cfg)"
  shows "\<exists>hdr'. btree_insert_index_entry hdr k key addr stats = Inr (True, hdr') \<and> index_ok cfg hdr' \<and>
    node_pivots hdr' = take k (node_pivots hdr) @ [(key, addr, stats)] @ drop k (node_pivots hdr) \<and>
    hdr_links hdr' = hdr_links hdr"
  by (rule parent_gets_pivot [OF assms(1) not_full_takes [OF assms(2) order.refl] assms(3-5) order.refl])

theorem index_not_full_takes_pivot_witness:
  "\<exists>hdr'. btree_insert_index_entry demo_parent 1 (User_Key [5]) 12288 BTREE_PIVOT_STATS_UNKNOWN = Inr (True, hdr') \<and>
    map fst (node_pivots hdr') = [User_Key [1], User_Key [5], User_Key [9]]"
  using index_not_full_takes_pivot [OF demo_parent(1,2), of 1 12288 "User_Key [5]" BTREE_PIVOT_STATS_UNKNOWN]
  by (auto simp: demo_parent(3,5) key_length_def key_is_user_key_def demo_config(3) MAX_INLINE_KEY_SIZE_def)

text \<open>
  C20. \<open>btree_defragment_or_split_child_index\<close> makes room in an index node whose parent is not full, both
  well-formed, without aborting, with the address of a page for the new node and an index within the
  child. When it splits, the place is inside the node, so that both halves have
  pivots: the child keeps the pivots before it, the new node has those from it on, the parent gets the
  first of them with the address of the new node, and the index that the caller follows is the same
  pivot as before. When it defragments, the child has the same pivots. That the parent has room is
  needed: the function does not look at the answer of the insertion into the parent.
\<close>

theorem index_room_keeps_pivots:
  assumes child: "index_ok cfg (fam_child f)" and parent: "index_ok cfg (fam_parent f)" "\<not> btree_index_is_full cfg (fam_parent f)"
    and k: "k < btree_num_entries (fam_parent f)" and cfg: "config_ok cfg"
    and addr: "right_addr AND NOT 0xFFF = right_addr" and i: "i < btree_num_entries (fam_child f)"
  shows "\<exists>right j f'. btree_defragment_or_split_child_index cfg k right_addr (int i) f = Inr (right, int j, f') \<and>
    (let ps = node_pivots (fam_child f); qs = node_pivots (fam_parent f);
         new_child = (if right then fam_right f' else fam_child f')
     in j < btree_num_entries new_child \<and> node_pivots new_child ! j = ps ! i \<and>
        (f' = f\<lparr>fam_child := fam_child f'\<rparr> \<and> node_pivots (fam_child f') = ps \<or>
         0 < btree_num_entries (fam_child f') \<and> 0 < btree_num_entries (fam_right f') \<and>
         node_pivots (fam_child f') @ node_pivots (fam_right f') = ps \<and>
         node_pivots (fam_parent f') = take (k + 1) qs @
           [(fst (node_pivots (fam_right f') ! 0), right_addr, BTREE_PIVOT_STATS_UNKNOWN)] @ drop (k + 1) qs))"
proof -
  let ?c = "fam_child f"
  let ?idx = "btree_choose_index_split ?c"
  show ?thesis
  proof (cases "index_entry_bytes ?c + btree_num_entries ?c * sizeof_index_entry_struct < BTREE_SPLIT_THRESHOLD (bt_page_size cfg)")
    case True
    obtain c' where c': "btree_defragment_index cfg ?c = Inr c'" "node_pivots c' = node_pivots ?c"
      using defragment_index_effect [OF index_okD(1) [OF child]] by blast
    have "btree_defragment_or_split_child_index cfg k right_addr (int i) f = Inr (False, int i, f\<lparr>fam_child := c'\<rparr>)"
      using True c'(1) by (simp add: btree_defragment_or_split_child_index_def Let_def)
    then show ?thesis using c'(2) i num_pivots [OF c'(2)] by (auto simp: Let_def)
  next
    case False
    then have big: "bt_page_size cfg div 2 \<le> index_entry_bytes ?c + btree_num_entries ?c * sizeof_index_entry_struct"
      by (simp add: BTREE_SPLIT_THRESHOLD_def)
    have "i < 2 ^ 64" using i num_entries_small [OF index_okD(1) [OF child, unfolded index_wf_def]] by simp
    then obtain f' where f': "btree_split_child_index cfg k right_addr (int i) f =
        Inr (\<not> i < ?idx, int (if i < ?idx then i else i - ?idx), f')" "index_was_split cfg k right_addr f ?idx f'"
      using split_child_index_effect [OF child parent(1) not_full_takes [OF parent(2) order.refl] k addr config_page_size [OF cfg] _ order.refl big, of "int i"]
          index_okD(2) [OF child]
      by (auto simp: of_nat_diff split: if_splits)
    note d = f'(2) [unfolded index_was_split_def Let_def]
    have n: "btree_num_entries (fam_child f') = ?idx" "btree_num_entries (fam_right f') = btree_num_entries ?c - ?idx"
      using num_pivots [of "fam_child f'"] num_pivots [of "fam_right f'"] d by auto
    have "btree_defragment_or_split_child_index cfg k right_addr (int i) f =
        Inr (\<not> i < ?idx, int (if i < ?idx then i else i - ?idx), f')"
      using False f'(1) by (simp add: btree_defragment_or_split_child_index_def Let_def)
    then show ?thesis
      using d n i by (intro exI [of _ "\<not> i < ?idx"] exI [of _ "if i < ?idx then i else i - ?idx"] exI [of _ f'])
        (auto simp: Let_def)
  qed
qed

definition demo_index_family :: node_family where
  "demo_index_family = \<lparr>fam_parent = demo_parent, fam_child = demo_index, fam_right = blank_page, fam_next = None\<rparr>"

theorem index_room_keeps_pivots_witness:
  "\<exists>right j f'. btree_defragment_or_split_child_index demo_bt 0 12288 2 demo_index_family = Inr (right, int j, f') \<and>
    node_pivots (if right then fam_right f' else fam_child f') ! j = (User_Key (replicate 500 3), 12288, BTREE_PIVOT_STATS_UNKNOWN)"
proof -
  have n: "btree_num_entries demo_index = 4" using num_pivots [OF demo_index(2)] by simp
  have f: "fam_child demo_index_family = demo_index" "fam_parent demo_index_family = demo_parent"
    by (simp_all add: demo_index_family_def)
  have "node_pivots demo_index ! 2 = (User_Key (replicate 500 3), 12288, BTREE_PIVOT_STATS_UNKNOWN)"
    by (simp add: demo_index(2))
  moreover obtain right j f' where
    "btree_defragment_or_split_child_index demo_bt 0 12288 (int 2) demo_index_family = Inr (right, int j, f')"
    "node_pivots (if right then fam_right f' else fam_child f') ! j = node_pivots demo_index ! 2"
    using index_room_keeps_pivots [of demo_bt demo_index_family 0 12288 2, unfolded f Let_def,
        OF demo_index(1) demo_parent(1,2) _ demo_config(1)]
    unfolding demo_parent(5) n by auto
  ultimately show ?thesis
    by (intro exI [of _ right] exI [of _ j] exI [of _ f']) simp
qed

section \<open>The counters of the pivots\<close>

text \<open>
  C29. The counters of visits never disturb the tree: whatever the decision of
  \<open>btree_update_pivot_cnt_and_is_warm\<close> - with any clock, eviction interval, entry time and floating-point arithmetic - the
  node keeps its pivots, the addresses of its children, their statistics and its links.
\<close>

theorem visit_keeps_pivots:
  assumes wf: "index_wf cfg hdr" and j: "j < btree_num_entries hdr"
    and r: "btree_update_pivot_cnt_and_is_warm A ei now now2 hdr entry_time (btree_get_index_entry hdr j) = (warm, hdr', entry_time')"
  shows "index_wf cfg hdr' \<and> node_pivots hdr' = node_pivots hdr \<and> hdr_links hdr' = hdr_links hdr \<and>
    (\<forall>i \<in> {..<btree_num_entries hdr}. btree_get_pivot hdr' i = btree_get_pivot hdr i \<and>
       btree_get_child_addr hdr' i = btree_get_child_addr hdr i)"
proof -
  have s: "same_pivots cfg hdr hdr'" by (rule update_same [OF wf j refl r])
  note d = same_pivotsD [OF s]
  have p: "node_pivots hdr' = node_pivots hdr" using s by (simp add: same_pivots_def)
  have "btree_get_pivot hdr' i = btree_get_pivot hdr i \<and> btree_get_child_addr hdr' i = btree_get_child_addr hdr i"
    if i: "i < btree_num_entries hdr" for i
  proof -
    have "pivot_at (node_bytes hdr') (btree_get_index_entry hdr i) = pivot_at (node_bytes hdr) (btree_get_index_entry hdr i)"
      using nth_node_pivots [of i hdr] nth_node_pivots [of i hdr'] p d(2,3) i by simp
    then show ?thesis by (simp add: btree_get_pivot_def btree_get_child_addr_def index_entry_reads d(3))
  qed
  then show ?thesis using s by (simp add: same_pivots_def)
qed

theorem visit_keeps_pivots_witness:
  "\<exists>warm hdr' t. btree_update_pivot_cnt_and_is_warm \<lparr>mult_positive = True, ei_times_mult = id, elapsed_within = (\<lambda>e i h. e \<le> i * h)\<rparr>
      1000 500 501 demo_parent 100 (btree_get_index_entry demo_parent 1) = (warm, hdr', t) \<and>
    node_pivots hdr' = [(User_Key [1], 4096, BTREE_PIVOT_STATS_UNKNOWN), (User_Key [9], 8192, BTREE_PIVOT_STATS_UNKNOWN)]"
proof -
  obtain warm hdr' t where r: "btree_update_pivot_cnt_and_is_warm
      \<lparr>mult_positive = True, ei_times_mult = id, elapsed_within = (\<lambda>e i h. e \<le> i * h)\<rparr>
      1000 500 501 demo_parent 100 (btree_get_index_entry demo_parent 1) = (warm, hdr', t)"
    by (metis prod_cases3)
  then show ?thesis using visit_keeps_pivots [OF index_okD(1) [OF demo_parent(1)] _ r] demo_parent(3,5) by auto
qed

lemma unat_widen_u8: "unat (ucast (b :: u8) :: u64) = unat b"
proof -
  have "unat b < 2 ^ 8" using unsigned_less [of b] by simp
  then show ?thesis by (simp add: unsigned_ucast_eq take_bit_nat_eq_self)
qed

text \<open>
  The seven bits of the counter saturate: after \<open>n\<close> visits a pivot that is not special has
  its old count and \<open>n\<close>, but at most 127, and it has not become special; a special pivot does
  not count.
\<close>

theorem visits_saturate:
  "unat (pivot_hits_u64 (((\<lambda>h. pivot_cnt_inc_relaxed h p) ^^ n) hdr) p) =
     (if pivot_is_special hdr p then unat (pivot_hits_u64 hdr p) else min 127 (unat (pivot_hits_u64 hdr p) + n))
   \<and> pivot_is_special (((\<lambda>h. pivot_cnt_inc_relaxed h p) ^^ n) hdr) p = pivot_is_special hdr p"
proof (induction n)
  case 0
  have "unat (btree_pivot_meta_cnt7 hdr p) \<le> 127" using count_le [of hdr p] by (simp add: word_le_nat_alt)
  then show ?case by (simp add: pivot_hits_u64_def unat_widen_u8)
next
  case (Suc n)
  let ?h = "((\<lambda>h. pivot_cnt_inc_relaxed h p) ^^ n) hdr"
  let ?c = "btree_pivot_meta_cnt7 ?h p"
  have u: "unat (pivot_hits_u64 h p) = unat (btree_pivot_meta_cnt7 h p)" for h
    by (simp add: pivot_hits_u64_def unat_widen_u8)
  have c: "unat ?c \<le> 127" using count_le [of ?h p] by (simp add: word_le_nat_alt)
  have "unat (if ?c = 127 then 127 else ?c + 1) = min 127 (unat ?c + 1)"
  proof (cases "?c = 127")
    case False
    then have "unat ?c \<noteq> unat (127 :: u8)" by (metis unsigned_word_eqI)
    then have "unat ?c \<noteq> 127" by simp
    then show ?thesis using c False by (simp add: unat_word_ariths)
  qed simp
  then show ?case using Suc.IH count_visit [of ?h p] unfolding u by (auto simp: min_def)
qed

section \<open>The form on disk\<close>

text \<open>
  C40. A tuple survives its form on disk, and so does a pivot: what is read at the place where a
  key and a message were copied is that key and that message, with the length of both, and no
  byte outside the entry has changed; keys with the two infinities are read back from the form
  of keys.
\<close>

theorem ondisk_roundtrip:
  assumes "key_is_user_key k" and "key_length k < 65536" and "message_length msg < 65536"
    and "msg_type msg \<noteq> MESSAGE_TYPE_PIVOT_DATA" and "key_length k' < 65534"
  shows "let m' = copy_tuple_to_ondisk_tuple m p k msg in
    ondisk_tuple_key m' p = k \<and> ondisk_tuple_message m' p = msg \<and>
    sizeof_ondisk_tuple_data m' p = key_length k + message_length msg \<and>
    (\<forall>q \<in> - {p..<p + leaf_entry_required_capacity k msg}. m' q = m q) \<and>
    ondisk_key_to_key (copy_key_to_ondisk_key m p k') p = k' \<and>
    sizeof_ondisk_key_data (copy_key_to_ondisk_key m p k') p = key_length k'"
proof -
  have k: "tuple_key_ok k" "message_ok msg" using assms(1-4) by (simp_all add: tuple_key_ok_def message_ok_def)
  have "copy_tuple_to_ondisk_tuple m p k msg q = m q" if "q \<notin> {p..<p + leaf_entry_required_capacity k msg}" for q
    using that
    by (intro copy_tuple_fields(7) [OF k]) (auto simp: leaf_entry_required_capacity_def sizeof_ondisk_tuple_def)
  then show ?thesis
    using copy_tuple_read [OF k, of m p] ondisk_key_roundtrip(1,2) [OF assms(5), of m p] by (simp add: Let_def)
qed

theorem ondisk_roundtrip_witness:
  "ondisk_tuple_message (copy_tuple_to_ondisk_tuple (\<lambda>_. 0) 100 (User_Key [7, 8]) \<lparr>msg_type = MESSAGE_TYPE_UPDATE, msg_data = [1]\<rparr>) 100 =
     \<lparr>msg_type = MESSAGE_TYPE_UPDATE, msg_data = [1]\<rparr> \<and>
   ondisk_key_to_key (copy_key_to_ondisk_key (\<lambda>_. 0) 100 POSITIVE_INFINITY_KEY) 100 = POSITIVE_INFINITY_KEY"
  using ondisk_roundtrip [of "User_Key [7, 8]" "\<lparr>msg_type = MESSAGE_TYPE_UPDATE, msg_data = [1]\<rparr>" POSITIVE_INFINITY_KEY "\<lambda>_. 0" 100]
  by (simp add: key_is_user_key_def key_length_def message_length_def Let_def)

end
