(* ===== verification/RcProperties.thy ===== *)
theory RcProperties
  imports ExtentAllocator
begin

text \<open>
  The properties of the extent allocator: what an allocation finds, what its statistics count,
  what survives an unmount, what the super-block directory answers; and two lemmas on what the
  code does not do.
\<close>

section \<open>A small device\<close>

definition dev_c :: allocator_config where
  "dev_c = allocator_config_init \<lparr>ioc_page_size = 4096, ioc_extent_size = 131072\<rparr> (8 * 131072)"

lemma dev_c: "dev_c = \<lparr>ac_io = \<lparr>ioc_page_size = 4096, ioc_extent_size = 131072\<rparr>, ac_capacity = 1048576,
    ac_page_capacity = 256, ac_extent_capacity = 8, ac_extent_mask = - 131072\<rparr>"
  by (simp add: dev_c_def allocator_config_init_def floor_log2.simps)

definition dev_al :: "u64 list rc_allocator" where
  "dev_al = \<lparr>rc_cfg = dev_c, rc_ref_count = (\<lambda>_. 0)(0 := 2, 1 := 2), rc_hand = 2,
     rc_splinters = replicate 30 0, rc_checksum = [], curr_allocated = 2, max_allocated = 2,
     extent_allocs = (\<lambda>_. 0)(PAGE_TYPE_SUPERBLOCK := 2), extent_deallocs = (\<lambda>_. 0),
     disk_meta = ([], []), disk_refs = (\<lambda>_. 0)\<rparr>"

lemmas rc_eval = dev_c dev_al_def al_consts Let_def set_ref_def rc_allocator_extent_size_def
  rc_allocator_page_size_def rc_allocator_alloc_def rc_allocator_inc_ref_def rc_allocator_dec_ref_def
  rc_allocator_get_ref_def rc_allocator_extent_number_def ref_buffer_size_def roundup_def

lemma dev_init: "rc_allocator_init dev_c True True True [] 1 ([], []) (\<lambda>_. 0) = Inr (Inr dev_al)"
  by (simp add: rc_allocator_init_def rc_allocator_valid_config_def laio_config_valid_def
      rc_allocator_init_meta_page_def init_alloc_def rc_fresh_def rc_eval)

lemma dev_cfg: "dev_c = allocator_config_init (ac_io dev_c) (ac_capacity dev_c)"
  by (simp add: dev_c_def allocator_config_init_def)

lemmas dev_inv = init_effect_rc(1) [OF dev_init dev_cfg, simplified]

lemma dev_addr: "x \<in> {0, 131072, 262144, 393216, 524288, 655360, 786432, 917504} \<Longrightarrow> x \<in> extent_addrs dev_c"
  by (auto simp: extent_addrs_def dev_c_def allocator_config_init_def)

section \<open>Allocation\<close>

text \<open>
  C16. An allocation of an extent always answers. It answers \<open>STATUS_NO_SPACE\<close> exactly when no
  extent is free, and changes no count; otherwise it returns the base address of an extent
  that was free, gives it its first reference and leaves the count of every other extent. The
  hand, a 64-bit counter of the extents looked at, must not be about to wrap.
\<close>

theorem extent_alloc_result:
  assumes inv: "rc_inv c base al" and nw: "unat (rc_hand al) + unat (ac_extent_capacity c) < 2 ^ 64"
  shows "case rc_allocator_alloc al t of
      Inl _ \<Rightarrow> False
    | Inr (st, None, al') \<Rightarrow> st = STATUS_NO_SPACE \<and>
        (\<forall>b\<in>extent_addrs c. rc_allocator_get_ref al b \<noteq> AL_FREE \<and> rc_allocator_get_ref al' b = rc_allocator_get_ref al b)
    | Inr (st, Some a, al') \<Rightarrow> st = STATUS_OK \<and> a \<in> extent_addrs c \<and> rc_allocator_get_ref al a = AL_FREE \<and>
        rc_allocator_valid_extent_addr al a \<and>
        (\<forall>b\<in>extent_addrs c. rc_allocator_get_ref al' b = (if b = a then AL_ONE_REF else rc_allocator_get_ref al b))"
proof -
  note i = rc_invD [OF inv]
  obtain st r al' where ret: "rc_allocator_alloc al t = Inr (st, r, al')" using alloc_returns_rc [OF inv nw] by blast
  note e = alloc_effect_rc [OF inv ret]
  have g: "rc_allocator_get_ref al b = rc_refs al b" "rc_allocator_get_ref al' b = rc_refs al' b" for b
    using i rc_invD [OF e(1)] by (simp_all add: rc_get_ref)
  show ?thesis
  proof (cases r)
    case None
    then have "rc_refs al b \<noteq> 0" if "b \<in> extent_addrs c" for b
      using alloc_complete_rc [OF inv nw that, of t] ret by auto
    then show ?thesis using ret None e(2) by (simp add: g al_consts)
  next
    case (Some a)
    have "a mod 131072 = 0" using e(3) [OF Some] by (auto simp: extent_addrs_def word_unat_eq_iff unat_mod)
    then show ?thesis
      using ret Some e(3) [OF Some] i
      by (simp add: g al_consts rc_allocator_valid_extent_addr_def rc_allocator_extent_size_def cfg_okD)
  qed
qed

lemma extent_alloc_result_witness:
  "case rc_allocator_alloc dev_al PAGE_TYPE_BRANCH of
      Inl _ \<Rightarrow> False
    | Inr (st, None, al') \<Rightarrow> st = STATUS_NO_SPACE \<and>
        (\<forall>b\<in>extent_addrs dev_c. rc_allocator_get_ref dev_al b \<noteq> AL_FREE \<and>
           rc_allocator_get_ref al' b = rc_allocator_get_ref dev_al b)
    | Inr (st, Some a, al') \<Rightarrow> st = STATUS_OK \<and> a \<in> extent_addrs dev_c \<and>
        rc_allocator_get_ref dev_al a = AL_FREE \<and> rc_allocator_valid_extent_addr dev_al a \<and>
        (\<forall>b\<in>extent_addrs dev_c. rc_allocator_get_ref al' b =
           (if b = a then AL_ONE_REF else rc_allocator_get_ref dev_al b))"
proof (rule extent_alloc_result [OF dev_inv])
  show "unat (rc_hand dev_al) + unat (ac_extent_capacity dev_c) < 2 ^ 64" by (simp add: rc_eval)
qed

section \<open>Statistics\<close>

datatype extent_op = AllocExtent page_type | IncExtent u64 | DecExtent u64 page_type

fun extent_do :: "extent_op \<Rightarrow> 'c rc_allocator \<Rightarrow> 'c rc_allocator outcome" where
  "extent_do (AllocExtent t) al = obind (rc_allocator_alloc al t) (\<lambda>(_, _, al'). Inr al')"
| "extent_do (IncExtent a) al = obind (rc_allocator_inc_ref al a) (\<lambda>(_, al'). Inr al')"
| "extent_do (DecExtent a t) al = obind (rc_allocator_dec_ref al a t) (\<lambda>(_, al'). Inr al')"

fun extent_op_ok :: "allocator_config \<Rightarrow> extent_op \<Rightarrow> bool" where
  "extent_op_ok c (AllocExtent t) \<longleftrightarrow> True"
| "extent_op_ok c (IncExtent a) \<longleftrightarrow> a \<in> extent_addrs c"
| "extent_op_ok c (DecExtent a t) \<longleftrightarrow> a \<in> extent_addrs c"

lemma extent_do_inv:
  "rc_inv c base al \<Longrightarrow> extent_op_ok c x \<Longrightarrow> extent_do x al = Inr al' \<Longrightarrow> rc_inv c base al'"
  by (cases x) (auto elim!: obind_InrE dest: alloc_effect_rc(1) inc_ref_effect(1) dec_ref_effect(1))

lemma card_in_use:
  assumes "rc_inv c base al"
  shows "in_use_count (rc_ref_count al) (unat (ac_extent_capacity c)) =
    int (card {a \<in> extent_addrs c. rc_allocator_get_ref al a \<noteq> AL_FREE})"
proof -
  note i = rc_invD [OF assms]
  let ?A = "{a \<in> extent_addrs c. rc_allocator_get_ref al a \<noteq> AL_FREE}"
  have g: "rc_allocator_get_ref al a = rc_ref_count al (extent_no a)" for a
    using i rc_get_ref [of al a] by (simp add: rc_refs_def)
  have "{n. n < unat (ac_extent_capacity c) \<and> rc_ref_count al n \<noteq> 0} = extent_no ` ?A"
  proof (intro set_eqI iffI)
    fix n assume n: "n \<in> {n. n < unat (ac_extent_capacity c) \<and> rc_ref_count al n \<noteq> 0}"
    let ?h = "of_nat n :: u64"
    have "n < 2 ^ 64" using n unat_u64_lt [of "ac_extent_capacity c"] by simp
    then have "unat ?h = n" by (simp add: unat_of_nat take_bit_nat_eq_self)
    then show "n \<in> extent_no ` ?A"
      using n extent_addr(2,3) [OF i(2), of ?h]
      by (auto simp: g al_consts word_less_nat_alt image_iff intro!: bexI [of _ "?h * 131072"])
  qed (auto simp: g al_consts extent_no_lt)
  moreover have "inj_on extent_no ?A" by (auto simp: inj_on_def intro: extent_no_inj)
  ultimately show ?thesis by (simp add: in_use_count_def card_image)
qed

text \<open>
  C26. From its creation on, through any sequence of allocations, increments and decrements,
  the allocator's count of extents in use is the number of extents whose reference count is
  not 0, and the allocations of all page types less the deallocations.
\<close>

theorem extent_statistics:
  assumes init: "rc_allocator_init c mutex_ok mem_ok buf_ok c0 addr0 dm dr = Inr (Inr al)"
    and c: "c = allocator_config_init (ac_io c) (ac_capacity c)" and a0: "addr0 \<noteq> 0"
    and run: "iterM extent_do p al = Inr al'" and ok: "list_all (extent_op_ok c) p"
  shows "rc_allocator_in_use al' = int (card {a \<in> extent_addrs c. rc_allocator_get_ref al' a \<noteq> AL_FREE}) \<and>
    rc_allocator_in_use al' = (\<Sum>t\<in>UNIV. extent_allocs al' t - extent_deallocs al' t)"
proof -
  have "rc_inv c 0 al'"
    by (rule iterM_invariant [where P = "rc_inv c 0", OF run init_effect_rc(1) [OF init c a0]])
      (use ok in \<open>auto simp: list_all_iff intro: extent_do_inv\<close>)
  then show ?thesis
    using card_in_use [of c 0 al'] by (simp add: rc_inv_def footprint_def rc_allocator_in_use_def)
qed

definition dev_ops :: "extent_op list" where
  "dev_ops = [AllocExtent PAGE_TYPE_BRANCH, AllocExtent PAGE_TYPE_TRUNK, IncExtent 262144,
     DecExtent 393216 PAGE_TYPE_TRUNK, DecExtent 393216 PAGE_TYPE_TRUNK]"

lemma extent_statistics_witness:
  "\<exists>al'. iterM extent_do dev_ops dev_al = Inr al' \<and> rc_allocator_in_use al' = 3 \<and>
    rc_allocator_in_use al' = int (card {a \<in> extent_addrs dev_c. rc_allocator_get_ref al' a \<noteq> AL_FREE}) \<and>
    rc_allocator_in_use al' = (\<Sum>t\<in>UNIV. extent_allocs al' t - extent_deallocs al' t)"
proof -
  have "case iterM extent_do dev_ops dev_al of Inr al' \<Rightarrow> rc_allocator_in_use al' = 3 | Inl _ \<Rightarrow> False"
    by (simp add: dev_ops_def rc_allocator_in_use_def rc_eval)
  then obtain al' where al': "iterM extent_do dev_ops dev_al = Inr al'" "rc_allocator_in_use al' = 3"
    by (auto split: sum.splits)
  have "list_all (extent_op_ok dev_c) dev_ops" by (simp add: dev_ops_def dev_addr)
  then show ?thesis
    using extent_statistics [OF dev_init dev_cfg _ al'(1)] al' by simp
qed

section \<open>Unmount and mount\<close>

text \<open>
  C17. A mount after an unmount, with the same configuration and the same checksum function,
  finds every reference count, every super block and the number of extents in use as they
  were, if the meta page on the device is the one in memory and the array of counts is
  shorter than 4 GiB.
\<close>

theorem unmount_mount_restores:
  assumes inv: "rc_inv c base al" and meta: "disk_meta al = (rc_splinters al, csum (rc_splinters al))"
    and small: "unat (ref_buffer_size c) < 2 ^ 32"
  shows "case rc_allocator_unmount True al of
      Inl _ \<Rightarrow> False
    | Inr (dm, dr) \<Rightarrow> (case rc_allocator_mount csum c True True True True dm dr of
          Inr (Inr al') \<Rightarrow> rc_allocator_in_use al' = rc_allocator_in_use al \<and>
            (\<forall>a\<in>extent_addrs c. rc_allocator_get_ref al' a = rc_allocator_get_ref al a) \<and>
            (\<forall>root. rc_allocator_get_super_addr al' root = rc_allocator_get_super_addr al root)
        | _ \<Rightarrow> False)"
proof -
  obtain dm dr where u: "rc_allocator_unmount True al = Inr (dm, dr)"
    by (auto simp: rc_allocator_unmount_def Let_def)
  obtain al' where m: "rc_allocator_mount csum c True True True True dm dr = Inr (Inr al')"
      "rc_inv c (curr_allocated al) al'" "rc_splinters al' = rc_splinters al"
      "curr_allocated al' = curr_allocated al"
      "\<forall>i<unat (ac_extent_capacity c). rc_ref_count al' i = rc_ref_count al i"
    using unmount_mount [where csum = csum, OF inv meta small u] by blast
  have cfg: "rc_cfg al' = rc_cfg al" "cfg_ok (rc_cfg al)"
    using rc_invD [OF m(2)] rc_invD [OF inv] by simp_all
  have "super_page al' = super_page al"
    by (rule ext) (simp add: super_page_def rc_allocator_page_size_def cfg)
  then show ?thesis
    using u m cfg by (simp add: rc_get_ref rc_refs_def extent_no_lt rc_allocator_get_super_addr_def
        rc_allocator_in_use_def split: option.splits)
qed

definition dev_super :: "u64 list rc_allocator" where
  "dev_super = dev_al\<lparr>rc_splinters := 7 # replicate 29 0, rc_checksum := 7 # replicate 29 0,
     disk_meta := (7 # replicate 29 0, 7 # replicate 29 0)\<rparr>"

lemma replicate_30: "replicate 30 0 = 0 # replicate 29 (0 :: u64)"
  by (simp add: numeral_eq_Suc)

lemma dev_super: "rc_allocator_alloc_super_addr id True dev_al 7 = Inr (STATUS_OK, Some 4096, dev_super)"
  by (simp add: rc_allocator_alloc_super_addr_def write_slot_def super_page_def dev_super_def replicate_30 rc_eval)

lemma dev_super_inv: "rc_inv dev_c 0 dev_super"
  using dev_inv by (simp add: dev_super_def rc_inv_def footprint_def al_consts)

lemma unmount_mount_restores_witness:
  "rc_allocator_get_super_addr dev_super 7 = (STATUS_OK, Some 4096) \<and>
   (case rc_allocator_unmount True dev_super of
      Inl _ \<Rightarrow> False
    | Inr (dm, dr) \<Rightarrow> (case rc_allocator_mount id dev_c True True True True dm dr of
          Inr (Inr al') \<Rightarrow> rc_allocator_in_use al' = rc_allocator_in_use dev_super \<and>
            (\<forall>a\<in>extent_addrs dev_c. rc_allocator_get_ref al' a = rc_allocator_get_ref dev_super a) \<and>
            (\<forall>root. rc_allocator_get_super_addr al' root = rc_allocator_get_super_addr dev_super root)
        | _ \<Rightarrow> False))"
proof (intro conjI unmount_mount_restores [OF dev_super_inv])
  show "rc_allocator_get_super_addr dev_super 7 = (STATUS_OK, Some 4096)"
    by (simp add: rc_allocator_get_super_addr_def super_page_def dev_super_def rc_eval)
  show "disk_meta dev_super = (rc_splinters dev_super, id (rc_splinters dev_super))"
    by (simp add: dev_super_def)
  show "unat (ref_buffer_size dev_c) < 2 ^ 32" by (simp add: rc_eval)
qed

text \<open>
  From \<open>2 ^ 30\<close> extents on the size of the write, in a \<open>uint32\<close>, is what is left of the size of
  the array modulo \<open>2 ^ 32\<close>: with exactly so many extents nothing is written.
\<close>

lemma unmount_truncates:
  assumes "rc_inv c base al" and "unat (ref_buffer_size c) = 2 ^ 32"
  shows "rc_allocator_unmount True al = Inr (disk_meta al, disk_refs al)"
proof -
  have "unat (ucast (ref_buffer_size c) :: u32) = 0"
    using assms(2) by (simp add: unsigned_ucast_eq take_bit_eq_mod)
  then show ?thesis using rc_invD [OF assms(1)] by (simp add: rc_allocator_unmount_def Let_def)
qed

text \<open>
  The statistics start at 0 at a mount: giving back an extent that was allocated before it
  makes \<open>rc_allocator_assert_noleaks\<close> stop the process.
\<close>

lemma noleaks_after_mount:
  assumes m: "rc_allocator_mount csum c mutex_ok mem_ok buf_ok io_ok dm dr = Inr (Inr al)" and ok: "cfg_ok c"
    and one: "rc_allocator_get_ref al a = AL_NO_REFS" and d: "rc_allocator_dec_ref al a PAGE_TYPE_BRANCH = Inr (r, al')"
  shows "rc_allocator_assert_noleaks al' = Inl Abort"
proof -
  have z: "extent_allocs al = (\<lambda>_. 0)" "extent_deallocs al = (\<lambda>_. 0)" "rc_cfg al = c"
    using m by (auto simp: rc_allocator_mount_def rc_fresh_def Let_def elim!: obind_InrE split: if_splits option.splits)
  have "rc_ref_count al (unat (a div rc_allocator_extent_size al)) = 1"
    using one by (simp add: rc_allocator_get_ref_def rc_allocator_extent_number_def al_consts)
  then have "extent_allocs al' = (\<lambda>_. 0)" "extent_deallocs al' = (\<lambda>_. 0)(PAGE_TYPE_BRANCH := 1)"
    using d z by (auto simp: rc_allocator_dec_ref_def set_ref_def Let_def split: if_splits)
  then show ?thesis by (simp add: rc_allocator_assert_noleaks_def)
qed

section \<open>Super blocks\<close>

text \<open>The pages of the roots: with the sizes that mounting checks, page \<open>1 + i\<close> of the first extent.\<close>

lemma super_page_place:
  assumes "i < RC_ALLOCATOR_MAX_ROOT_IDS" and "0 < unat (rc_allocator_page_size al)"
    and "(1 + RC_ALLOCATOR_MAX_ROOT_IDS) * unat (rc_allocator_page_size al) \<le> unat (rc_allocator_extent_size al)"
  shows "unat (super_page al i) = (1 + i) * unat (rc_allocator_page_size al)"
    and "unat (super_page al i) + unat (rc_allocator_page_size al) \<le> unat (rc_allocator_extent_size al)"
proof -
  let ?p = "unat (rc_allocator_page_size al)" and ?e = "unat (rc_allocator_extent_size al)"
  have "(1 + i) * ?p + ?p \<le> (1 + RC_ALLOCATOR_MAX_ROOT_IDS) * ?p"
    using mult_le_mono1 [of "2 + i" "1 + RC_ALLOCATOR_MAX_ROOT_IDS" ?p] assms(1) by simp
  then have le: "(1 + i) * ?p + ?p \<le> ?e" using assms(3) by simp
  have "?e < 2 ^ 64" by (rule order_less_le_trans [OF unsigned_less]) simp
  then have lt: "(1 + i) * ?p < 2 ^ 64" using le by simp
  have "unat (super_page al i) = unat (of_nat ((1 + i) * ?p) :: u64)"
    by (simp add: super_page_def algebra_simps)
  also have "\<dots> = (1 + i) * ?p" using lt by (simp only: unat_of_nat) (simp add: take_bit_nat_eq_self)
  finally show u: "unat (super_page al i) = (1 + i) * ?p" .
  show "unat (super_page al i) + ?p \<le> ?e" unfolding u by (rule le)
qed

text \<open>
  C27. The page that \<open>rc_allocator_alloc_super_addr\<close> gives to a new root is the page that
  \<open>rc_allocator_get_super_addr\<close> finds for it. With the sizes that mounting checks (30 roots and the meta
  page fit the first extent) it is a whole page of the first extent behind the meta page, and the page
  of no other root. The pages of all other roots stay; after \<open>rc_allocator_remove_super_addr\<close> the root
  is not found and every other root is where it was. The meta page and its checksum are on the device
  after both.
\<close>

theorem super_addr_roundtrip:
  assumes a: "rc_allocator_alloc_super_addr csum True al root = Inr (st, Some addr, al1)"
    and new: "root \<noteq> INVALID_ALLOCATOR_ROOT_ID" "root \<notin> set (rc_splinters al)"
  shows "st = STATUS_OK \<and> rc_allocator_get_super_addr al1 root = (STATUS_OK, Some addr) \<and>
    (let p = unat (rc_allocator_page_size al); e = unat (rc_allocator_extent_size al)
     in length (rc_splinters al) = RC_ALLOCATOR_MAX_ROOT_IDS \<and> 0 < p \<and> (1 + RC_ALLOCATOR_MAX_ROOT_IDS) * p \<le> e \<longrightarrow>
       p \<le> unat addr \<and> unat addr mod p = 0 \<and> unat addr + p \<le> e \<and>
       (\<forall>r. r \<noteq> root \<longrightarrow> r \<noteq> INVALID_ALLOCATOR_ROOT_ID \<longrightarrow> rc_allocator_get_super_addr al1 r \<noteq> (STATUS_OK, Some addr))) \<and>
    (\<forall>r. r \<noteq> root \<longrightarrow> r \<noteq> INVALID_ALLOCATOR_ROOT_ID \<longrightarrow>
       rc_allocator_get_super_addr al1 r = rc_allocator_get_super_addr al r) \<and>
    (\<exists>al2. rc_allocator_remove_super_addr csum True al1 root = Inr al2 \<and>
       rc_allocator_get_super_addr al2 root = (STATUS_NOT_FOUND, None) \<and> rc_splinters al2 = rc_splinters al \<and>
       (\<forall>r. rc_allocator_get_super_addr al2 r = rc_allocator_get_super_addr al r) \<and>
       disk_meta al1 = (rc_splinters al1, csum (rc_splinters al1)) \<and>
       disk_meta al2 = (rc_splinters al2, csum (rc_splinters al2)))"
proof -
  obtain i where f: "find_root INVALID_ALLOCATOR_ROOT_ID (rc_splinters al) = Some i"
    and al1: "al1 = al\<lparr>rc_splinters := (rc_splinters al)[i := root], rc_checksum := csum ((rc_splinters al)[i := root]),
        disk_meta := ((rc_splinters al)[i := root], csum ((rc_splinters al)[i := root]))\<rparr>"
    and r: "st = STATUS_OK" "addr = super_page al i"
    using a by (auto simp: rc_allocator_alloc_super_addr_def write_slot_def Let_def split: option.splits)
  have sp: "super_page al1 = super_page al"
    by (rule ext) (simp add: super_page_def rc_allocator_page_size_def al1)
  have i: "i < length (rc_splinters al)" "rc_splinters al ! i = INVALID_ALLOCATOR_ROOT_ID"
    using find_root_SomeD [OF f] by simp_all
  have nt: "find_root root (take i (rc_splinters al)) = None"
    using new(2) by (simp add: find_root_None) (meson in_set_takeD)
  have g: "find_root r ((rc_splinters al)[i := root]) = (if r = root then Some i else find_root r (rc_splinters al))"
    if "r \<noteq> INVALID_ALLOCATOR_ROOT_ID" for r
    using find_root_upd [OF f that, of root] nt by simp
  have list_back: "(rc_splinters al)[i := root, i := INVALID_ALLOCATOR_ROOT_ID] = rc_splinters al"
    using i(2) by (metis list_update_id list_update_overwrite)
  let ?al2 = "al1\<lparr>rc_splinters := rc_splinters al, rc_checksum := csum (rc_splinters al),
      disk_meta := (rc_splinters al, csum (rc_splinters al))\<rparr>"
  have k: "st = STATUS_OK" "rc_allocator_get_super_addr al1 root = (STATUS_OK, Some addr)"
    "r' \<noteq> root \<Longrightarrow> r' \<noteq> INVALID_ALLOCATOR_ROOT_ID \<Longrightarrow>
       rc_allocator_get_super_addr al1 r' = rc_allocator_get_super_addr al r'" for r'
    using r g new(1) sp by (auto simp: rc_allocator_get_super_addr_def al1 split: option.splits)
  have rem: "rc_allocator_remove_super_addr csum True al1 root = Inr ?al2"
    using g [OF new(1)] list_back by (simp add: rc_allocator_remove_super_addr_def write_slot_def al1 Let_def)
  have nf: "rc_allocator_get_super_addr ?al2 root = (STATUS_NOT_FOUND, None)"
    using new(2) find_root_None [of root "rc_splinters al"] by (simp add: rc_allocator_get_super_addr_def)
  have "super_page ?al2 = super_page al"
    by (rule ext) (simp add: super_page_def rc_allocator_page_size_def al1)
  then have same: "rc_allocator_get_super_addr ?al2 r = rc_allocator_get_super_addr al r" for r
    by (simp add: rc_allocator_get_super_addr_def split: option.splits)
  have place: "unat (rc_allocator_page_size al) \<le> unat addr \<and>
      unat addr mod unat (rc_allocator_page_size al) = 0 \<and>
      unat addr + unat (rc_allocator_page_size al) \<le> unat (rc_allocator_extent_size al) \<and>
      (\<forall>r'. r' \<noteq> root \<longrightarrow> r' \<noteq> INVALID_ALLOCATOR_ROOT_ID \<longrightarrow>
         rc_allocator_get_super_addr al1 r' \<noteq> (STATUS_OK, Some addr))"
    if s: "length (rc_splinters al) = RC_ALLOCATOR_MAX_ROOT_IDS" "0 < unat (rc_allocator_page_size al)"
      "(1 + RC_ALLOCATOR_MAX_ROOT_IDS) * unat (rc_allocator_page_size al) \<le> unat (rc_allocator_extent_size al)"
  proof -
    note pl = super_page_place [OF _ s(2,3)]
    have "rc_allocator_get_super_addr al1 r' \<noteq> (STATUS_OK, Some addr)"
      if r': "r' \<noteq> root" "r' \<noteq> INVALID_ALLOCATOR_ROOT_ID" for r'
    proof (rule notI)
      assume e: "rc_allocator_get_super_addr al1 r' = (STATUS_OK, Some addr)"
      then obtain j where j: "find_root r' (rc_splinters al) = Some j" "super_page al j = super_page al i"
        using g [OF r'(2)] r'(1) r(2) sp by (auto simp: rc_allocator_get_super_addr_def al1 split: option.splits)
      have jl: "j < length (rc_splinters al)" "rc_splinters al ! j = r'" using find_root_SomeD [OF j(1)] by simp_all
      have lt: "j < RC_ALLOCATOR_MAX_ROOT_IDS" "i < RC_ALLOCATOR_MAX_ROOT_IDS" using jl(1) i(1) s(1) by simp_all
      have "(1 + j) * unat (rc_allocator_page_size al) = (1 + i) * unat (rc_allocator_page_size al)"
        by (rule trans [OF pl(1) [OF lt(1), unfolded j(2), symmetric] pl(1) [OF lt(2)]])
      then have "j = i" using s(2) by simp
      then show False using jl(2) i(2) r'(2) by blast
    qed
    moreover have "i < RC_ALLOCATOR_MAX_ROOT_IDS" using i(1) s(1) by simp
    note pl = super_page_place [OF this s(2,3)]
    ultimately show ?thesis unfolding r(2) pl(1) using pl(2) by simp
  qed
  have meta: "disk_meta al1 = (rc_splinters al1, csum (rc_splinters al1))" by (simp add: al1)
  have al2: "rc_splinters ?al2 = rc_splinters al" "disk_meta ?al2 = (rc_splinters ?al2, csum (rc_splinters ?al2))"
    by simp_all
  show ?thesis
    unfolding Let_def using k place
    by (intro conjI exI [of _ ?al2] rem nf al2 meta allI same) blast+
qed

lemma super_addr_roundtrip_witness:
  "rc_allocator_get_super_addr dev_super 7 = (STATUS_OK, Some 4096) \<and>
    unat (4096 :: u64) + 4096 \<le> unat (rc_allocator_extent_size dev_al) \<and>
    rc_allocator_get_super_addr dev_super 9 \<noteq> (STATUS_OK, Some 4096) \<and>
    rc_allocator_get_super_addr dev_super 9 = rc_allocator_get_super_addr dev_al 9 \<and>
    (\<exists>al2. rc_allocator_remove_super_addr id True dev_super 7 = Inr al2 \<and>
       rc_allocator_get_super_addr al2 7 = (STATUS_NOT_FOUND, None) \<and> rc_splinters al2 = rc_splinters dev_al)"
proof -
  have n: "(7 :: u64) \<noteq> INVALID_ALLOCATOR_ROOT_ID" "7 \<notin> set (rc_splinters dev_al)"
    "(9 :: u64) \<noteq> INVALID_ALLOCATOR_ROOT_ID" "(9 :: u64) \<noteq> 7"
    by (simp_all add: al_consts dev_al_def)
  have z: "length (rc_splinters dev_al) = RC_ALLOCATOR_MAX_ROOT_IDS" "unat (rc_allocator_page_size dev_al) = 4096"
    "(1 + RC_ALLOCATOR_MAX_ROOT_IDS) * 4096 \<le> unat (rc_allocator_extent_size dev_al)"
    by (simp_all add: rc_eval)
  note t = super_addr_roundtrip [OF dev_super n(1,2), unfolded Let_def z(2)]
  have "4096 + 4096 \<le> unat (rc_allocator_extent_size dev_al) \<and>
      rc_allocator_get_super_addr dev_super 9 \<noteq> (STATUS_OK, Some 4096)"
    using t [THEN conjunct2, THEN conjunct2, THEN conjunct1] z(1,3) n(3,4) by simp
  then show ?thesis using t n(3,4) by auto
qed

end
