(* ===== verification/MiniProperties.thy ===== *)
theory MiniProperties
  imports MiniLifecycle RcProperties
begin

text \<open>
  The properties of the mini allocator on top of the reference-count allocator.
\<close>

section \<open>Evaluation\<close>

lemma obind_weak_cong: "m = m' \<Longrightarrow> obind m f = obind m' f"
  by simp

lemmas alloc_scan_numeral [simp] = alloc_scan.simps(2) [of "pred_numeral n" for n, folded numeral_eq_Suc]

lemma upt_2: "[0..<2] = [0, Suc 0]"
  by (simp add: numeral_2_eq_2)

section \<open>A mini allocator on the small device\<close>

definition dev_mini_al :: "u64 list rc_allocator" where
  "dev_mini_al = (case rc_allocator_alloc dev_al PAGE_TYPE_BRANCH of Inr (_, _, al) \<Rightarrow> al | Inl _ \<Rightarrow> dev_al)"

lemma dev_mini_alloc: "rc_allocator_alloc dev_al PAGE_TYPE_BRANCH = Inr (STATUS_OK, Some 262144, dev_mini_al)"
  by (simp add: dev_mini_al_def rc_eval)

definition dev_env :: "u64 list rc_allocator mini_env" where
  "dev_env = \<lparr>env_al = dev_mini_al, env_page_size = 4096, env_extent_size = 131072,
     env_page = (\<lambda>_. \<lparr>next_meta_addr = 0, pos = 0, num_entries = 0, entry_buffer = \<lambda>_. 0\<rparr>),
     env_disk = (\<lambda>_. \<lparr>next_meta_addr = 0, pos = 0, num_entries = 0, entry_buffer = \<lambda>_. 0\<rparr>), env_pins = (\<lambda>_. 0)\<rparr>"

definition dev_prog :: "mini_op list" where
  "dev_prog = [NewPage 0, IncRef, NewPage 1, NewPage 0, DecRef]"

lemmas mini_eval = rc_eval rc_allocator_ops_def rc_allocator_get_config_def dev_mini_al_def dev_env_def
  set_page_def set_al_def env_pin_def base_addr_of_def allocator_config_extent_base_addr_def
  mini_allocator_get_new_extent_def mini_next_extent_def mini_init_def mini_init_meta_page_def
  mini_append_entry_def mini_append_entry_to_page_def mini_alloc_def entry_fits_in_page_def slot_def
  MINI_HDR_SIZE_def META_ENTRY_SIZE_def MINI_WAIT_def MINI_NO_REFS_def MINI_MAX_BATCHES_def
  mini_inc_ref_def mini_dec_ref_def

text \<open>The state after the creation on extent 2, with two batches.\<close>

definition dev_mini :: mini_allocator where
  "dev_mini = \<lparr>mini_pinned = False, meta_head = 262144, meta_tail = 262144, mini_type = PAGE_TYPE_BRANCH,
     num_extents = 3, num_batches = 2, next_addr = (\<lambda>_. 0),
     next_extent = (\<lambda>_. 0)(0 := 393216, Suc 0 := 524288)\<rparr>"

definition dev_env1 :: "u64 list rc_allocator mini_env" where
  "dev_env1 = dev_env
     \<lparr>env_al := dev_mini_al
        \<lparr>rc_ref_count := (\<lambda>_. 0)(0 := 2, Suc 0 := 2, 2 := 3, 3 := 2, 4 := 2), rc_hand := 5,
         curr_allocated := 5, max_allocated := 5,
         extent_allocs := (\<lambda>_. 0)(PAGE_TYPE_SUPERBLOCK := 2, PAGE_TYPE_BRANCH := 3)\<rparr>,
      env_page := (env_page dev_env)(262144 :=
        \<lparr>next_meta_addr = 0, pos = 20, num_entries = 0, entry_buffer = \<lambda>_. 0\<rparr>)\<rparr>"

lemma dev_mini: "mini_init rc_allocator_ops dev_env 262144 0 2 PAGE_TYPE_BRANCH = Inr (393216, dev_mini, dev_env1)"
  by (simp add: mini_eval upt_2 dev_mini_def dev_env1_def cong: obind_weak_cong let_weak_cong)

lemma dev_life:
  "\<exists>mini' env2. mini_type mini' = PAGE_TYPE_BRANCH \<and>
     iterM (mini_do rc_allocator_ops 9) dev_prog (dev_mini, dev_env1, []) = Inr (mini', env2, [393216, 524288, 397312])"
  by (simp add: dev_prog_def mini_eval dev_mini_def dev_env1_def cong: obind_weak_cong let_weak_cong)

lemma dev_env_inv: "rc_inv dev_c 0 (env_al dev_env)"
  using alloc_effect_rc(1) [OF dev_inv dev_mini_alloc] by (simp add: dev_env_def)

lemma dev_env_refs:
  "rc_allocator_get_ref (env_al dev_env) 262144 = AL_ONE_REF" "rc_allocator_get_ref (env_al dev_env) 0 \<noteq> AL_FREE"
  by (simp_all add: mini_eval cong: obind_weak_cong let_weak_cong)

section \<open>Pages\<close>

lemma page_valid_rc:
  assumes inv: "rc_inv c base al" and e: "ext_base a \<in> extent_addrs c" "ext_base a \<noteq> 0" "4096 dvd unat a"
    and r: "rc_refs al (ext_base a) \<noteq> AL_FREE"
  shows "allocator_page_valid rc_allocator_ops al a"
proof -
  note i = rc_invD [OF inv]
  have b: "allocator_config_extent_base_addr c a = ext_base a"
    using cfg_okD(5) [OF i(2)] by (simp add: allocator_config_extent_base_addr_def ext_base_def)
  have "unat a div 131072 < unat (ac_extent_capacity c)" using e(1) by (simp add: extent_addrs_def ext_base_unat)
  then have "unat a < 131072 * unat (ac_extent_capacity c)"
    by (simp add: less_mult_imp_div_less div_less_iff_less_mult mult.commute)
  then have "a < ac_capacity c" using cfg_okD(6) [OF i(2)] by (simp add: word_less_nat_alt)
  moreover have "a mod 4096 = 0" using e(3) by (simp add: word_unat_eq_iff unat_mod dvd_eq_mod_eq_0)
  ultimately show ?thesis
    using e(2) r i by (simp add: allocator_page_valid_def rc_allocator_ops_def rc_allocator_get_config_def Let_def
        b cfg_okD(1) rc_get_ref al_consts)
qed

text \<open>
  C14. Whatever the holders of a new mini allocator do - allocations in any of its batches,
  which share its list of meta pages, mixed with references taken and dropped - no page is
  handed out twice, and every page handed out is a page that \<open>allocator_page_valid\<close> accepts:
  aligned, on the device, outside the first extent and in an extent with references.
\<close>

theorem mini_pages_distinct_valid:
  assumes inv: "rc_inv c base (env_al env)"
    and sizes: "env_page_size env = 4096" "env_extent_size env = 131072"
    and M: "ext_base mhead \<in> extent_addrs c" "ext_base mhead \<noteq> 0" "4096 dvd unat mhead"
    and refs: "rc_allocator_get_ref (env_al env) (ext_base mhead) = AL_ONE_REF"
      "rc_allocator_get_ref (env_al env) 0 \<noteq> AL_FREE"
    and init: "mini_init rc_allocator_ops env mhead 0 batches t = Inr (a, mini, env1)"
    and run: "iterM (mini_do rc_allocator_ops fuel) p (mini, env1, []) = Inr (mini', env2, log)"
    and bal: "mini_balanced 0 batches p"
  shows "distinct log \<and> (\<forall>x\<in>set log. allocator_page_valid rc_allocator_ops (env_al env2) x)"
proof -
  have g: "rc_refs (env_al env) x = rc_allocator_get_ref (env_al env) x" for x
    using rc_invD [OF inv] by (simp add: rc_get_ref)
  have r: "rc_refs (env_al env) (ext_base mhead) = AL_ONE_REF" "rc_refs (env_al env) 0 \<noteq> AL_FREE"
    using refs by (simp_all add: g)
  note i = rc.mini_init_ok [OF inv sizes M r init]
  have ir: "rc.mini_ready c base (rc_refs (env_al env)) 3 [mhead] (set []) mini env1" using i(1) by simp
  obtain ms where ms: "rc.mini_ready c base (rc_refs (env_al env)) 3 ms (set log) mini' env2" "distinct log"
    using rc.run_ok [OF run ir, of 0] bal i(2) by auto
  have "allocator_page_valid rc_allocator_ops (env_al env2) x" if x: "x \<in> set log" for x
  proof (rule page_valid_rc)
    have f: "ext_base x \<in> set (chain_entries (env_page env2) ms)" "4096 dvd unat x"
      using ms(1) x by (auto simp: rc.mini_ready_def rc.pages_fresh_def)
    have h: "rc.holds c base (rc_refs (env_al env)) 3 (ext_base (meta_head mini'))
        (owned (env_page env2) ms (map (next_extent mini') [0..<num_batches mini'])) (env_al env2)"
      using ms(1) by (simp add: rc.mini_ready_def rc.minv_def)
    show "4096 dvd unat x" by (rule f(2))
    have o: "ext_base x \<in> set (owned (env_page env2) ms (map (next_extent mini') [0..<num_batches mini']))"
      using f(1) by (simp add: owned_def)
    show "rc_inv c base (env_al env2)" using h by (simp add: rc.holds_def)
    show "ext_base x \<in> extent_addrs c" "ext_base x \<noteq> 0" using h o by (auto simp: rc.holds_def)
    then show "rc_refs (env_al env2) (ext_base x) \<noteq> AL_FREE" using h o by (auto simp: rc.holds_def al_consts)
  qed
  then show ?thesis using ms(2) by simp
qed

lemma dev_env_ok:
  "env_page_size dev_env = 4096" "env_extent_size dev_env = 131072" "ext_base 262144 = 262144"
  "(262144 :: u64) \<in> extent_addrs dev_c" "(262144 :: u64) \<noteq> 0" "4096 dvd unat (262144 :: u64)"
  "mini_balanced 0 2 dev_prog"
  by (simp_all add: dev_env_def dev_prog_def dev_addr ext_base_extent [OF dev_addr])

lemma mini_pages_distinct_valid_witness:
  "\<exists>mini' env2.
     iterM (mini_do rc_allocator_ops 9) dev_prog (dev_mini, dev_env1, []) = Inr (mini', env2, [393216, 524288, 397312]) \<and>
     distinct [393216 :: u64, 524288, 397312] \<and>
     (\<forall>x\<in>set [393216, 524288, 397312]. allocator_page_valid rc_allocator_ops (env_al env2) x)"
proof -
  obtain mini' env2 where
    d: "iterM (mini_do rc_allocator_ops 9) dev_prog (dev_mini, dev_env1, []) = Inr (mini', env2, [393216, 524288, 397312])"
    using dev_life by blast
  have "distinct [393216 :: u64, 524288, 397312] \<and>
      (\<forall>x\<in>set [393216, 524288, 397312]. allocator_page_valid rc_allocator_ops (env_al env2) x)"
    by (rule mini_pages_distinct_valid [OF dev_env_inv _ _ _ _ _ _ _ dev_mini d])
      (simp_all only: dev_env_ok dev_env_refs simp_thms)
  then show ?thesis using d by blast
qed

section \<open>The whole life\<close>

text \<open>
  C15. A mini allocator gives back what it takes. After its creation, any operations of its
  holders that drop the references they take, its release and the drop of the creator's
  reference - which ends, and does not stop the process, when the walk over the meta pages
  has one step for each page ever allocated and one more - the answer is 0, the extent of the
  meta page it was created on is free, and every other extent has the references it had.
\<close>

theorem mini_gives_back_all:
  assumes inv: "rc_inv c base (env_al env)"
    and sizes: "env_page_size env = 4096" "env_extent_size env = 131072"
    and M: "ext_base mhead \<in> extent_addrs c" "ext_base mhead \<noteq> 0" "4096 dvd unat mhead"
    and refs: "rc_allocator_get_ref (env_al env) (ext_base mhead) = AL_ONE_REF"
      "rc_allocator_get_ref (env_al env) 0 \<noteq> AL_FREE"
    and t: "t \<noteq> PAGE_TYPE_INVALID"
    and init: "mini_init rc_allocator_ops env mhead 0 batches t = Inr (a, mini, env1)"
    and run: "iterM (mini_do rc_allocator_ops fuel) p (mini, env1, []) = Inr (mini', env2, log)"
    and bal: "mini_balanced 0 batches p" and fuel: "Suc (length p) \<le> fuel"
  shows "\<exists>env3 env4. mini_release rc_allocator_ops mini' env2 = Inr env3 \<and>
    mini_dec_ref rc_allocator_ops fuel env3 mhead t = Inr (0, env4) \<and>
    (\<forall>x\<in>extent_addrs c. rc_allocator_get_ref (env_al env4) x =
       (if x = ext_base mhead then AL_FREE else rc_allocator_get_ref (env_al env) x))"
proof -
  have g: "rc_refs (env_al env) x = rc_allocator_get_ref (env_al env) x" for x
    using rc_invD [OF inv] by (simp add: rc_get_ref)
  have r: "rc_refs (env_al env) (ext_base mhead) = AL_ONE_REF" "rc_refs (env_al env) 0 \<noteq> AL_FREE"
    using refs by (simp_all add: g)
  note i = rc.mini_init_ok [OF inv sizes M r init]
  have ir: "rc.mini_ready c base (rc_refs (env_al env)) 3 [mhead] (set []) mini env1" using i(1) by simp
  obtain ms where ms: "rc.mini_ready c base (rc_refs (env_al env)) 3 ms (set log) mini' env2"
      "length ms \<le> Suc (length p)" "meta_head mini' = mhead" "mini_type mini' = t"
    using rc.run_ok [OF run ir, of 0] bal i(2,3,4) by auto
  have "rc.minv c base (rc_refs (env_al env)) 3 ms (map (next_extent mini') [0..<num_batches mini']) mini' env2"
    using ms(1) by (simp add: rc.mini_ready_def)
  then obtain env3 where e3: "mini_release rc_allocator_ops mini' env2 = Inr env3"
      "rc.mini_left c base (rc_refs (env_al env)) 3 ms mhead env3"
    using rc.mini_release_ok ms(3,4) t by metis
  obtain env4 where e4: "mini_dec_ref rc_allocator_ops fuel env3 mhead t = Inr (0, env4)" "rc_inv c base (env_al env4)"
      "\<forall>y\<in>extent_addrs c. rc_refs (env_al env4) y = (if y = ext_base mhead then AL_FREE else rc_refs (env_al env) y)"
    using rc.mini_last_ref_ok [OF e3(2) t, of fuel] ms(2) fuel by auto
  have "rc_refs (env_al env4) x = rc_allocator_get_ref (env_al env4) x" for x
    using rc_invD [OF e4(2)] by (simp add: rc_get_ref)
  then show ?thesis using e3(1) e4 by (auto simp: g)
qed

lemma mini_gives_back_all_witness:
  "\<exists>mini' env2 env3 env4.
     iterM (mini_do rc_allocator_ops 9) dev_prog (dev_mini, dev_env1, []) = Inr (mini', env2, [393216, 524288, 397312]) \<and>
     mini_release rc_allocator_ops mini' env2 = Inr env3 \<and>
     mini_dec_ref rc_allocator_ops 9 env3 262144 PAGE_TYPE_BRANCH = Inr (0, env4) \<and>
     (\<forall>x\<in>extent_addrs dev_c. rc_allocator_get_ref (env_al env4) x =
       (if x = 262144 then AL_FREE else rc_allocator_get_ref (env_al dev_env) x))"
proof -
  obtain mini' env2 where
    d: "iterM (mini_do rc_allocator_ops 9) dev_prog (dev_mini, dev_env1, []) = Inr (mini', env2, [393216, 524288, 397312])"
    using dev_life by blast
  have "PAGE_TYPE_BRANCH \<noteq> PAGE_TYPE_INVALID" "Suc (length dev_prog) \<le> 9" by (simp_all add: dev_prog_def)
  then have "\<exists>env3 env4. mini_release rc_allocator_ops mini' env2 = Inr env3 \<and>
      mini_dec_ref rc_allocator_ops 9 env3 262144 PAGE_TYPE_BRANCH = Inr (0, env4) \<and>
      (\<forall>x\<in>extent_addrs dev_c. rc_allocator_get_ref (env_al env4) x =
        (if x = ext_base 262144 then AL_FREE else rc_allocator_get_ref (env_al dev_env) x))"
    by (intro mini_gives_back_all [OF dev_env_inv _ _ _ _ _ _ _ _ dev_mini d])
      (simp_all only: dev_env_ok dev_env_refs simp_thms)
  then show ?thesis using d unfolding dev_env_ok(3) by blast
qed

end
