(* ===== verification/BtTreeProperties.thy ===== *)
theory BtTreeProperties
  imports BtMini BtProperties MiniProperties
begin

unbundle bit_operations_syntax

text \<open>
  The properties of whole trees: insertion and lookup on the pages of a tree, and trees from their
  creation on, with the pages of a mini allocator on the reference-count allocator. They are
  applied to a tree that is one full leaf, and to a new tree on a small device.
\<close>

section \<open>A tree of one leaf\<close>

text \<open>A source of pages that counts up to the end of a device; \<open>Blocked\<close> stands for its refusal.\<close>

definition count_alloc :: "u64 page_alloc" where
  "count_alloc h next = (if next < 0x100000000 then Inr (next, blank_page, next + 4096) else Inl Blocked)"

definition count_ok :: "u64 \<Rightarrow> u64 set \<Rightarrow> bool" where
  "count_ok next A \<longleftrightarrow> 4096 dvd unat next \<and> 0 < next \<and> next \<le> 0x100000000 \<and> (\<forall>a \<in> A. a < next)"

interpretation count: page_source count_alloc count_ok "\<lambda>e. e = Blocked"
proof
  fix n :: u64 and A h
  assume ok: "count_ok n A"
  show "sat (\<lambda>e. e = Blocked) (\<lambda>(a, page, m'). a \<notin> A \<and> a \<noteq> 0 \<and> a AND NOT 0xFFF = a \<and> count_ok m' (insert a A)) (count_alloc h n)"
  proof (cases "n < 0x100000000")
    case True
    then have u: "unat (n + 4096) = unat n + 4096" by (simp add: word_less_nat_alt unat_word_ariths)
    obtain j where j: "unat n = 4096 * j" using ok by (auto simp: count_ok_def dvd_def)
    have "j + 1 \<le> 1048576" using True j by (simp add: word_less_nat_alt)
    then have "n + 4096 \<le> 0x100000000" using u j by (simp add: word_le_nat_alt)
    moreover have "n < n + 4096" using u by (simp add: word_less_nat_alt)
    moreover have "4096 dvd unat (n + 4096)" using u j by simp
    ultimately show ?thesis
      using ok True aligned_page [of n] by (auto simp: count_alloc_def count_ok_def)
  qed (simp add: count_alloc_def)
qed

definition demo_state :: "bool list \<Rightarrow> u64 bt_state" where
  "demo_state claims = \<lparr>bt_nodes = (\<lambda>_. blank_page)(4096 := demo_leaf), bt_mini = 8192, bt_claims = claims, bt_mem = []\<rparr>"

lemma demo_insert_ok: "insert_ok demo_bt (User_Key [b]) (big_message d)" "user_message (big_message d)"
proof -
  have "key_length (User_Key [b]) \<le> safe_key_size demo_bt" by (simp add: safe_key_size_def demo_config(3) key_length_def key_is_user_key_def)
  moreover have "message_length (big_message d) \<le> MAX_INLINE_MESSAGE_SIZE (bt_page_size demo_bt)"
    by (simp add: demo_config(3) MAX_INLINE_MESSAGE_SIZE_def message_length_def big_message_def)
  moreover have "msg_type (big_message d) = MESSAGE_TYPE_INSERT" by (simp add: big_message_def)
  ultimately show "insert_ok demo_bt (User_Key [b]) (big_message d)"
    using demo_config(1,2) by (simp add: insert_ok_def tuple_small_def key_is_user_key_def data_merge_tuples_def message_is_definitive_def)
  show "user_message (big_message d)" by (simp add: user_message_def big_message_def)
qed

lemma demo_tree:
  "tree_at demo_bt (bt_nodes (demo_state claims)) {4096} 4096 (Leaf_at 4096)" "count_ok (bt_mini (demo_state claims)) {4096}"
  "leaf_tuples (bt_nodes (demo_state claims) 4096) = [(User_Key [1], big_message 10), (User_Key [3], big_message 30)]"
proof -
  have l: "prev_addr demo_leaf = 0" "BtLeaf.next_addr demo_leaf = 0" "height demo_leaf = 0"
    using demo_leaf(4) by (simp_all add: hdr_links_def)
  have "tuple_small demo_bt (User_Key [b], big_message d)" for b d using demo_insert_ok(1) by (simp add: insert_ok_def)
  then have "leaf_node demo_bt demo_leaf"
    using demo_leaf compact_wf [OF demo_leaf(1)] l by (simp add: leaf_node_def)
  then show "tree_at demo_bt (bt_nodes (demo_state claims)) {4096} 4096 (Leaf_at 4096)"
    using l by (simp add: tree_at_def hung_def demo_state_def demo_leaf(2) within_def less_imp_le key_is_user_key_def)
  show "count_ok (bt_mini (demo_state claims)) {4096}" by (simp add: count_ok_def demo_state_def)
  show "leaf_tuples (bt_nodes (demo_state claims) 4096) = [(User_Key [1], big_message 10), (User_Key [3], big_message 30)]"
    by (simp add: demo_state_def demo_leaf(2))
qed

section \<open>Insertion\<close>

text \<open>
  C3. \<open>btree_insert\<close> refines the insertion into an ordered list, on whole trees of any height and whatever
  other threads refuse, for what \<open>insert_ok\<close> admits: a user key of at most \<open>safe_key_size\<close> bytes (384 of
  the 512 that the code accepts on pages of 4096), keys compared lexicographically, an insert, update or
  delete message of at most \<open>MAX_INLINE_MESSAGE_SIZE\<close> bytes, and a merge callback that answers an error or a message within that
  bound. Longer keys and merges that grow a message beyond the bound are not covered: there the code can
  lose tuples or fail an assertion. Within these bounds, on the pages of a tree that stands for a list of
  tuples, with a source of pages that hands out new ones, the insertion ends, no assertion of it fails and
  nothing is read outside of a page; the only failures are those of the source. Either it answers
  \<open>STATUS_OK\<close>, whether the key is new, and the pages at the same root are a tree for the list after
  \<open>upsert\<close>: every leaf and every pivot in order, the leaves linked, all of them at one height. Or it
  answers \<open>STATUS_NO_MEMORY\<close> and the tree stands for the same list. No page that belonged to something
  else has changed. The tree must have levels left: one, and one for each refused claim.
\<close>

theorem insert_refines_upsert:
  assumes src: "page_source al ok fails" and ins: "insert_ok cf k msg" "user_message msg"
    and t: "tree_at cf (bt_nodes st) A root t" "ok (bt_mini st) A"
    and h: "max 1 (unat (height (bt_nodes st root))) + refusals st < BTREE_MAX_HEIGHT"
  shows "sat fails (\<lambda>(rc, gen, unique, st').
      \<exists>A' t'. tree_at cf (bt_nodes st') A' root t' \<and> ok (bt_mini st') A' \<and> A \<subseteq> A' \<and>
        (\<forall>a \<in> A - set (addrs t). a \<notin> set (addrs t') \<and> bt_nodes st' a = bt_nodes st a) \<and>
        (let ts = tree_tuples (bt_nodes st) t; ts' = tree_tuples (bt_nodes st') t'
         in rc = STATUS_OK \<and> gen \<noteq> None \<and> unique = Some (\<not> has_key cf k ts) \<and>
              ts' = upsert (btree_key_compare cf) (merged cf k msg) k msg ts \<or>
            rc = STATUS_NO_MEMORY \<and> unique = None \<and> ts' = ts))
    (btree_insert cf al root k msg st)"
proof -
  have u: "msg_type msg \<in> {MESSAGE_TYPE_INSERT, MESSAGE_TYPE_UPDATE, MESSAGE_TYPE_DELETE}" using ins(2) by (simp add: user_message_def)
  have "fits fails (max 1 (unat (height (bt_nodes st root))) + refusals st)" using h by (simp add: fits_def)
  note d = page_source.btree_insert_done [OF src ins(1) u t this]
  show ?thesis
  proof (rule sat_mono [OF d])
    fix x assume "insert_done cf k msg ok A root t st x"
    then show "case x of (rc, gen, unique, st') \<Rightarrow>
      \<exists>A' t'. tree_at cf (bt_nodes st') A' root t' \<and> ok (bt_mini st') A' \<and> A \<subseteq> A' \<and>
        (\<forall>a \<in> A - set (addrs t). a \<notin> set (addrs t') \<and> bt_nodes st' a = bt_nodes st a) \<and>
        (let ts = tree_tuples (bt_nodes st) t; ts' = tree_tuples (bt_nodes st') t'
         in rc = STATUS_OK \<and> gen \<noteq> None \<and> unique = Some (\<not> has_key cf k ts) \<and>
              ts' = upsert (btree_key_compare cf) (merged cf k msg) k msg ts \<or>
            rc = STATUS_NO_MEMORY \<and> unique = None \<and> ts' = ts)"
      unfolding insert_done_def Let_def regrown_def by (cases x) (simp only: prod.case, blast)
  qed
qed

lemma insert_refines_upsert_witness:
  "sat (\<lambda>e. e = Blocked) (\<lambda>(rc, gen, unique, st').
      \<exists>A' t'. tree_at demo_bt (bt_nodes st') A' 4096 t' \<and> tree_tuples (bt_nodes st') t' \<in>
        {[(User_Key [1], big_message 10), (User_Key [2], big_message 20), (User_Key [3], big_message 30)],
         [(User_Key [1], big_message 10), (User_Key [3], big_message 30)]})
    (btree_insert demo_bt count_alloc 4096 (User_Key [2]) (big_message 20) (demo_state [False, True, False]))"
proof -
  have h: "max 1 (unat (height (bt_nodes (demo_state [False, True, False]) 4096))) + refusals (demo_state [False, True, False]) < BTREE_MAX_HEIGHT"
    using demo_leaf(4) by (simp add: demo_state_def refusals_def BTREE_MAX_HEIGHT_def hdr_links_def)
  have u: "upsert (btree_key_compare demo_bt) f (User_Key [2]) m [(User_Key [1], big_message 10), (User_Key [3], big_message 30)] =
      [(User_Key [1], big_message 10), (User_Key [2], m), (User_Key [3], big_message 30)]" for f m
    by (simp add: btree_key_compare_def data_key_compare_def key_is_user_key_def demo_bt_def default_data_config_def slice_lex_cmp_def)
  show ?thesis
    by (rule sat_mono [OF insert_refines_upsert [OF count.page_source_axioms demo_insert_ok demo_tree(1,2) h]])
      (auto simp: demo_tree(3) u Let_def simp del: upsert.simps)
qed

text \<open>
  C36. \<open>btree_insert\<close> refuses keys and messages that do not fit a node, and messages that no user
  can send, with \<open>STATUS_BAD_PARAM\<close>, before it touches the tree.
\<close>

theorem insert_refuses_bad_parameters:
  assumes "bt_page_size cf div 8 < key_length k \<or> 35 * bt_page_size cf div 100 < message_length msg \<or>
    msg_type msg \<notin> {MESSAGE_TYPE_INSERT, MESSAGE_TYPE_UPDATE, MESSAGE_TYPE_DELETE}"
  shows "btree_insert cf al root k msg st = Inr (STATUS_BAD_PARAM, None, None, st)"
  using assms by (cases "msg_type msg") (auto simp: btree_insert_def MAX_INLINE_KEY_SIZE_def MAX_INLINE_MESSAGE_SIZE_def
    message_is_invalid_user_type_def)

lemma insert_refuses_bad_parameters_witness:
  "btree_insert demo_bt count_alloc 4096 (User_Key [2]) \<lparr>msg_type = MESSAGE_TYPE_PIVOT_DATA, msg_data = []\<rparr> (demo_state [False]) =
     Inr (STATUS_BAD_PARAM, None, None, demo_state [False])"
  by (rule insert_refuses_bad_parameters) simp

section \<open>Lookup\<close>

text \<open>
  C6. \<open>btree_lookup_with_ref\<close> answers the message of the key, or that there is none, as a search of
  the whole list of tuples does, on a tree of any height, for both ways of following it; what
  it does to the counters of visits on its way leaves the tree and its list in place.
\<close>

theorem lookup_searches_tuples:
  assumes lex: "lexical cf" and k: "key_is_user_key k" "key_length k < 2 ^ 31" and t: "btree_at cf (lk_nodes P) root t"
    and r: "btree_lookup_with_ref cf E root type k P = (result, P')"
  shows "result = map_option snd (find (\<lambda>x. btree_key_compare cf (fst x) k = 0) (tree_tuples (lk_nodes P) t)) \<and>
    btree_at cf (lk_nodes P') root t \<and> tree_tuples (lk_nodes P') t = tree_tuples (lk_nodes P) t"
proof -
  have short: "key_short k" using k(2) by (simp add: key_short_def)
  note f = lookup_finds [OF lex k(1) short t r]
  have "tree_tuples (lk_nodes P') t = tree_tuples (lk_nodes P) t"
    using t unfolding btree_at_def by (blast intro: same_pages_tree(2) [OF f(2)])
  then show ?thesis using f(1) same_pages_tree(3) [OF f(2) t] by (simp add: list_lookup_def)
qed

definition demo_env :: lookup_env where
  "demo_env = \<lparr>le_present = (\<lambda>_. True), le_ei = 1, le_arith = \<lparr>mult_positive = True, ei_times_mult = (\<lambda>x. x), elapsed_within = (\<lambda>_ _ _. True)\<rparr>,
     le_now = (\<lambda>_. 0), le_now2 = (\<lambda>_. 0)\<rparr>"

lemma lookup_searches_tuples_witness:
  "\<exists>P'. btree_lookup_with_ref demo_bt demo_env 4096 PAGE_TYPE_BRANCH (User_Key [3])
      \<lparr>lk_nodes = bt_nodes (demo_state []), lk_time = (\<lambda>_. 0)\<rparr> = (Some (big_message 30), P')"
proof -
  let ?P = "\<lparr>lk_nodes = bt_nodes (demo_state []), lk_time = (\<lambda>_. 0 :: u64)\<rparr>"
  obtain result P' where r: "btree_lookup_with_ref demo_bt demo_env 4096 PAGE_TYPE_BRANCH (User_Key [3]) ?P = (result, P')" by fastforce
  have t: "btree_at demo_bt (lk_nodes ?P) 4096 (Leaf_at 4096)" using demo_tree(1) by (simp add: tree_at_btree)
  have "result = Some (big_message 30)"
    using lookup_searches_tuples [OF demo_config(2) _ _ t r]
    by (simp add: key_is_user_key_def key_length_def demo_tree(3) btree_key_compare_def data_key_compare_def demo_bt_def
        default_data_config_def slice_lex_cmp_def)
  then show ?thesis using r by blast
qed

text \<open>What a lookup answers on pages \<open>N\<close>.\<close>

definition found_in :: "btree_config \<Rightarrow> (u64 \<Rightarrow> btree_hdr) \<Rightarrow> u64 \<Rightarrow> lookup_env \<Rightarrow> page_type \<Rightarrow> (u64 \<Rightarrow> u64) \<Rightarrow> key \<Rightarrow> message option" where
  "found_in cf N root E type tm k = fst (btree_lookup_with_ref cf E root type k \<lparr>lk_nodes = N, lk_time = tm\<rparr>)"

lemma found_in_tree:
  assumes "lexical cf" and "key_is_user_key k" "key_short k" and "tree_at cf N A root t"
  shows "found_in cf N root E type tm k = list_lookup (btree_key_compare cf) k (tree_tuples N t)"
  using tree_at_lookup(1) [OF assms, of E type tm] by (cases "btree_lookup_with_ref cf E root type k \<lparr>lk_nodes = N, lk_time = tm\<rparr>") (simp add: found_in_def)

text \<open>
  C5. What is inserted is found, and nothing else is touched, for the insertions that \<open>insert_ok\<close> admits:
  user keys of at most \<open>safe_key_size\<close> bytes (384 of the 512 that the code accepts on pages of 4096),
  compared lexicographically, insert, update and delete messages of at most
  \<open>MAX_INLINE_MESSAGE_SIZE\<close> bytes, and a merge callback that answers an error or keeps to that bound. With longer keys the code can lose tuples, and merges that
  grow a message beyond the bound can fail an assertion: neither is covered. A lookup of a user key shorter than 2^31 bytes after
  an insertion that answered \<open>STATUS_OK\<close> gives the new message for the key, merged with the message a
  lookup would have given before if there was one; a lookup of another key, and any lookup after
  \<open>STATUS_NO_MEMORY\<close>, gives what it would have given before. The insertion may also not answer, with a
  failure of the source of pages. The tree is one on which \<open>btree_insert\<close> can work, with a level left for
  each refused claim.
\<close>

theorem insert_then_lookup:
  assumes src: "page_source al ok fails" and ins: "insert_ok cf k msg" "user_message msg"
    and t: "tree_at cf (bt_nodes st) A root t" "ok (bt_mini st) A"
    and h: "max 1 (unat (height (bt_nodes st root))) + refusals st < BTREE_MAX_HEIGHT"
    and k': "key_is_user_key k'" "key_short k'"
  shows "sat fails (\<lambda>(rc, gen, unique, st').
      found_in cf (bt_nodes st') root E type tm k' =
        (if rc = STATUS_OK \<and> btree_key_compare cf k k' = 0
         then Some (case found_in cf (bt_nodes st) root E type tm k of None \<Rightarrow> msg | Some old \<Rightarrow> merged cf k msg old)
         else found_in cf (bt_nodes st) root E type tm k'))
    (btree_insert cf al root k msg st)"
proof -
  have lex: "lexical cf" and user: "key_is_user_key k" using ins(1) by (simp_all add: insert_ok_def tuple_small_def)
  have u: "msg_type msg \<in> {MESSAGE_TYPE_INSERT, MESSAGE_TYPE_UPDATE, MESSAGE_TYPE_DELETE}" using ins(2) by (simp add: user_message_def)
  have "fits fails (max 1 (unat (height (bt_nodes st root))) + refusals st)" using h by (simp add: fits_def)
  note d = page_source.btree_insert_done [OF src ins(1) u t this]
  have k: "key_short k" by (rule tree_key_short [OF ins(1) t(1)])
  let ?ts = "tree_tuples (bt_nodes st) t"
  have sub: "subtree cf (bt_nodes st) (unat (height (bt_nodes st root))) t NEGATIVE_INFINITY_KEY POSITIVE_INFINITY_KEY"
    using t(1) by (simp add: tree_at_def hung_def)
  have s: "sorted_within cf NEGATIVE_INFINITY_KEY POSITIVE_INFINITY_KEY ?ts"
    by (rule subtree_sorted_within(1) [OF sub lex infinity_short])
  have up: "list_lookup (btree_key_compare cf) k' (inserted cf k msg ?ts) =
      (if btree_key_compare cf k k' = 0
       then Some (case list_lookup (btree_key_compare cf) k ?ts of None \<Rightarrow> msg | Some old \<Rightarrow> merged cf k msg old)
       else list_lookup (btree_key_compare cf) k' ?ts)"
    by (rule total_compare.lookup_upsert [OF lexical_compare [OF lex] k k'(2)])
      (use s in \<open>simp_all add: sorted_within_def keys_sorted_def\<close>)
  note old = found_in_tree [OF lex _ _ t(1)]
  show ?thesis
  proof (rule sat_mono [OF d])
    fix x assume x: "insert_done cf k msg ok A root t st x"
    obtain rc gen unique st' where e: "x = (rc, gen, unique, st')" by (cases x)
    obtain A' t' where a: "tree_at cf (bt_nodes st') A' root t'"
      "rc = STATUS_OK \<and> tree_tuples (bt_nodes st') t' = inserted cf k msg ?ts \<or>
       rc = STATUS_NO_MEMORY \<and> tree_tuples (bt_nodes st') t' = ?ts"
      using x unfolding e insert_done_def Let_def prod.case by blast
    show "case x of (rc, gen, unique, st') \<Rightarrow> found_in cf (bt_nodes st') root E type tm k' =
        (if rc = STATUS_OK \<and> btree_key_compare cf k k' = 0
         then Some (case found_in cf (bt_nodes st) root E type tm k of None \<Rightarrow> msg | Some old \<Rightarrow> merged cf k msg old)
         else found_in cf (bt_nodes st) root E type tm k')"
      unfolding e prod.case found_in_tree [OF lex k' a(1)] old [OF k'] old [OF user k]
      using a(2) up by (elim disjE conjE) (simp_all only:, simp_all)
  qed
qed

lemma insert_then_lookup_witness:
  "sat (\<lambda>e. e = Blocked) (\<lambda>(rc, gen, unique, st').
      found_in demo_bt (bt_nodes st') 4096 demo_env PAGE_TYPE_BRANCH (\<lambda>_. 0) (User_Key [2]) =
        (if rc = STATUS_OK then Some (big_message 20) else None))
    (btree_insert demo_bt count_alloc 4096 (User_Key [2]) (big_message 20) (demo_state [False]))"
proof -
  have h: "max 1 (unat (height (bt_nodes (demo_state [False]) 4096))) + refusals (demo_state [False]) < BTREE_MAX_HEIGHT"
    using demo_leaf(4) by (simp add: demo_state_def refusals_def BTREE_MAX_HEIGHT_def hdr_links_def)
  have k: "key_is_user_key (User_Key [2])" "key_short (User_Key [2])"
    by (simp_all add: key_is_user_key_def key_short_def key_length_def)
  have none: "found_in demo_bt (bt_nodes (demo_state [False])) 4096 demo_env PAGE_TYPE_BRANCH (\<lambda>_. 0) (User_Key [2]) = None"
    unfolding found_in_tree [OF demo_config(2) k demo_tree(1)]
    by (simp add: demo_tree(3) list_lookup_def btree_key_compare_def data_key_compare_def demo_bt_def key_is_user_key_def
        default_data_config_def slice_lex_cmp_def)
  have "btree_key_compare demo_bt (User_Key [2]) (User_Key [2]) = 0" by (rule lex_self [OF demo_config(2) k(2)])
  then show ?thesis
    using insert_then_lookup [OF count.page_source_axioms demo_insert_ok demo_tree(1,2) h k, of demo_env PAGE_TYPE_BRANCH "\<lambda>_. 0" 2 20]
    unfolding none by (simp cong: if_cong)
qed

section \<open>New trees\<close>

text \<open>
  C2. From its creation on, a tree is an ordered list. \<open>btree_create\<close> on an allocator of extents of
  131072 bytes, the first of them in use, makes an empty tree of pages of 4096 bytes with a mini
  allocator for them; then clients insert, look up and
  scan ranges in any order, forwards and backwards, with any refusals of claims and any lack of memory.
  Every insertion answers as the insertion into the list does, whether its key is new included, every
  lookup answers as the search of the list at that point does, and every scan gives the tuples that the
  list has in its range then, in order and up to its limit, through all splits of leaves and index nodes,
  new levels, extents taken for new pages and counted visits. The insertions are those that
  \<open>insert_ok\<close> admits: user keys of at most \<open>safe_key_size\<close> = 384 of the 512 bytes that the code accepts, compared
  lexicographically, insert, update and delete messages within \<open>MAX_INLINE_MESSAGE_SIZE\<close>, and a merge callback that answers an
  error or keeps to that bound; other insertions are not covered. Keys to look up and the
  ends of ranges are shorter than 2^31 bytes. The run gives these answers or the
  process stops at an assertion (\<open>Abort\<close>), as it does when the device has no free extent or the tree has
  more levels than the mini allocator has batches; the theorem does not tell these stops apart from that
  of another assertion. It never loops without an answer.
\<close>

theorem new_tree_is_a_list:
  assumes inv: "rc_inv c base (env_al (snd (bt_mini st)))" and tc: "config_ok tc" "lexical tc" "bt_page_size tc = 4096"
    and sizes: "env_page_size (snd (bt_mini st)) = 4096" "env_extent_size (snd (bt_mini st)) = 131072"
    and z: "rc_allocator_get_ref (env_al (snd (bt_mini st))) 0 \<noteq> AL_FREE"
    and ops: "\<forall>op \<in> set cs. tree_op_ok tc op"
  shows "sat (\<lambda>e. e = Abort) (\<lambda>(as, st'). list_answers tc [] cs as)
    (obind (btree_create buf tc type st) (\<lambda>(root, st1). tree_run tc (mini_page_alloc buf) root st1 cs))"
proof -
  have "rc_refs (env_al (snd (bt_mini st))) 0 \<noteq> AL_FREE" using z rc_invD [OF inv] by (simp add: rc_get_ref)
  note c = btree_create_tree [OF inv tc(1,3) sizes this, of buf type]
  show ?thesis
  proof (rule sat_obind [OF c])
    fix x :: "u64 \<times> 'a mini_pages bt_state"
    obtain root st1 where e: "x = (root, st1)" by fastforce
    assume "case x of (root, st') \<Rightarrow> leaf_tuples (bt_nodes st' root) = [] \<and>
      (\<exists>r0. mini_pages_ok c base r0 root (bt_mini st') {root} \<and> tree_at tc (bt_nodes st') {root} root (Leaf_at root))"
    then obtain r0 where t: "leaf_tuples (bt_nodes st1 root) = []" "mini_pages_ok c base r0 root (bt_mini st1) {root}"
      "tree_at tc (bt_nodes st1) {root} root (Leaf_at root)" by (auto simp: e)
    show "sat (\<lambda>e. e = Abort) (\<lambda>(as, st'). list_answers tc [] cs as) (case x of (root, st1) \<Rightarrow> tree_run tc (mini_page_alloc buf) root st1 cs)"
      using mini.tree_run_answers [OF refl tc(2) t(3,2) ops, of buf] t(1) by (simp add: e)
  qed
qed

text \<open>A device of 32 extents.\<close>

definition disk_c :: allocator_config where
  "disk_c = allocator_config_init \<lparr>ioc_page_size = 4096, ioc_extent_size = 131072\<rparr> (32 * 131072)"

lemma disk_c: "disk_c = \<lparr>ac_io = \<lparr>ioc_page_size = 4096, ioc_extent_size = 131072\<rparr>, ac_capacity = 4194304,
    ac_page_capacity = 1024, ac_extent_capacity = 32, ac_extent_mask = - 131072\<rparr>"
  by (simp add: disk_c_def allocator_config_init_def floor_log2.simps)

definition disk_al :: "u64 list rc_allocator" where
  "disk_al = \<lparr>rc_cfg = disk_c, rc_ref_count = (\<lambda>_. 0)(0 := 2, 1 := 2), rc_hand = 2,
     rc_splinters = replicate 30 0, rc_checksum = [], curr_allocated = 2, max_allocated = 2,
     extent_allocs = (\<lambda>_. 0)(PAGE_TYPE_SUPERBLOCK := 2), extent_deallocs = (\<lambda>_. 0),
     disk_meta = ([], []), disk_refs = (\<lambda>_. 0)\<rparr>"

lemmas disk_eval = disk_c disk_al_def al_consts Let_def set_ref_def rc_allocator_extent_size_def
  rc_allocator_page_size_def rc_allocator_alloc_def rc_allocator_inc_ref_def rc_allocator_dec_ref_def
  rc_allocator_get_ref_def rc_allocator_extent_number_def ref_buffer_size_def roundup_def

lemma disk_init: "rc_allocator_init disk_c True True True [] 1 ([], []) (\<lambda>_. 0) = Inr (Inr disk_al)"
  by (simp add: rc_allocator_init_def rc_allocator_valid_config_def laio_config_valid_def
      rc_allocator_init_meta_page_def init_alloc_def rc_fresh_def disk_eval)

lemma disk_inv: "rc_inv disk_c 0 disk_al"
  by (rule init_effect_rc(1) [OF disk_init _ , simplified]) (simp_all add: disk_c_def allocator_config_init_def)

definition disk_state :: "u64 list mini_pages bt_state" where
  "disk_state = \<lparr>bt_nodes = (\<lambda>_. blank_page),
     bt_mini = (\<lparr>mini_pinned = False, meta_head = 0, meta_tail = 0, mini_type = PAGE_TYPE_BRANCH, num_extents = 0,
                 num_batches = 0, next_addr = (\<lambda>_. 0), next_extent = (\<lambda>_. 0)\<rparr>,
                \<lparr>env_al = disk_al, env_page_size = 4096, env_extent_size = 131072,
                 env_page = (\<lambda>_. \<lparr>next_meta_addr = 0, pos = 0, num_entries = 0, entry_buffer = \<lambda>_. 0\<rparr>),
                 env_disk = (\<lambda>_. \<lparr>next_meta_addr = 0, pos = 0, num_entries = 0, entry_buffer = \<lambda>_. 0\<rparr>), env_pins = (\<lambda>_. 0)\<rparr>),
     bt_claims = [], bt_mem = []\<rparr>"

lemma upt_8: "[0..<8] = [0, Suc 0, 2, 3, 4, 5, 6, 7]"
  by (simp add: upt_rec)

lemma disk_create:
  "\<exists>root st1. btree_create (\<lambda>_. blank_page) demo_bt PAGE_TYPE_BRANCH disk_state = Inr (root, st1)"
  by (simp add: disk_eval mini_eval btree_create_def disk_state_def BTREE_MAX_HEIGHT_def upt_8 demo_config(3) set_node_def
      cong: obind_weak_cong let_weak_cong)

lemma disk_ok:
  "rc_inv disk_c 0 (env_al (snd (bt_mini disk_state)))" "rc_allocator_get_ref (env_al (snd (bt_mini disk_state))) 0 \<noteq> AL_FREE"
  "env_page_size (snd (bt_mini disk_state)) = 4096" "env_extent_size (snd (bt_mini disk_state)) = 131072"
proof -
  show "rc_inv disk_c 0 (env_al (snd (bt_mini disk_state)))" using disk_inv by (simp add: disk_state_def)
  show "rc_allocator_get_ref (env_al (snd (bt_mini disk_state))) 0 \<noteq> AL_FREE" by (simp add: disk_state_def disk_eval)
  show "env_page_size (snd (bt_mini disk_state)) = 4096" "env_extent_size (snd (bt_mini disk_state)) = 131072"
    by (simp_all add: disk_state_def)
qed

definition disk_scan :: scan_op where
  "disk_scan = \<lparr>sc_device = disk_c, sc_type = PAGE_TYPE_BRANCH, sc_lo = User_Key [1], sc_hi = POSITIVE_INFINITY_KEY, sc_forwards = False,
     sc_limit = 5, sc_prefetch = True, sc_stamps = (\<lambda>_. 0), sc_env = (\<lambda>_. demo_env), sc_claims = [False]\<rparr>"

definition disk_ops :: "tree_op list" where
  "disk_ops = [Put (User_Key [2]) (big_message 20) [] [], Scan disk_scan, Get (User_Key [2]) demo_env PAGE_TYPE_BRANCH (\<lambda>_. 0)]"

lemma disk_range:
  "take (sc_limit disk_scan) (in_direction (sc_forwards disk_scan) (key_range demo_bt (sc_lo disk_scan) (sc_hi disk_scan) [(User_Key [2], m)])) =
    [(User_Key [2], m)]"
  by (simp add: disk_scan_def in_direction_def key_range_def btree_key_compare_def data_key_compare_def demo_bt_def default_data_config_def
      key_is_user_key_def slice_lex_cmp_def)

lemma new_tree_is_a_list_witness:
  "\<exists>st'. obind (btree_create (\<lambda>_. blank_page) demo_bt PAGE_TYPE_BRANCH disk_state)
      (\<lambda>(root, st1). tree_run demo_bt (mini_page_alloc (\<lambda>_. blank_page)) root st1 disk_ops) =
    Inr ([Stored STATUS_OK (Some True), Listed STATUS_OK [(User_Key [2], big_message 20)], Found (Some (big_message 20))], st')"
proof -
  let ?al = "mini_page_alloc (\<lambda>_. blank_page)" and ?k = "User_Key [2]" and ?m = "big_message 20"
  obtain root st1 where c: "btree_create (\<lambda>_. blank_page) demo_bt PAGE_TYPE_BRANCH disk_state = Inr (root, st1)" using disk_create by blast
  have "rc_refs (env_al (snd (bt_mini disk_state))) 0 \<noteq> AL_FREE" using disk_ok(2) rc_invD [OF disk_ok(1)] by (simp add: rc_get_ref)
  note t = btree_create_tree [OF disk_ok(1) demo_config(1,3) disk_ok(3,4) this, of "\<lambda>_. blank_page" PAGE_TYPE_BRANCH, unfolded c]
  obtain r0 where root: "leaf_tuples (bt_nodes st1 root) = []" "mini_pages_ok disk_c 0 r0 root (bt_mini st1) {root}"
    "tree_at demo_bt (bt_nodes st1) {root} root (Leaf_at root)" using t by auto
  have leaf: "leaf_node demo_bt (bt_nodes st1 root)" using root(3) by (simp add: tree_at_def hung_def)
  have user: "\<not> message_is_invalid_user_type ?m" "msg_type ?m \<in> {MESSAGE_TYPE_INSERT, MESSAGE_TYPE_UPDATE, MESSAGE_TYPE_DELETE}"
    by (simp_all add: message_is_invalid_user_type_def big_message_def)
  let ?st = "st1\<lparr>bt_claims := [], bt_mem := []\<rparr>"
  obtain gen st2 where i: "btree_insert demo_bt ?al root ?k ?m ?st = Inr (STATUS_OK, gen, Some True, st2)"
    using insert_first [OF demo_insert_ok(1) user(1), of ?st root ?al 2] root(1) leaf by auto
  have "sat (\<lambda>e. e = Abort) (insert_done demo_bt ?k ?m (mini_pages_ok disk_c 0 r0 root) {root} root (Leaf_at root) ?st)
      (btree_insert demo_bt ?al root ?k ?m ?st)"
    using mini.btree_insert_done [where st = ?st and A = "{root}" and root = root and t = "Leaf_at root" and buf = "\<lambda>_. blank_page",
        OF demo_insert_ok(1) user(2)] root by (simp add: fits_def)
  then have d: "insert_done demo_bt ?k ?m (mini_pages_ok disk_c 0 r0 root) {root} root (Leaf_at root) ?st (STATUS_OK, gen, Some True, st2)"
    by (simp add: i)
  obtain A1 t1 where t1: "tree_at demo_bt (bt_nodes st2) A1 root t1" using d unfolding insert_done_def Let_def prod.case by blast
  have k: "key_is_user_key ?k" "key_short ?k" "key_short (User_Key [1])" by (simp_all add: key_is_user_key_def key_short_def key_length_def)
  have ks: "key_short (sc_lo disk_scan)" "key_short (sc_hi disk_scan)" using k(3) infinity_short by (simp_all add: disk_scan_def)
  obtain l ist where s: "tree_scan demo_bt root (bt_nodes st2) disk_scan = Inr (STATUS_OK, l, ist)"
    using tree_at_scan [OF demo_config(2) ks t1] by blast
  obtain r P where g: "btree_lookup_with_ref demo_bt demo_env root PAGE_TYPE_BRANCH ?k \<lparr>lk_nodes = iter_node ist, lk_time = \<lambda>_. 0\<rparr> = (r, P)"
    by fastforce
  have ops: "\<forall>op \<in> set disk_ops. tree_op_ok demo_bt op" using demo_insert_ok k ks by (simp add: disk_ops_def)
  have run: "tree_run demo_bt ?al root st1 disk_ops =
      Inr ([Stored STATUS_OK (Some True), Listed STATUS_OK l, Found r], st2\<lparr>bt_nodes := lk_nodes P\<rparr>)"
    using i s g by (simp add: disk_ops_def)
  have "list_answers demo_bt [] disk_ops [Stored STATUS_OK (Some True), Listed STATUS_OK l, Found r]"
    using new_tree_is_a_list [OF disk_ok(1) demo_config disk_ok(3,4,2) ops, of "\<lambda>_. blank_page" PAGE_TYPE_BRANCH] c run by simp
  then have "l = [(?k, ?m)]" "r = Some ?m" using lex_self [OF demo_config(2) k(2)] by (simp_all add: disk_ops_def list_lookup_def disk_range)
  then show ?thesis using c run by simp
qed

end
