(* ===== verification/MergeProperties.thy ===== *)
theory MergeProperties
  imports BtMerge BtTreeProperties
begin

text \<open>
  The properties of scans and merges, on two small trees in one memory: one of two leaves below a root,
  and a newer one that is a single leaf and has a newer message for one of the keys.
\<close>

section \<open>Two trees\<close>

definition right_leaf :: btree_hdr where
  "right_leaf = leaf_of [(User_Key [9], big_message 90), (User_Key [11], big_message 110)]"

definition newer_leaf :: btree_hdr where
  "newer_leaf = leaf_of [(User_Key [3], big_message 33), (User_Key [7], big_message 77)]"

definition scan_state :: iter_state where
  "scan_state = \<lparr>is_pages = \<lparr>lk_nodes = (\<lambda>_. blank_page)(16384 := demo_parent, 4096 := demo_leaf\<lparr>BtLeaf.next_addr := 8192\<rparr>,
       8192 := right_leaf\<lparr>prev_addr := 4096\<rparr>, 20480 := newer_leaf), lk_time = (\<lambda>_. 0)\<rparr>,
     is_env = (\<lambda>_. demo_env), is_lookups = 0, is_claims = [False], is_prefetched = []\<rparr>"

definition scan_shape :: "u64 \<Rightarrow> shape" where
  "scan_shape root = (if root = 16384 then Index_at 16384 [Leaf_at 4096, Leaf_at 8192] else Leaf_at 20480)"

definition demo_device :: allocator_config where
  "demo_device = allocator_config_init \<lparr>ioc_page_size = 4096, ioc_extent_size = 131072\<rparr> 1073741824"

lemma demo_key_compare [simp]: "btree_key_compare demo_bt (User_Key [a]) (User_Key [b]) = slice_lex_cmp [a] [b]"
  by (simp add: btree_key_compare_def data_key_compare_def key_is_user_key_def demo_bt_def default_data_config_def)

lemma leaf_of_node:
  assumes "\<forall>t \<in> set ts. tuple_small demo_bt t \<and> tuple_ok t" and "37 + weight ts \<le> 4096" and "keys_sorted demo_bt (map fst ts)" and "ts \<noteq> []"
  shows "leaf_node demo_bt (leaf_of ts)" and "leaf_tuples (leaf_of ts) = ts" and "height (leaf_of ts) = 0"
    and "prev_addr (leaf_of ts) = 0" and "BtLeaf.next_addr (leaf_of ts) = 0"
proof -
  have o: "\<forall>t \<in> set ts. tuple_ok t" using assms(1) by blast
  note l = leaf_of_tuples [OF o assms(2)]
  show h: "height (leaf_of ts) = 0" "prev_addr (leaf_of ts) = 0" "BtLeaf.next_addr (leaf_of ts) = 0"
    using l(3) by (simp_all add: hdr_links_def)
  show t: "leaf_tuples (leaf_of ts) = ts" by (rule l(2))
  show "leaf_node demo_bt (leaf_of ts)" using assms l(1) h t compact_wf [OF l(1)] by (simp add: leaf_node_def leaf_sorted_def)
qed

lemma two_tuples:
  assumes "a < b"
  shows "leaf_node demo_bt (leaf_of [(User_Key [a], big_message x), (User_Key [b], big_message y)])"
    and "leaf_tuples (leaf_of [(User_Key [a], big_message x), (User_Key [b], big_message y)]) = [(User_Key [a], big_message x), (User_Key [b], big_message y)]"
    and "height (leaf_of [(User_Key [a], big_message x), (User_Key [b], big_message y)]) = 0"
    and "prev_addr (leaf_of [(User_Key [a], big_message x), (User_Key [b], big_message y)]) = 0"
    and "BtLeaf.next_addr (leaf_of [(User_Key [a], big_message x), (User_Key [b], big_message y)]) = 0"
proof -
  let ?ts = "[(User_Key [a], big_message x), (User_Key [b], big_message y)]"
  have "slice_lex_cmp [a] [b] < 0" using assms by (auto simp: slice_lex_cmp_def word_less_def)
  then have s: "keys_sorted demo_bt (map fst ?ts)" by (simp add: keys_sorted_def)
  have t: "\<forall>t \<in> set ?ts. tuple_small demo_bt t \<and> tuple_ok t"
    using demo_insert_ok(1) by (auto simp: insert_ok_def tuple_ok_def key_is_user_key_def big_message_def tuple_size_def message_length_def
        leaf_entry_required_capacity_def sizeof_ondisk_tuple_def key_length_def)
  have w: "37 + weight ?ts \<le> 4096"
    by (simp add: weight_def tuple_size_def leaf_entry_required_capacity_def sizeof_ondisk_tuple_def key_length_def key_is_user_key_def
        big_message_def message_length_def)
  note l = leaf_of_node [OF t w s]
  show "leaf_node demo_bt (leaf_of ?ts)" "leaf_tuples (leaf_of ?ts) = ?ts" "height (leaf_of ?ts) = 0"
    "prev_addr (leaf_of ?ts) = 0" "BtLeaf.next_addr (leaf_of ?ts) = 0" by (rule l; simp)+
qed

lemma linked_leaf:
  assumes l: "leaf_node cf hdr" "leaf_tuples hdr \<noteq> []"
    and h: "node_bytes hdr' = node_bytes hdr" "BtLeaf.num_entries hdr' = BtLeaf.num_entries hdr" "height hdr' = height hdr"
      "next_entry hdr' = next_entry hdr" "offsets hdr' = offsets hdr"
  shows "leaf_node cf hdr' \<and> leaf_tuples hdr' = leaf_tuples hdr"
proof -
  have "leaf_tuples hdr' = leaf_tuples hdr" "leaf_wf cf hdr' = leaf_wf cf hdr"
    using page_fields [of hdr' hdr] page_fields(2) [of hdr' hdr tuple_at] h by (simp_all add: leaf_tuples_slots leaf_wf_def)
  then show ?thesis using l h by (simp add: leaf_node_def leaf_sorted_def)
qed

lemma scan_parent:
  "index_node demo_bt 1 demo_parent" "child_addrs demo_parent = [4096, 8192]" "pivot_keys demo_parent = [User_Key [1], User_Key [9]]"
  "height demo_parent = 1"
proof -
  have "hdr_links demo_parent = (0, 0, 0, 0, 1)"
    unfolding demo_parent_def by (rule index_of_pivots(3)) (simp_all add: key_length_def key_is_user_key_def)
  then show h: "height demo_parent = 1" by (simp add: hdr_links_def)
  show "child_addrs demo_parent = [4096, 8192]" "pivot_keys demo_parent = [User_Key [1], User_Key [9]]" by (simp_all add: demo_parent(3))
  show "index_node demo_bt 1 demo_parent"
    using demo_parent(1) h
    by (simp add: index_node_def index_ok_def demo_parent(3) safe_key_size_def demo_config(3) key_length_def key_is_user_key_def)
qed

lemma infinity_compare [simp]:
  "btree_key_compare demo_bt NEGATIVE_INFINITY_KEY (User_Key k) = - 1" "btree_key_compare demo_bt (User_Key k) POSITIVE_INFINITY_KEY = - 1"
  by (simp_all add: btree_key_compare_def data_key_compare_def key_is_user_key_def)

lemma demo_leaf_node: "leaf_node demo_bt demo_leaf" "height demo_leaf = 0" "prev_addr demo_leaf = 0"
  using two_tuples(1,3,4) [of 1 3 10 30] by (simp_all add: demo_leaf_def)

lemma scan_nodes:
  "leaf_node demo_bt (iter_node scan_state 4096)" "leaf_tuples (iter_node scan_state 4096) = [(User_Key [1], big_message 10), (User_Key [3], big_message 30)]"
  "leaf_node demo_bt (iter_node scan_state 8192)" "leaf_tuples (iter_node scan_state 8192) = [(User_Key [9], big_message 90), (User_Key [11], big_message 110)]"
  "leaf_node demo_bt (iter_node scan_state 20480)" "leaf_tuples (iter_node scan_state 20480) = [(User_Key [3], big_message 33), (User_Key [7], big_message 77)]"
  "iter_node scan_state 16384 = demo_parent"
proof -
  note r = two_tuples(1,2) [of 9 11 90 110, folded right_leaf_def] and n = two_tuples(1,2) [of 3 7 33 77, folded newer_leaf_def]
  show "leaf_node demo_bt (iter_node scan_state 4096)"
    "leaf_tuples (iter_node scan_state 4096) = [(User_Key [1], big_message 10), (User_Key [3], big_message 30)]"
    using linked_leaf [OF demo_leaf_node(1), of "demo_leaf\<lparr>BtLeaf.next_addr := 8192\<rparr>"] by (simp_all add: scan_state_def demo_leaf(2))
  show "leaf_node demo_bt (iter_node scan_state 8192)"
    "leaf_tuples (iter_node scan_state 8192) = [(User_Key [9], big_message 90), (User_Key [11], big_message 110)]"
    using linked_leaf [OF r(1), of "right_leaf\<lparr>prev_addr := 4096\<rparr>"] r by (simp_all add: scan_state_def)
  show "leaf_node demo_bt (iter_node scan_state 20480)"
    "leaf_tuples (iter_node scan_state 20480) = [(User_Key [3], big_message 33), (User_Key [7], big_message 77)]"
    "iter_node scan_state 16384 = demo_parent"
    using n by (simp_all add: scan_state_def)
qed

lemma scan_links:
  "prev_addr (iter_node scan_state 4096) = 0" "BtLeaf.next_addr (iter_node scan_state 4096) = 8192"
  "prev_addr (iter_node scan_state 8192) = 4096" "BtLeaf.next_addr (iter_node scan_state 8192) = 0"
  "prev_addr (iter_node scan_state 20480) = 0" "BtLeaf.next_addr (iter_node scan_state 20480) = 0" "height (iter_node scan_state 20480) = 0"
  using two_tuples(3-5) [of 9 11 90 110, folded right_leaf_def] two_tuples(3-5) [of 3 7 33 77, folded newer_leaf_def] demo_leaf_node(3)
  by (simp_all add: scan_state_def)

lemma scan_trees:
  "btree_at demo_bt (iter_node scan_state) 16384 (scan_shape 16384)" "btree_at demo_bt (iter_node scan_state) 20480 (scan_shape 20480)"
  "tree_tuples (iter_node scan_state) (scan_shape 16384) =
     [(User_Key [1], big_message 10), (User_Key [3], big_message 30), (User_Key [9], big_message 90), (User_Key [11], big_message 110)]"
  "tree_tuples (iter_node scan_state) (scan_shape 20480) = [(User_Key [3], big_message 33), (User_Key [7], big_message 77)]"
proof -
  show "tree_tuples (iter_node scan_state) (scan_shape 16384) =
     [(User_Key [1], big_message 10), (User_Key [3], big_message 30), (User_Key [9], big_message 90), (User_Key [11], big_message 110)]"
    "tree_tuples (iter_node scan_state) (scan_shape 20480) = [(User_Key [3], big_message 33), (User_Key [7], big_message 77)]"
    by (simp_all add: scan_shape_def scan_nodes)
  show "btree_at demo_bt (iter_node scan_state) 16384 (scan_shape 16384)"
    by (simp add: btree_at_def scan_shape_def scan_nodes scan_links scan_parent(2-4) scan_parent(1) [unfolded One_nat_def] within_def slice_lex_cmp_def)
  show "btree_at demo_bt (iter_node scan_state) 20480 (scan_shape 20480)"
    by (simp add: btree_at_def scan_shape_def scan_nodes scan_links within_def)
qed

section \<open>Scans\<close>

text \<open>
  C8. A scan reads the range and nothing else. An iterator set up for the keys from \<open>lo\<close> up to but not
  including \<open>hi\<close>, at the beginning of the range or at its end, and moved on as long as it stands at a
  tuple and a limit of \<open>N\<close> tuples is not reached, gives the tuples of the tree in the range, each once, in
  the order of the keys or in the opposite order - on trees of any height, whatever claims are refused
  and whatever the lookups meet in the cache, also when bounds are the infinite keys, lie between two
  leaves, or leave nothing. No assertion fails, the search for the previous leaf ends, and the pages
  are a tree for the same tuples afterwards.
\<close>

theorem scan_reads_range:
  assumes "lexical tc" and "btree_at tc (iter_node st) root t" and "key_short lo" "key_short hi"
  shows "\<exists>st'. btree_scan N (Suc n) ac tc type lo hi pf d root st =
      Inr (STATUS_OK, take N (in_direction d (filter (\<lambda>x. 0 \<le> btree_key_compare tc (fst x) lo \<and> btree_key_compare tc (fst x) hi < 0)
        (tree_tuples (iter_node st) t))), st') \<and>
    btree_at tc (iter_node st') root t \<and> tree_tuples (iter_node st') t = tree_tuples (iter_node st) t"
proof -
  obtain st' where s: "btree_scan N (Suc n) ac tc type lo hi pf d root st =
      Inr (STATUS_OK, take N (in_direction d (key_range tc lo hi (tree_tuples (iter_node st) t))), st')"
    "same_pages tc (iter_node st) (iter_node st')" using btree_scan_ok [OF assms] by blast
  then show ?thesis using same_pages_btree(1) [OF s(2) assms(2)] same_pages_tuples [OF s(2) assms(2)] by (simp add: key_range_def)
qed

lemma scan_reads_range_witness:
  "\<exists>st'. btree_scan 5 1 demo_device demo_bt PAGE_TYPE_BRANCH (User_Key [2]) (User_Key [11]) True False 16384 scan_state =
     Inr (STATUS_OK, [(User_Key [9], big_message 90), (User_Key [3], big_message 30)], st')"
proof -
  have k: "key_short (User_Key [b])" for b by (simp add: key_short_def key_length_def key_is_user_key_def)
  from scan_reads_range [OF demo_config(2) scan_trees(1) k k, of 5 0 demo_device PAGE_TYPE_BRANCH 2 11 True False]
  show ?thesis by (auto simp: scan_trees(3) in_direction_def slice_lex_cmp_def)
qed

text \<open>
  C9. Steps in opposite directions undo each other. From a tuple that an iterator stands at, a step on
  and a step back answer \<open>STATUS_OK\<close> and lead to an iterator that stands at the same tuple - also over
  the border between two leaves, where the way back is a search from the address kept in the leaf.
\<close>

theorem step_on_and_back:
  assumes ok: "iter_ok tc shp it st" and at: "btree_iterator_can_next it st" "btree_iterator_can_prev it st"
  shows "\<exists>it1 st1 it2 st2. btree_iterator_next ac tc it st = Inr (STATUS_OK, it1, st1) \<and>
    btree_iterator_prev (Suc n) tc it1 st1 = Inr (STATUS_OK, it2, st2) \<and>
    btree_iterator_can_next it2 st2 \<and> btree_iterator_can_prev it2 st2 \<and>
    btree_iterator_curr it2 st2 = btree_iterator_curr it st"
proof -
  let ?ops = "btree_iterator_ops (Suc n) ac tc" and ?v = "iter_view tc shp it st"
  have c: "op_can_next ?ops it st" "op_can_prev ?ops it st" using at by (simp_all add: btree_iterator_ops_def)
  have ne: "fst ?v \<noteq> []"
    using branch.none_there [OF ok, of n ac] c by (auto simp: iterator_can_curr_def)
  have v: "snd ?v < int (length (fst ?v))" "0 \<le> snd ?v" using branch.can_next [OF ok ne] branch.can_prev [OF ok ne] c by blast+
  obtain it1 st1 where s1: "op_next ?ops it st = Inr (STATUS_OK, it1, st1)" "iter_ok tc shp it1 st1"
    "iter_view tc shp it1 st1 = (fst ?v, snd ?v + 1)" using branch.next_ok [OF ok ne c(1)] by blast
  have ne1: "fst (iter_view tc shp it1 st1) \<noteq> []" using ne s1(3) by simp
  have "op_can_prev ?ops it1 st1" using branch.can_prev [OF s1(2) ne1] v(2) s1(3) by simp
  then obtain it2 st2 where s2: "op_prev ?ops it1 st1 = Inr (STATUS_OK, it2, st2)" "iter_ok tc shp it2 st2"
    "iter_view tc shp it2 st2 = ?v" using branch.prev_ok [OF s1(2) ne1, of n ac] s1(3) by auto
  have "op_can_next ?ops it2 st2" "op_can_prev ?ops it2 st2"
    using branch.can_next [OF s2(2)] branch.can_prev [OF s2(2)] ne v s2(3) by simp_all
  moreover have "op_curr ?ops it2 st2 = op_curr ?ops it st"
    using branch.curr [OF s2(2)] branch.curr [OF ok] v s2(3) by simp
  ultimately show ?thesis using s1(1) s2(1) by (auto simp: btree_iterator_ops_def simp del: walk_to_prev.simps)
qed

lemma step_on_and_back_witness:
  "\<exists>it st it1 st1 it2 st2. open_iterator 1 demo_device demo_bt PAGE_TYPE_BRANCH (User_Key [2]) (User_Key [11]) True True 16384 scan_state = Inr (it, st) \<and>
     btree_iterator_next demo_device demo_bt it st = Inr (STATUS_OK, it1, st1) \<and> btree_iterator_prev 1 demo_bt it1 st1 = Inr (STATUS_OK, it2, st2) \<and>
     btree_iterator_curr it2 st2 = (User_Key [3], big_message 30)"
proof -
  have k: "key_short (User_Key [b])" for b by (simp add: key_short_def key_length_def key_is_user_key_def)
  obtain it st where i: "open_iterator (Suc 0) demo_device demo_bt PAGE_TYPE_BRANCH (User_Key [2]) (User_Key [11]) True True 16384 scan_state = Inr (it, st)"
    "iter_ok demo_bt scan_shape it st"
    "ahead True (iter_view demo_bt scan_shape it st) = in_direction True (key_range demo_bt (User_Key [2]) (User_Key [11]) (tree_tuples (iter_node scan_state) (scan_shape 16384)))"
    using open_iterator_ok [of demo_bt scan_state 16384 scan_shape "User_Key [2]" "User_Key [11]" 0 demo_device PAGE_TYPE_BRANCH True True,
        OF demo_config(2) scan_trees(1) k k] by blast
  have a: "ahead True (iter_view demo_bt scan_shape it st) = [(User_Key [3], big_message 30), (User_Key [9], big_message 90)]"
    unfolding i(3) by (simp add: scan_trees(3) in_direction_def key_range_def slice_lex_cmp_def)
  have ne: "ahead True (iter_view demo_bt scan_shape it st) \<noteq> []" by (simp add: a)
  have "btree_iterator_can_next it st" "btree_iterator_can_prev it st"
    using branch.can_curr_iff [OF i(2), of 0 demo_device True] ne by (simp_all add: iterator_can_curr_def btree_iterator_ops_def)
  note s = step_on_and_back [OF i(2) this, of demo_device 0]
  have "btree_iterator_curr it st = (User_Key [3], big_message 30)"
    using branch.curr_is_next [OF i(2) ne, of 0 demo_device] by (simp add: a btree_iterator_ops_def)
  then show ?thesis using s i(1) by (auto simp del: walk_to_prev.simps)
qed

section \<open>Merges\<close>

lemma one_of_a_key:
  assumes "lexical tc" and k: "key_short k" and s: "tuples_sorted tc ts" and e: "\<forall>x \<in> set ts. btree_key_compare tc (fst x) k = 0"
  shows "rev ts = ts"
proof (cases ts)
  case (Cons x us)
  show ?thesis
  proof (cases us)
    case (Cons y vs)
    have "key_short (fst x)" "key_short (fst y)" "btree_key_compare tc (fst x) (fst y) < 0" "btree_key_compare tc (fst y) k \<le> 0"
      using s e \<open>ts = x # us\<close> Cons by simp_all
    then have "btree_key_compare tc (fst x) k < 0"
      using total_compare.cmp_less_trans [OF lexical_compare [OF assms(1)] _ _ k] by blast
    then show ?thesis using e \<open>ts = x # us\<close> by simp
  qed (simp add: Cons)
qed simp

lemma newest_first_ranges:
  assumes lex: "lexical tc" and k: "key_short k" and t: "\<forall>root \<in> set roots. tuples_sorted tc (T root)"
  shows "newest_first (\<lambda>l. dir_cmp (bt_data_cfg tc) d l k = 0) (map (\<lambda>root. in_direction d (key_range tc lo hi (T root))) roots) =
    concat (map (\<lambda>root. filter (\<lambda>x. btree_key_compare tc (fst x) k = 0) (key_range tc lo hi (T root))) (rev roots))"
proof -
  have z: "dir_cmp (bt_data_cfg tc) d l k = 0 \<longleftrightarrow> btree_key_compare tc l k = 0" for l by (simp add: dir_cmp_zero btree_key_compare_def)
  have "filter (\<lambda>x. btree_key_compare tc (fst x) k = 0) (in_direction d (key_range tc lo hi (T root))) =
      filter (\<lambda>x. btree_key_compare tc (fst x) k = 0) (key_range tc lo hi (T root))" if "root \<in> set roots" for root
  proof -
    have "tuples_sorted tc (filter (\<lambda>x. btree_key_compare tc (fst x) k = 0) (key_range tc lo hi (T root)))"
      using t that by (auto simp: key_range_def intro!: sorted_wrt_filter)
    then have "rev (filter (\<lambda>x. btree_key_compare tc (fst x) k = 0) (key_range tc lo hi (T root))) =
        filter (\<lambda>x. btree_key_compare tc (fst x) k = 0) (key_range tc lo hi (T root))"
      by (rule one_of_a_key [OF lex k]) simp
    then show ?thesis by (simp add: in_direction_def rev_filter [symmetric])
  qed
  then show ?thesis by (auto simp: newest_first_def z rev_map comp_def intro!: arg_cong [of _ _ concat])
qed

text \<open>
  C7. A merge of trees is the union of their tuples, with the newest message of a key in front. Iterators
  over up to 1023 trees of one memory, set up one after the other for a range of keys, and a merge of
  them (in a mode other than \<open>MERGE_RAW\<close>, and with the memory it asks for granted) read to its end,
  forwards or backwards, give \<open>STATUS_OK\<close> and a list of tuples in the order of the direction, each key
  once. What the list has for a key is what the trees have for it in the range: their messages merged from
  that of the last tree to that of the first; when the merge is the last one, updates are made final and
  deleted keys left out. The callbacks succeed on the messages that occur.
\<close>

theorem merge_of_trees:
  assumes lex: "lexical tc" and k: "key_short lo" "key_short hi"
    and t: "\<forall>root \<in> set roots. btree_at tc (iter_node st) root (shp root)" and few: "length roots < 1024"
    and N: "length (concat (map (\<lambda>root. tree_tuples (iter_node st) (shp root)) roots)) \<le> N"
    and good: "\<forall>root \<in> set roots. \<forall>x \<in> set (tree_tuples (iter_node st) (shp root)). good (snd x)"
    and merge: "\<And>k old new. good old \<Longrightarrow> good new \<Longrightarrow> \<exists>m. data_merge_tuples (bt_data_cfg tc) k old new = Inr (0, m) \<and> good m"
    and final: "\<And>k m. good m \<Longrightarrow> \<exists>m'. data_merge_tuples_final (bt_data_cfg tc) k m = Inr (0, m')"
    and mode: "mode \<noteq> MERGE_RAW"
  shows "\<exists>out. merge_branches N (Suc n) ac tc type lo hi pf mode d roots st =
      Inr (STATUS_OK, map (\<lambda>x. (Some (fst x), snd x)) out) \<and>
    sorted_wrt (\<lambda>x y. if d then btree_key_compare tc (fst x) (fst y) < 0 else 0 < btree_key_compare tc (fst x) (fst y)) out \<and>
    (\<forall>k. key_short k \<longrightarrow> map_option snd (find (\<lambda>x. btree_key_compare tc (fst x) k = 0) out) =
      merged_value (bt_data_cfg tc) mode (concat (map (\<lambda>root. filter (\<lambda>x. btree_key_compare tc (fst x) k = 0)
        (key_range tc lo hi (tree_tuples (iter_node st) (shp root)))) (rev roots))))"
proof -
  let ?T = "\<lambda>root. tree_tuples (iter_node st) (shp root)"
  let ?xss = "map (\<lambda>root. in_direction d (key_range tc lo hi (?T root))) roots"
  let ?out = "merge_lists (bt_data_cfg tc) mode d ?xss"
  have mo: "merge_order (bt_data_cfg tc) d key_short" by (rule merge_order.intro [OF dir_compare [OF lex]])
  have srt: "\<forall>root \<in> set roots. tuples_sorted tc (?T root)" using t btree_tuples_sorted [OF lex] by blast
  then have asc: "\<forall>xs \<in> set ?xss. total_compare.ascending (dir_cmp (bt_data_cfg tc) d) key_short (map fst xs)"
    using range_ascending [OF lex] by auto
  have c: "dir_cmp (bt_data_cfg tc) d a b = (if d then btree_key_compare tc a b else - btree_key_compare tc a b)" for a b
    by (simp add: dir_cmp_def btree_key_compare_def)
  have "merge_branches N (Suc n) ac tc type lo hi pf mode d roots st = Inr (STATUS_OK, map (\<lambda>x. (Some (fst x), snd x)) ?out)"
    by (rule merge_branches_ok [OF lex k t _ N good merge final]) (use few in \<open>simp_all add: MAX_MERGE_ARITY_def\<close>)
  moreover have "sorted_wrt (\<lambda>x y. if d then btree_key_compare tc (fst x) (fst y) < 0 else 0 < btree_key_compare tc (fst x) (fst y)) ?out"
    using merge_order.merge_lists_sorted [OF mo asc mode] unfolding c by (cases d) simp_all
  moreover have "map_option snd (find (\<lambda>x. btree_key_compare tc (fst x) k = 0) ?out) =
      merged_value (bt_data_cfg tc) mode (concat (map (\<lambda>root. filter (\<lambda>x. btree_key_compare tc (fst x) k = 0)
        (key_range tc lo hi (?T root))) (rev roots)))" if k: "key_short k" for k
    using merge_order.merge_lists_value [OF mo asc k mode] unfolding newest_first_ranges [OF lex k srt]
    by (simp add: list_lookup_def dir_cmp_zero btree_key_compare_def)
  ultimately show ?thesis by blast
qed

lemma merge_of_trees_witness:
  "\<exists>out. merge_branches 6 1 demo_device demo_bt PAGE_TYPE_BRANCH (User_Key [2]) (User_Key [11]) True MERGE_FULL True [16384, 20480] scan_state =
      Inr (STATUS_OK, map (\<lambda>x. (Some (fst x), snd x)) out) \<and>
    map_option snd (find (\<lambda>x. btree_key_compare demo_bt (fst x) (User_Key [3]) = 0) out) = Some (big_message 33)"
proof -
  have k: "key_short (User_Key [b])" for b by (simp add: key_short_def key_length_def key_is_user_key_def)
  have t: "\<forall>root \<in> set [16384, 20480]. btree_at demo_bt (iter_node scan_state) root (scan_shape root)" using scan_trees(1,2) by simp
  have few: "length [16384 :: u64, 20480] < 1024" by simp
  have N: "length (concat (map (\<lambda>root. tree_tuples (iter_node scan_state) (scan_shape root)) [16384, 20480])) \<le> 6" by (simp add: scan_trees(3,4))
  have ins: "msg_type (big_message b) = MESSAGE_TYPE_INSERT" for b by (simp add: big_message_def)
  have def_msg: "message_is_definitive (big_message b)" for b by (simp add: message_is_definitive_def big_message_def)
  then have good: "\<forall>root \<in> set [16384, 20480]. \<forall>x \<in> set (tree_tuples (iter_node scan_state) (scan_shape root)). message_is_definitive (snd x)"
    by (simp add: scan_trees(3,4))
  have merge: "\<exists>m. data_merge_tuples (bt_data_cfg demo_bt) k old new = Inr (0, m) \<and> message_is_definitive m"
    if "message_is_definitive old" "message_is_definitive new" for k old new using that by (simp add: data_merge_tuples_def)
  have final: "\<exists>m'. data_merge_tuples_final (bt_data_cfg demo_bt) k m = Inr (0, m')" if "message_is_definitive m" for k m
    using that by (simp add: data_merge_tuples_final_def)
  obtain out where o: "merge_branches 6 (Suc 0) demo_device demo_bt PAGE_TYPE_BRANCH (User_Key [2]) (User_Key [11]) True MERGE_FULL True [16384, 20480] scan_state =
      Inr (STATUS_OK, map (\<lambda>x. (Some (fst x), snd x)) out)"
    "\<forall>k. key_short k \<longrightarrow> map_option snd (find (\<lambda>x. btree_key_compare demo_bt (fst x) k = 0) out) =
      merged_value (bt_data_cfg demo_bt) MERGE_FULL (concat (map (\<lambda>root. filter (\<lambda>x. btree_key_compare demo_bt (fst x) k = 0)
        (key_range demo_bt (User_Key [2]) (User_Key [11]) (tree_tuples (iter_node scan_state) (scan_shape root)))) (rev [16384, 20480])))"
    using merge_of_trees [OF demo_config(2) k k t few N good merge final, of MERGE_FULL 0 demo_device PAGE_TYPE_BRANCH 2 11 True True] by blast
  have v: "merged_value (bt_data_cfg demo_bt) MERGE_FULL [(User_Key [3], big_message 33), (User_Key [3], big_message 30)] = Some (big_message 33)"
    using ins by (simp add: merged_value_def merge_older_def data_merge_tuples_def def_msg finish_tuple_def not_deleted_def Let_def)
  have e: "concat (map (\<lambda>root. filter (\<lambda>x. btree_key_compare demo_bt (fst x) (User_Key [3]) = 0)
        (key_range demo_bt (User_Key [2]) (User_Key [11]) (tree_tuples (iter_node scan_state) (scan_shape root)))) (rev [16384, 20480])) =
      [(User_Key [3], big_message 33), (User_Key [3], big_message 30)]"
    by (simp add: scan_trees(3,4) key_range_def slice_lex_cmp_def)
  note found = o(2) [rule_format, OF k [of 3], unfolded e v]
  show ?thesis by (rule exI [of _ out], rule conjI [OF _ found]) (use o(1) in simp)
qed

end
