(* ===== verification/Spec2Isabelle.thy ===== *)
theory Spec2Isabelle
  imports TpPolicy MergeProperties
begin

text \<open>
  A model of SplinterDB with the TreePass page cache (\<open>src/splinterdb\<close>) and the theorems that make
  its lower layers correct.

  \<^bold>\<open>The program.\<close> SplinterDB is an embedded key-value store. From the bottom up: asynchronous I/O on
  a device (\<open>io.h\<close>); an allocator of extents with reference counts (\<open>allocator.h\<close>,
  \<open>rc_allocator.c\<close>); a page cache, of which \<open>treepass.c\<close> is the one that the artifact is about; a
  mini allocator that hands out single pages of extents and remembers which extents it holds
  (\<open>mini_allocator.c\<close>); B-trees on these pages (\<open>btree.c\<close>), which are used as memtables and as the
  branches of the trunk (\<open>trunk.c\<close>); and the public interface (\<open>splinterdb.c\<close>) on \<open>core.c\<close>. The
  development has the layers from the device to the B-tree.

  \<^bold>\<open>The page cache\<close>, \<open>treepass.c\<close>. \<open>TpState\<close> has the state: \<open>tp_cc\<close> is the \<open>treepass\<close> structure with its
  entry table, the direct map from pages to entries, the reference counters of every thread, the
  hand, the statistics, the device and the requests in flight; the status word of an entry is a
  word of 32 bits with six flags and the clock counter. \<open>TpRefs\<close>, \<open>TpLocks\<close>, \<open>TpWriteback\<close>, \<open>TpEvict\<close>,
  \<open>TpGet\<close>, \<open>TpDiscard\<close> have the operations in the order of the file, \<open>TpIo\<close> the requests: a request
  is submitted, the kernel completes it later, in an order that a parameter chooses. The
  operations are the steps of one thread while the others hold what they hold: a wait that
  another thread would have to end is the outcome \<open>Blocked\<close>, a failed assertion the outcome \<open>Abort\<close>.
  \<open>TpInv\<close> states the invariant and the memory that a cache presents: the page of the entry where
  one is loaded, the device's copy elsewhere. \<open>TpPreserve\<close>, \<open>TpWritebackPres\<close>, \<open>TpFlush\<close>,
  \<open>TpEvictPres\<close>, \<open>TpHand\<close>, \<open>TpAlloc\<close>, \<open>TpMap\<close>, \<open>TpGetPres\<close>, \<open>TpPrefetch\<close> show that every operation
  keeps the invariant and what it does to the memory; \<open>TpDurable\<close> that a flush makes pages durable;
  \<open>TpClient\<close> and \<open>TpStore\<close> that any sequence of operations of callers and background work refines
  reads and writes of a plain memory. \<open>TpFlags\<close> has the status word. The properties are in
  \<open>TpProperties\<close> and \<open>TpPolicy\<close>, applied to the cache of \<open>TpDemo\<close>.

  \<^bold>\<open>The extent allocator\<close>, \<open>rc_allocator.c\<close>. \<open>RcAllocator\<close> has its state - an array of counts of 32
  bits, the hand, the statistics (as integers), the super-block directory in the meta page - and all operations;
  \<open>RcProofs\<close> the invariant and the effect of each operation, \<open>RcProperties\<close> the
  properties. \<open>ExtentAllocator\<close> is the locale of what a client relies on, interpreted there on the
  allocator.

  \<^bold>\<open>The mini allocator\<close>, \<open>mini_allocator.c\<close>. \<open>MiniAllocator\<close> has the batches, the list of meta pages and
  the operations, written over an extent allocator that is a parameter; \<open>MiniProofs\<close> the invariant,
  \<open>MiniFree\<close> and \<open>MiniLifecycle\<close> the walks and the life from creation to the last reference,
  \<open>MiniProperties\<close> the properties for the reference-count allocator.

  \<^bold>\<open>The B-tree\<close>, \<open>btree.c\<close>. \<open>BtData\<close> has keys, messages and their form on disk (\<open>data_internal.c\<close>,
  \<open>default_data_config.c\<close>); \<open>BtLeaf\<close> and \<open>BtIndex\<close> have the nodes as the bytes of a page, every
  offset and size at its width; \<open>BtNodes\<close> the operations on a parent and a child; \<open>BtTree\<close>
  \<open>btree_insert\<close> with its descent and its attempts, \<open>btree_lookup\<close> and the ranks, on a map from
  addresses to pages with an allocator of pages as parameter; \<open>BtMini\<close> \<open>btree_create\<close>, and the mini
  allocator as the source of pages. The proofs go up in five layers.
  (1) Bytes: \<open>BtDataProofs\<close>, and the locale of \<open>SlottedPage\<close>, which \<open>BtLeafProofs\<close> and \<open>BtIndexProofs\<close>
  interpret for tuples and for pivots: a node is a list of entries.
  (2) Nodes: \<open>BtLeafProofs\<close>, \<open>BtSplit\<close>, \<open>BtPivotProofs\<close>, \<open>BtNodeProofs\<close>, and \<open>BtOrdered\<close>, where the locale
  \<open>KeyOrder\<close> of comparisons gives that search finds what a linear search finds and that the
  incorporation of a tuple is \<open>upsert\<close> on an ordered list, merging the messages.
  (3) Trees: \<open>BtShape\<close> says which pages stand for which list and \<open>BtLookup\<close> that searching a
  tree is searching the list; \<open>BtRoom\<close> that the descent finds room for a pivot in every parent.
  (4) Insertion: \<open>BtPages\<close> has the contract of a source of pages as a locale, \<open>BtLeafStep\<close>, \<open>BtGraft\<close>
  and \<open>BtDescend\<close> the steps, \<open>BtInsert\<close> the descent, \<open>BtRoot\<close> the growth of the root and the changes
  of its smallest pivot, \<open>BtAttempt\<close> and \<open>BtTreeProofs\<close> the attempts and any sequence of insertions,
  lookups and scans from a new tree on.
  (5) \<open>BtMini\<close> interprets the source of pages on the mini allocator over the reference-count
  allocator; \<open>BtProperties\<close> and \<open>BtTreeProperties\<close> have the properties.

  \<^bold>\<open>Iterators\<close>, \<open>iterator.h\<close> and the iterators of \<open>btree.c\<close>. \<open>Iterator\<close> has the table of operations and
  the contract of its clients, the locale \<open>list_cursor\<close>: an iterator is a cursor in a list of tuples, with
  which a step of another iterator does not interfere. \<open>BtIter\<close> has the iterators of a tree: setting up with
  the lookup of the start and of the end, steps from leaf to leaf, seeking. \<open>BtCursor\<close> relates a position
  in a leaf to one in the list, \<open>BtIterProofs\<close> discharges the contract for trees of any height, and \<open>BtScan\<close>
  shows that a scan of a range in either direction reads the tuples of the range.

  \<^bold>\<open>Merges\<close>, \<open>merge.c\<close>. \<open>Merge\<close> has the merge of sorted iterators over any table of operations: the array
  with the live iterators in front, the binary search that puts the first one back, the merging of the
  messages of a key, finalisation and deletions, the change of direction. \<open>MergeProofs\<close> has the search and
  the queue as a sorted list, \<open>MergeSteps\<close> and \<open>MergeRun\<close> one step and the run, in locales over the contract of
  iterators and over callbacks that succeed, \<open>MergeSetup\<close> the creation; \<open>MergeSpec\<close> says what the output has
  for a key. \<open>BtMerge\<close> interprets the contract on iterators over several trees, \<open>MergeProperties\<close> has the
  properties of scans and merges, for one direction from the set-up on; what a change of direction does
  is modelled, and is a finding.

  \<^bold>\<open>Shared.\<close> \<open>Prelude\<close> has the machine integers, the outcomes, loops and the lemma collections;
  \<open>Refinement\<close> the locale of operations that keep an invariant and refine a function on an abstract
  value, used by the cache.

  \<^bold>\<open>Bounds and fuel.\<close> The scan of the allocator tries every extent at most twice (\<open>2 * cap + 1\<close> steps
  of fuel), and \<open>scan_ends_wrap\<close> shows that it answers whatever the hand. A flush runs its rounds
  with the fuel that \<open>TpFlush\<close> shows to be enough. Whether a claim on a node of a tree is granted is the
  answer of the other threads: a list of answers in the state, after which every claim is granted.
  Splitting a leaf gives up on the claim of the next leaf after 101 refusals, as the code does. An
  attempt to insert that is refused a claim starts over; each new attempt has used up a refusal, so
  that \<open>btree_insert\<close> runs with one step of fuel more than there are answers, and
  \<open>insert_loop_done\<close> shows that it returns. A merge advances with fuel for the tuples that it may discard,
  and \<open>MergeRun\<close> shows that the number of the tuples that are left is enough; the search for the previous
  leaf of an iterator needs one step on a tree that does not change meanwhile. The height of a tree is below \<open>BTREE_MAX_HEIGHT = 8\<close>, or else an assertion fails in the
  code that numbers the batches of the mini allocator; the theorems on trees say what may fail.

  \<^bold>\<open>Hypotheses on code outside.\<close> The data configuration (comparison and merge of messages) is a
  parameter. The theorems on B-trees, iterators and merges assume that it compares user keys
  lexicographically, as \<open>default_data_config.c\<close> does (\<open>lexical\<close>: the callback is \<open>slice_lex_cmp\<close>), and not
  only that it is a total order; what the merge callback must do is stated in each theorem. The
  theorems on whole trees are for insertions that \<open>insert_ok\<close> admits: keys of at most \<open>safe_key_size\<close>
  bytes, 384 on pages of 4096 where \<open>btree_insert\<close> accepts 512, and merges that keep a message within
  \<open>MAX_INLINE_MESSAGE_SIZE\<close>. Outside of these bounds the code can lose tuples or stop at an assertion.
  The device of the cache is a map from addresses to pages whose completed requests are done.

  \<^bold>\<open>Not modelled.\<close> The interleavings of two threads within an operation (what another thread does to
  shared state is an answer of the environment); the cache \<open>clockcache.c\<close>, which has the same
  interface; asynchronous gets and lookups, which repeat the synchronous ones as state machines;
  packing and verification of B-trees; the trunk, routing filters, memtables, the core
  and the public interface, which build on the layers above; the log; task queues, locks and the
  platform layer, which are concurrency primitives and system calls; printing, statistics output,
  tests and benchmarks.
\<close>

end
